(* ===== verification/Prelude.thy ===== *)
theory Prelude
  imports
    Main
    "HOL-Library.Word"
    "HOL-Library.Monad_Syntax"
begin

unbundle bit_operations_syntax

text \<open>
  Shared vocabulary of the development.

  The sources are written with C \<^verbatim>\<open>assert\<close>; a failed assertion ends the process.
  A function whose source can abort returns an option: \<open>None\<close> is the abort, and the
  \<open>do\<close> notation of the option monad with explicit state passing writes the sequence
  of statements.  Everything the source reports as a value (a \<^verbatim>\<open>parac_status\<close>, a
  null pointer) stays a value.
\<close>

named_theorems path_bits_simps "bit-level equations of the path fields"
named_theorems store_simps "frame and update equations of the task store"
named_theorems queue_simps "equations of the message send queue"

section \<open>Types\<close>

type_synonym u8 = "8 word"
type_synonym u16 = "16 word"
type_synonym u32 = "32 word"
type_synonym u64 = "64 word"

text \<open>Identifiers of compute nodes (\<^verbatim>\<open>parac_id\<close> is a 64-bit integer).\<close>

type_synonym parac_id = u64

section \<open>Assertions\<close>

definition c_assert :: "bool \<Rightarrow> unit option" where
  "c_assert b = (if b then Some () else None)"

lemma c_assert_simps [simp]:
  "c_assert True = Some ()" "c_assert False = None"
  by (simp_all add: c_assert_def)

lemma c_assert_bind [simp]:
  "(Option.bind (c_assert b) f = Some x) \<longleftrightarrow> b \<and> f () = Some x"
  by (simp add: c_assert_def)

lemma c_assert_eq [simp]: "c_assert b = Some u \<longleftrightarrow> b"
  by (simp add: c_assert_def)

lemma c_assert_bind_None:
  "(Option.bind (c_assert b) f = None) \<longleftrightarrow> (b \<longrightarrow> f () = None)"
  by (simp add: c_assert_def)

lemma bind_c_assert_True: "b \<Longrightarrow> Option.bind (c_assert b) f = f ()"
  by simp

section \<open>Words\<close>

lemma bit_mask_iff_word [simp]:
  "bit (mask n :: 'a::len word) i \<longleftrightarrow> i < min LENGTH('a) n"
  by (simp add: bit_simps)

lemma bit_word_out [simp]: "LENGTH('a) \<le> n \<Longrightarrow> \<not> bit (w :: 'a::len word) n"
  using bit_imp_le_length leD by blast

lemma and_single_bit_neq0:
  "(w AND push_bit n 1 \<noteq> 0) \<longleftrightarrow> bit (w :: 'a::len word) n"
  by (simp add: push_bit_of_1 and_exp_eq_0_iff_not_bit)

lemma bit_replace_word:
  "bit ((p AND NOT (push_bit n 1)) OR push_bit n (of_bool v)) i \<longleftrightarrow>
     (if i = n then v \<and> n < LENGTH('a) else bit (p :: 'a::len word) i)"
  by (auto simp: bit_simps dest: bit_imp_le_length)

lemma unat_and_mask: "unat (w AND mask n) = unat (w :: 'a::len word) mod 2 ^ n"
  by (simp only: take_bit_eq_mask [symmetric] unsigned_take_bit_eq) (simp add: take_bit_eq_mod)

lemma unat_of_nat_small: "n < 2 ^ LENGTH('a) \<Longrightarrow> unat (of_nat n :: 'a::len word) = n"
  by (simp add: unsigned_of_nat take_bit_nat_eq_self)

lemma bit_unat_iff: "bit (unat (w :: 'a::len word)) n = bit w n"
  by (simp add: bit_unsigned_iff)

section \<open>Decimal output\<close>

text \<open>The decimal conversion of \<^verbatim>\<open>printf\<close> (\<^verbatim>\<open>%lu\<close>, \<^verbatim>\<open>%u\<close>).\<close>

fun nat_to_str :: "nat \<Rightarrow> string" where
  "nat_to_str n =
     (if n < 10 then [char_of (48 + n)]
      else nat_to_str (n div 10) @ [char_of (48 + n mod 10)])"

declare nat_to_str.simps [simp del]

lemma nat_to_str_digits: "c \<in> set (nat_to_str n) \<Longrightarrow> 48 \<le> (of_char c :: nat) \<and> of_char c \<le> (57::nat)"
proof (induction n rule: nat_to_str.induct)
  case (1 n)
  show ?case
  proof (cases "n < 10")
    case True
    with "1.prems" show ?thesis by (subst (asm) nat_to_str.simps) auto
  next
    case False
    from "1.prems" False
    have "c \<in> set (nat_to_str (n div 10)) \<or> c = char_of (48 + n mod 10)"
      by (subst (asm) nat_to_str.simps) auto
    moreover have "n mod 10 < 10" by simp
    ultimately show ?thesis using "1.IH" False by auto
  qed
qed

text \<open>Decimal digits, as read by \<^verbatim>\<open>isdigit\<close> and \<^verbatim>\<open>atoi\<close>.\<close>

definition isdigit :: "char \<Rightarrow> bool" where
  "isdigit c \<longleftrightarrow> 48 \<le> (of_char c :: nat) \<and> (of_char c :: nat) \<le> 57"

definition digit :: "char \<Rightarrow> int" where "digit c = of_char c - 48"

lemma digit_range: "isdigit c \<Longrightarrow> 0 \<le> digit c \<and> digit c \<le> 9"
proof -
  assume "isdigit c"
  moreover have "digit c = int (of_char c) - 48" by (simp add: digit_def of_nat_of_char)
  ultimately show ?thesis by (simp add: isdigit_def)
qed

lemma nat_to_str_Cons:
  obtains d ds where "nat_to_str k = d # ds" "isdigit d" "\<forall>c \<in> set ds. isdigit c" "d = CHR ''0'' \<longleftrightarrow> k = 0"
proof -
  have "nat_to_str k \<noteq> [] \<and> (hd (nat_to_str k) = CHR ''0'' \<longleftrightarrow> k = 0)"
  proof (induction k rule: nat_to_str.induct)
    case (1 n)
    have z: "(char_of (48 + n) = CHR ''0'') \<longleftrightarrow> n = 0" if "n < 10"
    proof -
      have "(char_of (48 + n) = CHR ''0'') \<longleftrightarrow> (of_char (char_of (48 + n) :: char) :: nat) = of_char (CHR ''0'')"
        by (simp only: of_char_eq_iff)
      also have "\<dots> \<longleftrightarrow> n = 0" using that by simp
      finally show ?thesis .
    qed
    show ?case
    proof (cases "n < 10")
      case True
      with z show ?thesis by (subst (1 2) nat_to_str.simps) simp
    next
      case False
      with 1 have "nat_to_str (n div 10) \<noteq> []" "hd (nat_to_str (n div 10)) \<noteq> CHR ''0''" by auto
      with False show ?thesis by (subst (1 2) nat_to_str.simps) simp
    qed
  qed
  moreover have "\<forall>c \<in> set (nat_to_str k). isdigit c" using nat_to_str_digits by (auto simp: isdigit_def)
  ultimately show thesis using that by (cases "nat_to_str k") auto
qed

definition digits_val :: "int \<Rightarrow> string \<Rightarrow> int" where
  "digits_val = foldl (\<lambda>a c. 10 * a + digit c)"

lemma digits_val_ge: "0 \<le> acc \<Longrightarrow> \<forall>c \<in> set ds. isdigit c \<Longrightarrow> acc \<le> digits_val acc ds"
proof (induction ds arbitrary: acc)
  case (Cons c ds)
  from Cons.prems digit_range [of c] have "acc \<le> 10 * acc + digit c" "0 \<le> 10 * acc + digit c" by auto
  with Cons.IH [of "10 * acc + digit c"] Cons.prems show ?case by (simp add: digits_val_def)
qed (simp add: digits_val_def)

lemma digits_val_nat: "digits_val 0 (nat_to_str k) = int k"
proof (induction k rule: nat_to_str.induct)
  case (1 n)
  have d: "digit (char_of (48 + j)) = int j" if "j < 10" for j :: nat
  proof -
    have "digit (char_of (48 + j)) = int (of_char (char_of (48 + j) :: char)) - 48"
      by (simp only: digit_def of_nat_of_char)
    also have "\<dots> = int j" using that by simp
    finally show ?thesis .
  qed
  show ?case
  proof (cases "n < 10")
    case True
    then show ?thesis by (subst nat_to_str.simps) (simp add: digits_val_def d)
  next
    case False
    with 1 have "digits_val 0 (nat_to_str (n div 10)) = int (n div 10)" by simp
    moreover have "10 * int (n div 10) + int (n mod 10) = int n"
      by (metis mult_div_mod_eq of_nat_add of_nat_mult of_nat_numeral)
    ultimately show ?thesis using False d [of "n mod 10"]
      by (subst nat_to_str.simps) (simp add: digits_val_def)
  qed
qed

section \<open>Lists\<close>

lemma map_upt_Suc_snoc: "map f [a..<Suc b] = (if a \<le> b then map f [a..<b] @ [f b] else [])"
  by simp

lemma distinct_remove1_notin: "distinct xs \<Longrightarrow> x \<notin> set (remove1 x xs)"
  by simp

lemma remove1_commute: "remove1 x (remove1 y xs) = remove1 y (remove1 x xs)"
  by (induction xs) auto

lemma takeWhile_update_stop:
  "n < length xs \<Longrightarrow> \<forall>x \<in> set (take n xs). P x \<Longrightarrow> \<not> P y \<Longrightarrow> takeWhile P (xs[n := y]) = take n xs"
proof (induction xs arbitrary: n)
  case (Cons x xs)
  then show ?case by (cases n) auto
qed simp

section \<open>Ordered insertion\<close>

text \<open>
  \<^verbatim>\<open>std::lower_bound\<close> with a predicate: halving search for the first element that does not
  satisfy it.
\<close>

fun lower_bound :: "('a \<Rightarrow> bool) \<Rightarrow> 'a list \<Rightarrow> nat \<Rightarrow> nat \<Rightarrow> nat" where
  "lower_bound P xs first len =
     (if len = 0 then first
      else let half = len div 2; middle = first + half
           in if P (xs ! middle) then lower_bound P xs (middle + 1) (len - half - 1)
              else lower_bound P xs first half)"

declare lower_bound.simps [simp del]

definition insert_at :: "nat \<Rightarrow> 'a \<Rightarrow> 'a list \<Rightarrow> 'a list" where
  "insert_at i x xs = take i xs @ x # drop i xs"

lemma lower_bound_partition:
  "first \<le> k \<Longrightarrow> k \<le> first + len \<Longrightarrow> (\<And>i. first \<le> i \<Longrightarrow> i < k \<Longrightarrow> P (xs ! i)) \<Longrightarrow>
   (\<And>i. k \<le> i \<Longrightarrow> i < first + len \<Longrightarrow> \<not> P (xs ! i)) \<Longrightarrow> lower_bound P xs first len = k"
proof (induction P xs first len rule: lower_bound.induct)
  case (1 P xs first len)
  show ?case
  proof (cases "len = 0")
    case True
    with "1.prems" show ?thesis by (simp add: lower_bound.simps)
  next
    case False
    let ?m = "first + len div 2"
    have m: "?m < first + len" using False by simp
    show ?thesis
    proof (cases "P (xs ! ?m)")
      case True
      then have "?m < k" using "1.prems"(4) m by (meson not_le)
      with True False "1.prems" have "lower_bound P xs (?m + 1) (len - len div 2 - 1) = k"
        by (intro "1.IH"(1) [OF False refl refl True]) auto
      with True False show ?thesis by (subst lower_bound.simps) (simp add: Let_def)
    next
      case nP: False
      then have "k \<le> ?m" using "1.prems"(3) [of ?m] by (meson le_add1 not_le)
      with nP False "1.prems" have "lower_bound P xs first (len div 2) = k"
        by (intro "1.IH"(2) [OF False refl refl nP]) auto
      with nP False show ?thesis by (subst lower_bound.simps) (simp add: Let_def)
    qed
  qed
qed

locale weak_order =
  fixes less :: "'a \<Rightarrow> 'a \<Rightarrow> bool"
  assumes less_irrefl: "\<not> less x x"
    and less_trans: "less x y \<Longrightarrow> less y z \<Longrightarrow> less x z"
    and not_less_trans: "\<not> less x y \<Longrightarrow> \<not> less y z \<Longrightarrow> \<not> less x z"
begin

lemma less_asym: "less x y \<Longrightarrow> \<not> less y x"
  using less_trans less_irrefl by blast

lemma sorted_partition:
  assumes "sorted_wrt (\<lambda>x y. \<not> less y x) xs"
  shows "lower_bound (\<lambda>x. less x v) xs 0 (length xs) = length (takeWhile (\<lambda>x. less x v) xs)"
proof (rule lower_bound_partition)
  let ?k = "length (takeWhile (\<lambda>x. less x v) xs)"
  show "?k \<le> 0 + length xs" by (simp add: length_takeWhile_le)
  show "less (xs ! i) v" if "i < ?k" for i
    using that by (metis nth_mem set_takeWhileD takeWhile_nth)
  show "\<not> less (xs ! i) v" if i: "?k \<le> i" "i < 0 + length xs" for i
  proof -
    have k: "\<not> less (xs ! ?k) v" using i nth_length_takeWhile [of "\<lambda>x. less x v" xs] by simp
    have "\<not> less (xs ! i) (xs ! ?k)"
      using assms i less_irrefl by (cases "?k = i") (auto simp: sorted_wrt_iff_nth_less)
    with k show ?thesis using not_less_trans by blast
  qed
qed simp

text \<open>The insertion position keeps the order, before the elements the new one is equal to.\<close>

lemma insert_sorted:
  assumes "sorted_wrt (\<lambda>x y. \<not> less y x) xs"
  shows "sorted_wrt (\<lambda>x y. \<not> less y x) (insert_at (lower_bound (\<lambda>x. less x v) xs 0 (length xs)) v xs)"
proof -
  let ?tw = "takeWhile (\<lambda>x. less x v) xs" and ?dw = "dropWhile (\<lambda>x. less x v) xs"
  have i: "insert_at (lower_bound (\<lambda>x. less x v) xs 0 (length xs)) v xs = ?tw @ v # ?dw"
    by (simp add: sorted_partition [OF assms] insert_at_def takeWhile_eq_take [symmetric]
        dropWhile_eq_drop [symmetric])
  have s: "sorted_wrt (\<lambda>x y. \<not> less y x) (?tw @ ?dw)" using assms by simp
  have lt: "\<And>x. x \<in> set ?tw \<Longrightarrow> less x v" by (meson set_takeWhileD)
  have ge: "\<not> less y v" if "y \<in> set ?dw" for y
  proof -
    from that obtain z zs where Cons: "?dw = z # zs" by (metis list.set_cases)
    then have "\<not> less z v" by (metis dropWhile_eq_Cons_conv)
    moreover have "\<not> less y z"
      using s that Cons less_irrefl by (auto simp: sorted_wrt_append)
    ultimately show ?thesis using not_less_trans by blast
  qed
  have s': "sorted_wrt (\<lambda>x y. \<not> less y x) ?tw" "sorted_wrt (\<lambda>x y. \<not> less y x) ?dw"
    "\<forall>x \<in> set ?tw. \<forall>y \<in> set ?dw. \<not> less y x"
    using iffD1 [OF sorted_wrt_append s] by blast+
  show ?thesis
    unfolding i sorted_wrt_append sorted_wrt.simps list.set
    using s' lt ge less_asym by blast
qed

end

lemma map_insert_at: "map f (insert_at i x xs) = insert_at i (f x) (map f xs)"
  by (simp add: insert_at_def take_map drop_map)

lemma set_insert_at [simp]: "set (insert_at i x xs) = insert x (set xs)"
  using set_append [of "take i xs" "drop i xs"] by (auto simp: insert_at_def)

lemma length_insert_at [simp]: "length (insert_at i x xs) = Suc (length xs)"
  by (simp add: insert_at_def)

lemma distinct_insert_at [simp]: "distinct (insert_at i x xs) \<longleftrightarrow> distinct xs \<and> x \<notin> set xs"
proof -
  have "distinct (a @ x # b) \<longleftrightarrow> distinct (a @ b) \<and> x \<notin> set (a @ b)" for a b by auto
  from this [of "take i xs" "drop i xs"] show ?thesis by (simp add: insert_at_def)
qed

end
