(* ===== verification/Status.thy ===== *)
theory Status
  imports Prelude
begin

text \<open>
  The status codes (\<^verbatim>\<open>include/paracooba/common/status.h\<close>, \<^verbatim>\<open>modules/commonc/status.c\<close>)
  and the message kinds (\<^verbatim>\<open>message_kind.h\<close>, \<^verbatim>\<open>message_kind.c\<close>).  Both are C enums: the
  datatypes list the enumerators in the order of the source, and the code functions give
  their integer values, which the wire formats and the unions of the sources expose.
\<close>

section \<open>Status codes\<close>

datatype parac_status =
    PARAC_OK
  | PARAC_AUTO_SHUTDOWN_TRIGGERED
  | PARAC_FULL
  | PARAC_PENDING
  | PARAC_UNDEFINED
  | PARAC_SAT
  | PARAC_UNSAT
  | PARAC_UNKNOWN
  | PARAC_ABORTED
  | PARAC_SPLITTED
  | PARAC_NO_SPLITS_LEFT
  | PARAC_ABORT_CONNECTION
  | PARAC_TO_BE_DELETED
  | PARAC_CONNECTION_CLOSED
  | PARAC_NO_CONNECTION_ESTABLISHED_ERROR
  | PARAC_MESSAGE_TIMEOUT_ERROR
  | PARAC_OUT_OF_MEMORY
  | PARAC_INVALID_CHAR_ENCOUNTERED
  | PARAC_INVALID_IP
  | PARAC_INVALID_PATH_ERROR
  | PARAC_COMPUTE_NODE_NOT_FOUND_ERROR
  | PARAC_PATH_NOT_FOUND_ERROR
  | PARAC_PARSE_ERROR
  | PARAC_PREMATURE_EXIT
  | PARAC_FORMULA_RECEIVED_TWICE_ERROR
  | PARAC_FILE_NOT_FOUND_ERROR
  | PARAC_CONNECTION_ALREADY_ESTABLISHED_ERROR
  | PARAC_BIND_ERROR
  | PARAC_SOLVER_ALREADY_CONFIGURED_ERROR
  | PARAC_GENERIC_ERROR

text \<open>The integer value of an enumerator: its position in the enum.\<close>

fun status_code :: "parac_status \<Rightarrow> nat" where
  "status_code PARAC_OK = 0"
| "status_code PARAC_AUTO_SHUTDOWN_TRIGGERED = 1"
| "status_code PARAC_FULL = 2"
| "status_code PARAC_PENDING = 3"
| "status_code PARAC_UNDEFINED = 4"
| "status_code PARAC_SAT = 5"
| "status_code PARAC_UNSAT = 6"
| "status_code PARAC_UNKNOWN = 7"
| "status_code PARAC_ABORTED = 8"
| "status_code PARAC_SPLITTED = 9"
| "status_code PARAC_NO_SPLITS_LEFT = 10"
| "status_code PARAC_ABORT_CONNECTION = 11"
| "status_code PARAC_TO_BE_DELETED = 12"
| "status_code PARAC_CONNECTION_CLOSED = 13"
| "status_code PARAC_NO_CONNECTION_ESTABLISHED_ERROR = 14"
| "status_code PARAC_MESSAGE_TIMEOUT_ERROR = 15"
| "status_code PARAC_OUT_OF_MEMORY = 16"
| "status_code PARAC_INVALID_CHAR_ENCOUNTERED = 17"
| "status_code PARAC_INVALID_IP = 18"
| "status_code PARAC_INVALID_PATH_ERROR = 19"
| "status_code PARAC_COMPUTE_NODE_NOT_FOUND_ERROR = 20"
| "status_code PARAC_PATH_NOT_FOUND_ERROR = 21"
| "status_code PARAC_PARSE_ERROR = 22"
| "status_code PARAC_PREMATURE_EXIT = 23"
| "status_code PARAC_FORMULA_RECEIVED_TWICE_ERROR = 24"
| "status_code PARAC_FILE_NOT_FOUND_ERROR = 25"
| "status_code PARAC_CONNECTION_ALREADY_ESTABLISHED_ERROR = 26"
| "status_code PARAC_BIND_ERROR = 27"
| "status_code PARAC_SOLVER_ALREADY_CONFIGURED_ERROR = 28"
| "status_code PARAC_GENERIC_ERROR = 29"

definition all_status :: "parac_status list" where
  "all_status = [PARAC_OK, PARAC_AUTO_SHUTDOWN_TRIGGERED, PARAC_FULL, PARAC_PENDING, PARAC_UNDEFINED, PARAC_SAT, PARAC_UNSAT, PARAC_UNKNOWN, PARAC_ABORTED, PARAC_SPLITTED, PARAC_NO_SPLITS_LEFT, PARAC_ABORT_CONNECTION, PARAC_TO_BE_DELETED, PARAC_CONNECTION_CLOSED, PARAC_NO_CONNECTION_ESTABLISHED_ERROR, PARAC_MESSAGE_TIMEOUT_ERROR, PARAC_OUT_OF_MEMORY, PARAC_INVALID_CHAR_ENCOUNTERED, PARAC_INVALID_IP, PARAC_INVALID_PATH_ERROR, PARAC_COMPUTE_NODE_NOT_FOUND_ERROR, PARAC_PATH_NOT_FOUND_ERROR, PARAC_PARSE_ERROR, PARAC_PREMATURE_EXIT, PARAC_FORMULA_RECEIVED_TWICE_ERROR, PARAC_FILE_NOT_FOUND_ERROR, PARAC_CONNECTION_ALREADY_ESTABLISHED_ERROR, PARAC_BIND_ERROR, PARAC_SOLVER_ALREADY_CONFIGURED_ERROR, PARAC_GENERIC_ERROR]"

definition status_of_code :: "nat \<Rightarrow> parac_status option" where
  "status_of_code n = (if n < length all_status then Some (all_status ! n) else None)"

fun parac_status_to_str :: "parac_status \<Rightarrow> string" where
  "parac_status_to_str PARAC_OK = ''Ok''"
| "parac_status_to_str PARAC_AUTO_SHUTDOWN_TRIGGERED = ''Auto Shutdown Triggered''"
| "parac_status_to_str PARAC_FULL = ''Full''"
| "parac_status_to_str PARAC_PENDING = ''Pending''"
| "parac_status_to_str PARAC_UNDEFINED = ''Undefined''"
| "parac_status_to_str PARAC_TO_BE_DELETED = ''To be deleted''"
| "parac_status_to_str PARAC_SAT = ''SAT''"
| "parac_status_to_str PARAC_UNSAT = ''UNSAT''"
| "parac_status_to_str PARAC_UNKNOWN = ''UNKNOWN''"
| "parac_status_to_str PARAC_ABORTED = ''ABORTED''"
| "parac_status_to_str PARAC_SPLITTED = ''SPLITTED''"
| "parac_status_to_str PARAC_NO_SPLITS_LEFT = ''No Splits Left''"
| "parac_status_to_str PARAC_ABORT_CONNECTION = ''Abort Connection''"
| "parac_status_to_str PARAC_CONNECTION_CLOSED = ''Connection Closed''"
| "parac_status_to_str PARAC_NO_CONNECTION_ESTABLISHED_ERROR = ''No Connection Established''"
| "parac_status_to_str PARAC_MESSAGE_TIMEOUT_ERROR = ''Message Timeout''"
| "parac_status_to_str PARAC_OUT_OF_MEMORY = ''Out of Memory''"
| "parac_status_to_str PARAC_INVALID_CHAR_ENCOUNTERED = ''Invalid Char Encountered''"
| "parac_status_to_str PARAC_INVALID_IP = ''Provided IP address could not be parsed''"
| "parac_status_to_str PARAC_INVALID_PATH_ERROR = ''Provided path is invalid!''"
| "parac_status_to_str PARAC_COMPUTE_NODE_NOT_FOUND_ERROR = ''Compute Node not found Error''"
| "parac_status_to_str PARAC_PATH_NOT_FOUND_ERROR = ''Path not found Error''"
| "parac_status_to_str PARAC_PARSE_ERROR = ''Parse Error''"
| "parac_status_to_str PARAC_PREMATURE_EXIT = ''Premature Exit''"
| "parac_status_to_str PARAC_FORMULA_RECEIVED_TWICE_ERROR = ''Formula received twice Error''"
| "parac_status_to_str PARAC_FILE_NOT_FOUND_ERROR = ''File not found Error''"
| "parac_status_to_str PARAC_CONNECTION_ALREADY_ESTABLISHED_ERROR = ''Connection already established Error''"
| "parac_status_to_str PARAC_BIND_ERROR = ''Bind Error''"
| "parac_status_to_str PARAC_SOLVER_ALREADY_CONFIGURED_ERROR = ''Solver already configured Error''"
| "parac_status_to_str PARAC_GENERIC_ERROR = ''Generic Error''"

lemma all_status_code: "all_status ! status_code s = s" "status_code s < length all_status"
  by (cases s; simp add: all_status_def numeral_eq_Suc)+

lemma status_of_code_code [simp]: "status_of_code (status_code s) = Some s"
  by (simp add: status_of_code_def all_status_code)

lemma status_code_inject [simp]: "status_code s = status_code t \<longleftrightarrow> s = t"
  by (metis option.inject status_of_code_code)

lemma status_code_less: "status_code s < 30"
  by (cases s) simp_all

text \<open>The enumerators are ordered by their codes, as the C comparison of enums does.\<close>

instantiation parac_status :: linorder
begin

definition less_eq_parac_status :: "parac_status \<Rightarrow> parac_status \<Rightarrow> bool" where
  "less_eq_parac_status a b \<longleftrightarrow> status_code a \<le> status_code b"

definition less_parac_status :: "parac_status \<Rightarrow> parac_status \<Rightarrow> bool" where
  "less_parac_status a b \<longleftrightarrow> status_code a < status_code b"

instance
  by intro_classes
    (auto simp: less_eq_parac_status_def less_parac_status_def antisym_conv)

end

section \<open>Message kinds\<close>

datatype parac_message_kind =
    PARAC_MESSAGE_UNKNOWN
  | PARAC_MESSAGE_ONLINE_ANNOUNCEMENT
  | PARAC_MESSAGE_OFFLINE_ANNOUNCEMENT
  | PARAC_MESSAGE_ANNOUNCEMENT_REQUEST
  | PARAC_MESSAGE_NODE_STATUS
  | PARAC_MESSAGE_NODE_DESCRIPTION
  | PARAC_MESSAGE_NEW_REMOTES
  | PARAC_MESSAGE_TASK_REPARENT
  | PARAC_MESSAGE_TASK_RESULT
  | PARAC_MESSAGE_TASK_ABORT
  | PARAC_MESSAGE_SOLVER_DESCRIPTION
  | PARAC_MESSAGE_SOLVER_TASK
  | PARAC_MESSAGE_SOLVER_SAT_ASSIGNMENT
  | PARAC_MESSAGE_SOLVER_NEW_LEARNED_CLAUSE
  | PARAC_MESSAGE_SOLVER_NEW_REMOTE_AVAILABLE
  | PARAC_MESSAGE_FILE
  | PARAC_MESSAGE_ACK
  | PARAC_MESSAGE_END
  | PARAC_MESSAGE_KEEPALIVE
  | PARAC_MESSAGE_COUNT

fun parac_message_kind_to_str :: "parac_message_kind \<Rightarrow> string" where
  "parac_message_kind_to_str PARAC_MESSAGE_UNKNOWN = ''Unknown''"
| "parac_message_kind_to_str PARAC_MESSAGE_ONLINE_ANNOUNCEMENT = ''OnlineAnnouncement''"
| "parac_message_kind_to_str PARAC_MESSAGE_OFFLINE_ANNOUNCEMENT = ''OfflineAnnouncement''"
| "parac_message_kind_to_str PARAC_MESSAGE_ANNOUNCEMENT_REQUEST = ''AnnouncementRequest''"
| "parac_message_kind_to_str PARAC_MESSAGE_NODE_STATUS = ''NodeStatus''"
| "parac_message_kind_to_str PARAC_MESSAGE_NODE_DESCRIPTION = ''NodeDescription''"
| "parac_message_kind_to_str PARAC_MESSAGE_NEW_REMOTES = ''NewRemotes''"
| "parac_message_kind_to_str PARAC_MESSAGE_TASK_REPARENT = ''ReparentTask''"
| "parac_message_kind_to_str PARAC_MESSAGE_TASK_RESULT = ''Task-Result''"
| "parac_message_kind_to_str PARAC_MESSAGE_TASK_ABORT = ''Task-Abort''"
| "parac_message_kind_to_str PARAC_MESSAGE_SOLVER_DESCRIPTION = ''Solver-Description''"
| "parac_message_kind_to_str PARAC_MESSAGE_SOLVER_TASK = ''Solver-Task''"
| "parac_message_kind_to_str PARAC_MESSAGE_SOLVER_SAT_ASSIGNMENT = ''Solver-SAT-Assignment''"
| "parac_message_kind_to_str PARAC_MESSAGE_SOLVER_NEW_LEARNED_CLAUSE = ''Solver-New-Learned-Clause''"
| "parac_message_kind_to_str PARAC_MESSAGE_SOLVER_NEW_REMOTE_AVAILABLE = ''Solver-New-Remote-Available''"
| "parac_message_kind_to_str PARAC_MESSAGE_FILE = ''File''"
| "parac_message_kind_to_str PARAC_MESSAGE_ACK = ''Ack''"
| "parac_message_kind_to_str PARAC_MESSAGE_END = ''End''"
| "parac_message_kind_to_str PARAC_MESSAGE_KEEPALIVE = ''Keep-Alive''"
| "parac_message_kind_to_str PARAC_MESSAGE_COUNT = ''Unknown''"

fun parac_message_kind_is_for_solver :: "parac_message_kind \<Rightarrow> bool" where
  "parac_message_kind_is_for_solver PARAC_MESSAGE_SOLVER_TASK = True"
| "parac_message_kind_is_for_solver PARAC_MESSAGE_SOLVER_DESCRIPTION = True"
| "parac_message_kind_is_for_solver PARAC_MESSAGE_SOLVER_SAT_ASSIGNMENT = True"
| "parac_message_kind_is_for_solver PARAC_MESSAGE_SOLVER_NEW_LEARNED_CLAUSE = True"
| "parac_message_kind_is_for_solver _ = False"

fun parac_message_kind_is_count_tracked :: "parac_message_kind \<Rightarrow> bool" where
  "parac_message_kind_is_count_tracked PARAC_MESSAGE_KEEPALIVE = False"
| "parac_message_kind_is_count_tracked PARAC_MESSAGE_ACK = False"
| "parac_message_kind_is_count_tracked _ = True"

fun parac_message_kind_is_waiting_for_ack :: "parac_message_kind \<Rightarrow> bool" where
  "parac_message_kind_is_waiting_for_ack PARAC_MESSAGE_KEEPALIVE = False"
| "parac_message_kind_is_waiting_for_ack PARAC_MESSAGE_ACK = False"
| "parac_message_kind_is_waiting_for_ack PARAC_MESSAGE_END = False"
| "parac_message_kind_is_waiting_for_ack _ = True"

lemma waiting_for_ack_tracked:
  "parac_message_kind_is_waiting_for_ack k \<Longrightarrow> parac_message_kind_is_count_tracked k"
  by (cases k) simp_all

end
