(* ===== verification/Path.thy ===== *)
theory Path
  imports Status
begin

unbundle bit_operations_syntax

text \<open>
  Paths in the cube tree: \<^verbatim>\<open>include/paracooba/common/path.h\<close> and
  \<^verbatim>\<open>modules/commonc/path.c\<close>.

  The C type is a union over 64 bits; the model is the word \<^verbatim>\<open>rep\<close> itself, and every
  bit field is an explicit getter and setter on it.  The low six bits are \<^verbatim>\<open>length_\<close> (and,
  in the other view of the union, \<^verbatim>\<open>overlength_tag_\<close>), the upper 58 bits are \<^verbatim>\<open>path_\<close> with
  the first decision in bit 63; in the overlength view bits 6 to 62 are
  \<^verbatim>\<open>overlength_length_\<close> and bit 63 is \<^verbatim>\<open>overlength_left_right\<close>.

  An ordinary path of length \<open>l\<close> stands for the list of its first \<open>l\<close> decisions
  (\<open>path_bits\<close>); the lemmas say how every operation acts on that list.
\<close>

type_synonym parac_path = u64

section \<open>Constants and bit fields\<close>

definition PARAC_PATH_MAX_LENGTH :: nat where "PARAC_PATH_MAX_LENGTH = 58"
definition PARAC_PATH_EXPLICITLY_UNKNOWN :: u64 where "PARAC_PATH_EXPLICITLY_UNKNOWN = 0b00111110"
definition PARAC_PATH_PARSER :: u64 where "PARAC_PATH_PARSER = 0b00111101"
definition PARAC_PATH_OVERLENGTH :: u64 where "PARAC_PATH_OVERLENGTH = 0b00111011"
definition PARAC_PATH_EXTENDED :: u64 where "PARAC_PATH_EXTENDED = 0b00111100"
definition PARAC_PATH_LENGTH_BITS :: nat where "PARAC_PATH_LENGTH_BITS = 6"

lemmas path_consts =
  PARAC_PATH_MAX_LENGTH_def PARAC_PATH_EXPLICITLY_UNKNOWN_def PARAC_PATH_PARSER_def
  PARAC_PATH_OVERLENGTH_def PARAC_PATH_EXTENDED_def PARAC_PATH_LENGTH_BITS_def

definition length_fld :: "parac_path \<Rightarrow> u64" where
  "length_fld p = p AND mask 6"

definition set_length_fld :: "parac_path \<Rightarrow> u64 \<Rightarrow> parac_path" where
  "set_length_fld p l = (p AND NOT (mask 6)) OR (l AND mask 6)"

definition path_fld :: "parac_path \<Rightarrow> u64" where
  "path_fld p = drop_bit 6 p"

definition overlength_length :: "parac_path \<Rightarrow> u64" where
  "overlength_length p = drop_bit 6 p AND mask 57"

definition set_overlength_length :: "parac_path \<Rightarrow> u64 \<Rightarrow> parac_path" where
  "set_overlength_length p l =
     (p AND NOT (push_bit 6 (mask 57))) OR push_bit 6 (l AND mask 57)"

definition overlength_left_right :: "parac_path \<Rightarrow> bool" where
  "overlength_left_right p = bit p 63"

definition set_overlength_left_right :: "parac_path \<Rightarrow> bool \<Rightarrow> parac_path" where
  "set_overlength_left_right p n = (p AND NOT (push_bit 63 1)) OR push_bit 63 (of_bool n)"

section \<open>Operations of path.c\<close>

definition parac_path_is_overlength :: "parac_path \<Rightarrow> bool" where
  "parac_path_is_overlength p \<longleftrightarrow> length_fld p = PARAC_PATH_OVERLENGTH"

definition parac_path_is_extended :: "parac_path \<Rightarrow> bool" where
  "parac_path_is_extended p \<longleftrightarrow> length_fld p = PARAC_PATH_EXTENDED"

definition parac_path_length :: "parac_path \<Rightarrow> u64" where
  "parac_path_length p =
     (if parac_path_is_overlength p \<or> parac_path_is_extended p
      then overlength_length p else length_fld p)"

definition parac_path_is_root :: "parac_path \<Rightarrow> bool" where
  "parac_path_is_root p \<longleftrightarrow> length_fld p = 0"

definition parac_path_unknown :: parac_path where
  "parac_path_unknown = PARAC_PATH_EXPLICITLY_UNKNOWN"

definition parac_path_root :: parac_path where
  "parac_path_root = 0"

definition parac_path_left_aligned :: "parac_path \<Rightarrow> u64 option" where
  "parac_path_left_aligned p = do {
     c_assert (\<not> parac_path_is_overlength p);
     c_assert (\<not> parac_path_is_extended p);
     Some (push_bit PARAC_PATH_LENGTH_BITS (path_fld p)) }"

definition parac_path_get_assignment :: "parac_path \<Rightarrow> u64 \<Rightarrow> bool option" where
  "parac_path_get_assignment p d = do {
     c_assert (\<not> parac_path_is_overlength p);
     c_assert (\<not> parac_path_is_extended p);
     c_assert (unat d \<le> PARAC_PATH_MAX_LENGTH);
     c_assert (1 \<le> unat d);
     Some (p AND push_bit (64 - 1 - (unat d - 1)) 1 \<noteq> 0) }"

definition parac_path_set_assignment :: "parac_path \<Rightarrow> u64 \<Rightarrow> bool \<Rightarrow> parac_path option" where
  "parac_path_set_assignment p d v = do {
     c_assert (\<not> parac_path_is_overlength p);
     c_assert (\<not> parac_path_is_extended p);
     c_assert (1 \<le> unat d);
     c_assert (unat d \<le> PARAC_PATH_MAX_LENGTH);
     Some ((p AND NOT (push_bit (64 - 1 - (unat d - 1)) 1))
           OR push_bit (64 - 1 - (unat d - 1)) (of_bool v)) }"

definition parac_path_get_shifted :: "parac_path \<Rightarrow> u64 option" where
  "parac_path_get_shifted p = do {
     c_assert (\<not> parac_path_is_overlength p);
     c_assert (\<not> parac_path_is_extended p);
     Some (drop_bit 6 p) }"

definition parac_path_get_depth_shifted :: "parac_path \<Rightarrow> u64 option" where
  "parac_path_get_depth_shifted p = do {
     c_assert (\<not> parac_path_is_overlength p);
     c_assert (\<not> parac_path_is_extended p);
     c_assert (unat (length_fld p) \<le> PARAC_PATH_MAX_LENGTH);
     if length_fld p = 0 then Some 0
     else Some (drop_bit (64 - unat (length_fld p)) p) }"

definition parac_path_cleanup :: "parac_path \<Rightarrow> parac_path" where
  "parac_path_cleanup p =
     (if \<not> parac_path_is_overlength p then
        let l = length_fld p;
            p' = p AND NOT (drop_bit (unat l) (0xFFFFFFFFFFFFFFFF :: u64))
        in set_length_fld p' l
      else p)"

text \<open>
  \<^verbatim>\<open>parac_path_get_parent\<close> calls \<^verbatim>\<open>parac_path_cleanup\<close> but drops its result (the
  argument is passed by value), so the call has no effect on the returned path.
\<close>

definition parac_path_get_parent :: "parac_path \<Rightarrow> parac_path option" where
  "parac_path_get_parent p = do {
     c_assert (\<not> parac_path_is_overlength p);
     c_assert (1 \<le> unat (length_fld p));
     Some (set_length_fld p (length_fld p - 1)) }"

definition parac_path_get_sibling :: "parac_path \<Rightarrow> parac_path option" where
  "parac_path_get_sibling p = do {
     c_assert (\<not> parac_path_is_overlength p);
     c_assert (\<not> parac_path_is_extended p);
     b \<leftarrow> parac_path_get_assignment p (length_fld p);
     parac_path_set_assignment p (length_fld p) (\<not> b) }"

definition parac_path_get_next :: "parac_path \<Rightarrow> bool \<Rightarrow> parac_path option" where
  "parac_path_get_next p0 n = do {
     c_assert (p0 \<noteq> PARAC_PATH_EXPLICITLY_UNKNOWN);
     let p = (if parac_path_is_extended p0 then set_length_fld p0 PARAC_PATH_OVERLENGTH else p0);
     if parac_path_is_overlength p then
       Some (set_overlength_left_right
               (set_overlength_length p (overlength_length p + 1)) n)
     else do {
       c_assert (unat (length_fld p) \<le> PARAC_PATH_MAX_LENGTH);
       let depth = length_fld p + 1;
       if unat depth = PARAC_PATH_MAX_LENGTH + 1 then
         Some (set_overlength_left_right
                 (set_overlength_length (set_length_fld p PARAC_PATH_OVERLENGTH) depth) n)
       else do {
         q \<leftarrow> parac_path_set_assignment p depth n;
         Some (set_length_fld q depth) } } }"

definition parac_path_get_next_left :: "parac_path \<Rightarrow> parac_path option" where
  "parac_path_get_next_left p = parac_path_get_next p False"

definition parac_path_get_next_right :: "parac_path \<Rightarrow> parac_path option" where
  "parac_path_get_next_right p = parac_path_get_next p True"

definition parac_path_get_next_extended :: "parac_path \<Rightarrow> parac_path" where
  "parac_path_get_next_extended p =
     (let l = parac_path_length p
      in set_overlength_length (set_length_fld p PARAC_PATH_EXTENDED) (l + 1))"

text \<open>
  \<^verbatim>\<open>parac_path_build\<close>: a value of a \<open>w\<close>-bit type (given as a word) moved to the upper
  end, with a length and a final cleanup.
\<close>

definition parac_path_build :: "nat \<Rightarrow> u64 \<Rightarrow> u64 \<Rightarrow> parac_path option" where
  "parac_path_build w p l = do {
     c_assert (unat l \<le> PARAC_PATH_MAX_LENGTH);
     Some (parac_path_cleanup (set_length_fld (push_bit (64 - w) p) l)) }"

section \<open>Text form\<close>

text \<open>
  \<^verbatim>\<open>parac_path_to_str\<close> fills a caller's buffer; the model returns the C string it holds,
  the bytes before the first NUL.  For an ordinary path the source writes 58 digits and then a
  NUL at index \<^verbatim>\<open>length_\<close>.
\<close>

definition NUL :: char where "NUL = CHR 0x00"

definition c_str :: "char list \<Rightarrow> string" where
  "c_str buf = takeWhile (\<lambda>c. c \<noteq> NUL) buf"

definition digit_of_bool :: "bool \<Rightarrow> char" where
  "digit_of_bool b = (if b then CHR ''1'' else CHR ''0'')"

fun opt_list :: "'a option list \<Rightarrow> 'a list option" where
  "opt_list [] = Some []"
| "opt_list (x # xs) = do { y \<leftarrow> x; ys \<leftarrow> opt_list xs; Some (y # ys) }"

definition parac_path_to_str :: "parac_path \<Rightarrow> string option" where
  "parac_path_to_str p =
     (if parac_path_is_root p then Some ''(root)''
      else if length_fld p = PARAC_PATH_EXPLICITLY_UNKNOWN then Some ''(explicitly unknown)''
      else if length_fld p = PARAC_PATH_PARSER then Some ''(parser)''
      else if parac_path_is_extended p then
        Some (take (PARAC_PATH_MAX_LENGTH - 1)
          (''(extended | '' @ nat_to_str (unat (parac_path_length p)) @ '')''))
      else if parac_path_is_overlength p then
        Some (take (PARAC_PATH_MAX_LENGTH - 1)
          (''(overlength | '' @ nat_to_str (unat (overlength_length p)) @ '' | l/r ''
           @ nat_to_str (of_bool (overlength_left_right p)) @ '')''))
      else if unat (length_fld p) > PARAC_PATH_MAX_LENGTH then Some ''(invalid path)''
      else do {
        bs \<leftarrow> opt_list (map (\<lambda>i. parac_path_get_assignment p (of_nat (i + 1)))
                            [0..<PARAC_PATH_MAX_LENGTH]);
        let buf = map digit_of_bool bs @ [NUL];
        Some (c_str (buf[unat (length_fld p) := NUL])) })"

text \<open>
  \<^verbatim>\<open>parac_path_from_str\<close>: the status and the new value of \<^verbatim>\<open>*tgt\<close>, which an invalid
  character leaves unchanged.
\<close>

fun path_from_str_loop ::
  "string \<Rightarrow> nat \<Rightarrow> parac_path \<Rightarrow> (parac_status + parac_path) option" where
  "path_from_str_loop [] i p = Some (Inr p)"
| "path_from_str_loop (c # cs) i p =
     (if c = CHR ''0'' then do {
        q \<leftarrow> parac_path_set_assignment p (of_nat (i + 1)) False;
        path_from_str_loop cs (i + 1) q }
      else if c = CHR ''1'' then do {
        q \<leftarrow> parac_path_set_assignment p (of_nat (i + 1)) True;
        path_from_str_loop cs (i + 1) q }
      else Some (Inl PARAC_INVALID_CHAR_ENCOUNTERED))"

definition parac_path_from_str :: "string \<Rightarrow> parac_path \<Rightarrow> (parac_status \<times> parac_path) option" where
  "parac_path_from_str str tgt = do {
     r \<leftarrow> path_from_str_loop str 0 tgt;
     (case r of
        Inl e \<Rightarrow> Some (e, tgt)
      | Inr p \<Rightarrow> Some (PARAC_OK, set_length_fld p (of_nat (length str)))) }"

section \<open>Bit-level equations\<close>

lemma bit_length_fld [path_bits_simps]: "bit (length_fld p) i \<longleftrightarrow> i < 6 \<and> bit p i"
  by (auto simp: length_fld_def bit_simps)

lemma bit_set_length_fld [path_bits_simps]:
  "bit (set_length_fld p l) i \<longleftrightarrow> (if i < 6 then bit l i else bit p i)"
  by (auto simp: set_length_fld_def bit_simps dest: bit_imp_le_length)

lemma bit_overlength_length [path_bits_simps]:
  "bit (overlength_length p) i \<longleftrightarrow> i < 57 \<and> bit p (i + 6)"
  by (auto simp: overlength_length_def bit_simps add.commute)

lemma bit_set_overlength_length [path_bits_simps]:
  "bit (set_overlength_length p l) i \<longleftrightarrow>
     (if 6 \<le> i \<and> i < 63 then bit l (i - 6) else bit p i)"
  by (auto simp: set_overlength_length_def bit_simps dest: bit_imp_le_length)

lemma bit_set_overlength_left_right [path_bits_simps]:
  "bit (set_overlength_left_right p n) i \<longleftrightarrow> (if i = 63 then n else bit p i)"
  unfolding set_overlength_left_right_def bit_replace_word by simp

lemma unat_length_fld: "unat (length_fld p) < 64"
  by (simp add: length_fld_def unat_and_mask)

lemma length_set_length [simp]: "length_fld (set_length_fld p l) = l AND mask 6"
  by (rule bit_eqI) (auto simp: path_bits_simps bit_simps)

lemma and_mask6_small: "unat (l :: u64) < 64 \<Longrightarrow> l AND mask 6 = l"
  by (simp add: word_unat_eq_iff unat_and_mask)

lemma length_set_overlength [simp]:
  "length_fld (set_overlength_length p l) = length_fld p"
  "length_fld (set_overlength_left_right p n) = length_fld p"
  by (rule bit_eqI; auto simp: path_bits_simps)+

lemma overlength_length_set [simp]:
  "overlength_length (set_overlength_length p l) = l AND mask 57"
  "overlength_length (set_overlength_left_right p n) = overlength_length p"
  "overlength_length (set_length_fld p l) = overlength_length p"
  by (rule bit_eqI; auto simp: path_bits_simps bit_simps)+

lemma left_right_set [simp]:
  "overlength_left_right (set_overlength_left_right p n) = n"
  by (simp add: overlength_left_right_def path_bits_simps)

section \<open>Ordinary paths as lists of decisions\<close>

definition ordinary :: "parac_path \<Rightarrow> bool" where
  "ordinary p \<longleftrightarrow> unat (length_fld p) \<le> PARAC_PATH_MAX_LENGTH"

definition plain :: "parac_path \<Rightarrow> bool" where
  "plain p \<longleftrightarrow> \<not> parac_path_is_overlength p \<and> \<not> parac_path_is_extended p"

definition bits_upto :: "parac_path \<Rightarrow> nat \<Rightarrow> bool list" where
  "bits_upto p l = map (\<lambda>d. bit p (64 - d)) [1..<Suc l]"

definition path_bits :: "parac_path \<Rightarrow> bool list" where
  "path_bits p = bits_upto p (unat (length_fld p))"

lemma ordinary_plain [simp, intro]: "ordinary p \<Longrightarrow> plain p"
  by (auto simp: ordinary_def plain_def parac_path_is_overlength_def
      parac_path_is_extended_def path_consts)

lemma length_bits_upto [simp]: "length (bits_upto p l) = l"
  by (simp add: bits_upto_def)

lemma length_path_bits [simp]: "length (path_bits p) = unat (length_fld p)"
  by (simp add: path_bits_def)

lemma bits_upto_Suc: "bits_upto p (Suc l) = bits_upto p l @ [bit p (64 - Suc l)]"
  by (simp add: bits_upto_def)

lemma bits_upto_cong:
  assumes "\<And>i. 64 - l \<le> i \<Longrightarrow> i < 64 \<Longrightarrow> bit p i = bit q i" "l \<le> 64"
  shows "bits_upto p l = bits_upto q l"
  unfolding bits_upto_def by (rule map_cong) (use assms in auto)

lemma get_assignment_plain:
  "plain p \<Longrightarrow> 1 \<le> unat d \<Longrightarrow> unat d \<le> 58 \<Longrightarrow>
   parac_path_get_assignment p d = Some (bit p (64 - unat d))"
proof -
  assume a: "plain p" "1 \<le> unat d" "unat d \<le> 58"
  then have "64 - 1 - (unat d - 1) = 64 - unat d" by simp
  with a show ?thesis
    unfolding parac_path_get_assignment_def plain_def PARAC_PATH_MAX_LENGTH_def
      and_single_bit_neq0 by simp
qed

lemma set_assignment_plain:
  assumes "plain p" "1 \<le> unat d" "unat d \<le> 58"
  obtains q where "parac_path_set_assignment p d v = Some q"
    and "\<And>i. bit q i = (if i = 64 - unat d then v else bit p i)"
proof -
  have n: "64 - 1 - (unat d - 1) = 64 - unat d" "64 - unat d < LENGTH(64)"
    using assms by auto
  show ?thesis
    by (rule that [of "(p AND NOT (push_bit (64 - unat d) 1))
           OR push_bit (64 - unat d) (of_bool v)"])
      (use assms n in \<open>simp_all only: parac_path_set_assignment_def plain_def
        PARAC_PATH_MAX_LENGTH_def bit_replace_word c_assert_simps Option.bind.simps
        not_False_eq_True simp_thms\<close>)
qed

lemma set_assignment_bits:
  assumes "parac_path_set_assignment p d v = Some q"
  shows "bit q i = (if i = 64 - unat d then v else bit p i)" "1 \<le> unat d" "unat d \<le> 58"
    "length_fld q = length_fld p"
proof -
  have *: "plain p" "1 \<le> unat d" "unat d \<le> 58"
    using assms by (auto simp: parac_path_set_assignment_def plain_def PARAC_PATH_MAX_LENGTH_def)
  obtain q' where q': "parac_path_set_assignment p d v = Some q'"
    "\<And>i. bit q' i = (if i = 64 - unat d then v else bit p i)"
    by (rule set_assignment_plain [OF *, of v]) blast
  with assms have b: "\<And>i. bit q i = (if i = 64 - unat d then v else bit p i)" by simp
  show "bit q i = (if i = 64 - unat d then v else bit p i)" "1 \<le> unat d" "unat d \<le> 58"
    using b * by blast+
  show "length_fld q = length_fld p"
    by (rule bit_eqI) (use * in \<open>auto simp: path_bits_simps b\<close>)
qed


lemma get_set_assignment_same:
  assumes "parac_path_set_assignment p d v = Some q"
  shows "parac_path_get_assignment q d = Some v"
proof -
  have pl: "plain q" 
    using assms set_assignment_bits(4) [OF assms]
    by (auto simp: parac_path_set_assignment_def plain_def parac_path_is_overlength_def
        parac_path_is_extended_def)
  show ?thesis
    using get_assignment_plain [OF pl set_assignment_bits(2,3) [OF assms]]
      set_assignment_bits(1) [OF assms] by simp
qed

lemma get_set_assignment_other:
  assumes "parac_path_set_assignment p d v = Some q" "d \<noteq> e"
  shows "parac_path_get_assignment q e = parac_path_get_assignment p e"
proof (cases "plain p \<and> 1 \<le> unat e \<and> unat e \<le> 58")
  case True
  have pl: "plain q" 
    using True set_assignment_bits(4) [OF assms(1)]
    by (auto simp: plain_def parac_path_is_overlength_def parac_path_is_extended_def)
  have "64 - unat d \<noteq> 64 - unat e"
    using True set_assignment_bits(2,3) [OF assms(1)] assms(2) by (auto simp: word_unat_eq_iff)
  then show ?thesis
    using True get_assignment_plain [OF pl, of e] get_assignment_plain [of p e]
      set_assignment_bits(1) [OF assms(1)] by simp
next
  case False
  then show ?thesis
    using set_assignment_bits(4) [OF assms(1)]
    by (auto simp: plain_def parac_path_get_assignment_def parac_path_is_overlength_def
        parac_path_is_extended_def PARAC_PATH_MAX_LENGTH_def c_assert_def)
qed

text \<open>\<open>clean\<close>: no bit is set between the last decision and the length field.\<close>

definition clean :: "parac_path \<Rightarrow> bool" where
  "clean p \<longleftrightarrow> (\<forall>i \<in> {6..<64 - unat (length_fld p)}. \<not> bit p i)"

lemma get_next_ordinary:
  assumes "unat (length_fld p) < 58"
  obtains q where "parac_path_get_next p b = Some q"
    and "length_fld q = length_fld p + 1" 
    and "\<And>i. 6 \<le> i \<Longrightarrow> bit q i = (if i = 63 - unat (length_fld p) then b else bit p i)"
proof -
  let ?l = "length_fld p"
  have pl: "plain p" using assms by (intro ordinary_plain) (simp add: ordinary_def path_consts)
  have u: "unat (?l + 1) = unat ?l + 1" using assms by (simp add: unat_word_ariths)
  have nu: "p \<noteq> PARAC_PATH_EXPLICITLY_UNKNOWN"
  proof
    assume "p = PARAC_PATH_EXPLICITLY_UNKNOWN"
    then have "unat ?l = 62" by (simp add: path_consts length_fld_def unat_and_mask)
    with assms show False by simp
  qed
  obtain q where q: "parac_path_set_assignment p (?l + 1) b = Some q"
    by (rule set_assignment_plain [OF pl, of "?l + 1" b]) (use u assms in auto)
  note qb = set_assignment_bits [OF q]
  have "parac_path_get_next p b = Some (set_length_fld q (?l + 1))"
    using pl assms u nu q
    by (auto simp: parac_path_get_next_def plain_def PARAC_PATH_MAX_LENGTH_def Let_def)
  moreover have "length_fld (set_length_fld q (?l + 1)) = ?l + 1"
    using assms u by (simp add: and_mask6_small)
  ultimately show ?thesis
    by (rule that) (use qb u in \<open>auto simp: path_bits_simps\<close>)
qed

lemma get_next_bits:
  assumes "unat (length_fld p) < 58" "parac_path_get_next p b = Some q"
  shows "path_bits q = path_bits p @ [b]" "ordinary q" "clean p \<Longrightarrow> clean q"
    "length_fld q = length_fld p + 1"
proof -
  let ?l = "length_fld p"
  have u: "unat (?l + 1) = unat ?l + 1" using assms by (simp add: unat_word_ariths)
  have l: "length_fld q = ?l + 1"
    and b: "\<And>i. 6 \<le> i \<Longrightarrow> bit q i = (if i = 63 - unat ?l then b else bit p i)"
    using assms(2) by (rule_tac get_next_ordinary [OF assms(1), of b], simp)+
  have "bits_upto q (unat ?l) = bits_upto p (unat ?l)"
    by (rule bits_upto_cong) (use assms(1) b in auto)
  then show "path_bits q = path_bits p @ [b]"
    using assms(1) b by (simp add: path_bits_def l u bits_upto_Suc)
  show "ordinary q" using assms(1) by (simp add: ordinary_def l u path_consts)
  show "clean p \<Longrightarrow> clean q" using assms(1) b by (auto simp: clean_def l u)
  show "length_fld q = ?l + 1" by (rule l)
qed

subsection \<open>Cleanup and canonical representations\<close>

lemma bit_cleanup:
  assumes "ordinary p"
  shows "bit (parac_path_cleanup p) i \<longleftrightarrow>
     bit p i \<and> (i < 6 \<or> 64 - unat (length_fld p) \<le> i)"
proof -
  have no: "\<not> parac_path_is_overlength p" using ordinary_plain [OF assms] by (simp add: plain_def)
  have m: "(0xFFFFFFFFFFFFFFFF :: u64) = mask 64" by (simp add: mask_eq_exp_minus_1)
  have len: "unat (length_fld p) \<le> 58" using assms by (simp add: ordinary_def path_consts)
  show ?thesis
    unfolding parac_path_cleanup_def m Let_def if_P [OF no] bit_set_length_fld
    using len by (auto simp: bit_simps path_bits_simps dest: bit_imp_le_length)
qed

lemma cleanup_facts:
  assumes "ordinary p"
  shows "length_fld (parac_path_cleanup p) = length_fld p"
    "path_bits (parac_path_cleanup p) = path_bits p"
    "clean (parac_path_cleanup p)"
proof -
  show l: "length_fld (parac_path_cleanup p) = length_fld p"
    by (rule bit_eqI) (auto simp: path_bits_simps bit_cleanup [OF assms])
  have "bits_upto (parac_path_cleanup p) (unat (length_fld p)) = bits_upto p (unat (length_fld p))"
    by (rule bits_upto_cong)
      (use assms in \<open>auto simp: bit_cleanup ordinary_def path_consts\<close>)
  then show "path_bits (parac_path_cleanup p) = path_bits p" by (simp add: path_bits_def l)
  show "clean (parac_path_cleanup p)" by (auto simp: clean_def l bit_cleanup [OF assms])
qed

lemma bits_upto_nth: "i < l \<Longrightarrow> bits_upto p l ! i = bit p (63 - i)"
  by (simp add: bits_upto_def del: upt_Suc)

lemma path_bits_eq_cleanup:
  assumes "ordinary p" "ordinary q" "path_bits p = path_bits q"
  shows "parac_path_cleanup p = parac_path_cleanup q"
proof (rule bit_eqI)
  fix i
  have l: "length_fld p = length_fld q"
    using arg_cong [OF assms(3), of length] by (simp add: word_unat_eq_iff)
  have len: "unat (length_fld p) \<le> 58" using assms(1) by (simp add: ordinary_def path_consts)
  have low: "i < 6 \<Longrightarrow> bit p i = bit q i"
    using arg_cong [OF l, of "\<lambda>w. bit w i"] by (simp add: path_bits_simps)
  have high: "bit p i = bit q i" if "64 - unat (length_fld p) \<le> i" "i < 64"
  proof -
    from that have "63 - i < unat (length_fld p)" by arith
    with arg_cong [OF assms(3), of "\<lambda>xs. xs ! (63 - i)"] that l show ?thesis
      by (simp add: path_bits_def bits_upto_nth)
  qed
  show "bit (parac_path_cleanup p) i = bit (parac_path_cleanup q) i"
  proof (cases "i < 64")
    case True
    then show ?thesis
      using low high l by (auto simp: bit_cleanup [OF assms(1)] bit_cleanup [OF assms(2)])
  qed simp
qed

lemma clean_cleanup:
  assumes "ordinary p" "clean p"
  shows "parac_path_cleanup p = p"
  by (rule bit_eqI) (use assms in \<open>auto simp: bit_cleanup clean_def not_less\<close>)

subsection \<open>The path as a binary number\<close>

definition bits_num :: "bool list \<Rightarrow> nat" where
  "bits_num bs = foldl (\<lambda>n b. 2 * n + of_bool b) 0 bs"

lemma bits_num_snoc [simp]: "bits_num (bs @ [b]) = 2 * bits_num bs + of_bool b"
  by (simp add: bits_num_def)

lemma bits_num_less: "bits_num bs < 2 ^ length bs"
  by (induction bs rule: rev_induct) (auto simp: bits_num_def of_bool_def)

lemma bits_upto_num: "l \<le> 64 \<Longrightarrow> bits_num (bits_upto p l) = unat p div 2 ^ (64 - l)"
proof (induction l)
  case 0
  have "unat p < 2 ^ 64" using unsigned_less [of p] by simp
  then show ?case by (simp add: bits_upto_def bits_num_def)
next
  case (Suc l)
  have e: "64 - l = Suc (64 - Suc l)" using Suc.prems by simp
  have "bit p (64 - Suc l) \<longleftrightarrow> odd (unat p div 2 ^ (64 - Suc l))"
    by (simp only: bit_unat_iff [symmetric] bit_iff_odd [of "unat p"])
  moreover have "unat p div 2 ^ (64 - l) = unat p div 2 ^ (64 - Suc l) div 2"
    unfolding e power_Suc2 by (rule div_mult2_eq)
  ultimately show ?case using Suc by (simp add: bits_upto_Suc of_bool_def)
qed

lemma depth_shifted_num:
  assumes "ordinary p"
  obtains w where "parac_path_get_depth_shifted p = Some w" "unat w = bits_num (path_bits p)"
proof -
  have len: "unat (length_fld p) \<le> 58" using assms by (simp add: ordinary_def path_consts)
  have pl: "plain p" using assms by simp
  let ?w = "if length_fld p = 0 then 0 else drop_bit (64 - unat (length_fld p)) p"
  have "parac_path_get_depth_shifted p = Some ?w"
    using pl len by (simp add: parac_path_get_depth_shifted_def plain_def path_consts)
  moreover have "unat ?w = bits_num (path_bits p)"
  proof (cases "length_fld p = 0")
    case True
    then show ?thesis by (simp add: path_bits_def bits_upto_def bits_num_def)
  next
    case False
    have "unat (drop_bit n p) = unat p div 2 ^ n" for n
      unfolding unat_drop_bit_eq by (rule drop_bit_eq_div)
    with False show ?thesis
      using len bits_upto_num [of "unat (length_fld p)" p] by (simp only: path_bits_def if_False)
  qed
  ultimately show ?thesis by (rule that)
qed

subsection \<open>Text form\<close>

lemma opt_list_map_Some: "(\<And>x. x \<in> set xs \<Longrightarrow> f x = Some (g x)) \<Longrightarrow> opt_list (map f xs) = Some (map g xs)"
  by (induction xs) auto

lemma digit_neq_NUL [simp]: "digit_of_bool b \<noteq> NUL"
  by (simp add: digit_of_bool_def NUL_def)

lemma to_str_ordinary:
  assumes "ordinary p" "\<not> parac_path_is_root p"
  shows "parac_path_to_str p = Some (map digit_of_bool (path_bits p))"
proof -
  let ?l = "unat (length_fld p)"
  have len: "?l \<le> 58" using assms by (simp add: ordinary_def path_consts)
  have pl: "plain p" using assms by simp
  have g: "opt_list (map (\<lambda>i. parac_path_get_assignment p (of_nat (i + 1))) [0..<58])
     = Some (bits_upto p 58)"
  proof -
    have "parac_path_get_assignment p (of_nat (i + 1)) = Some (bit p (63 - i))"
      if "i \<in> set [0..<58]" for i
    proof -
      have "unat (of_nat (i + 1) :: u64) = i + 1" using that by (intro unat_of_nat_small) simp
      with get_assignment_plain [OF pl, of "of_nat (i + 1)"] that show ?thesis by simp
    qed
    then have "opt_list (map (\<lambda>i. parac_path_get_assignment p (of_nat (i + 1))) [0..<58])
      = Some (map (\<lambda>i. bit p (63 - i)) [0..<58])" by (rule opt_list_map_Some)
    also have "map (\<lambda>i. bit p (63 - i)) [0..<58] = bits_upto p 58"
      by (rule nth_equalityI) (simp_all add: bits_upto_nth del: upt_Suc)
    finally show ?thesis .
  qed
  have t: "take ?l (bits_upto p 58) = path_bits p"
    by (rule nth_equalityI) (use len in \<open>auto simp: bits_upto_nth path_bits_def\<close>)
  have "c_str ((map digit_of_bool (bits_upto p 58) @ [NUL])[?l := NUL])
      = take ?l (map digit_of_bool (bits_upto p 58) @ [NUL])"
    unfolding c_str_def using len
    by (intro takeWhile_update_stop) (auto simp: take_map)
  also have "\<dots> = map digit_of_bool (path_bits p)"
    using len by (simp add: take_map t)
  finally have c: "c_str ((map digit_of_bool (bits_upto p 58) @ [NUL])[?l := NUL])
      = map digit_of_bool (path_bits p)" .
  have nu: "length_fld p \<noteq> PARAC_PATH_EXPLICITLY_UNKNOWN" "length_fld p \<noteq> PARAC_PATH_PARSER"
    using len by (auto simp: path_consts)
  show ?thesis
    using pl nu len g c assms(2)
    by (simp add: parac_path_to_str_def plain_def PARAC_PATH_MAX_LENGTH_def del: upt_Suc)
qed

lemma from_str_loop_digits:
  assumes "plain p" "i + length bs \<le> 58"
  shows "\<exists>q. path_from_str_loop (map digit_of_bool bs) i p = Some (Inr q) \<and> length_fld q = length_fld p
     \<and> (\<forall>k. bit q k = (if 64 - (i + length bs) \<le> k \<and> k < 64 - i then bs ! (63 - i - k) else bit p k))"
  using assms
proof (induction bs arbitrary: i p)
  case Nil
  then show ?case by auto
next
  case (Cons b bs)
  have u: "unat (of_nat (i + 1) :: u64) = i + 1" using Cons.prems by (intro unat_of_nat_small) simp
  obtain p' where p': "parac_path_set_assignment p (of_nat (i + 1)) b = Some p'"
    by (rule set_assignment_plain [OF Cons.prems(1), of "of_nat (i + 1)" b]) (use u Cons.prems in auto)
  note pb = set_assignment_bits [OF p', unfolded u]
  have "plain p'" using Cons.prems(1) pb(4)
    by (simp add: plain_def parac_path_is_overlength_def parac_path_is_extended_def)
  from Cons.IH [OF this, of "i + 1"] Cons.prems(2) obtain q where
    q: "path_from_str_loop (map digit_of_bool bs) (i + 1) p' = Some (Inr q)" "length_fld q = length_fld p'"
    and qb: "\<And>k. bit q k = (if 64 - (i + 1 + length bs) \<le> k \<and> k < 64 - (i + 1)
        then bs ! (63 - (i + 1) - k) else bit p' k)" by auto
  have "path_from_str_loop (map digit_of_bool (b # bs)) i p = Some (Inr q)"
    using p' q(1) by (cases b) (simp_all add: digit_of_bool_def)
  moreover have "bit q k = (if 64 - (i + length (b # bs)) \<le> k \<and> k < 64 - i
      then (b # bs) ! (63 - i - k) else bit p k)" for k
  proof -
    have n: "(b # bs) ! (63 - i - k) = bs ! (63 - (i + 1) - k)" if "k < 64 - (i + 1)"
    proof -
      have "63 - i - k = Suc (63 - (i + 1) - k)" using that by arith
      then show ?thesis by simp
    qed
    show ?thesis unfolding qb pb(1) using Cons.prems(2) n by (auto simp: le_diff_conv)
  qed
  ultimately show ?case using q(2) pb(4) by auto
qed

lemma from_str_digits:
  assumes "plain tgt" "length bs \<le> 58"
  obtains q where "parac_path_from_str (map digit_of_bool bs) tgt = Some (PARAC_OK, q)"
    "ordinary q" "path_bits q = bs"
proof -
  from from_str_loop_digits [OF assms(1), of 0 bs] assms(2) obtain r where
    r: "path_from_str_loop (map digit_of_bool bs) 0 tgt = Some (Inr r)"
    and rb: "\<And>k. bit r k = (if 64 - length bs \<le> k \<and> k < 64 then bs ! (63 - k) else bit tgt k)"
    by auto
  let ?q = "set_length_fld r (of_nat (length bs))"
  have u: "unat (of_nat (length bs) :: u64) = length bs" using assms(2) by (intro unat_of_nat_small) simp
  have l: "length_fld ?q = of_nat (length bs)" using assms(2) u by (simp add: and_mask6_small)
  have "path_bits ?q = bs"
    by (rule nth_equalityI)
      (use assms(2) in \<open>auto simp: path_bits_def l u bits_upto_nth path_bits_simps rb
        simp del: length_set_length\<close>)
  moreover have "ordinary ?q" using l u assms(2) by (simp add: ordinary_def path_consts)
  moreover have "parac_path_from_str (map digit_of_bool bs) tgt = Some (PARAC_OK, ?q)"
    by (simp add: parac_path_from_str_def r)
  ultimately show ?thesis using that by blast
qed

subsection \<open>Every kind of path\<close>

definition path_ok :: "parac_path \<Rightarrow> bool" where
  "path_ok p \<longleftrightarrow> ordinary p \<or> parac_path_is_overlength p \<or> parac_path_is_extended p"

lemma ordinary_not_tagged:
  "ordinary p \<Longrightarrow> \<not> parac_path_is_overlength p" "ordinary p \<Longrightarrow> \<not> parac_path_is_extended p"
  using ordinary_plain [of p] by (auto simp: plain_def)

lemma path_ok_not_unknown: "path_ok p \<Longrightarrow> p \<noteq> PARAC_PATH_EXPLICITLY_UNKNOWN"
proof
  assume "path_ok p" and p: "p = PARAC_PATH_EXPLICITLY_UNKNOWN"
  have "length_fld p = 62" by (simp add: p path_consts length_fld_def mask_eq_exp_minus_1)
  with \<open>path_ok p\<close> show False
    by (auto simp: path_ok_def ordinary_def parac_path_is_overlength_def
        parac_path_is_extended_def path_consts)
qed

lemma get_next_None:
  "\<not> path_ok p \<Longrightarrow> parac_path_get_next p b = None"
  by (auto simp: parac_path_get_next_def path_ok_def ordinary_def Let_def c_assert_bind_None)

lemma overlength_and_mask: "unat (l :: u64) < 2 ^ 57 \<Longrightarrow> l AND mask 57 = l"
  by (simp add: word_unat_eq_iff unat_and_mask)

lemma get_next_tagged:
  assumes "parac_path_is_overlength p \<or> parac_path_is_extended p"
    "unat (overlength_length p) + 1 < 2 ^ 57"
  obtains q where "parac_path_get_next p b = Some q" "parac_path_is_overlength q"
    "overlength_length q = overlength_length p + 1" "overlength_left_right q = b"
proof -
  have ok: "path_ok p" using assms(1) by (auto simp: path_ok_def)
  let ?p = "if parac_path_is_extended p then set_length_fld p PARAC_PATH_OVERLENGTH else p"
  let ?q = "set_overlength_left_right (set_overlength_length ?p (overlength_length ?p + 1)) b"
  have ov: "length_fld ?p = PARAC_PATH_OVERLENGTH"
    using assms(1) by (auto simp: parac_path_is_overlength_def path_consts mask_eq_exp_minus_1)
  have u: "unat (overlength_length p + 1) = unat (overlength_length p) + 1"
    using assms(2) by (simp add: unat_word_ariths)
  show ?thesis
  proof (rule that)
    show "parac_path_get_next p b = Some ?q"
      using ov path_ok_not_unknown [OF ok]
      by (simp add: parac_path_get_next_def Let_def parac_path_is_overlength_def)
    show "parac_path_is_overlength ?q" using ov by (simp add: parac_path_is_overlength_def)
    show "overlength_length ?q = overlength_length p + 1"
      using u assms(2) by (simp add: overlength_and_mask)
    show "overlength_left_right ?q = b" by simp
  qed
qed

lemma get_next_grows_over:
  assumes "unat (length_fld p) = 58"
  obtains q where "parac_path_get_next p b = Some q" "parac_path_is_overlength q"
    "overlength_length q = 59" "overlength_left_right q = b"
proof -
  have ok: "ordinary p" using assms by (simp add: ordinary_def path_consts)
  have l: "length_fld p = 58" using assms by (simp add: word_unat_eq_iff)
  let ?q = "set_overlength_left_right
     (set_overlength_length (set_length_fld p PARAC_PATH_OVERLENGTH) 59) b"
  have "parac_path_get_next p b = Some ?q"
    using ordinary_not_tagged [OF ok] path_ok_not_unknown [of p] ok
    by (simp add: parac_path_get_next_def Let_def l PARAC_PATH_MAX_LENGTH_def path_ok_def)
  moreover have "parac_path_is_overlength ?q" 
    by (simp add: parac_path_is_overlength_def path_consts mask_eq_exp_minus_1)
  ultimately show ?thesis
    by (rule that) (simp_all add: mask_eq_exp_minus_1)
qed

lemma get_next_length:
  assumes "path_ok p" "unat (parac_path_length p) + 1 < 2 ^ 57"
  shows "\<exists>q. parac_path_get_next p b = Some q \<and> path_ok q \<and>
           unat (parac_path_length q) = unat (parac_path_length p) + 1"
proof (cases "parac_path_is_overlength p \<or> parac_path_is_extended p")
  case True
  then have l: "parac_path_length p = overlength_length p" by (simp add: parac_path_length_def)
  with assms(2) True obtain q where "parac_path_get_next p b = Some q" "parac_path_is_overlength q"
    "overlength_length q = overlength_length p + 1" by (metis get_next_tagged)
  with assms(2) l show ?thesis
    by (simp add: parac_path_length_def path_ok_def unat_word_ariths)
next
  case False
  with assms(1) have o: "ordinary p" by (simp add: path_ok_def)
  have l: "parac_path_length p = length_fld p" using False by (simp add: parac_path_length_def)
  show ?thesis
  proof (cases "unat (length_fld p) < 58")
    case True
    obtain q where q: "parac_path_get_next p b = Some q" by (rule get_next_ordinary [OF True])
    note f = get_next_bits [OF True q]
    from f(2,4) True l q ordinary_not_tagged [OF f(2)] show ?thesis
      by (auto simp: parac_path_length_def path_ok_def unat_word_ariths)
  next
    case nl: False
    with o have "unat (length_fld p) = 58" by (simp add: ordinary_def path_consts)
    then show ?thesis
      by (rule get_next_grows_over [of p b])
        (use l \<open>unat (length_fld p) = 58\<close> in \<open>auto simp: parac_path_length_def path_ok_def\<close>)
  qed
qed

subsection \<open>Parent and sibling\<close>

lemma get_parent_bits:
  assumes "ordinary p" "\<not> parac_path_is_root p"
  obtains q where "parac_path_get_parent p = Some q" "ordinary q"
    "path_bits q = butlast (path_bits p)"
proof -
  let ?l = "length_fld p"
  have len: "unat ?l \<le> 58" using assms(1) by (simp add: ordinary_def path_consts)
  have pos: "1 \<le> unat ?l" using assms(2) by (simp add: parac_path_is_root_def word_unat_eq_iff)
  have u: "unat (?l - 1) = unat ?l - 1" using assms(2) by (simp add: unat_minus_one parac_path_is_root_def)
  let ?q = "set_length_fld p (?l - 1)"
  have lq: "unat (length_fld ?q) = unat ?l - 1" using u len by (simp add: unat_and_mask)
  have "bits_upto ?q (unat ?l - 1) = bits_upto p (unat ?l - 1)"
    by (rule bits_upto_cong) (use len in \<open>auto simp: path_bits_simps\<close>)
  moreover have "butlast (bits_upto p (unat ?l)) = bits_upto p (unat ?l - 1)"
    using pos bits_upto_Suc [of p "unat ?l - 1"] by simp
  ultimately have "path_bits ?q = butlast (path_bits p)"
    unfolding path_bits_def lq by simp
  moreover have "parac_path_get_parent p = Some ?q"
    using ordinary_not_tagged(1) [OF assms(1)] pos by (simp add: parac_path_get_parent_def)
  moreover have "ordinary ?q" unfolding ordinary_def lq using len by (simp add: path_consts)
  ultimately show ?thesis using that by blast
qed

lemma get_sibling_next:
  assumes "unat (length_fld p) < 58" "parac_path_get_next p b = Some q"
  shows "parac_path_get_sibling q = parac_path_get_next p (\<not> b)"
proof -
  let ?l = "length_fld p"
  have u: "unat (?l + 1) = unat ?l + 1" using assms by (simp add: unat_word_ariths)
  have l: "length_fld q = ?l + 1" and oq: "ordinary q"
    using get_next_bits [OF assms] by auto
  have pl: "plain q" using oq by simp
  have bq: "\<And>i. 6 \<le> i \<Longrightarrow> bit q i = (if i = 63 - unat ?l then b else bit p i)"
    using assms(2) by (rule_tac get_next_ordinary [OF assms(1), of b], simp)
  obtain r where r: "parac_path_get_next p (\<not> b) = Some r" "length_fld r = ?l + 1"
    "\<And>i. 6 \<le> i \<Longrightarrow> bit r i = (if i = 63 - unat ?l then \<not> b else bit p i)"
    by (rule get_next_ordinary [OF assms(1), of "\<not> b"]) blast
  have g: "parac_path_get_assignment q (?l + 1) = Some b"
    using get_assignment_plain [OF pl, of "?l + 1"] u bq assms(1) by simp
  obtain s where s: "parac_path_set_assignment q (?l + 1) (\<not> b) = Some s"
    by (rule set_assignment_plain [OF pl, of "?l + 1" "\<not> b"]) (use u assms(1) in auto)
  have "s = r"
  proof (rule bit_eqI)
    fix i
    have "i < 6 \<Longrightarrow> bit s i = bit r i"
      using arg_cong [OF set_assignment_bits(4) [OF s], of "\<lambda>w. bit w i"]
        arg_cong [OF trans [OF l r(2) [symmetric]], of "\<lambda>w. bit w i"]
      by (simp add: path_bits_simps)
    then show "bit s i = bit r i"
      using set_assignment_bits(1) [OF s, of i] bq [of i] r(3) [of i] u by (cases "i < 6") auto
  qed
  then show ?thesis
    using pl g s r(1) by (simp add: parac_path_get_sibling_def plain_def l)
qed

section \<open>The path tree as an interface\<close>

text \<open>
  What the task tree relies on: positions of a binary tree, a partial child operation and the
  list of decisions of a position, which determines it.  \<open>descend\<close> follows a list of decisions.
\<close>

fun descend :: "('p \<Rightarrow> bool \<Rightarrow> 'p option) \<Rightarrow> 'p \<Rightarrow> bool list \<Rightarrow> 'p option" where
  "descend child p [] = Some p"
| "descend child p (b # bs) = do { q \<leftarrow> child p b; descend child q bs }"

locale decision_tree =
  fixes root :: 'p
    and child :: "'p \<Rightarrow> bool \<Rightarrow> 'p option"
    and bits :: "'p \<Rightarrow> bool list"
    and valid :: "'p \<Rightarrow> bool"
    and cap :: nat
  assumes root_valid: "valid root"
    and root_bits: "bits root = []"
    and child_step: "valid p \<Longrightarrow> length (bits p) < cap \<Longrightarrow>
      \<exists>q. child p b = Some q \<and> valid q \<and> bits q = bits p @ [b]"
    and bits_inject: "valid p \<Longrightarrow> valid q \<Longrightarrow> bits p = bits q \<Longrightarrow> p = q"
begin

lemma descend_bits:
  "valid p \<Longrightarrow> length (bits p) + length bs \<le> cap \<Longrightarrow>
   \<exists>q. descend child p bs = Some q \<and> valid q \<and> bits q = bits p @ bs"
proof (induction bs arbitrary: p)
  case (Cons b bs)
  then obtain q where q: "child p b = Some q" "valid q" "bits q = bits p @ [b]"
    using child_step [of p b] by auto
  with Cons.IH [of q] Cons.prems(2) show ?case by auto
qed simp

lemma reached_iff:
  assumes "valid p" "length (bits p) \<le> cap"
  shows "descend child root bs = Some p \<and> length bs \<le> cap \<longleftrightarrow> bs = bits p"
proof
  assume "descend child root bs = Some p \<and> length bs \<le> cap"
  then show "bs = bits p" using descend_bits [OF root_valid, of bs] by (auto simp: root_bits)
next
  assume "bs = bits p"
  with descend_bits [OF root_valid, of bs] assms show "descend child root bs = Some p \<and> length bs \<le> cap"
    by (auto simp: root_bits intro: bits_inject)
qed

lemma descend_inject:
  assumes "length bs \<le> cap" "length cs \<le> cap" "descend child root bs = descend child root cs"
  shows "bs = cs"
  using assms descend_bits [OF root_valid, of bs] descend_bits [OF root_valid, of cs]
  by (auto simp: root_bits)

end

lemma ordinary_root: "ordinary parac_path_root" "clean parac_path_root" "path_bits parac_path_root = []"
  by (simp_all add: ordinary_def clean_def parac_path_root_def length_fld_def path_bits_def
      bits_upto_def path_consts)

lemma path_child_step:
  assumes "ordinary p \<and> clean p" "length (path_bits p) < 58"
  shows "\<exists>q. parac_path_get_next p b = Some q \<and> (ordinary q \<and> clean q) \<and> path_bits q = path_bits p @ [b]"
proof -
  from assms have l: "unat (length_fld p) < 58" by simp
  obtain q where q: "parac_path_get_next p b = Some q" by (rule get_next_ordinary [OF l])
  from get_next_bits [OF l q] assms(1) q show ?thesis by blast
qed

lemma path_bits_inject:
  "ordinary p \<and> clean p \<Longrightarrow> ordinary q \<and> clean q \<Longrightarrow> path_bits p = path_bits q \<Longrightarrow> p = q"
  using path_bits_eq_cleanup [of p q] by (simp add: clean_cleanup)

interpretation path_tree: decision_tree parac_path_root parac_path_get_next path_bits
  "\<lambda>p. ordinary p \<and> clean p" 58
  by unfold_locales (use ordinary_root path_child_step path_bits_inject in \<open>simp_all (no_asm_use)\<close>)

section \<open>Properties\<close>

text \<open>
  C40 (path tree).  Starting at the root, every list of at most 58 decisions is followed by
  \<^verbatim>\<open>parac_path_get_next\<close> without an assertion failing, the path reached is an ordinary
  path whose decisions are that list, it is the only clean path with these decisions, and two
  different lists never lead to the same path.
\<close>

theorem path_descend:
  assumes "length bs \<le> 58"
  shows "\<exists>p. descend parac_path_get_next parac_path_root bs = Some p \<and> ordinary p \<and> path_bits p = bs
    \<and> (\<forall>q. ordinary q \<and> clean q \<and> path_bits q = bs \<longrightarrow> q = p)
    \<and> (\<forall>cs. length cs \<le> 58 \<and> descend parac_path_get_next parac_path_root cs = Some p \<longrightarrow> cs = bs)"
  using path_tree.descend_bits [OF path_tree.root_valid, of bs] assms path_bits_inject
    path_tree.descend_inject [OF assms]
  by (auto simp: path_tree.root_bits)

theorem path_descend_witness:
  "length [True, False, True] \<le> 58 \<and>
   (\<exists>p. descend parac_path_get_next parac_path_root [True, False, True] = Some p \<and>
        path_bits p = [True, False, True])"
  using path_descend [of "[True, False, True]"] by auto

text \<open>
  Length.  A child path can be taken of exactly the ordinary, overlength and extended paths,
  and its length as \<^verbatim>\<open>parac_path_length\<close> reports it is one more than the parent's, across
  the switch from 58 stored decisions to the overlength form (lengths below \<open>2 ^ 57 - 1\<close>, the
  range of the overlength counter).
\<close>

lemma get_next_length_law:
  assumes "unat (parac_path_length p) + 1 < 2 ^ 57"
  shows "case parac_path_get_next p b of
      None \<Rightarrow> \<not> path_ok p
    | Some q \<Rightarrow> path_ok p \<and> path_ok q \<and> unat (parac_path_length q) = unat (parac_path_length p) + 1"
  using get_next_length [OF _ assms, of b] get_next_None [of p b] by (cases "path_ok p") auto

lemma get_next_length_law_example:
  "unat (parac_path_length parac_path_root) + 1 < 2 ^ 57 \<and>
   (case parac_path_get_next parac_path_root True of None \<Rightarrow> False
    | Some q \<Rightarrow> unat (parac_path_length q) = 1)"
proof -
  have l: "parac_path_length parac_path_root = 0"
    by (simp add: parac_path_length_def parac_path_root_def length_fld_def path_consts
        parac_path_is_overlength_def parac_path_is_extended_def)
  have "path_ok parac_path_root" using ordinary_root(1) by (simp add: path_ok_def)
  then show ?thesis
    using get_next_length_law [of parac_path_root True] l by (auto split: option.splits)
qed

text \<open>
  The two children.  Below depth 58 the sibling operation maps each child of a path to the
  other one; the number \<^verbatim>\<open>parac_path_get_depth_shifted\<close> of a child is twice the parent's
  number plus the decision, so the numbers of the paths of one depth count from 0 left to right.
\<close>

lemma children_sibling_number:
  assumes "unat (length_fld p) < 58"
  shows "\<exists>l r n. parac_path_get_next_left p = Some l \<and> parac_path_get_next_right p = Some r \<and> l \<noteq> r
    \<and> parac_path_get_sibling l = Some r \<and> parac_path_get_sibling r = Some l
    \<and> parac_path_get_depth_shifted p = Some n
    \<and> parac_path_get_depth_shifted l = Some (2 * n)
    \<and> parac_path_get_depth_shifted r = Some (2 * n + 1)"
proof -
  obtain l where l: "parac_path_get_next p False = Some l" by (rule get_next_ordinary [OF assms])
  obtain r where r: "parac_path_get_next p True = Some r" by (rule get_next_ordinary [OF assms])
  note lf = get_next_bits [OF assms l] and rf = get_next_bits [OF assms r]
  have o: "ordinary p" using assms by (simp add: ordinary_def path_consts)
  obtain n where n: "parac_path_get_depth_shifted p = Some n" "unat n = bits_num (path_bits p)"
    by (rule depth_shifted_num [OF o])
  obtain nl where nl: "parac_path_get_depth_shifted l = Some nl" "unat nl = bits_num (path_bits l)"
    by (rule depth_shifted_num [OF lf(2)])
  obtain nr where nr: "parac_path_get_depth_shifted r = Some nr" "unat nr = bits_num (path_bits r)"
    by (rule depth_shifted_num [OF rf(2)])
  have "(2::nat) ^ length (path_bits p) \<le> 2 ^ 57" using assms by (intro power_increasing) auto
  then have small: "unat n < 2 ^ 57" using bits_num_less [of "path_bits p"] n(2) by linarith
  have "nl = 2 * n" "nr = 2 * n + 1"
    using nl(2) nr(2) lf(1) rf(1) n(2) small by (simp_all add: word_unat_eq_iff unat_word_ariths)
  moreover have "l \<noteq> r" using lf(1) rf(1) by auto
  ultimately show ?thesis
    using l r n nl nr get_sibling_next [OF assms l] get_sibling_next [OF assms r]
    by (auto simp: parac_path_get_next_left_def parac_path_get_next_right_def)
qed

lemma children_sibling_number_example:
  "unat (length_fld parac_path_root) < 58 \<and>
   (\<exists>l. parac_path_get_next_left parac_path_root = Some l \<and>
        parac_path_get_sibling l = parac_path_get_next_right parac_path_root)"
  using children_sibling_number [of parac_path_root]
  by (auto simp: length_fld_def parac_path_root_def)

text \<open>
  Text form round trip.  The text of an ordinary path that is not the root is its decisions
  as digits, and reading it back into any plain path succeeds and gives the same decisions, hence
  the same path after cleanup.
\<close>

lemma path_text_roundtrip:
  assumes "ordinary p" "\<not> parac_path_is_root p" "plain tgt"
  shows "\<exists>s q. parac_path_to_str p = Some s \<and> s = map digit_of_bool (path_bits p)
    \<and> parac_path_from_str s tgt = Some (PARAC_OK, q)
    \<and> path_bits q = path_bits p \<and> parac_path_cleanup q = parac_path_cleanup p"
proof -
  have "length (path_bits p) \<le> 58" using assms(1) by (simp add: ordinary_def path_consts)
  from from_str_digits [OF assms(3) this] obtain q where
    "parac_path_from_str (map digit_of_bool (path_bits p)) tgt = Some (PARAC_OK, q)"
    "ordinary q" "path_bits q = path_bits p" by blast
  with to_str_ordinary [OF assms(1,2)] path_bits_eq_cleanup [of q p] assms(1) show ?thesis by simp
qed

lemma path_text_roundtrip_example:
  "\<exists>p. parac_path_get_next_right parac_path_root = Some p \<and> parac_path_to_str p = Some ''1''"
proof -
  have l0: "unat (length_fld parac_path_root) < 58" by (simp add: length_fld_def parac_path_root_def)
  obtain p where p: "parac_path_get_next parac_path_root True = Some p"
    by (rule get_next_ordinary [OF l0])
  note f = get_next_bits [OF l0 p]
  have "\<not> parac_path_is_root p"
    using f(4) by (simp add: parac_path_is_root_def length_fld_def parac_path_root_def)
  with path_text_roundtrip [OF f(2) _ ordinary_plain [OF ordinary_root(1)]] f(1) p show ?thesis
    by (simp add: parac_path_get_next_right_def ordinary_root(3) digit_of_bool_def)
qed

text \<open>
  Parent.  The parent of a child of a clean ordinary path has the decisions of that path, and
  is that path after a cleanup; without the cleanup, whose result \<^verbatim>\<open>parac_path_get_parent\<close>
  drops, it is that path exactly when the child is the left one: the decision bit of a right child
  stays in the returned representation.
\<close>

lemma get_parent_of_child:
  assumes "clean p" "unat (length_fld p) < 58" "parac_path_get_next p b = Some q"
  shows "\<exists>r. parac_path_get_parent q = Some r \<and> path_bits r = path_bits p
    \<and> parac_path_cleanup r = p \<and> (r = p \<longleftrightarrow> \<not> b)"
proof -
  note f = get_next_bits [OF assms(2,3)]
  have o: "ordinary p" using assms(2) by (simp add: ordinary_def path_consts)
  have u: "unat (length_fld p + 1) = unat (length_fld p) + 1" using assms(2) by (simp add: unat_word_ariths)
  have nr: "\<not> parac_path_is_root q"
    using u by (auto simp: parac_path_is_root_def f(4) word_unat_eq_iff)
  obtain r where r: "parac_path_get_parent q = Some r" "ordinary r" "path_bits r = butlast (path_bits q)"
    by (rule get_parent_bits [OF f(2) nr])
  have pb: "path_bits r = path_bits p" using r(3) f(1) by simp
  have c: "parac_path_cleanup r = p"
    using path_bits_eq_cleanup [OF r(2) o pb] clean_cleanup [OF o assms(1)] by simp
  have bq: "\<And>i. 6 \<le> i \<Longrightarrow> bit q i = (if i = 63 - unat (length_fld p) then b else bit p i)"
    using assms(3) by (rule_tac get_next_ordinary [OF assms(2), of b], simp)
  have rq: "r = set_length_fld q (length_fld q - 1)"
    using r(1) by (auto simp: parac_path_get_parent_def)
  have lr: "length_fld r = length_fld p" using pb by (metis length_path_bits word_unat_eq_iff)
  have br: "\<And>i. 6 \<le> i \<Longrightarrow> bit r i = bit q i" unfolding rq by (simp add: path_bits_simps)
  have "bit r (63 - unat (length_fld p)) = b" using br bq assms(2) by simp
  moreover have "\<not> bit p (63 - unat (length_fld p))" 
    using assms(1,2) unfolding clean_def by (elim ballE [of _ _ "63 - unat (length_fld p)"]) auto
  moreover have "\<not> b \<Longrightarrow> clean r" using assms(1) br bq lr by (auto simp: clean_def)
  ultimately have "r = p \<longleftrightarrow> \<not> b" using clean_cleanup [OF r(2)] c by metis
  with r(1) pb c show ?thesis by blast
qed

lemma get_parent_of_child_example:
  "\<exists>q r. parac_path_get_next parac_path_root True = Some q \<and> parac_path_get_parent q = Some r
     \<and> r \<noteq> parac_path_root \<and> parac_path_cleanup r = parac_path_root"
proof -
  have l0: "unat (length_fld parac_path_root) < 58" by (simp add: length_fld_def parac_path_root_def)
  obtain q where q: "parac_path_get_next parac_path_root True = Some q"
    by (rule get_next_ordinary [OF l0])
  from get_parent_of_child [OF ordinary_root(2) l0 q] q show ?thesis by auto
qed

lemma from_str_invalid:
  assumes "plain tgt" "length bs \<le> 57" "c \<noteq> CHR ''0''" "c \<noteq> CHR ''1''"
  shows "parac_path_from_str (map digit_of_bool bs @ c # cs) tgt
    = Some (PARAC_INVALID_CHAR_ENCOUNTERED, tgt)"
proof -
  have "path_from_str_loop (map digit_of_bool bs @ c # cs) i p
      = Some (Inl PARAC_INVALID_CHAR_ENCOUNTERED)" if "plain p" "i + length bs \<le> 58" for i p
    using that
  proof (induction bs arbitrary: i p)
    case Nil
    then show ?case using assms(3,4) by simp
  next
    case (Cons b bs)
    have u: "unat (of_nat (i + 1) :: u64) = i + 1"
      using Cons.prems by (intro unat_of_nat_small) simp
    obtain p' where p': "parac_path_set_assignment p (of_nat (i + 1)) b = Some p'"
      by (rule set_assignment_plain [OF Cons.prems(1), of "of_nat (i + 1)" b])
        (use u Cons.prems in auto)
    have "plain p'" using Cons.prems(1) set_assignment_bits(4) [OF p']
      by (simp add: plain_def parac_path_is_overlength_def parac_path_is_extended_def)
    with Cons.IH [of p' "i + 1"] Cons.prems(2) p' show ?case
      by (cases b) (simp_all add: digit_of_bool_def)
  qed
  with assms(1,2) show ?thesis by (simp add: parac_path_from_str_def)
qed

end
