(* ===== verification/Task.thy ===== *)
theory Task
  imports Path
begin

unbundle bit_operations_syntax

text \<open>
  Tasks: \<^verbatim>\<open>include/paracooba/common/task.h\<close> and \<^verbatim>\<open>modules/commonc/task.c\<close>.

  A task is a record with the fields of the C struct; tasks live on a heap and refer to each
  other by address.  A function pointer is a value of a datatype that names the functions the
  sources store there.  The union of the struct overlays \<^verbatim>\<open>left_child_\<close> with
  \<^verbatim>\<open>extended_children\<close> and \<^verbatim>\<open>right_child_\<close> with \<^verbatim>\<open>extended_children_results\<close>: each
  word is a slot that knows what was stored in it, and reading a task pointer out of a slot that
  holds an array (or the reverse) is undefined behaviour in the source and \<open>None\<close> here.

  The assessment functions of \<^verbatim>\<open>task.c\<close> call \<^verbatim>\<open>terminate\<close> of a child through its function
  pointer, which leads back into the task store; they take that call as an argument, and the
  theory of the task store closes the loop.
\<close>

section \<open>Task states\<close>

type_synonym parac_task_state = u32

definition PARAC_TASK_NEW :: parac_task_state where "PARAC_TASK_NEW = 0"
definition PARAC_TASK_SPLITTED :: parac_task_state where "PARAC_TASK_SPLITTED = 1"
definition PARAC_TASK_WORK_AVAILABLE :: parac_task_state where "PARAC_TASK_WORK_AVAILABLE = 2"
definition PARAC_TASK_WORKING :: parac_task_state where "PARAC_TASK_WORKING = 4"
definition PARAC_TASK_WAITING_FOR_SPLITS :: parac_task_state where
  "PARAC_TASK_WAITING_FOR_SPLITS = 8"
definition PARAC_TASK_DONE :: parac_task_state where "PARAC_TASK_DONE = 16"
definition PARAC_TASK_SPLITS_DONE :: parac_task_state where "PARAC_TASK_SPLITS_DONE = 32"
definition PARAC_TASK_OFFLOADED :: parac_task_state where "PARAC_TASK_OFFLOADED = 64"
definition PARAC_TASK_ERROR :: parac_task_state where "PARAC_TASK_ERROR = 128"

lemmas task_state_defs =
  PARAC_TASK_NEW_def PARAC_TASK_SPLITTED_def PARAC_TASK_WORK_AVAILABLE_def
  PARAC_TASK_WORKING_def PARAC_TASK_WAITING_FOR_SPLITS_def PARAC_TASK_DONE_def
  PARAC_TASK_SPLITS_DONE_def PARAC_TASK_OFFLOADED_def PARAC_TASK_ERROR_def

text \<open>The C truth value of \<^verbatim>\<open>s & f\<close>.\<close>

definition st_has :: "parac_task_state \<Rightarrow> parac_task_state \<Rightarrow> bool" where
  "st_has s f \<longleftrightarrow> s AND f \<noteq> 0"

definition st_without :: "parac_task_state \<Rightarrow> parac_task_state \<Rightarrow> parac_task_state" where
  "st_without s f = s AND NOT f"

definition parac_task_state_is_done :: "parac_task_state \<Rightarrow> bool" where
  "parac_task_state_is_done s \<longleftrightarrow>
     \<not> st_has s PARAC_TASK_WORK_AVAILABLE \<and> \<not> st_has s PARAC_TASK_WORKING \<and>
     ((\<not> st_has s PARAC_TASK_SPLITTED \<and> st_has s PARAC_TASK_DONE) \<or>
      (st_has s PARAC_TASK_SPLITTED \<and> st_has s PARAC_TASK_SPLITS_DONE))"

text \<open>The stream output of a state.\<close>

definition task_state_to_str :: "parac_task_state \<Rightarrow> string" where
  "task_state_to_str s = ''( ''
     @ (if s = PARAC_TASK_NEW then ''new '' else [])
     @ (if st_has s PARAC_TASK_SPLITTED then ''splitted '' else [])
     @ (if st_has s PARAC_TASK_WORK_AVAILABLE then ''work-available '' else [])
     @ (if st_has s PARAC_TASK_WORKING then ''working '' else [])
     @ (if st_has s PARAC_TASK_WAITING_FOR_SPLITS then ''waiting-for-splits '' else [])
     @ (if st_has s PARAC_TASK_DONE then ''done '' else [])
     @ (if st_has s PARAC_TASK_SPLITS_DONE then ''splits-done '' else [])
     @ (if st_has s PARAC_TASK_OFFLOADED then ''offloaded '' else [])
     @ (if st_has s PARAC_TASK_ERROR then ''error '' else [])
     @ '')''"

section \<open>The task record\<close>

type_synonym task_ref = u64
type_synonym node_ref = u64
type_synonym flag_ref = u64

datatype assess_fn = DefaultAssess | QbfExistentialAssess | QbfUniversalAssess | SolverTaskAssess
datatype terminate_fn = DefaultTerminate | SolverTaskTerminate | QbfSolverTaskTerminate | KissatTaskTerminate

datatype child_slot = SlotNull | SlotTask task_ref
  | SlotChildren "task_ref option list" | SlotResults "parac_status list"

record parac_task =
  last_state :: parac_task_state
  state :: parac_task_state
  result :: parac_status
  stop :: bool
  delete_notification :: "flag_ref option"
  worker :: u32
  extended_children_count :: int
  extended_children_parent_index :: int
  pre_path_sorting_critereon :: u32
  post_path_sorting_critereon :: u32
  path :: parac_path
  received_from :: "node_ref option"
  offloaded_to :: "node_ref option"
  originator :: parac_id
  userdata :: "u64 option"
  assess :: "assess_fn option"
  has_work :: bool
  terminate :: "terminate_fn option"
  has_serialize :: bool
  has_free_userdata :: bool
  parent_task :: "task_ref option"
  slot0 :: child_slot
  slot1 :: child_slot
  left_result :: parac_status
  right_result :: parac_status
  has_task_store :: bool
  has_handle :: bool

text \<open>The two views of the union; \<open>None\<close> is a read through the wrong type.\<close>

fun task_of_slot :: "child_slot \<Rightarrow> task_ref option option" where
  "task_of_slot SlotNull = Some None"
| "task_of_slot (SlotTask r) = Some (Some r)"
| "task_of_slot _ = None"

fun children_of_slot :: "child_slot \<Rightarrow> task_ref option list option option" where
  "children_of_slot SlotNull = Some None"
| "children_of_slot (SlotChildren cs) = Some (Some cs)"
| "children_of_slot _ = None"

fun results_of_slot :: "child_slot \<Rightarrow> parac_status list option option" where
  "results_of_slot SlotNull = Some None"
| "results_of_slot (SlotResults rs) = Some (Some rs)"
| "results_of_slot _ = None"

definition left_child :: "parac_task \<Rightarrow> task_ref option option" where
  "left_child t = task_of_slot (slot0 t)"
definition right_child :: "parac_task \<Rightarrow> task_ref option option" where
  "right_child t = task_of_slot (slot1 t)"
definition extended_children :: "parac_task \<Rightarrow> task_ref option list option option" where
  "extended_children t = children_of_slot (slot0 t)"
definition extended_children_results :: "parac_task \<Rightarrow> parac_status list option option" where
  "extended_children_results t = results_of_slot (slot1 t)"

text \<open>
  \<^verbatim>\<open>parac_task_init\<close>: the last writes to the two union words are the null pointers of the
  extended view, the results of the children stay pending.
\<close>

definition parac_task_init :: parac_task where
  "parac_task_init = \<lparr>
     last_state = PARAC_TASK_NEW, state = PARAC_TASK_NEW, result = PARAC_PENDING, stop = False,
     delete_notification = None, worker = 0, extended_children_count = -1,
     extended_children_parent_index = -1, pre_path_sorting_critereon = 0,
     post_path_sorting_critereon = 0, path = PARAC_PATH_EXPLICITLY_UNKNOWN,
     received_from = None, offloaded_to = None, originator = 0, userdata = None,
     assess = Some DefaultAssess, has_work = False, terminate = None, has_serialize = False,
     has_free_userdata = False, parent_task = None, slot0 = SlotNull, slot1 = SlotNull,
     left_result = PARAC_PENDING, right_result = PARAC_PENDING, has_task_store = False,
     has_handle = False \<rparr>"

definition parac_task_compare :: "parac_task \<Rightarrow> parac_task \<Rightarrow> bool" where
  "parac_task_compare l r =
     (if pre_path_sorting_critereon l \<noteq> pre_path_sorting_critereon r
      then pre_path_sorting_critereon l < pre_path_sorting_critereon r
      else let l_path_length = parac_path_length (path l);
               r_path_length = parac_path_length (path r)
           in if l_path_length \<noteq> r_path_length then l_path_length > r_path_length
              else post_path_sorting_critereon l < post_path_sorting_critereon r)"

section \<open>Heap and outside calls\<close>

text \<open>
  The wrapper of \<^verbatim>\<open>broker_task_store.cpp\<close> around a task: \<open>in_work_queue\<close> is
  \<^verbatim>\<open>workQueueIt != tasksWaitingForWorkerQueue.end()\<close>.
\<close>

record task_wrapper =
  wt :: parac_task
  refcount :: u16
  in_work_queue :: bool

text \<open>
  Calls that leave the tasks and the task store, in the order they are made.
\<close>

datatype outcall =
    IncWorkQueue parac_id
  | DecWorkQueue parac_id
  | FormulaParsed parac_id
  | SendTaskResult node_ref parac_id task_ref parac_status
  | SendTaskAbort node_ref parac_id task_ref
  | PingOnWork
  | RequestExit
  | SetTimeout u32
  | CancelTimeout
  | FreeUserdata task_ref
  | NotifyDeleted flag_ref
  | TerminateHandle task_ref
  | LearnedClause task_ref
  | MessageCallback parac_status

record task_world =
  heap :: "task_ref \<Rightarrow> task_wrapper option"
  exit_status :: parac_status
  outcalls :: "outcall list"

definition emit :: "outcall \<Rightarrow> 'a task_world_scheme \<Rightarrow> 'a task_world_scheme" where
  "emit e w = w\<lparr>outcalls := outcalls w @ [e]\<rparr>"

text \<open>Reading and writing through a task pointer; \<open>None\<close> is a dangling pointer.\<close>

definition get_wrapper :: "task_ref \<Rightarrow> 'a task_world_scheme \<Rightarrow> task_wrapper option" where
  "get_wrapper r w = heap w r"

definition get_task :: "task_ref \<Rightarrow> 'a task_world_scheme \<Rightarrow> parac_task option" where
  "get_task r w = map_option wt (heap w r)"

definition upd_wrapper ::
  "task_ref \<Rightarrow> (task_wrapper \<Rightarrow> task_wrapper) \<Rightarrow> 'a task_world_scheme \<Rightarrow> 'a task_world_scheme option" where
  "upd_wrapper r f w = (case heap w r of
       None \<Rightarrow> None
     | Some tw \<Rightarrow> Some (w\<lparr>heap := (heap w)(r \<mapsto> f tw)\<rparr>))"

definition upd_task ::
  "task_ref \<Rightarrow> (parac_task \<Rightarrow> parac_task) \<Rightarrow> 'a task_world_scheme \<Rightarrow> 'a task_world_scheme option" where
  "upd_task r f w = upd_wrapper r (\<lambda>tw. tw\<lparr>wt := f (wt tw)\<rparr>) w"

section \<open>Result messages\<close>

record parac_task_result_packet =
  task_ptr :: task_ref
  packet_result :: u32

definition parac_task_result_packet_get_result :: "parac_task_result_packet \<Rightarrow> parac_status option" where
  "parac_task_result_packet_get_result p = status_of_code (unat (packet_result p))"

definition parac_task_result_packet_get_task_ptr :: "parac_task_result_packet \<Rightarrow> task_ref" where
  "parac_task_result_packet_get_task_ptr p = task_ptr p"

definition notify_result_cb :: "parac_status \<Rightarrow> 'a task_world_scheme \<Rightarrow> 'a task_world_scheme" where
  "notify_result_cb status w =
     (if status = PARAC_PATH_NOT_FOUND_ERROR \<or> status = PARAC_COMPUTE_NODE_NOT_FOUND_ERROR
      then emit RequestExit (w\<lparr>exit_status := PARAC_GENERIC_ERROR\<rparr>) else w)"

definition result_packet_of :: "task_ref \<Rightarrow> parac_status \<Rightarrow> parac_task_result_packet" where
  "result_packet_of r s = \<lparr>task_ptr = r, packet_result = of_nat (status_code s)\<rparr>"

definition notify_result :: "task_ref \<Rightarrow> 'a task_world_scheme \<Rightarrow> 'a task_world_scheme option" where
  "notify_result r w = do {
     t \<leftarrow> get_task r w;
     node \<leftarrow> received_from t;
     remote \<leftarrow> parent_task t;
     c_assert (has_handle t);
     if result t = PARAC_ABORTED then Some w
     else Some (emit (SendTaskResult node (originator t) remote (result t)) w) }"

section \<open>Assessment\<close>

type_synonym 'w call = "task_ref \<Rightarrow> 'w \<Rightarrow> 'w option"

definition early_abort_task :: "'a task_world_scheme call \<Rightarrow> 'a task_world_scheme call" where
  "early_abort_task term_call r w = do {
     t \<leftarrow> get_task r w;
     if terminate t \<noteq> None then term_call r w else Some w }"

text \<open>
  The loop of the extended assessments that aborts the other children: the child array and the
  results are read again at every index, because a termination can change them.
\<close>

fun abort_extended_from ::
  "'a task_world_scheme call \<Rightarrow> task_ref \<Rightarrow> nat \<Rightarrow> nat \<Rightarrow> 'a task_world_scheme \<Rightarrow> 'a task_world_scheme option" where
  "abort_extended_from term_call r 0 i w = Some w"
| "abort_extended_from term_call r (Suc n) i w = do {
     t \<leftarrow> get_task r w;
     ecs \<leftarrow> extended_children t; cs \<leftarrow> ecs;
     ers \<leftarrow> extended_children_results t; rs \<leftarrow> ers;
     c_assert (i < length cs \<and> i < length rs);
     w' \<leftarrow> (case cs ! i of
         None \<Rightarrow> Some w
       | Some c \<Rightarrow>
           if rs ! i = PARAC_PENDING \<or> rs ! i = PARAC_ABORTED then Some w
           else do {
             ct \<leftarrow> get_task c w;
             if parac_task_state_is_done (state ct) then Some w
             else early_abort_task term_call c w });
     abort_extended_from term_call r n (i + 1) w' }"

text \<open>
  The first loop of the extended assessments over the recorded results: whether a deciding
  result \<open>d\<close> was found (it stops there), and the number of results equal to \<open>o\<close> before.
\<close>

fun scan_results :: "parac_status \<Rightarrow> parac_status \<Rightarrow> parac_status list \<Rightarrow> bool \<times> int" where
  "scan_results d ot [] = (False, 0)"
| "scan_results d ot (r # rs) =
     (if r = d then (True, 0)
      else let (f, k) = scan_results d ot rs in (f, k + of_bool (r = ot)))"

definition assess_extended ::
  "parac_status \<Rightarrow> parac_status \<Rightarrow> 'a task_world_scheme call \<Rightarrow> task_ref \<Rightarrow> bool \<Rightarrow>
   'a task_world_scheme \<Rightarrow> (bool \<times> 'a task_world_scheme) option" where
  "assess_extended d ot term_call r terminate_children w = do {
     t \<leftarrow> get_task r w;
     c_assert (extended_children_count t \<ge> 0);
     ecs \<leftarrow> extended_children t; cs \<leftarrow> ecs;
     ers \<leftarrow> extended_children_results t; rs \<leftarrow> ers;
     if result t = PARAC_SAT \<or> result t = PARAC_UNSAT then Some (False, w)
     else do {
       c_assert (nat (extended_children_count t) \<le> length rs);
       let (found, k) = scan_results d ot (take (nat (extended_children_count t)) rs);
       if found then do {
         w \<leftarrow> upd_task r (\<lambda>t. t\<lparr>result := d\<rparr>) w;
         w \<leftarrow> (if terminate_children
               then abort_extended_from term_call r (nat (extended_children_count t)) 0 w
               else Some w);
         Some (True, w) }
       else if k = extended_children_count t then do {
         w \<leftarrow> upd_task r (\<lambda>t. t\<lparr>result := ot\<rparr>) w;
         Some (True, w) }
       else Some (False, w) } }"

definition existential_assess_extended where
  "existential_assess_extended = assess_extended PARAC_SAT PARAC_UNSAT"

definition universal_assess_extended where
  "universal_assess_extended = assess_extended PARAC_UNSAT PARAC_SAT"

text \<open>
  The conditional abort of one child of a binary task: the child pointer, its recorded result.
\<close>

definition abort_child_if ::
  "parac_status \<Rightarrow> task_ref option \<Rightarrow> 'a task_world_scheme \<Rightarrow> bool option" where
  "abort_child_if recorded child w = (case child of
       None \<Rightarrow> Some False
     | Some c \<Rightarrow>
         if recorded = PARAC_PENDING \<or> recorded = PARAC_ABORTED then Some False
         else do { ct \<leftarrow> get_task c w; Some (\<not> parac_task_state_is_done (state ct)) })"

definition assess_binary ::
  "parac_status \<Rightarrow> parac_status \<Rightarrow> 'a task_world_scheme call \<Rightarrow> task_ref \<Rightarrow> bool \<Rightarrow>
   'a task_world_scheme \<Rightarrow> (bool \<times> 'a task_world_scheme) option" where
  "assess_binary d ot term_call r terminate_children w = do {
     t \<leftarrow> get_task r w;
     if left_result t = d \<or> right_result t = d then do {
       w \<leftarrow> upd_task r (\<lambda>t. t\<lparr>result := d\<rparr>) w;
       w \<leftarrow> (if \<not> terminate_children then Some w
             else do {
               rc \<leftarrow> (if left_result t = d then right_child t else Some None);
               kill_right \<leftarrow> abort_child_if (right_result t) rc w;
               if kill_right then do { c \<leftarrow> rc; early_abort_task term_call c w }
               else do {
                 lc \<leftarrow> (if right_result t = d \<and> left_result t \<noteq> PARAC_PENDING
                           \<and> left_result t \<noteq> PARAC_ABORTED then left_child t else Some None);
                 kill_left \<leftarrow> abort_child_if (left_result t) lc w;
                 if kill_left then do { c \<leftarrow> lc; early_abort_task term_call c w }
                 else Some w } });
       Some (True, w) }
     else if left_result t = ot \<and> right_result t = ot then do {
       w \<leftarrow> upd_task r (\<lambda>t. t\<lparr>result := ot\<rparr>) w;
       Some (True, w) }
     else Some (False, w) }"

definition existential_assess where
  "existential_assess = assess_binary PARAC_SAT PARAC_UNSAT"

definition universal_assess ::
  "'a task_world_scheme call \<Rightarrow> task_ref \<Rightarrow> bool \<Rightarrow>
   'a task_world_scheme \<Rightarrow> (bool \<times> 'a task_world_scheme) option" where
  "universal_assess term_call r terminate_children w = do {
     t \<leftarrow> get_task r w;
     c_assert (extended_children_count t = -1);
     assess_binary PARAC_UNSAT PARAC_SAT term_call r terminate_children w }"

text \<open>
  \<^verbatim>\<open>shared_assess\<close>: its assertion compares the result, a \<^verbatim>\<open>parac_status\<close>, with the
  integer value of the task state \<^verbatim>\<open>PARAC_TASK_SPLITTED\<close>.
\<close>

definition shared_assess ::
  "('a task_world_scheme call \<Rightarrow> task_ref \<Rightarrow> bool \<Rightarrow>
      'a task_world_scheme \<Rightarrow> (bool \<times> 'a task_world_scheme) option) \<Rightarrow>
   'a task_world_scheme call \<Rightarrow> task_ref \<Rightarrow> bool \<Rightarrow>
   'a task_world_scheme \<Rightarrow> (parac_task_state \<times> 'a task_world_scheme) option" where
  "shared_assess a term_call r terminate_children w = do {
     t \<leftarrow> get_task r w;
     c_assert (has_task_store t);
     w \<leftarrow> (if st_has (state t) PARAC_TASK_SPLITTED then do {
        (notify, w) \<leftarrow> a term_call r terminate_children w;
        t \<leftarrow> get_task r w;
        w \<leftarrow> (if result t \<noteq> PARAC_PENDING \<and> result t \<noteq> PARAC_SPLITTED then do {
             c_assert (status_code (result t) \<noteq> unat PARAC_TASK_SPLITTED);
             upd_task r (\<lambda>t. t\<lparr>state := st_without (state t OR PARAC_TASK_SPLITS_DONE)
                                          PARAC_TASK_WAITING_FOR_SPLITS\<rparr>) w }
           else Some w);
        t \<leftarrow> get_task r w;
        if (st_has (state t) PARAC_TASK_SPLITS_DONE \<or> terminate_children)
           \<and> notify \<and> received_from t \<noteq> None
        then notify_result r w else Some w }
      else if received_from t \<noteq> None \<and> result t \<noteq> PARAC_PENDING then notify_result r w
      else if result t \<noteq> PARAC_PENDING
      then upd_task r (\<lambda>t. t\<lparr>state := st_without (state t OR PARAC_TASK_DONE)
                                          PARAC_TASK_WORK_AVAILABLE\<rparr>) w
      else Some w);
     t \<leftarrow> get_task r w;
     Some (state t, w) }"

definition parac_task_default_assess where
  "parac_task_default_assess term_call r w = shared_assess existential_assess term_call r False w"

definition parac_task_qbf_existential_assess where
  "parac_task_qbf_existential_assess term_call r w = do {
     t \<leftarrow> get_task r w;
     shared_assess (if extended_children_count t = -1 then existential_assess
                    else existential_assess_extended) term_call r True w }"

definition parac_task_qbf_universal_assess where
  "parac_task_qbf_universal_assess term_call r w = do {
     t \<leftarrow> get_task r w;
     shared_assess (if extended_children_count t = -1 then universal_assess
                    else universal_assess_extended) term_call r True w }"

section \<open>Order, states and verdicts\<close>

lemma task_compare_key:
  "parac_task_compare l r \<longleftrightarrow>
     pre_path_sorting_critereon l < pre_path_sorting_critereon r \<or>
     pre_path_sorting_critereon l = pre_path_sorting_critereon r \<and>
     (parac_path_length (path r) < parac_path_length (path l) \<or>
      parac_path_length (path l) = parac_path_length (path r) \<and>
      post_path_sorting_critereon l < post_path_sorting_critereon r)"
  by (auto simp: parac_task_compare_def Let_def)

interpretation task_order: weak_order parac_task_compare
  by unfold_locales (auto simp: task_compare_key)

text \<open>States as sets of flags.\<close>

lemma st_has_bits:
  "st_has s PARAC_TASK_SPLITTED \<longleftrightarrow> bit s 0"
  "st_has s PARAC_TASK_WORK_AVAILABLE \<longleftrightarrow> bit s 1"
  "st_has s PARAC_TASK_WORKING \<longleftrightarrow> bit s 2"
  "st_has s PARAC_TASK_WAITING_FOR_SPLITS \<longleftrightarrow> bit s 3"
  "st_has s PARAC_TASK_DONE \<longleftrightarrow> bit s 4"
  "st_has s PARAC_TASK_SPLITS_DONE \<longleftrightarrow> bit s 5"
  "st_has s PARAC_TASK_OFFLOADED \<longleftrightarrow> bit s 6"
  using and_exp_eq_0_iff_not_bit [of s 0] and_exp_eq_0_iff_not_bit [of s 1]
    and_exp_eq_0_iff_not_bit [of s 2] and_exp_eq_0_iff_not_bit [of s 3]
    and_exp_eq_0_iff_not_bit [of s 4] and_exp_eq_0_iff_not_bit [of s 5]
    and_exp_eq_0_iff_not_bit [of s 6]
  by (simp_all add: st_has_def task_state_defs)

lemma flag_bits:
  "bit PARAC_TASK_NEW i \<longleftrightarrow> False"
  "bit PARAC_TASK_SPLITTED i \<longleftrightarrow> i = 0"
  "bit PARAC_TASK_WORK_AVAILABLE i \<longleftrightarrow> i = 1"
  "bit PARAC_TASK_WORKING i \<longleftrightarrow> i = 2"
  "bit PARAC_TASK_WAITING_FOR_SPLITS i \<longleftrightarrow> i = 3"
  "bit PARAC_TASK_DONE i \<longleftrightarrow> i = 4"
  "bit PARAC_TASK_SPLITS_DONE i \<longleftrightarrow> i = 5"
  "bit PARAC_TASK_OFFLOADED i \<longleftrightarrow> i = 6"
proof -
  have "bit (2 ^ n :: u32) i \<longleftrightarrow> i = n" if "n < 32" for n
    using that by (auto simp: bit_exp_iff dest: bit_imp_le_length)
  from this [of 0] this [of 1] this [of 2] this [of 3] this [of 4] this [of 5] this [of 6]
  show "bit PARAC_TASK_SPLITTED i \<longleftrightarrow> i = 0"
    "bit PARAC_TASK_WORK_AVAILABLE i \<longleftrightarrow> i = 1"
    "bit PARAC_TASK_WORKING i \<longleftrightarrow> i = 2"
    "bit PARAC_TASK_WAITING_FOR_SPLITS i \<longleftrightarrow> i = 3"
    "bit PARAC_TASK_DONE i \<longleftrightarrow> i = 4"
    "bit PARAC_TASK_SPLITS_DONE i \<longleftrightarrow> i = 5"
    "bit PARAC_TASK_OFFLOADED i \<longleftrightarrow> i = 6"
    by (simp_all add: task_state_defs)
qed (simp add: task_state_defs)

lemma bit_st_without: "bit (st_without s f) i \<longleftrightarrow> bit s i \<and> \<not> bit f i"
  by (auto simp: st_without_def bit_simps dest: bit_imp_le_length)

lemmas state_bits = st_has_bits flag_bits bit_st_without bit_or_iff

lemma is_done_bits:
  "parac_task_state_is_done s \<longleftrightarrow>
     \<not> bit s 1 \<and> \<not> bit s 2 \<and> (if bit s 0 then bit s 5 else bit s 4)"
  by (auto simp: parac_task_state_is_done_def state_bits)

lemma splits_done_and:
  "s AND PARAC_TASK_SPLITS_DONE = PARAC_TASK_SPLITS_DONE \<longleftrightarrow> bit s 5"
proof
  assume "s AND PARAC_TASK_SPLITS_DONE = PARAC_TASK_SPLITS_DONE"
  then have "bit (s AND PARAC_TASK_SPLITS_DONE) 5" by (simp add: flag_bits)
  then show "bit s 5" by (simp add: bit_and_iff)
next
  assume "bit s 5"
  then show "s AND PARAC_TASK_SPLITS_DONE = PARAC_TASK_SPLITS_DONE"
    by (intro bit_eqI) (auto simp: bit_and_iff flag_bits)
qed

text \<open>Verdicts of the recorded results of the children.\<close>

lemma scan_results_found: "fst (scan_results d ot rs) \<longleftrightarrow> d \<in> set rs"
  by (induction rs) (auto split: prod.splits)

lemma scan_results_count:
  "d \<notin> set rs \<Longrightarrow> snd (scan_results d ot rs) = int (length (filter (\<lambda>r. r = ot) rs))"
  by (induction rs) (auto split: prod.splits)

definition verdict :: "parac_status \<Rightarrow> parac_status \<Rightarrow> parac_status list \<Rightarrow> parac_status option" where
  "verdict d ot rs = (if d \<in> set rs then Some d else if \<forall>r \<in> set rs. r = ot then Some ot else None)"

lemma scan_results_verdict:
  "scan_results d ot rs = (f, k) \<Longrightarrow>
   verdict d ot rs = (if f then Some d else if k = int (length rs) then Some ot else None)"
  using scan_results_found [of d ot rs] scan_results_count [of d rs ot]
  by (auto simp: verdict_def filter_id_conv dest: length_filter_less
      intro: ccontr split: if_splits)

section \<open>The heap\<close>

lemma upd_wrapper_simp [simp]:
  "heap w r = Some tw \<Longrightarrow> upd_wrapper r f w = Some (w\<lparr>heap := (heap w)(r \<mapsto> f tw)\<rparr>)"
  by (simp add: upd_wrapper_def)

lemma upd_wrapper_iff:
  "upd_wrapper r f w = Some w' \<longleftrightarrow> (\<exists>tw. heap w r = Some tw \<and> w' = w\<lparr>heap := (heap w)(r \<mapsto> f tw)\<rparr>)"
  by (auto simp: upd_wrapper_def split: option.splits)

lemma upd_task_simp [simp]:
  "heap w r = Some tw \<Longrightarrow> upd_task r f w = Some (w\<lparr>heap := (heap w)(r \<mapsto> tw\<lparr>wt := f (wt tw)\<rparr>)\<rparr>)"
  by (simp add: upd_task_def)

lemma upd_task_iff:
  "upd_task r f w = Some w' \<longleftrightarrow>
     (\<exists>tw. heap w r = Some tw \<and> w' = w\<lparr>heap := (heap w)(r \<mapsto> tw\<lparr>wt := f (wt tw)\<rparr>)\<rparr>)"
  by (simp add: upd_task_def upd_wrapper_iff)

lemma get_task_simp [simp]: "heap w r = Some tw \<Longrightarrow> get_task r w = Some (wt tw)"
  by (simp add: get_task_def)

lemma get_task_iff: "get_task r w = Some t \<longleftrightarrow> (\<exists>tw. heap w r = Some tw \<and> t = wt tw)"
  by (auto simp: get_task_def)

lemma get_wrapper_simp [simp]: "heap w r = Some tw \<Longrightarrow> get_wrapper r w = Some tw"
  by (simp add: get_wrapper_def)

lemma emit_simps [simp]:
  "heap (emit e w) = heap w" "exit_status (emit e w) = exit_status w"
  "outcalls (emit e w) = outcalls w @ [e]" "get_task r (emit e w) = get_task r w"
  by (simp_all add: emit_def get_task_def)

section \<open>Quantified tasks\<close>

text \<open>
  The existential and the universal assessment are the same computation with the roles of the two
  results exchanged: \<open>d\<close> decides the task alone, \<open>ot\<close> only when every child has it.
\<close>

locale quantifier =
  fixes d ot :: parac_status
  assumes verdicts: "{d, ot} = {PARAC_SAT, PARAC_UNSAT}"
begin

lemma distinct_verdicts: "d \<noteq> ot"
  using verdicts by (auto simp: doubleton_eq_iff)

lemma final: "d \<in> {PARAC_SAT, PARAC_UNSAT}" "ot \<in> {PARAC_SAT, PARAC_UNSAT}"
  using verdicts by auto

lemma binary_no_termination:
  assumes "heap w r = Some tw"
  shows "assess_binary d ot term_call r False w =
    (case verdict d ot [left_result (wt tw), right_result (wt tw)] of
       None \<Rightarrow> Some (False, w)
     | Some v \<Rightarrow> Some (True, w\<lparr>heap := (heap w)(r \<mapsto> tw\<lparr>wt := (wt tw)\<lparr>result := v\<rparr>\<rparr>)\<rparr>))"
  using assms distinct_verdicts by (auto simp: assess_binary_def verdict_def)

lemma abort_extended_none:
  assumes "heap w r = Some tw" "slot0 (wt tw) = SlotChildren cs" "slot1 (wt tw) = SlotResults rs"
    and "\<And>i c. i < length cs \<Longrightarrow> cs ! i = Some c \<Longrightarrow>
       rs ! i \<in> {PARAC_PENDING, PARAC_ABORTED} \<or>
       (\<exists>ctw. heap w c = Some ctw \<and> parac_task_state_is_done (state (wt ctw)))"
    and "k + n \<le> length cs" "length cs = length rs"
  shows "abort_extended_from term_call r n k w = Some w"
  using assms(5)
proof (induction n arbitrary: k)
  case (Suc n)
  have "(case cs ! k of None \<Rightarrow> Some w
       | Some c \<Rightarrow> if rs ! k = PARAC_PENDING \<or> rs ! k = PARAC_ABORTED then Some w
           else do { ct \<leftarrow> get_task c w;
             if parac_task_state_is_done (state ct) then Some w
             else early_abort_task term_call c w }) = Some w"
    using assms(4) [of k] Suc.prems by (auto split: option.splits)
  moreover have "abort_extended_from term_call r n (k + 1) w = Some w"
    using Suc by simp
  ultimately show ?case
    using assms Suc.prems by (simp add: extended_children_def extended_children_results_def)
qed simp

lemma extended_no_termination:
  assumes tw: "heap w r = Some tw"
    and ch: "slot0 (wt tw) = SlotChildren cs" "slot1 (wt tw) = SlotResults rs"
    and n: "extended_children_count (wt tw) = int (length cs)" "length cs = length rs"
    and undecided: "result (wt tw) \<notin> {PARAC_SAT, PARAC_UNSAT}"
    and running: "\<forall>i c. i < length cs \<and> cs ! i = Some c \<longrightarrow>
       rs ! i \<in> {PARAC_PENDING, PARAC_ABORTED} \<or>
       (\<exists>ctw. c \<noteq> r \<and> heap w c = Some ctw \<and> parac_task_state_is_done (state (wt ctw)))"
  shows "assess_extended d ot term_call r tc w =
    (case verdict d ot rs of
       None \<Rightarrow> Some (False, w)
     | Some v \<Rightarrow> Some (True, w\<lparr>heap := (heap w)(r \<mapsto> tw\<lparr>wt := (wt tw)\<lparr>result := v\<rparr>\<rparr>)\<rparr>))"
proof -
  obtain f k where sc: "scan_results d ot rs = (f, k)" by fastforce
  let ?w = "w\<lparr>heap := (heap w)(r \<mapsto> tw\<lparr>wt := (wt tw)\<lparr>result := d\<rparr>\<rparr>)\<rparr>"
  have ab: "abort_extended_from term_call r (length cs) 0 ?w = Some ?w"
  proof (rule abort_extended_none [of _ _ "tw\<lparr>wt := (wt tw)\<lparr>result := d\<rparr>\<rparr>" cs rs])
    show "rs ! i \<in> {PARAC_PENDING, PARAC_ABORTED} \<or>
       (\<exists>ctw. heap ?w c = Some ctw \<and> parac_task_state_is_done (state (wt ctw)))"
      if "i < length cs" "cs ! i = Some c" for i c
      using running that by auto
  qed (use ch n in simp_all)
  show ?thesis
    using tw ch n undecided sc ab scan_results_verdict [OF sc]
    by (auto simp: assess_extended_def extended_children_def extended_children_results_def)
qed

end

interpretation existential: quantifier PARAC_SAT PARAC_UNSAT
  by unfold_locales simp

interpretation universal: quantifier PARAC_UNSAT PARAC_SAT
  by unfold_locales auto

lemma verdict_subset:
  "verdict d ot rs = (if d \<in> set rs then Some d else if set rs \<subseteq> {ot} then Some ot else None)"
  by (auto simp: verdict_def)

section \<open>Properties\<close>


definition example_quantified_task :: parac_task where
  "example_quantified_task = parac_task_init\<lparr>extended_children_count := 2,
     slot0 := SlotChildren [None, Some 8], slot1 := SlotResults [PARAC_SAT, PARAC_PENDING]\<rparr>"

definition example_quantified_world :: task_world where
  "example_quantified_world = \<lparr>heap = (\<lambda>_. None)(1 \<mapsto>
     \<lparr>wt = example_quantified_task, refcount = 0, in_work_queue = False\<rparr>),
     exit_status = PARAC_UNDEFINED, outcalls = []\<rparr>"


text \<open>
  Task order.  The order of the waiting tasks is a strict weak order, the one of the key
  (first criterion ascending, path length descending, second criterion ascending): two tasks are
  equivalent exactly when the three keys agree.
\<close>

theorem task_compare_weak_order:
  "irreflp parac_task_compare \<and> transp parac_task_compare \<and>
   ((\<not> parac_task_compare x y \<and> \<not> parac_task_compare y x) \<longleftrightarrow>
     pre_path_sorting_critereon x = pre_path_sorting_critereon y
     \<and> parac_path_length (path x) = parac_path_length (path y)
     \<and> post_path_sorting_critereon x = post_path_sorting_critereon y)"
  using task_order.less_irrefl task_order.less_trans
  by (auto simp: task_compare_key irreflp_def transp_def)

end
