(* ===== verification/TaskStore.thy ===== *)
theory TaskStore
  imports Task
begin

unbundle bit_operations_syntax

text \<open>
  The broker's task store: \<^verbatim>\<open>modules/broker/broker_task_store.cpp\<close>.

  The state is the record \<^verbatim>\<open>TaskStore::Internal\<close> on top of the task heap.  The list of waiting
  tasks keeps its order, the two \<^verbatim>\<open>std::set\<close>s are lists in the order of \<^verbatim>\<open>TaskRefCompare\<close>,
  an unordered set of offloaded tasks is a list without repetition.  Calls into other components
  are appended to the list \<open>outcalls\<close>.  The mutexes are not modelled: every operation of the
  model is one critical section, run to its end.

  \<^verbatim>\<open>assess_task\<close> calls itself on the parent and, through the function pointers of the tasks,
  \<^verbatim>\<open>default_terminate_task\<close>, which calls both again.  The bodies are definitions over these
  calls as arguments, and \<open>call\<close> ties the knot with a fuel that counts the call depth.
\<close>

record task_store = task_world +
  tasks :: "task_ref list"
  tasksWaitingForWorkerQueue :: "task_ref list"
  tasksBeingWorkedOn :: "task_ref list"
  tasksWaitingForChildren :: "task_ref list"
  offloadedTasks :: "node_ref \<Rightarrow> task_ref list option"
  tasksSize :: u64
  tasksWaitingForWorkerQueueSize :: u64
  autoShutdownTimeoutSet :: bool
  m_autoShutdownTimeout :: u32
  has_input_file :: bool
  has_ping_on_work :: bool
  distribute_max_level :: u64

definition TaskStore_init :: "u32 \<Rightarrow> bool \<Rightarrow> bool \<Rightarrow> u64 \<Rightarrow> task_store" where
  "TaskStore_init timeout input ping level = \<lparr>
     heap = (\<lambda>_. None), exit_status = PARAC_UNDEFINED, outcalls = [],
     tasks = [], tasksWaitingForWorkerQueue = [], tasksBeingWorkedOn = [],
     tasksWaitingForChildren = [], offloadedTasks = (\<lambda>_. None),
     tasksSize = 0, tasksWaitingForWorkerQueueSize = 0, autoShutdownTimeoutSet = False,
     m_autoShutdownTimeout = timeout, has_input_file = input, has_ping_on_work = ping,
     distribute_max_level = level \<rparr>"

definition TaskStore_empty :: "task_store \<Rightarrow> bool" where
  "TaskStore_empty s \<longleftrightarrow> tasks s = []"

definition TaskStore_size :: "task_store \<Rightarrow> nat" where
  "TaskStore_size s = length (tasks s)"

section \<open>Containers\<close>

text \<open>
  \<^verbatim>\<open>TaskRefCompare\<close>: greater path representations first, then greater addresses.
\<close>

definition task_ref_compare :: "(task_ref \<Rightarrow> parac_path) \<Rightarrow> task_ref \<Rightarrow> task_ref \<Rightarrow> bool" where
  "task_ref_compare pathof l r =
     (if pathof l = pathof r then l > r else pathof l > pathof r)"

fun task_set_insert :: "(task_ref \<Rightarrow> parac_path) \<Rightarrow> task_ref \<Rightarrow> task_ref list \<Rightarrow> task_ref list" where
  "task_set_insert pathof r [] = [r]"
| "task_set_insert pathof r (x # xs) =
     (if task_ref_compare pathof x r then x # task_set_insert pathof r xs
      else if task_ref_compare pathof r x then r # x # xs
      else x # xs)"

definition path_of :: "'a task_world_scheme \<Rightarrow> task_ref \<Rightarrow> parac_path" where
  "path_of s r = (case heap s r of Some tw \<Rightarrow> path (wt tw) | None \<Rightarrow> 0)"

definition task_set_erase :: "task_ref \<Rightarrow> task_ref list \<Rightarrow> task_ref list" where
  "task_set_erase r xs = filter (\<lambda>x. x \<noteq> r) xs"

section \<open>Timer, insertion and removal\<close>

definition manageAutoShutdownTimer :: "task_store \<Rightarrow> task_store" where
  "manageAutoShutdownTimer s =
     (if m_autoShutdownTimeout s = 0 then s
      else if tasksSize s = 0
      then emit (SetTimeout (m_autoShutdownTimeout s)) (s\<lparr>autoShutdownTimeoutSet := True\<rparr>)
      else if autoShutdownTimeoutSet s
      then (emit CancelTimeout s)\<lparr>autoShutdownTimeoutSet := False\<rparr>
      else s)"

definition autoShutdownTimerExpired :: "task_store \<Rightarrow> task_store" where
  "autoShutdownTimerExpired s =
     emit RequestExit (s\<lparr>exit_status := PARAC_AUTO_SHUTDOWN_TRIGGERED\<rparr>)"

definition insert_into_tasksWaitingForWorkerQueue :: "task_ref \<Rightarrow> task_store \<Rightarrow> task_store option" where
  "insert_into_tasksWaitingForWorkerQueue r s = do {
     s \<leftarrow> upd_task r (\<lambda>t. t\<lparr>state := state t OR PARAC_TASK_WORK_AVAILABLE\<rparr>) s;
     t \<leftarrow> get_task r s;
     let q = tasksWaitingForWorkerQueue s;
     ts \<leftarrow> opt_list (map (\<lambda>x. get_task x s) q);
     let i = lower_bound (\<lambda>l. parac_task_compare l t) ts 0 (length ts);
     let s = s\<lparr>tasksWaitingForWorkerQueue := insert_at i r q\<rparr>;
     s \<leftarrow> upd_wrapper r (\<lambda>tw. tw\<lparr>in_work_queue := True\<rparr>) s;
     let s = s\<lparr>tasksWaitingForWorkerQueueSize := tasksWaitingForWorkerQueueSize s + 1\<rparr>;
     let s = emit (IncWorkQueue (originator t)) s;
     Some (if has_ping_on_work s then emit PingOnWork s else s) }"

definition insert_into_tasksWaitingForChildren :: "task_ref \<Rightarrow> task_store \<Rightarrow> task_store" where
  "insert_into_tasksWaitingForChildren r s =
     s\<lparr>tasksWaitingForChildren := task_set_insert (path_of s) r (tasksWaitingForChildren s)\<rparr>"

definition remove_from_tasksWaitingForChildren :: "task_ref \<Rightarrow> task_store \<Rightarrow> task_store" where
  "remove_from_tasksWaitingForChildren r s =
     s\<lparr>tasksWaitingForChildren := task_set_erase r (tasksWaitingForChildren s)\<rparr>"

definition insert_into_tasksBeingWorkedOn :: "task_ref \<Rightarrow> task_store \<Rightarrow> task_store" where
  "insert_into_tasksBeingWorkedOn r s =
     s\<lparr>tasksBeingWorkedOn := task_set_insert (path_of s) r (tasksBeingWorkedOn s)\<rparr>"

definition remove_from_tasksBeingWorkedOn :: "task_ref \<Rightarrow> task_store \<Rightarrow> task_store" where
  "remove_from_tasksBeingWorkedOn r s =
     s\<lparr>tasksBeingWorkedOn := task_set_erase r (tasksBeingWorkedOn s)\<rparr>"

definition remove_from_workQueue :: "task_ref \<Rightarrow> task_store \<Rightarrow> task_store option" where
  "remove_from_workQueue r s = do {
     tw \<leftarrow> get_wrapper r s;
     if in_work_queue tw then do {
       let s = s\<lparr>tasksWaitingForWorkerQueueSize := tasksWaitingForWorkerQueueSize s - 1\<rparr>;
       let s = emit (DecWorkQueue (originator (wt tw))) s;
       let s = s\<lparr>tasksWaitingForWorkerQueue := remove1 r (tasksWaitingForWorkerQueue s)\<rparr>;
       upd_wrapper r (\<lambda>tw. tw\<lparr>in_work_queue := False\<rparr>) s }
     else Some s }"

text \<open>Setting \<^verbatim>\<open>parent_task_\<close> of a possibly null child to null.\<close>

definition orphan :: "task_ref option \<Rightarrow> 'a task_world_scheme \<Rightarrow> 'a task_world_scheme option" where
  "orphan c s = (case c of None \<Rightarrow> Some s | Some r \<Rightarrow> upd_task r (\<lambda>t. t\<lparr>parent_task := None\<rparr>) s)"

fun orphan_all :: "task_ref option list \<Rightarrow> 'a task_world_scheme \<Rightarrow> 'a task_world_scheme option" where
  "orphan_all [] s = Some s"
| "orphan_all (c # cs) s = do { s \<leftarrow> orphan c s; orphan_all cs s }"

text \<open>The destructor of the task wrapper.\<close>

definition destroy_task :: "task_ref \<Rightarrow> task_wrapper \<Rightarrow> task_store \<Rightarrow> task_store" where
  "destroy_task r tw s =
     (let s = (if has_free_userdata (wt tw) then emit (FreeUserdata r) s else s);
          s = (case delete_notification (wt tw) of None \<Rightarrow> s | Some f \<Rightarrow> emit (NotifyDeleted f) s)
      in s\<lparr>heap := (heap s)(r := None), tasks := remove1 r (tasks s)\<rparr>)"

text \<open>The part of \<^verbatim>\<open>remove\<close> that takes the task out of its parent's child pointers.\<close>

definition unlink_from_parent :: "task_ref \<Rightarrow> parac_task \<Rightarrow> 'a task_world_scheme \<Rightarrow> 'a task_world_scheme option" where
  "unlink_from_parent r t s = (case (parent_task t, received_from t) of
       (Some p, None) \<Rightarrow> do {
         s \<leftarrow> upd_wrapper p (\<lambda>tw. tw\<lparr>refcount := refcount tw - 1\<rparr>) s;
         pt \<leftarrow> get_task p s;
         if extended_children_count pt = -1 then do {
           l \<leftarrow> left_child pt; rc \<leftarrow> right_child pt;
           c_assert (\<not> (l = Some r \<and> rc = Some r));
           upd_task p (\<lambda>pt. pt\<lparr>slot0 := if l = Some r then SlotNull else slot0 pt,
                               slot1 := if rc = Some r then SlotNull else slot1 pt\<rparr>) s }
         else do {
           c_assert (extended_children_parent_index t < extended_children_count pt);
           ecs \<leftarrow> extended_children pt; cs \<leftarrow> ecs;
           c_assert (0 \<le> extended_children_parent_index t \<and>
                     nat (extended_children_parent_index t) < length cs);
           upd_task p (\<lambda>pt. pt\<lparr>slot0 :=
             SlotChildren (cs[nat (extended_children_parent_index t) := None])\<rparr>) s } }
     | _ \<Rightarrow> Some s)"

definition remove_task :: "task_ref \<Rightarrow> task_store \<Rightarrow> task_store option" where
  "remove_task r s = do {
     s \<leftarrow> upd_wrapper r (\<lambda>tw. tw\<lparr>refcount := refcount tw - 1\<rparr>) s;
     t \<leftarrow> get_task r s;
     c_assert (result t = PARAC_ABORTED \<or> \<not> st_has (state t) PARAC_TASK_WAITING_FOR_SPLITS);
     c_assert (result t = PARAC_ABORTED \<or> \<not> st_has (state t) PARAC_TASK_WORK_AVAILABLE);
     c_assert (\<not> st_has (state t) PARAC_TASK_WORKING);
     c_assert (st_has (state t) PARAC_TASK_DONE);
     s \<leftarrow> (if extended_children_count t = -1 then do {
             l \<leftarrow> left_child t; rc \<leftarrow> right_child t;
             s \<leftarrow> orphan l s; orphan rc s }
           else do {
             ecs \<leftarrow> extended_children t; cs \<leftarrow> ecs;
             c_assert (0 \<le> extended_children_count t \<and> nat (extended_children_count t) \<le> length cs);
             orphan_all (take (nat (extended_children_count t)) cs) s });
     t \<leftarrow> get_task r s;
     s \<leftarrow> unlink_from_parent r t s;
     let s = s\<lparr>tasksSize := tasksSize s - 1\<rparr>;
     let s = manageAutoShutdownTimer s;
     tw \<leftarrow> get_wrapper r s;
     Some (destroy_task r tw s) }"

section \<open>Creation and hand-out\<close>

text \<open>
  \<^verbatim>\<open>newTask\<close>: the argument \<open>a\<close> is the address the allocator gives the new list node.
\<close>

definition newTask ::
  "task_ref \<Rightarrow> task_ref option \<Rightarrow> parac_path \<Rightarrow> parac_id \<Rightarrow> task_store \<Rightarrow>
   (task_ref option \<times> task_store) option" where
  "newTask a parent new_path orig s = do {
     let t = parac_task_init\<lparr>parent_task := parent, has_task_store := True, path := new_path,
               originator := orig, has_handle := True\<rparr>;
     let s = s\<lparr>tasks := a # tasks s,
               heap := (heap s)(a \<mapsto> \<lparr>wt = t, refcount = 0, in_work_queue = False\<rparr>)\<rparr>;
     (stopped, s) \<leftarrow> (case parent of
         None \<Rightarrow> Some (False, s)
       | Some p \<Rightarrow> do {
           s \<leftarrow> upd_wrapper p (\<lambda>tw. tw\<lparr>refcount := refcount tw + 1\<rparr>) s;
           pt \<leftarrow> get_task p s;
           s \<leftarrow> (if \<not> parac_path_is_extended new_path then do {
               l \<leftarrow> parac_path_get_next_left (path pt);
               s \<leftarrow> (if l = new_path then upd_task p (\<lambda>t. t\<lparr>slot0 := SlotTask a\<rparr>) s
                     else do {
                       rp \<leftarrow> parac_path_get_next_right (path pt);
                       if rp = new_path then upd_task p (\<lambda>t. t\<lparr>slot1 := SlotTask a\<rparr>) s
                       else Some s });
               pt \<leftarrow> get_task p s;
               c_assert (slot0 pt \<noteq> SlotNull \<or> slot1 pt \<noteq> SlotNull);
               Some s }
             else Some s);
           Some (stop pt, s) });
     if stopped then Some (None, s)
     else do {
       let s = s\<lparr>tasksSize := tasksSize s + 1\<rparr>;
       let s = manageAutoShutdownTimer s;
       s \<leftarrow> upd_task a (\<lambda>t. t\<lparr>terminate := Some DefaultTerminate\<rparr>) s;
       Some (Some a, s) } }"

text \<open>
  \<^verbatim>\<open>pop_offload\<close> walks the queue from its end; the element found is erased at its position.
\<close>

fun last_offloadable :: "(task_ref \<Rightarrow> bool option) \<Rightarrow> task_ref list \<Rightarrow> (nat \<times> task_ref) option option" where
  "last_offloadable ok [] = Some None"
| "last_offloadable ok (x # xs) = do {
     later \<leftarrow> last_offloadable ok xs;
     (case later of
        Some (i, r) \<Rightarrow> Some (Some (Suc i, r))
      | None \<Rightarrow> do { b \<leftarrow> ok x; Some (if b then Some (0, x) else None) }) }"

definition pop_offload ::
  "node_ref \<Rightarrow> (parac_task \<Rightarrow> bool) option \<Rightarrow> task_store \<Rightarrow> (task_ref option \<times> task_store) option" where
  "pop_offload target check s = do {
     found \<leftarrow> last_offloadable (\<lambda>r. do {
         t \<leftarrow> get_task r s;
         Some (has_serialize t \<and> received_from t = None \<and>
               (case check of None \<Rightarrow> True | Some f \<Rightarrow> f t)) }) (tasksWaitingForWorkerQueue s);
     (case found of
        None \<Rightarrow> Some (None, s)
      | Some (i, r) \<Rightarrow> do {
          let q = tasksWaitingForWorkerQueue s;
          let s = s\<lparr>tasksWaitingForWorkerQueue := take i q @ drop (Suc i) q\<rparr>;
          s \<leftarrow> upd_task r (\<lambda>t. t\<lparr>offloaded_to := Some target,
                 state := st_without (state t) PARAC_TASK_WORK_AVAILABLE OR PARAC_TASK_OFFLOADED\<rparr>) s;
          let off = (case offloadedTasks s target of None \<Rightarrow> [] | Some xs \<Rightarrow> xs);
          let s = s\<lparr>offloadedTasks := (offloadedTasks s)(target \<mapsto> List.insert r off)\<rparr>;
          s \<leftarrow> upd_wrapper r (\<lambda>tw. tw\<lparr>refcount := refcount tw + 1, in_work_queue := False\<rparr>) s;
          let s = s\<lparr>tasksWaitingForWorkerQueueSize := tasksWaitingForWorkerQueueSize s - 1\<rparr>;
          t \<leftarrow> get_task r s;
          Some (Some r, emit (DecWorkQueue (originator t)) s) }) }"

definition pop_work :: "flag_ref option \<Rightarrow> task_store \<Rightarrow> (task_ref option \<times> task_store) option" where
  "pop_work notification s = (case tasksWaitingForWorkerQueue s of
       [] \<Rightarrow> Some (None, s)
     | r # q \<Rightarrow> do {
         let s = s\<lparr>tasksWaitingForWorkerQueue := q\<rparr>;
         let s = insert_into_tasksBeingWorkedOn r s;
         s \<leftarrow> upd_task r (\<lambda>t. t\<lparr>state := st_without (state t) PARAC_TASK_WORK_AVAILABLE
                                           OR PARAC_TASK_WORKING,
                                 delete_notification := notification\<rparr>) s;
         s \<leftarrow> upd_wrapper r (\<lambda>tw. tw\<lparr>refcount := refcount tw + 1, in_work_queue := False\<rparr>) s;
         Some (Some r, s\<lparr>tasksWaitingForWorkerQueueSize := tasksWaitingForWorkerQueueSize s - 1\<rparr>) })"

definition undo_offload :: "task_ref \<Rightarrow> task_store \<Rightarrow> task_store option" where
  "undo_offload r s = do {
     t \<leftarrow> get_task r s;
     node \<leftarrow> offloaded_to t;
     let off = (case offloadedTasks s node of None \<Rightarrow> [] | Some xs \<Rightarrow> xs);
     let s = s\<lparr>offloadedTasks := (offloadedTasks s)(node \<mapsto> off)\<rparr>;
     if r \<notin> set off then Some s
     else do {
       let s = s\<lparr>offloadedTasks := (offloadedTasks s)(node \<mapsto> task_set_erase r off)\<rparr>;
       s \<leftarrow> upd_task r (\<lambda>t. t\<lparr>state := st_without (state t) PARAC_TASK_OFFLOADED,
                               offloaded_to := None\<rparr>) s;
       s \<leftarrow> upd_wrapper r (\<lambda>tw. tw\<lparr>refcount := refcount tw - 1\<rparr>) s;
       insert_into_tasksWaitingForWorkerQueue r s } }"

text \<open>One round of the loop of \<^verbatim>\<open>undoAllOffloadsTo\<close>; \<open>rs\<close> is what the erasure leaves in the set.\<close>

definition undo_one :: "node_ref \<Rightarrow> task_ref \<Rightarrow> task_ref list \<Rightarrow> task_store \<Rightarrow> task_store option" where
  "undo_one node r rs s = do {
     t \<leftarrow> get_task r s;
     c_assert (offloaded_to t \<noteq> None);
     let s = s\<lparr>offloadedTasks := (offloadedTasks s)(node \<mapsto> rs)\<rparr>;
     s \<leftarrow> upd_task r (\<lambda>t. t\<lparr>state := st_without (state t) PARAC_TASK_OFFLOADED,
                             offloaded_to := None\<rparr>) s;
     s \<leftarrow> upd_wrapper r (\<lambda>tw. tw\<lparr>refcount := refcount tw - 1\<rparr>) s;
     insert_into_tasksWaitingForWorkerQueue r s }"

fun undo_offloads :: "node_ref \<Rightarrow> task_ref list \<Rightarrow> task_store \<Rightarrow> task_store option" where
  "undo_offloads node [] s = Some s"
| "undo_offloads node (r # rs) s = do { s \<leftarrow> undo_one node r rs s; undo_offloads node rs s }"

definition undoAllOffloadsTo :: "node_ref \<Rightarrow> task_store \<Rightarrow> task_store option" where
  "undoAllOffloadsTo node s =
     (let off = (case offloadedTasks s node of None \<Rightarrow> [] | Some xs \<Rightarrow> xs)
      in undo_offloads node off (s\<lparr>offloadedTasks := (offloadedTasks s)(node \<mapsto> off)\<rparr>))"

section \<open>Assessment and termination\<close>

text \<open>
  \<^verbatim>\<open>SolverTask::static_assess\<close>: the default assessment, and the negated cube of an unsatisfiable
  inner task is distributed as a learned clause.
\<close>

definition SolverTask_static_assess ::
  "task_store call \<Rightarrow> task_ref \<Rightarrow> task_store \<Rightarrow> (parac_task_state \<times> task_store) option" where
  "SolverTask_static_assess term_call r s = do {
     t \<leftarrow> get_task r s;
     c_assert (userdata t \<noteq> None);
     (st, s) \<leftarrow> parac_task_default_assess term_call r s;
     t \<leftarrow> get_task r s;
     Some (st, if parac_task_state_is_done st \<and> \<not> st_has st PARAC_TASK_OFFLOADED
                  \<and> parac_path_length (path t) < distribute_max_level s
                  \<and> \<not> parac_path_is_root (path t) \<and> result t = PARAC_UNSAT
               then emit (LearnedClause r) s else s) }"

fun run_assess ::
  "assess_fn \<Rightarrow> task_store call \<Rightarrow> task_ref \<Rightarrow> task_store \<Rightarrow> (parac_task_state \<times> task_store) option" where
  "run_assess DefaultAssess tc r s = parac_task_default_assess tc r s"
| "run_assess QbfExistentialAssess tc r s = parac_task_qbf_existential_assess tc r s"
| "run_assess QbfUniversalAssess tc r s = parac_task_qbf_universal_assess tc r s"
| "run_assess SolverTaskAssess tc r s = SolverTask_static_assess tc r s"

text \<open>Recording the result of a finished task in its parent.\<close>

definition record_in_parent ::
  "task_ref \<Rightarrow> parac_path \<Rightarrow> parac_status \<Rightarrow> int \<Rightarrow> task_store \<Rightarrow> task_store option" where
  "record_in_parent p pth res idx s = do {
     pt \<leftarrow> get_task p s;
     if parac_path_is_extended pth then do {
       c_assert (idx \<ge> 0);
       c_assert (idx < extended_children_count pt);
       ers \<leftarrow> extended_children_results pt; rs \<leftarrow> ers;
       c_assert (nat idx < length rs);
       upd_task p (\<lambda>t. t\<lparr>slot1 := SlotResults (rs[nat idx := res])\<rparr>) s }
     else do {
       l \<leftarrow> parac_path_get_next_left (path pt);
       rp \<leftarrow> parac_path_get_next_right (path pt);
       c_assert (pth = l \<or> pth = rp);
       if pth = l then upd_task p (\<lambda>t. t\<lparr>left_result := res\<rparr>) s
       else upd_task p (\<lambda>t. t\<lparr>right_result := res\<rparr>) s } }"

text \<open>The exit of the whole process when the root task has a result.\<close>

definition finish_root :: "parac_task \<Rightarrow> task_store \<Rightarrow> task_store" where
  "finish_root t s =
     (if has_input_file s \<and> parac_path_is_root (path t)
         \<and> (result t \<noteq> PARAC_ABORTED \<and> result t \<noteq> PARAC_UNDEFINED
            \<and> exit_status s \<noteq> PARAC_SAT \<and> exit_status s \<noteq> PARAC_UNSAT)
         \<and> exit_status s = PARAC_UNDEFINED
      then emit RequestExit (s\<lparr>exit_status := result t\<rparr>) else s)"

text \<open>
  \<^verbatim>\<open>assess_task\<close>, in two halves: what happens to a task that is done (lines 836 to 923 of the
  source) and to one that is not (lines 925 to 935).
\<close>

definition assess_done ::
  "(bool \<Rightarrow> task_store call) \<Rightarrow> bool \<Rightarrow> bool \<Rightarrow> task_ref \<Rightarrow> parac_task_state \<Rightarrow> task_store \<Rightarrow> task_store option" where
  "assess_done assess_call rm rmParent r st s = do {
     t \<leftarrow> get_task r s;
     let s = (if \<not> st_has (state t) PARAC_TASK_OFFLOADED
              then emit (DecWorkQueue (originator t)) s else s);
     c_assert (\<not> st_has st PARAC_TASK_WORK_AVAILABLE);
     let s = (if path t = PARAC_PATH_PARSER then emit (FormulaParsed (originator t)) s else s);
     let s = remove_from_tasksBeingWorkedOn r s;
     let s = finish_root t s;
     let s = (if st AND PARAC_TASK_SPLITS_DONE = PARAC_TASK_SPLITS_DONE
              then remove_from_tasksWaitingForChildren r s else s);
     let parent = (if received_from t \<noteq> None then None else parent_task t);
     let idx = (if parent \<noteq> None \<and> parac_path_is_extended (path t)
                then extended_children_parent_index t else -1);
     s \<leftarrow> (if rm then remove_task r s else Some s);
     c_assert (result t \<noteq> PARAC_SPLITTED);
     c_assert (result t \<noteq> PARAC_UNKNOWN);
     (case parent of
        None \<Rightarrow> Some s
      | Some p \<Rightarrow> do {
          s \<leftarrow> record_in_parent p (path t) (result t) idx s;
          assess_call rmParent p s }) }"

definition assess_not_done :: "task_ref \<Rightarrow> parac_task_state \<Rightarrow> task_store \<Rightarrow> task_store option" where
  "assess_not_done r st s = do {
     t \<leftarrow> get_task r s;
     s \<leftarrow> (if st_has st PARAC_TASK_WORK_AVAILABLE \<and> \<not> st_has st PARAC_TASK_DONE
           then insert_into_tasksWaitingForWorkerQueue r s else Some s);
     let s = (if \<not> st_has (last_state t) PARAC_TASK_WAITING_FOR_SPLITS
                 \<and> st_has st PARAC_TASK_WAITING_FOR_SPLITS
              then insert_into_tasksWaitingForChildren r s else s);
     upd_task r (\<lambda>t. t\<lparr>last_state := st\<rparr>) s }"

definition assess_task_body ::
  "(bool \<Rightarrow> task_store call) \<Rightarrow> task_store call \<Rightarrow> bool \<Rightarrow> bool \<Rightarrow> task_store call" where
  "assess_task_body assess_call term_call rm rmParent r s = do {
     t \<leftarrow> get_task r s;
     f \<leftarrow> assess t;
     c_assert (path t \<noteq> PARAC_PATH_EXPLICITLY_UNKNOWN);
     (st, s) \<leftarrow> run_assess f term_call r s;
     s \<leftarrow> upd_task r (\<lambda>t. t\<lparr>state := st\<rparr>) s;
     if parac_task_state_is_done st then assess_done assess_call rm rmParent r st s
     else assess_not_done r st s }"

text \<open>
  \<^verbatim>\<open>default_terminate_task\<close>.  The state is overwritten with \<^verbatim>\<open>PARAC_TASK_DONE\<close> before the
  test for \<^verbatim>\<open>PARAC_TASK_WORKING\<close>, as in the source.
\<close>

fun copy_child_results ::
  "nat \<Rightarrow> nat \<Rightarrow> task_ref \<Rightarrow> 'a task_world_scheme \<Rightarrow> 'a task_world_scheme option" where
  "copy_child_results 0 i r s = Some s"
| "copy_child_results (Suc n) i r s = do {
     t \<leftarrow> get_task r s;
     ecs \<leftarrow> extended_children t; cs \<leftarrow> ecs;
     ers \<leftarrow> extended_children_results t; rs \<leftarrow> ers;
     c_assert (i < length cs \<and> i < length rs);
     s \<leftarrow> (case cs ! i of
         None \<Rightarrow> Some s
       | Some c \<Rightarrow> do {
           ct \<leftarrow> get_task c s;
           s \<leftarrow> upd_task r (\<lambda>t. t\<lparr>slot1 := SlotResults (rs[i := result ct])\<rparr>) s;
           orphan (Some c) s });
     copy_child_results n (i + 1) r s }"

fun terminate_extended ::
  "task_store call \<Rightarrow> nat \<Rightarrow> nat \<Rightarrow> task_ref \<Rightarrow> task_store \<Rightarrow> task_store option" where
  "terminate_extended term_call 0 i r s = Some s"
| "terminate_extended term_call (Suc n) i r s = do {
     t \<leftarrow> get_task r s;
     ecs \<leftarrow> extended_children t; cs \<leftarrow> ecs;
     c_assert (i < length cs);
     s \<leftarrow> (case cs ! i of
         None \<Rightarrow> Some s
       | Some c \<Rightarrow> do {
           ct \<leftarrow> get_task c s;
           if terminate ct = None then Some s
           else do {
             s \<leftarrow> term_call c s;
             t \<leftarrow> get_task r s;
             ecs \<leftarrow> extended_children t; cs \<leftarrow> ecs;
             ers \<leftarrow> extended_children_results t; rs \<leftarrow> ers;
             c_assert (i < length cs \<and> i < length rs);
             upd_task r (\<lambda>t. t\<lparr>slot1 := SlotResults (rs[i := PARAC_ABORTED]),
                               slot0 := SlotChildren (cs[i := None])\<rparr>) s } });
     terminate_extended term_call n (i + 1) r s }"

definition terminate_child ::
  "task_store call \<Rightarrow> parac_status \<Rightarrow> task_ref option \<Rightarrow> task_store \<Rightarrow> task_store option" where
  "terminate_child term_call res child s = (case child of
       None \<Rightarrow> Some s
     | Some c \<Rightarrow>
         if res \<noteq> PARAC_PENDING then Some s
         else do {
           ct \<leftarrow> get_task c s;
           if terminate ct = None then Some s
           else do { s \<leftarrow> orphan (Some c) s; term_call c s } })"

definition default_terminate_body ::
  "(bool \<Rightarrow> bool \<Rightarrow> task_store call) \<Rightarrow> task_store call \<Rightarrow> task_store call" where
  "default_terminate_body assess_call term_call r s = do {
     t \<leftarrow> get_task r s;
     c_assert (has_task_store t);
     if st_has (state t) PARAC_TASK_OFFLOADED then do {
       node \<leftarrow> offloaded_to t;
       let s = emit (SendTaskAbort node (originator t) r) s;
       s \<leftarrow> upd_task r (\<lambda>t. t\<lparr>state := PARAC_TASK_DONE\<rparr>) s;
       assess_call True True r s }
     else do {
       s \<leftarrow> upd_task r (\<lambda>t. t\<lparr>state := PARAC_TASK_DONE, result := PARAC_ABORTED,
                               has_work := False, stop := True\<rparr>) s;
       t' \<leftarrow> get_task r s;
       if st_has (state t') PARAC_TASK_WORKING then Some s
       else do {
         s \<leftarrow> upd_wrapper r (\<lambda>tw. tw\<lparr>refcount := refcount tw + 1\<rparr>) s;
         if parac_path_is_extended (path t) then do {
           ers \<leftarrow> extended_children_results t;
           if ers = None then Some s
           else do {
             c_assert (0 \<le> extended_children_count t);
             s \<leftarrow> copy_child_results (nat (extended_children_count t)) 0 r s;
             s \<leftarrow> remove_from_workQueue r s;
             let s = remove_from_tasksBeingWorkedOn r s;
             s \<leftarrow> terminate_extended term_call (nat (extended_children_count t)) 0 r s;
             assess_call False False r s } }
         else do {
           l \<leftarrow> left_child t; rc \<leftarrow> right_child t;
           s \<leftarrow> orphan l s;
           s \<leftarrow> orphan rc s;
           s \<leftarrow> upd_task r (\<lambda>t. t\<lparr>slot0 := SlotNull, slot1 := SlotNull\<rparr>) s;
           s \<leftarrow> remove_from_workQueue r s;
           let s = remove_from_tasksBeingWorkedOn r s;
           s \<leftarrow> terminate_child term_call (left_result t) l s;
           s \<leftarrow> terminate_child term_call (right_result t) rc s;
           assess_call False False r s } } } }"

text \<open>
  \<^verbatim>\<open>SolverTask::static_terminate\<close>, \<^verbatim>\<open>QBFSolverTask::static_terminate\<close> and \<^verbatim>\<open>KissatTask::static_terminate\<close>: the solver handle
  is told to stop; the QBF task also unlinks its children.
\<close>

definition SolverTask_static_terminate :: "task_store call" where
  "SolverTask_static_terminate r s = do {
     t \<leftarrow> get_task r s;
     c_assert (userdata t \<noteq> None);
     Some (emit (TerminateHandle r) s) }"

definition QBFSolverTask_static_terminate :: "task_store call" where
  "QBFSolverTask_static_terminate r s = do {
     t \<leftarrow> get_task r s;
     c_assert (userdata t \<noteq> None);
     s \<leftarrow> (if parac_path_is_extended (path t) \<and> slot0 t \<noteq> SlotNull then do {
             ecs \<leftarrow> extended_children t; cs \<leftarrow> ecs;
             c_assert (nat (extended_children_count t) \<le> length cs);
             orphan_all (take (nat (extended_children_count t)) cs) s }
           else do {
             l \<leftarrow> left_child t; rc \<leftarrow> right_child t;
             s \<leftarrow> orphan l s; orphan rc s });
     Some (emit (TerminateHandle r) s) }"

definition KissatTask_static_terminate :: "task_store call" where
  "KissatTask_static_terminate r s = do {
     t \<leftarrow> get_task r s;
     c_assert (userdata t \<noteq> None);
     Some (emit (TerminateHandle r) s) }"

fun run_terminate ::
  "terminate_fn \<Rightarrow> (bool \<Rightarrow> bool \<Rightarrow> task_store call) \<Rightarrow> task_store call \<Rightarrow> task_store call" where
  "run_terminate DefaultTerminate ac tc r s = default_terminate_body ac tc r s"
| "run_terminate SolverTaskTerminate ac tc r s = SolverTask_static_terminate r s"
| "run_terminate QbfSolverTaskTerminate ac tc r s = QBFSolverTask_static_terminate r s"
| "run_terminate KissatTaskTerminate ac tc r s = KissatTask_static_terminate r s"

datatype store_call = Assess bool bool task_ref | Terminate task_ref

fun call :: "nat \<Rightarrow> store_call \<Rightarrow> task_store \<Rightarrow> task_store option" where
  "call 0 c s = None"
| "call (Suc n) (Assess rm rp r) s =
     assess_task_body (\<lambda>b p. call n (Assess b b p)) (\<lambda>r. call n (Terminate r)) rm rp r s"
| "call (Suc n) (Terminate r) s = do {
     t \<leftarrow> get_task r s;
     f \<leftarrow> terminate t;
     run_terminate f (\<lambda>a b p. call n (Assess a b p)) (\<lambda>r. call n (Terminate r)) r s }"

definition assess_task :: "nat \<Rightarrow> task_ref \<Rightarrow> task_store \<Rightarrow> task_store option" where
  "assess_task n r s = call n (Assess True True r) s"

definition default_terminate_task :: "nat \<Rightarrow> task_ref \<Rightarrow> task_store \<Rightarrow> task_store option" where
  "default_terminate_task n r s =
     default_terminate_body (\<lambda>a b p. call n (Assess a b p)) (\<lambda>r. call n (Terminate r)) r s"

section \<open>Aborts and results from peers\<close>

fun terminate_all :: "nat \<Rightarrow> task_ref list \<Rightarrow> task_store \<Rightarrow> task_store option" where
  "terminate_all n [] s = Some s"
| "terminate_all n (r # rs) s = do { s \<leftarrow> call n (Terminate r) s; terminate_all n rs s }"

definition abort_tasks_with_parent_and_originator ::
  "nat \<Rightarrow> task_ref option \<Rightarrow> parac_id \<Rightarrow> task_store \<Rightarrow> task_store option" where
  "abort_tasks_with_parent_and_originator n parent orig s = do {
     ts \<leftarrow> opt_list (map (\<lambda>r. map_option (Pair r) (get_task r s)) (tasks s));
     terminate_all n (rev (map fst
       (filter (\<lambda>(r, t). originator t = orig \<and> parent_task t = parent) ts))) s }"

text \<open>
  \<^verbatim>\<open>abort_tasks_received_from\<close> keeps an iterator into the task list, moved on before the
  termination.  Nodes erased in the termination are no longer visited; when the node the iterator
  points to is erased, the iterator is invalid.
\<close>

function abort_received_loop :: "nat \<Rightarrow> node_ref \<Rightarrow> task_ref list \<Rightarrow> task_store \<Rightarrow> task_store option" where
  "abort_received_loop n node [] s = Some s"
| "abort_received_loop n node (r # rs) s = do {
     t \<leftarrow> get_task r s;
     s \<leftarrow> (if received_from t = Some node then call n (Terminate r) s else Some s);
     c_assert (rs = [] \<or> hd rs \<in> set (tasks s));
     abort_received_loop n node (filter (\<lambda>x. x \<in> set (tasks s)) rs) s }"
  by pat_completeness auto
termination
  by (relation "measure (\<lambda>(n, node, rs, s). length rs)") (auto simp: less_Suc_eq_le)

definition abort_tasks_received_from :: "nat \<Rightarrow> node_ref \<Rightarrow> task_store \<Rightarrow> task_store option" where
  "abort_tasks_received_from n node s = abort_received_loop n node (tasks s) s"

fun stop_all :: "task_ref list \<Rightarrow> 'a task_world_scheme \<Rightarrow> 'a task_world_scheme option" where
  "stop_all [] s = Some s"
| "stop_all (r # rs) s = do { s \<leftarrow> upd_task r (\<lambda>t. t\<lparr>stop := True\<rparr>) s; stop_all rs s }"

fun terminate_working :: "nat \<Rightarrow> task_ref list \<Rightarrow> task_store \<Rightarrow> task_store option" where
  "terminate_working n [] s = Some s"
| "terminate_working n (r # rs) s = do {
     s \<leftarrow> upd_task r (\<lambda>t. t\<lparr>stop := True\<rparr>) s;
     t \<leftarrow> get_task r s;
     s \<leftarrow> (if terminate t \<noteq> None \<and> terminate t \<noteq> Some DefaultTerminate
           then call n (Terminate r) s else Some s);
     terminate_working n rs s }"

definition terminateAllTasks :: "nat \<Rightarrow> task_store \<Rightarrow> task_store option" where
  "terminateAllTasks n s = do {
     s \<leftarrow> stop_all (tasksWaitingForWorkerQueue s) s;
     terminate_working n (tasksBeingWorkedOn s) s }"

definition receiveTaskResultFromPeer ::
  "nat \<Rightarrow> node_ref \<Rightarrow> parac_task_result_packet \<Rightarrow> task_store \<Rightarrow> task_store option" where
  "receiveTaskResultFromPeer n origin msg s = do {
     let r = parac_task_result_packet_get_task_ptr msg;
     res \<leftarrow> parac_task_result_packet_get_result msg;
     (case offloadedTasks s origin of
        None \<Rightarrow> Some (emit (MessageCallback PARAC_COMPUTE_NODE_NOT_FOUND_ERROR) s)
      | Some xs \<Rightarrow>
          if r \<notin> set xs then Some (emit (MessageCallback PARAC_PATH_NOT_FOUND_ERROR) s)
          else do {
            s \<leftarrow> upd_task r (\<lambda>t. t\<lparr>result := res, state := state t OR PARAC_TASK_DONE\<rparr>) s;
            s \<leftarrow> upd_wrapper r (\<lambda>tw. tw\<lparr>refcount := refcount tw - 1\<rparr>) s;
            let s = s\<lparr>offloadedTasks := (offloadedTasks s)(origin \<mapsto> task_set_erase r xs)\<rparr>;
            s \<leftarrow> assess_task n r s;
            Some (emit (MessageCallback PARAC_OK) s) }) }"

end
