(* ===== verification/TaskStoreInv.thy ===== *)
theory TaskStoreInv
  imports TaskStore
begin

unbundle bit_operations_syntax

text \<open>
  The invariant of the task store for trees of binary tasks, and that the operations keep it.

  The invariant says that the links between parents and children agree in both directions and with
  the paths, that the waiting queue holds exactly the tasks whose wrapper says so, once each and in
  the order of \<^verbatim>\<open>parac_task_compare\<close>, that its size counter is right, and that the task list
  holds exactly the tasks that are alive.
\<close>

section \<open>Well-formed stores of binary tasks\<close>

definition child_path :: "parac_path \<Rightarrow> parac_path \<Rightarrow> bool" where
  "child_path p c \<longleftrightarrow> parac_path_get_next_left p = Some c \<or> parac_path_get_next_right p = Some c"

definition kid :: "parac_task \<Rightarrow> task_ref \<Rightarrow> bool" where
  "kid t c \<longleftrightarrow> slot0 t = SlotTask c \<or> slot1 t = SlotTask c"

text \<open>The parent on this node: a received task has none here.\<close>

definition local_parent :: "parac_task \<Rightarrow> task_ref option" where
  "local_parent t = (if received_from t = None then parent_task t else None)"

definition parent_state :: "parac_task \<Rightarrow> bool" where
  "parent_state t \<longleftrightarrow> st_has (state t) PARAC_TASK_SPLITTED \<and> \<not> st_has (state t) PARAC_TASK_WORK_AVAILABLE"

definition queued_state :: "parac_task \<Rightarrow> bool" where
  "queued_state t \<longleftrightarrow> st_has (state t) PARAC_TASK_WORK_AVAILABLE
     \<and> \<not> st_has (state t) PARAC_TASK_SPLITTED \<and> result t = PARAC_PENDING"

lemma local_parent_upd [simp]:
  "local_parent (t\<lparr>state := a\<rparr>) = local_parent t" "local_parent (t\<lparr>result := b\<rparr>) = local_parent t"
  "local_parent (t\<lparr>slot0 := c\<rparr>) = local_parent t" "local_parent (t\<lparr>slot1 := c\<rparr>) = local_parent t"
  "local_parent (t\<lparr>left_result := b\<rparr>) = local_parent t"
  "local_parent (t\<lparr>right_result := b\<rparr>) = local_parent t"
  "local_parent (t\<lparr>last_state := a\<rparr>) = local_parent t"
  "local_parent (t\<lparr>offloaded_to := d\<rparr>) = local_parent t"
  "local_parent (t\<lparr>delete_notification := d\<rparr>) = local_parent t"
  by (simp_all add: local_parent_def)

definition wf_task_in :: "assess_fn option set \<Rightarrow> parac_task \<Rightarrow> bool" where
  "wf_task_in As t \<longleftrightarrow> extended_children_count t = -1
     \<and> left_child t \<noteq> None \<and> right_child t \<noteq> None
     \<and> (\<forall>c. \<not> (slot0 t = SlotTask c \<and> slot1 t = SlotTask c))
     \<and> assess t \<in> insert (Some DefaultAssess) As"

definition links_in :: "assess_fn option set \<Rightarrow> (task_ref \<Rightarrow> task_wrapper option) \<Rightarrow> bool" where
  "links_in As h \<longleftrightarrow> (\<forall>r tw. h r = Some tw \<longrightarrow> wf_task_in As (wt tw)
     \<and> (\<forall>c. kid (wt tw) c \<longrightarrow> (\<exists>ctw. h c = Some ctw \<and> local_parent (wt ctw) = Some r))
     \<and> (\<forall>p. local_parent (wt tw) = Some p \<longrightarrow>
          (\<exists>ptw. h p = Some ptw \<and> kid (wt ptw) r \<and> parent_state (wt ptw)
                 \<and> child_path (path (wt ptw)) (path (wt tw)))))"

definition task_at :: "(task_ref \<Rightarrow> task_wrapper option) \<Rightarrow> task_ref \<Rightarrow> parac_task" where
  "task_at h r = wt (the (h r))"

definition queue_ok :: "(task_ref \<Rightarrow> task_wrapper option) \<Rightarrow> task_ref list \<Rightarrow> u64 \<Rightarrow> bool" where
  "queue_ok h q n \<longleftrightarrow> distinct q \<and> n = of_nat (length q)
     \<and> (\<forall>r. r \<in> set q \<longleftrightarrow> (\<exists>tw. h r = Some tw \<and> in_work_queue tw))
     \<and> (\<forall>r tw. h r = Some tw \<and> in_work_queue tw \<longrightarrow> queued_state (wt tw))
     \<and> sorted_wrt (\<lambda>x y. \<not> parac_task_compare y x) (map (task_at h) q)"

definition tasks_ok :: "(task_ref \<Rightarrow> task_wrapper option) \<Rightarrow> task_ref list \<Rightarrow> bool" where
  "tasks_ok h ts \<longleftrightarrow> distinct ts \<and> set ts = dom h"

definition store_inv_in :: "assess_fn option set \<Rightarrow> task_store \<Rightarrow> bool" where
  "store_inv_in As s \<longleftrightarrow> links_in As (heap s) \<and> tasks_ok (heap s) (tasks s)
     \<and> queue_ok (heap s) (tasksWaitingForWorkerQueue s) (tasksWaitingForWorkerQueueSize s)"

text \<open>Updates of one task that keep its links, its keys and its place in the queue.\<close>

definition same_links_in :: "assess_fn option set \<Rightarrow> parac_task \<Rightarrow> parac_task \<Rightarrow> bool" where
  "same_links_in As a b \<longleftrightarrow> slot0 b = slot0 a \<and> slot1 b = slot1 a
     \<and> local_parent b = local_parent a \<and> path b = path a
     \<and> extended_children_count b = extended_children_count a
     \<and> (assess b = assess a \<or> assess b \<in> insert (Some DefaultAssess) As)
     \<and> (parent_state a \<longrightarrow> parent_state b)"

text \<open>
  The set \<open>As\<close> are the assessment functions of the tasks beside the one a new task starts with.  The tasks of the SAT solver
  have these.
\<close>

abbreviation sat_assess :: "assess_fn option set" where
  "sat_assess \<equiv> {Some SolverTaskAssess}"

abbreviation wf_task :: "parac_task \<Rightarrow> bool" where "wf_task \<equiv> wf_task_in sat_assess"
abbreviation links_ok :: "(task_ref \<Rightarrow> task_wrapper option) \<Rightarrow> bool" where "links_ok \<equiv> links_in sat_assess"
abbreviation same_links :: "parac_task \<Rightarrow> parac_task \<Rightarrow> bool" where "same_links \<equiv> same_links_in sat_assess"
abbreviation store_inv :: "task_store \<Rightarrow> bool" where "store_inv \<equiv> store_inv_in sat_assess"

lemmas wf_task_def = wf_task_in_def [of sat_assess]
lemmas links_ok_def = links_in_def [of sat_assess]
lemmas same_links_def = same_links_in_def [of sat_assess]
lemmas store_inv_def = store_inv_in_def [of sat_assess]

definition same_keys :: "task_wrapper \<Rightarrow> task_wrapper \<Rightarrow> bool" where
  "same_keys a b \<longleftrightarrow> path (wt b) = path (wt a)
     \<and> pre_path_sorting_critereon (wt b) = pre_path_sorting_critereon (wt a)
     \<and> post_path_sorting_critereon (wt b) = post_path_sorting_critereon (wt a)
     \<and> in_work_queue b = in_work_queue a
     \<and> (in_work_queue a \<longrightarrow> queued_state (wt a) \<longrightarrow> queued_state (wt b))"

lemmas shape_defs = same_keys_def same_links_in_def

lemma same_keys_compare:
  "same_keys a b \<Longrightarrow> parac_task_compare x (wt b) = parac_task_compare x (wt a)"
  "same_keys a b \<Longrightarrow> parac_task_compare (wt b) x = parac_task_compare (wt a) x"
  by (simp_all add: same_keys_def task_compare_key)

lemma same_links_ok:
  assumes "links_in As h" "h r = Some tw" "same_links_in As (wt tw) (wt tw')"
  shows "links_in As (h(r \<mapsto> tw'))"
proof -
  have e: "kid (wt tw') = kid (wt tw)" "local_parent (wt tw') = local_parent (wt tw)"
    "wf_task_in As (wt tw) \<longrightarrow> wf_task_in As (wt tw')" "path (wt tw') = path (wt tw)"
    "parent_state (wt tw) \<longrightarrow> parent_state (wt tw')"
    using assms(3) by (auto simp: same_links_in_def kid_def fun_eq_iff wf_task_in_def
        left_child_def right_child_def)
  show ?thesis unfolding links_in_def
  proof (intro allI impI)
    fix x xw
    assume x: "(h(r \<mapsto> tw')) x = Some xw"
    then obtain xw0 where x0: "h x = Some xw0" "kid (wt xw) = kid (wt xw0)"
      "local_parent (wt xw) = local_parent (wt xw0)" "wf_task_in As (wt xw0) \<longrightarrow> wf_task_in As (wt xw)"
      "path (wt xw) = path (wt xw0)"
      using assms(2) e by (auto split: if_splits)
    have "wf_task_in As (wt xw0)
      \<and> (\<forall>c. kid (wt xw0) c \<longrightarrow> (\<exists>ctw. h c = Some ctw \<and> local_parent (wt ctw) = Some x))
      \<and> (\<forall>p. local_parent (wt xw0) = Some p \<longrightarrow>
          (\<exists>ptw. h p = Some ptw \<and> kid (wt ptw) x \<and> parent_state (wt ptw)
                 \<and> child_path (path (wt ptw)) (path (wt xw0))))"
      using assms(1) x0(1) unfolding links_in_def by blast
    then show "wf_task_in As (wt xw)
      \<and> (\<forall>c. kid (wt xw) c \<longrightarrow> (\<exists>ctw. (h(r \<mapsto> tw')) c = Some ctw \<and> local_parent (wt ctw) = Some x))
      \<and> (\<forall>p. local_parent (wt xw) = Some p \<longrightarrow>
          (\<exists>ptw. (h(r \<mapsto> tw')) p = Some ptw \<and> kid (wt ptw) x \<and> parent_state (wt ptw)
                 \<and> child_path (path (wt ptw)) (path (wt xw))))"
      using x0 e assms(2) by (auto simp: fun_upd_apply)
  qed
qed

lemma sorted_task_at_upd:
  assumes "\<And>x. x \<in> set q \<Longrightarrow> same_keys (the (h x)) (the (h' x))"
    "sorted_wrt (\<lambda>x y. \<not> parac_task_compare y x) (map (task_at h) q)"
  shows "sorted_wrt (\<lambda>x y. \<not> parac_task_compare y x) (map (task_at h') q)"
proof -
  have e: "parac_task_compare (task_at h' y) (task_at h' x) = parac_task_compare (task_at h y) (task_at h x)"
    if "x \<in> set q" "y \<in> set q" for x y
    using same_keys_compare assms(1) [OF that(1)] assms(1) [OF that(2)] by (metis task_at_def)
  show ?thesis
    unfolding sorted_wrt_map
    by (rule sorted_wrt_mono_rel [OF _ assms(2) [unfolded sorted_wrt_map]]) (simp add: e)
qed

lemma same_keys_refl: "same_keys a a" by (simp add: same_keys_def)

lemma same_keys_queue:
  assumes "queue_ok h q n" "h r = Some tw" "same_keys tw tw'"
  shows "queue_ok (h(r \<mapsto> tw')) q n"
proof -
  have iq: "in_work_queue tw' = in_work_queue tw" 
    "in_work_queue tw \<longrightarrow> queued_state (wt tw) \<longrightarrow> queued_state (wt tw')"
    using assms(3) by (auto simp: same_keys_def)
  have "sorted_wrt (\<lambda>x y. \<not> parac_task_compare y x) (map (task_at (h(r \<mapsto> tw'))) q)"
    by (rule sorted_task_at_upd [of q h])
      (use assms same_keys_refl in \<open>auto simp: queue_ok_def\<close>)
  then show ?thesis
    using assms(1,2) iq unfolding queue_ok_def by (auto simp: fun_upd_apply)
qed

lemma same_shape_inv:
  assumes "store_inv_in As s" "heap s r = Some tw" "same_links_in As (wt tw) (wt tw')" "same_keys tw tw'"
  shows "store_inv_in As (s\<lparr>heap := (heap s)(r \<mapsto> tw')\<rparr>)"
  using assms same_links_ok [of As "heap s" r tw tw'] same_keys_queue [of "heap s" _ _ r tw tw']
  unfolding store_inv_in_def by (auto simp: tasks_ok_def)

lemma store_inv_frame:
  "store_inv_in As s \<Longrightarrow> heap s' = heap s \<Longrightarrow> tasks s' = tasks s \<Longrightarrow>
   tasksWaitingForWorkerQueue s' = tasksWaitingForWorkerQueue s \<Longrightarrow>
   tasksWaitingForWorkerQueueSize s' = tasksWaitingForWorkerQueueSize s \<Longrightarrow> store_inv_in As s'"
  by (simp add: store_inv_in_def)

text \<open>The fields the invariant reads, as one tuple, and the operations that keep it.\<close>

definition core :: "task_store \<Rightarrow> _" where
  "core s = (heap s, tasks s, tasksWaitingForWorkerQueue s, tasksWaitingForWorkerQueueSize s)"

lemma store_inv_core: "core s' = core s \<Longrightarrow> store_inv_in As s' = store_inv_in As s"
  by (simp add: core_def store_inv_in_def)

lemma core_keep [store_simps]:
  "core (emit e s) = core s"
  "core (s\<lparr>exit_status := x\<rparr>) = core s"
  "core (s\<lparr>tasksBeingWorkedOn := ws\<rparr>) = core s"
  "core (s\<lparr>tasksWaitingForChildren := ws\<rparr>) = core s"
  "core (s\<lparr>offloadedTasks := off\<rparr>) = core s"
  "core (s\<lparr>tasksSize := n\<rparr>) = core s"
  "core (s\<lparr>autoShutdownTimeoutSet := b\<rparr>) = core s"
  by (simp_all add: core_def emit_def)

lemma core_ops [store_simps]:
  "core (manageAutoShutdownTimer s) = core s"
  "core (finish_root t s) = core s"
  "core (remove_from_tasksBeingWorkedOn r s) = core s"
  "core (remove_from_tasksWaitingForChildren r s) = core s"
  "core (insert_into_tasksWaitingForChildren r s) = core s"
  "core (insert_into_tasksBeingWorkedOn r s) = core s"
  by (simp_all add: manageAutoShutdownTimer_def finish_root_def core_def emit_def
      remove_from_tasksBeingWorkedOn_def remove_from_tasksWaitingForChildren_def
      insert_into_tasksWaitingForChildren_def insert_into_tasksBeingWorkedOn_def)

lemma core_heap: "core s' = core s \<Longrightarrow> heap s' = heap s" by (simp add: core_def)

lemma queue_not_in:
  "queue_ok h q n \<Longrightarrow> h r = Some tw \<Longrightarrow> r \<in> set q \<longleftrightarrow> in_work_queue tw"
  by (auto simp: queue_ok_def)

lemma queue_live: "queue_ok h q n \<Longrightarrow> r \<in> set q \<Longrightarrow> \<exists>tw. h r = Some tw \<and> in_work_queue tw"
  by (auto simp: queue_ok_def)

subsection \<open>The waiting queue\<close>

lemma insert_inv:
  assumes inv: "store_inv_in As s" and r: "heap s r = Some tw" and nq: "\<not> in_work_queue tw"
    and st: "\<not> st_has (state (wt tw)) PARAC_TASK_SPLITTED" "result (wt tw) = PARAC_PENDING"
    and ins: "insert_into_tasksWaitingForWorkerQueue r s = Some s'"
  shows "store_inv_in As s'" and "set (tasksWaitingForWorkerQueue s') = insert r (set (tasksWaitingForWorkerQueue s))"
proof -
  let ?t = "(wt tw)\<lparr>state := state (wt tw) OR PARAC_TASK_WORK_AVAILABLE\<rparr>"
  let ?tw = "tw\<lparr>wt := ?t, in_work_queue := True\<rparr>"
  let ?h = "(heap s)(r \<mapsto> tw\<lparr>wt := ?t\<rparr>)"
  let ?q = "tasksWaitingForWorkerQueue s"
  have q0: "queue_ok (heap s) ?q (tasksWaitingForWorkerQueueSize s)" using inv by (simp add: store_inv_in_def)
  have rq: "r \<notin> set ?q" using queue_not_in [OF q0 r] nq by simp
  have live: "\<exists>xw. heap s x = Some xw" if "x \<in> set ?q" for x using queue_live [OF q0 that] by blast
  have ts: "opt_list (map (\<lambda>x. get_task x (s\<lparr>heap := ?h\<rparr>)) ?q) = Some (map (task_at ?h) ?q)"
    by (rule opt_list_map_Some) (use live in \<open>fastforce simp: get_task_def task_at_def\<close>)
  let ?i = "lower_bound (\<lambda>l. parac_task_compare l ?t) (map (task_at ?h) ?q) 0 (length ?q)"
  have s': "core s' = ((heap s)(r \<mapsto> ?tw), tasks s, insert_at ?i r ?q,
      tasksWaitingForWorkerQueueSize s + 1)"
    using ins r ts by (auto simp: insert_into_tasksWaitingForWorkerQueue_def core_def emit_def
        Let_def)
  have eqh: "map (task_at ?h) ?q = map (task_at (heap s)) ?q"
    using rq by (auto simp: task_at_def)
  have eqi: "map (task_at ((heap s)(r \<mapsto> ?tw))) (insert_at ?i r ?q)
     = insert_at ?i ?t (map (task_at (heap s)) ?q)"
    using rq by (auto simp: map_insert_at task_at_def intro!: arg_cong [of _ _ "insert_at ?i ?t"])
  have srt: "sorted_wrt (\<lambda>x y. \<not> parac_task_compare y x) (map (task_at (heap s)) ?q)"
    using q0 by (simp add: queue_ok_def)
  have "queue_ok ((heap s)(r \<mapsto> ?tw)) (insert_at ?i r ?q) (tasksWaitingForWorkerQueueSize s + 1)"
    unfolding queue_ok_def
  proof (intro conjI)
    show "sorted_wrt (\<lambda>x y. \<not> parac_task_compare y x)
       (map (task_at ((heap s)(r \<mapsto> ?tw))) (insert_at ?i r ?q))"
      unfolding eqi unfolding eqh using task_order.insert_sorted [OF srt, of ?t] by simp
    have "queued_state ?t" using st by (simp add: queued_state_def state_bits)
    then show "\<forall>x xw. ((heap s)(r \<mapsto> ?tw)) x = Some xw \<and> in_work_queue xw \<longrightarrow> queued_state (wt xw)"
      using q0 by (auto simp: queue_ok_def)
    show "\<forall>x. (x \<in> set (insert_at ?i r ?q)) = (\<exists>xw. ((heap s)(r \<mapsto> ?tw)) x = Some xw \<and> in_work_queue xw)"
      using q0 rq by (auto simp: queue_ok_def)
  qed (use q0 rq in \<open>simp_all add: queue_ok_def\<close>)
  moreover have "links_in As ((heap s)(r \<mapsto> ?tw))"
    by (rule same_links_ok [of As "heap s" r tw])
      (use inv r st in \<open>simp_all add: store_inv_in_def same_links_in_def parent_state_def\<close>)
  moreover have "tasks_ok ((heap s)(r \<mapsto> ?tw)) (tasks s)"
    using inv r by (auto simp: store_inv_in_def tasks_ok_def)
  ultimately show "store_inv_in As s'" using s' by (simp add: core_def store_inv_in_def)
  show "set (tasksWaitingForWorkerQueue s') = insert r (set ?q)" using s' by (simp add: core_def)
qed

lemma queue_tail_ok:
  assumes "queue_ok h (r # q) n" "h r = Some tw" "\<not> in_work_queue tw'"
  shows "queue_ok (h(r \<mapsto> tw')) q (n - 1)"
proof -
  have m: "map (task_at (h(r \<mapsto> tw'))) q = map (task_at h) q"
    using assms(1) by (auto simp: queue_ok_def task_at_def)
  show ?thesis using assms unfolding queue_ok_def m by (auto simp: fun_upd_apply)
qed

lemma queue_cut_ok:
  assumes "queue_ok h (xs @ r # ys) n" "h r = Some tw" "\<not> in_work_queue tw'"
  shows "queue_ok (h(r \<mapsto> tw')) (xs @ ys) (n - 1)"
proof -
  have m: "map (task_at (h(r \<mapsto> tw'))) (xs @ ys) = map (task_at h) (xs @ ys)"
    using assms(1) by (auto simp: queue_ok_def task_at_def)
  have "sorted_wrt (\<lambda>x y. \<not> parac_task_compare y x) (map (task_at h) (xs @ ys))"
    using assms(1) by (auto simp: queue_ok_def sorted_wrt_append)
  then show ?thesis using assms unfolding queue_ok_def m by (auto simp: fun_upd_apply)
qed

lemma path_of_queue: "path_of (s\<lparr>tasksWaitingForWorkerQueue := q\<rparr>) = path_of s"
  by (simp add: path_of_def fun_eq_iff)

lemma pop_work_inv:
  assumes inv: "store_inv_in As s" and pop: "pop_work f s = Some (Some r, s')"
  obtains q tw where "tasksWaitingForWorkerQueue s = r # q" "tasksWaitingForWorkerQueue s' = q"
    "heap s r = Some tw" "store_inv_in As s'" "r \<in> set (tasksBeingWorkedOn s')"
    "\<exists>tw'. heap s' r = Some tw' \<and> st_has (state (wt tw')) PARAC_TASK_WORKING
       \<and> \<not> st_has (state (wt tw')) PARAC_TASK_WORK_AVAILABLE"
proof -
  from pop obtain q where q: "tasksWaitingForWorkerQueue s = r # q"
    by (auto simp: pop_work_def Let_def bind_eq_Some_conv split: list.splits)
  have q0: "queue_ok (heap s) (r # q) (tasksWaitingForWorkerQueueSize s)"
    using inv q by (simp add: store_inv_in_def)
  obtain tw where tw: "heap s r = Some tw" "in_work_queue tw" using queue_live [OF q0, of r] by auto
  then have qs: "queued_state (wt tw)" using q0 by (auto simp: queue_ok_def)
  let ?tw = "tw\<lparr>wt := (wt tw)\<lparr>state := st_without (state (wt tw)) PARAC_TASK_WORK_AVAILABLE
         OR PARAC_TASK_WORKING, delete_notification := f\<rparr>, refcount := refcount tw + 1,
       in_work_queue := False\<rparr>"
  have s': "core s' = ((heap s)(r \<mapsto> ?tw), tasks s, q, tasksWaitingForWorkerQueueSize s - 1)"
    "tasksBeingWorkedOn s' = task_set_insert (path_of s) r (tasksBeingWorkedOn s)"
    using pop q tw
    by (auto simp: pop_work_def Let_def core_def insert_into_tasksBeingWorkedOn_def path_of_queue)
  have "links_in As ((heap s)(r \<mapsto> ?tw))"
    by (rule same_links_ok [of As "heap s" r tw])
      (use inv tw qs in \<open>auto simp: store_inv_in_def same_links_in_def parent_state_def queued_state_def\<close>)
  moreover have "queue_ok ((heap s)(r \<mapsto> ?tw)) q (tasksWaitingForWorkerQueueSize s - 1)"
    by (rule queue_tail_ok [OF q0 tw(1)]) simp
  moreover have "tasks_ok ((heap s)(r \<mapsto> ?tw)) (tasks s)"
    using inv tw by (auto simp: store_inv_in_def tasks_ok_def)
  ultimately have "store_inv_in As s'" using s' by (simp add: core_def store_inv_in_def)
  moreover have "r \<in> set (task_set_insert pf r xs)" for pf xs
    by (induction xs) (auto simp: task_ref_compare_def split: if_splits)
  ultimately show ?thesis
    using that [OF q _ tw(1)] s' by (auto simp: core_def state_bits)
qed

lemma last_offloadable_spec:
  "last_offloadable ok xs = Some res \<Longrightarrow> (\<And>x. x \<in> set xs \<Longrightarrow> ok x = Some (okb x)) \<Longrightarrow>
   (case res of None \<Rightarrow> \<forall>x \<in> set xs. \<not> okb x
    | Some (i, r) \<Rightarrow> i < length xs \<and> xs ! i = r \<and> okb r \<and> (\<forall>x \<in> set (drop (Suc i) xs). \<not> okb x))"
proof (induction xs arbitrary: res)
  case (Cons x xs)
  then obtain l where l: "last_offloadable ok xs = Some l" by (auto split: bind_splits)
  from Cons.IH [OF l Cons.prems(2)] Cons.prems l show ?case
    by (auto split: option.splits prod.splits if_splits)
qed auto

definition offloadable :: "(parac_task \<Rightarrow> bool) option \<Rightarrow> parac_task \<Rightarrow> bool" where
  "offloadable check t \<longleftrightarrow> has_serialize t \<and> received_from t = None
     \<and> (case check of None \<Rightarrow> True | Some f \<Rightarrow> f t)"

lemma pop_offload_inv:
  assumes inv: "store_inv_in As s" and pop: "pop_offload node check s = Some (Some r, s')"
  obtains xs ys tw where "tasksWaitingForWorkerQueue s = xs @ r # ys"
    "tasksWaitingForWorkerQueue s' = xs @ ys" "heap s r = Some tw" "offloadable check (wt tw)"
    "\<forall>y \<in> set ys. \<not> offloadable check (task_at (heap s) y)" "store_inv_in As s'"
    "offloadedTasks s' = (offloadedTasks s)(node \<mapsto> List.insert r
       (case offloadedTasks s node of None \<Rightarrow> [] | Some xs \<Rightarrow> xs))"
    "heap s' = (heap s)(r \<mapsto> tw\<lparr>wt := (wt tw)\<lparr>offloaded_to := Some node,
       state := st_without (state (wt tw)) PARAC_TASK_WORK_AVAILABLE OR PARAC_TASK_OFFLOADED\<rparr>,
       refcount := refcount tw + 1, in_work_queue := False\<rparr>)"
proof -
  let ?q = "tasksWaitingForWorkerQueue s"
  let ?ok = "\<lambda>r. do { t \<leftarrow> get_task r s; Some (has_serialize t \<and> received_from t = None \<and>
               (case check of None \<Rightarrow> True | Some f \<Rightarrow> f t)) }"
  have q0: "queue_ok (heap s) ?q (tasksWaitingForWorkerQueueSize s)"
    using inv by (simp add: store_inv_in_def)
  have ok: "?ok x = Some (offloadable check (task_at (heap s) x))" if "x \<in> set ?q" for x
    using queue_live [OF q0 that] by (auto simp: offloadable_def task_at_def split: option.splits)
  from pop obtain i where f: "last_offloadable ?ok ?q = Some (Some (i, r))"
    by (auto simp: pop_offload_def Let_def bind_eq_Some_conv split: option.splits)
  from last_offloadable_spec [OF f ok] have i: "i < length ?q" "?q ! i = r"
    "offloadable check (task_at (heap s) r)"
    "\<forall>x \<in> set (drop (Suc i) ?q). \<not> offloadable check (task_at (heap s) x)" by auto
  have split: "?q = take i ?q @ r # drop (Suc i) ?q" using i by (metis id_take_nth_drop)
  have "r \<in> set ?q" using i by auto
  then obtain tw where tw: "heap s r = Some tw" "in_work_queue tw" using queue_live [OF q0] by blast
  then have qs: "queued_state (wt tw)" using q0 by (auto simp: queue_ok_def)
  let ?tw = "tw\<lparr>wt := (wt tw)\<lparr>offloaded_to := Some node,
       state := st_without (state (wt tw)) PARAC_TASK_WORK_AVAILABLE OR PARAC_TASK_OFFLOADED\<rparr>,
       refcount := refcount tw + 1, in_work_queue := False\<rparr>"
  have s': "core s' = ((heap s)(r \<mapsto> ?tw), tasks s, take i ?q @ drop (Suc i) ?q,
      tasksWaitingForWorkerQueueSize s - 1)"
    "offloadedTasks s' = (offloadedTasks s)(node \<mapsto> List.insert r
       (case offloadedTasks s node of None \<Rightarrow> [] | Some xs \<Rightarrow> xs))"
    using pop f tw by (auto simp: pop_offload_def Let_def core_def emit_def)
  have "links_in As ((heap s)(r \<mapsto> ?tw))"
    by (rule same_links_ok [of As "heap s" r tw])
      (use inv tw qs in \<open>auto simp: store_inv_in_def same_links_in_def parent_state_def queued_state_def\<close>)
  moreover have "queue_ok ((heap s)(r \<mapsto> ?tw)) (take i ?q @ drop (Suc i) ?q)
      (tasksWaitingForWorkerQueueSize s - 1)"
    by (rule queue_cut_ok [of "heap s" _ r _ _ tw]) (use q0 split tw in simp_all)
  moreover have "tasks_ok ((heap s)(r \<mapsto> ?tw)) (tasks s)"
    using inv tw by (auto simp: store_inv_in_def tasks_ok_def)
  ultimately have "store_inv_in As s'" using s' by (simp add: core_def store_inv_in_def)
  with that [OF split _ tw(1) _ i(4)] s' i(3) tw(1) show ?thesis
    by (simp add: core_def task_at_def)
qed

lemma undo_offload_inv:
  assumes inv: "store_inv_in As s" and r: "heap s r = Some tw" "\<not> in_work_queue tw"
    "\<not> st_has (state (wt tw)) PARAC_TASK_SPLITTED" "result (wt tw) = PARAC_PENDING"
    and undo: "undo_offload r s = Some s'"
  shows "store_inv_in As s'"
proof -
  from undo r(1) obtain node where n: "offloaded_to (wt tw) = Some node"
    by (auto simp: undo_offload_def bind_eq_Some_conv)
  let ?off = "case offloadedTasks s node of None \<Rightarrow> [] | Some xs \<Rightarrow> xs"
  show ?thesis
  proof (cases "r \<in> set ?off")
    case False
    with undo r(1) n have "core s' = core s" by (auto simp: undo_offload_def Let_def store_simps)
    with inv show ?thesis using store_inv_core by blast
  next
    case True
    then obtain xs where off: "offloadedTasks s node = Some xs" "r \<in> set xs"
      by (cases "offloadedTasks s node") auto
    let ?tw = "tw\<lparr>wt := (wt tw)\<lparr>state := st_without (state (wt tw)) PARAC_TASK_OFFLOADED,
        offloaded_to := None\<rparr>, refcount := refcount tw - 1\<rparr>"
    let ?s = "s\<lparr>offloadedTasks := (offloadedTasks s)(node \<mapsto> task_set_erase r xs),
        heap := (heap s)(r \<mapsto> ?tw)\<rparr>"
    have "insert_into_tasksWaitingForWorkerQueue r ?s = Some s'"
      using undo r(1) n off by (simp add: undo_offload_def Let_def)
    moreover have "store_inv_in As ?s"
      by (rule store_inv_frame [OF same_shape_inv [OF inv r(1), of ?tw]])
        (auto simp: shape_defs parent_state_def queued_state_def state_bits)
    ultimately show ?thesis
      by (rule_tac insert_inv(1) [of As ?s r ?tw]) (use r in \<open>auto simp: state_bits\<close>)
  qed
qed

subsection \<open>Removal\<close>

text \<open>What the removal of task \<open>r\<close> (with record \<open>t\<close>) does to another task \<open>x\<close>.\<close>

definition clear_slot :: "task_ref \<Rightarrow> child_slot \<Rightarrow> child_slot" where
  "clear_slot r sl = (if sl = SlotTask r then SlotNull else sl)"

definition cut_parent :: "parac_task \<Rightarrow> task_ref \<Rightarrow> task_wrapper \<Rightarrow> task_wrapper" where
  "cut_parent t x xw = (if kid t x then xw\<lparr>wt := (wt xw)\<lparr>parent_task := None\<rparr>\<rparr> else xw)"

definition cut_child :: "task_ref \<Rightarrow> parac_task \<Rightarrow> task_ref \<Rightarrow> task_wrapper \<Rightarrow> task_wrapper" where
  "cut_child r t x xw = (if local_parent t = Some x
     then xw\<lparr>refcount := refcount xw - 1, wt := (wt xw)\<lparr>slot0 := clear_slot r (slot0 (wt xw)),
             slot1 := clear_slot r (slot1 (wt xw))\<rparr>\<rparr> else xw)"

lemma task_of_slot_iff: "task_of_slot sl = Some c \<longleftrightarrow> (case c of None \<Rightarrow> sl = SlotNull | Some x \<Rightarrow> sl = SlotTask x)"
  by (cases sl) (auto split: option.splits)

lemma orphan_heap:
  "orphan c s = Some s' \<Longrightarrow> s' = s\<lparr>heap := (\<lambda>x. if c = Some x
      then map_option (\<lambda>xw. xw\<lparr>wt := (wt xw)\<lparr>parent_task := None\<rparr>\<rparr>) (heap s x) else heap s x)\<rparr>"
  by (cases c) (auto simp: orphan_def upd_task_iff fun_eq_iff intro!: task_world.equality)

lemma orphan_kids_heap:
  assumes "left_child t = Some l" "right_child t = Some rc"
    "orphan l s = Some s1" "orphan rc s1 = Some s2"
  shows "s2 = s\<lparr>heap := (\<lambda>x. map_option (cut_parent t x) (heap s x))\<rparr>"
proof -
  have k: "kid t x \<longleftrightarrow> l = Some x \<or> rc = Some x" for x
    using assms(1,2) by (auto simp: kid_def left_child_def right_child_def task_of_slot_iff split: option.splits)
  have h: "heap s2 x = map_option (cut_parent t x) (heap s x)" for x
    using orphan_heap [OF assms(3)] orphan_heap [OF assms(4)]
    by (cases "heap s x") (auto simp: cut_parent_def k)
  show ?thesis
    using orphan_heap [OF assms(3)] orphan_heap [OF assms(4)]
    by (simp add: h [symmetric])
qed

lemma unlink_heap:
  assumes "unlink_from_parent r t s = Some s'"
    "\<And>p pw. local_parent t = Some p \<Longrightarrow> heap s p = Some pw \<Longrightarrow> extended_children_count (wt pw) = -1"
  shows "s' = s\<lparr>heap := (\<lambda>x. map_option (cut_child r t x) (heap s x))\<rparr>"
proof (cases "local_parent t")
  case None
  then have "s' = s" using assms(1)
    by (auto simp: unlink_from_parent_def local_parent_def split: option.splits if_splits)
  moreover have "cut_child r t x = id" for x using None by (auto simp: cut_child_def)
  ultimately show ?thesis by (simp add: option.map_id)
next
  case (Some p)
  then have f: "parent_task t = Some p" "received_from t = None"
    by (auto simp: local_parent_def split: if_splits)
  from assms(1) f obtain pw where pw: "heap s p = Some pw"
    by (auto simp: unlink_from_parent_def upd_wrapper_def split: option.splits)
  from assms(2) [OF Some pw] have ec: "extended_children_count (wt pw) = -1" .
  from assms(1) f pw ec obtain l rc where l: "left_child (wt pw) = Some l" "right_child (wt pw) = Some rc"
    by (auto simp: unlink_from_parent_def bind_eq_Some_conv)
  have e: "l = Some r \<longleftrightarrow> slot0 (wt pw) = SlotTask r" "rc = Some r \<longleftrightarrow> slot1 (wt pw) = SlotTask r"
    using l by (auto simp: left_child_def right_child_def task_of_slot_iff split: option.splits)
  have "s' = s\<lparr>heap := (heap s)(p \<mapsto> cut_child r t p pw)\<rparr>"
    using assms(1) f pw ec l Some unfolding cut_child_def clear_slot_def e [symmetric]
    by (cases "l = Some r"; cases "rc = Some r")
      (simp_all add: unlink_from_parent_def e [symmetric])
  moreover have "(heap s)(p \<mapsto> cut_child r t p pw) = (\<lambda>x. map_option (cut_child r t x) (heap s x))"
  proof
    fix x
    show "((heap s)(p \<mapsto> cut_child r t p pw)) x = map_option (cut_child r t x) (heap s x)"
      using pw Some by (cases "heap s x") (auto simp: cut_child_def)
  qed
  ultimately show ?thesis by simp
qed

definition removed_heap ::
  "task_ref \<Rightarrow> parac_task \<Rightarrow> (task_ref \<Rightarrow> task_wrapper option) \<Rightarrow> task_ref \<Rightarrow> task_wrapper option" where
  "removed_heap r t h x = (if x = r then None
     else map_option (\<lambda>xw. cut_child r t x (cut_parent t x xw)) (h x))"

lemma links_removed:
  assumes l: "links_in As h" and r: "h r = Some tw"
  shows "links_in As (removed_heap r (wt tw) h)"
proof -
  let ?t = "wt tw" and ?c = "\<lambda>x xw. cut_child r (wt tw) x (cut_parent (wt tw) x xw)"
  have keep: "path (wt (?c x xw)) = path (wt xw)" "parent_state (wt (?c x xw)) = parent_state (wt xw)"
    for x xw by (simp_all add: cut_child_def cut_parent_def parent_state_def)
  have wf: "wf_task_in As (wt xw) \<Longrightarrow> wf_task_in As (wt (?c x xw))" for x xw
    by (auto simp: cut_child_def cut_parent_def wf_task_in_def left_child_def right_child_def clear_slot_def)
  have lp: "local_parent (wt (?c x xw)) = (if kid ?t x then None else local_parent (wt xw))" for x xw
    by (auto simp: cut_child_def cut_parent_def local_parent_def)
  have kd: "kid (wt (?c x xw)) c \<longleftrightarrow> kid (wt xw) c \<and> (local_parent ?t = Some x \<longrightarrow> c \<noteq> r)" for x xw c
    by (auto simp: cut_child_def cut_parent_def kid_def clear_slot_def)
  have links: "wf_task_in As (wt xw)"
    "\<And>c. kid (wt xw) c \<Longrightarrow> \<exists>ctw. h c = Some ctw \<and> local_parent (wt ctw) = Some x"
    "\<And>p. local_parent (wt xw) = Some p \<Longrightarrow> \<exists>ptw. h p = Some ptw \<and> kid (wt ptw) x
        \<and> parent_state (wt ptw) \<and> child_path (path (wt ptw)) (path (wt xw))"
    if "h x = Some xw" for x xw
    using l that unfolding links_in_def by blast+
  show ?thesis unfolding links_in_def
  proof (intro allI impI conjI)
    fix x xw'
    assume x: "removed_heap r ?t h x = Some xw'"
    then obtain xw where xr: "x \<noteq> r" and xw: "h x = Some xw" and xw': "xw' = ?c x xw"
      by (auto simp: removed_heap_def split: if_splits)
    show "wf_task_in As (wt xw')" using links(1) [OF xw] by (simp add: xw' wf)
    show "\<exists>ctw. removed_heap r ?t h c = Some ctw \<and> local_parent (wt ctw) = Some x" if k: "kid (wt xw') c" for c
    proof -
      from k have k0: "kid (wt xw) c" "local_parent ?t = Some x \<longrightarrow> c \<noteq> r" by (auto simp: xw' kd)
      from links(2) [OF xw k0(1)] obtain cw where c: "h c = Some cw" "local_parent (wt cw) = Some x" by blast
      have "c \<noteq> r" using k0(2) c r by auto
      moreover have "\<not> kid ?t c" using links(2) [OF r, of c] c xr by auto
      ultimately show ?thesis using c by (auto simp: removed_heap_def lp)
    qed
    show "\<exists>ptw. removed_heap r ?t h p = Some ptw \<and> kid (wt ptw) x \<and> parent_state (wt ptw)
        \<and> child_path (path (wt ptw)) (path (wt xw'))" if p: "local_parent (wt xw') = Some p" for p
    proof -
      from p have p0: "\<not> kid ?t x" "local_parent (wt xw) = Some p" by (auto simp: xw' lp split: if_splits)
      from links(3) [OF xw p0(2)] obtain pw where pw: "h p = Some pw" "kid (wt pw) x"
        "parent_state (wt pw)" "child_path (path (wt pw)) (path (wt xw))" by blast
      have "p \<noteq> r" using pw(1,2) r p0(1) by auto
      with pw xr show ?thesis by (auto simp: removed_heap_def keep kd xw')
    qed
  qed
qed

lemma queue_removed:
  assumes q: "queue_ok h q n" and r: "h r = Some tw" "\<not> in_work_queue tw"
  shows "queue_ok (removed_heap r t h) q n"
proof -
  let ?c = "\<lambda>x xw. cut_child r t x (cut_parent t x xw)"
  have keep: "in_work_queue (?c x xw) = in_work_queue xw" "queued_state (wt (?c x xw)) = queued_state (wt xw)"
    "pre_path_sorting_critereon (wt (?c x xw)) = pre_path_sorting_critereon (wt xw)"
    "post_path_sorting_critereon (wt (?c x xw)) = post_path_sorting_critereon (wt xw)"
    "path (wt (?c x xw)) = path (wt xw)" for x xw
    by (simp_all add: cut_child_def cut_parent_def queued_state_def)
  have rq: "r \<notin> set q" using queue_not_in [OF q r(1)] r(2) by simp
  have at: "task_at (removed_heap r t h) x = wt (?c x (the (h x)))" if "x \<in> set q" for x
    using queue_live [OF q that] rq that by (auto simp: task_at_def removed_heap_def)
  have "sorted_wrt (\<lambda>x y. \<not> parac_task_compare y x) (map (task_at (removed_heap r t h)) q)"
    unfolding sorted_wrt_map
  proof (rule sorted_wrt_mono_rel)
    show "sorted_wrt (\<lambda>x y. \<not> parac_task_compare (task_at h y) (task_at h x)) q"
      using q by (simp add: queue_ok_def sorted_wrt_map)
    show "\<not> parac_task_compare (task_at (removed_heap r t h) y) (task_at (removed_heap r t h) x)"
      if "x \<in> set q" "y \<in> set q" "\<not> parac_task_compare (task_at h y) (task_at h x)" for x y
      using that(3) unfolding at [OF that(1)] at [OF that(2)] by (simp add: task_compare_key keep task_at_def)
  qed
  moreover have "x \<in> set q \<longleftrightarrow> (\<exists>xw. removed_heap r t h x = Some xw \<and> in_work_queue xw)" for x
    using q rq by (auto simp: queue_ok_def removed_heap_def keep)
  moreover have "queued_state (wt xw)" if "removed_heap r t h x = Some xw" "in_work_queue xw" for x xw
    using q that by (auto simp: queue_ok_def removed_heap_def keep split: if_splits)
  ultimately show ?thesis using q unfolding queue_ok_def by blast
qed

lemma store_inv_links: "store_inv_in As s \<Longrightarrow> heap s r = Some tw \<Longrightarrow> wf_task_in As (wt tw)"
  by (auto simp: store_inv_in_def links_in_def)

lemma store_inv_queue:
  "store_inv_in As s \<Longrightarrow> queue_ok (heap s) (tasksWaitingForWorkerQueue s) (tasksWaitingForWorkerQueueSize s)"
  by (simp add: store_inv_in_def)

text \<open>The calls of the store that reach the solver module.\<close>

definition to_solver :: "outcall \<Rightarrow> bool" where
  "to_solver c = (case c of FreeUserdata r \<Rightarrow> True | LearnedClause r \<Rightarrow> True | _ \<Rightarrow> False)"

lemma to_solver_simps [simp]:
  "to_solver (FreeUserdata r)" "to_solver (LearnedClause r)" "\<not> to_solver (DecWorkQueue i)"
  "\<not> to_solver (IncWorkQueue i)" "\<not> to_solver RequestExit" "\<not> to_solver (FormulaParsed i)"
  "\<not> to_solver (SetTimeout n)" "\<not> to_solver CancelTimeout" "\<not> to_solver (NotifyDeleted f)"
  "\<not> to_solver PingOnWork"
  by (simp_all add: to_solver_def)

text \<open>Only \<open>out\<close>, up to what does not concern the solver, was called between the two stores.\<close>

definition called :: "outcall list \<Rightarrow> 'a task_world_scheme \<Rightarrow> 'a task_world_scheme \<Rightarrow> bool" where
  "called out s s' \<longleftrightarrow> (\<exists>cs. outcalls s' = outcalls s @ cs \<and> filter to_solver cs = out)"

lemma called_refl: "called [] s s" by (simp add: called_def)

lemma called_trans: "called a s t \<Longrightarrow> called b t u \<Longrightarrow> called (a @ b) s u"
  by (fastforce simp: called_def)

lemma called_same: "outcalls s' = outcalls s \<Longrightarrow> called [] s s'" by (simp add: called_def)

lemma remove_task_core:
  assumes inv: "store_inv_in As s" and tw: "heap s r = Some tw" and rm: "remove_task r s = Some s'"
  shows "heap s' = removed_heap r (wt tw) (heap s)" "tasks s' = remove1 r (tasks s)"
    "tasksWaitingForWorkerQueue s' = tasksWaitingForWorkerQueue s"
    "tasksWaitingForWorkerQueueSize s' = tasksWaitingForWorkerQueueSize s"
    "exit_status s' = exit_status s" "has_input_file s' = has_input_file s"
    "set (outcalls s) \<subseteq> set (outcalls s')" "distribute_max_level s' = distribute_max_level s"
    "called (if has_free_userdata (wt tw) then [FreeUserdata r] else []) s s'"
proof -
  let ?tw = "tw\<lparr>refcount := refcount tw - 1\<rparr>" and ?s0 = "s\<lparr>heap := (heap s)(r \<mapsto> tw\<lparr>refcount := refcount tw - 1\<rparr>)\<rparr>"
  have inv0: "store_inv_in As ?s0" by (rule same_shape_inv [OF inv tw]) (simp_all add: shape_defs)
  have wf: "wf_task_in As (wt tw)" using store_inv_links [OF inv tw] .
  from rm tw wf obtain l rc s1 s2 t3 s3 tw4 where
    lr: "left_child (wt tw) = Some l" "right_child (wt tw) = Some rc"
    and o1: "orphan l ?s0 = Some s1" and o2: "orphan rc s1 = Some s2"
    and g: "get_task r s2 = Some t3" and u: "unlink_from_parent r t3 s2 = Some s3"
    and w: "get_wrapper r (manageAutoShutdownTimer (s3\<lparr>tasksSize := tasksSize s3 - 1\<rparr>)) = Some tw4"
    and s': "s' = destroy_task r tw4 (manageAutoShutdownTimer (s3\<lparr>tasksSize := tasksSize s3 - 1\<rparr>))"
    by (auto simp: remove_task_def bind_eq_Some_conv wf_task_in_def Let_def)
  have h2: "s2 = ?s0\<lparr>heap := (\<lambda>x. map_option (cut_parent (wt tw) x) (heap ?s0 x))\<rparr>"
    using orphan_kids_heap [OF lr o1 o2] .
  have t3: "t3 = wt (cut_parent (wt tw) r ?tw)" using g h2 by (auto simp: get_task_def)
  have ec: "extended_children_count (wt pw) = -1" if "heap s2 p = Some pw" for p pw
  proof -
    from that h2 obtain pw0 where "heap ?s0 p = Some pw0" "pw = cut_parent (wt tw) p pw0" by auto
    with store_inv_links [OF inv0, of p pw0] show ?thesis by (simp add: cut_parent_def wf_task_in_def)
  qed
  have h3: "s3 = s2\<lparr>heap := (\<lambda>x. map_option (cut_child r t3 x) (heap s2 x))\<rparr>"
    using unlink_heap [OF u ec] .
  have cc: "cut_child r t3 x (cut_parent (wt tw) x xw) = cut_child r (wt tw) x (cut_parent (wt tw) x xw)"
    if "x \<noteq> r" for x xw
  proof (cases "kid (wt tw) r")
    case True
    then have "local_parent (wt tw) = Some r"
      using inv tw unfolding store_inv_in_def links_in_def by fastforce
    with that True show ?thesis by (simp add: t3 cut_parent_def cut_child_def local_parent_def split: if_splits)
  next
    case False
    then show ?thesis by (simp add: t3 cut_parent_def cut_child_def local_parent_def)
  qed
  have m: "heap (manageAutoShutdownTimer x) = heap x" for x using core_heap [OF core_ops(1)] .
  have "heap s3 x = removed_heap r (wt tw) (heap s) x" if "x \<noteq> r" for x
    using that cc [OF that] by (cases "heap s x") (auto simp: h3 h2 removed_heap_def)
  then show "heap s' = removed_heap r (wt tw) (heap s)"
    unfolding s' by (auto simp: destroy_task_def Let_def m removed_heap_def fun_eq_iff emit_def
        split: option.splits)
  have "core (manageAutoShutdownTimer x) = core x" for x by (rule core_ops(1))
  then have "tasks (manageAutoShutdownTimer x) = tasks x"
    "tasksWaitingForWorkerQueue (manageAutoShutdownTimer x) = tasksWaitingForWorkerQueue x"
    "tasksWaitingForWorkerQueueSize (manageAutoShutdownTimer x) = tasksWaitingForWorkerQueueSize x" for x
    by (simp_all add: core_def)
  then show "tasks s' = remove1 r (tasks s)"
    "tasksWaitingForWorkerQueue s' = tasksWaitingForWorkerQueue s"
    "tasksWaitingForWorkerQueueSize s' = tasksWaitingForWorkerQueueSize s"
    unfolding s' by (simp_all add: destroy_task_def Let_def h3 h2 emit_def split: option.splits)
  show "exit_status s' = exit_status s" "has_input_file s' = has_input_file s"
    "set (outcalls s) \<subseteq> set (outcalls s')" "distribute_max_level s' = distribute_max_level s"
    unfolding s' by (auto simp: destroy_task_def Let_def h3 h2 manageAutoShutdownTimer_def emit_def
        split: option.splits)
  have "tw4 = cut_child r t3 r (cut_parent (wt tw) r ?tw)"
    using w m by (simp add: get_wrapper_def h3 h2)
  then have "has_free_userdata (wt tw4) = has_free_userdata (wt tw)"
    by (simp add: cut_child_def cut_parent_def)
  then show "called (if has_free_userdata (wt tw) then [FreeUserdata r] else []) s s'"
    unfolding s' by (auto simp: called_def destroy_task_def Let_def h3 h2 manageAutoShutdownTimer_def emit_def
        split: option.splits)
qed

lemma remove_task_inv:
  assumes inv: "store_inv_in As s" and tw: "heap s r = Some tw" "\<not> in_work_queue tw"
    and rm: "remove_task r s = Some s'"
  shows "store_inv_in As s'"
proof -
  have "tasks_ok (removed_heap r (wt tw) (heap s)) (remove1 r (tasks s))"
    using inv tw by (auto simp: store_inv_in_def tasks_ok_def removed_heap_def dom_def split: if_splits)
  with links_removed [of As "heap s" r tw, OF _ tw(1)] queue_removed [OF store_inv_queue [OF inv] tw, of "wt tw"] inv
  show ?thesis
    unfolding store_inv_in_def remove_task_core(1-4) [OF inv tw(1) rm] by blast
qed

subsection \<open>New tasks\<close>

text \<open>
  The caller's side of \<^verbatim>\<open>newTask\<close>: the allocator returns an unused address; a parent on this
  node is split, is not waiting for a worker, is not stopped, and has no child yet at the new path.
\<close>

definition fresh_child :: "task_store \<Rightarrow> task_ref \<Rightarrow> task_ref \<Rightarrow> parac_path \<Rightarrow> bool" where
  "fresh_child s a p np \<longleftrightarrow> heap s a = None \<and> \<not> parac_path_is_extended np \<and>
     (\<exists>pw. heap s p = Some pw \<and> parent_state (wt pw) \<and> \<not> stop (wt pw) \<and>
        (parac_path_get_next_left (path (wt pw)) = Some np \<and> slot0 (wt pw) = SlotNull \<or>
         parac_path_get_next_left (path (wt pw)) \<noteq> Some np \<and>
         parac_path_get_next_left (path (wt pw)) \<noteq> None \<and>
         parac_path_get_next_right (path (wt pw)) = Some np \<and> slot1 (wt pw) = SlotNull))"

definition fresh_task :: "task_ref option \<Rightarrow> parac_path \<Rightarrow> parac_id \<Rightarrow> parac_task" where
  "fresh_task parent np orig = parac_task_init\<lparr>parent_task := parent, has_task_store := True,
     path := np, originator := orig, has_handle := True, terminate := Some DefaultTerminate\<rparr>"

lemma fresh_task_facts:
  "wf_task_in As (fresh_task p np orig)" "\<not> kid (fresh_task p np orig) c"
  "local_parent (fresh_task p np orig) = p" "path (fresh_task p np orig) = np"
  by (simp_all add: fresh_task_def parac_task_init_def wf_task_in_def kid_def local_parent_def
      left_child_def right_child_def)

lemma queue_add_ok:
  assumes "queue_ok h q n" "h a = None" "\<not> in_work_queue tw"
  shows "queue_ok (h(a \<mapsto> tw)) q n"
proof -
  have "a \<notin> set q" using assms(1,2) by (auto simp: queue_ok_def)
  then have m: "map (task_at (h(a \<mapsto> tw))) q = map (task_at h) q" by (auto simp: task_at_def)
  show ?thesis using assms unfolding queue_ok_def m by (auto simp: fun_upd_apply)
qed

lemma links_add_root:
  assumes "links_in As h" "h a = None"
  shows "links_in As (h(a \<mapsto> \<lparr>wt = fresh_task None np orig, refcount = c, in_work_queue = b\<rparr>))"
proof -
  have "x \<noteq> a" if "h x = Some xw" for x xw using that assms(2) by auto
  with assms(1) show ?thesis unfolding links_in_def
    by (auto simp: fresh_task_facts fun_upd_apply split: if_splits) (metis (no_types) assms(2) option.distinct(1))+
qed

lemma new_root_inv:
  assumes inv: "store_inv_in As s" and a: "heap s a = None"
    and new: "newTask a None np orig s = Some (res, s')"
  shows "store_inv_in As s'" "res = Some a"
    "heap s' = (heap s)(a \<mapsto> \<lparr>wt = fresh_task None np orig, refcount = 0, in_work_queue = False\<rparr>)"
proof -
  let ?h = "(heap s)(a \<mapsto> \<lparr>wt = fresh_task None np orig, refcount = 0, in_work_queue = False\<rparr>)"
  have m: "heap (manageAutoShutdownTimer x) = heap x" "tasks (manageAutoShutdownTimer x) = tasks x"
    "tasksWaitingForWorkerQueue (manageAutoShutdownTimer x) = tasksWaitingForWorkerQueue x"
    "tasksWaitingForWorkerQueueSize (manageAutoShutdownTimer x) = tasksWaitingForWorkerQueueSize x" for x
    using core_ops(1) [of x] by (simp_all add: core_def)
  have c: "core s' = (?h, a # tasks s, tasksWaitingForWorkerQueue s, tasksWaitingForWorkerQueueSize s)"
    and r: "res = Some a"
    using new by (auto simp: newTask_def Let_def core_def m upd_task_iff fresh_task_def)
  then show "heap s' = ?h" "res = Some a" by (simp_all add: core_def)
  have "a \<notin> set (tasks s)" using inv a by (auto simp: store_inv_in_def tasks_ok_def)
  then have "tasks_ok ?h (a # tasks s)" using inv by (auto simp: store_inv_in_def tasks_ok_def)
  moreover have "links_in As ?h" using inv a by (intro links_add_root) (simp_all add: store_inv_in_def)
  moreover have "queue_ok ?h (tasksWaitingForWorkerQueue s) (tasksWaitingForWorkerQueueSize s)"
    by (rule queue_add_ok [OF store_inv_queue [OF inv] a]) simp
  ultimately show "store_inv_in As s'" using c by (simp add: core_def store_inv_in_def)
qed

lemma links_add_child:
  assumes l: "links_in As h" and a: "h a = None" and p: "h p = Some pw" "parent_state (wt pw)"
    and cp: "child_path (path (wt pw)) np"
    and pw': "same_links_in As (wt pw) ((wt pw')\<lparr>slot0 := slot0 (wt pw), slot1 := slot1 (wt pw)\<rparr>)"
      "\<And>c. kid (wt pw') c \<longleftrightarrow> kid (wt pw) c \<or> c = a" "wf_task_in As (wt pw')"
  shows "links_in As (h(p \<mapsto> pw', a \<mapsto> \<lparr>wt = fresh_task (Some p) np orig, refcount = n, in_work_queue = b\<rparr>))"
proof -
  let ?h = "h(p \<mapsto> pw', a \<mapsto> \<lparr>wt = fresh_task (Some p) np orig, refcount = n, in_work_queue = b\<rparr>)"
  have pa: "p \<noteq> a" using a p by auto
  have e: "path (wt pw') = path (wt pw)" "local_parent (wt pw') = local_parent (wt pw)"
    "parent_state (wt pw')"
    using pw'(1) p(2) by (auto simp: same_links_in_def parent_state_def)
  have links: "wf_task_in As (wt xw)"
    "\<And>c. kid (wt xw) c \<Longrightarrow> \<exists>ctw. h c = Some ctw \<and> local_parent (wt ctw) = Some x"
    "\<And>q. local_parent (wt xw) = Some q \<Longrightarrow> \<exists>ptw. h q = Some ptw \<and> kid (wt ptw) x
        \<and> parent_state (wt ptw) \<and> child_path (path (wt ptw)) (path (wt xw))"
    if "h x = Some xw" for x xw
    using l that unfolding links_in_def by blast+
  show ?thesis unfolding links_in_def
  proof (intro allI impI conjI)
    fix x xw
    assume x: "?h x = Some xw"
    consider (new) "x = a" "xw = \<lparr>wt = fresh_task (Some p) np orig, refcount = n, in_work_queue = b\<rparr>"
      | (old) xw0 where "x \<noteq> a" "h x = Some xw0" "path (wt xw) = path (wt xw0)"
          "local_parent (wt xw) = local_parent (wt xw0)" "wf_task_in As (wt xw)"
          "\<And>c. kid (wt xw) c \<Longrightarrow> kid (wt xw0) c \<or> c = a \<and> x = p"
    proof (cases "x = a")
      case True
      with x show thesis by (intro new) auto
    next
      case xa: False
      show thesis
      proof (cases "x = p")
        case True
        with x xa p pw' e show thesis by (intro old [of pw]) auto
      next
        case False
        with x xa links(1) show thesis by (intro old [of xw]) auto
      qed
    qed
    note cases = this
    show "wf_task_in As (wt xw)" using cases by cases (auto simp: fresh_task_facts)
    show "\<exists>ctw. ?h c = Some ctw \<and> local_parent (wt ctw) = Some x" if "kid (wt xw) c" for c
      using cases
    proof cases
      case new
      then show ?thesis using that by (simp add: fresh_task_facts)
    next
      case (old xw0)
      from old(6) [OF that] show ?thesis
      proof
        assume "kid (wt xw0) c"
        from links(2) [OF old(2) this] obtain cw where "h c = Some cw" "local_parent (wt cw) = Some x" by blast
        with that(1) show ?thesis using \<open>h c = Some cw\<close> a p e by (auto simp: fun_upd_apply)
      qed (auto simp: fresh_task_facts)
    qed
    show "\<exists>ptw. ?h q = Some ptw \<and> kid (wt ptw) x \<and> parent_state (wt ptw)
        \<and> child_path (path (wt ptw)) (path (wt xw))" if "local_parent (wt xw) = Some q" for q
      using cases
    proof cases
      case new
      then have "q = p" using that by (simp add: fresh_task_facts)
      then show ?thesis using new pa pw'(2) e cp by (auto simp: fresh_task_facts)
    next
      case (old xw0)
      then have "local_parent (wt xw0) = Some q" using that by simp
      from links(3) [OF old(2) this] old(3) obtain pw0 where "h q = Some pw0" "kid (wt pw0) x"
        "parent_state (wt pw0)" "child_path (path (wt pw0)) (path (wt xw))" by auto
      note q = this
      show ?thesis
      proof (cases "q = p")
        case True
        with q p have "pw0 = pw" by simp
        with True q pa e pw'(2) show ?thesis by (intro exI [of _ pw']) simp
      next
        case False
        with q a show ?thesis by (intro exI [of _ pw0]) auto
      qed
    qed
  qed
qed

text \<open>The parent after the new child was entered.\<close>

definition with_child :: "task_ref \<Rightarrow> parac_path \<Rightarrow> task_wrapper \<Rightarrow> task_wrapper" where
  "with_child a np pw = (if parac_path_get_next_left (path (wt pw)) = Some np
      then pw\<lparr>refcount := refcount pw + 1, wt := (wt pw)\<lparr>slot0 := SlotTask a\<rparr>\<rparr>
      else pw\<lparr>refcount := refcount pw + 1, wt := (wt pw)\<lparr>slot1 := SlotTask a\<rparr>\<rparr>)"

lemma shutdown_timer_keeps:
  "heap (manageAutoShutdownTimer s) = heap s" "tasks (manageAutoShutdownTimer s) = tasks s"
  "tasksWaitingForWorkerQueue (manageAutoShutdownTimer s) = tasksWaitingForWorkerQueue s"
  "tasksWaitingForWorkerQueueSize (manageAutoShutdownTimer s) = tasksWaitingForWorkerQueueSize s"
  "exit_status (manageAutoShutdownTimer s) = exit_status s"
  "has_input_file (manageAutoShutdownTimer s) = has_input_file s"
  "distribute_max_level (manageAutoShutdownTimer s) = distribute_max_level s"
  by (simp_all add: manageAutoShutdownTimer_def emit_def)

lemma new_child_core:
  assumes fc: "fresh_child s a p np" and pw: "heap s p = Some pw"
  shows "\<exists>s'. newTask a (Some p) np orig s = Some (Some a, s')
    \<and> core s' = ((heap s)(p \<mapsto> with_child a np pw,
         a \<mapsto> \<lparr>wt = fresh_task (Some p) np orig, refcount = 0, in_work_queue = False\<rparr>),
       a # tasks s, tasksWaitingForWorkerQueue s, tasksWaitingForWorkerQueueSize s)
    \<and> exit_status s' = exit_status s \<and> has_input_file s' = has_input_file s
    \<and> distribute_max_level s' = distribute_max_level s"
proof -
  from fc pw have a: "heap s a = None" and np: "\<not> parac_path_is_extended np" and st: "\<not> stop (wt pw)"
    by (auto simp: fresh_child_def)
  have pa: "p \<noteq> a" using a pw by auto
  show ?thesis
  proof (cases "parac_path_get_next_left (path (wt pw)) = Some np")
    case True
    with pw pa np st show ?thesis
      by (simp add: newTask_def Let_def core_def shutdown_timer_keeps upd_task_iff fresh_task_def with_child_def
          fun_upd_twist [OF pa])
  next
    case False
    with fc pw obtain l where "parac_path_get_next_left (path (wt pw)) = Some l" "l \<noteq> np"
      "parac_path_get_next_right (path (wt pw)) = Some np"
      by (auto simp: fresh_child_def)
    with pw pa np st show ?thesis
      by (simp add: newTask_def Let_def core_def shutdown_timer_keeps upd_task_iff fresh_task_def with_child_def
          fun_upd_twist [OF pa])
  qed
qed

lemma new_child_inv:
  assumes inv: "store_inv_in As s" and fc: "fresh_child s a p np"
    and new: "newTask a (Some p) np orig s = Some (res, s')"
  shows "store_inv_in As s'" "res = Some a"
    "\<exists>tw. heap s' a = Some tw \<and> wt tw = fresh_task (Some p) np orig"
proof -
  from fc obtain pw where a: "heap s a = None" and np: "\<not> parac_path_is_extended np"
    and pw: "heap s p = Some pw" "parent_state (wt pw)" "\<not> stop (wt pw)" by (auto simp: fresh_child_def)
  have pa: "p \<noteq> a" using a pw by auto
  let ?t = "\<lparr>wt = fresh_task (Some p) np orig, refcount = 0, in_work_queue = False\<rparr> :: task_wrapper"
  define pw' where "pw' = (if parac_path_get_next_left (path (wt pw)) = Some np
      then pw\<lparr>refcount := refcount pw + 1, wt := (wt pw)\<lparr>slot0 := SlotTask a\<rparr>\<rparr>
      else pw\<lparr>refcount := refcount pw + 1, wt := (wt pw)\<lparr>slot1 := SlotTask a\<rparr>\<rparr>)"
  have pwd: "pw' = with_child a np pw" by (simp add: pw'_def with_child_def)
  let ?h = "(heap s)(p \<mapsto> pw', a \<mapsto> ?t)"
  have c: "core s' = (?h, a # tasks s, tasksWaitingForWorkerQueue s, tasksWaitingForWorkerQueueSize s)
     \<and> res = Some a"
    using new_child_core [OF fc pw(1), of orig] new unfolding pwd by auto
  then show "res = Some a" "\<exists>tw. heap s' a = Some tw \<and> wt tw = fresh_task (Some p) np orig"
    by (auto simp: core_def)
  have slot: "if parac_path_get_next_left (path (wt pw)) = Some np then slot0 (wt pw) = SlotNull
       else slot1 (wt pw) = SlotNull"
    using fc pw by (auto simp: fresh_child_def)
  have wf: "wf_task_in As (wt pw)" using store_inv_links [OF inv pw(1)] .
  have cp: "child_path (path (wt pw)) np" using fc pw by (auto simp: fresh_child_def child_path_def)
  have sl: "same_links_in As (wt pw) ((wt pw')\<lparr>slot0 := slot0 (wt pw), slot1 := slot1 (wt pw)\<rparr>)"
    by (simp add: pw'_def same_links_in_def parent_state_def)
  have kd: "kid (wt pw') c \<longleftrightarrow> kid (wt pw) c \<or> c = a" for c
    using slot by (auto simp: pw'_def kid_def)
  have "\<not> kid (wt pw) a"
    using inv pw(1) a unfolding store_inv_in_def links_in_def by fastforce
  then have wfp: "wf_task_in As (wt pw')"
    using wf by (auto simp: pw'_def wf_task_in_def left_child_def right_child_def kid_def)
  have "links_in As ?h"
    using links_add_child [of As "heap s" a p pw np pw', OF _ a pw(1,2) cp sl kd wfp] inv
    by (simp add: store_inv_in_def)
  moreover have "queue_ok ?h (tasksWaitingForWorkerQueue s) (tasksWaitingForWorkerQueueSize s)"
  proof -
    have "queue_ok ((heap s)(p \<mapsto> pw')) (tasksWaitingForWorkerQueue s) (tasksWaitingForWorkerQueueSize s)"
      by (rule same_keys_queue [OF store_inv_queue [OF inv] pw(1)])
        (use pw in \<open>auto simp: pw'_def same_keys_def queued_state_def parent_state_def\<close>)
    then show ?thesis by (rule queue_add_ok) (use a pa in simp_all)
  qed
  moreover have "tasks_ok ?h (a # tasks s)"
    using inv a pw by (auto simp: store_inv_in_def tasks_ok_def)
  ultimately show "store_inv_in As s'" using c by (simp add: core_def store_inv_in_def)
qed

subsection \<open>Assessment\<close>

text \<open>The effect of the default assessment on the record of the task.\<close>

definition assessed :: "parac_task \<Rightarrow> parac_task" where
  "assessed t =
     (if st_has (state t) PARAC_TASK_SPLITTED then
        let t' = (case verdict PARAC_SAT PARAC_UNSAT [left_result t, right_result t] of
                    None \<Rightarrow> t | Some v \<Rightarrow> t\<lparr>result := v\<rparr>)
        in if result t' \<noteq> PARAC_PENDING \<and> result t' \<noteq> PARAC_SPLITTED
           then t'\<lparr>state := st_without (state t' OR PARAC_TASK_SPLITS_DONE) PARAC_TASK_WAITING_FOR_SPLITS\<rparr>
           else t'
      else if result t \<noteq> PARAC_PENDING \<and> received_from t = None
      then t\<lparr>state := st_without (state t OR PARAC_TASK_DONE) PARAC_TASK_WORK_AVAILABLE\<rparr>
      else t)"

lemma verdict_cases:
  "verdict d ot rs = Some v \<Longrightarrow> v = d \<or> v = ot"
  by (auto simp: verdict_def split: if_splits)

lemma assessed_keeps:
  "same_links_in As t (assessed t)" "left_result (assessed t) = left_result t"
  "right_result (assessed t) = right_result t" "originator (assessed t) = originator t"
  "pre_path_sorting_critereon (assessed t) = pre_path_sorting_critereon t"
  "post_path_sorting_critereon (assessed t) = post_path_sorting_critereon t"
  "last_state (assessed t) = last_state t" "userdata (assessed t) = userdata t"
  "queued_state t \<Longrightarrow> assessed t = t" 
  by (auto simp: assessed_def Let_def same_links_in_def parent_state_def queued_state_def state_bits
      split: option.splits)

lemma notify_result_heap:
  "notify_result r w = Some w' \<Longrightarrow> \<exists>out. w' = w\<lparr>outcalls := outcalls w @ out\<rparr>"
  by (auto simp: notify_result_def bind_eq_Some_conv emit_def intro: exI [of _ "[]"] split: if_splits)

lemma default_assess_heap:
  assumes tw: "heap w r = Some tw" and a: "parac_task_default_assess tc r w = Some (st, w')"
  shows "st = state (assessed (wt tw))
    \<and> (\<exists>out. w' = w\<lparr>heap := (heap w)(r \<mapsto> tw\<lparr>wt := assessed (wt tw)\<rparr>), outcalls := outcalls w @ out\<rparr>)"
proof (cases "st_has (state (wt tw)) PARAC_TASK_SPLITTED")
  case False
  with tw a show ?thesis
    by (auto simp: parac_task_default_assess_def shared_assess_def assessed_def bind_eq_Some_conv
        fun_upd_idem dest!: notify_result_heap intro: exI [of _ "[]"] split: if_splits)
next
  case True
  define t' where "t' = (case verdict PARAC_SAT PARAC_UNSAT [left_result (wt tw), right_result (wt tw)] of
      None \<Rightarrow> wt tw | Some v \<Rightarrow> (wt tw)\<lparr>result := v\<rparr>)"
  have ab: "\<exists>n. existential_assess tc r False w = Some (n, w\<lparr>heap := (heap w)(r \<mapsto> tw\<lparr>wt := t'\<rparr>)\<rparr>)"
    unfolding existential_assess_def existential.binary_no_termination [OF tw] t'_def
    using tw by (auto split: option.splits simp: fun_upd_idem)
  then obtain n where n: "existential_assess tc r False w
      = Some (n, w\<lparr>heap := (heap w)(r \<mapsto> tw\<lparr>wt := t'\<rparr>)\<rparr>)" by blast
  have as: "assessed (wt tw) = (if result t' \<noteq> PARAC_PENDING \<and> result t' \<noteq> PARAC_SPLITTED
      then t'\<lparr>state := st_without (state t' OR PARAC_TASK_SPLITS_DONE) PARAC_TASK_WAITING_FOR_SPLITS\<rparr>
      else t')"
    using True by (simp add: assessed_def t'_def Let_def)
  show ?thesis
  proof (cases "result t' \<noteq> PARAC_PENDING \<and> result t' \<noteq> PARAC_SPLITTED")
    case fin: True
    from a tw True n fin show ?thesis
      by (auto simp: parac_task_default_assess_def shared_assess_def as bind_eq_Some_conv
          dest!: notify_result_heap intro: exI [of _ "[]"] split: if_splits)
  next
    case nf: False
    from a tw True n nf show ?thesis
      by (auto simp: parac_task_default_assess_def shared_assess_def as bind_eq_Some_conv
          dest!: notify_result_heap intro: exI [of _ "[]"] split: if_splits)
  qed
qed

lemma if_emit: "\<exists>out. (if c then emit e w else w) = w\<lparr>outcalls := outcalls w @ out\<rparr>"
  by (auto simp: emit_def intro: exI [of _ "[]"])

lemma run_assess_heap:
  assumes "heap s r = Some tw" "wf_task (wt tw)" "assess (wt tw) = Some f"
    "run_assess f tc r s = Some (st, s')"
  shows "st = state (assessed (wt tw))
    \<and> (\<exists>out. s' = s\<lparr>heap := (heap s)(r \<mapsto> tw\<lparr>wt := assessed (wt tw)\<rparr>), outcalls := outcalls s @ out\<rparr>)"
proof (cases "f = DefaultAssess")
  case True
  with assms default_assess_heap [OF assms(1)] show ?thesis by simp
next
  case False
  with assms(2,3) have "f = SolverTaskAssess" by (auto simp: wf_task_def)
  with assms(4) obtain s1 where s1: "parac_task_default_assess tc r s = Some (st, s1)"
    "\<exists>out. s' = s1\<lparr>outcalls := outcalls s1 @ out\<rparr>"
    by (auto simp: SolverTask_static_assess_def bind_eq_Some_conv if_emit)
  with default_assess_heap [OF assms(1) s1(1)] show ?thesis by auto
qed

text \<open>
  The caller's side of \<^verbatim>\<open>assess_task\<close>: the task is not waiting for a worker already, and when
  it asks for one it is a leaf without a result.
\<close>

definition assessable :: "task_wrapper \<Rightarrow> bool" where
  "assessable tw \<longleftrightarrow> \<not> in_work_queue tw \<and> (st_has (state (wt tw)) PARAC_TASK_WORK_AVAILABLE \<longrightarrow>
     \<not> st_has (state (wt tw)) PARAC_TASK_SPLITTED \<and> result (wt tw) = PARAC_PENDING)"

lemma parent_assessable:
  "store_inv_in As s \<Longrightarrow> heap s p = Some pw \<Longrightarrow> parent_state (wt pw) \<Longrightarrow> assessable pw"
  unfolding store_inv_in_def queue_ok_def assessable_def parent_state_def queued_state_def by blast

lemma record_in_parent_inv:
  assumes inv: "store_inv_in As s" and rec: "record_in_parent p pth res idx s = Some s'"
    and ps: "\<And>pw. heap s p = Some pw \<Longrightarrow> parent_state (wt pw)"
  shows "store_inv_in As s' \<and> (\<exists>pw. heap s' p = Some pw \<and> parent_state (wt pw))"
proof -
  from rec obtain pw where pw: "heap s p = Some pw"
    by (auto simp: record_in_parent_def bind_eq_Some_conv get_task_iff)
  have wf: "wf_task_in As (wt pw)" using store_inv_links [OF inv pw] .
  have "s' = s\<lparr>heap := (heap s)(p \<mapsto> pw\<lparr>wt := (wt pw)\<lparr>left_result := res\<rparr>\<rparr>)\<rparr> \<or>
        s' = s\<lparr>heap := (heap s)(p \<mapsto> pw\<lparr>wt := (wt pw)\<lparr>right_result := res\<rparr>\<rparr>)\<rparr>"
  proof (cases "parac_path_is_extended pth")
    case True
    with rec pw wf show ?thesis by (auto simp: record_in_parent_def bind_eq_Some_conv wf_task_in_def)
  next
    case False
    with rec pw obtain l where "(if pth = l then upd_task p (\<lambda>t. t\<lparr>left_result := res\<rparr>) s
       else upd_task p (\<lambda>t. t\<lparr>right_result := res\<rparr>) s) = Some s'"
      by (auto simp: record_in_parent_def bind_eq_Some_conv)
    with pw show ?thesis by (cases "pth = l") simp_all
  qed
  moreover have "store_inv_in As (s\<lparr>heap := (heap s)(p \<mapsto> pw\<lparr>wt := (wt pw)\<lparr>left_result := res\<rparr>\<rparr>)\<rparr>)"
    "store_inv_in As (s\<lparr>heap := (heap s)(p \<mapsto> pw\<lparr>wt := (wt pw)\<lparr>right_result := res\<rparr>\<rparr>)\<rparr>)"
    by (rule same_shape_inv [OF inv pw]; simp add: shape_defs parent_state_def queued_state_def)+
  ultimately show ?thesis using ps [OF pw] by (auto simp: parent_state_def)
qed

lemma removed_parent_state:
  "removed_heap r t h p = Some pw \<Longrightarrow> (\<And>pw0. h p = Some pw0 \<Longrightarrow> parent_state (wt pw0)) \<Longrightarrow> parent_state (wt pw)"
  by (cases "h p") (auto simp: removed_heap_def cut_child_def cut_parent_def parent_state_def split: if_splits)

lemma assess_not_done_inv:
  assumes inv: "store_inv_in As s" and tw: "heap s r = Some tw" and as: "assessable tw"
    and st: "st = state (wt tw)" and nd: "assess_not_done r st s = Some s'"
  shows "store_inv_in As s'"
proof -
  let ?ins = "st_has st PARAC_TASK_WORK_AVAILABLE \<and> \<not> st_has st PARAC_TASK_DONE"
  let ?w = "\<not> st_has (last_state (wt tw)) PARAC_TASK_WAITING_FOR_SPLITS
      \<and> st_has st PARAC_TASK_WAITING_FOR_SPLITS"
  from nd tw obtain sb where
    sb: "(if ?ins then insert_into_tasksWaitingForWorkerQueue r s else Some s) = Some sb"
    and s': "upd_task r (\<lambda>t. t\<lparr>last_state := st\<rparr>)
        (if ?w then insert_into_tasksWaitingForChildren r sb else sb) = Some s'"
    unfolding assess_not_done_def bind_eq_Some_conv Let_def by auto
  have invb: "store_inv_in As sb"
  proof (cases ?ins)
    case True
    with sb as show ?thesis
      by (intro insert_inv(1) [OF inv tw]) (auto simp: assessable_def st)
  qed (use sb inv in auto)
  define sc where "sc = (if ?w then insert_into_tasksWaitingForChildren r sb else sb)"
  have invc: "store_inv_in As sc"
    using invb store_inv_core [OF core_ops(5)] unfolding sc_def by auto
  from s' obtain tc where c: "heap sc r = Some tc"
    and s'': "s' = sc\<lparr>heap := (heap sc)(r \<mapsto> tc\<lparr>wt := (wt tc)\<lparr>last_state := st\<rparr>\<rparr>)\<rparr>"
    unfolding sc_def [symmetric] upd_task_iff by blast
  show ?thesis unfolding s''
    by (rule same_shape_inv [OF invc c]) (simp_all add: shape_defs parent_state_def queued_state_def)
qed

lemma assess_done_steps:
  assumes "heap s r = Some tw" "assess_done ac rm rp r st s = Some s'"
  obtains sb idx sc where "core sb = core s"
    and "(if rm then remove_task r sb else Some sb) = Some sc"
    and "(case local_parent (wt tw) of None \<Rightarrow> Some sc | Some p \<Rightarrow> do {
          s \<leftarrow> record_in_parent p (path (wt tw)) (result (wt tw)) idx sc; ac rp p s }) = Some s'"
proof -
  let ?t = "wt tw"
  define s1 where "s1 = (if \<not> st_has (state ?t) PARAC_TASK_OFFLOADED
      then emit (DecWorkQueue (originator ?t)) s else s)"
  define s2 where "s2 = (if path ?t = PARAC_PATH_PARSER then emit (FormulaParsed (originator ?t)) s1 else s1)"
  define s3 where "s3 = finish_root ?t (remove_from_tasksBeingWorkedOn r s2)"
  define s4 where "s4 = (if st AND PARAC_TASK_SPLITS_DONE = PARAC_TASK_SPLITS_DONE
      then remove_from_tasksWaitingForChildren r s3 else s3)"
  define idx where "idx = (if local_parent ?t \<noteq> None \<and> parac_path_is_extended (path ?t)
      then extended_children_parent_index ?t else -1)"
  have lp: "(if received_from ?t \<noteq> None then None else parent_task ?t) = local_parent ?t"
    by (simp add: local_parent_def)
  from assms obtain sc where "(if rm then remove_task r s4 else Some s4) = Some sc"
    and "(case local_parent ?t of None \<Rightarrow> Some sc | Some p \<Rightarrow> do {
          s \<leftarrow> record_in_parent p (path ?t) (result ?t) idx sc; ac rp p s }) = Some s'"
    unfolding assess_done_def get_task_simp [OF assms(1)] Option.bind.simps lp Let_def
      s1_def [symmetric] s2_def [symmetric] s3_def [symmetric] s4_def [symmetric] idx_def [symmetric]
      bind_eq_Some_conv c_assert_eq by blast
  moreover have "core s4 = core s"
    by (simp add: s4_def s3_def s2_def s1_def store_simps)
  ultimately show ?thesis using that by blast
qed

lemma assess_done_inv:
  assumes inv: "store_inv_in As s" and tw: "heap s r = Some tw" and nq: "\<not> in_work_queue tw"
    and d: "assess_done ac rm rp r st s = Some s'"
    and IH: "\<And>b p s0 s1 pw. store_inv_in As s0 \<Longrightarrow> heap s0 p = Some pw \<Longrightarrow> assessable pw \<Longrightarrow>
      ac b p s0 = Some s1 \<Longrightarrow> store_inv_in As s1"
  shows "store_inv_in As s'"
proof -
  obtain sb idx sc where cb: "core sb = core s"
    and sc: "(if rm then remove_task r sb else Some sb) = Some sc"
    and s': "(case local_parent (wt tw) of None \<Rightarrow> Some sc | Some p \<Rightarrow> do {
          s \<leftarrow> record_in_parent p (path (wt tw)) (result (wt tw)) idx sc; ac rp p s }) = Some s'"
    by (rule assess_done_steps [OF tw d])
  have hb: "heap sb = heap s" and invb: "store_inv_in As sb"
    using cb inv store_inv_core [OF cb] by (simp_all add: core_def)
  have invc: "store_inv_in As sc"
    using sc invb remove_task_inv [OF invb, of r tw] tw nq hb by (auto split: if_splits)
  show ?thesis
  proof (cases "local_parent (wt tw)")
    case None
    with s' invc show ?thesis by simp
  next
    case (Some p)
    from s' Some obtain sd where sd: "record_in_parent p (path (wt tw)) (result (wt tw)) idx sc = Some sd"
      and ac: "ac rp p sd = Some s'" by (auto simp: bind_eq_Some_conv)
    have ps0: "parent_state (wt pw)" if "heap s p = Some pw" for pw
      using inv tw Some that unfolding store_inv_in_def links_in_def by fastforce
    have ps: "parent_state (wt pw)" if "heap sc p = Some pw" for pw
    proof (cases rm)
      case True
      with sc have "remove_task r sb = Some sc" by simp
      from remove_task_core(1) [OF invb _ this, of tw] tw hb that
      show ?thesis using removed_parent_state [of r "wt tw" "heap s" p pw] ps0 by simp
    qed (use sc hb ps0 that in simp)
    from record_in_parent_inv [OF invc sd ps] obtain pw where
      "store_inv_in As sd" "heap sd p = Some pw" "parent_state (wt pw)" by blast
    with IH [OF _ _ parent_assessable ac] show ?thesis by blast
  qed
qed

lemma assess_body_inv:
  assumes inv: "store_inv s" and tw: "heap s r = Some tw" and as: "assessable tw"
    and body: "assess_task_body ac tc rm rp r s = Some s'"
    and IH: "\<And>b p s0 s1 pw. store_inv s0 \<Longrightarrow> heap s0 p = Some pw \<Longrightarrow> assessable pw \<Longrightarrow>
      ac b p s0 = Some s1 \<Longrightarrow> store_inv s1"
  shows "store_inv s'"
proof -
  have wf: "wf_task (wt tw)" using store_inv_links [OF inv tw] .
  let ?t = "assessed (wt tw)" and ?tw = "tw\<lparr>wt := assessed (wt tw)\<rparr>"
  from body tw obtain f st s1 sa where f: "assess (wt tw) = Some f" "run_assess f tc r s = Some (st, s1)"
    and u: "upd_task r (\<lambda>t. t\<lparr>state := st\<rparr>) s1 = Some sa"
    and b: "(if parac_task_state_is_done st then assess_done ac rm rp r st sa
      else assess_not_done r st sa) = Some s'"
    by (auto simp: assess_task_body_def bind_eq_Some_conv)
  from run_assess_heap [OF tw wf f] obtain out where st: "st = state ?t"
    and s1: "s1 = s\<lparr>heap := (heap s)(r \<mapsto> ?tw), outcalls := outcalls s @ out\<rparr>" by blast
  have sa: "sa = s\<lparr>outcalls := outcalls s @ out, heap := (heap s)(r \<mapsto> ?tw)\<rparr>"
    using u by (simp add: s1 st)
  have "store_inv (s\<lparr>heap := (heap s)(r \<mapsto> ?tw)\<rparr>)"
    by (rule same_shape_inv [OF inv tw])
      (use as in \<open>auto simp: assessed_keeps same_keys_def assessable_def
        assessed_keeps(1) [where As = sat_assess, unfolded same_links_def]\<close>)
  then have inva: "store_inv sa" by (rule store_inv_frame) (simp_all add: sa)
  have ta: "heap sa r = Some ?tw" by (simp add: sa)
  have asa: "assessable ?tw"
  proof (cases "st_has (state (wt tw)) PARAC_TASK_WORK_AVAILABLE")
    case True
    with as have "queued_state (wt tw)" by (simp add: assessable_def queued_state_def)
    with as show ?thesis by (simp add: assessed_keeps)
  next
    case False
    then have "\<not> st_has (state ?t) PARAC_TASK_WORK_AVAILABLE"
      by (auto simp: assessed_def Let_def state_bits split: option.splits)
    with as show ?thesis by (simp add: assessable_def)
  qed
  show ?thesis
  proof (cases "parac_task_state_is_done st")
    case True
    with b have "assess_done ac rm rp r st sa = Some s'" by simp
    from assess_done_inv [OF inva ta _ this IH] asa show ?thesis by (auto simp: assessable_def)
  next
    case False
    with b have "assess_not_done r st sa = Some s'" by simp
    from assess_not_done_inv [OF inva ta asa _ this] st show ?thesis by simp
  qed
qed

lemma call_assess_inv:
  "store_inv s \<Longrightarrow> heap s r = Some tw \<Longrightarrow> assessable tw \<Longrightarrow> call n (Assess a b r) s = Some s' \<Longrightarrow> store_inv s'"
proof (induction n arbitrary: s r tw a b s')
  case (Suc n)
  from Suc.prems(4) have body: "assess_task_body (\<lambda>b p. call n (Assess b b p)) (\<lambda>r. call n (Terminate r)) a b r s
     = Some s'" by simp
  show ?case by (rule assess_body_inv [OF Suc.prems(1-3) body]) (rule Suc.IH)
qed simp

end
