(* ===== verification/TaskTree.thy ===== *)
theory TaskTree
  imports TaskStoreInv
begin

unbundle bit_operations_syntax

text \<open>
  The task store over time: the step relation of the store and its clients, the invariant of every
  reachable store, and the climb of a verdict from a finished leaf through its waiting ancestors to
  the root, with the call depth it needs.
\<close>

section \<open>Reachable stores\<close>

text \<open>
  One step of the store together with the clients around it: creating a root task or a child of a
  split task, a client writing the fields of a task that is not waiting (the solver sets a task up
  or splits it, the worker records its result), assessing a task, handing tasks out to a worker or
  a peer, and taking an offloaded task back.
\<close>

inductive store_step :: "task_store \<Rightarrow> task_store \<Rightarrow> bool" where
  new_root: "heap s a = None \<Longrightarrow> newTask a None np orig s = Some (res, s') \<Longrightarrow> store_step s s'"
| new_child: "fresh_child s a p np \<Longrightarrow> newTask a (Some p) np orig s = Some (res, s') \<Longrightarrow> store_step s s'"
| client: "heap s r = Some tw \<Longrightarrow> \<not> in_work_queue tw \<Longrightarrow> same_links (wt tw) t' \<Longrightarrow>
    store_step s (s\<lparr>heap := (heap s)(r \<mapsto> tw\<lparr>wt := t'\<rparr>)\<rparr>)"
| assess: "heap s r = Some tw \<Longrightarrow> assessable tw \<Longrightarrow> assess_task n r s = Some s' \<Longrightarrow> store_step s s'"
| pop_work: "pop_work f s = Some (res, s') \<Longrightarrow> store_step s s'"
| pop_offload: "pop_offload node check s = Some (res, s') \<Longrightarrow> store_step s s'"
| undo_offload: "heap s r = Some tw \<Longrightarrow> \<not> in_work_queue tw \<Longrightarrow>
    \<not> st_has (state (wt tw)) PARAC_TASK_SPLITTED \<Longrightarrow> result (wt tw) = PARAC_PENDING \<Longrightarrow>
    undo_offload r s = Some s' \<Longrightarrow> store_step s s'"
| timer: "store_step s (autoShutdownTimerExpired s)"

inductive store_reachable :: "task_store \<Rightarrow> bool" where
  init: "store_reachable (TaskStore_init timeout input ping level)"
| step: "store_reachable s \<Longrightarrow> store_step s s' \<Longrightarrow> store_reachable s'"

inductive_cases store_stepE: "store_step s s'"

lemma queue_unqueued_upd:
  assumes "queue_ok h q n" "h r = Some tw" "\<not> in_work_queue tw" "\<not> in_work_queue tw'"
  shows "queue_ok (h(r \<mapsto> tw')) q n"
proof -
  have "r \<notin> set q" using queue_not_in [OF assms(1,2)] assms(3) by simp
  then have m: "map (task_at (h(r \<mapsto> tw'))) q = map (task_at h) q" by (auto simp: task_at_def)
  show ?thesis using assms unfolding queue_ok_def m by (auto simp: fun_upd_apply)
qed

lemma pop_work_empty:
  "pop_work f s = Some (None, s') \<Longrightarrow> tasksWaitingForWorkerQueue s = [] \<and> s' = s"
  by (auto simp: pop_work_def bind_eq_Some_conv Let_def split: list.splits)

lemma pop_offload_none:
  "pop_offload node check s = Some (None, s') \<Longrightarrow> s' = s"
  by (auto simp: pop_offload_def bind_eq_Some_conv Let_def split: option.splits)

lemma store_step_inv:
  assumes "store_step s s'" "store_inv s"
  shows "store_inv s'"
  using assms
proof (cases rule: store_step.cases)
  case (new_root a np orig res)
  then show ?thesis using new_root_inv(1) [OF assms(2)] by blast
next
  case (new_child a p np orig res)
  then show ?thesis using new_child_inv(1) [OF assms(2)] by blast
next
  case (client r tw t')
  have "links_ok ((heap s)(r \<mapsto> tw\<lparr>wt := t'\<rparr>))"
    using same_links_ok [of sat_assess "heap s" r tw "tw\<lparr>wt := t'\<rparr>"] client assms(2) by (simp add: store_inv_def)
  with queue_unqueued_upd [OF store_inv_queue [OF assms(2)] client(2,3), of "tw\<lparr>wt := t'\<rparr>"] client assms(2)
  show ?thesis by (auto simp: store_inv_def tasks_ok_def)
next
  case (assess r tw n)
  then show ?thesis using call_assess_inv [OF assms(2)] by (simp add: assess_task_def)
next
  case (pop_work f res)
  then show ?thesis
    using pop_work_empty [of f s s'] assms(2) by (cases res) (auto elim: pop_work_inv [OF assms(2)])
next
  case (pop_offload node check res)
  then show ?thesis
    using pop_offload_none [of node check s s'] assms(2) by (cases res) (auto elim: pop_offload_inv [OF assms(2)])
next
  case (undo_offload r tw)
  then show ?thesis using undo_offload_inv [OF assms(2)] by blast
next
  case timer
  then show ?thesis using assms(2)
    by (auto simp: autoShutdownTimerExpired_def store_inv_def emit_def)
qed

lemma store_init_inv: "store_inv (TaskStore_init timeout input ping level)"
  by (simp add: TaskStore_init_def store_inv_def links_ok_def tasks_ok_def queue_ok_def)

lemma store_reachable_inv: "store_reachable s \<Longrightarrow> store_inv s"
  by (induction rule: store_reachable.induct) (auto intro: store_step_inv store_init_inv)

section \<open>Verdicts climb to the root\<close>

text \<open>
  A task assessed by the default function, or by the one of the SAT solver, which adds the learned
  clause of an unsatisfiable cube.
\<close>

definition own_assess :: "parac_task \<Rightarrow> bool" where
  "own_assess t \<longleftrightarrow> assess t = Some DefaultAssess \<or> assess t = Some SolverTaskAssess \<and> userdata t \<noteq> None"

definition learns :: "u64 \<Rightarrow> parac_task \<Rightarrow> bool" where
  "learns level t \<longleftrightarrow> assess t = Some SolverTaskAssess \<and> parac_task_state_is_done (state t)
     \<and> \<not> st_has (state t) PARAC_TASK_OFFLOADED \<and> parac_path_length (path t) < level
     \<and> \<not> parac_path_is_root (path t) \<and> result t = PARAC_UNSAT"

text \<open>
  A split task that waits for its children: its own work is done, nothing is decided yet.
\<close>

definition waiting_task :: "parac_task \<Rightarrow> bool" where
  "waiting_task t \<longleftrightarrow> st_has (state t) PARAC_TASK_SPLITTED \<and> st_has (state t) PARAC_TASK_DONE
     \<and> \<not> st_has (state t) PARAC_TASK_WORK_AVAILABLE \<and> \<not> st_has (state t) PARAC_TASK_WORKING
     \<and> result t = PARAC_PENDING \<and> received_from t = None \<and> has_task_store t \<and> own_assess t"

definition decided :: "parac_status \<Rightarrow> parac_task \<Rightarrow> bool" where
  "decided v t \<longleftrightarrow> result (assessed t) = v \<and> parac_task_state_is_done (state (assessed t))
     \<and> st_has (state (assessed t)) PARAC_TASK_DONE
     \<and> \<not> st_has (state (assessed t)) PARAC_TASK_WAITING_FOR_SPLITS
     \<and> result t \<noteq> PARAC_AUTO_SHUTDOWN_TRIGGERED
     \<and> received_from t = None \<and> has_task_store t \<and> own_assess t"

text \<open>A result \<open>v\<close> at the child path \<open>c\<close> decides the task.\<close>

definition decides :: "parac_status \<Rightarrow> parac_path \<Rightarrow> parac_task \<Rightarrow> bool" where
  "decides v c t \<longleftrightarrow> v = PARAC_SAT \<or> v = PARAC_UNSAT \<and>
     (if parac_path_get_next_left (path t) = Some c then right_result t = PARAC_UNSAT
      else left_result t = PARAC_UNSAT)"

fun up_chain :: "(task_ref \<Rightarrow> task_wrapper option) \<Rightarrow> parac_status \<Rightarrow> nat \<Rightarrow> parac_path \<Rightarrow> task_ref \<Rightarrow> bool" where
  "up_chain h v 0 c r \<longleftrightarrow> (\<exists>tw. h r = Some tw \<and> waiting_task (wt tw) \<and> decides v c (wt tw)
      \<and> path (wt tw) = parac_path_root \<and> local_parent (wt tw) = None)"
| "up_chain h v (Suc n) c r \<longleftrightarrow> (\<exists>tw p. h r = Some tw \<and> waiting_task (wt tw) \<and> decides v c (wt tw)
      \<and> local_parent (wt tw) = Some p \<and> up_chain h v n (path (wt tw)) p)"

lemma child_path_length:
  assumes "child_path p c" "unat (parac_path_length p) + 1 < 2 ^ 57"
  shows "unat (parac_path_length c) = unat (parac_path_length p) + 1" "path_ok p" "path_ok c"
proof -
  from assms(1) obtain b where b: "parac_path_get_next p b = Some c"
    by (auto simp: child_path_def parac_path_get_next_left_def parac_path_get_next_right_def)
  then have ok: "path_ok p" using get_next_None [of p b] by auto
  from get_next_length [OF ok assms(2), of b] b
  show "unat (parac_path_length c) = unat (parac_path_length p) + 1" "path_ok p" "path_ok c"
    using ok by auto
qed

lemma root_length: "parac_path_length parac_path_root = 0"
  by (simp add: parac_path_length_def parac_path_root_def length_fld_def path_consts
      parac_path_is_overlength_def parac_path_is_extended_def)

lemma is_root_length: "parac_path_is_root p \<Longrightarrow> parac_path_length p = 0"
  by (simp add: parac_path_is_root_def parac_path_length_def path_consts
      parac_path_is_overlength_def parac_path_is_extended_def)

lemma links_parent:
  assumes "links_ok h" "h r = Some tw" "local_parent (wt tw) = Some p"
  obtains pw where "h p = Some pw" "kid (wt pw) r" "parent_state (wt pw)"
    "child_path (path (wt pw)) (path (wt tw))"
  using assms unfolding links_ok_def by blast

lemma up_chain_length:
  assumes "links_ok h" "n < 2 ^ 57 - 1" "up_chain h v n c r"
  shows "\<exists>tw. h r = Some tw \<and> unat (parac_path_length (path (wt tw))) = n"
  using assms(2,3)
proof (induction n arbitrary: c r)
  case 0
  then show ?case by (auto simp: root_length)
next
  case (Suc n)
  then obtain tw p where tw: "h r = Some tw" "local_parent (wt tw) = Some p" "up_chain h v n (path (wt tw)) p"
    by auto
  from Suc.IH [OF _ tw(3)] Suc.prems(1) obtain pw where
    pw: "h p = Some pw" "unat (parac_path_length (path (wt pw))) = n" by auto
  obtain pw' where "h p = Some pw'" "child_path (path (wt pw')) (path (wt tw))"
    by (rule links_parent [OF assms(1) tw(1,2)])
  with pw child_path_length(1) [of "path (wt pw)" "path (wt tw)"] Suc.prems(1) tw(1) show ?case by auto
qed

text \<open>What the climb reads of a task.\<close>

definition chain_same :: "task_wrapper \<Rightarrow> task_wrapper \<Rightarrow> bool" where
  "chain_same a b \<longleftrightarrow> state (wt b) = state (wt a) \<and> result (wt b) = result (wt a)
     \<and> received_from (wt b) = received_from (wt a) \<and> has_task_store (wt b) = has_task_store (wt a)
     \<and> assess (wt b) = assess (wt a) \<and> userdata (wt b) = userdata (wt a) \<and> path (wt b) = path (wt a)
     \<and> parent_task (wt b) = parent_task (wt a)
     \<and> left_result (wt b) = left_result (wt a) \<and> right_result (wt b) = right_result (wt a)"

lemma up_chain_cong:
  assumes "links_ok h" "n < 2 ^ 57 - 1" "up_chain h v n c r"
    and same: "\<And>x xw. h x = Some xw \<Longrightarrow> unat (parac_path_length (path (wt xw))) \<le> n \<Longrightarrow>
      \<exists>xw'. h' x = Some xw' \<and> chain_same xw xw'"
  shows "up_chain h' v n c r"
  using assms(2,3) same
proof (induction n arbitrary: c r)
  case 0
  then obtain tw where tw: "h r = Some tw" "waiting_task (wt tw)" "decides v c (wt tw)"
      "path (wt tw) = parac_path_root" "local_parent (wt tw) = None" by auto
  from 0(3) [OF tw(1)] tw(4) obtain tw' where "h' r = Some tw'" "chain_same tw tw'"
    by (auto simp: root_length)
  with tw show ?case
    by (auto simp: chain_same_def own_assess_def waiting_task_def decides_def local_parent_def)
next
  case (Suc n)
  then obtain tw p where tw: "h r = Some tw" "waiting_task (wt tw)" "decides v c (wt tw)"
     "local_parent (wt tw) = Some p" "up_chain h v n (path (wt tw)) p"
    by auto
  have "unat (parac_path_length (path (wt tw))) = Suc n"
    using up_chain_length [OF assms(1) Suc.prems(1,2)] tw(1) by auto
  with Suc.prems(3) [OF tw(1)] obtain tw' where t': "h' r = Some tw'" "chain_same tw tw'" by auto
  have "up_chain h' v n (path (wt tw)) p"
    by (rule Suc.IH [OF _ tw(5)]) (use Suc.prems in auto)
  with tw t' show ?case
    by (auto simp: chain_same_def own_assess_def waiting_task_def decides_def local_parent_def)
qed

subsection \<open>The steps of the climb do not abort\<close>

lemma default_assess_total:
  assumes "heap w r = Some tw" "received_from (wt tw) = None" "has_task_store (wt tw)"
    "result (wt tw) \<noteq> PARAC_AUTO_SHUTDOWN_TRIGGERED"
  shows "\<exists>w'. parac_task_default_assess tc r w = Some (state (assessed (wt tw)), w')
    \<and> w' = w\<lparr>heap := (heap w)(r \<mapsto> tw\<lparr>wt := assessed (wt tw)\<rparr>)\<rparr>"
proof (cases "st_has (state (wt tw)) PARAC_TASK_SPLITTED")
  case False
  with assms show ?thesis
    by (auto simp: parac_task_default_assess_def shared_assess_def assessed_def fun_upd_idem)
next
  case True
  define t' where "t' = (case verdict PARAC_SAT PARAC_UNSAT [left_result (wt tw), right_result (wt tw)] of
      None \<Rightarrow> wt tw | Some v \<Rightarrow> (wt tw)\<lparr>result := v\<rparr>)"
  have "\<exists>n. existential_assess tc r False w
      = Some (n, w\<lparr>heap := (heap w)(r \<mapsto> tw\<lparr>wt := t'\<rparr>)\<rparr>)"
    unfolding existential_assess_def existential.binary_no_termination [OF assms(1)] t'_def
    using assms(1) by (auto split: option.splits simp: fun_upd_idem)
  then obtain n where n: "existential_assess tc r False w
      = Some (n, w\<lparr>heap := (heap w)(r \<mapsto> tw\<lparr>wt := t'\<rparr>)\<rparr>)" by blast
  have as: "assessed (wt tw) = (if result t' \<noteq> PARAC_PENDING \<and> result t' \<noteq> PARAC_SPLITTED
      then t'\<lparr>state := st_without (state t' OR PARAC_TASK_SPLITS_DONE) PARAC_TASK_WAITING_FOR_SPLITS\<rparr>
      else t')"
    using True by (simp add: assessed_def t'_def Let_def)
  have t': "received_from t' = None" "result t' \<noteq> PARAC_AUTO_SHUTDOWN_TRIGGERED"
    using assms verdict_cases [of PARAC_SAT PARAC_UNSAT] by (auto simp: t'_def split: option.splits)
  have code: "status_code (result t') \<noteq> unat PARAC_TASK_SPLITTED"
    using t'(2) status_code_inject [of "result t'" PARAC_AUTO_SHUTDOWN_TRIGGERED]
    by (simp add: PARAC_TASK_SPLITTED_def)
  show ?thesis
    by (cases "result t' \<noteq> PARAC_PENDING \<and> result t' \<noteq> PARAC_SPLITTED")
      (use assms True n t' code in \<open>auto simp: parac_task_default_assess_def shared_assess_def as\<close>)
qed

lemma run_assess_total:
  assumes "heap s r = Some tw" "received_from (wt tw) = None" "has_task_store (wt tw)"
    "result (wt tw) \<noteq> PARAC_AUTO_SHUTDOWN_TRIGGERED" "own_assess (wt tw)"
  shows "\<exists>f. assess (wt tw) = Some f \<and> run_assess f tc r s = Some (state (assessed (wt tw)),
    s\<lparr>outcalls := outcalls s @ (if learns (distribute_max_level s) (assessed (wt tw)) then [LearnedClause r] else []),
      heap := (heap s)(r \<mapsto> tw\<lparr>wt := assessed (wt tw)\<rparr>)\<rparr>)"
proof -
  have a: "assess (assessed (wt tw)) = assess (wt tw)"
    by (auto simp: assessed_def Let_def split: option.splits)
  obtain w where "parac_task_default_assess tc r s = Some (state (assessed (wt tw)), w)"
    "w = s\<lparr>heap := (heap s)(r \<mapsto> tw\<lparr>wt := assessed (wt tw)\<rparr>)\<rparr>"
    using default_assess_total [OF assms(1-4)] by blast
  with assms(1,5) a show ?thesis
    by (auto simp: own_assess_def learns_def SolverTask_static_assess_def emit_def)
qed

lemma orphan_total:
  "(\<And>x. c = Some x \<Longrightarrow> heap s x \<noteq> None) \<Longrightarrow> \<exists>s'. orphan c s = Some s'"
  by (cases c) (auto simp: orphan_def upd_task_def upd_wrapper_def split: option.splits)

lemma unlink_total:
  assumes "\<And>p. local_parent t = Some p \<Longrightarrow> \<exists>pw. heap s p = Some pw \<and> wf_task (wt pw)"
  shows "\<exists>s'. unlink_from_parent r t s = Some s'"
proof (cases "local_parent t")
  case None
  then show ?thesis by (auto simp: unlink_from_parent_def local_parent_def split: option.splits if_splits)
next
  case (Some p)
  then have f: "parent_task t = Some p" "received_from t = None"
    by (auto simp: local_parent_def split: if_splits)
  from assms [OF Some] obtain pw where pw: "heap s p = Some pw" "wf_task (wt pw)" by blast
  then obtain l rc where lr: "left_child (wt pw) = Some l" "right_child (wt pw) = Some rc"
    by (auto simp: wf_task_def)
  have "\<not> (l = Some r \<and> rc = Some r)"
    using lr pw(2) by (auto simp: left_child_def right_child_def task_of_slot_iff wf_task_def)
  then show ?thesis using f pw lr by (auto simp: unlink_from_parent_def wf_task_def)
qed

lemma wf_cut: "wf_task (wt (cut_parent t x xw)) = wf_task (wt xw)"
  by (simp add: cut_parent_def wf_task_def left_child_def right_child_def)

lemma remove_task_total:
  assumes inv: "store_inv s" and tw: "heap s r = Some tw"
    and st: "\<not> st_has (state (wt tw)) PARAC_TASK_WAITING_FOR_SPLITS"
      "\<not> st_has (state (wt tw)) PARAC_TASK_WORK_AVAILABLE"
      "\<not> st_has (state (wt tw)) PARAC_TASK_WORKING" "st_has (state (wt tw)) PARAC_TASK_DONE"
  shows "\<exists>s'. remove_task r s = Some s'"
proof -
  let ?s0 = "s\<lparr>heap := (heap s)(r \<mapsto> tw\<lparr>refcount := refcount tw - 1\<rparr>)\<rparr>"
  have wf: "wf_task (wt tw)" using store_inv_links [OF inv tw] .
  then obtain l rc where lr: "left_child (wt tw) = Some l" "right_child (wt tw) = Some rc"
    by (auto simp: wf_task_def)
  have kl: "heap s x \<noteq> None" if "kid (wt tw) x" for x
    using inv tw that unfolding store_inv_def links_ok_def by fastforce
  have k: "kid (wt tw) x \<longleftrightarrow> l = Some x \<or> rc = Some x" for x
    using lr by (auto simp: kid_def left_child_def right_child_def task_of_slot_iff split: option.splits)
  have "\<exists>s1. orphan l ?s0 = Some s1" by (rule orphan_total) (use kl k in auto)
  then obtain s1 where o1: "orphan l ?s0 = Some s1" by blast
  have "\<exists>s2. orphan rc s1 = Some s2"
    by (rule orphan_total) (use kl k orphan_heap [OF o1] in auto)
  then obtain s2 where o2: "orphan rc s1 = Some s2" by blast
  have h2: "s2 = ?s0\<lparr>heap := (\<lambda>x. map_option (cut_parent (wt tw) x) (heap ?s0 x))\<rparr>"
    using orphan_kids_heap [OF lr o1 o2] .
  let ?t3 = "wt (cut_parent (wt tw) r (tw\<lparr>refcount := refcount tw - 1\<rparr>))"
  have g: "get_task r s2 = Some ?t3" by (simp add: h2 get_task_def)
  have "\<exists>pw. heap s2 p = Some pw \<and> wf_task (wt pw)" if "local_parent ?t3 = Some p" for p
  proof -
    from that have "local_parent (wt tw) = Some p"
      by (auto simp: cut_parent_def local_parent_def split: if_splits)
    then obtain pw where pw: "heap s p = Some pw" using inv tw unfolding store_inv_def links_ok_def by blast
    then have "wf_task (wt pw)" using store_inv_links [OF inv] by blast
    with pw wf show ?thesis by (cases "p = r") (simp_all add: h2 wf_cut)
  qed
  then obtain s3 where u: "unlink_from_parent r ?t3 s2 = Some s3" using unlink_total by blast
  have ec: "extended_children_count (wt pw) = -1" if "heap s2 p = Some pw" for p pw
  proof -
    from that obtain pw0 where "heap ?s0 p = Some pw0" "pw = cut_parent (wt tw) p pw0" by (auto simp: h2)
    with store_inv_links [OF inv, of p pw0] wf show ?thesis
      by (cases "p = r") (auto simp: cut_parent_def wf_task_def)
  qed
  have "s3 = s2\<lparr>heap := (\<lambda>x. map_option (cut_child r ?t3 x) (heap s2 x))\<rparr>"
    using unlink_heap [OF u ec] .
  then have "\<exists>tw4. heap s3 r = Some tw4" by (simp add: h2)
  then obtain tw4 where "get_wrapper r (manageAutoShutdownTimer (s3\<lparr>tasksSize := tasksSize s3 - 1\<rparr>)) = Some tw4"
    using core_heap [OF core_ops(1)] by (auto simp: get_wrapper_def)
  with tw lr o1 o2 g u st wf show ?thesis
    by (simp add: remove_task_def Let_def wf_task_def)
qed

lemma next_not_extended:
  assumes "parac_path_get_next p b = Some c"
  shows "\<not> parac_path_is_extended c"
proof -
  have "path_ok p" using assms get_next_None [of p b] by auto
  consider "unat (length_fld p) < 58" | "unat (length_fld p) \<ge> 58" by linarith
  then show ?thesis
  proof cases
    case 1
    from get_next_bits(2) [OF this assms] show ?thesis by (rule ordinary_not_tagged)
  next
    case 2
    have "length_fld c = PARAC_PATH_OVERLENGTH"
    proof -
      have ov: "PARAC_PATH_OVERLENGTH AND mask 6 = PARAC_PATH_OVERLENGTH"
        by (simp add: path_consts mask_eq_exp_minus_1)
      have "length_fld p = 58" if "unat (length_fld p) = 58" using that by (simp add: word_unat_eq_iff)
      with 2 assms show ?thesis
        by (auto simp: parac_path_get_next_def Let_def parac_path_is_overlength_def bind_eq_Some_conv
            PARAC_PATH_MAX_LENGTH_def ov split: if_splits)
    qed
    then show ?thesis by (simp add: parac_path_is_extended_def path_consts)
  qed
qed

definition recorded :: "parac_task \<Rightarrow> parac_path \<Rightarrow> parac_status \<Rightarrow> parac_task" where
  "recorded t c v = (if parac_path_get_next_left (path t) = Some c
     then t\<lparr>left_result := v\<rparr> else t\<lparr>right_result := v\<rparr>)"

lemma record_in_parent_total:
  assumes "heap s p = Some pw" "child_path (path (wt pw)) c" "path_ok (path (wt pw))"
    "unat (parac_path_length (path (wt pw))) + 1 < 2 ^ 57"
  shows "record_in_parent p c v idx s = Some (s\<lparr>heap := (heap s)(p \<mapsto> pw\<lparr>wt := recorded (wt pw) c v\<rparr>)\<rparr>)"
proof -
  obtain l rp where lr: "parac_path_get_next_left (path (wt pw)) = Some l"
    "parac_path_get_next_right (path (wt pw)) = Some rp"
    using get_next_length [OF assms(3,4)] unfolding parac_path_get_next_left_def parac_path_get_next_right_def
    by metis
  have "\<not> parac_path_is_extended c"
    using assms(2) next_not_extended
    by (auto simp: child_path_def parac_path_get_next_left_def parac_path_get_next_right_def)
  then show ?thesis
    using assms(1,2) lr by (auto simp: record_in_parent_def recorded_def child_path_def)
qed

lemma waiting_decided:
  assumes "waiting_task t" "decides v c t"
  shows "decided v (recorded t c v)"
proof -
  have v: "verdict PARAC_SAT PARAC_UNSAT [left_result (recorded t c v), right_result (recorded t c v)] = Some v"
    using assms(2) by (auto simp: decides_def recorded_def verdict_def split: if_splits)
  have v': "v = PARAC_SAT \<or> v = PARAC_UNSAT" using assms(2) by (auto simp: decides_def)
  let ?t = "recorded t c v"
  have k: "state ?t = state t" "result ?t = result t" "received_from ?t = received_from t"
    "has_task_store ?t = has_task_store t" "own_assess ?t = own_assess t"
    by (simp_all add: recorded_def own_assess_def)
  have a: "assessed ?t = ?t\<lparr>result := v,
      state := st_without (state ?t OR PARAC_TASK_SPLITS_DONE) PARAC_TASK_WAITING_FOR_SPLITS\<rparr>"
    using v v' assms(1) by (auto simp: assessed_def Let_def waiting_task_def k)
  show ?thesis
    using assms(1) unfolding decided_def a by (simp add: k waiting_task_def is_done_bits state_bits)
qed

subsection \<open>The climb\<close>

lemma assess_done_eq:
  assumes tw: "heap s r = Some tw" and nwa: "\<not> st_has st PARAC_TASK_WORK_AVAILABLE"
    and res: "result (wt tw) \<noteq> PARAC_SPLITTED" "result (wt tw) \<noteq> PARAC_UNKNOWN"
  obtains s4 idx where "core s4 = core s" "has_input_file s4 = has_input_file s"
    "exit_status s4 = exit_status (finish_root (wt tw) s)"
    "set (outcalls (finish_root (wt tw) s)) \<subseteq> set (outcalls s4)"
    "called [] s s4" "distribute_max_level s4 = distribute_max_level s"
    "assess_done ac True rp r st s = do { sc \<leftarrow> remove_task r s4;
       (case local_parent (wt tw) of None \<Rightarrow> Some sc | Some p \<Rightarrow> do {
          s \<leftarrow> record_in_parent p (path (wt tw)) (result (wt tw)) idx sc; ac rp p s }) }"
proof -
  let ?t = "wt tw"
  define s1 where "s1 = (if \<not> st_has (state ?t) PARAC_TASK_OFFLOADED
      then emit (DecWorkQueue (originator ?t)) s else s)"
  define s2 where "s2 = (if path ?t = PARAC_PATH_PARSER then emit (FormulaParsed (originator ?t)) s1 else s1)"
  define s3 where "s3 = finish_root ?t (remove_from_tasksBeingWorkedOn r s2)"
  define s4 where "s4 = (if st AND PARAC_TASK_SPLITS_DONE = PARAC_TASK_SPLITS_DONE
      then remove_from_tasksWaitingForChildren r s3 else s3)"
  define idx where "idx = (if local_parent ?t \<noteq> None \<and> parac_path_is_extended (path ?t)
      then extended_children_parent_index ?t else -1)"
  have lp: "(if received_from ?t \<noteq> None then None else parent_task ?t) = local_parent ?t"
    by (simp add: local_parent_def)
  have c: "core s4 = core s"
    by (simp add: s4_def s3_def s2_def s1_def store_simps)
  have fr: "has_input_file s2 = has_input_file s" "exit_status s2 = exit_status s"
    "set (outcalls s) \<subseteq> set (outcalls s2)"
    by (auto simp: s2_def s1_def emit_def)
  have "has_input_file s3 = has_input_file s" "exit_status s3 = exit_status (finish_root ?t s)"
    "set (outcalls (finish_root ?t s)) \<subseteq> set (outcalls s3)"
    using fr by (auto simp: s3_def finish_root_def remove_from_tasksBeingWorkedOn_def emit_def)
  then have e: "has_input_file s4 = has_input_file s" "exit_status s4 = exit_status (finish_root ?t s)"
    "set (outcalls (finish_root ?t s)) \<subseteq> set (outcalls s4)"
    by (simp_all add: s4_def remove_from_tasksWaitingForChildren_def)
  have o: "called [] s s4" "distribute_max_level s4 = distribute_max_level s"
    by (auto simp: called_def s4_def s3_def s2_def s1_def finish_root_def emit_def
        remove_from_tasksBeingWorkedOn_def remove_from_tasksWaitingForChildren_def)
  have "assess_done ac True rp r st s = do { sc \<leftarrow> remove_task r s4;
       (case local_parent (wt tw) of None \<Rightarrow> Some sc | Some p \<Rightarrow> do {
          s \<leftarrow> record_in_parent p (path (wt tw)) (result (wt tw)) idx sc; ac rp p s }) }"
    unfolding assess_done_def get_task_simp [OF tw] Option.bind.simps lp Let_def
      s1_def [symmetric] s2_def [symmetric] s3_def [symmetric] s4_def [symmetric] idx_def [symmetric]
    using nwa res by (simp only: if_True c_assert_simps Option.bind.simps not_False_eq_True) 
  with c e o show ?thesis using that by blast
qed

lemma decided_path:
  assumes "store_inv s" "heap s r = Some tw" "local_parent (wt tw) = Some p"
    "up_chain (heap s) v n (path (wt tw)) p" "n < 2 ^ 57 - 2"
  obtains pw where "heap s p = Some pw" "child_path (path (wt pw)) (path (wt tw))"
    "unat (parac_path_length (path (wt pw))) = n" "path_ok (path (wt pw))" "path_ok (path (wt tw))"
    "unat (parac_path_length (path (wt tw))) = Suc n" "waiting_task (wt pw)" "decides v (path (wt tw)) (wt pw)"
proof -
  have l: "links_ok (heap s)" using assms(1) by (simp add: store_inv_def)
  obtain pw where pw: "heap s p = Some pw" "child_path (path (wt pw)) (path (wt tw))"
    by (rule links_parent [OF l assms(2,3)])
  have n: "unat (parac_path_length (path (wt pw))) = n"
    using up_chain_length [OF l _ assms(4)] assms(5) pw(1) by auto
  have "waiting_task (wt pw) \<and> decides v (path (wt tw)) (wt pw)"
    using assms(4) pw(1) by (cases n) auto
  with that [OF pw n] child_path_length [OF pw(2)] n assms(5) show ?thesis by auto
qed

lemma removed_chain:
  assumes inv: "store_inv s" and tw: "heap s r = Some tw"
    and n: "unat (parac_path_length (path (wt tw))) = Suc n" "n < 2 ^ 57 - 2"
    and x: "heap s x = Some xw" "unat (parac_path_length (path (wt xw))) \<le> n"
  shows "\<exists>xw'. removed_heap r (wt tw) (heap s) x = Some xw' \<and> chain_same xw xw'"
proof -
  have "x \<noteq> r" using x tw n by auto
  moreover have "\<not> kid (wt tw) x"
  proof
    assume "kid (wt tw) x"
    with inv tw x(1) have "local_parent (wt xw) = Some r"
      unfolding store_inv_def links_ok_def by fastforce
    with inv tw x(1) have "child_path (path (wt tw)) (path (wt xw))"
      unfolding store_inv_def links_ok_def by fastforce
    with child_path_length(1) n x(2) show False by fastforce
  qed
  ultimately show ?thesis using x(1)
    by (auto simp: removed_heap_def cut_parent_def cut_child_def chain_same_def)
qed

lemma climb_step:
  assumes inv: "store_inv s" and tw: "heap s r = Some tw" and nq: "\<not> in_work_queue tw"
    and d: "decided v (wt tw)" and v: "v \<in> {PARAC_SAT, PARAC_UNSAT}"
    and unk: "path (wt tw) \<noteq> PARAC_PATH_EXPLICITLY_UNKNOWN"
  obtains sc idx where "store_inv sc" "heap sc = removed_heap r (wt tw) (heap s)"
    "has_input_file sc = has_input_file s"
    "exit_status sc = exit_status (finish_root (assessed (wt tw)) s)"
    "set (outcalls (finish_root (assessed (wt tw)) s)) \<subseteq> set (outcalls sc)"
    "distribute_max_level sc = distribute_max_level s"
    "tasksWaitingForWorkerQueue sc = tasksWaitingForWorkerQueue s"
    "called ((if learns (distribute_max_level s) (assessed (wt tw)) then [LearnedClause r] else [])
       @ (if has_free_userdata (wt tw) then [FreeUserdata r] else [])) s sc"
    "call (Suc n) (Assess True True r) s = (case local_parent (wt tw) of None \<Rightarrow> Some sc
       | Some p \<Rightarrow> do { s \<leftarrow> record_in_parent p (path (wt tw)) v idx sc; call n (Assess True True p) s })"
proof -
  let ?t = "assessed (wt tw)" and ?tw = "tw\<lparr>wt := assessed (wt tw)\<rparr>"
  let ?lc = "if learns (distribute_max_level s) (assessed (wt tw)) then [LearnedClause r] else []"
  let ?sa = "s\<lparr>outcalls := outcalls s @ ?lc, heap := (heap s)(r \<mapsto> ?tw)\<rparr>"
  note d' = d [unfolded decided_def]
  have keep: "local_parent ?t = local_parent (wt tw)" "path ?t = path (wt tw)" "kid ?t = kid (wt tw)"
    using assessed_keeps(1) [of sat_assess "wt tw"] by (auto simp: same_links_def kid_def fun_eq_iff)
  have "store_inv (s\<lparr>heap := (heap s)(r \<mapsto> ?tw)\<rparr>)"
    by (rule same_shape_inv [OF inv tw])
      (use nq in \<open>auto simp: assessed_keeps same_keys_def keep\<close>)
  then have inva: "store_inv ?sa" by (rule store_inv_frame) simp_all
  obtain f where f: "assess (wt tw) = Some f"
    "run_assess f (\<lambda>r. call n (Terminate r)) r s = Some (state ?t, ?sa)"
    using run_assess_total [OF tw] d' by blast
  have c: "call (Suc n) (Assess True True r) s
      = assess_done (\<lambda>b p. call n (Assess b b p)) True True r (state ?t) ?sa"
    using tw d' unk f by (simp add: assess_task_body_def)
  have nwa: "\<not> st_has (state ?t) PARAC_TASK_WORK_AVAILABLE" "\<not> st_has (state ?t) PARAC_TASK_WORKING"
    using d' by (auto simp: parac_task_state_is_done_def)
  have ta: "heap ?sa r = Some ?tw" by simp
  have res: "result (wt ?tw) \<noteq> PARAC_SPLITTED" "result (wt ?tw) \<noteq> PARAC_UNKNOWN" using d' v by auto
  obtain s4 idx where s4: "core s4 = core ?sa" "has_input_file s4 = has_input_file ?sa"
    "exit_status s4 = exit_status (finish_root (wt ?tw) ?sa)"
    "set (outcalls (finish_root (wt ?tw) ?sa)) \<subseteq> set (outcalls s4)"
    "called [] ?sa s4" "distribute_max_level s4 = distribute_max_level ?sa"
    "assess_done (\<lambda>b p. call n (Assess b b p)) True True r (state ?t) ?sa = do { sc \<leftarrow> remove_task r s4;
       (case local_parent (wt ?tw) of None \<Rightarrow> Some sc | Some p \<Rightarrow> do {
          s \<leftarrow> record_in_parent p (path (wt ?tw)) (result (wt ?tw)) idx sc; call n (Assess True True p) s }) }"
    by (rule assess_done_eq [OF ta nwa(1) res, of "\<lambda>b p. call n (Assess b b p)" True])
  have inv4: "store_inv s4" using inva store_inv_core [OF s4(1)] by simp
  have t4: "heap s4 r = Some ?tw" using core_heap [OF s4(1)] by simp
  obtain sc where sc: "remove_task r s4 = Some sc"
    using remove_task_total [OF inv4 t4] d' nwa by auto
  note rc = remove_task_core [OF inv4 t4 sc]
  have h: "heap sc = removed_heap r (wt tw) (heap s)"
  proof
    fix x
    have "cut_child r ?t x xw = cut_child r (wt tw) x xw" "cut_parent ?t x xw = cut_parent (wt tw) x xw" for xw
      by (simp_all add: cut_child_def cut_parent_def keep)
    then show "heap sc x = removed_heap r (wt tw) (heap s) x"
      unfolding rc(1) core_heap [OF s4(1)] by (simp add: removed_heap_def)
  qed
  have fr: "exit_status (finish_root ?t ?sa) = exit_status (finish_root ?t s)"
    "set (outcalls (finish_root ?t s)) \<subseteq> set (outcalls (finish_root ?t ?sa))"
    by (auto simp: finish_root_def emit_def)
  have ud: "has_free_userdata (wt ?tw) = has_free_userdata (wt tw)"
    by (auto simp: assessed_def Let_def split: option.splits)
  have "called ?lc s ?sa" by (simp add: called_def)
  from called_trans [OF called_trans [OF this s4(5)] rc(9)] ud
  have co: "called (?lc @ (if has_free_userdata (wt tw) then [FreeUserdata r] else [])) s sc" by simp
  show ?thesis
  proof (rule that)
    show "store_inv sc" using remove_task_inv [OF inv4 t4 _ sc] nq by simp
    show "heap sc = removed_heap r (wt tw) (heap s)" by (rule h)
    show "has_input_file sc = has_input_file s" using rc(6) s4(2) by simp
    show "exit_status sc = exit_status (finish_root ?t s)" using rc(5) s4(3) fr by simp
    show "set (outcalls (finish_root ?t s)) \<subseteq> set (outcalls sc)" using order_trans [OF order_trans [OF fr(2) s4(4) [simplified]] rc(7)] by simp
    show "distribute_max_level sc = distribute_max_level s" using rc(8) s4(6) by simp
    show "tasksWaitingForWorkerQueue sc = tasksWaitingForWorkerQueue s"
      using rc(3) s4(1) by (simp add: core_def)
    show "called (?lc @ (if has_free_userdata (wt tw) then [FreeUserdata r] else [])) s sc" by (rule co)
    show "call (Suc n) (Assess True True r) s = (case local_parent (wt tw) of None \<Rightarrow> Some sc
       | Some p \<Rightarrow> do { s \<leftarrow> record_in_parent p (path (wt tw)) v idx sc; call n (Assess True True p) s })"
      unfolding c s4(7) sc using keep d' by (simp del: call.simps split: option.split)
  qed
qed

lemma sat_calls: "decided v t \<Longrightarrow> v = PARAC_SAT \<Longrightarrow> \<not> learns level (assessed t)"
  by (auto simp: decided_def learns_def)

lemma climb:
  assumes v: "v \<in> {PARAC_SAT, PARAC_UNSAT}"
  shows "store_inv s \<Longrightarrow> heap s r = Some tw \<Longrightarrow> \<not> in_work_queue tw \<Longrightarrow> decided v (wt tw) \<Longrightarrow>
    has_input_file s \<Longrightarrow> exit_status s = PARAC_UNDEFINED \<Longrightarrow> n < 2 ^ 57 - 1 \<Longrightarrow>
    (case n of 0 \<Rightarrow> path (wt tw) = parac_path_root \<and> local_parent (wt tw) = None
     | Suc m \<Rightarrow> \<exists>p. local_parent (wt tw) = Some p \<and> up_chain (heap s) v m (path (wt tw)) p) \<Longrightarrow> n \<le> k \<Longrightarrow>
    \<exists>s'. call (Suc k) (Assess True True r) s = Some s' \<and> exit_status s' = v
      \<and> RequestExit \<in> set (outcalls s') \<and> dom (heap s') \<subseteq> dom (heap s) - {r}
      \<and> (v = PARAC_SAT \<longrightarrow> (\<exists>out. called out s s' \<and> set out \<subseteq> range FreeUserdata))"
proof (induction n arbitrary: s r tw k)
  case 0
  have root: "path (wt tw) = parac_path_root" "local_parent (wt tw) = None" using 0(8) by auto
  have "path (wt tw) \<noteq> PARAC_PATH_EXPLICITLY_UNKNOWN"
    by (simp add: root(1) parac_path_root_def path_consts)
  then obtain sc idx where sc: "heap sc = removed_heap r (wt tw) (heap s)"
    "exit_status sc = exit_status (finish_root (assessed (wt tw)) s)"
    "set (outcalls (finish_root (assessed (wt tw)) s)) \<subseteq> set (outcalls sc)"
    and co: "called ((if learns (distribute_max_level s) (assessed (wt tw)) then [LearnedClause r] else [])
       @ (if has_free_userdata (wt tw) then [FreeUserdata r] else [])) s sc"
    and sc4: "call (Suc k) (Assess True True r) s = (case local_parent (wt tw) of None \<Rightarrow> Some sc
       | Some p \<Rightarrow> do { s \<leftarrow> record_in_parent p (path (wt tw)) v idx sc; call k (Assess True True p) s })"
    by (rule climb_step [OF 0(1-4) v, of k]) 
  have "path (assessed (wt tw)) = parac_path_root" "result (assessed (wt tw)) = v"
    using root(1) assessed_keeps(1) [of sat_assess "wt tw"] 0(4) by (auto simp: same_links_def decided_def)
  then have "finish_root (assessed (wt tw)) s = emit RequestExit (s\<lparr>exit_status := v\<rparr>)"
    using 0(5,6) v by (auto simp: finish_root_def parac_path_is_root_def parac_path_root_def length_fld_def)
  moreover have "v = PARAC_SAT \<longrightarrow> (\<exists>out. called out s sc \<and> set out \<subseteq> range FreeUserdata)"
    using co sat_calls [OF 0(4)] by auto
  ultimately show ?case using sc sc4 root
    by (auto simp: removed_heap_def dom_def simp del: call.simps split: if_splits)
next
  case (Suc n)
  obtain k' where k': "k = Suc k'" "n \<le> k'" using Suc.prems(9) by (cases k) auto
  from Suc obtain p where p: "local_parent (wt tw) = Some p" "up_chain (heap s) v n (path (wt tw)) p" by auto
  have n2: "n < 2 ^ 57 - 2" using Suc.prems(7) by simp
  obtain pw where pw: "heap s p = Some pw" "child_path (path (wt pw)) (path (wt tw))"
    "unat (parac_path_length (path (wt pw))) = n" "path_ok (path (wt pw))" "path_ok (path (wt tw))"
    "unat (parac_path_length (path (wt tw))) = Suc n" "waiting_task (wt pw)" "decides v (path (wt tw)) (wt pw)"
    by (rule decided_path [OF Suc.prems(1,2) p n2])
  obtain sc idx where sc: "store_inv sc" "heap sc = removed_heap r (wt tw) (heap s)"
    "has_input_file sc = has_input_file s"
    "exit_status sc = exit_status (finish_root (assessed (wt tw)) s)"
    and co: "called ((if learns (distribute_max_level s) (assessed (wt tw)) then [LearnedClause r] else [])
       @ (if has_free_userdata (wt tw) then [FreeUserdata r] else [])) s sc"
    and sc5: "call (Suc k) (Assess True True r) s = (case local_parent (wt tw) of None \<Rightarrow> Some sc
       | Some p \<Rightarrow> do { s \<leftarrow> record_in_parent p (path (wt tw)) v idx sc; call k (Assess True True p) s })"
    by (rule climb_step [OF Suc.prems(1-4) v path_ok_not_unknown [OF pw(5)], of k])
  note same = removed_chain [OF Suc.prems(1,2) pw(6) n2]
  obtain pw' where pw': "heap sc p = Some pw'" "chain_same pw pw'"
    using same [OF pw(1)] pw(3) sc(2) by auto
  let ?pw = "pw'\<lparr>wt := recorded (wt pw') (path (wt tw)) v\<rparr>"
  let ?sd = "sc\<lparr>heap := (heap sc)(p \<mapsto> ?pw)\<rparr>"
  have cs: "path (wt pw') = path (wt pw)" "waiting_task (wt pw')" "decides v (path (wt tw)) (wt pw')"
    "local_parent (wt pw') = local_parent (wt pw)"
    using pw'(2) pw(7,8) by (auto simp: chain_same_def own_assess_def waiting_task_def decides_def local_parent_def)
  have rec: "record_in_parent p (path (wt tw)) v idx sc = Some ?sd"
    by (rule record_in_parent_total [OF pw'(1)]) (use pw cs n2 in auto)
  have ps: "parent_state (wt pw')" using cs(2) by (simp add: waiting_task_def parent_state_def)
  have sd: "store_inv ?sd"
    using record_in_parent_inv [OF sc(1) rec] ps pw'(1) by auto
  have nr: "\<not> parac_path_is_root (path (wt tw))" using is_root_length pw(6) by fastforce
  have ex: "exit_status sc = PARAC_UNDEFINED"
    using sc(4) nr Suc.prems(6) assessed_keeps(1) [of sat_assess "wt tw"] by (simp add: finish_root_def same_links_def)
  have k: "path (wt ?pw) = path (wt pw)" "local_parent (wt ?pw) = local_parent (wt pw)"
    using cs by (simp_all add: recorded_def)
  have ch: "case n of 0 \<Rightarrow> path (wt ?pw) = parac_path_root \<and> local_parent (wt ?pw) = None
     | Suc m \<Rightarrow> \<exists>q. local_parent (wt ?pw) = Some q \<and> up_chain (heap ?sd) v m (path (wt ?pw)) q"
  proof (cases n)
    case 0
    with p(2) pw(1) k show ?thesis by auto
  next
    case (Suc m)
    with p(2) pw(1) obtain q where q: "local_parent (wt pw) = Some q" "up_chain (heap s) v m (path (wt pw)) q"
      by auto
    have "up_chain (heap ?sd) v m (path (wt pw)) q"
    proof (rule up_chain_cong [OF _ _ q(2)])
      show "links_ok (heap s)" using Suc.prems(1) by (simp add: store_inv_def)
      show "m < 2 ^ 57 - 1" using n2 Suc by simp
      fix x xw
      assume x: "heap s x = Some xw" "unat (parac_path_length (path (wt xw))) \<le> m"
      then have "x \<noteq> p" using pw(1,3) Suc by auto
      with same [OF x(1)] x(2) Suc sc(2) show "\<exists>xw'. heap ?sd x = Some xw' \<and> chain_same xw xw'" by auto
    qed
    with q k Suc show ?thesis by simp
  qed
  have "\<exists>s'. call k (Assess True True p) ?sd = Some s' \<and> exit_status s' = v
      \<and> RequestExit \<in> set (outcalls s') \<and> dom (heap s') \<subseteq> dom (heap ?sd) - {p}
      \<and> (v = PARAC_SAT \<longrightarrow> (\<exists>out. called out ?sd s' \<and> set out \<subseteq> range FreeUserdata))"
    unfolding k'(1)
  proof (rule Suc.IH [OF sd])
    show "heap ?sd p = Some ?pw" by simp
    show "\<not> in_work_queue ?pw" using parent_assessable [OF sc(1) pw'(1) ps] by (simp add: assessable_def)
    show "decided v (wt ?pw)" using waiting_decided [OF cs(2,3)] by simp
  qed (use Suc.prems(5,7) sc(3) ex ch k' in \<open>simp_all del: call.simps\<close>)
  then obtain s' where s': "call k (Assess True True p) ?sd = Some s'" "exit_status s' = v"
    "RequestExit \<in> set (outcalls s')" "dom (heap s') \<subseteq> dom (heap ?sd) - {p}"
    and sat: "v = PARAC_SAT \<longrightarrow> (\<exists>out. called out ?sd s' \<and> set out \<subseteq> range FreeUserdata)" by blast
  have "called [] sc ?sd" by (rule called_same) simp
  with co sat sat_calls [OF Suc.prems(4)]
  have "v = PARAC_SAT \<longrightarrow> (\<exists>out. called out s s' \<and> set out \<subseteq> range FreeUserdata)"
    by (fastforce dest: called_trans)
  moreover
  have "dom (heap ?sd) \<subseteq> dom (heap s) - {r}"
    using sc(2) pw'(1) by (auto simp: removed_heap_def dom_def split: if_splits)
  ultimately show ?case using s' sc5 p(1) rec by (auto simp del: call.simps)
qed

section \<open>Properties\<close>


definition example_path_left :: parac_path where "example_path_left = 1"

lemma example_next_left: "parac_path_get_next_left parac_path_root = Some example_path_left"
  by (simp add: parac_path_get_next_left_def parac_path_get_next_def parac_path_root_def
      parac_path_set_assignment_def set_length_fld_def length_fld_def path_consts
      parac_path_is_extended_def parac_path_is_overlength_def example_path_left_def mask_eq_exp_minus_1)

definition example_task :: "parac_task" where
  "example_task = (fresh_task None parac_path_root 7)\<lparr>state := PARAC_TASK_WORK_AVAILABLE,
     has_serialize := True\<rparr>"

lemma example_enqueue_steps:
  "\<exists>s tw. store_step\<^sup>*\<^sup>* (TaskStore_init 0 True ping 0) s \<and> tasksWaitingForWorkerQueue s = [1] \<and> heap s 1 = Some tw
     \<and> offloadable None (wt tw) \<and> \<not> st_has (state (wt tw)) PARAC_TASK_OFFLOADED"
proof -
  let ?s0 = "TaskStore_init 0 True ping 0"
  have h0: "heap ?s0 1 = None" by (simp add: TaskStore_init_def)
  obtain res s1 where new: "newTask 1 None parac_path_root 7 ?s0 = Some (res, s1)"
    by (simp add: newTask_def TaskStore_init_def manageAutoShutdownTimer_def)
  have inv1: "store_inv s1" and hs1: "heap s1 = (heap ?s0)(1 \<mapsto>
      \<lparr>wt = fresh_task None parac_path_root 7, refcount = 0, in_work_queue = False\<rparr>)"
    using new_root_inv [OF store_init_inv h0 new] by auto
  let ?tw = "\<lparr>wt = fresh_task None parac_path_root 7, refcount = 0, in_work_queue = False\<rparr> :: task_wrapper"
  let ?s2 = "s1\<lparr>heap := (heap s1)(1 \<mapsto> ?tw\<lparr>wt := example_task\<rparr>)\<rparr>"
  have q1: "tasksWaitingForWorkerQueue s1 = []"
    using new by (auto simp: newTask_def TaskStore_init_def manageAutoShutdownTimer_def)
  have "store_step ?s0 s1" using h0 new by (rule store_step.new_root)
  moreover have "store_step s1 ?s2"
    by (rule store_step.client) (simp_all add: hs1 same_links_def example_task_def fresh_task_def
        parac_task_init_def parent_state_def st_has_def task_state_defs local_parent_def)
  ultimately have r2: "store_step\<^sup>*\<^sup>* ?s0 ?s2" by simp
  have ta: "heap ?s2 1 = Some (?tw\<lparr>wt := example_task\<rparr>)" by simp
  have st: "state example_task = PARAC_TASK_WORK_AVAILABLE" "result example_task = PARAC_PENDING"
    "received_from example_task = None" "has_task_store example_task" "assess example_task = Some DefaultAssess"
    "path example_task = parac_path_root"
    by (simp_all add: example_task_def fresh_task_def parac_task_init_def)
  have ser: "has_serialize example_task" by (simp add: example_task_def)
  have a: "assessed example_task = example_task" by (simp add: assessed_def st state_bits)
  obtain w where w: "parac_task_default_assess (\<lambda>r. call 0 (Terminate r)) 1 ?s2 = Some (state example_task, w)"
    "w = ?s2"
    using default_assess_total [OF ta, of "\<lambda>r. call 0 (Terminate r)"] st a by (auto simp: fun_upd_idem)
  have "\<exists>s3. assess_task 1 1 ?s2 = Some s3 \<and> tasksWaitingForWorkerQueue s3 = [1] \<and>
      (\<exists>tw. heap s3 1 = Some tw \<and> has_serialize (wt tw) \<and> received_from (wt tw) = None
         \<and> \<not> st_has (state (wt tw)) PARAC_TASK_OFFLOADED)"
    using w st q1 ser
    by (simp add: assess_task_def assess_task_body_def assess_not_done_def is_done_bits state_bits
        insert_into_tasksWaitingForWorkerQueue_def emit_def insert_at_def Let_def
        parac_path_root_def path_consts)
  then obtain s3 where s3: "assess_task 1 1 ?s2 = Some s3" "tasksWaitingForWorkerQueue s3 = [1]"
    and tw3: "\<exists>tw. heap s3 1 = Some tw \<and> has_serialize (wt tw) \<and> received_from (wt tw) = None
         \<and> \<not> st_has (state (wt tw)) PARAC_TASK_OFFLOADED" by blast
  have "store_step ?s2 s3"
    by (rule store_step.assess [OF ta _ s3(1)]) (simp add: assessable_def st state_bits)
  with r2 have "store_step\<^sup>*\<^sup>* ?s0 s3" by simp
  with s3(2) tw3 show ?thesis by (auto simp: offloadable_def)
qed

lemma store_steps_reachable: "store_step\<^sup>*\<^sup>* s s' \<Longrightarrow> store_reachable s \<Longrightarrow> store_reachable s'"
  by (induction rule: rtranclp_induct) (auto intro: store_reachable.step)

lemma example_enqueue:
  "\<exists>s tw. store_reachable s \<and> tasksWaitingForWorkerQueue s = [1] \<and> heap s 1 = Some tw
     \<and> offloadable None (wt tw) \<and> \<not> st_has (state (wt tw)) PARAC_TASK_OFFLOADED"
  using example_enqueue_steps [of False] store_steps_reachable store_reachable.init by blast


text \<open>
  C13 (handing out work).  On a reachable store \<^verbatim>\<open>pop_work\<close> never fails: an empty queue gives the
  null pointer and changes nothing; otherwise the first task is removed from the queue and
  returned, no waiting task comes before it in the order of \<^verbatim>\<open>parac_task_compare\<close>, and it is now in
  the set of tasks being worked on, in state working and without available work.
\<close>

theorem pop_work_correct:
  assumes "store_reachable s"
  shows "case tasksWaitingForWorkerQueue s of
      [] \<Rightarrow> pop_work f s = Some (None, s)
    | r # q \<Rightarrow> (\<exists>s' tw. pop_work f s = Some (Some r, s') \<and> tasksWaitingForWorkerQueue s' = q
        \<and> (\<forall>x \<in> set q. \<not> parac_task_compare (task_at (heap s) x) (task_at (heap s) r))
        \<and> heap s' r = Some tw \<and> st_has (state (wt tw)) PARAC_TASK_WORKING
        \<and> \<not> st_has (state (wt tw)) PARAC_TASK_WORK_AVAILABLE \<and> \<not> in_work_queue tw
        \<and> r \<in> set (tasksBeingWorkedOn s'))"
proof (cases "tasksWaitingForWorkerQueue s")
  case Nil
  then show ?thesis by (simp add: pop_work_def)
next
  case (Cons r q)
  have inv: "store_inv s" using assms by (rule store_reachable_inv)
  have q0: "queue_ok (heap s) (r # q) (tasksWaitingForWorkerQueueSize s)"
    using store_inv_queue [OF inv] Cons by simp
  then obtain tw where tw: "heap s r = Some tw" using queue_live [OF q0, of r] by auto
  then obtain s' where s': "pop_work f s = Some (Some r, s')"
    using Cons by (auto simp: pop_work_def insert_into_tasksBeingWorkedOn_def Let_def)
  have front: "\<forall>x \<in> set q. \<not> parac_task_compare (task_at (heap s) x) (task_at (heap s) r)"
    using q0 by (auto simp: queue_ok_def)
  from s' obtain tw' where tw': "heap s' r = Some tw'" "\<not> in_work_queue tw'"
    using Cons tw by (auto simp: pop_work_def insert_into_tasksBeingWorkedOn_def Let_def)
  show ?thesis
    by (rule pop_work_inv [OF inv s']) (use Cons s' front tw' in auto)
qed

theorem pop_work_correct_witness:
  "\<exists>s s'. store_reachable s \<and> pop_work None s = Some (Some 1, s') \<and> tasksWaitingForWorkerQueue s' = []"
proof -
  obtain s where s: "store_reachable s" "tasksWaitingForWorkerQueue s = [1]" using example_enqueue by blast
  with pop_work_correct [OF s(1), of None] show ?thesis by auto
qed

lemma last_offloadable_total:
  "(\<And>x. x \<in> set xs \<Longrightarrow> ok x \<noteq> None) \<Longrightarrow> \<exists>res. last_offloadable ok xs = Some res"
proof (induction xs)
  case (Cons x xs)
  then obtain res b where "last_offloadable ok xs = Some res" "ok x = Some b" by fastforce
  then show ?case by (auto split: option.splits)
qed simp

lemma pop_offload_spec:
  assumes inv: "store_inv s"
  shows "\<exists>res s'. pop_offload node check s = Some (res, s') \<and> (case res of
      None \<Rightarrow> s' = s \<and> (\<forall>x \<in> set (tasksWaitingForWorkerQueue s). \<not> offloadable check (task_at (heap s) x))
    | Some r \<Rightarrow> (\<exists>xs ys off. tasksWaitingForWorkerQueue s = xs @ r # ys
        \<and> tasksWaitingForWorkerQueue s' = xs @ ys \<and> offloadable check (task_at (heap s) r)
        \<and> (\<forall>y \<in> set ys. \<not> offloadable check (task_at (heap s) y))
        \<and> offloadedTasks s' node = Some off \<and> r \<in> set off))"
proof -
  let ?q = "tasksWaitingForWorkerQueue s"
  let ?ok = "\<lambda>r. do { t \<leftarrow> get_task r s; Some (has_serialize t \<and> received_from t = None \<and>
               (case check of None \<Rightarrow> True | Some f \<Rightarrow> f t)) }"
  have ok: "?ok x = Some (offloadable check (task_at (heap s) x))" if "x \<in> set ?q" for x
    using queue_live [OF store_inv_queue [OF inv] that]
    by (auto simp: offloadable_def task_at_def split: option.splits)
  obtain found where f: "last_offloadable ?ok ?q = Some found"
    using last_offloadable_total [of ?q ?ok] ok by auto
  note spec = last_offloadable_spec [OF f ok]
  show ?thesis
  proof (cases found)
    case None
    with f spec show ?thesis by (auto simp: pop_offload_def)
  next
    case (Some ir)
    then obtain i r where fr: "found = Some (i, r)" by (cases ir) auto
    with spec have "r \<in> set ?q" by auto
    with queue_live [OF store_inv_queue [OF inv]] obtain tw where tw: "heap s r = Some tw" by blast
    obtain s' where s': "pop_offload node check s = Some (Some r, s')"
      using f fr tw by (auto simp: pop_offload_def Let_def)
    show ?thesis
      by (rule pop_offload_inv [OF inv s']) (use s' in \<open>auto simp: task_at_def\<close>)
  qed
qed

text \<open>
  C14 (handing out work to a peer).  On a reachable store \<^verbatim>\<open>pop_offload\<close> never fails.  When no
  waiting task can be offloaded (it has a serializer, was created here and passes the check)
  it returns the null pointer and changes nothing; otherwise it takes the last such task of the
  queue, leaves the others in their order, and enters it in the set of tasks offloaded to the peer.
\<close>

theorem pop_offload_correct:
  assumes "store_reachable s"
  shows "\<exists>res s'. pop_offload node check s = Some (res, s') \<and> (case res of
      None \<Rightarrow> s' = s \<and> (\<forall>x \<in> set (tasksWaitingForWorkerQueue s). \<not> offloadable check (task_at (heap s) x))
    | Some r \<Rightarrow> (\<exists>xs ys off. tasksWaitingForWorkerQueue s = xs @ r # ys
        \<and> tasksWaitingForWorkerQueue s' = xs @ ys \<and> offloadable check (task_at (heap s) r)
        \<and> (\<forall>y \<in> set ys. \<not> offloadable check (task_at (heap s) y))
        \<and> offloadedTasks s' node = Some off \<and> r \<in> set off))"
  by (rule pop_offload_spec [OF store_reachable_inv [OF assms]])

theorem pop_offload_correct_witness:
  "\<exists>s. store_reachable s \<and> tasksWaitingForWorkerQueue s = [1] \<and> (\<exists>res s'. pop_offload 3 None s = Some (res, s'))"
  using example_enqueue pop_offload_correct by blast

lemma queue_queued: "queue_ok h q n \<Longrightarrow> r \<in> set q \<Longrightarrow> h r = Some tw \<Longrightarrow> queued_state (wt tw)"
  using queue_live [of h q n r] by (auto simp: queue_ok_def)

lemma insert_total:
  assumes "heap s r = Some tw" "\<And>x. x \<in> set (tasksWaitingForWorkerQueue s) \<Longrightarrow> get_task x s \<noteq> None"
  shows "\<exists>s'. insert_into_tasksWaitingForWorkerQueue r s = Some s'
    \<and> heap s' r = Some (tw\<lparr>wt := (wt tw)\<lparr>state := state (wt tw) OR PARAC_TASK_WORK_AVAILABLE\<rparr>,
        in_work_queue := True\<rparr>)
    \<and> offloadedTasks s' = offloadedTasks s"
proof -
  let ?s = "s\<lparr>heap := (heap s)(r \<mapsto> tw\<lparr>wt := (wt tw)\<lparr>state := state (wt tw) OR PARAC_TASK_WORK_AVAILABLE\<rparr>\<rparr>)\<rparr>"
  have "get_task x ?s = Some (the (get_task x ?s))" if "x \<in> set (tasksWaitingForWorkerQueue s)" for x
    using assms(2) [OF that] by (cases "x = r") (auto simp: get_task_def)
  then have "opt_list (map (\<lambda>x. get_task x ?s) (tasksWaitingForWorkerQueue s))
      = Some (map (\<lambda>x. the (get_task x ?s)) (tasksWaitingForWorkerQueue s))"
    by (rule opt_list_map_Some)
  with assms(1) show ?thesis
    by (simp add: insert_into_tasksWaitingForWorkerQueue_def Let_def emit_def)
qed

text \<open>
  C15 (undoing an offload).  Taking back a task right after it was popped for a peer succeeds and
  restores the store: the same tasks wait, the task has its old state and reference count, is no
  longer recorded as offloaded to the peer, and the invariant of the store holds.
\<close>

theorem undo_offload_roundtrip:
  assumes "store_reachable s" "pop_offload node check s = Some (Some r, s1)"
    and "heap s r = Some tw" "\<not> st_has (state (wt tw)) PARAC_TASK_OFFLOADED"
  shows "\<exists>s2 tw2. undo_offload r s1 = Some s2 \<and> store_inv s2
    \<and> set (tasksWaitingForWorkerQueue s2) = set (tasksWaitingForWorkerQueue s)
    \<and> heap s2 r = Some tw2 \<and> state (wt tw2) = state (wt tw) \<and> refcount tw2 = refcount tw
    \<and> offloaded_to (wt tw2) = None \<and> (\<forall>off. offloadedTasks s2 node = Some off \<longrightarrow> r \<notin> set off)"
proof -
  have inv: "store_inv s" using assms(1) by (rule store_reachable_inv)
  define tw1 where "tw1 = tw\<lparr>wt := (wt tw)\<lparr>offloaded_to := Some node,
       state := st_without (state (wt tw)) PARAC_TASK_WORK_AVAILABLE OR PARAC_TASK_OFFLOADED\<rparr>,
       refcount := refcount tw + 1, in_work_queue := False\<rparr>"
  obtain xs ys where q: "tasksWaitingForWorkerQueue s = xs @ r # ys" "tasksWaitingForWorkerQueue s1 = xs @ ys"
    and inv1: "store_inv s1"
    and off: "offloadedTasks s1 = (offloadedTasks s)(node \<mapsto> List.insert r
       (case offloadedTasks s node of None \<Rightarrow> [] | Some xs \<Rightarrow> xs))"
    and h1: "heap s1 = (heap s)(r \<mapsto> tw1)"
    by (rule pop_offload_inv [OF inv assms(2)]) (use assms(3) in \<open>auto simp: tw1_def\<close>)
  have qs: "queued_state (wt tw)"
    using queue_queued [OF store_inv_queue [OF inv] _ assms(3)] q(1) by simp
  have t1: "heap s1 r = Some tw1" by (simp add: h1)
  have f1: "\<not> in_work_queue tw1" "\<not> st_has (state (wt tw1)) PARAC_TASK_SPLITTED"
    "result (wt tw1) = PARAC_PENDING" "offloaded_to (wt tw1) = Some node"
    using qs by (simp_all add: tw1_def queued_state_def state_bits)
  obtain os where os: "offloadedTasks s1 node = Some os" "r \<in> set os" by (auto simp: off)
  define tw2 where "tw2 = tw1\<lparr>wt := (wt tw1)\<lparr>state := st_without (state (wt tw1)) PARAC_TASK_OFFLOADED,
        offloaded_to := None\<rparr>, refcount := refcount tw1 - 1\<rparr>"
  let ?sx = "s1\<lparr>offloadedTasks := (offloadedTasks s1)(node \<mapsto> task_set_erase r os),
        heap := (heap s1)(r \<mapsto> tw2)\<rparr>"
  have u: "undo_offload r s1 = insert_into_tasksWaitingForWorkerQueue r ?sx"
    using t1 f1(4) os by (simp add: undo_offload_def Let_def tw2_def)
  have live: "get_task x ?sx \<noteq> None" if "x \<in> set (xs @ ys)" for x
    using queue_live [OF store_inv_queue [OF inv1]] q(2) that by (auto simp: get_task_def)
  define tw3 where "tw3 = tw2\<lparr>wt := (wt tw2)\<lparr>state := state (wt tw2) OR PARAC_TASK_WORK_AVAILABLE\<rparr>,
    in_work_queue := True\<rparr>"
  have e: "state (wt tw3) = state (wt tw)"
    using assms(4) qs
    by (intro bit_eqI) (auto simp: tw3_def tw2_def tw1_def state_bits queued_state_def)
  have "\<exists>s2. insert_into_tasksWaitingForWorkerQueue r ?sx = Some s2 \<and> heap s2 r = Some tw3
      \<and> offloadedTasks s2 = (offloadedTasks s1)(node \<mapsto> task_set_erase r os)"
    using insert_total [of ?sx r tw2] live q(2) by (auto simp: tw3_def)
  then obtain s2 where s2: "undo_offload r s1 = Some s2" "heap s2 r = Some tw3"
     "offloadedTasks s2 = (offloadedTasks s1)(node \<mapsto> task_set_erase r os)" using u by auto
  have inv2: "store_inv s2" by (rule undo_offload_inv [OF inv1 t1 f1(1-3) s2(1)])
  have "store_inv ?sx"
    by (rule store_inv_frame [OF same_shape_inv [OF inv1 t1, of tw2]])
      (use f1 in \<open>auto simp: tw2_def shape_defs parent_state_def queued_state_def state_bits\<close>)
  then have "set (tasksWaitingForWorkerQueue s2) = insert r (set (xs @ ys))"
    using insert_inv(2) [of sat_assess ?sx r tw2 s2] s2(1) u f1 q(2) by (auto simp: tw2_def state_bits)
  with s2 inv2 e q(1) show ?thesis
    by (intro exI [of _ s2] exI [of _ tw3])
      (auto simp: tw3_def tw2_def tw1_def task_set_erase_def)
qed

theorem undo_offload_roundtrip_witness:
  "\<exists>s s1 s2. store_reachable s \<and> pop_offload 3 None s = Some (Some 1, s1)
     \<and> undo_offload 1 s1 = Some s2 \<and> set (tasksWaitingForWorkerQueue s2) = {1}"
proof -
  obtain s tw where s: "store_reachable s" "tasksWaitingForWorkerQueue s = [1]" "heap s 1 = Some tw"
    "offloadable None (wt tw)" "\<not> st_has (state (wt tw)) PARAC_TASK_OFFLOADED"
    using example_enqueue by blast
  have "\<exists>s1. pop_offload 3 None s = Some (Some 1, s1)"
    using s by (simp add: pop_offload_def Let_def offloadable_def)
  then obtain s1 where s1: "pop_offload 3 None s = Some (Some 1, s1)" by blast
  from undo_offload_roundtrip [OF s(1) s1 s(3,5)] s(1,2) s1 show ?thesis by auto
qed

text \<open>
  C5 (verdicts reach the root).  Let a leaf of the cube tree be finished with satisfiable, or with
  unsatisfiable while at every ancestor the other child was already found unsatisfiable; let all
  ancestors up to the root wait for their children on this node.  Then \<^verbatim>\<open>assess_task\<close> on the leaf
  returns (a call depth of the number of ancestors plus one is enough), the leaf is removed, the
  exit status of the process becomes exactly this verdict, and the exit is requested.
\<close>

theorem verdict_reaches_root:
  assumes "store_inv s" "heap s r = Some tw" "\<not> in_work_queue tw"
    and "state (wt tw) = PARAC_TASK_DONE" "result (wt tw) = v" "v \<in> {PARAC_SAT, PARAC_UNSAT}"
    and "received_from (wt tw) = None" "has_task_store (wt tw)" "own_assess (wt tw)"
    and "parent_task (wt tw) = Some p" "up_chain (heap s) v n (path (wt tw)) p" "n < 2 ^ 57 - 2"
    and "has_input_file s" "exit_status s = PARAC_UNDEFINED"
  shows "\<exists>s'. assess_task (n + 2) r s = Some s' \<and> exit_status s' = v
    \<and> RequestExit \<in> set (outcalls s') \<and> heap s' r = None"
proof -
  have "assessed (wt tw) = (wt tw)\<lparr>state :=
      st_without (state (wt tw) OR PARAC_TASK_DONE) PARAC_TASK_WORK_AVAILABLE\<rparr>"
    using assms(4-7) by (auto simp: assessed_def state_bits)
  then have d: "decided v (wt tw)"
    using assms(4-9) by (auto simp: decided_def is_done_bits state_bits)
  have "\<exists>s'. call (Suc (Suc n)) (Assess True True r) s = Some s' \<and> exit_status s' = v
      \<and> RequestExit \<in> set (outcalls s') \<and> dom (heap s') \<subseteq> dom (heap s) - {r}"
    using climb [OF assms(6,1,2,3) d assms(13,14), of "Suc n" "Suc n"] assms(7,10-12)
    by (auto simp: local_parent_def simp del: call.simps)
  then show ?thesis by (auto simp: assess_task_def simp del: call.simps)
qed

definition example_root :: parac_task where
  "example_root = (fresh_task None parac_path_root 7)\<lparr>slot0 := SlotTask 2,
     state := PARAC_TASK_SPLITTED OR PARAC_TASK_DONE OR PARAC_TASK_WAITING_FOR_SPLITS\<rparr>"

definition example_leaf :: parac_task where
  "example_leaf = (fresh_task (Some 1) example_path_left 7)\<lparr>state := PARAC_TASK_DONE,
     result := PARAC_SAT\<rparr>"

definition example_tree :: task_store where
  "example_tree = (TaskStore_init 0 True False 0)\<lparr>tasks := [2, 1], tasksSize := 2,
     heap := (\<lambda>_. None)(1 \<mapsto> \<lparr>wt = example_root, refcount = 1, in_work_queue = False\<rparr>,
                         2 \<mapsto> \<lparr>wt = example_leaf, refcount = 0, in_work_queue = False\<rparr>)\<rparr>"

lemma example_tree_inv: "store_inv example_tree"
proof -
  have k: "kid example_root c \<longleftrightarrow> c = 2" "\<not> kid example_leaf c" "local_parent example_root = None"
    "local_parent example_leaf = Some 1" "wf_task example_root" "wf_task example_leaf"
    "path example_root = parac_path_root" "path example_leaf = example_path_left"
    "parent_state example_root" for c
    by (auto simp: kid_def example_root_def example_leaf_def fresh_task_def parac_task_init_def
        local_parent_def wf_task_def left_child_def right_child_def parent_state_def state_bits)
  have "child_path parac_path_root example_path_left"
    by (simp add: child_path_def example_next_left)
  with k show ?thesis
    by (auto simp: store_inv_def example_tree_def TaskStore_init_def tasks_ok_def queue_ok_def links_ok_def
        fun_upd_apply dom_def)
qed

theorem verdict_reaches_root_witness:
  "\<exists>s'. assess_task 2 2 example_tree = Some s' \<and> exit_status s' = PARAC_SAT \<and> heap s' 2 = None"
proof -
  let ?l = "\<lparr>wt = example_leaf, refcount = 0, in_work_queue = False\<rparr> :: task_wrapper"
  have h: "heap example_tree 2 = Some ?l" by (simp add: example_tree_def)
  have l: "state example_leaf = PARAC_TASK_DONE" "result example_leaf = PARAC_SAT"
    "received_from example_leaf = None" "has_task_store example_leaf"
    "own_assess example_leaf" "parent_task example_leaf = Some 1"
    by (simp_all add: example_leaf_def fresh_task_def parac_task_init_def own_assess_def)
  have r: "waiting_task example_root" "path example_root = parac_path_root" "local_parent example_root = None"
    by (simp_all add: example_root_def fresh_task_def parac_task_init_def waiting_task_def state_bits
        local_parent_def own_assess_def)
  have c: "up_chain (heap example_tree) PARAC_SAT 0 (path (wt ?l)) 1"
    using r by (simp add: example_tree_def decides_def)
  have e: "has_input_file example_tree" "exit_status example_tree = PARAC_UNDEFINED"
    by (simp_all add: example_tree_def TaskStore_init_def)
  from verdict_reaches_root [OF example_tree_inv h _ _ _ _ _ _ _ _ c _ e] l
  have "\<exists>s'. assess_task (0 + 2) 2 example_tree = Some s' \<and> exit_status s' = PARAC_SAT \<and> heap s' 2 = None"
    by auto
  then show ?thesis by (simp only: add_0)
qed

end
