(* ===== verification/SinglePrecision.thy ===== *)
theory SinglePrecision
  imports Complex_Main
begin

text \<open>
  Single precision division, as far as the sources use it: a quotient of two unsigned integers
  that are converted to \<^verbatim>\<open>float\<close> first (\<^verbatim>\<open>computeFutureUtilization\<close> in
  \<^verbatim>\<open>modules/broker/broker_compute_node.cpp\<close>).  A value is the rational number a \<^verbatim>\<open>float\<close>
  denotes; \<open>single\<close> rounds to the nearest number with a significand of 24 bits, ties to even.
  The operands are below $2^{64}$ and the quotients above $2^{-64}$, so neither overflow nor
  subnormal numbers occur.
\<close>

fun log2_floor :: "nat \<Rightarrow> nat" where
  "log2_floor n = (if n < 2 then 0 else Suc (log2_floor (n div 2)))"

declare log2_floor.simps [simp del]

definition binade :: "rat \<Rightarrow> int" where
  "binade x = (if x \<ge> 1 then int (log2_floor (nat \<lfloor>x\<rfloor>))
               else - int (Suc (log2_floor (nat (\<lceil>1 / x\<rceil> - 1)))))"

definition round_even :: "rat \<Rightarrow> int" where
  "round_even x =
     (let f = \<lfloor>x\<rfloor>; d = x - of_int f
      in if d < 1 / 2 \<or> (d = 1 / 2 \<and> even f) then f else f + 1)"

definition single :: "rat \<Rightarrow> rat" where
  "single x =
     (if x \<le> 0 then 0
      else let e = binade x - 23 in of_int (round_even (x / 2 powi e)) * 2 powi e)"

definition float_div :: "nat \<Rightarrow> nat \<Rightarrow> rat" where
  "float_div q w = single (single (of_nat q) / single (of_nat w))"

lemma log2_floor_bounds: "0 < n \<Longrightarrow> 2 ^ log2_floor n \<le> n \<and> n < 2 ^ Suc (log2_floor n)"
proof (induction n rule: log2_floor.induct)
  case (1 n)
  show ?case
  proof (cases "n < 2")
    case True
    with "1.prems" have "n = 1" by simp
    then show ?thesis by (simp add: log2_floor.simps)
  next
    case False
    then have "2 ^ log2_floor (n div 2) \<le> n div 2 \<and> n div 2 < 2 ^ Suc (log2_floor (n div 2))"
      using "1.IH" by simp
    moreover have "log2_floor n = Suc (log2_floor (n div 2))"
      using False by (subst log2_floor.simps) simp
    ultimately show ?thesis by (auto simp: algebra_simps)
  qed
qed

text \<open>\<open>binade x\<close> is the exponent of the power of two at or below \<open>x\<close>.\<close>

lemma powi_nat_inverse: "(2::rat) powi (- int n) = 1 / 2 ^ n"
  by (simp add: power_int_minus inverse_eq_divide)

lemma binade_bounds:
  assumes "0 < x" shows "2 powi binade x \<le> x" and "x < 2 powi (binade x + 1)"
proof -
  have "2 powi binade x \<le> x \<and> x < 2 powi (binade x + 1)"
  proof (cases "x \<ge> 1")
    case True
    let ?n = "nat \<lfloor>x\<rfloor>"
    have n: "0 < ?n" "of_nat ?n \<le> x" "x < of_nat ?n + 1"
      using True by (auto simp: le_floor_iff) linarith+
    from log2_floor_bounds [OF n(1)]
    have "2 ^ log2_floor ?n \<le> ?n" "?n + 1 \<le> 2 ^ Suc (log2_floor ?n)" by auto
    then have b: "(of_nat (2 ^ log2_floor ?n) :: rat) \<le> of_nat ?n"
      "(of_nat (?n + 1) :: rat) \<le> of_nat (2 ^ Suc (log2_floor ?n))" by (simp_all only: of_nat_le_iff)
    have "of_nat (2 ^ log2_floor ?n) \<le> x" by (rule order_trans [OF b(1) n(2)])
    moreover have "x < of_nat (2 ^ Suc (log2_floor ?n))"
      using n(3) b(2) by (simp only: of_nat_add of_nat_1)
    moreover have "binade x = int (log2_floor ?n)" using True by (simp add: binade_def)
    ultimately show ?thesis by (simp add: power_int_add)
  next
    case False
    let ?n = "nat (\<lceil>1 / x\<rceil> - 1)" and ?l = "log2_floor (nat (\<lceil>1 / x\<rceil> - 1))"
    from assms False have "1 / x > 1" by simp
    then have "\<lceil>1 / x\<rceil> > 1" by linarith
    then have n: "0 < ?n" "of_nat ?n < 1 / x" "1 / x \<le> of_nat ?n + 1" by (simp_all) linarith+
    from log2_floor_bounds [OF n(1)]
    have "2 ^ ?l \<le> ?n" "?n + 1 \<le> 2 ^ Suc ?l" by auto
    then have b: "(of_nat (2 ^ ?l) :: rat) \<le> of_nat ?n"
      "(of_nat (?n + 1) :: rat) \<le> of_nat (2 ^ Suc ?l)" by (simp_all only: of_nat_le_iff)
    have "of_nat (2 ^ ?l) < 1 / x" by (rule order_le_less_trans [OF b(1) n(2)])
    moreover have "1 / x \<le> of_nat (2 ^ Suc ?l)"
      using n(3) b(2) by (simp only: of_nat_add of_nat_1)
    ultimately have b: "2 ^ ?l < 1 / x" "1 / x \<le> 2 ^ Suc ?l" by simp_all
    have "x < 1 / 2 ^ ?l" "1 / 2 ^ Suc ?l \<le> x"
      using b assms by (simp_all add: field_simps)
    moreover have "binade x = - int (Suc ?l)" "binade x + 1 = - int ?l"
      using False by (simp_all add: binade_def)
    ultimately show ?thesis by (simp only: powi_nat_inverse)
  qed
  then show "2 powi binade x \<le> x" "x < 2 powi (binade x + 1)" by auto
qed

lemma powi_less_imp_less: "(2::rat) powi a < 2 powi b \<Longrightarrow> a < b"
  by (metis linorder_not_less one_le_numeral power_int_increasing)

lemma round_even_mono: "x \<le> y \<Longrightarrow> round_even x \<le> round_even y"
proof -
  assume "x \<le> y"
  then have f: "\<lfloor>x\<rfloor> \<le> \<lfloor>y\<rfloor>" by (rule floor_mono)
  show ?thesis
  proof (cases "\<lfloor>x\<rfloor> = \<lfloor>y\<rfloor>")
    case True
    with \<open>x \<le> y\<close> show ?thesis by (auto simp: round_even_def Let_def)
  next
    case False
    with f show ?thesis by (auto simp: round_even_def Let_def)
  qed
qed

lemma round_even_of_int [simp]: "round_even (of_int n) = n"
  by (simp add: round_even_def)

lemma single_scaled_bounds:
  assumes "0 < x"
  shows "2 powi binade x \<le> single x" and "single x \<le> 2 powi (binade x + 1)"
proof -
  let ?e = "binade x - 23"
  have e: "(0::rat) < 2 powi ?e" by simp
  have s: "single x = of_int (round_even (x / 2 powi ?e)) * 2 powi ?e"
    using assms by (simp add: single_def Let_def)
  have "(2::rat) powi (23 + ?e) = 2 powi 23 * 2 powi ?e" "(2::rat) powi (24 + ?e) = 2 powi 24 * 2 powi ?e"
    by (rule power_int_add; simp)+
  then have b: "(2::rat) powi binade x = of_int (2 ^ 23) * 2 powi ?e" "2 powi (binade x + 1) = of_int (2 ^ 24) * (2::rat) powi ?e"
    by (simp_all add: algebra_simps)
  have lo: "of_int (2 ^ 23) \<le> x / 2 powi ?e"
    using binade_bounds(1) [OF assms] e unfolding b by (simp add: pos_le_divide_eq del: of_int_power)
  have hi: "x / 2 powi ?e \<le> of_int (2 ^ 24)"
    using binade_bounds(2) [OF assms] e unfolding b by (simp add: pos_divide_le_eq del: of_int_power)
  from round_even_mono [OF lo] round_even_mono [OF hi]
  have "2 ^ 23 \<le> round_even (x / 2 powi ?e)" "round_even (x / 2 powi ?e) \<le> 2 ^ 24"
    by (simp_all only: round_even_of_int)
  then have "(of_int (2 ^ 23) :: rat) \<le> of_int (round_even (x / 2 powi ?e))"
    "(of_int (round_even (x / 2 powi ?e)) :: rat) \<le> of_int (2 ^ 24)"
    by (simp_all only: of_int_le_iff)
  then show "2 powi binade x \<le> single x" "single x \<le> 2 powi (binade x + 1)"
    unfolding s b using less_imp_le [OF e] by (blast intro: mult_right_mono)+
qed

lemma single_mono: "x \<le> y \<Longrightarrow> single x \<le> single y"
proof -
  assume xy: "x \<le> y"
  consider "x \<le> 0" | "0 < x" "binade x = binade y" | "0 < x" "binade x \<noteq> binade y" by linarith
  then show ?thesis
  proof cases
    case 1
    have "0 \<le> single y"
    proof (cases "y \<le> 0")
      case False
      then have "2 powi binade y \<le> single y" using single_scaled_bounds by simp
      moreover have "(0::rat) < 2 powi binade y" by simp
      ultimately show ?thesis by linarith
    qed (simp add: single_def)
    with 1 show ?thesis by (simp add: single_def)
  next
    case 2
    have "x / 2 powi (binade y - 23) \<le> y / 2 powi (binade y - 23)"
      using xy by (simp add: divide_right_mono)
    from round_even_mono [OF this] 2 xy show ?thesis
      by (simp add: single_def Let_def mult_right_mono)
  next
    case 3
    with xy have y: "0 < y" by simp
    have "2 powi binade x < (2::rat) powi (binade y + 1)"
      using binade_bounds [OF 3(1)] binade_bounds [OF y] xy by linarith
    then have "binade x < binade y" using 3 powi_less_imp_less by fastforce
    then have "(2::rat) powi (binade x + 1) \<le> 2 powi binade y" by (intro power_int_increasing) auto
    with single_scaled_bounds [OF 3(1)] single_scaled_bounds [OF y] show ?thesis by linarith
  qed
qed

text \<open>Numbers with a significand of at most 24 bits are represented exactly.\<close>

lemma single_exact:
  assumes "0 < m" "m < 2 ^ 24"
  shows "single (of_int m * 2 powi k) = of_int m * 2 powi k"
proof -
  let ?x = "of_int m * (2::rat) powi k"
  have pos: "0 < ?x" using assms by simp
  have m: "(of_int m :: rat) < 2 ^ 24"
    using assms by (metis of_int_less_iff of_int_numeral of_int_power)
  have "2 powi binade ?x < (2::rat) ^ 24 * 2 powi k"
    using binade_bounds(1) [OF pos] m by (meson mult_strict_right_mono order_le_less_trans zero_less_numeral zero_less_power_int)
  also have "\<dots> = 2 powi (24 + k)" by (simp add: power_int_add)
  finally have "binade ?x < 24 + k" by (rule powi_less_imp_less)
  then have "0 \<le> k - (binade ?x - 23)" by simp
  then obtain j where j: "k - (binade ?x - 23) = int j" using nonneg_int_cases by blast
  have "?x / 2 powi (binade ?x - 23) = of_int m * 2 powi (k - (binade ?x - 23))"
    by (simp add: power_int_diff)
  also have "\<dots> = of_int (m * 2 ^ j)" unfolding j by simp
  finally have "round_even (?x / 2 powi (binade ?x - 23)) = m * 2 ^ j" by (simp only: round_even_of_int)
  then have "single ?x = of_int (m * 2 ^ j) * 2 powi (binade ?x - 23)"
    using pos by (simp add: single_def Let_def del: of_int_mult)
  also have "\<dots> = of_int m * 2 powi (int j + (binade ?x - 23))" by (simp add: power_int_add)
  also have "int j + (binade ?x - 23) = k" using j by simp
  finally show ?thesis .
qed

lemma single_of_nat [simp]: "n < 2 ^ 24 \<Longrightarrow> single (of_nat n) = of_nat n"
  using single_exact [of "int n" 0] by (cases "n = 0") (auto simp: single_def)

text \<open>
  The comparison of a quotient with one half is exact for operands below $2^{24}$: the number
  just below one half is $(2^{24} - 1) / 2^{25}$.
\<close>

lemma float_div_less_half:
  assumes "q < 2 ^ 24" "w < 2 ^ 24" "0 < w"
  shows "float_div q w < 1 / 2 \<longleftrightarrow> 2 * q < w"
proof -
  have d: "float_div q w = single (of_nat q / of_nat w)"
    using assms by (simp add: float_div_def)
  have w: "(0::rat) < of_nat w" using assms by simp
  show ?thesis
  proof
    assume "2 * q < w"
    then have "(2 * of_nat q + 1 :: rat) \<le> of_nat w"
      by (metis Suc_eq_plus1 Suc_leI of_nat_1 of_nat_add of_nat_le_iff of_nat_mult of_nat_numeral)
    moreover have "(of_nat w :: rat) \<le> 2 ^ 24"
      using assms(2) by (metis less_imp_le of_nat_le_iff of_nat_numeral of_nat_power)
    ultimately have "(of_nat q / of_nat w :: rat) \<le> of_int (2 ^ 24 - 1) * 2 powi (- 25)"
      using w by (simp add: field_simps power_int_def)
    from single_mono [OF this]
    have "float_div q w \<le> of_int (2 ^ 24 - 1) * 2 powi (- 25)"
      unfolding d by (subst (asm) single_exact) simp_all
    also have "\<dots> < (1 / 2 :: rat)" by (simp add: power_int_def field_simps)
    finally show "float_div q w < 1 / 2" .
  next
    assume l: "float_div q w < 1 / 2"
    show "2 * q < w"
    proof (rule ccontr)
      assume "\<not> 2 * q < w"
      then have "(of_nat w :: rat) \<le> 2 * of_nat q"
        by (metis linorder_not_less of_nat_le_iff of_nat_mult of_nat_numeral)
      then have "of_int 1 * 2 powi (- 1) \<le> (of_nat q / of_nat w :: rat)"
        using w by (simp add: field_simps power_int_def)
      from single_mono [OF this] l show False
        unfolding d by (subst (asm) single_exact) (simp_all add: power_int_def)
    qed
  qed
qed

end
