(* ===== verification/ComputeNode.thy ===== *)
theory ComputeNode
  imports TaskStoreInv SinglePrecision
begin

text \<open>
  The broker's compute nodes and their store: \<^verbatim>\<open>modules/broker/broker_compute_node.cpp\<close>,
  \<^verbatim>\<open>broker_compute_node.hpp\<close> and \<^verbatim>\<open>broker_compute_node_store.cpp\<close>.

  The state \<open>broker\<close> is the store with its nodes, the task store the nodes work on, and the
  fields of the handle they read.  A node is referred to by its id: nodes are created once per id
  and never removed.  What the classes call in other modules is appended to \<open>broker_out\<close>; the
  callback a message carries is an operation of its own, run when the message queue calls it.
  The calls of the task store back into the compute node store are taken from its \<open>outcalls\<close> and
  run when its operation returns.  \<open>None\<close> is a failed assertion or a call of a null function.
  The spin locks are the atomicity of one operation; whether the mutex of the node list can be
  taken by a \<^verbatim>\<open>try_lock\<close> is the field \<open>nodesMutexFree\<close>.
\<close>

section \<open>Status and description of a node\<close>

record SolverInstance =
  formula_received :: bool
  formula_parsed :: bool
  workQueueSize :: u64

definition SolverInstance_init :: SolverInstance where
  "SolverInstance_init = \<lparr>formula_received = False, formula_parsed = False, workQueueSize = 0\<rparr>"

text \<open>
  \<^verbatim>\<open>std::map<parac_id, SolverInstance>\<close>: the pairs in the order of the keys.  A call of
  \<^verbatim>\<open>operator[]\<close> inserts a default instance when there is none.
\<close>

type_synonym instances = "(parac_id \<times> SolverInstance) list"

fun upd_instance :: "parac_id \<Rightarrow> (SolverInstance \<Rightarrow> SolverInstance) \<Rightarrow> instances \<Rightarrow> instances" where
  "upd_instance k f [] = [(k, f SolverInstance_init)]"
| "upd_instance k f ((k', v) # xs) =
     (if k < k' then (k, f SolverInstance_init) # (k', v) # xs
      else if k = k' then (k', f v) # xs
      else (k', v) # upd_instance k f xs)"

text \<open>The binary archive of an instance carries two of its three fields.\<close>

definition archived :: "SolverInstance \<Rightarrow> SolverInstance" where
  "archived i = SolverInstance_init\<lparr>formula_parsed := formula_parsed i, workQueueSize := workQueueSize i\<rparr>"

definition archived_instances :: "instances \<Rightarrow> instances" where
  "archived_instances xs = map (\<lambda>(k, i). (k, archived i)) xs"

record Status =
  solverInstances :: instances
  m_workers :: u32
  m_statusStream :: "instances option"
  m_dirty :: bool
  m_cachedWorkQueueSize :: u64

definition Status_init :: Status where
  "Status_init = \<lparr>solverInstances = [], m_workers = 0, m_statusStream = None, m_dirty = True,
     m_cachedWorkQueueSize = 0\<rparr>"

text \<open>
  \<^verbatim>\<open>boost::accumulate\<close> over the sizes starting from the \<^verbatim>\<open>int\<close> literal 0: every partial sum
  is computed in 64 bits and converted back to a 32-bit signed integer.
\<close>

definition accumulate_step :: "u32 \<Rightarrow> u64 \<Rightarrow> u32" where
  "accumulate_step acc x = ucast (scast acc + x)"

definition accumulate_sizes :: "instances \<Rightarrow> u64" where
  "accumulate_sizes xs = scast (foldl accumulate_step 0 (map (\<lambda>(_, i). workQueueSize i) xs))"

definition Status_workQueueSize :: "Status \<Rightarrow> u64 \<times> Status" where
  "Status_workQueueSize s =
     (let s = (if m_dirty s
               then s\<lparr>m_cachedWorkQueueSize := accumulate_sizes (solverInstances s), m_dirty := False\<rparr>
               else s)
      in (m_cachedWorkQueueSize s, s))"

text \<open>
  \<^verbatim>\<open>serializeToMessage\<close>: the stream is written anew when the status is dirty or the stream is
  empty; the message points into the stream.
\<close>

definition Status_serializeToMessage :: "Status \<Rightarrow> instances \<times> Status" where
  "Status_serializeToMessage s =
     (case m_statusStream s of
        Some bytes \<Rightarrow>
          if m_dirty s then
            let bytes = archived_instances (solverInstances s)
            in (bytes, snd (Status_workQueueSize (s\<lparr>m_statusStream := Some bytes\<rparr>)))
          else (bytes, s)
      | None \<Rightarrow>
          let bytes = archived_instances (solverInstances s)
          in (bytes, snd (Status_workQueueSize (s\<lparr>m_statusStream := Some bytes\<rparr>))))"

definition Status_isParsed :: "parac_id \<Rightarrow> Status \<Rightarrow> bool" where
  "Status_isParsed k s = (case map_of (solverInstances s) k of None \<Rightarrow> False | Some i \<Rightarrow> formula_parsed i)"

definition Status_eq :: "Status \<Rightarrow> Status \<Rightarrow> bool" where
  "Status_eq s1 s2 \<longleftrightarrow> length (solverInstances s1) = length (solverInstances s2)
     \<and> list_all2 (\<lambda>(k1, i1) (k2, i2). k1 = k2 \<and> formula_received i1 = formula_received i2
          \<and> formula_parsed i1 = formula_parsed i2 \<and> workQueueSize i1 = workQueueSize i2)
        (solverInstances s1) (solverInstances s2)"

text \<open>The statements after the first test of \<^verbatim>\<open>isDiffWorthwhile\<close> are not reachable.\<close>

definition isDiffWorthwhile :: "Status \<Rightarrow> Status \<Rightarrow> bool" where
  "isDiffWorthwhile s1 s2 = (if Status_eq s1 s2 then False else True)"

definition Status_copy :: "Status \<Rightarrow> Status" where
  "Status_copy other = Status_init\<lparr>solverInstances := solverInstances other\<rparr>"

definition Status_assign :: "Status \<Rightarrow> Status \<Rightarrow> Status" where
  "Status_assign s other = s\<lparr>m_dirty := True, solverInstances := solverInstances other\<rparr>"

definition insertWorkerCount :: "u32 \<Rightarrow> Status \<Rightarrow> Status" where
  "insertWorkerCount n s = s\<lparr>m_workers := n\<rparr>"

definition Status_computeFutureUtilization :: "Status \<Rightarrow> u64 \<Rightarrow> rat" where
  "Status_computeFutureUtilization s q =
     (if m_workers s = 0 then 1000000 else float_div (unat q) (unat (m_workers s)))"

definition Status_computeUtilization :: "Status \<Rightarrow> rat" where
  "Status_computeUtilization s = Status_computeFutureUtilization s (fst (Status_workQueueSize s))"

record Description =
  desc_name :: string
  desc_host :: string
  desc_workers :: u32
  desc_udpListenPort :: u16
  desc_tcpListenPort :: u16
  desc_daemon :: bool
  desc_local :: bool

definition archived_description :: "Description \<Rightarrow> Description" where
  "archived_description d = d\<lparr>desc_local := False\<rparr>"

section \<open>Nodes, messages and the store\<close>

text \<open>The closure \<^verbatim>\<open>receiveMessageStatusFrom\<close> keeps until a formula is parsed.\<close>

datatype parsing_cb = NewRemoteAvailable (cb_origin: parac_id) (cb_instance: parac_id)

record compute_node =
  has_send_message_to :: bool
  node_available_to_send_to :: bool
  connection_string :: "string option"
  has_solver_instance :: bool
  m_description :: "Description option"
  m_status :: Status
  m_remotelyKnownLocalStatus :: "Status option"
  m_sendingStatusTo :: bool
  m_sendingKnownRemotes :: bool
  m_newRemotesToNotifyAbout :: "(parac_id \<times> string) list"
  m_knownRemotesOstream :: "(parac_id \<times> string) list"
  m_cbAfterParsingIsDone :: "parac_id \<Rightarrow> parsing_cb list option"

definition ComputeNode_init :: compute_node where
  "ComputeNode_init = \<lparr>has_send_message_to = False, node_available_to_send_to = False,
     connection_string = None, has_solver_instance = False, m_description = None,
     m_status = Status_init, m_remotelyKnownLocalStatus = None, m_sendingStatusTo = False,
     m_sendingKnownRemotes = False, m_newRemotesToNotifyAbout = [], m_knownRemotesOstream = [],
     m_cbAfterParsingIsDone = (\<lambda>_. None)\<rparr>"

datatype broker_msg =
    NodeDescription Description
  | NodeStatus instances
  | TaskOffload task_ref
  | NewRemotes "(parac_id \<times> string) list"
  | OfflineAnnouncement
  | SolverDescription

datatype broker_event =
    SendMessage parac_id broker_msg
  | SendFormula parac_id
  | ConnectToRemote string
  | AddSolverInstance parac_id
  | SolverMessage parac_id parac_message_kind
  | SolverNewRemote parac_id parac_id
  | SolverFormula parac_id
  | MessageReply parac_status
  | FileReply parac_status
  | StoreCall outcall

record broker =
  handle_id :: parac_id
  handle_input_file :: bool
  handle_workers :: u32
  handle_udp_listen_port :: u16
  handle_tcp_listen_port :: u16
  handle_local_name :: string
  handle_host_name :: string
  nodesMutexFree :: bool
  nodes :: "parac_id \<Rightarrow> compute_node option"
  nodesList :: "parac_id list"
  nodesRefVec :: "(parac_id \<times> rat) list"
  m_autoShutdownAfterFirstFinishedClient :: bool
  m_taskStore :: task_store
  broker_out :: "broker_event list"

definition broker_emit :: "broker_event \<Rightarrow> broker \<Rightarrow> broker" where
  "broker_emit e b = b\<lparr>broker_out := broker_out b @ [e]\<rparr>"

definition upd_node :: "parac_id \<Rightarrow> (compute_node \<Rightarrow> compute_node) \<Rightarrow> broker \<Rightarrow> broker option" where
  "upd_node k f b = do { n \<leftarrow> nodes b k; Some (b\<lparr>nodes := (nodes b)(k \<mapsto> f n)\<rparr>) }"

definition upd_status :: "parac_id \<Rightarrow> (Status \<Rightarrow> Status) \<Rightarrow> broker \<Rightarrow> broker option" where
  "upd_status k f b = upd_node k (\<lambda>n. n\<lparr>m_status := f (m_status n)\<rparr>) b"

text \<open>\<^verbatim>\<open>m_node.send_message_to(&m_node, &msg)\<close>: the function pointer must not be null.\<close>

definition send_message_to :: "parac_id \<Rightarrow> broker_msg \<Rightarrow> broker \<Rightarrow> broker option" where
  "send_message_to k m b = do {
     n \<leftarrow> nodes b k;
     c_assert (has_send_message_to n);
     Some (broker_emit (SendMessage k m) b) }"

definition thisNode :: "broker \<Rightarrow> compute_node option" where
  "thisNode b = nodes b (handle_id b)"

section \<open>Lookup and creation\<close>

definition store_has :: "parac_id \<Rightarrow> broker \<Rightarrow> bool" where
  "store_has k b \<longleftrightarrow> nodes b k \<noteq> None"

definition store_create :: "parac_id \<Rightarrow> broker \<Rightarrow> broker option" where
  "store_create k b = do {
     c_assert (\<not> store_has k b);
     Some (b\<lparr>nodesList := k # nodesList b, nodes := (nodes b)(k \<mapsto> ComputeNode_init),
             nodesRefVec := nodesRefVec b @ [(k, 0)]\<rparr>) }"

definition store_get :: "parac_id \<Rightarrow> broker \<Rightarrow> broker option" where
  "store_get k b = (if store_has k b then Some b else store_create k b)"

definition initDescription ::
  "string \<Rightarrow> string \<Rightarrow> u32 \<Rightarrow> u16 \<Rightarrow> u16 \<Rightarrow> bool \<Rightarrow> bool \<Rightarrow> compute_node \<Rightarrow> compute_node" where
  "initDescription name host workers udp tcp demon loc n =
     n\<lparr>m_description := Some \<lparr>desc_name = name, desc_host = host, desc_workers = workers,
          desc_udpListenPort = udp, desc_tcpListenPort = tcp, desc_daemon = demon, desc_local = loc\<rparr>,
        m_status := insertWorkerCount workers (m_status n)\<rparr>"

definition updateThisNodeDescription :: "broker \<Rightarrow> broker option" where
  "updateThisNodeDescription b =
     upd_node (handle_id b)
       (initDescription (handle_local_name b) (handle_host_name b) (handle_workers b)
          (handle_tcp_listen_port b) (handle_udp_listen_port b) (\<not> handle_input_file b) True) b"

definition ComputeNodeStore_init :: "broker \<Rightarrow> broker option" where
  "ComputeNodeStore_init b = do {
     b \<leftarrow> store_get (handle_id b) (b\<lparr>nodes := (\<lambda>_. None), nodesList := [], nodesRefVec := []\<rparr>);
     updateThisNodeDescription b }"

text \<open>
  \<^verbatim>\<open>create_with_connection\<close>: the communicator installs its functions and the description of the
  local node is the first message of the new node.
\<close>

definition create_with_connection :: "parac_id \<Rightarrow> bool \<Rightarrow> broker \<Rightarrow> broker option" where
  "create_with_connection k available b = do {
     c_assert (\<not> store_has k b);
     b \<leftarrow> store_get k b;
     b \<leftarrow> upd_node k (\<lambda>n. n\<lparr>has_send_message_to := True, node_available_to_send_to := available\<rparr>) b;
     this \<leftarrow> thisNode b;
     d \<leftarrow> m_description this;
     send_message_to k (NodeDescription (archived_description d)) b }"

section \<open>Status messages to peers\<close>

definition incrementWorkQueueSize :: "parac_id \<Rightarrow> Status \<Rightarrow> Status" where
  "incrementWorkQueueSize orig s =
     s\<lparr>solverInstances := upd_instance orig (\<lambda>i. i\<lparr>workQueueSize := workQueueSize i + 1\<rparr>) (solverInstances s),
       m_dirty := True\<rparr>"

definition decrementWorkQueueSize :: "parac_id \<Rightarrow> Status \<Rightarrow> Status" where
  "decrementWorkQueueSize orig s =
     s\<lparr>solverInstances := upd_instance orig (\<lambda>i. i\<lparr>workQueueSize := workQueueSize i - 1\<rparr>) (solverInstances s),
       m_dirty := True\<rparr>"

definition set_formulaParsed :: "parac_id \<Rightarrow> Status \<Rightarrow> Status" where
  "set_formulaParsed orig s =
     s\<lparr>solverInstances := upd_instance orig (\<lambda>i. i\<lparr>formula_parsed := True\<rparr>) (solverInstances s),
       m_dirty := True\<rparr>"

text \<open>\<^verbatim>\<open>conditionallySendStatusTo\<close> and the callback of the status message.\<close>

definition conditionallySendStatusTo :: "parac_id \<Rightarrow> Status \<Rightarrow> broker \<Rightarrow> broker option" where
  "conditionallySendStatusTo k s b = do {
     n \<leftarrow> nodes b k;
     if \<not> node_available_to_send_to n then Some b
     else if m_sendingStatusTo n then Some b
     else if (case m_remotelyKnownLocalStatus n of
                Some known \<Rightarrow> \<not> isDiffWorthwhile known s | None \<Rightarrow> False) then Some b
     else do {
       let known = (case m_remotelyKnownLocalStatus n of
                      Some known \<Rightarrow> Status_assign known s | None \<Rightarrow> Status_copy s);
       let (bytes, known) = Status_serializeToMessage known;
       b \<leftarrow> upd_node k (\<lambda>n. n\<lparr>m_sendingStatusTo := True, m_remotelyKnownLocalStatus := Some known\<rparr>) b;
       send_message_to k (NodeStatus bytes) b } }"

definition status_message_cb :: "parac_id \<Rightarrow> parac_status \<Rightarrow> broker \<Rightarrow> broker option" where
  "status_message_cb k st b =
     (if st = PARAC_TO_BE_DELETED then do {
        this \<leftarrow> thisNode b;
        let thisS = Status_assign Status_init (m_status this);
        n \<leftarrow> nodes b k;
        b \<leftarrow> upd_node k (\<lambda>n. n\<lparr>m_sendingStatusTo := False\<rparr>) b;
        (case m_remotelyKnownLocalStatus n of
           Some known \<Rightarrow> if isDiffWorthwhile known thisS then conditionallySendStatusTo k thisS b else Some b
         | None \<Rightarrow> Some b) }
      else Some b)"

fun send_status_loop :: "parac_id list \<Rightarrow> broker \<Rightarrow> broker option" where
  "send_status_loop [] b = Some b"
| "send_status_loop (k # ks) b = do {
     n \<leftarrow> nodes b k;
     b \<leftarrow> (if k \<noteq> handle_id b \<and> node_available_to_send_to n then do {
             this \<leftarrow> thisNode b;
             conditionallySendStatusTo k (m_status this) b }
           else Some b);
     send_status_loop ks b }"

definition sendStatusToPeers :: "bool \<Rightarrow> broker \<Rightarrow> broker option" where
  "sendStatusToPeers important b =
     (if \<not> important \<and> \<not> nodesMutexFree b then Some b else send_status_loop (nodesList b) b)"

fun offline_loop :: "parac_id list \<Rightarrow> broker \<Rightarrow> broker option" where
  "offline_loop [] b = Some b"
| "offline_loop (k # ks) b = do {
     n \<leftarrow> nodes b k;
     b \<leftarrow> (if k \<noteq> handle_id b \<and> node_available_to_send_to n
           then send_message_to k OfflineAnnouncement b else Some b);
     offline_loop ks b }"

definition sendOfflineAnnouncementToPeers :: "broker \<Rightarrow> broker option" where
  "sendOfflineAnnouncementToPeers b = offline_loop (nodesList b) b"

definition broker_isParsed :: "parac_id \<Rightarrow> parac_id \<Rightarrow> broker \<Rightarrow> bool option" where
  "broker_isParsed k orig b = do { n \<leftarrow> nodes b k; Some (Status_isParsed orig (m_status n)) }"

definition node_computeUtilization :: "compute_node \<Rightarrow> rat" where
  "node_computeUtilization n =
     (if m_description n = None then 1000000 else Status_computeUtilization (m_status n))"

definition broker_computeUtilization :: "parac_id \<Rightarrow> broker \<Rightarrow> rat option" where
  "broker_computeUtilization k b = map_option node_computeUtilization (nodes b k)"

definition decrementThisNodeWorkQueueSize :: "parac_id \<Rightarrow> broker \<Rightarrow> broker option" where
  "decrementThisNodeWorkQueueSize orig b = do {
     b \<leftarrow> upd_status (handle_id b) (decrementWorkQueueSize orig) b;
     parsed \<leftarrow> broker_isParsed (handle_id b) orig b;
     if handle_input_file b \<or> parsed then sendStatusToPeers False b else Some b }"

section \<open>Offloading\<close>

text \<open>
  Running an operation of the task store: the calls it makes are handled one after the other.
  \<open>pop_offload\<close> only decrements the local work queue size.
\<close>

fun handle_calls :: "(outcall \<Rightarrow> broker \<Rightarrow> broker option) \<Rightarrow> outcall list \<Rightarrow> broker \<Rightarrow> broker option" where
  "handle_calls h [] b = Some b"
| "handle_calls h (c # cs) b = do { b \<leftarrow> h c b; handle_calls h cs b }"

definition with_task_store ::
  "(outcall \<Rightarrow> broker \<Rightarrow> broker option) \<Rightarrow> (task_store \<Rightarrow> ('r \<times> task_store) option) \<Rightarrow>
   broker \<Rightarrow> ('r \<times> broker) option" where
  "with_task_store h f b = do {
     (r, ts) \<leftarrow> f ((m_taskStore b)\<lparr>outcalls := []\<rparr>);
     b \<leftarrow> handle_calls h (outcalls ts) (b\<lparr>m_taskStore := ts\<lparr>outcalls := []\<rparr>\<rparr>);
     Some (r, b) }"

fun offload_call :: "outcall \<Rightarrow> broker \<Rightarrow> broker option" where
  "offload_call (DecWorkQueue orig) b = decrementThisNodeWorkQueueSize orig b"
| "offload_call c b = Some (broker_emit (StoreCall c) b)"

definition tryToOffloadTask :: "parac_id \<Rightarrow> broker \<Rightarrow> (bool \<times> broker) option" where
  "tryToOffloadTask k b = do {
     n \<leftarrow> nodes b k;
     (case m_description n of
        None \<Rightarrow> Some (False, b)
      | Some d \<Rightarrow>
          if desc_workers d = 0 then Some (False, b)
          else if \<not> has_send_message_to n then Some (False, b)
          else do {
            (task, b) \<leftarrow> with_task_store offload_call
              (pop_offload k (Some (\<lambda>t. Status_isParsed (originator t) (m_status n)))) b;
            (case task of
               None \<Rightarrow> Some (False, b)
             | Some r \<Rightarrow> do {
                 t \<leftarrow> get_task r (m_taskStore b);
                 b \<leftarrow> upd_status k (incrementWorkQueueSize (originator t)) b;
                 this \<leftarrow> thisNode b;
                 b \<leftarrow> conditionallySendStatusTo k (m_status this) b;
                 b \<leftarrow> send_message_to k (TaskOffload r) b;
                 Some (True, b) }) }) }"

definition updateNodesRefVecUtilization :: "broker \<Rightarrow> broker option" where
  "updateNodesRefVecUtilization b = do {
     us \<leftarrow> opt_list (map (\<lambda>(k, _). broker_computeUtilization k b) (nodesRefVec b));
     Some (b\<lparr>nodesRefVec := zip (map fst (nodesRefVec b)) us\<rparr>) }"

fun offload_loop :: "rat \<Rightarrow> u64 \<Rightarrow> (parac_id \<times> rat) list \<Rightarrow> broker \<Rightarrow> broker option" where
  "offload_loop thisUtilization q [] b = Some b"
| "offload_loop thisUtilization q ((k, u) # es) b =
     (if k = handle_id b then Some b
      else do {
        this \<leftarrow> thisNode b;
        let thisFutureUtilization =
          (if q > 0 then Status_computeFutureUtilization (m_status this) (q - 1) else 0);
        if thisFutureUtilization < 1 / 2 then Some b
        else if u > thisUtilization then Some b
        else if u > 2 then Some b
        else do {
          (offloaded, b) \<leftarrow> tryToOffloadTask k b;
          offload_loop thisUtilization (if offloaded then q - 1 else q) es b } })"

text \<open>
  \<^verbatim>\<open>tryOffloadingTasks\<close>.  The order \<^verbatim>\<open>std::sort\<close> gives nodes of equal utilization is not
  specified: \<open>ord\<close> is the sorting function, any permutation in the order of the second components.
\<close>

type_synonym sorting = "(parac_id \<times> rat) list \<Rightarrow> (parac_id \<times> rat) list"

definition tryOffloadingTasks :: "sorting \<Rightarrow> broker \<Rightarrow> broker option" where
  "tryOffloadingTasks ord b =
     (if \<not> nodesMutexFree b then Some b
      else do {
        b \<leftarrow> updateNodesRefVecUtilization b;
        let b = b\<lparr>nodesRefVec := ord (nodesRefVec b)\<rparr>;
        this \<leftarrow> thisNode b;
        offload_loop (node_computeUtilization this) (fst (Status_workQueueSize (m_status this)))
          (nodesRefVec b) b })"

definition incrementThisNodeWorkQueueSize :: "sorting \<Rightarrow> parac_id \<Rightarrow> broker \<Rightarrow> broker option" where
  "incrementThisNodeWorkQueueSize ord orig b = do {
     b \<leftarrow> upd_status (handle_id b) (incrementWorkQueueSize orig) b;
     parsed \<leftarrow> broker_isParsed (handle_id b) orig b;
     if handle_input_file b \<or> parsed then do {
       b \<leftarrow> sendStatusToPeers False b;
       u \<leftarrow> broker_computeUtilization (handle_id b) b;
       if u > 1 / 2 then tryOffloadingTasks ord b else Some b }
     else Some b }"

section \<open>Parsed formulas\<close>

text \<open>
  The closure kept for a formula: the solver instance of the node is told of the new remote.
\<close>

definition run_parsing_cb :: "parsing_cb \<Rightarrow> broker \<Rightarrow> broker option" where
  "run_parsing_cb cb b = do {
     b \<leftarrow> store_get (cb_instance cb) b;
     n \<leftarrow> nodes b (cb_instance cb);
     c_assert (has_solver_instance n);
     Some (broker_emit (SolverNewRemote (cb_instance cb) (cb_origin cb)) b) }"

fun run_parsing_cbs :: "parsing_cb list \<Rightarrow> broker \<Rightarrow> broker option" where
  "run_parsing_cbs [] b = Some b"
| "run_parsing_cbs (cb # cbs) b = do { b \<leftarrow> run_parsing_cb cb b; run_parsing_cbs cbs b }"

definition node_formulaParsed :: "parac_id \<Rightarrow> parac_id \<Rightarrow> broker \<Rightarrow> broker option" where
  "node_formulaParsed k orig b = do {
     b \<leftarrow> upd_status k (set_formulaParsed orig) b;
     n \<leftarrow> nodes b k;
     (case m_cbAfterParsingIsDone n orig of
        None \<Rightarrow> Some b
      | Some cbs \<Rightarrow> do {
          b \<leftarrow> run_parsing_cbs cbs b;
          upd_node k (\<lambda>n. n\<lparr>m_cbAfterParsingIsDone := (m_cbAfterParsingIsDone n)(orig := None)\<rparr>) b }) }"

definition store_formulaParsed :: "parac_id \<Rightarrow> broker \<Rightarrow> broker option" where
  "store_formulaParsed orig b = do {
     b \<leftarrow> node_formulaParsed (handle_id b) orig b;
     sendStatusToPeers True b }"

text \<open>
  \<^verbatim>\<open>runCBAfterParsingOfFormulaIsDone\<close> in its three critical sections: the first test, the entry
  into the list of callbacks, and the second test.  Another thread can run \<^verbatim>\<open>formulaParsed\<close>
  between any two of them.
\<close>

definition runCB_test :: "parac_id \<Rightarrow> parsing_cb \<Rightarrow> parac_id \<Rightarrow> broker \<Rightarrow> (bool \<times> broker) option" where
  "runCB_test k cb orig b = do {
     parsed \<leftarrow> broker_isParsed k orig b;
     if parsed then do { b \<leftarrow> run_parsing_cb cb b; Some (True, b) } else Some (False, b) }"

definition runCB_enqueue :: "parac_id \<Rightarrow> parsing_cb \<Rightarrow> parac_id \<Rightarrow> broker \<Rightarrow> broker option" where
  "runCB_enqueue k cb orig b =
     upd_node k (\<lambda>n. n\<lparr>m_cbAfterParsingIsDone := (m_cbAfterParsingIsDone n)(orig \<mapsto>
       (case m_cbAfterParsingIsDone n orig of None \<Rightarrow> [] | Some cbs \<Rightarrow> cbs) @ [cb])\<rparr>) b"

definition runCBAfterParsingOfFormulaIsDone ::
  "parac_id \<Rightarrow> parsing_cb \<Rightarrow> parac_id \<Rightarrow> broker \<Rightarrow> broker option" where
  "runCBAfterParsingOfFormulaIsDone k cb orig b = do {
     (ran, b) \<leftarrow> runCB_test k cb orig b;
     if ran then Some b
     else do {
       b \<leftarrow> runCB_enqueue k cb orig b;
       (_, b) \<leftarrow> runCB_test k cb orig b;
       Some b } }"

text \<open>All calls of the task store.\<close>

fun store_call_handler :: "sorting \<Rightarrow> outcall \<Rightarrow> broker \<Rightarrow> broker option" where
  "store_call_handler ord (IncWorkQueue orig) b = incrementThisNodeWorkQueueSize ord orig b"
| "store_call_handler ord (DecWorkQueue orig) b = decrementThisNodeWorkQueueSize orig b"
| "store_call_handler ord (FormulaParsed orig) b = store_formulaParsed orig b"
| "store_call_handler ord c b = Some (broker_emit (StoreCall c) b)"

definition run_task_store ::
  "sorting \<Rightarrow> (task_store \<Rightarrow> task_store option) \<Rightarrow> broker \<Rightarrow> broker option" where
  "run_task_store ord f b = do {
     (_, b) \<leftarrow> with_task_store (store_call_handler ord) (\<lambda>s. map_option (Pair ()) (f s)) b;
     Some b }"

text \<open>The callback of an offloaded task: only a lost message undoes the offload.\<close>

definition offload_message_cb :: "sorting \<Rightarrow> task_ref \<Rightarrow> parac_status \<Rightarrow> broker \<Rightarrow> broker option" where
  "offload_message_cb ord r st b =
     (if st \<noteq> PARAC_OK \<and> st \<noteq> PARAC_TO_BE_DELETED \<and> st \<noteq> PARAC_CONNECTION_CLOSED then do {
        t \<leftarrow> get_task r (m_taskStore b);
        (case offloaded_to t of
           None \<Rightarrow> Some b
         | Some k \<Rightarrow> do {
             b \<leftarrow> upd_status k (decrementWorkQueueSize (originator t)) b;
             run_task_store ord (undo_offload r) b }) }
      else Some b)"

section \<open>Notification of new remotes\<close>

definition doNotifyOfNewRemotes :: "parac_id \<Rightarrow> broker \<Rightarrow> broker option" where
  "doNotifyOfNewRemotes k b = do {
     n \<leftarrow> nodes b k;
     if m_sendingKnownRemotes n then Some b
     else do {
       let knownRemotes = m_newRemotesToNotifyAbout n;
       b \<leftarrow> upd_node k (\<lambda>n. n\<lparr>m_sendingKnownRemotes := True, m_knownRemotesOstream := knownRemotes,
                               m_newRemotesToNotifyAbout := []\<rparr>) b;
       send_message_to k (NewRemotes knownRemotes) b } }"

definition known_remotes_cb :: "parac_id \<Rightarrow> parac_status \<Rightarrow> broker \<Rightarrow> broker option" where
  "known_remotes_cb k st b =
     (if st = PARAC_TO_BE_DELETED then upd_node k (\<lambda>n. n\<lparr>m_sendingKnownRemotes := False\<rparr>) b
      else Some b)"

definition notifyOfNewRemote :: "parac_id \<Rightarrow> parac_id \<Rightarrow> broker \<Rightarrow> broker option" where
  "notifyOfNewRemote k other b = do {
     o_node \<leftarrow> nodes b other;
     cs \<leftarrow> connection_string o_node;
     b \<leftarrow> upd_node k (\<lambda>n. n\<lparr>m_newRemotesToNotifyAbout := m_newRemotesToNotifyAbout n @ [(other, cs)]\<rparr>) b;
     doNotifyOfNewRemotes k b }"

definition remote_of_node :: "parac_id \<Rightarrow> broker \<Rightarrow> parac_id \<Rightarrow> (parac_id \<times> string) list" where
  "remote_of_node k b j = (case nodes b j of
       None \<Rightarrow> []
     | Some n \<Rightarrow>
         if j = k \<or> \<not> has_send_message_to n then []
         else (case connection_string n of None \<Rightarrow> [] | Some cs \<Rightarrow> [(j, cs)]))"

definition sendKnownRemotes :: "parac_id \<Rightarrow> broker \<Rightarrow> broker option" where
  "sendKnownRemotes k b = do {
     b \<leftarrow> upd_node k (\<lambda>n. n\<lparr>m_newRemotesToNotifyAbout := m_newRemotesToNotifyAbout n
            @ concat (map (remote_of_node k b) (nodesList b))\<rparr>) b;
     doNotifyOfNewRemotes k b }"

section \<open>Received messages and files\<close>

text \<open>
  A received message as its handler sees it.  The payload of an archive is what the library reads:
  \<open>Inl\<close> is an exception of the library, with the fields of the description it filled before, \<open>Inr\<close>
  the value.  An abort carries a task address in its inline data, which itself has an address.
\<close>

datatype received =
    RSolver parac_message_kind parac_id
  | RDescription "Description + Description"
  | RStatus "instances option"
  | RTaskResult parac_task_result_packet
  | RNewRemotes "(parac_id \<times> string) list option"
  | ROffline
  | RTaskAbort (inline_addr: task_ref) (inline_content: task_ref) parac_id
  | RInvalid parac_message_kind

definition receiveMessageDescriptionFrom :: "parac_id \<Rightarrow> Description \<Rightarrow> broker \<Rightarrow> broker option" where
  "receiveMessageDescriptionFrom k d b = do {
     b \<leftarrow> upd_node k (\<lambda>n. n\<lparr>m_description := Some d\<rparr>) b;
     let b = broker_emit (MessageReply PARAC_OK) b;
     n \<leftarrow> nodes b k;
     b \<leftarrow> (if \<not> desc_daemon d \<and> \<not> has_solver_instance n
           then upd_node k (\<lambda>n. n\<lparr>has_solver_instance := True\<rparr>) (broker_emit (AddSolverInstance k) b)
           else Some b);
     b \<leftarrow> sendKnownRemotes k b;
     b \<leftarrow> upd_status k (insertWorkerCount (desc_workers d)) b;
     if handle_input_file b then do {
       b \<leftarrow> upd_status k (\<lambda>s. s\<lparr>solverInstances := upd_instance (handle_id b) (\<lambda>i. i) (solverInstances s)\<rparr>) b;
       n \<leftarrow> nodes b k;
       i \<leftarrow> map_of (solverInstances (m_status n)) (handle_id b);
       if formula_received i then Some b
       else do {
         this \<leftarrow> thisNode b;
         c_assert (has_solver_instance this);
         send_message_to k SolverDescription b } }
     else Some b }"

text \<open>The callback of the solver configuration: the formula follows the accepted configuration.\<close>

definition solver_config_cb :: "parac_id \<Rightarrow> parac_status \<Rightarrow> broker \<Rightarrow> broker option" where
  "solver_config_cb k st b =
     (if st = PARAC_OK then do {
        this \<leftarrow> thisNode b;
        c_assert (has_solver_instance this);
        n \<leftarrow> nodes b k;
        c_assert (has_send_message_to n);
        Some (broker_emit (SendFormula k) b) }
      else Some b)"

fun announce_loop :: "parac_id \<Rightarrow> instances \<Rightarrow> Status \<Rightarrow> broker \<Rightarrow> broker option" where
  "announce_loop k [] s b = Some b"
| "announce_loop k ((i, inst) # is) s b = do {
     b \<leftarrow> (if \<not> formula_parsed inst \<and> Status_isParsed i s
           then runCBAfterParsingOfFormulaIsDone (handle_id b) (NewRemoteAvailable k i) i b
           else Some b);
     announce_loop k is s b }"

definition receiveMessageStatusFrom :: "sorting \<Rightarrow> parac_id \<Rightarrow> instances \<Rightarrow> broker \<Rightarrow> broker option" where
  "receiveMessageStatusFrom ord k is b = do {
     n \<leftarrow> nodes b k;
     let s = Status_init\<lparr>solverInstances := is\<rparr>;
     let oldStatus = Status_assign Status_init (m_status n);
     b \<leftarrow> upd_status k (\<lambda>st. (Status_assign st s)\<lparr>m_dirty := True\<rparr>) b;
     b \<leftarrow> announce_loop k (solverInstances oldStatus) s b;
     u \<leftarrow> broker_computeUtilization k b;
     thisU \<leftarrow> broker_computeUtilization (handle_id b) b;
     b \<leftarrow> (if u < 3 / 2 \<and> thisU \<ge> 1 / 2
           then do { (_, b) \<leftarrow> tryToOffloadTask k b; Some b }
           else if thisU < 1 then sendStatusToPeers (thisU < 1 / 2) b
           else Some b);
     Some (broker_emit (MessageReply PARAC_OK) b) }"

fun known_remotes_loop :: "(parac_id \<times> string) list \<Rightarrow> broker \<Rightarrow> broker" where
  "known_remotes_loop [] b = b"
| "known_remotes_loop ((k, cs) # rs) b =
     known_remotes_loop rs (if store_has k b then b else broker_emit (ConnectToRemote cs) b)"

definition receiveMessageKnownRemotesFrom :: "(parac_id \<times> string) list \<Rightarrow> broker \<Rightarrow> broker" where
  "receiveMessageKnownRemotesFrom rs b = broker_emit (MessageReply PARAC_OK) (known_remotes_loop rs b)"

definition request_exit :: "parac_status \<Rightarrow> broker \<Rightarrow> broker" where
  "request_exit st b =
     broker_emit (StoreCall RequestExit) (b\<lparr>m_taskStore := (m_taskStore b)\<lparr>exit_status := st\<rparr>\<rparr>)"

definition auto_shutdown :: "parac_id \<Rightarrow> broker \<Rightarrow> broker option" where
  "auto_shutdown k b = do {
     n \<leftarrow> nodes b k;
     Some (if m_autoShutdownAfterFirstFinishedClient b
              \<and> (case m_description n of None \<Rightarrow> False | Some d \<Rightarrow> \<not> desc_daemon d)
           then request_exit PARAC_UNKNOWN b else b) }"

definition receiveMessageOfflineAnnouncement :: "parac_id \<Rightarrow> broker \<Rightarrow> broker option" where
  "receiveMessageOfflineAnnouncement k b = do {
     b \<leftarrow> auto_shutdown k b;
     Some (broker_emit (MessageReply PARAC_OK) b) }"

text \<open>
  \<^verbatim>\<open>receiveMessageTaskAbort\<close> reinterprets the address of the inline data as the parent task.
\<close>

definition receiveMessageTaskAbort ::
  "sorting \<Rightarrow> nat \<Rightarrow> task_ref \<Rightarrow> task_ref \<Rightarrow> parac_id \<Rightarrow> broker \<Rightarrow> broker option" where
  "receiveMessageTaskAbort ord fuel addr content orig b = do {
     let virtual_parent_task = Some addr;
     b \<leftarrow> run_task_store ord (abort_tasks_with_parent_and_originator fuel virtual_parent_task orig) b;
     Some (broker_emit (MessageReply PARAC_OK) b) }"

definition solver_message :: "parac_message_kind \<Rightarrow> parac_id \<Rightarrow> broker \<Rightarrow> broker option" where
  "solver_message kind orig b = do {
     c_assert (orig \<noteq> 0);
     b \<leftarrow> store_get orig b;
     n \<leftarrow> nodes b orig;
     c_assert (has_solver_instance n);
     Some (broker_emit (SolverMessage orig kind) b) }"

definition abort_connection :: "broker \<Rightarrow> broker" where
  "abort_connection b = broker_emit (MessageReply PARAC_ABORT_CONNECTION) b"

fun receiveMessageFrom :: "sorting \<Rightarrow> nat \<Rightarrow> parac_id \<Rightarrow> received \<Rightarrow> broker \<Rightarrow> broker option" where
  "receiveMessageFrom ord fuel k (RSolver kind orig) b = solver_message kind orig b"
| "receiveMessageFrom ord fuel k (RDescription (Inr d)) b = receiveMessageDescriptionFrom k d b"
| "receiveMessageFrom ord fuel k (RDescription (Inl partial)) b = do {
     b \<leftarrow> upd_node k (\<lambda>n. n\<lparr>m_description := Some partial\<rparr>) b;
     Some (abort_connection b) }"
| "receiveMessageFrom ord fuel k (RStatus (Some is)) b = receiveMessageStatusFrom ord k is b"
| "receiveMessageFrom ord fuel k (RStatus None) b = Some (abort_connection b)"
| "receiveMessageFrom ord fuel k (RTaskResult p) b =
     run_task_store ord (receiveTaskResultFromPeer fuel k p) b"
| "receiveMessageFrom ord fuel k (RNewRemotes (Some rs)) b = Some (receiveMessageKnownRemotesFrom rs b)"
| "receiveMessageFrom ord fuel k (RNewRemotes None) b = Some (abort_connection b)"
| "receiveMessageFrom ord fuel k ROffline b = receiveMessageOfflineAnnouncement k b"
| "receiveMessageFrom ord fuel k (RTaskAbort addr content orig) b =
     receiveMessageTaskAbort ord fuel addr content orig b"
| "receiveMessageFrom ord fuel k (RInvalid kind) b = Some (broker_emit (MessageReply PARAC_UNKNOWN) b)"

definition receiveFileFrom :: "parac_id \<Rightarrow> parac_id \<Rightarrow> broker \<Rightarrow> broker option" where
  "receiveFileFrom k orig b =
     (if handle_input_file b then Some b
      else do {
        b \<leftarrow> upd_status k (\<lambda>s. s\<lparr>solverInstances := upd_instance orig (\<lambda>i. i) (solverInstances s)\<rparr>) b;
        n \<leftarrow> nodes b k;
        i \<leftarrow> map_of (solverInstances (m_status n)) orig;
        if formula_received i then Some (broker_emit (FileReply PARAC_FORMULA_RECEIVED_TWICE_ERROR) b)
        else do {
          c_assert (has_solver_instance n);
          Some (broker_emit (SolverFormula k) b) } })"

text \<open>
  \<^verbatim>\<open>undoAllOffloadsTo\<close> with its calls made inside the loop, as in the source: the insertion of a
  task into the waiting queue can offload a task again.  A new element in the set under iteration
  can move its elements, so the iterator must be past its end by then.
\<close>

fun undo_all_loop :: "sorting \<Rightarrow> parac_id \<Rightarrow> task_ref list \<Rightarrow> broker \<Rightarrow> broker option" where
  "undo_all_loop ord k [] b = Some b"
| "undo_all_loop ord k (r # rs) b = do {
     b \<leftarrow> run_task_store ord (undo_one k r rs) b;
     c_assert (rs = [] \<or> offloadedTasks (m_taskStore b) k = Some rs);
     undo_all_loop ord k rs b }"

definition broker_undoAllOffloadsTo :: "sorting \<Rightarrow> parac_id \<Rightarrow> broker \<Rightarrow> broker option" where
  "broker_undoAllOffloadsTo ord k b =
     undo_all_loop ord k (case offloadedTasks (m_taskStore b) k of None \<Rightarrow> [] | Some rs \<Rightarrow> rs) b"

definition static_connectionDropped :: "sorting \<Rightarrow> nat \<Rightarrow> parac_id \<Rightarrow> broker \<Rightarrow> broker option" where
  "static_connectionDropped ord fuel k b = do {
     b \<leftarrow> broker_undoAllOffloadsTo ord k b;
     b \<leftarrow> run_task_store ord (abort_tasks_received_from fuel k) b;
     auto_shutdown k b }"

end
