(* ===== verification/ComputeNodeInv.thy ===== *)
theory ComputeNodeInv
  imports ComputeNode "HOL-Library.Multiset"
begin

text \<open>
  Properties of the compute nodes and their store: the cached work queue size, the invariants all
  operations of the broker keep, and the status messages to the peers.

  The locale \<open>broker_invariant\<close> lists what a predicate on the broker must tolerate of the basic
  updates; inside it every operation is shown to keep such a predicate.  It is interpreted for the
  well-formedness of the node containers and for the book-keeping of the status messages.
\<close>

section \<open>The cached work queue size\<close>

lemma take_bit_32_64_add: "take_bit 32 (take_bit 64 a + take_bit 64 b) = take_bit 32 (a + b :: int)"
  using take_bit_add [of 32 "take_bit 64 a" "take_bit 64 b"] take_bit_add [of 32 a b] by simp

lemma ucast_add_down: "(ucast (a + b :: u64) :: u32) = ucast a + ucast b"
  by transfer (simp add: take_bit_32_64_add)

lemma ucast_scast_id: "(ucast (scast (a :: u32) :: u64) :: u32) = a"
  by transfer (simp add: take_bit_signed_take_bit)

lemma accumulate_foldl: "foldl accumulate_step acc xs = acc + ucast (sum_list xs)"
  by (induction xs arbitrary: acc) (simp_all add: accumulate_step_def ucast_add_down ucast_scast_id)

definition total_size :: "instances \<Rightarrow> nat" where
  "total_size xs = (\<Sum>(k, i) \<leftarrow> xs. unat (workQueueSize i))"

lemma sum_list_of_nat: "sum_list (map (\<lambda>(k, i). workQueueSize i) xs) = word_of_nat (total_size xs)"
  by (induction xs) (auto simp: total_size_def)

lemma accumulate_sizes_eq: "accumulate_sizes xs = scast (word_of_nat (total_size xs) :: u32)"
proof -
  have "(ucast (word_of_nat n :: u64) :: u32) = word_of_nat n" for n
    by transfer (simp add: take_bit_of_nat)
  then show ?thesis by (simp add: accumulate_sizes_def accumulate_foldl sum_list_of_nat)
qed

lemma scast_small: "n < 2 ^ 31 \<Longrightarrow> unat (scast (word_of_nat n :: u32) :: u64) = n"
proof -
  assume n: "n < 2 ^ 31"
  have "(scast (word_of_nat n :: u32) :: u64) = word_of_nat n"
    using n by transfer (simp add: signed_take_bit_eq_if_positive  signed_take_bit_int_eq_self)
  then show ?thesis using n by (simp add: unat_of_nat)
qed

inductive status_reach :: "Status \<Rightarrow> bool" where
  fresh: "status_reach Status_init"
| incr: "status_reach s \<Longrightarrow> status_reach (incrementWorkQueueSize orig s)"
| decr: "status_reach s \<Longrightarrow> status_reach (decrementWorkQueueSize orig s)"
| parsed: "status_reach s \<Longrightarrow> status_reach (set_formulaParsed orig s)"
| access: "status_reach s \<Longrightarrow> status_reach (s\<lparr>solverInstances := upd_instance k (\<lambda>i. i) (solverInstances s)\<rparr>)"
| assign: "status_reach s \<Longrightarrow> status_reach (Status_assign s s')"
| copy: "status_reach (Status_copy s)"
| workers: "status_reach s \<Longrightarrow> status_reach (insertWorkerCount n s)"
| read_size: "status_reach s \<Longrightarrow> status_reach (snd (Status_workQueueSize s))"
| serialized: "status_reach s \<Longrightarrow> status_reach (snd (Status_serializeToMessage s))"

definition cache_ok :: "Status \<Rightarrow> bool" where
  "cache_ok s \<longleftrightarrow> m_dirty s \<or> m_cachedWorkQueueSize s = accumulate_sizes (solverInstances s)"

lemma total_size_access: "total_size (upd_instance k (\<lambda>i. i) xs) = total_size xs"
  by (induction k "\<lambda>i::SolverInstance. i" xs rule: upd_instance.induct)
     (simp_all add: total_size_def SolverInstance_init_def)

lemma cache_ok_read [simp]: "cache_ok s \<Longrightarrow> fst (Status_workQueueSize s) = accumulate_sizes (solverInstances s)"
  by (auto simp: cache_ok_def Status_workQueueSize_def)

lemma cache_ok_after_read: "cache_ok s \<Longrightarrow> cache_ok (snd (Status_workQueueSize s))"
  by (auto simp: cache_ok_def Status_workQueueSize_def)

lemma status_reach_cache: "status_reach s \<Longrightarrow> cache_ok s"
proof (induction rule: status_reach.induct)
  case (access s k)
  then show ?case by (simp add: cache_ok_def accumulate_sizes_eq total_size_access)
next
  case (read_size s)
  then show ?case by (simp add: cache_ok_after_read)
next
  case (serialized s)
  then show ?case
    by (auto simp: Status_serializeToMessage_def Let_def Status_workQueueSize_def cache_ok_def
        split: option.splits)
qed (auto simp: Status_init_def incrementWorkQueueSize_def decrementWorkQueueSize_def
    set_formulaParsed_def Status_assign_def Status_copy_def insertWorkerCount_def cache_ok_def)

text \<open>
  C29 (the cached work queue size).  Whatever sequence of increments, decrements, assignments,
  accesses, reads and serialisations led to a status, the cached size that is returned is the sum
  of the work queue sizes of its solver instances, truncated to 32 bits with its sign: it is the
  exact sum as long as that is below $2^{31}$.
\<close>

theorem workQueueSize_cached:
  assumes "status_reach s"
  shows "fst (Status_workQueueSize s) = scast (word_of_nat (total_size (solverInstances s)) :: u32)
    \<and> (total_size (solverInstances s) < 2 ^ 31 \<longrightarrow>
         unat (fst (Status_workQueueSize s)) = total_size (solverInstances s))
    \<and> fst (Status_workQueueSize (snd (Status_workQueueSize s))) = fst (Status_workQueueSize s)"
proof -
  have c: "cache_ok s" using assms by (rule status_reach_cache)
  then have "fst (Status_workQueueSize s) = scast (word_of_nat (total_size (solverInstances s)) :: u32)"
    by (simp add: accumulate_sizes_eq)
  moreover have "fst (Status_workQueueSize (snd (Status_workQueueSize s))) = fst (Status_workQueueSize s)"
    by (simp add: Status_workQueueSize_def)
  ultimately show ?thesis by (simp add: scast_small)
qed

theorem workQueueSize_cached_witness:
  "unat (fst (Status_workQueueSize (incrementWorkQueueSize 3 (snd (Status_workQueueSize
     (incrementWorkQueueSize 4 Status_init)))))) = 2"
proof -
  let ?s = "incrementWorkQueueSize 3 (snd (Status_workQueueSize (incrementWorkQueueSize 4 Status_init)))"
  have r: "status_reach ?s" by (intro status_reach.intros)
  have t: "total_size (solverInstances ?s) = 2"
    by (simp add: total_size_def incrementWorkQueueSize_def Status_workQueueSize_def Status_init_def
        SolverInstance_init_def)
  show ?thesis using workQueueSize_cached [OF r] t by simp
qed

section \<open>Invariants of the broker\<close>

text \<open>
  The changes of a node that no invariant of the broker is about: the connection and the status
  the peer was told stay, a description is never withdrawn.
\<close>

definition benign :: "compute_node \<Rightarrow> compute_node \<Rightarrow> bool" where
  "benign n n' \<longleftrightarrow> (has_send_message_to n \<longrightarrow> has_send_message_to n')
     \<and> (node_available_to_send_to n' \<longrightarrow> node_available_to_send_to n \<or> has_send_message_to n')
     \<and> m_sendingStatusTo n' = m_sendingStatusTo n
     \<and> m_remotelyKnownLocalStatus n' = m_remotelyKnownLocalStatus n
     \<and> (m_description n \<noteq> None \<longrightarrow> m_description n' \<noteq> None)"

text \<open>What \<^verbatim>\<open>std::sort\<close> promises.\<close>

locale sort_function =
  fixes ord :: sorting
  assumes sort_permutes: "mset (ord v) = mset v"
    and sort_sorted: "sorted (map snd (ord v))"

interpretation sort_by_utilization: sort_function "sort_key snd"
  by unfold_locales simp_all

fun is_status_message :: "broker_event \<Rightarrow> bool" where
  "is_status_message (SendMessage k (NodeStatus bytes)) = True"
| "is_status_message _ = False"

lemma opt_list_length: "opt_list xs = Some ys \<Longrightarrow> length ys = length xs"
  by (induction xs arbitrary: ys) (auto simp: bind_eq_Some_conv)

locale broker_invariant =
  fixes P :: "broker \<Rightarrow> bool"
  assumes emit_inv: "P b \<Longrightarrow> \<not> is_status_message e \<Longrightarrow> P (broker_emit e b)"
    and node_inv: "P b \<Longrightarrow> nodes b k = Some n \<Longrightarrow> benign n n' \<Longrightarrow> P (b\<lparr>nodes := (nodes b)(k \<mapsto> n')\<rparr>)"
    and create_inv: "P b \<Longrightarrow> store_create k b = Some b' \<Longrightarrow> P b'"
    and taskstore_inv: "P b \<Longrightarrow> P (b\<lparr>m_taskStore := ts\<rparr>)"
    and vec_inv: "P b \<Longrightarrow> mset (map fst v) = mset (map fst (nodesRefVec b)) \<Longrightarrow> P (b\<lparr>nodesRefVec := v\<rparr>)"
    and status_inv: "P b \<Longrightarrow> conditionallySendStatusTo k s b = Some b' \<Longrightarrow> P b'"
begin

lemma upd_node_inv:
  "P b \<Longrightarrow> upd_node k f b = Some b' \<Longrightarrow> (\<And>n. benign n (f n)) \<Longrightarrow> P b'"
  by (auto simp: upd_node_def bind_eq_Some_conv intro: node_inv)

lemma upd_status_inv: "P b \<Longrightarrow> upd_status k f b = Some b' \<Longrightarrow> P b'"
  unfolding upd_status_def by (erule upd_node_inv) (auto simp: benign_def)

lemma send_message_inv: "P b \<Longrightarrow> send_message_to k m b = Some b' \<Longrightarrow> (\<And>x. m \<noteq> NodeStatus x) \<Longrightarrow> P b'"
  by (cases m) (auto simp: send_message_to_def bind_eq_Some_conv intro: emit_inv)

lemma get_inv: "P b \<Longrightarrow> store_get k b = Some b' \<Longrightarrow> P b'"
  by (auto simp: store_get_def intro: create_inv split: if_splits)

lemma send_status_loop_inv: "P b \<Longrightarrow> send_status_loop ks b = Some b' \<Longrightarrow> P b'"
  by (induction ks arbitrary: b) (auto simp: bind_eq_Some_conv intro: status_inv split: if_splits)

lemma sendStatusToPeers_inv: "P b \<Longrightarrow> sendStatusToPeers i b = Some b' \<Longrightarrow> P b'"
  by (auto simp: sendStatusToPeers_def intro: send_status_loop_inv split: if_splits)

lemma offline_loop_inv: "P b \<Longrightarrow> offline_loop ks b = Some b' \<Longrightarrow> P b'"
  by (induction ks arbitrary: b) (auto simp: bind_eq_Some_conv intro: send_message_inv split: if_splits)

lemma decrement_inv: "P b \<Longrightarrow> decrementThisNodeWorkQueueSize o1 b = Some b' \<Longrightarrow> P b'"
  by (auto simp: decrementThisNodeWorkQueueSize_def bind_eq_Some_conv
      intro: upd_status_inv sendStatusToPeers_inv split: if_splits)

lemma handle_calls_inv:
  "P b \<Longrightarrow> handle_calls h cs b = Some b' \<Longrightarrow>
   (\<And>c b b'. P b \<Longrightarrow> h c b = Some b' \<Longrightarrow> P b') \<Longrightarrow> P b'"
  by (induction cs arbitrary: b) (auto simp: bind_eq_Some_conv)

lemma with_task_store_inv:
  assumes "P b" "with_task_store h f b = Some (r, b')"
    "\<And>c b b'. P b \<Longrightarrow> h c b = Some b' \<Longrightarrow> P b'"
  shows "P b'"
  using assms(2) handle_calls_inv [OF taskstore_inv [OF assms(1)] _ assms(3)]
  by (auto simp: with_task_store_def bind_eq_Some_conv)

lemma offload_call_inv: "P b \<Longrightarrow> offload_call c b = Some b' \<Longrightarrow> P b'"
  by (cases c) (auto intro: decrement_inv emit_inv)

lemma tryToOffloadTask_inv: "P b \<Longrightarrow> tryToOffloadTask k b = Some (r, b') \<Longrightarrow> P b'"
  by (auto simp: tryToOffloadTask_def bind_eq_Some_conv dest!: upd_status_inv [rotated]
      status_inv [rotated] send_message_inv [rotated] with_task_store_inv [OF _ _ offload_call_inv, rotated]
      split: option.splits if_splits prod.splits)

lemma offload_loop_inv: "P b \<Longrightarrow> offload_loop u q es b = Some b' \<Longrightarrow> P b'"
proof (induction u q es b rule: offload_loop.induct)
  case (2 u q k v es b)
  then show ?case
    by (auto simp: bind_eq_Some_conv Let_def dest: tryToOffloadTask_inv split: if_splits prod.splits)
qed simp


lemma updateNodesRefVecUtilization_inv: "P b \<Longrightarrow> updateNodesRefVecUtilization b = Some b' \<Longrightarrow> P b'"
  by (auto simp: updateNodesRefVecUtilization_def bind_eq_Some_conv dest: opt_list_length intro!: vec_inv)

lemma tryOffloadingTasks_inv:
  assumes "sort_function ord" "P b" "tryOffloadingTasks ord b = Some b'"
  shows "P b'"
proof (cases "nodesMutexFree b")
  case True
  with assms(3) obtain c this1 where c: "updateNodesRefVecUtilization b = Some c"
    and l: "offload_loop (node_computeUtilization this1) (fst (Status_workQueueSize (m_status this1)))
      (ord (nodesRefVec c)) (c\<lparr>nodesRefVec := ord (nodesRefVec c)\<rparr>) = Some b'"
    by (auto simp: tryOffloadingTasks_def bind_eq_Some_conv Let_def)
  have "P (c\<lparr>nodesRefVec := ord (nodesRefVec c)\<rparr>)"
    using updateNodesRefVecUtilization_inv [OF assms(2) c]
    by (rule vec_inv) (simp add: sort_function.sort_permutes [OF assms(1)])
  then show ?thesis using l by (rule offload_loop_inv)
qed (use assms in \<open>simp add: tryOffloadingTasks_def\<close>)

lemma increment_inv:
  assumes "sort_function ord" "P b" "incrementThisNodeWorkQueueSize ord o1 b = Some b'"
  shows "P b'"
  using assms(2,3)
  by (auto simp: incrementThisNodeWorkQueueSize_def bind_eq_Some_conv dest!: upd_status_inv [rotated]
      sendStatusToPeers_inv [rotated] tryOffloadingTasks_inv [OF assms(1), rotated] split: if_splits)

lemma run_parsing_cb_inv: "P b \<Longrightarrow> run_parsing_cb cb b = Some b' \<Longrightarrow> P b'"
  by (auto simp: run_parsing_cb_def bind_eq_Some_conv intro!: emit_inv dest: get_inv)

lemma run_parsing_cbs_inv: "P b \<Longrightarrow> run_parsing_cbs cbs b = Some b' \<Longrightarrow> P b'"
  by (induction cbs arbitrary: b) (auto simp: bind_eq_Some_conv intro: run_parsing_cb_inv)

lemma node_formulaParsed_inv: "P b \<Longrightarrow> node_formulaParsed k o1 b = Some b' \<Longrightarrow> P b'"
  by (auto simp: node_formulaParsed_def bind_eq_Some_conv benign_def dest!: upd_status_inv [rotated]
      run_parsing_cbs_inv [rotated] upd_node_inv [rotated] split: option.splits)

lemma store_formulaParsed_inv: "P b \<Longrightarrow> store_formulaParsed o1 b = Some b' \<Longrightarrow> P b'"
  by (auto simp: store_formulaParsed_def bind_eq_Some_conv intro: node_formulaParsed_inv sendStatusToPeers_inv)

lemma runCB_test_inv: "P b \<Longrightarrow> runCB_test k cb o1 b = Some (r, b') \<Longrightarrow> P b'"
  by (auto simp: runCB_test_def bind_eq_Some_conv intro: run_parsing_cb_inv split: if_splits)

lemma runCB_inv: "P b \<Longrightarrow> runCBAfterParsingOfFormulaIsDone k cb o1 b = Some b' \<Longrightarrow> P b'"
  by (auto simp: runCBAfterParsingOfFormulaIsDone_def runCB_enqueue_def bind_eq_Some_conv benign_def
      dest!: runCB_test_inv [rotated] upd_node_inv [rotated] split: if_splits prod.splits)

lemma store_call_handler_inv:
  "sort_function ord \<Longrightarrow> P b \<Longrightarrow> store_call_handler ord c b = Some b' \<Longrightarrow> P b'"
  by (cases c) (auto intro: increment_inv decrement_inv store_formulaParsed_inv emit_inv)

lemma run_task_store_inv:
  assumes "sort_function ord" "P b" "run_task_store ord f b = Some b'"
  shows "P b'"
  using assms(3) with_task_store_inv [OF assms(2) _ store_call_handler_inv [OF assms(1)]]
  by (auto simp: run_task_store_def bind_eq_Some_conv)

lemma offload_message_cb_inv:
  assumes "sort_function ord" "P b" "offload_message_cb ord r st b = Some b'"
  shows "P b'"
  using assms(2,3)
  by (auto simp: offload_message_cb_def bind_eq_Some_conv dest!: upd_status_inv [rotated]
      run_task_store_inv [OF assms(1), rotated] split: if_splits option.splits)

lemma doNotify_inv: "P b \<Longrightarrow> doNotifyOfNewRemotes k b = Some b' \<Longrightarrow> P b'"
  by (auto simp: doNotifyOfNewRemotes_def bind_eq_Some_conv Let_def benign_def
      dest!: upd_node_inv [rotated] send_message_inv [rotated] split: if_splits)

lemma known_remotes_cb_inv: "P b \<Longrightarrow> known_remotes_cb k st b = Some b' \<Longrightarrow> P b'"
  by (auto simp: known_remotes_cb_def benign_def dest!: upd_node_inv [rotated] split: if_splits)

lemma notify_inv: "P b \<Longrightarrow> notifyOfNewRemote k j b = Some b' \<Longrightarrow> P b'"
  by (auto simp: notifyOfNewRemote_def bind_eq_Some_conv benign_def dest!: upd_node_inv [rotated]
      doNotify_inv [rotated])

lemma sendKnownRemotes_inv: "P b \<Longrightarrow> sendKnownRemotes k b = Some b' \<Longrightarrow> P b'"
  by (auto simp: sendKnownRemotes_def bind_eq_Some_conv benign_def dest!: upd_node_inv [rotated]
      doNotify_inv [rotated])

lemma create_with_connection_inv: "P b \<Longrightarrow> create_with_connection k a b = Some b' \<Longrightarrow> P b'"
  by (auto simp: create_with_connection_def bind_eq_Some_conv benign_def dest!: upd_node_inv [rotated]
      get_inv [rotated] send_message_inv [rotated])

lemma emit_reply_inv: "P b \<Longrightarrow> P (broker_emit (MessageReply st) b)"
  by (rule emit_inv) simp_all

lemma emit_instance_inv: "P b \<Longrightarrow> P (broker_emit (AddSolverInstance k) b)"
  by (rule emit_inv) simp_all

lemma description_inv: "P b \<Longrightarrow> receiveMessageDescriptionFrom k d b = Some b' \<Longrightarrow> P b'"
  by (auto simp: receiveMessageDescriptionFrom_def bind_eq_Some_conv Let_def benign_def
      dest!: upd_node_inv [rotated] sendKnownRemotes_inv [rotated] upd_status_inv [rotated]
        send_message_inv [rotated] intro: emit_reply_inv emit_instance_inv split: if_splits)

lemma announce_loop_inv: "P b \<Longrightarrow> announce_loop k is s b = Some b' \<Longrightarrow> P b'"
  by (induction k "is" s b rule: announce_loop.induct)
     (auto simp: bind_eq_Some_conv intro: runCB_inv split: if_splits)

lemma receive_status_inv:
  "P b \<Longrightarrow> receiveMessageStatusFrom ord k is b = Some b' \<Longrightarrow> P b'"
  by (auto simp: receiveMessageStatusFrom_def bind_eq_Some_conv Let_def intro!: emit_inv
      dest!: upd_status_inv [rotated] announce_loop_inv [rotated] tryToOffloadTask_inv [rotated]
        sendStatusToPeers_inv [rotated] split: if_splits)

lemma known_remotes_loop_inv: "P b \<Longrightarrow> P (known_remotes_loop rs b)"
  by (induction rs b rule: known_remotes_loop.induct) (auto simp: emit_inv)

lemma auto_shutdown_inv: "P b \<Longrightarrow> auto_shutdown k b = Some b' \<Longrightarrow> P b'"
  by (auto simp: auto_shutdown_def request_exit_def bind_eq_Some_conv
      intro!: emit_inv taskstore_inv split: if_splits)

lemma receiveMessageFrom_inv:
  assumes "sort_function ord" "P b" "receiveMessageFrom ord fuel k m b = Some b'"
  shows "P b'"
  using assms(3,2)
proof (cases rule: receiveMessageFrom.cases [of "(ord, fuel, k, m, b)"])
qed (auto simp: solver_message_def receiveMessageKnownRemotesFrom_def abort_connection_def benign_def
      receiveMessageOfflineAnnouncement_def receiveMessageTaskAbort_def bind_eq_Some_conv Let_def
      intro!: emit_inv known_remotes_loop_inv
      dest: description_inv receive_status_inv run_task_store_inv [OF assms(1)] auto_shutdown_inv
        get_inv upd_node_inv)

lemma receiveFileFrom_inv: "P b \<Longrightarrow> receiveFileFrom k o1 b = Some b' \<Longrightarrow> P b'"
  by (auto simp: receiveFileFrom_def bind_eq_Some_conv intro!: emit_inv dest!: upd_status_inv [rotated]
      split: if_splits)

lemma undo_all_loop_inv:
  "sort_function ord \<Longrightarrow> P b \<Longrightarrow> undo_all_loop ord k rs b = Some b' \<Longrightarrow> P b'"
  by (induction rs arbitrary: b) (auto simp: bind_eq_Some_conv intro: run_task_store_inv)

lemma connectionDropped_inv:
  assumes "sort_function ord" "P b" "static_connectionDropped ord fuel k b = Some b'"
  shows "P b'"
  using assms(2,3)
  by (auto simp: static_connectionDropped_def broker_undoAllOffloadsTo_def bind_eq_Some_conv
      dest!: undo_all_loop_inv [OF assms(1), rotated] run_task_store_inv [OF assms(1), rotated]
        auto_shutdown_inv [rotated])

end

section \<open>Reachable brokers\<close>

inductive broker_step :: "sorting \<Rightarrow> broker \<Rightarrow> broker \<Rightarrow> bool" for ord where
  connect: "create_with_connection k a b = Some b' \<Longrightarrow> broker_step ord b b'"
| connection: "nodes b k = Some n \<Longrightarrow> a \<longrightarrow> has_send_message_to n \<Longrightarrow>
    broker_step ord b (b\<lparr>nodes := (nodes b)(k \<mapsto> n\<lparr>node_available_to_send_to := a, connection_string := cs\<rparr>)\<rparr>)"
| mutex: "broker_step ord b (b\<lparr>nodesMutexFree := free\<rparr>)"
| solver: "nodes b k = Some n \<Longrightarrow> broker_step ord b (b\<lparr>nodes := (nodes b)(k \<mapsto> n\<lparr>has_solver_instance := True\<rparr>)\<rparr>)"
| task_store: "run_task_store ord f b = Some b' \<Longrightarrow> broker_step ord b b'"
| offload_cb: "offload_message_cb ord r st b = Some b' \<Longrightarrow> broker_step ord b b'"
| remotes_cb: "known_remotes_cb k st b = Some b' \<Longrightarrow> broker_step ord b b'"
| config_cb: "solver_config_cb k st b = Some b' \<Longrightarrow> broker_step ord b b'"
| receive: "receiveMessageFrom ord fuel k m b = Some b' \<Longrightarrow> broker_step ord b b'"
| receive_file: "receiveFileFrom k o1 b = Some b' \<Longrightarrow> broker_step ord b b'"
| dropped: "static_connectionDropped ord fuel k b = Some b' \<Longrightarrow> broker_step ord b b'"
| offline: "sendOfflineAnnouncementToPeers b = Some b' \<Longrightarrow> broker_step ord b b'"
| status: "sendStatusToPeers i b = Some b' \<Longrightarrow> broker_step ord b b'"
| notify: "notifyOfNewRemote k j b = Some b' \<Longrightarrow> broker_step ord b b'"

text \<open>
  The second component counts, for every node, the status messages whose callback was told
  \<^verbatim>\<open>PARAC_TO_BE_DELETED\<close>, which happens once per message.
\<close>

definition status_sent :: "parac_id \<Rightarrow> broker \<Rightarrow> instances list" where
  "status_sent k b = [bytes. SendMessage j (NodeStatus bytes) \<leftarrow> broker_out b, j = k]"

inductive broker_reachable :: "sorting \<Rightarrow> broker \<Rightarrow> (parac_id \<Rightarrow> nat) \<Rightarrow> bool" for ord where
  start: "ComputeNodeStore_init b0 = Some b \<Longrightarrow> broker_out b0 = [] \<Longrightarrow> broker_reachable ord b (\<lambda>_. 0)"
| step: "broker_reachable ord b d \<Longrightarrow> broker_step ord b b' \<Longrightarrow> broker_reachable ord b' d"
| status_deleted: "broker_reachable ord b d \<Longrightarrow> d k < length (status_sent k b) \<Longrightarrow>
    status_message_cb k PARAC_TO_BE_DELETED b = Some b' \<Longrightarrow> broker_reachable ord b' (d(k := Suc (d k)))"

definition broker_wf :: "broker \<Rightarrow> bool" where
  "broker_wf b \<longleftrightarrow> distinct (nodesList b) \<and> set (nodesList b) = dom (nodes b)
     \<and> mset (map fst (nodesRefVec b)) = mset (nodesList b)
     \<and> (\<exists>n. thisNode b = Some n \<and> m_description n \<noteq> None)
     \<and> (\<forall>k n. nodes b k = Some n \<longrightarrow> node_available_to_send_to n \<longrightarrow> has_send_message_to n)"

definition status_link :: "nat \<Rightarrow> parac_id \<Rightarrow> broker \<Rightarrow> bool" where
  "status_link d k b \<longleftrightarrow> (case nodes b k of
       None \<Rightarrow> status_sent k b = [] \<and> d = 0
     | Some n \<Rightarrow> length (status_sent k b) = d + of_bool (m_sendingStatusTo n)
         \<and> (case m_remotelyKnownLocalStatus n of
              None \<Rightarrow> status_sent k b = []
            | Some s \<Rightarrow> status_sent k b \<noteq> []
                \<and> last (status_sent k b) = archived_instances (solverInstances s)
                \<and> m_statusStream s = Some (last (status_sent k b))))"

lemma wf_update:
  assumes "broker_wf b" "nodes b k = Some n" "m_description n \<noteq> None \<longrightarrow> m_description n' \<noteq> None"
    "node_available_to_send_to n' \<longrightarrow> node_available_to_send_to n \<or> has_send_message_to n'"
    "has_send_message_to n \<longrightarrow> has_send_message_to n'"
  shows "broker_wf (b\<lparr>nodes := (nodes b)(k \<mapsto> n')\<rparr>)"
  using assms by (auto simp: broker_wf_def thisNode_def)

lemma wf_emit: "broker_wf b \<Longrightarrow> broker_wf (broker_emit e b)"
  by (simp add: broker_wf_def broker_emit_def thisNode_def)

lemma instance_eq_iff:
  "(\<lambda>(k1, i1) (k2, i2). k1 = k2 \<and> formula_received i1 = formula_received i2
     \<and> formula_parsed i1 = formula_parsed i2 \<and> workQueueSize i1 = workQueueSize i2)
   = ((=) :: parac_id \<times> SolverInstance \<Rightarrow> _)"
proof (intro ext, clarify)
  fix k1 k2 :: parac_id and i1 i2 :: SolverInstance
  show "(k1 = k2 \<and> formula_received i1 = formula_received i2 \<and> formula_parsed i1 = formula_parsed i2
     \<and> workQueueSize i1 = workQueueSize i2) = ((k1, i1) = (k2, i2))"
    by (cases i1; cases i2) simp
qed

lemma Status_eq_iff: "Status_eq s1 s2 \<longleftrightarrow> solverInstances s1 = solverInstances s2"
  unfolding Status_eq_def instance_eq_iff list.rel_eq by auto

lemma isDiffWorthwhile_iff: "isDiffWorthwhile s1 s2 \<longleftrightarrow> solverInstances s1 \<noteq> solverInstances s2"
  by (simp add: isDiffWorthwhile_def Status_eq_iff)

text \<open>\<open>conditionallySendStatusTo\<close> either changes nothing or sends the status it is given.\<close>

lemma conditionallySend_cases:
  assumes "conditionallySendStatusTo k s b = Some b'"
  obtains (kept) n where "nodes b k = Some n" "b' = b"
      "\<not> node_available_to_send_to n \<or> m_sendingStatusTo n
        \<or> (\<exists>s'. m_remotelyKnownLocalStatus n = Some s' \<and> solverInstances s' = solverInstances s)"
  | (sent) n known where "nodes b k = Some n" "node_available_to_send_to n" "\<not> m_sendingStatusTo n"
      "has_send_message_to n"
      "solverInstances known = solverInstances s"
      "m_statusStream known = Some (archived_instances (solverInstances s))"
      "b' = broker_emit (SendMessage k (NodeStatus (archived_instances (solverInstances s))))
         (b\<lparr>nodes := (nodes b)(k \<mapsto> n\<lparr>m_sendingStatusTo := True, m_remotelyKnownLocalStatus := Some known\<rparr>)\<rparr>)"
proof -
  from assms obtain n where n: "nodes b k = Some n" by (auto simp: conditionallySendStatusTo_def bind_eq_Some_conv)
  let ?skip = "\<not> node_available_to_send_to n \<or> m_sendingStatusTo n
        \<or> (\<exists>s'. m_remotelyKnownLocalStatus n = Some s' \<and> solverInstances s' = solverInstances s)"
  show thesis
  proof (cases ?skip)
    case True
    with assms n kept show ?thesis
      by (auto simp: conditionallySendStatusTo_def isDiffWorthwhile_iff split: if_splits)
  next
    case False
    let ?pre = "case m_remotelyKnownLocalStatus n of Some known \<Rightarrow> Status_assign known s | None \<Rightarrow> Status_copy s"
    let ?known = "snd (Status_serializeToMessage ?pre)"
    have dirty: "m_dirty ?pre" "solverInstances ?pre = solverInstances s"
      by (auto simp: Status_assign_def Status_copy_def Status_init_def split: option.splits)
    then have k: "fst (Status_serializeToMessage ?pre) = archived_instances (solverInstances s)"
      "solverInstances ?known = solverInstances s"
      "m_statusStream ?known = Some (archived_instances (solverInstances s))"
      by (auto simp: Status_serializeToMessage_def Let_def Status_workQueueSize_def split: option.splits)
    from assms n False k have
      "has_send_message_to n"
      "b' = broker_emit (SendMessage k (NodeStatus (archived_instances (solverInstances s))))
         (b\<lparr>nodes := (nodes b)(k \<mapsto> n\<lparr>m_sendingStatusTo := True, m_remotelyKnownLocalStatus := Some ?known\<rparr>)\<rparr>)"
      by (auto simp: conditionallySendStatusTo_def isDiffWorthwhile_iff upd_node_def send_message_to_def
          Let_def bind_eq_Some_conv case_prod_beta split: if_splits option.splits)
    with sent n False k show ?thesis by blast
  qed
qed

lemma status_sent_emit [simp]:
  "status_sent k (broker_emit (SendMessage j (NodeStatus x)) b) = status_sent k b @ (if j = k then [x] else [])"
  "\<not> is_status_message e \<Longrightarrow> status_sent k (broker_emit e b) = status_sent k b"
  by (auto simp: status_sent_def broker_emit_def split: broker_event.splits broker_msg.splits)

lemma status_sent_upd [simp]:
  "status_sent k (b\<lparr>nodes := ns\<rparr>) = status_sent k b"
  "status_sent k (b\<lparr>m_taskStore := ts\<rparr>) = status_sent k b"
  "status_sent k (b\<lparr>nodesRefVec := v\<rparr>) = status_sent k b"
  "status_sent k (b\<lparr>nodesList := l\<rparr>) = status_sent k b"
  "status_sent k (b\<lparr>nodesMutexFree := x\<rparr>) = status_sent k b"
  by (simp_all add: status_sent_def)

lemma nodes_emit [simp]: "nodes (broker_emit e b) = nodes b" "handle_id (broker_emit e b) = handle_id b"
  by (simp_all add: broker_emit_def)

interpretation wf: broker_invariant broker_wf
proof unfold_locales
  fix b b' k s assume "broker_wf b" "conditionallySendStatusTo k s b = Some b'"
  then show "broker_wf b'"
    by (cases rule: conditionallySend_cases [OF \<open>conditionallySendStatusTo k s b = Some b'\<close>])
       (auto intro!: wf_emit wf_update)
next
  fix b b' k assume "broker_wf b" "store_create k b = Some b'"
  then show "broker_wf b'"
    by (auto simp: broker_wf_def store_create_def store_has_def ComputeNode_init_def thisNode_def
        split: if_splits)
qed (auto simp: benign_def intro: wf_emit wf_update, auto simp: broker_wf_def thisNode_def)

lemma status_link_cong:
  "nodes b' k = nodes b k \<Longrightarrow> status_sent k b' = status_sent k b \<Longrightarrow> status_link d k b' = status_link d k b"
  by (simp only: status_link_def)

interpretation link: broker_invariant "status_link d k" for d k
proof unfold_locales
  fix b b' j s assume l: "status_link d k b" and c: "conditionallySendStatusTo j s b = Some b'"
  from c show "status_link d k b'"
  proof (cases rule: conditionallySend_cases)
    case (sent n known)
    with l show ?thesis by (auto simp: status_link_def split: option.splits)
  qed (use l in simp)
next
  fix b b' j assume l: "status_link d k b" and c: "store_create j b = Some b'"
  then have j: "nodes b j = None" and b': "nodes b' = (nodes b)(j \<mapsto> ComputeNode_init)"
    "status_sent k b' = status_sent k b"
    by (auto simp: store_create_def store_has_def)
  show "status_link d k b'"
  proof (cases "j = k")
    case True
    with l j b' show ?thesis by (simp add: status_link_def ComputeNode_init_def)
  next
    case False
    with b' have "status_link d k b' = status_link d k b" by (intro status_link_cong) simp_all
    with l show ?thesis by simp
  qed
next
  fix b j n n' assume l: "status_link d k b" and j: "nodes b j = Some n" "benign n n'"
  show "status_link d k (b\<lparr>nodes := (nodes b)(j \<mapsto> n')\<rparr>)"
  proof (cases "j = k")
    case True
    with l j show ?thesis by (simp add: status_link_def benign_def split: option.splits)
  next
    case False
    then have "status_link d k (b\<lparr>nodes := (nodes b)(j \<mapsto> n')\<rparr>) = status_link d k b"
      by (intro status_link_cong) simp_all
    with l show ?thesis by simp
  qed
qed (erule iffD2 [OF status_link_cong, rotated 2]; simp)+

lemma broker_step_inv:
  assumes inv: "broker_invariant P" and ord: "sort_function ord" and P: "P b" and step: "broker_step ord b b'"
    and mutex: "\<And>b free. P b \<Longrightarrow> P (b\<lparr>nodesMutexFree := free\<rparr>)"
  shows "P b'"
  using step
proof (cases rule: broker_step.cases)
  case (connection k n a cs)
  then show ?thesis
    using broker_invariant.node_inv [OF inv P, of k n] by (auto simp: benign_def)
next
  case (solver k n)
  then show ?thesis using broker_invariant.node_inv [OF inv P, of k n] by (auto simp: benign_def)
next
  case (config_cb k st)
  then show ?thesis
    using broker_invariant.emit_inv [OF inv P] P
    by (auto simp: solver_config_cb_def bind_eq_Some_conv split: if_splits)
qed (use P ord mutex in \<open>auto simp: sendOfflineAnnouncementToPeers_def
      intro: broker_invariant.create_with_connection_inv [OF inv]
      broker_invariant.run_task_store_inv [OF inv] broker_invariant.offload_message_cb_inv [OF inv]
      broker_invariant.known_remotes_cb_inv [OF inv] broker_invariant.receiveMessageFrom_inv [OF inv]
      broker_invariant.receiveFileFrom_inv [OF inv] broker_invariant.connectionDropped_inv [OF inv]
      broker_invariant.offline_loop_inv [OF inv] broker_invariant.sendStatusToPeers_inv [OF inv]
      broker_invariant.notify_inv [OF inv]\<close>)

text \<open>The deletion callback: the flag is cleared, then a status that differs is sent.\<close>

lemma status_message_cb_cases:
  assumes "status_message_cb k PARAC_TO_BE_DELETED b = Some b'"
  obtains this1 n where "thisNode b = Some this1" "nodes b k = Some n"
    "(case m_remotelyKnownLocalStatus n of
        Some known \<Rightarrow> if solverInstances known = solverInstances (m_status this1)
          then b' = b\<lparr>nodes := (nodes b)(k \<mapsto> n\<lparr>m_sendingStatusTo := False\<rparr>)\<rparr>
          else conditionallySendStatusTo k (Status_assign Status_init (m_status this1))
             (b\<lparr>nodes := (nodes b)(k \<mapsto> n\<lparr>m_sendingStatusTo := False\<rparr>)\<rparr>) = Some b'
      | None \<Rightarrow> b' = b\<lparr>nodes := (nodes b)(k \<mapsto> n\<lparr>m_sendingStatusTo := False\<rparr>)\<rparr>)"
proof -
  from assms obtain this1 n where n: "thisNode b = Some this1" "nodes b k = Some n"
    by (auto simp: status_message_cb_def bind_eq_Some_conv Let_def)
  have i: "solverInstances (Status_assign Status_init st) = solverInstances st" for st
    by (simp add: Status_assign_def)
  show thesis
    by (rule that [OF n], use assms n in \<open>cases "m_remotelyKnownLocalStatus n"\<close>)
       (simp_all add: status_message_cb_def upd_node_def isDiffWorthwhile_iff i split: if_splits)
qed

lemma status_cb_wf: "broker_wf b \<Longrightarrow> status_message_cb k PARAC_TO_BE_DELETED b = Some b' \<Longrightarrow> broker_wf b'"
  by (erule status_message_cb_cases)
     (auto intro: wf_update dest!: wf.status_inv [rotated] split: option.splits if_splits)

lemma status_cb_link:
  assumes l: "status_link d j b" and c: "status_message_cb k PARAC_TO_BE_DELETED b = Some b'"
    and "j = k \<longrightarrow> d < length (status_sent k b)"
  shows "status_link (if j = k then Suc d else d) j b'"
proof -
  obtain this1 n where n: "thisNode b = Some this1" "nodes b k = Some n"
    and c: "(case m_remotelyKnownLocalStatus n of
        Some known \<Rightarrow> if solverInstances known = solverInstances (m_status this1)
          then b' = b\<lparr>nodes := (nodes b)(k \<mapsto> n\<lparr>m_sendingStatusTo := False\<rparr>)\<rparr>
          else conditionallySendStatusTo k (Status_assign Status_init (m_status this1))
             (b\<lparr>nodes := (nodes b)(k \<mapsto> n\<lparr>m_sendingStatusTo := False\<rparr>)\<rparr>) = Some b'
      | None \<Rightarrow> b' = b\<lparr>nodes := (nodes b)(k \<mapsto> n\<lparr>m_sendingStatusTo := False\<rparr>)\<rparr>)"
    using c by (rule status_message_cb_cases)
  have "status_link (if j = k then Suc d else d) j (b\<lparr>nodes := (nodes b)(k \<mapsto> n\<lparr>m_sendingStatusTo := False\<rparr>)\<rparr>)"
    using l n(2) assms(3) by (auto simp: status_link_def split: option.splits)
  with c show ?thesis by (auto intro: link.status_inv split: option.splits if_splits)
qed

lemma init_facts:
  assumes "ComputeNodeStore_init b0 = Some b" "broker_out b0 = []"
  shows "broker_wf b" and "status_link 0 k b"
  using assms
  by (auto simp: ComputeNodeStore_init_def store_get_def store_has_def store_create_def bind_eq_Some_conv
      updateThisNodeDescription_def upd_node_def initDescription_def ComputeNode_init_def broker_wf_def
      thisNode_def status_link_def status_sent_def split: if_splits)

lemma reachable_facts:
  assumes ord: "sort_function ord" and r: "broker_reachable ord b d"
  shows "broker_wf b" and "status_link (d k) k b"
proof -
  from r have "broker_wf b \<and> (\<forall>k. status_link (d k) k b)"
  proof (induction rule: broker_reachable.induct)
    case (start b0 b)
    then show ?case using init_facts by blast
  next
    case (step b d b')
    have "broker_wf (b\<lparr>nodesMutexFree := x\<rparr>)" if "broker_wf b" for b x
      using that by (simp add: broker_wf_def thisNode_def)
    moreover have "status_link (d k) k (b\<lparr>nodesMutexFree := x\<rparr>)" if "status_link (d k) k b" for b x k
      using that by (rule iffD2 [OF status_link_cong, rotated 2]) simp_all
    ultimately show ?case
      using step broker_step_inv [OF wf.broker_invariant_axioms ord _ step.hyps(2)]
        broker_step_inv [OF link.broker_invariant_axioms ord _ step.hyps(2)] by blast
  next
    case (status_deleted b d k b')
    then have "status_link (if j = k then Suc (d j) else d j) j b'" for j
      using status_cb_link [of "d j" j b k b'] by auto
    moreover have "broker_wf b'" using status_deleted status_cb_wf by blast
    ultimately show ?case by (auto simp: fun_upd_def) (metis)+
  qed
  then show "broker_wf b" "status_link (d k) k b" by auto
qed

text \<open>
  C27 (one status message in flight).  In every reachable broker the flag
  \<^verbatim>\<open>m_sendingStatusTo\<close> of a node is set exactly while one status message to it is sent and not
  yet deleted, there is never a second one, and the buffer the message points into still holds
  the bytes of the last message: the status remembered as known to the peer is the one it was sent.
\<close>

theorem status_in_flight:
  assumes "sort_function ord" "broker_reachable ord b d" "nodes b k = Some n"
  shows "length (status_sent k b) - d k = (if m_sendingStatusTo n then 1 else 0)
    \<and> d k \<le> length (status_sent k b)
    \<and> (m_remotelyKnownLocalStatus n = None \<longleftrightarrow> status_sent k b = [])
    \<and> (\<forall>s. m_remotelyKnownLocalStatus n = Some s \<longrightarrow>
          m_statusStream s = Some (last (status_sent k b))
          \<and> last (status_sent k b) = archived_instances (solverInstances s))"
proof -
  have "status_link (d k) k b" by (rule reachable_facts(2) [OF assms(1,2)])
  then show ?thesis using assms(3) by (auto simp: status_link_def split: option.splits)
qed

lemma archived_parsed: "formula_parsed (archived i) = formula_parsed i"
  by (simp add: archived_def)

lemma conditionallySend_total: "broker_wf b \<Longrightarrow> nodes b k \<noteq> None \<Longrightarrow> \<exists>b'. conditionallySendStatusTo k s b = Some b'"
  by (auto simp: conditionallySendStatusTo_def upd_node_def send_message_to_def broker_wf_def Let_def
      split: prod.splits)

text \<open>
  C28 (peers learn the current status).  When the message queue deletes a status message to an
  available peer, the last status sent to that peer afterwards is the current status of the local
  node: either the message just deleted carried it, or a new message with it is on its way.
\<close>

theorem status_converges:
  assumes "sort_function ord" "broker_reachable ord b d" "d k < length (status_sent k b)"
    "nodes b k = Some n" "node_available_to_send_to n" "thisNode b = Some this1"
  shows "\<exists>b'. status_message_cb k PARAC_TO_BE_DELETED b = Some b'
    \<and> last (status_sent k b') = archived_instances (solverInstances (m_status this1))
    \<and> (status_sent k b' = status_sent k b
       \<or> status_sent k b' = status_sent k b @ [archived_instances (solverInstances (m_status this1))])"
proof -
  have wf: "broker_wf b" and l: "status_link (d k) k b"
    using reachable_facts [OF assms(1,2)] by auto
  have send: "has_send_message_to n" using wf assms(4,5) by (auto simp: broker_wf_def)
  from l assms(3,4) obtain known where known: "m_remotelyKnownLocalStatus n = Some known"
      "status_sent k b \<noteq> []" "last (status_sent k b) = archived_instances (solverInstances known)"
    by (auto simp: status_link_def split: option.splits)
  let ?thisS = "Status_assign Status_init (m_status this1)"
  let ?b = "b\<lparr>nodes := (nodes b)(k \<mapsto> n\<lparr>m_sendingStatusTo := False\<rparr>)\<rparr>"
  have i: "solverInstances ?thisS = solverInstances (m_status this1)" by (simp add: Status_assign_def)
  show ?thesis
  proof (cases "solverInstances known = solverInstances (m_status this1)")
    case True
    with assms known i show ?thesis
      by (simp add: status_message_cb_def upd_node_def isDiffWorthwhile_iff Let_def)
  next
    case False
    have "broker_wf ?b" using wf assms(4) by (rule wf_update) simp_all
    then obtain b' where b': "conditionallySendStatusTo k ?thisS ?b = Some b'"
      using conditionallySend_total [of ?b k ?thisS] by auto
    with False have cb: "status_message_cb k PARAC_TO_BE_DELETED b = Some b'"
      using assms known i by (simp add: status_message_cb_def upd_node_def isDiffWorthwhile_iff Let_def)
    from b' have "status_sent k b' = status_sent k b @ [archived_instances (solverInstances (m_status this1))]"
      by (cases rule: conditionallySend_cases) (use False known assms i in auto)
    with cb show ?thesis by simp
  qed
qed

section \<open>No operation on well-formed brokers aborts\<close>

lemma conditionallySend_frame:
  assumes "conditionallySendStatusTo k s b = Some b'"
  shows "dom (nodes b') = dom (nodes b)" "nodesList b' = nodesList b" "handle_id b' = handle_id b"
    "handle_input_file b' = handle_input_file b"
    "m_taskStore b' = m_taskStore b" "nodesMutexFree b' = nodesMutexFree b" "nodesRefVec b' = nodesRefVec b"
    "map_option m_status (nodes b' j) = map_option m_status (nodes b j)"
    "map_option m_description (nodes b' j) = map_option m_description (nodes b j)"
    "map_option has_send_message_to (nodes b' j) = map_option has_send_message_to (nodes b j)"
  using assms by (cases rule: conditionallySend_cases; auto simp: broker_emit_def)+

lemma send_status_loop_total:
  "broker_wf b \<Longrightarrow> set ks \<subseteq> dom (nodes b) \<Longrightarrow> \<exists>b'. send_status_loop ks b = Some b'"
proof (induction ks arbitrary: b)
  case (Cons k ks)
  then obtain n where n: "nodes b k = Some n" by auto
  show ?case
  proof (cases "k \<noteq> handle_id b \<and> node_available_to_send_to n")
    case True
    from Cons.prems(1) obtain this1 where t: "thisNode b = Some this1" by (auto simp: broker_wf_def)
    obtain b1 where b1: "conditionallySendStatusTo k (m_status this1) b = Some b1"
      using conditionallySend_total [OF Cons.prems(1)] n by blast
    have "\<exists>b'. send_status_loop ks b1 = Some b'"
      using Cons conditionallySend_frame(1) [OF b1] wf.status_inv [OF Cons.prems(1) b1] by auto
    with n True t b1 show ?thesis by simp
  qed (use Cons n in auto)
qed simp

lemma sendStatusToPeers_total: "broker_wf b \<Longrightarrow> \<exists>b'. sendStatusToPeers i b = Some b'"
  using send_status_loop_total by (auto simp: sendStatusToPeers_def broker_wf_def)

section \<open>Example brokers\<close>

definition example_description :: "u32 \<Rightarrow> Description" where
  "example_description w = \<lparr>desc_name = ''n'', desc_host = ''h'', desc_workers = w, desc_udpListenPort = 1,
     desc_tcpListenPort = 2, desc_daemon = False, desc_local = False\<rparr>"

definition example_node :: "u32 \<Rightarrow> u64 \<Rightarrow> bool \<Rightarrow> bool \<Rightarrow> compute_node" where
  "example_node w q send av = ComputeNode_init\<lparr>has_solver_instance := True, has_send_message_to := send, node_available_to_send_to := av,
     m_description := Some (example_description w),
     m_status := Status_init\<lparr>solverInstances := [(7, \<lparr>formula_received = False, formula_parsed = True,
        workQueueSize = q\<rparr>)], m_workers := w\<rparr>\<rparr>"

definition example_broker :: "u64 \<Rightarrow> u64 \<Rightarrow> bool \<Rightarrow> task_store \<Rightarrow> broker" where
  "example_broker q1 q2 av s = \<lparr>handle_id = 1, handle_input_file = True, handle_workers = 1,
     handle_udp_listen_port = 1, handle_tcp_listen_port = 2, handle_local_name = ''a'', handle_host_name = ''b'',
     nodesMutexFree = True,
     nodes = [1 \<mapsto> example_node 1 q1 False False, 2 \<mapsto> example_node 4 q2 True av],
     nodesList = [2, 1], nodesRefVec = [(1, 0), (2, 0)], m_autoShutdownAfterFirstFinishedClient = False,
     m_taskStore = s, broker_out = []\<rparr>"

lemma example_broker_wf: "broker_wf (example_broker q1 q2 av s)"
  by (auto simp: broker_wf_def example_broker_def example_node_def ComputeNode_init_def thisNode_def
      split: if_splits)

section \<open>A reachable broker with a status message in flight\<close>

definition flight1 :: broker where
  "flight1 = the (ComputeNodeStore_init (example_broker 0 0 False (TaskStore_init 0 True False 0)))"
definition flight2 :: broker where "flight2 = the (create_with_connection 2 True flight1)"
definition flight3 :: broker where "flight3 = the (sendStatusToPeers True flight2)"

lemma flight_runs:
  "\<not> Option.is_none (ComputeNodeStore_init (example_broker 0 0 False (TaskStore_init 0 True False 0)))"
  "\<not> Option.is_none (create_with_connection 2 True flight1)"
  "\<not> Option.is_none (sendStatusToPeers True flight2)"
  by code_simp+

lemma flight_facts:
  "length (status_sent 2 flight3) = 1"
  "map_option node_available_to_send_to (nodes flight3 2) = Some True"
  "\<not> Option.is_none (thisNode flight3)"
  by code_simp+

lemma is_none_the: "\<not> Option.is_none x \<Longrightarrow> x = Some (the x)"
  by (cases x) auto

lemma flight_reachable: "broker_reachable (sort_key snd) flight3 (\<lambda>_. 0)"
proof -
  have "ComputeNodeStore_init (example_broker 0 0 False (TaskStore_init 0 True False 0)) = Some flight1"
    unfolding flight1_def by (rule is_none_the [OF flight_runs(1)])
  then have "broker_reachable (sort_key snd) flight1 (\<lambda>_. 0)"
    by (rule broker_reachable.start) (simp add: example_broker_def)
  moreover have "create_with_connection 2 True flight1 = Some flight2"
    unfolding flight2_def by (rule is_none_the [OF flight_runs(2)])
  moreover have "sendStatusToPeers True flight2 = Some flight3"
    unfolding flight3_def by (rule is_none_the [OF flight_runs(3)])
  ultimately show ?thesis
    using broker_reachable.step broker_step.connect broker_step.status by blast
qed

theorem status_in_flight_witness:
  "\<exists>n. nodes flight3 2 = Some n \<and> m_sendingStatusTo n"
proof -
  obtain n where n: "nodes flight3 2 = Some n" using flight_facts(2) by (auto simp: map_option_eq_Some)
  have "length (status_sent 2 flight3) - 0 = (if m_sendingStatusTo n then 1 else 0)"
    using status_in_flight [OF sort_by_utilization.sort_function_axioms flight_reachable n] by (rule conjunct1)
  then have "m_sendingStatusTo n" unfolding flight_facts(1) by (simp split: if_splits)
  with n show ?thesis by blast
qed

theorem status_converges_witness:
  "\<exists>b'. status_message_cb 2 PARAC_TO_BE_DELETED flight3 = Some b' \<and> status_sent 2 b' \<noteq> []"
proof -
  obtain n where n: "nodes flight3 2 = Some n" "node_available_to_send_to n"
    using flight_facts(2) by (auto simp: map_option_eq_Some)
  have t: "thisNode flight3 = Some (the (thisNode flight3))" by (rule is_none_the [OF flight_facts(3)])
  have l: "0 < length (status_sent 2 flight3)" unfolding flight_facts(1) by simp
  obtain b' where "status_message_cb 2 PARAC_TO_BE_DELETED flight3 = Some b'"
    "status_sent 2 b' = status_sent 2 flight3 \<or> status_sent 2 b' = status_sent 2 flight3
       @ [archived_instances (solverInstances (m_status (the (thisNode flight3))))]"
    using status_converges [OF sort_by_utilization.sort_function_axioms flight_reachable l n t] by blast
  moreover have "status_sent 2 flight3 \<noteq> []" using l by (rule length_greater_0_conv [THEN iffD1])
  ultimately show ?thesis by (metis append_is_Nil_conv)
qed

section \<open>Callbacks that wait for a parsed formula\<close>

text \<open>
  The three sections of \<^verbatim>\<open>runCBAfterParsingOfFormulaIsDone\<close> with one \<^verbatim>\<open>formulaParsed\<close> of the
  parser thread before the first (0), second (1) or third (2) of them or after the last (3).
\<close>

definition parser_at :: "nat \<Rightarrow> nat \<Rightarrow> parac_id \<Rightarrow> parac_id \<Rightarrow> broker \<Rightarrow> broker option" where
  "parser_at pos i k orig b = (if pos = i then node_formulaParsed k orig b else Some b)"

definition runCB_interleaved :: "nat \<Rightarrow> parac_id \<Rightarrow> parsing_cb \<Rightarrow> parac_id \<Rightarrow> broker \<Rightarrow> broker option" where
  "runCB_interleaved pos k cb orig b = do {
     b \<leftarrow> parser_at pos 0 k orig b;
     (ran, b) \<leftarrow> runCB_test k cb orig b;
     b \<leftarrow> parser_at pos 1 k orig b;
     b \<leftarrow> (if ran then Some b
           else do {
             b \<leftarrow> runCB_enqueue k cb orig b;
             b \<leftarrow> parser_at pos 2 k orig b;
             (_, b) \<leftarrow> runCB_test k cb orig b;
             Some b });
     parser_at pos 3 k orig b }"

definition announced :: "parsing_cb \<Rightarrow> broker \<Rightarrow> nat" where
  "announced cb b = length (filter ((=) (SolverNewRemote (cb_instance cb) (cb_origin cb))) (broker_out b))"

lemma isParsed_set: "Status_isParsed orig (set_formulaParsed orig s)"
proof -
  have "\<exists>i. map_of (upd_instance orig (\<lambda>i. i\<lparr>formula_parsed := True\<rparr>) xs) orig = Some i \<and> formula_parsed i" for xs
    by (induction orig "\<lambda>i::SolverInstance. i\<lparr>formula_parsed := True\<rparr>" xs rule: upd_instance.induct) auto
  from this [of "solverInstances s"] show ?thesis by (auto simp: Status_isParsed_def set_formulaParsed_def)
qed

text \<open>
  A new remote is announced at least once.  A callback registered while the formula is still
  parsed runs in every interleaving with the end of the parser: exactly once, except when the
  parser ends between the entry into the list and the second test, when it runs twice.  It is
  never lost.
\<close>

lemma announced_at_least_once:
  assumes "nodes b k = Some n" "\<not> Status_isParsed orig (m_status n)" "m_cbAfterParsingIsDone n orig = None"
    "nodes b (cb_instance cb) = Some ni" "has_solver_instance ni" "pos \<le> 3"
  shows "\<exists>b'. runCB_interleaved pos k cb orig b = Some b'
    \<and> announced cb b' = announced cb b + (if pos = 2 then 2 else 1)"
proof -
  have "pos = 0 \<or> pos = 1 \<or> pos = 2 \<or> pos = 3" using assms(6) by auto
  then show ?thesis
    using assms(1-5)
    by (cases "cb_instance cb = k")
       (elim disjE; simp add: runCB_interleaved_def parser_at_def runCB_test_def runCB_enqueue_def
        node_formulaParsed_def upd_status_def upd_node_def broker_isParsed_def run_parsing_cb_def
        store_get_def store_has_def isParsed_set broker_emit_def announced_def)+
qed

lemma announced_at_least_once_example:
  "\<exists>b'. runCB_interleaved 2 1 (NewRemoteAvailable 2 1) 1
     (example_broker 0 0 True (TaskStore_init 0 True False 0)) = Some b' \<and> announced (NewRemoteAvailable 2 1) b' = 2"
proof -
  let ?b = "example_broker 0 0 True (TaskStore_init 0 True False 0)" and ?n = "example_node 1 0 False False"
  have "nodes ?b 1 = Some ?n" "announced (NewRemoteAvailable 2 1) ?b = 0"
    by (simp_all add: example_broker_def announced_def)
  moreover have "\<not> Status_isParsed 1 (m_status ?n)" "m_cbAfterParsingIsDone ?n 1 = None" "has_solver_instance ?n"
    by (simp_all add: example_node_def Status_isParsed_def ComputeNode_init_def)
  ultimately show ?thesis
    using announced_at_least_once [of ?b 1 ?n 1 "NewRemoteAvailable 2 1" ?n 2] by (simp add: numeral_2_eq_2)
qed

end
