(* ===== verification/Offloading.thy ===== *)
theory Offloading
  imports TaskTree ComputeNodeInv
begin

text \<open>
  The offloading of tasks to peers: what one call of \<^verbatim>\<open>tryToOffloadTask\<close> changes, the loop of
  \<^verbatim>\<open>tryOffloadingTasks\<close> over the nodes in the order of their utilization, and what happens to the
  tasks of a peer whose connection is dropped.
\<close>

section \<open>What one offload attempt changes\<close>

text \<open>The parts of a node the offloading loop reads.\<close>

definition node_core :: "compute_node option \<Rightarrow> (Status \<times> Description option \<times> bool) option" where
  "node_core = map_option (\<lambda>n. (m_status n, m_description n, has_send_message_to n))"

definition offloads :: "broker \<Rightarrow> (parac_id \<times> task_ref) list" where
  "offloads b = [(k, r). SendMessage k (TaskOffload r) \<leftarrow> broker_out b]"

lemma offloads_emit [simp]:
  "offloads (broker_emit (SendMessage k (TaskOffload r)) b) = offloads b @ [(k, r)]"
  "offloads (broker_emit (SendMessage k (NodeStatus s)) b) = offloads b"
  "offloads (broker_emit (StoreCall c) b) = offloads b"
  by (simp_all add: offloads_def broker_emit_def)

lemma offloads_upd [simp]:
  "offloads (b\<lparr>nodes := ns\<rparr>) = offloads b" "offloads (b\<lparr>m_taskStore := ts\<rparr>) = offloads b"
  "offloads (b\<lparr>nodesRefVec := v\<rparr>) = offloads b"
  by (simp_all add: offloads_def)

text \<open>Sending status messages leaves everything the loop reads alone.\<close>

definition status_frame :: "broker \<Rightarrow> broker \<Rightarrow> bool" where
  "status_frame b b' \<longleftrightarrow> (\<forall>j. node_core (nodes b' j) = node_core (nodes b j)) \<and> handle_id b' = handle_id b
     \<and> m_taskStore b' = m_taskStore b \<and> offloads b' = offloads b"

lemma status_frame_refl [simp]: "status_frame b b"
  by (simp add: status_frame_def)

lemma status_frame_trans: "status_frame a b \<Longrightarrow> status_frame b c \<Longrightarrow> status_frame a c"
  by (simp add: status_frame_def)

lemma conditionallySend_status_frame:
  "conditionallySendStatusTo k s b = Some b' \<Longrightarrow> status_frame b b'"
  by (erule conditionallySend_cases) (auto simp: status_frame_def node_core_def broker_emit_def offloads_def)

lemma send_status_loop_frame: "send_status_loop ks b = Some b' \<Longrightarrow> status_frame b b'"
  by (induction ks arbitrary: b)
     (auto simp: bind_eq_Some_conv split: if_splits
       intro: status_frame_trans conditionallySend_status_frame)

lemma sendStatusToPeers_frame: "sendStatusToPeers i b = Some b' \<Longrightarrow> status_frame b b'"
  by (auto simp: sendStatusToPeers_def intro: send_status_loop_frame split: if_splits)

lemma broker_wf_this: "broker_wf b \<Longrightarrow> \<exists>n. nodes b (handle_id b) = Some n"
  by (auto simp: broker_wf_def thisNode_def)

lemma decrementThis_total:
  assumes "broker_wf b"
  shows "\<exists>b'. decrementThisNodeWorkQueueSize orig b = Some b'"
proof -
  obtain n where n: "nodes b (handle_id b) = Some n" using broker_wf_this [OF assms] by blast
  then obtain b1 where b1: "upd_status (handle_id b) (decrementWorkQueueSize orig) b = Some b1"
    by (auto simp: upd_status_def upd_node_def)
  then have "broker_wf b1" using assms wf.upd_status_inv by blast
  with b1 n show ?thesis
    using sendStatusToPeers_total [of b1 False] broker_wf_this [of b1]
    by (auto simp: decrementThisNodeWorkQueueSize_def broker_isParsed_def)
qed

lemma decrementThis_frame:
  assumes "decrementThisNodeWorkQueueSize orig b = Some b'"
  shows "\<forall>j. j \<noteq> handle_id b \<longrightarrow> node_core (nodes b' j) = node_core (nodes b j)"
    and "\<exists>n n'. nodes b (handle_id b) = Some n \<and> nodes b' (handle_id b) = Some n'
      \<and> m_workers (m_status n') = m_workers (m_status n)"
    and "handle_id b' = handle_id b" "m_taskStore b' = m_taskStore b" "offloads b' = offloads b"
proof -
  from assms obtain n where n: "nodes b (handle_id b) = Some n"
    by (auto simp: decrementThisNodeWorkQueueSize_def upd_status_def upd_node_def bind_eq_Some_conv)
  let ?b = "b\<lparr>nodes := (nodes b)(handle_id b \<mapsto> n\<lparr>m_status := decrementWorkQueueSize orig (m_status n)\<rparr>)\<rparr>"
  have f: "status_frame ?b b'"
    using assms n by (auto simp: decrementThisNodeWorkQueueSize_def upd_status_def upd_node_def
        bind_eq_Some_conv intro: sendStatusToPeers_frame split: if_splits)
  then show "\<forall>j. j \<noteq> handle_id b \<longrightarrow> node_core (nodes b' j) = node_core (nodes b j)"
    "handle_id b' = handle_id b" "m_taskStore b' = m_taskStore b" "offloads b' = offloads b"
    by (auto simp: status_frame_def)
  from f have "node_core (nodes b' (handle_id b)) = node_core (nodes ?b (handle_id b))"
    by (simp add: status_frame_def)
  then show "\<exists>n n'. nodes b (handle_id b) = Some n \<and> nodes b' (handle_id b) = Some n'
      \<and> m_workers (m_status n') = m_workers (m_status n)"
    using n by (auto simp: node_core_def decrementWorkQueueSize_def)
qed

lemma pop_offload_outcalls:
  assumes p: "pop_offload k c s = Some (Some r, s')" and tw: "heap s r = Some tw"
  shows "outcalls s' = outcalls s @ [DecWorkQueue (originator (wt tw))]"
proof -
  let ?ok = "\<lambda>r. do { t \<leftarrow> get_task r s; Some (has_serialize t \<and> received_from t = None \<and>
               (case c of None \<Rightarrow> True | Some f \<Rightarrow> f t)) }"
  from p obtain i where "last_offloadable ?ok (tasksWaitingForWorkerQueue s) = Some (Some (i, r))"
    by (auto simp: pop_offload_def Let_def bind_eq_Some_conv split: option.splits)
  with p tw show ?thesis by (auto simp: pop_offload_def Let_def emit_def)
qed

lemma store_inv_outcalls [simp]: "store_inv (s\<lparr>outcalls := xs\<rparr>) = store_inv s"
  by (simp add: store_inv_def)

definition origins :: "task_store \<Rightarrow> task_ref \<Rightarrow> parac_id option" where
  "origins s r = map_option (\<lambda>tw. originator (wt tw)) (heap s r)"

lemma pop_offload_step:
  assumes inv: "store_inv s"
  obtains (none) s' where "pop_offload k (Some c) s = Some (None, s')" "s' = s"
  | (some) r s' tw where "pop_offload k (Some c) s = Some (Some r, s')" "store_inv s'"
      "r \<in> set (tasksWaitingForWorkerQueue s)" "heap s r = Some tw" "c (wt tw)"
      "origins s' = origins s" "outcalls s' = outcalls s @ [DecWorkQueue (originator (wt tw))]"
      "set (tasksWaitingForWorkerQueue s') \<subseteq> set (tasksWaitingForWorkerQueue s)"
      "\<exists>t. get_task r s' = Some t \<and> originator t = originator (wt tw)"
proof -
  from pop_offload_spec [OF inv, of k "Some c"] obtain res s' where
    p: "pop_offload k (Some c) s = Some (res, s')" and n: "res = None \<Longrightarrow> s' = s"
    by (auto split: option.splits)
  show thesis
  proof (cases res)
    case None
    with p n none show ?thesis by simp
  next
    case (Some r)
    note p = p [unfolded Some]
    show ?thesis
      by (rule pop_offload_inv [OF inv p], rule some [OF p])
         (auto simp: offloadable_def task_at_def origins_def fun_eq_iff get_task_def pop_offload_outcalls [OF p])
  qed
qed

definition may_receive :: "broker \<Rightarrow> parac_id \<Rightarrow> task_ref \<Rightarrow> bool" where
  "may_receive b k r \<longleftrightarrow> k \<noteq> handle_id b \<and> r \<in> set (tasksWaitingForWorkerQueue (m_taskStore b))
     \<and> (\<exists>n d orig. nodes b k = Some n \<and> m_description n = Some d \<and> desc_workers d \<noteq> 0
          \<and> has_send_message_to n \<and> origins (m_taskStore b) r = Some orig \<and> Status_isParsed orig (m_status n))"

text \<open>What stays for the nodes that come later in the loop.\<close>

definition loop_frame :: "parac_id \<Rightarrow> broker \<Rightarrow> broker \<Rightarrow> bool" where
  "loop_frame k b b' \<longleftrightarrow> handle_id b' = handle_id b
     \<and> (\<forall>j. j \<noteq> handle_id b \<longrightarrow> j \<noteq> k \<longrightarrow> node_core (nodes b' j) = node_core (nodes b j))
     \<and> map_option (\<lambda>n. m_workers (m_status n)) (nodes b' (handle_id b))
         = map_option (\<lambda>n. m_workers (m_status n)) (nodes b (handle_id b))
     \<and> origins (m_taskStore b') = origins (m_taskStore b)
     \<and> set (tasksWaitingForWorkerQueue (m_taskStore b')) \<subseteq> set (tasksWaitingForWorkerQueue (m_taskStore b))"

lemma loop_frame_refl [simp]: "loop_frame k b b"
  by (simp add: loop_frame_def)

lemma loop_frame_receive: "loop_frame k b b' \<Longrightarrow> may_receive b' j r \<Longrightarrow> j \<noteq> k \<Longrightarrow> may_receive b j r"
  unfolding loop_frame_def may_receive_def
proof (elim conjE exE)
  fix n d orig
  assume a: "handle_id b' = handle_id b" "\<forall>j. j \<noteq> handle_id b \<longrightarrow> j \<noteq> k \<longrightarrow> node_core (nodes b' j) = node_core (nodes b j)"
    "j \<noteq> k" "j \<noteq> handle_id b'" "nodes b' j = Some n" and d: "m_description n = Some d" "has_send_message_to n"
    and o: "Status_isParsed orig (m_status n)"
  from a have "node_core (Some n) = node_core (nodes b j)" by metis
  then obtain n0 where "nodes b j = Some n0" "m_status n0 = m_status n" "m_description n0 = m_description n"
    "has_send_message_to n0 = has_send_message_to n"
    by (cases "nodes b j") (auto simp: node_core_def)
  with a d o show "desc_workers d \<noteq> 0 \<Longrightarrow> origins (m_taskStore b') = origins (m_taskStore b) \<Longrightarrow>
    set (tasksWaitingForWorkerQueue (m_taskStore b')) \<subseteq> set (tasksWaitingForWorkerQueue (m_taskStore b)) \<Longrightarrow>
    r \<in> set (tasksWaitingForWorkerQueue (m_taskStore b')) \<Longrightarrow> origins (m_taskStore b') r = Some orig \<Longrightarrow>
    j \<noteq> handle_id b \<and> r \<in> set (tasksWaitingForWorkerQueue (m_taskStore b)) \<and>
    (\<exists>n d orig. nodes b j = Some n \<and> m_description n = Some d \<and> desc_workers d \<noteq> 0 \<and>
       has_send_message_to n \<and> origins (m_taskStore b) r = Some orig \<and> Status_isParsed orig (m_status n))"
    by auto
qed

lemma status_frame_loop_frame: "status_frame b b' \<Longrightarrow> loop_frame k b b'"
proof -
  assume s: "status_frame b b'"
  then have "node_core (nodes b' (handle_id b)) = node_core (nodes b (handle_id b))"
    by (simp add: status_frame_def)
  then have "map_option (\<lambda>n. m_workers (m_status n)) (nodes b' (handle_id b))
      = map_option (\<lambda>n. m_workers (m_status n)) (nodes b (handle_id b))"
    by (cases "nodes b (handle_id b)"; cases "nodes b' (handle_id b)") (auto simp: node_core_def)
  with s show ?thesis by (simp add: status_frame_def loop_frame_def)
qed

lemma loop_frame_trans: "loop_frame k a b \<Longrightarrow> loop_frame k b c \<Longrightarrow> loop_frame k a c"
  by (auto simp: loop_frame_def)

lemma decrementThis_loop_frame:
  "decrementThisNodeWorkQueueSize orig b = Some b' \<Longrightarrow> loop_frame k b b'"
  using decrementThis_frame [of orig b b'] by (auto simp: loop_frame_def)

lemma increment_target_frame:
  "upd_status k (incrementWorkQueueSize orig) b = Some b' \<Longrightarrow> loop_frame k b b'"
  by (auto simp: upd_status_def upd_node_def bind_eq_Some_conv loop_frame_def incrementWorkQueueSize_def)

lemma tryToOffloadTask_step:
  assumes wf: "broker_wf b" and inv: "store_inv (m_taskStore b)" and k: "nodes b k = Some n" "k \<noteq> handle_id b"
  shows "\<exists>off b'. tryToOffloadTask k b = Some (off, b') \<and> broker_wf b' \<and> store_inv (m_taskStore b')
    \<and> loop_frame k b b'
    \<and> (if off then \<exists>r. may_receive b k r \<and> offloads b' = offloads b @ [(k, r)] else offloads b' = offloads b)"
proof (cases "\<exists>d. m_description n = Some d \<and> desc_workers d \<noteq> 0 \<and> has_send_message_to n")
  case False
  then have "tryToOffloadTask k b = Some (False, b)"
    using k by (auto simp: tryToOffloadTask_def split: option.splits)
  with wf inv show ?thesis by auto
next
  case True
  then obtain d where d: "m_description n = Some d" "desc_workers d \<noteq> 0" "has_send_message_to n" by blast
  let ?c = "\<lambda>t. Status_isParsed (originator t) (m_status n)"
  have "store_inv ((m_taskStore b)\<lparr>outcalls := []\<rparr>)" using inv by simp
  then show ?thesis
  proof (cases rule: pop_offload_step [where k = k and c = ?c])
    case (none s')
    then have "tryToOffloadTask k b = Some (False, b\<lparr>m_taskStore := s'\<lparr>outcalls := []\<rparr>\<rparr>)"
      using k d by (simp add: tryToOffloadTask_def with_task_store_def)
    moreover have "loop_frame k b (b\<lparr>m_taskStore := s'\<lparr>outcalls := []\<rparr>\<rparr>)"
      using none by (simp add: loop_frame_def origins_def fun_eq_iff)
    ultimately show ?thesis using wf.taskstore_inv [OF wf] inv none by auto
  next
    case (some r s' tw)
    let ?b0 = "b\<lparr>m_taskStore := s'\<lparr>outcalls := []\<rparr>\<rparr>" and ?o = "originator (wt tw)"
    have wf0: "broker_wf ?b0" by (rule wf.taskstore_inv [OF wf])
    have f0: "loop_frame k b ?b0"
      using some by (simp add: loop_frame_def origins_def fun_eq_iff)
    obtain b1 where b1: "decrementThisNodeWorkQueueSize ?o ?b0 = Some b1"
      using decrementThis_total [OF wf0] by blast
    have wf1: "broker_wf b1" using wf0 b1 by (rule wf.decrement_inv)
    have f1: "loop_frame k ?b0 b1" by (rule decrementThis_loop_frame [OF b1])
    have t1: "m_taskStore b1 = s'\<lparr>outcalls := []\<rparr>" using decrementThis_frame(4) [OF b1] by simp
    have h1: "handle_id b1 = handle_id b" using decrementThis_frame(3) [OF b1] by simp
    have "node_core (nodes b1 k) = node_core (nodes b k)" using decrementThis_frame(1) [OF b1] k by simp
    then obtain n1 where n1: "nodes b1 k = Some n1" using k by (auto simp: node_core_def)
    obtain b2 where b2: "upd_status k (incrementWorkQueueSize ?o) b1 = Some b2"
      using n1 by (auto simp: upd_status_def upd_node_def)
    have wf2: "broker_wf b2" using wf1 b2 by (rule wf.upd_status_inv)
    have f2: "loop_frame k b1 b2" by (rule increment_target_frame [OF b2])
    obtain n2 where n2: "nodes b2 k = Some n2" "has_send_message_to n2 = has_send_message_to n1"
      using b2 n1 by (auto simp: upd_status_def upd_node_def)
    have same2: "m_taskStore b2 = m_taskStore b1" "offloads b2 = offloads b1" "handle_id b2 = handle_id b1"
      using b2 n1 by (auto simp: upd_status_def upd_node_def)
    obtain this2 where this2: "thisNode b2 = Some this2" using wf2 by (auto simp: broker_wf_def)
    obtain b3 where b3: "conditionallySendStatusTo k (m_status this2) b2 = Some b3"
      using conditionallySend_total [OF wf2] n2 by blast
    have wf3: "broker_wf b3" using wf2 b3 by (rule wf.status_inv)
    have s3: "status_frame b2 b3" by (rule conditionallySend_status_frame [OF b3])
    have "has_send_message_to n1" using \<open>node_core (nodes b1 k) = node_core (nodes b k)\<close> n1 k d
      by (auto simp: node_core_def)
    moreover have "node_core (nodes b3 k) = node_core (nodes b2 k)" using s3 by (simp add: status_frame_def)
    ultimately obtain n3 where n3: "nodes b3 k = Some n3" "has_send_message_to n3"
      using n2 by (auto simp: node_core_def)
    let ?b4 = "broker_emit (SendMessage k (TaskOffload r)) b3"
    have run: "tryToOffloadTask k b = Some (True, ?b4)"
      using k d some b1 b2 b3 this2 n3 t1
      by (auto simp: tryToOffloadTask_def with_task_store_def send_message_to_def get_task_def)
    have wf4: "broker_wf ?b4" using wf3 by (rule wf_emit)
    have f4: "loop_frame k b3 ?b4" by (simp add: loop_frame_def broker_emit_def)
    have fr: "loop_frame k b ?b4"
      using f0 f1 f2 status_frame_loop_frame [OF s3] f4 loop_frame_trans by meson
    have off: "offloads ?b4 = offloads b @ [(k, r)]"
      using s3 same2 decrementThis_frame(5) [OF b1] by (simp add: status_frame_def)
    have "store_inv (m_taskStore ?b4)"
      using s3 same2 t1 some by (simp add: status_frame_def broker_emit_def)
    moreover have "may_receive b k r"
      using k d some by (auto simp: may_receive_def origins_def)
    ultimately show ?thesis using run wf4 fr off by (intro exI [of _ True] exI [of _ ?b4]) auto
  qed
qed

definition this_workers :: "broker \<Rightarrow> nat" where
  "this_workers b = (case nodes b (handle_id b) of None \<Rightarrow> 0 | Some n \<Rightarrow> unat (m_workers (m_status n)))"

lemma loop_frame_workers: "loop_frame k b b' \<Longrightarrow> this_workers b' = this_workers b"
  unfolding loop_frame_def this_workers_def
  by (cases "nodes b (handle_id b)"; cases "nodes b' (handle_id b)") auto

text \<open>The test that keeps the local node busy, with the single precision quotient evaluated.\<close>

lemma not_starving:
  assumes "thisNode b = Some n" "unat q < 2 ^ 24" "0 < this_workers b" "this_workers b < 2 ^ 24"
    "\<not> (if q > 0 then Status_computeFutureUtilization (m_status n) (q - 1) else 0) < 1 / 2"
  shows "q > 0" "this_workers b \<le> 2 * (unat q - 1)"
proof -
  have w: "m_workers (m_status n) \<noteq> 0" "this_workers b = unat (m_workers (m_status n))"
    using assms(1,3) by (auto simp: this_workers_def thisNode_def)
  show q: "q > 0" using assms(5) by (auto split: if_splits)
  then have u: "unat (q - 1) = unat q - 1" by (simp add: unat_minus_one word_neq_0_conv)
  with q assms(5) w have "\<not> float_div (unat q - 1) (this_workers b) < 1 / 2"
    by (simp add: Status_computeFutureUtilization_def)
  then show "this_workers b \<le> 2 * (unat q - 1)"
    using assms by (subst (asm) float_div_less_half) auto
qed

lemma offload_loop_spec:
  assumes "broker_wf b" "store_inv (m_taskStore b)" "unat q < 2 ^ 24" "0 < this_workers b"
    "this_workers b < 2 ^ 24" "distinct (map fst es)" "set (map fst es) \<subseteq> dom (nodes b)"
  shows "\<exists>b' ts. offload_loop u q es b = Some b' \<and> offloads b' = offloads b @ ts
    \<and> distinct (map fst ts) \<and> set (map fst ts) \<subseteq> set (map fst es)
    \<and> (ts = [] \<or> this_workers b \<le> 2 * (unat q - length ts))
    \<and> (\<forall>(k, r) \<in> set ts. may_receive b k r \<and> (\<exists>v. (k, v) \<in> set es \<and> v \<le> u \<and> v \<le> 2))"
  using assms
proof (induction es arbitrary: q b)
  case Nil
  then show ?case by simp
next
  case (Cons e es)
  obtain k v where e: "e = (k, v)" by (cases e)
  obtain n where n: "nodes b k = Some n" using Cons.prems e by auto
  obtain t where t: "thisNode b = Some t" using Cons.prems(1) by (auto simp: broker_wf_def)
  let ?fut = "if q > 0 then Status_computeFutureUtilization (m_status t) (q - 1) else 0"
  show ?case
  proof (cases "k = handle_id b \<or> ?fut < 1 / 2 \<or> v > u \<or> v > 2")
    case True
    then have "offload_loop u q (e # es) b = Some b" using e t by auto
    then show ?thesis by simp
  next
    case False
    then have k: "k \<noteq> handle_id b" and v: "v \<le> u" "v \<le> 2" by auto
    have q: "q > 0" "this_workers b \<le> 2 * (unat q - 1)"
      using not_starving [OF t Cons.prems(3-5)] False by auto
    obtain off b1 where b1: "tryToOffloadTask k b = Some (off, b1)" "broker_wf b1" "store_inv (m_taskStore b1)"
      and fr: "loop_frame k b b1"
      and o: "if off then \<exists>r. may_receive b k r \<and> offloads b1 = offloads b @ [(k, r)] else offloads b1 = offloads b"
      using tryToOffloadTask_step [OF Cons.prems(1,2) n k] by blast
    let ?q = "if off then q - 1 else q"
    have uq: "unat ?q = (if off then unat q - 1 else unat q)"
      using q by (simp add: unat_minus_one word_neq_0_conv)
    have w1: "this_workers b1 = this_workers b" by (rule loop_frame_workers [OF fr])
    have sub: "set (map fst es) \<subseteq> dom (nodes b1)"
    proof
      fix j assume j: "j \<in> set (map fst es)"
      then have "j \<noteq> k" "j \<in> dom (nodes b)" using Cons.prems e by auto
      then show "j \<in> dom (nodes b1)"
        using fr broker_wf_this [OF b1(2)] unfolding loop_frame_def
        by (cases "j = handle_id b"; cases "nodes b1 j") (auto simp: node_core_def)
    qed
    have "unat ?q < 2 ^ 24" using uq Cons.prems(3) by (simp split: if_splits)
    then obtain b' ts where ih: "offload_loop u ?q es b1 = Some b'" "offloads b' = offloads b1 @ ts"
      "distinct (map fst ts)" "set (map fst ts) \<subseteq> set (map fst es)"
      "ts = [] \<or> this_workers b \<le> 2 * (unat ?q - length ts)"
      "\<forall>(k, r) \<in> set ts. may_receive b1 k r \<and> (\<exists>v. (k, v) \<in> set es \<and> v \<le> u \<and> v \<le> 2)"
      using Cons.IH [OF b1(2,3), of ?q] Cons.prems(4-6) w1 sub by auto
    have run: "offload_loop u q (e # es) b = Some b'" using ih(1) b1(1) False e t by simp
    have kn: "k \<notin> set (map fst es)" using Cons.prems e by simp
    have later: "\<forall>(j, r) \<in> set ts. may_receive b j r \<and> (\<exists>v. (j, v) \<in> set (e # es) \<and> v \<le> u \<and> v \<le> 2)"
    proof (clarify)
      fix j r assume jr: "(j, r) \<in> set ts"
      with ih(4) kn have "j \<noteq> k" by force
      with ih(6) jr loop_frame_receive [OF fr] e
      show "may_receive b j r \<and> (\<exists>v. (j, v) \<in> set (e # es) \<and> v \<le> u \<and> v \<le> 2)" by fastforce
    qed
    show ?thesis
    proof (cases off)
      case True
      with o obtain r where r: "may_receive b k r" "offloads b1 = offloads b @ [(k, r)]" by auto
      have "distinct (map fst ((k, r) # ts))" using ih(3,4) kn by auto
      moreover have "set (map fst ((k, r) # ts)) \<subseteq> set (map fst (e # es))" using ih(4) e by auto
      moreover have "this_workers b \<le> 2 * (unat q - length ((k, r) # ts))"
        using ih(5) uq q(2) True by auto
      ultimately show ?thesis using run ih(2) r later v e by (intro exI [of _ b'] exI [of _ "(k, r) # ts"]) auto
    next
      case False
      with run ih o uq later show ?thesis by (intro exI [of _ b'] exI [of _ ts]) auto
    qed
  qed
qed

lemma zip_fst_map: "zip (map fst v) (map (\<lambda>(k, _). f k) v) = map (\<lambda>(k, _). (k, f k)) v"
  by (induction v) auto

text \<open>
  C26 (offloading never starves the local node).  On a well-formed broker whose task store keeps its
  invariant, \<^verbatim>\<open>tryOffloadingTasks\<close> returns.  It sends every chosen peer one task at most, only
  tasks waiting in the local queue whose formula the peer has parsed, and only to connected peers
  with workers whose utilization is at most two and at most that of the local node; and when it
  sends anything, the work left over fills at least half of the local workers.
\<close>

theorem offload_no_starvation:
  assumes "sort_function ord" "broker_wf b" "store_inv (m_taskStore b)" "nodesMutexFree b"
    "nodes b (handle_id b) = Some this1"
    "0 < m_workers (m_status this1)" "m_workers (m_status this1) < 2 ^ 24"
    "fst (Status_workQueueSize (m_status this1)) < 2 ^ 24"
  shows "\<exists>b' ts. tryOffloadingTasks ord b = Some b' \<and> offloads b' = offloads b @ ts
    \<and> distinct (map fst ts)
    \<and> (ts = [] \<or> unat (m_workers (m_status this1))
          \<le> 2 * (unat (fst (Status_workQueueSize (m_status this1))) - length ts))
    \<and> (\<forall>(k, r) \<in> set ts. may_receive b k r
         \<and> (\<exists>n. nodes b k = Some n \<and> node_computeUtilization n \<le> node_computeUtilization this1
              \<and> node_computeUtilization n \<le> 2))"
proof -
  have wf: "distinct (nodesList b)" "set (nodesList b) = dom (nodes b)"
    "mset (map fst (nodesRefVec b)) = mset (nodesList b)" using assms(2) by (auto simp: broker_wf_def)
  have dv: "distinct (map fst (nodesRefVec b))" "set (map fst (nodesRefVec b)) = dom (nodes b)"
    using wf by (metis mset_eq_imp_distinct_iff, metis mset_eq_setD)
  define us where "us = map (\<lambda>(k, _). node_computeUtilization (the (nodes b k))) (nodesRefVec b)"
  have "opt_list (map (\<lambda>(k, _). broker_computeUtilization k b) (nodesRefVec b)) = Some us"
    unfolding us_def
    by (rule opt_list_map_Some) (use dv(2) in \<open>force simp: broker_computeUtilization_def\<close>)
  then have up: "updateNodesRefVecUtilization b = Some (b\<lparr>nodesRefVec := zip (map fst (nodesRefVec b)) us\<rparr>)"
    by (simp add: updateNodesRefVecUtilization_def)
  let ?v = "ord (zip (map fst (nodesRefVec b)) us)"
  have "mset ?v = mset (zip (map fst (nodesRefVec b)) us)"
    by (rule sort_function.sort_permutes [OF assms(1)])
  then have v: "set ?v = set (zip (map fst (nodesRefVec b)) us)"
    and "mset (map fst ?v) = mset (map fst (zip (map fst (nodesRefVec b)) us))"
    by (metis mset_eq_setD, metis mset_map)
  moreover have "map fst (zip (map fst (nodesRefVec b)) us) = map fst (nodesRefVec b)" by (simp add: us_def)
  ultimately have v2: "mset (map fst ?v) = mset (map fst (nodesRefVec b))" by metis
  have vd: "distinct (map fst ?v)" "set (map fst ?v) = dom (nodes b)"
    using v2 dv by (metis mset_eq_imp_distinct_iff, metis mset_eq_setD)
  have util: "\<exists>n. nodes b k = Some n \<and> node_computeUtilization n = x" if "(k, x) \<in> set ?v" for k x
  proof -
    from that v obtain y where "(k, y) \<in> set (nodesRefVec b)" "x = node_computeUtilization (the (nodes b k))"
      by (auto simp: us_def zip_fst_map)
    then show ?thesis using dv(2) by force
  qed
  let ?b = "b\<lparr>nodesRefVec := ?v\<rparr>"
  have "broker_wf (b\<lparr>nodesRefVec := ?v\<rparr>)" using assms(2) v2 by (rule wf.vec_inv)
  moreover have "this_workers ?b = unat (m_workers (m_status this1))" using assms(5) by (simp add: this_workers_def)
  moreover have "unat (m_workers (m_status this1)) < 2 ^ 24" "0 < unat (m_workers (m_status this1))"
    "unat (fst (Status_workQueueSize (m_status this1))) < 2 ^ 24"
    using assms(6-8) by (simp_all add: word_less_nat_alt)
  ultimately obtain b' ts where l: "offload_loop (node_computeUtilization this1)
       (fst (Status_workQueueSize (m_status this1))) ?v ?b = Some b'" "offloads b' = offloads b @ ts"
    "distinct (map fst ts)"
    "ts = [] \<or> unat (m_workers (m_status this1)) \<le> 2 * (unat (fst (Status_workQueueSize (m_status this1))) - length ts)"
    and t: "\<forall>(k, r) \<in> set ts. may_receive ?b k r
      \<and> (\<exists>v. (k, v) \<in> set ?v \<and> v \<le> node_computeUtilization this1 \<and> v \<le> 2)"
    using offload_loop_spec [of ?b "fst (Status_workQueueSize (m_status this1))" ?v "node_computeUtilization this1"]
      assms(3) vd by auto
  have "tryOffloadingTasks ord b = Some b'"
    using l(1) up assms(4,5) by (simp add: tryOffloadingTasks_def thisNode_def)
  moreover have "may_receive ?b k r = may_receive b k r" for k r by (simp add: may_receive_def)
  ultimately show ?thesis using l(2-4) t util by (intro exI [of _ b'] exI [of _ ts]) fastforce
qed

theorem offload_no_starvation_witness:
  "\<exists>s b' ts. tasksWaitingForWorkerQueue s = [1]
     \<and> tryOffloadingTasks (sort_key snd) (example_broker 3 0 True s) = Some b'
     \<and> offloads b' = ts \<and> (ts = [] \<or> 1 \<le> 2 * (3 - length ts))"
proof -
  obtain s where s: "store_reachable s" "tasksWaitingForWorkerQueue s = [1]" using example_enqueue by blast
  let ?b = "example_broker 3 0 True s"
  have n: "nodes ?b (handle_id ?b) = Some (example_node 1 3 False False)" by (simp add: example_broker_def)
  have q: "fst (Status_workQueueSize (m_status (example_node 1 3 False False))) = 3"
    by (simp add: example_node_def Status_workQueueSize_def Status_init_def accumulate_sizes_def accumulate_step_def)
  have w: "m_workers (m_status (example_node 1 3 False False)) = 1" by (simp add: example_node_def)
  have st: "m_taskStore ?b = s" "nodesMutexFree ?b" "offloads ?b = []"
    by (simp_all add: example_broker_def offloads_def)
  show ?thesis
    using offload_no_starvation [OF sort_by_utilization.sort_function_axioms example_broker_wf _ _ n]
      store_reachable_inv [OF s(1)] q w st s(2) by fastforce
qed

definition dropped_store :: task_store where
  "dropped_store = (TaskStore_init 0 True False 0)\<lparr>tasks := [3], tasksSize := 1,
     heap := [3 \<mapsto> \<lparr>wt = (fresh_task None parac_path_root 7)\<lparr>state := PARAC_TASK_OFFLOADED,
        offloaded_to := Some 2, has_serialize := True\<rparr>, refcount = 1, in_work_queue = False\<rparr>],
     offloadedTasks := [2 \<mapsto> [3]]\<rparr>"

lemma dropped_store_inv: "store_inv dropped_store"
  by (auto simp: store_inv_def dropped_store_def TaskStore_init_def tasks_ok_def queue_ok_def links_ok_def
      fresh_task_def parac_task_init_def kid_def wf_task_def local_parent_def left_child_def
      right_child_def split: if_splits)

lemma dropped_eval:
  "map_option (\<lambda>b. (offloads b, offloadedTasks (m_taskStore b) 2))
     (static_connectionDropped (sort_key snd) 1 2 (example_broker 2 1 False dropped_store))
   = Some ([(2, 3)], Some [3])"
  by code_simp


end
