(* ===== verification/Assignment.thy ===== *)
theory Assignment
  imports Prelude
begin

unbundle bit_operations_syntax

text \<open>
  The packed assignment of a satisfiable formula: \<^verbatim>\<open>modules/solver/solver_assignment.hpp\<close> (and its
  copy in \<^verbatim>\<open>modules/solver_qbf\<close>).  Eight variables share a byte, the first in its highest bit; the
  last byte is padded on the left.  The value getter of the template is a function argument: the
  array of \<^verbatim>\<open>SerializeAssignmentFromArray\<close> or the \<^verbatim>\<open>val\<close> function of a SAT solver.
\<close>

record SolverAssignment =
  m_packedAssignmentVector :: "u8 list"
  m_varCount :: nat

definition SolverAssignment_init :: "nat \<Rightarrow> SolverAssignment" where
  "SolverAssignment_init garbage = \<lparr>m_packedAssignmentVector = [], m_varCount = garbage\<rparr>"

definition resize_bytes :: "nat \<Rightarrow> u8 list \<Rightarrow> u8 list" where
  "resize_bytes n v = take n v @ replicate (n - length v) 0"

text \<open>\<^verbatim>\<open>PC_SHIFT\<close>: the lowest bit of the value, shifted to its place.\<close>

definition PC_SHIFT :: "(nat \<Rightarrow> int) \<Rightarrow> nat \<Rightarrow> nat \<Rightarrow> u8" where
  "PC_SHIFT getter i x = push_bit (7 - x) (word_of_int (getter (i + x) AND 1))"

definition block_byte :: "(nat \<Rightarrow> int) \<Rightarrow> nat \<Rightarrow> u8" where
  "block_byte getter i =
     PC_SHIFT getter i 0 OR PC_SHIFT getter i 1 OR PC_SHIFT getter i 2 OR PC_SHIFT getter i 3 OR
     PC_SHIFT getter i 4 OR PC_SHIFT getter i 5 OR PC_SHIFT getter i 6 OR PC_SHIFT getter i 7"

function block_loop :: "(nat \<Rightarrow> int) \<Rightarrow> nat \<Rightarrow> nat \<Rightarrow> nat \<Rightarrow> u8 list \<Rightarrow> nat \<times> nat \<times> u8 list" where
  "block_loop getter limit i pos v =
     (if i < limit then block_loop getter limit (i + 8) (pos + 1) (v[pos := block_byte getter i])
      else (i, pos, v))"
  by pat_completeness auto
termination
  by (relation "measure (\<lambda>(g, limit, i, pos, v). limit - i)") auto

declare block_loop.simps [simp del]

text \<open>The switch over the remaining variables, entered at \<open>remaining\<close> and falling through to 1.\<close>

fun tail_cases :: "(nat \<Rightarrow> int) \<Rightarrow> nat \<Rightarrow> nat \<Rightarrow> nat \<Rightarrow> u8 \<Rightarrow> u8" where
  "tail_cases getter remaining 0 i b = b"
| "tail_cases getter remaining (Suc c) i b =
     tail_cases getter remaining c (i + 1)
       (b OR push_bit (7 - i mod 8 - (8 - remaining)) (word_of_int (getter i AND 1)))"

definition SerializeAssignment :: "int \<Rightarrow> (nat \<Rightarrow> int) \<Rightarrow> SolverAssignment \<Rightarrow> SolverAssignment option" where
  "SerializeAssignment varCount getter a = do {
     c_assert (varCount > 0);
     let n = nat varCount;
     let v = resize_bytes ((n - 1) div 8 + 1) (m_packedAssignmentVector a);
     let (i, pos, v) = block_loop getter (unat ((word_of_nat n :: u64) AND NOT 7)) 0 0 v;
     let remaining = n - i;
     let v = (if 1 \<le> remaining \<and> remaining \<le> 7
              then v[pos := tail_cases getter remaining remaining i 0] else v);
     Some (a\<lparr>m_packedAssignmentVector := v, m_varCount := n\<rparr>) }"

definition SerializeAssignmentFromSolver ::
  "int \<Rightarrow> (int \<Rightarrow> int) \<Rightarrow> SolverAssignment \<Rightarrow> SolverAssignment option" where
  "SerializeAssignmentFromSolver varCount val a = SerializeAssignment varCount (\<lambda>i. val (int i + 1)) a"

definition SerializeAssignmentFromArray ::
  "int \<Rightarrow> int list \<Rightarrow> SolverAssignment \<Rightarrow> SolverAssignment option" where
  "SerializeAssignmentFromArray varCount source a =
     (if nat varCount \<le> length source then SerializeAssignment varCount (\<lambda>i. source ! i) a else None)"

definition DeSerializeSingleToAssignment :: "int list \<Rightarrow> u8 \<Rightarrow> nat \<Rightarrow> int list" where
  "DeSerializeSingleToAssignment target next_byte n =
     target @ map (\<lambda>j. of_bool (bit next_byte j)) (rev [0..<(if n > 7 then 8 else n)])"

function deserialize_loop :: "u8 list \<Rightarrow> nat \<Rightarrow> nat \<Rightarrow> int list \<Rightarrow> (int list \<times> nat) option" where
  "deserialize_loop v i n out =
     (if i < length v then
        if n > 8 then deserialize_loop v (i + 1) (n - 8) (DeSerializeSingleToAssignment out (v ! i) n)
        else Some (DeSerializeSingleToAssignment out (v ! i) n, n)
      else None)"
  by pat_completeness auto
termination
  by (relation "measure (\<lambda>(v, i, n, out). n)") auto

declare deserialize_loop.simps [simp del]

text \<open>\<^verbatim>\<open>DeSerializeToAssignment\<close> counts \<^verbatim>\<open>m_varCount\<close> itself down.\<close>

definition DeSerializeToAssignment :: "int list \<Rightarrow> SolverAssignment \<Rightarrow> (int list \<times> SolverAssignment) option" where
  "DeSerializeToAssignment out a = do {
     (out, n) \<leftarrow> deserialize_loop (m_packedAssignmentVector a) 0 (m_varCount a) out;
     Some (out, a\<lparr>m_varCount := n\<rparr>) }"

definition isSet :: "int \<Rightarrow> SolverAssignment \<Rightarrow> bool option" where
  "isSet l a = do {
     c_assert (l \<ge> 1);
     let k = nat (l - 1);
     c_assert (k < m_varCount a);
     c_assert (k div 8 < length (m_packedAssignmentVector a));
     Some (m_packedAssignmentVector a ! (k div 8) AND word_of_nat (k mod 8) \<noteq> 0) }"

section \<open>Packed bytes\<close>

lemma bit_lsb_shift:
  "x < 8 \<Longrightarrow> bit (push_bit s (word_of_int (z AND 1)) :: u8) x \<longleftrightarrow> x = s \<and> odd z"
proof -
  have "word_of_int (z AND 1) = (of_bool (odd z) :: u8)" by (simp add: and_one_eq odd_iff_mod_2_eq_one)
  then show "x < 8 \<Longrightarrow> ?thesis" by (auto simp: bit_push_bit_iff bit_1_iff)
qed

lemma bit_PC_SHIFT: "x < 8 \<Longrightarrow> bit (PC_SHIFT getter i s) x \<longleftrightarrow> x = 7 - s \<and> odd (getter (i + s))"
  unfolding PC_SHIFT_def by (rule bit_lsb_shift)

lemma bit_block_byte: "x < 8 \<Longrightarrow> bit (block_byte getter i) x \<longleftrightarrow> odd (getter (i + (7 - x)))"
proof -
  assume x: "x < 8"
  then have "x = 0 \<or> x = 1 \<or> x = 2 \<or> x = 3 \<or> x = 4 \<or> x = 5 \<or> x = 6 \<or> x = 7" by auto
  then show ?thesis
    unfolding block_byte_def bit_or_iff bit_PC_SHIFT [OF x] by (elim disjE) simp_all
qed

text \<open>
  What a vector must hold for \<open>n\<close> variables: variable \<open>j\<close> is in byte \<open>j div 8\<close>, counted from the
  left within the bits that byte uses.
\<close>

definition byte_bits :: "nat \<Rightarrow> nat \<Rightarrow> nat" where
  "byte_bits n p = min 8 (n - 8 * p)"

definition packs :: "(nat \<Rightarrow> int) \<Rightarrow> nat \<Rightarrow> u8 list \<Rightarrow> bool" where
  "packs getter n v \<longleftrightarrow> length v = (n - 1) div 8 + 1
     \<and> (\<forall>p x. p < length v \<longrightarrow> x < byte_bits n p \<longrightarrow>
          bit (v ! p) x = odd (getter (8 * p + (byte_bits n p - 1 - x))))"

lemma block_loop_result:
  assumes "i = 8 * pos" "limit = 8 * q" "pos \<le> q"
  shows "\<exists>w. block_loop getter limit i pos v = (8 * q, q, w) \<and> length w = length v
    \<and> (\<forall>p < length v. w ! p = (if pos \<le> p \<and> p < q then block_byte getter (8 * p) else v ! p))"
  using assms
proof (induction getter limit i pos v rule: block_loop.induct)
  case (1 getter limit i pos v)
  show ?case
  proof (cases "i < limit")
    case True
    have e: "i + 8 = 8 * (pos + 1)" using "1.prems"(1) by simp
    have l: "pos + 1 \<le> q" using "1.prems"(1,2) True by simp
    from "1.IH" [OF True e "1.prems"(2) l] obtain w where
      w: "block_loop getter limit (i + 8) (pos + 1) (v[pos := block_byte getter i]) = (8 * q, q, w)"
      "length w = length v"
      "\<forall>p < length v. w ! p = (if pos + 1 \<le> p \<and> p < q then block_byte getter (8 * p)
         else v[pos := block_byte getter i] ! p)" by auto
    have "w ! p = (if pos \<le> p \<and> p < q then block_byte getter (8 * p) else v ! p)" if "p < length v" for p
    proof (cases "p = pos")
      case True
      with w(3) that l "1.prems"(1) show ?thesis by simp
    next
      case False
      with w(3) that show ?thesis by (auto simp: not_less_eq_eq le_Suc_eq)
    qed
    then have "length w = length v \<and> (\<forall>p < length v. w ! p = (if pos \<le> p \<and> p < q
       then block_byte getter (8 * p) else v ! p))" using w(2) by blast
    moreover have "block_loop getter limit i pos v = (8 * q, q, w)"
      using w(1) True by (subst block_loop.simps) simp
    ultimately show ?thesis by blast
  next
    case False
    with "1.prems" have q: "pos = q" by linarith
    have "block_loop getter limit i pos v = (8 * q, q, v)"
      using False q "1.prems"(1) by (subst block_loop.simps) simp
    with q show ?thesis by auto
  qed
qed

lemma bit_tail_cases:
  "c \<le> r \<Longrightarrow> r \<le> 7 \<Longrightarrow> i = 8 * p + (r - c) \<Longrightarrow> x < 8 \<Longrightarrow>
   bit (tail_cases getter r c i b) x \<longleftrightarrow> bit b x \<or> (x < c \<and> odd (getter (8 * p + (r - 1 - x))))"
proof (induction getter r c i b rule: tail_cases.induct)
  case (2 getter r c i b)
  have "i mod 8 = r - Suc c" using "2.prems" by (simp only: mod_mult_self4) simp
  with "2.prems" have sh: "7 - i mod 8 - (8 - r) = c" by linarith
  have "bit (tail_cases getter r c (i + 1) (b OR push_bit c (word_of_int (getter i AND 1)))) x
    \<longleftrightarrow> (bit b x \<or> (x = c \<and> odd (getter i))) \<or> (x < c \<and> odd (getter (8 * p + (r - 1 - x))))"
  proof -
    have "i + 1 = 8 * p + (r - c)" "c \<le> r" using "2.prems"(1,3) by linarith+
    from "2.IH" [OF this(2) "2.prems"(2) this(1) "2.prems"(4)] show ?thesis
      unfolding sh bit_or_iff bit_lsb_shift [OF "2.prems"(4)] .
  qed
  moreover have "x = c \<Longrightarrow> i = 8 * p + (r - 1 - x)" using "2.prems" by auto
  ultimately show ?case using sh by (auto simp: less_Suc_eq)
qed simp

lemma and_not7: "n < 2 ^ 64 \<Longrightarrow> unat ((word_of_nat n :: u64) AND NOT 7) = 8 * (n div 8)"
proof -
  assume n: "n < 2 ^ 64"
  have m: "(7 :: u64) = mask 3" by (simp add: mask_eq_exp_minus_1)
  have "(word_of_nat n :: u64) AND NOT 7 = push_bit 3 (drop_bit 3 (word_of_nat n))"
    unfolding m by (rule bit_word_eqI) (auto simp: bit_simps not_less)
  also have "unat \<dots> = take_bit 64 (push_bit 3 (drop_bit 3 n))"
    unfolding unsigned_push_bit_eq unsigned_drop_bit_eq using n
    by (simp add: unat_of_nat take_bit_nat_eq_self)
  also have "\<dots> = 8 * (n div 8)"
    using n by (simp add: push_bit_eq_mult drop_bit_eq_div take_bit_nat_eq_self)
  finally show ?thesis .
qed

lemma serialize_packs:
  assumes "0 < n" "n < 2 ^ 31"
  shows "\<exists>a'. SerializeAssignment (int n) getter a = Some a' \<and> m_varCount a' = n
    \<and> packs getter n (m_packedAssignmentVector a')"
proof -
  let ?q = "n div 8" and ?r = "n mod 8"
  let ?v = "resize_bytes ((n - 1) div 8 + 1) (m_packedAssignmentVector a)"
  have r7: "?r \<le> 7" using mod_less_divisor [of 8 n] by linarith
  have lv: "length ?v = (n - 1) div 8 + 1" by (simp add: resize_bytes_def)
  have "unat ((word_of_nat n :: u64) AND NOT 7) = 8 * ?q" using assms(2) by (intro and_not7) simp
  then have lim: "unat ((word_of_nat n :: u64) AND - 8) = 8 * ?q" by simp
  obtain w where w: "block_loop getter (8 * ?q) 0 0 ?v = (8 * ?q, ?q, w)" "length w = length ?v"
    "\<forall>p < length ?v. w ! p = (if p < ?q then block_byte getter (8 * p) else ?v ! p)"
    using block_loop_result [of 0 0 "8 * ?q" ?q getter ?v] by auto
  let ?w = "if 1 \<le> ?r \<and> ?r \<le> 7 then w[?q := tail_cases getter ?r ?r (8 * ?q) 0] else w"
  have "n - 8 * ?q = ?r" by (simp add: minus_mult_div_eq_mod)
  then have run: "SerializeAssignment (int n) getter a = Some (a\<lparr>m_packedAssignmentVector := ?w, m_varCount := n\<rparr>)"
    using assms(1) w(1) by (simp add: SerializeAssignment_def lim Let_def)
  have "bit (?w ! p) x = odd (getter (8 * p + (byte_bits n p - 1 - x)))"
    if p: "p < length ?v" and x: "x < byte_bits n p" for p x
  proof (cases "p < ?q")
    case True
    then have "byte_bits n p = 8" by (auto simp: byte_bits_def)
    with True p x w(3) show ?thesis by (simp add: bit_block_byte)
  next
    case False
    with p lv have "p \<le> (n - 1) div 8" by simp
    then have "p = ?q" "0 < ?r" using False assms(1) by (simp_all) presburger+
    then have "byte_bits n p = ?r" by (simp add: byte_bits_def minus_mult_div_eq_mod)
    moreover have "p < length w" using p w(2) by simp
    ultimately show ?thesis
      using \<open>p = ?q\<close> \<open>0 < ?r\<close> x bit_tail_cases [of ?r ?r "8 * ?q" ?q x getter 0]
        r7 by (simp add: Suc_le_eq)
  qed
  moreover have "length ?w = (n - 1) div 8 + 1" using w(2) lv by simp
  ultimately have "packs getter n ?w" unfolding packs_def lv by presburger
  with run show ?thesis by (intro exI [of _ "a\<lparr>m_packedAssignmentVector := ?w, m_varCount := n\<rparr>"]) simp
qed

lemma deserialize_loop_packs:
  assumes "packs getter n v" "n = 8 * i + m" "0 < m"
  shows "\<exists>k. deserialize_loop v i m out = Some (out @ map (\<lambda>j. of_bool (odd (getter j))) [8 * i..<n], k)"
  using assms
proof (induction v i m out rule: deserialize_loop.induct)
  case (1 v i m out)
  have i: "i < length v" using "1.prems" by (auto simp: packs_def)
  have bits: "map (\<lambda>j. of_bool (bit (v ! i) j)) (rev [0..<byte_bits n i])
      = map (\<lambda>j. of_bool (odd (getter j)) :: int) [8 * i..<8 * i + byte_bits n i]"
    by (rule nth_equalityI) (use "1.prems"(1) i in \<open>auto simp: packs_def rev_nth\<close>)
  have bb: "byte_bits n i = min 8 m" using "1.prems"(2) by (simp add: byte_bits_def)
  show ?case
  proof (cases "m > 8")
    case True
    let ?out = "DeSerializeSingleToAssignment out (v ! i) m"
    have o: "?out = out @ map (\<lambda>j. of_bool (odd (getter j))) [8 * i..<8 * (i + 1)]"
      using bits bb True by (simp add: DeSerializeSingleToAssignment_def add.commute)
    have "[8 * i..<n] = [8 * i..<8 * (i + 1)] @ [8 * (i + 1)..<n]"
      using "1.prems"(2) True by (metis (no_types, lifting) add_mult_distrib2 le_add_diff_inverse less_imp_le mult.right_neutral upt_add_eq_append add_left_mono le_add1)
    moreover obtain k where "deserialize_loop v (i + 1) (m - 8) ?out
       = Some (?out @ map (\<lambda>j. of_bool (odd (getter j))) [8 * (i + 1)..<n], k)"
      using "1.IH" [OF i True] "1.prems" True by auto
    ultimately show ?thesis using i True o by (subst deserialize_loop.simps) simp
  next
    case False
    with bb have e: "(if m > 7 then 8 else m) = byte_bits n i" "8 * i + byte_bits n i = n"
      using "1.prems"(2) by auto
    have "DeSerializeSingleToAssignment out (v ! i) m
       = out @ map (\<lambda>j. of_bool (odd (getter j))) [8 * i..<n]"
      unfolding DeSerializeSingleToAssignment_def e(1) bits unfolding e(2) ..
    then show ?thesis using i False by (subst deserialize_loop.simps) simp
  qed
qed

text \<open>
  \<^verbatim>\<open>isSet\<close> masks the byte with the position of the variable instead of its bit: the first variable
  of a byte is never set.
\<close>

lemma isSet_first_of_byte:
  assumes "8 * k < m_varCount a" "k < length (m_packedAssignmentVector a)"
  shows "isSet (8 * int k + 1) a = Some False"
  using assms by (simp add: isSet_def nat_mult_distrib)

text \<open>
  C33 (packing an assignment and unpacking it).  Serialising the values of any positive number of
  variables and deserialising the bytes gives the parities of the values back: an array of zeros
  and ones is restored exactly.
\<close>

theorem assignment_roundtrip:
  assumes "0 < length source" "length source < 2 ^ 31" "set source \<subseteq> {0, 1}"
  shows "\<exists>a a'. SerializeAssignmentFromArray (int (length source)) source (SolverAssignment_init g) = Some a
    \<and> DeSerializeToAssignment [] a = Some (source, a')"
proof -
  let ?n = "length source"
  obtain a where a: "SerializeAssignment (int ?n) (\<lambda>i. source ! i) (SolverAssignment_init g) = Some a"
    "m_varCount a = ?n" "packs (\<lambda>i. source ! i) ?n (m_packedAssignmentVector a)"
    using serialize_packs [OF assms(1,2)] by blast
  obtain k where k: "deserialize_loop (m_packedAssignmentVector a) 0 ?n []
     = Some ([] @ map (\<lambda>j. of_bool (odd (source ! j))) [8 * 0..<?n], k)"
    using deserialize_loop_packs [OF a(3), of 0 ?n "[]"] assms(1) by auto
  have "map (\<lambda>j. of_bool (odd (source ! j)) :: int) [0..<?n] = source"
  proof (rule nth_equalityI)
    fix j assume "j < length (map (\<lambda>j. of_bool (odd (source ! j)) :: int) [0..<?n])"
    then have "source ! j \<in> {0, 1}" using assms(3) nth_mem by fastforce
    with \<open>j < _\<close> show "map (\<lambda>j. of_bool (odd (source ! j)) :: int) [0..<?n] ! j = source ! j" by auto
  qed simp
  with k a(1,2) show ?thesis by (simp add: SerializeAssignmentFromArray_def DeSerializeToAssignment_def)
qed

theorem assignment_roundtrip_witness:
  "\<exists>a a'. SerializeAssignmentFromArray 10 [1, 0, 0, 1, 1, 0, 1, 0, 1, 1] (SolverAssignment_init 0) = Some a
    \<and> DeSerializeToAssignment [] a = Some ([1, 0, 0, 1, 1, 0, 1, 0, 1, 1], a')"
  using assignment_roundtrip [of "[1, 0, 0, 1, 1, 0, 1, 0, 1, 1]" 0] by simp

text \<open>
  C31 (the values of a SAT solver are lost).  The \<^verbatim>\<open>val\<close> function of the SAT solvers answers a
  variable with the variable itself or with its negation.  Both have the same lowest bit, so the
  bytes \<^verbatim>\<open>SerializeAssignmentFromSolver\<close> writes do not depend on the assignment at all: any two
  satisfying assignments are sent as the same message, in which exactly the odd variables are set.
\<close>

theorem solver_values_lost:
  assumes "\<And>x. val1 x = x \<or> val1 x = - x" "\<And>x. val2 x = x \<or> val2 x = - x" "0 < n" "n < 2 ^ 31"
  shows "SerializeAssignmentFromSolver (int n) val1 a = SerializeAssignmentFromSolver (int n) val2 a
    \<and> (\<exists>a' a''. SerializeAssignmentFromSolver (int n) val1 a = Some a'
         \<and> DeSerializeToAssignment [] a' = Some (map (\<lambda>j. of_bool (odd (j + 1))) [0..<n], a''))"
proof -
  have one: "val x AND 1 = x AND 1" if "\<And>x. val x = x \<or> val x = - x" for val :: "int \<Rightarrow> int" and x
    using that [of x] by (auto simp: and_one_eq) presburger
  have parity: "odd (val1 (int j + 1)) = odd (j + 1)" for j using assms(1) [of "int j + 1"] by auto
  have sh: "PC_SHIFT (\<lambda>i. val1 (int i + 1)) = PC_SHIFT (\<lambda>i. val2 (int i + 1))"
    by (intro ext) (simp add: PC_SHIFT_def one [OF assms(1)] one [OF assms(2)])
  have bb: "block_byte (\<lambda>i. val1 (int i + 1)) = block_byte (\<lambda>i. val2 (int i + 1))"
    by (intro ext) (simp only: block_byte_def sh)
  have bl: "block_loop (\<lambda>i. val1 (int i + 1)) lim i p v = block_loop (\<lambda>i. val2 (int i + 1)) lim i p v" for lim i p v
  proof (induction "\<lambda>i. val1 (int i + 1)" lim i p v rule: block_loop.induct)
    case (1 limit i pos v)
    then show ?case
      by (subst (1 2) block_loop.simps) (simp add: bb)
  qed
  have tc: "tail_cases (\<lambda>i. val1 (int i + 1)) r c i b = tail_cases (\<lambda>i. val2 (int i + 1)) r c i b" for r c i b
    by (induction "\<lambda>i. val1 (int i + 1)" r c i b rule: tail_cases.induct)
       (simp_all add: one [OF assms(1)] one [OF assms(2)])
  have "SerializeAssignmentFromSolver (int n) val1 a = SerializeAssignmentFromSolver (int n) val2 a"
    unfolding SerializeAssignmentFromSolver_def SerializeAssignment_def bl tc ..
  moreover obtain a' where a: "SerializeAssignmentFromSolver (int n) val1 a = Some a'" "m_varCount a' = n"
    "packs (\<lambda>i. val1 (int i + 1)) n (m_packedAssignmentVector a')"
    using serialize_packs [OF assms(3,4)] unfolding SerializeAssignmentFromSolver_def by blast
  moreover obtain k where "deserialize_loop (m_packedAssignmentVector a') 0 n []
     = Some ([] @ map (\<lambda>j. of_bool (odd (val1 (int j + 1)))) [8 * 0..<n], k)"
    using deserialize_loop_packs [OF a(3), of 0 n "[]"] assms(3) by auto
  then have "DeSerializeToAssignment [] a' = Some (map (\<lambda>j. of_bool (odd (j + 1))) [0..<n], a'\<lparr>m_varCount := k\<rparr>)"
    using a(2) by (simp add: DeSerializeToAssignment_def parity)
  ultimately show ?thesis by blast
qed

theorem solver_values_lost_witness:
  "SerializeAssignmentFromSolver 3 (\<lambda>x. x) (SolverAssignment_init 0)
     = SerializeAssignmentFromSolver 3 (\<lambda>x. - x) (SolverAssignment_init 0)"
  using solver_values_lost [of "\<lambda>x. x" "\<lambda>x. - x" 3 "SolverAssignment_init 0"] by simp

end
