(* ===== verification/QbfParser.thy ===== *)
theory QbfParser
  imports Status
begin

text \<open>
  The QDIMACS parser of the QBF solver module: \<^verbatim>\<open>modules/solver_qbf/parser_qbf.cpp\<close> with its
  header and the work function of \<^verbatim>\<open>qbf_parser_task.cpp\<close>.

  A file is its list of characters; \<^verbatim>\<open>getc\<close> takes the first one, the end of the file is sticky, so
  the character read last and the rest of the file are together the remaining text.  The buffer that
  keeps the current comment line is written but never read and is left out.  Numbers are C
  \<^verbatim>\<open>int\<close>: a value above \<open>INT_MAX\<close> while reading one is undefined behaviour, the result
  \<open>ParseUB\<close>, as is a failed assertion.  The counters of lines, literals and clauses are bounded by
  the length of the file.
\<close>

section \<open>Characters and results\<close>

definition LF :: char where "LF = CHR 0x0A"
definition TAB :: char where "TAB = CHR 0x09"
definition CR :: char where "CR = CHR 0x0D"
definition SP :: char where "SP = CHR '' ''"

definition INT_MAX :: int where "INT_MAX = 2147483647"

definition is_blank :: "char \<Rightarrow> bool" where
  "is_blank c \<longleftrightarrow> c = SP \<or> c = TAB \<or> c = CR"

text \<open>The error messages of the source, one constructor each.\<close>

datatype parse_error =
    EndOfFileInComment | InvalidOrMissingHeader | ClausesMissing | NegativeNumberInPrefix
  | MinusFollowedByZero | ExistsAfterClause | ZeroMissingAfterExists | ForallAfterClause
  | ZeroMissingAfterForall | ExpectedDigit | ExpectedSpaceAfterLiteral
  | MaximumVariableIndexExceeded | TooManyClauses

datatype 'a parsed = Parsed 'a | ParseFail parse_error | ParseUB

fun pbind :: "'a parsed \<Rightarrow> ('a \<Rightarrow> 'b parsed) \<Rightarrow> 'b parsed" where
  "pbind (Parsed x) f = f x"
| "pbind (ParseFail e) f = ParseFail e"
| "pbind ParseUB f = ParseUB"

section \<open>State\<close>

datatype QuantifierType = EXISTENTIAL | UNIVERSAL

text \<open>\<^verbatim>\<open>Parser::Quantifier\<close> is its literal; the sign is the type.\<close>

definition quantifier_type :: "int \<Rightarrow> QuantifierType" where
  "quantifier_type l = (if l > 0 then EXISTENTIAL else UNIVERSAL)"

definition alit :: "int \<Rightarrow> int" where "alit l = abs l"

record parser =
  m_literals :: "int list"
  m_quantifiers :: "int list"
  m_path :: string
  m_fileToDelete :: "string option"
  m_highestLit :: int
  m_clauseCount :: int
  lineno :: int
  universal_vars :: int
  existential_vars :: int
  remaining :: int
  num_vars :: int
  num_lits :: nat
  size_lits :: nat
  remaining_clauses_to_parse :: int
  orig_clauses :: int
  lits :: "int list"
  force :: bool

definition parser_init :: parser where
  "parser_init = \<lparr>m_literals = [], m_quantifiers = [], m_path = [], m_fileToDelete = None,
     m_highestLit = 0, m_clauseCount = 0, lineno = 1, universal_vars = 0, existential_vars = 0,
     remaining = 0, num_vars = 0, num_lits = 0, size_lits = 0, remaining_clauses_to_parse = 0,
     orig_clauses = 0, lits = [], force = False\<rparr>"

section \<open>The literal buffer\<close>

definition resize :: "nat \<Rightarrow> int list \<Rightarrow> int list" where
  "resize n xs = take n xs @ replicate (n - length xs) 0"

definition enlarge_lits :: "parser \<Rightarrow> parser option" where
  "enlarge_lits p = do {
     let max = 2147483646;
     c_assert (size_lits p < max);
     let new_size = (if size_lits p \<noteq> 0 then 2 * size_lits p else 1);
     let new_size = (if new_size > max then max else new_size);
     Some (p\<lparr>lits := resize new_size (lits p), size_lits := new_size\<rparr>) }"

text \<open>\<^verbatim>\<open>lits[num_lits++] = l\<close>: a write behind the end of the vector is undefined.\<close>

definition store_lit :: "int \<Rightarrow> parser \<Rightarrow> parser option" where
  "store_lit l p = do {
     c_assert (num_lits p < length (lits p));
     Some (p\<lparr>lits := (lits p)[num_lits p := l], num_lits := num_lits p + 1\<rparr>) }"

definition push_literal :: "int \<Rightarrow> parser \<Rightarrow> parser option" where
  "push_literal l p = do {
     c_assert (abs l \<le> num_vars p);
     p \<leftarrow> (if num_lits p + 1 \<ge> size_lits p then enlarge_lits p else Some p);
     p \<leftarrow> store_lit l p;
     Some (if abs l > m_highestLit p then p\<lparr>m_highestLit := abs l\<rparr> else p) }"

definition add_quantifier :: "int \<Rightarrow> parser \<Rightarrow> parser" where
  "add_quantifier l p = p\<lparr>m_quantifiers := m_quantifiers p @ [l]\<rparr>"

definition add_clause :: "parser \<Rightarrow> parser option" where
  "add_clause p =
     (if lits p = [] then Some (p\<lparr>m_literals := m_literals p @ [0]\<rparr>)
      else do {
        p \<leftarrow> (if length (lits p) \<le> num_lits p + 1 then enlarge_lits p else Some p);
        p \<leftarrow> store_lit 0 p;
        Some (p\<lparr>m_literals := m_literals p @ take (num_lits p) (lits p), num_lits := 0,
                m_clauseCount := m_clauseCount p + 1\<rparr>) })"

section \<open>Reading\<close>

definition getc :: "string \<Rightarrow> char option \<times> string" where
  "getc s = (case s of [] \<Rightarrow> (None, []) | c # s \<Rightarrow> (Some c, s))"

text \<open>The rest of the file after a comment, \<open>None\<close> at its end.\<close>

fun skip_comment :: "string \<Rightarrow> string option" where
  "skip_comment [] = None"
| "skip_comment (c # s) = (if c = LF then Some s else skip_comment s)"

lemma skip_comment_length: "skip_comment s = Some s' \<Longrightarrow> length s' < length s"
  by (induction s) (auto split: if_splits)

text \<open>The labels \<^verbatim>\<open>SKIP\<close> and \<^verbatim>\<open>NEXT\<close>: blanks, line ends and comments.\<close>

function skip :: "int \<Rightarrow> string \<Rightarrow> (int \<times> char option \<times> string) parsed" where
  "skip ln [] = Parsed (ln, None, [])"
| "skip ln (c # s) =
     (if c = LF then skip (ln + 1) s
      else if is_blank c then skip ln s
      else if c = CHR ''c'' then
        (case skip_comment s of
           None \<Rightarrow> ParseFail EndOfFileInComment
         | Some s' \<Rightarrow> skip (ln + 1) s')
      else Parsed (ln, Some c, s))"
  by pat_completeness auto
termination
  by (relation "measure (\<lambda>(ln, s). length s)") (auto dest: skip_comment_length)

definition herr :: "'a parsed" where "herr = ParseFail InvalidOrMissingHeader"

definition expect :: "char \<Rightarrow> string \<Rightarrow> string parsed" where
  "expect c s = (case getc s of (ch, s) \<Rightarrow> if ch = Some c then Parsed s else herr)"

fun skip_spaces :: "string \<Rightarrow> string" where
  "skip_spaces [] = []"
| "skip_spaces (c # s) = (if c = SP then skip_spaces s else c # s)"

fun read_digits :: "int \<Rightarrow> string \<Rightarrow> (int \<times> string) parsed" where
  "read_digits acc [] = Parsed (acc, [])"
| "read_digits acc (c # s) =
     (if isdigit c then
        if 10 * acc + digit c > INT_MAX then ParseUB else read_digits (10 * acc + digit c) s
      else Parsed (acc, c # s))"

definition header_number :: "string \<Rightarrow> (int \<times> string) parsed" where
  "header_number s = (case getc s of
       (Some c, s) \<Rightarrow> if isdigit c then read_digits (digit c) s else herr
     | (None, s) \<Rightarrow> herr)"

fun header_end :: "string \<Rightarrow> string parsed" where
  "header_end [] = herr"
| "header_end (c # s) = (if c = LF then Parsed s else if is_blank c then header_end s else herr)"

definition parse_header :: "string \<Rightarrow> (int \<times> int \<times> int \<times> string) parsed" where
  "parse_header s =
     pbind (skip 1 s) (\<lambda>(ln, ch, s).
       if ch \<noteq> Some (CHR ''p'') then herr
       else pbind (expect SP s) (\<lambda>s.
            pbind (expect (CHR ''c'') (skip_spaces s)) (\<lambda>s.
            pbind (expect (CHR ''n'') s) (\<lambda>s.
            pbind (expect (CHR ''f'') s) (\<lambda>s.
            pbind (expect SP s) (\<lambda>s.
            pbind (header_number (skip_spaces s)) (\<lambda>(m, s).
            pbind (expect SP s) (\<lambda>s.
            pbind (header_number (skip_spaces s)) (\<lambda>(n, s).
            pbind (header_end s) (\<lambda>s.
              Parsed (ln + 1, m, n, s)))))))))))"

text \<open>
  One literal of the prefix or the matrix has been read: \<open>i\<close> counts clauses, \<open>c\<close> literals, \<open>q\<close> is the
  quantifier of the current block.  The result is the new parser with \<open>i\<close>, \<open>c\<close> and \<open>q\<close>.
\<close>

definition take_literal ::
  "int \<Rightarrow> int \<Rightarrow> int \<Rightarrow> int \<Rightarrow> int \<Rightarrow> parser \<Rightarrow> (parser \<times> int \<times> int \<times> int) option" where
  "take_literal sign l i c q p =
     (if q \<noteq> 0 then
        if l \<noteq> 0 then
          let p = add_quantifier (l * q) p
          in Some (if q > 0 then p\<lparr>existential_vars := existential_vars p + 1\<rparr>
                   else p\<lparr>universal_vars := universal_vars p + 1\<rparr>, i, c, q)
        else Some (p, i, c, 0)
      else if l \<noteq> 0 then do {
        p \<leftarrow> push_literal (l * sign) p;
        Some (p, i, c + 1, q) }
      else do {
        p \<leftarrow> add_clause (p\<lparr>remaining_clauses_to_parse := remaining_clauses_to_parse p - 1\<rparr>);
        Some (p, i + 1, c, q) })"

lemma skip_length: "skip ln s = Parsed (ln', Some c, s') \<Longrightarrow> length s' < length s"
proof (induction ln s arbitrary: ln' c s' rule: skip.induct)
  case (2 ln c s)
  then show ?case
    by (fastforce split: if_splits option.splits dest!: skip_comment_length)
qed simp

lemma read_digits_length: "read_digits acc s = Parsed (l, s') \<Longrightarrow> length s' \<le> length s"
  by (induction acc s rule: read_digits.induct) (auto split: if_splits)

lemma getc_length: "getc s = (c, s') \<Longrightarrow> length s' \<le> length s"
  by (auto simp: getc_def split: list.splits)

text \<open>
  One round of the loop at \<^verbatim>\<open>NEXT\<close>, up to the jump back (\<open>Inr\<close>, the locals \<open>i\<close>, \<open>c\<close>, \<open>q\<close>, the
  parser and the remaining text) or the return (\<open>Inl\<close>).
\<close>

type_synonym body_state = "int \<times> int \<times> int \<times> parser \<times> string"

definition read_literal ::
  "int \<Rightarrow> int \<Rightarrow> int \<Rightarrow> int \<Rightarrow> int \<Rightarrow> int \<Rightarrow> parser \<Rightarrow> char \<Rightarrow> string \<Rightarrow> (parser + body_state) parsed" where
  "read_literal m n sign i c q p d s =
     pbind (read_digits (digit d) s) (\<lambda>(l, s). case getc s of (ch, s) \<Rightarrow>
       if \<not> (case ch of None \<Rightarrow> True | Some x \<Rightarrow> is_blank x \<or> x = LF)
       then ParseFail ExpectedSpaceAfterLiteral
       else if l > m then ParseFail MaximumVariableIndexExceeded
       else if \<not> force p \<and> q = 0 \<and> i = n then ParseFail TooManyClauses
       else (case take_literal sign l i c q
                    (if ch = Some LF then p\<lparr>lineno := lineno p + 1\<rparr> else p) of
               None \<Rightarrow> ParseUB
             | Some (p, i, c, q) \<Rightarrow> Parsed (Inr (i, c, q, p, s))))"

definition read_sign :: "char \<Rightarrow> string \<Rightarrow> int \<times> char option \<times> string" where
  "read_sign ch s = (if ch = CHR ''-'' then (- 1, getc s) else (1, Some ch, s))"

definition body_step :: "int \<Rightarrow> int \<Rightarrow> body_state \<Rightarrow> (parser + body_state) parsed" where
  "body_step m n st = (case st of (i, c, q, p, s) \<Rightarrow>
     pbind (skip (lineno p) s) (\<lambda>(ln, ch, s).
       let p = p\<lparr>lineno := ln\<rparr> in case ch of
       None \<Rightarrow> if \<not> force p \<and> i < n then ParseFail ClausesMissing
               else Parsed (Inl (p\<lparr>orig_clauses := i\<rparr>))
     | Some ch \<Rightarrow>
         if ch = CHR ''-'' \<and> q \<noteq> 0 then ParseFail NegativeNumberInPrefix
         else (case read_sign ch s of (sign, ch, s) \<Rightarrow>
           if sign = - 1 \<and> ch = Some (CHR ''0'') then ParseFail MinusFollowedByZero
           else if ch = Some (CHR ''e'') then
             if c \<noteq> 0 then ParseFail ExistsAfterClause
             else if q \<noteq> 0 then ParseFail ZeroMissingAfterExists
             else Parsed (Inr (i, c, 1, p, s))
           else if ch = Some (CHR ''a'') then
             if c \<noteq> 0 then ParseFail ForallAfterClause
             else if q \<noteq> 0 then ParseFail ZeroMissingAfterForall
             else Parsed (Inr (i, c, - 1, p, s))
           else (case ch of
             None \<Rightarrow> ParseFail ExpectedDigit
           | Some d \<Rightarrow> if \<not> isdigit d then ParseFail ExpectedDigit
                       else read_literal m n sign i c q p d s))))"

lemma pbind_Parsed: "pbind x f = Parsed y \<longleftrightarrow> (\<exists>z. x = Parsed z \<and> f z = Parsed y)"
  by (cases x) auto

lemma read_literal_cases:
  assumes "read_literal m n sign i c q p d s = Parsed r"
  obtains l s1 ch s2 p' i' c' q' where "read_digits (digit d) s = Parsed (l, s1)" "getc s1 = (ch, s2)"
    "l \<le> m" "\<not> (\<not> force p \<and> q = 0 \<and> i = n)"
    "take_literal sign l i c q (if ch = Some LF then p\<lparr>lineno := lineno p + 1\<rparr> else p) = Some (p', i', c', q')"
    "r = Inr (i', c', q', p', s2)"
proof -
  from assms obtain l s1 where d: "read_digits (digit d) s = Parsed (l, s1)"
    by (auto simp: read_literal_def pbind_Parsed)
  obtain ch s2 where g: "getc s1 = (ch, s2)" by (cases "getc s1")
  from assms d g have c: "l \<le> m" "\<not> (\<not> force p \<and> q = 0 \<and> i = n)"
    "(case take_literal sign l i c q (if ch = Some LF then p\<lparr>lineno := lineno p + 1\<rparr> else p) of
        None \<Rightarrow> ParseUB | Some (p, i, c, q) \<Rightarrow> Parsed (Inr (i, c, q, p, s2))) = Parsed r"
    by (simp_all add: read_literal_def not_le [symmetric] split: if_split_asm)
  from c(3) show thesis
    by (cases "take_literal sign l i c q (if ch = Some LF then p\<lparr>lineno := lineno p + 1\<rparr> else p)")
      (auto intro: that [OF d g c(1,2)])
qed

lemma body_step_cases:
  assumes "body_step m n (i, c, q, p, s) = Parsed r"
  obtains (finish) ln s' where "skip (lineno p) s = Parsed (ln, None, s')" "force p \<or> n \<le> i"
      "r = Inl (p\<lparr>lineno := ln, orig_clauses := i\<rparr>)"
  | (quantifier) ln ch s' sign k s2 where "skip (lineno p) s = Parsed (ln, Some ch, s')"
      "read_sign ch s' = (sign, k, s2)" "c = 0" "q = 0"
      "r = Inr (i, c, 1, p\<lparr>lineno := ln\<rparr>, s2) \<or> r = Inr (i, c, - 1, p\<lparr>lineno := ln\<rparr>, s2)"
  | (literal) ln ch s' sign d s2 where "skip (lineno p) s = Parsed (ln, Some ch, s')"
      "read_sign ch s' = (sign, Some d, s2)" "sign \<noteq> - 1 \<or> d \<noteq> CHR ''0''" "sign = - 1 \<longrightarrow> q = 0"
      "isdigit d" "read_literal m n sign i c q (p\<lparr>lineno := ln\<rparr>) d s2 = Parsed r"
proof -
  from assms obtain ln ch s' where sk: "skip (lineno p) s = Parsed (ln, ch, s')"
    by (auto simp: body_step_def Let_def pbind_Parsed)
  show thesis
  proof (cases ch)
    case None
    with assms sk show thesis
      by (intro finish) (auto simp: body_step_def Let_def split: if_split_asm)
  next
    case (Some x)
    obtain sign k s2 where sg: "read_sign x s' = (sign, k, s2)" by (cases "read_sign x s'")
    have sq: "sign = - 1 \<longrightarrow> x = CHR ''-''" using sg by (auto simp: read_sign_def split: if_splits)
    show thesis
    proof (cases "k = Some (CHR ''e'') \<or> k = Some (CHR ''a'')")
      case True
      with assms sk Some sg show thesis
        by (intro quantifier [of ln x s' sign k s2]) (auto simp: body_step_def Let_def split: if_split_asm)
    next
      case False
      with assms sk Some sg show thesis
        by (cases k) (auto simp: body_step_def Let_def sq split: if_split_asm intro!: literal [of ln x s' sign _ s2])
    qed
  qed
qed

lemma read_sign_length: "read_sign ch s = (sign, k, s') \<Longrightarrow> length s' \<le> length s"
  by (auto simp: read_sign_def dest: getc_length split: if_split_asm)

lemma body_step_length:
  assumes "body_step m n (i, c, q, p, s) = Parsed (Inr (i', c', q', p', s'))"
  shows "length s' < length s"
  using assms
proof (cases rule: body_step_cases)
  case (quantifier ln ch s1 sign k s2)
  then show ?thesis by (auto dest!: skip_length read_sign_length)
next
  case (literal ln ch s1 sign d s2)
  from literal(6) have "length s' \<le> length s2"
    by (rule read_literal_cases) (auto dest!: read_digits_length getc_length)
  with literal(1,2) show ?thesis by (auto dest!: skip_length read_sign_length)
qed auto

function parse_body :: "int \<Rightarrow> int \<Rightarrow> body_state \<Rightarrow> parser parsed" where
  "parse_body m n st = (case body_step m n st of
       Parsed (Inr st) \<Rightarrow> parse_body m n st
     | Parsed (Inl p) \<Rightarrow> Parsed p
     | ParseFail e \<Rightarrow> ParseFail e
     | ParseUB \<Rightarrow> ParseUB)"
  by pat_completeness auto
termination
  by (relation "measure (\<lambda>(m, n, i, c, q, p, s). length s)") (auto dest: body_step_length)

declare parse_body.simps [simp del]

text \<open>\<^verbatim>\<open>Parser::parse(FILE*)\<close>; it asserts that no variable was counted before.\<close>

definition parse_file :: "parser \<Rightarrow> string \<Rightarrow> parser parsed" where
  "parse_file p s =
     (if universal_vars p \<noteq> 0 \<or> existential_vars p \<noteq> 0 then ParseUB
      else pbind (parse_header s) (\<lambda>(ln, m, n, s).
        parse_body m n (0, 0, 0,
          p\<lparr>lineno := ln, remaining := m, num_vars := m, remaining_clauses_to_parse := n\<rparr>, s)))"

text \<open>
  \<^verbatim>\<open>Parser::parse()\<close>: \<open>fs\<close> is the file system.  An error message becomes the status; the parser
  is then left as it was, which nobody reads.
\<close>

definition parse :: "(string \<rightharpoonup> string) \<Rightarrow> parser \<Rightarrow> (parac_status \<times> parser) option" where
  "parse fs p = (case fs (m_path p) of
       None \<Rightarrow> Some (PARAC_FILE_NOT_FOUND_ERROR, p)
     | Some s \<Rightarrow> (case parse_file p s of
         ParseUB \<Rightarrow> None
       | ParseFail e \<Rightarrow> Some (PARAC_PARSE_ERROR, p)
       | Parsed p \<Rightarrow> Some (PARAC_OK, p)))"

text \<open>
  \<^verbatim>\<open>processInputToPath\<close>: \<open>to_file\<close> is \<^verbatim>\<open>StringToFile\<close>, which writes a temporary file and
  returns its name.
\<close>

definition processInputToPath ::
  "(string \<Rightarrow> parac_status \<times> string) \<Rightarrow> string \<Rightarrow> parser \<Rightarrow> (parac_status \<times> parser) option" where
  "processInputToPath to_file input p = (case input of
       [] \<Rightarrow> Some (PARAC_INVALID_PATH_ERROR, p)
     | c # rest \<Rightarrow>
         if c = CHR '':'' then
           (case to_file rest of (status, tmp) \<Rightarrow>
              if status \<noteq> PARAC_OK then Some (status, p)
              else do { c_assert (tmp \<noteq> []); Some (PARAC_OK, p\<lparr>m_path := tmp, m_fileToDelete := Some tmp\<rparr>) })
         else Some (PARAC_OK, p\<lparr>m_path := input\<rparr>))"

definition prepare :: "(string \<Rightarrow> parac_status \<times> string) \<Rightarrow> string \<Rightarrow> parser \<Rightarrow> (parac_status \<times> parser) option" where
  "prepare to_file input p = processInputToPath to_file input p"

definition isTrivial :: "parser \<Rightarrow> bool" where
  "isTrivial p \<longleftrightarrow> length (m_quantifiers p) = 0"

definition isTrivialSAT :: "parser \<Rightarrow> bool" where
  "isTrivialSAT p \<longleftrightarrow> length (m_literals p) = 0"

definition isTrivialUNSAT :: "parser \<Rightarrow> bool" where
  "isTrivialUNSAT p \<longleftrightarrow> length (m_literals p) = 1 \<and> m_literals p ! 0 = 0"

text \<open>\<^verbatim>\<open>QBFParserTask::work\<close>: the status, and what the callback receives.\<close>

definition parser_task_work ::
  "(string \<rightharpoonup> string) \<Rightarrow> parser \<Rightarrow> (parac_status \<times> (parac_status \<times> parser)) option" where
  "parser_task_work fs p = map_option (\<lambda>(status, p). (status, (status, p))) (parse fs p)"

section \<open>The literal buffer\<close>

text \<open>The buffer holds the literals of the clause that is being read.\<close>

definition buf_ok :: "int list \<Rightarrow> parser \<Rightarrow> bool" where
  "buf_ok pend p \<longleftrightarrow> size_lits p = length (lits p) \<and> num_lits p = length pend
     \<and> length pend \<le> length (lits p) \<and> take (length pend) (lits p) = pend"

lemma resize_take: "k \<le> length xs \<Longrightarrow> k \<le> n \<Longrightarrow> take k (resize n xs) = take k xs"
  by (simp add: resize_def min_def)

lemma length_resize [simp]: "length (resize n xs) = n"
  by (simp add: resize_def)

lemma enlarge_lits_buf:
  assumes "buf_ok pend p" "enlarge_lits p = Some p'" "length (lits p) \<le> length pend + 1" 
    "length pend + 1 < 2147483646"
  shows "buf_ok pend p'" "length pend < length (lits p')" "length (lits p') \<le> 2 * (length pend + 1)"
    "p' = p\<lparr>lits := lits p', size_lits := size_lits p'\<rparr>"
proof -
  from assms(2) have p': "p' = p\<lparr>lits := resize (size_lits p') (lits p), size_lits := size_lits p'\<rparr>"
    "size_lits p' = min 2147483646 (if size_lits p \<noteq> 0 then 2 * size_lits p else 1)"
    by (auto simp: enlarge_lits_def Let_def bind_eq_Some_conv min_def)
  have s: "size_lits p = length (lits p)" "length pend \<le> length (lits p)" using assms(1) by (auto simp: buf_ok_def)
  have len: "length (lits p') = size_lits p'" by (subst p'(1)) simp
  show l: "length pend < length (lits p')" using assms(4) s unfolding len p'(2) by (cases "lits p") auto
  show "buf_ok pend p'"
    using assms(1) l unfolding buf_ok_def len by (subst (1 2 3) p'(1)) (simp add: resize_take)
  show "length (lits p') \<le> 2 * (length pend + 1)" using assms(3) s unfolding len p'(2) by auto
  show "p' = p\<lparr>lits := lits p', size_lits := size_lits p'\<rparr>" by (subst (1 2) p'(1)) simp
qed

text \<open>Growing if needed and storing one literal, for \<open>push_literal\<close> and \<open>add_clause\<close>.\<close>

lemma store_lit_buf:
  assumes "buf_ok pend p" "length pend + 1 < 2147483646"
  obtains p1 p' where "(if length (lits p) \<le> length pend + 1 then enlarge_lits p else Some p) = Some p1"
    "store_lit l p1 = Some p'" "buf_ok (pend @ [l]) p'"
    "p' = p\<lparr>num_lits := length pend + 1, size_lits := size_lits p', lits := lits p'\<rparr>"
    "m_highestLit p1 = m_highestLit p"
proof -
  obtain p1 where e: "(if length (lits p) \<le> length pend + 1 then enlarge_lits p else Some p) = Some p1"
  proof (cases "length (lits p) \<le> length pend + 1")
    case True
    moreover have "size_lits p < 2147483646" using True assms by (simp add: buf_ok_def)
    ultimately show thesis using that by (simp add: enlarge_lits_def Let_def)
  qed (use that in simp)
  have p1: "buf_ok pend p1 \<and> length pend < length (lits p1) \<and>
    p1 = p\<lparr>lits := lits p1, size_lits := size_lits p1\<rparr>"
  proof (cases "length (lits p) \<le> length pend + 1")
    case True
    with e have "enlarge_lits p = Some p1" by simp
    from enlarge_lits_buf [OF assms(1) this True assms(2)] show ?thesis by blast
  next
    case False
    with e assms show ?thesis by simp
  qed
  note p1 = conjunct1 [OF p1] conjunct1 [OF conjunct2 [OF p1]] conjunct2 [OF conjunct2 [OF p1]]
  let ?p = "p1\<lparr>lits := (lits p1)[length pend := l], num_lits := length pend + 1\<rparr>"
  have "store_lit l p1 = Some ?p"
    using p1(1,2) by (auto simp: store_lit_def buf_ok_def)
  moreover have "buf_ok (pend @ [l]) ?p"
    using p1(1,2) by (auto simp: buf_ok_def take_Suc_conv_app_nth)
  moreover have "?p = p\<lparr>num_lits := length pend + 1, size_lits := size_lits ?p, lits := lits ?p\<rparr>"
    by (subst (1) p1(3)) simp
  moreover have "m_highestLit p1 = m_highestLit p" by (subst p1(3)) simp
  ultimately show thesis using that e by blast
qed

lemma push_literal_ok:
  assumes "buf_ok pend p" "length pend + 1 < 2147483646" "abs l \<le> num_vars p"
  obtains p' where "push_literal l p = Some p'" "buf_ok (pend @ [l]) p'"
    "p' = p\<lparr>num_lits := length pend + 1, size_lits := size_lits p', lits := lits p',
      m_highestLit := max (m_highestLit p) (abs l)\<rparr>" "lits p' \<noteq> []"
proof -
  from store_lit_buf [OF assms(1,2)] obtain p1 p2 where
    e: "(if length (lits p) \<le> length pend + 1 then enlarge_lits p else Some p) = Some p1"
    and s: "store_lit l p1 = Some p2" and b: "buf_ok (pend @ [l]) p2"
    and p2: "p2 = p\<lparr>num_lits := length pend + 1, size_lits := size_lits p2, lits := lits p2\<rparr>" by blast
  have sz: "size_lits p = length (lits p)" "num_lits p = length pend" using assms(1) by (auto simp: buf_ok_def)
  have h: "m_highestLit p2 = m_highestLit p" by (subst p2) simp
  let ?p = "if abs l > m_highestLit p2 then p2\<lparr>m_highestLit := abs l\<rparr> else p2"
  have "push_literal l p = Some ?p"
    using assms(3) e s sz by (simp add: push_literal_def)
  moreover have "buf_ok (pend @ [l]) ?p" using b by (simp add: buf_ok_def)
  moreover have "?p = p\<lparr>num_lits := length pend + 1, size_lits := size_lits ?p, lits := lits ?p,
      m_highestLit := max (m_highestLit p) (abs l)\<rparr>"
    using h by (auto simp: max_def, (subst (1) p2, simp)+)
  moreover have "lits ?p \<noteq> []" using b by (auto simp: buf_ok_def)
  ultimately show thesis using that by blast
qed

lemma add_clause_ok:
  assumes "buf_ok pend p" "length pend + 1 < 2147483646"
  obtains p' where "add_clause p = Some p'" "buf_ok [] p'"
    "p' = p\<lparr>m_literals := m_literals p @ pend @ [0], num_lits := 0, size_lits := size_lits p', lits := lits p',
      m_clauseCount := m_clauseCount p + (if lits p = [] then 0 else 1)\<rparr>" "lits p' = [] \<longleftrightarrow> lits p = []"
proof (cases "lits p = []")
  case True
  let ?p = "p\<lparr>m_literals := m_literals p @ [0]\<rparr>"
  have n: "pend = []" "num_lits p = 0" using assms(1) True by (auto simp: buf_ok_def)
  have "add_clause p = Some ?p" "buf_ok [] ?p" using assms(1) True by (auto simp: add_clause_def buf_ok_def)
  moreover have "?p = p\<lparr>m_literals := m_literals p @ pend @ [0], num_lits := 0, size_lits := size_lits ?p, lits := lits ?p,
      m_clauseCount := m_clauseCount p + (if lits p = [] then 0 else 1)\<rparr>"
    using n True by simp
  ultimately show thesis using that True by simp
next
  case False
  from store_lit_buf [OF assms] obtain p1 p2 where
    e: "(if length (lits p) \<le> length pend + 1 then enlarge_lits p else Some p) = Some p1"
    and s: "store_lit 0 p1 = Some p2" and b: "buf_ok (pend @ [0]) p2"
    and p2: "p2 = p\<lparr>num_lits := length pend + 1, size_lits := size_lits p2, lits := lits p2\<rparr>" by blast
  have sz: "num_lits p = length pend" using assms(1) by (auto simp: buf_ok_def)
  have t: "take (num_lits p2) (lits p2) = pend @ [0]" using b by (simp add: buf_ok_def)
  have m: "m_literals p2 = m_literals p" "m_clauseCount p2 = m_clauseCount p" by (subst p2, simp)+
  let ?p = "p2\<lparr>m_literals := m_literals p @ pend @ [0], num_lits := 0, m_clauseCount := m_clauseCount p + 1\<rparr>"
  have "add_clause p = Some ?p" using False e s sz t m by (simp add: add_clause_def)
  moreover have "buf_ok [] ?p" using b by (simp add: buf_ok_def)
  moreover have "?p = p\<lparr>m_literals := m_literals p @ pend @ [0], num_lits := 0, size_lits := size_lits ?p, lits := lits ?p,
      m_clauseCount := m_clauseCount p + (if lits p = [] then 0 else 1)\<rparr>"
    using False by (subst (1) p2) simp
  moreover have "lits ?p \<noteq> []" using b by (auto simp: buf_ok_def)
  ultimately show thesis using that False by blast
qed

section \<open>What is read\<close>

text \<open>The flat literal list of a list of clauses: each clause is followed by a zero.\<close>

definition flat :: "int list list \<Rightarrow> int list" where
  "flat cls = concat (map (\<lambda>cl. cl @ [0]) cls)"

definition lits_in :: "int \<Rightarrow> int list \<Rightarrow> bool" where
  "lits_in m ls \<longleftrightarrow> (\<forall>l \<in> set ls. l \<noteq> 0 \<and> abs l \<le> m)"

definition highest :: "int list \<Rightarrow> int" where
  "highest ls = Max (insert 0 (abs ` set ls))"

lemma highest_snoc [simp]: "highest (ls @ [l]) = max (highest ls) (abs l)"
  by (simp add: highest_def insert_commute [of 0] max.commute)

definition body_ok :: "int \<Rightarrow> int list list \<Rightarrow> int list \<Rightarrow> int \<Rightarrow> parser \<Rightarrow> bool" where
  "body_ok n cls pend c p \<longleftrightarrow> buf_ok pend p \<and> m_literals p = flat cls
     \<and> lits_in (num_vars p) (concat cls @ pend) \<and> lits_in (num_vars p) (m_quantifiers p)
     \<and> \<not> force p \<and> c = int (length (concat cls @ pend))
     \<and> int (length cls) + (if pend = [] then 0 else 1) \<le> n
     \<and> m_highestLit p = highest (concat cls @ pend)
     \<and> (lits p = [] \<longleftrightarrow> concat cls @ pend = [])
     \<and> m_clauseCount p = int (length (dropWhile (\<lambda>cl. cl = []) cls))
     \<and> existential_vars p = int (length (filter (\<lambda>k. k > 0) (m_quantifiers p)))
     \<and> universal_vars p = int (length (filter (\<lambda>k. k < 0) (m_quantifiers p)))
     \<and> remaining_clauses_to_parse p = n - int (length cls)"

lemma dropWhile_snoc_clause:
  "concat cls @ pend \<noteq> [] \<Longrightarrow>
   length (dropWhile (\<lambda>cl. cl = []) (cls @ [pend])) = length (dropWhile (\<lambda>cl. cl = []) cls) + 1"
  by (induction cls) auto

lemma body_ok_lineno [simp]: "body_ok n cls pend c (p\<lparr>lineno := x\<rparr>) = body_ok n cls pend c p"
  by (simp add: body_ok_def buf_ok_def)

text \<open>The three kinds of literals: of the prefix, of a clause, and the terminating zero.\<close>

lemma take_quantifier:
  assumes "body_ok n cls pend c p" "q \<in> {1, - 1}" "0 < l" "l \<le> num_vars p"
  shows "take_literal sign l i c q p = Some (let p = p\<lparr>m_quantifiers := m_quantifiers p @ [l * q]\<rparr> in
      if q > 0 then p\<lparr>existential_vars := existential_vars p + 1\<rparr> else p\<lparr>universal_vars := universal_vars p + 1\<rparr>, i, c, q)"
    "body_ok n cls pend c (let p = p\<lparr>m_quantifiers := m_quantifiers p @ [l * q]\<rparr> in
      if q > 0 then p\<lparr>existential_vars := existential_vars p + 1\<rparr> else p\<lparr>universal_vars := universal_vars p + 1\<rparr>)"
  using assms by (auto simp: take_literal_def add_quantifier_def Let_def body_ok_def buf_ok_def lits_in_def)

lemma take_clause_literal:
  assumes ok: "body_ok n cls pend c p" and l: "sign \<in> {1, - 1}" "0 < l" "l \<le> num_vars p"
    and len: "length pend + 1 < 2147483646" and n: "int (length cls) < n"
  obtains p' where "take_literal sign l i c 0 p = Some (p', i, c + 1, 0)" "body_ok n cls (pend @ [l * sign]) (c + 1) p'"
    "num_vars p' = num_vars p" "lineno p' = lineno p" "m_quantifiers p' = m_quantifiers p"
proof -
  have a: "abs (l * sign) = l" "l * sign \<noteq> 0" using l by auto
  have b: "buf_ok pend p" using ok by (simp add: body_ok_def)
  from push_literal_ok [OF b len, of "l * sign"] a l(3) obtain p' where
    p': "push_literal (l * sign) p = Some p'" "buf_ok (pend @ [l * sign]) p'"
      "p' = p\<lparr>num_lits := length pend + 1, size_lits := size_lits p', lits := lits p',
        m_highestLit := max (m_highestLit p) l\<rparr>" "lits p' \<noteq> []" by auto
  have f: "m_literals p' = m_literals p" "num_vars p' = num_vars p" "m_quantifiers p' = m_quantifiers p"
    "force p' = force p" "m_highestLit p' = max (m_highestLit p) l" "m_clauseCount p' = m_clauseCount p"
    "existential_vars p' = existential_vars p" "universal_vars p' = universal_vars p"
    "remaining_clauses_to_parse p' = remaining_clauses_to_parse p" "lineno p' = lineno p"
    by (subst p'(3), simp)+
  show thesis
  proof (rule that [OF _ _ f(2) f(10) f(3)])
    show "take_literal sign l i c 0 p = Some (p', i, c + 1, 0)" using p'(1) l by (simp add: take_literal_def)
    have "highest (concat cls @ pend @ [l * sign]) = max (highest (concat cls @ pend)) l"
      using highest_snoc [of "concat cls @ pend" "l * sign"] a by simp
    then show "body_ok n cls (pend @ [l * sign]) (c + 1) p'"
      using ok p'(2,4) n a l(3) unfolding body_ok_def f by (auto simp: lits_in_def)
  qed
qed

lemma take_clause_end:
  assumes ok: "body_ok n cls pend c p"
    and len: "length pend + 1 < 2147483646" and n: "int (length cls) < n"
  obtains p' where "take_literal sign 0 i c 0 p = Some (p', i + 1, c, 0)" "body_ok n (cls @ [pend]) [] c p'"
    "num_vars p' = num_vars p" "lineno p' = lineno p" "m_quantifiers p' = m_quantifiers p"
proof -
  let ?p = "p\<lparr>remaining_clauses_to_parse := remaining_clauses_to_parse p - 1\<rparr>"
  have b: "buf_ok pend ?p" using ok by (simp add: body_ok_def buf_ok_def)
  from add_clause_ok [OF b len] obtain p' where p': "add_clause ?p = Some p'" "buf_ok [] p'"
    "p' = ?p\<lparr>m_literals := m_literals ?p @ pend @ [0], num_lits := 0, size_lits := size_lits p', lits := lits p',
      m_clauseCount := m_clauseCount ?p + (if lits ?p = [] then 0 else 1)\<rparr>" "lits p' = [] \<longleftrightarrow> lits ?p = []" by blast
  have f: "m_literals p' = m_literals p @ pend @ [0]" "num_vars p' = num_vars p" "m_quantifiers p' = m_quantifiers p"
    "force p' = force p" "m_highestLit p' = m_highestLit p"
    "m_clauseCount p' = m_clauseCount p + (if lits p = [] then 0 else 1)"
    "existential_vars p' = existential_vars p" "universal_vars p' = universal_vars p"
    "remaining_clauses_to_parse p' = remaining_clauses_to_parse p - 1" "lineno p' = lineno p"
    by (subst p'(3), simp)+
  have cc: "m_clauseCount p' = int (length (dropWhile (\<lambda>cl. cl = []) (cls @ [pend])))"
  proof (cases "concat cls @ pend = []")
    case True
    then have "\<forall>cl \<in> set (cls @ [pend]). cl = []" by auto
    then have "dropWhile (\<lambda>cl. cl = []) (cls @ [pend]) = []" "dropWhile (\<lambda>cl. cl = []) cls = []"
      by (simp_all only: dropWhile_eq_Nil_conv) auto
    with True ok show ?thesis by (simp add: f body_ok_def)
  next
    case False
    with ok dropWhile_snoc_clause [OF False] show ?thesis by (simp add: f body_ok_def)
  qed
  show thesis
  proof (rule that [OF _ _ f(2) f(10) f(3)])
    show "take_literal sign 0 i c 0 p = Some (p', i + 1, c, 0)" using p'(1) by (simp add: take_literal_def)
    show "body_ok n (cls @ [pend]) [] c p'"
      using ok p'(2,4) n cc unfolding body_ok_def f(1-5,7-9) by (auto simp: flat_def)
  qed
qed

section \<open>Every accepted file\<close>

definition body_inv :: "int \<Rightarrow> int \<Rightarrow> nat \<Rightarrow> body_state \<Rightarrow> bool" where
  "body_inv m n N st = (case st of (i, c, q, p, s) \<Rightarrow> \<exists>cls pend. i = int (length cls) \<and> q \<in> {1, - 1, 0}
     \<and> num_vars p = m \<and> body_ok n cls pend c p \<and> length pend + length s \<le> N)"

lemma read_digits_nonneg: "read_digits acc s = Parsed (l, s') \<Longrightarrow> 0 \<le> acc \<Longrightarrow> 0 \<le> l"
proof (induction acc s rule: read_digits.induct)
  case (2 acc c s)
  then show ?case using digit_range [of c] by (auto split: if_split_asm)
qed simp

lemma body_ok_tl: "body_ok n cls pend c p \<Longrightarrow> int (length cls) \<noteq> n \<Longrightarrow> int (length cls) < n"
  by (auto simp: body_ok_def split: if_splits)

lemma body_step_inv:
  assumes st: "body_step m n (i, c, q, p, s) = Parsed (Inr st')" and inv: "body_inv m n N (i, c, q, p, s)"
    and N: "N < 2147483645"
  shows "body_inv m n N st'"
proof -
  from inv obtain cls pend where i: "i = int (length cls)" "q \<in> {1, - 1, 0}" "num_vars p = m"
    and ok: "body_ok n cls pend c p" and len: "length pend + length s \<le> N" by (auto simp: body_inv_def)
  from st show ?thesis
  proof (cases rule: body_step_cases)
    case (quantifier ln ch s1 sign k s2)
    then have "length pend + length s2 \<le> N" using len by (auto dest!: skip_length read_sign_length)
    then have "body_inv m n N (i, c, k, p\<lparr>lineno := ln\<rparr>, s2)" if "k \<in> {1, - 1}" for k
      unfolding body_inv_def using that i ok by (auto intro!: exI [of _ cls] exI [of _ pend])
    with quantifier(5) show ?thesis by auto
  next
    case (literal ln ch s1 sign d s2)
    from literal(6) obtain l s3 ch2 s4 p' i' c' q' where
      rd: "read_digits (digit d) s2 = Parsed (l, s3)" "getc s3 = (ch2, s4)" "l \<le> m"
      and tm: "\<not> (\<not> force (p\<lparr>lineno := ln\<rparr>) \<and> q = 0 \<and> i = n)"
      and tl: "take_literal sign l i c q (if ch2 = Some LF then p\<lparr>lineno := ln\<rparr>\<lparr>lineno := lineno (p\<lparr>lineno := ln\<rparr>) + 1\<rparr>
          else p\<lparr>lineno := ln\<rparr>) = Some (p', i', c', q')"
      and st': "Inr st' = (Inr (i', c', q', p', s4) :: parser + body_state)" by (rule read_literal_cases)
    define p0 where "p0 = (if ch2 = Some LF then p\<lparr>lineno := ln\<rparr>\<lparr>lineno := lineno (p\<lparr>lineno := ln\<rparr>) + 1\<rparr>
          else p\<lparr>lineno := ln\<rparr>)"
    have ok0: "body_ok n cls pend c p0" and nv: "num_vars p0 = m" using ok i(3) by (auto simp: p0_def)
    have l0: "0 \<le> l" using read_digits_nonneg [OF rd(1)] literal(5) by (simp add: digit_range)
    have sg: "sign \<in> {1, - 1}" using literal(2) by (auto simp: read_sign_def split: if_splits)
    have ln: "length s4 < length s"
      using literal(1,2) rd by (auto dest!: skip_length read_sign_length read_digits_length getc_length)
    note tl = tl [folded p0_def]
    have "\<exists>cls pend'. i' = int (length cls) \<and> q' \<in> {1, - 1, 0} \<and> num_vars p' = m \<and> body_ok n cls pend' c' p'
      \<and> length pend' \<le> length pend + 1"
    proof (cases "q = 0")
      case False
      then show ?thesis
      proof (cases "l = 0")
        case True
        with False tl i ok0 nv show ?thesis by (auto simp: take_literal_def intro!: exI [of _ cls])
      next
        case l: False
        have q: "q \<in> {1, - 1}" "0 < l" "l \<le> num_vars p0" using False i l l0 rd(3) nv by auto
        from take_quantifier [OF ok0 q] tl i nv show ?thesis
          by (auto simp: Let_def intro!: exI [of _ cls] exI [of _ pend])
      qed
    next
      case True
      have n: "int (length cls) < n" using body_ok_tl [OF ok] tm True i ok by (auto simp: body_ok_def)
      have lp: "length pend + 1 < 2147483646" using len N by simp
      show ?thesis
      proof (cases "l = 0")
        case l: True
        from take_clause_end [OF ok0 lp n, of sign i] obtain p1 where
          "take_literal sign 0 i c 0 p0 = Some (p1, i + 1, c, 0)" "body_ok n (cls @ [pend]) [] c p1"
          "num_vars p1 = num_vars p0" by blast
        with tl True l i nv show ?thesis by (intro exI [of _ "cls @ [pend]"] exI [of _ "[]"]) auto
      next
        case False
        with l0 have "0 < l" by simp
        from take_clause_literal [OF ok0 sg this _ lp n, of i] rd(3) nv obtain p1 where
          "take_literal sign l i c 0 p0 = Some (p1, i, c + 1, 0)" "body_ok n cls (pend @ [l * sign]) (c + 1) p1"
          "num_vars p1 = num_vars p0" by auto
        with tl True i nv show ?thesis by (intro exI [of _ cls] exI [of _ "pend @ [l * sign]"]) auto
      qed
    qed
    with st' ln len show ?thesis by (fastforce simp: body_inv_def)
  qed simp
qed

lemma parse_body_inv:
  assumes "parse_body m n st = Parsed p" "body_inv m n N st" "N < 2147483645"
  shows "\<exists>cls c. n = int (length cls) \<and> body_ok n cls [] c p \<and> num_vars p = m \<and> orig_clauses p = n"
  using assms
proof (induction m n st arbitrary: p rule: parse_body.induct)
  case (1 m n st)
  obtain i c q p0 s where st: "st = (i, c, q, p0, s)" by (cases st)
  show ?case
  proof (cases "body_step m n st")
    case (Parsed r)
    show ?thesis
    proof (cases r)
      case (Inl p1)
      have p: "p1 = p" using 1(2) Parsed Inl by (simp add: parse_body.simps)
      from Parsed Inl have "body_step m n (i, c, q, p0, s) = Parsed (Inl p1)" by (simp add: st)
      then show ?thesis
      proof (cases rule: body_step_cases)
        case (finish ln s')
        from 1(3) obtain cls pend where inv: "i = int (length cls)" "num_vars p0 = m" "body_ok n cls pend c p0"
          by (auto simp: st body_inv_def)
        have "\<not> force p0" "int (length cls) + (if pend = [] then 0 else 1) \<le> n"
          using inv(3) by (simp_all add: body_ok_def)
        with finish(2) inv(1) have n: "pend = []" "n = int (length cls)" by (auto split: if_split_asm)
        have pe: "p = p0\<lparr>lineno := ln, orig_clauses := i\<rparr>" using finish(3) p by simp
        have "body_ok n cls [] c p" using inv(3) unfolding pe n by (simp add: body_ok_def buf_ok_def)
        with n inv show ?thesis by (intro exI [of _ cls] exI [of _ c]) (simp add: pe)
      next
        case (literal ln ch s' sign d s2)
        from literal(6) show ?thesis by (rule read_literal_cases) simp
      qed simp
    next
      case (Inr st')
      with 1(2) Parsed have "parse_body m n st' = Parsed p" by (simp add: parse_body.simps)
      moreover have "body_inv m n N st'"
        using body_step_inv Parsed Inr 1(3,4) unfolding st by blast
      ultimately show ?thesis using 1(1) [OF Parsed Inr] 1(4) by blast
    qed
  qed (use 1(2) in \<open>simp_all add: parse_body.simps\<close>)
qed

lemma header_end_length: "header_end s = Parsed s' \<Longrightarrow> length s' \<le> length s"
  by (induction s) (auto simp: herr_def split: if_split_asm)

lemma skip_spaces_length: "length (skip_spaces s) \<le> length s"
  by (induction s) auto

lemma expect_length: "expect c s = Parsed s' \<Longrightarrow> length s' \<le> length s"
  by (auto simp: expect_def herr_def dest: getc_length split: prod.splits if_split_asm)

lemma header_number_length: "header_number s = Parsed (m, s') \<Longrightarrow> length s' \<le> length s \<and> 0 \<le> m"
proof -
  assume a: "header_number s = Parsed (m, s')"
  then obtain c s1 where c: "getc s = (Some c, s1)" "isdigit c" "read_digits (digit c) s1 = Parsed (m, s')"
    by (auto simp: header_number_def herr_def split: prod.splits option.splits if_split_asm)
  from read_digits_nonneg [OF c(3)] c(2) have "0 \<le> m" by (simp add: digit_range)
  with read_digits_length [OF c(3)] getc_length [OF c(1)] show ?thesis by simp
qed

lemma skip_length_le: "skip ln s = Parsed (ln', c, s') \<Longrightarrow> length s' \<le> length s"
proof (induction ln s arbitrary: ln' c s' rule: skip.induct)
  case (2 ln c s)
  then show ?case by (fastforce split: if_splits option.splits dest!: skip_comment_length)
qed simp

lemma parse_header_length:
  assumes "parse_header s = Parsed (ln, m, n, s')"
  shows "length s' \<le> length s \<and> 0 \<le> n"
proof -
  note [simp] = pbind_Parsed herr_def
  from assms obtain s1 where 1: "skip 1 s = Parsed (ln - 1, Some (CHR ''p''), s1)"
    by (auto simp: parse_header_def split: if_split_asm)
  with assms obtain s2 s3 s4 s5 s6 s7 s8 s9 where
    2: "expect SP s1 = Parsed s2" "expect (CHR ''c'') (skip_spaces s2) = Parsed s3" "expect (CHR ''n'') s3 = Parsed s4"
      "expect (CHR ''f'') s4 = Parsed s5" "expect SP s5 = Parsed s6" "header_number (skip_spaces s6) = Parsed (m, s7)"
      "expect SP s7 = Parsed s8" "header_number (skip_spaces s8) = Parsed (n, s9)" "header_end s9 = Parsed s'"
    by (auto simp: parse_header_def)
  have "length s9 \<le> length s8" "0 \<le> n" "length s7 \<le> length s6" "length s3 \<le> length s2"
    using header_number_length [OF 2(8)] header_number_length [OF 2(6)] expect_length [OF 2(2)] skip_spaces_length
      order_trans by blast+
  with 1 2(1,3,4,5,7,9) show ?thesis by (auto dest!: skip_length_le expect_length header_end_length)
qed

text \<open>
  C38 (every accepted file is well formed).  When the parser accepts a file of less than two gigabytes,
  its literal list is a sequence of zero-terminated clauses, exactly as many as the header announces;
  every literal and every quantified variable is within the announced range and not zero; the highest
  literal, the numbers of existential and universal variables and the clause counters are those of what
  was read.  The public clause count leaves out the empty clauses before the first literal.
\<close>

theorem parse_wellformed:
  assumes "parse_file parser_init s = Parsed p" "length s < 2147483645"
  shows "\<exists>cls ln rest. parse_header s = Parsed (ln, num_vars p, int (length cls), rest)
    \<and> m_literals p = flat cls \<and> orig_clauses p = int (length cls) \<and> remaining_clauses_to_parse p = 0
    \<and> lits_in (num_vars p) (concat cls) \<and> lits_in (num_vars p) (m_quantifiers p)
    \<and> m_highestLit p = highest (concat cls)
    \<and> existential_vars p = int (length (filter (\<lambda>k. quantifier_type k = EXISTENTIAL) (m_quantifiers p)))
    \<and> universal_vars p = int (length (filter (\<lambda>k. quantifier_type k = UNIVERSAL) (m_quantifiers p)))
    \<and> m_clauseCount p = int (length (dropWhile (\<lambda>cl. cl = []) cls))"
proof -
  from assms(1) obtain ln m n s' where h: "parse_header s = Parsed (ln, m, n, s')"
    and b: "parse_body m n (0, 0, 0, parser_init\<lparr>lineno := ln, remaining := m, num_vars := m,
      remaining_clauses_to_parse := n\<rparr>, s') = Parsed p"
    by (auto simp: parse_file_def pbind_Parsed split: if_split_asm)
  from parse_header_length [OF h] have "body_inv m n (length s) (0, 0, 0, parser_init\<lparr>lineno := ln, remaining := m,
      num_vars := m, remaining_clauses_to_parse := n\<rparr>, s')"
    by (auto simp: body_inv_def body_ok_def buf_ok_def parser_init_def flat_def lits_in_def highest_def
        intro!: exI [of _ "[]"])
  from parse_body_inv [OF b this assms(2)] obtain cls c where
    r: "n = int (length cls)" "body_ok n cls [] c p" "num_vars p = m" "orig_clauses p = n" by blast
  have q: "filter (\<lambda>k. quantifier_type k = EXISTENTIAL) ks = filter (\<lambda>k. 0 < k) ks" for ks
    by (simp add: quantifier_type_def cong: filter_cong)
  have u: "filter (\<lambda>k. quantifier_type k = UNIVERSAL) ks = filter (\<lambda>k. k < 0) ks" if "lits_in m ks" for ks
    using that by (intro filter_cong) (auto simp: quantifier_type_def lits_in_def)
  show ?thesis
    by (rule exI [of _ cls], rule exI [of _ ln], rule exI [of _ s'])
      (use h r u [of "m_quantifiers p"] in \<open>simp add: body_ok_def q\<close>)
qed

section \<open>Reading back a printed formula\<close>

definition show_lit :: "int \<Rightarrow> string" where
  "show_lit l = (if l < 0 then ''-'' else []) @ nat_to_str (nat (abs l))"

definition show_clause :: "int list \<Rightarrow> string" where
  "show_clause cl = concat (map (\<lambda>l. show_lit l @ [SP]) cl) @ [CHR ''0'', LF]"

definition show_block :: "QuantifierType \<times> nat list \<Rightarrow> string" where
  "show_block b = (case b of (ty, vs) \<Rightarrow>
     (if ty = EXISTENTIAL then CHR ''e'' else CHR ''a'') # SP #
     concat (map (\<lambda>v. nat_to_str v @ [SP]) vs) @ [CHR ''0'', LF])"

definition show_qbf :: "nat \<Rightarrow> (QuantifierType \<times> nat list) list \<Rightarrow> int list list \<Rightarrow> string" where
  "show_qbf m bs cls = ''p cnf '' @ nat_to_str m @ [SP] @ nat_to_str (length cls) @ [LF]
     @ concat (map show_block bs) @ concat (map show_clause cls)"

definition block_lits :: "QuantifierType \<times> nat list \<Rightarrow> int list" where
  "block_lits b = (case b of (ty, vs) \<Rightarrow> map (\<lambda>v. if ty = EXISTENTIAL then int v else - int v) vs)"

lemma read_digits_val:
  assumes "\<forall>c \<in> set ds. isdigit c" "0 \<le> acc" "digits_val acc ds \<le> INT_MAX" "s = [] \<or> \<not> isdigit (hd s)"
  shows "read_digits acc (ds @ s) = Parsed (digits_val acc ds, s)"
  using assms
proof (induction ds arbitrary: acc)
  case Nil
  then show ?case by (cases s) (auto simp: digits_val_def)
next
  case (Cons c ds)
  from Cons.prems digit_range [of c] have a: "0 \<le> 10 * acc + digit c" by auto
  with digits_val_ge [OF a, of ds] Cons show ?case by (simp add: digits_val_def)
qed

definition is_sep :: "char \<Rightarrow> bool" where "is_sep c \<longleftrightarrow> c = SP \<or> c = LF"

lemma char_facts [simp]:
  "\<not> isdigit SP" "\<not> isdigit LF" "is_blank SP" "\<not> is_blank LF" "SP \<noteq> LF" "LF \<noteq> SP"
  by (simp_all add: isdigit_def is_blank_def SP_def LF_def TAB_def CR_def)

lemma digit_char: "isdigit d \<Longrightarrow> d \<noteq> LF \<and> \<not> is_blank d \<and> d \<noteq> CHR ''c'' \<and> d \<noteq> CHR ''-'' \<and> d \<noteq> CHR ''e'' \<and> d \<noteq> CHR ''a'' \<and> d \<noteq> SP"
  by (auto simp: isdigit_def is_blank_def SP_def LF_def TAB_def CR_def)

lemma read_nat:
  assumes "nat_to_str k = d # ds" "isdigit d" "\<forall>c \<in> set ds. isdigit c" "int k \<le> INT_MAX" "is_sep x"
  shows "read_digits (digit d) (ds @ x # s) = Parsed (int k, x # s)"
proof -
  have v: "digits_val (digit d) ds = int k" using digits_val_nat [of k] assms(1) by (simp add: digits_val_def)
  have "\<not> isdigit x" using assms(5) by (auto simp: is_sep_def)
  with read_digits_val [of ds "digit d" "x # s"] assms digit_range [of d] v show ?thesis by simp
qed

text \<open>One printed number, positive or negative, is one round of the loop.\<close>

definition after_sep :: "char \<Rightarrow> parser \<Rightarrow> parser" where
  "after_sep x p = (if x = LF then p\<lparr>lineno := lineno p + 1\<rparr> else p)"

lemma body_number:
  assumes "int k \<le> m" "m \<le> INT_MAX" "is_sep x" "\<not> (\<not> force p \<and> q = 0 \<and> i = n)"
    and t: "take_literal 1 (int k) i c q (after_sep x p) = Some (p', i', c', q')"
  shows "body_step m n (i, c, q, p, nat_to_str k @ x # s) = Parsed (Inr (i', c', q', p', s))"
proof -
  obtain d ds where k: "nat_to_str k = d # ds" "isdigit d" "\<forall>c \<in> set ds. isdigit c" by (rule nat_to_str_Cons)
  have r: "read_digits (digit d) (ds @ x # s) = Parsed (int k, x # s)" using read_nat [OF k] assms by simp
  have "skip (lineno p) (d # ds @ x # s) = Parsed (lineno p, Some d, ds @ x # s)"
    using digit_char [OF k(2)] by simp
  then show ?thesis
    using r digit_char [OF k(2)] k(2) assms
    by (auto simp: body_step_def k(1) Let_def read_sign_def read_literal_def getc_def is_sep_def after_sep_def)
qed

lemma body_negative:
  assumes "0 < k" "int k \<le> m" "m \<le> INT_MAX" "is_sep x" "\<not> (\<not> force p \<and> i = n)"
    and t: "take_literal (- 1) (int k) i c 0 (after_sep x p) = Some (p', i', c', q')"
  shows "body_step m n (i, c, 0, p, CHR ''-'' # nat_to_str k @ x # s) = Parsed (Inr (i', c', q', p', s))"
proof -
  obtain d ds where k: "nat_to_str k = d # ds" "isdigit d" "\<forall>c \<in> set ds. isdigit c" "d \<noteq> CHR ''0''"
    by (rule nat_to_str_Cons [of k]) (use assms(1) in simp)
  have r: "read_digits (digit d) (ds @ x # s) = Parsed (int k, x # s)" using read_nat [OF k(1-3)] assms by simp
  have "skip (lineno p) (CHR ''-'' # d # ds @ x # s) = Parsed (lineno p, Some (CHR ''-''), d # ds @ x # s)"
    by (simp add: LF_def is_blank_def SP_def TAB_def CR_def)
  then show ?thesis
    using r digit_char [OF k(2)] k(2,4) assms
    by (auto simp: body_step_def k(1) Let_def read_sign_def read_literal_def getc_def is_sep_def after_sep_def)
qed

lemma body_quantifier:
  assumes "x = (if ty = EXISTENTIAL then CHR ''e'' else CHR ''a'')"
  shows "body_step m n (i, 0, 0, p, x # s) = Parsed (Inr (i, 0, if ty = EXISTENTIAL then 1 else - 1, p, s))"
proof -
  have "skip (lineno p) (x # s) = Parsed (lineno p, Some x, s)"
    using assms by (simp add: LF_def is_blank_def SP_def TAB_def CR_def)
  then show ?thesis using assms by (simp add: body_step_def Let_def read_sign_def)
qed

lemma body_space: "body_step m n (i, c, q, p, SP # s) = body_step m n (i, c, q, p, s)"
  by (simp add: body_step_def)

lemma parse_body_step: "body_step m n st = Parsed (Inr st') \<Longrightarrow> parse_body m n st = parse_body m n st'"
  by (subst parse_body.simps) simp

lemma parse_body_space: "parse_body m n (i, c, q, p, SP # s) = parse_body m n (i, c, q, p, s)"
  by (subst (1 2) parse_body.simps) (simp add: body_space)

lemma body_ok_after_sep [simp]:
  "body_ok n cls pend c (after_sep x p) = body_ok n cls pend c p" "num_vars (after_sep x p) = num_vars p"
  "m_quantifiers (after_sep x p) = m_quantifiers p"
  by (simp_all add: after_sep_def)

lemma zero_str: "CHR ''0'' # x # s = nat_to_str 0 @ x # s"
proof -
  have "nat_to_str 0 = ''0''" by code_simp
  then show ?thesis by simp
qed

lemma parse_vars:
  assumes "body_ok n [] [] 0 p" "q \<in> {1, - 1}" "\<forall>v \<in> set vs. 0 < v \<and> int v \<le> m" "num_vars p = m" "m \<le> INT_MAX"
  shows "\<exists>p'. parse_body m n (0, 0, q, p, concat (map (\<lambda>v. nat_to_str v @ [SP]) vs) @ s) = parse_body m n (0, 0, q, p', s)
    \<and> body_ok n [] [] 0 p' \<and> num_vars p' = m \<and> m_quantifiers p' = m_quantifiers p @ map (\<lambda>v. int v * q) vs"
  using assms
proof (induction vs arbitrary: p)
  case (Cons v vs)
  have v: "0 < int v" "int v \<le> num_vars (after_sep SP p)" "body_ok n [] [] 0 (after_sep SP p)"
    using Cons.prems by auto
  note t = take_quantifier [OF v(3) Cons.prems(2) v(1,2)]
  let ?p1 = "let p = after_sep SP p\<lparr>m_quantifiers := m_quantifiers (after_sep SP p) @ [int v * q]\<rparr> in
      if q > 0 then p\<lparr>existential_vars := existential_vars p + 1\<rparr> else p\<lparr>universal_vars := universal_vars p + 1\<rparr>"
  have "body_step m n (0, 0, q, p, nat_to_str v @ SP # concat (map (\<lambda>v. nat_to_str v @ [SP]) vs) @ s)
      = Parsed (Inr (0, 0, q, ?p1, concat (map (\<lambda>v. nat_to_str v @ [SP]) vs) @ s))"
    by (rule body_number [OF _ _ _ _ t(1)]) (use Cons.prems in \<open>auto simp: is_sep_def\<close>)
  moreover have "num_vars ?p1 = m" "m_quantifiers ?p1 = m_quantifiers p @ [int v * q]"
    using Cons.prems by (simp_all add: Let_def)
  moreover note Cons.IH [OF t(2) Cons.prems(2)] Cons.prems
  ultimately show ?case by (auto dest!: parse_body_step)
qed (use assms in auto)

lemma parse_block:
  assumes "body_ok n [] [] 0 p" "\<forall>v \<in> set (snd b). 0 < v \<and> int v \<le> m" "num_vars p = m" "m \<le> INT_MAX" "0 \<le> m"
  shows "\<exists>p'. parse_body m n (0, 0, 0, p, show_block b @ s) = parse_body m n (0, 0, 0, p', s)
    \<and> body_ok n [] [] 0 p' \<and> num_vars p' = m \<and> m_quantifiers p' = m_quantifiers p @ block_lits b"
proof -
  obtain ty vs where b: "b = (ty, vs)" by (cases b)
  define q :: int where "q = (if ty = EXISTENTIAL then 1 else - 1)"
  have q: "q \<in> {1, - 1}" "q \<noteq> 0" by (auto simp: q_def)
  from parse_vars [OF assms(1) q(1), of vs m "CHR ''0'' # LF # s"] assms b obtain p1 where p1:
    "parse_body m n (0, 0, q, p, concat (map (\<lambda>v. nat_to_str v @ [SP]) vs) @ CHR ''0'' # LF # s)
       = parse_body m n (0, 0, q, p1, CHR ''0'' # LF # s)"
    "body_ok n [] [] 0 p1" "num_vars p1 = m" "m_quantifiers p1 = m_quantifiers p @ map (\<lambda>v. int v * q) vs" by auto
  have z: "take_literal 1 (int 0) 0 0 q (after_sep LF p1) = Some (after_sep LF p1, 0, 0, 0)"
    using q by (simp add: take_literal_def)
  have "body_step m n (0, 0, q, p1, CHR ''0'' # LF # s) = Parsed (Inr (0, 0, 0, after_sep LF p1, s))"
    unfolding zero_str by (rule body_number [OF _ _ _ _ z]) (use assms q in \<open>auto simp: is_sep_def\<close>)
  moreover have "body_step m n (0, 0, 0, p, show_block b @ s) = Parsed (Inr (0, 0, q, p,
      SP # concat (map (\<lambda>v. nat_to_str v @ [SP]) vs) @ CHR ''0'' # LF # s))"
    unfolding b show_block_def q_def by (simp add: body_quantifier)
  moreover have "map (\<lambda>v. int v * q) vs = block_lits b" by (simp add: block_lits_def b q_def)
  ultimately show ?thesis using p1
    by (intro exI [of _ "after_sep LF p1"]) (simp add: parse_body_step parse_body_space)
qed

lemma parse_blocks:
  assumes "body_ok n [] [] 0 p" "\<forall>b \<in> set bs. \<forall>v \<in> set (snd b). 0 < v \<and> int v \<le> m" "num_vars p = m" "m \<le> INT_MAX" "0 \<le> m"
  shows "\<exists>p'. parse_body m n (0, 0, 0, p, concat (map show_block bs) @ s) = parse_body m n (0, 0, 0, p', s)
    \<and> body_ok n [] [] 0 p' \<and> num_vars p' = m \<and> m_quantifiers p' = m_quantifiers p @ concat (map block_lits bs)"
  using assms
proof (induction bs arbitrary: p)
  case (Cons b bs)
  from parse_block [OF Cons.prems(1) _ Cons.prems(3,4,5), of b "concat (map show_block bs) @ s"] Cons.prems(2)
  obtain p1 where p1: "parse_body m n (0, 0, 0, p, show_block b @ concat (map show_block bs) @ s)
      = parse_body m n (0, 0, 0, p1, concat (map show_block bs) @ s)" "body_ok n [] [] 0 p1" "num_vars p1 = m"
      "m_quantifiers p1 = m_quantifiers p @ block_lits b" by auto
  from Cons.IH [OF p1(2) _ p1(3) Cons.prems(4,5)] Cons.prems(2) p1 show ?case by auto
qed auto

lemma parse_lits:
  assumes "body_ok n cls pend c p" "lits_in m ls" "num_vars p = m" "m \<le> INT_MAX" "int (length cls) < n"
    "length pend + length ls + 1 < 2147483646" "i = int (length cls)"
  shows "\<exists>p'. parse_body m n (i, c, 0, p, concat (map (\<lambda>l. show_lit l @ [SP]) ls) @ s)
      = parse_body m n (i, c + int (length ls), 0, p', s)
    \<and> body_ok n cls (pend @ ls) (c + int (length ls)) p' \<and> num_vars p' = m \<and> m_quantifiers p' = m_quantifiers p"
  using assms
proof (induction ls arbitrary: p pend c)
  case (Cons l ls)
  define sign :: int where "sign = (if l < 0 then - 1 else 1)"
  have l: "l = int (nat (abs l)) * sign" "sign \<in> {1, - 1}" "0 < int (nat (abs l))" "int (nat (abs l)) \<le> m"
    "int (nat (abs l)) \<le> num_vars (after_sep SP p)" "length pend + 1 < 2147483646"
    using Cons.prems by (auto simp: sign_def lits_in_def)
  have ok: "body_ok n cls pend c (after_sep SP p)" using Cons.prems by simp
  from take_clause_literal [OF ok l(2,3,5,6) Cons.prems(5), of i] obtain p1 where
    p1: "take_literal sign (int (nat (abs l))) i c 0 (after_sep SP p) = Some (p1, i, c + 1, 0)"
      "body_ok n cls (pend @ [l]) (c + 1) p1" "num_vars p1 = m" "m_quantifiers p1 = m_quantifiers p"
    using l(1) Cons.prems(3) by auto
  have "body_step m n (i, c, 0, p, show_lit l @ SP # concat (map (\<lambda>l. show_lit l @ [SP]) ls) @ s)
      = Parsed (Inr (i, c + 1, 0, p1, concat (map (\<lambda>l. show_lit l @ [SP]) ls) @ s))"
  proof (cases "l < 0")
    case True
    then show ?thesis using body_negative [of "nat (abs l)" m SP p i n c] p1(1) l Cons.prems
      by (simp add: show_lit_def sign_def is_sep_def)
  next
    case False
    then show ?thesis using body_number [of "nat (abs l)" m SP p 0 i n c] p1(1) l Cons.prems
      by (simp add: show_lit_def sign_def is_sep_def)
  qed
  from parse_body_step [OF this] Cons.IH [OF p1(2) _ p1(3)] Cons.prems p1(4) show ?case
    by (auto simp: lits_in_def add.assoc)
qed (use assms in auto)

lemma parse_clause:
  assumes "body_ok n cls [] c p" "lits_in m cl" "num_vars p = m" "m \<le> INT_MAX" "int (length cls) < n"
    "length cl + 1 < 2147483646" "0 \<le> m"
  shows "\<exists>p' c'. parse_body m n (int (length cls), c, 0, p, show_clause cl @ s)
      = parse_body m n (int (length (cls @ [cl])), c', 0, p', s)
    \<and> body_ok n (cls @ [cl]) [] c' p' \<and> num_vars p' = m \<and> m_quantifiers p' = m_quantifiers p"
proof -
  from parse_lits [OF assms(1-5), of "int (length cls)" "CHR ''0'' # LF # s"] assms(6) obtain p1 where p1:
    "parse_body m n (int (length cls), c, 0, p, concat (map (\<lambda>l. show_lit l @ [SP]) cl) @ CHR ''0'' # LF # s)
      = parse_body m n (int (length cls), c + int (length cl), 0, p1, CHR ''0'' # LF # s)"
    "body_ok n cls cl (c + int (length cl)) p1" "num_vars p1 = m" "m_quantifiers p1 = m_quantifiers p" by auto
  have ok: "body_ok n cls cl (c + int (length cl)) (after_sep LF p1)" using p1 by simp
  from take_clause_end [OF ok assms(6,5), of 1 "int (length cls)"] obtain p2 where p2:
    "take_literal 1 (int 0) (int (length cls)) (c + int (length cl)) 0 (after_sep LF p1)
      = Some (p2, int (length cls) + 1, c + int (length cl), 0)"
    "body_ok n (cls @ [cl]) [] (c + int (length cl)) p2" "num_vars p2 = m" "m_quantifiers p2 = m_quantifiers p1"
    using p1 by auto
  have "body_step m n (int (length cls), c + int (length cl), 0, p1, CHR ''0'' # LF # s)
      = Parsed (Inr (int (length cls) + 1, c + int (length cl), 0, p2, s))"
    unfolding zero_str by (rule body_number [OF _ _ _ _ p2(1)]) (use assms in \<open>auto simp: is_sep_def\<close>)
  with p1 p2 show ?thesis
    by (intro exI [of _ p2] exI [of _ "c + int (length cl)"]) (simp add: show_clause_def parse_body_step add.commute)
qed

lemma parse_clauses:
  assumes "body_ok n cls [] c p" "\<forall>cl \<in> set cls'. lits_in m cl \<and> length cl + 1 < 2147483646" "num_vars p = m"
    "m \<le> INT_MAX" "int (length cls + length cls') = n" "0 \<le> m"
  shows "\<exists>p' c'. parse_body m n (int (length cls), c, 0, p, concat (map show_clause cls'))
      = Parsed (p'\<lparr>orig_clauses := n\<rparr>)
    \<and> body_ok n (cls @ cls') [] c' p' \<and> num_vars p' = m \<and> m_quantifiers p' = m_quantifiers p"
  using assms
proof (induction cls' arbitrary: cls c p)
  case Nil
  have "body_step m n (int (length cls), c, 0, p, []) = Parsed (Inl (p\<lparr>orig_clauses := n\<rparr>))"
    using Nil by (simp add: body_step_def Let_def)
  with Nil show ?case by (auto simp: parse_body.simps intro!: exI [of _ p] exI [of _ c])
next
  case (Cons cl cls')
  from parse_clause [OF Cons.prems(1) _ Cons.prems(3,4) _ _ Cons.prems(6), of cl "concat (map show_clause cls')"]
    Cons.prems(2,5) obtain p1 c1 where p1: "parse_body m n (int (length cls), c, 0, p, show_clause cl @ concat (map show_clause cls'))
      = parse_body m n (int (length (cls @ [cl])), c1, 0, p1, concat (map show_clause cls'))"
      "body_ok n (cls @ [cl]) [] c1 p1" "num_vars p1 = m" "m_quantifiers p1 = m_quantifiers p" by auto
  from Cons.IH [OF p1(2) _ p1(3)] Cons.prems p1 show ?case by auto
qed

lemma header_number_nat:
  assumes "int k \<le> INT_MAX" "is_sep x"
  shows "header_number (nat_to_str k @ x # s) = Parsed (int k, x # s)"
proof -
  obtain d ds where k: "nat_to_str k = d # ds" "isdigit d" "\<forall>c \<in> set ds. isdigit c" by (rule nat_to_str_Cons)
  from read_nat [OF k assms] k show ?thesis by (simp add: header_number_def getc_def)
qed

lemma skip_spaces_nat: "skip_spaces (nat_to_str k @ s) = nat_to_str k @ s"
  by (rule nat_to_str_Cons [of k]) (auto dest: digit_char)

lemma parse_header_show:
  assumes "int m \<le> INT_MAX" "int n \<le> INT_MAX"
  shows "parse_header (''p cnf '' @ nat_to_str m @ [SP] @ nat_to_str n @ [LF] @ s) = Parsed (2, int m, int n, s)"
proof -
  have "skip 1 (''p cnf '' @ t) = Parsed (1, Some (CHR ''p''), '' cnf '' @ t)" for t
    by (simp add: LF_def is_blank_def SP_def TAB_def CR_def)
  then show ?thesis
    using assms unfolding parse_header_def
    by (simp add: expect_def getc_def header_number_nat is_sep_def skip_spaces_nat) (simp add: SP_def skip_spaces_nat)
qed

lemma parse_show_qbf:
  assumes "int m \<le> INT_MAX" "int (length cls) \<le> INT_MAX"
    and "\<forall>b \<in> set bs. \<forall>v \<in> set (snd b). 0 < v \<and> v \<le> m"
    and "\<forall>cl \<in> set cls. lits_in (int m) cl \<and> length cl < 2147483645"
  shows "\<exists>p. parse_file parser_init (show_qbf m bs cls) = Parsed p
    \<and> m_quantifiers p = concat (map block_lits bs) \<and> m_literals p = concat (map (\<lambda>cl. cl @ [0]) cls)
    \<and> num_vars p = int m \<and> orig_clauses p = int (length cls)"
proof -
  let ?n = "int (length cls)"
  let ?p = "parser_init\<lparr>lineno := 2, remaining := int m, num_vars := int m, remaining_clauses_to_parse := ?n\<rparr>"
  have "body_ok ?n [] [] 0 ?p"
    by (simp add: body_ok_def buf_ok_def parser_init_def flat_def lits_in_def highest_def)
  from parse_blocks [OF this, of bs "int m" "concat (map show_clause cls)"] assms(1,3) obtain p1 where p1:
    "parse_body (int m) ?n (0, 0, 0, ?p, concat (map show_block bs) @ concat (map show_clause cls))
      = parse_body (int m) ?n (0, 0, 0, p1, concat (map show_clause cls))" "body_ok ?n [] [] 0 p1"
    "num_vars p1 = int m" "m_quantifiers p1 = concat (map block_lits bs)" by (auto simp: parser_init_def)
  from parse_clauses [OF p1(2) _ p1(3) assms(1), of cls] assms(4) obtain p2 c2 where p2:
    "parse_body (int m) ?n (0, 0, 0, p1, concat (map show_clause cls)) = Parsed (p2\<lparr>orig_clauses := ?n\<rparr>)"
    "body_ok ?n cls [] c2 p2" "num_vars p2 = int m" "m_quantifiers p2 = m_quantifiers p1" by auto
  have "parse_file parser_init (show_qbf m bs cls) = Parsed (p2\<lparr>orig_clauses := ?n\<rparr>)"
    using parse_header_show [OF assms(1,2), of "concat (map show_block bs) @ concat (map show_clause cls)"] p1(1) p2(1)
    by (simp add: parse_file_def show_qbf_def) (simp add: parser_init_def)
  with p1 p2 show ?thesis by (simp add: body_ok_def flat_def)
qed

text \<open>
  C39 (printed formulas are read back).  For every prefix of quantifier blocks and every list of clauses
  over the variables 1 to \<open>m\<close>, printed in the QDIMACS format, the parser succeeds and returns exactly
  the signed variables of the prefix, in order, and the clauses, each closed by a zero.
\<close>

theorem parse_print_roundtrip:
  assumes "int m \<le> INT_MAX" "int (length cls) \<le> INT_MAX"
    and "\<forall>b \<in> set bs. \<forall>v \<in> set (snd b). 0 < v \<and> v \<le> m"
    and "\<forall>cl \<in> set cls. lits_in (int m) cl \<and> length cl < 2147483645"
  shows "\<exists>p. parse_file parser_init (show_qbf m bs cls) = Parsed p
    \<and> m_quantifiers p = concat (map block_lits bs) \<and> m_literals p = concat (map (\<lambda>cl. cl @ [0]) cls)
    \<and> num_vars p = int m \<and> orig_clauses p = int (length cls)"
  using parse_show_qbf [OF assms] .

theorem parse_print_roundtrip_witness:
  "\<exists>p. parse_file parser_init (show_qbf 4 [(UNIVERSAL, [1, 2]), (EXISTENTIAL, [3, 4])] [[- 1, 2], [2, - 3, - 4]]) = Parsed p
    \<and> m_quantifiers p = [- 1, - 2, 3, 4] \<and> m_literals p = [- 1, 2, 0, 2, - 3, - 4, 0]"
  using parse_print_roundtrip [of 4 "[[- 1, 2], [2, - 3, - 4]]" "[(UNIVERSAL, [1, 2]), (EXISTENTIAL, [3, 4])]"]
  by (auto simp: INT_MAX_def lits_in_def block_lits_def)

theorem parse_wellformed_witness:
  "\<exists>p cls. parse_file parser_init (show_qbf 2 [] [[- 1, 2]]) = Parsed p \<and> m_literals p = [- 1, 2, 0]
    \<and> m_literals p = flat cls \<and> m_highestLit p = highest (concat cls) \<and> lits_in 2 (concat cls)"
proof -
  obtain p where p: "parse_file parser_init (show_qbf 2 [] [[- 1, 2]]) = Parsed p" "num_vars p = 2" "m_literals p = [- 1, 2, 0]"
    using parse_show_qbf [of 2 "[[- 1, 2]]" "[]"] by (auto simp: INT_MAX_def lits_in_def)
  have "length (show_qbf 2 [] [[- 1, 2]]) < 2147483645"
    by (simp add: show_qbf_def show_clause_def show_lit_def nat_to_str.simps)
  from parse_wellformed [OF p(1) this] p show ?thesis by auto
qed
end
