(* ===== verification/Splitting.thy ===== *)
theory Splitting
  imports Prelude
begin

text \<open>
  The contract between a cube source and the tree of tasks.  A source describes a part of the search
  space; splitting it gives the sources of its children.  What makes splitting correct is one law: the
  value of a source is the disjunction (existential) or conjunction (universal) of the values of its
  children.  Under this law a solved tree of any shape gives the right verdict at its root.
\<close>

datatype 's solve_tree = SolveLeaf 's | SolveNode 's "'s solve_tree list"

fun tree_root :: "'s solve_tree \<Rightarrow> 's" where
  "tree_root (SolveLeaf s) = s"
| "tree_root (SolveNode s ts) = s"

text \<open>The sources at the leaves, and the verdict the task tree computes from them.\<close>

fun tree_leaves :: "'s solve_tree \<Rightarrow> 's list" where
  "tree_leaves (SolveLeaf s) = [s]"
| "tree_leaves (SolveNode s ts) = concat (map tree_leaves ts)"

fun tree_verdict :: "('s \<Rightarrow> bool) \<Rightarrow> ('s \<Rightarrow> bool) \<Rightarrow> 's solve_tree \<Rightarrow> bool" where
  "tree_verdict ex val (SolveLeaf s) = val s"
| "tree_verdict ex val (SolveNode s ts) =
     (if ex s then \<exists>t \<in> set ts. tree_verdict ex val t else \<forall>t \<in> set ts. tree_verdict ex val t)"

text \<open>Every inner node is a legal split of its source.\<close>

fun split_tree :: "('s \<Rightarrow> 's list \<Rightarrow> bool) \<Rightarrow> 's solve_tree \<Rightarrow> bool" where
  "split_tree splits (SolveLeaf s) = True"
| "split_tree splits (SolveNode s ts) = (splits s (map tree_root ts) \<and> (\<forall>t \<in> set ts. split_tree splits t))"

locale sound_splitting =
  fixes splits :: "'s \<Rightarrow> 's list \<Rightarrow> bool"
    and ex :: "'s \<Rightarrow> bool"
    and val :: "'s \<Rightarrow> bool"
  assumes split_value: "splits s ks \<Longrightarrow> val s = (if ex s then \<exists>k \<in> set ks. val k else \<forall>k \<in> set ks. val k)"
begin

lemma verdict_value: "split_tree splits t \<Longrightarrow> tree_verdict ex val t = val (tree_root t)"
proof (induction t)
  case (SolveNode s ts)
  then have "val s = (if ex s then \<exists>k \<in> set (map tree_root ts). val k else \<forall>k \<in> set (map tree_root ts). val k)"
    by (intro split_value) simp
  with SolveNode show ?case by auto
qed simp

lemma verdict_by_leaves:
  assumes "split_tree splits t" "\<And>s. s \<in> set (tree_leaves t) \<Longrightarrow> leaf s = val s"
  shows "tree_verdict ex leaf t = val (tree_root t)"
proof -
  have "tree_verdict ex leaf t = tree_verdict ex val t"
    using assms(2) by (induction t) auto
  with verdict_value [OF assms(1)] show ?thesis by simp
qed

end

end
