(* ===== verification/QbfCubes.thy ===== *)
theory QbfCubes
  imports QbfParser Splitting
begin

unbundle bit_operations_syntax

text \<open>
  Splitting of quantified formulas: the integer based splits of
  \<^verbatim>\<open>modules/solver_qbf/solver_qbf_config.cpp\<close> and the quantifier tree source of
  \<^verbatim>\<open>qbf_cube_source.cpp\<close>.
\<close>

section \<open>Configuration\<close>

record quapi_solver =
  qs_path :: string
  qs_argv :: "string list"
  qs_envp :: "string list"
  qs_SAT_regex :: "string option"
  qs_UNSAT_regex :: "string option"

record qbf_config =
  m_originatorId :: parac_id
  m_useDepQBF :: bool
  m_treeDepth :: int
  m_integerBasedSplits :: "int list"
  m_quapiSolvers :: "quapi_solver list"
  m_quapiDebug :: bool

definition integerBasedSplitsEnabled :: "qbf_config \<Rightarrow> bool" where
  "integerBasedSplitsEnabled cfg \<longleftrightarrow> length (m_integerBasedSplits cfg) > 0"

text \<open>
  \<^verbatim>\<open>extractFromConfigEntries\<close>: the level of one argument.  \<open>stoi\<close> is the library function;
  \<open>None\<close> is an exception, after which the level keeps the value of \<^verbatim>\<open>resize\<close>, 0.
\<close>

definition int_split_level :: "(string \<Rightarrow> int option) \<Rightarrow> string \<Rightarrow> int" where
  "int_split_level stoi s = (case stoi s of None \<Rightarrow> 0 | Some v \<Rightarrow> if v < 0 then 0 else v)"

text \<open>\<^verbatim>\<open>boost::algorithm::split\<close> at one character: never empty.\<close>

fun split_at :: "char \<Rightarrow> string \<Rightarrow> string list" where
  "split_at d [] = [[]]"
| "split_at d (c # s) =
     (if c = d then [] # split_at d s
      else case split_at d s of [] \<Rightarrow> [[c]] | w # ws \<Rightarrow> (c # w) # ws)"

text \<open>
  The constructor of \<^verbatim>\<open>QuapiSolver\<close> from a command line argument; with five parts it reads
  index 5 of a vector of size 5.
\<close>

definition QuapiSolver_cli :: "string \<Rightarrow> quapi_solver option" where
  "QuapiSolver_cli cli =
     (let parts = split_at (CHR ''@'') cli;
          argv = (if length parts \<ge> 2 then split_at (CHR '' '') (parts ! 1) else []);
          envp = (if length parts \<ge> 3 then split_at (CHR '' '') (parts ! 2) else [])
      in do {
        c_assert (length parts \<noteq> 5);
        Some \<lparr>qs_path = parts ! 0, qs_argv = argv, qs_envp = envp, qs_SAT_regex = None, qs_UNSAT_regex = None\<rparr> })"

fun parseQuapiSolversCLI :: "string list \<Rightarrow> quapi_solver list \<Rightarrow> quapi_solver list option" where
  "parseQuapiSolversCLI [] acc = Some acc"
| "parseQuapiSolversCLI (a # as) acc = do {
     solver \<leftarrow> QuapiSolver_cli a;
     let acc = acc @ [solver];
     parseQuapiSolversCLI as (if qs_path solver = [] then butlast acc else acc) }"

definition extractFromConfigEntries ::
  "(string \<Rightarrow> int option) \<Rightarrow> bool \<Rightarrow> bool \<Rightarrow> int \<Rightarrow> string list \<Rightarrow> string list \<Rightarrow> qbf_config \<Rightarrow> qbf_config option" where
  "extractFromConfigEntries stoi use_depqbf quapi_debug tree_depth int_splits quapis cfg = do {
     let cfg = cfg\<lparr>m_useDepQBF := use_depqbf, m_quapiDebug := quapi_debug, m_treeDepth := tree_depth\<rparr>;
     let cfg = (if length int_splits > 0
                then cfg\<lparr>m_integerBasedSplits := map (int_split_level stoi) int_splits\<rparr> else cfg);
     solvers \<leftarrow> parseQuapiSolversCLI quapis (m_quapiSolvers cfg);
     let cfg = cfg\<lparr>m_quapiSolvers := solvers\<rparr>;
     Some (if \<not> m_useDepQBF cfg \<and> length (m_quapiSolvers cfg) = 0 then cfg\<lparr>m_useDepQBF := True\<rparr> else cfg) }"

text \<open>\<^verbatim>\<open>ceil_log2\<close>: the table of masks with the shift of each round.\<close>

definition log2_table :: "(u64 \<times> nat) list" where
  "log2_table = [(0xFFFFFFFF00000000, 32), (0x00000000FFFF0000, 16), (0x000000000000FF00, 8),
                 (0x00000000000000F0, 4), (0x000000000000000C, 2), (0x0000000000000002, 1)]"

fun log2_loop :: "(u64 \<times> nat) list \<Rightarrow> u64 \<Rightarrow> nat \<Rightarrow> nat" where
  "log2_loop [] x y = y"
| "log2_loop ((t, j) # ts) x y =
     (let k = (if x AND t = 0 then 0 else j) in log2_loop ts (drop_bit k x) (y + k))"

definition ceil_log2 :: "u64 \<Rightarrow> nat" where
  "ceil_log2 x = log2_loop log2_table x (if x AND (x - 1) = 0 then 0 else 1)"

definition integerBasedSplitsCurrentLength :: "qbf_config \<Rightarrow> nat \<Rightarrow> nat option" where
  "integerBasedSplitsCurrentLength cfg index = do {
     c_assert (index < length (m_integerBasedSplits cfg));
     let intSplit = m_integerBasedSplits cfg ! index;
     Some (if intSplit \<noteq> 0 then ceil_log2 (word_of_int intSplit) else 1) }"

function splits_index_loop :: "qbf_config \<Rightarrow> nat \<Rightarrow> nat \<Rightarrow> nat option" where
  "splits_index_loop cfg i len =
     (if i < length (m_integerBasedSplits cfg) then do {
        bits \<leftarrow> integerBasedSplitsCurrentLength cfg i;
        if len < bits then Some i else splits_index_loop cfg (i + 1) (len - bits) }
      else Some i)"
  by pat_completeness auto
termination by (relation "measure (\<lambda>(cfg, i, len). length (m_integerBasedSplits cfg) - i)") auto

declare splits_index_loop.simps [simp del]

definition integerBasedSplitsCurrentIndex :: "qbf_config \<Rightarrow> nat \<Rightarrow> nat option" where
  "integerBasedSplitsCurrentIndex cfg currentCubeLength = splits_index_loop cfg 0 currentCubeLength"

text \<open>
  \<^verbatim>\<open>fullyRealizedTreeDepth\<close>: the loop compares an unsigned counter with the signed depth, so a
  depth of -1 means \<open>2\<^sup>6\<^sup>4 - 1\<close> rounds.
\<close>

fun tree_depth_loop :: "qbf_config \<Rightarrow> nat \<Rightarrow> nat \<Rightarrow> nat \<Rightarrow> nat option" where
  "tree_depth_loop cfg i 0 d = Some d"
| "tree_depth_loop cfg i (Suc k) d =
     (if i < length (m_integerBasedSplits cfg) then do {
        bits \<leftarrow> integerBasedSplitsCurrentLength cfg i;
        tree_depth_loop cfg (i + 1) k (d + bits) }
      else tree_depth_loop cfg (i + 1) k (d + 1))"

definition fullyRealizedTreeDepth :: "qbf_config \<Rightarrow> nat option" where
  "fullyRealizedTreeDepth cfg = tree_depth_loop cfg 0 (unat (word_of_int (m_treeDepth cfg) :: u64)) 0"

section \<open>The quantifier tree source\<close>

record qtc =
  m_currentCube :: "int list"
  m_splittingLiterals :: "int list"
  m_splitCount :: nat

definition QuantifierTreeCubes_init :: "int list \<Rightarrow> qtc" where
  "QuantifierTreeCubes_init c = \<lparr>m_currentCube = c, m_splittingLiterals = [], m_splitCount = 0\<rparr>"

definition qtc_cubeSize :: "qtc \<Rightarrow> nat" where
  "qtc_cubeSize s = length (m_currentCube s)"

definition qtc_cube :: "qtc \<Rightarrow> int list" where
  "qtc_cube s = m_currentCube s"

text \<open>The loop that collects the variables of an integer based split; it gives up at another quantifier.\<close>

fun collect_literals :: "QuantifierType \<Rightarrow> int list \<Rightarrow> int list \<Rightarrow> int list" where
  "collect_literals ty [] acc = acc"
| "collect_literals ty (q # qs) acc =
     (if ty \<noteq> quantifier_type q then [] else collect_literals ty qs (acc @ [alit q]))"

text \<open>
  \<^verbatim>\<open>split\<close>: the returned flag, the flags left, right and extended, and the changed source.
\<close>

definition qtc_split :: "int list \<Rightarrow> qbf_config \<Rightarrow> qtc \<Rightarrow> (bool \<times> bool \<times> bool \<times> bool \<times> qtc) option" where
  "qtc_split quantifiers cfg s =
     (if length (m_currentCube s) < length quantifiers then do {
        ext \<leftarrow>
          (if integerBasedSplitsEnabled cfg then do {
             index \<leftarrow> integerBasedSplitsCurrentIndex cfg (length (m_currentCube s));
             if index < length (m_integerBasedSplits cfg) then do {
               let intSplit = m_integerBasedSplits cfg ! index;
               splitLength \<leftarrow> integerBasedSplitsCurrentLength cfg index;
               let n = length (m_currentCube s);
               if intSplit > 0 \<and> n + splitLength < length quantifiers then
                 let ls = collect_literals (quantifier_type (quantifiers ! n)) (take splitLength (drop n quantifiers)) []
                 in Some (if length ls > 0
                          then Some (s\<lparr>m_splittingLiterals := ls, m_splitCount := nat intSplit\<rparr>) else None)
               else Some None }
             else Some None }
           else Some None);
        Some (case ext of
            Some s' \<Rightarrow> (True, False, False, True, s')
          | None \<Rightarrow> (True, True, True, False,
                      s\<lparr>m_splittingLiterals := [alit (quantifiers ! length (m_currentCube s))]\<rparr>)) }
      else Some (False, False, False, False, s))"

definition qtc_leftChild :: "qtc \<Rightarrow> qtc option" where
  "qtc_leftChild s = do {
     c_assert (length (m_splittingLiterals s) = 1);
     Some (s\<lparr>m_currentCube := m_currentCube s @ [- (m_splittingLiterals s ! 0)], m_splittingLiterals := [0]\<rparr>) }"

definition qtc_rightChild :: "qtc \<Rightarrow> qtc option" where
  "qtc_rightChild s = do {
     c_assert (length (m_splittingLiterals s) = 1);
     Some (s\<lparr>m_currentCube := m_currentCube s @ [m_splittingLiterals s ! 0], m_splittingLiterals := [0]\<rparr>) }"

definition makeLitNeg :: "int \<Rightarrow> int" where "makeLitNeg l = (if l > 0 then - l else l)"
definition makeLitPos :: "int \<Rightarrow> int" where "makeLitPos l = (if l < 0 then - l else l)"

definition assignToSplittingLiterals :: "nat \<Rightarrow> int list \<Rightarrow> int list" where
  "assignToSplittingLiterals n s =
     map (\<lambda>i. if bit n (length s - i - 1) then makeLitPos (s ! i) else makeLitNeg (s ! i)) [0..<length s]"

text \<open>
  \<^verbatim>\<open>children\<close>: the split literals of the source itself are changed while the children are made;
  each child is a copy taken before.  The result are the children and the source.
\<close>

fun children_loop :: "nat \<Rightarrow> nat \<Rightarrow> qtc \<Rightarrow> qtc list \<Rightarrow> qtc list \<times> qtc" where
  "children_loop n 0 s acc = (acc, s)"
| "children_loop n (Suc k) s acc =
     (let ls = assignToSplittingLiterals n (m_splittingLiterals s)
      in children_loop (n + 1) k (s\<lparr>m_splittingLiterals := ls\<rparr>)
           (acc @ [s\<lparr>m_currentCube := m_currentCube s @ ls\<rparr>]))"

definition qtc_children :: "qtc \<Rightarrow> qtc list \<times> qtc" where
  "qtc_children s = children_loop 0 (m_splitCount s) s []"

section \<open>Rounded-up logarithms\<close>

lemma and_high_half:
  assumes "unat (x :: u64) < 2 ^ (2 * j)" "2 * j \<le> 64"
  shows "x AND push_bit j (mask j) = 0 \<longleftrightarrow> unat x < 2 ^ j"
proof -
  have hi: "\<not> bit x i" if "2 * j \<le> i" for i
    using assms(1) that bit_take_bit_iff [of "2 * j" "unat x" i] 
    by (metis bit_unat_iff linorder_not_less take_bit_nat_eq_self)
  have "x AND push_bit j (mask j) = 0 \<longleftrightarrow> (\<forall>i. j \<le> i \<longrightarrow> \<not> bit x i)"
  proof
    assume z: "x AND push_bit j (mask j) = 0"
    show "\<forall>i. j \<le> i \<longrightarrow> \<not> bit x i"
    proof (intro allI impI)
      fix i assume "j \<le> i"
      show "\<not> bit x i"
      proof (cases "i < 2 * j")
        case True
        have "\<not> bit (x AND push_bit j (mask j)) i" using z by simp
        with True \<open>j \<le> i\<close> assms(2) show ?thesis by (auto simp: bit_simps)
      qed (use hi in simp)
    qed
  next
    assume b: "\<forall>i. j \<le> i \<longrightarrow> \<not> bit x i"
    show "x AND push_bit j (mask j) = 0"
      by (rule bit_eqI) (use b in \<open>auto simp: bit_and_iff bit_push_bit_iff\<close>)
  qed
  also have "\<dots> \<longleftrightarrow> take_bit j (unat x) = unat x"
  proof
    assume "\<forall>i. j \<le> i \<longrightarrow> \<not> bit x i"
    then show "take_bit j (unat x) = unat x"
      by (intro bit_eqI) (metis bit_take_bit_iff bit_unat_iff linorder_not_less)
  next
    assume t: "take_bit j (unat x) = unat x"
    show "\<forall>i. j \<le> i \<longrightarrow> \<not> bit x i"
      by (metis t bit_take_bit_iff bit_unat_iff linorder_not_less)
  qed
  also have "\<dots> \<longleftrightarrow> unat x < 2 ^ j" by (rule take_bit_nat_eq_self_iff)
  finally show ?thesis .
qed

fun halves :: "nat \<Rightarrow> (u64 \<times> nat) list" where
  "halves 0 = [(push_bit 1 (mask 1), 1)]"
| "halves (Suc n) = (push_bit (2 ^ Suc n) (mask (2 ^ Suc n)), 2 ^ Suc n) # halves n"

lemma log2_table_halves: "log2_table = halves 5"
  by (simp add: log2_table_def eval_nat_numeral(3) numeral_eq_Suc mask_eq_exp_minus_1 push_bit_eq_mult)

lemma log2_loop_floor:
  "0 < unat x \<Longrightarrow> unat x < 2 ^ (2 ^ Suc n) \<Longrightarrow> n \<le> 5 \<Longrightarrow>
   \<exists>f. log2_loop (halves n) x y = y + f \<and> 2 ^ f \<le> unat x \<and> unat x < 2 ^ Suc f"
proof (induction n arbitrary: x y)
  case 0
  have "x AND push_bit 1 (mask 1) = 0 \<longleftrightarrow> unat x < 2 ^ 1"
    by (rule and_high_half) (use 0 in auto)
  then show ?case using 0 by auto
next
  case (Suc n)
  let ?j = "2 ^ Suc n :: nat"
  have j: "2 * ?j \<le> 64" using power_increasing [of "Suc (Suc n)" 6 "2::nat"] Suc.prems(3) by simp
  have a: "x AND push_bit ?j (mask ?j) = 0 \<longleftrightarrow> unat x < 2 ^ ?j"
    by (rule and_high_half) (use Suc.prems j in auto)
  show ?case
  proof (cases "unat x < 2 ^ ?j")
    case True
    with Suc.IH [of x y] Suc.prems a show ?thesis by (simp add: Let_def)
  next
    case False
    let ?x = "drop_bit ?j x"
    have u: "unat ?x = unat x div 2 ^ ?j" proof -
      have "take_bit 64 (unat x) = unat x" using unsigned_less [of x, where ?'a = nat] by (simp add: take_bit_nat_eq_self_iff)
      then show ?thesis by (subst unsigned_drop_bit_eq) (simp add: drop_bit_eq_div)
    qed
    have "unat x < 2 ^ ?j * 2 ^ ?j" using Suc.prems(2) by (simp add: power_add [symmetric] mult_2)
    then have "unat ?x < 2 ^ ?j" unfolding u by (simp add: less_mult_imp_div_less)
    moreover have "0 < unat ?x" using False unfolding u by (simp add: div_greater_zero_iff)
    ultimately obtain f where f: "log2_loop (halves n) ?x (y + ?j) = y + ?j + f" "2 ^ f \<le> unat ?x" "unat ?x < 2 ^ Suc f"
      using Suc.IH [of ?x "y + ?j"] Suc.prems(3) by auto
    have "2 ^ (?j + f) \<le> unat x"
      using f(2) unfolding u power_add by (metis less_eq_div_iff_mult_less_eq mult.commute zero_less_numeral zero_less_power)
    moreover have "unat x < 2 ^ Suc (?j + f)"
      using f(3) unfolding u by (metis add_Suc_right div_less_iff_less_mult mult.commute power_add zero_less_numeral zero_less_power)
    ultimately show ?thesis using f(1) a False by (intro exI [of _ "?j + f"]) (simp add: Let_def add.assoc)
  qed
qed

lemma power_of_two_test:
  assumes "2 ^ f \<le> unat x" "unat x < 2 ^ Suc f"
  shows "x AND (x - 1) = 0 \<longleftrightarrow> unat (x :: u64) = 2 ^ f"
proof -
  have x: "x \<noteq> 0" using assms(1) by (metis not_less unat_0 zero_less_numeral zero_less_power)
  then have u: "unat (x - 1) = unat x - 1" by (simp add: unat_minus_one)
  have top: "bit n f" if "2 ^ f \<le> n" "n < 2 ^ Suc f" for n :: nat
  proof -
    have "n div 2 ^ f = 1" using that by (intro div_nat_eqI) auto
    then show ?thesis by (simp add: bit_iff_odd)
  qed
  show ?thesis
  proof
    assume z: "x AND (x - 1) = 0"
    show "unat x = 2 ^ f"
    proof (rule ccontr)
      assume n: "unat x \<noteq> 2 ^ f"
      then have "bit (unat x) f" "bit (unat (x - 1)) f" using assms u by (auto intro!: top)
      then have "bit (x AND (x - 1)) f" by (simp add: bit_unat_iff bit_simps)
      with z show False by simp
    qed
  next
    assume p: "unat x = 2 ^ f"
    then have "unat (x AND (x - 1)) = 2 ^ f AND (2 ^ f - 1)" by (simp add: unsigned_and_eq u)
    also have "\<dots> = 0" by (metis and_exp_eq_0_iff_not_bit and.commute bit_mask_iff less_irrefl mask_eq_exp_minus_1)
    finally show "x AND (x - 1) = 0" by (simp add: unsigned_eq_0_iff)
  qed
qed

lemma ceil_log2_bounds:
  assumes "x \<noteq> 0"
  shows "unat x \<le> 2 ^ ceil_log2 x \<and> (unat x = 1 \<longrightarrow> ceil_log2 x = 0) \<and> (1 < unat x \<longrightarrow> 2 ^ (ceil_log2 x - 1) < unat x)"
proof -
  have x: "0 < unat x" "unat x < 2 ^ 2 ^ Suc 5" using assms unsigned_less [of x] by (auto simp: unat_gt_0)
  from log2_loop_floor [OF x, of "if x AND (x - 1) = 0 then 0 else 1"] obtain f where
    f: "ceil_log2 x = (if x AND (x - 1) = 0 then 0 else 1) + f" "2 ^ f \<le> unat x" "unat x < 2 ^ Suc f"
    by (auto simp: ceil_log2_def log2_table_halves)
  show ?thesis
  proof (cases "unat x = 2 ^ f")
    case True
    with f power_of_two_test [OF f(2,3)] show ?thesis by (cases f) auto
  next
    case False
    with f power_of_two_test [OF f(2,3)] show ?thesis by auto
  qed
qed

section \<open>Assigning the split literals\<close>

lemma assign_Nil [simp]: "assignToSplittingLiterals n [] = []"
  by (simp add: assignToSplittingLiterals_def)

lemma assign_Cons [simp]:
  "assignToSplittingLiterals n (l # ls) =
     (if bit n (length ls) then makeLitPos l else makeLitNeg l) # assignToSplittingLiterals n ls"
  unfolding assignToSplittingLiterals_def
  by (simp add: upt_conv_Cons map_Suc_upt [symmetric] del: map_Suc_upt upt_Suc)

lemma length_assign [simp]: "length (assignToSplittingLiterals n ls) = length ls"
  by (simp add: assignToSplittingLiterals_def)

lemma assign_mod: "length ls \<le> k \<Longrightarrow> assignToSplittingLiterals (n mod 2 ^ k) ls = assignToSplittingLiterals n ls"
  by (induction ls) (auto simp: take_bit_eq_mod [symmetric] bit_take_bit_iff)

lemma assign_again [simp]: "assignToSplittingLiterals n (assignToSplittingLiterals k ls) = assignToSplittingLiterals n ls"
  by (induction ls) (auto simp: makeLitPos_def makeLitNeg_def)

lemma bit_top: "n < 2 ^ Suc k \<Longrightarrow> bit n k \<longleftrightarrow> 2 ^ k \<le> n" for n :: nat
proof (cases "2 ^ k \<le> n")
  case True
  moreover assume "n < 2 ^ Suc k"
  ultimately have "n div 2 ^ k = 1" by (intro div_nat_eqI) auto
  with True show ?thesis by (simp add: bit_iff_odd)
qed (simp add: bit_iff_odd)

lemma numbers_by_top_bit:
  fixes P :: "bool \<Rightarrow> nat \<Rightarrow> bool"
  shows "(\<exists>n < 2 ^ Suc k. P (bit n k) (n mod 2 ^ k)) \<longleftrightarrow> (\<exists>j < 2 ^ k. P False j) \<or> (\<exists>j < 2 ^ k. P True j)"
proof
  assume "\<exists>n < 2 ^ Suc k. P (bit n k) (n mod 2 ^ k)"
  then obtain n where "n < 2 ^ Suc k" "P (bit n k) (n mod 2 ^ k)" by blast
  then show "(\<exists>j < 2 ^ k. P False j) \<or> (\<exists>j < 2 ^ k. P True j)"
    by (cases "bit n k") (use mod_less_divisor [of "2 ^ k" n] in auto)
next
  assume "(\<exists>j < 2 ^ k. P False j) \<or> (\<exists>j < 2 ^ k. P True j)"
  then show "\<exists>n < 2 ^ Suc k. P (bit n k) (n mod 2 ^ k)"
  proof
    assume "\<exists>j < 2 ^ k. P False j"
    then obtain j where j: "j < 2 ^ k" "P False j" by blast
    then have "\<not> bit j k" using bit_top [of j k] by simp
    with j show ?thesis by (intro exI [of _ j]) simp
  next
    assume "\<exists>j < 2 ^ k. P True j"
    then obtain j where j: "j < 2 ^ k" "P True j" by blast
    then have "bit (2 ^ k + j) k" using bit_top [of "2 ^ k + j" k] by simp
    with j show ?thesis by (intro exI [of _ "2 ^ k + j"]) simp
  qed
qed

lemma assign_inj:
  assumes "\<forall>l \<in> set ls. l \<noteq> 0" "n < 2 ^ length ls" "k < 2 ^ length ls"
    "assignToSplittingLiterals n ls = assignToSplittingLiterals k ls"
  shows "n = k"
proof (rule bit_eqI)
  have b: "i < length ls \<Longrightarrow> bit n i = bit k i" for i
    using assms(1,4) by (induction ls) (auto simp: makeLitPos_def makeLitNeg_def less_Suc_eq split: if_split_asm)
  fix i
  show "bit n i = bit k i"
  proof (cases "i < length ls")
    case False
    then have "n div 2 ^ i = 0" "k div 2 ^ i = 0"
      using assms(2,3) by (meson div_less less_le_trans linorder_not_less one_le_numeral power_increasing)+
    then show ?thesis by (simp add: bit_iff_odd)
  qed (use b in simp)
qed

text \<open>The children of an integer based split: one per number below the split count.\<close>

lemma children_loop_cubes:
  "map m_currentCube (fst (children_loop n k s acc)) = map m_currentCube acc @
     map (\<lambda>i. m_currentCube s @ assignToSplittingLiterals i (m_splittingLiterals s)) [n..<n + k]"
  by (induction n k s acc rule: children_loop.induct) (simp_all add: Let_def upt_conv_Cons del: upt_Suc)

lemma children_cubes:
  "map m_currentCube (fst (qtc_children s)) =
     map (\<lambda>i. m_currentCube s @ assignToSplittingLiterals i (m_splittingLiterals s)) [0..<m_splitCount s]"
  by (simp add: qtc_children_def children_loop_cubes)

section \<open>The value of a quantified formula\<close>

text \<open>
  \<open>M\<close> is the matrix, a predicate on complete cubes: the value under a cube that assigns a part of the
  prefix, whose remaining quantifiers are given.
\<close>

fun qbf_value :: "(int list \<Rightarrow> bool) \<Rightarrow> int list \<Rightarrow> int list \<Rightarrow> bool" where
  "qbf_value M [] c = M c"
| "qbf_value M (q # qs) c =
     (if quantifier_type q = EXISTENTIAL
      then qbf_value M qs (c @ [- alit q]) \<or> qbf_value M qs (c @ [alit q])
      else qbf_value M qs (c @ [- alit q]) \<and> qbf_value M qs (c @ [alit q]))"

definition cube_value :: "(int list \<Rightarrow> bool) \<Rightarrow> int list \<Rightarrow> int list \<Rightarrow> bool" where
  "cube_value M qs c = qbf_value M (drop (length c) qs) c"

lemma qbf_value_block_ex:
  "\<forall>q \<in> set bs. quantifier_type q = EXISTENTIAL \<Longrightarrow> qbf_value M (bs @ qs) c \<longleftrightarrow>
     (\<exists>n < 2 ^ length bs. qbf_value M qs (c @ assignToSplittingLiterals n (map alit bs)))"
proof (induction bs arbitrary: c)
  case (Cons q bs)
  let ?P = "\<lambda>b j. qbf_value M qs (c @ (if b then alit q else - alit q) # assignToSplittingLiterals j (map alit bs))"
  have "makeLitPos (alit q) = alit q" "makeLitNeg (alit q) = - alit q"
    by (auto simp: makeLitPos_def makeLitNeg_def alit_def)
  then have "(\<exists>n < 2 ^ length (q # bs). qbf_value M qs (c @ assignToSplittingLiterals n (map alit (q # bs))))
      \<longleftrightarrow> (\<exists>n < 2 ^ Suc (length bs). ?P (bit n (length bs)) (n mod 2 ^ length bs))"
    by (simp add: assign_mod)
  also have "\<dots> \<longleftrightarrow> (\<exists>j < 2 ^ length bs. ?P False j) \<or> (\<exists>j < 2 ^ length bs. ?P True j)"
    by (rule numbers_by_top_bit)
  finally show ?case using Cons by simp
qed simp

lemma qbf_value_block_all:
  "\<forall>q \<in> set bs. quantifier_type q = UNIVERSAL \<Longrightarrow> qbf_value M (bs @ qs) c \<longleftrightarrow>
     (\<forall>n < 2 ^ length bs. qbf_value M qs (c @ assignToSplittingLiterals n (map alit bs)))"
proof (induction bs arbitrary: c)
  case (Cons q bs)
  let ?P = "\<lambda>b j. \<not> qbf_value M qs (c @ (if b then alit q else - alit q) # assignToSplittingLiterals j (map alit bs))"
  have "makeLitPos (alit q) = alit q" "makeLitNeg (alit q) = - alit q"
    by (auto simp: makeLitPos_def makeLitNeg_def alit_def)
  then have "\<not> (\<forall>n < 2 ^ length (q # bs). qbf_value M qs (c @ assignToSplittingLiterals n (map alit (q # bs))))
      \<longleftrightarrow> (\<exists>n < 2 ^ Suc (length bs). ?P (bit n (length bs)) (n mod 2 ^ length bs))"
    by (simp add: assign_mod)
  also have "\<dots> \<longleftrightarrow> (\<exists>j < 2 ^ length bs. ?P False j) \<or> (\<exists>j < 2 ^ length bs. ?P True j)"
    by (rule numbers_by_top_bit)
  finally have n: "\<not> (\<forall>n < 2 ^ length (q # bs). qbf_value M qs (c @ assignToSplittingLiterals n (map alit (q # bs))))
      \<longleftrightarrow> (\<exists>j < 2 ^ length bs. ?P False j) \<or> (\<exists>j < 2 ^ length bs. ?P True j)" .
  have "qbf_value M ((q # bs) @ qs) c \<longleftrightarrow> \<not> ((\<exists>j < 2 ^ length bs. ?P False j) \<or> (\<exists>j < 2 ^ length bs. ?P True j))"
    using Cons by auto
  with n show ?case by argo
qed simp

lemma qbf_value_settled: "(\<And>d. M (c @ d) = b) \<Longrightarrow> qbf_value M qs c = b"
proof (induction qs arbitrary: c)
  case Nil
  then show ?case by (metis append_Nil2 qbf_value.simps(1))
qed simp

section \<open>Splits\<close>

lemma collect_literals_result:
  "collect_literals ty qs acc = ls \<Longrightarrow> ls \<noteq> [] \<Longrightarrow> (\<forall>q \<in> set qs. quantifier_type q = ty) \<and> ls = acc @ map alit qs"
  by (induction ty qs acc rule: collect_literals.induct) (auto split: if_split_asm)

text \<open>The extended split of a source: its block of variables and the number of children.\<close>

definition extended_of :: "int list \<Rightarrow> qbf_config \<Rightarrow> qtc \<Rightarrow> qtc \<Rightarrow> bool" where
  "extended_of qs cfg s s' \<longleftrightarrow> (\<exists>L k. let n = length (m_currentCube s); bs = take L (drop n qs) in
     s' = s\<lparr>m_splittingLiterals := map alit bs, m_splitCount := nat k\<rparr> \<and> n + L < length qs \<and> 0 < L
     \<and> (\<forall>q \<in> set bs. quantifier_type q = quantifier_type (qs ! n))
     \<and> 0 < k \<and> k \<in> set (m_integerBasedSplits cfg) \<and> L = ceil_log2 (word_of_int k))"

lemma qtc_split_cases:
  assumes "qtc_split qs cfg s = Some (True, l, r, e, s')"
  obtains (binary) "length (m_currentCube s) < length qs" "l" "r" "\<not> e"
      "s' = s\<lparr>m_splittingLiterals := [alit (qs ! length (m_currentCube s))]\<rparr>"
  | (extended) "\<not> l" "\<not> r" "e" "extended_of qs cfg s s'"
proof -
  let ?n = "length (m_currentCube s)"
  have n: "?n < length qs" using assms by (auto simp: qtc_split_def split: if_split_asm)
  show thesis
  proof (cases e)
    case False
    with assms n binary show thesis
      by (auto simp: qtc_split_def bind_eq_Some_conv split: option.split_asm)
  next
    case True
    with assms n obtain index L where i: "index < length (m_integerBasedSplits cfg)"
      "integerBasedSplitsCurrentLength cfg index = Some L" "m_integerBasedSplits cfg ! index > 0"
      "?n + L < length qs"
      "collect_literals (quantifier_type (qs ! ?n)) (take L (drop ?n qs)) [] \<noteq> []"
      and s': "\<not> l" "\<not> r" "s' = s\<lparr>m_splittingLiterals := collect_literals (quantifier_type (qs ! ?n)) (take L (drop ?n qs)) [],
        m_splitCount := nat (m_integerBasedSplits cfg ! index)\<rparr>"
      by (auto simp: qtc_split_def bind_eq_Some_conv Let_def split: if_split_asm option.split_asm)
    from collect_literals_result [OF refl i(5)] have c: "\<forall>q \<in> set (take L (drop ?n qs)). quantifier_type q = quantifier_type (qs ! ?n)"
      "collect_literals (quantifier_type (qs ! ?n)) (take L (drop ?n qs)) [] = map alit (take L (drop ?n qs))" by auto
    have L: "L = ceil_log2 (word_of_int (m_integerBasedSplits cfg ! index))"
      using i(1-3) by (auto simp: integerBasedSplitsCurrentLength_def bind_eq_Some_conv)
    have "0 < L" using i(5) by (cases L) auto
    then have "extended_of qs cfg s s'"
      unfolding extended_of_def Let_def using i s' c L
      by (intro exI [of _ L] exI [of _ "m_integerBasedSplits cfg ! index"]) auto
    with True s' extended show thesis by blast
  qed
qed

text \<open>The children the task tree makes from a split.\<close>

definition qtc_splits :: "int list \<Rightarrow> qbf_config \<Rightarrow> qtc \<Rightarrow> qtc list \<Rightarrow> bool" where
  "qtc_splits qs cfg s ks \<longleftrightarrow> (case qtc_split qs cfg s of
       Some (True, l, r, e, s') \<Rightarrow>
         if e then ks = fst (qtc_children s')
         else (case (qtc_leftChild s', qtc_rightChild s') of (Some a, Some b) \<Rightarrow> ks = [a, b] | _ \<Rightarrow> False)
     | _ \<Rightarrow> False)"

definition power_of_two_splits :: "qbf_config \<Rightarrow> bool" where
  "power_of_two_splits cfg \<longleftrightarrow> (\<forall>k \<in> set (m_integerBasedSplits cfg). k = 0 \<or> (\<exists>e < 31. k = 2 ^ e))"

lemma ceil_log2_power: "e < 31 \<Longrightarrow> ceil_log2 (word_of_int (2 ^ e)) = e"
proof -
  assume e: "e < 31"
  have "(2::nat) ^ e < 2 ^ 64" using e by (intro power_strict_increasing) auto
  then have u: "unat (word_of_int (2 ^ e) :: u64) = 2 ^ e"
    using unat_of_nat_small [of "2 ^ e", where ?'a = 64] by simp
  then have "(word_of_int (2 ^ e) :: u64) \<noteq> 0" by (metis power_not_zero unat_0 zero_neq_numeral)
  note b = ceil_log2_bounds [OF this, unfolded u]
  show ?thesis
  proof (cases "e = 0")
    case True
    with b show ?thesis by simp
  next
    case False
    then have "1 < (2::nat) ^ e" using one_less_power [of "2::nat" e] by simp
    with b have "2 ^ (ceil_log2 (word_of_int (2 ^ e)) - 1) < (2::nat) ^ e" "(2::nat) ^ e \<le> 2 ^ ceil_log2 (word_of_int (2 ^ e))" by auto
    then have "ceil_log2 (word_of_int (2 ^ e)) - 1 < e" "e \<le> ceil_log2 (word_of_int (2 ^ e))"
      by (simp_all add: power_less_imp_less_exp)
    then show ?thesis by simp
  qed
qed

lemma cube_value_take:
  assumes "n = length c" "n + L \<le> length qs"
  shows "cube_value M qs c = qbf_value M (take L (drop n qs) @ drop (n + L) qs) c"
  unfolding cube_value_def assms(1) by (metis add.commute append_take_drop_id drop_drop)

lemma extended_children_value:
  assumes ext: "extended_of qs cfg s s'" and full: "m_splitCount s' = 2 ^ length (m_splittingLiterals s')"
  shows "cube_value M qs (m_currentCube s) =
    (if quantifier_type (qs ! length (m_currentCube s)) = EXISTENTIAL
     then \<exists>k \<in> set (fst (qtc_children s')). cube_value M qs (m_currentCube k)
     else \<forall>k \<in> set (fst (qtc_children s')). cube_value M qs (m_currentCube k))"
proof -
  let ?n = "length (m_currentCube s)"
  from ext obtain L k where L: "s' = s\<lparr>m_splittingLiterals := map alit (take L (drop ?n qs)), m_splitCount := nat k\<rparr>"
    "?n + L < length qs" "\<forall>q \<in> set (take L (drop ?n qs)). quantifier_type q = quantifier_type (qs ! ?n)"
    by (auto simp: extended_of_def Let_def)
  let ?bs = "take L (drop ?n qs)"
  have len: "length ?bs = L" using L(2) by simp
  have "m_currentCube ` set (fst (qtc_children s')) = set (map m_currentCube (fst (qtc_children s')))" by simp
  also have "\<dots> = (\<lambda>i. m_currentCube s @ assignToSplittingLiterals i (map alit ?bs)) ` {0..<2 ^ L}"
    unfolding children_cubes using full len L(1) by (simp add: nat_power_eq)
  finally have kids: "m_currentCube ` set (fst (qtc_children s')) = \<dots>" .
  have v: "cube_value M qs (m_currentCube s @ assignToSplittingLiterals i (map alit ?bs))
      = qbf_value M (drop (?n + L) qs) (m_currentCube s @ assignToSplittingLiterals i (map alit ?bs))" for i
    unfolding cube_value_def using len by simp
  have ex: "(\<exists>k \<in> set (fst (qtc_children s')). cube_value M qs (m_currentCube k)) \<longleftrightarrow>
      (\<exists>i < 2 ^ L. qbf_value M (drop (?n + L) qs) (m_currentCube s @ assignToSplittingLiterals i (map alit ?bs)))"
    and all: "(\<forall>k \<in> set (fst (qtc_children s')). cube_value M qs (m_currentCube k)) \<longleftrightarrow>
      (\<forall>i < 2 ^ L. qbf_value M (drop (?n + L) qs) (m_currentCube s @ assignToSplittingLiterals i (map alit ?bs)))"
  proof -
    have e: "(\<exists>k \<in> A. P (m_currentCube k)) \<longleftrightarrow> (\<exists>c \<in> m_currentCube ` A. P c)"
      "(\<forall>k \<in> A. P (m_currentCube k)) \<longleftrightarrow> (\<forall>c \<in> m_currentCube ` A. P c)" for A :: "qtc set" and P by auto
    show "(\<exists>k \<in> set (fst (qtc_children s')). cube_value M qs (m_currentCube k)) \<longleftrightarrow>
      (\<exists>i < 2 ^ L. qbf_value M (drop (?n + L) qs) (m_currentCube s @ assignToSplittingLiterals i (map alit ?bs)))"
      "(\<forall>k \<in> set (fst (qtc_children s')). cube_value M qs (m_currentCube k)) \<longleftrightarrow>
      (\<forall>i < 2 ^ L. qbf_value M (drop (?n + L) qs) (m_currentCube s @ assignToSplittingLiterals i (map alit ?bs)))"
      unfolding e [of _ "cube_value M qs"] kids by (auto simp: v)
  qed
  show ?thesis
  proof (cases "quantifier_type (qs ! ?n) = EXISTENTIAL")
    case True
    then have "\<forall>q \<in> set ?bs. quantifier_type q = EXISTENTIAL" using L(3) by simp
    from qbf_value_block_ex [OF this] show ?thesis
      using True ex cube_value_take [OF refl, of "m_currentCube s" L qs M] L(2) len by simp
  next
    case False
    then have "\<forall>q \<in> set ?bs. quantifier_type q = UNIVERSAL" using L(3) by (metis QuantifierType.exhaust)
    from qbf_value_block_all [OF this] show ?thesis
      using False all cube_value_take [OF refl, of "m_currentCube s" L qs M] L(2) len by simp
  qed
qed

lemma splits_value:
  assumes pow: "power_of_two_splits cfg" and sp: "qtc_splits qs cfg s ks"
  shows "cube_value M qs (m_currentCube s) =
    (if quantifier_type (qs ! length (m_currentCube s)) = EXISTENTIAL
     then \<exists>k \<in> set ks. cube_value M qs (m_currentCube k) else \<forall>k \<in> set ks. cube_value M qs (m_currentCube k))"
proof -
  let ?n = "length (m_currentCube s)"
  from sp obtain l r e s' where q: "qtc_split qs cfg s = Some (True, l, r, e, s')"
    and k: "if e then ks = fst (qtc_children s')
         else (case (qtc_leftChild s', qtc_rightChild s') of (Some a, Some b) \<Rightarrow> ks = [a, b] | _ \<Rightarrow> False)"
    unfolding qtc_splits_def by (cases "qtc_split qs cfg s") (auto simp only: option.case prod.case split: prod.split_asm bool.split_asm)
  from q show ?thesis
  proof (cases rule: qtc_split_cases)
    case binary
    then have "map m_currentCube ks = [m_currentCube s @ [- alit (qs ! ?n)], m_currentCube s @ [alit (qs ! ?n)]]"
      using k by (auto simp: qtc_leftChild_def qtc_rightChild_def)
    then obtain a b where ks: "ks = [a, b]" "m_currentCube a = m_currentCube s @ [- alit (qs ! ?n)]"
      "m_currentCube b = m_currentCube s @ [alit (qs ! ?n)]" by auto
    have "drop ?n qs = qs ! ?n # drop (Suc ?n) qs" using binary(1) by (simp add: Cons_nth_drop_Suc)
    then show ?thesis by (simp add: ks cube_value_def)
  next
    case extended
    from extended(4) obtain L j where j: "s' = s\<lparr>m_splittingLiterals := map alit (take L (drop ?n qs)), m_splitCount := nat j\<rparr>"
      "?n + L < length qs" "0 < j" "j \<in> set (m_integerBasedSplits cfg)" "L = ceil_log2 (word_of_int j)"
      by (auto simp: extended_of_def Let_def)
    from pow j(3,4) obtain x where "x < 31" "j = 2 ^ x" by (auto simp: power_of_two_splits_def)
    with j ceil_log2_power have "m_splitCount s' = 2 ^ length (m_splittingLiterals s')" by (simp add: nat_power_eq)
    from extended_children_value [OF extended(4) this] k extended(3) show ?thesis by simp
  qed
qed

interpretation qbf_splitting: sound_splitting
  "\<lambda>s ks. power_of_two_splits cfg \<and> qtc_splits qs cfg s ks"
  "\<lambda>s. quantifier_type (qs ! length (m_currentCube s)) = EXISTENTIAL"
  "\<lambda>s. cube_value M qs (m_currentCube s)" for qs cfg M
  using splits_value by unfold_locales blast

section \<open>Properties\<close>

text \<open>
  C35 (the split tree decides the formula).  Take any tree of tasks that starts at the empty cube and
  whose inner nodes were split by the quantifier tree source, by single variables or by integer based
  splits into powers of two.  If the solver answers correctly at the leaves, combining the answers
  with the quantifier at each node gives the truth value of the whole formula.
\<close>

theorem qbf_tree_verdict:
  assumes "power_of_two_splits cfg" "split_tree (qtc_splits qs cfg) t"
    and "m_currentCube (tree_root t) = []"
    and "\<And>s. s \<in> set (tree_leaves t) \<Longrightarrow> leaf s = cube_value M qs (m_currentCube s)"
  shows "tree_verdict (\<lambda>s. quantifier_type (qs ! length (m_currentCube s)) = EXISTENTIAL) leaf t \<longleftrightarrow> qbf_value M qs []"
proof -
  have "split_tree (\<lambda>s ks. power_of_two_splits cfg \<and> qtc_splits qs cfg s ks) t"
    using assms(1,2) by (induction t) auto
  from qbf_splitting.verdict_by_leaves [OF this assms(4)] assms(3) show ?thesis by (simp add: cube_value_def)
qed

definition example_cfg :: "int list \<Rightarrow> qbf_config" where
  "example_cfg ks = \<lparr>m_originatorId = 1, m_useDepQBF = True, m_treeDepth = - 1, m_integerBasedSplits = ks,
     m_quapiSolvers = [], m_quapiDebug = False\<rparr>"

definition example_source :: "int list \<Rightarrow> qtc" where
  "example_source c = \<lparr>m_currentCube = c, m_splittingLiterals = [0], m_splitCount = 0\<rparr>"

theorem qbf_tree_verdict_witness:
  "tree_verdict (\<lambda>s. quantifier_type ([- 1, 2] ! length (m_currentCube s)) = EXISTENTIAL)
     (\<lambda>s. cube_value (\<lambda>c. 2 \<in> set c) [- 1, 2] (m_currentCube s))
     (SolveNode (QuantifierTreeCubes_init []) [SolveLeaf (example_source [- 1]), SolveLeaf (example_source [1])])
   \<longleftrightarrow> qbf_value (\<lambda>c. 2 \<in> set c) [- 1, 2] []"
  by (rule qbf_tree_verdict [of "example_cfg []"])
    (simp_all add: power_of_two_splits_def example_cfg_def example_source_def qtc_splits_def qtc_split_def
      integerBasedSplitsEnabled_def qtc_leftChild_def qtc_rightChild_def QuantifierTreeCubes_init_def alit_def)

text \<open>
  Integer based splits that are no powers of two.  When an integer based split has a number of
  children that is not a power of two, some assignment of the split variables belongs to no child: there
  is a matrix for which the combined answers of the children differ from the value of the formula.  Such
  a split is only right for formulas that exclude the remaining assignments by themselves.
\<close>

lemma uneven_split_unsound:
  assumes "qtc_split qs cfg s = Some (True, False, False, True, s')" "\<forall>q \<in> set qs. q \<noteq> 0"
    and "\<forall>k \<in> set (m_integerBasedSplits cfg). k < 2 ^ 31" "\<forall>e. m_splitCount s' \<noteq> 2 ^ e"
  shows "\<exists>M. cube_value M qs (m_currentCube s) \<noteq>
    (if quantifier_type (qs ! length (m_currentCube s)) = EXISTENTIAL
     then \<exists>k \<in> set (fst (qtc_children s')). cube_value M qs (m_currentCube k)
     else \<forall>k \<in> set (fst (qtc_children s')). cube_value M qs (m_currentCube k))"
proof -
  let ?c = "m_currentCube s" and ?n = "length (m_currentCube s)"
  have "extended_of qs cfg s s'" using assms(1) by (rule qtc_split_cases) auto
  then obtain L k where L: "s' = s\<lparr>m_splittingLiterals := map alit (take L (drop ?n qs)), m_splitCount := nat k\<rparr>"
    "?n + L < length qs" "\<forall>q \<in> set (take L (drop ?n qs)). quantifier_type q = quantifier_type (qs ! ?n)"
    "0 < k" "k \<in> set (m_integerBasedSplits cfg)" "L = ceil_log2 (word_of_int k)"
    by (auto simp: extended_of_def Let_def)
  let ?bs = "take L (drop ?n qs)" and ?a = "\<lambda>i. assignToSplittingLiterals i (map alit (take L (drop ?n qs)))"
  have len: "length ?bs = L" using L(2) by simp
  have "nat k < 2 ^ 64" using L(4,5) assms(3) by (auto simp: nat_less_iff intro: less_trans)
  then have u: "unat (word_of_int k :: u64) = nat k"
    using unat_of_nat_small [of "nat k", where ?'a = 64] L(4) by simp
  then have "(word_of_int k :: u64) \<noteq> 0" using L(4) by (metis nat_0_iff not_less unat_0)
  from ceil_log2_bounds [OF this] u L(6) have "nat k \<le> 2 ^ L" by simp
  moreover have "nat k \<noteq> 2 ^ L" using assms(4) L(1) by simp
  ultimately have k: "nat k < 2 ^ L" by simp
  have nz: "\<forall>l \<in> set (map alit ?bs). l \<noteq> 0"
    using assms(2) by (auto simp: alit_def dest!: in_set_takeD in_set_dropD)
  define M0 where "M0 = (\<lambda>f. take (?n + L) f = ?c @ ?a (nat k))"
  have kids: "m_currentCube ` set (fst (qtc_children s')) = (\<lambda>i. ?c @ ?a i) ` {0..<nat k}"
    using arg_cong [OF children_cubes [of s'], of set] L(1) by simp
  have ne: "?a i \<noteq> ?a (nat k)" if "i < nat k" for i
  proof
    assume "?a i = ?a (nat k)"
    moreover have "i < 2 ^ length (map alit ?bs)" "nat k < 2 ^ length (map alit ?bs)"
      using that k by (simp_all only: length_map len)
    ultimately have "i = nat k" by (intro assign_inj [OF nz])
    with that show False by simp
  qed
  have miss: "qbf_value M0 qs' (?c @ ?a i) = False" if "i < nat k" for i qs'
  proof (rule qbf_value_settled)
    fix d
    show "M0 ((?c @ ?a i) @ d) = False" using len ne [OF that] by (simp add: M0_def)
  qed
  have miss': "qbf_value (\<lambda>f. \<not> M0 f) qs' (?c @ ?a i) = True" if "i < nat k" for i qs'
  proof (rule qbf_value_settled)
    fix d
    show "(\<not> M0 ((?c @ ?a i) @ d)) = True" using len ne [OF that] by (simp add: M0_def)
  qed
  have hit: "qbf_value M0 qs' (?c @ ?a (nat k)) = True" "qbf_value (\<lambda>f. \<not> M0 f) qs' (?c @ ?a (nat k)) = False" for qs'
    by (rule qbf_value_settled, use len in \<open>simp add: M0_def\<close>)+
  have ch: "\<exists>i < nat k. m_currentCube x = ?c @ ?a i" if "x \<in> set (fst (qtc_children s'))" for x
    using imageI [OF that, of m_currentCube] unfolding kids by auto
  show ?thesis
  proof (cases "quantifier_type (qs ! ?n) = EXISTENTIAL")
    case True
    then have "\<forall>q \<in> set ?bs. quantifier_type q = EXISTENTIAL" using L(3) by simp
    moreover have "\<exists>n < 2 ^ length ?bs. qbf_value M0 (drop (?n + L) qs) (?c @ ?a n)"
      unfolding len using k hit(1) by blast
    ultimately have "cube_value M0 qs ?c"
      using qbf_value_block_ex [of ?bs M0 "drop (?n + L) qs" ?c] cube_value_take [OF refl, of ?c L qs M0] L(2) by simp
    moreover have "\<not> (\<exists>x \<in> set (fst (qtc_children s')). cube_value M0 qs (m_currentCube x))"
      unfolding cube_value_def using ch miss by metis
    ultimately show ?thesis using True by (intro exI [of _ M0]) simp
  next
    case False
    then have "\<forall>q \<in> set ?bs. quantifier_type q = UNIVERSAL" using L(3) by (metis QuantifierType.exhaust)
    moreover have "\<not> (\<forall>n < 2 ^ length ?bs. qbf_value (\<lambda>f. \<not> M0 f) (drop (?n + L) qs) (?c @ ?a n))"
      unfolding len using k hit(2) by blast
    ultimately have "\<not> cube_value (\<lambda>f. \<not> M0 f) qs ?c"
      using qbf_value_block_all [of ?bs "\<lambda>f. \<not> M0 f" "drop (?n + L) qs" ?c]
        cube_value_take [OF refl, of ?c L qs "\<lambda>f. \<not> M0 f"] L(2) by simp
    moreover have "\<forall>x \<in> set (fst (qtc_children s')). cube_value (\<lambda>f. \<not> M0 f) qs (m_currentCube x)"
      unfolding cube_value_def using ch miss' by metis
    ultimately show ?thesis using False by (intro exI [of _ "\<lambda>f. \<not> M0 f"]) simp
  qed
qed

lemma uneven_example:
  "qtc_split [- 1, - 2, 3] (example_cfg [3]) (QuantifierTreeCubes_init []) =
     Some (True, False, False, True, \<lparr>m_currentCube = [], m_splittingLiterals = [1, 2], m_splitCount = 3\<rparr>)"
  by (simp add: qtc_split_def example_cfg_def integerBasedSplitsEnabled_def integerBasedSplitsCurrentIndex_def
      splits_index_loop.simps integerBasedSplitsCurrentLength_def ceil_log2_def log2_table_def Let_def
      QuantifierTreeCubes_init_def quantifier_type_def alit_def)

lemma uneven_split_unsound_example:
  "\<exists>M. cube_value M [- 1, - 2, 3] [] \<noteq>
     (\<forall>k \<in> set (fst (qtc_children \<lparr>m_currentCube = [], m_splittingLiterals = [1, 2], m_splitCount = 3\<rparr>)).
        cube_value M [- 1, - 2, 3] (m_currentCube k))"
proof -
  have p: "(3::nat) \<noteq> 2 ^ e" for e by (cases e) (auto simp: even_iff_mod_2_eq_zero dest: arg_cong [of _ _ even])
  show ?thesis
    using uneven_split_unsound [OF uneven_example] p
    by (simp add: example_cfg_def QuantifierTreeCubes_init_def quantifier_type_def)
qed

text \<open>
  Rounded-up binary logarithm.  For every 64-bit number but 0 the table-driven \<^verbatim>\<open>ceil_log2\<close>
  returns the least \<open>y\<close> with \<open>x \<le> 2\<^sup>y\<close>; for 0 it returns 0.
\<close>

theorem ceil_log2_least:
  "(x \<noteq> 0 \<longrightarrow> ceil_log2 x = (LEAST y. unat x \<le> 2 ^ y)) \<and> ceil_log2 0 = 0"
proof (intro conjI impI)
  assume "x \<noteq> 0"
  note b = ceil_log2_bounds [OF this]
  show "ceil_log2 x = (LEAST y. unat x \<le> 2 ^ y)"
  proof (rule Least_equality [symmetric])
    show "unat x \<le> 2 ^ ceil_log2 x" using b by blast
    fix y assume y: "unat x \<le> 2 ^ y"
    show "ceil_log2 x \<le> y"
    proof (rule ccontr)
      assume a: "\<not> ceil_log2 x \<le> y"
      then have "(2::nat) ^ y \<le> 2 ^ (ceil_log2 x - 1)" by (intro power_increasing) auto
      moreover have "1 < unat x" using b a \<open>x \<noteq> 0\<close> by (metis le0 less_one linorder_neqE_nat unat_eq_zero)
      ultimately show False using b y by (metis leD order_trans)
    qed
  qed
qed (simp add: ceil_log2_def log2_table_def)

theorem ceil_log2_least_witness: "ceil_log2 5 = 3 \<and> ceil_log2 5 = (LEAST y. (5::nat) \<le> 2 ^ y)"
  using ceil_log2_least [of 5] by (simp add: ceil_log2_def log2_table_def)

definition level_bits :: "qbf_config \<Rightarrow> nat list" where
  "level_bits cfg = map (\<lambda>k. if k \<noteq> 0 then ceil_log2 (word_of_int k) else 1) (m_integerBasedSplits cfg)"

lemma splits_index_loop_correct:
  "i \<le> length (m_integerBasedSplits cfg) \<Longrightarrow> \<exists>r. splits_index_loop cfg i len = Some r \<and> i \<le> r \<and> r \<le> length (m_integerBasedSplits cfg)
    \<and> sum_list (take (r - i) (drop i (level_bits cfg))) \<le> len
    \<and> (r < length (m_integerBasedSplits cfg) \<longrightarrow> len < sum_list (take (Suc (r - i)) (drop i (level_bits cfg))))"
proof (induction cfg i len rule: splits_index_loop.induct)
  case (1 cfg i len)
  show ?case
  proof (cases "i < length (m_integerBasedSplits cfg)")
    case True
    let ?b = "level_bits cfg ! i"
    have l: "integerBasedSplitsCurrentLength cfg i = Some ?b"
      using True by (simp add: integerBasedSplitsCurrentLength_def level_bits_def)
    have d: "drop i (level_bits cfg) = ?b # drop (Suc i) (level_bits cfg)"
      using True by (intro Cons_nth_drop_Suc [symmetric]) (simp add: level_bits_def)
    show ?thesis
    proof (cases "len < ?b")
      case lt: True
      with True l d show ?thesis by (intro exI [of _ i]) (simp add: splits_index_loop.simps)
    next
      case False
      from "1.IH" [OF True _ False] True l obtain r where r: "splits_index_loop cfg (i + 1) (len - ?b) = Some r" "i + 1 \<le> r"
        "r \<le> length (m_integerBasedSplits cfg)" "sum_list (take (r - (i + 1)) (drop (i + 1) (level_bits cfg))) \<le> len - ?b"
        "r < length (m_integerBasedSplits cfg) \<longrightarrow> len - ?b < sum_list (take (Suc (r - (i + 1))) (drop (i + 1) (level_bits cfg)))"
        by auto
      obtain t where t: "r = i + 1 + t" using r(2) le_Suc_ex by blast
      have u: "r - i = Suc t" "r - (i + 1) = t" using t by simp_all
      from r False True l show ?thesis
        by (intro exI [of _ r], unfold d u) (auto simp: splits_index_loop.simps [of cfg i])
    qed
  next
    case False
    with 1 show ?thesis by (intro exI [of _ i]) (simp add: splits_index_loop.simps)
  qed
qed

text \<open>
  The current level of the integer based splits.  For a cube of \<open>len\<close> literals the index returned
  is the level whose bits contain position \<open>len\<close>: the levels before it use at most \<open>len\<close> bits, and with
  its own bits more than \<open>len\<close>; past the last level it is the number of levels.
\<close>

theorem splits_index_correct:
  "\<exists>r \<le> length (m_integerBasedSplits cfg). integerBasedSplitsCurrentIndex cfg len = Some r
    \<and> sum_list (take r (level_bits cfg)) \<le> len
    \<and> (r < length (m_integerBasedSplits cfg) \<longrightarrow> len < sum_list (take (Suc r) (level_bits cfg)))"
  using splits_index_loop_correct [of 0 cfg len] by (auto simp: integerBasedSplitsCurrentIndex_def)

theorem splits_index_correct_witness:
  "\<exists>r \<le> 2. integerBasedSplitsCurrentIndex (example_cfg [4, 2]) 2 = Some r
    \<and> sum_list (take r (level_bits (example_cfg [4, 2]))) \<le> 2"
  using splits_index_correct [of "example_cfg [4, 2]" 2] by (auto simp: example_cfg_def)

end
