(* ===== verification/CubeSource.thy ===== *)
theory CubeSource
  imports Path Status Splitting
begin

text \<open>
  Cube sources of the SAT solver module: \<^verbatim>\<open>modules/solver/cube_source.cpp\<close> with its header, and
  the parts of \<^verbatim>\<open>cadical_handle.cpp\<close> that keep the pregenerated cubes and pick split literals.

  CaDiCaL itself is an argument: the cubes its lookahead returns (\<^verbatim>\<open>generate_cubes\<close>) and its state
  afterwards.  A range of iterators is the list of its literals, the default range the empty list.
\<close>

section \<open>Pregenerated cubes\<close>

record cadical_handle =
  pregeneratedCubes :: "int list"
  pregeneratedCubesJumplist :: "nat list"
  pregeneratedCubesCount :: nat
  normalizedPathLength :: nat

definition cadical_handle_init :: cadical_handle where
  "cadical_handle_init = \<lparr>pregeneratedCubes = [], pregeneratedCubesJumplist = [],
     pregeneratedCubesCount = 0, normalizedPathLength = 0\<rparr>"

fun jumplist_loop :: "int list \<Rightarrow> nat \<Rightarrow> nat \<Rightarrow> nat list \<Rightarrow> nat list \<times> nat" where
  "jumplist_loop [] i lastStart acc = (acc, lastStart)"
| "jumplist_loop (lit # ls) i lastStart acc =
     (if lit = 0 then jumplist_loop ls (i + 1) (i + 1) (acc @ [lastStart])
      else jumplist_loop ls (i + 1) lastStart acc)"

text \<open>
  \<^verbatim>\<open>generateJumplist\<close>; \<open>clog\<close> is \<^verbatim>\<open>ceil(log2f(n))\<close>, computed in single precision.
\<close>

definition generateJumplist :: "(nat \<Rightarrow> nat) \<Rightarrow> cadical_handle \<Rightarrow> cadical_handle" where
  "generateJumplist clog h = (case jumplist_loop (pregeneratedCubes h) 0 0 [] of (jl, lastStart) \<Rightarrow>
     h\<lparr>pregeneratedCubesJumplist := jl @ [lastStart], pregeneratedCubesCount := length jl,
       normalizedPathLength := clog (length jl)\<rparr>)"

definition getCubeFromId :: "cadical_handle \<Rightarrow> nat \<Rightarrow> int list option" where
  "getCubeFromId h ident =
     (if ident \<ge> pregeneratedCubesCount h then Some []
      else do {
        c_assert (ident + 1 < length (pregeneratedCubesJumplist h));
        let beginPos = pregeneratedCubesJumplist h ! ident;
        let endPos = pregeneratedCubesJumplist h ! (ident + 1);
        c_assert (beginPos < endPos \<and> endPos \<le> length (pregeneratedCubes h));
        Some (take (endPos - 1 - beginPos) (drop beginPos (pregeneratedCubes h))) })"

definition getCubeFromPath :: "cadical_handle \<Rightarrow> parac_path \<Rightarrow> int list option" where
  "getCubeFromPath h p =
     (if unat (parac_path_length p) \<noteq> normalizedPathLength h then Some []
      else do {
        depth_shifted \<leftarrow> parac_path_get_depth_shifted p;
        getCubeFromId h (unat depth_shifted) })"

text \<open>
  \<^verbatim>\<open>parseFile\<close> after CaDiCaL has read the file: \<open>None\<close> is a parse error, otherwise the cubes
  found in the file.
\<close>

definition parseFile_finish ::
  "(nat \<Rightarrow> nat) \<Rightarrow> int list option \<Rightarrow> cadical_handle \<Rightarrow> parac_status \<times> cadical_handle" where
  "parseFile_finish clog read h = (case read of
       None \<Rightarrow> (PARAC_PARSE_ERROR, h)
     | Some cubes \<Rightarrow>
         let h = h\<lparr>pregeneratedCubes := cubes\<rparr>
         in (PARAC_OK, if cubes \<noteq> [] then generateJumplist clog h else h))"

definition lookahead ::
  "(nat \<Rightarrow> nat) \<Rightarrow> (nat \<Rightarrow> nat \<Rightarrow> int \<times> int list list) \<Rightarrow> nat \<Rightarrow> nat \<Rightarrow> cadical_handle \<Rightarrow> parac_status \<times> cadical_handle" where
  "lookahead clog generate_cubes depth min_depth h =
     (let h = (if pregeneratedCubes h \<noteq> []
               then h\<lparr>pregeneratedCubes := [], pregeneratedCubesCount := 0, pregeneratedCubesJumplist := []\<rparr>
               else h);
          (status, cubes) = generate_cubes depth min_depth
      in if status = 20 then (PARAC_UNSAT, h)
         else if status = 10 then (PARAC_SAT, h)
         else (PARAC_SPLITTED, generateJumplist clog
                 (h\<lparr>pregeneratedCubes := concat (map (\<lambda>c. c @ [0]) cubes)\<rparr>)))"

section \<open>Picking a split literal\<close>

datatype cadical_state = SATISFIED | UNSATISFIED | OTHER_STATE

definition no_split_status :: "cadical_state \<Rightarrow> parac_status" where
  "no_split_status st = (case st of SATISFIED \<Rightarrow> PARAC_SAT | UNSATISFIED \<Rightarrow> PARAC_UNSAT
     | OTHER_STATE \<Rightarrow> PARAC_NO_SPLITS_LEFT)"

definition last_literal :: "int list list \<Rightarrow> int" where
  "last_literal cubes = (case cubes of [] \<Rightarrow> 0 | c # _ \<Rightarrow> if c = [] then 0 else last c)"

text \<open>\<open>la\<close> is the answer of CaDiCaL under the assumed cube: the cubes and the state.\<close>

definition resplitOnce ::
  "(int list \<Rightarrow> int list list \<times> cadical_state) \<Rightarrow> int list \<Rightarrow> parac_status \<times> (int list \<times> int list) option" where
  "resplitOnce la literals = (case la literals of (cubes, st) \<Rightarrow>
     let lit_to_split = last_literal cubes
     in if lit_to_split = 0 then (no_split_status st, None)
        else (PARAC_SPLITTED, Some (literals @ [lit_to_split], literals @ [- lit_to_split])))"

text \<open>
  \<^verbatim>\<open>resplitCube\<close>: \<open>stopped\<close> and \<open>terminated\<close> are the terminator before and after the lookahead.
\<close>

definition resplitCube ::
  "(int list \<Rightarrow> int list list \<times> cadical_state) \<Rightarrow> bool \<Rightarrow> bool \<Rightarrow> int list \<Rightarrow> parac_status \<times> int" where
  "resplitCube la stopped terminated currentCube =
     (if stopped then (PARAC_ABORTED, 0)
      else (case la currentCube of (cubes, st) \<Rightarrow>
        if terminated then (PARAC_ABORTED, 0)
        else let lit_to_split = abs (last_literal cubes)
             in if lit_to_split = 0 then (no_split_status st, 0) else (PARAC_SPLITTED, lit_to_split)))"

section \<open>Sources\<close>

datatype source =
    PathDefined
  | Supplied "int list" u32
  | CaDiCaLCubes (currentCube: "int list") (splittingLiteral: int) (concurrentCubeTreeNumber: u32)
  | Unspecified

definition source_cube :: "cadical_handle \<Rightarrow> source \<Rightarrow> parac_path \<Rightarrow> int list option" where
  "source_cube h src p = (case src of
       PathDefined \<Rightarrow> getCubeFromPath h p
     | Supplied c k \<Rightarrow> Some c
     | CaDiCaLCubes c l k \<Rightarrow> Some c
     | Unspecified \<Rightarrow> Some [])"

text \<open>Splitting by path: the returned flag, left and right.\<close>

definition PathDefined_split :: "cadical_handle \<Rightarrow> parac_path \<Rightarrow> (bool \<times> bool \<times> bool) option" where
  "PathDefined_split h p =
     (if normalizedPathLength h < unat (parac_path_length p) + 1 then Some (False, False, False)
      else do {
        l \<leftarrow> parac_path_get_next_left p;
        r \<leftarrow> parac_path_get_next_right p;
        if parac_path_is_overlength l \<or> parac_path_is_overlength r then Some (False, False, False)
        else do {
          let s = normalizedPathLength h - unat (parac_path_length l);
          dl \<leftarrow> parac_path_get_depth_shifted l;
          dr \<leftarrow> parac_path_get_depth_shifted r;
          let left = unat (push_bit s dl) < pregeneratedCubesCount h;
          let right = unat (push_bit s dr) < pregeneratedCubesCount h;
          Some (left \<or> right, left, right) } })"

definition CaDiCaLCubes_split ::
  "(int list \<Rightarrow> parac_status \<times> int) \<Rightarrow> nat \<Rightarrow> source \<Rightarrow> (bool \<times> bool \<times> bool \<times> source) option" where
  "CaDiCaLCubes_split resplit initialMinimalCubeDepth src =
     (if splittingLiteral src \<noteq> 0 then Some (True, True, True, src)
      else if length (currentCube src) < initialMinimalCubeDepth then
        (case resplit (currentCube src) of (status, lit) \<Rightarrow>
           if status \<noteq> PARAC_SPLITTED then Some (False, False, False, src)
           else do {
             c_assert (lit \<noteq> 0);
             Some (True, True, True, CaDiCaLCubes (currentCube src) lit (concurrentCubeTreeNumber src)) })
      else Some (False, False, False, src))"

definition source_split ::
  "cadical_handle \<Rightarrow> (int list \<Rightarrow> parac_status \<times> int) \<Rightarrow> nat \<Rightarrow> source \<Rightarrow> parac_path \<Rightarrow>
   (bool \<times> bool \<times> bool \<times> source) option" where
  "source_split h resplit depth src p = (case src of
       PathDefined \<Rightarrow> map_option (\<lambda>(b, l, r). (b, l, r, src)) (PathDefined_split h p)
     | CaDiCaLCubes c l k \<Rightarrow> CaDiCaLCubes_split resplit depth src
     | _ \<Rightarrow> Some (False, False, False, src))"

definition source_leftChild :: "source \<Rightarrow> source" where
  "source_leftChild src = (case src of
       CaDiCaLCubes c l k \<Rightarrow> CaDiCaLCubes (c @ [- l]) 0 k | _ \<Rightarrow> src)"

definition source_rightChild :: "source \<Rightarrow> source" where
  "source_rightChild src = (case src of
       CaDiCaLCubes c l k \<Rightarrow> CaDiCaLCubes (c @ [l]) 0 k | _ \<Rightarrow> src)"

definition prePathSortingCritereon :: "source \<Rightarrow> u32" where
  "prePathSortingCritereon src = (case src of
       Supplied c k \<Rightarrow> k | CaDiCaLCubes c l k \<Rightarrow> k | _ \<Rightarrow> 0)"

section \<open>The jump list\<close>

definition zero_terminated :: "int list list \<Rightarrow> int list" where
  "zero_terminated cls = concat (map (\<lambda>c. c @ [0]) cls)"

lemma zero_terminated_simps [simp]:
  "zero_terminated [] = []" "zero_terminated (c # cls) = c @ 0 # zero_terminated cls"
  "zero_terminated (xs @ ys) = zero_terminated xs @ zero_terminated ys"
  by (simp_all add: zero_terminated_def)

lemma jumplist_loop_cube:
  "0 \<notin> set c \<Longrightarrow> jumplist_loop (c @ 0 # ls) i st acc =
     jumplist_loop ls (i + length c + 1) (i + length c + 1) (acc @ [st])"
  by (induction c arbitrary: i) auto

lemma jumplist_loop_positions:
  "\<forall>c \<in> set cls. 0 \<notin> set c \<Longrightarrow> jumplist_loop (zero_terminated cls) i i acc =
     (acc @ map (\<lambda>k. i + length (zero_terminated (take k cls))) [0..<length cls], i + length (zero_terminated cls))"
proof (induction cls arbitrary: i acc)
  case (Cons c cls)
  have "map (\<lambda>k. i + length (zero_terminated (take k (c # cls)))) [0..<length (c # cls)]
      = i # map (\<lambda>k. i + length c + 1 + length (zero_terminated (take k cls))) [0..<length cls]"
    by (simp add: upt_conv_Cons map_Suc_upt [symmetric] del: map_Suc_upt upt_Suc)
  with Cons show ?case by (simp add: jumplist_loop_cube)
qed simp

lemma generateJumplist_fields:
  assumes "pregeneratedCubes h = zero_terminated cls" "\<forall>c \<in> set cls. 0 \<notin> set c"
  shows "pregeneratedCubesJumplist (generateJumplist clog h) =
      map (\<lambda>k. length (zero_terminated (take k cls))) [0..<Suc (length cls)]"
    "pregeneratedCubesCount (generateJumplist clog h) = length cls"
    "normalizedPathLength (generateJumplist clog h) = clog (length cls)"
    "pregeneratedCubes (generateJumplist clog h) = zero_terminated cls"
  using assms jumplist_loop_positions [OF assms(2), of 0 "[]"] by (simp_all add: generateJumplist_def)

lemma getCubeFromId_nth:
  assumes "pregeneratedCubes h = zero_terminated cls" "\<forall>c \<in> set cls. 0 \<notin> set c"
  shows "getCubeFromId (generateJumplist clog h) i = Some (if i < length cls then cls ! i else [])"
proof (cases "i < length cls")
  case True
  let ?pos = "\<lambda>k. length (zero_terminated (take k cls))"
  have s: "take (Suc i) cls = take i cls @ [cls ! i]" using True by (rule take_Suc_conv_app_nth)
  have n: "?pos (Suc i) = ?pos i + length (cls ! i) + 1" by (simp add: s)
  have c: "zero_terminated cls = zero_terminated (take i cls) @ (cls ! i @ [0]) @ zero_terminated (drop (Suc i) cls)"
    using arg_cong [OF id_take_nth_drop [OF True], of zero_terminated] by simp
  have le: "?pos (Suc i) \<le> length (zero_terminated cls)" using arg_cong [OF c, of length] n by simp
  have "take (?pos (Suc i) - 1 - ?pos i) (drop (?pos i) (zero_terminated cls)) = cls ! i"
    unfolding n by (subst c) simp
  with True n le show ?thesis
    by (simp add: getCubeFromId_def generateJumplist_fields [OF assms] nth_append del: upt_Suc)
qed (simp add: getCubeFromId_def generateJumplist_fields [OF assms])

section \<open>Splitting along the path\<close>

text \<open>The number of a path, read from its decisions.\<close>

definition path_num :: "parac_path \<Rightarrow> nat" where
  "path_num p = bits_num (path_bits p)"

definition path_depth :: "parac_path \<Rightarrow> nat" where
  "path_depth p = unat (length_fld p)"

lemma ordinary_length: "ordinary p \<Longrightarrow> unat (parac_path_length p) = path_depth p"
  using ordinary_not_tagged [of p] by (simp add: parac_path_length_def path_depth_def)

lemma child_facts:
  assumes "ordinary p" "path_depth p < 58"
  obtains q where "parac_path_get_next p b = Some q" "ordinary q" "path_depth q = path_depth p + 1"
    "path_num q = 2 * path_num p + of_bool b"
proof -
  have l: "unat (length_fld p) < 58" using assms(2) by (simp add: path_depth_def)
  from get_next_ordinary [OF l] obtain q where q: "parac_path_get_next p b = Some q" by blast
  note f = get_next_bits [OF l q]
  have "unat (length_fld p + 1) = unat (length_fld p) + 1" using l by (simp add: unat_word_ariths)
  with f q show thesis by (intro that [of q]) (simp_all add: path_num_def path_depth_def)
qed

lemma push_bit_small: "unat (w :: u64) * 2 ^ s < 2 ^ 64 \<Longrightarrow> unat (push_bit s w) = unat w * 2 ^ s"
  by (subst unsigned_push_bit_eq) (simp_all add: take_bit_nat_eq_self_iff push_bit_eq_mult)

lemma path_num_less: "path_num p < 2 ^ path_depth p"
  using bits_num_less [of "path_bits p"] by (simp add: path_num_def path_depth_def)

text \<open>The flags of a split: a side is taken when its first cube exists.\<close>

lemma PathDefined_split_below:
  assumes "ordinary p" "path_depth p < normalizedPathLength h" "normalizedPathLength h \<le> 58"
  defines "s \<equiv> normalizedPathLength h - path_depth p - 1"
  defines "l \<equiv> 2 * path_num p * 2 ^ s < pregeneratedCubesCount h"
  defines "r \<equiv> (2 * path_num p + 1) * 2 ^ s < pregeneratedCubesCount h"
  shows "PathDefined_split h p = Some (l \<or> r, l, r)"
proof -
  have d: "path_depth p < 58" using assms(2,3) by simp
  obtain pl where pl: "parac_path_get_next p False = Some pl" "ordinary pl" "path_depth pl = path_depth p + 1"
    "path_num pl = 2 * path_num p" by (rule child_facts [OF assms(1) d, of False]) simp
  obtain pr where pr: "parac_path_get_next p True = Some pr" "ordinary pr" "path_depth pr = path_depth p + 1"
    "path_num pr = 2 * path_num p + 1" by (rule child_facts [OF assms(1) d, of True]) simp
  obtain dl where dl: "parac_path_get_depth_shifted pl = Some dl" "unat dl = path_num pl"
    using depth_shifted_num [OF pl(2)] by (auto simp: path_num_def)
  obtain dr where dr: "parac_path_get_depth_shifted pr = Some dr" "unat dr = path_num pr"
    using depth_shifted_num [OF pr(2)] by (auto simp: path_num_def)
  have fit: "path_num q * 2 ^ s < 2 ^ 64" if "path_depth q = path_depth p + 1" for q
  proof -
    have "path_num q * 2 ^ s < 2 ^ path_depth q * 2 ^ s" using path_num_less [of q] by simp
    also have "\<dots> = 2 ^ (path_depth q + s)" by (simp add: power_add)
    also have "\<dots> \<le> 2 ^ 64" using that assms(2,3) by (intro power_increasing) (auto simp: s_def)
    finally show ?thesis .
  qed
  have "unat (push_bit s dl) = 2 * path_num p * 2 ^ s" "unat (push_bit s dr) = (2 * path_num p + 1) * 2 ^ s"
    using push_bit_small [of dl s] push_bit_small [of dr s] fit [OF pl(3)] fit [OF pr(3)] dl dr pl pr by simp_all
  moreover have "normalizedPathLength h - unat (parac_path_length pl) = s"
    using pl ordinary_length [OF pl(2)] by (simp add: s_def)
  ultimately show ?thesis
    using assms(1,2) pl pr dl dr ordinary_not_tagged(1) [OF pl(2)] ordinary_not_tagged(1) [OF pr(2)]
    by (simp add: PathDefined_split_def ordinary_length parac_path_get_next_left_def parac_path_get_next_right_def
        Let_def l_def r_def)
qed

lemma PathDefined_split_end:
  assumes "ordinary p" "normalizedPathLength h \<le> path_depth p"
  shows "PathDefined_split h p = Some (False, False, False)"
  using assms by (simp add: PathDefined_split_def ordinary_length)

text \<open>
  The complete tree of tasks that starts at a path: inner nodes were split, with a child for every
  flag that was set; leaves refused to split.
\<close>

fun path_tree :: "cadical_handle \<Rightarrow> parac_path solve_tree \<Rightarrow> bool" where
  "path_tree h (SolveLeaf p) = (case PathDefined_split h p of Some (b, l, r) \<Rightarrow> \<not> b | None \<Rightarrow> False)"
| "path_tree h (SolveNode p ts) = ((case PathDefined_split h p of
       Some (b, l, r) \<Rightarrow> b \<and> map (\<lambda>t. Some (tree_root t)) ts =
         (if l then [parac_path_get_next_left p] else []) @ (if r then [parac_path_get_next_right p] else [])
     | None \<Rightarrow> False) \<and> (\<forall>t \<in> set ts. path_tree h t))"

lemma upt_join: "a \<le> b \<Longrightarrow> b \<le> c \<Longrightarrow> [a..<b] @ [b..<c] = [a..<c]"
  by (metis le_Suc_ex upt_add_eq_append)

lemma path_tree_leaves:
  assumes "path_tree h t" "ordinary (tree_root t)" "path_depth (tree_root t) \<le> normalizedPathLength h"
    "normalizedPathLength h \<le> 58"
    "path_num (tree_root t) * 2 ^ (normalizedPathLength h - path_depth (tree_root t)) < pregeneratedCubesCount h"
  shows "map path_num (tree_leaves t) =
      [path_num (tree_root t) * 2 ^ (normalizedPathLength h - path_depth (tree_root t)) ..<
       min (pregeneratedCubesCount h) ((path_num (tree_root t) + 1) * 2 ^ (normalizedPathLength h - path_depth (tree_root t)))]
    \<and> (\<forall>p \<in> set (tree_leaves t). ordinary p \<and> path_depth p = normalizedPathLength h)"
  using assms
proof (induction t)
  case (SolveLeaf p)
  have "path_depth p = normalizedPathLength h"
  proof (rule ccontr)
    assume "path_depth p \<noteq> normalizedPathLength h"
    then have lt: "path_depth p < normalizedPathLength h" using SolveLeaf.prems(3) by simp
    then obtain s where s: "normalizedPathLength h - path_depth p = Suc s" using Suc_diff_Suc by metis
    with PathDefined_split_below [OF _ lt SolveLeaf.prems(4)] SolveLeaf.prems show False
      by (auto simp: mult.assoc mult.left_commute)
  qed
  with SolveLeaf.prems show ?case by simp
next
  case (SolveNode p ts)
  let ?L = "normalizedPathLength h" and ?C = "pregeneratedCubesCount h" and ?N = "path_num p"
  have ord: "ordinary p" using SolveNode.prems(2) by simp
  have lt: "path_depth p < ?L"
  proof (rule ccontr)
    assume "\<not> path_depth p < ?L"
    with PathDefined_split_end [OF ord, of h] SolveNode.prems(1) show False by simp
  qed
  then obtain s where s: "?L - path_depth p = Suc s" using Suc_diff_Suc by metis
  have sp: "PathDefined_split h p = Some (2 * ?N * 2 ^ s < ?C \<or> (2 * ?N + 1) * 2 ^ s < ?C,
      2 * ?N * 2 ^ s < ?C, (2 * ?N + 1) * 2 ^ s < ?C)"
    using PathDefined_split_below [OF ord lt SolveNode.prems(4)] s by simp
  have l: "2 * ?N * 2 ^ s < ?C" using SolveNode.prems(5) s by (simp add: mult.assoc mult.left_commute)
  have d: "path_depth p < 58" using lt SolveNode.prems(4) by simp
  obtain pl where pl: "parac_path_get_next p False = Some pl" "ordinary pl" "path_depth pl = path_depth p + 1"
    "path_num pl = 2 * ?N" by (rule child_facts [OF ord d, of False]) simp
  obtain pr where pr: "parac_path_get_next p True = Some pr" "ordinary pr" "path_depth pr = path_depth p + 1"
    "path_num pr = 2 * ?N + 1" by (rule child_facts [OF ord d, of True]) simp
  have ls: "?L - path_depth pl = s" "?L - path_depth pr = s" "path_depth pl \<le> ?L" "path_depth pr \<le> ?L"
    using s pl(3) pr(3) by auto
  have kids: "map (\<lambda>t. Some (tree_root t)) ts = Some pl # (if (2 * ?N + 1) * 2 ^ s < ?C then [Some pr] else [])"
    and sub: "\<And>t. t \<in> set ts \<Longrightarrow> path_tree h t"
    using SolveNode.prems(1) sp l pl(1) pr(1) by (auto simp: parac_path_get_next_left_def parac_path_get_next_right_def)
  from kids obtain tl ts' where ts: "ts = tl # ts'" "tree_root tl = pl" by (cases ts) auto
  have IHl: "map path_num (tree_leaves tl) = [2 * ?N * 2 ^ s ..< min ?C ((2 * ?N + 1) * 2 ^ s)]
      \<and> (\<forall>p \<in> set (tree_leaves tl). ordinary p \<and> path_depth p = ?L)"
    by (rule SolveNode.IH [of tl, unfolded ts(2) pl(4) ls(1), OF _ sub pl(2) ls(3) SolveNode.prems(4) l]) (simp_all add: ts)
  show ?case
  proof (cases "(2 * ?N + 1) * 2 ^ s < ?C")
    case True
    with kids ts obtain tr where tr: "ts' = [tr]" "tree_root tr = pr" by (cases ts') auto
    have IHr: "map path_num (tree_leaves tr) = [(2 * ?N + 1) * 2 ^ s ..< min ?C ((2 * ?N + 1 + 1) * 2 ^ s)]
        \<and> (\<forall>p \<in> set (tree_leaves tr). ordinary p \<and> path_depth p = ?L)"
      by (rule SolveNode.IH [of tr, unfolded tr(2) pr(4) ls(2), OF _ sub pr(2) ls(4) SolveNode.prems(4) True])
        (simp_all add: ts tr)
    have m: "min ?C ((2 * ?N + 1) * 2 ^ s) = (2 * ?N + 1) * 2 ^ s" using True by simp
    have b: "?N * 2 ^ Suc s = 2 * ?N * 2 ^ s" "(?N + 1) * 2 ^ Suc s = (2 * ?N + 1 + 1) * 2 ^ s" by (simp_all add: algebra_simps)
    have "[2 * ?N * 2 ^ s ..< (2 * ?N + 1) * 2 ^ s] @ [(2 * ?N + 1) * 2 ^ s ..< min ?C ((2 * ?N + 1 + 1) * 2 ^ s)]
        = [2 * ?N * 2 ^ s ..< min ?C ((2 * ?N + 1 + 1) * 2 ^ s)]"
    proof (rule upt_join)
      show "2 * ?N * 2 ^ s \<le> (2 * ?N + 1) * 2 ^ s" by (rule mult_le_mono1) simp
      have "(2 * ?N + 1) * 2 ^ s \<le> (2 * ?N + 1 + 1) * 2 ^ s" by (rule mult_le_mono1) simp
      with True show "(2 * ?N + 1) * 2 ^ s \<le> min ?C ((2 * ?N + 1 + 1) * 2 ^ s)"
        unfolding min.bounded_iff by (meson less_imp_le)
    qed
    with IHl IHr m show ?thesis unfolding tree_root.simps s b ts tr tree_leaves.simps by (simp add: ball_Un)
  next
    case False
    with kids ts have ts': "ts' = []" by (cases ts') auto
    have b: "?N * 2 ^ Suc s = 2 * ?N * 2 ^ s" "(?N + 1) * 2 ^ Suc s = (2 * ?N + 1) * 2 ^ s + 2 ^ s" by (simp_all add: algebra_simps)
    have m: "min ?C ((2 * ?N + 1) * 2 ^ s) = ?C" "min ?C ((2 * ?N + 1) * 2 ^ s + 2 ^ s) = ?C" using False by simp_all
    from IHl show ?thesis unfolding tree_root.simps s b m ts ts' tree_leaves.simps by simp
  qed
qed

section \<open>Splitting on a literal\<close>

text \<open>
  A formula is a predicate on assignments.  The value of a \<open>CaDiCaLCubes\<close> source is whether some
  assignment satisfies the formula and its cube.
\<close>

definition lit_true :: "(nat \<Rightarrow> bool) \<Rightarrow> int \<Rightarrow> bool" where
  "lit_true a l \<longleftrightarrow> (if l > 0 then a (nat l) else \<not> a (nat (- l)))"

definition sat_under :: "((nat \<Rightarrow> bool) \<Rightarrow> bool) \<Rightarrow> int list \<Rightarrow> bool" where
  "sat_under F c \<longleftrightarrow> (\<exists>a. F a \<and> (\<forall>l \<in> set c. lit_true a l))"

lemma lit_true_neg: "l \<noteq> 0 \<Longrightarrow> lit_true a (- l) \<longleftrightarrow> \<not> lit_true a l"
  by (auto simp: lit_true_def)

lemma sat_under_split: "l \<noteq> 0 \<Longrightarrow> sat_under F c \<longleftrightarrow> sat_under F (c @ [- l]) \<or> sat_under F (c @ [l])"
  by (auto simp: sat_under_def lit_true_neg)

definition cadical_splits :: "(int list \<Rightarrow> parac_status \<times> int) \<Rightarrow> nat \<Rightarrow> source \<Rightarrow> source list \<Rightarrow> bool" where
  "cadical_splits resplit depth src ks \<longleftrightarrow> (case src of
       CaDiCaLCubes c l k \<Rightarrow> (case CaDiCaLCubes_split resplit depth src of
         Some (True, _, _, src') \<Rightarrow> ks = [source_leftChild src', source_rightChild src'] | _ \<Rightarrow> False)
     | _ \<Rightarrow> False)"

lemma cadical_splits_cubes:
  assumes "cadical_splits resplit depth src ks"
  obtains c k l where "currentCube src = c" "l \<noteq> 0" "ks = [CaDiCaLCubes (c @ [- l]) 0 k, CaDiCaLCubes (c @ [l]) 0 k]"
proof (cases src)
  case (CaDiCaLCubes c l k)
  show thesis
  proof (cases "l = 0")
    case False
    with assms CaDiCaLCubes that [of c l k] show thesis
      by (auto simp: cadical_splits_def CaDiCaLCubes_split_def source_leftChild_def source_rightChild_def)
  next
    case True
    obtain st x where r: "resplit c = (st, x)" by (cases "resplit c")
    with assms CaDiCaLCubes True that [of c x k] show thesis
      by (cases "st = PARAC_SPLITTED \<and> x \<noteq> 0 \<and> length c < depth")
        (auto simp: cadical_splits_def CaDiCaLCubes_split_def source_leftChild_def source_rightChild_def
          c_assert_def split: if_split_asm)
  qed
qed (use assms in \<open>auto simp: cadical_splits_def\<close>)

interpretation cadical_splitting: sound_splitting
  "cadical_splits resplit depth" "\<lambda>src. True" "\<lambda>src. sat_under F (currentCube src)" for resplit depth F
proof
  fix s ks
  assume "cadical_splits resplit depth s ks"
  then obtain c k l where "currentCube s = c" "l \<noteq> 0"
    "ks = [CaDiCaLCubes (c @ [- l]) 0 k, CaDiCaLCubes (c @ [l]) 0 k]" by (rule cadical_splits_cubes)
  with sat_under_split [of l F c]
  show "sat_under F (currentCube s) = (if True then \<exists>k \<in> set ks. sat_under F (currentCube k)
      else \<forall>k \<in> set ks. sat_under F (currentCube k))" by auto
qed

section \<open>Properties\<close>


text \<open>
  Looking up a pregenerated cube.  After the jump list was made from cubes \<open>cls\<close>, their number is
  right, the cube with number \<open>i\<close> is the \<open>i\<close>-th one, and a number beyond the last gives the empty cube.
\<close>

theorem jumplist_lookup:
  assumes "pregeneratedCubes h = zero_terminated cls" "\<forall>c \<in> set cls. 0 \<notin> set c"
  shows "pregeneratedCubesCount (generateJumplist clog h) = length cls
    \<and> getCubeFromId (generateJumplist clog h) i = Some (if i < length cls then cls ! i else [])"
  using generateJumplist_fields [OF assms] getCubeFromId_nth [OF assms] by simp

text \<open>
  C37 (lookahead splitting decides satisfiability).  Take any tree of tasks whose inner nodes were split
  by a \<^verbatim>\<open>CaDiCaLCubes\<close> source, whatever literals the lookahead proposes.  If the solver answers
  correctly under the cubes of the leaves, then some leaf is satisfiable exactly if the formula is
  satisfiable under the cube of the root.
\<close>

theorem cadical_tree_verdict:
  assumes "split_tree (cadical_splits resplit depth) t"
    and "\<And>s. s \<in> set (tree_leaves t) \<Longrightarrow> leaf s = sat_under F (currentCube s)"
  shows "tree_verdict (\<lambda>s. True) leaf t \<longleftrightarrow> sat_under F (currentCube (tree_root t))"
  using cadical_splitting.verdict_by_leaves [OF assms] by simp


definition example_handle :: cadical_handle where
  "example_handle = cadical_handle_init\<lparr>pregeneratedCubes := zero_terminated [[1], [- 1, 2]]\<rparr>"

theorem jumplist_lookup_witness:
  "pregeneratedCubesCount (generateJumplist (\<lambda>n. 1) example_handle) = 2
   \<and> getCubeFromId (generateJumplist (\<lambda>n. 1) example_handle) 1 = Some [- 1, 2]"
  using jumplist_lookup [of example_handle "[[1], [- 1, 2]]" "\<lambda>n. 1" 1] by (simp add: example_handle_def)

definition example_path_tree :: "parac_path solve_tree" where
  "example_path_tree = SolveNode parac_path_root
     [SolveLeaf (the (parac_path_get_next_left parac_path_root)), SolveLeaf (the (parac_path_get_next_right parac_path_root))]"

lemma example_path_tree_complete: "path_tree (generateJumplist (\<lambda>n. 1) example_handle) example_path_tree"
proof -
  let ?h = "generateJumplist (\<lambda>n. 1) example_handle"
  have h: "normalizedPathLength ?h = 1" "pregeneratedCubesCount ?h = 2"
    using generateJumplist_fields [of example_handle "[[1], [- 1, 2]]" "\<lambda>n. 1"] by (simp_all add: example_handle_def)
  have r: "ordinary parac_path_root" "path_depth parac_path_root = 0" "path_num parac_path_root = 0"
    by (simp_all add: parac_path_root_def ordinary_def path_depth_def path_num_def length_fld_def path_bits_def
        bits_upto_def bits_num_def)
  obtain pl where pl: "parac_path_get_next parac_path_root False = Some pl" "ordinary pl" "path_depth pl = 1"
    by (rule child_facts [of parac_path_root False]) (use r in auto)
  obtain pr where pr: "parac_path_get_next parac_path_root True = Some pr" "ordinary pr" "path_depth pr = 1"
    by (rule child_facts [of parac_path_root True]) (use r in auto)
  have "PathDefined_split ?h parac_path_root = Some (True, True, True)"
    using PathDefined_split_below [OF r(1), of ?h] r h by simp
  moreover have "PathDefined_split ?h pl = Some (False, False, False)" "PathDefined_split ?h pr = Some (False, False, False)"
    using PathDefined_split_end [of _ ?h] pl pr h by simp_all
  ultimately show ?thesis
    by (simp add: example_path_tree_def parac_path_get_next_left_def parac_path_get_next_right_def pl pr)
qed


theorem cadical_tree_verdict_witness:
  "tree_verdict (\<lambda>s. True) (\<lambda>s. sat_under (\<lambda>a. a 1) (currentCube s))
     (SolveNode (CaDiCaLCubes [] 1 0) [SolveLeaf (CaDiCaLCubes [- 1] 0 0), SolveLeaf (CaDiCaLCubes [1] 0 0)])
   \<longleftrightarrow> sat_under (\<lambda>a. a 1) []"
  using cadical_tree_verdict [of "\<lambda>c. (PARAC_SPLITTED, 1)" 3
      "SolveNode (CaDiCaLCubes [] 1 0) [SolveLeaf (CaDiCaLCubes [- 1] 0 0), SolveLeaf (CaDiCaLCubes [1] 0 0)]"
      "\<lambda>s. sat_under (\<lambda>a. a 1) (currentCube s)" "\<lambda>a. a 1"]
  by (simp add: cadical_splits_def CaDiCaLCubes_split_def source_leftChild_def source_rightChild_def)
end
