(* ===== verification/SolverTask.thy ===== *)
theory SolverTask
  imports TaskTree CubeSource SinglePrecision
begin

unbundle bit_operations_syntax

text \<open>
  The SAT solver's tasks and the manager they share: \<^verbatim>\<open>modules/solver/solver_task.cpp\<close>,
  \<^verbatim>\<open>solver_task.hpp\<close>, the counters and learned clauses of \<^verbatim>\<open>cadical_manager.cpp\<close>, the calls of
  \<^verbatim>\<open>cadical_handle.cpp\<close> that wrap one run of the SAT solver, and the worker of
  \<^verbatim>\<open>modules/runner/runner_worker.cpp\<close> that runs them.

  The \<^verbatim>\<open>SolverTask\<close> object of a task is kept under the address of the task.  What the SAT solver,
  the clock and the timeout answer during one call of \<^verbatim>\<open>work\<close> is the record \<open>work_env\<close>.
\<close>

section \<open>Deciding when to split fast\<close>

record FastSplit =
  fs_alpha :: u32
  fs_beta :: u32
  fs_fastSplit :: bool
  fs_depth :: int
  fs_local_situation :: bool

definition FastSplit_init :: FastSplit where
  "FastSplit_init = \<lparr>fs_alpha = 0, fs_beta = 0, fs_fastSplit = True, fs_depth = 1, fs_local_situation = True\<rparr>"

definition FastSplit_period :: u32 where "FastSplit_period = 8"

definition FastSplit_tick :: "bool \<Rightarrow> FastSplit \<Rightarrow> FastSplit option" where
  "FastSplit_tick b f = do {
     c_assert (fs_beta f \<le> fs_alpha f);
     let full_tick = (b \<or> fs_local_situation f);
     let f = (if full_tick then f\<lparr>fs_beta := fs_beta f + 1\<rparr> else f\<lparr>fs_fastSplit := False\<rparr>);
     let f = f\<lparr>fs_alpha := fs_alpha f + 1\<rparr>;
     Some (if fs_alpha f = FastSplit_period then
             let fast = fs_beta f \<ge> FastSplit_period div 2
             in f\<lparr>fs_fastSplit := fast, fs_beta := 0, fs_alpha := 0,
                  fs_depth := (if fast then fs_depth f + 1 else fs_depth f - 1)\<rparr>
           else f) }"

definition FastSplit_split_depth :: "FastSplit \<Rightarrow> int" where
  "FastSplit_split_depth f = (if fs_fastSplit f then fs_depth f else 0)"

section \<open>Solver tasks and their manager\<close>

record solver_task =
  st_cubeSource :: source
  st_fastSplit :: FastSplit
  st_working :: bool
  st_serialized :: bool

record solver_world =
  sw_store :: task_store
  solverTasks :: "task_ref \<Rightarrow> solver_task option"
  parsedFormula :: cadical_handle
  waitingSolverTasks :: u64
  solvingTimes :: "nat list"
  knownPeers :: "node_ref list"
  learnedClauses :: "int list list"
  learnedClausesInitiallyFrom :: parac_id
  learnedClausesApplicationStack :: "nat list"
  handleClauses :: "nat \<Rightarrow> int list list"
  sentClauses :: "(node_ref \<times> int list list) list"
  satAssignments :: nat
  config_Resplit :: bool
  config_InitialMinimalCubeDepth :: nat

definition addWaitingSolverTask :: "solver_world \<Rightarrow> solver_world" where
  "addWaitingSolverTask w = w\<lparr>waitingSolverTasks := waitingSolverTasks w + 1\<rparr>"

definition removeWaitingSolverTask :: "solver_world \<Rightarrow> solver_world" where
  "removeWaitingSolverTask w = w\<lparr>waitingSolverTasks := waitingSolverTasks w - 1\<rparr>"

definition updateAverageSolvingTime :: "nat \<Rightarrow> solver_world \<Rightarrow> solver_world" where
  "updateAverageSolvingTime ms w = w\<lparr>solvingTimes := solvingTimes w @ [ms]\<rparr>"

text \<open>\<open>rolling_mean\<close> is the accumulator of the Boost library.\<close>

definition averageSolvingTimeMS :: "(nat list \<Rightarrow> nat) \<Rightarrow> solver_world \<Rightarrow> nat" where
  "averageSolvingTimeMS rolling_mean w =
     (let duration = rolling_mean (solvingTimes w) in if duration < 1000 then 1000 else duration)"

text \<open>
  \<^verbatim>\<open>getHandleForWorker\<close>: the clauses learned since the last call are added to the worker's solver.
\<close>

definition getHandleForWorker :: "nat \<Rightarrow> solver_world \<Rightarrow> solver_world option" where
  "getHandleForWorker k w = do {
     c_assert (k < length (learnedClausesApplicationStack w));
     let applied = learnedClausesApplicationStack w ! k;
     if length (learnedClauses w) > applied then do {
       let clausesToLearn = drop applied (learnedClauses w);
       c_assert (list_all (\<lambda>c. c \<noteq> []) clausesToLearn);
       Some (w\<lparr>learnedClausesApplicationStack := (learnedClausesApplicationStack w)[k := length (learnedClauses w)],
               handleClauses := (handleClauses w)(k := handleClauses w k @ clausesToLearn)\<rparr>) }
     else Some w }"

text \<open>
  The exchange of learned clauses with the peers that are available; what is sent is appended to
  \<open>sentClauses\<close>.
\<close>

definition DistributeLearnedClausesToTargets ::
  "(node_ref \<Rightarrow> bool) \<Rightarrow> int list list \<Rightarrow> node_ref list \<Rightarrow> solver_world \<Rightarrow> solver_world option" where
  "DistributeLearnedClausesToTargets available cs targets w = do {
     c_assert (cs \<noteq> []);
     c_assert (list_all (\<lambda>c. c \<noteq> []) cs);
     Some (w\<lparr>sentClauses := sentClauses w @ map (\<lambda>n. (n, cs)) (filter available targets)\<rparr>) }"

definition addPossiblyNewNodePeer ::
  "(node_ref \<Rightarrow> bool) \<Rightarrow> node_ref \<Rightarrow> parac_id \<Rightarrow> solver_world \<Rightarrow> solver_world option" where
  "addPossiblyNewNodePeer available peer peer_id w =
     (let inserted = peer \<notin> set (knownPeers w);
          w = w\<lparr>knownPeers := insort_insert peer (knownPeers w)\<rparr>
      in if inserted \<and> peer_id \<noteq> learnedClausesInitiallyFrom w then
           (if learnedClauses w = [] then Some w
            else DistributeLearnedClausesToTargets available (learnedClauses w) [peer] w)
         else Some w)"

definition applyAndDistributeNewLearnedClause ::
  "(node_ref \<Rightarrow> bool) \<Rightarrow> int list \<Rightarrow> parac_id \<Rightarrow> solver_world \<Rightarrow> solver_world option" where
  "applyAndDistributeNewLearnedClause available c src w = do {
     c_assert (c \<noteq> []);
     let w = w\<lparr>learnedClauses := learnedClauses w @ [c]\<rparr>;
     if src = 0 then DistributeLearnedClausesToTargets available [c] (knownPeers w) w
     else Some (if learnedClausesInitiallyFrom w = 0 then w\<lparr>learnedClausesInitiallyFrom := src\<rparr> else w) }"

text \<open>The clause of an unsatisfiable cube, as \<^verbatim>\<open>static_assess\<close> builds it.\<close>

definition negated_cube :: "int list \<Rightarrow> int list" where
  "negated_cube c = map uminus c"

text \<open>\<^verbatim>\<open>init\<close>, \<^verbatim>\<open>create\<close> and the deletion of the object with its task.\<close>

definition SolverTask_init :: "task_ref \<Rightarrow> source \<Rightarrow> solver_world \<Rightarrow> solver_world option" where
  "SolverTask_init r src w = do {
     s \<leftarrow> upd_task r (\<lambda>t. t\<lparr>state := PARAC_TASK_WORK_AVAILABLE, has_work := True, has_serialize := True,
            userdata := Some r, assess := Some SolverTaskAssess, has_free_userdata := True\<rparr>) (sw_store w);
     Some (addWaitingSolverTask (w\<lparr>sw_store := s,
       solverTasks := (solverTasks w)(r \<mapsto> \<lparr>st_cubeSource = src, st_fastSplit = FastSplit_init,
         st_working = False, st_serialized = False\<rparr>)\<rparr>)) }"

definition SolverTask_create :: "task_ref \<Rightarrow> source \<Rightarrow> solver_world \<Rightarrow> solver_world option" where
  "SolverTask_create r src w = do {
     s \<leftarrow> upd_task r (\<lambda>t. t\<lparr>pre_path_sorting_critereon := prePathSortingCritereon src\<rparr>) (sw_store w);
     SolverTask_init r src (w\<lparr>sw_store := s\<rparr>) }"

definition deleteSolverTask :: "task_ref \<Rightarrow> solver_world \<Rightarrow> solver_world option" where
  "deleteSolverTask r w = do {
     _ \<leftarrow> solverTasks w r;
     Some (w\<lparr>solverTasks := (solverTasks w)(r := None)\<rparr>) }"

definition serialize_to_msg :: "task_ref \<Rightarrow> solver_world \<Rightarrow> solver_world option" where
  "serialize_to_msg r w = do {
     st \<leftarrow> solverTasks w r;
     c_assert (\<not> st_working st);
     Some (removeWaitingSolverTask (w\<lparr>solverTasks := (solverTasks w)(r \<mapsto> st\<lparr>st_serialized := True\<rparr>)\<rparr>)) }"

text \<open>
  Running an operation of the task store from the solver: the calls that reach the solver are run in
  their order; the userdata of a removed task is deleted, the clause of an unsatisfiable task is
  learned.  The other calls stay in the list of the store.  The paths are those before the
  operation: the path of a task never changes.
\<close>

definition solver_call ::
  "(node_ref \<Rightarrow> bool) \<Rightarrow> (task_ref \<Rightarrow> parac_path) \<Rightarrow> outcall \<Rightarrow> solver_world \<Rightarrow> solver_world option" where
  "solver_call available pathof c w = (case c of
       FreeUserdata r \<Rightarrow> if solverTasks w r = None then Some w else deleteSolverTask r w
     | LearnedClause r \<Rightarrow> do {
         st \<leftarrow> solverTasks w r;
         cube \<leftarrow> source_cube (parsedFormula w) (st_cubeSource st) (pathof r);
         c_assert (cube \<noteq> []);
         applyAndDistributeNewLearnedClause available (negated_cube cube) 0 w }
     | _ \<Rightarrow> Some w)"

fun solver_calls ::
  "(node_ref \<Rightarrow> bool) \<Rightarrow> (task_ref \<Rightarrow> parac_path) \<Rightarrow> outcall list \<Rightarrow> solver_world \<Rightarrow> solver_world option" where
  "solver_calls available pathof [] w = Some w"
| "solver_calls available pathof (c # cs) w = do {
     w \<leftarrow> solver_call available pathof c w;
     solver_calls available pathof cs w }"

definition store_op :: "(node_ref \<Rightarrow> bool) \<Rightarrow> (task_store \<Rightarrow> task_store option) \<Rightarrow> solver_world \<Rightarrow> solver_world option" where
  "store_op available f w = do {
     s \<leftarrow> f (sw_store w);
     solver_calls available (path_of (sw_store w)) (drop (length (outcalls (sw_store w))) (outcalls s))
       (w\<lparr>sw_store := s\<rparr>) }"

definition task_op :: "task_ref \<Rightarrow> (parac_task \<Rightarrow> parac_task) \<Rightarrow> solver_world \<Rightarrow> solver_world option" where
  "task_op r f w = do { s \<leftarrow> upd_task r f (sw_store w); Some (w\<lparr>sw_store := s\<rparr>) }"

section \<open>Splitting a task\<close>

record work_env =
  env_resplitCube :: "int list \<Rightarrow> parac_status \<times> int"
  env_lookahead :: "int list \<Rightarrow> int list list \<times> cadical_state"
  env_solve :: "int list list \<Rightarrow> int list \<Rightarrow> int"
  env_rolling_mean :: "nat list \<Rightarrow> nat"
  env_has_timeout :: bool
  env_expired_early :: bool
  env_interrupted :: bool
  env_stopped_before :: bool
  env_stopped_after :: bool
  env_solving_ms :: nat
  env_resplit_has_timeout :: bool
  env_resplit_interrupted :: "nat \<Rightarrow> bool"
  env_resplit_stopped :: bool
  env_splitting_ms :: nat
  env_alloc :: "task_store \<Rightarrow> task_ref"
  env_available :: "node_ref \<Rightarrow> bool"

text \<open>
  One side of a split: a new task at the path with the source of the child, then assessed.  The
  result is \<open>False\<close> when the store gives no task.
\<close>

definition split_side ::
  "work_env \<Rightarrow> nat \<Rightarrow> task_ref \<Rightarrow> bool \<Rightarrow> source \<Rightarrow> solver_world \<Rightarrow> (bool \<times> solver_world) option" where
  "split_side env fuel r side src w = do {
     t \<leftarrow> get_task r (sw_store w);
     p \<leftarrow> parac_path_get_next (path t) side;
     (child, s) \<leftarrow> newTask (env_alloc env (sw_store w)) (Some r) p (originator t) (sw_store w);
     let w = w\<lparr>sw_store := s\<rparr>;
     (case child of
        None \<Rightarrow> Some (False, w)
      | Some c \<Rightarrow> do {
          w \<leftarrow> SolverTask_create c src w;
          w \<leftarrow> task_op r (\<lambda>t. if side then t\<lparr>right_result := PARAC_PENDING\<rparr>
                                          else t\<lparr>left_result := PARAC_PENDING\<rparr>) w;
          w \<leftarrow> store_op (env_available env) (assess_task fuel c) w;
          Some (True, w) }) }"

definition skip_side :: "task_ref \<Rightarrow> bool \<Rightarrow> solver_world \<Rightarrow> solver_world option" where
  "skip_side r side w = task_op r (\<lambda>t. if side then t\<lparr>right_result := PARAC_UNSAT\<rparr>
                                                   else t\<lparr>left_result := PARAC_UNSAT\<rparr>) w"

definition work_split ::
  "work_env \<Rightarrow> nat \<Rightarrow> task_ref \<Rightarrow> bool \<Rightarrow> bool \<Rightarrow> solver_world \<Rightarrow> (parac_status \<times> solver_world) option" where
  "work_split env fuel r split_left split_right w = do {
     w \<leftarrow> task_op r (\<lambda>t. t\<lparr>state := state t OR PARAC_TASK_SPLITTED OR PARAC_TASK_WAITING_FOR_SPLITS\<rparr>) w;
     st \<leftarrow> solverTasks w r;
     (ok, w) \<leftarrow> (if split_left then split_side env fuel r False (source_leftChild (st_cubeSource st)) w
                 else do { w \<leftarrow> skip_side r False w; Some (True, w) });
     if \<not> ok then Some (PARAC_ABORTED, w)
     else do {
       (ok, w) \<leftarrow> (if split_right then split_side env fuel r True (source_rightChild (st_cubeSource st)) w
                   else do { w \<leftarrow> skip_side r True w; Some (True, w) });
       Some (if ok then PARAC_PENDING else PARAC_ABORTED, w) } }"

section \<open>Resplitting after a timeout\<close>

definition makeTaskFromCube ::
  "work_env \<Rightarrow> task_ref \<Rightarrow> parac_path \<Rightarrow> int list \<Rightarrow> u32 \<Rightarrow> solver_world \<Rightarrow> (task_ref option \<times> solver_world) option" where
  "makeTaskFromCube env parent p cube crit w = do {
     c_assert (0 \<notin> set cube);
     w \<leftarrow> task_op parent (\<lambda>t. t\<lparr>state :=
            PARAC_TASK_SPLITTED OR PARAC_TASK_WAITING_FOR_SPLITS OR PARAC_TASK_DONE\<rparr>) w;
     pt \<leftarrow> get_task parent (sw_store w);
     (child, s) \<leftarrow> newTask (env_alloc env (sw_store w)) (Some parent) p (originator pt) (sw_store w);
     let w = w\<lparr>sw_store := s\<rparr>;
     (case child of
        None \<Rightarrow> Some (None, w)
      | Some c \<Rightarrow> do {
          w \<leftarrow> SolverTask_create c (Supplied cube crit) w;
          l \<leftarrow> parac_path_get_next_left (path pt);
          rp \<leftarrow> parac_path_get_next_right (path pt);
          c_assert (l = p \<or> rp = p);
          w \<leftarrow> task_op parent (\<lambda>t. if l = p then t\<lparr>left_result := PARAC_PENDING\<rparr>
                                               else t\<lparr>right_result := PARAC_PENDING\<rparr>) w;
          w \<leftarrow> task_op c (\<lambda>t. t\<lparr>result := PARAC_PENDING\<rparr>) w;
          Some (Some c, w) }) }"

definition expandLeftAndRightCube ::
  "work_env \<Rightarrow> task_ref \<Rightarrow> int list \<times> int list \<Rightarrow> u32 \<Rightarrow> solver_world \<Rightarrow>
   ((task_ref option \<times> int list) list \<times> solver_world) option" where
  "expandLeftAndRightCube env r cubes crit w = do {
     t \<leftarrow> get_task r (sw_store w);
     l \<leftarrow> parac_path_get_next_left (path t);
     rp \<leftarrow> parac_path_get_next_right (path t);
     (lt, w) \<leftarrow> makeTaskFromCube env r l (fst cubes) crit w;
     (rt, w) \<leftarrow> makeTaskFromCube env r rp (snd cubes) crit w;
     Some ([(lt, fst cubes), (rt, snd cubes)], w) }"

text \<open>
  One level of \<^verbatim>\<open>resplitDepth\<close>: a task that cannot be split further, or that the lookahead solved,
  leaves the list.
\<close>

fun resplit_level ::
  "work_env \<Rightarrow> u32 \<Rightarrow> (task_ref option \<times> int list) list \<Rightarrow> solver_world \<Rightarrow>
   ((task_ref option \<times> int list) list \<times> solver_world) option" where
  "resplit_level env crit [] w = Some ([], w)"
| "resplit_level env crit ((task, cube) # es) w = do {
     r \<leftarrow> task;
     let (status, split) = resplitOnce (env_lookahead env) cube;
     (new, w) \<leftarrow>
       (if status = PARAC_NO_SPLITS_LEFT then Some ([], w)
        else if status \<noteq> PARAC_SPLITTED then do {
          w \<leftarrow> task_op r (\<lambda>t. t\<lparr>state := PARAC_TASK_DONE, result := status\<rparr>) w;
          Some ([], w) }
        else do { cubes \<leftarrow> split; expandLeftAndRightCube env r cubes crit w });
     (rest, w) \<leftarrow> resplit_level env crit es w;
     Some (new @ rest, w) }"

function resplit_levels ::
  "work_env \<Rightarrow> u32 \<Rightarrow> int \<Rightarrow> int \<Rightarrow> (task_ref option \<times> int list) list \<Rightarrow> solver_world \<Rightarrow>
   ((task_ref option \<times> int list) list \<times> solver_world) option" where
  "resplit_levels env crit i depth es w =
     (if i < depth \<and> i < 58 \<and> \<not> env_resplit_interrupted env (nat i) then do {
        (es, w) \<leftarrow> resplit_level env crit es w;
        resplit_levels env crit (i + 1) depth es w }
      else Some (es, w))"
  by pat_completeness auto
termination by (relation "measure (\<lambda>(env, crit, i, depth, es, w). nat (58 - i))") auto

declare resplit_levels.simps [simp del]

definition resplitDepth ::
  "work_env \<Rightarrow> task_ref \<Rightarrow> int list \<Rightarrow> int \<Rightarrow> solver_world \<Rightarrow>
   (parac_status \<times> (task_ref option \<times> int list) list \<times> solver_world) option" where
  "resplitDepth env r literals depth w = do {
     t \<leftarrow> get_task r (sw_store w);
     st \<leftarrow> solverTasks w r;
     let crit = prePathSortingCritereon (st_cubeSource st);
     let (status, split) = resplitOnce (env_lookahead env) literals;
     if status \<noteq> PARAC_SPLITTED then Some (status, [], w)
     else do {
       cubes \<leftarrow> split;
       (es, w) \<leftarrow> expandLeftAndRightCube env r cubes crit w;
       (es, w) \<leftarrow> resplit_levels env crit (1 + int (unat (parac_path_length (path t)))) depth es w;
       Some (if es \<noteq> [] then PARAC_SPLITTED else PARAC_NO_SPLITS_LEFT, es, w) } }"

definition SolverTask_resplit ::
  "work_env \<Rightarrow> task_ref \<Rightarrow> solver_world \<Rightarrow>
   (parac_status \<times> (task_ref option \<times> int list) list \<times> nat \<times> solver_world) option" where
  "SolverTask_resplit env r w =
     (if \<not> env_resplit_has_timeout env then Some (PARAC_ABORTED, [], 0, w)
      else do {
        t \<leftarrow> get_task r (sw_store w);
        st \<leftarrow> solverTasks w r;
        literals \<leftarrow> source_cube (parsedFormula w) (st_cubeSource st) (path t);
        (status, es, w) \<leftarrow> resplitDepth env r literals (FastSplit_split_depth (st_fastSplit st)) w;
        Some (if env_resplit_stopped env then (PARAC_ABORTED, [], 0, w)
              else (status, es, env_splitting_ms env, w)) })"

section \<open>Solving\<close>

text \<open>\<^verbatim>\<open>CaDiCaLHandle::Internal::solve\<close>: the answer of the solver as a status.\<close>

definition cadical_solve_status :: "int \<Rightarrow> parac_status" where
  "cadical_solve_status a =
     (if a = 0 then PARAC_ABORTED else if a = 10 then PARAC_SAT else if a = 20 then PARAC_UNSAT
      else PARAC_UNKNOWN)"

text \<open>
  \<^verbatim>\<open>CaDiCaLHandle::solve\<close>: a terminated handle does not start.  The solver works on the formula, the
  clauses learned by the handle and the assumed cube.
\<close>

definition CaDiCaLHandle_solve :: "work_env \<Rightarrow> int list list \<Rightarrow> int list \<Rightarrow> parac_status" where
  "CaDiCaLHandle_solve env clauses cube =
     (if env_stopped_before env then PARAC_ABORTED else cadical_solve_status (env_solve env clauses cube))"

text \<open>
  \<^verbatim>\<open>solveOrConditionallyAbort\<close>: the status, the time and whether the timeout interrupted the run.
\<close>

definition solveOrConditionallyAbort ::
  "work_env \<Rightarrow> parac_task \<Rightarrow> int list list \<Rightarrow> int list \<Rightarrow> bool \<Rightarrow> parac_status \<times> nat \<times> bool" where
  "solveOrConditionallyAbort env t clauses cube timed =
     (if stop t then (PARAC_ABORTED, 0, timed \<and> env_has_timeout env \<and> env_expired_early env)
      else let s = CaDiCaLHandle_solve env clauses cube; interrupted = (timed \<and> env_has_timeout env \<and> env_interrupted env)
           in if env_stopped_after env then (PARAC_ABORTED, 0, interrupted)
              else (s, env_solving_ms env, interrupted))"

fun assess_all :: "work_env \<Rightarrow> nat \<Rightarrow> (task_ref option \<times> int list) list \<Rightarrow> solver_world \<Rightarrow> solver_world option" where
  "assess_all env fuel [] w = Some w"
| "assess_all env fuel ((task, c) # es) w = do {
     r \<leftarrow> task;
     w \<leftarrow> store_op (env_available env) (assess_task fuel r) w;
     assess_all env fuel es w }"

text \<open>The branch of \<^verbatim>\<open>work\<close> that follows an interrupted run.\<close>

definition work_interrupted ::
  "work_env \<Rightarrow> nat \<Rightarrow> task_ref \<Rightarrow> nat \<Rightarrow> nat \<Rightarrow> parac_status \<Rightarrow> solver_world \<Rightarrow> (parac_status \<times> solver_world) option" where
  "work_interrupted env fuel r duration solving_duration s w =
     (if s = PARAC_ABORTED then do {
        (status, es, splitting_duration, w) \<leftarrow> SolverTask_resplit env r w;
        (s, w) \<leftarrow>
          (if status = PARAC_SPLITTED then do {
             w \<leftarrow> task_op r (\<lambda>t. t\<lparr>result := PARAC_PENDING\<rparr>) w;
             w \<leftarrow> assess_all env fuel es w;
             Some (if es = [] then PARAC_ABORTED else PARAC_PENDING, w) }
           else Some (status, w));
        Some (s, updateAverageSolvingTime (solving_duration + splitting_duration) w) }
      else if s = PARAC_SAT \<or> s = PARAC_UNSAT then Some (s, updateAverageSolvingTime duration w)
      else Some (PARAC_UNDEFINED, w))"

definition work_duration :: "bool \<Rightarrow> nat \<Rightarrow> nat" where
  "work_duration fast average = nat \<lfloor>single ((if fast then 1 / 2 else 2) * single (of_nat average))\<rfloor>"

definition work_solve ::
  "work_env \<Rightarrow> nat \<Rightarrow> nat \<Rightarrow> task_ref \<Rightarrow> solver_world \<Rightarrow> (parac_status \<times> solver_world) option" where
  "work_solve env fuel k r w = do {
     st \<leftarrow> solverTasks w r;
     t \<leftarrow> get_task r (sw_store w);
     fs \<leftarrow> FastSplit_tick (waitingSolverTasks w \<le> 1) (st_fastSplit st);
     let w = w\<lparr>solverTasks := (solverTasks w)(r \<mapsto> st\<lparr>st_fastSplit := fs\<rparr>)\<rparr>;
     let duration = work_duration (fs_fastSplit fs) (averageSolvingTimeMS (env_rolling_mean env) w);
     cube \<leftarrow> source_cube (parsedFormula w) (st_cubeSource st) (path t);
     let (s, solving_duration, interrupted) = solveOrConditionallyAbort env t (handleClauses w k) cube (config_Resplit w);
     (s, w) \<leftarrow> (if interrupted then work_interrupted env fuel r duration solving_duration s w else Some (s, w));
     w \<leftarrow> (if s = PARAC_SAT \<or> s = PARAC_UNSAT \<or> s = PARAC_ABORTED \<or> s = PARAC_UNKNOWN
           then task_op r (\<lambda>t. t\<lparr>state := PARAC_TASK_DONE\<rparr>) w else Some w);
     Some (s, if s = PARAC_SAT then w\<lparr>satAssignments := satAssignments w + 1\<rparr> else w) }"

definition SolverTask_work ::
  "work_env \<Rightarrow> nat \<Rightarrow> nat \<Rightarrow> task_ref \<Rightarrow> solver_world \<Rightarrow> (parac_status \<times> solver_world) option" where
  "SolverTask_work env fuel k r w = do {
     w \<leftarrow> task_op r (\<lambda>t. t\<lparr>terminate := Some SolverTaskTerminate\<rparr>) w;
     st \<leftarrow> solverTasks w r;
     c_assert (\<not> st_working st);
     let w = w\<lparr>solverTasks := (solverTasks w)(r \<mapsto> st\<lparr>st_working := True\<rparr>)\<rparr>;
     w \<leftarrow> getHandleForWorker k w;
     t \<leftarrow> get_task r (sw_store w);
     c_assert (has_task_store t);
     let w = removeWaitingSolverTask w;
     (split, split_left, split_right, src) \<leftarrow>
       source_split (parsedFormula w) (env_resplitCube env) (config_InitialMinimalCubeDepth w) (st_cubeSource st) (path t);
     st \<leftarrow> solverTasks w r;
     let w = w\<lparr>solverTasks := (solverTasks w)(r \<mapsto> st\<lparr>st_cubeSource := src\<rparr>)\<rparr>;
     if split then work_split env fuel r split_left split_right w else work_solve env fuel k r w }"

section \<open>The worker\<close>

text \<open>
  One round of \<^verbatim>\<open>Worker::run\<close> with a task from the store: \<open>deleted\<close> is the delete notifier, set
  when the task is destroyed during its work.
\<close>

definition Worker_before ::
  "nat \<Rightarrow> flag_ref \<Rightarrow> solver_world \<Rightarrow> (task_ref option \<times> solver_world) option" where
  "Worker_before k flag w = do {
     (r, s) \<leftarrow> pop_work (Some flag) (sw_store w);
     (case r of
        None \<Rightarrow> Some (None, w\<lparr>sw_store := s\<rparr>)
      | Some r \<Rightarrow> do {
          s \<leftarrow> upd_task r (\<lambda>t. t\<lparr>worker := of_nat k\<rparr>) s;
          t \<leftarrow> get_task r s;
          c_assert (\<not> st_has (state t) PARAC_TASK_WORK_AVAILABLE);
          Some (Some r, w\<lparr>sw_store := s\<rparr>) }) }"

definition Worker_after ::
  "work_env \<Rightarrow> nat \<Rightarrow> task_ref \<Rightarrow> bool \<Rightarrow> parac_status \<Rightarrow> solver_world \<Rightarrow> solver_world option" where
  "Worker_after env fuel r deleted res w =
     (if deleted then Some w
      else do {
        t \<leftarrow> get_task r (sw_store w);
        w \<leftarrow> (if has_work t \<and> res \<noteq> PARAC_ABORTED \<and> res \<noteq> PARAC_PENDING \<and> result t = PARAC_PENDING
              then task_op r (\<lambda>t. t\<lparr>result := res\<rparr>) w else Some w);
        w \<leftarrow> (if res \<noteq> PARAC_ABORTED
              then task_op r (\<lambda>t. t\<lparr>state := st_without (state t) PARAC_TASK_WORKING OR PARAC_TASK_DONE\<rparr>) w
              else Some w);
        w \<leftarrow> task_op r (\<lambda>t. t\<lparr>delete_notification := None\<rparr>) w;
        t \<leftarrow> get_task r (sw_store w);
        if res \<noteq> PARAC_ABORTED \<and> \<not> st_has (state t) PARAC_TASK_SPLITTED
        then store_op (env_available env) (assess_task fuel r) w else Some w })"

definition Worker_round ::
  "work_env \<Rightarrow> nat \<Rightarrow> nat \<Rightarrow> flag_ref \<Rightarrow> solver_world \<Rightarrow> solver_world option" where
  "Worker_round env fuel k flag w = do {
     (task, w) \<leftarrow> Worker_before k flag w;
     (case task of
        None \<Rightarrow> Some w
      | Some r \<Rightarrow> do {
          t \<leftarrow> get_task r (sw_store w);
          (res, w) \<leftarrow> (if has_work t then SolverTask_work env fuel k r w else Some (PARAC_ABORTED, w));
          Worker_after env fuel r (heap (sw_store w) r = None) res w }) }"

text \<open>Rounds of several workers, one after the other.\<close>

fun Worker_rounds ::
  "nat \<Rightarrow> flag_ref \<Rightarrow> (work_env \<times> nat) list \<Rightarrow> solver_world \<Rightarrow> solver_world option" where
  "Worker_rounds fuel flag [] w = Some w"
| "Worker_rounds fuel flag ((env, k) # rest) w = do {
     w \<leftarrow> Worker_round env fuel k flag w;
     Worker_rounds fuel flag rest w }"

section \<open>Starting the solver on a formula\<close>

text \<open>
  The constructor of the manager for \<open>workers\<close> workers, on an empty task store; \<open>fastLookahead\<close> is the
  answer of CaDiCaL to \<^verbatim>\<open>CaDiCaLHandle::fastLookahead\<close>.
\<close>

definition CaDiCaLManager_init ::
  "nat \<Rightarrow> cadical_handle \<Rightarrow> bool \<Rightarrow> nat \<Rightarrow> task_store \<Rightarrow> solver_world" where
  "CaDiCaLManager_init workers formula resplit min_depth s = \<lparr>
     sw_store = s, solverTasks = (\<lambda>_. None), parsedFormula = formula, waitingSolverTasks = 0,
     solvingTimes = [], knownPeers = [], learnedClauses = [], learnedClausesInitiallyFrom = 0,
     learnedClausesApplicationStack = replicate workers 0, handleClauses = (\<lambda>_. []), sentClauses = [],
     satAssignments = 0, config_Resplit = resplit, config_InitialMinimalCubeDepth = min_depth \<rparr>"

definition MakeStartLiteralVector ::
  "(nat \<Rightarrow> parac_status \<times> int list list) \<Rightarrow> nat \<Rightarrow> int list option" where
  "MakeStartLiteralVector fastLookahead concurrentCubeTreeCount = do {
     c_assert (concurrentCubeTreeCount \<ge> 1);
     if concurrentCubeTreeCount = 1 then Some [0]
     else (case fastLookahead concurrentCubeTreeCount of (status, cubes) \<Rightarrow> do {
       c_assert (status = PARAC_SPLITTED);
       c_assert (length cubes \<ge> 1);
       let startLiterals = cubes ! 0;
       Some (if length startLiterals \<noteq> concurrentCubeTreeCount then [0] else map abs startLiterals) }) }"

definition rootCubeSources :: "bool \<Rightarrow> int list \<Rightarrow> source list" where
  "rootCubeSources cadicalCubes startLiterals =
     (if cadicalCubes
      then map (\<lambda>(l, i). CaDiCaLCubes [] l (of_nat i)) (zip startLiterals [0..<length startLiterals])
      else [PathDefined])"

text \<open>The callback of \<^verbatim>\<open>initiate_root_solver_on_file\<close> after the formula was parsed.\<close>

definition start_root :: "work_env \<Rightarrow> nat \<Rightarrow> parac_id \<Rightarrow> source \<Rightarrow> solver_world \<Rightarrow> solver_world option" where
  "start_root env fuel originatorId src w = do {
     (task, s) \<leftarrow> newTask (env_alloc env (sw_store w)) None parac_path_unknown originatorId (sw_store w);
     r \<leftarrow> task;
     w \<leftarrow> task_op r (\<lambda>t. t\<lparr>path := parac_path_root\<rparr>) (w\<lparr>sw_store := s\<rparr>);
     w \<leftarrow> SolverTask_create r src w;
     store_op (env_available env) (assess_task fuel r) w }"

fun parserDone :: "work_env \<Rightarrow> nat \<Rightarrow> parac_id \<Rightarrow> source list \<Rightarrow> solver_world \<Rightarrow> solver_world option" where
  "parserDone env fuel originatorId [] w = Some w"
| "parserDone env fuel originatorId (src # srcs) w = do {
     w \<leftarrow> start_root env fuel originatorId src w;
     parserDone env fuel originatorId srcs w }"

end
