(* ===== verification/SolverTree.thy ===== *)
theory SolverTree
  imports SolverTask
begin

unbundle bit_operations_syntax

text \<open>
  The tree of tasks of a SAT run on one node: the invariant that ties the links, the states and the
  recorded results of all tasks together, and the climb of an answer from a leaf towards the root.

  A task is either a leaf that waits for a worker, or an inner task that waits for its children; at an
  inner task each side either has a child and a pending result, or is known to be unsatisfiable.  The
  predicate \<open>vl\<close> gives every task the value its part of the search space has; the invariant says that
  an inner task has the value of some child that is still open.
\<close>

section \<open>The tree of tasks\<close>

definition own_task :: "task_ref \<Rightarrow> task_ref \<Rightarrow> parac_task \<Rightarrow> bool" where
  "own_task rt r t \<longleftrightarrow> assess t = Some SolverTaskAssess \<and> userdata t = Some r \<and> has_free_userdata t
     \<and> received_from t = None \<and> has_task_store t \<and> \<not> stop t \<and> ordinary (path t)
     \<and> (r = rt \<longrightarrow> path t = parac_path_root) \<and> (parent_task t = None \<longleftrightarrow> r = rt)"

definition leaf_task :: "task_wrapper \<Rightarrow> bool" where
  "leaf_task tw \<longleftrightarrow> in_work_queue tw \<and> state (wt tw) = PARAC_TASK_WORK_AVAILABLE
     \<and> result (wt tw) = PARAC_PENDING \<and> slot0 (wt tw) = SlotNull \<and> slot1 (wt tw) = SlotNull \<and> has_work (wt tw)"

definition side_ok ::
  "(task_ref \<Rightarrow> task_wrapper option) \<Rightarrow> parac_path option \<Rightarrow> child_slot \<Rightarrow> parac_status \<Rightarrow> bool" where
  "side_ok h q sl res \<longleftrightarrow> sl = SlotNull \<and> res = PARAC_UNSAT
     \<or> (\<exists>c cw. sl = SlotTask c \<and> res = PARAC_PENDING \<and> h c = Some cw \<and> q = Some (path (wt cw)))"

definition inner_task ::
  "(task_ref \<Rightarrow> task_wrapper option) \<Rightarrow> (task_ref \<Rightarrow> bool) \<Rightarrow> task_ref \<Rightarrow> task_wrapper \<Rightarrow> bool" where
  "inner_task h vl r tw \<longleftrightarrow> \<not> in_work_queue tw \<and> waiting_task (wt tw)
     \<and> \<not> parac_task_state_is_done (state (wt tw)) \<and> path_depth (path (wt tw)) < 58
     \<and> side_ok h (parac_path_get_next_left (path (wt tw))) (slot0 (wt tw)) (left_result (wt tw))
     \<and> side_ok h (parac_path_get_next_right (path (wt tw))) (slot1 (wt tw)) (right_result (wt tw))
     \<and> (\<exists>c. kid (wt tw) c) \<and> (vl r \<longleftrightarrow> (\<exists>c. kid (wt tw) c \<and> vl c))"

definition node_ok ::
  "(task_ref \<Rightarrow> task_wrapper option) \<Rightarrow> (task_ref \<Rightarrow> bool) \<Rightarrow> task_ref \<Rightarrow> task_ref \<Rightarrow> task_wrapper \<Rightarrow> bool" where
  "node_ok h vl rt r tw \<longleftrightarrow> own_task rt r (wt tw) \<and> (leaf_task tw \<or> inner_task h vl r tw)"

text \<open>All tasks are in order, but those of \<open>X\<close>, which have no children.\<close>

definition tree_ok ::
  "(task_ref \<Rightarrow> task_wrapper option) \<Rightarrow> (task_ref \<Rightarrow> bool) \<Rightarrow> task_ref \<Rightarrow> task_ref set \<Rightarrow> bool" where
  "tree_ok h vl rt X \<longleftrightarrow> (\<forall>x xw. h x = Some xw \<longrightarrow> own_task rt x (wt xw)
     \<and> (if x \<in> X then \<forall>c. \<not> kid (wt xw) c else leaf_task xw \<or> inner_task h vl x xw))"

lemma tree_okD:
  assumes "tree_ok h vl rt X" "h x = Some xw"
  shows "own_task rt x (wt xw)" "x \<in> X \<Longrightarrow> \<not> kid (wt xw) c"
    "x \<notin> X \<Longrightarrow> leaf_task xw \<or> inner_task h vl x xw"
  using assms unfolding tree_ok_def by metis+

lemma inner_task_cong:
  assumes "inner_task h vl x xw"
    and "\<And>c cw. kid (wt xw) c \<Longrightarrow> h c = Some cw \<Longrightarrow> \<exists>cw'. h' c = Some cw' \<and> path (wt cw') = path (wt cw)"
    and "\<And>c. c = x \<or> kid (wt xw) c \<Longrightarrow> vl' c = vl c"
  shows "inner_task h' vl' x xw"
proof -
  have "side_ok h' q sl res" if "side_ok h q sl res" "\<And>c. sl = SlotTask c \<Longrightarrow> kid (wt xw) c" for q sl res
    using that assms(2) unfolding side_ok_def by metis
  then show ?thesis using assms(1,3) unfolding inner_task_def kid_def by metis
qed

lemma own_task_parent:
  "own_task rt r t \<Longrightarrow> local_parent t = parent_task t"
  by (simp add: own_task_def local_parent_def)

lemma inner_parent_state: "inner_task h vl r tw \<Longrightarrow> parent_state (wt tw)"
  by (simp add: inner_task_def waiting_task_def parent_state_def)

lemma own_assess_task: "own_task rt r t \<Longrightarrow> own_assess t"
  by (simp add: own_task_def own_assess_def)

text \<open>Leaves have no children, so the parent of a task is an inner task.\<close>

lemma parent_inner:
  assumes "links_ok h" "tree_ok h vl rt X" "h r = Some tw" "local_parent (wt tw) = Some p"
  obtains pw where "h p = Some pw" "own_task rt p (wt pw)" "inner_task h vl p pw" "kid (wt pw) r"
    "child_path (path (wt pw)) (path (wt tw))" "p \<notin> X"
proof -
  obtain pw where pw: "h p = Some pw" "kid (wt pw) r" "parent_state (wt pw)"
    "child_path (path (wt pw)) (path (wt tw))"
    by (rule links_parent [OF assms(1,3,4)])
  with tree_okD [OF assms(2) pw(1)] that show ?thesis
    by (cases "p \<in> X") (auto simp: leaf_task_def kid_def)
qed

lemma child_sides:
  assumes "ordinary p" "path_depth p < 58"
  obtains l r where "parac_path_get_next_left p = Some l" "parac_path_get_next_right p = Some r" "l \<noteq> r"
    "ordinary l" "ordinary r" "path_depth l = Suc (path_depth p)" "path_depth r = Suc (path_depth p)"
proof -
  obtain l where l: "parac_path_get_next p False = Some l" "ordinary l" "path_depth l = path_depth p + 1"
    "path_num l = 2 * path_num p" by (rule child_facts [OF assms, of False]) simp
  obtain r where r: "parac_path_get_next p True = Some r" "ordinary r" "path_depth r = path_depth p + 1"
    "path_num r = 2 * path_num p + 1" by (rule child_facts [OF assms, of True]) simp
  have "l \<noteq> r" using l(4) r(4) by auto
  with l r show thesis
    by (intro that [of l r]) (simp_all add: parac_path_get_next_left_def parac_path_get_next_right_def)
qed

lemma child_path_depth:
  assumes "child_path p c" "ordinary p" "path_depth p < 58"
  shows "ordinary c \<and> path_depth c = Suc (path_depth p)"
  using assms(1) child_sides [OF assms(2,3)] unfolding child_path_def by (metis option.inject)

lemma ordinary_bound: "ordinary p \<Longrightarrow> path_depth p \<le> 58"
  by (simp add: ordinary_def path_depth_def PARAC_PATH_MAX_LENGTH_def)

lemma ordinary_length_bound: "ordinary p \<Longrightarrow> unat (parac_path_length p) + 1 < 2 ^ 57"
  using ordinary_bound [of p] by (simp add: ordinary_length)

section \<open>A satisfiable leaf\<close>

lemma parent_depth:
  assumes "links_ok h" "tree_ok h vl rt X" "h r = Some tw" "local_parent (wt tw) = Some p" "h p = Some pw"
  shows "path_depth (path (wt tw)) = Suc (path_depth (path (wt pw)))"
proof -
  obtain pw' where "h p = Some pw'" "own_task rt p (wt pw')" "inner_task h vl p pw'"
    "child_path (path (wt pw')) (path (wt tw))"
    by (rule parent_inner [OF assms(1-4)])
  with assms(5) child_path_depth [of "path (wt pw)" "path (wt tw)"] show ?thesis
    by (auto simp: own_task_def inner_task_def)
qed

lemma root_depth: "path_depth parac_path_root = 0"
  by (simp add: path_depth_def parac_path_root_def length_fld_def)

lemma no_parent_depth:
  assumes "links_ok h" "tree_ok h vl rt X" "h r = Some tw"
  shows "local_parent (wt tw) = None \<longleftrightarrow> path_depth (path (wt tw)) = 0"
proof (cases "local_parent (wt tw)")
  case None
  then show ?thesis
    using tree_okD(1) [OF assms(2,3)] own_task_parent [of rt r "wt tw"] by (simp add: own_task_def root_depth)
next
  case (Some p)
  then obtain pw where "h p = Some pw" using assms(1,3) unfolding links_ok_def by blast
  with parent_depth [OF assms Some] Some show ?thesis by simp
qed

lemma sat_chain:
  assumes l: "links_ok h" and t: "tree_ok h vl rt X"
  shows "h p = Some pw \<Longrightarrow> path_depth (path (wt pw)) = n \<Longrightarrow> inner_task h vl p pw \<Longrightarrow>
    up_chain h PARAC_SAT n c p \<and> (vl p \<longrightarrow> vl rt)"
proof (induction n arbitrary: p pw c)
  case 0
  then have np: "local_parent (wt pw) = None" using no_parent_depth [OF l t] by auto
  have "own_task rt p (wt pw)" using tree_okD(1) [OF t] 0 by auto
  with np have "p = rt" "path (wt pw) = parac_path_root"
    using own_task_parent [of rt p "wt pw"] by (auto simp: own_task_def)
  with 0 np show ?case by (auto simp: inner_task_def decides_def)
next
  case (Suc n)
  then obtain q where q: "local_parent (wt pw) = Some q"
    using no_parent_depth [OF l t Suc.prems(1)] by auto
  obtain qw where qw: "h q = Some qw" "inner_task h vl q qw" "kid (wt qw) p"
    by (rule parent_inner [OF l t Suc.prems(1) q])
  from parent_depth [OF l t Suc.prems(1) q qw(1)] Suc.prems(2) have "path_depth (path (wt qw)) = n" by simp
  from Suc.IH [OF qw(1) this qw(2), of "path (wt pw)"] qw q Suc.prems show ?case
    by (auto simp: inner_task_def decides_def)
qed

lemma assess_waiting:
  assumes tw: "heap s p = Some pw" and w: "waiting_task (wt pw)" "path_ok (path (wt pw))"
    and nd: "\<not> parac_task_state_is_done (state (wt pw))"
    and res: "left_result (wt pw) \<in> {PARAC_PENDING, PARAC_UNSAT}" "right_result (wt pw) \<in> {PARAC_PENDING, PARAC_UNSAT}"
      "\<not> (left_result (wt pw) = PARAC_UNSAT \<and> right_result (wt pw) = PARAC_UNSAT)"
  obtains s' where "call (Suc n) (Assess True True p) s = Some s'"
    "heap s' = (heap s)(p \<mapsto> pw\<lparr>wt := (wt pw)\<lparr>last_state := state (wt pw)\<rparr>\<rparr>)"
    "tasks s' = tasks s" "tasksWaitingForWorkerQueue s' = tasksWaitingForWorkerQueue s"
    "tasksWaitingForWorkerQueueSize s' = tasksWaitingForWorkerQueueSize s"
    "outcalls s' = outcalls s" "exit_status s' = exit_status s" "has_input_file s' = has_input_file s"
    "distribute_max_level s' = distribute_max_level s"
proof -
  have "verdict PARAC_SAT PARAC_UNSAT [left_result (wt pw), right_result (wt pw)] = None"
    using res by (auto simp: verdict_def)
  then have a: "assessed (wt pw) = wt pw"
    using w(1) by (simp add: assessed_def Let_def waiting_task_def)
  have nl: "\<not> learns (distribute_max_level s) (wt pw)" using w(1) by (auto simp: learns_def waiting_task_def)
  obtain f where f: "assess (wt pw) = Some f"
    "run_assess f (\<lambda>r. call n (Terminate r)) p s = Some (state (wt pw), s)"
    using run_assess_total [OF tw, of "\<lambda>r. call n (Terminate r)"] w(1) nl tw
    by (auto simp: a waiting_task_def fun_upd_idem)
  let ?s1 = "if \<not> st_has (last_state (wt pw)) PARAC_TASK_WAITING_FOR_SPLITS
                 \<and> st_has (state (wt pw)) PARAC_TASK_WAITING_FOR_SPLITS
              then insert_into_tasksWaitingForChildren p s else s"
  have h1: "heap ?s1 = heap s" by (simp add: insert_into_tasksWaitingForChildren_def)
  let ?s2 = "?s1\<lparr>heap := (heap s)(p \<mapsto> pw\<lparr>wt := (wt pw)\<lparr>last_state := state (wt pw)\<rparr>\<rparr>)\<rparr>"
  have "assess_not_done p (state (wt pw)) s = Some ?s2"
    using tw w(1) h1 by (simp add: assess_not_done_def waiting_task_def Let_def upd_task_iff)
  then have "call (Suc n) (Assess True True p) s = Some ?s2"
    using f nd tw path_ok_not_unknown [OF w(2)]
    by (simp add: assess_task_body_def fun_upd_idem upd_task_iff)
  then show ?thesis
    by (rule that) (simp_all add: insert_into_tasksWaitingForChildren_def)
qed

text \<open>The heap after a child without children was removed and its result recorded in its parent.\<close>

definition other_side :: "task_ref \<Rightarrow> parac_task \<Rightarrow> parac_task" where
  "other_side r t = (if slot0 t = SlotTask r then t\<lparr>slot0 := SlotNull, left_result := PARAC_UNSAT\<rparr>
     else t\<lparr>slot1 := SlotNull, right_result := PARAC_UNSAT\<rparr>)"

lemma removed_other:
  assumes "\<And>c. \<not> kid t c" "local_parent t \<noteq> Some x" "x \<noteq> r"
  shows "removed_heap r t h x = h x"
  using assms by (cases "h x") (simp_all add: removed_heap_def cut_child_def cut_parent_def)

lemma removed_record:
  assumes "h p = Some pw" "inner_task h vl p pw" "own_task rt p (wt pw)" "kid (wt pw) r" "h r = Some tw"
    and "\<And>c. \<not> kid (wt tw) c" "local_parent (wt tw) = Some p" "p \<noteq> r" "wf_task (wt pw)"
  obtains pw1 where "removed_heap r (wt tw) h p = Some pw1" "in_work_queue pw1 = in_work_queue pw"
    "path (wt pw1) = path (wt pw)"
    "recorded (wt pw1) (path (wt tw)) PARAC_UNSAT = other_side r (wt pw)"
proof -
  obtain l rp where lr: "parac_path_get_next_left (path (wt pw)) = Some l"
    "parac_path_get_next_right (path (wt pw)) = Some rp" "l \<noteq> rp"
    by (rule child_sides [of "path (wt pw)"]) (use assms(2,3) in \<open>auto simp: inner_task_def own_task_def\<close>)
  have pt: "path (wt tw) = (if slot0 (wt pw) = SlotTask r then l else rp)"
    using assms(2,4,5,9) lr by (auto simp: inner_task_def side_ok_def kid_def wf_task_def)
  define pw1 where "pw1 = pw\<lparr>refcount := refcount pw - 1, wt := (wt pw)\<lparr>slot0 := clear_slot r (slot0 (wt pw)),
             slot1 := clear_slot r (slot1 (wt pw))\<rparr>\<rparr>"
  have "recorded (wt pw1) (path (wt tw)) PARAC_UNSAT = other_side r (wt pw)"
  proof (cases "slot0 (wt pw) = SlotTask r")
    case True
    with assms(9) have "slot1 (wt pw) \<noteq> SlotTask r" by (auto simp: wf_task_def)
    with True pt lr show ?thesis by (simp add: recorded_def other_side_def pw1_def clear_slot_def)
  next
    case False
    with assms(4) have "slot1 (wt pw) = SlotTask r" by (simp add: kid_def)
    with False pt lr show ?thesis by (simp add: recorded_def other_side_def pw1_def clear_slot_def)
  qed
  with assms(1,6,7,8) show thesis
    by (intro that [of pw1]) (simp_all add: removed_heap_def cut_child_def cut_parent_def pw1_def)
qed

lemma tree_without:
  assumes l: "links_ok h" and t: "tree_ok h vl rt {r}" and r: "h r = Some tw" "local_parent (wt tw) = Some p"
    and p: "h p = Some pw" "p \<noteq> r"
    and h': "\<And>x. x \<noteq> p \<Longrightarrow> x \<noteq> r \<Longrightarrow> h' x = h x" "h' r = None" "h' p = Some pw'"
    and pw': "path (wt pw') = path (wt pw)" "own_task rt p (wt pw')"
    and X: "X \<subseteq> {p}" "if p \<in> X then \<forall>c. \<not> kid (wt pw') c else inner_task h' vl p pw'"
  shows "tree_ok h' vl rt X"
  unfolding tree_ok_def
proof (intro allI impI)
  fix x xw
  assume x: "h' x = Some xw"
  show "own_task rt x (wt xw) \<and> (if x \<in> X then \<forall>c. \<not> kid (wt xw) c else leaf_task xw \<or> inner_task h' vl x xw)"
  proof (cases "x = p")
    case True
    with x h' pw' X show ?thesis by auto
  next
    case False
    have nr: "x \<noteq> r" using x h'(2) by auto
    with x h'(1) [OF False] have hx: "x \<noteq> r" "h x = Some xw" by simp_all
    note tx = tree_okD [OF t hx(2)]
    have "leaf_task xw \<or> inner_task h' vl x xw"
    proof (cases "leaf_task xw")
      case nl: False
      with tx(3) hx(1) have i: "inner_task h vl x xw" by simp
      have "inner_task h' vl x xw"
      proof (rule inner_task_cong [OF i])
        fix c cw
        assume c: "kid (wt xw) c" "h c = Some cw"
        with l hx(2) have "local_parent (wt cw) = Some x" unfolding links_ok_def by fastforce
        with c r False have "c \<noteq> r" by auto
        with c p(1) h' pw'(1) show "\<exists>cw'. h' c = Some cw' \<and> path (wt cw') = path (wt cw)"
          by (cases "c = p") auto
      qed simp
      then show ?thesis ..
    qed simp
    with tx(1) X(1) False show ?thesis by auto
  qed
qed

text \<open>After the removal the parent has only its other child, if any.\<close>

lemma other_side_kids:
  assumes "wf_task t" "kid t r"
  shows "kid (other_side r t) c \<longleftrightarrow> kid t c \<and> c \<noteq> r"
  using assms by (auto simp: other_side_def kid_def wf_task_def)

lemma other_side_keeps:
  "state (other_side r t) = state t" "path (other_side r t) = path t" "own_task rt p (other_side r t) = own_task rt p t"
  "waiting_task (other_side r t) = waiting_task t" "local_parent (other_side r t) = local_parent t"
  "has_free_userdata (other_side r t) = has_free_userdata t"
  by (auto simp: other_side_def own_task_def waiting_task_def own_assess_def local_parent_def)

lemma other_side_ok:
  assumes i: "inner_task h vl p pw" and wf: "wf_task (wt pw)" and r: "kid (wt pw) r" "\<not> vl r"
    and h': "\<And>c cw. kid (wt pw) c \<Longrightarrow> c \<noteq> r \<Longrightarrow> h c = Some cw \<Longrightarrow> \<exists>cw'. h' c = Some cw' \<and> path (wt cw') = path (wt cw)"
    and pw': "in_work_queue pw' = in_work_queue pw" "wt pw' = (other_side r (wt pw))\<lparr>last_state := ls\<rparr>"
    and k: "kid (other_side r (wt pw)) c"
  shows "inner_task h' vl p pw'"
proof -
  have side: "side_ok h' q sl res" if "side_ok h q sl res" "sl \<noteq> SlotTask r" "\<And>c. sl = SlotTask c \<Longrightarrow> kid (wt pw) c" for q sl res
    using that h' unfolding side_ok_def by metis
  have kids: "kid (wt pw') c \<longleftrightarrow> kid (wt pw) c \<and> c \<noteq> r" for c
    using other_side_kids [OF wf r(1)] by (simp add: pw'(2) kid_def)
  have null: "side_ok h' q SlotNull PARAC_UNSAT" for q by (simp add: side_ok_def)
  have s: "side_ok h (parac_path_get_next_left (path (wt pw))) (slot0 (wt pw)) (left_result (wt pw))"
    "side_ok h (parac_path_get_next_right (path (wt pw))) (slot1 (wt pw)) (right_result (wt pw))"
    using i by (auto simp: inner_task_def)
  have "side_ok h' (parac_path_get_next_left (path (wt pw'))) (slot0 (wt pw')) (left_result (wt pw'))
    \<and> side_ok h' (parac_path_get_next_right (path (wt pw'))) (slot1 (wt pw')) (right_result (wt pw'))"
  proof (cases "slot0 (wt pw) = SlotTask r")
    case True
    with wf have "slot1 (wt pw) \<noteq> SlotTask r" by (auto simp: wf_task_def)
    with True side [OF s(2)] null show ?thesis by (simp add: pw'(2) other_side_def kid_def)
  next
    case False
    with side [OF s(1)] null show ?thesis by (simp add: pw'(2) other_side_def kid_def)
  qed
  moreover have "vl p \<longleftrightarrow> (\<exists>c. kid (wt pw') c \<and> vl c)" "\<exists>c. kid (wt pw') c"
    using i r(2) k kids other_side_kids [OF wf r(1)] by (auto simp: inner_task_def)
  moreover have "waiting_task (wt pw')" "state (wt pw') = state (wt pw)" "path (wt pw') = path (wt pw)"
    using i other_side_keeps(1,2,4) [of r "wt pw"] unfolding pw'(2)
    by (simp_all add: inner_task_def waiting_task_def own_assess_def)
  ultimately show ?thesis using i pw'(1) by (simp add: inner_task_def)
qed

section \<open>An unsatisfiable leaf\<close>

text \<open>The calls to the solver while \<open>rs\<close> are removed; \<open>L\<close> are those whose clause is learned.\<close>

definition chain_calls :: "task_ref set \<Rightarrow> task_ref list \<Rightarrow> outcall list" where
  "chain_calls L rs = concat (map (\<lambda>x. (if x \<in> L then [LearnedClause x] else []) @ [FreeUserdata x]) rs)"

lemma chain_calls_simps:
  "chain_calls L [] = []"
  "chain_calls L (x # xs) = (if x \<in> L then [LearnedClause x] else []) @ FreeUserdata x # chain_calls L xs"
  by (simp_all add: chain_calls_def)

lemma chain_calls_cong: "(\<And>x. x \<in> set rs \<Longrightarrow> x \<in> L \<longleftrightarrow> x \<in> L') \<Longrightarrow> chain_calls L rs = chain_calls L' rs"
  by (induction rs) (simp_all add: chain_calls_simps)

text \<open>What the removal of an unsatisfiable task leaves behind.\<close>

definition learnable :: "(task_ref \<Rightarrow> bool) \<Rightarrow> task_store \<Rightarrow> task_ref \<Rightarrow> bool" where
  "learnable vl s x \<longleftrightarrow> \<not> vl x \<and> (\<exists>xw. heap s x = Some xw \<and> \<not> parac_path_is_root (path (wt xw))
     \<and> parac_path_length (path (wt xw)) < distribute_max_level s)"

definition shrunk :: "task_store \<Rightarrow> task_store \<Rightarrow> task_ref list \<Rightarrow> bool" where
  "shrunk s s' rs \<longleftrightarrow> distinct rs \<and> set rs \<subseteq> dom (heap s) \<and> dom (heap s') = dom (heap s) - set rs
     \<and> (\<forall>x xw'. heap s' x = Some xw' \<longrightarrow> (\<exists>xw. heap s x = Some xw \<and> path (wt xw') = path (wt xw)
          \<and> in_work_queue xw' = in_work_queue xw))"

definition still_running :: "(task_ref \<Rightarrow> bool) \<Rightarrow> task_ref \<Rightarrow> task_store \<Rightarrow> task_store \<Rightarrow> bool" where
  "still_running vl rt s s' \<longleftrightarrow> exit_status s' = PARAC_UNDEFINED \<and> store_inv s' \<and> tree_ok (heap s') vl rt {}
     \<and> tasksWaitingForWorkerQueue s' = tasksWaitingForWorkerQueue s \<and> has_input_file s'
     \<and> distribute_max_level s' = distribute_max_level s \<and> rt \<in> dom (heap s')"

lemma shrunk_cons:
  assumes "shrunk s1 s2 rs" "r \<in> dom (heap s)" "dom (heap s1) = dom (heap s) - {r}"
    "\<And>x xw'. heap s1 x = Some xw' \<Longrightarrow> \<exists>xw. heap s x = Some xw \<and> path (wt xw') = path (wt xw)
          \<and> in_work_queue xw' = in_work_queue xw"
  shows "shrunk s s2 (r # rs)"
proof -
  have "\<exists>xw. heap s x = Some xw \<and> path (wt xw') = path (wt xw) \<and> in_work_queue xw' = in_work_queue xw"
    if x: "heap s2 x = Some xw'" for x xw'
  proof -
    from assms(1) x obtain xw1 where "heap s1 x = Some xw1" "path (wt xw') = path (wt xw1)"
      "in_work_queue xw' = in_work_queue xw1" unfolding shrunk_def by blast
    with assms(4) [of x xw1] show ?thesis by auto
  qed
  with assms(1-3) show ?thesis unfolding shrunk_def by auto
qed

lemma removed_keys:
  assumes "removed_heap r t h x = Some xw'"
  shows "\<exists>xw. h x = Some xw \<and> path (wt xw') = path (wt xw) \<and> in_work_queue xw' = in_work_queue xw"
proof -
  from assms obtain xw where "h x = Some xw" "xw' = cut_child r t x (cut_parent t x xw)"
    by (auto simp: removed_heap_def split: if_splits)
  then show ?thesis by (simp add: cut_child_def cut_parent_def)
qed

lemma removed_dom: "dom (removed_heap r t h) = dom h - {r}"
  by (rule set_eqI) (simp add: removed_heap_def domIff)

lemma unsat_root:
  assumes inv: "store_inv s" and tw: "heap s r = Some tw" "\<not> in_work_queue tw" "decided PARAC_UNSAT (wt tw)"
    and t: "tree_ok (heap s) vl rt {r}" "\<not> vl r" and inp: "has_input_file s" "exit_status s = PARAC_UNDEFINED"
    and d: "path_depth (path (wt tw)) = 0"
  shows "\<exists>s' L rs. call (Suc n) (Assess True True r) s = Some s' \<and> called (chain_calls L rs) s s'
    \<and> shrunk s s' rs \<and> (\<forall>x \<in> L. learnable vl s x) \<and> exit_status s' = PARAC_UNSAT \<and> \<not> vl rt"
proof -
  have l: "links_ok (heap s)" using inv by (simp add: store_inv_def)
  have ow: "own_task rt r (wt tw)" using tree_okD(1) [OF t(1) tw(1)] .
  have np: "local_parent (wt tw) = None" using no_parent_depth [OF l t(1) tw(1)] d by simp
  have rt: "r = rt" "path (wt tw) = parac_path_root"
    using ow np own_task_parent [OF ow] by (auto simp: own_task_def)
  have pk: "path (assessed (wt tw)) = parac_path_root" "result (assessed (wt tw)) = PARAC_UNSAT"
    using rt assessed_keeps(1) [of sat_assess "wt tw"] tw(3) by (auto simp: same_links_def decided_def)
  have ir: "parac_path_is_root parac_path_root"
    by (simp add: parac_path_is_root_def parac_path_root_def length_fld_def)
  have fu: "has_free_userdata (wt tw)" using ow by (simp add: own_task_def)
  have unk: "path (wt tw) \<noteq> PARAC_PATH_EXPLICITLY_UNKNOWN"
    by (simp add: rt(2) parac_path_root_def path_consts)
  obtain sc idx where sc: "heap sc = removed_heap r (wt tw) (heap s)"
    "exit_status sc = exit_status (finish_root (assessed (wt tw)) s)"
    and co: "called ((if learns (distribute_max_level s) (assessed (wt tw)) then [LearnedClause r] else [])
       @ (if has_free_userdata (wt tw) then [FreeUserdata r] else [])) s sc"
    and c: "call (Suc n) (Assess True True r) s = (case local_parent (wt tw) of None \<Rightarrow> Some sc
       | Some p \<Rightarrow> do { s \<leftarrow> record_in_parent p (path (wt tw)) PARAC_UNSAT idx sc; call n (Assess True True p) s })"
    by (rule climb_step [OF inv tw _ unk, of n]) simp
  have ex: "exit_status sc = PARAC_UNSAT"
    using sc(2) pk inp ir by (simp add: finish_root_def)
  have "\<not> learns (distribute_max_level s) (assessed (wt tw))" using pk ir by (simp add: learns_def)
  with co fu have "called (chain_calls {} [r]) s sc" by (simp add: chain_calls_simps)
  moreover have "shrunk s sc [r]"
    using tw(1) removed_keys [of r "wt tw" "heap s"] by (auto simp: shrunk_def sc(1) removed_dom)
  ultimately show ?thesis using c np ex t(2) rt(1) by (intro exI [of _ sc] exI [of _ "{}"] exI [of _ "[r]"]) (simp del: call.simps)
qed

text \<open>One level of the climb: the task is removed and its parent knows the result.\<close>

lemma unsat_level:
  assumes inv: "store_inv s" and tw: "heap s r = Some tw" "\<not> in_work_queue tw" "decided PARAC_UNSAT (wt tw)"
    and t: "tree_ok (heap s) vl rt {r}" "\<not> vl r" and inp: "has_input_file s" "exit_status s = PARAC_UNDEFINED"
    and p: "local_parent (wt tw) = Some p"
  obtains pw sd pw' where "heap s p = Some pw" "inner_task (heap s) vl p pw" "own_task rt p (wt pw)" "kid (wt pw) r"
    "wf_task (wt pw)" "p \<noteq> r"
    "call (Suc n) (Assess True True r) s = call n (Assess True True p) sd" "store_inv sd"
    "heap sd p = Some pw'" "in_work_queue pw' = in_work_queue pw" "wt pw' = other_side r (wt pw)"
    "\<forall>x. x \<noteq> p \<longrightarrow> x \<noteq> r \<longrightarrow> heap sd x = heap s x" "heap sd r = None"
    "has_input_file sd" "exit_status sd = PARAC_UNDEFINED" "distribute_max_level sd = distribute_max_level s"
    "tasksWaitingForWorkerQueue sd = tasksWaitingForWorkerQueue s"
    "\<exists>L. called (chain_calls L [r]) s sd \<and> L \<subseteq> {r} \<and> (\<forall>x \<in> L. learnable vl s x)"
proof -
  have l: "links_ok (heap s)" using inv by (simp add: store_inv_def)
  note tr = tree_okD [OF t(1) tw(1)]
  have nk: "\<not> kid (wt tw) c" for c using tr(2) by simp
  obtain pw where pw: "heap s p = Some pw" "own_task rt p (wt pw)" "inner_task (heap s) vl p pw" "kid (wt pw) r"
    "child_path (path (wt pw)) (path (wt tw))" "p \<notin> {r}"
    by (rule parent_inner [OF l t(1) tw(1) p])
  have wf: "wf_task (wt pw)" using store_inv_links [OF inv pw(1)] .
  have pr: "p \<noteq> r" using pw(6) by simp
  have "ordinary (path (wt tw))" using tr(1) by (simp add: own_task_def)
  then have unk: "path (wt tw) \<noteq> PARAC_PATH_EXPLICITLY_UNKNOWN" by (intro path_ok_not_unknown) (simp add: path_ok_def)
  obtain sc idx where sc: "store_inv sc" "heap sc = removed_heap r (wt tw) (heap s)" "has_input_file sc = has_input_file s"
    "exit_status sc = exit_status (finish_root (assessed (wt tw)) s)"
    "distribute_max_level sc = distribute_max_level s" "tasksWaitingForWorkerQueue sc = tasksWaitingForWorkerQueue s"
    and co: "called ((if learns (distribute_max_level s) (assessed (wt tw)) then [LearnedClause r] else [])
       @ (if has_free_userdata (wt tw) then [FreeUserdata r] else [])) s sc"
    and c: "call (Suc n) (Assess True True r) s = (case local_parent (wt tw) of None \<Rightarrow> Some sc
       | Some p \<Rightarrow> do { s \<leftarrow> record_in_parent p (path (wt tw)) PARAC_UNSAT idx sc; call n (Assess True True p) s })"
    by (rule climb_step [OF inv tw _ unk, of n]) simp
  obtain pw1 where pw1: "heap sc p = Some pw1" "in_work_queue pw1 = in_work_queue pw" "path (wt pw1) = path (wt pw)"
    "recorded (wt pw1) (path (wt tw)) PARAC_UNSAT = other_side r (wt pw)"
    unfolding sc(2) by (rule removed_record [OF pw(1,3,2,4) tw(1) nk p pr wf])
  define pw' where "pw' = pw1\<lparr>wt := other_side r (wt pw)\<rparr>"
  define sd where "sd = sc\<lparr>heap := (heap sc)(p \<mapsto> pw')\<rparr>"
  have o: "ordinary (path (wt pw))" using pw(2) by (simp add: own_task_def)
  have rec: "record_in_parent p (path (wt tw)) PARAC_UNSAT idx sc = Some sd"
    using record_in_parent_total [OF pw1(1), of "path (wt tw)" PARAC_UNSAT idx] pw1 pw(5) o ordinary_length_bound [OF o]
    by (simp add: path_ok_def sd_def pw'_def)
  have ps: "parent_state (wt pw1)"
    using removed_parent_state [of r "wt tw" "heap s" p pw1] pw1(1) sc(2) pw(1) inner_parent_state [OF pw(3)] by simp
  have sd: "store_inv sd" using record_in_parent_inv [OF sc(1) rec] ps pw1(1) by auto
  have pk: "path (assessed (wt tw)) = path (wt tw)"
    using assessed_keeps(1) [of sat_assess "wt tw"] by (simp add: same_links_def)
  have "path_depth (path (wt tw)) \<noteq> 0" using no_parent_depth [OF l t(1) tw(1)] p by simp
  then have nr: "\<not> parac_path_is_root (path (wt tw))"
    using is_root_length \<open>ordinary (path (wt tw))\<close> ordinary_length by fastforce
  have ex: "exit_status sd = PARAC_UNDEFINED" using sc(4) pk nr inp by (simp add: sd_def finish_root_def)
  let ?L = "if learns (distribute_max_level s) (assessed (wt tw)) then {r} else {}"
  have "called (chain_calls ?L [r]) s sd"
    using co tr(1) by (auto simp: chain_calls_simps own_task_def sd_def called_def)
  moreover have "\<forall>x \<in> ?L. learnable vl s x"
    using t(2) tw(1) nr pk by (auto simp: learnable_def learns_def)
  ultimately have L: "\<exists>L. called (chain_calls L [r]) s sd \<and> L \<subseteq> {r} \<and> (\<forall>x \<in> L. learnable vl s x)"
    by (intro exI [of _ ?L]) auto
  have cc: "call (Suc n) (Assess True True r) s = call n (Assess True True p) sd"
    using c p rec by (simp del: call.simps)
  have h: "\<forall>x. x \<noteq> p \<longrightarrow> x \<noteq> r \<longrightarrow> heap sd x = heap s x"
    using removed_other [of "wt tw" _ r "heap s"] nk p sc(2) by (simp add: sd_def)
  have hp: "heap sd p = Some pw'" by (simp add: sd_def)
  show thesis
    by (rule that [OF pw(1,3,2,4) wf pr cc sd hp _ _ h _ _ ex _ _ L])
      (use pw1(2) pr sc inp in \<open>simp_all add: sd_def pw'_def removed_heap_def\<close>)
qed

lemma other_side_results:
  assumes "inner_task h vl p pw" "wf_task (wt pw)" "kid (wt pw) r"
  shows "left_result (other_side r (wt pw)) \<in> {PARAC_PENDING, PARAC_UNSAT}"
    "right_result (other_side r (wt pw)) \<in> {PARAC_PENDING, PARAC_UNSAT}"
    "(\<exists>c. kid (other_side r (wt pw)) c) \<longleftrightarrow> \<not> (left_result (other_side r (wt pw)) = PARAC_UNSAT
       \<and> right_result (other_side r (wt pw)) = PARAC_UNSAT)"
proof -
  have s: "side_ok h (parac_path_get_next_left (path (wt pw))) (slot0 (wt pw)) (left_result (wt pw))"
    "side_ok h (parac_path_get_next_right (path (wt pw))) (slot1 (wt pw)) (right_result (wt pw))"
    using assms(1) by (auto simp: inner_task_def)
  then show "left_result (other_side r (wt pw)) \<in> {PARAC_PENDING, PARAC_UNSAT}"
    "right_result (other_side r (wt pw)) \<in> {PARAC_PENDING, PARAC_UNSAT}"
    by (auto simp: side_ok_def other_side_def)
  show "(\<exists>c. kid (other_side r (wt pw)) c) \<longleftrightarrow> \<not> (left_result (other_side r (wt pw)) = PARAC_UNSAT
       \<and> right_result (other_side r (wt pw)) = PARAC_UNSAT)"
    using s assms(2,3) by (cases "slot0 (wt pw) = SlotTask r") (auto simp: side_ok_def other_side_def kid_def wf_task_def)
qed

lemma recorded_same: "left_result t = v \<Longrightarrow> right_result t = v \<Longrightarrow> recorded t c v = t"
  by (cases t) (auto simp: recorded_def)

lemma learnable_mono:
  assumes "learnable vl s' x" "shrunk s s' rs" "distribute_max_level s' = distribute_max_level s"
  shows "learnable vl s x"
proof -
  from assms(1) obtain xw' where x: "\<not> vl x" "heap s' x = Some xw'" "\<not> parac_path_is_root (path (wt xw'))"
    "parac_path_length (path (wt xw')) < distribute_max_level s'"
    by (auto simp: learnable_def)
  from assms(2) x(2) obtain xw where "heap s x = Some xw" "path (wt xw') = path (wt xw)"
    unfolding shrunk_def by blast
  with x assms(3) show ?thesis by (auto simp: learnable_def)
qed

lemma called_chain_cons:
  assumes "called (chain_calls L [r]) s s1" "L \<subseteq> {r}" "called (chain_calls L' rs) s1 s2" "r \<notin> set rs"
  shows "called (chain_calls (L \<union> (L' - {r})) (r # rs)) s s2"
proof -
  have "chain_calls (L \<union> (L' - {r})) rs = chain_calls L' rs"
    by (rule chain_calls_cong) (use assms(2,4) in auto)
  then have "chain_calls (L \<union> (L' - {r})) (r # rs) = chain_calls L [r] @ chain_calls L' rs"
    by (simp add: chain_calls_simps)
  then show ?thesis using called_trans [OF assms(1,3)] by simp
qed

lemma shrunk_refl: "shrunk s s []" by (auto simp: shrunk_def)

lemma root_live:
  assumes "links_ok h" "tree_ok h vl rt X"
  shows "h x = Some xw \<Longrightarrow> rt \<in> dom h"
proof (induction "path_depth (path (wt xw))" arbitrary: x xw)
  case 0
  have ow: "own_task rt x (wt xw)" by (rule tree_okD(1) [OF assms(2) 0(2)])
  have "local_parent (wt xw) = None" using no_parent_depth [OF assms 0(2)] 0(1) by simp
  with ow own_task_parent [OF ow] have "x = rt" by (simp add: own_task_def)
  with 0 show ?case by auto
next
  case (Suc n)
  then obtain p where p: "local_parent (wt xw) = Some p" using no_parent_depth [OF assms Suc(3)] by auto
  then obtain pw where "h p = Some pw" using assms(1) Suc(3) unfolding links_ok_def by blast
  with Suc.hyps(1) [of pw p] parent_depth [OF assms Suc(3) p] Suc.hyps(2) show ?case by simp
qed

lemma climb_unsat:
  "store_inv s \<Longrightarrow> heap s r = Some tw \<Longrightarrow> \<not> in_work_queue tw \<Longrightarrow> decided PARAC_UNSAT (wt tw) \<Longrightarrow>
   tree_ok (heap s) vl rt {r} \<Longrightarrow> \<not> vl r \<Longrightarrow> has_input_file s \<Longrightarrow> exit_status s = PARAC_UNDEFINED \<Longrightarrow>
   path_depth (path (wt tw)) = n \<Longrightarrow> n \<le> k \<Longrightarrow>
   \<exists>s' L rs. call (Suc k) (Assess True True r) s = Some s' \<and> called (chain_calls L rs) s s'
    \<and> shrunk s s' rs \<and> (\<forall>x \<in> L. learnable vl s x)
    \<and> (exit_status s' = PARAC_UNSAT \<and> \<not> vl rt \<or> still_running vl rt s s')"
proof (induction n arbitrary: s r tw k)
  case 0
  from unsat_root [OF 0(1-9)] show ?case by blast
next
  case (Suc n)
  obtain k' where k': "k = Suc k'" "n \<le> k'" using Suc.prems(10) by (cases k) auto
  have l: "links_ok (heap s)" using Suc.prems(1) by (simp add: store_inv_def)
  from no_parent_depth [OF l Suc.prems(5,2)] Suc.prems(9) obtain p where p: "local_parent (wt tw) = Some p" by auto
  obtain pw sd pw' where pw: "heap s p = Some pw" "inner_task (heap s) vl p pw" "own_task rt p (wt pw)" "kid (wt pw) r"
    "wf_task (wt pw)" "p \<noteq> r"
    and c: "call (Suc k) (Assess True True r) s = call k (Assess True True p) sd"
    and sd: "store_inv sd" "heap sd p = Some pw'" "in_work_queue pw' = in_work_queue pw" "wt pw' = other_side r (wt pw)"
    and h0: "\<forall>x. x \<noteq> p \<longrightarrow> x \<noteq> r \<longrightarrow> heap sd x = heap s x" "heap sd r = None"
    and fr: "has_input_file sd" "exit_status sd = PARAC_UNDEFINED" "distribute_max_level sd = distribute_max_level s"
    "tasksWaitingForWorkerQueue sd = tasksWaitingForWorkerQueue s"
    and L: "\<exists>L. called (chain_calls L [r]) s sd \<and> L \<subseteq> {r} \<and> (\<forall>x \<in> L. learnable vl s x)"
    by (rule unsat_level [OF Suc.prems(1-8) p, of k])
  have h: "x \<noteq> p \<Longrightarrow> x \<noteq> r \<Longrightarrow> heap sd x = heap s x" "heap sd r = None" for x using h0 by auto
  from L obtain L where L: "called (chain_calls L [r]) s sd" "L \<subseteq> {r}" "\<forall>x \<in> L. learnable vl s x" by blast
  have pd: "path_depth (path (wt pw)) = n"
    using parent_depth [OF l Suc.prems(5,2) p pw(1)] Suc.prems(9) by simp
  have nq: "\<not> in_work_queue pw'" using pw(2) sd(3) by (simp add: inner_task_def)
  have ow: "own_task rt p (wt pw')" "path (wt pw') = path (wt pw)" "waiting_task (wt pw')"
    using pw(2,3) by (simp_all add: sd(4) other_side_keeps inner_task_def)
  have keys: "\<exists>xw. heap s x = Some xw \<and> path (wt xw') = path (wt xw) \<and> in_work_queue xw' = in_work_queue xw"
    if "heap sd x = Some xw'" for x xw'
  proof (cases "x = p")
    case True
    with that sd(2,3) ow(2) pw(1) show ?thesis by simp
  next
    case False
    moreover from that h0(2) have "x \<noteq> r" by auto
    ultimately show ?thesis using that h0(1) by simp
  qed
  have dm: "dom (heap sd) = dom (heap s) - {r}"
  proof (intro set_eqI)
    fix x
    show "x \<in> dom (heap sd) \<longleftrightarrow> x \<in> dom (heap s) - {r}"
      using h0 pw(1,6) sd(2) by (cases "x = p"; cases "x = r") (simp_all add: domIff)
  qed
  have rd: "r \<in> dom (heap s)" using Suc.prems(2) by blast
  show ?case
  proof (cases "\<exists>c. kid (wt pw') c")
    case False
    have "vl p \<longleftrightarrow> (\<exists>c. kid (wt pw) c \<and> vl c)" using pw(2) by (simp add: inner_task_def)
    then have "\<not> vl p" using False Suc.prems(6) other_side_kids [OF pw(5,4)] unfolding sd(4) by metis
    have t: "tree_ok (heap sd) vl rt {p}"
      by (rule tree_without [OF l Suc.prems(5,2) p pw(1,6) h sd(2) ow(2,1)]) (use False in auto)
    have res: "left_result (wt pw') = PARAC_UNSAT" "right_result (wt pw') = PARAC_UNSAT"
      using False other_side_results [OF pw(2,5,4)] unfolding sd(4) by auto
    have "decided PARAC_UNSAT (wt pw')"
    proof -
      have "decides PARAC_UNSAT (path (wt tw)) (wt pw')" using res by (simp add: decides_def)
      from waiting_decided [OF ow(3) this] res show ?thesis by (simp add: recorded_same)
    qed
    from Suc.IH [OF sd(1,2) nq this t \<open>\<not> vl p\<close> fr(1,2) _ k'(2)] pd ow(2) obtain s' L' rs where
      s': "call k (Assess True True p) sd = Some s'" "called (chain_calls L' rs) sd s'" "shrunk sd s' rs"
      "\<forall>x \<in> L'. learnable vl sd x" "exit_status s' = PARAC_UNSAT \<and> \<not> vl rt \<or> still_running vl rt sd s'"
      unfolding k'(1) by auto
    have sh: "shrunk s s' (r # rs)" by (rule shrunk_cons [OF s'(3) rd dm keys])
    then have "r \<notin> set rs" by (simp add: shrunk_def)
    from called_chain_cons [OF L(1,2) s'(2) this]
    have "called (chain_calls (L \<union> (L' - {r})) (r # rs)) s s'" .
    moreover have "\<forall>x \<in> L \<union> (L' - {r}). learnable vl s x"
    proof -
      have "shrunk s sd [r]" by (rule shrunk_cons [OF shrunk_refl rd dm keys])
      with L(3) s'(4) learnable_mono [OF _ _ fr(3)] show ?thesis by blast
    qed
    moreover have "exit_status s' = PARAC_UNSAT \<and> \<not> vl rt \<or> still_running vl rt s s'"
      using s'(5) fr by (simp add: still_running_def)
    ultimately show ?thesis using c s'(1) sh by (metis (no_types, lifting))
  next
    case True
    then obtain c' where c': "kid (other_side r (wt pw)) c'" by (auto simp: sd(4))
    have res: "left_result (wt pw') \<in> {PARAC_PENDING, PARAC_UNSAT}" "right_result (wt pw') \<in> {PARAC_PENDING, PARAC_UNSAT}"
      "\<not> (left_result (wt pw') = PARAC_UNSAT \<and> right_result (wt pw') = PARAC_UNSAT)"
      using c' other_side_results [OF pw(2,5,4)] unfolding sd(4) by auto
    have po: "path_ok (path (wt pw'))" using ow(1) by (simp add: own_task_def path_ok_def)
    have nd: "\<not> parac_task_state_is_done (state (wt pw'))" using pw(2) by (simp add: sd(4) other_side_keeps inner_task_def)
    obtain s' where s': "call k (Assess True True p) sd = Some s'"
      "heap s' = (heap sd)(p \<mapsto> pw'\<lparr>wt := (wt pw')\<lparr>last_state := state (wt pw')\<rparr>\<rparr>)"
      "tasks s' = tasks sd" "tasksWaitingForWorkerQueue s' = tasksWaitingForWorkerQueue sd"
      "tasksWaitingForWorkerQueueSize s' = tasksWaitingForWorkerQueueSize sd"
      "outcalls s' = outcalls sd" "exit_status s' = exit_status sd" "has_input_file s' = has_input_file sd"
      "distribute_max_level s' = distribute_max_level sd"
      unfolding k'(1) by (rule assess_waiting [OF sd(2) ow(3) po nd res, of k'])
    let ?pw = "pw'\<lparr>wt := (wt pw')\<lparr>last_state := state (wt pw')\<rparr>\<rparr>"
    have inv': "store_inv s'"
    proof (rule store_inv_frame)
      show "store_inv (sd\<lparr>heap := (heap sd)(p \<mapsto> ?pw)\<rparr>)"
        by (rule same_shape_inv [OF sd(1,2)]) (simp_all add: shape_defs parent_state_def queued_state_def)
    qed (use s' in simp_all)
    have hk: "\<exists>cw'. heap s' c = Some cw' \<and> path (wt cw') = path (wt cw)"
      if "kid (wt pw) c" "c \<noteq> r" "heap s c = Some cw" for c cw
      using that h(1) [of c] pw(1) ow(2) by (cases "c = p") (auto simp: s'(2))
    have i: "inner_task (heap s') vl p ?pw"
      by (rule other_side_ok [OF pw(2,5,4) Suc.prems(6) hk _ _ c']) (simp_all add: sd(3,4))
    have t: "tree_ok (heap s') vl rt {}"
    proof (rule tree_without [OF l Suc.prems(5,2) p pw(1,6), where pw' = ?pw])
      show "own_task rt p (wt ?pw)" using ow(1) by (simp add: own_task_def)
    qed (use h s'(2) pw(6) ow(2) i in auto)
    have "shrunk sd s' []"
      using sd(2) by (auto simp: shrunk_def s'(2))
    then have sh: "shrunk s s' [r]" by (rule shrunk_cons [OF _ rd dm keys])
    have "rt \<in> dom (heap s')"
      using root_live [OF _ t, of p ?pw] inv' s'(2) by (auto simp: store_inv_def)
    then have "still_running vl rt s s'"
      using s' fr inv' t by (simp add: still_running_def)
    moreover have "called (chain_calls L [r]) s s'" using L(1) s'(6) by (simp add: called_def)
    ultimately show ?thesis using c s'(1) sh L(3) by (metis (no_types, lifting))
  qed
qed

end
