(* ===== verification/SolverRun.thy ===== *)
theory SolverRun
  imports SolverTree
begin

unbundle bit_operations_syntax

text \<open>
  Runs of the SAT solver: what one round of a worker does to the store and to the solver's manager.
  A round takes a waiting task and either splits it or solves it; the answer climbs, finished tasks are
  removed with their objects, and the clauses of unsatisfiable cubes are learned.

  The locale \<open>tree_source\<close> is the contract between the cube sources and the runs: what a source promises
  of its splits, its leaves and its cubes.  Under this contract every round keeps the invariant or
  ends the run with the right verdict.
\<close>

section \<open>Running the calls to the solver\<close>

lemma solver_calls_append:
  "solver_calls av pf (a @ b) w = do { w \<leftarrow> solver_calls av pf a w; solver_calls av pf b w }"
  by (induction a arbitrary: w) (auto split: option.splits bind_splits)

lemma solver_call_other: "\<not> to_solver c \<Longrightarrow> solver_call av pf c w = Some w"
  by (cases c) (simp_all add: solver_call_def to_solver_def)

lemma solver_calls_filter: "solver_calls av pf (filter to_solver cs) w = solver_calls av pf cs w"
  by (induction cs arbitrary: w) (auto simp: solver_call_other split: bind_splits)

lemma store_op_called:
  assumes "f (sw_store w) = Some s'" "called out (sw_store w) s'"
  shows "store_op av f w = solver_calls av (path_of (sw_store w)) out (w\<lparr>sw_store := s'\<rparr>)"
  using assms solver_calls_filter [of av "path_of (sw_store w)"]
  by (auto simp: store_op_def called_def)

text \<open>What the calls leave alone.\<close>

definition solver_same :: "solver_world \<Rightarrow> solver_world \<Rightarrow> bool" where
  "solver_same w w' \<longleftrightarrow> sw_store w' = sw_store w \<and> parsedFormula w' = parsedFormula w
     \<and> learnedClausesApplicationStack w' = learnedClausesApplicationStack w \<and> handleClauses w' = handleClauses w
     \<and> config_Resplit w' = config_Resplit w \<and> config_InitialMinimalCubeDepth w' = config_InitialMinimalCubeDepth w"

lemma free_calls:
  assumes "set out \<subseteq> range FreeUserdata"
  shows "\<exists>w'. solver_calls av pf out w = Some w' \<and> solver_same w w'"
  using assms
proof (induction out arbitrary: w)
  case (Cons c cs)
  then obtain r where c: "c = FreeUserdata r" by auto
  have "\<exists>w1. solver_call av pf c w = Some w1 \<and> solver_same w w1"
    by (cases "solverTasks w r") (simp_all add: c solver_call_def deleteSolverTask_def solver_same_def)
  then obtain w1 where w1: "solver_call av pf c w = Some w1" "solver_same w w1" by blast
  from Cons obtain w2 where "solver_calls av pf cs w1 = Some w2" "solver_same w1 w2" by auto
  with w1 show ?case by (auto simp: solver_same_def)
qed (simp add: solver_same_def)

definition task_cube :: "(task_ref \<Rightarrow> parac_path) \<Rightarrow> solver_world \<Rightarrow> task_ref \<Rightarrow> int list option" where
  "task_cube pf w x = do { st \<leftarrow> solverTasks w x; source_cube (parsedFormula w) (st_cubeSource st) (pf x) }"

lemma chain_calls_run:
  assumes "distinct rs" "\<And>x. x \<in> set rs \<Longrightarrow> solverTasks w x \<noteq> None"
    "\<And>x. x \<in> set rs \<Longrightarrow> x \<in> L \<Longrightarrow> \<exists>c. task_cube pf w x = Some c \<and> c \<noteq> []"
  shows "\<exists>w'. solver_calls av pf (chain_calls L rs) w = Some w' \<and> solver_same w w'
    \<and> solverTasks w' = (\<lambda>x. if x \<in> set rs then None else solverTasks w x)
    \<and> (\<forall>cl \<in> set (learnedClauses w'). cl \<in> set (learnedClauses w) \<or>
         (\<exists>x c. x \<in> L \<and> task_cube pf w x = Some c \<and> cl = negated_cube c))"
  using assms
proof (induction rs arbitrary: w)
  case Nil
  then show ?case by (auto simp: chain_calls_simps solver_same_def)
next
  case (Cons r rs)
  obtain st where st: "solverTasks w r = Some st" using Cons.prems(2) [of r] by auto
  have "\<exists>w1. solver_calls av pf (if r \<in> L then [LearnedClause r] else []) w = Some w1 \<and> solver_same w w1
      \<and> solverTasks w1 = solverTasks w \<and> (\<forall>cl \<in> set (learnedClauses w1). cl \<in> set (learnedClauses w) \<or>
         (\<exists>x c. x \<in> L \<and> task_cube pf w x = Some c \<and> cl = negated_cube c))"
  proof (cases "r \<in> L")
    case True
    with Cons.prems(3) obtain c where c: "task_cube pf w r = Some c" "c \<noteq> []" by auto
    then have "negated_cube c \<noteq> []" by (simp add: negated_cube_def)
    with c st True show ?thesis
      by (auto simp: solver_call_def applyAndDistributeNewLearnedClause_def DistributeLearnedClausesToTargets_def
          task_cube_def solver_same_def)
  qed (simp add: solver_same_def)
  then obtain w1 where w1: "solver_calls av pf (if r \<in> L then [LearnedClause r] else []) w = Some w1" "solver_same w w1"
    "solverTasks w1 = solverTasks w" "\<forall>cl \<in> set (learnedClauses w1). cl \<in> set (learnedClauses w) \<or>
         (\<exists>x c. x \<in> L \<and> task_cube pf w x = Some c \<and> cl = negated_cube c)" by blast
  let ?w2 = "w1\<lparr>solverTasks := (solverTasks w1)(r := None)\<rparr>"
  have tc: "task_cube pf ?w2 x = (if x = r then None else task_cube pf w x)" for x
    using w1(2,3) by (simp add: task_cube_def solver_same_def)
  have "\<exists>w'. solver_calls av pf (chain_calls L rs) ?w2 = Some w' \<and> solver_same ?w2 w'
    \<and> solverTasks w' = (\<lambda>x. if x \<in> set rs then None else solverTasks ?w2 x)
    \<and> (\<forall>cl \<in> set (learnedClauses w'). cl \<in> set (learnedClauses ?w2) \<or>
         (\<exists>x c. x \<in> L \<and> task_cube pf ?w2 x = Some c \<and> cl = negated_cube c))"
    by (rule Cons.IH) (use Cons.prems w1(3) tc in auto)
  then obtain w' where w': "solver_calls av pf (chain_calls L rs) ?w2 = Some w'" "solver_same ?w2 w'"
    "solverTasks w' = (\<lambda>x. if x \<in> set rs then None else solverTasks ?w2 x)"
    "\<forall>cl \<in> set (learnedClauses w'). cl \<in> set (learnedClauses ?w2) \<or>
         (\<exists>x c. x \<in> L \<and> task_cube pf ?w2 x = Some c \<and> cl = negated_cube c)" by blast
  have "solver_calls av pf (chain_calls L (r # rs)) w = Some w'"
    using w1(1,3) w'(1) st
    by (simp add: chain_calls_simps solver_calls_append solver_call_def deleteSolverTask_def)
  moreover have "solver_same w w'" using w1(2) w'(2) by (simp add: solver_same_def)
  moreover have "solverTasks w' = (\<lambda>x. if x \<in> set (r # rs) then None else solverTasks w x)"
    using w'(3) w1(3) by auto
  moreover have "\<forall>cl \<in> set (learnedClauses w'). cl \<in> set (learnedClauses w) \<or>
         (\<exists>x c. x \<in> L \<and> task_cube pf w x = Some c \<and> cl = negated_cube c)"
    using w'(4) w1(4) by (auto simp: tc split: if_splits)
  ultimately show ?case by blast
qed

section \<open>Running one task\<close>

lemma task_op_eq:
  "heap (sw_store w) r = Some tw \<Longrightarrow> task_op r f w =
     Some (w\<lparr>sw_store := (sw_store w)\<lparr>heap := (heap (sw_store w))(r \<mapsto> tw\<lparr>wt := f (wt tw)\<rparr>)\<rparr>\<rparr>)"
  by (simp add: task_op_def)

text \<open>What the worker and the solver leave alone in the record of a task they run.\<close>

definition worked :: "parac_task \<Rightarrow> parac_task \<Rightarrow> bool" where
  "worked t t' \<longleftrightarrow> assess t' = assess t \<and> userdata t' = userdata t \<and> has_free_userdata t' = has_free_userdata t
     \<and> received_from t' = received_from t \<and> has_task_store t' = has_task_store t \<and> stop t' = stop t
     \<and> path t' = path t \<and> parent_task t' = parent_task t \<and> extended_children_count t' = extended_children_count t
     \<and> originator t' = originator t \<and> has_work t' = has_work t"

lemma worked_own: "worked t t' \<Longrightarrow> own_task rt r t' = own_task rt r t"
  by (simp add: worked_def own_task_def)

text \<open>Two stores with the same waiting tasks but \<open>r\<close>, and the same configuration.\<close>

definition store_same :: "task_store \<Rightarrow> task_store \<Rightarrow> bool" where
  "store_same s s' \<longleftrightarrow> exit_status s' = exit_status s \<and> has_input_file s' = has_input_file s
     \<and> distribute_max_level s' = distribute_max_level s"

lemma pop_work_eq:
  assumes "store_inv s" "tasksWaitingForWorkerQueue s = r # q" "heap s r = Some tw"
  obtains s' tw' where "pop_work n s = Some (Some r, s')" "store_inv s'"
    "heap s' = (heap s)(r \<mapsto> tw')" "\<not> in_work_queue tw'" "worked (wt tw) (wt tw')"
    "slot0 (wt tw') = slot0 (wt tw)" "slot1 (wt tw') = slot1 (wt tw)" "result (wt tw') = result (wt tw)"
    "state (wt tw') = st_without (state (wt tw)) PARAC_TASK_WORK_AVAILABLE OR PARAC_TASK_WORKING"
    "tasksWaitingForWorkerQueue s' = q" "tasks s' = tasks s" "store_same s s'" "outcalls s' = outcalls s"
proof -
  obtain s' where s': "pop_work n s = Some (Some r, s')"
    using assms(2,3) by (auto simp: pop_work_def insert_into_tasksBeingWorkedOn_def Let_def)
  have "store_step s s'" using s' by (rule store_step.pop_work)
  then have "store_inv s'" using assms(1) by (rule store_step_inv)
  with s' assms(2,3) that show thesis
    by (auto simp: pop_work_def insert_into_tasksBeingWorkedOn_def Let_def store_same_def worked_def)
qed

lemma client_inv:
  assumes "store_inv s" "heap s r = Some tw" "\<not> in_work_queue tw" "same_links (wt tw) t'"
  shows "store_inv (s\<lparr>heap := (heap s)(r \<mapsto> tw\<lparr>wt := t'\<rparr>)\<rparr>)"
  using store_step_inv [OF store_step.client [OF assms(2-4)] assms(1)] .

lemma worked_links:
  assumes "worked t t'" "slot0 t' = slot0 t" "slot1 t' = slot1 t" "parent_state t \<longrightarrow> parent_state t'"
  shows "same_links t t'"
  using assms by (auto simp: worked_def same_links_def local_parent_def)

lemma getHandle_total:
  assumes "k < length (learnedClausesApplicationStack w)" "\<forall>c \<in> set (learnedClauses w). c \<noteq> []"
  shows "\<exists>w'. getHandleForWorker k w = Some w' \<and> sw_store w' = sw_store w \<and> solverTasks w' = solverTasks w
    \<and> parsedFormula w' = parsedFormula w \<and> learnedClauses w' = learnedClauses w
    \<and> config_Resplit w' = config_Resplit w \<and> config_InitialMinimalCubeDepth w' = config_InitialMinimalCubeDepth w
    \<and> length (learnedClausesApplicationStack w') = length (learnedClausesApplicationStack w)
    \<and> (\<forall>j. set (handleClauses w' j) \<subseteq> set (handleClauses w j) \<union> set (learnedClauses w))"
proof -
  have "list_all (\<lambda>c. c \<noteq> []) (drop n (learnedClauses w))" for n
    using assms(2) by (auto simp: list_all_iff dest: in_set_dropD)
  with assms(1) show ?thesis by (auto simp: getHandleForWorker_def Let_def dest: in_set_dropD)
qed

definition manager_same :: "solver_world \<Rightarrow> solver_world \<Rightarrow> bool" where
  "manager_same w w' \<longleftrightarrow> parsedFormula w' = parsedFormula w \<and> learnedClauses w' = learnedClauses w
    \<and> config_Resplit w' = config_Resplit w \<and> config_InitialMinimalCubeDepth w' = config_InitialMinimalCubeDepth w
    \<and> length (learnedClausesApplicationStack w') = length (learnedClausesApplicationStack w)
    \<and> (\<forall>j. set (handleClauses w' j) \<subseteq> set (handleClauses w j) \<union> set (learnedClauses w))"

lemma work_start:
  assumes tw: "heap (sw_store w) r = Some tw" "has_task_store (wt tw)"
    and st: "solverTasks w r = Some st" "\<not> st_working st"
    and k: "k < length (learnedClausesApplicationStack w)" "\<forall>c \<in> set (learnedClauses w). c \<noteq> []"
    and sp: "source_split (parsedFormula w) (env_resplitCube env) (config_InitialMinimalCubeDepth w)
      (st_cubeSource st) (path (wt tw)) = Some (b, bl, br, src)"
  shows "\<exists>w'. SolverTask_work env fuel k r w = (if b then work_split env fuel r bl br w' else work_solve env fuel k r w')
    \<and> sw_store w' = (sw_store w)\<lparr>heap := (heap (sw_store w))(r \<mapsto> tw\<lparr>wt := (wt tw)\<lparr>terminate := Some SolverTaskTerminate\<rparr>\<rparr>)\<rparr>
    \<and> solverTasks w' = (solverTasks w)(r \<mapsto> st\<lparr>st_working := True, st_cubeSource := src\<rparr>)
    \<and> manager_same w w'"
proof -
  let ?s = "(sw_store w)\<lparr>heap := (heap (sw_store w))(r \<mapsto> tw\<lparr>wt := (wt tw)\<lparr>terminate := Some SolverTaskTerminate\<rparr>\<rparr>)\<rparr>"
  let ?w1 = "w\<lparr>sw_store := ?s, solverTasks := (solverTasks w)(r \<mapsto> st\<lparr>st_working := True\<rparr>)\<rparr>"
  obtain w2 where w2: "getHandleForWorker k ?w1 = Some w2" "sw_store w2 = ?s"
    "solverTasks w2 = (solverTasks w)(r \<mapsto> st\<lparr>st_working := True\<rparr>)" "manager_same w w2"
    using getHandle_total [of k ?w1] k by (auto simp: manager_same_def)
  let ?w3 = "removeWaitingSolverTask w2"
  let ?w4 = "?w3\<lparr>solverTasks := (solverTasks w)(r \<mapsto> st\<lparr>st_working := True, st_cubeSource := src\<rparr>)\<rparr>"
  have "SolverTask_work env fuel k r w = (if b then work_split env fuel r bl br ?w4 else work_solve env fuel k r ?w4)"
    using tw st w2 sp
    by (simp add: SolverTask_work_def task_op_eq manager_same_def removeWaitingSolverTask_def)
  moreover have "manager_same w ?w4" using w2(4) by (simp add: manager_same_def removeWaitingSolverTask_def)
  ultimately show ?thesis using w2(2) by (intro exI [of _ ?w4]) (simp add: removeWaitingSolverTask_def)
qed

text \<open>The solver and the timeouts do not interfere with the run.\<close>

definition undisturbed :: "work_env \<Rightarrow> bool" where
  "undisturbed env \<longleftrightarrow> \<not> env_stopped_before env \<and> \<not> env_stopped_after env
     \<and> \<not> (env_has_timeout env \<and> env_interrupted env)"

lemma work_solve_eval:
  assumes tw: "heap (sw_store w) r = Some tw" "\<not> stop (wt tw)"
    and st: "solverTasks w r = Some st" "st_fastSplit st = FastSplit_init"
    and c: "source_cube (parsedFormula w) (st_cubeSource st) (path (wt tw)) = Some c"
    and env: "undisturbed env" "env_solve env (handleClauses w k) c = (if v then 10 else 20)"
  shows "\<exists>w' fs. work_solve env fuel k r w = Some (if v then PARAC_SAT else PARAC_UNSAT, w')
    \<and> sw_store w' = (sw_store w)\<lparr>heap := (heap (sw_store w))(r \<mapsto> tw\<lparr>wt := (wt tw)\<lparr>state := PARAC_TASK_DONE\<rparr>\<rparr>)\<rparr>
    \<and> solverTasks w' = (solverTasks w)(r \<mapsto> st\<lparr>st_fastSplit := fs\<rparr>) \<and> manager_same w w'"
proof -
  obtain fs where fs: "FastSplit_tick (waitingSolverTasks w \<le> 1) FastSplit_init = Some fs"
    by (simp add: FastSplit_tick_def FastSplit_init_def Let_def)
  let ?w1 = "w\<lparr>solverTasks := (solverTasks w)(r \<mapsto> st\<lparr>st_fastSplit := fs\<rparr>)\<rparr>"
  let ?w2 = "?w1\<lparr>sw_store := (sw_store w)\<lparr>heap := (heap (sw_store w))(r \<mapsto> tw\<lparr>wt := (wt tw)\<lparr>state := PARAC_TASK_DONE\<rparr>\<rparr>)\<rparr>\<rparr>"
  let ?w3 = "if v then ?w2\<lparr>satAssignments := satAssignments w + 1\<rparr> else ?w2"
  have sol: "solveOrConditionallyAbort env (wt tw) (handleClauses w k) c (config_Resplit w)
      = (if v then PARAC_SAT else PARAC_UNSAT, env_solving_ms env, False)"
    using tw(2) env by (auto simp: solveOrConditionallyAbort_def undisturbed_def CaDiCaLHandle_solve_def
        cadical_solve_status_def Let_def)
  have "work_solve env fuel k r w = Some (if v then PARAC_SAT else PARAC_UNSAT, ?w3)"
    using tw(1) st c fs sol by (cases v) (simp_all add: work_solve_def task_op_eq)
  moreover have "sw_store ?w3 = (sw_store w)\<lparr>heap := (heap (sw_store w))(r \<mapsto> tw\<lparr>wt := (wt tw)\<lparr>state := PARAC_TASK_DONE\<rparr>\<rparr>)\<rparr>"
    "solverTasks ?w3 = (solverTasks w)(r \<mapsto> st\<lparr>st_fastSplit := fs\<rparr>)" "manager_same w ?w3"
    by (cases v; simp add: manager_same_def)+
  ultimately show ?thesis by blast
qed

text \<open>The worker after an answer: the result is recorded and the task assessed.\<close>

lemma after_solved:
  assumes tw: "heap (sw_store w) r = Some tw" "state (wt tw) = PARAC_TASK_DONE" "result (wt tw) = PARAC_PENDING" "has_work (wt tw)"
  shows "Worker_after env fuel r False (if v then PARAC_SAT else PARAC_UNSAT) w =
    store_op (env_available env) (assess_task fuel r) (w\<lparr>sw_store := (sw_store w)\<lparr>heap := (heap (sw_store w))(r \<mapsto>
      tw\<lparr>wt := (wt tw)\<lparr>result := if v then PARAC_SAT else PARAC_UNSAT, state := PARAC_TASK_DONE, delete_notification := None\<rparr>\<rparr>)\<rparr>\<rparr>)"
proof -
  have s: "st_without PARAC_TASK_DONE PARAC_TASK_WORKING OR PARAC_TASK_DONE = PARAC_TASK_DONE"
    "\<not> st_has PARAC_TASK_DONE PARAC_TASK_SPLITTED"
    by (simp_all add: st_without_def st_has_def task_state_defs)
  show ?thesis using tw by (cases v) (simp_all add: Worker_after_def task_op_eq s)
qed

lemma leaf_start_state:
  "st_without PARAC_TASK_WORK_AVAILABLE PARAC_TASK_WORK_AVAILABLE OR PARAC_TASK_WORKING = PARAC_TASK_WORKING"
  "\<not> st_has PARAC_TASK_WORKING PARAC_TASK_WORK_AVAILABLE"
  by (simp_all add: st_without_def st_has_def task_state_defs)

text \<open>Taking the first waiting task.\<close>

lemma before_leaf:
  assumes inv: "store_inv (sw_store w)" and q: "tasksWaitingForWorkerQueue (sw_store w) = r # q"
    and tw: "heap (sw_store w) r = Some tw" "leaf_task tw"
  obtains w' tw' where "Worker_before k flag w = Some (Some r, w')" "store_inv (sw_store w')"
    "heap (sw_store w') = (heap (sw_store w))(r \<mapsto> tw')" "\<not> in_work_queue tw'" "worked (wt tw) (wt tw')"
    "slot0 (wt tw') = SlotNull" "slot1 (wt tw') = SlotNull" "result (wt tw') = PARAC_PENDING"
    "state (wt tw') = PARAC_TASK_WORKING" "has_work (wt tw')"
    "tasksWaitingForWorkerQueue (sw_store w') = q" "tasks (sw_store w') = tasks (sw_store w)"
    "store_same (sw_store w) (sw_store w')" "outcalls (sw_store w') = outcalls (sw_store w)"
    "w' = w\<lparr>sw_store := sw_store w'\<rparr>"
proof -
  obtain s' t1 where s': "pop_work (Some flag) (sw_store w) = Some (Some r, s')" "store_inv s'"
    "heap s' = (heap (sw_store w))(r \<mapsto> t1)" "\<not> in_work_queue t1" "worked (wt tw) (wt t1)"
    "slot0 (wt t1) = slot0 (wt tw)" "slot1 (wt t1) = slot1 (wt tw)" "result (wt t1) = result (wt tw)"
    "state (wt t1) = st_without (state (wt tw)) PARAC_TASK_WORK_AVAILABLE OR PARAC_TASK_WORKING"
    "tasksWaitingForWorkerQueue s' = q" "tasks s' = tasks (sw_store w)" "store_same (sw_store w) s'"
    "outcalls s' = outcalls (sw_store w)"
    by (rule pop_work_eq [OF inv q tw(1), of "Some flag"])
  let ?t = "(wt t1)\<lparr>worker := of_nat k\<rparr>"
  let ?s = "s'\<lparr>heap := (heap s')(r \<mapsto> t1\<lparr>wt := ?t\<rparr>)\<rparr>"
  have st: "state (wt t1) = PARAC_TASK_WORKING" using s'(9) tw(2) leaf_start_state by (simp add: leaf_task_def)
  have h1: "heap s' r = Some t1" by (simp add: s'(3))
  have i: "store_inv ?s"
    by (rule client_inv [OF s'(2) h1 s'(4)], rule worked_links) (simp_all add: worked_def parent_state_def)
  have b: "Worker_before k flag w = Some (Some r, w\<lparr>sw_store := ?s\<rparr>)"
    using s'(1) h1 st leaf_start_state(2) by (simp add: Worker_before_def)
  show thesis
    by (rule that [of "w\<lparr>sw_store := ?s\<rparr>" "t1\<lparr>wt := ?t\<rparr>"])
      (use i b s' st tw(2) in \<open>simp_all add: leaf_task_def worked_def store_same_def\<close>)
qed

section \<open>The contract of a cube source\<close>

definition implied :: "((nat \<Rightarrow> bool) \<Rightarrow> bool) \<Rightarrow> int list \<Rightarrow> bool" where
  "implied F cl \<longleftrightarrow> (\<forall>a. F a \<longrightarrow> (\<exists>l \<in> set cl. lit_true a l))"

lemma sat_with_implied:
  assumes "\<forall>cl \<in> set cs. implied F cl"
  shows "sat_under (\<lambda>a. F a \<and> (\<forall>cl \<in> set cs. \<exists>l \<in> set cl. lit_true a l)) c = sat_under F c"
  using assms unfolding sat_under_def implied_def by blast

lemma implied_negated:
  assumes "\<not> sat_under F c" "0 \<notin> set c"
  shows "implied F (negated_cube c)"
  unfolding implied_def
proof (intro allI impI)
  fix a
  assume "F a"
  with assms(1) obtain l where l: "l \<in> set c" "\<not> lit_true a l" by (auto simp: sat_under_def)
  with assms(2) have "lit_true a (- l)" using lit_true_neg [of l a] by auto
  with l(1) show "\<exists>l \<in> set (negated_cube c). lit_true a l" by (auto simp: negated_cube_def)
qed

text \<open>The cube of an inner task can be learned as a clause when the task is unsatisfiable.\<close>

definition learn_ok ::
  "((nat \<Rightarrow> bool) \<Rightarrow> bool) \<Rightarrow> cadical_handle \<Rightarrow> u64 \<Rightarrow> bool \<Rightarrow> source \<Rightarrow> parac_path \<Rightarrow> bool" where
  "learn_ok F hdl level v src p \<longleftrightarrow> (\<not> parac_path_is_root p \<longrightarrow> parac_path_length p < level \<longrightarrow>
     (\<exists>c. source_cube hdl src p = Some c \<and> c \<noteq> [] \<and> 0 \<notin> set c \<and> (v \<longleftrightarrow> sat_under F c)))"

definition literal_ok :: "(int list \<Rightarrow> parac_status \<times> int) \<Rightarrow> bool" where
  "literal_ok rs \<longleftrightarrow> (\<forall>c. fst (rs c) = PARAC_SPLITTED \<longrightarrow> snd (rs c) \<noteq> 0)"

locale tree_source =
  fixes F :: "(nat \<Rightarrow> bool) \<Rightarrow> bool" and hdl :: cadical_handle and depth :: nat and level :: u64 and D :: nat
    and good :: "source \<Rightarrow> parac_path \<Rightarrow> bool" and val :: "source \<Rightarrow> parac_path \<Rightarrow> bool"
  assumes D: "D \<le> 58"
    and split: "good src p \<Longrightarrow> ordinary p \<Longrightarrow> path_depth p \<le> D \<Longrightarrow> literal_ok rs \<Longrightarrow>
      \<exists>b l r src'. source_split hdl rs depth src p = Some (b, l, r, src') \<and> val src' p = val src p
        \<and> learn_ok F hdl level (val src p) src' p
        \<and> (if b then path_depth p < D \<and> (l \<or> r) else \<exists>c. source_cube hdl src' p = Some c \<and> (val src p \<longleftrightarrow> sat_under F c))"
    and learn: "good src p \<Longrightarrow> ordinary p \<Longrightarrow> learn_ok F hdl level (val src p) src p"
    and sides: "good src p \<Longrightarrow> ordinary p \<Longrightarrow> literal_ok rs \<Longrightarrow>
      source_split hdl rs depth src p = Some (True, l, r, src') \<Longrightarrow>
      parac_path_get_next_left p = Some pl \<Longrightarrow> parac_path_get_next_right p = Some pr \<Longrightarrow>
      (l \<longrightarrow> good (source_leftChild src') pl) \<and> (r \<longrightarrow> good (source_rightChild src') pr)
        \<and> (val src p \<longleftrightarrow> l \<and> val (source_leftChild src') pl \<or> r \<and> val (source_rightChild src') pr)"

section \<open>Leaves that were solved\<close>

definition leaf_solved :: "parac_status \<Rightarrow> task_ref \<Rightarrow> task_ref \<Rightarrow> task_wrapper \<Rightarrow> bool" where
  "leaf_solved v rt r tw \<longleftrightarrow> \<not> in_work_queue tw \<and> own_task rt r (wt tw) \<and> state (wt tw) = PARAC_TASK_DONE
     \<and> result (wt tw) = v \<and> slot0 (wt tw) = SlotNull \<and> slot1 (wt tw) = SlotNull"

lemma leaf_decided:
  assumes "leaf_solved v rt r tw" "v \<in> {PARAC_SAT, PARAC_UNSAT}"
  shows "decided v (wt tw)"
proof -
  have "assessed (wt tw) = (wt tw)\<lparr>state :=
      st_without (state (wt tw) OR PARAC_TASK_DONE) PARAC_TASK_WORK_AVAILABLE\<rparr>"
    using assms by (auto simp: leaf_solved_def assessed_def state_bits own_task_def)
  then show ?thesis
    using assms by (auto simp: decided_def is_done_bits state_bits leaf_solved_def own_task_def own_assess_def)
qed

lemma tree_solved:
  assumes "tree_ok h vl rt {}" "h r = Some tw" "leaf_task tw" "own_task rt r (wt tw')" "path (wt tw') = path (wt tw)"
    "slot0 (wt tw') = SlotNull" "slot1 (wt tw') = SlotNull"
  shows "tree_ok (h(r \<mapsto> tw')) vl rt {r}"
  unfolding tree_ok_def
proof (intro allI impI)
  fix x xw
  assume x: "(h(r \<mapsto> tw')) x = Some xw"
  show "own_task rt x (wt xw) \<and> (if x \<in> {r} then \<forall>c. \<not> kid (wt xw) c
      else leaf_task xw \<or> inner_task (h(r \<mapsto> tw')) vl x xw)"
  proof (cases "x = r")
    case True
    with x assms(4,6,7) show ?thesis by (simp add: kid_def)
  next
    case False
    with x have hx: "h x = Some xw" by simp
    have "inner_task (h(r \<mapsto> tw')) vl x xw" if "inner_task h vl x xw"
      by (rule inner_task_cong [OF that]) (use assms(2,5) in auto)
    with False tree_okD [OF assms(1) hx] show ?thesis by auto
  qed
qed

lemma solved_sat:
  assumes inv: "store_inv s" and tw: "heap s r = Some tw" "leaf_solved PARAC_SAT rt r tw"
    and t: "tree_ok (heap s) vl rt {r}" "vl r" and inp: "has_input_file s" "exit_status s = PARAC_UNDEFINED"
    and k: "path_depth (path (wt tw)) \<le> k"
  shows "\<exists>s' out. call (Suc k) (Assess True True r) s = Some s' \<and> exit_status s' = PARAC_SAT \<and> vl rt
    \<and> called out s s' \<and> set out \<subseteq> range FreeUserdata"
proof -
  have l: "links_ok (heap s)" using inv by (simp add: store_inv_def)
  have d: "decided PARAC_SAT (wt tw)" using leaf_decided [OF tw(2)] by simp
  have ow: "own_task rt r (wt tw)" and nq: "\<not> in_work_queue tw" using tw(2) by (auto simp: leaf_solved_def)
  define n where "n = path_depth (path (wt tw))"
  have n: "n < 2 ^ 57 - 1" using ordinary_bound [of "path (wt tw)"] ow by (simp add: n_def own_task_def)
  have "vl rt \<and> (case n of 0 \<Rightarrow> path (wt tw) = parac_path_root \<and> local_parent (wt tw) = None
     | Suc m \<Rightarrow> \<exists>p. local_parent (wt tw) = Some p \<and> up_chain (heap s) PARAC_SAT m (path (wt tw)) p)"
  proof (cases n)
    case 0
    then have np: "local_parent (wt tw) = None" using no_parent_depth [OF l t(1) tw(1)] by (simp add: n_def)
    then have "r = rt" using ow own_task_parent [OF ow] by (simp add: own_task_def)
    with np ow t(2) 0 show ?thesis by (simp add: own_task_def)
  next
    case (Suc m)
    then obtain p where p: "local_parent (wt tw) = Some p"
      using no_parent_depth [OF l t(1) tw(1)] by (auto simp: n_def)
    obtain pw where pw: "heap s p = Some pw" "inner_task (heap s) vl p pw" "kid (wt pw) r"
      by (rule parent_inner [OF l t(1) tw(1) p])
    have "path_depth (path (wt pw)) = m" using parent_depth [OF l t(1) tw(1) p pw(1)] Suc by (simp add: n_def)
    from sat_chain [OF l t(1) pw(1) this pw(2)] have "up_chain (heap s) PARAC_SAT m (path (wt tw)) p" "vl p \<longrightarrow> vl rt"
      by blast+
    moreover have "vl p" using pw(2,3) t(2) by (auto simp: inner_task_def)
    ultimately show ?thesis using Suc p by simp
  qed
  with climb [OF _ inv tw(1) nq d inp n, of k] k show ?thesis by (auto simp: n_def simp del: call.simps)
qed

definition env_ok :: "((nat \<Rightarrow> bool) \<Rightarrow> bool) \<Rightarrow> work_env \<Rightarrow> bool" where
  "env_ok F env \<longleftrightarrow> undisturbed env \<and> literal_ok (env_resplitCube env)
     \<and> (\<forall>cs c. env_solve env cs c =
          (if sat_under (\<lambda>a. F a \<and> (\<forall>cl \<in> set cs. \<exists>l \<in> set cl. lit_true a l)) c then 10 else 20))
     \<and> (\<forall>s. dom (heap s) \<noteq> UNIV \<longrightarrow> heap s (env_alloc env s) = None)"

definition clauses_ok :: "((nat \<Rightarrow> bool) \<Rightarrow> bool) \<Rightarrow> solver_world \<Rightarrow> bool" where
  "clauses_ok F w \<longleftrightarrow> (\<forall>cl \<in> set (learnedClauses w). cl \<noteq> [] \<and> implied F cl)
     \<and> (\<forall>k. \<forall>cl \<in> set (handleClauses w k). implied F cl)"

lemma clauses_ok_manager:
  assumes "clauses_ok F w" "manager_same w w'"
  shows "clauses_ok F w'"
proof -
  have m: "learnedClauses w' = learnedClauses w" "set (handleClauses w' j) \<subseteq> set (handleClauses w j) \<union> set (learnedClauses w)" for j
    using assms(2) by (simp_all add: manager_same_def)
  have "implied F cl" if "cl \<in> set (handleClauses w' j)" for cl j
    using m(2) [of j] that assms(1) by (auto simp: clauses_ok_def)
  with assms(1) m(1) show ?thesis by (simp add: clauses_ok_def)
qed

lemma manager_same_trans:
  assumes "manager_same a b" "manager_same b c"
  shows "manager_same a c"
proof -
  have "set (handleClauses b j) \<subseteq> set (handleClauses a j) \<union> set (learnedClauses a)"
    "set (handleClauses c j) \<subseteq> set (handleClauses b j) \<union> set (learnedClauses a)" for j
    using assms by (simp_all add: manager_same_def)
  then have "set (handleClauses c j) \<subseteq> set (handleClauses a j) \<union> set (learnedClauses a)" for j by blast
  with assms show ?thesis by (simp add: manager_same_def)
qed

text \<open>A task that is being run, before its work splits or solves it.\<close>

definition running :: "task_ref \<Rightarrow> task_wrapper \<Rightarrow> task_wrapper \<Rightarrow> bool" where
  "running r tw tw' \<longleftrightarrow> \<not> in_work_queue tw' \<and> worked (wt tw) (wt tw') \<and> slot0 (wt tw') = SlotNull
     \<and> slot1 (wt tw') = SlotNull \<and> result (wt tw') = PARAC_PENDING \<and> state (wt tw') = PARAC_TASK_WORKING
     \<and> has_work (wt tw')"

lemma run_start:
  assumes inv: "store_inv (sw_store w)" and q: "tasksWaitingForWorkerQueue (sw_store w) = r # q"
    and tw: "heap (sw_store w) r = Some tw" "leaf_task tw" "own_task rt r (wt tw)"
    and st: "solverTasks w r = Some st" "\<not> st_working st"
    and k: "k < length (learnedClausesApplicationStack w)" and cl: "clauses_ok F w"
    and sp: "source_split (parsedFormula w) (env_resplitCube env) (config_InitialMinimalCubeDepth w)
      (st_cubeSource st) (path (wt tw)) = Some (b, bl, br, src)"
  obtains w2 tw2 where
    "Worker_round env fuel k flag w = do {
       (res, w) \<leftarrow> (if b then work_split env fuel r bl br w2 else work_solve env fuel k r w2);
       Worker_after env fuel r (heap (sw_store w) r = None) res w }"
    "store_inv (sw_store w2)" "heap (sw_store w2) = (heap (sw_store w))(r \<mapsto> tw2)" "running r tw tw2"
    "tasksWaitingForWorkerQueue (sw_store w2) = q" "tasks (sw_store w2) = tasks (sw_store w)"
    "store_same (sw_store w) (sw_store w2)"
    "solverTasks w2 = (solverTasks w)(r \<mapsto> st\<lparr>st_working := True, st_cubeSource := src\<rparr>)" "manager_same w w2"
proof -
  obtain w1 tw1 where w1: "Worker_before k flag w = Some (Some r, w1)" "store_inv (sw_store w1)"
    "heap (sw_store w1) = (heap (sw_store w))(r \<mapsto> tw1)" "\<not> in_work_queue tw1" "worked (wt tw) (wt tw1)"
    "slot0 (wt tw1) = SlotNull" "slot1 (wt tw1) = SlotNull" "result (wt tw1) = PARAC_PENDING"
    "state (wt tw1) = PARAC_TASK_WORKING" "has_work (wt tw1)"
    "tasksWaitingForWorkerQueue (sw_store w1) = q" "tasks (sw_store w1) = tasks (sw_store w)"
    "store_same (sw_store w) (sw_store w1)" "outcalls (sw_store w1) = outcalls (sw_store w)"
    "w1 = w\<lparr>sw_store := sw_store w1\<rparr>"
    by (rule before_leaf [OF inv q tw(1,2), of k flag])
  have keep: "solverTasks w1 = solverTasks w" "learnedClausesApplicationStack w1 = learnedClausesApplicationStack w"
    "learnedClauses w1 = learnedClauses w" "parsedFormula w1 = parsedFormula w" "handleClauses w1 = handleClauses w"
    "config_InitialMinimalCubeDepth w1 = config_InitialMinimalCubeDepth w" "config_Resplit w1 = config_Resplit w"
    by (subst w1(15), simp)+
  have m1: "manager_same w w1" by (simp add: manager_same_def keep)
  have pt: "path (wt tw1) = path (wt tw)" "has_task_store (wt tw1)"
    using w1(5) tw(3) by (auto simp: worked_def own_task_def)
  have h1: "heap (sw_store w1) r = Some tw1" by (simp add: w1(3))
  have k1: "k < length (learnedClausesApplicationStack w1)" "\<forall>c \<in> set (learnedClauses w1). c \<noteq> []"
    and sp1: "source_split (parsedFormula w1) (env_resplitCube env) (config_InitialMinimalCubeDepth w1)
      (st_cubeSource st) (path (wt tw1)) = Some (b, bl, br, src)"
    and st1: "solverTasks w1 r = Some st"
    using k cl sp st(1) by (simp_all add: keep pt clauses_ok_def)
  let ?t = "(wt tw1)\<lparr>terminate := Some SolverTaskTerminate\<rparr>"
  obtain w2 where w2: "SolverTask_work env fuel k r w1 = (if b then work_split env fuel r bl br w2 else work_solve env fuel k r w2)"
    "sw_store w2 = (sw_store w1)\<lparr>heap := (heap (sw_store w1))(r \<mapsto> tw1\<lparr>wt := ?t\<rparr>)\<rparr>"
    "solverTasks w2 = (solverTasks w1)(r \<mapsto> st\<lparr>st_working := True, st_cubeSource := src\<rparr>)" "manager_same w1 w2"
    using work_start [OF h1 pt(2) st1 st(2) k1 sp1, of fuel] by blast
  have round: "Worker_round env fuel k flag w = do {
       (res, w) \<leftarrow> (if b then work_split env fuel r bl br w2 else work_solve env fuel k r w2);
       Worker_after env fuel r (heap (sw_store w) r = None) res w }"
    using w1(1) h1 w1(10) w2(1) by (simp add: Worker_round_def)
  have i2: "store_inv (sw_store w2)"
    unfolding w2(2)
    by (rule client_inv [OF w1(2) h1 w1(4)], rule worked_links) (simp_all add: worked_def parent_state_def)
  show thesis
    by (rule that [of w2 "tw1\<lparr>wt := ?t\<rparr>", OF round i2])
      (use w1 w2 keep manager_same_trans [OF m1 w2(4)] in
        \<open>simp_all add: store_same_def running_def worked_def\<close>)
qed

lemma solve_run:
  assumes inv: "store_inv (sw_store w)" and q: "tasksWaitingForWorkerQueue (sw_store w) = r # q"
    and tw: "heap (sw_store w) r = Some tw" "leaf_task tw" "own_task rt r (wt tw)"
    and st: "solverTasks w r = Some st" "\<not> st_working st" "st_fastSplit st = FastSplit_init"
    and k: "k < length (learnedClausesApplicationStack w)" and cl: "clauses_ok F w" and env: "env_ok F env"
    and sp: "source_split (parsedFormula w) (env_resplitCube env) (config_InitialMinimalCubeDepth w)
      (st_cubeSource st) (path (wt tw)) = Some (False, bl, br, src)"
    and c: "source_cube (parsedFormula w) src (path (wt tw)) = Some c"
  obtains w4 tw4 st4 where
    "Worker_round env fuel k flag w = store_op (env_available env) (assess_task fuel r) w4"
    "store_inv (sw_store w4)" "heap (sw_store w4) = (heap (sw_store w))(r \<mapsto> tw4)"
    "leaf_solved (if sat_under F c then PARAC_SAT else PARAC_UNSAT) rt r tw4" "path (wt tw4) = path (wt tw)"
    "tasksWaitingForWorkerQueue (sw_store w4) = q" "tasks (sw_store w4) = tasks (sw_store w)"
    "store_same (sw_store w) (sw_store w4)"
    "solverTasks w4 = (solverTasks w)(r \<mapsto> st4)" "st_cubeSource st4 = src" "manager_same w w4"
proof -
  let ?v = "sat_under F c"
  define v where "v = (if ?v then PARAC_SAT else PARAC_UNSAT)"
  let ?st = "st\<lparr>st_working := True, st_cubeSource := src\<rparr>"
  obtain w2 tw2 where round: "Worker_round env fuel k flag w = do {
       (res, w) \<leftarrow> (if False then work_split env fuel r bl br w2 else work_solve env fuel k r w2);
       Worker_after env fuel r (heap (sw_store w) r = None) res w }"
    and w2: "store_inv (sw_store w2)" "heap (sw_store w2) = (heap (sw_store w))(r \<mapsto> tw2)" "running r tw tw2"
    "tasksWaitingForWorkerQueue (sw_store w2) = q" "tasks (sw_store w2) = tasks (sw_store w)"
    "store_same (sw_store w) (sw_store w2)" "solverTasks w2 = (solverTasks w)(r \<mapsto> ?st)" "manager_same w w2"
    by (rule run_start [OF inv q tw st(1,2) k cl sp, of fuel flag])
  have h2: "heap (sw_store w2) r = Some tw2" by (simp add: w2(2))
  have pt: "path (wt tw2) = path (wt tw)" "\<not> stop (wt tw2)"
    using w2(3) tw(3) by (auto simp: running_def worked_def own_task_def)
  have "\<forall>cl \<in> set (handleClauses w2 k). implied F cl"
    using clauses_ok_manager [OF cl w2(8)] by (simp add: clauses_ok_def)
  then have ans: "env_solve env (handleClauses w2 k) c = (if ?v then 10 else 20)"
    using env by (simp add: env_ok_def sat_with_implied)
  have c2: "source_cube (parsedFormula w2) (st_cubeSource ?st) (path (wt tw2)) = Some c"
    using c w2(8) pt by (simp add: manager_same_def)
  have s2: "solverTasks w2 r = Some ?st" by (simp add: w2(7))
  let ?tw3 = "tw2\<lparr>wt := (wt tw2)\<lparr>state := PARAC_TASK_DONE\<rparr>\<rparr>"
  obtain w3 fs where w3: "work_solve env fuel k r w2 = Some (v, w3)"
    "sw_store w3 = (sw_store w2)\<lparr>heap := (heap (sw_store w2))(r \<mapsto> ?tw3)\<rparr>"
    "solverTasks w3 = (solverTasks w2)(r \<mapsto> ?st\<lparr>st_fastSplit := fs\<rparr>)" "manager_same w2 w3"
    using work_solve_eval [OF h2 pt(2) s2 _ c2 _ ans, of fuel] st(3) env unfolding v_def by (auto simp: env_ok_def)
  have h3: "heap (sw_store w3) r = Some ?tw3" by (simp add: w3(2))
  let ?t4 = "(wt tw2)\<lparr>state := PARAC_TASK_DONE, result := v, state := PARAC_TASK_DONE, delete_notification := None\<rparr>"
  let ?w4 = "w3\<lparr>sw_store := (sw_store w3)\<lparr>heap := (heap (sw_store w3))(r \<mapsto> tw2\<lparr>wt := ?t4\<rparr>)\<rparr>\<rparr>"
  have r4: "Worker_round env fuel k flag w = store_op (env_available env) (assess_task fuel r) ?w4"
    using round w3(1) h3 after_solved [OF h3, of env fuel ?v, folded v_def] w2(3) by (simp add: running_def)
  have s4: "sw_store ?w4 = (sw_store w2)\<lparr>heap := (heap (sw_store w2))(r \<mapsto> tw2\<lparr>wt := ?t4\<rparr>)\<rparr>" by (simp add: w3(2))
  have ws: "worked (wt tw2) ?t4" by (simp add: worked_def)
  have np: "\<not> parent_state (wt tw2)" "\<not> in_work_queue tw2" "worked (wt tw) (wt tw2)"
    using w2(3) by (simp_all add: running_def parent_state_def state_bits)
  have i4: "store_inv (sw_store ?w4)"
    unfolding s4 by (rule client_inv [OF w2(1) h2 np(2)], rule worked_links [OF ws]) (use np(1) in simp_all)
  have ow: "own_task rt r ?t4" using worked_own [OF ws] worked_own [OF np(3)] tw(3) by simp
  show thesis
    by (rule that [of ?w4 "tw2\<lparr>wt := ?t4\<rparr>" "?st\<lparr>st_fastSplit := fs\<rparr>", OF r4 i4])
      (use w2 ow pt w3 manager_same_trans [OF w2(8) w3(4)] in
        \<open>simp_all add: s4 leaf_solved_def store_same_def manager_same_def running_def v_def [symmetric]\<close>)
qed

section \<open>The invariant of a run\<close>

definition wsum :: "nat \<Rightarrow> nat \<Rightarrow> task_store \<Rightarrow> nat" where
  "wsum D c s = sum_list (map (\<lambda>x. 2 ^ (D + 1 - path_depth (path_of s x)) - c) (tasksWaitingForWorkerQueue s))"

lemma wsum_cong:
  assumes "tasksWaitingForWorkerQueue s' = q"
    "\<And>x. x \<in> set q \<Longrightarrow> path_of s' x = path_of s x"
  shows "wsum D c s' = sum_list (map (\<lambda>x. 2 ^ (D + 1 - path_depth (path_of s x)) - c) q)"
  using assms by (auto simp: wsum_def intro!: arg_cong [where f = sum_list])

definition fits :: "nat \<Rightarrow> task_store \<Rightarrow> bool" where
  "fits D s \<longleftrightarrow> length (tasks s) + wsum D 2 s \<le> 2 ^ (D + 1)"

lemma tasks_card: "store_inv s \<Longrightarrow> length (tasks s) = card (dom (heap s))"
  unfolding store_inv_def tasks_ok_def by (metis distinct_card)

lemma finite_dom: "store_inv s \<Longrightarrow> finite (dom (heap s))"
  unfolding store_inv_def tasks_ok_def by (metis List.finite_set)

lemma fits_not_full:
  assumes "store_inv s" "length (tasks s) \<le> 2 ^ 60"
  shows "dom (heap s) \<noteq> UNIV"
proof
  assume "dom (heap s) = UNIV"
  with tasks_card [OF assms(1)] have "length (tasks s) = 2 ^ 64" by (simp add: card_word)
  with assms(2) show False by simp
qed

context tree_source
begin

definition tval :: "solver_world \<Rightarrow> task_ref \<Rightarrow> bool" where
  "tval w x = (case solverTasks w x of None \<Rightarrow> False | Some st \<Rightarrow> val (st_cubeSource st) (path_of (sw_store w) x))"

definition task_inv :: "solver_world \<Rightarrow> task_ref \<Rightarrow> task_wrapper \<Rightarrow> bool" where
  "task_inv w x xw \<longleftrightarrow> path_depth (path (wt xw)) \<le> D \<and> (\<exists>st. solverTasks w x = Some st
     \<and> learn_ok F hdl level (tval w x) (st_cubeSource st) (path (wt xw))
     \<and> (in_work_queue xw \<longrightarrow> \<not> st_working st \<and> st_fastSplit st = FastSplit_init
          \<and> good (st_cubeSource st) (path (wt xw))))"

definition manager_inv :: "nat \<Rightarrow> solver_world \<Rightarrow> bool" where
  "manager_inv K w \<longleftrightarrow> parsedFormula w = hdl \<and> config_InitialMinimalCubeDepth w = depth
     \<and> clauses_ok F w \<and> length (learnedClausesApplicationStack w) = K"

definition store_run :: "task_store \<Rightarrow> bool" where
  "store_run s \<longleftrightarrow> store_inv s \<and> has_input_file s \<and> exit_status s = PARAC_UNDEFINED
     \<and> distribute_max_level s = level \<and> fits D s"

definition world_inv :: "nat \<Rightarrow> task_ref \<Rightarrow> solver_world \<Rightarrow> bool" where
  "world_inv K rt w \<longleftrightarrow> manager_inv K w \<and> store_run (sw_store w) \<and> rt \<in> dom (heap (sw_store w))
     \<and> tree_ok (heap (sw_store w)) (tval w) rt {}
     \<and> (\<forall>x xw. heap (sw_store w) x = Some xw \<longrightarrow> task_inv w x xw)"

text \<open>A leaf that was run and answered, just before it is assessed.\<close>

definition answered :: "bool \<Rightarrow> solver_world \<Rightarrow> task_ref \<Rightarrow> task_ref list \<Rightarrow> task_ref \<Rightarrow> solver_world \<Rightarrow> bool" where
  "answered v w r q rt w4 \<longleftrightarrow> store_inv (sw_store w4) \<and> (\<exists>tw tw4 st src. heap (sw_store w) r = Some tw
     \<and> leaf_task tw \<and> heap (sw_store w4) = (heap (sw_store w))(r \<mapsto> tw4)
     \<and> leaf_solved (if v then PARAC_SAT else PARAC_UNSAT) rt r tw4 \<and> path (wt tw4) = path (wt tw)
     \<and> solverTasks w4 = (solverTasks w)(r \<mapsto> st) \<and> st_cubeSource st = src
     \<and> val src (path (wt tw)) = tval w r \<and> learn_ok F hdl level (tval w r) src (path (wt tw)))
     \<and> tval w r = v \<and> tasksWaitingForWorkerQueue (sw_store w) = r # q
     \<and> tasksWaitingForWorkerQueue (sw_store w4) = q \<and> tasks (sw_store w4) = tasks (sw_store w)
     \<and> store_same (sw_store w) (sw_store w4) \<and> manager_same w w4"

lemma answered_tree:
  assumes "world_inv K rt w" "answered v w r q rt w4"
  obtains tw4 where "heap (sw_store w4) r = Some tw4" "leaf_solved (if v then PARAC_SAT else PARAC_UNSAT) rt r tw4"
    "tree_ok (heap (sw_store w4)) (tval w) rt {r}" "path_depth (path (wt tw4)) \<le> D"
    "has_input_file (sw_store w4)" "exit_status (sw_store w4) = PARAC_UNDEFINED" "distribute_max_level (sw_store w4) = level"
    "store_inv (sw_store w4)" "tval w r = v"
proof -
  from assms(2) obtain tw tw4 where tw: "heap (sw_store w) r = Some tw" "leaf_task tw"
    "heap (sw_store w4) = (heap (sw_store w))(r \<mapsto> tw4)"
    "leaf_solved (if v then PARAC_SAT else PARAC_UNSAT) rt r tw4" "path (wt tw4) = path (wt tw)"
    unfolding answered_def by blast
  have t: "tree_ok (heap (sw_store w)) (tval w) rt {}" using assms(1) by (simp add: world_inv_def)
  have "tree_ok ((heap (sw_store w))(r \<mapsto> tw4)) (tval w) rt {r}"
    by (rule tree_solved [OF t tw(1,2)]) (use tw(4,5) in \<open>simp_all add: leaf_solved_def\<close>)
  moreover have "task_inv w r tw" using assms(1) tw(1) by (simp add: world_inv_def)
  ultimately show thesis
    using that [of tw4] tw assms by (simp add: task_inv_def answered_def world_inv_def store_run_def store_same_def)
qed

lemma round_sat:
  assumes w: "world_inv K rt w" and a: "answered True w r q rt w4" and fuel: "D < fuel"
  shows "\<exists>w'. store_op av (assess_task fuel r) w4 = Some w' \<and> exit_status (sw_store w') = PARAC_SAT \<and> tval w rt"
proof -
  obtain tw4 where t: "heap (sw_store w4) r = Some tw4" "leaf_solved PARAC_SAT rt r tw4"
    "tree_ok (heap (sw_store w4)) (tval w) rt {r}" "path_depth (path (wt tw4)) \<le> D"
    "has_input_file (sw_store w4)" "exit_status (sw_store w4) = PARAC_UNDEFINED"
    "store_inv (sw_store w4)" "tval w r"
    using answered_tree [OF w a] by auto
  obtain k where k: "fuel = Suc k" "D \<le> k" using fuel by (cases fuel) auto
  have "path_depth (path (wt tw4)) \<le> k" using t(4) k(2) by simp
  from solved_sat [OF t(7,1,2,3,8,5,6) this] obtain s' out where
    s': "call (Suc k) (Assess True True r) (sw_store w4) = Some s'" "exit_status s' = PARAC_SAT" "tval w rt"
    "called out (sw_store w4) s'" "set out \<subseteq> range FreeUserdata" by blast
  have "assess_task fuel r (sw_store w4) = Some s'" using s'(1) k by (simp add: assess_task_def del: call.simps)
  from store_op_called [of "assess_task fuel r", OF this s'(4)]
  have e: "store_op av (assess_task fuel r) w4 = solver_calls av (path_of (sw_store w4)) out (w4\<lparr>sw_store := s'\<rparr>)" .
  from free_calls [OF s'(5)] obtain w' where
    "solver_calls av (path_of (sw_store w4)) out (w4\<lparr>sw_store := s'\<rparr>) = Some w'" "solver_same (w4\<lparr>sw_store := s'\<rparr>) w'"
    by blast
  with e s'(2,3) show ?thesis by (auto simp: solver_same_def)
qed

end

context tree_source
begin

lemma answered_task:
  assumes w: "world_inv K rt w" and a: "answered v w r q rt w4" and x: "heap (sw_store w4) x = Some xw"
  obtains st where "solverTasks w4 x = Some st" "val (st_cubeSource st) (path (wt xw)) = tval w x"
    "learn_ok F hdl level (tval w x) (st_cubeSource st) (path (wt xw))" "path_depth (path (wt xw)) \<le> D"
    "in_work_queue xw \<longrightarrow> \<not> st_working st \<and> st_fastSplit st = FastSplit_init \<and> good (st_cubeSource st) (path (wt xw))"
proof -
  from a obtain tw tw4 st4 where tw: "heap (sw_store w) r = Some tw"
    "heap (sw_store w4) = (heap (sw_store w))(r \<mapsto> tw4)" "path (wt tw4) = path (wt tw)" "\<not> in_work_queue tw4"
    "solverTasks w4 = (solverTasks w)(r \<mapsto> st4)" "val (st_cubeSource st4) (path (wt tw)) = tval w r"
    "learn_ok F hdl level (tval w r) (st_cubeSource st4) (path (wt tw))"
    unfolding answered_def leaf_solved_def by blast
  show thesis
  proof (cases "x = r")
    case True
    have "task_inv w r tw" using w tw(1) by (simp add: world_inv_def)
    with True tw x show thesis by (intro that [of st4]) (simp_all add: task_inv_def)
  next
    case False
    with x tw(2) have hx: "heap (sw_store w) x = Some xw" by simp
    then have "task_inv w x xw" using w by (simp add: world_inv_def)
    then obtain st where st: "solverTasks w x = Some st"
      "learn_ok F hdl level (tval w x) (st_cubeSource st) (path (wt xw))" "path_depth (path (wt xw)) \<le> D"
      "in_work_queue xw \<longrightarrow> \<not> st_working st \<and> st_fastSplit st = FastSplit_init \<and> good (st_cubeSource st) (path (wt xw))"
      by (auto simp: task_inv_def)
    then have "tval w x = val (st_cubeSource st) (path (wt xw))" using hx by (simp add: tval_def path_of_def)
    with st False tw(5) show thesis by (intro that [of st]) simp_all
  qed
qed

text \<open>The clauses learned while unsatisfiable tasks are removed follow from the formula.\<close>

lemma learnable_cube:
  assumes w: "world_inv K rt w" and a: "answered v w r q rt w4" and x: "learnable (tval w) (sw_store w4) x"
  obtains c where "task_cube (path_of (sw_store w4)) w4 x = Some c" "c \<noteq> []" "implied F (negated_cube c)"
proof -
  from x obtain xw where xw: "heap (sw_store w4) x = Some xw" "\<not> tval w x" "\<not> parac_path_is_root (path (wt xw))"
    "parac_path_length (path (wt xw)) < distribute_max_level (sw_store w4)" by (auto simp: learnable_def)
  obtain st where st: "solverTasks w4 x = Some st"
    "learn_ok F hdl level (tval w x) (st_cubeSource st) (path (wt xw))"
    by (rule answered_task [OF w a xw(1)])
  have "distribute_max_level (sw_store w4) = level" "parsedFormula w4 = hdl"
    using w a by (simp_all add: answered_def world_inv_def store_run_def store_same_def manager_inv_def manager_same_def)
  with st xw that show thesis
    by (auto simp: learn_ok_def task_cube_def path_of_def intro: implied_negated)
qed

lemma negated_nonempty: "c \<noteq> [] \<Longrightarrow> negated_cube c \<noteq> []"
  by (simp add: negated_cube_def)

lemma shrunk_world:
  assumes w: "world_inv K rt w" and a: "answered v w r q rt w4"
    and s': "shrunk (sw_store w4) s' rs" "still_running (tval w) rt (sw_store w4) s'"
    and w': "solver_same (w4\<lparr>sw_store := s'\<rparr>) w'"
      "solverTasks w' = (\<lambda>x. if x \<in> set rs then None else solverTasks w4 x)" "clauses_ok F w'"
  shows "world_inv K rt w' \<and> tval w' rt = tval w rt \<and> wsum D 1 (sw_store w') < wsum D 1 (sw_store w)"
proof -
  have sw: "sw_store w' = s'" using w'(1) by (simp add: solver_same_def)
  have live: "tval w' x = tval w x \<and> task_inv w' x xw \<and> (\<exists>xw4. heap (sw_store w4) x = Some xw4 \<and> path (wt xw) = path (wt xw4))"
    if x: "heap s' x = Some xw" for x xw
  proof -
    from s'(1) x obtain xw4 where xw4: "heap (sw_store w4) x = Some xw4" "path (wt xw) = path (wt xw4)"
      "in_work_queue xw = in_work_queue xw4" unfolding shrunk_def by blast
    have nr: "x \<notin> set rs" using s'(1) x by (auto simp: shrunk_def)
    obtain st where st: "solverTasks w4 x = Some st" "val (st_cubeSource st) (path (wt xw4)) = tval w x"
      "learn_ok F hdl level (tval w x) (st_cubeSource st) (path (wt xw4))" "path_depth (path (wt xw4)) \<le> D"
      "in_work_queue xw4 \<longrightarrow> \<not> st_working st \<and> st_fastSplit st = FastSplit_init \<and> good (st_cubeSource st) (path (wt xw4))"
      by (rule answered_task [OF w a xw4(1)])
    have "tval w' x = tval w x" using st(1,2) nr w'(2) x xw4(2) by (simp add: tval_def sw path_of_def)
    with st nr w'(2) xw4 show ?thesis by (simp add: task_inv_def)
  qed
  have q: "tasksWaitingForWorkerQueue s' = q" "tasksWaitingForWorkerQueue (sw_store w) = r # q"
    using a s'(2) by (simp_all add: answered_def still_running_def)
  from a obtain tw tw4 where tw: "heap (sw_store w) r = Some tw"
    "heap (sw_store w4) = (heap (sw_store w))(r \<mapsto> tw4)" "path (wt tw4) = path (wt tw)"
    unfolding answered_def by blast
  have po: "path_of s' x = path_of (sw_store w) x" if "x \<in> set q" for x
  proof -
    have "queue_ok (heap s') q (tasksWaitingForWorkerQueueSize s')"
      using store_inv_queue [of sat_assess s'] s'(2) q(1) by (simp add: still_running_def)
    from queue_live [OF this that] obtain xw where xw: "heap s' x = Some xw" by blast
    with live [OF this] tw show ?thesis by (auto simp: path_of_def split: if_splits)
  qed
  have e: "wsum D c (sw_store w) = 2 ^ (D + 1 - path_depth (path (wt tw))) - c + wsum D c s'" for c
  proof -
    have "wsum D c s' = sum_list (map (\<lambda>x. 2 ^ (D + 1 - path_depth (path_of (sw_store w) x)) - c) q)"
      by (rule wsum_cong [OF q(1)]) (rule po)
    then show ?thesis using tw(1) by (simp add: wsum_def [of _ _ "sw_store w"] q(2)) (simp add: path_of_def)
  qed
  have "path_depth (path (wt tw)) \<le> D" using w tw(1) by (simp add: world_inv_def task_inv_def)
  then have "(2 :: nat) ^ 1 \<le> 2 ^ (D + 1 - path_depth (path (wt tw)))" by (intro power_increasing) auto
  then have lt: "wsum D 1 s' < wsum D 1 (sw_store w)" using e [of 1] by simp
  have "length (tasks s') \<le> length (tasks (sw_store w4))"
    using s' a tasks_card [of s'] tasks_card [of "sw_store w4"] finite_dom [of "sw_store w4"]
    by (auto simp: shrunk_def still_running_def answered_def intro: card_mono)
  then have "fits D s'" using e [of 2] w a by (simp add: fits_def world_inv_def store_run_def answered_def)
  then have run: "store_run s'"
    using s'(2) w a by (simp add: store_run_def still_running_def answered_def world_inv_def store_same_def)
  have "tree_ok (heap s') (tval w') rt {}"
    unfolding tree_ok_def
  proof (intro allI impI)
    fix x xw
    assume x: "heap s' x = Some xw"
    have t: "tree_ok (heap s') (tval w) rt {}" using s'(2) by (simp add: still_running_def)
    have l: "links_ok (heap s')" using s'(2) by (simp add: still_running_def store_inv_def)
    have "inner_task (heap s') (tval w') x xw" if "inner_task (heap s') (tval w) x xw"
    proof (rule inner_task_cong [OF that])
      fix c
      assume "c = x \<or> kid (wt xw) c"
      then obtain cw where "heap s' c = Some cw" using l x unfolding links_ok_def by blast
      then show "tval w' c = tval w c" using live by blast
    qed auto
    with tree_okD [OF t x] show "own_task rt x (wt xw) \<and> (if x \<in> {} then \<forall>c. \<not> kid (wt xw) c
        else leaf_task xw \<or> inner_task (heap s') (tval w') x xw)" by auto
  qed
  moreover have "manager_inv K w'"
    using w a w'(1,3) by (simp add: manager_inv_def world_inv_def answered_def manager_same_def solver_same_def)
  moreover have "rt \<in> dom (heap s')" using s'(2) by (simp add: still_running_def)
  ultimately show ?thesis using run live lt by (auto simp: world_inv_def sw)
qed

lemma round_unsat:
  assumes w: "world_inv K rt w" and a: "answered False w r q rt w4" and fuel: "D < fuel"
  shows "\<exists>w'. store_op av (assess_task fuel r) w4 = Some w' \<and>
    (exit_status (sw_store w') = PARAC_UNSAT \<and> \<not> tval w rt \<or>
     world_inv K rt w' \<and> tval w' rt = tval w rt \<and> wsum D 1 (sw_store w') < wsum D 1 (sw_store w))"
proof -
  let ?s = "sw_store w4"
  obtain tw4 where t: "heap ?s r = Some tw4" "leaf_solved PARAC_UNSAT rt r tw4"
    "tree_ok (heap ?s) (tval w) rt {r}" "path_depth (path (wt tw4)) \<le> D"
    "has_input_file ?s" "exit_status ?s = PARAC_UNDEFINED" "store_inv ?s" "\<not> tval w r"
    using answered_tree [OF w a] by auto
  obtain k where k: "fuel = Suc k" "D \<le> k" using fuel by (cases fuel) auto
  have d: "\<not> in_work_queue tw4" "decided PARAC_UNSAT (wt tw4)" "path_depth (path (wt tw4)) \<le> k"
    using t(2,4) k(2) leaf_decided [OF t(2)] by (simp_all add: leaf_solved_def)
  from climb_unsat [OF t(7,1) d(1,2) t(3,8,5,6) refl d(3)] obtain s' L rs where
    s': "call (Suc k) (Assess True True r) ?s = Some s'" "called (chain_calls L rs) ?s s'" "shrunk ?s s' rs"
    "\<forall>x \<in> L. learnable (tval w) ?s x"
    "exit_status s' = PARAC_UNSAT \<and> \<not> tval w rt \<or> still_running (tval w) rt ?s s'" by blast
  have "assess_task fuel r ?s = Some s'" using s'(1) k by (simp add: assess_task_def del: call.simps)
  from store_op_called [of "assess_task fuel r", OF this s'(2)]
  have e: "store_op av (assess_task fuel r) w4 = solver_calls av (path_of ?s) (chain_calls L rs) (w4\<lparr>sw_store := s'\<rparr>)" .
  let ?w5 = "w4\<lparr>sw_store := s'\<rparr>"
  have tc: "task_cube pf ?w5 x = task_cube pf w4 x" for pf x by (simp add: task_cube_def)
  have dr: "distinct rs" using s'(3) by (simp add: shrunk_def)
  have sn: "solverTasks ?w5 x \<noteq> None" if "x \<in> set rs" for x
  proof -
    from that s'(3) obtain xw where "heap ?s x = Some xw" by (auto simp: shrunk_def)
    from answered_task [OF w a this] show ?thesis by auto
  qed
  have cn: "\<exists>c. task_cube (path_of ?s) ?w5 x = Some c \<and> c \<noteq> []" if "x \<in> L" for x
    using s'(4) that learnable_cube [OF w a, of x] unfolding tc by metis
  from chain_calls_run [OF dr sn cn, where av = av] obtain w' where
    w': "solver_calls av (path_of ?s) (chain_calls L rs) ?w5 = Some w'" "solver_same ?w5 w'"
    "solverTasks w' = (\<lambda>x. if x \<in> set rs then None else solverTasks ?w5 x)"
    "\<forall>cl \<in> set (learnedClauses w'). cl \<in> set (learnedClauses ?w5) \<or>
         (\<exists>x c. x \<in> L \<and> task_cube (path_of ?s) ?w5 x = Some c \<and> cl = negated_cube c)" by blast
  have c4: "clauses_ok F w4"
    using w a clauses_ok_manager [of F w w4] by (simp add: world_inv_def manager_inv_def answered_def)
  have "cl \<noteq> [] \<and> implied F cl" if "cl \<in> set (learnedClauses w')" for cl
  proof -
    from w'(4) that consider "cl \<in> set (learnedClauses w4)"
      | x c where "x \<in> L" "task_cube (path_of ?s) w4 x = Some c" "cl = negated_cube c" by (auto simp: tc)
    then show ?thesis
    proof cases
      case 1
      with c4 show ?thesis by (simp add: clauses_ok_def)
    next
      case 2
      with s'(4) learnable_cube [OF w a, of x] negated_nonempty show ?thesis by (metis option.inject)
    qed
  qed
  with c4 w'(2) have "clauses_ok F w'" by (simp add: clauses_ok_def solver_same_def)
  moreover have "sw_store w' = s'" using w'(2) by (simp add: solver_same_def)
  moreover have "solverTasks w' = (\<lambda>x. if x \<in> set rs then None else solverTasks w4 x)"
    by (auto simp: w'(3) fun_eq_iff)
  ultimately show ?thesis
    using e w'(1,2) s'(5) shrunk_world [OF w a s'(3), of w'] by metis
qed

end

section \<open>Splitting a task\<close>

text \<open>Assessing a new task puts it into the waiting queue.\<close>

lemma insert_eq:
  assumes inv: "store_inv s" and tw: "heap s r = Some tw"
  obtains s' q1 q2 where "insert_into_tasksWaitingForWorkerQueue r s = Some s'"
    "heap s' = (heap s)(r \<mapsto> tw\<lparr>wt := (wt tw)\<lparr>state := state (wt tw) OR PARAC_TASK_WORK_AVAILABLE\<rparr>, in_work_queue := True\<rparr>)"
    "tasksWaitingForWorkerQueue s = q1 @ q2" "tasksWaitingForWorkerQueue s' = q1 @ r # q2"
    "tasks s' = tasks s" "store_same s s'" "called [] s s'"
proof -
  let ?q = "tasksWaitingForWorkerQueue s"
  let ?s = "s\<lparr>heap := (heap s)(r \<mapsto> tw\<lparr>wt := (wt tw)\<lparr>state := state (wt tw) OR PARAC_TASK_WORK_AVAILABLE\<rparr>\<rparr>)\<rparr>"
  have "get_task x ?s = Some (the (get_task x ?s))" if "x \<in> set ?q" for x
    using queue_live [OF store_inv_queue [OF inv] that] by (cases "x = r") (auto simp: get_task_def)
  then have "opt_list (map (\<lambda>x. get_task x ?s) ?q) = Some (map (\<lambda>x. the (get_task x ?s)) ?q)"
    by (rule opt_list_map_Some)
  then have "\<exists>s' i. insert_into_tasksWaitingForWorkerQueue r s = Some s' \<and>
    heap s' = (heap s)(r \<mapsto> tw\<lparr>wt := (wt tw)\<lparr>state := state (wt tw) OR PARAC_TASK_WORK_AVAILABLE\<rparr>, in_work_queue := True\<rparr>)
    \<and> tasksWaitingForWorkerQueue s' = insert_at i r ?q \<and> tasks s' = tasks s \<and> store_same s s' \<and> called [] s s'"
    using tw by (simp add: insert_into_tasksWaitingForWorkerQueue_def Let_def emit_def store_same_def called_def) blast
  then obtain s' i where s': "insert_into_tasksWaitingForWorkerQueue r s = Some s'"
    "heap s' = (heap s)(r \<mapsto> tw\<lparr>wt := (wt tw)\<lparr>state := state (wt tw) OR PARAC_TASK_WORK_AVAILABLE\<rparr>, in_work_queue := True\<rparr>)"
    "tasksWaitingForWorkerQueue s' = insert_at i r ?q" "tasks s' = tasks s" "store_same s s'" "called [] s s'" by blast
  show thesis by (rule that [OF s'(1,2) _ _ s'(4-6), of "take i ?q" "drop i ?q"]) (simp_all add: s'(3) insert_at_def)
qed

lemma enqueue_eq:
  assumes inv: "store_inv s" and tw: "heap s c = Some cw" "\<not> in_work_queue cw" "own_task rt c (wt cw)"
    "state (wt cw) = PARAC_TASK_WORK_AVAILABLE" "result (wt cw) = PARAC_PENDING"
    "last_state (wt cw) = PARAC_TASK_NEW"
  obtains s' q1 q2 where "assess_task (Suc n) c s = Some s'" "store_inv s'"
    "heap s' = (heap s)(c \<mapsto> cw\<lparr>in_work_queue := True, wt := (wt cw)\<lparr>last_state := PARAC_TASK_WORK_AVAILABLE\<rparr>\<rparr>)"
    "tasksWaitingForWorkerQueue s = q1 @ q2" "tasksWaitingForWorkerQueue s' = q1 @ c # q2"
    "tasks s' = tasks s" "store_same s s'" "called [] s s'"
proof -
  have a: "assessed (wt cw) = wt cw" using tw(4,5) by (simp add: assessed_def state_bits)
  have wa: "PARAC_TASK_WORK_AVAILABLE OR PARAC_TASK_WORK_AVAILABLE = PARAC_TASK_WORK_AVAILABLE" by simp
  have st: "st_has PARAC_TASK_WORK_AVAILABLE PARAC_TASK_WORK_AVAILABLE" "\<not> st_has PARAC_TASK_WORK_AVAILABLE PARAC_TASK_DONE"
    "\<not> st_has PARAC_TASK_WORK_AVAILABLE PARAC_TASK_WAITING_FOR_SPLITS" "\<not> parac_task_state_is_done PARAC_TASK_WORK_AVAILABLE"
    "\<not> st_has PARAC_TASK_WORK_AVAILABLE PARAC_TASK_SPLITTED"
    by (simp_all add: state_bits is_done_bits)
  have nl: "\<not> learns (distribute_max_level s) (wt cw)" using tw(5) by (simp add: learns_def)
  obtain f where f: "assess (wt cw) = Some f" "run_assess f (\<lambda>r. call n (Terminate r)) c s = Some (state (wt cw), s)"
    using run_assess_total [OF tw(1), of "\<lambda>r. call n (Terminate r)"] tw own_assess_task [OF tw(3)] a nl
    by (auto simp: own_task_def fun_upd_idem)
  have unk: "path (wt cw) \<noteq> PARAC_PATH_EXPLICITLY_UNKNOWN"
    using tw(3) by (intro path_ok_not_unknown) (simp add: own_task_def path_ok_def)
  obtain s1 q1 q2 where s1: "insert_into_tasksWaitingForWorkerQueue c s = Some s1"
    "heap s1 = (heap s)(c \<mapsto> cw\<lparr>wt := (wt cw)\<lparr>state := state (wt cw) OR PARAC_TASK_WORK_AVAILABLE\<rparr>, in_work_queue := True\<rparr>)"
    "tasksWaitingForWorkerQueue s = q1 @ q2" "tasksWaitingForWorkerQueue s1 = q1 @ c # q2"
    "tasks s1 = tasks s" "store_same s s1" "called [] s s1"
    by (rule insert_eq [OF inv tw(1)])
  let ?cw = "cw\<lparr>in_work_queue := True, wt := (wt cw)\<lparr>last_state := PARAC_TASK_WORK_AVAILABLE\<rparr>\<rparr>"
  have same: "(wt cw)\<lparr>state := PARAC_TASK_WORK_AVAILABLE\<rparr> = wt cw" using tw(4) by (cases "wt cw") simp
  have h1: "heap s1 c = Some (cw\<lparr>in_work_queue := True\<rparr>)"
    using s1(2) tw(4) same by simp
  let ?s = "s1\<lparr>heap := (heap s1)(c \<mapsto> ?cw)\<rparr>"
  have as: "assess_task (Suc n) c s = Some ?s"
    using f unk st s1(1) h1 tw same
    by (simp add: assess_task_def assess_task_body_def assess_not_done_def upd_task_iff fun_upd_idem)
  have ab: "assessable cw" using tw(2,4,5) st by (simp add: assessable_def)
  have "store_inv ?s" using store_step_inv [OF store_step.assess [OF tw(1) ab as] inv] .
  with as s1 that show thesis by (simp add: store_same_def called_def)
qed

text \<open>The new child of a split task.\<close>

lemma new_child_eq:
  assumes inv: "store_inv s" and fc: "fresh_child s a p np" and pw: "heap s p = Some pw"
  obtains s' where "newTask a (Some p) np orig s = Some (Some a, s')" "store_inv s'"
    "heap s' = (heap s)(p \<mapsto> with_child a np pw,
       a \<mapsto> \<lparr>wt = fresh_task (Some p) np orig, refcount = 0, in_work_queue = False\<rparr>)"
    "tasksWaitingForWorkerQueue s' = tasksWaitingForWorkerQueue s" "tasks s' = a # tasks s" "store_same s s'"
proof -
  obtain s' where s': "newTask a (Some p) np orig s = Some (Some a, s')"
    "core s' = ((heap s)(p \<mapsto> with_child a np pw,
         a \<mapsto> \<lparr>wt = fresh_task (Some p) np orig, refcount = 0, in_work_queue = False\<rparr>),
       a # tasks s, tasksWaitingForWorkerQueue s, tasksWaitingForWorkerQueueSize s)"
    "exit_status s' = exit_status s" "has_input_file s' = has_input_file s"
    "distribute_max_level s' = distribute_max_level s"
    using new_child_core [OF fc pw, of orig] by blast
  have i: "store_inv s'" by (rule new_child_inv(1) [OF inv fc s'(1)])
  show thesis by (rule that [OF s'(1) i]) (use s' in \<open>simp_all add: core_def store_same_def\<close>)
qed

text \<open>The record of a task made by \<^verbatim>\<open>SolverTask::create\<close>.\<close>

definition solver_child :: "task_ref \<Rightarrow> task_ref \<Rightarrow> parac_path \<Rightarrow> parac_id \<Rightarrow> source \<Rightarrow> parac_task" where
  "solver_child p c np orig src = (fresh_task (Some p) np orig)\<lparr>pre_path_sorting_critereon := prePathSortingCritereon src,
     state := PARAC_TASK_WORK_AVAILABLE, has_work := True, has_serialize := True,
     userdata := Some c, assess := Some SolverTaskAssess, has_free_userdata := True\<rparr>"

lemma solver_child_facts:
  "state (solver_child p c np orig src) = PARAC_TASK_WORK_AVAILABLE" "result (solver_child p c np orig src) = PARAC_PENDING"
  "last_state (solver_child p c np orig src) = PARAC_TASK_NEW" "path (solver_child p c np orig src) = np"
  "slot0 (solver_child p c np orig src) = SlotNull" "slot1 (solver_child p c np orig src) = SlotNull"
  "has_work (solver_child p c np orig src)" "parent_task (solver_child p c np orig src) = Some p"
  "same_links (fresh_task (Some p) np orig) (solver_child p c np orig src)"
  "ordinary np \<Longrightarrow> c \<noteq> rt \<Longrightarrow> own_task rt c (solver_child p c np orig src)"
  by (simp_all add: solver_child_def fresh_task_def parac_task_init_def own_task_def same_links_def
      local_parent_def parent_state_def st_has_def task_state_defs)

definition new_solver_task :: "source \<Rightarrow> solver_task" where
  "new_solver_task src = \<lparr>st_cubeSource = src, st_fastSplit = FastSplit_init, st_working = False, st_serialized = False\<rparr>"

lemma create_eq:
  assumes "heap (sw_store w) c = Some cw" "wt cw = fresh_task (Some p) np orig"
  shows "\<exists>w'. SolverTask_create c src w = Some w'
    \<and> sw_store w' = (sw_store w)\<lparr>heap := (heap (sw_store w))(c \<mapsto> cw\<lparr>wt := solver_child p c np orig src\<rparr>)\<rparr>
    \<and> solverTasks w' = (solverTasks w)(c \<mapsto> new_solver_task src) \<and> manager_same w w'"
  using assms
  by (simp add: SolverTask_create_def SolverTask_init_def addWaitingSolverTask_def manager_same_def
      solver_child_def new_solver_task_def)

lemma store_op_no_calls:
  assumes "f (sw_store w) = Some s'" "called [] (sw_store w) s'"
  shows "store_op av f w = Some (w\<lparr>sw_store := s'\<rparr>)"
  using store_op_called [of f, OF assms] by simp

definition taken :: "bool \<Rightarrow> task_ref \<Rightarrow> parac_task \<Rightarrow> parac_task" where
  "taken side c t = (if side then t\<lparr>slot1 := SlotTask c, right_result := PARAC_PENDING\<rparr>
     else t\<lparr>slot0 := SlotTask c, left_result := PARAC_PENDING\<rparr>)"

lemma split_fresh:
  assumes "heap s r = Some tw" "parent_state (wt tw)" "own_task rt r (wt tw)" "path_depth (path (wt tw)) < 58"
    and "(if side then slot1 (wt tw) else slot0 (wt tw)) = SlotNull"
    and "parac_path_get_next (path (wt tw)) side = Some np" "heap s c = None"
  shows "fresh_child s c r np" "ordinary np" "path_depth np = Suc (path_depth (path (wt tw)))"
    "wt (with_child c np tw) = (if side then (wt tw)\<lparr>slot1 := SlotTask c\<rparr> else (wt tw)\<lparr>slot0 := SlotTask c\<rparr>)"
    "in_work_queue (with_child c np tw) = in_work_queue tw"
proof -
  have o: "ordinary (path (wt tw))" using assms(3) by (simp add: own_task_def)
  obtain l rp where lr: "parac_path_get_next_left (path (wt tw)) = Some l"
    "parac_path_get_next_right (path (wt tw)) = Some rp" "l \<noteq> rp"
    "ordinary l" "ordinary rp" "path_depth l = Suc (path_depth (path (wt tw)))" "path_depth rp = Suc (path_depth (path (wt tw)))"
    by (rule child_sides [OF o assms(4)])
  have np: "np = (if side then rp else l)"
    using lr(1,2) assms(6) by (cases side) (simp_all add: parac_path_get_next_left_def parac_path_get_next_right_def)
  show "ordinary np" "path_depth np = Suc (path_depth (path (wt tw)))" using np lr by simp_all
  then have "\<not> parac_path_is_extended np" by (intro ordinary_not_tagged(2))
  with np lr assms show "fresh_child s c r np" by (auto simp: fresh_child_def own_task_def)
  show "wt (with_child c np tw) = (if side then (wt tw)\<lparr>slot1 := SlotTask c\<rparr> else (wt tw)\<lparr>slot0 := SlotTask c\<rparr>)"
    "in_work_queue (with_child c np tw) = in_work_queue tw"
    using np lr(1,3) by (simp_all add: with_child_def)
qed

lemma split_side_eq:
  assumes inv: "store_inv (sw_store w)" and tw: "heap (sw_store w) r = Some tw" "\<not> in_work_queue tw"
    "parent_state (wt tw)" "own_task rt r (wt tw)" "path_depth (path (wt tw)) < 58"
    and sl: "(if side then slot1 (wt tw) else slot0 (wt tw)) = SlotNull"
    and np: "parac_path_get_next (path (wt tw)) side = Some np"
    and c: "heap (sw_store w) (env_alloc env (sw_store w)) = None" and rt: "rt \<in> dom (heap (sw_store w))"
  obtains w' c tw' cw q1 q2 where "split_side env (Suc n) r side src w = Some (True, w')" "store_inv (sw_store w')"
    "heap (sw_store w) c = None" "heap (sw_store w') = (heap (sw_store w))(r \<mapsto> tw', c \<mapsto> cw)"
    "\<not> in_work_queue tw'" "wt tw' = taken side c (wt tw)" "leaf_task cw" "own_task rt c (wt cw)" "path (wt cw) = np"
    "tasksWaitingForWorkerQueue (sw_store w) = q1 @ q2" "tasksWaitingForWorkerQueue (sw_store w') = q1 @ c # q2"
    "tasks (sw_store w') = c # tasks (sw_store w)" "store_same (sw_store w) (sw_store w')"
    "solverTasks w' = (solverTasks w)(c \<mapsto> new_solver_task src)" "manager_same w w'"
proof -
  define c where "c = env_alloc env (sw_store w)"
  have c': "heap (sw_store w) c = None" using c by (simp add: c_def)
  note fc = split_fresh [OF tw(1,3,4,5) sl np c']
  have cr: "c \<noteq> r" "c \<noteq> rt" using c' tw(1) rt by auto
  let ?orig = "originator (wt tw)"
  let ?c0 = "\<lparr>wt = fresh_task (Some r) np ?orig, refcount = 0, in_work_queue = False\<rparr> :: task_wrapper"
  let ?sc = "solver_child r c np ?orig src"
  obtain s1 where s1: "newTask c (Some r) np ?orig (sw_store w) = Some (Some c, s1)" "store_inv s1"
    "heap s1 = (heap (sw_store w))(r \<mapsto> with_child c np tw, c \<mapsto> ?c0)"
    "tasksWaitingForWorkerQueue s1 = tasksWaitingForWorkerQueue (sw_store w)" "tasks s1 = c # tasks (sw_store w)"
    "store_same (sw_store w) s1"
    by (rule new_child_eq [OF inv fc(1) tw(1)])
  let ?w1 = "w\<lparr>sw_store := s1\<rparr>"
  have h1: "heap s1 c = Some ?c0" by (simp add: s1(3))
  obtain w2 where w2: "SolverTask_create c src ?w1 = Some w2" "sw_store w2 = s1\<lparr>heap := (heap s1)(c \<mapsto> ?c0\<lparr>wt := ?sc\<rparr>)\<rparr>"
    "solverTasks w2 = (solverTasks w)(c \<mapsto> new_solver_task src)" "manager_same w w2"
    using create_eq [of ?w1 c ?c0 r np ?orig src] h1 by (auto simp: manager_same_def)
  have i2: "store_inv (sw_store w2)"
    unfolding w2(2) by (rule client_inv [OF s1(2) h1]) (simp_all add: solver_child_facts)
  let ?tw' = "(with_child c np tw)\<lparr>wt := taken side c (wt tw)\<rparr>"
  have h2: "heap (sw_store w2) r = Some (with_child c np tw)" using cr(1) by (simp add: w2(2) s1(3))
  let ?f = "\<lambda>t. if side then t\<lparr>right_result := PARAC_PENDING\<rparr> else t\<lparr>left_result := PARAC_PENDING\<rparr>"
  have f: "?f (wt (with_child c np tw)) = taken side c (wt tw)" by (simp add: fc(4) taken_def)
  define w3 where "w3 = w2\<lparr>sw_store := (sw_store w2)\<lparr>heap := (heap (sw_store w2))(r \<mapsto> ?tw')\<rparr>\<rparr>"
  have op: "task_op r ?f w2 = Some w3" unfolding task_op_eq [OF h2] f w3_def ..
  have nq: "\<not> in_work_queue (with_child c np tw)" using fc(5) tw(2) by simp
  have i3: "store_inv (sw_store w3)"
  proof -
    have "same_links (wt (with_child c np tw)) (taken side c (wt tw))"
      by (simp add: fc(4) taken_def same_links_def parent_state_def)
    from client_inv [OF i2 h2 nq this] show ?thesis by (simp add: w3_def)
  qed
  have h3: "heap (sw_store w3) c = Some (?c0\<lparr>wt := ?sc\<rparr>)" using cr(1) by (simp add: w3_def w2(2))
  let ?cw = "\<lparr>wt = ?sc\<lparr>last_state := PARAC_TASK_WORK_AVAILABLE\<rparr>, refcount = 0, in_work_queue = True\<rparr> :: task_wrapper"
  obtain s4 q1 q2 where s4: "assess_task (Suc n) c (sw_store w3) = Some s4" "store_inv s4"
    "heap s4 = (heap (sw_store w3))(c \<mapsto> ?cw)"
    "tasksWaitingForWorkerQueue (sw_store w3) = q1 @ q2" "tasksWaitingForWorkerQueue s4 = q1 @ c # q2"
    "tasks s4 = tasks (sw_store w3)" "store_same (sw_store w3) s4" "called [] (sw_store w3) s4"
    by (rule enqueue_eq [OF i3 h3, of rt n]) (use fc(2) cr(2) in \<open>simp_all add: solver_child_facts\<close>)
  let ?w4 = "w3\<lparr>sw_store := s4\<rparr>"
  have op4: "store_op (env_available env) (assess_task (Suc n) c) w3 = Some ?w4"
    by (rule store_op_no_calls [of "assess_task (Suc n) c", OF s4(1,8)])
  have sp: "split_side env (Suc n) r side src w = Some (True, ?w4)"
    using tw(1) np s1(1) w2(1) op op4 by (simp add: split_side_def c_def)
  have h4: "heap (sw_store ?w4) = (heap (sw_store w))(r \<mapsto> ?tw', c \<mapsto> ?cw)"
    using cr(1) by (simp add: s4(3) w3_def w2(2) s1(3) fun_upd_twist)
  have own: "own_task rt c (wt ?cw)" using fc(2) cr(2) solver_child_facts(10) [of np c rt r ?orig src] by (simp add: own_task_def)
  show thesis
  proof (rule that [OF sp _ c' h4])
    show "leaf_task ?cw" by (simp add: leaf_task_def solver_child_facts)
    show "store_same (sw_store w) (sw_store ?w4)" "tasks (sw_store ?w4) = c # tasks (sw_store w)"
      "tasksWaitingForWorkerQueue (sw_store w) = q1 @ q2"
      using s4(4,6,7) s1(4-6) by (simp_all add: w3_def w2(2) store_same_def)
  qed (use s4 nq own w2(3,4) in \<open>simp_all add: solver_child_facts w3_def manager_same_def\<close>)
qed

text \<open>The world while task \<open>r\<close> is being split: \<open>cs\<close> are its new children.\<close>

definition new_leaf :: "(source \<Rightarrow> parac_path \<Rightarrow> bool) \<Rightarrow> task_ref \<Rightarrow> nat \<Rightarrow> solver_world \<Rightarrow> task_ref \<Rightarrow> bool" where
  "new_leaf good rt d w x \<longleftrightarrow> (\<exists>cw src. heap (sw_store w) x = Some cw \<and> leaf_task cw \<and> own_task rt x (wt cw)
     \<and> path_depth (path (wt cw)) = Suc d \<and> solverTasks w x = Some (new_solver_task src) \<and> good src (path (wt cw)))"

definition grown ::
  "(source \<Rightarrow> parac_path \<Rightarrow> bool) \<Rightarrow> task_ref \<Rightarrow> nat \<Rightarrow> solver_world \<Rightarrow> task_ref \<Rightarrow> task_ref list \<Rightarrow> solver_world \<Rightarrow> bool" where
  "grown good rt d w r cs w' \<longleftrightarrow> store_inv (sw_store w') \<and> store_same (sw_store w) (sw_store w') \<and> manager_same w w'
     \<and> set cs \<inter> dom (heap (sw_store w)) = {} \<and> tasks (sw_store w') = cs @ tasks (sw_store w)
     \<and> (\<forall>f. sum_list (map f (tasksWaitingForWorkerQueue (sw_store w')))
          = (sum_list (map f cs) + sum_list (map f (tasksWaitingForWorkerQueue (sw_store w))) :: nat))
     \<and> (\<forall>x. x \<notin> set cs \<longrightarrow> x \<noteq> r \<longrightarrow> heap (sw_store w') x = heap (sw_store w) x \<and> solverTasks w' x = solverTasks w x)
     \<and> (\<forall>x \<in> set cs. new_leaf good rt d w' x)"

lemma grown_dom:
  assumes "grown good rt d w r cs w1" "store_inv (sw_store w)"
  shows "set cs \<union> dom (heap (sw_store w)) = dom (heap (sw_store w1))"
proof -
  have "set (tasks (sw_store w1)) = dom (heap (sw_store w1))" "set (tasks (sw_store w)) = dom (heap (sw_store w))"
    "tasks (sw_store w1) = cs @ tasks (sw_store w)"
    using assms unfolding grown_def store_inv_def tasks_ok_def by blast+
  then show ?thesis by (metis set_append)
qed

lemma grown_side:
  assumes g: "grown good rt d w r cs w1" and inv: "store_inv (sw_store w)" and r: "r \<in> dom (heap (sw_store w))"
    and w': "store_inv (sw_store w')" "heap (sw_store w1) c = None" "heap (sw_store w') = (heap (sw_store w1))(r \<mapsto> tw', c \<mapsto> cw)"
    "leaf_task cw" "own_task rt c (wt cw)" "path_depth (path (wt cw)) = Suc d"
    "tasksWaitingForWorkerQueue (sw_store w1) = q1 @ q2" "tasksWaitingForWorkerQueue (sw_store w') = q1 @ c # q2"
    "tasks (sw_store w') = c # tasks (sw_store w1)" "store_same (sw_store w1) (sw_store w')"
    "solverTasks w' = (solverTasks w1)(c \<mapsto> new_solver_task src)" "manager_same w1 w'" "good src (path (wt cw))"
  shows "grown good rt d w r (c # cs) w'"
proof -
  note g' = g [unfolded grown_def]
  have "set cs \<union> dom (heap (sw_store w)) = dom (heap (sw_store w1))" by (rule grown_dom [OF g inv])
  with w'(2) r have cr: "c \<noteq> r" "c \<notin> set cs" "c \<notin> dom (heap (sw_store w))" by blast+
  have "new_leaf good rt d w' x" if "x \<in> set (c # cs)" for x
  proof (cases "x = c")
    case True
    with w' show ?thesis by (auto simp: new_leaf_def)
  next
    case False
    with that g' have n: "new_leaf good rt d w1 x" by simp
    have "x \<noteq> r" using that False g' r by auto
    with n False w'(3,11) show ?thesis by (simp add: new_leaf_def)
  qed
  moreover have "store_same (sw_store w) (sw_store w')" using g' w'(10) by (simp add: store_same_def)
  moreover have "manager_same w w'" using g' manager_same_trans w'(12) by blast
  moreover have "sum_list (map f (tasksWaitingForWorkerQueue (sw_store w')))
      = (sum_list (map f (c # cs)) + sum_list (map f (tasksWaitingForWorkerQueue (sw_store w))) :: nat)" for f
  proof -
    have "sum_list (map f (tasksWaitingForWorkerQueue (sw_store w1)))
      = (sum_list (map f cs) + sum_list (map f (tasksWaitingForWorkerQueue (sw_store w))) :: nat)" using g' by blast
    then show ?thesis by (simp add: w'(7,8))
  qed
  ultimately show ?thesis using g' w'(1,3,9,11) cr unfolding grown_def by auto
qed

text \<open>Writing to the fields of the task that is split.\<close>

definition set_task :: "task_ref \<Rightarrow> task_wrapper \<Rightarrow> parac_task \<Rightarrow> solver_world \<Rightarrow> solver_world" where
  "set_task r tw t w = w\<lparr>sw_store := (sw_store w)\<lparr>heap := (heap (sw_store w))(r \<mapsto> tw\<lparr>wt := t\<rparr>)\<rparr>\<rparr>"

lemma set_task_simps [simp]:
  "heap (sw_store (set_task r tw t w)) = (heap (sw_store w))(r \<mapsto> tw\<lparr>wt := t\<rparr>)"
  "solverTasks (set_task r tw t w) = solverTasks w"
  "tasksWaitingForWorkerQueue (sw_store (set_task r tw t w)) = tasksWaitingForWorkerQueue (sw_store w)"
  "tasks (sw_store (set_task r tw t w)) = tasks (sw_store w)"
  by (simp_all add: set_task_def)

lemma task_op_set: "heap (sw_store w) r = Some tw \<Longrightarrow> task_op r f w = Some (set_task r tw (f (wt tw)) w)"
  by (simp add: task_op_eq set_task_def)

lemma grown_set:
  assumes g: "grown good rt d w r cs w1" and r: "r \<in> dom (heap (sw_store w))"
    and tw: "heap (sw_store w1) r = Some tw" "\<not> in_work_queue tw" "same_links (wt tw) t"
  shows "grown good rt d w r cs (set_task r tw t w1)"
proof -
  note g' = g [unfolded grown_def]
  have i: "store_inv (sw_store (set_task r tw t w1))"
    using client_inv [OF _ tw(1,2,3)] g' by (simp add: set_task_def)
  have s: "store_same (sw_store w) (sw_store (set_task r tw t w1))" "manager_same w (set_task r tw t w1)"
    using g' by (simp_all add: set_task_def store_same_def manager_same_def)
  have "new_leaf good rt d (set_task r tw t w1) x" if "x \<in> set cs" for x
  proof -
    have "x \<noteq> r" using that g' r by auto
    with that g' show ?thesis by (simp add: new_leaf_def)
  qed
  with g' i s show ?thesis by (simp add: grown_def)
qed

text \<open>One side of the split, taken or not.\<close>

definition one_side :: "work_env \<Rightarrow> nat \<Rightarrow> task_ref \<Rightarrow> bool \<Rightarrow> bool \<Rightarrow> source \<Rightarrow> solver_world \<Rightarrow> (bool \<times> solver_world) option" where
  "one_side env fuel r side b src w = (if b then split_side env fuel r side src w
     else do { w \<leftarrow> skip_side r side w; Some (True, w) })"

definition side_done :: "bool \<Rightarrow> task_ref option \<Rightarrow> parac_task \<Rightarrow> parac_task" where
  "side_done side c t = (case c of Some x \<Rightarrow> taken side x t
     | None \<Rightarrow> if side then t\<lparr>right_result := PARAC_UNSAT\<rparr> else t\<lparr>left_result := PARAC_UNSAT\<rparr>)"

lemma one_side_eq:
  assumes g: "grown good rt d w r cs w1" and w: "store_inv (sw_store w)" "r \<in> dom (heap (sw_store w))" "rt \<in> dom (heap (sw_store w))"
    and tw: "heap (sw_store w1) r = Some tw" "\<not> in_work_queue tw" "parent_state (wt tw)" "own_task rt r (wt tw)"
      "path_depth (path (wt tw)) = d" "d < 58"
    and sl: "(if side then slot1 (wt tw) else slot0 (wt tw)) = SlotNull"
    and np: "parac_path_get_next (path (wt tw)) side = Some np"
    and c: "heap (sw_store w1) (env_alloc env (sw_store w1)) = None" and good: "b \<longrightarrow> good src np"
  obtains w' c tw' where "one_side env (Suc n) r side b src w1 = Some (True, w')"
    "grown good rt d w r (case c of None \<Rightarrow> cs | Some x \<Rightarrow> x # cs) w'"
    "heap (sw_store w') r = Some tw'" "\<not> in_work_queue tw'" "wt tw' = side_done side c (wt tw)"
    "solverTasks w' r = solverTasks w1 r" "c = None \<longleftrightarrow> \<not> b"
    "\<forall>x. c = Some x \<longrightarrow> solverTasks w' x = Some (new_solver_task src) \<and> (\<exists>cw. heap (sw_store w') x = Some cw \<and> path (wt cw) = np)"
    "\<forall>x. heap (sw_store w1) x \<noteq> None \<longrightarrow> x \<noteq> r \<longrightarrow> heap (sw_store w') x = heap (sw_store w1) x \<and> solverTasks w' x = solverTasks w1 x"
proof (cases b)
  case True
  note g' = g [unfolded grown_def]
  have "set cs \<union> dom (heap (sw_store w)) = dom (heap (sw_store w1))" by (rule grown_dom [OF g w(1)])
  then have rt: "rt \<in> dom (heap (sw_store w1))" using w(3) by blast
  have i1: "store_inv (sw_store w1)" and d: "path_depth (path (wt tw)) < 58" using g' tw(5,6) by auto
  obtain w' x tw' cw q1 q2 where w': "split_side env (Suc n) r side src w1 = Some (True, w')" "store_inv (sw_store w')"
    "heap (sw_store w1) x = None" "heap (sw_store w') = (heap (sw_store w1))(r \<mapsto> tw', x \<mapsto> cw)"
    "\<not> in_work_queue tw'" "wt tw' = taken side x (wt tw)" "leaf_task cw" "own_task rt x (wt cw)" "path (wt cw) = np"
    "tasksWaitingForWorkerQueue (sw_store w1) = q1 @ q2" "tasksWaitingForWorkerQueue (sw_store w') = q1 @ x # q2"
    "tasks (sw_store w') = x # tasks (sw_store w1)" "store_same (sw_store w1) (sw_store w')"
    "solverTasks w' = (solverTasks w1)(x \<mapsto> new_solver_task src)" "manager_same w1 w'"
    by (rule split_side_eq [OF i1 tw(1-4) d sl np c rt, of n src])
  have nd: "path_depth (path (wt cw)) = Suc d"
    using split_fresh(3) [OF tw(1,3,4) d sl np w'(3)] w'(9) tw(5) by simp
  have gd: "good src (path (wt cw))" using good True w'(9) by simp
  have xr: "x \<noteq> r" using w'(3) tw(1) by auto
  show thesis
    by (rule that [of w' "Some x" tw'])
      (use True w' xr grown_side [OF g w(1,2) w'(2,3,4,7,8) nd w'(10,11,12,13,14,15) gd] in
        \<open>simp_all add: one_side_def side_done_def\<close>)
next
  case False
  let ?t = "side_done side None (wt tw)"
  have op: "one_side env (Suc n) r side b src w1 = Some (True, set_task r tw ?t w1)"
    using False by (simp add: one_side_def skip_side_def task_op_set [OF tw(1)] side_done_def)
  have "same_links (wt tw) ?t" by (simp add: side_done_def same_links_def parent_state_def)
  from grown_set [OF g w(2) tw(1,2) this] False tw(2) op show thesis
    by (intro that [of "set_task r tw ?t w1" None "tw\<lparr>wt := ?t\<rparr>"]) simp_all
qed

definition split_state :: parac_task_state where
  "split_state = PARAC_TASK_WORKING OR PARAC_TASK_SPLITTED OR PARAC_TASK_WAITING_FOR_SPLITS"

definition inner_state :: parac_task_state where
  "inner_state = st_without split_state PARAC_TASK_WORKING OR PARAC_TASK_DONE"

lemma split_state_bits:
  "st_has split_state PARAC_TASK_SPLITTED" "\<not> st_has split_state PARAC_TASK_WORK_AVAILABLE"
  "st_has inner_state PARAC_TASK_SPLITTED" "st_has inner_state PARAC_TASK_DONE"
  "\<not> st_has inner_state PARAC_TASK_WORK_AVAILABLE" "\<not> st_has inner_state PARAC_TASK_WORKING"
  "\<not> parac_task_state_is_done inner_state"
  by (simp_all add: split_state_def inner_state_def state_bits is_done_bits)

text \<open>The task after the split: each side has its child, or is unsatisfiable.\<close>

definition split_result :: "task_ref option \<Rightarrow> task_ref option \<Rightarrow> parac_task \<Rightarrow> parac_task \<Rightarrow> bool" where
  "split_result c1 c2 t t' \<longleftrightarrow> worked t t' \<and> state t' = inner_state \<and> result t' = PARAC_PENDING
     \<and> slot0 t' = (case c1 of None \<Rightarrow> SlotNull | Some x \<Rightarrow> SlotTask x)
     \<and> left_result t' = (case c1 of None \<Rightarrow> PARAC_UNSAT | Some x \<Rightarrow> PARAC_PENDING)
     \<and> slot1 t' = (case c2 of None \<Rightarrow> SlotNull | Some x \<Rightarrow> SlotTask x)
     \<and> right_result t' = (case c2 of None \<Rightarrow> PARAC_UNSAT | Some x \<Rightarrow> PARAC_PENDING)"

definition opt_list_of :: "'a option \<Rightarrow> 'a list" where
  "opt_list_of c = (case c of None \<Rightarrow> [] | Some x \<Rightarrow> [x])"

lemma grown_refl: "store_inv (sw_store w) \<Longrightarrow> grown good rt d w r [] w"
  by (simp add: grown_def store_same_def manager_same_def)

lemma after_split:
  assumes tw: "heap (sw_store w) r = Some tw" "state (wt tw) = split_state"
  shows "Worker_after env fuel r (heap (sw_store w) r = None) PARAC_PENDING w =
    Some (set_task r tw ((wt tw)\<lparr>state := inner_state, delete_notification := None\<rparr>) w)"
  using tw split_state_bits(3) by (simp add: Worker_after_def task_op_set set_task_def inner_state_def)

lemma alloc_fresh:
  assumes g: "grown good rt d w r cs w1" and env: "env_ok F env"
    and n: "length cs \<le> 1" "length (tasks (sw_store w)) \<le> 2 ^ 59"
  shows "heap (sw_store w1) (env_alloc env (sw_store w1)) = None"
proof -
  have i: "store_inv (sw_store w1)" and t: "tasks (sw_store w1) = cs @ tasks (sw_store w)"
    using g unfolding grown_def by blast+
  have "length (tasks (sw_store w1)) \<le> 2 ^ 60" using n t by simp
  from fits_not_full [OF i this] env show ?thesis by (simp add: env_ok_def)
qed

lemma split_run:
  assumes w: "store_inv (sw_store w)" "rt \<in> dom (heap (sw_store w))" "length (tasks (sw_store w)) \<le> 2 ^ 59"
    and tw: "heap (sw_store w) r = Some tw" "running r tw0 tw" "own_task rt r (wt tw)"
      "path_depth (path (wt tw)) = d" "d < 58"
    and st: "solverTasks w r = Some st" and env: "env_ok F env"
    and pl: "parac_path_get_next_left (path (wt tw)) = Some pl" "bl \<longrightarrow> good (source_leftChild (st_cubeSource st)) pl"
    and pr: "parac_path_get_next_right (path (wt tw)) = Some pr" "br \<longrightarrow> good (source_rightChild (st_cubeSource st)) pr"
  obtains w' tw' c1 c2 where
    "do { (res, w) \<leftarrow> work_split env (Suc n) r bl br w;
          Worker_after env (Suc n) r (heap (sw_store w) r = None) res w } = Some w'"
    "grown good rt d w r (opt_list_of c2 @ opt_list_of c1) w'"
    "heap (sw_store w') r = Some tw'" "\<not> in_work_queue tw'" "split_result c1 c2 (wt tw) (wt tw')"
    "solverTasks w' r = Some st" "c1 = None \<longleftrightarrow> \<not> bl" "c2 = None \<longleftrightarrow> \<not> br"
    "\<forall>x. c1 = Some x \<longrightarrow> solverTasks w' x = Some (new_solver_task (source_leftChild (st_cubeSource st)))
       \<and> (\<exists>cw. heap (sw_store w') x = Some cw \<and> path (wt cw) = pl)"
    "\<forall>x. c2 = Some x \<longrightarrow> solverTasks w' x = Some (new_solver_task (source_rightChild (st_cubeSource st)))
       \<and> (\<exists>cw. heap (sw_store w') x = Some cw \<and> path (wt cw) = pr)"
proof -
  have rd: "r \<in> dom (heap (sw_store w))" using tw(1) by blast
  let ?t1 = "(wt tw)\<lparr>state := split_state\<rparr>"
  let ?w1 = "set_task r tw ?t1 w"
  note rn = tw(2) [unfolded running_def]
  have op1: "task_op r (\<lambda>t. t\<lparr>state := state t OR PARAC_TASK_SPLITTED OR PARAC_TASK_WAITING_FOR_SPLITS\<rparr>) w = Some ?w1"
    using rn by (simp add: task_op_set [OF tw(1)] split_state_def or.assoc)
  have np: "\<not> parent_state (wt tw)" using rn by (simp add: parent_state_def state_bits)
  have g1: "grown good rt d w r [] ?w1"
    by (rule grown_set [OF grown_refl [OF w(1)] rd tw(1)]) (use rn np in \<open>simp_all add: same_links_def local_parent_def\<close>)
  have t1: "heap (sw_store ?w1) r = Some (tw\<lparr>wt := ?t1\<rparr>)" "\<not> in_work_queue (tw\<lparr>wt := ?t1\<rparr>)" "parent_state ?t1"
    "own_task rt r ?t1" "path ?t1 = path (wt tw)" "slot0 ?t1 = SlotNull" "slot1 ?t1 = SlotNull"
    using rn tw(3) split_state_bits by (simp_all add: parent_state_def own_task_def)
  obtain w2 c1 tw2 where w2: "one_side env (Suc n) r False bl (source_leftChild (st_cubeSource st)) ?w1 = Some (True, w2)"
    "grown good rt d w r (case c1 of None \<Rightarrow> [] | Some x \<Rightarrow> [x]) w2"
    "heap (sw_store w2) r = Some tw2" "\<not> in_work_queue tw2" "wt tw2 = side_done False c1 ?t1"
    "solverTasks w2 r = solverTasks ?w1 r" "c1 = None \<longleftrightarrow> \<not> bl"
    "\<forall>x. c1 = Some x \<longrightarrow> solverTasks w2 x = Some (new_solver_task (source_leftChild (st_cubeSource st)))
       \<and> (\<exists>cw. heap (sw_store w2) x = Some cw \<and> path (wt cw) = pl)"
    "\<forall>x. heap (sw_store ?w1) x \<noteq> None \<longrightarrow> x \<noteq> r \<longrightarrow> heap (sw_store w2) x = heap (sw_store ?w1) x \<and> solverTasks w2 x = solverTasks ?w1 x"
    by (rule one_side_eq [OF g1 w(1) rd w(2) t1(1,2) _ _ _ tw(5), of False pl env bl "source_leftChild (st_cubeSource st)" n])
      (use t1 tw(4) pl alloc_fresh [OF g1 env _ w(3)] in \<open>simp_all add: parac_path_get_next_left_def\<close>)
  have t2: "parent_state (wt tw2)" "own_task rt r (wt tw2)" "path (wt tw2) = path (wt tw)" "slot1 (wt tw2) = SlotNull"
    using t1 by (auto simp: w2(5) side_done_def taken_def parent_state_def own_task_def split: option.splits)
  have g2: "grown good rt d w r (opt_list_of c1) w2" using w2(2) by (simp add: opt_list_of_def)
  have al: "heap (sw_store w2) (env_alloc env (sw_store w2)) = None"
    by (rule alloc_fresh [OF g2 env _ w(3)]) (simp add: opt_list_of_def split: option.splits)
  obtain w3 c2 tw3 where w3: "one_side env (Suc n) r True br (source_rightChild (st_cubeSource st)) w2 = Some (True, w3)"
    "grown good rt d w r (case c2 of None \<Rightarrow> opt_list_of c1 | Some x \<Rightarrow> x # opt_list_of c1) w3"
    "heap (sw_store w3) r = Some tw3" "\<not> in_work_queue tw3" "wt tw3 = side_done True c2 (wt tw2)"
    "solverTasks w3 r = solverTasks w2 r" "c2 = None \<longleftrightarrow> \<not> br"
    "\<forall>x. c2 = Some x \<longrightarrow> solverTasks w3 x = Some (new_solver_task (source_rightChild (st_cubeSource st)))
       \<and> (\<exists>cw. heap (sw_store w3) x = Some cw \<and> path (wt cw) = pr)"
    "\<forall>x. heap (sw_store w2) x \<noteq> None \<longrightarrow> x \<noteq> r \<longrightarrow> heap (sw_store w3) x = heap (sw_store w2) x \<and> solverTasks w3 x = solverTasks w2 x"
    by (rule one_side_eq [OF g2 w(1) rd w(2) w2(3,4) t2(1,2) _ tw(5), of True pr env br "source_rightChild (st_cubeSource st)" n])
      (use t2 tw(4) pr al in \<open>simp_all add: parac_path_get_next_right_def\<close>)
  have ws: "work_split env (Suc n) r bl br w = Some (PARAC_PENDING, w3)"
    using op1 st w2(1) w3(1) by (simp add: work_split_def one_side_def)
  have s3: "state (wt tw3) = split_state"
    by (simp add: w3(5) w2(5) side_done_def taken_def split: option.splits)
  let ?t4 = "(wt tw3)\<lparr>state := inner_state, delete_notification := None\<rparr>"
  let ?w4 = "set_task r tw3 ?t4 w3"
  have run: "do { (res, w) \<leftarrow> work_split env (Suc n) r bl br w;
          Worker_after env (Suc n) r (heap (sw_store w) r = None) res w } = Some ?w4"
    using ws after_split [OF w3(3) s3] by simp
  have g3: "grown good rt d w r (opt_list_of c2 @ opt_list_of c1) w3"
    using w3(2) by (simp add: opt_list_of_def split: option.splits)
  have g4: "grown good rt d w r (opt_list_of c2 @ opt_list_of c1) ?w4"
    by (rule grown_set [OF g3 rd w3(3,4)])
      (simp add: same_links_def local_parent_def parent_state_def split_state_bits)
  have nc: "c1 \<noteq> Some r" "c2 \<noteq> Some r"
    using g3 rd by (auto simp: grown_def opt_list_of_def)
  have res: "split_result c1 c2 (wt tw) ?t4"
    using rn by (simp add: split_result_def w3(5) w2(5) side_done_def taken_def worked_def split: option.splits)
  have k1: "\<forall>x. c1 = Some x \<longrightarrow> solverTasks ?w4 x = Some (new_solver_task (source_leftChild (st_cubeSource st)))
       \<and> (\<exists>cw. heap (sw_store ?w4) x = Some cw \<and> path (wt cw) = pl)"
    using w2(8) w3(9) nc by fastforce
  have k2: "\<forall>x. c2 = Some x \<longrightarrow> solverTasks ?w4 x = Some (new_solver_task (source_rightChild (st_cubeSource st)))
       \<and> (\<exists>cw. heap (sw_store ?w4) x = Some cw \<and> path (wt cw) = pr)"
    using w3(8) nc by fastforce
  show thesis
    by (rule that [OF run g4 _ _ _ _ w2(7) w3(7) k1 k2, of "tw3\<lparr>wt := ?t4\<rparr>"])
      (use res w3(4,6) w2(6) st in simp_all)
qed

context tree_source
begin

text \<open>A task that was split, in the world after the round.\<close>

definition was_split ::
  "solver_world \<Rightarrow> task_ref \<Rightarrow> task_ref list \<Rightarrow> task_ref \<Rightarrow> task_ref option \<Rightarrow> task_ref option \<Rightarrow> solver_world \<Rightarrow> bool" where
  "was_split w r q rt c1 c2 w' \<longleftrightarrow> (\<exists>tw tw2 tw' w2 st d.
     heap (sw_store w) r = Some tw \<and> leaf_task tw \<and> tasksWaitingForWorkerQueue (sw_store w) = r # q
     \<and> path_depth (path (wt tw)) = d \<and> d < D
     \<and> heap (sw_store w2) = (heap (sw_store w))(r \<mapsto> tw2) \<and> running r tw tw2
     \<and> tasksWaitingForWorkerQueue (sw_store w2) = q \<and> tasks (sw_store w2) = tasks (sw_store w)
     \<and> store_same (sw_store w) (sw_store w2) \<and> manager_same w w2 \<and> store_inv (sw_store w2)
     \<and> (\<forall>x. x \<noteq> r \<longrightarrow> solverTasks w2 x = solverTasks w x)
     \<and> grown good rt d w2 r (opt_list_of c2 @ opt_list_of c1) w'
     \<and> heap (sw_store w') r = Some tw' \<and> \<not> in_work_queue tw' \<and> split_result c1 c2 (wt tw2) (wt tw')
     \<and> solverTasks w' r = Some st \<and> val (st_cubeSource st) (path (wt tw)) = tval w r
     \<and> learn_ok F hdl level (tval w r) (st_cubeSource st) (path (wt tw))
     \<and> side_ok (heap (sw_store w')) (parac_path_get_next_left (path (wt tw))) (slot0 (wt tw')) (left_result (wt tw'))
     \<and> side_ok (heap (sw_store w')) (parac_path_get_next_right (path (wt tw))) (slot1 (wt tw')) (right_result (wt tw'))
     \<and> (c1 \<noteq> None \<or> c2 \<noteq> None) \<and> (tval w r \<longleftrightarrow> (\<exists>x. (c1 = Some x \<or> c2 = Some x) \<and> tval w' x)))"

lemma was_splitE:
  assumes "was_split w r q rt c1 c2 w'"
  obtains tw tw2 tw' w2 st d where
    "heap (sw_store w) r = Some tw" "leaf_task tw" "tasksWaitingForWorkerQueue (sw_store w) = r # q"
     "path_depth (path (wt tw)) = d" "d < D"
     "heap (sw_store w2) = (heap (sw_store w))(r \<mapsto> tw2)" "running r tw tw2"
     "tasksWaitingForWorkerQueue (sw_store w2) = q" "tasks (sw_store w2) = tasks (sw_store w)"
     "store_same (sw_store w) (sw_store w2)" "manager_same w w2" "store_inv (sw_store w2)"
     "\<forall>x. x \<noteq> r \<longrightarrow> solverTasks w2 x = solverTasks w x"
     "grown good rt d w2 r (opt_list_of c2 @ opt_list_of c1) w'"
     "heap (sw_store w') r = Some tw'" "\<not> in_work_queue tw'" "split_result c1 c2 (wt tw2) (wt tw')"
     "solverTasks w' r = Some st" "val (st_cubeSource st) (path (wt tw)) = tval w r"
     "learn_ok F hdl level (tval w r) (st_cubeSource st) (path (wt tw))"
     "side_ok (heap (sw_store w')) (parac_path_get_next_left (path (wt tw))) (slot0 (wt tw')) (left_result (wt tw'))"
     "side_ok (heap (sw_store w')) (parac_path_get_next_right (path (wt tw))) (slot1 (wt tw')) (right_result (wt tw'))"
     "c1 \<noteq> None \<or> c2 \<noteq> None" "tval w r \<longleftrightarrow> (\<exists>x. (c1 = Some x \<or> c2 = Some x) \<and> tval w' x)"
  using assms unfolding was_split_def by blast

text \<open>Where a task of the new world comes from.\<close>

lemma split_origin:
  assumes s: "was_split w r q rt c1 c2 w'" and x: "heap (sw_store w') x = Some xw"
  shows "x = r \<or> x \<noteq> r \<and> (c1 = Some x \<or> c2 = Some x) \<and> heap (sw_store w) x = None
      \<and> (\<exists>tw. heap (sw_store w) r = Some tw \<and> new_leaf good rt (path_depth (path (wt tw))) w' x)
    \<or> x \<noteq> r \<and> heap (sw_store w) x = Some xw \<and> solverTasks w' x = solverTasks w x"
proof -
  obtain tw tw2 w2 d where t: "heap (sw_store w) r = Some tw" "path_depth (path (wt tw)) = d"
    "heap (sw_store w2) = (heap (sw_store w))(r \<mapsto> tw2)" "\<forall>x. x \<noteq> r \<longrightarrow> solverTasks w2 x = solverTasks w x"
    and g: "grown good rt d w2 r (opt_list_of c2 @ opt_list_of c1) w'"
    using s by (rule was_splitE)
  note g' = g [unfolded grown_def]
  let ?cs = "opt_list_of c2 @ opt_list_of c1"
  have cs: "x \<in> set ?cs \<longleftrightarrow> c1 = Some x \<or> c2 = Some x" by (auto simp: opt_list_of_def split: option.splits)
  have m: "r \<notin> set ?cs" using g' t(1,3) by auto
  show ?thesis
  proof (cases "x \<in> set ?cs")
    case True
    with g' have "new_leaf good rt d w' x" "x \<notin> dom (heap (sw_store w2))" by blast+
    with True m cs t show ?thesis by (auto simp: domIff split: if_splits)
  next
    case False
    with g' have "x \<noteq> r \<longrightarrow> heap (sw_store w') x = heap (sw_store w2) x \<and> solverTasks w' x = solverTasks w2 x" by blast
    with x t show ?thesis by auto
  qed
qed

lemma split_tval:
  assumes s: "was_split w r q rt c1 c2 w'" and x: "heap (sw_store w) x = Some xw"
  shows "tval w' x = tval w x \<and> (\<exists>xw'. heap (sw_store w') x = Some xw' \<and> path (wt xw') = path (wt xw))"
proof -
  obtain tw tw2 tw' w2 st d where t: "heap (sw_store w) r = Some tw" "heap (sw_store w2) = (heap (sw_store w))(r \<mapsto> tw2)"
    "running r tw tw2" "\<forall>x. x \<noteq> r \<longrightarrow> solverTasks w2 x = solverTasks w x"
    and g: "grown good rt d w2 r (opt_list_of c2 @ opt_list_of c1) w'"
    and r: "heap (sw_store w') r = Some tw'" "split_result c1 c2 (wt tw2) (wt tw')"
    "solverTasks w' r = Some st" "val (st_cubeSource st) (path (wt tw)) = tval w r"
    using s by (rule was_splitE)
  note g' = g [unfolded grown_def]
  have pr: "path (wt tw') = path (wt tw)" using t(3) r(2) by (simp add: running_def split_result_def worked_def)
  show ?thesis
  proof (cases "x = r")
    case True
    with x t r pr show ?thesis by (simp add: tval_def path_of_def)
  next
    case False
    have "x \<in> dom (heap (sw_store w2))" using x t(2) False by auto
    then have "x \<notin> set (opt_list_of c2 @ opt_list_of c1)" using g' by blast
    with g' False t x have "heap (sw_store w') x = Some xw" "solverTasks w' x = solverTasks w x" by auto
    moreover from this x have "path_of (sw_store w') x = path_of (sw_store w) x" by (simp add: path_of_def)
    ultimately show ?thesis unfolding tval_def by (simp split: option.split)
  qed
qed

lemma split_inner:
  assumes w: "world_inv K rt w" and s: "was_split w r q rt c1 c2 w'"
  shows "\<exists>tw'. heap (sw_store w') r = Some tw' \<and> own_task rt r (wt tw') \<and> inner_task (heap (sw_store w')) (tval w') r tw'
    \<and> task_inv w' r tw'"
proof -
  obtain tw tw2 tw' w2 st d where t: "heap (sw_store w) r = Some tw" "path_depth (path (wt tw)) = d" "d < D" "running r tw tw2"
    and r: "heap (sw_store w') r = Some tw'" "\<not> in_work_queue tw'" "split_result c1 c2 (wt tw2) (wt tw')"
     "solverTasks w' r = Some st" "val (st_cubeSource st) (path (wt tw)) = tval w r"
     "learn_ok F hdl level (tval w r) (st_cubeSource st) (path (wt tw))"
    and sd: "side_ok (heap (sw_store w')) (parac_path_get_next_left (path (wt tw))) (slot0 (wt tw')) (left_result (wt tw'))"
     "side_ok (heap (sw_store w')) (parac_path_get_next_right (path (wt tw))) (slot1 (wt tw')) (right_result (wt tw'))"
     "c1 \<noteq> None \<or> c2 \<noteq> None" "tval w r \<longleftrightarrow> (\<exists>x. (c1 = Some x \<or> c2 = Some x) \<and> tval w' x)"
    using s by (rule was_splitE)
  have wk: "worked (wt tw) (wt tw')" using t(4) r(3) by (simp add: running_def split_result_def worked_def)
  have own: "own_task rt r (wt tw)" using tree_okD(1) [of "heap (sw_store w)"] w t(1) by (auto simp: world_inv_def)
  then have own': "own_task rt r (wt tw')" using worked_own [OF wk] by simp
  have p: "path (wt tw') = path (wt tw)" using wk by (simp add: worked_def)
  have kid: "kid (wt tw') c \<longleftrightarrow> c1 = Some c \<or> c2 = Some c" for c
    using r(3) by (auto simp: split_result_def kid_def split: option.splits)
  have tv: "tval w' r = tval w r" using split_tval [OF s t(1)] by blast
  have wt: "waiting_task (wt tw')"
    using r(3) own' own_assess_task [OF own'] split_state_bits by (simp add: waiting_task_def split_result_def own_task_def)
  have "inner_task (heap (sw_store w')) (tval w') r tw'"
    unfolding inner_task_def kid tv
    using r(2,3) wt sd p t(2,3) D split_state_bits(7) by (auto simp: split_result_def)
  moreover have "task_inv w' r tw'" using r p t(2,3) tv by (simp add: task_inv_def)
  ultimately show ?thesis using r(1) own' by blast
qed

lemma split_tasks:
  assumes w: "world_inv K rt w" and s: "was_split w r q rt c1 c2 w'" and x: "heap (sw_store w') x = Some xw"
  shows "own_task rt x (wt xw) \<and> (leaf_task xw \<or> inner_task (heap (sw_store w')) (tval w') x xw) \<and> task_inv w' x xw"
proof -
  from split_origin [OF s x] consider (self) "x = r"
    | (child) tw where "heap (sw_store w) r = Some tw" "new_leaf good rt (path_depth (path (wt tw))) w' x"
    | (old) "x \<noteq> r" "heap (sw_store w) x = Some xw" "solverTasks w' x = solverTasks w x" by blast
  then show ?thesis
  proof cases
    case self
    with split_inner [OF w s] x show ?thesis by auto
  next
    case (child tw)
    note tw = child(1) and n = child(2)
    have "path_depth (path (wt tw)) < D" using s by (rule was_splitE) (use tw in auto)
    moreover from n x obtain src where src: "leaf_task xw" "own_task rt x (wt xw)"
      "path_depth (path (wt xw)) = Suc (path_depth (path (wt tw)))" "solverTasks w' x = Some (new_solver_task src)"
      "good src (path (wt xw))" by (auto simp: new_leaf_def)
    moreover have "tval w' x = val src (path (wt xw))" using src(4) x by (simp add: tval_def path_of_def new_solver_task_def)
    moreover have "learn_ok F hdl level (val src (path (wt xw))) src (path (wt xw))"
      using src(2,5) by (intro learn) (simp_all add: own_task_def)
    ultimately show ?thesis by (simp add: task_inv_def new_solver_task_def)
  next
    case old
    note h = old(2) and st = old(3)
    have t: "tree_ok (heap (sw_store w)) (tval w) rt {}" and l: "links_ok (heap (sw_store w))"
      and ti: "task_inv w x xw" using w h by (simp_all add: world_inv_def store_run_def store_inv_def)
    note tx = tree_okD [OF t h]
    have "inner_task (heap (sw_store w')) (tval w') x xw" if "inner_task (heap (sw_store w)) (tval w) x xw"
    proof (rule inner_task_cong [OF that])
      show "\<exists>cw'. heap (sw_store w') c = Some cw' \<and> path (wt cw') = path (wt cw)"
        if "heap (sw_store w) c = Some cw" for c cw using split_tval [OF s that] by blast
      fix c
      assume "c = x \<or> kid (wt xw) c"
      then obtain cw where "heap (sw_store w) c = Some cw" using l h unfolding links_ok_def by blast
      then show "tval w' c = tval w c" using split_tval [OF s] by blast
    qed
    moreover have "task_inv w' x xw" using ti st split_tval [OF s h] by (simp add: task_inv_def)
    ultimately show ?thesis using tx by auto
  qed
qed

end

context tree_source
begin

lemma split_sum:
  assumes w: "world_inv K rt w" and s: "was_split w r q rt c1 c2 w'"
  obtains d n where "d < D" "n \<le> 2" "length (tasks (sw_store w')) = n + length (tasks (sw_store w))"
    "wsum D c (sw_store w') + (2 ^ (D + 1 - d) - c) = n * (2 ^ (D - d) - c) + wsum D c (sw_store w)"
proof -
  obtain tw tw2 w2 d where t: "heap (sw_store w) r = Some tw" "path_depth (path (wt tw)) = d" "d < D"
     "heap (sw_store w2) = (heap (sw_store w))(r \<mapsto> tw2)"
     "tasksWaitingForWorkerQueue (sw_store w) = r # q"
     "tasksWaitingForWorkerQueue (sw_store w2) = q" "tasks (sw_store w2) = tasks (sw_store w)"
    and g: "grown good rt d w2 r (opt_list_of c2 @ opt_list_of c1) w'"
    using s by (rule was_splitE)
  note g' = g [unfolded grown_def]
  let ?cs = "opt_list_of c2 @ opt_list_of c1"
  let ?f = "\<lambda>s x. (2 :: nat) ^ (D + 1 - path_depth (path_of s x)) - c"
  have n: "length ?cs \<le> 2" by (simp add: opt_list_of_def split: option.splits)
  have f1: "map (?f (sw_store w')) ?cs = map (\<lambda>_. 2 ^ (D - d) - c) ?cs"
  proof (rule map_cong [OF refl])
    fix x
    assume "x \<in> set ?cs"
    with g' have "new_leaf good rt d w' x" by blast
    then show "?f (sw_store w') x = 2 ^ (D - d) - c" by (auto simp: new_leaf_def path_of_def)
  qed
  have f2: "map (?f (sw_store w')) q = map (?f (sw_store w)) q"
  proof (rule map_cong [OF refl])
    fix x
    assume "x \<in> set q"
    then have "x \<in> set (tasksWaitingForWorkerQueue (sw_store w))" using t(5) by simp
    then obtain xw where x: "heap (sw_store w) x = Some xw"
      using queue_live [OF store_inv_queue, of sat_assess "sw_store w" x] w unfolding world_inv_def store_run_def by blast
    then obtain xw' where "heap (sw_store w') x = Some xw'" "path (wt xw') = path (wt xw)"
      using split_tval [OF s x] by blast
    with x show "?f (sw_store w') x = ?f (sw_store w) x" by (simp add: path_of_def)
  qed
  have "sum_list (map (?f (sw_store w')) (tasksWaitingForWorkerQueue (sw_store w')))
      = sum_list (map (?f (sw_store w')) ?cs) + sum_list (map (?f (sw_store w')) q)"
    using g' t(6) by simp
  then have e: "wsum D c (sw_store w') = length ?cs * (2 ^ (D - d) - c) + sum_list (map (?f (sw_store w)) q)"
    unfolding wsum_def f1 f2 by (simp add: sum_list_triv del: map_append)
  have "wsum D c (sw_store w) = 2 ^ (D + 1 - d) - c + sum_list (map (?f (sw_store w)) q)"
    using t(1,2,5) by (simp add: wsum_def path_of_def)
  with e n t(3,7) g' show thesis by (intro that [of d "length ?cs"]) simp_all
qed

lemma split_world:
  assumes w: "world_inv K rt w" and s: "was_split w r q rt c1 c2 w'"
  shows "world_inv K rt w' \<and> tval w' rt = tval w rt \<and> wsum D 1 (sw_store w') < wsum D 1 (sw_store w)"
proof -
  obtain w2 d where t: "store_same (sw_store w) (sw_store w2)" "manager_same w w2"
    and g: "grown good rt d w2 r (opt_list_of c2 @ opt_list_of c1) w'"
    using s by (rule was_splitE)
  note g' = g [unfolded grown_def]
  have m: "manager_same w w'" using manager_same_trans [OF t(2)] g' by blast
  from w obtain rw where rt: "heap (sw_store w) rt = Some rw" by (auto simp: world_inv_def)
  note rtv = split_tval [OF s rt]
  have lt: "wsum D 1 (sw_store w') < wsum D 1 (sw_store w)"
  proof -
    obtain d n where dn: "d < D" "n \<le> 2"
      "wsum D 1 (sw_store w') + (2 ^ (D + 1 - d) - 1) = n * (2 ^ (D - d) - 1) + wsum D 1 (sw_store w)"
      by (rule split_sum [OF w s, of 1])
    have "n * (2 ^ (D - d) - 1) \<le> 2 * (2 ^ (D - d) - 1)" using dn(2) by (rule mult_le_mono1)
    also have "\<dots> < 2 ^ (D + 1 - d) - (1 :: nat)"
    proof -
      have "(2 :: nat) ^ (D + 1 - d) = 2 * 2 ^ (D - d)" using dn(1) by (simp add: Suc_diff_le)
      moreover have "(1 :: nat) \<le> 2 ^ (D - d)" by simp
      ultimately show ?thesis by linarith
    qed
    finally show ?thesis using dn(3) by linarith
  qed
  have fit: "fits D (sw_store w')"
  proof -
    obtain d n where dn: "d < D" "n \<le> 2" "length (tasks (sw_store w')) = n + length (tasks (sw_store w))"
      "wsum D 2 (sw_store w') + (2 ^ (D + 1 - d) - 2) = n * (2 ^ (D - d) - 2) + wsum D 2 (sw_store w)"
      by (rule split_sum [OF w s, of 2])
    have two: "(2 :: nat) \<le> 2 ^ (D - d)" using dn(1) power_increasing [of 1 "D - d" "2 :: nat"] by simp
    have e: "1 + (2 ^ (D - d) - 2) = (2 ^ (D - d) - 1 :: nat)" using two by linarith
    have "n + n * (2 ^ (D - d) - 2) = n * (1 + (2 ^ (D - d) - 2))" by (simp only: distrib_left mult_1_right)
    also have "\<dots> = n * (2 ^ (D - d) - 1)" unfolding e ..
    also have "\<dots> \<le> 2 * (2 ^ (D - d) - 1)" using dn(2) by (rule mult_le_mono1)
    also have "\<dots> = 2 ^ (D + 1 - d) - (2 :: nat)" using dn(1) by (simp add: Suc_diff_le diff_mult_distrib2)
    finally have "length (tasks (sw_store w')) + wsum D 2 (sw_store w') \<le> length (tasks (sw_store w)) + wsum D 2 (sw_store w)"
      using dn(3,4) by linarith
    with w show ?thesis by (simp add: fits_def world_inv_def store_run_def)
  qed
  have "store_run (sw_store w')"
    using w t(1) g' fit by (simp add: store_run_def world_inv_def store_same_def)
  moreover have "manager_inv K w'"
    using w m clauses_ok_manager [of F w w'] by (simp add: manager_inv_def world_inv_def manager_same_def)
  moreover have "tree_ok (heap (sw_store w')) (tval w') rt {}"
    using split_tasks [OF w s] by (simp add: tree_ok_def)
  moreover have "rt \<in> dom (heap (sw_store w'))" using rtv by blast
  ultimately show ?thesis using split_tasks [OF w s] rtv lt by (simp add: world_inv_def)
qed

section \<open>One round\<close>

lemma queue_not_empty:
  assumes w: "world_inv K rt w"
  shows "tasksWaitingForWorkerQueue (sw_store w) \<noteq> []"
proof -
  let ?h = "heap (sw_store w)"
  have t: "tree_ok ?h (tval w) rt {}" and l: "links_ok ?h" and i: "store_inv (sw_store w)"
    using w by (simp_all add: world_inv_def store_run_def store_inv_def)
  have "\<exists>y yw. ?h y = Some yw \<and> leaf_task yw" if "?h x = Some xw" for x xw
    using that
  proof (induction "58 - path_depth (path (wt xw))" arbitrary: x xw rule: less_induct)
    case less
    show ?case
    proof (cases "leaf_task xw")
      case False
      then have inn: "inner_task ?h (tval w) x xw" using tree_okD(3) [OF t less.prems] by auto
      then obtain c where c: "kid (wt xw) c" by (auto simp: inner_task_def)
      then obtain cw where cw: "?h c = Some cw" "local_parent (wt cw) = Some x"
        using l less.prems unfolding links_ok_def by blast
      have "path_depth (path (wt cw)) = Suc (path_depth (path (wt xw)))"
        by (rule parent_depth [OF l t cw less.prems])
      moreover have "path_depth (path (wt xw)) < 58" using inn by (simp add: inner_task_def)
      ultimately show ?thesis using less.hyps [OF _ cw(1)] by simp
    qed (use less.prems in blast)
  qed
  moreover from w obtain rw where "?h rt = Some rw" by (auto simp: world_inv_def)
  ultimately obtain y yw where y: "?h y = Some yw" "leaf_task yw" by blast
  then have "in_work_queue yw" by (simp add: leaf_task_def)
  with y(1) store_inv_queue [OF i] have "y \<in> set (tasksWaitingForWorkerQueue (sw_store w))" unfolding queue_ok_def by blast
  then show ?thesis by auto
qed

lemma next_task:
  assumes w: "world_inv K rt w" and env: "env_ok F env"
  obtains r q tw st b l rr src where "tasksWaitingForWorkerQueue (sw_store w) = r # q" "heap (sw_store w) r = Some tw"
    "leaf_task tw" "own_task rt r (wt tw)" "solverTasks w r = Some st" "\<not> st_working st" "st_fastSplit st = FastSplit_init"
    "good (st_cubeSource st) (path (wt tw))" "path_depth (path (wt tw)) \<le> D" "ordinary (path (wt tw))"
    "tval w r = val (st_cubeSource st) (path (wt tw))"
    "source_split (parsedFormula w) (env_resplitCube env) (config_InitialMinimalCubeDepth w) (st_cubeSource st) (path (wt tw))
       = Some (b, l, rr, src)" "val src (path (wt tw)) = tval w r" "learn_ok F hdl level (tval w r) src (path (wt tw))"
    "if b then path_depth (path (wt tw)) < D \<and> (l \<or> rr)
      else \<exists>c. source_cube (parsedFormula w) src (path (wt tw)) = Some c \<and> (tval w r \<longleftrightarrow> sat_under F c)"
proof -
  obtain r q where q: "tasksWaitingForWorkerQueue (sw_store w) = r # q"
    using queue_not_empty [OF w] by (cases "tasksWaitingForWorkerQueue (sw_store w)") auto
  have i: "store_inv (sw_store w)" and t: "tree_ok (heap (sw_store w)) (tval w) rt {}"
    using w by (simp_all add: world_inv_def store_run_def)
  have "r \<in> set (tasksWaitingForWorkerQueue (sw_store w))" using q by simp
  from queue_live [OF store_inv_queue [OF i] this] obtain tw where tw: "heap (sw_store w) r = Some tw" "in_work_queue tw" by blast
  have lf: "leaf_task tw" and ow: "own_task rt r (wt tw)"
    using tree_okD [OF t tw(1)] tw(2) by (auto simp: inner_task_def)
  from w tw have "task_inv w r tw" by (simp add: world_inv_def)
  with tw(2) obtain st where st: "solverTasks w r = Some st" "\<not> st_working st" "st_fastSplit st = FastSplit_init"
    "good (st_cubeSource st) (path (wt tw))" "path_depth (path (wt tw)) \<le> D" by (auto simp: task_inv_def)
  have o: "ordinary (path (wt tw))" using ow by (simp add: own_task_def)
  have tv: "tval w r = val (st_cubeSource st) (path (wt tw))" using st(1) tw(1) by (simp add: tval_def path_of_def)
  have "parsedFormula w = hdl" "config_InitialMinimalCubeDepth w = depth" using w by (simp_all add: world_inv_def manager_inv_def)
  moreover have "literal_ok (env_resplitCube env)" using env by (simp add: env_ok_def)
  ultimately obtain b l rr src where sp: "source_split (parsedFormula w) (env_resplitCube env)
      (config_InitialMinimalCubeDepth w) (st_cubeSource st) (path (wt tw)) = Some (b, l, rr, src)"
    "val src (path (wt tw)) = tval w r" "learn_ok F hdl level (tval w r) src (path (wt tw))"
    "if b then path_depth (path (wt tw)) < D \<and> (l \<or> rr)
      else \<exists>c. source_cube (parsedFormula w) src (path (wt tw)) = Some c \<and> (tval w r \<longleftrightarrow> sat_under F c)"
    unfolding tv using split [OF st(4) o st(5), of "env_resplitCube env"] by metis
  show thesis by (rule that [OF q tw(1) lf ow st o tv sp])
qed

end

context tree_source
begin

lemma round_solve:
  assumes w: "world_inv K rt w" and env: "env_ok F env" and k: "k < K"
    and r: "tasksWaitingForWorkerQueue (sw_store w) = r # q" "heap (sw_store w) r = Some tw"
    "leaf_task tw" "own_task rt r (wt tw)" "solverTasks w r = Some st" "\<not> st_working st" "st_fastSplit st = FastSplit_init"
    and sp: "source_split (parsedFormula w) (env_resplitCube env) (config_InitialMinimalCubeDepth w) (st_cubeSource st) (path (wt tw))
       = Some (False, l, rr, src)" "val src (path (wt tw)) = tval w r" "learn_ok F hdl level (tval w r) src (path (wt tw))"
    and c: "source_cube (parsedFormula w) src (path (wt tw)) = Some c" "tval w r \<longleftrightarrow> sat_under F c"
  shows "\<exists>w4. Worker_round env fuel k flag w = store_op (env_available env) (assess_task fuel r) w4
    \<and> answered (tval w r) w r q rt w4"
proof -
  have i: "store_inv (sw_store w)" and kk: "k < length (learnedClausesApplicationStack w)" and cl: "clauses_ok F w"
    using w k by (simp_all add: world_inv_def store_run_def manager_inv_def)
  obtain w4 tw4 st4 where w4: "Worker_round env fuel k flag w = store_op (env_available env) (assess_task fuel r) w4"
    "store_inv (sw_store w4)" "heap (sw_store w4) = (heap (sw_store w))(r \<mapsto> tw4)"
    "leaf_solved (if sat_under F c then PARAC_SAT else PARAC_UNSAT) rt r tw4" "path (wt tw4) = path (wt tw)"
    "tasksWaitingForWorkerQueue (sw_store w4) = q" "tasks (sw_store w4) = tasks (sw_store w)"
    "store_same (sw_store w) (sw_store w4)"
    "solverTasks w4 = (solverTasks w)(r \<mapsto> st4)" "st_cubeSource st4 = src" "manager_same w w4"
    by (rule solve_run [OF i r kk cl env sp(1) c(1), of fuel flag])
  have "leaf_solved (if tval w r then PARAC_SAT else PARAC_UNSAT) rt r tw4" using w4(4) by (simp only: c(2))
  then have "answered (tval w r) w r q rt w4"
    unfolding answered_def using w4 r(1,2,3) sp(2,3) by blast
  with w4(1) show ?thesis by blast
qed

lemma round_split:
  assumes w: "world_inv K rt w" and env: "env_ok F env" and k: "k < K"
    and r: "tasksWaitingForWorkerQueue (sw_store w) = r # q" "heap (sw_store w) r = Some tw"
    "leaf_task tw" "own_task rt r (wt tw)" "solverTasks w r = Some st" "\<not> st_working st"
    "good (st_cubeSource st) (path (wt tw))" "tval w r = val (st_cubeSource st) (path (wt tw))"
    and sp: "source_split (parsedFormula w) (env_resplitCube env) (config_InitialMinimalCubeDepth w) (st_cubeSource st) (path (wt tw))
       = Some (True, l, rr, src)" "val src (path (wt tw)) = tval w r" "learn_ok F hdl level (tval w r) src (path (wt tw))"
    and d: "path_depth (path (wt tw)) < D" "l \<or> rr"
  shows "\<exists>w' c1 c2. Worker_round env (Suc n) k flag w = Some w' \<and> was_split w r q rt c1 c2 w'"
proof -
  have i: "store_inv (sw_store w)" and kk: "k < length (learnedClausesApplicationStack w)" and cl: "clauses_ok F w"
    and len: "length (tasks (sw_store w)) \<le> 2 ^ (D + 1)" and rt: "rt \<in> dom (heap (sw_store w))"
    and cfg: "parsedFormula w = hdl" "config_InitialMinimalCubeDepth w = depth"
    using w k by (simp_all add: world_inv_def store_run_def manager_inv_def fits_def)
  have o: "ordinary (path (wt tw))" using r(4) by (simp add: own_task_def)
  have d58: "path_depth (path (wt tw)) < 58" using d(1) D by simp
  let ?st = "st\<lparr>st_working := True, st_cubeSource := src\<rparr>"
  obtain w2 tw2 where round: "Worker_round env (Suc n) k flag w = do {
       (res, w) \<leftarrow> (if True then work_split env (Suc n) r l rr w2 else work_solve env (Suc n) k r w2);
       Worker_after env (Suc n) r (heap (sw_store w) r = None) res w }"
    and w2: "store_inv (sw_store w2)" "heap (sw_store w2) = (heap (sw_store w))(r \<mapsto> tw2)" "running r tw tw2"
    "tasksWaitingForWorkerQueue (sw_store w2) = q" "tasks (sw_store w2) = tasks (sw_store w)"
    "store_same (sw_store w) (sw_store w2)" "solverTasks w2 = (solverTasks w)(r \<mapsto> ?st)" "manager_same w w2"
    by (rule run_start [OF i r(1-6) kk cl sp(1), of "Suc n" flag])
  have h2: "heap (sw_store w2) r = Some tw2" and s2: "solverTasks w2 r = Some ?st" by (simp_all add: w2(2,7))
  have wk: "worked (wt tw) (wt tw2)" using w2(3) by (simp add: running_def)
  then have p2: "path (wt tw2) = path (wt tw)" and own2: "own_task rt r (wt tw2)"
    using worked_own [OF wk] r(4) by (simp_all add: worked_def)
  have rt2: "rt \<in> dom (heap (sw_store w2))" using rt w2(2) by auto
  have len2: "length (tasks (sw_store w2)) \<le> 2 ^ 59"
    using len w2(5) D power_increasing [of "D + 1" 59 "2 :: nat"] by simp
  obtain pl pr where pp: "parac_path_get_next_left (path (wt tw)) = Some pl" "parac_path_get_next_right (path (wt tw)) = Some pr"
    by (rule child_sides [OF o d58])
  have lit: "literal_ok (env_resplitCube env)" using env by (simp add: env_ok_def)
  have sd: "(l \<longrightarrow> good (source_leftChild src) pl) \<and> (rr \<longrightarrow> good (source_rightChild src) pr)
      \<and> (val (st_cubeSource st) (path (wt tw)) \<longleftrightarrow> l \<and> val (source_leftChild src) pl \<or> rr \<and> val (source_rightChild src) pr)"
    by (rule sides [OF r(7) o lit _ pp]) (use sp(1) cfg in simp)
  obtain w' tw' c1 c2 where
    run: "do { (res, w) \<leftarrow> work_split env (Suc n) r l rr w2;
          Worker_after env (Suc n) r (heap (sw_store w) r = None) res w } = Some w'"
    and w': "grown good rt (path_depth (path (wt tw))) w2 r (opt_list_of c2 @ opt_list_of c1) w'"
    "heap (sw_store w') r = Some tw'" "\<not> in_work_queue tw'" "split_result c1 c2 (wt tw2) (wt tw')"
    "solverTasks w' r = Some ?st" "c1 = None \<longleftrightarrow> \<not> l" "c2 = None \<longleftrightarrow> \<not> rr"
    and c1: "\<forall>x. c1 = Some x \<longrightarrow> solverTasks w' x = Some (new_solver_task (source_leftChild (st_cubeSource ?st)))
       \<and> (\<exists>cw. heap (sw_store w') x = Some cw \<and> path (wt cw) = pl)"
    and c2: "\<forall>x. c2 = Some x \<longrightarrow> solverTasks w' x = Some (new_solver_task (source_rightChild (st_cubeSource ?st)))
       \<and> (\<exists>cw. heap (sw_store w') x = Some cw \<and> path (wt cw) = pr)"
    by (rule split_run [OF w2(1) rt2 len2 h2 w2(3) own2 _ d58 s2 env, of pl l good pr rr n]) (use p2 pp sd in simp_all)
  have tv: "c1 = Some x \<longrightarrow> tval w' x = val (source_leftChild src) pl" "c2 = Some x \<longrightarrow> tval w' x = val (source_rightChild src) pr" for x
    using c1 c2 by (auto simp: tval_def new_solver_task_def path_of_def)
  have val: "tval w r \<longleftrightarrow> (\<exists>x. (c1 = Some x \<or> c2 = Some x) \<and> tval w' x)"
    using sd tv w'(6,7) r(8) by (metis not_None_eq)
  have s0: "side_ok (heap (sw_store w')) (parac_path_get_next_left (path (wt tw))) (slot0 (wt tw')) (left_result (wt tw'))"
    using w'(4) c1 pp(1) by (auto simp: side_ok_def split_result_def split: option.splits)
  have s1: "side_ok (heap (sw_store w')) (parac_path_get_next_right (path (wt tw))) (slot1 (wt tw')) (right_result (wt tw'))"
    using w'(4) c2 pp(2) by (auto simp: side_ok_def split_result_def split: option.splits)
  have nx: "\<forall>x. x \<noteq> r \<longrightarrow> solverTasks w2 x = solverTasks w x" "c1 \<noteq> None \<or> c2 \<noteq> None" using w2(7) w'(6,7) d(2) by auto
  have sv: "val (st_cubeSource ?st) (path (wt tw)) = tval w r" "learn_ok F hdl level (tval w r) (st_cubeSource ?st) (path (wt tw))"
    using sp(2,3) by simp_all
  have "was_split w r q rt c1 c2 w'"
    unfolding was_split_def
    by (intro exI [of _ tw] exI [of _ tw2] exI [of _ tw'] exI [of _ w2] exI [of _ ?st] exI [of _ "path_depth (path (wt tw))"] conjI)
      (rule r(2) r(3) r(1) refl d(1) w2(2,3,4,5,6,8,1) nx w'(1-5) sv(1) sv(2) s0 s1 val)+
  with round run show ?thesis by auto
qed

lemma round:
  assumes w: "world_inv K rt w" and env: "env_ok F env" and k: "k < K" and fuel: "D < fuel"
  shows "\<exists>w'. Worker_round env fuel k flag w = Some w' \<and>
    (exit_status (sw_store w') = (if tval w rt then PARAC_SAT else PARAC_UNSAT) \<or>
     world_inv K rt w' \<and> tval w' rt = tval w rt \<and> wsum D 1 (sw_store w') < wsum D 1 (sw_store w))"
proof -
  obtain r q tw st b l rr src where r: "tasksWaitingForWorkerQueue (sw_store w) = r # q" "heap (sw_store w) r = Some tw"
    "leaf_task tw" "own_task rt r (wt tw)" "solverTasks w r = Some st" "\<not> st_working st" "st_fastSplit st = FastSplit_init"
    "good (st_cubeSource st) (path (wt tw))" "path_depth (path (wt tw)) \<le> D" "ordinary (path (wt tw))"
    "tval w r = val (st_cubeSource st) (path (wt tw))"
    and sp: "source_split (parsedFormula w) (env_resplitCube env) (config_InitialMinimalCubeDepth w) (st_cubeSource st) (path (wt tw))
       = Some (b, l, rr, src)" "val src (path (wt tw)) = tval w r" "learn_ok F hdl level (tval w r) src (path (wt tw))"
    and b: "if b then path_depth (path (wt tw)) < D \<and> (l \<or> rr)
      else \<exists>c. source_cube (parsedFormula w) src (path (wt tw)) = Some c \<and> (tval w r \<longleftrightarrow> sat_under F c)"
    by (rule next_task [OF w env])
  show ?thesis
  proof (cases b)
    case True
    obtain n where n: "fuel = Suc n" using fuel by (cases fuel) auto
    have "\<exists>w' c1 c2. Worker_round env (Suc n) k flag w = Some w' \<and> was_split w r q rt c1 c2 w'"
      by (rule round_split [OF w env k r(1-6,8,11) _ sp(2,3)]) (use sp(1) b True in auto)
    with split_world [OF w] n show ?thesis by blast
  next
    case False
    with b obtain c where c: "source_cube (parsedFormula w) src (path (wt tw)) = Some c" "tval w r \<longleftrightarrow> sat_under F c" by auto
    from round_solve [OF w env k r(1-7) _ sp(2,3) c, of l rr fuel flag] sp(1) False obtain w4 where
      w4: "Worker_round env fuel k flag w = store_op (env_available env) (assess_task fuel r) w4" "answered (tval w r) w r q rt w4"
      by auto
    show ?thesis
    proof (cases "tval w r")
      case True
      with round_sat [OF w _ fuel, of r q w4 "env_available env"] w4 show ?thesis by auto
    next
      case False
      with round_unsat [OF w _ fuel, of r q w4 "env_available env"] w4 show ?thesis by auto
    qed
  qed
qed

end

end
