(* ===== verification/SolverVerdict.thy ===== *)
theory SolverVerdict
  imports SolverRun
begin

unbundle bit_operations_syntax

text \<open>
  Whole runs of the SAT solver on one node: the contract of \<open>tree_source\<close> is discharged for the cubes the
  lookahead picks (\<open>cadical_run\<close>) and for the cubes given with the formula (\<open>path_run\<close>), a run is started
  on the root task, and the rounds of the workers are followed until the store has its verdict.
\<close>

section \<open>Many rounds\<close>

text \<open>
  A schedule names for every round its worker and what CaDiCaL, the allocator and the peers answer in it.
\<close>

definition schedule_ok :: "((nat \<Rightarrow> bool) \<Rightarrow> bool) \<Rightarrow> nat \<Rightarrow> (nat \<Rightarrow> work_env \<times> nat) \<Rightarrow> bool" where
  "schedule_ok F K sched \<longleftrightarrow> (\<forall>i. env_ok F (fst (sched i)) \<and> snd (sched i) < K)"

context tree_source
begin

lemma rounds_end:
  assumes "world_inv K rt w" "schedule_ok F K sched" "D < fuel"
  shows "\<exists>n w'. n \<le> Suc (wsum D 1 (sw_store w)) \<and> Worker_rounds fuel flag (map sched [0..<n]) w = Some w'
    \<and> exit_status (sw_store w') = (if tval w rt then PARAC_SAT else PARAC_UNSAT)"
  using assms(1,2)
proof (induction "wsum D 1 (sw_store w)" arbitrary: w sched rule: less_induct)
  case less
  obtain env k where s0: "sched 0 = (env, k)" by fastforce
  with less.prems(2) have ek: "env_ok F env" "k < K" unfolding schedule_ok_def by (metis fst_conv snd_conv)+
  obtain w1 where w1: "Worker_round env fuel k flag w = Some w1"
    "exit_status (sw_store w1) = (if tval w rt then PARAC_SAT else PARAC_UNSAT) \<or>
     world_inv K rt w1 \<and> tval w1 rt = tval w rt \<and> wsum D 1 (sw_store w1) < wsum D 1 (sw_store w)"
    using round [OF less.prems(1) ek assms(3)] by blast
  have cons: "map sched [0..<Suc n] = (env, k) # map (sched \<circ> Suc) [0..<n]" for n
    using s0 by (simp add: upt_conv_Cons map_Suc_upt [symmetric] del: map_Suc_upt upt_Suc)
  from w1(2) show ?case
  proof
    assume "exit_status (sw_store w1) = (if tval w rt then PARAC_SAT else PARAC_UNSAT)"
    with w1(1) s0 show ?thesis by (intro exI [of _ 1] exI [of _ w1]) simp
  next
    assume w: "world_inv K rt w1 \<and> tval w1 rt = tval w rt \<and> wsum D 1 (sw_store w1) < wsum D 1 (sw_store w)"
    have "schedule_ok F K (sched \<circ> Suc)" using less.prems(2) by (simp add: schedule_ok_def)
    with less.hyps [of w1 "sched \<circ> Suc"] w obtain n w' where n: "n \<le> Suc (wsum D 1 (sw_store w1))"
      "Worker_rounds fuel flag (map (sched \<circ> Suc) [0..<n]) w1 = Some w'"
      "exit_status (sw_store w') = (if tval w1 rt then PARAC_SAT else PARAC_UNSAT)" by auto
    have "Worker_rounds fuel flag (map sched [0..<Suc n]) w = Some w'"
      unfolding cons using w1(1) n(2) by simp
    with n w show ?thesis by (intro exI [of _ "Suc n"] exI [of _ w']) auto
  qed
qed

end

section \<open>Starting on the root task\<close>

definition root_task :: "task_ref \<Rightarrow> parac_id \<Rightarrow> source \<Rightarrow> parac_task" where
  "root_task c orig src = (fresh_task None parac_path_root orig)\<lparr>pre_path_sorting_critereon := prePathSortingCritereon src,
     state := PARAC_TASK_WORK_AVAILABLE, has_work := True, has_serialize := True,
     userdata := Some c, assess := Some SolverTaskAssess, has_free_userdata := True\<rparr>"

lemma root_path: "ordinary parac_path_root" "path_depth parac_path_root = 0" "path_num parac_path_root = 0"
  by (simp_all add: parac_path_root_def ordinary_def path_depth_def path_num_def length_fld_def path_bits_def
      bits_upto_def bits_num_def)

lemma root_task_facts:
  "state (root_task c orig src) = PARAC_TASK_WORK_AVAILABLE" "result (root_task c orig src) = PARAC_PENDING"
  "last_state (root_task c orig src) = PARAC_TASK_NEW" "path (root_task c orig src) = parac_path_root"
  "slot0 (root_task c orig src) = SlotNull" "slot1 (root_task c orig src) = SlotNull"
  "has_work (root_task c orig src)" "local_parent (root_task c orig src) = None"
  "wf_task (root_task c orig src)" "\<not> kid (root_task c orig src) x" "own_task c c (root_task c orig src)"
  by (simp_all add: root_task_def fresh_task_def parac_task_init_def own_task_def local_parent_def wf_task_def kid_def
      root_path left_child_def right_child_def)

lemma new_root_eval:
  obtains s where "newTask a None np orig (TaskStore_init timeout input ping level) = Some (Some a, s)"
    "heap s = [a \<mapsto> \<lparr>wt = fresh_task None np orig, refcount = 0, in_work_queue = False\<rparr>]"
    "tasks s = [a]" "tasksWaitingForWorkerQueue s = []" "tasksWaitingForWorkerQueueSize s = 0"
    "exit_status s = PARAC_UNDEFINED" "has_input_file s = input" "distribute_max_level s = level"
  by (rule that [of "the (map_option snd (newTask a None np orig (TaskStore_init timeout input ping level)))"])
    (simp_all add: newTask_def TaskStore_init_def shutdown_timer_keeps upd_task_iff fresh_task_def Let_def)

lemma one_task_inv:
  assumes "heap s = [a \<mapsto> tw]" "wf_task (wt tw)" "\<And>c. \<not> kid (wt tw) c" "local_parent (wt tw) = None"
    "\<not> in_work_queue tw" "tasks s = [a]" "tasksWaitingForWorkerQueue s = []" "tasksWaitingForWorkerQueueSize s = 0"
  shows "store_inv s"
  using assms by (auto simp: store_inv_def links_ok_def tasks_ok_def queue_ok_def split: if_splits)

lemma start_root_eval:
  fixes w :: solver_world
  assumes "sw_store w = TaskStore_init timeout True ping level"
  obtains rt w' tw where "start_root env (Suc n) orig src w = Some w'" "store_inv (sw_store w')"
    "heap (sw_store w') = [rt \<mapsto> tw]" "leaf_task tw" "own_task rt rt (wt tw)" "path (wt tw) = parac_path_root"
    "tasksWaitingForWorkerQueue (sw_store w') = [rt]" "tasks (sw_store w') = [rt]"
    "exit_status (sw_store w') = PARAC_UNDEFINED" "has_input_file (sw_store w')" "distribute_max_level (sw_store w') = level"
    "solverTasks w' = (solverTasks w)(rt \<mapsto> new_solver_task src)" "manager_same w w'"
proof -
  define rt where "rt = env_alloc env (sw_store w)"
  let ?f = "\<lparr>wt = fresh_task None parac_path_unknown orig, refcount = 0, in_work_queue = False\<rparr> :: task_wrapper"
  obtain s1 where s1: "newTask rt None parac_path_unknown orig (sw_store w) = Some (Some rt, s1)" "heap s1 = [rt \<mapsto> ?f]"
    "tasks s1 = [rt]" "tasksWaitingForWorkerQueue s1 = []" "tasksWaitingForWorkerQueueSize s1 = 0"
    "exit_status s1 = PARAC_UNDEFINED" "has_input_file s1 = True" "distribute_max_level s1 = level"
    unfolding assms by (rule new_root_eval)
  let ?tw = "?f\<lparr>wt := root_task rt orig src\<rparr>"
  let ?s2 = "s1\<lparr>heap := [rt \<mapsto> ?f\<lparr>wt := (fresh_task None parac_path_unknown orig)\<lparr>path := parac_path_root\<rparr>\<rparr>]\<rparr>"
  have op: "task_op rt (\<lambda>t. t\<lparr>path := parac_path_root\<rparr>) (w\<lparr>sw_store := s1\<rparr>) = Some (w\<lparr>sw_store := ?s2\<rparr>)"
    using s1(2) by (simp add: task_op_eq)
  have "\<exists>w2. SolverTask_create rt src (w\<lparr>sw_store := ?s2\<rparr>) = Some w2
      \<and> sw_store w2 = s1\<lparr>heap := [rt \<mapsto> ?tw]\<rparr>
      \<and> solverTasks w2 = (solverTasks w)(rt \<mapsto> new_solver_task src) \<and> manager_same w w2"
    by (simp add: SolverTask_create_def SolverTask_init_def addWaitingSolverTask_def manager_same_def
        root_task_def new_solver_task_def fresh_task_def parac_task_init_def)
  then obtain w2 where w2: "SolverTask_create rt src (w\<lparr>sw_store := ?s2\<rparr>) = Some w2"
    "sw_store w2 = s1\<lparr>heap := [rt \<mapsto> ?tw]\<rparr>"
    "solverTasks w2 = (solverTasks w)(rt \<mapsto> new_solver_task src)" "manager_same w w2" by blast
  have i: "store_inv (sw_store w2)"
    by (rule one_task_inv [of _ rt ?tw]) (use s1 in \<open>simp_all add: w2(2) root_task_facts\<close>)
  have h: "heap (sw_store w2) rt = Some ?tw" by (simp add: w2(2))
  let ?cw = "?tw\<lparr>in_work_queue := True, wt := (root_task rt orig src)\<lparr>last_state := PARAC_TASK_WORK_AVAILABLE\<rparr>\<rparr>"
  obtain s3 q1 q2 where s3: "assess_task (Suc n) rt (sw_store w2) = Some s3" "store_inv s3"
    "heap s3 = (heap (sw_store w2))(rt \<mapsto> ?cw)"
    "tasksWaitingForWorkerQueue (sw_store w2) = q1 @ q2" "tasksWaitingForWorkerQueue s3 = q1 @ rt # q2"
    "tasks s3 = tasks (sw_store w2)" "store_same (sw_store w2) s3" "called [] (sw_store w2) s3"
    by (rule enqueue_eq [OF i h, of rt n]) (simp_all add: root_task_facts)
  have op3: "store_op (env_available env) (assess_task (Suc n) rt) w2 = Some (w2\<lparr>sw_store := s3\<rparr>)"
    by (rule store_op_no_calls [of "assess_task (Suc n) rt", OF s3(1,8)])
  have st: "start_root env (Suc n) orig src w = Some (w2\<lparr>sw_store := s3\<rparr>)"
    using s1(1) op w2(1) op3 by (simp add: start_root_def rt_def)
  have own: "own_task rt rt (wt ?cw)" using root_task_facts(11) [of rt orig src] by (simp add: own_task_def root_path)
  show thesis
    by (rule that [OF st, of rt ?cw]) (use s3 s1 w2 own in
      \<open>simp_all add: leaf_task_def root_task_facts store_same_def manager_same_def\<close>)
qed

context tree_source
begin

lemma started:
  assumes "good src parac_path_root"
  obtains rt w where "start_root env (Suc n) orig src (CaDiCaLManager_init K hdl resplit depth (TaskStore_init timeout True ping level)) = Some w"
    "world_inv K rt w" "tval w rt = val src parac_path_root" "wsum D 1 (sw_store w) < 2 ^ (D + 1)"
proof -
  let ?w = "CaDiCaLManager_init K hdl resplit depth (TaskStore_init timeout True ping level)"
  obtain rt w tw where w: "start_root env (Suc n) orig src ?w = Some w" "store_inv (sw_store w)"
    "heap (sw_store w) = [rt \<mapsto> tw]" "leaf_task tw" "own_task rt rt (wt tw)" "path (wt tw) = parac_path_root"
    "tasksWaitingForWorkerQueue (sw_store w) = [rt]" "tasks (sw_store w) = [rt]"
    "exit_status (sw_store w) = PARAC_UNDEFINED" "has_input_file (sw_store w)" "distribute_max_level (sw_store w) = level"
    "solverTasks w = (solverTasks ?w)(rt \<mapsto> new_solver_task src)" "manager_same ?w w"
    by (rule start_root_eval [of ?w timeout ping level env n orig src]) (simp add: CaDiCaLManager_init_def)
  have tv: "tval w rt = val src parac_path_root" using w(3,6,12) by (simp add: tval_def new_solver_task_def path_of_def)
  have po: "path_of (sw_store w) rt = parac_path_root" using w(3,6) by (simp add: path_of_def)
  have ws: "wsum D c (sw_store w) = 2 ^ (D + 1) - c" for c using w(7) po by (simp add: wsum_def root_path)
  have m: "manager_inv K w"
    using w(13) by (simp add: manager_inv_def manager_same_def CaDiCaLManager_init_def clauses_ok_def)
  obtain m where "(2 :: nat) ^ D = Suc m" using not0_implies_Suc [of "2 ^ D"] by auto
  then have "fits D (sw_store w)" using w(8) ws [of 2] by (simp add: fits_def)
  then have "store_run (sw_store w)" using w by (simp add: store_run_def)
  moreover have "tree_ok (heap (sw_store w)) (tval w) rt {}" using w(3,4,5) by (simp add: tree_ok_def)
  moreover have "task_inv w rt tw"
    using w(4,6,12) assms learn [OF assms root_path(1)] tv
    by (simp add: task_inv_def new_solver_task_def root_path)
  ultimately have "world_inv K rt w" using m w(3) by (simp add: world_inv_def)
  with w(1) tv ws [of 1] that show thesis by simp
qed

lemma started_rounds:
  assumes "good src parac_path_root" "schedule_ok F K sched" "D < fuel"
  shows "\<exists>w n w'. start_root env fuel orig src (CaDiCaLManager_init K hdl resplit depth (TaskStore_init timeout True ping level)) = Some w
    \<and> n \<le> 2 ^ (D + 1) \<and> Worker_rounds fuel flag (map sched [0..<n]) w = Some w'
    \<and> exit_status (sw_store w') = (if val src parac_path_root then PARAC_SAT else PARAC_UNSAT)"
proof -
  obtain m where m: "fuel = Suc m" using assms(3) by (cases fuel) auto
  obtain rt w where w: "start_root env (Suc m) orig src (CaDiCaLManager_init K hdl resplit depth (TaskStore_init timeout True ping level)) = Some w"
    "world_inv K rt w" "tval w rt = val src parac_path_root" "wsum D 1 (sw_store w) < 2 ^ (D + 1)"
    by (rule started [OF assms(1)])
  from rounds_end [OF w(2) assms(2,3), of flag] w m show ?thesis by (metis Suc_leI le_trans)
qed

end

section \<open>Cubes picked by the lookahead\<close>

definition cadical_good :: "nat \<Rightarrow> source \<Rightarrow> parac_path \<Rightarrow> bool" where
  "cadical_good D src p \<longleftrightarrow> (case src of
       CaDiCaLCubes c l k \<Rightarrow> length c = path_depth p \<and> 0 \<notin> set c \<and> (l \<noteq> 0 \<longrightarrow> length c < D)
     | _ \<Rightarrow> False)"

definition cube_val :: "((nat \<Rightarrow> bool) \<Rightarrow> bool) \<Rightarrow> source \<Rightarrow> parac_path \<Rightarrow> bool" where
  "cube_val F src p \<longleftrightarrow> sat_under F (currentCube src)"

lemma not_root_depth: "ordinary p \<Longrightarrow> \<not> parac_path_is_root p \<Longrightarrow> 0 < path_depth p"
  by (simp add: parac_path_is_root_def path_depth_def unat_gt_0)

lemma cadical_learn:
  assumes "cadical_good D src p" "ordinary p"
  shows "learn_ok F hdl level (cube_val F src p) src p"
  using assms not_root_depth [OF assms(2)]
  by (auto simp: learn_ok_def cadical_good_def cube_val_def source_cube_def split: source.splits)

lemma cadical_split_cases:
  assumes "cadical_good D src p" "literal_ok rs" "depth \<le> D"
  obtains (splits) c l k where "source_split hdl rs depth src p = Some (True, True, True, CaDiCaLCubes c l k)"
      "l \<noteq> 0" "currentCube src = c" "cadical_good D (CaDiCaLCubes c l k) p" "path_depth p < D"
  | (solves) c k where "source_split hdl rs depth src p = Some (False, False, False, src)" "src = CaDiCaLCubes c 0 k"
proof -
  obtain c l k where src: "src = CaDiCaLCubes c l k" "length c = path_depth p" "0 \<notin> set c" "l \<noteq> 0 \<longrightarrow> length c < D"
    using assms(1) by (auto simp: cadical_good_def split: source.splits)
  obtain st x where r: "rs c = (st, x)" by (cases "rs c")
  have x: "st = PARAC_SPLITTED \<longrightarrow> x \<noteq> 0" using assms(2) r by (auto simp: literal_ok_def dest: spec [of _ c])
  show thesis
  proof (cases "l \<noteq> 0 \<or> length c < depth \<and> st = PARAC_SPLITTED")
    case True
    show thesis
      by (rule splits [of c "if l \<noteq> 0 then l else x" k])
        (use True src r x assms(3) in \<open>auto simp: source_split_def CaDiCaLCubes_split_def cadical_good_def\<close>)
  next
    case False
    show thesis by (rule solves [of c k]) (use False src r in \<open>auto simp: source_split_def CaDiCaLCubes_split_def\<close>)
  qed
qed

interpretation cadical_run: tree_source F hdl "min depth 58" level "max 1 (min depth 58)"
  "cadical_good (max 1 (min depth 58))" "cube_val F" for F hdl depth level
proof
  let ?d = "min depth 58" and ?D = "max 1 (min depth 58)"
  show "?D \<le> 58" by simp
  fix src p rs
  assume g: "cadical_good ?D src p" and o: "ordinary p"
  show "learn_ok F hdl level (cube_val F src p) src p" using g o by (rule cadical_learn)
  assume lit: "literal_ok rs"
  have dD: "?d \<le> ?D" by simp
  show "\<exists>b l r src'. source_split hdl rs ?d src p = Some (b, l, r, src') \<and> cube_val F src' p = cube_val F src p
      \<and> learn_ok F hdl level (cube_val F src p) src' p
      \<and> (if b then path_depth p < ?D \<and> (l \<or> r) else \<exists>c. source_cube hdl src' p = Some c \<and> (cube_val F src p \<longleftrightarrow> sat_under F c))"
  proof (cases rule: cadical_split_cases [OF g lit dD, of hdl, case_names splits solves])
    case (splits c l k)
    have "cube_val F (CaDiCaLCubes c l k) p = cube_val F src p" using splits(3) by (simp add: cube_val_def)
    with splits cadical_learn [OF splits(4) o, of F hdl level] show ?thesis by auto
  next
    case (solves c k)
    with cadical_learn [OF g o, of F hdl level] show ?thesis by (auto simp: source_cube_def cube_val_def)
  qed
  fix l r src' pl pr
  assume s: "source_split hdl rs ?d src p = Some (True, l, r, src')"
    and lr: "parac_path_get_next_left p = Some pl" "parac_path_get_next_right p = Some pr"
  show "(l \<longrightarrow> cadical_good ?D (source_leftChild src') pl) \<and> (r \<longrightarrow> cadical_good ?D (source_rightChild src') pr)
      \<and> (cube_val F src p \<longleftrightarrow> l \<and> cube_val F (source_leftChild src') pl \<or> r \<and> cube_val F (source_rightChild src') pr)"
  proof (cases rule: cadical_split_cases [OF g lit dD, of hdl, case_names splits solves])
    case (splits c x k)
    with s have e: "l" "r" "src' = CaDiCaLCubes c x k" by simp_all
    have d: "path_depth p < 58" using splits(5) by simp
    have "path_depth pl = Suc (path_depth p)" "path_depth pr = Suc (path_depth p)"
      using child_sides [OF o d] lr by (metis option.inject)+
    with splits(2-4) e sat_under_split [OF splits(2), of F c] show ?thesis
      by (auto simp: cadical_good_def cube_val_def source_leftChild_def source_rightChild_def)
  next
    case (solves c k)
    with s show ?thesis by simp
  qed
qed

section \<open>Cubes given with the formula\<close>

text \<open>The numbers of the cubes below a path.\<close>

definition first_cube :: "nat \<Rightarrow> parac_path \<Rightarrow> nat" where
  "first_cube L p = path_num p * 2 ^ (L - path_depth p)"

definition path_good :: "nat \<Rightarrow> nat \<Rightarrow> source \<Rightarrow> parac_path \<Rightarrow> bool" where
  "path_good L n src p \<longleftrightarrow> src = PathDefined \<and> path_depth p \<le> L \<and> first_cube L p < n"

definition path_val :: "((nat \<Rightarrow> bool) \<Rightarrow> bool) \<Rightarrow> nat \<Rightarrow> int list list \<Rightarrow> source \<Rightarrow> parac_path \<Rightarrow> bool" where
  "path_val F L cls src p \<longleftrightarrow> (\<exists>i < length cls. first_cube L p \<le> i \<and> i < first_cube L p + 2 ^ (L - path_depth p)
     \<and> sat_under F (cls ! i))"

lemma path_val_halves:
  assumes "path_depth p < L" "path_depth pl = Suc (path_depth p)" "path_depth pr = Suc (path_depth p)"
    "path_num pl = 2 * path_num p" "path_num pr = 2 * path_num p + 1"
  shows "path_val F L cls src p \<longleftrightarrow> path_val F L cls src pl \<or> path_val F L cls src pr"
    "first_cube L pl = first_cube L p" "first_cube L p < first_cube L pr"
proof -
  define s where "s = L - Suc (path_depth p)"
  have s: "L - path_depth p = Suc s" "L - Suc (path_depth p) = s" using assms(1) by (simp_all add: s_def)
  have f: "first_cube L pl = first_cube L p" "first_cube L pr = first_cube L p + 2 ^ s"
    using assms s by (simp_all add: first_cube_def algebra_simps)
  then show "first_cube L pl = first_cube L p" "first_cube L p < first_cube L pr" by simp_all
  have "first_cube L p \<le> i \<and> i < first_cube L p + 2 ^ Suc s \<longleftrightarrow>
      first_cube L p \<le> i \<and> i < first_cube L p + 2 ^ s \<or> first_cube L p + 2 ^ s \<le> i \<and> i < first_cube L p + 2 ^ s + 2 ^ s" for i
    by auto
  then show "path_val F L cls src p \<longleftrightarrow> path_val F L cls src pl \<or> path_val F L cls src pr"
    unfolding path_val_def assms(2,3) f s by blast
qed

lemma path_leaf:
  assumes "path_good (normalizedPathLength hdl) (length cls) src p" "ordinary p" "\<not> path_depth p < normalizedPathLength hdl"
    and "\<And>i. getCubeFromId hdl i = Some (if i < length cls then cls ! i else [])"
  shows "\<exists>c. source_cube hdl src p = Some c \<and> (path_val F (normalizedPathLength hdl) cls src p \<longleftrightarrow> sat_under F c)"
proof -
  have p: "src = PathDefined" "path_depth p = normalizedPathLength hdl" "path_num p < length cls"
    using assms(1,3) by (auto simp: path_good_def first_cube_def)
  moreover obtain x where "parac_path_get_depth_shifted p = Some x" "unat x = path_num p"
    using depth_shifted_num [OF assms(2)] by (auto simp: path_num_def)
  ultimately have "source_cube hdl src p = Some (cls ! path_num p)"
    using assms(2,4) by (simp add: source_cube_def getCubeFromPath_def ordinary_length)
  moreover have "path_val F (normalizedPathLength hdl) cls src p \<longleftrightarrow> sat_under F (cls ! path_num p)"
    using p(2,3) by (auto simp: path_val_def first_cube_def less_Suc_eq_le)
  ultimately show ?thesis by blast
qed

lemma path_split:
  assumes g: "path_good L (length cls) src p" "ordinary p" "path_depth p < L" "L \<le> 58"
    and h: "normalizedPathLength hdl = L" "pregeneratedCubesCount hdl = length cls"
  obtains pl pr r where "source_split hdl rs depth src p = Some (True, True, r, src)"
    "parac_path_get_next_left p = Some pl" "parac_path_get_next_right p = Some pr"
    "path_good L (length cls) src pl" "r \<longrightarrow> path_good L (length cls) src pr"
    "path_val F L cls src p \<longleftrightarrow> path_val F L cls src pl \<or> r \<and> path_val F L cls src pr"
proof -
  have d: "path_depth p < 58" using g by simp
  have src: "src = PathDefined" "first_cube L p < length cls" using g(1) by (simp_all add: path_good_def)
  obtain pl where pl: "parac_path_get_next p False = Some pl" "ordinary pl" "path_depth pl = Suc (path_depth p)"
    "path_num pl = 2 * path_num p" by (rule child_facts [OF g(2) d, of False]) simp
  obtain pr where pr: "parac_path_get_next p True = Some pr" "ordinary pr" "path_depth pr = Suc (path_depth p)"
    "path_num pr = 2 * path_num p + 1" by (rule child_facts [OF g(2) d, of True]) simp
  note v = path_val_halves [OF g(3) pl(3) pr(3) pl(4) pr(4)]
  let ?r = "first_cube L pr < length cls"
  have f: "2 * path_num p * 2 ^ (L - path_depth p - 1) = first_cube L pl"
    "(2 * path_num p + 1) * 2 ^ (L - path_depth p - 1) = first_cube L pr"
    using pl pr by (simp_all add: first_cube_def)
  have "source_split hdl rs depth src p = Some (True, True, ?r, src)"
    using PathDefined_split_below [OF g(2), of hdl] g(3,4) h src f v(2) by (simp add: source_split_def)
  moreover have "\<not> ?r \<Longrightarrow> \<not> path_val F L cls src pr" by (auto simp: path_val_def)
  ultimately show thesis
    using that [of ?r pl pr] pl pr v src g(3)
    by (auto simp: parac_path_get_next_left_def parac_path_get_next_right_def path_good_def)
qed

lemma path_cubes_source:
  assumes h: "normalizedPathLength hdl = L" "pregeneratedCubesCount hdl = length cls" "L \<le> 58"
    "\<And>i. getCubeFromId hdl i = Some (if i < length cls then cls ! i else [])"
    and level: "level \<le> 1"
  shows "tree_source F hdl depth level L (path_good L (length cls)) (path_val F L cls)"
proof
  show "L \<le> 58" by (rule h)
  fix src p rs
  assume g: "path_good L (length cls) src p" and o: "ordinary p"
  have le: "learn_ok F hdl level v s p" for v s
    using level not_root_depth [OF o] ordinary_length [OF o] by (auto simp: learn_ok_def word_less_nat_alt word_le_nat_alt)
  show "learn_ok F hdl level (path_val F L cls src p) src p" by (rule le)
  have below: "path_depth p < L" if "source_split hdl rs depth src p = Some (True, x)" for x
    using that g PathDefined_split_end [OF o, of hdl] h(1) by (force simp: source_split_def path_good_def)
  show "\<exists>b l r src'. source_split hdl rs depth src p = Some (b, l, r, src') \<and> path_val F L cls src' p = path_val F L cls src p
      \<and> learn_ok F hdl level (path_val F L cls src p) src' p
      \<and> (if b then path_depth p < L \<and> (l \<or> r) else \<exists>c. source_cube hdl src' p = Some c \<and> (path_val F L cls src p \<longleftrightarrow> sat_under F c))"
  proof (cases "path_depth p < L")
    case True
    from path_split [OF g o True h(3,1,2), of rs depth] obtain r
      where "source_split hdl rs depth src p = Some (True, True, r, src)" by metis
    with True le show ?thesis by (intro exI [of _ True] exI [of _ r] exI [of _ src]) simp
  next
    case False
    then have "source_split hdl rs depth src p = Some (False, False, False, src)"
      using g PathDefined_split_end [OF o, of hdl] h(1) by (simp add: source_split_def path_good_def)
    with path_leaf [of hdl cls src p F] g o False h le show ?thesis by auto
  qed
  fix l r src' pl pr
  assume s: "source_split hdl rs depth src p = Some (True, l, r, src')"
    and lr: "parac_path_get_next_left p = Some pl" "parac_path_get_next_right p = Some pr"
  obtain ql qr r' where q: "source_split hdl rs depth src p = Some (True, True, r', src)"
    "parac_path_get_next_left p = Some ql" "parac_path_get_next_right p = Some qr"
    "path_good L (length cls) src ql" "r' \<longrightarrow> path_good L (length cls) src qr"
    "path_val F L cls src p \<longleftrightarrow> path_val F L cls src ql \<or> r' \<and> path_val F L cls src qr"
    by (rule path_split [OF g o below [OF s] h(3,1,2)])
  have "src = PathDefined" using g by (simp add: path_good_def)
  with s lr q show "(l \<longrightarrow> path_good L (length cls) (source_leftChild src') pl) \<and> (r \<longrightarrow> path_good L (length cls) (source_rightChild src') pr)
      \<and> (path_val F L cls src p \<longleftrightarrow> l \<and> path_val F L cls (source_leftChild src') pl \<or> r \<and> path_val F L cls (source_rightChild src') pr)"
    by (simp add: source_leftChild_def source_rightChild_def)
qed

text \<open>
  The handle of a formula with the cubes \<open>cls\<close>; a literal is never 0, and the path length is cut at 58, the
  longest that a path of 64 bits can hold.
\<close>

definition cubes_handle :: "(nat \<Rightarrow> nat) \<Rightarrow> int list list \<Rightarrow> cadical_handle \<Rightarrow> cadical_handle" where
  "cubes_handle clog cls h = generateJumplist (\<lambda>n. min 58 (clog n))
     (h\<lparr>pregeneratedCubes := zero_terminated (map (filter (\<lambda>l. l \<noteq> 0)) cls)\<rparr>)"

interpretation path_run: tree_source F "cubes_handle clog cls h" depth "min level 1" "min 58 (clog (length cls))"
  "path_good (min 58 (clog (length cls))) (length (map (filter (\<lambda>l. l \<noteq> 0)) cls))"
  "path_val F (min 58 (clog (length cls))) (map (filter (\<lambda>l. l \<noteq> 0)) cls)" for F clog cls h depth level
proof (rule path_cubes_source)
  let ?cls = "map (filter (\<lambda>l. l \<noteq> 0)) cls"
  let ?h = "h\<lparr>pregeneratedCubes := zero_terminated ?cls\<rparr>"
  have z: "pregeneratedCubes ?h = zero_terminated ?cls" "\<forall>c \<in> set ?cls. 0 \<notin> set c" by auto
  note f = generateJumplist_fields [OF z, of "\<lambda>n. min 58 (clog n)"]
  show "normalizedPathLength (cubes_handle clog cls h) = min 58 (clog (length cls))"
    "pregeneratedCubesCount (cubes_handle clog cls h) = length ?cls"
    "getCubeFromId (cubes_handle clog cls h) i = Some (if i < length ?cls then ?cls ! i else [])" for i
    using f getCubeFromId_nth [OF z, of "\<lambda>n. min 58 (clog n)" i] by (simp_all add: cubes_handle_def)
qed simp_all

section \<open>Whole runs\<close>

lemma cubes_handle_eq:
  assumes "pregeneratedCubes h = zero_terminated cls" "\<forall>c \<in> set cls. 0 \<notin> set c" "clog (length cls) \<le> 58"
  shows "cubes_handle clog cls h = generateJumplist clog h" "map (filter (\<lambda>l. l \<noteq> 0)) cls = cls"
proof -
  have "filter (\<lambda>l. l \<noteq> 0) c = c" if "c \<in> set cls" for c using assms(2) that by (auto simp: filter_id_conv)
  then show e: "map (filter (\<lambda>l. l \<noteq> 0)) cls = cls" by (simp add: map_idI)
  have "h\<lparr>pregeneratedCubes := zero_terminated cls\<rparr> = h" using assms(1) by (cases h) simp
  then show "cubes_handle clog cls h = generateJumplist clog h"
    using jumplist_loop_positions [OF assms(2), of 0 "[]"] assms(1,3) by (simp add: cubes_handle_def e generateJumplist_def)
qed

lemma path_val_root:
  assumes "length cls \<le> 2 ^ L"
  shows "path_val F L cls src parac_path_root \<longleftrightarrow> (\<exists>c \<in> set cls. sat_under F c)"
proof -
  have "path_val F L cls src parac_path_root \<longleftrightarrow> (\<exists>i < length cls. sat_under F (cls ! i))"
    using assms by (auto simp: path_val_def first_cube_def root_path)
  then show ?thesis by (metis in_set_conv_nth)
qed



section \<open>Witnesses\<close>

text \<open>An allocator that takes the first free address, and a solver that answers for the formula \<open>F\<close>.\<close>

definition first_free :: "task_store \<Rightarrow> task_ref" where
  "first_free s = (case List.find (\<lambda>x. heap s x = None) (map of_nat [0..<2 ^ 64]) of None \<Rightarrow> 0 | Some x \<Rightarrow> x)"

definition example_env :: "((nat \<Rightarrow> bool) \<Rightarrow> bool) \<Rightarrow> work_env" where
  "example_env F = \<lparr>env_resplitCube = (\<lambda>c. (PARAC_SPLITTED, int (length c) + 1)), env_lookahead = (\<lambda>c. ([], OTHER_STATE)),
     env_solve = (\<lambda>cs c. if sat_under (\<lambda>a. F a \<and> (\<forall>cl \<in> set cs. \<exists>l \<in> set cl. lit_true a l)) c then 10 else 20),
     env_rolling_mean = (\<lambda>ts. 0), env_has_timeout = False, env_expired_early = False, env_interrupted = False,
     env_stopped_before = False, env_stopped_after = False, env_solving_ms = 0, env_resplit_has_timeout = False,
     env_resplit_interrupted = (\<lambda>i. False), env_resplit_stopped = False, env_splitting_ms = 0,
     env_alloc = first_free, env_available = (\<lambda>n. False)\<rparr>"

lemma first_free_ok:
  assumes "dom (heap s) \<noteq> UNIV"
  shows "heap s (first_free s) = None"
proof -
  obtain x where x: "heap s x = None" using assms by (auto simp: dom_def)
  have "x = of_nat (unat x)" "unat x < 2 ^ 64" using unsigned_less [of x] by simp_all
  then have "x \<in> set (map of_nat [0..<2 ^ 64])" by (auto simp: image_iff intro: bexI [of _ "unat x"])
  with x have "List.find (\<lambda>x. heap s x = None) (map of_nat [0..<2 ^ 64]) \<noteq> None" unfolding find_None_iff by blast
  then obtain y where y: "List.find (\<lambda>x. heap s x = None) (map of_nat [0..<2 ^ 64]) = Some y" by blast
  then have "heap s y = None" unfolding find_Some_iff by blast
  with y show ?thesis by (simp add: first_free_def)
qed

lemma example_schedule: "0 < K \<Longrightarrow> schedule_ok F K (\<lambda>i. (example_env F, i mod K))"
  by (simp add: schedule_ok_def env_ok_def undisturbed_def literal_ok_def example_env_def first_free_ok)



end
