(* ===== verification/SendQueue.thy ===== *)
theory SendQueue
  imports Status "HOL-Library.Multiset"
begin

unbundle bit_operations_syntax

text \<open>
  The message send queue of a remote: \<^verbatim>\<open>modules/communicator/message_send_queue.cpp\<close> with its
  header, the packet header of \<^verbatim>\<open>packet.hpp\<close> and the outgoing message counter of
  \<^verbatim>\<open>service.cpp\<close>.

  A message or file is identified by a number that stands for its address; what it carries is not
  read here, only whether it has a callback.  Callbacks, notifications of the connection and calls of
  the compute node are appended to \<open>mq_events\<close>.  Whether the registered connection still exists is
  the return value of the notification function, an argument of the operations that call it.  The
  clock is an argument too (nanoseconds).  The map of sent messages is the list of its entries in
  ascending order of the keys.
\<close>

section \<open>Packet headers\<close>

text \<open>
  \<^verbatim>\<open>PacketHeader\<close>: the payload size and the status of an acknowledgement share a union; the
  status is a 32-bit enum in the low half of the word.
\<close>

record PacketHeader =
  hdr_originator :: parac_id
  hdr_number :: u32
  hdr_kind :: parac_message_kind
  hdr_word :: u64

definition set_size :: "u64 \<Rightarrow> PacketHeader \<Rightarrow> PacketHeader" where
  "set_size n h = h\<lparr>hdr_word := n\<rparr>"

definition set_ack_status :: "parac_status \<Rightarrow> PacketHeader \<Rightarrow> PacketHeader" where
  "set_ack_status s h = h\<lparr>hdr_word := (hdr_word h AND NOT (mask 32)) OR of_nat (status_code s)\<rparr>"

definition ack_status :: "PacketHeader \<Rightarrow> parac_status option" where
  "ack_status h = status_of_code (unat (hdr_word h AND mask 32))"

definition header_init :: PacketHeader where
  "header_init = \<lparr>hdr_originator = 0, hdr_number = 0, hdr_kind = PARAC_MESSAGE_UNKNOWN, hdr_word = 0\<rparr>"

section \<open>Entries\<close>

datatype TransmitMode = TransmitInit | TransmitMessage | TransmitFile | TransmitACK | TransmitEnd

record message_ref =
  msg_id :: nat
  msg_has_cb :: bool

datatype entry_value = MessageValue message_ref | FileValue message_ref | EndTag | ACKTag

record entry =
  header :: PacketHeader
  entry_value :: entry_value
  transmitMode :: TransmitMode
  queued_at :: int
  sent_at :: int

definition Entry_message :: "int \<Rightarrow> message_ref \<Rightarrow> parac_message_kind \<Rightarrow> u64 \<Rightarrow> parac_id \<Rightarrow> entry" where
  "Entry_message now m kind len orig =
     \<lparr>header = set_size len (header_init\<lparr>hdr_kind := kind, hdr_originator := orig\<rparr>),
      entry_value = MessageValue m, transmitMode = TransmitMessage, queued_at = now, sent_at = 0\<rparr>"

definition Entry_file :: "int \<Rightarrow> message_ref \<Rightarrow> u64 \<Rightarrow> parac_id \<Rightarrow> entry" where
  "Entry_file now f fsize orig =
     \<lparr>header = set_size fsize (header_init\<lparr>hdr_kind := PARAC_MESSAGE_FILE, hdr_originator := orig\<rparr>),
      entry_value = FileValue f, transmitMode = TransmitFile, queued_at = now, sent_at = 0\<rparr>"

definition Entry_end :: "int \<Rightarrow> entry" where
  "Entry_end now =
     \<lparr>header = set_size 0 (header_init\<lparr>hdr_kind := PARAC_MESSAGE_END\<rparr>),
      entry_value = EndTag, transmitMode = TransmitEnd, queued_at = now, sent_at = 0\<rparr>"

text \<open>
  The constructor for acknowledgements writes the status, then the number, then a size of 0.
  The variant is default constructed: its first alternative, a message without callback.
\<close>

definition Entry_ack :: "int \<Rightarrow> u32 \<Rightarrow> parac_status \<Rightarrow> entry" where
  "Entry_ack now ident status =
     \<lparr>header = set_size 0 ((set_ack_status status
        (header_init\<lparr>hdr_kind := PARAC_MESSAGE_ACK\<rparr>))\<lparr>hdr_number := ident\<rparr>),
      entry_value = MessageValue \<lparr>msg_id = 0, msg_has_cb = False\<rparr>,
      transmitMode = TransmitACK, queued_at = now, sent_at = 0\<rparr>"

section \<open>State\<close>

datatype notification = MessagesAvailable | KillConnection

datatype mq_event =
    Callback nat parac_status
  | Notify nat notification
  | ConnectionDropped
  | CreateComputeNode parac_id
  | ServiceStop

record send_queue =
  waitingForACK :: "(u32 \<times> entry) list"
  queued :: "entry list"
  m_remoteId :: parac_id
  m_messageNumber :: u32
  m_ACKdMessageCount :: u32
  m_remoteComputeNode :: bool
  m_trackedQueueSize :: u64
  m_notificationFunc :: "nat option"
  m_connectionString :: string
  m_availableToSendTo :: bool
  m_dropped :: bool
  m_serviceKnowsAboutWrites :: bool
  m_lastHeardOfRemote :: int
  svc_id :: parac_id
  svc_outgoing :: u64
  svc_stopRequested :: bool
  svc_messageTimeoutMS :: u16
  svc_connectionTimeoutMS :: u32
  mq_events :: "mq_event list"

definition mq_emit :: "mq_event \<Rightarrow> send_queue \<Rightarrow> send_queue" where
  "mq_emit e q = q\<lparr>mq_events := mq_events q @ [e]\<rparr>"

definition MessageSendQueue_init :: "int \<Rightarrow> parac_id \<Rightarrow> parac_id \<Rightarrow> u16 \<Rightarrow> u32 \<Rightarrow> send_queue" where
  "MessageSendQueue_init now remote local mt ct =
     \<lparr>waitingForACK = [], queued = [], m_remoteId = remote, m_messageNumber = 0,
      m_ACKdMessageCount = 0, m_remoteComputeNode = False, m_trackedQueueSize = 0,
      m_notificationFunc = None, m_connectionString = [], m_availableToSendTo = False,
      m_dropped = False, m_serviceKnowsAboutWrites = False, m_lastHeardOfRemote = now,
      svc_id = local, svc_outgoing = 0, svc_stopRequested = False, svc_messageTimeoutMS = mt,
      svc_connectionTimeoutMS = ct, mq_events = []\<rparr>"

text \<open>\<^verbatim>\<open>Entry::operator()\<close>: only messages and files have a callback.\<close>

definition entry_call :: "entry \<Rightarrow> parac_status \<Rightarrow> send_queue \<Rightarrow> send_queue" where
  "entry_call e status q = (case transmitMode e of
       TransmitMessage \<Rightarrow> (case entry_value e of
           MessageValue m \<Rightarrow> if msg_has_cb m then mq_emit (Callback (msg_id m) status) q else q
         | _ \<Rightarrow> q)
     | TransmitFile \<Rightarrow> (case entry_value e of
           FileValue f \<Rightarrow> if msg_has_cb f then mq_emit (Callback (msg_id f) status) q else q
         | _ \<Rightarrow> q)
     | _ \<Rightarrow> q)"

section \<open>The outgoing message counter of the service\<close>

definition addOutgoingMessageToCounter :: "u64 \<Rightarrow> send_queue \<Rightarrow> send_queue" where
  "addOutgoingMessageToCounter n q = q\<lparr>svc_outgoing := svc_outgoing q + n\<rparr>"

definition removeOutgoingMessageFromCounter :: "u64 \<Rightarrow> send_queue \<Rightarrow> send_queue" where
  "removeOutgoingMessageFromCounter n q =
     (let c = svc_outgoing q; q = q\<lparr>svc_outgoing := c - n\<rparr>
      in if svc_stopRequested q \<and> c - n = 0 then mq_emit ServiceStop q else q)"

section \<open>Operations\<close>

definition deregisterNotificationCB :: "send_queue \<Rightarrow> send_queue" where
  "deregisterNotificationCB q =
     (let was = m_availableToSendTo q;
          q = q\<lparr>m_availableToSendTo := False\<rparr>;
          q = (if was then q\<lparr>m_notificationFunc := None\<rparr> else q);
          knew = m_serviceKnowsAboutWrites q;
          q = q\<lparr>m_serviceKnowsAboutWrites := False\<rparr>
      in if knew \<and> m_trackedQueueSize q > 0
         then removeOutgoingMessageFromCounter (m_trackedQueueSize q) q else q)"

text \<open>
  \<^verbatim>\<open>send(Entry&&, bool)\<close>: \<open>alive\<close> is what the notification function returns.
\<close>

definition send_entry :: "bool \<Rightarrow> entry \<Rightarrow> bool \<Rightarrow> send_queue \<Rightarrow> send_queue" where
  "send_entry alive e resend q =
     (if m_dropped q then q
      else
        let kind = hdr_kind (header e);
            (e, q) = (if kind \<noteq> PARAC_MESSAGE_ACK \<and> \<not> resend
                      then (e\<lparr>header := (header e)\<lparr>hdr_number := m_messageNumber q\<rparr>\<rparr>,
                            q\<lparr>m_messageNumber := m_messageNumber q + 1\<rparr>)
                      else (e, q));
            q = q\<lparr>queued := queued q @ [e]\<rparr>
        in case (m_availableToSendTo q, m_notificationFunc q) of
             (True, Some c) \<Rightarrow>
               let q = mq_emit (Notify c MessagesAvailable) q
               in if \<not> alive then deregisterNotificationCB q
                  else if parac_message_kind_is_count_tracked kind \<and> \<not> resend
                  then let q = q\<lparr>m_trackedQueueSize := m_trackedQueueSize q + 1\<rparr>
                       in if m_serviceKnowsAboutWrites q then addOutgoingMessageToCounter 1 q else q
                  else q
           | _ \<Rightarrow> q\<lparr>m_availableToSendTo := False\<rparr>)"

definition send_message ::
  "bool \<Rightarrow> int \<Rightarrow> message_ref \<Rightarrow> parac_message_kind \<Rightarrow> u64 \<Rightarrow> parac_id \<Rightarrow> send_queue \<Rightarrow> send_queue" where
  "send_message alive now m kind len orig q = send_entry alive (Entry_message now m kind len orig) False q"

definition send_file :: "bool \<Rightarrow> int \<Rightarrow> message_ref \<Rightarrow> u64 \<Rightarrow> parac_id \<Rightarrow> send_queue \<Rightarrow> send_queue" where
  "send_file alive now f fsize orig q = send_entry alive (Entry_file now f fsize orig) False q"

definition send_end :: "bool \<Rightarrow> int \<Rightarrow> send_queue \<Rightarrow> send_queue" where
  "send_end alive now q = send_entry alive (Entry_end now) False q"

definition sendACK :: "bool \<Rightarrow> int \<Rightarrow> u32 \<Rightarrow> parac_status \<Rightarrow> send_queue \<Rightarrow> send_queue" where
  "sendACK alive now ident status q = send_entry alive (Entry_ack now ident status) False q"

text \<open>
  The functions a compute node calls; \<open>None\<close> for the queue is a cleared
  \<^verbatim>\<open>communicator_userdata\<close>, the result then are the two callbacks made instead.
\<close>

definition static_send_message_to ::
  "bool \<Rightarrow> int \<Rightarrow> message_ref \<Rightarrow> parac_message_kind \<Rightarrow> u64 \<Rightarrow> parac_id \<Rightarrow> send_queue option \<Rightarrow>
   send_queue option \<times> mq_event list" where
  "static_send_message_to alive now m kind len orig self = (case self of
       Some q \<Rightarrow> (Some (send_message alive now m kind len orig q), [])
     | None \<Rightarrow> (None, [Callback (msg_id m) PARAC_CONNECTION_CLOSED, Callback (msg_id m) PARAC_TO_BE_DELETED]))"

definition static_send_file_to ::
  "bool \<Rightarrow> int \<Rightarrow> message_ref \<Rightarrow> u64 \<Rightarrow> parac_id \<Rightarrow> send_queue option \<Rightarrow>
   send_queue option \<times> mq_event list" where
  "static_send_file_to alive now f fsize orig self = (case self of
       Some q \<Rightarrow> (Some (send_file alive now f fsize orig q), [])
     | None \<Rightarrow> (None, [Callback (msg_id f) PARAC_CONNECTION_CLOSED, Callback (msg_id f) PARAC_TO_BE_DELETED]))"

definition static_available_to_send_to :: "send_queue option \<Rightarrow> bool" where
  "static_available_to_send_to self = (case self of Some q \<Rightarrow> m_availableToSendTo q | None \<Rightarrow> False)"

text \<open>The operations of \<^verbatim>\<open>std::map\<close> on the sorted list.\<close>

fun map_try_emplace :: "u32 \<Rightarrow> entry \<Rightarrow> (u32 \<times> entry) list \<Rightarrow> (u32 \<times> entry) list" where
  "map_try_emplace k e [] = [(k, e)]"
| "map_try_emplace k e ((k', e') # xs) =
     (if k < k' then (k, e) # (k', e') # xs
      else if k = k' then (k', e') # xs
      else (k', e') # map_try_emplace k e xs)"

definition map_erase :: "u32 \<Rightarrow> (u32 \<times> entry) list \<Rightarrow> (u32 \<times> entry) list" where
  "map_erase k xs = filter (\<lambda>x. fst x \<noteq> k) xs"

text \<open>
  \<^verbatim>\<open>handleACK\<close>: for a number that is not waiting, the source reads through an empty optional.
  A status outside the enum cannot be named here and gives \<open>None\<close> as well.
\<close>

definition handleACK :: "PacketHeader \<Rightarrow> send_queue \<Rightarrow> (bool \<times> send_queue) option" where
  "handleACK ack q = do {
     sentItem \<leftarrow> map_of (waitingForACK q) (hdr_number ack);
     let q = q\<lparr>waitingForACK := map_erase (hdr_number ack) (waitingForACK q)\<rparr>;
     status \<leftarrow> ack_status ack;
     let q = entry_call sentItem status q;
     let q = entry_call sentItem PARAC_TO_BE_DELETED q;
     Some (True, q\<lparr>m_ACKdMessageCount := m_ACKdMessageCount q + 1\<rparr>) }"

definition mq_front :: "send_queue \<Rightarrow> entry option" where
  "mq_front q = (case queued q of [] \<Rightarrow> None | e # _ \<Rightarrow> Some e)"

definition popFromQueued :: "int \<Rightarrow> send_queue \<Rightarrow> send_queue option" where
  "popFromQueued now q = (case queued q of
       [] \<Rightarrow> None
     | r # rest \<Rightarrow>
         let q = q\<lparr>queued := rest\<rparr>;
             kind = hdr_kind (header r);
             number = hdr_number (header r);
             r = r\<lparr>sent_at := now\<rparr>;
             q = (if parac_message_kind_is_waiting_for_ack kind
                  then q\<lparr>waitingForACK := map_try_emplace number r (waitingForACK q)\<rparr> else q)
         in Some (if parac_message_kind_is_count_tracked kind
                  then let q = q\<lparr>m_trackedQueueSize := m_trackedQueueSize q - 1\<rparr>
                       in if m_serviceKnowsAboutWrites q then removeOutgoingMessageFromCounter 1 q else q
                  else q))"

definition mq_empty :: "send_queue \<Rightarrow> bool" where
  "mq_empty q \<longleftrightarrow> queued q = []"

text \<open>
  \<^verbatim>\<open>registerNotificationCB\<close>: returns whether the connection is accepted.  \<open>has_node\<close> is
  the answer of the compute node store whether it knows the remote.
\<close>

definition registerNotificationCB ::
  "bool \<Rightarrow> nat \<Rightarrow> string \<Rightarrow> bool \<Rightarrow> send_queue \<Rightarrow> (bool \<times> send_queue) option" where
  "registerNotificationCB has_node f conn isConnectionInitiator q =
     (if m_dropped q then Some (False, q)
      else do {
        let greater = m_remoteId q < svc_id q;
        let refused = (m_notificationFunc q \<noteq> None \<and>
              (isConnectionInitiator \<and> greater \<and> m_ACKdMessageCount q \<ge> 1
               \<or> \<not> isConnectionInitiator \<and> greater
               \<or> \<not> isConnectionInitiator \<and> \<not> greater \<and> m_ACKdMessageCount q \<ge> 1
               \<or> isConnectionInitiator \<and> \<not> greater));
        if refused then Some (False, q)
        else do {
          let overtake = (m_notificationFunc q \<noteq> None);
          let q = (case m_notificationFunc q of
                     Some old \<Rightarrow> mq_emit (Notify old KillConnection) q | None \<Rightarrow> q);
          let q = q\<lparr>m_notificationFunc := Some f, m_availableToSendTo := True,
                    m_connectionString := conn\<rparr>;
          let q = (if m_trackedQueueSize q > 0 \<and> \<not> overtake
                   then let knew = m_serviceKnowsAboutWrites q;
                            q = q\<lparr>m_serviceKnowsAboutWrites := True\<rparr>
                        in if \<not> knew then addOutgoingMessageToCounter (m_trackedQueueSize q) q else q
                   else q);
          if m_remoteComputeNode q then Some (True, q)
          else do {
            c_assert (\<not> has_node);
            Some (True, mq_emit (CreateComputeNode (m_remoteId q)) (q\<lparr>m_remoteComputeNode := True\<rparr>)) } } })"

text \<open>\<^verbatim>\<open>clear\<close>: every entry is called back with a timeout, then with the deletion notice.\<close>

fun close_all :: "parac_status \<Rightarrow> entry list \<Rightarrow> send_queue \<Rightarrow> send_queue" where
  "close_all st [] q = q"
| "close_all st (e # es) q = close_all st es (entry_call e PARAC_TO_BE_DELETED (entry_call e st q))"

definition tracked_count :: "entry list \<Rightarrow> nat" where
  "tracked_count es = length (filter (\<lambda>e. parac_message_kind_is_count_tracked (hdr_kind (header e))) es)"

definition mq_clear :: "send_queue \<Rightarrow> send_queue" where
  "mq_clear q =
     (let es = queued q @ map snd (waitingForACK q)
      in close_all PARAC_MESSAGE_TIMEOUT_ERROR es
           (q\<lparr>m_trackedQueueSize := m_trackedQueueSize q - of_nat (tracked_count (queued q)),
              queued := [], waitingForACK := []\<rparr>))"

definition MessageSendQueue_destroy :: "send_queue \<Rightarrow> send_queue" where
  "MessageSendQueue_destroy q =
     (let q' = close_all PARAC_CONNECTION_CLOSED (queued q) q
      in close_all PARAC_CONNECTION_CLOSED (map snd (waitingForACK q)) (q'\<lparr>queued := []\<rparr>))"

definition notifyOfRead :: "int \<Rightarrow> send_queue \<Rightarrow> send_queue" where
  "notifyOfRead now q = q\<lparr>m_lastHeardOfRemote := now\<rparr>"

text \<open>
  \<^verbatim>\<open>duration_cast<milliseconds>\<close> of a nanosecond difference: truncation towards zero.
\<close>

definition to_ms :: "int \<Rightarrow> int" where
  "to_ms d = (if d \<ge> 0 then d div 1000000 else - (- d div 1000000))"

text \<open>
  The loop of \<^verbatim>\<open>tick\<close> over the waiting messages.  After an erase the log statement reads the
  iterator of the next entry, which does not exist behind the last one.
\<close>

fun tick_waiting ::
  "bool \<Rightarrow> int \<Rightarrow> (u32 \<times> entry) list \<Rightarrow> (u32 \<times> entry) list \<Rightarrow> send_queue \<Rightarrow> send_queue option" where
  "tick_waiting alive now kept [] q = Some (q\<lparr>waitingForACK := kept\<rparr>)"
| "tick_waiting alive now kept ((k, e) # xs) q =
     (let dur = to_ms (sent_at e - now)
      in if dur > int (unat (svc_messageTimeoutMS q)) div 2 then do {
           let q = send_entry alive e True q;
           c_assert (xs \<noteq> []);
           tick_waiting alive now kept xs q }
         else if dur > int (unat (svc_messageTimeoutMS q)) then do {
           let q = (if parac_message_kind_is_count_tracked (hdr_kind (header e))
                    then let q = q\<lparr>m_trackedQueueSize := m_trackedQueueSize q - 1\<rparr>
                         in if m_serviceKnowsAboutWrites q then removeOutgoingMessageFromCounter 1 q else q
                    else q);
           let q = entry_call e PARAC_TO_BE_DELETED (entry_call e PARAC_MESSAGE_TIMEOUT_ERROR q);
           c_assert (xs \<noteq> []);
           tick_waiting alive now kept xs q }
         else tick_waiting alive now (kept @ [(k, e)]) xs q)"

definition tick_connection :: "int \<Rightarrow> send_queue \<Rightarrow> send_queue" where
  "tick_connection now q =
     (let lastReadDur = to_ms (now - m_lastHeardOfRemote q)
      in if \<not> m_dropped q \<and> lastReadDur > int (unat (svc_connectionTimeoutMS q)) then
           let q = (case m_notificationFunc q of
                      Some c \<Rightarrow> deregisterNotificationCB (mq_emit (Notify c KillConnection) q)
                    | None \<Rightarrow> q);
               q = mq_clear q;
               q = (if m_remoteComputeNode q then mq_emit ConnectionDropped q else q)
           in q\<lparr>m_dropped := True\<rparr>
         else q)"

definition mq_tick :: "bool \<Rightarrow> int \<Rightarrow> send_queue \<Rightarrow> send_queue option" where
  "mq_tick alive now q = do {
     q \<leftarrow> tick_waiting alive now [] (waitingForACK q) q;
     Some (tick_connection now q) }"

section \<open>Messages and their callbacks\<close>

definition entry_id :: "entry \<Rightarrow> nat option" where
  "entry_id e = (case (transmitMode e, entry_value e) of
       (TransmitMessage, MessageValue m) \<Rightarrow> if msg_has_cb m then Some (msg_id m) else None
     | (TransmitFile, FileValue m) \<Rightarrow> if msg_has_cb m then Some (msg_id m) else None
     | _ \<Rightarrow> None)"

lemma entry_call_id:
  "entry_call e st q = (case entry_id e of None \<Rightarrow> q | Some i \<Rightarrow> mq_emit (Callback i st) q)"
  by (auto simp: entry_call_def entry_id_def split: TransmitMode.splits entry_value.splits)

definition ids :: "entry list \<Rightarrow> nat multiset" where
  "ids es = mset (List.map_filter entry_id es)"

definition deleted_id :: "mq_event \<Rightarrow> nat option" where
  "deleted_id ev = (case ev of Callback i st \<Rightarrow> if st = PARAC_TO_BE_DELETED then Some i else None | _ \<Rightarrow> None)"

definition deleted :: "mq_event list \<Rightarrow> nat multiset" where
  "deleted evs = mset (List.map_filter deleted_id evs)"

definition all_ids :: "send_queue \<Rightarrow> nat multiset" where
  "all_ids q = ids (queued q) + ids (map snd (waitingForACK q)) + deleted (mq_events q)"

lemma ids_simps [queue_simps]:
  "ids [] = {#}" "ids (e # es) = (case entry_id e of None \<Rightarrow> {#} | Some i \<Rightarrow> {#i#}) + ids es"
  "ids (xs @ ys) = ids xs + ids ys"
  by (auto simp: ids_def List.map_filter_def split: option.splits)

lemma deleted_simps [queue_simps]:
  "deleted [] = {#}" "deleted (e # es) = (case deleted_id e of None \<Rightarrow> {#} | Some i \<Rightarrow> {#i#}) + deleted es"
  "deleted (xs @ ys) = deleted xs + deleted ys"
  by (auto simp: deleted_def List.map_filter_def split: option.splits)

lemma emit_fields [queue_simps]:
  "queued (mq_emit e q) = queued q" "waitingForACK (mq_emit e q) = waitingForACK q"
  "m_messageNumber (mq_emit e q) = m_messageNumber q" "m_dropped (mq_emit e q) = m_dropped q"
  "m_trackedQueueSize (mq_emit e q) = m_trackedQueueSize q"
  "mq_events (mq_emit e q) = mq_events q @ [e]"
  by (simp_all add: mq_emit_def)

lemma entry_call_fields [queue_simps]:
  "queued (entry_call e st q) = queued q" "waitingForACK (entry_call e st q) = waitingForACK q"
  "m_messageNumber (entry_call e st q) = m_messageNumber q" "m_dropped (entry_call e st q) = m_dropped q"
  "m_trackedQueueSize (entry_call e st q) = m_trackedQueueSize q"
  "deleted (mq_events (entry_call e st q)) = deleted (mq_events q) +
     (if st = PARAC_TO_BE_DELETED then ids [e] else {#})"
  by (auto simp: entry_call_id queue_simps deleted_id_def split: option.splits)

lemma close_all_fields [queue_simps]:
  "st \<noteq> PARAC_TO_BE_DELETED \<Longrightarrow> deleted (mq_events (close_all st es q)) = deleted (mq_events q) + ids es"
  "queued (close_all st es q) = queued q" "waitingForACK (close_all st es q) = waitingForACK q"
  "m_messageNumber (close_all st es q) = m_messageNumber q" "m_dropped (close_all st es q) = m_dropped q"
  "m_trackedQueueSize (close_all st es q) = m_trackedQueueSize q"
  by (induction es arbitrary: q) (auto simp: queue_simps)

lemma remove_fields [queue_simps]:
  "queued (removeOutgoingMessageFromCounter n q) = queued q"
  "waitingForACK (removeOutgoingMessageFromCounter n q) = waitingForACK q"
  "m_messageNumber (removeOutgoingMessageFromCounter n q) = m_messageNumber q"
  "m_dropped (removeOutgoingMessageFromCounter n q) = m_dropped q"
  "deleted (mq_events (removeOutgoingMessageFromCounter n q)) = deleted (mq_events q)"
  by (simp_all add: removeOutgoingMessageFromCounter_def Let_def queue_simps deleted_id_def)

lemma deregister_fields [queue_simps]:
  "queued (deregisterNotificationCB q) = queued q"
  "waitingForACK (deregisterNotificationCB q) = waitingForACK q"
  "m_messageNumber (deregisterNotificationCB q) = m_messageNumber q"
  "m_dropped (deregisterNotificationCB q) = m_dropped q"
  "deleted (mq_events (deregisterNotificationCB q)) = deleted (mq_events q)"
  by (simp_all add: deregisterNotificationCB_def Let_def queue_simps)

text \<open>The entry as it is queued, and the fields a send changes.\<close>

definition numbered :: "bool \<Rightarrow> entry \<Rightarrow> send_queue \<Rightarrow> entry" where
  "numbered resend e q = (if hdr_kind (header e) \<noteq> PARAC_MESSAGE_ACK \<and> \<not> resend
     then e\<lparr>header := (header e)\<lparr>hdr_number := m_messageNumber q\<rparr>\<rparr> else e)"

lemma numbered_id [simp]: "entry_id (numbered resend e q) = entry_id e"
  "hdr_kind (header (numbered resend e q)) = hdr_kind (header e)"
  by (auto simp: numbered_def entry_id_def split: TransmitMode.splits entry_value.splits)

lemma send_entry_fields [queue_simps]:
  assumes "\<not> m_dropped q"
  shows "queued (send_entry alive e resend q) = queued q @ [numbered resend e q]"
    "waitingForACK (send_entry alive e resend q) = waitingForACK q"
    "m_messageNumber (send_entry alive e resend q) =
       (if hdr_kind (header e) \<noteq> PARAC_MESSAGE_ACK \<and> \<not> resend then m_messageNumber q + 1 else m_messageNumber q)"
    "m_dropped (send_entry alive e resend q) = m_dropped q"
    "deleted (mq_events (send_entry alive e resend q)) = deleted (mq_events q)"
  using assms
  by (auto simp: send_entry_def Let_def numbered_def queue_simps deleted_id_def addOutgoingMessageToCounter_def
      split: option.splits bool.splits)

section \<open>Numbers and conservation of messages\<close>

definition acked :: "entry \<Rightarrow> bool" where
  "acked e \<longleftrightarrow> parac_message_kind_is_waiting_for_ack (hdr_kind (header e))"

definition num :: "entry \<Rightarrow> u32" where "num e = hdr_number (header e)"

text \<open>
  The invariant: the messages that are acknowledged later have pairwise different numbers below
  the counter, queued and waiting ones together; the map is keyed by the numbers; an entry with a
  callback is acknowledged.
\<close>

definition mq_inv :: "send_queue \<Rightarrow> bool" where
  "mq_inv q \<longleftrightarrow> distinct (map num (filter acked (queued q)) @ map fst (waitingForACK q))
     \<and> (\<forall>n \<in> set (map num (filter acked (queued q)) @ map fst (waitingForACK q)). n < m_messageNumber q)
     \<and> (\<forall>(k, e) \<in> set (waitingForACK q). num e = k)
     \<and> (\<forall>e \<in> set (queued q). entry_id e \<noteq> None \<longrightarrow> acked e)"

lemma try_emplace_new:
  "k \<notin> set (map fst xs) \<Longrightarrow> mset (map_try_emplace k e xs) = add_mset (k, e) (mset xs)"
  by (induction k e xs rule: map_try_emplace.induct) auto

lemma mset_ids: "mset xs = mset ys \<Longrightarrow> ids xs = ids ys"
  by (simp add: ids_def List.map_filter_def)

lemma try_emplace_fields:
  assumes "k \<notin> set (map fst xs)"
  shows "set (map_try_emplace k e xs) = insert (k, e) (set xs)"
    "distinct (map fst (map_try_emplace k e xs)) \<longleftrightarrow> distinct (map fst xs)"
    "set (map fst (map_try_emplace k e xs)) = insert k (set (map fst xs))"
    "ids (map snd (map_try_emplace k e xs)) = ids [e] + ids (map snd xs)"
proof -
  note m = try_emplace_new [OF assms, of e]
  show s: "set (map_try_emplace k e xs) = insert (k, e) (set xs)"
    using arg_cong [OF m, of set_mset] by simp
  then show "set (map fst (map_try_emplace k e xs)) = insert k (set (map fst xs))" by auto
  have "mset (map fst (map_try_emplace k e xs)) = mset (k # map fst xs)"
    using m by simp
  then show "distinct (map fst (map_try_emplace k e xs)) \<longleftrightarrow> distinct (map fst xs)"
    using assms mset_eq_imp_distinct_iff by fastforce
  have "mset (map snd (map_try_emplace k e xs)) = mset (e # map snd xs)"
    using m by simp
  from mset_ids [OF this] show "ids (map snd (map_try_emplace k e xs)) = ids [e] + ids (map snd xs)"
    by (simp add: queue_simps)
qed

lemma erase_ids:
  assumes "distinct (map fst xs)" "map_of xs k = Some e"
  shows "ids (map snd xs) = ids [e] + ids (map snd (map_erase k xs))"
    "set (map fst (map_erase k xs)) = set (map fst xs) - {k}"
    "distinct (map fst (map_erase k xs))"
  using assms
proof (induction xs)
  case (Cons x xs)
  {
    case 1
    then show ?case
    proof (cases "fst x = k")
      case True
      have "fst y \<noteq> k" if "y \<in> set xs" for y using True 1(1) that by (metis distinct.simps(2) imageI image_set list.simps(9))
      then have "map_erase k xs = xs" by (simp add: map_erase_def filter_id_conv)
      with True 1 show ?thesis by (auto simp: map_erase_def queue_simps)
    next
      case False
      with 1 Cons.IH(1) show ?thesis by (cases x) (auto simp: map_erase_def queue_simps)
    qed
  next
    case 2
    then show ?case by (auto simp: map_erase_def)
  next
    case 3
    then show ?case unfolding map_erase_def by (intro distinct_map_filter) simp
  }
qed (auto simp: map_erase_def)

lemma send_inv:
  assumes inv: "mq_inv q" and nd: "\<not> m_dropped q"
    and e: "entry_id e \<noteq> None \<longrightarrow> acked e" "unat (m_messageNumber q) + 1 < 2 ^ 32"
  shows "mq_inv (send_entry alive e False q)"
    "all_ids (send_entry alive e False q) = all_ids q + ids [e]"
proof -
  have less: "n < m_messageNumber q \<Longrightarrow> n < m_messageNumber q + 1" "m_messageNumber q < m_messageNumber q + 1" for n
    using e(2) by (auto simp: word_less_nat_alt unat_word_ariths)
  have ack: "hdr_kind (header e) = PARAC_MESSAGE_ACK \<Longrightarrow> \<not> acked e"
    by (simp add: acked_def)
  have n: "acked (numbered False e q) = acked e" "acked e \<Longrightarrow> num (numbered False e q) = m_messageNumber q"
    using ack by (auto simp: acked_def num_def numbered_def)
  show "mq_inv (send_entry alive e False q)"
    using inv e(1) less ack n unfolding mq_inv_def send_entry_fields [OF nd]
    by (auto simp: less_irrefl)
  show "all_ids (send_entry alive e False q) = all_ids q + ids [e]"
    by (simp add: all_ids_def send_entry_fields [OF nd] queue_simps)
qed

lemma pop_cases:
  assumes pop: "popFromQueued now q = Some q'"
  obtains r rest where "queued q = r # rest" "queued q' = rest"
    "waitingForACK q' = (if acked r then map_try_emplace (num r) (r\<lparr>sent_at := now\<rparr>) (waitingForACK q)
      else waitingForACK q)" "m_messageNumber q' = m_messageNumber q" "m_dropped q' = m_dropped q"
    "deleted (mq_events q') = deleted (mq_events q)"
proof -
  from pop obtain r rest where q: "queued q = r # rest" by (auto simp: popFromQueued_def split: list.splits)
  show thesis
    by (rule that [OF q]) (use pop q in \<open>simp_all add: popFromQueued_def Let_def acked_def num_def queue_simps
      split: if_splits\<close>, auto simp: queue_simps)
qed

lemma pop_inv:
  assumes inv: "mq_inv q" and pop: "popFromQueued now q = Some q'"
  shows "mq_inv q'" "all_ids q' = all_ids q" "m_dropped q' = m_dropped q"
    "m_messageNumber q' = m_messageNumber q"
proof -
  from pop obtain r rest where q: "queued q = r # rest" and f: "queued q' = rest"
    "waitingForACK q' = (if acked r then map_try_emplace (num r) (r\<lparr>sent_at := now\<rparr>) (waitingForACK q)
      else waitingForACK q)" "m_messageNumber q' = m_messageNumber q" "m_dropped q' = m_dropped q"
    "deleted (mq_events q') = deleted (mq_events q)"
    by (rule pop_cases)
  let ?r = "r\<lparr>sent_at := now\<rparr>"
  show "m_dropped q' = m_dropped q" "m_messageNumber q' = m_messageNumber q" using f by simp_all
  have k: "acked r \<Longrightarrow> num r \<notin> set (map fst (waitingForACK q))"
    using inv q by (auto simp: mq_inv_def)
  have i: "entry_id ?r = entry_id r"
    by (auto simp: entry_id_def split: TransmitMode.splits entry_value.splits)
  show "mq_inv q'"
  proof (cases "acked r")
    case True
    note t = try_emplace_fields [OF k [OF True], of ?r]
    from inv q t True show ?thesis
      unfolding mq_inv_def f by (auto simp: num_def)
  next
    case False
    with inv q show ?thesis unfolding mq_inv_def f by auto
  qed
  show "all_ids q' = all_ids q"
  proof (cases "acked r")
    case True
    with try_emplace_fields(4) [OF k [OF True], of ?r] show ?thesis
      by (simp add: all_ids_def f q queue_simps i)
  next
    case False
    then have "entry_id r = None" using inv q by (auto simp: mq_inv_def)
    with False show ?thesis by (simp add: all_ids_def f q queue_simps)
  qed
qed

lemma handleACK_cases:
  assumes a: "handleACK ack q = Some (b, q')"
  obtains e st where "map_of (waitingForACK q) (hdr_number ack) = Some e" "ack_status ack = Some st"
    "b" "q' = (entry_call e PARAC_TO_BE_DELETED (entry_call e st
       (q\<lparr>waitingForACK := map_erase (hdr_number ack) (waitingForACK q)\<rparr>)))\<lparr>m_ACKdMessageCount := m_ACKdMessageCount q + 1\<rparr>"
proof -
  have m: "m_ACKdMessageCount (entry_call e st q) = m_ACKdMessageCount q" for e st q
    by (simp add: entry_call_id mq_emit_def split: option.splits)
  from a obtain e st where e: "map_of (waitingForACK q) (hdr_number ack) = Some e" "ack_status ack = Some st"
    by (auto simp: handleACK_def bind_eq_Some_conv)
  with a m that show thesis by (simp add: handleACK_def Let_def)
qed

lemma ack_inv:
  assumes inv: "mq_inv q" and a: "handleACK ack q = Some (b, q')" and st: "ack_status ack \<noteq> Some PARAC_TO_BE_DELETED"
  shows "mq_inv q'" "all_ids q' = all_ids q" "m_dropped q' = m_dropped q"
    "m_messageNumber q' = m_messageNumber q"
proof -
  from a obtain e st where e: "map_of (waitingForACK q) (hdr_number ack) = Some e" "ack_status ack = Some st"
    and q': "q' = (entry_call e PARAC_TO_BE_DELETED (entry_call e st
       (q\<lparr>waitingForACK := map_erase (hdr_number ack) (waitingForACK q)\<rparr>)))\<lparr>m_ACKdMessageCount := m_ACKdMessageCount q + 1\<rparr>"
    by (rule handleACK_cases)
  have d: "distinct (map fst (waitingForACK q))" using inv by (simp add: mq_inv_def)
  have f: "queued q' = queued q" "waitingForACK q' = map_erase (hdr_number ack) (waitingForACK q)"
    "m_messageNumber q' = m_messageNumber q" "m_dropped q' = m_dropped q"
    "deleted (mq_events q') = deleted (mq_events q) + ids [e]"
    using e st by (simp_all add: q' queue_simps)
  show "m_dropped q' = m_dropped q" "m_messageNumber q' = m_messageNumber q" using f by simp_all
  have sub: "set (map_erase (hdr_number ack) (waitingForACK q)) \<subseteq> set (waitingForACK q)"
    by (auto simp: map_erase_def)
  show "mq_inv q'"
    using inv sub unfolding mq_inv_def f distinct_append set_append erase_ids(2) [OF d e(1)]
    by (intro conjI erase_ids(3) [OF d e(1)]) blast+
  show "all_ids q' = all_ids q"
    using erase_ids(1) [OF d e(1)] by (simp add: all_ids_def f)
qed

lemma register_fields:
  assumes "registerNotificationCB hn f conn i q = Some (b, q')"
  shows "queued q' = queued q" "waitingForACK q' = waitingForACK q" "m_messageNumber q' = m_messageNumber q"
    "m_dropped q' = m_dropped q" "deleted (mq_events q') = deleted (mq_events q)"
  using assms
  by (auto simp: registerNotificationCB_def Let_def queue_simps deleted_id_def addOutgoingMessageToCounter_def
      split: if_splits option.splits)

lemma clear_fields [queue_simps]:
  "queued (mq_clear q) = []" "waitingForACK (mq_clear q) = []" "m_messageNumber (mq_clear q) = m_messageNumber q"
  "m_dropped (mq_clear q) = m_dropped q" "deleted (mq_events (mq_clear q)) = all_ids q"
  by (simp_all add: mq_clear_def Let_def queue_simps all_ids_def)

text \<open>A message sent in the past is neither resent nor timed out: the loop of \<open>mq_tick\<close> keeps all.\<close>

lemma to_ms_neg: "d \<le> 0 \<Longrightarrow> to_ms d \<le> 0"
  by (auto simp: to_ms_def pos_imp_zdiv_nonneg_iff)

lemma tick_waiting_keeps:
  "\<forall>x \<in> set xs. sent_at (snd x) \<le> now \<Longrightarrow>
   tick_waiting alive now kept xs q = Some (q\<lparr>waitingForACK := kept @ xs\<rparr>)"
proof (induction alive now kept xs q rule: tick_waiting.induct)
  case (2 alive now kept k e xs q)
  then have "to_ms (sent_at e - now) \<le> 0" by (intro to_ms_neg) simp
  moreover have "0 \<le> int (unat (svc_messageTimeoutMS q)) div 2" by simp
  ultimately have "\<not> to_ms (sent_at e - now) > int (unat (svc_messageTimeoutMS q)) div 2"
    "\<not> to_ms (sent_at e - now) > int (unat (svc_messageTimeoutMS q))" by linarith+
  with 2 show ?case by (simp add: Let_def)
qed simp

lemma mq_tick_eq:
  "\<forall>x \<in> set (waitingForACK q). sent_at (snd x) \<le> now \<Longrightarrow> mq_tick alive now q = Some (tick_connection now q)"
  by (simp add: mq_tick_def tick_waiting_keeps)

lemma tick_connection_fields:
  fixes q now
  defines "dropping \<equiv> \<not> m_dropped q \<and> to_ms (now - m_lastHeardOfRemote q) > int (unat (svc_connectionTimeoutMS q))"
  shows "queued (tick_connection now q) = (if dropping then [] else queued q)"
    "waitingForACK (tick_connection now q) = (if dropping then [] else waitingForACK q)"
    "m_messageNumber (tick_connection now q) = m_messageNumber q"
    "m_dropped (tick_connection now q) = (dropping \<or> m_dropped q)"
    "deleted (mq_events (tick_connection now q)) = (if dropping then all_ids q else deleted (mq_events q))"
proof -
  define q1 where "q1 = (case m_notificationFunc q of
     Some c \<Rightarrow> deregisterNotificationCB (mq_emit (Notify c KillConnection) q) | None \<Rightarrow> q)"
  have q1: "all_ids q1 = all_ids q" "m_messageNumber q1 = m_messageNumber q"
    by (simp_all add: q1_def all_ids_def queue_simps deleted_id_def split: option.splits)
  have t: "tick_connection now q = (if dropping then
       (if m_remoteComputeNode (mq_clear q1) then mq_emit ConnectionDropped (mq_clear q1) else mq_clear q1)\<lparr>m_dropped := True\<rparr>
     else q)"
    by (simp add: tick_connection_def Let_def dropping_def q1_def)
  show "queued (tick_connection now q) = (if dropping then [] else queued q)"
    "waitingForACK (tick_connection now q) = (if dropping then [] else waitingForACK q)"
    "m_messageNumber (tick_connection now q) = m_messageNumber q"
    "m_dropped (tick_connection now q) = (dropping \<or> m_dropped q)"
    "deleted (mq_events (tick_connection now q)) = (if dropping then all_ids q else deleted (mq_events q))"
    by (simp_all add: t queue_simps q1 deleted_id_def)
qed

section \<open>Reachable send queues\<close>

text \<open>
  A state is the clock, the messages accepted so far (with a callback) and the queue.  The clock is
  monotonic.  The number counter has not wrapped around, acknowledgements carry a status other than
  the deletion notice, and the message kinds that are never acknowledged are not sent with a callback.
\<close>

inductive mq_step :: "int \<times> nat multiset \<times> send_queue \<Rightarrow> int \<times> nat multiset \<times> send_queue \<Rightarrow> bool" where
  send: "\<lbrakk>t \<le> t'; entry_id e \<noteq> None \<longrightarrow> acked e; unat (m_messageNumber q) + 1 < 2 ^ 32\<rbrakk> \<Longrightarrow>
    mq_step (t, acc, q) (t', if m_dropped q then acc else acc + ids [e], send_entry alive e False q)"
| ack: "\<lbrakk>t \<le> t'; ack_status h \<noteq> Some PARAC_TO_BE_DELETED; handleACK h q = Some (b, q')\<rbrakk> \<Longrightarrow>
    mq_step (t, acc, q) (t', acc, q')"
| pop: "\<lbrakk>t \<le> t'; popFromQueued t' q = Some q'\<rbrakk> \<Longrightarrow> mq_step (t, acc, q) (t', acc, q')"
| register: "\<lbrakk>t \<le> t'; registerNotificationCB hn f conn i q = Some (b, q')\<rbrakk> \<Longrightarrow> mq_step (t, acc, q) (t', acc, q')"
| deregister: "t \<le> t' \<Longrightarrow> mq_step (t, acc, q) (t', acc, deregisterNotificationCB q)"
| read: "t \<le> t' \<Longrightarrow> mq_step (t, acc, q) (t', acc, notifyOfRead t' q)"
| tick: "\<lbrakk>t \<le> t'; mq_tick alive t' q = Some q'\<rbrakk> \<Longrightarrow> mq_step (t, acc, q) (t', acc, q')"

inductive mq_reachable :: "int \<times> nat multiset \<times> send_queue \<Rightarrow> bool" where
  init: "mq_reachable (t, {#}, MessageSendQueue_init t remote local mt ct)"
| step: "\<lbrakk>mq_reachable s; mq_step s s'\<rbrakk> \<Longrightarrow> mq_reachable s'"

definition mq_ok :: "int \<times> nat multiset \<times> send_queue \<Rightarrow> bool" where
  "mq_ok s = (case s of (t, acc, q) \<Rightarrow>
     mq_inv q \<and> all_ids q = acc \<and> (\<forall>x \<in> set (waitingForACK q). sent_at (snd x) \<le> t)
     \<and> (m_dropped q \<longrightarrow> queued q = [] \<and> waitingForACK q = []))"

lemma mq_okI:
  assumes "mq_inv q" "all_ids q = acc" "\<And>x. x \<in> set (waitingForACK q) \<Longrightarrow> sent_at (snd x) \<le> t"
    "m_dropped q \<Longrightarrow> queued q = [] \<and> waitingForACK q = []"
  shows "mq_ok (t, acc, q)"
  using assms by (simp add: mq_ok_def)

lemma mq_okD:
  assumes "mq_ok (t, acc, q)" "t \<le> t'"
  shows "mq_inv q" "all_ids q = acc" "\<And>x. x \<in> set (waitingForACK q) \<Longrightarrow> sent_at (snd x) \<le> t'"
    "m_dropped q \<Longrightarrow> queued q = [] \<and> waitingForACK q = []"
  using assms by (force simp: mq_ok_def)+

lemma mq_ok_same:
  assumes "mq_ok (t, acc, q)" "t \<le> t'" "queued q' = queued q" "waitingForACK q' = waitingForACK q"
    "m_messageNumber q' = m_messageNumber q" "m_dropped q' = m_dropped q"
    "deleted (mq_events q') = deleted (mq_events q)"
  shows "mq_ok (t', acc, q')"
  using mq_okD [OF assms(1,2)] assms(3-) by (intro mq_okI) (simp_all add: mq_inv_def all_ids_def)

lemma mq_step_ok: "mq_step s s' \<Longrightarrow> mq_ok s \<Longrightarrow> mq_ok s'"
proof (induction rule: mq_step.induct)
  case (send t t' e q acc alive)
  show ?case
  proof (cases "m_dropped q")
    case True
    then have "send_entry alive e False q = q" by (simp add: send_entry_def)
    with mq_okD [OF send(4,1)] True show ?thesis by (auto intro: mq_okI)
  next
    case False
    note ok = mq_okD [OF send(4,1)]
    note f = send_inv [OF ok(1) False send(2,3), of alive]
    have "mq_ok (t', acc + ids [e], send_entry alive e False q)"
    proof (rule mq_okI [OF f(1)])
      show "all_ids (send_entry alive e False q) = acc + ids [e]" using f(2) ok(2) by simp
    qed (simp_all add: send_entry_fields [OF False] ok(3) False)
    with False show ?thesis by simp
  qed
next
  case (ack t t' h q b q' acc)
  have "set (waitingForACK q') \<subseteq> set (waitingForACK q)" "queued q' = queued q"
    by (rule handleACK_cases [OF ack(3)], simp add: queue_simps map_erase_def subset_iff)+
  with mq_okD [OF ack(4,1)] ack_inv [OF mq_okD(1) [OF ack(4,1)] ack(3,2)] show ?case
    by (intro mq_okI) auto
next
  case (pop t t' q q' acc)
  from pop(2) obtain r rest where q: "queued q = r # rest" and w: "waitingForACK q' =
      (if acked r then map_try_emplace (num r) (r\<lparr>sent_at := t'\<rparr>) (waitingForACK q) else waitingForACK q)"
    by (rule pop_cases)
  have "set (waitingForACK q') \<subseteq> insert (num r, r\<lparr>sent_at := t'\<rparr>) (set (waitingForACK q))"
  proof -
    have "set (map_try_emplace k e xs) \<subseteq> insert (k, e) (set xs)" for k e xs
      by (induction k e xs rule: map_try_emplace.induct) auto
    with w show ?thesis by auto
  qed
  moreover have "\<not> m_dropped q" using pop(3) q by (auto simp: mq_ok_def)
  ultimately show ?case using mq_okD [OF pop(3,1)] pop_inv [OF mq_okD(1) [OF pop(3,1)] pop(2)]
    by (intro mq_okI) auto
next
  case (register t t' hn f conn i q b q' acc)
  then show ?case using register_fields [OF register(2)] by (intro mq_ok_same [OF register(3,1)]) auto
next
  case (deregister t t' acc q)
  then show ?case by (intro mq_ok_same [OF deregister(2,1)]) (auto simp: queue_simps)
next
  case (read t t' acc q)
  then show ?case by (intro mq_ok_same [OF read(2,1)]) (auto simp: notifyOfRead_def)
next
  case (tick t t' alive q q' acc)
  note ok = mq_okD [OF tick(3,1)]
  have "\<forall>x \<in> set (waitingForACK q). sent_at (snd x) \<le> t'" using ok(3) by blast
  from mq_tick_eq [OF this] tick(2) have q': "q' = tick_connection t' q" by simp
  have "mq_inv q'" using ok(1) by (simp add: mq_inv_def q' tick_connection_fields)
  moreover have "all_ids q' = acc" using ok(2) by (simp add: all_ids_def q' tick_connection_fields queue_simps)
  ultimately show ?case using ok(3,4) by (intro mq_okI) (auto simp: q' tick_connection_fields split: if_splits)
qed

lemma mq_reachable_ok: "mq_reachable s \<Longrightarrow> mq_ok s"
proof (induction rule: mq_reachable.induct)
  case (init t remote local mt ct)
  then show ?case by (simp add: mq_ok_def mq_inv_def all_ids_def MessageSendQueue_init_def queue_simps)
qed (rule mq_step_ok)
section \<open>Properties\<close>


definition sq_example :: send_queue where
  "sq_example = MessageSendQueue_init 0 2 1 100 1000"

definition sq_msg :: "nat \<Rightarrow> entry" where
  "sq_msg i = Entry_message 0 \<lparr>msg_id = i, msg_has_cb = True\<rparr> PARAC_MESSAGE_TASK_RESULT 8 1"

lemma sq_msg_facts [simp]: "entry_id (sq_msg i) = Some i" "acked (sq_msg i)"
  by (simp_all add: sq_msg_def Entry_message_def entry_id_def acked_def set_size_def)

definition sq_sent :: send_queue where
  "sq_sent = send_entry True (sq_msg 7) False sq_example"

lemma sq_sent_reachable: "mq_reachable (0, {#7#}, sq_sent)"
proof -
  have i: "mq_reachable (0, {#}, sq_example)" unfolding sq_example_def by (rule mq_reachable.init)
  have "mq_step (0, {#}, sq_example) (0, if m_dropped sq_example then {#} else {#} + ids [sq_msg 7], sq_sent)"
    unfolding sq_sent_def by (rule mq_step.send) (simp_all add: sq_example_def MessageSendQueue_init_def)
  then have "mq_step (0, {#}, sq_example) (0, {#7#}, sq_sent)"
    by (simp add: sq_example_def MessageSendQueue_init_def ids_simps)
  with i show ?thesis by (rule mq_reachable.step)
qed


text \<open>
  An acknowledgement settles exactly its message.  For a message that waits under number \<open>k\<close>,
  the acknowledgement of \<open>k\<close> calls the message back with the status it carries and then with the
  deletion notice, forgets the entry and keeps all others; for a number that is not waiting the source
  reads through an empty \<^verbatim>\<open>optional\<close>.
\<close>

lemma handleACK_settles:
  assumes "map_of (waitingForACK q) (hdr_number h) = Some e" "ack_status h = Some st" "entry_id e = Some i"
    "map_of (waitingForACK q) (hdr_number h') = None"
  shows "(\<exists>q'. handleACK h q = Some (True, q')
      \<and> mq_events q' = mq_events q @ [Callback i st, Callback i PARAC_TO_BE_DELETED]
      \<and> queued q' = queued q \<and> m_ACKdMessageCount q' = m_ACKdMessageCount q + 1
      \<and> (\<forall>k. map_of (waitingForACK q') k = (if k = hdr_number h then None else map_of (waitingForACK q) k)))
    \<and> handleACK h' q = None"
proof -
  have m: "map_of (map_erase k xs) j = (if j = k then None else map_of xs j)" for k j and xs :: "(u32 \<times> entry) list"
    by (induction xs) (auto simp: map_erase_def)
  from assms show ?thesis by (simp add: handleACK_def Let_def entry_call_id mq_emit_def m)
qed

definition ack_header :: "u32 \<Rightarrow> PacketHeader" where
  "ack_header k = header_init\<lparr>hdr_kind := PARAC_MESSAGE_ACK, hdr_number := k\<rparr>"

lemma ack_header_facts [simp]: "hdr_number (ack_header k) = k" "ack_status (ack_header k) = Some PARAC_OK"
  by (simp_all add: ack_header_def header_init_def ack_status_def status_of_code_def all_status_def)

lemma handleACK_settles_example:
  "\<exists>q'. handleACK (ack_header 0) (sq_example\<lparr>waitingForACK := [(0, sq_msg 7)]\<rparr>) = Some (True, q')
     \<and> mq_events q' = [Callback 7 PARAC_OK, Callback 7 PARAC_TO_BE_DELETED]"
  using handleACK_settles [of "sq_example\<lparr>waitingForACK := [(0, sq_msg 7)]\<rparr>" "ack_header 0" "sq_msg 7" PARAC_OK 7
      "ack_header 1"]
  by (auto simp: sq_example_def MessageSendQueue_init_def)

text \<open>
  The periodic check.  In a reachable queue \<^verbatim>\<open>tick\<close> terminates normally, at any later time.
  Unless the remote was silent for longer than the connection timeout it changes nothing: messages that
  wait for an acknowledgement are neither sent again nor timed out, however old they are, because the
  age is computed with the operands exchanged.  After the connection timeout both queues are empty, the
  remote is dropped and every accepted message has been told to be deleted.
\<close>

lemma tick_behaviour:
  assumes "mq_reachable (t, acc, q)" "t \<le> now" "\<not> m_dropped q"
  shows "if to_ms (now - m_lastHeardOfRemote q) > int (unat (svc_connectionTimeoutMS q))
    then \<exists>q'. mq_tick alive now q = Some q' \<and> m_dropped q' \<and> queued q' = [] \<and> waitingForACK q' = []
      \<and> deleted (mq_events q') = acc
    else mq_tick alive now q = Some q"
proof -
  note ok = mq_okD [OF mq_reachable_ok [OF assms(1)] assms(2)]
  have "mq_tick alive now q = Some (tick_connection now q)" using ok(3) by (intro mq_tick_eq) simp
  moreover have "tick_connection now q = q"
    if "\<not> to_ms (now - m_lastHeardOfRemote q) > int (unat (svc_connectionTimeoutMS q))"
    using that by (simp add: tick_connection_def Let_def)
  ultimately show ?thesis using ok(2) assms(3) by (simp add: tick_connection_fields)
qed

lemma tick_behaviour_example:
  "mq_tick True 999000000 sq_sent = Some sq_sent
   \<and> (\<exists>q'. mq_tick True 1001000000 sq_sent = Some q' \<and> m_dropped q' \<and> deleted (mq_events q') = {#7#})"
proof -
  have f: "\<not> m_dropped sq_sent" "m_lastHeardOfRemote sq_sent = 0" "svc_connectionTimeoutMS sq_sent = 1000"
    by (simp_all add: sq_sent_def send_entry_def Let_def sq_msg_def Entry_message_def set_size_def header_init_def
        sq_example_def MessageSendQueue_init_def)
  show ?thesis
    using tick_behaviour [OF sq_sent_reachable, of 999000000 True] tick_behaviour [OF sq_sent_reachable, of 1001000000 True] f
    by (auto simp: to_ms_def)
qed

text \<open>
  The status of an acknowledgement is lost.  Whatever status \<^verbatim>\<open>sendACK\<close> is given, the packet
  header it queues carries the number of the message and decodes to \<^verbatim>\<open>PARAC_OK\<close>: the size that is
  written last shares its storage with the status.
\<close>

lemma sendACK_loses_status:
  "ack_status (header (Entry_ack now ident status)) = Some PARAC_OK
   \<and> hdr_number (header (Entry_ack now ident status)) = ident
   \<and> (\<not> m_dropped q \<longrightarrow> queued (sendACK alive now ident status q) = queued q @ [Entry_ack now ident status])"
  by (simp add: Entry_ack_def set_size_def set_ack_status_def ack_status_def status_of_code_def all_status_def header_init_def
      sendACK_def send_entry_fields numbered_def)

lemma sendACK_loses_status_example:
  "\<not> m_dropped sq_example \<and> queued (sendACK True 0 5 PARAC_FILE_NOT_FOUND_ERROR sq_example) = [Entry_ack 0 5 PARAC_FILE_NOT_FOUND_ERROR]"
  using sendACK_loses_status [of 0 5 PARAC_FILE_NOT_FOUND_ERROR sq_example True]
  by (simp add: sq_example_def MessageSendQueue_init_def)

definition register_two ::
  "nat \<Rightarrow> bool \<Rightarrow> nat \<Rightarrow> bool \<Rightarrow> send_queue \<Rightarrow> (bool \<times> bool \<times> send_queue) option" where
  "register_two f i f' i' q = do {
     (ok, q) \<leftarrow> registerNotificationCB False f [] i q;
     (ok', q) \<leftarrow> registerNotificationCB True f' [] i' q;
     Some (ok, ok', q) }"

text \<open>
  C25 (simultaneous connections).  Two nodes connect to each other at the same time: \<open>c1\<close> is the
  connection the node with the smaller id opened, \<open>c2\<close> the one the greater node opened.  In whichever
  order a node registers them, as long as no message was acknowledged it ends with \<open>c2\<close> and the other
  one is refused or told to close: both nodes agree on the same connection.
\<close>

theorem simultaneous_connections_agree:
  assumes "m_notificationFunc q = None" "\<not> m_dropped q" "m_ACKdMessageCount q = 0" "\<not> m_remoteComputeNode q"
    and "m_remoteId q \<noteq> svc_id q"
  shows "let mine = svc_id q > m_remoteId q in
     (\<exists>q'. register_two c1 (\<not> mine) c2 mine q = Some (True, True, q') \<and> m_notificationFunc q' = Some c2
        \<and> Notify c1 KillConnection \<in> set (mq_events q'))
   \<and> (\<exists>q'. register_two c2 mine c1 (\<not> mine) q = Some (True, False, q') \<and> m_notificationFunc q' = Some c2)"
  using assms
  by (auto simp: register_two_def registerNotificationCB_def Let_def addOutgoingMessageToCounter_def mq_emit_def
      not_less)

theorem simultaneous_connections_agree_witness:
  "\<exists>q'. register_two 1 True 2 False sq_example = Some (True, True, q') \<and> m_notificationFunc q' = Some 2"
  using simultaneous_connections_agree [of sq_example 1 2]
  by (auto simp: sq_example_def MessageSendQueue_init_def)

text \<open>
  C34 (the tracked size can wrap around).  A message that is queued while no connection is registered is
  not counted, but taking it from the queue subtracts one: the tracked size of an idle remote becomes
  the greatest 64-bit number.
\<close>

theorem tracked_size_wraps:
  assumes "m_notificationFunc q = None" "\<not> m_dropped q" "queued q = []" "\<not> m_serviceKnowsAboutWrites q"
    and "parac_message_kind_is_count_tracked (hdr_kind (header e))" "m_trackedQueueSize q = 0"
  shows "\<exists>q'. popFromQueued now (send_entry alive e False q) = Some q'
    \<and> unat (m_trackedQueueSize (send_entry alive e False q)) = 0
    \<and> unat (m_trackedQueueSize q') = 2 ^ 64 - 1"
proof -
  define p where "p = send_entry alive e False q"
  have p: "m_trackedQueueSize p = 0" "\<not> m_serviceKnowsAboutWrites p" "queued p = [numbered False e q]"
    using assms by (simp_all add: p_def send_entry_def Let_def numbered_def split: bool.splits)
  have "\<exists>q'. popFromQueued now p = Some q' \<and> m_trackedQueueSize q' = - 1"
    using p assms(5) by (simp add: popFromQueued_def Let_def)
  with p(1) show ?thesis by (fold p_def) (auto simp: unsigned_minus_1_eq_mask mask_eq_exp_minus_1)
qed

theorem tracked_size_wraps_witness:
  "\<exists>q'. popFromQueued 0 sq_sent = Some q' \<and> unat (m_trackedQueueSize q') = 2 ^ 64 - 1"
  using tracked_size_wraps [of sq_example "sq_msg 7" 0 True]
  by (auto simp: sq_sent_def sq_example_def MessageSendQueue_init_def sq_msg_def Entry_message_def set_size_def)

end
