(* ===== verification/Wire.thy ===== *)
theory Wire
  imports SendQueue
begin

unbundle bit_operations_syntax

text \<open>
  The bytes that connections exchange: the memory images of \<^verbatim>\<open>PacketHeader\<close>, \<^verbatim>\<open>PacketFileHeader\<close>
  (\<^verbatim>\<open>modules/communicator/packet.hpp\<close>) and \<^verbatim>\<open>InitiatorMessage\<close>, written and read with
  \<^verbatim>\<open>boost::asio::buffer(&v, sizeof(v))\<close>.  Integers are stored little endian; an enum is a 32-bit
  integer; \<^verbatim>\<open>InitiatorMessage\<close> ends with six bytes of padding.
\<close>

section \<open>Integers\<close>

fun le_bytes :: "nat \<Rightarrow> nat \<Rightarrow> u8 list" where
  "le_bytes 0 n = []"
| "le_bytes (Suc k) n = of_nat (n mod 256) # le_bytes k (n div 256)"

fun le_nat :: "u8 list \<Rightarrow> nat" where
  "le_nat [] = 0"
| "le_nat (b # bs) = unat b + 256 * le_nat bs"

lemma length_le_bytes [simp]: "length (le_bytes k n) = k"
  by (induction k arbitrary: n) simp_all

lemma le_nat_bytes: "le_nat (le_bytes k n) = n mod 256 ^ k"
proof (induction k arbitrary: n)
  case (Suc k)
  have "le_nat (le_bytes (Suc k) n) = n mod 256 + 256 * (n div 256 mod 256 ^ k)"
    using Suc by (simp add: unat_of_nat_small)
  also have "\<dots> = n mod (256 * 256 ^ k)" by (simp add: mod_mult2_eq)
  finally show ?case by simp
qed simp

lemma unat_mod_width: "2 ^ LENGTH('a) \<le> m \<Longrightarrow> unat (w :: 'a::len word) mod m = unat w"
  by (rule mod_less) (rule less_le_trans [OF unsigned_less])

lemma le_nat_u64 [simp]: "le_nat (le_bytes 8 (unat (w :: u64))) = unat w"
  by (simp add: le_nat_bytes unat_mod_width)

lemma le_nat_u32 [simp]: "le_nat (le_bytes 4 (unat (w :: u32))) = unat w"
  by (simp add: le_nat_bytes unat_mod_width)

lemma le_nat_u16 [simp]: "le_nat (le_bytes 2 (unat (w :: u16))) = unat w"
  by (simp add: le_nat_bytes unat_mod_width)

section \<open>Message kinds as numbers\<close>

definition all_kinds :: "parac_message_kind list" where
  "all_kinds = [PARAC_MESSAGE_UNKNOWN, PARAC_MESSAGE_ONLINE_ANNOUNCEMENT, PARAC_MESSAGE_OFFLINE_ANNOUNCEMENT,
     PARAC_MESSAGE_ANNOUNCEMENT_REQUEST, PARAC_MESSAGE_NODE_STATUS, PARAC_MESSAGE_NODE_DESCRIPTION,
     PARAC_MESSAGE_NEW_REMOTES, PARAC_MESSAGE_TASK_REPARENT, PARAC_MESSAGE_TASK_RESULT, PARAC_MESSAGE_TASK_ABORT,
     PARAC_MESSAGE_SOLVER_DESCRIPTION, PARAC_MESSAGE_SOLVER_TASK, PARAC_MESSAGE_SOLVER_SAT_ASSIGNMENT,
     PARAC_MESSAGE_SOLVER_NEW_LEARNED_CLAUSE, PARAC_MESSAGE_SOLVER_NEW_REMOTE_AVAILABLE, PARAC_MESSAGE_FILE,
     PARAC_MESSAGE_ACK, PARAC_MESSAGE_END, PARAC_MESSAGE_KEEPALIVE, PARAC_MESSAGE_COUNT]"

definition kind_of_code :: "nat \<Rightarrow> parac_message_kind option" where
  "kind_of_code n = (if n < length all_kinds then Some (all_kinds ! n) else None)"

fun kind_code :: "parac_message_kind \<Rightarrow> nat" where
  "kind_code PARAC_MESSAGE_UNKNOWN = 0"
| "kind_code PARAC_MESSAGE_ONLINE_ANNOUNCEMENT = 1"
| "kind_code PARAC_MESSAGE_OFFLINE_ANNOUNCEMENT = 2"
| "kind_code PARAC_MESSAGE_ANNOUNCEMENT_REQUEST = 3"
| "kind_code PARAC_MESSAGE_NODE_STATUS = 4"
| "kind_code PARAC_MESSAGE_NODE_DESCRIPTION = 5"
| "kind_code PARAC_MESSAGE_NEW_REMOTES = 6"
| "kind_code PARAC_MESSAGE_TASK_REPARENT = 7"
| "kind_code PARAC_MESSAGE_TASK_RESULT = 8"
| "kind_code PARAC_MESSAGE_TASK_ABORT = 9"
| "kind_code PARAC_MESSAGE_SOLVER_DESCRIPTION = 10"
| "kind_code PARAC_MESSAGE_SOLVER_TASK = 11"
| "kind_code PARAC_MESSAGE_SOLVER_SAT_ASSIGNMENT = 12"
| "kind_code PARAC_MESSAGE_SOLVER_NEW_LEARNED_CLAUSE = 13"
| "kind_code PARAC_MESSAGE_SOLVER_NEW_REMOTE_AVAILABLE = 14"
| "kind_code PARAC_MESSAGE_FILE = 15"
| "kind_code PARAC_MESSAGE_ACK = 16"
| "kind_code PARAC_MESSAGE_END = 17"
| "kind_code PARAC_MESSAGE_KEEPALIVE = 18"
| "kind_code PARAC_MESSAGE_COUNT = 19"

lemma kind_of_code_code [simp]: "kind_of_code (kind_code k) = Some k"
  by (cases k) (simp_all add: kind_of_code_def all_kinds_def numeral_eq_Suc)

lemma kind_code_less: "kind_code k < 256 ^ 4"
  by (cases k) simp_all

section \<open>Headers\<close>

definition PacketHeader_bytes :: "PacketHeader \<Rightarrow> u8 list" where
  "PacketHeader_bytes h = le_bytes 8 (unat (hdr_originator h)) @ le_bytes 4 (unat (hdr_number h))
     @ le_bytes 4 (kind_code (hdr_kind h)) @ le_bytes 8 (unat (hdr_word h))"

text \<open>A kind that is no enumerator has no name here.\<close>

definition PacketHeader_of_bytes :: "u8 list \<Rightarrow> PacketHeader option" where
  "PacketHeader_of_bytes bs = do {
     kind \<leftarrow> kind_of_code (le_nat (take 4 (drop 12 bs)));
     Some \<lparr>hdr_originator = of_nat (le_nat (take 8 bs)), hdr_number = of_nat (le_nat (take 4 (drop 8 bs))),
       hdr_kind = kind, hdr_word = of_nat (le_nat (take 8 (drop 16 bs)))\<rparr> }"

lemma length_PacketHeader_bytes [simp]: "length (PacketHeader_bytes h) = 24"
  by (simp add: PacketHeader_bytes_def)

lemma PacketHeader_roundtrip [simp]: "PacketHeader_of_bytes (PacketHeader_bytes h) = Some h"
  using kind_code_less [of "hdr_kind h"] le_nat_bytes [of 4 "kind_code (hdr_kind h)"]
  by (simp add: PacketHeader_of_bytes_def PacketHeader_bytes_def)

record InitiatorMessage =
  sender_id :: parac_id
  tcp_port :: u16

definition InitiatorMessage_bytes :: "u8 list \<Rightarrow> InitiatorMessage \<Rightarrow> u8 list" where
  "InitiatorMessage_bytes padding m = le_bytes 8 (unat (sender_id m)) @ le_bytes 2 (unat (tcp_port m)) @ padding"

definition InitiatorMessage_of_bytes :: "u8 list \<Rightarrow> InitiatorMessage" where
  "InitiatorMessage_of_bytes bs = \<lparr>sender_id = of_nat (le_nat (take 8 bs)), tcp_port = of_nat (le_nat (take 2 (drop 8 bs)))\<rparr>"

lemma InitiatorMessage_roundtrip [simp]:
  "InitiatorMessage_of_bytes (InitiatorMessage_bytes padding m) = m"
  by (simp add: InitiatorMessage_of_bytes_def InitiatorMessage_bytes_def)

end
