(* ===== verification/TcpConnection.thy ===== *)
theory TcpConnection
  imports Wire
begin

unbundle bit_operations_syntax

text \<open>
  One TCP connection: \<^verbatim>\<open>modules/communicator/tcp_connection.cpp\<close> with its header, the file sender of
  \<^verbatim>\<open>file_sender.cpp\<close>, and the map of send queues and the stop flag of \<^verbatim>\<open>service.cpp\<close>.

  The read and the write handler are stackless coroutines; the place of the \<^verbatim>\<open>yield\<close> where a coroutine
  waits is a constructor of \<open>read_pos\<close> or \<open>write_pos\<close>.  One call of a handler is the completion of one
  socket operation.  Bytes given to the socket are appended to \<open>sock_out\<close>; the bytes of a completed read
  are an argument.  The send queue of a remote belongs to the service and is shared by its connections,
  so a connection holds the id of the remote, not the queue.

  What the compute node, the file system and the messages' memory answer is the record \<open>net_env\<close>.  A
  write handler triggered by a new message runs as a step of its own, as the source does when the message
  comes from another thread.
\<close>

section \<open>State\<close>

datatype io_error = NoError | Eof | ConnectionReset | OperationCanceled | TimedOut | ShutDown | OtherError

datatype ResumeMode = EndAfterShutdown | RestartAfterShutdown

datatype read_pos = RdStart | RdInitiator | RdHeader | RdFileHeader | RdChunk | RdMessage | RdEnded

datatype write_pos = WrStart | WrInitiator | WrIdle | WrKilled | WrHeader | WrEmpty | WrFile | WrPayload | WrEnded

datatype net_event =
    ReceivedMessage parac_message_kind parac_id "u8 list"
  | ReceivedFile string parac_id "u8 list"
  | SetKeepaliveTimer
  | PostWriteHandler
  | Reconnect int

record FileOstream =
  fo_path :: string
  fo_written :: "u8 list"

record FileSender =
  fs_fileHeader :: "u8 list"
  fs_content :: "u8 list"
  fs_file_size :: nat
  fs_offset :: nat
  fs_eagainTries :: nat

record tcp_state =
  socket_open :: bool
  sock_out :: "u8 list"
  recvBuf :: "u8 list"
  connectionTry :: int
  killed :: bool
  tc_transmitMode :: TransmitMode
  resumeMode :: ResumeMode
  writeCoro :: write_pos
  writeInitiatorMessage :: InitiatorMessage
  readCoro :: read_pos
  readHeader :: PacketHeader
  readFileOstream :: "FileOstream option"
  compute_node :: bool
  node_ended :: bool
  bytes_received :: u64
  bytes_sent :: u64
  remoteIdCache :: parac_id
  currentlySending :: bool
  sendQueue :: "parac_id option"
  fileSender :: "FileSender option"
  net_events :: "net_event list"
  tc_id :: nat
  service_id :: parac_id
  service_stopped :: bool
  messageSendQueues :: "parac_id \<Rightarrow> send_queue option"

record net_env =
  env_now :: int
  env_alive :: bool
  env_new_queue :: "parac_id \<Rightarrow> send_queue"
  env_has_node :: bool
  env_address :: string
  env_is_v6 :: bool
  env_padding :: "u8 list"
  env_payload :: "message_ref \<Rightarrow> u8 list"
  env_file :: "message_ref \<Rightarrow> string \<times> u8 list"
  env_receive_message :: "parac_message_kind \<Rightarrow> parac_id \<Rightarrow> u8 list \<Rightarrow> parac_status option"
  env_receive_file :: "string \<Rightarrow> parac_id \<Rightarrow> parac_status option"
  env_append_path :: "string \<Rightarrow> string \<Rightarrow> string"
  env_temporaryDirectory :: string
  env_open :: "string \<Rightarrow> bool"
  env_connectionRetries :: int

definition REC_BUF_SIZE :: nat where "REC_BUF_SIZE = 4096"

definition MAX_BUF_SIZE :: nat where "MAX_BUF_SIZE = 100000000"

definition tc_emit :: "net_event \<Rightarrow> tcp_state \<Rightarrow> tcp_state" where
  "tc_emit e c = c\<lparr>net_events := net_events c @ [e]\<rparr>"

text \<open>\<^verbatim>\<open>async_write\<close> and \<^verbatim>\<open>write\<close>: the bytes go out in the order of the calls.\<close>

definition async_write :: "u8 list \<Rightarrow> tcp_state \<Rightarrow> tcp_state" where
  "async_write bs c = c\<lparr>sock_out := sock_out c @ bs\<rparr>"

definition getMessageSendQueueForRemoteId :: "net_env \<Rightarrow> parac_id \<Rightarrow> tcp_state \<Rightarrow> send_queue \<times> tcp_state" where
  "getMessageSendQueueForRemoteId env i c = (case messageSendQueues c i of
       Some q \<Rightarrow> (q, c)
     | None \<Rightarrow> let q = env_new_queue env i in (q, c\<lparr>messageSendQueues := (messageSendQueues c)(i \<mapsto> q)\<rparr>))"

text \<open>Reading and changing the queue a connection refers to.\<close>

definition the_queue :: "tcp_state \<Rightarrow> send_queue option" where
  "the_queue c = (case sendQueue c of None \<Rightarrow> None | Some i \<Rightarrow> messageSendQueues c i)"

definition upd_queue :: "(send_queue \<Rightarrow> send_queue) \<Rightarrow> tcp_state \<Rightarrow> tcp_state" where
  "upd_queue f c = (case sendQueue c of None \<Rightarrow> c
     | Some i \<Rightarrow> c\<lparr>messageSendQueues := (messageSendQueues c)(i := map_option f (messageSendQueues c i))\<rparr>)"

definition queue_empty :: "tcp_state \<Rightarrow> bool" where
  "queue_empty c = (case the_queue c of None \<Rightarrow> True | Some q \<Rightarrow> mq_empty q)"

section \<open>Sending through the queue\<close>

definition conditionallyTriggerWriteHandler :: "tcp_state \<Rightarrow> bool \<times> tcp_state" where
  "conditionallyTriggerWriteHandler c =
     (True, if \<not> currentlySending c then tc_emit PostWriteHandler (c\<lparr>currentlySending := True\<rparr>) else c)"

definition kill :: "tcp_state \<Rightarrow> bool \<times> tcp_state" where
  "kill c = (True, snd (conditionallyTriggerWriteHandler (c\<lparr>killed := True\<rparr>)))"

definition wasInitiator :: "tcp_state \<Rightarrow> bool" where
  "wasInitiator c \<longleftrightarrow> connectionTry c \<ge> 0"

definition setResumeMode :: "ResumeMode \<Rightarrow> tcp_state \<Rightarrow> tcp_state" where
  "setResumeMode m c = c\<lparr>resumeMode := m\<rparr>"

text \<open>
  \<^verbatim>\<open>SendToMessageSendQueue\<close>: an entry goes to the queue, which notifies its connection.  The result is
  \<open>False\<close> when there is no queue.
\<close>

definition SendToMessageSendQueue :: "net_env \<Rightarrow> entry \<Rightarrow> tcp_state \<Rightarrow> bool \<times> tcp_state" where
  "SendToMessageSendQueue env e c = (case the_queue c of
       None \<Rightarrow> (False, c)
     | Some q \<Rightarrow>
         let notified = (\<not> m_dropped q \<and> m_availableToSendTo q \<and> m_notificationFunc q = Some (tc_id c));
             alive = (m_notificationFunc q = Some (tc_id c) \<or> env_alive env);
             c = upd_queue (send_entry alive e False) c
         in (True, if notified then snd (conditionallyTriggerWriteHandler c) else c))"

definition tc_send_message :: "net_env \<Rightarrow> message_ref \<Rightarrow> parac_message_kind \<Rightarrow> u64 \<Rightarrow> parac_id \<Rightarrow> tcp_state \<Rightarrow>
   tcp_state \<times> mq_event list" where
  "tc_send_message env m kind len orig c =
     (let (sent, c) = SendToMessageSendQueue env (Entry_message (env_now env) m kind len orig) c
      in (c, if \<not> sent \<and> msg_has_cb m
             then [Callback (msg_id m) PARAC_CONNECTION_CLOSED, Callback (msg_id m) PARAC_TO_BE_DELETED] else []))"

definition tc_send_file :: "net_env \<Rightarrow> message_ref \<Rightarrow> u64 \<Rightarrow> parac_id \<Rightarrow> tcp_state \<Rightarrow> tcp_state \<times> mq_event list" where
  "tc_send_file env f fsize orig c =
     (let (sent, c) = SendToMessageSendQueue env (Entry_file (env_now env) f fsize orig) c
      in (c, if \<not> sent \<and> msg_has_cb f
             then [Callback (msg_id f) PARAC_CONNECTION_CLOSED, Callback (msg_id f) PARAC_TO_BE_DELETED] else []))"

definition tc_send_end :: "net_env \<Rightarrow> tcp_state \<Rightarrow> tcp_state" where
  "tc_send_end env c = snd (SendToMessageSendQueue env (Entry_end (env_now env)) c)"

definition tc_sendACK :: "net_env \<Rightarrow> u32 \<Rightarrow> parac_status \<Rightarrow> tcp_state \<Rightarrow> tcp_state" where
  "tc_sendACK env i status c = snd (SendToMessageSendQueue env (Entry_ack (env_now env) i status) c)"

definition setKeepaliveTimer :: "tcp_state \<Rightarrow> tcp_state" where
  "setKeepaliveTimer c = tc_emit SetKeepaliveTimer c"

text \<open>The keepalive timer expires: a message without callback and payload.\<close>

definition keepalive_expired :: "net_env \<Rightarrow> parac_id \<Rightarrow> tcp_state \<Rightarrow> tcp_state" where
  "keepalive_expired env orig c =
     fst (tc_send_message env \<lparr>msg_id = 0, msg_has_cb = False\<rparr> PARAC_MESSAGE_KEEPALIVE 0 orig c)"

definition injectMessageSendQueue :: "parac_id \<Rightarrow> tcp_state \<Rightarrow> tcp_state" where
  "injectMessageSendQueue i c = c\<lparr>sendQueue := Some i\<rparr>"

definition shouldHandlerBeEnded :: "tcp_state \<Rightarrow> bool" where
  "shouldHandlerBeEnded c \<longleftrightarrow> compute_node c \<and> node_ended c \<or> service_stopped c"

section \<open>Sending a file\<close>

text \<open>
  The file name of the header is at most 255 characters and copied with \<^verbatim>\<open>strcpy\<close> into a field of 255
  bytes; the copy of a name of 255 characters writes one byte behind it.
\<close>

definition compact_name :: "string \<Rightarrow> string" where
  "compact_name name = (if length name > 255 then drop (length name - 255) name else name)"

definition file_header :: "u8 list \<Rightarrow> string \<Rightarrow> u8 list option" where
  "file_header old name = (let bs = map (\<lambda>ch. of_nat (of_char ch)) name @ [0] in
     if length bs \<le> 255 then Some (bs @ drop (length bs) old) else None)"

definition FileSender_init :: "u8 list \<Rightarrow> string \<times> u8 list \<Rightarrow> FileSender option" where
  "FileSender_init old file = do {
     header \<leftarrow> file_header old (compact_name (fst file));
     Some \<lparr>fs_fileHeader = header, fs_content = snd file, fs_file_size = length (snd file), fs_offset = 0, fs_eagainTries = 0\<rparr> }"

datatype sendfile_result = Sent nat | EAgain | SendError

datatype chunk_result = ChunkFinished io_error | ChunkWait | ChunkContinue

text \<open>
  \<^verbatim>\<open>send_chunk\<close>: the bytes given to the socket, the new state and what follows; \<open>Sent n\<close> is the number of
  bytes \<^verbatim>\<open>sendfile\<close> took.
\<close>

definition send_chunk :: "bool \<Rightarrow> sendfile_result \<Rightarrow> FileSender \<Rightarrow> u8 list \<times> FileSender \<times> chunk_result" where
  "send_chunk first ret f =
     (if \<not> first \<and> fs_offset f \<ge> fs_file_size f then ([], f, ChunkFinished NoError)
      else case ret of
        EAgain \<Rightarrow> let f = f\<lparr>fs_eagainTries := fs_eagainTries f + 1\<rparr>
                  in ([], f, if fs_eagainTries f > 3 then ChunkFinished ShutDown else ChunkWait)
      | SendError \<Rightarrow> ([], f, ChunkFinished ShutDown)
      | Sent n \<Rightarrow> (take n (drop (fs_offset f) (fs_content f)),
                   f\<lparr>fs_offset := fs_offset f + n, fs_eagainTries := 0\<rparr>, ChunkContinue))"

section \<open>The write handler\<close>

definition write_loop_begin :: "tcp_state \<Rightarrow> tcp_state option" where
  "write_loop_begin c = do {
     q \<leftarrow> the_queue c;
     let c = setKeepaliveTimer c;
     e \<leftarrow> mq_front q;
     let c = c\<lparr>tc_transmitMode := transmitMode e\<rparr>;
     if service_stopped c then Some (c\<lparr>writeCoro := WrEnded\<rparr>)
     else Some ((async_write (PacketHeader_bytes (header e)) c)\<lparr>writeCoro := WrHeader\<rparr>) }"

definition end_header :: "tcp_state \<Rightarrow> PacketHeader" where
  "end_header c = \<lparr>hdr_originator = service_id c, hdr_number = - 1, hdr_kind = PARAC_MESSAGE_END, hdr_word = 0\<rparr>"

definition write_loop :: "tcp_state \<Rightarrow> tcp_state option" where
  "write_loop c =
     (if queue_empty c \<and> \<not> killed c
      then Some ((setKeepaliveTimer (c\<lparr>currentlySending := False\<rparr>))\<lparr>writeCoro := WrIdle\<rparr>)
      else if killed c then Some ((async_write (PacketHeader_bytes (end_header c)) c)\<lparr>writeCoro := WrKilled\<rparr>)
      else write_loop_begin c)"

definition write_done :: "net_env \<Rightarrow> tcp_state \<Rightarrow> tcp_state option" where
  "write_done env c =
     (if killed c then write_loop c
      else do {
        q \<leftarrow> the_queue c;
        q \<leftarrow> popFromQueued (env_now env) q;
        write_loop (upd_queue (\<lambda>_. q) c) })"

text \<open>The payload of an inline message is its field of 16 bytes, of any other the memory it points to.\<close>

definition write_payload :: "net_env \<Rightarrow> tcp_state \<Rightarrow> tcp_state option" where
  "write_payload env c = do {
     q \<leftarrow> the_queue c;
     e \<leftarrow> mq_front q;
     let kind = hdr_kind (header e);
     if kind = PARAC_MESSAGE_ACK \<or> kind = PARAC_MESSAGE_END \<or> kind = PARAC_MESSAGE_KEEPALIVE then write_done env c
     else if kind = PARAC_MESSAGE_FILE then (case entry_value e of
         FileValue f \<Rightarrow> do {
           fs \<leftarrow> FileSender_init (replicate 255 0) (env_file env f);
           Some ((async_write (fs_fileHeader fs) c)\<lparr>fileSender := Some fs, writeCoro := WrFile\<rparr>) }
       | _ \<Rightarrow> None)
     else (case entry_value e of
         MessageValue m \<Rightarrow> do {
           let size = unat (hdr_word (header e));
           c_assert (size \<le> length (env_payload env m));
           Some ((async_write (take size (env_payload env m)) c)\<lparr>writeCoro := WrPayload\<rparr>) }
       | _ \<Rightarrow> None) }"

definition writeHandler :: "net_env \<Rightarrow> io_error \<Rightarrow> nat \<Rightarrow> tcp_state \<Rightarrow> tcp_state option" where
  "writeHandler env ec n c =
     (if shouldHandlerBeEnded c then Some c
      else if ec \<noteq> NoError then Some (c\<lparr>socket_open := False\<rparr>)
      else let c = (if compute_node c then c\<lparr>bytes_sent := bytes_sent c + of_nat n\<rparr> else c)
      in case writeCoro c of
        WrStart \<Rightarrow> Some ((async_write (InitiatorMessage_bytes (env_padding env) (writeInitiatorMessage c)) c)
                     \<lparr>writeCoro := WrInitiator\<rparr>)
      | WrInitiator \<Rightarrow> write_loop c
      | WrIdle \<Rightarrow> write_loop c
      | WrKilled \<Rightarrow> if killed c then Some c else write_loop_begin c
      | WrHeader \<Rightarrow> if killed c then write_loop c
                    else if queue_empty c then Some (c\<lparr>writeCoro := WrEmpty\<rparr>)
                    else write_payload env c
      | WrEmpty \<Rightarrow> write_payload env c
      | WrFile \<Rightarrow> write_done env c
      | WrPayload \<Rightarrow> write_done env c
      | WrEnded \<Rightarrow> Some c)"

text \<open>A step of the file sender: when it ends, it calls the write handler.\<close>

definition file_step :: "net_env \<Rightarrow> bool \<Rightarrow> sendfile_result \<Rightarrow> tcp_state \<Rightarrow> tcp_state option" where
  "file_step env first ret c = do {
     fs \<leftarrow> fileSender c;
     let (bs, fs, res) = send_chunk first ret fs;
     let c = (async_write bs c)\<lparr>fileSender := Some fs\<rparr>;
     (case res of
        ChunkFinished ec \<Rightarrow> writeHandler env ec 0 (c\<lparr>fileSender := None\<rparr>)
      | _ \<Rightarrow> Some c) }"

section \<open>The read handler\<close>

text \<open>The address under which a remote accepts connections, built from its socket address and announced port.\<close>

definition connStr :: "net_env \<Rightarrow> InitiatorMessage \<Rightarrow> string" where
  "connStr env init = (if env_is_v6 env then ''['' else []) @ env_address env @ (if env_is_v6 env then '']'' else [])
     @ '':'' @ nat_to_str (unat (tcp_port init))"

text \<open>The number of bytes the read handler waits for.\<close>

definition read_want :: "tcp_state \<Rightarrow> nat" where
  "read_want c = (case readCoro c of
       RdInitiator \<Rightarrow> 16 | RdHeader \<Rightarrow> 24 | RdFileHeader \<Rightarrow> 255
     | RdChunk \<Rightarrow> length (recvBuf c) | RdMessage \<Rightarrow> length (recvBuf c) | _ \<Rightarrow> 0)"

definition handleInitiatorMessage :: "net_env \<Rightarrow> InitiatorMessage \<Rightarrow> tcp_state \<Rightarrow> (bool \<times> tcp_state) option" where
  "handleInitiatorMessage env init c =
     (let c = c\<lparr>remoteIdCache := sender_id init\<rparr> in
      if sender_id init = service_id c then Some (False, c)
      else do {
        let (q, c) = getMessageSendQueueForRemoteId env (sender_id init) c;
        (accepted, q) \<leftarrow> registerNotificationCB (env_has_node env) (tc_id c) (connStr env init) (connectionTry c \<ge> 0) q;
        let c = c\<lparr>messageSendQueues := (messageSendQueues c)(sender_id init \<mapsto> q)\<rparr>;
        if \<not> accepted then Some (False, c\<lparr>resumeMode := EndAfterShutdown\<rparr>)
        else let c = c\<lparr>compute_node := True, sendQueue := Some (sender_id init)\<rparr>
             in Some (True, if \<not> mq_empty q then snd (conditionallyTriggerWriteHandler c) else c) })"

definition handleReceivedACK :: "PacketHeader \<Rightarrow> tcp_state \<Rightarrow> (bool \<times> tcp_state) option" where
  "handleReceivedACK ack c = do {
     q \<leftarrow> the_queue c;
     (b, q) \<leftarrow> handleACK ack q;
     Some (b, upd_queue (\<lambda>_. q) c) }"

definition handleReceivedMessage :: "net_env \<Rightarrow> tcp_state \<Rightarrow> (bool \<times> tcp_state) option" where
  "handleReceivedMessage env c = do {
     let h = readHeader c;
     let c = tc_emit (ReceivedMessage (hdr_kind h) (hdr_originator h) (recvBuf c)) c;
     status \<leftarrow> env_receive_message env (hdr_kind h) (hdr_originator h) (recvBuf c);
     if status = PARAC_ABORT_CONNECTION then Some (False, c)
     else Some (True, tc_sendACK env (hdr_number h) status c) }"

definition handleReceivedFileStart :: "net_env \<Rightarrow> u8 list \<Rightarrow> tcp_state \<Rightarrow> tcp_state option" where
  "handleReceivedFileStart env name c = do {
     let name = map (\<lambda>b. char_of (unat b)) (takeWhile (\<lambda>b. b \<noteq> 0) name);
     let p = env_temporaryDirectory env;
     let p = (if hdr_originator (readHeader c) \<noteq> service_id c
              then env_append_path env p (nat_to_str (unat (hdr_originator (readHeader c)))) else p);
     let p = env_append_path env p name;
     c_assert (env_open env p);
     Some (c\<lparr>readFileOstream := Some \<lparr>fo_path = p, fo_written = []\<rparr>\<rparr>) }"

definition handleReceivedFileChunk :: "tcp_state \<Rightarrow> tcp_state option" where
  "handleReceivedFileChunk c = do {
     o' \<leftarrow> readFileOstream c;
     Some (c\<lparr>readFileOstream := Some (o'\<lparr>fo_written := fo_written o' @ recvBuf c\<rparr>)\<rparr>) }"

definition handleReceivedFile :: "net_env \<Rightarrow> tcp_state \<Rightarrow> tcp_state option" where
  "handleReceivedFile env c = do {
     o' \<leftarrow> readFileOstream c;
     c_assert (compute_node c);
     let c = tc_emit (ReceivedFile (fo_path o') (hdr_originator (readHeader c)) (fo_written o')) c;
     status \<leftarrow> env_receive_file env (fo_path o') (hdr_originator (readHeader c));
     Some (tc_sendACK env (hdr_number (readHeader c)) status c) }"

definition notify_read :: "net_env \<Rightarrow> tcp_state \<Rightarrow> tcp_state" where
  "notify_read env c = upd_queue (notifyOfRead (env_now env)) c"

definition rd_end :: "tcp_state \<Rightarrow> tcp_state option" where
  "rd_end c = Some (c\<lparr>readCoro := RdEnded\<rparr>)"

definition read_next :: "tcp_state \<Rightarrow> tcp_state option" where
  "read_next c = (if killed c then rd_end c else Some (c\<lparr>readCoro := RdHeader\<rparr>))"

definition read_chunks :: "net_env \<Rightarrow> tcp_state \<Rightarrow> tcp_state option" where
  "read_chunks env c =
     (let size = unat (hdr_word (readHeader c)) in
      if size > 0 then Some (c\<lparr>recvBuf := replicate (min REC_BUF_SIZE size) 0, readCoro := RdChunk\<rparr>)
      else do { c \<leftarrow> handleReceivedFile env c; read_next c })"

definition read_header :: "net_env \<Rightarrow> tcp_state \<Rightarrow> tcp_state option" where
  "read_header env c =
     (let h = readHeader c; kind = hdr_kind h; size = unat (hdr_word h) in
      if kind = PARAC_MESSAGE_ACK then do {
        (ok, c) \<leftarrow> handleReceivedACK h c;
        if \<not> ok then rd_end c else read_next c }
      else if kind = PARAC_MESSAGE_FILE then Some (c\<lparr>readCoro := RdFileHeader\<rparr>)
      else if kind = PARAC_MESSAGE_END then rd_end (c\<lparr>resumeMode := EndAfterShutdown\<rparr>)
      else if kind = PARAC_MESSAGE_KEEPALIVE then read_next c
      else if \<not> compute_node c then rd_end c
      else if size > MAX_BUF_SIZE then rd_end c
      else Some (c\<lparr>recvBuf := replicate size 0, readCoro := RdMessage\<rparr>))"

definition read_message :: "net_env \<Rightarrow> io_error \<Rightarrow> u8 list \<Rightarrow> tcp_state \<Rightarrow> tcp_state option" where
  "read_message env ec data c =
     (if ec \<noteq> NoError \<or> length data \<noteq> unat (hdr_word (readHeader c)) \<or> length data \<noteq> length (recvBuf c) then rd_end c
      else do {
        (ok, c) \<leftarrow> handleReceivedMessage env (c\<lparr>recvBuf := data\<rparr>);
        if \<not> ok then rd_end c else read_next (notify_read env c) })"

text \<open>\<^verbatim>\<open>readHandler\<close>: \<open>data\<close> are the bytes of the completed read, already in the buffer it was given.\<close>

definition readHandler :: "net_env \<Rightarrow> io_error \<Rightarrow> u8 list \<Rightarrow> tcp_state \<Rightarrow> tcp_state option" where
  "readHandler env ec data c =
     (if shouldHandlerBeEnded c then Some (c\<lparr>socket_open := False\<rparr>)
      else let c = (if ec \<noteq> NoError then c\<lparr>socket_open := False\<rparr> else c) in
      if ec = Eof then Some c
      else let c = (if compute_node c then c\<lparr>bytes_received := bytes_received c + of_nat (length data)\<rparr> else c)
      in case readCoro c of
        RdStart \<Rightarrow> Some (c\<lparr>readCoro := RdInitiator\<rparr>)
      | RdInitiator \<Rightarrow>
          if ec \<noteq> NoError then rd_end c
          else do {
            (ok, c) \<leftarrow> handleInitiatorMessage env (InitiatorMessage_of_bytes data) c;
            if \<not> ok then rd_end c else Some ((notify_read env c)\<lparr>readCoro := RdHeader\<rparr>) }
      | RdHeader \<Rightarrow>
          if ec \<noteq> NoError then rd_end c
          else do {
            h \<leftarrow> PacketHeader_of_bytes data;
            read_header env (notify_read env (c\<lparr>readHeader := h\<rparr>)) }
      | RdFileHeader \<Rightarrow>
          if ec \<noteq> NoError then rd_end c
          else do { c \<leftarrow> handleReceivedFileStart env data c; read_chunks env c }
      | RdChunk \<Rightarrow>
          if ec \<noteq> NoError then rd_end c
          else do {
            let c = notify_read env c;
            let h = readHeader c;
            let c = c\<lparr>readHeader := h\<lparr>hdr_word := hdr_word h - of_nat (length data)\<rparr>, recvBuf := data\<rparr>;
            c \<leftarrow> handleReceivedFileChunk c;
            read_chunks env c }
      | RdMessage \<Rightarrow> read_message env ec data c
      | RdEnded \<Rightarrow> Some c)"

section \<open>Life of a connection\<close>

definition TCPConnection_state ::
  "nat \<Rightarrow> parac_id \<Rightarrow> u16 \<Rightarrow> int \<Rightarrow> (parac_id \<Rightarrow> send_queue option) \<Rightarrow> tcp_state" where
  "TCPConnection_state cid sid port try queues = \<lparr>socket_open = True, sock_out = [], recvBuf = [], connectionTry = try,
     killed = False, tc_transmitMode = TransmitInit,
     resumeMode = (if try < 0 then EndAfterShutdown else RestartAfterShutdown),
     writeCoro = WrStart, writeInitiatorMessage = \<lparr>sender_id = sid, tcp_port = port\<rparr>, readCoro = RdStart,
     readHeader = header_init, readFileOstream = None, compute_node = False, node_ended = False,
     bytes_received = 0, bytes_sent = 0, remoteIdCache = 0, currentlySending = True, sendQueue = None,
     fileSender = None, net_events = [], tc_id = cid, service_id = sid, service_stopped = False,
     messageSendQueues = queues\<rparr>"

definition TCPConnection_new ::
  "net_env \<Rightarrow> nat \<Rightarrow> parac_id \<Rightarrow> u16 \<Rightarrow> int \<Rightarrow> (parac_id \<Rightarrow> send_queue option) \<Rightarrow> tcp_state option" where
  "TCPConnection_new env cid sid port try queues = do {
     c \<leftarrow> writeHandler env NoError 0 (TCPConnection_state cid sid port try queues);
     readHandler env NoError [] c }"

text \<open>The last reference goes away: an end tag is sent unless one was already transmitted.\<close>

definition TCPConnection_destroy :: "net_env \<Rightarrow> tcp_state \<Rightarrow> tcp_state" where
  "TCPConnection_destroy env c =
     (if \<not> service_stopped c \<and> tc_transmitMode c \<noteq> TransmitEnd then tc_send_end env c else c)"

text \<open>The state is destroyed: the queue forgets the connection, and the side that opened it reconnects.\<close>

definition State_destroy :: "net_env \<Rightarrow> tcp_state \<Rightarrow> tcp_state" where
  "State_destroy env c =
     (if service_stopped c then c
      else let c = upd_queue deregisterNotificationCB c in
        case resumeMode c of
          RestartAfterShutdown \<Rightarrow>
            if connectionTry c \<ge> 0 \<and> connectionTry c < env_connectionRetries env
            then let c = c\<lparr>connectionTry := connectionTry c + 1\<rparr> in tc_emit (Reconnect (connectionTry c)) c
            else c
        | EndAfterShutdown \<Rightarrow> c)"

end
