(* ===== verification/TcpDelivery.thy ===== *)
theory TcpDelivery
  imports TcpConnection
begin

unbundle bit_operations_syntax

text \<open>
  What TCP connections deliver: the write handler of one side and the read handler of the other, composed
  over the bytes between them, and the connection as a state machine with its invariant.
\<close>

section \<open>Runs of the handlers\<close>

datatype write_event = WriteDone nat | FileChunk bool sendfile_result

fun write_run :: "net_env \<Rightarrow> write_event list \<Rightarrow> tcp_state \<Rightarrow> tcp_state option" where
  "write_run env [] c = Some c"
| "write_run env (WriteDone n # evs) c = do { c \<leftarrow> writeHandler env NoError n c; write_run env evs c }"
| "write_run env (FileChunk first ret # evs) c = do { c \<leftarrow> file_step env first ret c; write_run env evs c }"

text \<open>
  The read handler on a stream of bytes: it is called whenever the bytes it waits for have arrived.
  \<open>k\<close> bounds the number of calls.
\<close>

fun read_stream :: "net_env \<Rightarrow> nat \<Rightarrow> u8 list \<Rightarrow> tcp_state \<Rightarrow> (u8 list \<times> tcp_state) option" where
  "read_stream env 0 bs c = None"
| "read_stream env (Suc k) bs c =
     (if readCoro c = RdEnded \<or> length bs < read_want c then Some (bs, c)
      else do {
        c' \<leftarrow> readHandler env NoError (take (read_want c) bs) c;
        read_stream env k (drop (read_want c) bs) c' })"

section \<open>What an entry looks like on the wire\<close>

definition file_bytes :: "net_env \<Rightarrow> message_ref \<Rightarrow> u8 list" where
  "file_bytes env f = (case FileSender_init (replicate 255 0) (env_file env f) of
     None \<Rightarrow> [] | Some fs \<Rightarrow> fs_fileHeader fs @ fs_content fs)"

definition entry_payload :: "net_env \<Rightarrow> entry \<Rightarrow> u8 list" where
  "entry_payload env e = (let kind = hdr_kind (header e) in
     if kind = PARAC_MESSAGE_ACK \<or> kind = PARAC_MESSAGE_END \<or> kind = PARAC_MESSAGE_KEEPALIVE then []
     else case entry_value e of
       FileValue f \<Rightarrow> file_bytes env f
     | MessageValue m \<Rightarrow> take (unat (hdr_word (header e))) (env_payload env m)
     | _ \<Rightarrow> [])"

definition entry_wire :: "net_env \<Rightarrow> entry \<Rightarrow> u8 list" where
  "entry_wire env e = PacketHeader_bytes (header e) @ entry_payload env e"

text \<open>An entry whose memory or file is there to be sent.\<close>

definition sendable :: "net_env \<Rightarrow> entry \<Rightarrow> bool" where
  "sendable env e \<longleftrightarrow> (let kind = hdr_kind (header e) in
     kind = PARAC_MESSAGE_ACK \<or> kind = PARAC_MESSAGE_END \<or> kind = PARAC_MESSAGE_KEEPALIVE
     \<or> (case entry_value e of
          MessageValue m \<Rightarrow> kind \<noteq> PARAC_MESSAGE_FILE \<and> unat (hdr_word (header e)) \<le> length (env_payload env m)
        | FileValue f \<Rightarrow> kind = PARAC_MESSAGE_FILE \<and> length (fst (env_file env f)) < 255
        | _ \<Rightarrow> False))"

text \<open>
  The events that send an entry: the header is written, then the payload, or the chunks of the file; a
  list of results of \<^verbatim>\<open>sendfile\<close> sends a file when it ends with the last byte of it and gives
  \<^verbatim>\<open>EAGAIN\<close> at most three times in a row.
\<close>

fun sends_file :: "nat \<Rightarrow> nat \<Rightarrow> sendfile_result list \<Rightarrow> bool" where
  "sends_file n t [] \<longleftrightarrow> n = 0"
| "sends_file n t (EAgain # rs) \<longleftrightarrow> t < 3 \<and> n > 0 \<and> sends_file n (Suc t) rs"
| "sends_file n t (SendError # rs) \<longleftrightarrow> False"
| "sends_file n t (Sent m # rs) \<longleftrightarrow> m \<le> n \<and> n > 0 \<and> sends_file (n - m) 0 rs"

definition sends_entry :: "net_env \<Rightarrow> entry \<Rightarrow> write_event list \<Rightarrow> bool" where
  "sends_entry env e evs \<longleftrightarrow> (let kind = hdr_kind (header e) in
     if kind = PARAC_MESSAGE_ACK \<or> kind = PARAC_MESSAGE_END \<or> kind = PARAC_MESSAGE_KEEPALIVE
     then \<exists>n. evs = [WriteDone n]
     else case entry_value e of
       FileValue f \<Rightarrow> \<exists>n r rs r_end. evs = WriteDone n # FileChunk True r # map (FileChunk False) (rs @ [r_end])
         \<and> sends_file (length (snd (env_file env f))) 0 (r # rs)
     | _ \<Rightarrow> \<exists>n m. evs = [WriteDone n, WriteDone m])"

section \<open>The writer\<close>

definition writing :: "entry list \<Rightarrow> tcp_state \<Rightarrow> bool" where
  "writing es c \<longleftrightarrow> \<not> shouldHandlerBeEnded c \<and> \<not> killed c \<and> (\<exists>q. the_queue c = Some q \<and> queued q = es)"

lemma the_queue_upd: "the_queue (upd_queue f c) = map_option f (the_queue c)"
  by (simp add: the_queue_def upd_queue_def split: option.splits)

lemma tcp_frame [simp]:
  "killed (async_write bs c) = killed c"
  "killed (tc_emit ev c) = killed c"
  "killed (upd_queue f c) = killed c"
  "killed (setKeepaliveTimer c) = killed c"
  "compute_node (async_write bs c) = compute_node c"
  "compute_node (tc_emit ev c) = compute_node c"
  "compute_node (upd_queue f c) = compute_node c"
  "compute_node (setKeepaliveTimer c) = compute_node c"
  "node_ended (async_write bs c) = node_ended c"
  "node_ended (tc_emit ev c) = node_ended c"
  "node_ended (upd_queue f c) = node_ended c"
  "node_ended (setKeepaliveTimer c) = node_ended c"
  "service_stopped (async_write bs c) = service_stopped c"
  "service_stopped (tc_emit ev c) = service_stopped c"
  "service_stopped (upd_queue f c) = service_stopped c"
  "service_stopped (setKeepaliveTimer c) = service_stopped c"
  "writeCoro (async_write bs c) = writeCoro c"
  "writeCoro (tc_emit ev c) = writeCoro c"
  "writeCoro (upd_queue f c) = writeCoro c"
  "writeCoro (setKeepaliveTimer c) = writeCoro c"
  "fileSender (async_write bs c) = fileSender c"
  "fileSender (tc_emit ev c) = fileSender c"
  "fileSender (upd_queue f c) = fileSender c"
  "fileSender (setKeepaliveTimer c) = fileSender c"
  "readCoro (async_write bs c) = readCoro c"
  "readCoro (tc_emit ev c) = readCoro c"
  "readCoro (upd_queue f c) = readCoro c"
  "readCoro (setKeepaliveTimer c) = readCoro c"
  "readHeader (async_write bs c) = readHeader c"
  "readHeader (tc_emit ev c) = readHeader c"
  "readHeader (upd_queue f c) = readHeader c"
  "readHeader (setKeepaliveTimer c) = readHeader c"
  "recvBuf (async_write bs c) = recvBuf c"
  "recvBuf (tc_emit ev c) = recvBuf c"
  "recvBuf (upd_queue f c) = recvBuf c"
  "recvBuf (setKeepaliveTimer c) = recvBuf c"
  "sendQueue (async_write bs c) = sendQueue c"
  "sendQueue (tc_emit ev c) = sendQueue c"
  "sendQueue (upd_queue f c) = sendQueue c"
  "sendQueue (setKeepaliveTimer c) = sendQueue c"
  "tc_id (async_write bs c) = tc_id c"
  "tc_id (tc_emit ev c) = tc_id c"
  "tc_id (upd_queue f c) = tc_id c"
  "tc_id (setKeepaliveTimer c) = tc_id c"
  "service_id (async_write bs c) = service_id c"
  "service_id (tc_emit ev c) = service_id c"
  "service_id (upd_queue f c) = service_id c"
  "service_id (setKeepaliveTimer c) = service_id c"
  "readFileOstream (async_write bs c) = readFileOstream c"
  "readFileOstream (tc_emit ev c) = readFileOstream c"
  "readFileOstream (upd_queue f c) = readFileOstream c"
  "readFileOstream (setKeepaliveTimer c) = readFileOstream c"
  "connectionTry (async_write bs c) = connectionTry c"
  "connectionTry (tc_emit ev c) = connectionTry c"
  "connectionTry (upd_queue f c) = connectionTry c"
  "connectionTry (setKeepaliveTimer c) = connectionTry c"
  "currentlySending (async_write bs c) = currentlySending c"
  "currentlySending (tc_emit ev c) = currentlySending c"
  "currentlySending (upd_queue f c) = currentlySending c"
  "currentlySending (setKeepaliveTimer c) = currentlySending c"
  "sock_out (async_write bs c) = sock_out c @ bs" "sock_out (tc_emit ev c) = sock_out c"
  "net_events (upd_queue f c) = net_events c" "net_events (async_write bs c) = net_events c"
  "sock_out (upd_queue f c) = sock_out c" "sock_out (setKeepaliveTimer c) = sock_out c"
  by (simp_all add: async_write_def tc_emit_def upd_queue_def setKeepaliveTimer_def split: option.split)

lemma the_queue_simps [simp]:
  "the_queue (async_write bs c) = the_queue c" "the_queue (c\<lparr>writeCoro := w\<rparr>) = the_queue c"
  "the_queue (c\<lparr>bytes_sent := b\<rparr>) = the_queue c" "the_queue (c\<lparr>fileSender := fs\<rparr>) = the_queue c"
  "the_queue (setKeepaliveTimer c) = the_queue c" "the_queue (c\<lparr>tc_transmitMode := m\<rparr>) = the_queue c"
  "the_queue (c\<lparr>currentlySending := b'\<rparr>) = the_queue c" "the_queue (tc_emit ev c) = the_queue c"
  by (simp_all add: the_queue_def async_write_def setKeepaliveTimer_def tc_emit_def split: option.split)

lemma writing_simps [simp]:
  "writing es (async_write bs c) = writing es c" "writing es (c\<lparr>writeCoro := w\<rparr>) = writing es c"
  "writing es (c\<lparr>bytes_sent := b\<rparr>) = writing es c" "writing es (c\<lparr>fileSender := fs\<rparr>) = writing es c"
  "writing es (setKeepaliveTimer c) = writing es c" "writing es (c\<lparr>tc_transmitMode := m\<rparr>) = writing es c"
  "writing es (c\<lparr>currentlySending := b'\<rparr>) = writing es c"
  by (simp_all add: writing_def shouldHandlerBeEnded_def)

lemma write_done_writing:
  assumes "writing (e # es) c"
  shows "\<exists>c'. write_done env c = write_loop c' \<and> writing es c' \<and> sock_out c' = sock_out c"
proof -
  obtain q where q: "the_queue c = Some q" "queued q = e # es" using assms by (auto simp: writing_def)
  obtain q' where q': "popFromQueued (env_now env) q = Some q'" "queued q' = es"
  proof -
    obtain q' where p: "popFromQueued (env_now env) q = Some q'" using q(2) by (simp add: popFromQueued_def Let_def)
    with q(2) that show thesis by (auto elim: pop_cases)
  qed
  have "writing es (upd_queue (\<lambda>_. q') c)"
    using assms q q' by (simp add: writing_def the_queue_upd shouldHandlerBeEnded_def)
  then show ?thesis using assms q q' by (auto simp: write_done_def writing_def)
qed

lemma write_loop_writing:
  assumes "writing (e # es) c"
  shows "\<exists>c'. write_loop c = Some c' \<and> writing (e # es) c' \<and> writeCoro c' = WrHeader
    \<and> sock_out c' = sock_out c @ PacketHeader_bytes (header e)"
proof -
  obtain q where q: "the_queue c = Some q" "queued q = e # es" "\<not> killed c" "\<not> service_stopped c"
    using assms by (auto simp: writing_def shouldHandlerBeEnded_def)
  let ?c = "(setKeepaliveTimer c)\<lparr>tc_transmitMode := transmitMode e\<rparr>"
  have "write_loop c = Some ((async_write (PacketHeader_bytes (header e)) ?c)\<lparr>writeCoro := WrHeader\<rparr>)"
    using q by (simp add: write_loop_def write_loop_begin_def queue_empty_def mq_empty_def mq_front_def)
  then show ?thesis using assms by simp
qed

lemma write_loop_idle:
  assumes "writing [] c"
  shows "\<exists>c'. write_loop c = Some c' \<and> writing [] c' \<and> writeCoro c' = WrIdle \<and> \<not> currentlySending c' \<and> sock_out c' = sock_out c"
proof -
  have "write_loop c = Some ((setKeepaliveTimer (c\<lparr>currentlySending := False\<rparr>))\<lparr>writeCoro := WrIdle\<rparr>)"
    using assms by (auto simp: write_loop_def queue_empty_def mq_empty_def writing_def)
  then show ?thesis using assms by simp
qed

lemma handler_body:
  assumes "writing es c"
  obtains c1 where "writing es c1" "sock_out c1 = sock_out c" "writeCoro c1 = writeCoro c" "fileSender c1 = fileSender c"
    "writeCoro c = WrHeader \<and> es \<noteq> [] \<longrightarrow> writeHandler env NoError n c = write_payload env c1"
    "writeCoro c \<in> {WrFile, WrPayload} \<longrightarrow> writeHandler env NoError n c = write_done env c1"
proof -
  let ?c1 = "if compute_node c then c\<lparr>bytes_sent := bytes_sent c + of_nat n\<rparr> else c"
  have w: "writing es ?c1" using assms by simp
  moreover have "\<not> queue_empty ?c1" if "es \<noteq> []"
  proof -
    obtain q where "the_queue ?c1 = Some q" "queued q = es" using w by (auto simp: writing_def simp del: the_queue_simps)
    with that show ?thesis by (simp add: queue_empty_def mq_empty_def)
  qed
  moreover have "\<not> shouldHandlerBeEnded c" "\<not> killed ?c1" using assms w by (simp_all add: writing_def)
  ultimately show thesis by (intro that [of ?c1]) (auto simp: writeHandler_def Let_def)
qed

lemma file_step_more:
  assumes "fileSender c = Some fs" "fs_offset fs < fs_file_size fs"
  shows "file_step env b EAgain c = (if fs_eagainTries fs < 3
      then Some (c\<lparr>sock_out := sock_out c, fileSender := Some (fs\<lparr>fs_eagainTries := fs_eagainTries fs + 1\<rparr>)\<rparr>)
      else writeHandler env ShutDown 0 (c\<lparr>sock_out := sock_out c, fileSender := None\<rparr>))"
    "file_step env b (Sent m) c = Some ((async_write (take m (drop (fs_offset fs) (fs_content fs))) c)
      \<lparr>fileSender := Some (fs\<lparr>fs_offset := fs_offset fs + m, fs_eagainTries := 0\<rparr>)\<rparr>)"
  using assms by (simp_all add: file_step_def send_chunk_def async_write_def)

lemma file_run:
  assumes "writing (e # es) c" "writeCoro c = WrFile" "fileSender c = Some fs" "fs_file_size fs = length (fs_content fs)"
    "sends_file (fs_file_size fs - fs_offset fs) (fs_eagainTries fs) rs" "fs_offset fs \<le> fs_file_size fs"
  shows "\<exists>c'. (\<forall>evs. write_run env (map (FileChunk False) (rs @ [r_end]) @ evs) c = do { c \<leftarrow> write_done env c'; write_run env evs c })
    \<and> writing (e # es) c' \<and> sock_out c' = sock_out c @ drop (fs_offset fs) (fs_content fs)"
  using assms
proof (induction rs arbitrary: c fs)
  case Nil
  then have o: "fs_offset fs = fs_file_size fs" by simp
  let ?c = "(async_write [] c)\<lparr>fileSender := None\<rparr>"
  have st: "file_step env False r_end c = writeHandler env NoError 0 ?c"
    using Nil.prems(3) o by (simp add: file_step_def send_chunk_def async_write_def)
  have w: "writing (e # es) ?c" using Nil.prems(1) by simp
  obtain c1 where c1: "writing (e # es) c1" "sock_out c1 = sock_out ?c"
    "writeHandler env NoError 0 ?c = write_done env c1"
    using Nil.prems(2) by (rule_tac handler_body [OF w, of env 0]) auto
  have "write_run env (map (FileChunk False) ([] @ [r_end]) @ evs) c = do { c \<leftarrow> write_done env c1; write_run env evs c }" for evs
    using st c1(3) by simp
  with c1 o Nil.prems(4) show ?case by auto
next
  case (Cons r rs)
  have lt: "fs_offset fs < fs_file_size fs" using Cons.prems(5) by (cases r) auto
  note f = file_step_more [OF Cons.prems(3) lt, of env False]
  show ?case
  proof (cases r)
    case (Sent m)
    let ?fs = "fs\<lparr>fs_offset := fs_offset fs + m, fs_eagainTries := 0\<rparr>"
    let ?c = "(async_write (take m (drop (fs_offset fs) (fs_content fs))) c)\<lparr>fileSender := Some ?fs\<rparr>"
    have s: "m \<le> fs_file_size fs - fs_offset fs" "sends_file (fs_file_size fs - (fs_offset fs + m)) 0 rs"
      using Cons.prems(5) Sent by simp_all
    have le: "fs_offset fs + m \<le> fs_file_size fs" using s(1) Cons.prems(6) by arith
    obtain c' where c': "\<forall>evs. write_run env (map (FileChunk False) (rs @ [r_end]) @ evs) ?c = do { c \<leftarrow> write_done env c'; write_run env evs c }"
      "writing (e # es) c'" "sock_out c' = sock_out ?c @ drop (fs_offset fs + m) (fs_content fs)"
      using Cons.IH [of ?c ?fs] Cons.prems s(2) le by (simp (no_asm_use)) blast
    have "take m (drop (fs_offset fs) (fs_content fs)) @ drop (fs_offset fs + m) (fs_content fs) = drop (fs_offset fs) (fs_content fs)"
      by (metis add.commute append_take_drop_id drop_drop)
    with c' Sent f(2) [of m] show ?thesis by (intro exI [of _ c']) simp
  next
    case EAgain
    let ?fs = "fs\<lparr>fs_eagainTries := fs_eagainTries fs + 1\<rparr>"
    let ?c = "c\<lparr>sock_out := sock_out c, fileSender := Some ?fs\<rparr>"
    have e: "?c = c\<lparr>fileSender := Some ?fs\<rparr>" by simp
    have s: "fs_eagainTries fs < 3" "sends_file (fs_file_size fs - fs_offset fs) (Suc (fs_eagainTries fs)) rs"
      using Cons.prems(5) EAgain by simp_all
    have w: "writing (e # es) ?c" unfolding e using Cons.prems(1) by simp
    obtain c' where c': "\<forall>evs. write_run env (map (FileChunk False) (rs @ [r_end]) @ evs) ?c = do { c \<leftarrow> write_done env c'; write_run env evs c }"
      "writing (e # es) c'" "sock_out c' = sock_out ?c @ drop (fs_offset fs) (fs_content fs)"
      using Cons.IH [OF w, of ?fs] Cons.prems s by auto
    with EAgain f(1) s(1) show ?thesis by (intro exI [of _ c']) simp
  qed (use Cons.prems in simp)
qed

lemma file_header_sendable:
  assumes "length (fst (env_file env f)) < 255"
  obtains fs where "FileSender_init (replicate 255 0) (env_file env f) = Some fs" "fs_content fs = snd (env_file env f)"
    "fs_file_size fs = length (fs_content fs)" "fs_offset fs = 0" "fs_eagainTries fs = 0" "length (fs_fileHeader fs) = 255"
    "fs_fileHeader fs = map (\<lambda>ch. of_nat (of_char ch)) (fst (env_file env f)) @ replicate (255 - length (fst (env_file env f))) 0"
proof -
  let ?n = "fst (env_file env f)"
  have "Suc (254 - length ?n) = 255 - length ?n" using assms by simp
  then have "0 # replicate (254 - length ?n) (0 :: u8) = replicate (255 - length ?n) 0"
    by (metis replicate_Suc)
  with assms have "FileSender_init (replicate 255 0) (env_file env f) = Some \<lparr>fs_fileHeader =
      map (\<lambda>ch. of_nat (of_char ch)) ?n @ replicate (255 - length ?n) 0, fs_content = snd (env_file env f),
      fs_file_size = length (snd (env_file env f)), fs_offset = 0, fs_eagainTries = 0\<rparr>"
    by (simp add: FileSender_init_def file_header_def compact_name_def)
  then show thesis by (rule that) (use assms in simp_all)
qed

lemma write_entry:
  assumes w: "writing (e # es) c" "writeCoro c = WrHeader" and s: "sendable env e" "sends_entry env e evs"
  shows "\<exists>c'. (\<forall>evs'. write_run env (evs @ evs') c = do { c \<leftarrow> write_loop c'; write_run env evs' c })
    \<and> writing es c' \<and> sock_out c' = sock_out c @ entry_payload env e"
proof -
  let ?k = "hdr_kind (header e)"
  obtain n evs1 where ev: "evs = WriteDone n # evs1"
    using s(2) by (auto simp: sends_entry_def Let_def split: if_splits entry_value.splits)
  obtain c1 where c1: "writing (e # es) c1" "sock_out c1 = sock_out c" "writeHandler env NoError n c = write_payload env c1"
    using w(2) by (rule_tac handler_body [OF w(1), of env n]) auto
  then obtain q where q: "the_queue c1 = Some q" "mq_front q = Some e" by (auto simp: writing_def mq_front_def)
  have finish: "\<exists>c'. (\<forall>evs'. write_run env (evs @ evs') c = do { c \<leftarrow> write_loop c'; write_run env evs' c })
      \<and> writing es c' \<and> sock_out c' = sock_out c @ entry_payload env e"
    if "\<forall>evs'. write_run env (evs @ evs') c = do { c \<leftarrow> write_done env c2; write_run env evs' c }"
      "writing (e # es) c2" "sock_out c2 = sock_out c @ entry_payload env e" for c2
    using write_done_writing [OF that(2), of env] that(1,3) by auto
  show ?thesis
  proof (cases "?k = PARAC_MESSAGE_ACK \<or> ?k = PARAC_MESSAGE_END \<or> ?k = PARAC_MESSAGE_KEEPALIVE")
    case True
    then have "entry_payload env e = []" "evs1 = []" using s(2) ev by (auto simp: entry_payload_def sends_entry_def Let_def)
    moreover have "write_payload env c1 = write_done env c1" using q True by (auto simp: write_payload_def)
    ultimately show ?thesis using c1 ev by (intro finish [of c1]) simp_all
  next
    case plain: False
    show ?thesis
    proof (cases "entry_value e")
      case (MessageValue m)
      let ?p = "take (unat (hdr_word (header e))) (env_payload env m)"
      let ?c2 = "(async_write ?p c1)\<lparr>writeCoro := WrPayload\<rparr>"
      have k: "?k \<noteq> PARAC_MESSAGE_FILE" "unat (hdr_word (header e)) \<le> length (env_payload env m)"
        using s(1) plain MessageValue by (auto simp: sendable_def Let_def)
      have wp: "write_payload env c1 = Some ?c2" using q plain k MessageValue by (simp add: write_payload_def)
      have w2: "writing (e # es) ?c2" using c1(1) by simp
      obtain m' where ev1: "evs1 = [WriteDone m']" using s(2) ev plain MessageValue by (auto simp: sends_entry_def Let_def)
      obtain c3 where "writing (e # es) c3" "sock_out c3 = sock_out ?c2" "writeHandler env NoError m' ?c2 = write_done env c3"
        by (rule handler_body [OF w2, of env m']) auto
      with c1 wp ev ev1 plain MessageValue show ?thesis
        by (intro finish [of c3]) (simp_all add: entry_payload_def Let_def)
    next
      case (FileValue f)
      have k: "?k = PARAC_MESSAGE_FILE" "length (fst (env_file env f)) < 255"
        using s(1) plain FileValue by (auto simp: sendable_def Let_def)
      obtain fs where fs: "FileSender_init (replicate 255 0) (env_file env f) = Some fs" "fs_content fs = snd (env_file env f)"
        "fs_file_size fs = length (fs_content fs)" "fs_offset fs = 0" "fs_eagainTries fs = 0"
        by (rule file_header_sendable [OF k(2)])
      let ?c2 = "(async_write (fs_fileHeader fs) c1)\<lparr>fileSender := Some fs, writeCoro := WrFile\<rparr>"
      have wp: "write_payload env c1 = Some ?c2" using q plain k FileValue fs(1) by (simp add: write_payload_def)
      obtain r rs r_end where ev1: "evs1 = FileChunk True r # map (FileChunk False) (rs @ [r_end])"
        "sends_file (length (snd (env_file env f))) 0 (r # rs)"
        using s(2) ev plain FileValue by (auto simp: sends_entry_def Let_def)
      have "fs_offset fs < fs_file_size fs" using ev1(2) fs by (cases r) auto
      then have first: "file_step env True r ?c2 = file_step env False r ?c2"
        by (simp add: file_step_def send_chunk_def)
      have w2: "writing (e # es) ?c2" using c1(1) by simp
      obtain c3 where c3: "\<forall>evs'. write_run env (map (FileChunk False) ((r # rs) @ [r_end]) @ evs') ?c2
          = do { c \<leftarrow> write_done env c3; write_run env evs' c }"
        "writing (e # es) c3" "sock_out c3 = sock_out ?c2 @ drop (fs_offset fs) (fs_content fs)"
        using file_run [OF w2, of fs "r # rs" env r_end] fs ev1(2) by auto
      show ?thesis
      proof (rule finish [of c3])
        show "\<forall>evs'. write_run env (evs @ evs') c = do { c \<leftarrow> write_done env c3; write_run env evs' c }"
          using c3(1) c1(3) wp first ev ev1(1) by simp
        show "sock_out c3 = sock_out c @ entry_payload env e"
          using c3(3) c1(2) fs plain FileValue by (simp add: entry_payload_def file_bytes_def Let_def)
      qed (rule c3(2))
    qed (use s(1) plain in \<open>auto simp: sendable_def Let_def\<close>)
  qed
qed

lemma write_queue:
  assumes "writing es c" "list_all (sendable env) es" "list_all2 (sends_entry env) es evss"
  shows "\<exists>c1 c'. write_loop c = Some c1 \<and> write_run env (concat evss) c1 = Some c' \<and> writing [] c' \<and> writeCoro c' = WrIdle
    \<and> \<not> currentlySending c' \<and> sock_out c' = sock_out c @ concat (map (entry_wire env) es)"
  using assms
proof (induction es arbitrary: c evss)
  case Nil
  then show ?case using write_loop_idle [of c] by auto
next
  case (Cons e es)
  from Cons.prems(3) obtain ev evs where evs: "evss = ev # evs" "sends_entry env e ev" "list_all2 (sends_entry env) es evs"
    by (cases evss) auto
  obtain c1 where c1: "write_loop c = Some c1" "writing (e # es) c1" "writeCoro c1 = WrHeader"
    "sock_out c1 = sock_out c @ PacketHeader_bytes (header e)"
    using write_loop_writing [OF Cons.prems(1)] by blast
  obtain c2 where c2: "\<forall>evs'. write_run env (ev @ evs') c1 = do { c \<leftarrow> write_loop c2; write_run env evs' c }"
    "writing es c2" "sock_out c2 = sock_out c1 @ entry_payload env e"
    using write_entry [OF c1(2,3) _ evs(2)] Cons.prems(2) by auto
  obtain c3 c' where "write_loop c2 = Some c3" "write_run env (concat evs) c3 = Some c'" "writing [] c'" "writeCoro c' = WrIdle"
    "\<not> currentlySending c'" "sock_out c' = sock_out c2 @ concat (map (entry_wire env) es)"
    using Cons.IH [OF c2(2) _ evs(3)] Cons.prems(2) by auto
  with c1 c2 evs(1) show ?case
    by (rule_tac exI [of _ c1], rule_tac exI [of _ c']) (simp add: entry_wire_def [of env e])
qed

section \<open>The reader\<close>

definition reading :: "parac_id \<Rightarrow> tcp_state \<Rightarrow> bool" where
  "reading i c \<longleftrightarrow> \<not> shouldHandlerBeEnded c \<and> \<not> killed c \<and> compute_node c \<and> sendQueue c = Some i
     \<and> (\<exists>q. messageSendQueues c i = Some q \<and> \<not> m_dropped q)"

definition is_delivery :: "net_event \<Rightarrow> bool" where
  "is_delivery e \<longleftrightarrow> (case e of ReceivedMessage k i bs \<Rightarrow> True | ReceivedFile p i bs \<Rightarrow> True | _ \<Rightarrow> False)"

definition deliveries :: "tcp_state \<Rightarrow> net_event list" where
  "deliveries c = filter is_delivery (net_events c)"

definition in_queue :: "tcp_state \<Rightarrow> entry list" where
  "in_queue c = (case the_queue c of None \<Rightarrow> [] | Some q \<Rightarrow> queued q)"

text \<open>\<open>c'\<close> is \<open>c\<close> after the deliveries \<open>ds\<close>, with the acknowledgements \<open>as\<close> in its queue.\<close>

definition received :: "net_event list \<Rightarrow> entry list \<Rightarrow> tcp_state \<Rightarrow> tcp_state \<Rightarrow> bool" where
  "received ds as c c' \<longleftrightarrow> deliveries c' = deliveries c @ ds \<and> in_queue c' = in_queue c @ as
     \<and> service_id c' = service_id c \<and> (\<forall>i. reading i c \<longrightarrow> reading i c')"

lemma received_refl: "received [] [] c c"
  by (simp add: received_def)

lemma received_trans: "received ds as c c1 \<Longrightarrow> received ds' as' c1 c' \<Longrightarrow> received (ds @ ds') (as @ as') c c'"
  by (simp add: received_def)

lemma reading_upd [simp]:
  "reading i (c\<lparr>readCoro := r\<rparr>) = reading i c" "reading i (c\<lparr>readHeader := h\<rparr>) = reading i c"
  "reading i (c\<lparr>recvBuf := b\<rparr>) = reading i c" "reading i (c\<lparr>bytes_received := n\<rparr>) = reading i c"
  "reading i (c\<lparr>readFileOstream := f\<rparr>) = reading i c" "reading i (c\<lparr>currentlySending := s\<rparr>) = reading i c"
  "reading i (tc_emit e c) = reading i c"
  by (simp_all add: reading_def shouldHandlerBeEnded_def) (simp_all add: tc_emit_def)

lemma the_queue_read [simp]:
  "the_queue (c\<lparr>readCoro := r\<rparr>) = the_queue c" "the_queue (c\<lparr>readHeader := h\<rparr>) = the_queue c"
  "the_queue (c\<lparr>recvBuf := b\<rparr>) = the_queue c" "the_queue (c\<lparr>bytes_received := n\<rparr>) = the_queue c"
  "the_queue (c\<lparr>readFileOstream := f\<rparr>) = the_queue c"
  by (simp_all add: the_queue_def split: option.split)

lemma received_upd [simp]:
  "received [] [] c (c\<lparr>readCoro := r\<rparr>)" "received [] [] c (c\<lparr>readHeader := h\<rparr>)" "received [] [] c (c\<lparr>recvBuf := b\<rparr>)"
  "received [] [] c (c\<lparr>bytes_received := n\<rparr>)" "received [] [] c (c\<lparr>readFileOstream := f\<rparr>)"
  by (simp_all add: received_def deliveries_def in_queue_def)

lemma received_read [simp]:
  "received ds as c (c'\<lparr>readCoro := r\<rparr>) = received ds as c c'" "received ds as c (c'\<lparr>readHeader := h\<rparr>) = received ds as c c'"
  "received ds as c (c'\<lparr>recvBuf := b\<rparr>) = received ds as c c'" "received ds as c (c'\<lparr>bytes_received := n\<rparr>) = received ds as c c'"
  "received ds as c (c'\<lparr>readFileOstream := f\<rparr>) = received ds as c c'"
  by (simp_all add: received_def deliveries_def in_queue_def)

lemma received_emit: "received [] [] c (tc_emit e c)" if "\<not> is_delivery e"
  using that by (simp add: received_def deliveries_def in_queue_def) (simp add: tc_emit_def)

lemma received_delivery: "received [e] [] c (tc_emit e c)" if "is_delivery e"
  using that by (simp add: received_def deliveries_def in_queue_def) (simp add: tc_emit_def)

lemma queue_upd_reading:
  assumes "\<And>q. m_dropped (f q) = m_dropped q"
  shows "reading i (upd_queue f c) = reading i c"
proof (cases "sendQueue c = Some i")
  case True
  then have "messageSendQueues (upd_queue f c) i = map_option f (messageSendQueues c i)" by (simp add: upd_queue_def)
  with assms show ?thesis by (auto simp: reading_def shouldHandlerBeEnded_def)
qed (simp add: reading_def)

lemma received_notify: "received [] [] c (notify_read env c)"
  unfolding notify_read_def received_def deliveries_def in_queue_def
  by (auto simp: queue_upd_reading notifyOfRead_def the_queue_upd split: option.splits)

lemma received_trigger: "received [] [] c (snd (conditionallyTriggerWriteHandler c))"
proof (cases "currentlySending c")
  case False
  have "received [] [] (c\<lparr>currentlySending := True\<rparr>) (tc_emit PostWriteHandler (c\<lparr>currentlySending := True\<rparr>))"
    by (rule received_emit) (simp add: is_delivery_def)
  with False show ?thesis
    by (simp add: conditionallyTriggerWriteHandler_def received_def deliveries_def in_queue_def)
qed (simp add: conditionallyTriggerWriteHandler_def received_refl)

lemma received_ack:
  assumes "reading i c"
  shows "received [] [Entry_ack (env_now env) n st] c (tc_sendACK env n st c)"
proof -
  obtain q where q: "the_queue c = Some q" "\<not> m_dropped q" "sendQueue c = Some i" "messageSendQueues c i = Some q"
    using assms by (auto simp: reading_def the_queue_def)
  let ?e = "Entry_ack (env_now env) n st"
  define alive where "alive = (m_notificationFunc q = Some (tc_id c) \<or> env_alive env)"
  let ?c = "upd_queue (send_entry alive ?e False) c"
  have k: "numbered False ?e q = ?e" by (simp add: numbered_def Entry_ack_def set_size_def set_ack_status_def header_init_def)
  have "the_queue ?c = Some (send_entry alive ?e False q)" using q(1) by (simp add: the_queue_upd)
  then have "in_queue ?c = in_queue c @ [?e]" using q by (simp add: in_queue_def send_entry_fields k)
  moreover have "reading j ?c" if "reading j c" for j
    using that q by (auto simp: reading_def shouldHandlerBeEnded_def upd_queue_def send_entry_fields)
  ultimately have r: "received [] [?e] c ?c" by (simp add: received_def deliveries_def)
  show ?thesis
    using received_trans [OF r received_trigger] r q(1)
    by (simp add: tc_sendACK_def SendToMessageSendQueue_def Let_def alive_def [symmetric])
qed

definition stored_path :: "net_env \<Rightarrow> parac_id \<Rightarrow> parac_id \<Rightarrow> string \<Rightarrow> string" where
  "stored_path env sid orig name = env_append_path env
     (if orig \<noteq> sid then env_append_path env (env_temporaryDirectory env) (nat_to_str (unat orig))
      else env_temporaryDirectory env) name"

text \<open>
  What the receiver \<open>B\<close> with the id \<open>sid\<close> makes of an entry of the sender \<open>A\<close>: a delivery with the status
  of its acknowledgement, or nothing for a keepalive.
\<close>

definition delivery :: "net_env \<Rightarrow> net_env \<Rightarrow> parac_id \<Rightarrow> entry \<Rightarrow> (net_event \<times> parac_status option) option" where
  "delivery A B sid e = (let h = header e; orig = hdr_originator h in
     if hdr_kind h = PARAC_MESSAGE_KEEPALIVE then None
     else case entry_value e of
       MessageValue m \<Rightarrow> let bs = take (unat (hdr_word h)) (env_payload A m) in
         Some (ReceivedMessage (hdr_kind h) orig bs, env_receive_message B (hdr_kind h) orig bs)
     | FileValue f \<Rightarrow> let p = stored_path B sid orig (fst (env_file A f)) in
         Some (ReceivedFile p orig (snd (env_file A f)), env_receive_file B p orig)
     | _ \<Rightarrow> None)"

definition delivered_events :: "net_env \<Rightarrow> net_env \<Rightarrow> parac_id \<Rightarrow> entry \<Rightarrow> net_event list" where
  "delivered_events A B sid e = (case delivery A B sid e of None \<Rightarrow> [] | Some (ev, st) \<Rightarrow> [ev])"

definition acknowledgements :: "net_env \<Rightarrow> net_env \<Rightarrow> parac_id \<Rightarrow> entry \<Rightarrow> entry list" where
  "acknowledgements A B sid e = (case delivery A B sid e of
     Some (ev, Some st) \<Rightarrow> [Entry_ack (env_now B) (hdr_number (header e)) st] | _ \<Rightarrow> [])"

text \<open>
  Entries that are not acknowledgements or end tags, that fit the receive buffer and that the receiver's
  compute node answers; a file can be opened, its size is announced and its name has no zero byte.
\<close>

definition receivable :: "net_env \<Rightarrow> net_env \<Rightarrow> parac_id \<Rightarrow> entry \<Rightarrow> bool" where
  "receivable A B sid e \<longleftrightarrow> (let h = header e; kind = hdr_kind h in
     kind \<noteq> PARAC_MESSAGE_ACK \<and> kind \<noteq> PARAC_MESSAGE_END \<and>
     (kind = PARAC_MESSAGE_KEEPALIVE \<or>
      (case entry_value e of
         MessageValue m \<Rightarrow> unat (hdr_word h) \<le> MAX_BUF_SIZE \<and>
           (\<exists>st. env_receive_message B kind (hdr_originator h) (take (unat (hdr_word h)) (env_payload A m)) = Some st
             \<and> st \<noteq> PARAC_ABORT_CONNECTION)
       | FileValue f \<Rightarrow> unat (hdr_word h) = length (snd (env_file A f)) \<and> CHR 0x00 \<notin> set (fst (env_file A f))
           \<and> (let p = stored_path B sid (hdr_originator h) (fst (env_file A f)) in
                env_open B p \<and> (\<exists>st. env_receive_file B p (hdr_originator h) = Some st))
       | _ \<Rightarrow> False)))"

text \<open>The number of calls of the read handler that an entry takes.\<close>

definition read_calls :: "net_env \<Rightarrow> entry \<Rightarrow> nat" where
  "read_calls A e = (if hdr_kind (header e) = PARAC_MESSAGE_KEEPALIVE then 1
     else case entry_value e of FileValue f \<Rightarrow> 2 + (length (snd (env_file A f)) + 4095) div 4096 | _ \<Rightarrow> 2)"

lemma read_stream_call:
  assumes "readCoro c \<noteq> RdEnded" "length bs = read_want c" "readHandler env NoError bs c = Some c'"
  shows "read_stream env (Suc k) (bs @ rest) c = read_stream env k rest c'"
  using assms by (simp del: length_append) (simp add: assms(2) [symmetric])

lemma readHandler_counts:
  assumes "reading i c"
  shows "readHandler env NoError data c = (let c = c\<lparr>bytes_received := bytes_received c + of_nat (length data)\<rparr> in
    case readCoro c of
        RdStart \<Rightarrow> Some (c\<lparr>readCoro := RdInitiator\<rparr>)
      | RdInitiator \<Rightarrow> do {
            (ok, c) \<leftarrow> handleInitiatorMessage env (InitiatorMessage_of_bytes data) c;
            if \<not> ok then rd_end c else Some ((notify_read env c)\<lparr>readCoro := RdHeader\<rparr>) }
      | RdHeader \<Rightarrow> do {
            h \<leftarrow> PacketHeader_of_bytes data;
            read_header env (notify_read env (c\<lparr>readHeader := h\<rparr>)) }
      | RdFileHeader \<Rightarrow> do { c \<leftarrow> handleReceivedFileStart env data c; read_chunks env c }
      | RdChunk \<Rightarrow> do {
            let c = notify_read env c;
            let h = readHeader c;
            let c = c\<lparr>readHeader := h\<lparr>hdr_word := hdr_word h - of_nat (length data)\<rparr>, recvBuf := data\<rparr>;
            c \<leftarrow> handleReceivedFileChunk c;
            read_chunks env c }
      | RdMessage \<Rightarrow> if length data \<noteq> unat (hdr_word (readHeader c)) \<or> length data \<noteq> length (recvBuf c) then rd_end c
          else do {
            (ok, c) \<leftarrow> handleReceivedMessage env (c\<lparr>recvBuf := data\<rparr>);
            if \<not> ok then rd_end c else read_next (notify_read env c) }
      | RdEnded \<Rightarrow> Some c)"
  using assms by (simp add: readHandler_def read_message_def reading_def Let_def split: read_pos.split)

lemma notify_fields [simp]:
  "readCoro (notify_read env c) = readCoro c" "readHeader (notify_read env c) = readHeader c"
  "recvBuf (notify_read env c) = recvBuf c" "killed (notify_read env c) = killed c"
  "compute_node (notify_read env c) = compute_node c" "readFileOstream (notify_read env c) = readFileOstream c"
  "service_id (notify_read env c) = service_id c"
  by (simp_all add: notify_read_def)

lemma ack_fields [simp]:
  "killed (tc_sendACK env n st c) = killed c" "compute_node (tc_sendACK env n st c) = compute_node c"
  by (simp_all add: tc_sendACK_def SendToMessageSendQueue_def conditionallyTriggerWriteHandler_def Let_def
      split: option.split)

text \<open>The header of an entry arrives.\<close>

lemma header_arrives:
  assumes c: "reading i c" "readCoro c = RdHeader"
  shows "\<exists>c1. received [] [] c c1 \<and> readHeader c1 = header e \<and> (\<forall>k rest. read_stream env (Suc k) (PacketHeader_bytes (header e) @ rest) c
    = do { c' \<leftarrow> read_header env c1; read_stream env k rest c' })"
proof -
  let ?c = "c\<lparr>bytes_received := bytes_received c + of_nat 24, readHeader := header e\<rparr>"
  let ?c1 = "notify_read env ?c"
  have "received [] [] ?c ?c1" by (rule received_notify)
  then have r: "received [] [] c ?c1" by (simp add: received_def deliveries_def in_queue_def)
  have h: "readHandler env NoError (PacketHeader_bytes (header e)) c = read_header env ?c1"
    using c by (simp add: readHandler_counts [OF c(1)] Let_def)
  have "read_stream env (Suc k) (PacketHeader_bytes (header e) @ rest) c = do { c' \<leftarrow> read_header env ?c1; read_stream env k rest c' }" for k rest
    using c(2) h by (simp add: read_want_def)
  with r show ?thesis by (intro exI [of _ ?c1]) simp
qed

lemma receivedD: "received ds as c c' \<Longrightarrow> reading i c \<Longrightarrow> reading i c'"
  by (simp add: received_def)

lemma message_arrives:
  assumes c: "reading i c" "readCoro c = RdMessage" "length (recvBuf c) = length bs" "unat (hdr_word (readHeader c)) = length bs"
    and st: "env_receive_message env (hdr_kind (readHeader c)) (hdr_originator (readHeader c)) bs = Some st" "st \<noteq> PARAC_ABORT_CONNECTION"
  shows "\<exists>c'. (\<forall>k rest. read_stream env (Suc k) (bs @ rest) c = read_stream env k rest c') \<and> readCoro c' = RdHeader
    \<and> received [ReceivedMessage (hdr_kind (readHeader c)) (hdr_originator (readHeader c)) bs]
        [Entry_ack (env_now env) (hdr_number (readHeader c)) st] c c'"
proof -
  let ?h = "readHeader c" and ?c = "c\<lparr>bytes_received := bytes_received c + of_nat (length bs), recvBuf := bs\<rparr>"
  let ?ev = "ReceivedMessage (hdr_kind ?h) (hdr_originator ?h) bs"
  let ?c1 = "tc_emit ?ev ?c"
  let ?c2 = "tc_sendACK env (hdr_number ?h) st ?c1"
  let ?c' = "(notify_read env ?c2)\<lparr>readCoro := RdHeader\<rparr>"
  have r1: "received [?ev] [] ?c ?c1" by (rule received_delivery) (simp add: is_delivery_def)
  have "reading i ?c1" using c(1) by simp
  then have "received [] [Entry_ack (env_now env) (hdr_number ?h) st] ?c1 ?c2" by (rule received_ack)
  from received_trans [OF received_trans [OF r1 this] received_notify [of ?c2 env]]
  have r: "received [?ev] [Entry_ack (env_now env) (hdr_number ?h) st] ?c (notify_read env ?c2)" by simp
  have "readHandler env NoError bs c = Some ?c'"
    using c st by (simp add: readHandler_counts [OF c(1)] handleReceivedMessage_def read_next_def reading_def Let_def)
  then have "read_stream env (Suc k) (bs @ rest) c = read_stream env k rest ?c'" for k rest
    using c(2,3) by (intro read_stream_call) (simp_all add: read_want_def)
  moreover have "received [?ev] [Entry_ack (env_now env) (hdr_number ?h) st] c ?c'"
    using r by (simp add: received_def deliveries_def in_queue_def)
  ultimately show ?thesis by (intro exI [of _ ?c']) simp
qed

section \<open>Receiving files\<close>

lemma file_end:
  assumes c: "reading i c" "hdr_word (readHeader c) = 0" "readFileOstream c = Some o'"
    and st: "env_receive_file env (fo_path o') (hdr_originator (readHeader c)) = Some st"
  shows "\<exists>c'. read_chunks env c = Some c' \<and> readCoro c' = RdHeader
    \<and> received [ReceivedFile (fo_path o') (hdr_originator (readHeader c)) (fo_written o')]
        [Entry_ack (env_now env) (hdr_number (readHeader c)) st] c c'"
proof -
  let ?h = "readHeader c"
  let ?ev = "ReceivedFile (fo_path o') (hdr_originator ?h) (fo_written o')"
  let ?c1 = "tc_emit ?ev c"
  let ?c2 = "tc_sendACK env (hdr_number ?h) st ?c1"
  have r1: "received [?ev] [] c ?c1" by (rule received_delivery) (simp add: is_delivery_def)
  have "reading i ?c1" using c(1) by simp
  then have "received [] [Entry_ack (env_now env) (hdr_number ?h) st] ?c1 ?c2" by (rule received_ack)
  from received_trans [OF r1 this]
  have "received [?ev] [Entry_ack (env_now env) (hdr_number ?h) st] c ?c2" by simp
  moreover have "read_chunks env c = Some (?c2\<lparr>readCoro := RdHeader\<rparr>)"
    using c st by (simp add: read_chunks_def handleReceivedFile_def read_next_def reading_def Let_def)
  ultimately show ?thesis by auto
qed

lemma chunks_div: "0 < n \<Longrightarrow> (n + 4095) div 4096 = Suc ((n - min 4096 n + 4095) div 4096)" for n :: nat
proof -
  assume "0 < n"
  show ?thesis
  proof (cases "n \<le> 4096")
    case True
    with \<open>0 < n\<close> have "n + 4095 = 4096 * 1 + (n - 1)" "n - 1 < 4096" by auto
    then have "(n + 4095) div 4096 = 1" by (metis div_mult_self4 div_less add.right_neutral zero_neq_numeral)
    with True show ?thesis by simp
  next
    case False
    then have "n + 4095 = (n - 4096 + 4095) + 4096 * 1" by simp
    then have "(n + 4095) div 4096 = (n - 4096 + 4095) div 4096 + 1"
      by (metis div_mult_self2 add.commute zero_neq_numeral)
    with False show ?thesis by (simp add: min_def)
  qed
qed

lemma chunks_arrive:
  assumes "reading i c" "readFileOstream c = Some o'" "unat (hdr_word (readHeader c)) = length bs"
    "env_receive_file env (fo_path o') (hdr_originator (readHeader c)) = Some st"
  shows "\<exists>c'. (\<forall>k rest. do { c \<leftarrow> read_chunks env c; read_stream env ((length bs + 4095) div 4096 + k) (bs @ rest) c } = read_stream env k rest c')
    \<and> readCoro c' = RdHeader \<and> received [ReceivedFile (fo_path o') (hdr_originator (readHeader c)) (fo_written o' @ bs)]
        [Entry_ack (env_now env) (hdr_number (readHeader c)) st] c c'"
  using assms
proof (induction "length bs" arbitrary: bs c o' rule: less_induct)
  case less
  show ?case
  proof (cases "bs = []")
    case True
    then have "hdr_word (readHeader c) = 0" using less.prems(3) by (simp add: unat_eq_0)
    from file_end [OF less.prems(1) this less.prems(2,4)] True show ?thesis by auto
  next
    case False
    define m where "m = min 4096 (length bs)"
    have m: "0 < m" "m \<le> length bs" using False by (simp_all add: m_def)
    let ?h = "readHeader c" and ?a = "take m bs"
    let ?c1 = "c\<lparr>recvBuf := replicate m 0, readCoro := RdChunk\<rparr>"
    let ?c2 = "?c1\<lparr>bytes_received := bytes_received c + of_nat m\<rparr>"
    let ?h' = "?h\<lparr>hdr_word := hdr_word ?h - of_nat m\<rparr>"
    let ?o = "o'\<lparr>fo_written := fo_written o' @ ?a\<rparr>"
    let ?c3 = "(notify_read env ?c2)\<lparr>readHeader := ?h', recvBuf := ?a, readFileOstream := Some ?o\<rparr>"
    have la: "length ?a = m" using m by simp
    have ch: "read_chunks env c = Some ?c1"
      using m less.prems(3) by (simp add: read_chunks_def REC_BUF_SIZE_def m_def Let_def)
    have r1: "reading i ?c1" using less.prems(1) by simp
    have hd: "readHandler env NoError ?a ?c1 = read_chunks env ?c3"
      using less.prems(2) la by (simp add: readHandler_counts [OF r1] handleReceivedFileChunk_def Let_def)
    have "unat (hdr_word ?h) < 2 ^ 64" by (rule less_le_trans [OF unsigned_less]) simp
    with m(2) less.prems(3) have "m < 2 ^ 64" by simp
    then have sz: "unat (hdr_word ?h - of_nat m) = length (drop m bs)"
      using m(2) less.prems(3) by (subst unat_sub) (simp_all add: word_le_nat_alt unat_of_nat_small)
    have rc: "received [] [] c ?c3"
      using received_notify [of ?c2 env] by (simp add: received_def deliveries_def in_queue_def)
    have r3: "reading i ?c3" by (rule receivedD [OF rc less.prems(1)])
    have "\<exists>c'. (\<forall>k rest. do { c \<leftarrow> read_chunks env ?c3; read_stream env ((length (drop m bs) + 4095) div 4096 + k) (drop m bs @ rest) c } = read_stream env k rest c')
      \<and> readCoro c' = RdHeader \<and> received [ReceivedFile (fo_path ?o) (hdr_originator (readHeader ?c3)) (fo_written ?o @ drop m bs)]
        [Entry_ack (env_now env) (hdr_number (readHeader ?c3)) st] ?c3 c'"
      by (rule less.hyps [OF _ r3]) (use m less.prems(4) sz in simp_all)
    then obtain c' where c': "\<forall>k rest. do { c \<leftarrow> read_chunks env ?c3; read_stream env ((length (drop m bs) + 4095) div 4096 + k) (drop m bs @ rest) c } = read_stream env k rest c'"
      "readCoro c' = RdHeader" "received [ReceivedFile (fo_path o') (hdr_originator ?h) (fo_written o' @ bs)]
        [Entry_ack (env_now env) (hdr_number ?h) st] ?c3 c'" by auto
    have d: "(length bs + 4095) div 4096 = Suc ((length (drop m bs) + 4095) div 4096)"
      using chunks_div [of "length bs"] m by (simp add: m_def)
    have "read_stream env ((length bs + 4095) div 4096 + k) (bs @ rest) ?c1 = read_stream env k rest c'" for k rest
    proof -
      have "bs @ rest = ?a @ (drop m bs @ rest)" by simp
      then have "read_stream env ((length bs + 4095) div 4096 + k) (bs @ rest) ?c1 =
          do { c \<leftarrow> read_chunks env ?c3; read_stream env ((length (drop m bs) + 4095) div 4096 + k) (drop m bs @ rest) c }"
        using hd la m unfolding d by (simp add: read_want_def)
      with c'(1) show ?thesis by simp
    qed
    with ch c'(2) received_trans [OF rc c'(3)] show ?thesis by auto
  qed
qed

lemma file_name_back:
  assumes "CHR 0x00 \<notin> set name"
  shows "map (\<lambda>b. char_of (unat b)) (takeWhile (\<lambda>b. b \<noteq> 0) (map (\<lambda>ch. of_nat (of_char ch) :: u8) name @ replicate n 0)) = name"
proof -
  have small: "(of_char ch :: nat) < 2 ^ LENGTH(8)" for ch using nat_of_char_less_256 [of ch] by simp
  have z: "(of_nat (of_char ch) :: u8) \<noteq> 0" if "ch \<in> set name" for ch
  proof
    assume "(of_nat (of_char ch) :: u8) = 0"
    then have "of_char ch = (0 :: nat)" using unat_of_nat_small [OF small [of ch]] by simp
    then have "ch = char_of (0 :: nat)" by (metis char_of_char)
    then have "ch = CHR 0x00" by (simp add: char_of_def)
    with assms that show False by simp
  qed
  have "takeWhile (\<lambda>b. b \<noteq> 0) (map (\<lambda>ch. of_nat (of_char ch) :: u8) name @ replicate n 0) = map (\<lambda>ch. of_nat (of_char ch)) name"
    using z by (subst takeWhile_append2) (auto simp: takeWhile_replicate)
  moreover have "char_of (unat (of_nat (of_char ch) :: u8)) = ch" for ch
    using unat_of_nat_small [OF small [of ch]] by simp
  ultimately show ?thesis by (simp add: map_idI)
qed

section \<open>Receiving a stream\<close>

lemma handleReceivedFileStart_path:
  "handleReceivedFileStart env name c = do {
     let p = stored_path env (service_id c) (hdr_originator (readHeader c)) (map (\<lambda>b. char_of (unat b)) (takeWhile (\<lambda>b. b \<noteq> 0) name));
     c_assert (env_open env p);
     Some (c\<lparr>readFileOstream := Some \<lparr>fo_path = p, fo_written = []\<rparr>\<rparr>) }"
  by (simp add: handleReceivedFileStart_def stored_path_def Let_def)

lemma entry_arrives:
  assumes c: "reading i c" "readCoro c = RdHeader" "service_id c = sid" and e: "sendable A e" "receivable A B sid e"
  shows "\<exists>c'. (\<forall>k rest. read_stream B (read_calls A e + k) (entry_wire A e @ rest) c = read_stream B k rest c')
    \<and> readCoro c' = RdHeader \<and> received (delivered_events A B sid e) (acknowledgements A B sid e) c c'"
proof -
  let ?h = "header e" and ?k = "hdr_kind (header e)"
  obtain c1 where c1: "received [] [] c c1" "readHeader c1 = ?h"
    "\<And>k rest. read_stream B (Suc k) (PacketHeader_bytes ?h @ rest) c = do { c' \<leftarrow> read_header B c1; read_stream B k rest c' }"
    using header_arrives [OF c(1,2), of e B] by blast
  have r1: "reading i c1" by (rule receivedD [OF c1(1) c(1)])
  then have f1: "\<not> killed c1" "compute_node c1" by (simp_all add: reading_def)
  have k: "?k \<noteq> PARAC_MESSAGE_ACK" "?k \<noteq> PARAC_MESSAGE_END" using e(2) by (simp_all add: receivable_def Let_def)
  have sid: "service_id c1 = sid" using c1(1) c(3) by (simp add: received_def)
  show ?thesis
  proof (cases "?k = PARAC_MESSAGE_KEEPALIVE")
    case True
    then have "delivered_events A B sid e = []" "acknowledgements A B sid e = []" "entry_wire A e = PacketHeader_bytes ?h"
      "read_calls A e = 1"
      by (simp_all add: delivered_events_def acknowledgements_def delivery_def entry_wire_def entry_payload_def read_calls_def)
    moreover have "read_header B c1 = Some (c1\<lparr>readCoro := RdHeader\<rparr>)"
      using True c1(2) f1 by (simp add: read_header_def read_next_def)
    ultimately show ?thesis using c1(1,3) by (intro exI [of _ "c1\<lparr>readCoro := RdHeader\<rparr>"]) simp
  next
    case nk: False
    show ?thesis
    proof (cases "entry_value e")
      case (MessageValue m)
      define bs where "bs = take (unat (hdr_word ?h)) (env_payload A m)"
      have nf: "?k \<noteq> PARAC_MESSAGE_FILE" and len: "length bs = unat (hdr_word ?h)"
        using e(1) k nk MessageValue by (auto simp: sendable_def Let_def bs_def)
      obtain st where st: "unat (hdr_word ?h) \<le> MAX_BUF_SIZE" "env_receive_message B ?k (hdr_originator ?h) bs = Some st"
        "st \<noteq> PARAC_ABORT_CONNECTION"
        using e(2) nk MessageValue by (auto simp: receivable_def Let_def bs_def)
      let ?c2 = "c1\<lparr>recvBuf := replicate (unat (hdr_word ?h)) 0, readCoro := RdMessage\<rparr>"
      have h: "read_header B c1 = Some ?c2" using k nk nf st(1) c1(2) f1 by (simp add: read_header_def Let_def)
      have r2: "reading i ?c2" using r1 by simp
      obtain c' where c': "\<forall>k rest. read_stream B (Suc k) (bs @ rest) ?c2 = read_stream B k rest c'" "readCoro c' = RdHeader"
        "received [ReceivedMessage ?k (hdr_originator ?h) bs] [Entry_ack (env_now B) (hdr_number ?h) st] ?c2 c'"
        using message_arrives [OF r2, of bs B st] len st c1(2) by auto
      have w: "entry_wire A e = PacketHeader_bytes ?h @ bs" "read_calls A e = 2"
        "delivered_events A B sid e = [ReceivedMessage ?k (hdr_originator ?h) bs]"
        "acknowledgements A B sid e = [Entry_ack (env_now B) (hdr_number ?h) st]"
        using k nk MessageValue st(2)
        by (simp_all add: entry_wire_def entry_payload_def read_calls_def delivered_events_def acknowledgements_def
            delivery_def bs_def Let_def)
      have "read_stream B (2 + k) (PacketHeader_bytes ?h @ bs @ rest) c = read_stream B k rest c'" for k rest
        using c1(3) [of "Suc k" "bs @ rest"] c'(1) h by (simp del: read_stream.simps)
      moreover have "received [] [] c ?c2" using c1(1) by simp
      from received_trans [OF this c'(3)] have "received (delivered_events A B sid e) (acknowledgements A B sid e) c c'"
        unfolding w by simp
      ultimately show ?thesis using c'(2) w(1,2) by (intro exI [of _ c']) simp
    next
      case (FileValue f)
      let ?n = "fst (env_file A f)" and ?bs = "snd (env_file A f)"
      let ?p = "stored_path B sid (hdr_originator ?h) ?n"
      have kf: "?k = PARAC_MESSAGE_FILE" "length ?n < 255"
        using e(1) k nk FileValue by (auto simp: sendable_def Let_def)
      obtain st where st: "unat (hdr_word ?h) = length ?bs" "CHR 0x00 \<notin> set ?n" "env_open B ?p"
        "env_receive_file B ?p (hdr_originator ?h) = Some st"
        using e(2) nk FileValue by (auto simp: receivable_def Let_def)
      obtain fs where fs: "FileSender_init (replicate 255 0) (env_file A f) = Some fs" "fs_content fs = ?bs"
        "length (fs_fileHeader fs) = 255"
        "fs_fileHeader fs = map (\<lambda>ch. of_nat (of_char ch)) ?n @ replicate (255 - length ?n) 0"
        by (rule file_header_sendable [OF kf(2)])
      let ?c2 = "c1\<lparr>readCoro := RdFileHeader\<rparr>" and ?o = "\<lparr>fo_path = ?p, fo_written = []\<rparr>"
      let ?c3 = "?c2\<lparr>bytes_received := bytes_received c1 + of_nat 255, readFileOstream := Some ?o\<rparr>"
      have h: "read_header B c1 = Some ?c2" using kf k nk c1(2) f1 by (simp add: read_header_def Let_def)
      have r2: "reading i ?c2" "reading i ?c3" using r1 by simp_all
      have hd: "readHandler B NoError (fs_fileHeader fs) ?c2 = read_chunks B ?c3"
        using st(2,3) fs(3) sid c1(2) file_name_back [OF st(2), of "255 - length ?n"] unfolding fs(4) [symmetric]
        by (simp add: readHandler_counts [OF r2(1)] handleReceivedFileStart_path Let_def)
      obtain c' where c': "\<forall>k rest. do { c \<leftarrow> read_chunks B ?c3; read_stream B ((length ?bs + 4095) div 4096 + k) (?bs @ rest) c } = read_stream B k rest c'"
        "readCoro c' = RdHeader" "received [ReceivedFile ?p (hdr_originator ?h) ?bs] [Entry_ack (env_now B) (hdr_number ?h) st] ?c3 c'"
        using chunks_arrive [OF r2(2), of ?o ?bs B st] st c1(2) by auto
      have w: "entry_wire A e = PacketHeader_bytes ?h @ fs_fileHeader fs @ ?bs" "read_calls A e = Suc (Suc ((length ?bs + 4095) div 4096))"
        "delivered_events A B sid e = [ReceivedFile ?p (hdr_originator ?h) ?bs]"
        "acknowledgements A B sid e = [Entry_ack (env_now B) (hdr_number ?h) st]"
        using k nk FileValue st(4) fs(1,2)
        by (simp_all add: entry_wire_def entry_payload_def read_calls_def delivered_events_def acknowledgements_def
            delivery_def file_bytes_def Let_def)
      have "read_stream B (Suc j) (fs_fileHeader fs @ rest) ?c2 = do { c \<leftarrow> read_chunks B ?c3; read_stream B j rest c }" for j rest
        using hd fs(3) by (simp add: read_want_def)
      then have "read_stream B (Suc (Suc ((length ?bs + 4095) div 4096)) + k) (PacketHeader_bytes ?h @ fs_fileHeader fs @ ?bs @ rest) c
          = read_stream B k rest c'" for k rest
        using c1(3) [of "Suc ((length ?bs + 4095) div 4096 + k)" "fs_fileHeader fs @ ?bs @ rest"] c'(1) h
        by (simp del: read_stream.simps)
      moreover have "received [] [] c ?c3" using c1(1) by simp
      from received_trans [OF this c'(3)] have "received (delivered_events A B sid e) (acknowledgements A B sid e) c c'"
        unfolding w by simp
      ultimately show ?thesis using c'(2) w(1,2) by (intro exI [of _ c']) simp
    qed (use e(1) k nk in \<open>auto simp: sendable_def Let_def\<close>)
  qed
qed

lemma stream_arrives:
  assumes "reading i c" "readCoro c = RdHeader" "service_id c = sid"
    "list_all (sendable A) es" "list_all (receivable A B sid) es"
  shows "\<exists>c'. (\<forall>k rest. read_stream B (sum_list (map (read_calls A) es) + k) (concat (map (entry_wire A) es) @ rest) c
      = read_stream B k rest c') \<and> readCoro c' = RdHeader
    \<and> received (concat (map (delivered_events A B sid) es)) (concat (map (acknowledgements A B sid) es)) c c'"
  using assms
proof (induction es arbitrary: c)
  case Nil
  then show ?case by (intro exI [of _ c]) (simp add: received_refl)
next
  case (Cons e es)
  have se: "sendable A e" "receivable A B sid e" "list_all (sendable A) es" "list_all (receivable A B sid) es"
    using Cons.prems(4,5) by simp_all
  obtain c1 where c1: "\<forall>k rest. read_stream B (read_calls A e + k) (entry_wire A e @ rest) c = read_stream B k rest c1"
    "readCoro c1 = RdHeader" "received (delivered_events A B sid e) (acknowledgements A B sid e) c c1"
    using entry_arrives [OF Cons.prems(1-3) se(1,2)] by blast
  have r: "reading i c1" "service_id c1 = sid" using c1(3) Cons.prems(1,3) by (simp_all add: received_def)
  obtain c' where c': "\<forall>k rest. read_stream B (sum_list (map (read_calls A) es) + k) (concat (map (entry_wire A) es) @ rest) c1
      = read_stream B k rest c'" "readCoro c' = RdHeader"
    "received (concat (map (delivered_events A B sid) es)) (concat (map (acknowledgements A B sid) es)) c1 c'"
    using Cons.IH [OF r(1) c1(2) r(2) se(3,4)] by blast
  have "read_stream B (sum_list (map (read_calls A) (e # es)) + k) (concat (map (entry_wire A) (e # es)) @ rest) c
      = read_stream B k rest c'" for k rest
    using c1(1) c'(1) by (simp add: add.assoc del: read_stream.simps)
  with c'(2) received_trans [OF c1(3) c'(3)] show ?case by (intro exI [of _ c']) simp
qed

section \<open>Delivery\<close>


section \<open>The connection as a state machine\<close>

text \<open>
  The steps of a connection: socket operations complete, the write handler that was posted runs, the file
  sender goes on, something is sent, the connection is killed, other connections and modules work on the
  queues, and the node or the service end.
\<close>

inductive tcp_step :: "tcp_state \<Rightarrow> tcp_state \<Rightarrow> bool" where
  read: "readHandler env ec data c = Some c' \<Longrightarrow> (ec = NoError \<longrightarrow> length data = read_want c) \<Longrightarrow> tcp_step c c'"
| written: "writeHandler env ec n c = Some c' \<Longrightarrow> writeCoro c \<in> {WrInitiator, WrHeader, WrPayload} \<Longrightarrow> tcp_step c c'"
| posted: "writeHandler env NoError 0 c = Some c' \<Longrightarrow> currentlySending c \<Longrightarrow> writeCoro c = WrIdle \<Longrightarrow> tcp_step c c'"
| chunk: "file_step env first ret c = Some c' \<Longrightarrow> writeCoro c = WrFile \<Longrightarrow> tcp_step c c'"
| send: "tcp_step c (snd (SendToMessageSendQueue env e c))"
| kill: "tcp_step c (snd (kill c))"
| queues: "dom (messageSendQueues c) \<subseteq> dom Q \<Longrightarrow> tcp_step c (c\<lparr>messageSendQueues := Q\<rparr>)"
| ended: "tcp_step c (c\<lparr>node_ended := True\<rparr>)"
| stopped: "tcp_step c (c\<lparr>service_stopped := True\<rparr>)"

inductive tcp_reachable :: "tcp_state \<Rightarrow> bool" where
  new: "TCPConnection_new env cid sid port try queues = Some c \<Longrightarrow> tcp_reachable c"
| step: "tcp_reachable c \<Longrightarrow> tcp_step c c' \<Longrightarrow> tcp_reachable c'"

definition writer_wf :: "tcp_state \<Rightarrow> bool" where
  "writer_wf c \<longleftrightarrow> (\<not> currentlySending c \<longrightarrow> writeCoro c = WrIdle)"

definition node_wf :: "tcp_state \<Rightarrow> bool" where
  "node_wf c \<longleftrightarrow> (compute_node c \<longleftrightarrow> sendQueue c \<noteq> None)
     \<and> (\<forall>i. sendQueue c = Some i \<longrightarrow> messageSendQueues c i \<noteq> None \<and> remoteIdCache c = i \<and> i \<noteq> service_id c)"

definition reader_wf :: "tcp_state \<Rightarrow> bool" where
  "reader_wf c \<longleftrightarrow> node_wf c
     \<and> (readCoro c = RdMessage \<longrightarrow> length (recvBuf c) = unat (hdr_word (readHeader c)) \<and> unat (hdr_word (readHeader c)) \<le> MAX_BUF_SIZE)
     \<and> (readCoro c = RdChunk \<longrightarrow> hdr_word (readHeader c) \<noteq> 0
          \<and> length (recvBuf c) = min REC_BUF_SIZE (unat (hdr_word (readHeader c))) \<and> readFileOstream c \<noteq> None)
     \<and> (readCoro c \<in> {RdHeader, RdFileHeader, RdChunk, RdMessage} \<longrightarrow> compute_node c)
     \<and> (readCoro c \<in> {RdStart, RdInitiator} \<longrightarrow> \<not> compute_node c)"

text \<open>What the writer leaves alone of the reader, and the other way round.\<close>

definition reader_same :: "tcp_state \<Rightarrow> tcp_state \<Rightarrow> bool" where
  "reader_same c c' \<longleftrightarrow> recvBuf c' = recvBuf c \<and> readHeader c' = readHeader c \<and> readCoro c' = readCoro c
     \<and> readFileOstream c' = readFileOstream c \<and> compute_node c' = compute_node c \<and> sendQueue c' = sendQueue c
     \<and> remoteIdCache c' = remoteIdCache c \<and> service_id c' = service_id c
     \<and> dom (messageSendQueues c) \<subseteq> dom (messageSendQueues c')"

lemma reader_same_wf: "reader_same c c' \<Longrightarrow> reader_wf c \<Longrightarrow> reader_wf c'"
proof -
  assume s: "reader_same c c'" and r: "reader_wf c"
  have "messageSendQueues c' i \<noteq> None" if "messageSendQueues c i \<noteq> None" for i
    using s that by (auto simp: reader_same_def)
  with s r have "node_wf c'" by (simp add: reader_same_def reader_wf_def node_wf_def)
  with s r show ?thesis by (simp add: reader_same_def reader_wf_def)
qed

lemma reader_same_refl [simp]: "reader_same c c"
  by (simp add: reader_same_def)

lemma reader_same_trans: "reader_same a b \<Longrightarrow> reader_same b c \<Longrightarrow> reader_same a c"
  by (auto simp: reader_same_def)

lemma reader_same_queue [simp]: "reader_same c (upd_queue f c')  = reader_same c c'"
  by (auto simp: reader_same_def upd_queue_def dom_def split: option.splits if_splits)

lemma reader_same_upd [simp]:
  "reader_same c (async_write bs c') = reader_same c c'" "reader_same c (tc_emit e c') = reader_same c c'"
  "reader_same c (setKeepaliveTimer c') = reader_same c c'" "reader_same c (c'\<lparr>writeCoro := w\<rparr>) = reader_same c c'"
  "reader_same c (c'\<lparr>fileSender := fs\<rparr>) = reader_same c c'" "reader_same c (c'\<lparr>currentlySending := b\<rparr>) = reader_same c c'"
  "reader_same c (c'\<lparr>tc_transmitMode := m\<rparr>) = reader_same c c'" "reader_same c (c'\<lparr>bytes_sent := n\<rparr>) = reader_same c c'"
  "reader_same c (c'\<lparr>socket_open := b\<rparr>) = reader_same c c'" "reader_same c (c'\<lparr>killed := b\<rparr>) = reader_same c c'"
  "reader_same c (c'\<lparr>node_ended := b\<rparr>) = reader_same c c'" "reader_same c (c'\<lparr>service_stopped := b\<rparr>) = reader_same c c'"
  by (simp_all add: reader_same_def async_write_def tc_emit_def setKeepaliveTimer_def)

lemma write_loop_keeps:
  assumes "write_loop c = Some c'" "currentlySending c"
  shows "reader_same c c' \<and> writer_wf c'"
  using assms by (auto simp: write_loop_def write_loop_begin_def writer_wf_def Let_def split: if_splits bind_splits)

lemma write_done_keeps:
  assumes "write_done env c = Some c'" "currentlySending c"
  shows "reader_same c c' \<and> writer_wf c'"
proof -
  obtain q where "write_loop c = Some c' \<or> write_loop (upd_queue (\<lambda>_. q) c) = Some c'"
    using assms(1) by (auto simp: write_done_def split: if_splits bind_splits)
  then show ?thesis
    using write_loop_keeps [of c c'] write_loop_keeps [of "upd_queue (\<lambda>_. q) c" c'] assms(2)
      reader_same_trans [of c "upd_queue (\<lambda>_. q) c" c'] by auto
qed

lemma write_payload_keeps:
  assumes "write_payload env c = Some c'" "currentlySending c"
  shows "reader_same c c' \<and> writer_wf c'"
  using assms write_done_keeps [of env c c']
  by (auto simp: write_payload_def writer_wf_def Let_def split: if_splits bind_splits entry_value.splits)

lemma writeHandler_keeps:
  assumes "writeHandler env ec n c = Some c'" "currentlySending c"
  shows "reader_same c c' \<and> writer_wf c'"
proof -
  let ?c = "if compute_node c then c\<lparr>bytes_sent := bytes_sent c + of_nat n\<rparr> else c"
  have r: "reader_same c ?c" "currentlySending ?c" using assms(2) by simp_all
  have b: "write_loop_begin ?c = Some c' \<Longrightarrow> reader_same ?c c' \<and> writer_wf c'"
    using r(2) by (auto simp: write_loop_begin_def writer_wf_def Let_def split: if_splits bind_splits)
  have "reader_same ?c c' \<and> writer_wf c'" if "\<not> shouldHandlerBeEnded c" "ec = NoError"
    using assms(1) that r(2) write_loop_keeps [of ?c c'] write_done_keeps [of env ?c c'] write_payload_keeps [of env ?c c'] b
    by (auto simp: writeHandler_def Let_def writer_wf_def split: write_pos.splits if_splits)
  then show ?thesis
    using assms r(1) reader_same_trans [of c ?c c']
    by (auto simp: writeHandler_def writer_wf_def split: if_splits)
qed

lemma file_step_keeps:
  assumes "file_step env first ret c = Some c'" "currentlySending c"
  shows "reader_same c c' \<and> writer_wf c'"
proof -
  obtain bs fs ec where "writeHandler env ec 0 ((async_write bs c)\<lparr>fileSender := None\<rparr>) = Some c'
    \<or> c' = (async_write bs c)\<lparr>fileSender := Some fs\<rparr>"
  proof -
    obtain f where f: "fileSender c = Some f" using assms(1) by (auto simp: file_step_def split: bind_splits)
    obtain bs fs res where s: "send_chunk first ret f = (bs, fs, res)" by (cases "send_chunk first ret f")
    show thesis
      using that assms(1) f s by (cases res) (auto simp: file_step_def)
  qed
  then show ?thesis
    using writeHandler_keeps [of env ec 0 "(async_write bs c)\<lparr>fileSender := None\<rparr>" c'] assms(2)
      reader_same_trans [of c "(async_write bs c)\<lparr>fileSender := None\<rparr>" c'] by (auto simp: writer_wf_def)
qed

text \<open>What sending and reading leave alone of the writer.\<close>

definition writer_same :: "tcp_state \<Rightarrow> tcp_state \<Rightarrow> bool" where
  "writer_same c c' \<longleftrightarrow> writeCoro c' = writeCoro c \<and> (currentlySending c \<longrightarrow> currentlySending c')"

lemma writer_same_wf: "writer_same c c' \<Longrightarrow> writer_wf c \<Longrightarrow> writer_wf c'"
  by (auto simp: writer_same_def writer_wf_def)

lemma trigger_keeps [simp]:
  "reader_same c (snd (conditionallyTriggerWriteHandler c')) = reader_same c c'"
  "writer_same c c' \<Longrightarrow> writer_same c (snd (conditionallyTriggerWriteHandler c'))"
  by (simp_all add: conditionallyTriggerWriteHandler_def writer_same_def)

lemma send_keeps:
  "reader_same c (snd (SendToMessageSendQueue env e c))" "writer_same c (snd (SendToMessageSendQueue env e c))"
  by (auto simp: SendToMessageSendQueue_def Let_def writer_same_def conditionallyTriggerWriteHandler_def split: option.split)

lemma kill_keeps: "reader_same c (snd (kill c))" "writer_same c (snd (kill c))"
  by (simp_all add: kill_def writer_same_def conditionallyTriggerWriteHandler_def)

lemma node_same_wf: "reader_same c c' \<Longrightarrow> node_wf c \<Longrightarrow> node_wf c'"
proof -
  assume s: "reader_same c c'" and r: "node_wf c"
  have "messageSendQueues c' i \<noteq> None" if "messageSendQueues c i \<noteq> None" for i
    using s that by (auto simp: reader_same_def)
  with s r show ?thesis by (simp add: reader_same_def node_wf_def)
qed

lemma node_wf_upd [simp]:
  "node_wf (c\<lparr>readCoro := r\<rparr>) = node_wf c" "node_wf (c\<lparr>readHeader := h\<rparr>) = node_wf c" "node_wf (c\<lparr>recvBuf := b\<rparr>) = node_wf c"
  "node_wf (c\<lparr>readFileOstream := f\<rparr>) = node_wf c" "node_wf (c\<lparr>resumeMode := m\<rparr>) = node_wf c"
  "node_wf (c\<lparr>bytes_received := n\<rparr>) = node_wf c" "node_wf (c\<lparr>socket_open := s\<rparr>) = node_wf c"
  by (simp_all add: node_wf_def)

lemma reader_wf_upd [simp]:
  "reader_wf (c\<lparr>bytes_received := n\<rparr>) = reader_wf c" "reader_wf (c\<lparr>socket_open := s\<rparr>) = reader_wf c"
  by (simp_all add: reader_wf_def)

lemma writer_same_upd [simp]:
  "writer_same c (c'\<lparr>readCoro := r\<rparr>) = writer_same c c'" "writer_same c (c'\<lparr>readHeader := h\<rparr>) = writer_same c c'"
  "writer_same c (c'\<lparr>recvBuf := b\<rparr>) = writer_same c c'" "writer_same c (c'\<lparr>readFileOstream := f\<rparr>) = writer_same c c'"
  "writer_same c (c'\<lparr>resumeMode := m\<rparr>) = writer_same c c'" "writer_same c (c'\<lparr>bytes_received := n\<rparr>) = writer_same c c'"
  "writer_same c (c'\<lparr>socket_open := s\<rparr>) = writer_same c c'" "writer_same c (upd_queue g c') = writer_same c c'"
  "writer_same c (tc_emit e c') = writer_same c c'" "writer_same c c"
  by (simp_all add: writer_same_def)

lemma writer_same_trans: "writer_same a b \<Longrightarrow> writer_same b c \<Longrightarrow> writer_same a c"
  by (simp add: writer_same_def)

text \<open>The parts of the read handler keep the node's entry and leave the writer alone.\<close>

definition served :: "tcp_state \<Rightarrow> tcp_state \<Rightarrow> bool" where
  "served c c' \<longleftrightarrow> node_wf c' \<and> compute_node c' \<and> writer_same c c'"

lemma ack_same: "reader_same c (tc_sendACK env n st c)" "writer_same c (tc_sendACK env n st c)"
  by (simp_all add: tc_sendACK_def send_keeps)

lemma served_same:
  assumes "reader_same c c'" "writer_same c c'" "node_wf c" "compute_node c"
  shows "served c c'"
  using assms node_same_wf [OF assms(1,3)] by (simp add: served_def reader_same_def)

lemma notify_same: "reader_same c (notify_read env c)" "writer_same c (notify_read env c)"
  by (simp_all add: notify_read_def)

lemma served_notify: "served c c' \<Longrightarrow> served c (notify_read env c')"
  using notify_same [of c' env] node_same_wf [of c' "notify_read env c'"] writer_same_trans [of c c' "notify_read env c'"]
  by (simp add: served_def)

lemma received_message_same:
  assumes "handleReceivedMessage env c = Some (ok, c')"
  shows "reader_same c c'" "writer_same c c'"
proof -
  let ?c = "tc_emit (ReceivedMessage (hdr_kind (readHeader c)) (hdr_originator (readHeader c)) (recvBuf c)) c"
  obtain st where "c' = ?c \<or> c' = tc_sendACK env (hdr_number (readHeader c)) st ?c"
    using assms by (auto simp: handleReceivedMessage_def Let_def split: if_splits bind_splits)
  then show "reader_same c c'" "writer_same c c'"
    using ack_same [of ?c env "hdr_number (readHeader c)" st]
      reader_same_trans [of c ?c c'] writer_same_trans [of c ?c c'] by auto
qed

lemma received_file_same:
  assumes "handleReceivedFile env c = Some c'"
  shows "reader_same c c'" "writer_same c c'"
proof -
  obtain o' :: FileOstream and st where "c' = tc_sendACK env (hdr_number (readHeader c)) st
      (tc_emit (ReceivedFile (fo_path o') (hdr_originator (readHeader c)) (fo_written o')) c)"
    using assms by (auto simp: handleReceivedFile_def Let_def split: bind_splits)
  then show "reader_same c c'" "writer_same c c'"
    using ack_same [of "tc_emit (ReceivedFile (fo_path o') (hdr_originator (readHeader c)) (fo_written o')) c" env
        "hdr_number (readHeader c)" st]
      reader_same_trans [of c "tc_emit (ReceivedFile (fo_path o') (hdr_originator (readHeader c)) (fo_written o')) c" c']
      writer_same_trans [of c "tc_emit (ReceivedFile (fo_path o') (hdr_originator (readHeader c)) (fo_written o')) c" c'] by auto
qed

lemma read_next_wf:
  assumes "read_next c1 = Some c'" "served c c1"
  shows "reader_wf c' \<and> writer_same c c'"
  using assms by (auto simp: read_next_def rd_end_def served_def reader_wf_def split: if_splits)

lemma read_chunks_wf:
  assumes "read_chunks env c1 = Some c'" "served c c1" "readFileOstream c1 \<noteq> None"
  shows "reader_wf c' \<and> writer_same c c'"
proof (cases "hdr_word (readHeader c1) = 0")
  case True
  with assms(1) obtain c2 where c2: "handleReceivedFile env c1 = Some c2" "read_next c2 = Some c'"
    by (auto simp: read_chunks_def split: bind_splits)
  have "served c c2"
    using assms(2) received_file_same [OF c2(1)] served_same [of c1 c2] writer_same_trans [of c c1 c2] by (simp add: served_def)
  then show ?thesis by (rule read_next_wf [OF c2(2)])
next
  case False
  then have "0 < unat (hdr_word (readHeader c1))" by (simp add: unat_gt_0)
  with assms False show ?thesis by (auto simp: read_chunks_def reader_wf_def served_def Let_def REC_BUF_SIZE_def)
qed

lemma read_header_wf:
  assumes "read_header env c1 = Some c'" "served c c1"
  shows "reader_wf c' \<and> writer_same c c'"
proof (cases "hdr_kind (readHeader c1) = PARAC_MESSAGE_ACK")
  case True
  with assms(1) obtain ok c2 where c2: "handleReceivedACK (readHeader c1) c1 = Some (ok, c2)"
    "if \<not> ok then rd_end c2 = Some c' else read_next c2 = Some c'"
    by (auto simp: read_header_def Let_def split: bind_splits if_splits)
  then obtain q where "c2 = upd_queue (\<lambda>_. q) c1" by (auto simp: handleReceivedACK_def split: bind_splits)
  then have "served c c2" using assms(2) served_same [of c1 c2] by (simp add: served_def)
  with c2(2) read_next_wf [of c2 c' c] show ?thesis
    by (auto simp: rd_end_def served_def reader_wf_def split: if_splits)
next
  case False
  with assms read_next_wf [of c1 c' c] show ?thesis
    by (auto simp: read_header_def rd_end_def reader_wf_def served_def Let_def split: if_splits)
qed

lemma initiator_wf:
  assumes "handleInitiatorMessage env m c = Some (ok, c')" "node_wf c" "\<not> compute_node c"
  shows "node_wf c' \<and> writer_same c c' \<and> (ok \<longrightarrow> compute_node c')"
proof -
  have none: "sendQueue c = None" using assms(2,3) by (simp add: node_wf_def)
  obtain q c1 where q: "getMessageSendQueueForRemoteId env (sender_id m) (c\<lparr>remoteIdCache := sender_id m\<rparr>) = (q, c1)"
    by fastforce
  have c1: "sendQueue c1 = None" "\<not> compute_node c1" "remoteIdCache c1 = sender_id m" "service_id c1 = service_id c"
    "writeCoro c1 = writeCoro c" "currentlySending c1 = currentlySending c"
    using q assms(3) none by (auto simp: getMessageSendQueueForRemoteId_def Let_def split: option.splits)
  show ?thesis
  proof (cases "sender_id m = service_id c")
    case True
    with assms none show ?thesis by (auto simp: handleInitiatorMessage_def node_wf_def writer_same_def)
  next
    case False
    with assms(1) q obtain acc q' where r: "registerNotificationCB (env_has_node env) (tc_id c1) (connStr env m) (connectionTry c1 \<ge> 0) q = Some (acc, q')"
      by (auto simp: handleInitiatorMessage_def Let_def split: bind_splits)
    let ?c2 = "c1\<lparr>messageSendQueues := (messageSendQueues c1)(sender_id m \<mapsto> q')\<rparr>"
    let ?c3 = "?c2\<lparr>compute_node := True, sendQueue := Some (sender_id m)\<rparr>"
    have cs: "c' = ?c2\<lparr>resumeMode := EndAfterShutdown\<rparr> \<and> \<not> ok \<or> c' = ?c3 \<or> c' = snd (conditionallyTriggerWriteHandler ?c3)"
      using assms(1) False q r by (auto simp: handleInitiatorMessage_def Let_def split: if_splits)
    have "node_wf ?c3" "node_wf ?c2" using c1 False by (simp_all add: node_wf_def)
    moreover have "node_wf (snd (conditionallyTriggerWriteHandler ?c3))"
      by (rule node_same_wf [OF _ \<open>node_wf ?c3\<close>]) simp
    ultimately show ?thesis
      using cs c1 by (auto simp: writer_same_def conditionallyTriggerWriteHandler_def)
  qed
qed

lemma readHandler_wf:
  assumes "readHandler env ec data c = Some c'" "reader_wf c" "ec = NoError \<longrightarrow> length data = read_want c"
  shows "reader_wf c' \<and> writer_same c c'"
proof -
  define c0 where "c0 = (if ec \<noteq> NoError then c\<lparr>socket_open := False\<rparr> else c)"
  define c1 where "c1 = (if compute_node c0 then c0\<lparr>bytes_received := bytes_received c0 + of_nat (length data)\<rparr> else c0)"
  have f1: "reader_wf c0" "reader_wf c1" "writer_same c c0" "writer_same c c1" "readCoro c1 = readCoro c"
    using assms(2) by (simp_all add: c0_def c1_def)
  have n1: "node_wf c1" "readCoro c \<in> {RdHeader, RdFileHeader, RdChunk, RdMessage} \<longrightarrow> compute_node c1"
    "readCoro c \<in> {RdStart, RdInitiator} \<longrightarrow> \<not> compute_node c1" "readCoro c = RdChunk \<longrightarrow> readFileOstream c1 \<noteq> None"
    using f1(2) unfolding reader_wf_def f1(5) by simp_all
  have ended: ?thesis if "rd_end d = Some c'" "node_wf d" "writer_same c d" for d
    using that by (auto simp: rd_end_def reader_wf_def)
  have sv: "served c d" if "node_wf d" "compute_node d" "writer_same c d" for d using that by (simp add: served_def)
  show ?thesis
  proof (cases "shouldHandlerBeEnded c \<or> ec = Eof")
    case True
    with assms(1,2) f1 show ?thesis by (auto simp: readHandler_def read_message_def c0_def split: if_splits)
  next
    case ne: False
    note h = assms(1) [unfolded readHandler_def read_message_def, folded c0_def, unfolded Let_def, folded c1_def]
    show ?thesis
    proof (cases "readCoro c")
      case RdStart
      with h ne f1(5) have "c' = c1\<lparr>readCoro := RdInitiator\<rparr>" by simp
      with n1 RdStart f1(4) show ?thesis by (simp add: reader_wf_def)
    next
      case RdInitiator
      show ?thesis
      proof (cases "ec = NoError")
        case True
        with h ne RdInitiator f1(5) obtain ok c2 where c2: "handleInitiatorMessage env (InitiatorMessage_of_bytes data) c1 = Some (ok, c2)"
          "(if \<not> ok then rd_end c2 else Some ((notify_read env c2)\<lparr>readCoro := RdHeader\<rparr>)) = Some c'"
          by (auto split: bind_splits)
        have w: "node_wf c2" "writer_same c c2" "ok \<longrightarrow> compute_node c2"
          using initiator_wf [OF c2(1) n1(1)] n1(3) RdInitiator writer_same_trans [OF f1(4)] by auto
        with c2(2) ended [of c2] served_notify [OF sv [of c2]] show ?thesis
          by (auto simp: served_def reader_wf_def split: if_splits)
      qed (use h ne RdInitiator f1 n1 ended [of c1] in auto)
    next
      case RdHeader
      show ?thesis
      proof (cases "ec = NoError")
        case True
        with h ne RdHeader f1(5) obtain hd where hd: "read_header env (notify_read env (c1\<lparr>readHeader := hd\<rparr>)) = Some c'"
          by (auto split: bind_splits)
        have "served c (c1\<lparr>readHeader := hd\<rparr>)" using n1 RdHeader f1(4) by (intro sv) auto
        from read_header_wf [OF hd served_notify [OF this]] show ?thesis .
      qed (use h ne RdHeader f1 n1 ended [of c1] in auto)
    next
      case RdFileHeader
      show ?thesis
      proof (cases "ec = NoError")
        case True
        with h ne RdFileHeader f1(5) obtain fo where fo: "read_chunks env (c1\<lparr>readFileOstream := Some fo\<rparr>) = Some c'"
          by (auto simp: handleReceivedFileStart_path Let_def split: bind_splits)
        have "served c (c1\<lparr>readFileOstream := Some fo\<rparr>)" using n1 RdFileHeader f1(4) by (intro sv) auto
        from read_chunks_wf [OF fo this] show ?thesis by simp
      qed (use h ne RdFileHeader f1 n1 ended [of c1] in auto)
    next
      case RdChunk
      show ?thesis
      proof (cases "ec = NoError")
        case True
        with h ne RdChunk f1(5) obtain hd fo where fo: "read_chunks env ((notify_read env c1)\<lparr>readHeader := hd,
            recvBuf := data, readFileOstream := Some fo\<rparr>) = Some c'"
          by (auto simp: handleReceivedFileChunk_def Let_def split: bind_splits)
        have "served c (notify_read env c1)" using n1 RdChunk f1(4) by (intro served_notify sv) auto
        then have "served c ((notify_read env c1)\<lparr>readHeader := hd, recvBuf := data, readFileOstream := Some fo\<rparr>)"
          by (simp add: served_def)
        from read_chunks_wf [OF fo this] show ?thesis by simp
      qed (use h ne RdChunk f1 n1 ended [of c1] in auto)
    next
      case RdMessage
      show ?thesis
      proof (cases "ec \<noteq> NoError \<or> length data \<noteq> unat (hdr_word (readHeader c1)) \<or> length data \<noteq> length (recvBuf c1)")
        case False
        with h ne RdMessage f1(5) obtain ok c2 where c2: "handleReceivedMessage env (c1\<lparr>recvBuf := data\<rparr>) = Some (ok, c2)"
          "(if \<not> ok then rd_end c2 else read_next (notify_read env c2)) = Some c'"
          by (auto split: bind_splits)
        have "node_wf (c1\<lparr>recvBuf := data\<rparr>)" "compute_node (c1\<lparr>recvBuf := data\<rparr>)" "writer_same c (c1\<lparr>recvBuf := data\<rparr>)"
          using n1 RdMessage f1(4) by auto
        then have "served c c2"
          using received_message_same [OF c2(1)] served_same [of "c1\<lparr>recvBuf := data\<rparr>" c2]
            writer_same_trans [of c "c1\<lparr>recvBuf := data\<rparr>" c2] by (simp add: served_def)
        with c2(2) ended [of c2] read_next_wf [OF _ served_notify [of c c2 env], of c'] show ?thesis
          by (auto simp: served_def split: if_splits)
      qed (use h ne RdMessage f1 n1 ended [of c1] in auto)
    next
      case RdEnded
      with h ne f1 show ?thesis by auto
    qed
  qed
qed

lemma tcp_init_wf:
  assumes "TCPConnection_new env cid sid port try queues = Some c"
  shows "reader_wf c \<and> writer_wf c"
proof -
  obtain c1 where c1: "writeHandler env NoError 0 (TCPConnection_state cid sid port try queues) = Some c1"
    "readHandler env NoError [] c1 = Some c" using assms by (auto simp: TCPConnection_new_def split: bind_splits)
  have i: "reader_wf (TCPConnection_state cid sid port try queues)"
    by (simp add: reader_wf_def node_wf_def TCPConnection_state_def)
  have w: "reader_same (TCPConnection_state cid sid port try queues) c1 \<and> writer_wf c1"
    by (rule writeHandler_keeps [OF c1(1)]) (simp add: TCPConnection_state_def)
  then have r: "reader_wf c1" "read_want c1 = 0"
    using reader_same_wf [OF _ i] by (auto simp: reader_same_def read_want_def TCPConnection_state_def)
  have "reader_wf c \<and> writer_same c1 c" by (rule readHandler_wf [OF c1(2) r(1)]) (simp add: r(2))
  with w show ?thesis by (auto intro: writer_same_wf)
qed

lemma tcp_step_wf:
  assumes "tcp_step c c'" "reader_wf c" "writer_wf c"
  shows "reader_wf c' \<and> writer_wf c'"
  using assms
proof (induction rule: tcp_step.induct)
  case (read env ec data c c')
  then show ?case using readHandler_wf [of env ec data c c'] writer_same_wf [of c c'] by blast
next
  case (written env ec n c c')
  then have "currentlySending c" by (auto simp: writer_wf_def)
  with written show ?case using writeHandler_keeps [of env ec n c c'] reader_same_wf [of c c'] by blast
next
  case (posted env c c')
  then show ?case using writeHandler_keeps [of env NoError 0 c c'] reader_same_wf [of c c'] by blast
next
  case (chunk env first ret c c')
  then have "currentlySending c" by (auto simp: writer_wf_def)
  with chunk show ?case using file_step_keeps [of env first ret c c'] reader_same_wf [of c c'] by blast
next
  case (send c env e)
  then show ?case using send_keeps [of c env e] reader_same_wf writer_same_wf by blast
next
  case (kill c)
  then show ?case using kill_keeps [of c] reader_same_wf writer_same_wf by blast
next
  case (queues c Q)
  then have "reader_same c (c\<lparr>messageSendQueues := Q\<rparr>)" by (simp add: reader_same_def)
  with queues show ?case using reader_same_wf by (auto simp: writer_wf_def)
next
  case (ended c)
  then show ?case using reader_same_wf [of c "c\<lparr>node_ended := True\<rparr>"] by (simp add: writer_wf_def)
next
  case (stopped c)
  then show ?case using reader_same_wf [of c "c\<lparr>service_stopped := True\<rparr>"] by (simp add: writer_wf_def)
qed

lemma tcp_reachable_wf: "tcp_reachable c \<Longrightarrow> reader_wf c \<and> writer_wf c"
  by (induction rule: tcp_reachable.induct) (auto dest: tcp_init_wf tcp_step_wf)

text \<open>
  C18 (a connection stays well formed).  In every state a connection reaches, whatever bytes and errors arrive,
  whatever is sent and whenever it is killed: the reader never waits for more than 100 000 000 bytes; while
  it waits for a message, its buffer has the size of the header; while it waits for a chunk of a file, the
  file is open and the buffer holds at most 4096 bytes and no more than the rest of the file; it only
  handles messages when it knows the compute node, whose send queue exists and which is never the node
  itself; and the write handler can only be started when no write is in progress.
\<close>

theorem connection_wellformed:
  assumes "tcp_reachable c"
  shows "read_want c \<le> MAX_BUF_SIZE
    \<and> (readCoro c = RdMessage \<longrightarrow> length (recvBuf c) = unat (hdr_word (readHeader c)))
    \<and> (readCoro c = RdChunk \<longrightarrow> readFileOstream c \<noteq> None \<and> 0 < length (recvBuf c) \<and> length (recvBuf c) \<le> REC_BUF_SIZE
         \<and> length (recvBuf c) \<le> unat (hdr_word (readHeader c)))
    \<and> (readCoro c \<in> {RdHeader, RdFileHeader, RdChunk, RdMessage} \<longrightarrow> compute_node c)
    \<and> (compute_node c \<longrightarrow> the_queue c \<noteq> None \<and> sendQueue c = Some (remoteIdCache c) \<and> remoteIdCache c \<noteq> service_id c)
    \<and> (\<not> currentlySending c \<longrightarrow> writeCoro c = WrIdle)"
proof -
  have w: "reader_wf c" "writer_wf c" using tcp_reachable_wf [OF assms] by simp_all
  have "read_want c \<le> MAX_BUF_SIZE"
    using w(1) by (auto simp: reader_wf_def read_want_def MAX_BUF_SIZE_def REC_BUF_SIZE_def split: read_pos.split)
  moreover have "readCoro c = RdMessage \<longrightarrow> length (recvBuf c) = unat (hdr_word (readHeader c))"
    using w(1) by (simp add: reader_wf_def)
  moreover have "readCoro c = RdChunk \<longrightarrow> readFileOstream c \<noteq> None \<and> 0 < length (recvBuf c) \<and> length (recvBuf c) \<le> REC_BUF_SIZE
      \<and> length (recvBuf c) \<le> unat (hdr_word (readHeader c))"
    using w(1) by (simp add: reader_wf_def REC_BUF_SIZE_def unat_gt_0)
  moreover have "readCoro c \<in> {RdHeader, RdFileHeader, RdChunk, RdMessage} \<longrightarrow> compute_node c"
    using w(1) unfolding reader_wf_def by blast
  moreover have "compute_node c \<longrightarrow> the_queue c \<noteq> None \<and> sendQueue c = Some (remoteIdCache c) \<and> remoteIdCache c \<noteq> service_id c"
    using w(1) by (cases "sendQueue c") (simp_all add: reader_wf_def node_wf_def the_queue_def)
  moreover have "\<not> currentlySending c \<longrightarrow> writeCoro c = WrIdle" using w(2) by (simp add: writer_wf_def)
  ultimately show ?thesis by blast
qed

section \<open>A killed connection\<close>

text \<open>
  C19 (a connection killed inside a message).  When a connection is killed after it has written the header of a
  message and before the payload, the write handler goes on with an end tag, which the peer takes for the
  payload: for a message of 24 bytes the peer's compute node is given the bytes of the end tag as the
  message.
\<close>

theorem killed_inside_message:
  assumes "writing (e # es) a" "writeCoro a = WrHeader"
    and "reading i b" "readCoro b = RdMessage" "readHeader b = header e" "hdr_word (header e) = 24" "length (recvBuf b) = 24"
    and "env_receive_message B (hdr_kind (header e)) (hdr_originator (header e)) (PacketHeader_bytes (end_header a)) = Some st"
      "st \<noteq> PARAC_ABORT_CONNECTION"
  shows "\<exists>a' b'. writeHandler A NoError n (snd (kill a)) = Some a'
    \<and> sock_out a' = sock_out a @ PacketHeader_bytes (end_header a)
    \<and> readHandler B NoError (PacketHeader_bytes (end_header a)) b = Some b'
    \<and> deliveries b' = deliveries b
        @ [ReceivedMessage (hdr_kind (header e)) (hdr_originator (header e)) (PacketHeader_bytes (end_header a))]"
proof -
  let ?bs = "PacketHeader_bytes (end_header a)"
  have nd: "\<not> shouldHandlerBeEnded a" using assms(1) by (simp add: writing_def)
  have k: "killed (snd (kill a))" "writeCoro (snd (kill a)) = WrHeader" "sock_out (snd (kill a)) = sock_out a"
    "shouldHandlerBeEnded (snd (kill a)) = shouldHandlerBeEnded a" "service_id (snd (kill a)) = service_id a"
    using assms(2) by (simp_all add: kill_def conditionallyTriggerWriteHandler_def shouldHandlerBeEnded_def)
  have "\<exists>a'. writeHandler A NoError n (snd (kill a)) = Some a' \<and> sock_out a' = sock_out a @ ?bs"
    using nd k by (simp add: writeHandler_def write_loop_def end_header_def Let_def)
  moreover have "\<exists>b'. readHandler B NoError ?bs b = Some b' \<and> deliveries b' = deliveries b
      @ [ReceivedMessage (hdr_kind (header e)) (hdr_originator (header e)) ?bs]"
  proof -
    obtain b' where b': "\<forall>k rest. read_stream B (Suc k) (?bs @ rest) b = read_stream B k rest b'" "readCoro b' = RdHeader"
      "received [ReceivedMessage (hdr_kind (header e)) (hdr_originator (header e)) ?bs]
         [Entry_ack (env_now B) (hdr_number (header e)) st] b b'"
      using message_arrives [OF assms(3,4), of ?bs B st] assms(5-9) by auto
    have "read_stream B (Suc 1) ?bs b = Some ([], b')"
      using b'(1) [rule_format, of 1 "[]"] b'(2) by (simp add: read_want_def del: read_stream.simps(2)) (simp add: read_want_def)
    moreover have "read_want b = 24" using assms(4,7) by (simp add: read_want_def)
    ultimately obtain b'' where "readHandler B NoError ?bs b = Some b''" "read_stream B 1 [] b'' = Some ([], b')"
      using assms(4) by (auto split: bind_splits)
    moreover have "b'' = b'" using calculation(2) by (auto split: if_splits bind_splits)
    ultimately show ?thesis using b'(3) by (auto simp: received_def)
  qed
  ultimately show ?thesis by blast
qed

section \<open>Witnesses\<close>

definition example_net :: net_env where
  "example_net = \<lparr>env_now = 0, env_alive = True, env_new_queue = (\<lambda>i. MessageSendQueue_init 0 i 1 0 0), env_has_node = False,
     env_address = ''::1'', env_is_v6 = True, env_padding = replicate 6 0, env_payload = (\<lambda>m. [7, 8]), env_file = (\<lambda>m. (''f'', [1, 2, 3])),
     env_receive_message = (\<lambda>k i bs. Some PARAC_OK), env_receive_file = (\<lambda>p i. Some PARAC_OK),
     env_append_path = (\<lambda>a b. a @ ''/'' @ b), env_temporaryDirectory = ''tmp'', env_open = (\<lambda>p. True),
     env_connectionRetries = 3\<rparr>"

definition net_message :: "u64 \<Rightarrow> entry" where
  "net_message n = Entry_message 0 \<lparr>msg_id = 1, msg_has_cb = True\<rparr> PARAC_MESSAGE_NODE_STATUS n 5"

definition net_file :: entry where
  "net_file = Entry_file 0 \<lparr>msg_id = 2, msg_has_cb = True\<rparr> 3 5"

text \<open>A connection to the node \<open>remote\<close> with the entries \<open>es\<close> in its queue.\<close>

definition example_connection :: "parac_id \<Rightarrow> entry list \<Rightarrow> tcp_state" where
  "example_connection remote es =
     (TCPConnection_state 0 (3 - remote) 18001 0 [remote \<mapsto> (MessageSendQueue_init 0 remote (3 - remote) 0 0)\<lparr>queued := es\<rparr>])
       \<lparr>compute_node := True, sendQueue := Some remote, remoteIdCache := remote, readCoro := RdHeader, writeCoro := WrIdle\<rparr>"

lemma example_connection_ready:
  "writing es (example_connection remote es)" "reading remote (example_connection remote es)"
  "writeCoro (example_connection remote es) = WrIdle" "readCoro (example_connection remote es) = RdHeader"
  "service_id (example_connection remote es) = 3 - remote" "deliveries (example_connection remote es) = []"
  "sock_out (example_connection remote es) = []" "in_queue (example_connection remote es) = es"
  by (simp_all add: example_connection_def TCPConnection_state_def writing_def reading_def shouldHandlerBeEnded_def
      the_queue_def MessageSendQueue_init_def deliveries_def in_queue_def)

lemma net_entry_facts:
  "hdr_kind (header (net_message n)) = PARAC_MESSAGE_NODE_STATUS" "hdr_originator (header (net_message n)) = 5"
  "hdr_word (header (net_message n)) = n" "entry_value (net_message n) = MessageValue \<lparr>msg_id = 1, msg_has_cb = True\<rparr>"
  "hdr_kind (header net_file) = PARAC_MESSAGE_FILE" "hdr_originator (header net_file) = 5" "hdr_word (header net_file) = 3"
  "entry_value net_file = FileValue \<lparr>msg_id = 2, msg_has_cb = True\<rparr>" "hdr_number (header (net_message n)) = 0"
  by (simp_all add: net_message_def net_file_def Entry_message_def Entry_file_def set_size_def header_init_def)

definition example_completions :: "write_event list list" where
  "example_completions = [[WriteDone 24, WriteDone 2],
     [WriteDone 24, FileChunk True (Sent 2), FileChunk False EAgain, FileChunk False (Sent 1), FileChunk False EAgain]]"

lemma nat_to_str_5: "nat_to_str 5 = ''5''"
  by code_simp


theorem connection_wellformed_witness:
  "\<exists>c. TCPConnection_new example_net 0 1 18001 0 (\<lambda>_. None) = Some c \<and> tcp_reachable c \<and> read_want c = 16 \<and> read_want c \<le> MAX_BUF_SIZE"
proof -
  obtain c where c: "TCPConnection_new example_net 0 1 18001 0 (\<lambda>_. None) = Some c" "read_want c = 16"
    by (simp add: TCPConnection_new_def writeHandler_def readHandler_def shouldHandlerBeEnded_def TCPConnection_state_def
        async_write_def read_want_def)
  then have "tcp_reachable c" by (intro tcp_reachable.new)
  with c connection_wellformed [of c] show ?thesis by auto
qed

definition example_writer :: tcp_state where
  "example_writer = (example_connection 2 [net_message 24])\<lparr>writeCoro := WrHeader\<rparr>"

definition example_reader :: tcp_state where
  "example_reader = (example_connection 1 [])\<lparr>readCoro := RdMessage, readHeader := header (net_message 24), recvBuf := replicate 24 0\<rparr>"

theorem killed_inside_message_witness:
  "\<exists>a' b'. writeHandler example_net NoError 24 (snd (kill example_writer)) = Some a'
    \<and> sock_out a' = PacketHeader_bytes (end_header example_writer)
    \<and> readHandler example_net NoError (PacketHeader_bytes (end_header example_writer)) example_reader = Some b'
    \<and> deliveries b' = [ReceivedMessage PARAC_MESSAGE_NODE_STATUS 5 (PacketHeader_bytes (end_header example_writer))]"
proof -
  have "writing [net_message 24] example_writer" "reading 1 example_reader" "deliveries example_reader = []" "sock_out example_writer = []"
    using example_connection_ready [where es = "[net_message 24]" and remote = 2] example_connection_ready [where es = "[]" and remote = 1]
    by (simp_all add: example_writer_def example_reader_def deliveries_def)
  moreover have "writeCoro example_writer = WrHeader" "readCoro example_reader = RdMessage"
    "readHeader example_reader = header (net_message 24)" "length (recvBuf example_reader) = 24"
    by (simp_all add: example_writer_def example_reader_def)
  ultimately show ?thesis
    using killed_inside_message [of "net_message 24" "[]" example_writer 1 example_reader example_net PARAC_OK example_net 24]
    by (simp add: net_entry_facts example_net_def)
qed

end
