(* ===== verification/Portfolio.thy ===== *)
theory Portfolio
  imports Status
begin

unbundle bit_operations_syntax

text \<open>
  The portfolio handle: \<^verbatim>\<open>modules/solver_qbf/portfolio_qbf_handle.cpp\<close> with its header.  The file
  \<^verbatim>\<open>modules/solver/portfolio_sat_handle.cpp\<close> is the same class over another solver type.

  A portfolio runs several solvers on the same cube, each in a thread of its own.  The client pushes events into a
  queue that every thread reads; the first thread with an answer records it and terminates the others.  A
  thread is a record with the place where it is; \<open>handleRun\<close> is its next step.  What a thread does while it
  holds the mutex of the events is one step; the condition variables are the condition under which a
  waiting thread runs again.  The section that holds the mutex of the result, entered by \<^verbatim>\<open>try_lock\<close>, is two
  steps, so that other threads can run while it is held.  The answers of the solvers are arguments.
\<close>

section \<open>State\<close>

datatype Event_Type = Assume | Solve | Terminate | Destruct | Undefined

definition typeToStr :: "Event_Type \<Rightarrow> string" where
  "typeToStr t = (case t of Assume \<Rightarrow> ''Assume'' | Solve \<Rightarrow> ''Solve'' | Terminate \<Rightarrow> ''Terminate''
     | Destruct \<Rightarrow> ''Destruct'' | Undefined \<Rightarrow> ''Undefined'')"

record Event =
  eventNumber :: int
  event_type :: Event_Type
  event_cube :: "int list"

definition typeHasCube :: "Event_Type \<Rightarrow> bool" where
  "typeHasCube t = (case t of Assume \<Rightarrow> True | _ \<Rightarrow> False)"

text \<open>The assignment of an event keeps the cube of the target unless the event carries one.\<close>

definition Event_assign :: "Event \<Rightarrow> Event \<Rightarrow> Event" where
  "Event_assign old new = \<lparr>eventNumber = eventNumber new, event_type = event_type new,
     event_cube = (if typeHasCube (event_type new) then event_cube new else event_cube old)\<rparr>"

text \<open>Where the thread of an inner solver is; \<open>Recording\<close> is the section that holds the result mutex.\<close>

datatype thread_pos = AtStart | AtPop | InPop | AtAssume | AtSolve | Recording parac_status | AtExit | Exited

datatype solver_call = CallAssume "int list" | CallSolve | CallTerminate

record Handle =
  event :: Event
  previousWasAssume :: bool
  pos :: thread_pos
  solver_calls :: "solver_call list"

record portfolio =
  m_events :: "Event list"
  m_handlesThatReceivedCurrentEvent :: nat
  m_handlesThatProcessedCurrentEvent :: nat
  m_eventCount :: int
  m_mostRecentHandledEvent :: int
  m_readyHandles :: nat
  m_eventAlreadySolved :: int
  m_solveResultMutex :: bool
  m_solveResult :: parac_status
  m_solveResultProducerIndex :: nat
  m_handles :: "Handle list"
  m_handleRunning :: bool
  m_terminating :: bool
  m_working :: bool

definition upd_handle :: "nat \<Rightarrow> Handle \<Rightarrow> portfolio \<Rightarrow> portfolio" where
  "upd_handle i h s = s\<lparr>m_handles := (m_handles s)[i := h]\<rparr>"

definition call_solver :: "solver_call \<Rightarrow> Handle \<Rightarrow> Handle" where
  "call_solver c h = h\<lparr>solver_calls := solver_calls h @ [c]\<rparr>"

definition Handle_init :: Handle where
  "Handle_init = \<lparr>event = \<lparr>eventNumber = - 1, event_type = Undefined, event_cube = []\<rparr>, previousWasAssume = False,
     pos = AtStart, solver_calls = []\<rparr>"

text \<open>The constructor starts one thread per factory; the first result is whatever the memory holds.\<close>

definition PortfolioQBFHandle_init :: "parac_status \<Rightarrow> nat \<Rightarrow> nat \<Rightarrow> portfolio" where
  "PortfolioQBFHandle_init r p n = \<lparr>m_events = [], m_handlesThatReceivedCurrentEvent = 0, m_handlesThatProcessedCurrentEvent = 0,
     m_eventCount = 0, m_mostRecentHandledEvent = - 1, m_readyHandles = 0, m_eventAlreadySolved = - 1,
     m_solveResultMutex = False, m_solveResult = r, m_solveResultProducerIndex = p,
     m_handles = replicate n Handle_init, m_handleRunning = True, m_terminating = False, m_working = False\<rparr>"

text \<open>\<^verbatim>\<open>waitForAllToBeReady\<close>: \<open>None\<close> while it waits.\<close>

definition waitForAllToBeReady :: "portfolio \<Rightarrow> portfolio option" where
  "waitForAllToBeReady s =
     (if \<not> m_handleRunning s \<or> m_terminating s \<or> m_readyHandles s = length (m_handles s)
      then Some (s\<lparr>m_readyHandles := 0\<rparr>) else None)"

section \<open>The calls of the client\<close>

definition pushEvent :: "Event \<Rightarrow> portfolio \<Rightarrow> int \<times> portfolio" where
  "pushEvent e s = (m_eventCount s,
     s\<lparr>m_events := m_events s @ [e\<lparr>eventNumber := m_eventCount s\<rparr>], m_eventCount := m_eventCount s + 1\<rparr>)"

definition Event_of :: "Event_Type \<Rightarrow> int list \<Rightarrow> Event" where
  "Event_of t c = \<lparr>eventNumber = - 1, event_type = t, event_cube = c\<rparr>"

definition pf_assumeCube :: "int list \<Rightarrow> portfolio \<Rightarrow> portfolio" where
  "pf_assumeCube c s = snd (pushEvent (Event_of Assume c) (s\<lparr>m_working := True, m_terminating := False\<rparr>))"

text \<open>
  \<^verbatim>\<open>solve\<close> resets the result, pushes its event and waits until the event counts as handled, which are
  three steps since other threads run in between.
\<close>

definition solve_reset :: "portfolio \<Rightarrow> portfolio" where
  "solve_reset s = s\<lparr>m_terminating := False, m_solveResult := PARAC_ABORTED\<rparr>"

definition solve_push :: "portfolio \<Rightarrow> int \<times> portfolio" where
  "solve_push s = pushEvent (Event_of Solve []) s"

definition event_handled :: "int \<Rightarrow> portfolio \<Rightarrow> bool" where
  "event_handled n s \<longleftrightarrow> \<not> m_mostRecentHandledEvent s < n"

definition solve_return :: "int \<Rightarrow> portfolio \<Rightarrow> (parac_status \<times> portfolio) option" where
  "solve_return n s = (if event_handled n s then Some (m_solveResult s, s\<lparr>m_terminating := False, m_working := False\<rparr>) else None)"

definition pf_terminate :: "portfolio \<Rightarrow> portfolio" where
  "pf_terminate s =
     (if m_terminating s then s
      else let s = snd (pushEvent (Event_of Terminate []) (s\<lparr>m_terminating := True\<rparr>))
           in s\<lparr>m_handles := map (\<lambda>h. if pos h = AtStart then h else call_solver CallTerminate h) (m_handles s)\<rparr>)"

definition pf_destruct :: "portfolio \<Rightarrow> int \<times> portfolio" where
  "pf_destruct s = pushEvent (Event_of Destruct []) (pf_terminate (s\<lparr>m_handleRunning := False\<rparr>))"

section \<open>The threads of the inner solvers\<close>

definition beReady :: "nat \<Rightarrow> portfolio \<Rightarrow> portfolio" where
  "beReady i s = upd_handle i ((m_handles s ! i)\<lparr>pos := AtPop\<rparr>) (s\<lparr>m_readyHandles := m_readyHandles s + 1\<rparr>)"

text \<open>\<^verbatim>\<open>StateWaitFunc\<close> after \<^verbatim>\<open>popEvent\<close> gave an event.\<close>

definition StateWaitFunc :: "Handle \<Rightarrow> Handle" where
  "StateWaitFunc h = (case event_type (event h) of
       Assume \<Rightarrow> h\<lparr>previousWasAssume := True, pos := AtAssume\<rparr>
     | Solve \<Rightarrow> if previousWasAssume h then h\<lparr>previousWasAssume := False, pos := AtPop\<rparr> else h\<lparr>pos := AtSolve\<rparr>
     | Terminate \<Rightarrow> h\<lparr>previousWasAssume := False, pos := AtPop\<rparr>
     | Destruct \<Rightarrow> h\<lparr>pos := AtExit\<rparr>
     | Undefined \<Rightarrow> h\<lparr>previousWasAssume := False, pos := AtExit\<rparr>)"

text \<open>The loop of \<^verbatim>\<open>popEvent\<close> at its first turn or after the condition variable was notified.\<close>

definition popEvent_loop :: "nat \<Rightarrow> portfolio \<Rightarrow> portfolio" where
  "popEvent_loop i s =
     (let h = m_handles s ! i in
      case m_events s of
        front # rest \<Rightarrow>
          if eventNumber front > eventNumber (event h)
          then let s = (if m_handlesThatReceivedCurrentEvent s + 1 = length (m_handles s)
                        then s\<lparr>m_handlesThatReceivedCurrentEvent := 0, m_events := rest\<rparr>
                        else s\<lparr>m_handlesThatReceivedCurrentEvent := m_handlesThatReceivedCurrentEvent s + 1\<rparr>)
               in upd_handle i (StateWaitFunc (h\<lparr>event := Event_assign (event h) front\<rparr>)) s
          else upd_handle i (h\<lparr>pos := InPop\<rparr>) s
      | [] \<Rightarrow> upd_handle i (h\<lparr>pos := InPop\<rparr>) s)"

definition popEvent :: "nat \<Rightarrow> portfolio \<Rightarrow> portfolio" where
  "popEvent i s = popEvent_loop i
     (if m_handlesThatProcessedCurrentEvent s + 1 = length (m_handles s)
      then s\<lparr>m_handlesThatProcessedCurrentEvent := 0, m_mostRecentHandledEvent := eventNumber (event (m_handles s ! i))\<rparr>
      else s\<lparr>m_handlesThatProcessedCurrentEvent := m_handlesThatProcessedCurrentEvent s + 1\<rparr>)"

definition StateAssumeFunc :: "nat \<Rightarrow> portfolio \<Rightarrow> portfolio" where
  "StateAssumeFunc i s = (let h = m_handles s ! i in
     upd_handle i ((call_solver (CallAssume (event_cube (event h))) h)\<lparr>pos := AtSolve\<rparr>) s)"

definition terminateAllBut :: "nat \<Rightarrow> portfolio \<Rightarrow> portfolio" where
  "terminateAllBut i s = s\<lparr>m_handles := map (\<lambda>(j, h). if j = i then h else call_solver CallTerminate h)
     (enumerate 0 (m_handles s))\<rparr>"

text \<open>\<^verbatim>\<open>StateSolveFunc\<close> when the inner solver has answered \<open>st\<close>, up to the end of \<^verbatim>\<open>terminateAllBut\<close>.\<close>

definition StateSolveFunc :: "nat \<Rightarrow> parac_status \<Rightarrow> portfolio \<Rightarrow> portfolio" where
  "StateSolveFunc i st s =
     (let h = call_solver CallSolve (m_handles s ! i); n = eventNumber (event h) in
      if st \<noteq> PARAC_SAT \<and> st \<noteq> PARAC_UNSAT \<and> st \<noteq> PARAC_ABORTED then upd_handle i (h\<lparr>pos := AtPop\<rparr>) s
      else if \<not> m_solveResultMutex s \<and> m_eventAlreadySolved s < n
      then terminateAllBut i (upd_handle i (h\<lparr>pos := Recording st\<rparr>) (s\<lparr>m_solveResultMutex := True, m_eventAlreadySolved := n\<rparr>))
      else upd_handle i (h\<lparr>pos := AtPop\<rparr>) s)"

text \<open>The end of the section: the result is written and the mutex released.\<close>

definition record_result :: "nat \<Rightarrow> parac_status \<Rightarrow> portfolio \<Rightarrow> portfolio" where
  "record_result i st s = upd_handle i ((m_handles s ! i)\<lparr>pos := AtPop\<rparr>)
     (s\<lparr>m_solveResult := st, m_solveResultProducerIndex := i, m_solveResultMutex := False\<rparr>)"

definition handle_exit :: "nat \<Rightarrow> portfolio \<Rightarrow> portfolio" where
  "handle_exit i s = upd_handle i ((m_handles s ! i)\<lparr>pos := Exited\<rparr>)
     (if event_type (event (m_handles s ! i)) = Destruct then s\<lparr>m_mostRecentHandledEvent := m_eventCount s - 1\<rparr> else s)"

text \<open>
  \<^verbatim>\<open>handleRun\<close> and \<^verbatim>\<open>executeState\<close>: the next step of the thread of solver \<open>i\<close>.  \<open>st\<close> is what the inner solver
  answers when the step is the end of its solving.  A thread in \<^verbatim>\<open>popEvent\<close> runs when the queue has an event
  it has not seen; \<open>None\<close> is a thread that waits or has ended.
\<close>

definition new_event :: "nat \<Rightarrow> portfolio \<Rightarrow> bool" where
  "new_event i s = (case m_events s of [] \<Rightarrow> False | front # _ \<Rightarrow> eventNumber front > eventNumber (event (m_handles s ! i)))"

definition handleRun :: "nat \<Rightarrow> parac_status \<Rightarrow> portfolio \<Rightarrow> portfolio option" where
  "handleRun i st s =
     (if i \<ge> length (m_handles s) then None
      else case pos (m_handles s ! i) of
        AtStart \<Rightarrow> Some (beReady i s)
      | AtPop \<Rightarrow> Some (popEvent i s)
      | InPop \<Rightarrow> if new_event i s then Some (popEvent_loop i s) else None
      | AtAssume \<Rightarrow> Some (StateAssumeFunc i s)
      | AtSolve \<Rightarrow> Some (StateSolveFunc i st s)
      | Recording r \<Rightarrow> Some (record_result i r s)
      | AtExit \<Rightarrow> Some (handle_exit i s)
      | Exited \<Rightarrow> None)"

fun run_threads :: "(nat \<times> parac_status) list \<Rightarrow> portfolio \<Rightarrow> portfolio option" where
  "run_threads [] s = Some s"
| "run_threads ((i, st) # as) s = (case handleRun i st s of None \<Rightarrow> None | Some s \<Rightarrow> run_threads as s)"

definition computeName :: "string list \<Rightarrow> string" where
  "computeName names = ''PortfolioQBFHandle { '' @ concat (map (\<lambda>n. n @ '' '') names) @ ''}''"

end
