(* ===== verification/PortfolioRun.thy ===== *)
theory PortfolioRun
  imports Portfolio
begin

unbundle bit_operations_syntax

text \<open>
  What the portfolio handle of \<open>Portfolio\<close> guarantees: the order of the events, that the calls of the client
  return, the result when all threads are through, and a run in which the result is wrong.  The
  invariant counts over the threads: how many have the event at the front of the queue, how often they
  have entered \<^verbatim>\<open>popEvent\<close>, and how many are in the section that writes the result.
\<close>

section \<open>Reachable states\<close>

text \<open>
  \<open>pf_reach n es s\<close>: a portfolio of \<open>n\<close> solvers reaches \<open>s\<close> after the events \<open>es\<close> were pushed.  The threads run in any
  order and the inner solvers answer anything; \<^verbatim>\<open>terminate\<close> may come at any time from another thread.
  Nothing is pushed after the event of the destructor.
\<close>

definition all_started :: "portfolio \<Rightarrow> bool" where
  "all_started s \<longleftrightarrow> (\<forall>h \<in> set (m_handles s). pos h \<noteq> AtStart)"

definition open_events :: "Event list \<Rightarrow> bool" where
  "open_events es \<longleftrightarrow> (\<forall>e \<in> set es. event_type e \<noteq> Destruct)"

definition terminate_events :: "portfolio \<Rightarrow> Event list" where
  "terminate_events s = (if m_terminating s then [] else [Event_of Terminate []])"

inductive pf_reach :: "nat \<Rightarrow> Event list \<Rightarrow> portfolio \<Rightarrow> bool" where
  start: "0 < n \<Longrightarrow> pf_reach n [] (PortfolioQBFHandle_init r p n)"
| thread: "pf_reach n es s \<Longrightarrow> handleRun i st s = Some s' \<Longrightarrow> pf_reach n es s'"
| constructed: "pf_reach n es s \<Longrightarrow> waitForAllToBeReady s = Some s' \<Longrightarrow> pf_reach n es s'"
| assume_cube: "pf_reach n es s \<Longrightarrow> open_events es \<Longrightarrow> all_started s \<Longrightarrow> pf_reach n (es @ [Event_of Assume c]) (pf_assumeCube c s)"
| reset: "pf_reach n es s \<Longrightarrow> pf_reach n es (solve_reset s)"
| solve: "pf_reach n es s \<Longrightarrow> open_events es \<Longrightarrow> all_started s \<Longrightarrow> pf_reach n (es @ [Event_of Solve []]) (snd (solve_push s))"
| return: "pf_reach n es s \<Longrightarrow> solve_return k s = Some (r, s') \<Longrightarrow> pf_reach n es s'"
| terminate: "pf_reach n es s \<Longrightarrow> open_events es \<Longrightarrow> all_started s \<Longrightarrow> pf_reach n (es @ terminate_events s) (pf_terminate s)"
| destruct: "pf_reach n es s \<Longrightarrow> open_events es \<Longrightarrow> all_started s \<Longrightarrow>
    pf_reach n (es @ terminate_events s @ [Event_of Destruct []]) (snd (pf_destruct s))"

section \<open>Counting over the threads\<close>

definition tot :: "(Handle \<Rightarrow> nat) \<Rightarrow> portfolio \<Rightarrow> nat" where
  "tot g s = sum_list (map g (m_handles s))"

definition front_number :: "portfolio \<Rightarrow> int" where
  "front_number s = m_eventCount s - int (length (m_events s))"

text \<open>How often a thread has entered \<^verbatim>\<open>popEvent\<close>: once before each event it has taken and once more while it waits.\<close>

definition entries :: "Handle \<Rightarrow> nat" where
  "entries h = nat (eventNumber (event h) + 1) + (if pos h = InPop then 1 else 0)"

definition has_event :: "int \<Rightarrow> Handle \<Rightarrow> nat" where
  "has_event k h = (if eventNumber (event h) = k then 1 else 0)"

definition is_recording :: "Handle \<Rightarrow> nat" where
  "is_recording h = (case pos h of Recording _ \<Rightarrow> 1 | _ \<Rightarrow> 0)"

lemma is_recording_iff: "is_recording h = (if \<exists>st. pos h = Recording st then 1 else 0)"
  by (cases "pos h") (simp_all add: is_recording_def)

lemma upd_handle_simps [simp]:
  "m_handles (upd_handle i h s) = (m_handles s)[i := h]" "m_events (upd_handle i h s) = m_events s"
  "m_handlesThatReceivedCurrentEvent (upd_handle i h s) = m_handlesThatReceivedCurrentEvent s"
  "m_handlesThatProcessedCurrentEvent (upd_handle i h s) = m_handlesThatProcessedCurrentEvent s"
  "m_eventCount (upd_handle i h s) = m_eventCount s" "m_mostRecentHandledEvent (upd_handle i h s) = m_mostRecentHandledEvent s"
  "m_eventAlreadySolved (upd_handle i h s) = m_eventAlreadySolved s" "m_solveResultMutex (upd_handle i h s) = m_solveResultMutex s"
  "m_solveResult (upd_handle i h s) = m_solveResult s"
  by (simp_all add: upd_handle_def)

lemma tot_upd: "i < length (m_handles s) \<Longrightarrow> tot g (upd_handle i h s) + g (m_handles s ! i) = tot g s + g h"
  unfolding tot_def upd_handle_def
  using elem_le_sum_list [of i "map g (m_handles s)"] by (simp add: map_update sum_list_update)

lemma tot_bound: "(\<And>h. h \<in> set (m_handles s) \<Longrightarrow> g h \<le> b) \<Longrightarrow> tot g s \<le> length (m_handles s) * b"
  unfolding tot_def using sum_list_mono [of "m_handles s" g "\<lambda>_. b"] by (simp add: sum_list_triv)

lemma tot_le_one_all:
  assumes "tot g s = length (m_handles s)" "\<And>h. h \<in> set (m_handles s) \<Longrightarrow> g h \<le> 1" "h \<in> set (m_handles s)"
  shows "g h = 1"
proof (rule ccontr)
  assume "g h \<noteq> 1"
  with assms(2,3) have z: "g h = 0" by fastforce
  obtain xs ys where "m_handles s = xs @ h # ys" using assms(3) by (meson split_list)
  moreover have "sum_list (map g xs) \<le> length xs" "sum_list (map g ys) \<le> length ys"
    if "m_handles s = xs @ h # ys"
    using that assms(2) sum_list_mono [of xs g "\<lambda>_. 1"] sum_list_mono [of ys g "\<lambda>_. 1"] by (simp_all add: sum_list_triv)
  ultimately show False using assms(1) z by (simp add: tot_def)
qed

lemma tot_zero: "tot g s = 0 \<Longrightarrow> h \<in> set (m_handles s) \<Longrightarrow> g h = 0"
  by (simp add: tot_def)

section \<open>The invariant\<close>

text \<open>The event of a thread is the one that was pushed with its number.\<close>

definition agrees :: "Event list \<Rightarrow> Event \<Rightarrow> bool" where
  "agrees es e \<longleftrightarrow> (if eventNumber e < 0 then eventNumber e = - 1 \<and> event_type e = Undefined
     else nat (eventNumber e) < length es \<and> event_type e = event_type (es ! nat (eventNumber e))
       \<and> (typeHasCube (event_type e) \<longrightarrow> event_cube e = event_cube (es ! nat (eventNumber e))))"

definition number_from :: "nat \<Rightarrow> Event list \<Rightarrow> Event list" where
  "number_from k es = map (\<lambda>(j, e). e\<lparr>eventNumber := int j\<rparr>) (enumerate k es)"

definition events_ok :: "Event list \<Rightarrow> bool" where
  "events_ok es \<longleftrightarrow> (\<forall>k < length es. event_type (es ! k) \<noteq> Undefined \<and> (event_type (es ! k) = Destruct \<longrightarrow> Suc k = length es))"

definition pending_ok :: "Event list \<Rightarrow> nat \<Rightarrow> Event list \<Rightarrow> bool" where
  "pending_ok es k evs \<longleftrightarrow> evs = number_from k (drop k es)"

definition queue_inv :: "nat \<Rightarrow> Event list \<Rightarrow> portfolio \<Rightarrow> bool" where
  "queue_inv n es s \<longleftrightarrow> length (m_handles s) = n \<and> 0 < n \<and> m_eventCount s = int (length es) \<and> length (m_events s) \<le> length es
     \<and> pending_ok es (nat (front_number s)) (m_events s)
     \<and> m_handlesThatReceivedCurrentEvent s = tot (has_event (front_number s)) s \<and> m_handlesThatReceivedCurrentEvent s < n"

definition handle_ok :: "Event list \<Rightarrow> portfolio \<Rightarrow> Handle \<Rightarrow> bool" where
  "handle_ok es s h \<longleftrightarrow> front_number s - 1 \<le> eventNumber (event h) \<and> eventNumber (event h) \<le> front_number s
     \<and> eventNumber (event h) < m_eventCount s \<and> agrees es (event h)
     \<and> (pos h \<in> {AtExit, Exited} \<longrightarrow> event_type (event h) = Destruct)
     \<and> (pos h = AtAssume \<longrightarrow> event_type (event h) = Assume)
     \<and> (pos h = AtSolve \<or> is_recording h = 1 \<longrightarrow> event_type (event h) \<in> {Assume, Solve})
     \<and> (pos h \<in> {AtPop, InPop} \<longrightarrow> event_type (event h) \<noteq> Destruct)
     \<and> (pos h = AtStart \<longrightarrow> m_eventCount s = 0)"

definition count_inv :: "portfolio \<Rightarrow> bool" where
  "count_inv s \<longleftrightarrow> m_handlesThatProcessedCurrentEvent s < length (m_handles s) \<and> m_mostRecentHandledEvent s < m_eventCount s
     \<and> (\<exists>k. tot entries s = length (m_handles s) * k + m_handlesThatProcessedCurrentEvent s \<and> int k - 2 \<le> m_mostRecentHandledEvent s)"

definition lock_inv :: "portfolio \<Rightarrow> bool" where
  "lock_inv s \<longleftrightarrow> tot is_recording s = (if m_solveResultMutex s then 1 else 0) \<and> m_eventAlreadySolved s < m_eventCount s"

definition pf_inv :: "nat \<Rightarrow> Event list \<Rightarrow> portfolio \<Rightarrow> bool" where
  "pf_inv n es s \<longleftrightarrow> events_ok es \<and> queue_inv n es s \<and> (\<forall>h \<in> set (m_handles s). handle_ok es s h) \<and> count_inv s \<and> lock_inv s"

section \<open>Preservation\<close>

text \<open>What a step does to the calls of the inner solvers and to the result does not matter to the invariant.\<close>

definition same_threads :: "Handle list \<Rightarrow> Handle list \<Rightarrow> bool" where
  "same_threads hs hs' \<longleftrightarrow> list_all2 (\<lambda>h h'. event h' = event h \<and> pos h' = pos h) hs hs'"

lemma same_threads_map:
  "(\<And>h. event (f h) = event h \<and> pos (f h) = pos h) \<Longrightarrow> same_threads hs (map f hs)"
  by (simp add: same_threads_def list_all2_map2 list_all2_refl)

lemma same_threads_refl [simp]: "same_threads hs hs"
  by (simp add: same_threads_def list_all2_refl)

lemma same_threads_tot:
  assumes "same_threads (m_handles s) (m_handles s')" "\<And>h h'. event h' = event h \<Longrightarrow> pos h' = pos h \<Longrightarrow> g' h' = g h"
  shows "tot g' s' = tot g s"
proof -
  have "map g' (m_handles s') = map g (m_handles s)"
    using assms by (intro nth_equalityI) (auto simp: same_threads_def list_all2_conv_all_nth)
  then show ?thesis by (simp add: tot_def)
qed

lemma pf_inv_same:
  assumes "pf_inv n es s" "same_threads (m_handles s) (m_handles s')"
    and "m_events s' = m_events s" "m_handlesThatReceivedCurrentEvent s' = m_handlesThatReceivedCurrentEvent s"
    and "m_handlesThatProcessedCurrentEvent s' = m_handlesThatProcessedCurrentEvent s" "m_eventCount s' = m_eventCount s"
    and "m_mostRecentHandledEvent s' = m_mostRecentHandledEvent s" "m_eventAlreadySolved s' = m_eventAlreadySolved s"
    and "m_solveResultMutex s' = m_solveResultMutex s"
  shows "pf_inv n es s'"
proof -
  have len: "length (m_handles s') = length (m_handles s)"
    using assms(2) by (simp add: same_threads_def list_all2_lengthD)
  have f: "front_number s' = front_number s" using assms(3,6) by (simp add: front_number_def)
  have t: "tot (has_event k) s' = tot (has_event k) s" "tot entries s' = tot entries s" "tot is_recording s' = tot is_recording s" for k
    by (auto intro!: same_threads_tot [OF assms(2)] simp: has_event_def entries_def is_recording_def)
  have "handle_ok es s' h'" if h': "h' \<in> set (m_handles s')" for h'
  proof -
    obtain i where "i < length (m_handles s')" "h' = m_handles s' ! i" using h' by (auto simp: in_set_conv_nth)
    then have i: "m_handles s ! i \<in> set (m_handles s)" "event h' = event (m_handles s ! i)" "pos h' = pos (m_handles s ! i)"
      using assms(2) len by (auto simp: same_threads_def list_all2_conv_all_nth)
    then have "handle_ok es s (m_handles s ! i)" using assms(1) by (simp add: pf_inv_def)
    with assms(6) f i(2,3) show ?thesis by (simp add: handle_ok_def is_recording_def)
  qed
  moreover have "queue_inv n es s'" "count_inv s'" "lock_inv s'"
    using assms(1) unfolding pf_inv_def queue_inv_def count_inv_def lock_inv_def assms(3-9) t f len by blast+
  ultimately show ?thesis using assms(1) by (simp add: pf_inv_def)
qed

lemma pf_inv_push:
  assumes "pf_inv n es s" "open_events es" "all_started s" "event_type e \<noteq> Undefined"
  shows "pf_inv n (es @ [e]) (snd (pushEvent e s))"
proof -
  let ?s = "snd (pushEvent e s)"
  have q: "queue_inv n es s" using assms(1) by (simp add: pf_inv_def)
  have f: "front_number ?s = front_number s" by (simp add: front_number_def pushEvent_def)
  have t: "tot g ?s = tot g s" for g
    by (simp add: tot_def pushEvent_def)
  have "nat (front_number s) \<le> length es" "nat (front_number s) + length (m_events s) = length es"
    using q by (auto simp: queue_inv_def front_number_def)
  moreover have "pending_ok es k evs \<Longrightarrow> k + length evs = length es \<Longrightarrow>
      pending_ok (es @ [e]) k (evs @ [e\<lparr>eventNumber := int (length es)\<rparr>])" for k evs
    by (simp add: pending_ok_def number_from_def enumerate_append_eq)
  ultimately have ev: "pending_ok (es @ [e]) (nat (front_number s)) (m_events ?s)"
    using q by (simp add: queue_inv_def pushEvent_def)
  have "queue_inv n (es @ [e]) ?s"
    using q ev f t by (simp add: queue_inv_def pushEvent_def)
  moreover have "events_ok (es @ [e])"
    using assms(1,2,4) by (auto simp: pf_inv_def events_ok_def nth_append open_events_def less_Suc_eq)
  moreover have "handle_ok (es @ [e]) ?s h" if "h \<in> set (m_handles ?s)" for h
  proof -
    have "h \<in> set (m_handles s)" using that by (simp add: pushEvent_def)
    then have "handle_ok es s h" "pos h \<noteq> AtStart" using assms(1,3) by (auto simp: pf_inv_def all_started_def)
    then show ?thesis using f by (auto simp: handle_ok_def agrees_def nth_append pushEvent_def)
  qed
  moreover have "count_inv ?s" "lock_inv ?s"
    using assms(1) t by (auto simp: pf_inv_def count_inv_def lock_inv_def pushEvent_def)
  ultimately show ?thesis by (simp add: pf_inv_def)
qed

lemma lock_move:
  assumes "lock_inv s" "i < length (m_handles s)" "m_handles s' = (m_handles s)[i := h']"
    and "m_eventAlreadySolved s' < m_eventCount s'"
    and "(if m_solveResultMutex s' then 1 else 0) + is_recording (m_handles s ! i) = (if m_solveResultMutex s then 1 else 0) + is_recording h'"
  shows "lock_inv s'"
proof -
  have "tot is_recording s' = tot is_recording (upd_handle i h' s)" by (simp add: tot_def assms(3))
  with tot_upd [OF assms(2), of is_recording h'] assms show ?thesis by (simp add: lock_inv_def)
qed

lemma pf_inv_quiet:
  assumes "pf_inv n es s" "i < length (m_handles s)" "event h' = event (m_handles s ! i)"
    and "pos (m_handles s ! i) \<noteq> InPop" "pos h' \<noteq> InPop" "handle_ok es s h'" "m_handles s' = (m_handles s)[i := h']"
    and "m_events s' = m_events s" "m_handlesThatReceivedCurrentEvent s' = m_handlesThatReceivedCurrentEvent s"
    and "m_handlesThatProcessedCurrentEvent s' = m_handlesThatProcessedCurrentEvent s" "m_eventCount s' = m_eventCount s"
    and "m_mostRecentHandledEvent s \<le> m_mostRecentHandledEvent s'" "m_mostRecentHandledEvent s' < m_eventCount s" "m_eventAlreadySolved s' < m_eventCount s"
    and "(if m_solveResultMutex s' then 1 else 0) + is_recording (m_handles s ! i) = (if m_solveResultMutex s then 1 else 0) + is_recording h'"
  shows "pf_inv n es s'"
proof -
  let ?u = "upd_handle i h' s"
  have f: "front_number s' = front_number s" using assms(8,11) by (simp add: front_number_def)
  have same: "tot g s' = tot g ?u" for g by (simp add: tot_def assms(7))
  have t: "tot (has_event k) s' = tot (has_event k) s" "tot entries s' = tot entries s" for k
    using tot_upd [OF assms(2), of "has_event k" h'] tot_upd [OF assms(2), of entries h'] assms(3-5)
    by (simp_all add: same has_event_def entries_def)
  have "handle_ok es s' h" if "h \<in> set (m_handles s')" for h
  proof -
    have "h = h' \<or> h \<in> set (m_handles s)" using that assms(7) by (auto dest: set_update_subset_insert [THEN subsetD])
    with assms(1,6) have "handle_ok es s h" by (auto simp: pf_inv_def)
    with f assms(11) show ?thesis by (simp add: handle_ok_def)
  qed
  moreover have "count_inv s'"
    using assms(1,7,10-13) t by (auto simp: pf_inv_def count_inv_def intro: order_trans)
  moreover have "lock_inv s'"
    using assms(1,11,14,15) by (intro lock_move [OF _ assms(2,7)]) (simp_all add: pf_inv_def)
  ultimately show ?thesis using assms(1,7-11) t f by (simp add: pf_inv_def queue_inv_def)
qed

lemma tot_bound_strict:
  assumes "\<And>h. h \<in> set (m_handles s) \<Longrightarrow> g h \<le> b" "h \<in> set (m_handles s)" "g h < b"
  shows "tot g s < length (m_handles s) * b"
proof -
  obtain xs ys where xs: "m_handles s = xs @ h # ys" using assms(2) by (meson split_list)
  have "sum_list (map g xs) \<le> length xs * b" "sum_list (map g ys) \<le> length ys * b"
    using assms(1) sum_list_mono [of xs g "\<lambda>_. b"] sum_list_mono [of ys g "\<lambda>_. b"] xs by (simp_all add: sum_list_triv)
  with assms(3) xs show ?thesis by (simp add: tot_def algebra_simps)
qed

text \<open>Entering \<^verbatim>\<open>popEvent\<close>: the thread is counted and waits.\<close>

definition enter_pop :: "nat \<Rightarrow> portfolio \<Rightarrow> portfolio" where
  "enter_pop i s = upd_handle i ((m_handles s ! i)\<lparr>pos := InPop\<rparr>)
     (if m_handlesThatProcessedCurrentEvent s + 1 = length (m_handles s)
      then s\<lparr>m_handlesThatProcessedCurrentEvent := 0, m_mostRecentHandledEvent := eventNumber (event (m_handles s ! i))\<rparr>
      else s\<lparr>m_handlesThatProcessedCurrentEvent := m_handlesThatProcessedCurrentEvent s + 1\<rparr>)"

lemma StateWaitFunc_pos: "StateWaitFunc (h\<lparr>pos := p, event := e\<rparr>) = StateWaitFunc (h\<lparr>event := e\<rparr>)"
  by (simp add: StateWaitFunc_def split: Event_Type.split)

lemma popEvent_enter:
  assumes "i < length (m_handles s)"
  shows "popEvent i s = (if new_event i s then popEvent_loop i (enter_pop i s) else enter_pop i s)"
  using assms
  by (simp add: popEvent_def enter_pop_def popEvent_loop_def upd_handle_def new_event_def StateWaitFunc_pos Let_def split: list.split)

lemma enter_pop_inv:
  assumes "pf_inv n es s" "i < length (m_handles s)" "pos (m_handles s ! i) = AtPop"
  shows "pf_inv n es (enter_pop i s)"
proof -
  let ?h = "m_handles s ! i" and ?s = "enter_pop i s"
  have hs: "m_handles ?s = (m_handles s)[i := ?h\<lparr>pos := InPop\<rparr>]" by (simp add: enter_pop_def)
  have f: "front_number ?s = front_number s" by (simp add: enter_pop_def front_number_def)
  have same: "tot g ?s = tot g (upd_handle i (?h\<lparr>pos := InPop\<rparr>) s)" for g by (simp add: tot_def hs)
  have t: "tot (has_event k) ?s = tot (has_event k) s" "tot entries ?s = tot entries s + 1" "tot is_recording ?s = tot is_recording s" for k
    using tot_upd [OF assms(2), of "has_event k" "?h\<lparr>pos := InPop\<rparr>"] tot_upd [OF assms(2), of entries "?h\<lparr>pos := InPop\<rparr>"]
      tot_upd [OF assms(2), of is_recording "?h\<lparr>pos := InPop\<rparr>"] assms(3)
    by (simp_all add: same has_event_def entries_def is_recording_def)
  have ok: "handle_ok es s h" if "h \<in> set (m_handles ?s)" for h
  proof -
    have "h = ?h\<lparr>pos := InPop\<rparr> \<or> h \<in> set (m_handles s)" using that hs by (auto dest: set_update_subset_insert [THEN subsetD])
    moreover have "handle_ok es s (?h\<lparr>pos := InPop\<rparr>)"
      using assms(1-3) by (simp add: pf_inv_def handle_ok_def is_recording_def)
    ultimately show ?thesis using assms(1) by (auto simp: pf_inv_def)
  qed
  then have ok': "\<forall>h \<in> set (m_handles ?s). handle_ok es ?s h" using f by (simp add: handle_ok_def) (simp add: enter_pop_def)
  obtain k where k: "tot entries s = length (m_handles s) * k + m_handlesThatProcessedCurrentEvent s"
    "int k - 2 \<le> m_mostRecentHandledEvent s" "m_handlesThatProcessedCurrentEvent s < length (m_handles s)"
    "m_mostRecentHandledEvent s < m_eventCount s"
    using assms(1) by (auto simp: pf_inv_def count_inv_def)
  have e: "eventNumber (event ?h) < m_eventCount s" "- 1 \<le> eventNumber (event ?h)" "front_number s - 1 \<le> eventNumber (event ?h)"
  proof -
    have "handle_ok es s ?h" using assms(1,2) by (simp add: pf_inv_def)
    then show "eventNumber (event ?h) < m_eventCount s" "- 1 \<le> eventNumber (event ?h)" "front_number s - 1 \<le> eventNumber (event ?h)"
      by (simp_all add: handle_ok_def agrees_def split: if_splits)
  qed
  have "count_inv ?s"
  proof (cases "m_handlesThatProcessedCurrentEvent s + 1 = length (m_handles s)")
    case True
    let ?e = "nat (eventNumber (event ?h) + 1)"
    have "tot entries ?s < length (m_handles ?s) * (?e + 2)"
    proof (rule tot_bound_strict)
      show "entries h \<le> ?e + 2" if "h \<in> set (m_handles ?s)" for h
        using ok [OF that] e by (auto simp: handle_ok_def entries_def)
      show "?h\<lparr>pos := InPop\<rparr> \<in> set (m_handles ?s)" using assms(2) by (simp add: hs set_update_memI)
      show "entries (?h\<lparr>pos := InPop\<rparr>) < ?e + 2" by (simp add: entries_def)
    qed
    moreover have "tot entries ?s = length (m_handles s) * (k + 1)" using k(1) t(2) True by simp
    ultimately have "length (m_handles s) * (k + 1) < length (m_handles s) * (?e + 2)" by (simp only: hs length_list_update)
    then have "k + 1 < ?e + 2" using nat_mult_less_cancel_disj by blast
    then have "int (k + 1) - 2 \<le> eventNumber (event ?h)" using e(2) by linarith
    with True k t(2) e(1) show ?thesis
      by (auto simp: count_inv_def enter_pop_def intro!: exI [of _ "k + 1"])
  next
    case False
    with k t(2) show ?thesis by (auto simp: count_inv_def enter_pop_def)
  qed
  moreover have "queue_inv n es ?s" using assms(1) t f by (simp add: pf_inv_def queue_inv_def) (simp add: enter_pop_def)
  moreover have "lock_inv ?s" using assms(1) t by (simp add: pf_inv_def lock_inv_def) (simp add: enter_pop_def)
  ultimately show ?thesis using assms(1) ok' by (simp add: pf_inv_def)
qed

lemma StateWaitFunc_event [simp]: "event (StateWaitFunc h) = event h"
  by (simp add: StateWaitFunc_def split: Event_Type.split)

lemma StateWaitFunc_not_InPop [simp]: "pos (StateWaitFunc h) \<noteq> InPop" "is_recording (StateWaitFunc h) = 0"
  by (simp_all add: StateWaitFunc_def is_recording_def split: Event_Type.split)

lemma queue_front:
  assumes "queue_inv n es s" "m_events s = e # evs"
  shows "eventNumber e = front_number s" "0 \<le> front_number s" "nat (front_number s) < length es"
    "e = (es ! nat (front_number s))\<lparr>eventNumber := front_number s\<rparr>" "pending_ok es (Suc (nat (front_number s))) evs"
proof -
  let ?k = "nat (front_number s)"
  have k: "?k < length es" "0 \<le> front_number s" using assms by (auto simp: queue_inv_def front_number_def)
  have "e # evs = number_from ?k (drop ?k es)" using assms by (simp add: queue_inv_def pending_ok_def)
  also have "\<dots> = (es ! ?k)\<lparr>eventNumber := int ?k\<rparr> # number_from (Suc ?k) (drop (Suc ?k) es)"
    using k by (simp add: number_from_def Cons_nth_drop_Suc [symmetric])
  finally show "eventNumber e = front_number s" "0 \<le> front_number s" "?k < length es"
    "e = (es ! ?k)\<lparr>eventNumber := front_number s\<rparr>" "pending_ok es (Suc ?k) evs"
    using k by (simp_all add: pending_ok_def)
qed

lemma taken_handle_ok:
  assumes "events_ok es" "nat k < length es" "0 \<le> k" "event h' = Event_assign e0 ((es ! nat k)\<lparr>eventNumber := k\<rparr>)"
    and "h' = StateWaitFunc h''" "front_number s - 1 \<le> k" "k \<le> front_number s" "m_eventCount s = int (length es)"
  shows "handle_ok es s h'"
proof -
  have e: "event h' = event h''" using assms(5) by simp
  have ty: "event_type (event h'') = event_type (es ! nat k)" using assms(4) e by (simp add: Event_assign_def)
  have "event_type (es ! nat k) \<noteq> Undefined" using assms(1,2) by (simp add: events_ok_def)
  with ty assms(5) have p: "pos h' \<in> {AtExit, Exited} \<longrightarrow> event_type (event h') = Destruct" "pos h' = AtAssume \<longrightarrow> event_type (event h') = Assume"
    "pos h' = AtSolve \<longrightarrow> event_type (event h') = Solve" "is_recording h' = 0"
    "pos h' \<in> {AtPop, InPop} \<longrightarrow> event_type (event h') \<noteq> Destruct" "pos h' \<noteq> AtStart"
    by (simp_all add: StateWaitFunc_def is_recording_def split: Event_Type.split)
  have "agrees es (event h')" "eventNumber (event h') = k" using assms(2,3,4) by (auto simp: agrees_def Event_assign_def)
  with p assms(2,3,6-8) show ?thesis by (auto simp: handle_ok_def)
qed

lemma take_inv:
  assumes "pf_inv n es s" "i < length (m_handles s)" "pos (m_handles s ! i) = InPop" "new_event i s"
  shows "pf_inv n es (popEvent_loop i s)"
proof -
  let ?h = "m_handles s ! i" and ?f = "front_number s" and ?s = "popEvent_loop i s"
  obtain e evs where ev: "m_events s = e # evs" "eventNumber e > eventNumber (event ?h)"
    using assms(4) by (auto simp: new_event_def split: list.splits)
  have q: "queue_inv n es s" "events_ok es" using assms(1) by (simp_all add: pf_inv_def)
  note fr = queue_front [OF q(1) ev(1)]
  have okh: "handle_ok es s ?h" using assms(1,2) by (simp add: pf_inv_def)
  have eh: "eventNumber (event ?h) = ?f - 1" using okh ev(2) fr(1) by (simp add: handle_ok_def)
  define h' where "h' = StateWaitFunc (?h\<lparr>event := Event_assign (event ?h) e\<rparr>)"
  have e': "event h' = Event_assign (event ?h) e" "eventNumber (event h') = ?f" by (simp_all add: h'_def Event_assign_def fr(1))
  have hs: "m_handles ?s = (m_handles s)[i := h']" using ev by (simp add: popEvent_loop_def h'_def Let_def)
  have same: "tot g ?s = tot g (upd_handle i h' s)" for g by (simp add: tot_def hs)
  have h': "pos h' \<noteq> InPop" "is_recording h' = 0" by (simp_all add: h'_def)
  have "is_recording ?h = 0" using assms(3) by (simp add: is_recording_def)
  note h' = h' this
  have t: "tot (has_event ?f) ?s = tot (has_event ?f) s + 1" "tot entries ?s = tot entries s" "tot is_recording ?s = tot is_recording s"
    using tot_upd [OF assms(2), of "has_event ?f" h'] tot_upd [OF assms(2), of entries h'] tot_upd [OF assms(2), of is_recording h'] assms(3) e'(2) eh fr(2) h'
    by (simp_all add: same has_event_def entries_def)
  have cnt: "m_eventCount s = int (length es)" "m_handlesThatReceivedCurrentEvent s = tot (has_event ?f) s"
      "m_handlesThatReceivedCurrentEvent s < length (m_handles s)" "length (m_handles s) = n" "0 < n"
    using q(1) by (simp_all add: queue_inv_def)
  have ci: "count_inv ?s" "lock_inv ?s"
    using assms(1) t ev by (simp_all add: pf_inv_def count_inv_def lock_inv_def) (simp_all add: popEvent_loop_def Let_def)
  have members: "h = h' \<or> h \<in> set (m_handles s)" if "h \<in> set (m_handles ?s)" for h
    using that hs by (auto dest: set_update_subset_insert [THEN subsetD])
  show ?thesis
  proof (cases "m_handlesThatReceivedCurrentEvent s + 1 = length (m_handles s)")
    case True
    have f': "front_number ?s = ?f + 1" "m_events ?s = evs" "m_handlesThatReceivedCurrentEvent ?s = 0" "m_eventCount ?s = m_eventCount s"
      using ev True by (simp_all add: popEvent_loop_def Let_def front_number_def)
    have all: "eventNumber (event h) = ?f" if "h \<in> set (m_handles ?s)" for h
    proof -
      have "tot (has_event ?f) ?s = length (m_handles ?s)" using t(1) True cnt(2) by (simp add: hs)
      then have "has_event ?f h = 1" by (rule tot_le_one_all [OF _ _ that]) (simp add: has_event_def)
      then show ?thesis by (simp add: has_event_def split: if_splits)
    qed
    have "handle_ok es ?s h" if "h \<in> set (m_handles ?s)" for h
    proof (cases "h = h'")
      case True
      show ?thesis unfolding True
        by (rule taken_handle_ok [OF q(2) fr(3,2)]) (use e' fr(4) f' cnt(1) in \<open>simp_all add: h'_def\<close>)
    next
      case False
      then have "handle_ok es s h" using members [OF that] assms(1) by (simp add: pf_inv_def)
      then show ?thesis using all [OF that] f' by (simp add: handle_ok_def)
    qed
    moreover have "tot (has_event (?f + 1)) ?s = 0"
      using all unfolding tot_def by (auto simp: has_event_def)
    moreover have "nat (?f + 1) = Suc (nat ?f)" using fr(2) by simp
    ultimately show ?thesis using q ci f' fr(5) cnt by (auto simp: pf_inv_def queue_inv_def hs ev(1))
  next
    case False
    have f': "front_number ?s = ?f" "m_events ?s = m_events s" "m_handlesThatReceivedCurrentEvent ?s = m_handlesThatReceivedCurrentEvent s + 1"
        "m_eventCount ?s = m_eventCount s"
      using ev False by (simp_all add: popEvent_loop_def Let_def front_number_def)
    have "handle_ok es ?s h" if "h \<in> set (m_handles ?s)" for h
    proof (cases "h = h'")
      case True
      show ?thesis unfolding True
        by (rule taken_handle_ok [OF q(2) fr(3,2)]) (use e' fr(4) f' cnt(1) in \<open>simp_all add: h'_def\<close>)
    next
      case False
      then have "handle_ok es s h" using members [OF that] assms(1) by (simp add: pf_inv_def)
      then show ?thesis using f' by (simp add: handle_ok_def)
    qed
    then show ?thesis using q ci f' cnt t(1) False by (auto simp: pf_inv_def queue_inv_def hs)
  qed
qed

lemma recording_locked:
  assumes "lock_inv s" "i < length (m_handles s)" "pos (m_handles s ! i) = Recording st"
  shows "m_solveResultMutex s"
proof (rule ccontr)
  assume "\<not> m_solveResultMutex s"
  with assms(1) have "tot is_recording s = 0" by (simp add: lock_inv_def)
  then have "is_recording (m_handles s ! i) = 0" by (rule tot_zero) (simp add: assms(2))
  with assms(3) show False by (simp add: is_recording_def)
qed

lemma solve_inv:
  assumes "pf_inv n es s" "i < length (m_handles s)" "pos (m_handles s ! i) = AtSolve"
  shows "pf_inv n es (StateSolveFunc i st s)"
proof -
  let ?h = "m_handles s ! i" and ?n = "eventNumber (event (m_handles s ! i))"
  have ok: "handle_ok es s ?h" and l: "lock_inv s" using assms(1,2) by (simp_all add: pf_inv_def)
  have c: "m_mostRecentHandledEvent s < m_eventCount s" "m_eventAlreadySolved s < m_eventCount s" "?n < m_eventCount s"
    using assms(1) ok by (simp_all add: pf_inv_def count_inv_def lock_inv_def handle_ok_def)
  have quiet: "pf_inv n es (upd_handle i ((call_solver CallSolve ?h)\<lparr>pos := AtPop\<rparr>) s)"
    by (rule pf_inv_quiet [OF assms(1,2), where h' = "(call_solver CallSolve ?h)\<lparr>pos := AtPop\<rparr>"])
      (use assms(3) ok c in \<open>auto simp: call_solver_def handle_ok_def is_recording_iff\<close>)
  show ?thesis
  proof (cases "(st = PARAC_SAT \<or> st = PARAC_UNSAT \<or> st = PARAC_ABORTED) \<and> \<not> m_solveResultMutex s \<and> m_eventAlreadySolved s < ?n")
    case False
    then show ?thesis using quiet by (auto simp: StateSolveFunc_def Let_def call_solver_def)
  next
    case True
    let ?t = "upd_handle i ((call_solver CallSolve ?h)\<lparr>pos := Recording st\<rparr>) (s\<lparr>m_solveResultMutex := True, m_eventAlreadySolved := ?n\<rparr>)"
    have "pf_inv n es ?t"
      by (rule pf_inv_quiet [OF assms(1,2), where h' = "(call_solver CallSolve ?h)\<lparr>pos := Recording st\<rparr>"])
        (use assms(3) ok c True in \<open>auto simp: call_solver_def handle_ok_def is_recording_iff\<close>)
    then have "pf_inv n es (terminateAllBut i ?t)"
    proof (rule pf_inv_same)
      show "same_threads (m_handles ?t) (m_handles (terminateAllBut i ?t))"
        by (simp add: same_threads_def terminateAllBut_def call_solver_def list_all2_conv_all_nth nth_enumerate_eq)
    qed (simp_all add: terminateAllBut_def)
    then show ?thesis using True by (auto simp: StateSolveFunc_def Let_def call_solver_def)
  qed
qed

lemma thread_inv:
  assumes "pf_inv n es s" "handleRun i st s = Some s'"
  shows "pf_inv n es s'"
proof -
  let ?h = "m_handles s ! i"
  have i: "i < length (m_handles s)" using assms(2) by (simp add: handleRun_def split: if_splits)
  have ok: "handle_ok es s ?h" and l: "lock_inv s" using assms(1) i by (simp_all add: pf_inv_def)
  have c: "m_mostRecentHandledEvent s < m_eventCount s" "m_eventAlreadySolved s < m_eventCount s"
    using assms(1) by (simp_all add: pf_inv_def count_inv_def lock_inv_def)
  note quiet = pf_inv_quiet [OF assms(1) i]
  show ?thesis
  proof (cases "pos ?h")
    case AtStart
    have "pf_inv n es (beReady i s)"
      by (rule quiet [where h' = "?h\<lparr>pos := AtPop\<rparr>"]) (use AtStart ok c in \<open>simp_all add: beReady_def handle_ok_def is_recording_iff agrees_def\<close>)
    with AtStart assms(2) i show ?thesis by (simp add: handleRun_def)
  next
    case AtPop
    have "pf_inv n es (enter_pop i s)" using enter_pop_inv [OF assms(1) i AtPop] .
    moreover have "new_event i (enter_pop i s) = new_event i s" using i by (simp add: new_event_def enter_pop_def split: list.split)
    moreover have "pos (m_handles (enter_pop i s) ! i) = InPop" "i < length (m_handles (enter_pop i s))" using i by (simp_all add: enter_pop_def)
    ultimately have "pf_inv n es (popEvent i s)" using take_inv by (simp add: popEvent_enter [OF i])
    with AtPop assms(2) i show ?thesis by (simp add: handleRun_def)
  next
    case InPop
    with assms i show ?thesis by (auto simp: handleRun_def split: if_splits intro: take_inv)
  next
    case AtAssume
    have "pf_inv n es (StateAssumeFunc i s)"
      by (rule quiet [where h' = "(call_solver (CallAssume (event_cube (event ?h))) ?h)\<lparr>pos := AtSolve\<rparr>"]) (use AtAssume ok c in \<open>simp_all add: StateAssumeFunc_def Let_def call_solver_def handle_ok_def is_recording_iff\<close>)
    with AtAssume assms(2) i show ?thesis by (simp add: handleRun_def)
  next
    case AtSolve
    with assms(2) i solve_inv [OF assms(1) i AtSolve] show ?thesis by (auto simp: handleRun_def)
  next
    case (Recording r)
    have "m_solveResultMutex s" using recording_locked [OF l i Recording] .
    then have "pf_inv n es (record_result i r s)"
      by (intro quiet [where h' = "?h\<lparr>pos := AtPop\<rparr>"]) (use Recording ok c in \<open>auto simp: record_result_def handle_ok_def is_recording_iff\<close>)
    with Recording assms(2) i show ?thesis by (simp add: handleRun_def)
  next
    case AtExit
    have "pf_inv n es (handle_exit i s)"
      by (rule quiet [where h' = "?h\<lparr>pos := Exited\<rparr>"]) (use AtExit ok c in \<open>simp_all add: handle_exit_def handle_ok_def is_recording_iff\<close>)
    with AtExit assms(2) i show ?thesis by (simp add: handleRun_def)
  next
    case Exited
    with assms(2) i show ?thesis by (simp add: handleRun_def)
  qed
qed

lemma all_started_flags [simp]:
  "all_started (s\<lparr>m_working := w\<rparr>) = all_started s" "all_started (s\<lparr>m_terminating := t\<rparr>) = all_started s"
  "all_started (s\<lparr>m_handleRunning := r\<rparr>) = all_started s"
  by (simp_all add: all_started_def)

lemma init_inv: "0 < n \<Longrightarrow> pf_inv n [] (PortfolioQBFHandle_init r p n)"
  by (simp add: pf_inv_def events_ok_def queue_inv_def PortfolioQBFHandle_init_def pending_ok_def number_from_def front_number_def
      handle_ok_def count_inv_def lock_inv_def tot_def sum_list_replicate Handle_init_def has_event_def entries_def is_recording_def agrees_def)

lemma terminate_inv:
  assumes "pf_inv n es s" "open_events es" "all_started s"
  shows "pf_inv n (es @ terminate_events s) (pf_terminate s)"
proof (cases "m_terminating s")
  case True
  with assms show ?thesis by (simp add: terminate_events_def pf_terminate_def)
next
  case False
  let ?s = "snd (pushEvent (Event_of Terminate []) (s\<lparr>m_terminating := True\<rparr>))"
  have "pf_inv n es (s\<lparr>m_terminating := True\<rparr>)" by (rule pf_inv_same [OF assms(1)]) simp_all
  from pf_inv_push [OF this assms(2)] assms(3) have "pf_inv n (es @ [Event_of Terminate []]) ?s" by (simp add: Event_of_def)
  then have "pf_inv n (es @ [Event_of Terminate []]) (pf_terminate s)"
    by (rule pf_inv_same) (use False in \<open>simp_all add: pf_terminate_def Let_def same_threads_map call_solver_def\<close>)
  with False show ?thesis by (simp add: terminate_events_def)
qed

lemma destruct_inv:
  assumes "pf_inv n es s" "open_events es" "all_started s"
  shows "pf_inv n (es @ terminate_events s @ [Event_of Destruct []]) (snd (pf_destruct s))"
proof -
  let ?s = "s\<lparr>m_handleRunning := False\<rparr>"
  have "pf_inv n es ?s" by (rule pf_inv_same [OF assms(1)]) simp_all
  then have "pf_inv n (es @ terminate_events s) (pf_terminate ?s)"
    using terminate_inv [of n es ?s] assms(2,3) by (simp add: terminate_events_def)
  moreover have "open_events (es @ terminate_events s)"
    using assms(2) by (auto simp: open_events_def terminate_events_def Event_of_def)
  moreover have "all_started (pf_terminate ?s)"
    using assms(3) by (auto simp: all_started_def pf_terminate_def Let_def pushEvent_def call_solver_def)
  ultimately show ?thesis
    using pf_inv_push [of n "es @ terminate_events s" "pf_terminate ?s" "Event_of Destruct []"] by (simp add: pf_destruct_def Event_of_def)
qed

lemma reach_inv: "pf_reach n es s \<Longrightarrow> pf_inv n es s"
proof (induction rule: pf_reach.induct)
  case (start n r p)
  then show ?case by (rule init_inv)
next
  case (thread n es s i st s')
  then show ?case by (blast intro: thread_inv)
next
  case (constructed n es s s')
  from constructed.IH show ?case
    by (rule pf_inv_same) (use constructed.hyps in \<open>auto simp: waitForAllToBeReady_def split: if_splits\<close>)
next
  case (assume_cube n es s c)
  have "pf_inv n es (s\<lparr>m_working := True, m_terminating := False\<rparr>)" by (rule pf_inv_same [OF assume_cube.IH]) simp_all
  from pf_inv_push [OF this] assume_cube show ?case by (simp add: pf_assumeCube_def Event_of_def)
next
  case (reset n es s)
  from reset.IH show ?case by (rule pf_inv_same) (simp_all add: solve_reset_def)
next
  case (solve n es s)
  from pf_inv_push [OF solve.IH] solve show ?case by (simp add: solve_push_def Event_of_def)
next
  case (return n es s k r s')
  from return.IH show ?case by (rule pf_inv_same) (use return.hyps in \<open>auto simp: solve_return_def split: if_splits\<close>)
next
  case (terminate n es s)
  then show ?case by (blast intro: terminate_inv)
next
  case (destruct n es s)
  then show ?case by (blast intro: destruct_inv)
qed

section \<open>Threads that wait\<close>

lemma waiting_pos:
  assumes "i < length (m_handles s)" "\<And>st. handleRun i st s = None"
  shows "pos (m_handles s ! i) = Exited \<or> pos (m_handles s ! i) = InPop \<and> \<not> new_event i s"
  using assms(1) assms(2) [of PARAC_OK] by (auto simp: handleRun_def split: thread_pos.splits if_splits)

lemma all_waiting_seen:
  assumes "pf_inv n es s" "\<And>i st. handleRun i st s = None" "h \<in> set (m_handles s)"
  shows "eventNumber (event h) = m_eventCount s - 1"
proof (cases "m_events s")
  case Nil
  with assms(1,3) show ?thesis by (fastforce simp: pf_inv_def handle_ok_def front_number_def)
next
  case (Cons e evs)
  let ?f = "front_number s"
  have q: "queue_inv n es s" "events_ok es" using assms(1) by (simp_all add: pf_inv_def)
  note fr = queue_front [OF q(1) Cons]
  have "tot (has_event ?f) s < length (m_handles s) * 1" using q(1) by (simp add: queue_inv_def)
  then obtain h0 where "h0 \<in> set (m_handles s)" "has_event ?f h0 \<noteq> 1"
    unfolding tot_def by (metis One_nat_def in_set_conv_nth length_map mult.right_neutral nat_neq_iff nth_map sum_list_triv map_replicate_const map_eq_conv of_nat_id)
  then obtain j where j: "j < length (m_handles s)" "eventNumber (event (m_handles s ! j)) \<noteq> ?f"
    by (auto simp: has_event_def in_set_conv_nth split: if_splits)
  have ok: "handle_ok es s (m_handles s ! j)" using assms(1) j(1) by (simp add: pf_inv_def)
  then have below: "eventNumber (event (m_handles s ! j)) = ?f - 1" using j(2) by (simp add: handle_ok_def)
  have "new_event j s" using Cons fr(1) below by (simp add: new_event_def)
  with waiting_pos [OF j(1) assms(2)] have "pos (m_handles s ! j) = Exited" by simp
  with ok below q(2) have "?f - 1 = int (length es) - 1"
    by (auto simp: handle_ok_def agrees_def events_ok_def split: if_splits)
  with fr(2,3) show ?thesis by simp
qed

lemma all_waiting_handled:
  assumes "pf_inv n es s" "\<And>i st. handleRun i st s = None" "\<forall>h \<in> set (m_handles s). pos h \<noteq> Exited"
  shows "m_eventCount s - 1 \<le> m_mostRecentHandledEvent s"
proof -
  have cnt: "m_eventCount s = int (length es)" "0 < length (m_handles s)"
    using assms(1) by (auto simp: pf_inv_def queue_inv_def)
  have "entries h = length es + 1" if h: "h \<in> set (m_handles s)" for h
  proof -
    obtain i where i: "i < length (m_handles s)" "h = m_handles s ! i" using h by (auto simp: in_set_conv_nth)
    have "pos h = InPop" using waiting_pos [OF i(1) assms(2)] assms(3) h i(2) by auto
    with all_waiting_seen [OF assms(1,2) h] cnt(1) show ?thesis by (simp add: entries_def)
  qed
  then have t: "tot entries s = length (m_handles s) * (length es + 1)"
    unfolding tot_def by (metis length_map map_eq_conv map_replicate_const of_nat_id sum_list_triv)
  obtain k where k: "tot entries s = length (m_handles s) * k + m_handlesThatProcessedCurrentEvent s"
    "int k - 2 \<le> m_mostRecentHandledEvent s" "m_handlesThatProcessedCurrentEvent s < length (m_handles s)"
    using assms(1) by (auto simp: pf_inv_def count_inv_def)
  have "k = tot entries s div length (m_handles s)" using k(1,3) cnt(2) by (simp add: div_mult_self4)
  also have "\<dots> = length es + 1" using t cnt(2) by simp
  finally show ?thesis using k(2) cnt(1) by simp
qed

text \<open>When the last thread has left, the event of the destructor counts as handled.\<close>

definition exit_inv :: "portfolio \<Rightarrow> bool" where
  "exit_inv s \<longleftrightarrow> ((\<forall>h \<in> set (m_handles s). pos h = Exited) \<longrightarrow> m_mostRecentHandledEvent s = m_eventCount s - 1)"

lemma handleRun_others:
  assumes "handleRun i st s = Some s'"
  shows "i < length (m_handles s)" "length (m_handles s') = length (m_handles s)" "m_eventCount s' = m_eventCount s"
    "j \<noteq> i \<Longrightarrow> j < length (m_handles s) \<Longrightarrow> event (m_handles s' ! j) = event (m_handles s ! j) \<and> pos (m_handles s' ! j) = pos (m_handles s ! j)"
proof -
  show i: "i < length (m_handles s)" using assms by (simp add: handleRun_def split: if_splits)
  show "length (m_handles s') = length (m_handles s)" "m_eventCount s' = m_eventCount s"
    using assms i by (auto simp: handleRun_def beReady_def popEvent_def popEvent_loop_def StateAssumeFunc_def StateSolveFunc_def
        record_result_def handle_exit_def terminateAllBut_def Let_def split: thread_pos.splits if_splits list.splits)
  show "event (m_handles s' ! j) = event (m_handles s ! j) \<and> pos (m_handles s' ! j) = pos (m_handles s ! j)"
    if "j \<noteq> i" "j < length (m_handles s)"
    using assms i that by (auto simp: handleRun_def beReady_def popEvent_def popEvent_loop_def StateAssumeFunc_def StateSolveFunc_def
        record_result_def handle_exit_def terminateAllBut_def Let_def nth_enumerate_eq call_solver_def split: thread_pos.splits if_splits list.splits)
qed

lemma handleRun_exited:
  assumes "handleRun i st s = Some s'" "pos (m_handles s' ! i) = Exited"
  shows "pos (m_handles s ! i) = AtExit \<and> s' = handle_exit i s"
proof -
  have "pos (StateWaitFunc h) \<noteq> Exited" for h by (simp add: StateWaitFunc_def split: Event_Type.split)
  with assms show ?thesis
    by (auto simp: handleRun_def beReady_def popEvent_def popEvent_loop_def StateAssumeFunc_def StateSolveFunc_def
        record_result_def terminateAllBut_def nth_enumerate_eq call_solver_def Let_def split: thread_pos.splits if_splits list.splits)
qed

lemma exited_not_open:
  assumes "pf_inv n es s" "open_events es" "h \<in> set (m_handles s)"
  shows "pos h \<noteq> Exited"
proof
  assume "pos h = Exited"
  with assms have "event_type (event h) = Destruct" "agrees es (event h)" by (auto simp: pf_inv_def handle_ok_def)
  with assms(2) show False by (auto simp: agrees_def open_events_def split: if_splits)
qed

lemma some_running: "pf_inv n es s \<Longrightarrow> open_events es \<Longrightarrow> \<exists>h \<in> set (m_handles s). pos h \<noteq> Exited"
  using exited_not_open [of n es s "hd (m_handles s)"] by (auto simp: pf_inv_def queue_inv_def intro!: bexI [of _ "hd (m_handles s)"])

lemma exit_inv_open: "pf_inv n es s \<Longrightarrow> open_events es \<Longrightarrow> exit_inv s"
  by (auto simp: exit_inv_def dest: some_running)

lemma open_events_append: "open_events (es @ es') \<longleftrightarrow> open_events es \<and> open_events es'"
  by (auto simp: open_events_def)

lemma open_event_simps [simp]: "open_events [Event_of Assume c]" "open_events [Event_of Solve c]" "open_events (terminate_events s)"
  by (auto simp: open_events_def Event_of_def terminate_events_def)

lemma destruct_exit_inv:
  assumes "pf_inv n es s" "open_events es" "all_started s"
  shows "exit_inv (snd (pf_destruct s))"
proof -
  let ?s = "s\<lparr>m_handleRunning := False\<rparr>"
  have "pf_inv n es ?s" by (rule pf_inv_same [OF assms(1)]) simp_all
  then have "pf_inv n (es @ terminate_events ?s) (pf_terminate ?s)" using terminate_inv assms(2,3) by simp
  then have "\<exists>h \<in> set (m_handles (pf_terminate ?s)). pos h \<noteq> Exited"
    by (rule some_running) (simp add: open_events_append assms(2))
  then show ?thesis by (auto simp: exit_inv_def pf_destruct_def pushEvent_def)
qed

lemma reach_exit_inv: "pf_reach n es s \<Longrightarrow> exit_inv s"
proof (induction rule: pf_reach.induct)
  case (start n r p)
  then show ?case using exit_inv_open [OF init_inv] by (simp add: open_events_def)
next
  case (thread n es s i st s')
  note o = handleRun_others [OF thread.hyps(2)]
  show ?case unfolding exit_inv_def
  proof
    assume ex: "\<forall>h \<in> set (m_handles s'). pos h = Exited"
    then have "pos (m_handles s' ! i) = Exited" using o(1,2) by simp
    from handleRun_exited [OF thread.hyps(2) this] have "pos (m_handles s ! i) = AtExit" "s' = handle_exit i s" by simp_all
    moreover have "handle_ok es s (m_handles s ! i)" using reach_inv [OF thread.hyps(1)] o(1) by (simp add: pf_inv_def)
    ultimately show "m_mostRecentHandledEvent s' = m_eventCount s' - 1" by (simp add: handle_exit_def handle_ok_def)
  qed
next
  case (constructed n es s s')
  then show ?case by (auto simp: exit_inv_def waitForAllToBeReady_def split: if_splits)
next
  case (assume_cube n es s c)
  show ?case
    by (rule exit_inv_open [OF reach_inv [OF pf_reach.assume_cube [OF assume_cube.hyps(1-3)]]])
      (simp add: open_events_append assume_cube.hyps(2))
next
  case (reset n es s)
  then show ?case by (simp add: exit_inv_def solve_reset_def)
next
  case (solve n es s)
  show ?case
    by (rule exit_inv_open [OF reach_inv [OF pf_reach.solve [OF solve.hyps(1-3)]]]) (simp add: open_events_append solve.hyps(2))
next
  case (return n es s k r s')
  then show ?case by (auto simp: exit_inv_def solve_return_def split: if_splits)
next
  case (terminate n es s)
  show ?case
    by (rule exit_inv_open [OF reach_inv [OF pf_reach.terminate [OF terminate.hyps(1-3)]]]) (simp add: open_events_append terminate.hyps(2))
next
  case (destruct n es s)
  then show ?case using destruct_exit_inv reach_inv by blast
qed

section \<open>Progress\<close>

definition pos_weight :: "thread_pos \<Rightarrow> nat" where
  "pos_weight p = (case p of AtStart \<Rightarrow> 2 | AtPop \<Rightarrow> 1 | InPop \<Rightarrow> 0 | AtAssume \<Rightarrow> 4 | AtSolve \<Rightarrow> 3 | Recording _ \<Rightarrow> 2 | AtExit \<Rightarrow> 1 | Exited \<Rightarrow> 0)"

definition weight :: "int \<Rightarrow> Handle \<Rightarrow> nat" where
  "weight c h = 6 * nat (c - 1 - eventNumber (event h)) + pos_weight (pos h)"

text \<open>The number of steps the threads can still do before they all wait for a new event.\<close>

definition remaining :: "portfolio \<Rightarrow> nat" where
  "remaining s = tot (weight (m_eventCount s)) s"

lemma pos_weight_wait: "pos_weight (pos (StateWaitFunc h)) \<le> 4"
  by (simp add: StateWaitFunc_def pos_weight_def split: Event_Type.split)

lemma take_weight:
  assumes "pf_inv n es s" "i < length (m_handles s)" "new_event i s"
  shows "weight (m_eventCount s) (m_handles (popEvent_loop i s) ! i) < weight (m_eventCount s) (m_handles s ! i)"
proof -
  obtain e evs where ev: "m_events s = e # evs" "eventNumber e > eventNumber (event (m_handles s ! i))"
    using assms(3) by (auto simp: new_event_def split: list.splits)
  have "queue_inv n es s" using assms(1) by (simp add: pf_inv_def)
  from queue_front [OF this ev(1)] have "eventNumber e < m_eventCount s"
    using \<open>queue_inv n es s\<close> by (simp add: queue_inv_def)
  then have "6 * nat (m_eventCount s - 1 - eventNumber e) + 6 \<le> 6 * nat (m_eventCount s - 1 - eventNumber (event (m_handles s ! i)))"
    using ev(2) by simp
  moreover have "m_handles (popEvent_loop i s) ! i = StateWaitFunc ((m_handles s ! i)\<lparr>event := Event_assign (event (m_handles s ! i)) e\<rparr>)"
    using assms(2) ev by (simp add: popEvent_loop_def Let_def)
  ultimately show ?thesis
    using pos_weight_wait [of "(m_handles s ! i)\<lparr>event := Event_assign (event (m_handles s ! i)) e\<rparr>"] by (simp add: weight_def Event_assign_def)
qed

lemma handleRun_weight:
  assumes "pf_inv n es s" "handleRun i st s = Some s'"
  shows "weight (m_eventCount s) (m_handles s' ! i) < weight (m_eventCount s) (m_handles s ! i)"
proof -
  have i: "i < length (m_handles s)" using handleRun_others(1) [OF assms(2)] .
  show ?thesis
  proof (cases "pos (m_handles s ! i)")
    case AtPop
    have e: "weight (m_eventCount s) (m_handles (enter_pop i s) ! i) < weight (m_eventCount s) (m_handles s ! i)"
      "m_eventCount (enter_pop i s) = m_eventCount s" "i < length (m_handles (enter_pop i s))" "new_event i (enter_pop i s) = new_event i s"
      using i AtPop by (simp_all add: enter_pop_def weight_def pos_weight_def new_event_def split: list.split)
    have "s' = popEvent i s" using assms(2) i AtPop by (simp add: handleRun_def)
    with e take_weight [OF enter_pop_inv [OF assms(1) i AtPop] e(3)] show ?thesis by (auto simp: popEvent_enter [OF i])
  next
    case InPop
    with assms i show ?thesis by (auto simp: handleRun_def split: if_splits intro: take_weight)
  qed (use assms(2) i in \<open>auto simp: handleRun_def beReady_def StateAssumeFunc_def StateSolveFunc_def record_result_def handle_exit_def
      terminateAllBut_def nth_enumerate_eq call_solver_def weight_def pos_weight_def Let_def split: if_splits\<close>)
qed

lemma remaining_decreases:
  assumes "pf_inv n es s" "handleRun i st s = Some s'"
  shows "remaining s' < remaining s"
proof -
  note o = handleRun_others [OF assms(2)]
  let ?g = "weight (m_eventCount s)"
  have "map ?g (m_handles s') = (map ?g (m_handles s))[i := ?g (m_handles s' ! i)]"
    using o(1,2) by (intro nth_equalityI) (auto simp: nth_list_update weight_def o(4))
  then have "tot ?g s' = tot ?g (upd_handle i (m_handles s' ! i) s)" by (simp add: tot_def map_update)
  with tot_upd [OF o(1), of ?g "m_handles s' ! i"] handleRun_weight [OF assms] show ?thesis
    by (simp add: remaining_def o(3))
qed

lemma run_threads_bound:
  "pf_inv n es s \<Longrightarrow> run_threads as s = Some s' \<Longrightarrow> pf_inv n es s' \<and> length as + remaining s' \<le> remaining s \<and> m_eventCount s' = m_eventCount s"
proof (induction as arbitrary: s)
  case (Cons a as)
  obtain i st where a: "a = (i, st)" by fastforce
  obtain s1 where s1: "handleRun i st s = Some s1" "run_threads as s1 = Some s'"
    using Cons.prems(2) a by (auto split: option.splits)
  have "pf_inv n es s1" using thread_inv [OF Cons.prems(1) s1(1)] .
  with Cons.IH [OF this s1(2)] remaining_decreases [OF Cons.prems(1) s1(1)] handleRun_others(3) [OF s1(1)]
  show ?case by simp
qed simp

lemma run_threads_reach: "pf_reach n es s \<Longrightarrow> run_threads as s = Some s' \<Longrightarrow> pf_reach n es s'"
proof (induction as arbitrary: s)
  case (Cons a as)
  then show ?case by (cases a) (auto split: option.splits intro: pf_reach.thread)
qed simp

lemma all_waiting_all_handled:
  assumes "pf_reach n es s" "\<And>i st. handleRun i st s = None"
  shows "m_eventCount s - 1 \<le> m_mostRecentHandledEvent s"
proof (cases "\<exists>h \<in> set (m_handles s). pos h = Exited")
  case False
  with all_waiting_handled [OF reach_inv [OF assms(1)] assms(2)] show ?thesis by blast
next
  case True
  have v: "pf_inv n es s" using reach_inv [OF assms(1)] .
  obtain h where h: "h \<in> set (m_handles s)" "pos h = Exited" using True by blast
  have seen: "eventNumber (event h') = m_eventCount s - 1" if "h' \<in> set (m_handles s)" for h'
    using all_waiting_seen [OF v assms(2) that] .
  have "pos h' = Exited" if h': "h' \<in> set (m_handles s)" for h'
  proof -
    have "handle_ok es s h'" "handle_ok es s h" using v that h by (simp_all add: pf_inv_def)
    then have "event_type (event h') = Destruct"
      using seen [OF that] seen [OF h(1)] h(2) by (auto simp: handle_ok_def agrees_def split: if_splits)
    moreover obtain i where "i < length (m_handles s)" "h' = m_handles s ! i" using h' by (auto simp: in_set_conv_nth)
    ultimately show ?thesis using waiting_pos [OF _ assms(2), of i] \<open>handle_ok es s h'\<close> by (auto simp: handle_ok_def)
  qed
  then show ?thesis using reach_exit_inv [OF assms(1)] by (simp add: exit_inv_def)
qed

section \<open>What the portfolio answers\<close>

text \<open>
  Honest solvers: each inner solver answers the cube of its event with the verdict of that cube.  \<open>run_honest\<close> runs
  the threads in the given order with such answers.
\<close>

definition answer :: "(int list \<Rightarrow> bool) \<Rightarrow> nat \<Rightarrow> portfolio \<Rightarrow> parac_status" where
  "answer verdict i s = (if verdict (event_cube (event (m_handles s ! i))) then PARAC_SAT else PARAC_UNSAT)"

fun run_honest :: "(int list \<Rightarrow> bool) \<Rightarrow> nat list \<Rightarrow> portfolio \<Rightarrow> portfolio option" where
  "run_honest verdict [] s = Some s"
| "run_honest verdict (i # is) s = (case handleRun i (answer verdict i s) s of None \<Rightarrow> None | Some s \<Rightarrow> run_honest verdict is s)"

definition all_wait :: "portfolio \<Rightarrow> bool" where
  "all_wait s \<longleftrightarrow> (\<forall>h \<in> set (m_handles s). pos h = InPop \<and> eventNumber (event h) = m_eventCount s - 1)"

text \<open>The state of a thread between the events \<open>a\<close> (assume) and \<open>a + 1\<close> (solve) of one call.\<close>

definition call_thread :: "int \<Rightarrow> int list \<Rightarrow> parac_status \<Rightarrow> Handle \<Rightarrow> bool" where
  "call_thread a c v h \<longleftrightarrow>
     eventNumber (event h) = a - 1 \<and> pos h = InPop
     \<or> eventNumber (event h) = a \<and> pos h \<in> {AtAssume, AtSolve, Recording v, AtPop, InPop} \<and> event_cube (event h) = c \<and> previousWasAssume h
     \<or> eventNumber (event h) = a + 1 \<and> pos h \<in> {AtPop, InPop}"

text \<open>A thread that is through with solving.\<close>

definition solved_thread :: "int \<Rightarrow> Handle \<Rightarrow> bool" where
  "solved_thread a h \<longleftrightarrow> eventNumber (event h) = a \<and> pos h \<in> {AtPop, InPop} \<or> eventNumber (event h) = a + 1"

definition call_inv :: "int \<Rightarrow> int list \<Rightarrow> parac_status \<Rightarrow> portfolio \<Rightarrow> bool" where
  "call_inv a c v s \<longleftrightarrow> (\<forall>h \<in> set (m_handles s). call_thread a c v h)
     \<and> (m_eventAlreadySolved s < a \<and> \<not> m_solveResultMutex s \<and> (\<forall>h \<in> set (m_handles s). \<not> solved_thread a h)
        \<or> m_eventAlreadySolved s = a \<and> (m_solveResultMutex s \<or> m_solveResult s = v))"

lemma call_inv_solved: "call_inv a c v s \<Longrightarrow> h \<in> set (m_handles s) \<Longrightarrow> solved_thread a h \<Longrightarrow> m_eventAlreadySolved s = a"
  by (auto simp: call_inv_def)

lemma set_update_cases: "h \<in> set (hs[i := x]) \<Longrightarrow> h = x \<or> h \<in> set hs"
  by (auto dest: set_update_subset_insert [THEN subsetD])

text \<open>A step that replaces the thread \<open>i\<close> and leaves the result alone.\<close>

lemma call_inv_upd:
  assumes "call_inv a c v s" "call_thread a c v h'" "set (m_handles s') \<subseteq> insert h' (set (m_handles s))"
    and "m_eventAlreadySolved s' = m_eventAlreadySolved s" "m_solveResultMutex s' = m_solveResultMutex s" "m_solveResult s' = m_solveResult s"
    and "solved_thread a h' \<Longrightarrow> m_eventAlreadySolved s = a"
  shows "call_inv a c v s'"
proof -
  have sub: "(\<forall>h \<in> set (m_handles s). P h) \<Longrightarrow> P h' \<Longrightarrow> \<forall>h \<in> set (m_handles s'). P h" for P using assms(3) by blast
  have "\<forall>h \<in> set (m_handles s'). call_thread a c v h" using sub [of "call_thread a c v"] assms(1,2) by (simp add: call_inv_def)
  moreover have "\<forall>h \<in> set (m_handles s'). \<not> solved_thread a h"
    if "m_eventAlreadySolved s < a" "\<forall>h \<in> set (m_handles s). \<not> solved_thread a h"
    using sub [of "\<lambda>h. \<not> solved_thread a h"] that assms(7) by auto
  ultimately show ?thesis using assms(1,4-6) by (auto simp: call_inv_def)
qed

lemma call_thread_calls [simp]:
  "call_thread a c v (call_solver x h) = call_thread a c v h" "solved_thread a (call_solver x h) = solved_thread a h"
  by (simp_all add: call_thread_def solved_thread_def call_solver_def)

lemma call_inv_calls:
  "call_inv a c v (s\<lparr>m_handles := map (\<lambda>(j, h). if j = i then h else call_solver x h) (enumerate 0 (m_handles s))\<rparr>) = call_inv a c v s"
proof -
  have "(\<forall>h \<in> set (map (\<lambda>(j, h). if j = i then h else call_solver x h) (enumerate 0 hs)). P h) \<longleftrightarrow> (\<forall>h \<in> set hs. P h)"
    if "\<And>h. P (call_solver x h) = P h" for P hs
    by (simp add: all_set_conv_all_nth nth_enumerate_eq if_distrib [of P] that) blast
  from this [of "call_thread a c v"] this [of "\<lambda>h. \<not> solved_thread a h"] show ?thesis by (simp add: call_inv_def)
qed

lemma taken_event:
  assumes "queue_inv n (es @ [Event_of Assume c, Event_of Solve []]) s" "new_event i s" "a = int (length es)"
    "a - 1 \<le> eventNumber (event (m_handles s ! i))" "front_number s - 1 \<le> eventNumber (event (m_handles s ! i))"
  shows "\<exists>e evs. m_events s = e # evs \<and> (eventNumber (event (m_handles s ! i)) = a - 1 \<and> e = \<lparr>eventNumber = a, event_type = Assume, event_cube = c\<rparr>
    \<or> eventNumber (event (m_handles s ! i)) = a \<and> e = \<lparr>eventNumber = a + 1, event_type = Solve, event_cube = []\<rparr>)"
proof -
  obtain e evs where ev: "m_events s = e # evs" "eventNumber e > eventNumber (event (m_handles s ! i))"
    using assms(2) by (auto simp: new_event_def split: list.splits)
  note fr = queue_front [OF assms(1) ev(1)]
  have "front_number s = a \<or> front_number s = a + 1" using fr(1,3) ev(2) assms(3,4) by auto
  with fr(1,4) ev assms(3,5) show ?thesis by (auto simp: nth_append Event_of_def)
qed

lemma take_call:
  assumes "queue_inv n (es @ [Event_of Assume c, Event_of Solve []]) s" "a = int (length es)" "call_inv a c v s" "i < length (m_handles s)"
    and "new_event i s" "front_number s - 1 \<le> eventNumber (event (m_handles s ! i))" "pos (m_handles s ! i) = InPop"
  shows "call_inv a c v (popEvent_loop i s)"
proof -
  let ?h = "m_handles s ! i"
  have h: "?h \<in> set (m_handles s)" "call_thread a c v ?h" using assms(3,4) by (simp_all add: call_inv_def)
  then have "a - 1 \<le> eventNumber (event ?h)" by (auto simp: call_thread_def)
  then obtain e evs where ev: "m_events s = e # evs"
    "eventNumber (event ?h) = a - 1 \<and> e = \<lparr>eventNumber = a, event_type = Assume, event_cube = c\<rparr>
     \<or> eventNumber (event ?h) = a \<and> e = \<lparr>eventNumber = a + 1, event_type = Solve, event_cube = []\<rparr>"
    using taken_event [OF assms(1,5,2) _ assms(6)] by blast
  let ?h' = "StateWaitFunc (?h\<lparr>event := Event_assign (event ?h) e\<rparr>)"
  have p: "eventNumber (event ?h) = a \<Longrightarrow> previousWasAssume ?h" using h(2) unfolding call_thread_def by linarith
  have t: "call_thread a c v ?h'" "solved_thread a ?h' \<Longrightarrow> solved_thread a ?h"
    using ev(2) p assms(7)
    by (elim disjE conjE; simp add: StateWaitFunc_def Event_assign_def typeHasCube_def call_thread_def solved_thread_def)+
  then have so: "solved_thread a ?h' \<Longrightarrow> m_eventAlreadySolved s = a" using call_inv_solved [OF assms(3) h(1)] t(2) by blast
  have "set (m_handles (popEvent_loop i s)) \<subseteq> insert ?h' (set (m_handles s))"
    using ev by (auto simp: popEvent_loop_def Let_def dest: set_update_cases)
  with t(1) so show ?thesis
    by (rule_tac call_inv_upd [OF assms(3)]) (use ev in \<open>auto simp: popEvent_loop_def Let_def\<close>)
qed

lemma call_inv_enter:
  assumes "call_inv a c v s" "i < length (m_handles s)" "pos (m_handles s ! i) = AtPop"
  shows "call_inv a c v (enter_pop i s)"
proof -
  let ?h = "m_handles s ! i"
  have h: "?h \<in> set (m_handles s)" "call_thread a c v ?h" using assms(1,2) by (simp_all add: call_inv_def)
  have "call_thread a c v (?h\<lparr>pos := InPop\<rparr>)" using h(2) assms(3) by (auto simp: call_thread_def)
  moreover have "solved_thread a (?h\<lparr>pos := InPop\<rparr>) \<Longrightarrow> solved_thread a ?h" using assms(3) by (auto simp: solved_thread_def)
  moreover have "set (m_handles (enter_pop i s)) \<subseteq> insert (?h\<lparr>pos := InPop\<rparr>) (set (m_handles s))"
    by (auto simp: enter_pop_def dest: set_update_cases)
  ultimately show ?thesis
    by (rule_tac call_inv_upd [OF assms(1)]) (use call_inv_solved [OF assms(1) h(1)] in \<open>auto simp: enter_pop_def\<close>)
qed

lemma call_inv_solve:
  assumes "call_inv a c v s" "i < length (m_handles s)" "pos (m_handles s ! i) = AtSolve" "v = PARAC_SAT \<or> v = PARAC_UNSAT"
  shows "call_inv a c v (StateSolveFunc i v s)"
proof -
  let ?h = "m_handles s ! i"
  have h: "?h \<in> set (m_handles s)" "call_thread a c v ?h" using assms(1,2) by (simp_all add: call_inv_def)
  have n: "eventNumber (event ?h) = a" "event_cube (event ?h) = c" "previousWasAssume ?h"
    using h(2) assms(3) by (auto simp: call_thread_def)
  show ?thesis
  proof (cases "\<not> m_solveResultMutex s \<and> m_eventAlreadySolved s < a")
    case True
    let ?h' = "(call_solver CallSolve ?h)\<lparr>pos := Recording v\<rparr>"
    let ?s = "upd_handle i ?h' (s\<lparr>m_solveResultMutex := True, m_eventAlreadySolved := a\<rparr>)"
    have "call_thread a c v ?h'" using n by (simp add: call_thread_def call_solver_def)
    then have "call_inv a c v ?s" using assms(1) by (auto simp: call_inv_def dest: set_update_cases)
    moreover have "StateSolveFunc i v s = terminateAllBut i ?s"
      using True n assms(4) by (auto simp: StateSolveFunc_def Let_def call_solver_def)
    ultimately show ?thesis by (simp only: terminateAllBut_def call_inv_calls)
  next
    case False
    let ?h' = "(call_solver CallSolve ?h)\<lparr>pos := AtPop\<rparr>"
    have "m_eventAlreadySolved s = a" using False assms(1) by (auto simp: call_inv_def)
    moreover have "call_thread a c v ?h'" using n by (simp add: call_thread_def call_solver_def)
    moreover have "StateSolveFunc i v s = upd_handle i ?h' s"
      using False n by (auto simp: StateSolveFunc_def Let_def call_solver_def)
    ultimately show ?thesis by (rule_tac call_inv_upd [OF assms(1)]) (auto dest: set_update_cases)
  qed
qed

lemma call_inv_step:
  assumes "pf_inv n (es @ [Event_of Assume c, Event_of Solve []]) s" "a = int (length es)" "call_inv a c v s"
    and "handleRun i (answer verdict i s) s = Some s'" "v = (if verdict c then PARAC_SAT else PARAC_UNSAT)"
  shows "call_inv a c v s'"
proof -
  let ?h = "m_handles s ! i"
  have i: "i < length (m_handles s)" using handleRun_others(1) [OF assms(4)] .
  have h: "?h \<in> set (m_handles s)" "call_thread a c v ?h" using assms(3) i by (simp_all add: call_inv_def)
  have ok: "handle_ok (es @ [Event_of Assume c, Event_of Solve []]) s ?h" "lock_inv s"
    "queue_inv n (es @ [Event_of Assume c, Event_of Solve []]) s"
    using assms(1) h(1) by (simp_all add: pf_inv_def)
  have f: "front_number s - 1 \<le> eventNumber (event ?h)" using ok(1) by (simp add: handle_ok_def)
  have upd: "call_inv a c v t" if "set (m_handles t) \<subseteq> insert h' (set (m_handles s))" "call_thread a c v h'" "\<not> solved_thread a h'"
      "m_eventAlreadySolved t = m_eventAlreadySolved s" "m_solveResultMutex t = m_solveResultMutex s" "m_solveResult t = m_solveResult s" for t h'
    using call_inv_upd [OF assms(3) that(2,1,4-6)] that(3) by blast
  show ?thesis
  proof (cases "pos ?h")
    case AtPop
    have e: "call_inv a c v (enter_pop i s)" using call_inv_enter [OF assms(3) i AtPop] .
    have pe: "pf_inv n (es @ [Event_of Assume c, Event_of Solve []]) (enter_pop i s)" using enter_pop_inv [OF assms(1) i AtPop] .
    have x: "new_event i (enter_pop i s) = new_event i s" "i < length (m_handles (enter_pop i s))" "pos (m_handles (enter_pop i s) ! i) = InPop"
      "front_number (enter_pop i s) - 1 \<le> eventNumber (event (m_handles (enter_pop i s) ! i))"
      using i f by (simp_all add: enter_pop_def new_event_def front_number_def split: list.split)
    have "s' = popEvent i s" using assms(4) i AtPop by (simp add: handleRun_def)
    with e x pe show ?thesis
      by (auto simp: popEvent_enter [OF i] pf_inv_def intro: take_call [OF _ assms(2)])
  next
    case InPop
    with assms(4) i take_call [OF ok(3) assms(2,3) i _ f InPop] show ?thesis by (auto simp: handleRun_def split: if_splits)
  next
    case AtAssume
    let ?h' = "(call_solver (CallAssume (event_cube (event ?h))) ?h)\<lparr>pos := AtSolve\<rparr>"
    have "call_thread a c v ?h'" "\<not> solved_thread a ?h'"
      using h(2) AtAssume by (auto simp: call_thread_def solved_thread_def call_solver_def)
    moreover have "s' = upd_handle i ?h' s" using assms(4) i AtAssume by (simp add: handleRun_def StateAssumeFunc_def Let_def)
    ultimately show ?thesis by (intro upd [of s' ?h']) (auto dest: set_update_cases)
  next
    case AtSolve
    then have "answer verdict i s = v" using h(2) assms(5) by (auto simp: call_thread_def answer_def)
    with assms(4,5) i AtSolve call_inv_solve [OF assms(3) i AtSolve] show ?thesis by (auto simp: handleRun_def split: if_splits)
  next
    case (Recording r)
    let ?h' = "?h\<lparr>pos := AtPop\<rparr>"
    have r: "r = v" "call_thread a c v ?h'" using h(2) Recording by (auto simp: call_thread_def)
    have "m_eventAlreadySolved s = a" using recording_locked [OF ok(2) i Recording] assms(3) by (auto simp: call_inv_def)
    moreover have "s' = record_result i v s" using assms(4) i Recording r(1) by (simp add: handleRun_def)
    ultimately show ?thesis using assms(3) r(2) by (auto simp: call_inv_def record_result_def dest!: set_update_cases)
  qed (use h(2) in \<open>auto simp: call_thread_def\<close>)
qed

lemma run_honest_inv:
  assumes "pf_inv n (es @ [Event_of Assume c, Event_of Solve []]) s" "a = int (length es)" "call_inv a c v s"
    and "run_honest verdict is s = Some s'" "v = (if verdict c then PARAC_SAT else PARAC_UNSAT)"
  shows "call_inv a c v s' \<and> pf_inv n (es @ [Event_of Assume c, Event_of Solve []]) s' \<and> m_eventCount s' = m_eventCount s
    \<and> length (m_handles s') = length (m_handles s)"
  using assms(1,3,4)
proof (induction "is" arbitrary: s)
  case (Cons i "is")
  then obtain t where t: "handleRun i (answer verdict i s) s = Some t" "run_honest verdict is t = Some s'" by (auto split: option.splits)
  from Cons.IH [OF thread_inv [OF Cons.prems(1) t(1)] call_inv_step [OF Cons.prems(1) assms(2) Cons.prems(2) t(1) assms(5)] t(2)]
  show ?case by (simp add: handleRun_others [OF t(1)])
qed simp

lemma drained_result:
  assumes "pf_reach n es s" "open_events es" "all_wait s"
    and "run_honest verdict is (snd (solve_push (solve_reset (pf_assumeCube c s)))) = Some s'" "all_wait s'"
  shows "m_solveResult s' = (if verdict c then PARAC_SAT else PARAC_UNSAT)
    \<and> pf_inv n (es @ [Event_of Assume c, Event_of Solve []]) s' \<and> m_eventCount s' = m_eventCount s + 2"
proof -
  let ?v = "if verdict c then PARAC_SAT else PARAC_UNSAT" and ?a = "int (length es)"
  let ?s = "snd (solve_push (solve_reset (pf_assumeCube c s)))"
  have v: "pf_inv n es s" using reach_inv [OF assms(1)] .
  have st: "all_started s" using assms(3) by (auto simp: all_wait_def all_started_def)
  have c1: "pf_reach n (es @ [Event_of Assume c]) (solve_reset (pf_assumeCube c s))"
    by (intro pf_reach.reset pf_reach.assume_cube assms(1,2) st)
  moreover have "all_started (solve_reset (pf_assumeCube c s))"
    using st by (simp add: all_started_def solve_reset_def pf_assumeCube_def pushEvent_def)
  ultimately have "pf_reach n ((es @ [Event_of Assume c]) @ [Event_of Solve []]) ?s"
    by (intro pf_reach.solve) (simp_all add: open_events_append assms(2))
  then have p: "pf_inv n (es @ [Event_of Assume c, Event_of Solve []]) ?s" using reach_inv by fastforce
  have hs: "m_handles ?s = m_handles s" "m_eventAlreadySolved ?s = m_eventAlreadySolved s" "m_solveResultMutex ?s = m_solveResultMutex s"
    "m_eventCount ?s = m_eventCount s + 2"
    by (simp_all add: solve_push_def solve_reset_def pf_assumeCube_def pushEvent_def)
  have cnt: "m_eventCount s = ?a" "m_handles s \<noteq> []" "m_eventAlreadySolved s < ?a"
    using v by (auto simp: pf_inv_def queue_inv_def lock_inv_def)
  have th: "eventNumber (event h) = ?a - 1" "pos h = InPop" if "h \<in> set (m_handles s)" for h
    using assms(3) that cnt(1) by (auto simp: all_wait_def)
  have no: "\<not> m_solveResultMutex s" if "\<forall>h \<in> set (m_handles s). pos h = InPop" "lock_inv s" for s
    using that by (auto simp: lock_inv_def tot_def is_recording_iff cong: map_cong split: if_splits)
  have "call_inv ?a c ?v ?s"
    using th cnt(3) hs no [of s] v by (auto simp: call_inv_def call_thread_def solved_thread_def pf_inv_def)
  from run_honest_inv [OF p refl this assms(4) refl] have r: "call_inv ?a c ?v s'" "lock_inv s'" "m_eventCount s' = ?a + 2" "m_handles s' \<noteq> []"
    "pf_inv n (es @ [Event_of Assume c, Event_of Solve []]) s'"
    using hs cnt by (auto simp: pf_inv_def)
  have w: "eventNumber (event h) = ?a + 1" "pos h = InPop" if "h \<in> set (m_handles s')" for h
    using assms(5) that r(3) by (auto simp: all_wait_def)
  have "hd (m_handles s') \<in> set (m_handles s')" using r(4) by simp
  with w call_inv_solved [OF r(1)] have "m_eventAlreadySolved s' = ?a" by (auto simp: solved_thread_def)
  with r(1) no [of s'] w r(2) have "m_solveResult s' = ?v" by (auto simp: call_inv_def)
  with r(3,5) cnt(1) show ?thesis by simp
qed

text \<open>One call of the client: the threads run while the cube is assumed, after the reset and after the event was pushed.\<close>

fun portfolio_call :: "(int list \<Rightarrow> bool) \<Rightarrow> int list \<times> nat list \<times> nat list \<times> nat list \<Rightarrow> portfolio \<Rightarrow> (parac_status \<times> portfolio) option" where
  "portfolio_call verdict (c, w1, w2, w3) s = do {
     s \<leftarrow> run_honest verdict w1 (pf_assumeCube c s);
     s \<leftarrow> run_honest verdict w2 (solve_reset s);
     let (k, s) = solve_push s;
     s \<leftarrow> run_honest verdict w3 s;
     solve_return k s }"

fun portfolio_calls :: "(int list \<Rightarrow> bool) \<Rightarrow> (int list \<times> nat list \<times> nat list \<times> nat list) list \<Rightarrow> portfolio \<Rightarrow> parac_status list option" where
  "portfolio_calls verdict [] s = Some []"
| "portfolio_calls verdict (x # xs) s = do {
     (r, s) \<leftarrow> portfolio_call verdict x s;
     rs \<leftarrow> portfolio_calls verdict xs s;
     Some (r # rs) }"

definition portfolio_session :: "(int list \<Rightarrow> bool) \<Rightarrow> nat \<Rightarrow> nat list \<Rightarrow> nat list \<Rightarrow> (int list \<times> nat list \<times> nat list \<times> nat list) list \<Rightarrow>
   parac_status list option" where
  "portfolio_session verdict n w0 w1 calls = do {
     s \<leftarrow> run_honest verdict w0 (PortfolioQBFHandle_init PARAC_OK 0 n);
     s \<leftarrow> waitForAllToBeReady s;
     s \<leftarrow> run_honest verdict w1 s;
     portfolio_calls verdict calls s }"

lemma sum_list_count: "sum_list (map (\<lambda>h. if P h then 1 else 0) hs) = length (filter P hs)"
  by (induction hs) simp_all

lemma all_wait_stuck:
  assumes "pf_inv n es s" "all_wait s"
  shows "handleRun i st s = None"
proof (cases "i < length (m_handles s)")
  case True
  have w: "pos (m_handles s ! i) = InPop" "eventNumber (event (m_handles s ! i)) = m_eventCount s - 1"
    using assms(2) True by (simp_all add: all_wait_def)
  have q: "queue_inv n es s" using assms(1) by (simp add: pf_inv_def)
  have "\<not> new_event i s"
    using queue_front [OF q] q w(2) by (auto simp: new_event_def queue_inv_def split: list.splits)
  with w(1) True show ?thesis by (simp add: handleRun_def)
qed (simp add: handleRun_def)

text \<open>
  Every thread gets every event once, in order.  In every reachable portfolio the queue holds exactly the
  pushed events from the front on, with consecutive numbers; each thread has taken the events up to the
  one before the front, or the front too, as they were pushed; the counter of the receivers is the number
  of threads that have the front, so the front leaves the queue exactly when all have it; and at most one
  thread is in the section that writes the result.
\<close>

lemma portfolio_events_in_order:
  assumes "pf_reach n es s"
  shows "\<exists>k \<le> length es. m_events s = number_from k (drop k es)
    \<and> (\<forall>h \<in> set (m_handles s). eventNumber (event h) \<in> {int k - 1, int k} \<and> agrees es (event h))
    \<and> m_handlesThatReceivedCurrentEvent s = length (filter (\<lambda>h. eventNumber (event h) = int k) (m_handles s))
    \<and> m_handlesThatReceivedCurrentEvent s < n
    \<and> length (filter (\<lambda>h. \<exists>st. pos h = Recording st) (m_handles s)) = (if m_solveResultMutex s then 1 else 0)"
proof -
  have v: "queue_inv n es s" "lock_inv s" "\<And>h. h \<in> set (m_handles s) \<Longrightarrow> handle_ok es s h"
    using reach_inv [OF assms] by (simp_all add: pf_inv_def)
  have k: "0 \<le> front_number s" "nat (front_number s) \<le> length es"
    using v(1) by (auto simp: queue_inv_def front_number_def)
  have count: "tot (\<lambda>h. if P h then 1 else 0) s = length (filter P (m_handles s))" for P
    by (simp add: tot_def sum_list_count)
  have "tot (has_event (front_number s)) s = length (filter (\<lambda>h. eventNumber (event h) = front_number s) (m_handles s))"
    using count [of "\<lambda>h. eventNumber (event h) = front_number s"] by (simp add: has_event_def [abs_def])
  moreover have "tot is_recording s = length (filter (\<lambda>h. \<exists>st. pos h = Recording st) (m_handles s))"
    using count [of "\<lambda>h. \<exists>st. pos h = Recording st"] by (simp add: is_recording_iff [abs_def])
  moreover have "eventNumber (event h) \<in> {front_number s - 1, front_number s} \<and> agrees es (event h)" if "h \<in> set (m_handles s)" for h
    using v(3) [OF that] by (auto simp: handle_ok_def)
  ultimately show ?thesis
    using v(1,2) k by (intro exI [of _ "nat (front_number s)"]) (auto simp: queue_inv_def pending_ok_def lock_inv_def)
qed

text \<open>
  C22 (a call always returns).  From any reachable portfolio the threads can only do boundedly many steps, in
  whatever order they run and whatever their solvers answer, and when none of them can go on, every event
  that was pushed counts as handled: the client that waits for its solve event or for the destructor goes on.
\<close>

theorem portfolio_call_returns:
  assumes "pf_reach n es s" "run_threads as s = Some s'"
  shows "length as \<le> remaining s
    \<and> ((\<forall>i st. handleRun i st s' = None) \<longrightarrow> (\<forall>k < m_eventCount s. event_handled k s' \<and> solve_return k s' \<noteq> None))"
proof -
  have b: "length as + remaining s' \<le> remaining s" "m_eventCount s' = m_eventCount s"
    using run_threads_bound [OF reach_inv [OF assms(1)] assms(2)] by simp_all
  then show ?thesis
    using all_waiting_all_handled [OF run_threads_reach [OF assms]] by (auto simp: event_handled_def solve_return_def)
qed


text \<open>
  C24 (a call may return the verdict of an earlier cube).  The client is released as soon as enough entries into
  \<^verbatim>\<open>popEvent\<close> were counted, not when every solver is through.  With two solvers that answer every cube
  correctly there is a run in which the first call loses its result and the second returns the verdict of
  the first: the satisfiable answer of the cube 1 is given for the unsatisfiable cube 2.
\<close>

theorem portfolio_wrong_verdict:
  "\<exists>w0 w1 a1 a2 a3 b1 b2 b3. portfolio_session (\<lambda>c. c = [1]) 2 w0 w1 [([1], a1, a2, a3), ([2], b1, b2, b3)] = Some [PARAC_ABORTED, PARAC_SAT]"
proof -
  have "portfolio_session (\<lambda>c. c = [1]) 2 [0, 1] [0, 1] [([1], [0, 0, 1, 1], [], [0, 1, 1, 1]), ([2], [], [0], [0, 0, 0, 0, 1, 1, 1, 1, 1])]
    = Some [PARAC_ABORTED, PARAC_SAT]"
    by code_simp
  then show ?thesis by blast
qed

section \<open>Witnesses\<close>

text \<open>Two solvers whose threads have started and wait for the first event.\<close>

definition portfolio_ready :: portfolio where
  "portfolio_ready = the (run_threads (map (\<lambda>i. (i, PARAC_OK)) [0, 1, 0, 1]) (PortfolioQBFHandle_init PARAC_OK 0 2))"

lemma portfolio_ready_waits: "all_wait portfolio_ready"
  by code_simp

lemma portfolio_ready_reach: "pf_reach 2 [] portfolio_ready"
proof -
  have "run_threads (map (\<lambda>i. (i, PARAC_OK)) [0, 1, 0, 1]) (PortfolioQBFHandle_init PARAC_OK 0 2) \<noteq> None" by code_simp
  then have "run_threads (map (\<lambda>i. (i, PARAC_OK)) [0, 1, 0, 1]) (PortfolioQBFHandle_init PARAC_OK 0 2) = Some portfolio_ready"
    unfolding portfolio_ready_def by simp
  then show ?thesis by (rule run_threads_reach [OF pf_reach.start, rotated]) simp
qed

definition portfolio_solving :: portfolio where
  "portfolio_solving = snd (solve_push (solve_reset (pf_assumeCube [1] portfolio_ready)))"

lemma portfolio_solving_reach: "pf_reach 2 [Event_of Assume [1], Event_of Solve []] portfolio_solving"
proof -
  have a: "all_started portfolio_ready" using portfolio_ready_waits by (auto simp: all_wait_def all_started_def)
  then have "pf_reach 2 ([] @ [Event_of Assume [1]]) (solve_reset (pf_assumeCube [1] portfolio_ready))"
    by (intro pf_reach.reset pf_reach.assume_cube portfolio_ready_reach) (simp_all add: open_events_def)
  moreover have "all_started (solve_reset (pf_assumeCube [1] portfolio_ready))"
    using a by (simp add: all_started_def solve_reset_def pf_assumeCube_def pushEvent_def)
  ultimately have "pf_reach 2 (([] @ [Event_of Assume [1]]) @ [Event_of Solve []]) portfolio_solving"
    unfolding portfolio_solving_def by (intro pf_reach.solve) (simp_all add: open_events_append open_events_def Event_of_def)
  then show ?thesis by simp
qed

lemma portfolio_events_in_order_example:
  "m_eventCount portfolio_solving = 2 \<and> (\<exists>k \<le> 2. m_events portfolio_solving = number_from k (drop k [Event_of Assume [1], Event_of Solve []]))"
proof -
  have "m_eventCount portfolio_solving = 2" by code_simp
  moreover obtain k where "k \<le> length [Event_of Assume [1], Event_of Solve []]"
    "m_events portfolio_solving = number_from k (drop k [Event_of Assume [1], Event_of Solve []])"
    using portfolio_events_in_order [OF portfolio_solving_reach] by blast
  ultimately show ?thesis by (auto intro!: exI [of _ k])
qed

definition portfolio_steps :: "nat list" where
  "portfolio_steps = [0, 0, 0, 1, 1, 1, 0, 0, 0, 1, 1]"

theorem portfolio_call_returns_witness:
  "\<exists>s'. run_threads (map (\<lambda>i. (i, PARAC_SAT)) portfolio_steps) portfolio_solving = Some s'
    \<and> length portfolio_steps \<le> remaining portfolio_solving \<and> event_handled 1 s'"
proof -
  let ?as = "map (\<lambda>i. (i, PARAC_SAT)) portfolio_steps"
  have "case run_threads ?as portfolio_solving of None \<Rightarrow> False | Some s' \<Rightarrow> all_wait s'" by code_simp
  then obtain s' where s': "run_threads ?as portfolio_solving = Some s'" "all_wait s'" by (auto split: option.splits)
  have "pf_inv 2 [Event_of Assume [1], Event_of Solve []] s'"
    using run_threads_bound [OF reach_inv [OF portfolio_solving_reach] s'(1)] by simp
  then have "\<forall>i st. handleRun i st s' = None" using all_wait_stuck s'(2) by blast
  moreover have "m_eventCount portfolio_solving = 2" by code_simp
  ultimately show ?thesis using portfolio_call_returns [OF portfolio_solving_reach s'(1)] s'(1) by auto
qed


end
