(* ===== verification/Service.thy ===== *)
theory Service
  imports TcpConnection
begin

unbundle bit_operations_syntax

text \<open>
  The communicator's service: how connections come about and how timeouts are kept.  From
  \<^verbatim>\<open>modules/communicator/\<close>: \<^verbatim>\<open>tcp_connection_initiator.cpp\<close> (connection strings, the coroutine that
  resolves a host and tries its endpoints, retries), \<^verbatim>\<open>service.cpp\<close> (attempts, stopping, the timer of the send
  queues), \<^verbatim>\<open>tcp_acceptor.cpp\<close> (the search for a port), \<^verbatim>\<open>udp_acceptor.cpp\<close> (announcements) and
  \<^verbatim>\<open>timeout_controller.cpp\<close>.  What the network answers is an argument of the handlers: an error or not, and the
  endpoints a name resolves to; the address parser of the library is a parameter.  An operation that reads a
  state that is gone, and a failing assertion or exception, is \<open>None\<close>.

  Shown here: the string under which a node is known leads back to its address and port; the set of connection
  attempts never holds a remote that no initiator will release; the number of retries is bounded; the port
  that is bound is the first free one; every timeout is called once or cancelled; and two flaws, a retry that
  forgets its attempt and a cancellation that comes after its timeout was erased.
\<close>

section \<open>Addresses\<close>

definition rfind :: "string \<Rightarrow> string \<Rightarrow> nat option" where
  "rfind sub s = (let found = filter (\<lambda>i. take (length sub) (drop i s) = sub) [0..<length s]
     in if found = [] then None else Some (last found))"

text \<open>\<^verbatim>\<open>std::atoi\<close>: blanks, a sign and the digits up to the first other character.\<close>

definition atoi :: "string \<Rightarrow> int" where
  "atoi s = (let s = dropWhile (\<lambda>c. c = CHR '' '' \<or> 9 \<le> (of_char c :: nat) \<and> of_char c \<le> (13 :: nat)) s in
     case s of
       [] \<Rightarrow> 0
     | c # cs \<Rightarrow> if c = CHR ''-'' then - digits_val 0 (takeWhile isdigit cs)
                else if c = CHR ''+'' then digits_val 0 (takeWhile isdigit cs)
                else digits_val 0 (takeWhile isdigit s))"

text \<open>The port of a connection string and the rest of it, which the source leaves in its argument.\<close>

definition ExtractPortFromConnectionString :: "string \<Rightarrow> u16 \<Rightarrow> (u16 \<times> string) option" where
  "ExtractPortFromConnectionString connectionString defaultPort = do {
     let (posOfColon, offset) = (case rfind '']:'' connectionString of
         Some i \<Rightarrow> (Some i, 2) | None \<Rightarrow> (rfind '':'' connectionString, 1));
     port \<leftarrow> (case posOfColon of
         None \<Rightarrow> Some (nat_to_str (unat defaultPort))
       | Some i \<Rightarrow> do { c_assert (i + offset < length connectionString); Some (drop (i + offset) connectionString) });
     let portNum = atoi port;
     if portNum < 1 \<or> portNum > 65535 then Some (defaultPort, connectionString)
     else
       let connectionString = (case posOfColon of None \<Rightarrow> connectionString | Some i \<Rightarrow> take (i + offset - 1) connectionString);
           connectionString = remove1 (CHR ''['') connectionString;
           connectionString = remove1 (CHR '']'') connectionString
       in Some (of_int portNum, connectionString) }"

section \<open>Connecting to a remote\<close>

record endpoint =
  ep_address :: string
  ep_port :: u16

datatype ini_conn = HostConnection string u16 | EndpointConnection endpoint

text \<open>Where the coroutine of an initiator waits; a connection attempt knows the endpoints left to try.\<close>

datatype ini_pos = IniStart | IniResolving | IniConnecting "endpoint list" | IniRetry

text \<open>
  \<^verbatim>\<open>TCPConnectionInitiator::State\<close>.  The callback of the service erases the remote from the set of attempts, so it is
  that remote; \<open>None\<close> is the null callback of a reconnect.
\<close>

record initiator =
  ini_conn :: ini_conn
  ini_try :: int
  ini_retry :: bool
  ini_connectionCB :: "string option"
  ini_coro :: ini_pos

datatype service_event =
    Resolve string u16
  | ConnectTo endpoint
  | NewConnection int
  | AttemptCB string parac_status
  | RetryTimer
  | ServiceStopped

record service =
  connectionInitiationAttempts :: "string list"
  initiators :: "(nat \<times> initiator) list"
  next_initiator :: nat
  svc_events :: "service_event list"
  stopRequested :: bool
  outgoingMessageCounter :: int
  context_stopped :: bool
  svc_connectionRetries :: int
  svc_defaultTCPTargetPort :: u16
  svc_acceptor :: endpoint
  svc_knownRemotes :: "string list"

definition svc_emit :: "service_event \<Rightarrow> service \<Rightarrow> service" where
  "svc_emit e s = s\<lparr>svc_events := svc_events s @ [e]\<rparr>"

definition set_initiator :: "nat \<Rightarrow> initiator \<Rightarrow> service \<Rightarrow> service" where
  "set_initiator i x s = s\<lparr>initiators := map (\<lambda>(j, y). if j = i then (j, x) else (j, y)) (initiators s)\<rparr>"

definition call_connectionCB :: "string option \<Rightarrow> parac_status \<Rightarrow> service \<Rightarrow> service" where
  "call_connectionCB cb status s = (case cb of None \<Rightarrow> s
     | Some remote \<Rightarrow> svc_emit (AttemptCB remote status)
         (s\<lparr>connectionInitiationAttempts := removeAll remote (connectionInitiationAttempts s)\<rparr>))"

definition isEndpointSameAsLocalTCPAcceptor :: "endpoint \<Rightarrow> service \<Rightarrow> bool" where
  "isEndpointSameAsLocalTCPAcceptor e s \<longleftrightarrow> ep_port e = ep_port (svc_acceptor s) \<and> ep_address e = ep_address (svc_acceptor s)"

text \<open>\<^verbatim>\<open>~State\<close>\<close>

definition destroy_initiator :: "nat \<Rightarrow> initiator \<Rightarrow> service \<Rightarrow> service" where
  "destroy_initiator i x s = call_connectionCB (ini_connectionCB x) PARAC_NO_CONNECTION_ESTABLISHED_ERROR
     (s\<lparr>initiators := filter (\<lambda>(j, y). j \<noteq> i) (initiators s)\<rparr>)"

text \<open>
  \<^verbatim>\<open>~TCPConnectionInitiator\<close> of the last copy, after a handler that started no other operation: a retry is scheduled
  or the state goes away.
\<close>

definition release_initiator :: "nat \<Rightarrow> initiator \<Rightarrow> service \<Rightarrow> service" where
  "release_initiator i x s =
     (if ini_retry x \<and> ini_try x < svc_connectionRetries s
      then svc_emit RetryTimer (set_initiator i (x\<lparr>ini_retry := False, ini_coro := IniRetry\<rparr>) s)
      else destroy_initiator i x s)"

definition connected :: "nat \<Rightarrow> initiator \<Rightarrow> service \<Rightarrow> service" where
  "connected i x s =
     (let s = svc_emit (NewConnection (ini_try x)) s;
          s = call_connectionCB (ini_connectionCB x) PARAC_OK s
      in release_initiator i (x\<lparr>ini_connectionCB := None\<rparr>) s)"

definition next_endpoint :: "nat \<Rightarrow> initiator \<Rightarrow> endpoint list \<Rightarrow> service \<Rightarrow> service" where
  "next_endpoint i x eps s = (case eps of
       [] \<Rightarrow> release_initiator i (x\<lparr>ini_retry := True\<rparr>) s
     | e # eps \<Rightarrow>
         if isEndpointSameAsLocalTCPAcceptor e s then release_initiator i (x\<lparr>ini_retry := False\<rparr>) s
         else set_initiator i (x\<lparr>ini_coro := IniConnecting eps\<rparr>) (svc_emit (ConnectTo e) s))"

definition try_connecting_to_host :: "nat \<Rightarrow> initiator \<Rightarrow> bool \<Rightarrow> endpoint list \<Rightarrow> service \<Rightarrow> service" where
  "try_connecting_to_host i x ec resolved s = (case ini_coro x of
       IniStart \<Rightarrow> (case ini_conn x of
           HostConnection host port \<Rightarrow> set_initiator i (x\<lparr>ini_coro := IniResolving\<rparr>) (svc_emit (Resolve host port) s)
         | EndpointConnection _ \<Rightarrow> s)
     | IniResolving \<Rightarrow> if ec then release_initiator i x s else next_endpoint i x resolved s
     | IniConnecting eps \<Rightarrow> if ec then next_endpoint i x eps s else connected i x s
     | IniRetry \<Rightarrow> s)"

definition try_connecting_to_endpoint :: "nat \<Rightarrow> initiator \<Rightarrow> bool \<Rightarrow> service \<Rightarrow> service" where
  "try_connecting_to_endpoint i x ec s = (case ini_coro x of
       IniStart \<Rightarrow> (case ini_conn x of
           EndpointConnection e \<Rightarrow>
             if isEndpointSameAsLocalTCPAcceptor e s then release_initiator i (x\<lparr>ini_retry := False\<rparr>) s
             else set_initiator i (x\<lparr>ini_coro := IniConnecting []\<rparr>) (svc_emit (ConnectTo e) s)
         | HostConnection _ _ \<Rightarrow> s)
     | IniConnecting _ \<Rightarrow> if ec then release_initiator i (x\<lparr>ini_retry := True\<rparr>) s else connected i x s
     | _ \<Rightarrow> s)"

text \<open>\<^verbatim>\<open>runFunc\<close> and the completions of resolving and connecting: the handler that belongs to the kind of target.\<close>

definition initiator_step :: "nat \<Rightarrow> bool \<Rightarrow> endpoint list \<Rightarrow> service \<Rightarrow> service option" where
  "initiator_step i ec resolved s = (case map_of (initiators s) i of
       None \<Rightarrow> None
     | Some x \<Rightarrow> if ini_coro x = IniRetry then None
         else case ini_conn x of
           HostConnection _ _ \<Rightarrow> Some (try_connecting_to_host i x ec resolved s)
         | EndpointConnection _ \<Rightarrow> Some (try_connecting_to_endpoint i x ec s))"

definition start_initiator :: "ini_conn \<Rightarrow> string option \<Rightarrow> int \<Rightarrow> service \<Rightarrow> service option" where
  "start_initiator c cb try s =
     (let i = next_initiator s; x = \<lparr>ini_conn = c, ini_try = try, ini_retry = False, ini_connectionCB = cb, ini_coro = IniStart\<rparr>
      in initiator_step i False [] (s\<lparr>initiators := (i, x) # initiators s, next_initiator := i + 1\<rparr>))"

text \<open>
  The constructor from a host name: \<open>make_address_v6\<close> is the parser of IPv6 addresses, so that an address needs no name
  resolution.
\<close>

definition TCPConnectionInitiator_host :: "(string \<Rightarrow> string option) \<Rightarrow> string \<Rightarrow> string option \<Rightarrow> int \<Rightarrow> service \<Rightarrow> service option" where
  "TCPConnectionInitiator_host make_address_v6 host cb try s = do {
     (port, connectionString) \<leftarrow> ExtractPortFromConnectionString host (svc_defaultTCPTargetPort s);
     (case make_address_v6 connectionString of
        Some a \<Rightarrow> start_initiator (EndpointConnection \<lparr>ep_address = a, ep_port = port\<rparr>) cb try s
      | None \<Rightarrow> start_initiator (HostConnection connectionString port) cb try s) }"

definition TCPConnectionInitiator_endpoint :: "endpoint \<Rightarrow> string option \<Rightarrow> int \<Rightarrow> service \<Rightarrow> service option" where
  "TCPConnectionInitiator_endpoint e cb try s = start_initiator (EndpointConnection e) cb try s"

text \<open>The retry timer of an initiator expires: a new initiator with the same callback, then the old state goes away.\<close>

definition retryConnection :: "(string \<Rightarrow> string option) \<Rightarrow> nat \<Rightarrow> service \<Rightarrow> service option" where
  "retryConnection make_address_v6 i s = (case map_of (initiators s) i of
       None \<Rightarrow> None
     | Some x \<Rightarrow> if ini_coro x \<noteq> IniRetry then None
         else do {
           let x = x\<lparr>ini_try := ini_try x + 1\<rparr>;
           s \<leftarrow> (case ini_conn x of
               HostConnection host port \<Rightarrow>
                 TCPConnectionInitiator_host make_address_v6 (host @ '':'' @ nat_to_str (unat port)) (ini_connectionCB x) (ini_try x) s
             | EndpointConnection e \<Rightarrow> TCPConnectionInitiator_endpoint e (ini_connectionCB x) (ini_try x) s);
           Some (destroy_initiator i x s) })"

section \<open>The service\<close>

definition connectToRemote :: "(string \<Rightarrow> string option) \<Rightarrow> string \<Rightarrow> service \<Rightarrow> service option" where
  "connectToRemote make_address_v6 remote s =
     (if remote \<in> set (connectionInitiationAttempts s) then Some s
      else TCPConnectionInitiator_host make_address_v6 remote (Some remote) 0
        (s\<lparr>connectionInitiationAttempts := remote # connectionInitiationAttempts s\<rparr>))"

fun connectToRemotes :: "(string \<Rightarrow> string option) \<Rightarrow> string list \<Rightarrow> service \<Rightarrow> service option" where
  "connectToRemotes mk [] s = Some s"
| "connectToRemotes mk (r # rs) s = Option.bind (connectToRemote mk r s) (connectToRemotes mk rs)"

definition connectToKnownRemotes :: "(string \<Rightarrow> string option) \<Rightarrow> service \<Rightarrow> service option" where
  "connectToKnownRemotes mk s = connectToRemotes mk (svc_knownRemotes s) s"

definition service_stop :: "service \<Rightarrow> service" where
  "service_stop s = (if context_stopped s then s else svc_emit ServiceStopped (s\<lparr>context_stopped := True\<rparr>))"

definition requestStop :: "service \<Rightarrow> service" where
  "requestStop s = (let s = s\<lparr>stopRequested := True\<rparr> in if outgoingMessageCounter s = 0 then service_stop s else s)"

definition svc_addOutgoing :: "int \<Rightarrow> service \<Rightarrow> service" where
  "svc_addOutgoing n s = s\<lparr>outgoingMessageCounter := outgoingMessageCounter s + n\<rparr>"

definition svc_removeOutgoing :: "int \<Rightarrow> service \<Rightarrow> service" where
  "svc_removeOutgoing n s =
     (let c = outgoingMessageCounter s; s = s\<lparr>outgoingMessageCounter := c - n\<rparr>
      in if stopRequested s \<and> c - n = 0 then service_stop s else s)"

text \<open>\<^verbatim>\<open>handleMessageSendTimerTick\<close>: every queue ticks; \<open>alive\<close> answers for the connection of each.\<close>

fun handleMessageSendTimerTick :: "bool \<Rightarrow> int \<Rightarrow> send_queue list \<Rightarrow> send_queue list option" where
  "handleMessageSendTimerTick alive now [] = Some []"
| "handleMessageSendTimerTick alive now (q # qs) = do {
     q \<leftarrow> mq_tick alive now q;
     qs \<leftarrow> handleMessageSendTimerTick alive now qs;
     Some (q # qs) }"

section \<open>Accepting\<close>

text \<open>\<^verbatim>\<open>TCPAcceptor::start\<close>: the search for a port that can be bound.\<close>

datatype bind_result = Bound | AddressInUse | BindError

function find_port :: "(u16 \<Rightarrow> bind_result) \<Rightarrow> u16 \<Rightarrow> parac_status \<times> u16" where
  "find_port try_bind port =
     (if port < 65535
      then (case try_bind port of
          Bound \<Rightarrow> (PARAC_OK, port)
        | AddressInUse \<Rightarrow> find_port try_bind (port + 1)
        | BindError \<Rightarrow> (PARAC_GENERIC_ERROR, port))
      else (PARAC_GENERIC_ERROR, port))"
  by auto
termination
proof (relation "measure (\<lambda>(try_bind, port). 65535 - unat port)", goal_cases)
  case (2 try_bind port)
  then have "unat (port + 1) = unat port + 1" by (simp add: unat_word_ariths word_less_nat_alt)
  with 2 show ?case by (simp add: word_less_nat_alt)
qed simp

declare find_port.simps [simp del]

text \<open>\<^verbatim>\<open>ParseIPAddress\<close>; \<open>from_string\<close> is the address parser of the library.\<close>

definition ParseIPAddress :: "(string \<Rightarrow> string option) \<Rightarrow> string \<Rightarrow> string option" where
  "ParseIPAddress from_string addressStr = (if addressStr = [] then Some ''::'' else from_string addressStr)"

text \<open>The result \<open>None\<close> is the exception of a failing \<^verbatim>\<open>bind\<close> when no other port may be tried.\<close>

definition TCPAcceptor_start ::
  "(string \<Rightarrow> string option) \<Rightarrow> bool \<Rightarrow> (u16 \<Rightarrow> bind_result) \<Rightarrow> string \<Rightarrow> u16 \<Rightarrow> (parac_status \<times> endpoint option) option" where
  "TCPAcceptor_start from_string automatic try_bind listenAddress listenPort =
     (case ParseIPAddress from_string listenAddress of
        None \<Rightarrow> Some (PARAC_INVALID_IP, None)
      | Some a \<Rightarrow>
          if automatic
          then (let (st, port) = find_port try_bind listenPort
                in Some (st, if st = PARAC_OK then Some \<lparr>ep_address = a, ep_port = port\<rparr> else None))
          else if try_bind listenPort = Bound then Some (PARAC_OK, Some \<lparr>ep_address = a, ep_port = listenPort\<rparr>)
          else None)"

definition acceptor_connectionString :: "endpoint \<Rightarrow> string" where
  "acceptor_connectionString e = ep_address e @ '':'' @ nat_to_str (unat (ep_port e))"

text \<open>\<^verbatim>\<open>UDPAcceptor::readHandler\<close>: an announcement of an unknown node starts a connection to the endpoint the
  datagram came from, with the announced port; \<open>remoteAddress\<close> is its address as an endpoint is printed, in brackets for IPv6.\<close>

record UDPAnnouncement =
  ann_id :: parac_id
  ann_tcpConnectionString :: string
  ann_tcpListenPort :: u16

definition UDPAcceptor_readHandler ::
  "(string \<Rightarrow> string option) \<Rightarrow> (parac_id \<Rightarrow> bool) \<Rightarrow> bool \<Rightarrow> string \<Rightarrow> UDPAnnouncement option \<Rightarrow> service \<Rightarrow> service option" where
  "UDPAcceptor_readHandler mk has_node ec remoteAddress announcement s =
     (if ec then Some s
      else case announcement of
        None \<Rightarrow> Some s
      | Some a \<Rightarrow> if has_node (ann_id a) then Some s
                  else connectToRemote mk (remoteAddress @ '':'' @ nat_to_str (unat (ann_tcpListenPort a))) s)"

section \<open>Connection strings\<close>

lemma last_filter_upt:
  assumes "P k" "k < n" "\<And>i. k < i \<Longrightarrow> i < n \<Longrightarrow> \<not> P i"
  shows "\<exists>js. filter P [0..<n] = js @ [k]"
proof -
  have "[0..<n] = [0..<k] @ [k] @ [Suc k..<n]"
    using assms(2) upt_add_eq_append [of 0 k "n - k"] by (simp add: upt_conv_Cons)
  moreover have "filter P [Suc k..<n] = []" using assms(3) by (simp add: filter_empty_conv)
  ultimately show ?thesis using assms(1) by simp
qed

lemma rfind_last:
  assumes "c \<notin> set (cs @ ys)"
  shows "rfind (c # cs) (xs @ (c # cs) @ ys) = Some (length xs)"
proof -
  let ?s = "xs @ (c # cs) @ ys" and ?P = "\<lambda>i. take (length (c # cs)) (drop i (xs @ (c # cs) @ ys)) = c # cs"
  have "\<not> ?P i" if "length xs < i" "i < length ?s" for i
  proof
    assume "?P i"
    then have "hd (take (length (c # cs)) (drop i ?s)) = c" by (simp only: list.sel)
    then have "?s ! i = c" using that(2) by (simp only: hd_take length_Cons zero_less_Suc hd_drop_conv_nth)
    moreover have "?s ! i = (cs @ ys) ! (i - Suc (length xs))" using that(1) by (simp add: nth_append)
    moreover have "i - Suc (length xs) < length (cs @ ys)" using that by simp
    ultimately show False using assms by (metis nth_mem)
  qed
  then obtain js where js: "filter ?P [0..<length ?s] = js @ [length xs]"
    using last_filter_upt [of ?P "length xs" "length ?s"] by auto
  show ?thesis unfolding rfind_def Let_def js by simp
qed

lemma rfind_none: "c \<notin> set s \<Longrightarrow> rfind (c # cs) s = None"
proof -
  assume c: "c \<notin> set s"
  have "take (length (c # cs)) (drop i s) \<noteq> c # cs" if "i < length s" for i
    using that c by (cases "drop i s") (auto dest: in_set_dropD simp flip: list.set_intros(1), metis in_set_dropD list.set_intros(1))
  then have "filter (\<lambda>i. take (length (c # cs)) (drop i s) = c # cs) [0..<length s] = []"
    by (simp only: filter_empty_conv) simp
  then show ?thesis by (simp add: rfind_def)
qed

lemma atoi_nat_to_str: "atoi (nat_to_str k) = int k"
proof -
  obtain d ds where d: "nat_to_str k = d # ds" "isdigit d" "\<forall>c \<in> set ds. isdigit c" by (rule nat_to_str_Cons)
  have "d \<noteq> CHR '' ''" "\<not> of_char d \<le> (13 :: nat)" "d \<noteq> CHR ''-''" "d \<noteq> CHR ''+''"
    using d(2) by (auto simp: isdigit_def)
  moreover have "takeWhile isdigit (d # ds) = d # ds" using d by (simp add: takeWhile_eq_all_conv)
  ultimately show ?thesis using digits_val_nat [of k] by (simp add: atoi_def d(1) Let_def)
qed

lemma digit_chars: "c \<in> set (nat_to_str k) \<Longrightarrow> c \<noteq> CHR '':'' \<and> c \<noteq> CHR '']'' \<and> c \<noteq> CHR ''[''"
  using nat_to_str_digits [of c k] by auto

lemma nat_to_str_nonempty [simp]: "nat_to_str k \<noteq> []"
  by (rule nat_to_str_Cons [of k]) simp

lemma u16_port: "p \<noteq> 0 \<Longrightarrow> 1 \<le> uint (p :: u16) \<and> uint p \<le> 65535"
proof -
  assume "p \<noteq> 0"
  moreover have "unat p < 65536" by (rule order_less_le_trans [OF unsigned_less]) simp
  moreover have "uint p = int (unat p)" by simp
  moreover have "0 < unat p" using calculation(1) by (simp add: unat_gt_0)
  ultimately show ?thesis by linarith
qed

lemma extract_port_plain:
  assumes "CHR '':'' \<notin> set a" "CHR ''['' \<notin> set a" "CHR '']'' \<notin> set a" "port \<noteq> 0"
  shows "ExtractPortFromConnectionString (a @ '':'' @ nat_to_str (unat port)) d = Some (port, a)"
proof -
  let ?s = "a @ '':'' @ nat_to_str (unat port)"
  have p: "\<not> uint port < 1" "\<not> 65535 < uint port" using u16_port [OF assms(4)] by simp_all
  have "rfind '']:'' ?s = None" using assms(3) digit_chars by (intro rfind_none) auto
  moreover have "rfind '':'' ?s = Some (length a)"
    using rfind_last [of "CHR '':''" "[]" "nat_to_str (unat port)" a] digit_chars by auto
  ultimately show ?thesis
    using p assms(2,3) by (simp add: ExtractPortFromConnectionString_def atoi_nat_to_str remove1_idem Let_def)
qed

lemma extract_port_v6:
  assumes "CHR ''['' \<notin> set a" "CHR '']'' \<notin> set a" "port \<noteq> 0"
  shows "ExtractPortFromConnectionString (''['' @ a @ '']:'' @ nat_to_str (unat port)) d = Some (port, a)"
proof -
  let ?s = "''['' @ a @ '']:'' @ nat_to_str (unat port)"
  have p: "\<not> uint port < 1" "\<not> 65535 < uint port" using u16_port [OF assms(3)] by simp_all
  have "rfind '']:'' ?s = Some (Suc (length a))"
    using rfind_last [of "CHR '']''" "'':''" "nat_to_str (unat port)" "''['' @ a"] digit_chars by auto
  then show ?thesis
    using p assms(1,2) by (simp add: ExtractPortFromConnectionString_def atoi_nat_to_str remove1_idem remove1_append Let_def)
qed

section \<open>Attempts and retries\<close>

inductive svc_reach :: "(string \<Rightarrow> string option) \<Rightarrow> service \<Rightarrow> bool" for mk where
  start: "connectionInitiationAttempts s = [] \<Longrightarrow> initiators s = [] \<Longrightarrow> 0 \<le> svc_connectionRetries s \<Longrightarrow> svc_reach mk s"
| connect: "svc_reach mk s \<Longrightarrow> connectToRemote mk r s = Some s' \<Longrightarrow> svc_reach mk s'"
| reconnect: "svc_reach mk s \<Longrightarrow> try \<le> svc_connectionRetries s \<Longrightarrow> start_initiator c None try s = Some s' \<Longrightarrow> svc_reach mk s'"
| completed: "svc_reach mk s \<Longrightarrow> initiator_step i ec eps s = Some s' \<Longrightarrow> svc_reach mk s'"
| retried: "svc_reach mk s \<Longrightarrow> retryConnection mk i s = Some s' \<Longrightarrow> svc_reach mk s'"
| stop: "svc_reach mk s \<Longrightarrow> svc_reach mk (requestStop s)"

text \<open>The set of attempts belongs to the initiators: each entry has an initiator that will erase it.\<close>

definition holds_attempt :: "string \<Rightarrow> service \<Rightarrow> bool" where
  "holds_attempt r s \<longleftrightarrow> (\<exists>(i, x) \<in> set (initiators s). ini_connectionCB x = Some r)"

definition tries_ok :: "int \<Rightarrow> nat \<times> initiator \<Rightarrow> bool" where
  "tries_ok n p \<longleftrightarrow> ini_try (snd p) \<le> n \<and> (ini_coro (snd p) = IniRetry \<longrightarrow> ini_try (snd p) < n)"

definition svc_inv :: "service \<Rightarrow> bool" where
  "svc_inv s \<longleftrightarrow> distinct (map fst (initiators s)) \<and> (\<forall>p \<in> set (initiators s). fst p < next_initiator s \<and> tries_ok (svc_connectionRetries s) p)
     \<and> (\<forall>r \<in> set (connectionInitiationAttempts s). holds_attempt r s) \<and> 0 \<le> svc_connectionRetries s"

text \<open>A state of the service in which initiator \<open>i\<close>, now \<open>x\<close>, runs; its entry may be stale.\<close>

definition svc_running :: "nat \<Rightarrow> initiator \<Rightarrow> service \<Rightarrow> bool" where
  "svc_running i x s \<longleftrightarrow> (\<exists>y. (i, y) \<in> set (initiators s)) \<and> distinct (map fst (initiators s))
     \<and> (\<forall>p \<in> set (initiators s). fst p < next_initiator s \<and> (fst p \<noteq> i \<longrightarrow> tries_ok (svc_connectionRetries s) p))
     \<and> (\<forall>r \<in> set (connectionInitiationAttempts s). ini_connectionCB x = Some r \<or>
          (\<exists>(j, y) \<in> set (initiators s). j \<noteq> i \<and> ini_connectionCB y = Some r))
     \<and> ini_try x \<le> svc_connectionRetries s \<and> 0 \<le> svc_connectionRetries s"

lemma svc_emit_simps [simp]:
  "initiators (svc_emit e s) = initiators s" "connectionInitiationAttempts (svc_emit e s) = connectionInitiationAttempts s"
  "next_initiator (svc_emit e s) = next_initiator s" "svc_connectionRetries (svc_emit e s) = svc_connectionRetries s"
  "svc_acceptor (svc_emit e s) = svc_acceptor s" "svc_defaultTCPTargetPort (svc_emit e s) = svc_defaultTCPTargetPort s"
  by (simp_all add: svc_emit_def)

lemma call_cb_simps [simp]:
  "initiators (call_connectionCB cb st s) = initiators s" "next_initiator (call_connectionCB cb st s) = next_initiator s"
  "svc_connectionRetries (call_connectionCB cb st s) = svc_connectionRetries s" "svc_acceptor (call_connectionCB cb st s) = svc_acceptor s"
  by (simp_all add: call_connectionCB_def split: option.split)

lemma call_cb_attempts:
  "set (connectionInitiationAttempts (call_connectionCB cb st s)) = set (connectionInitiationAttempts s) - set_option cb"
  by (auto simp: call_connectionCB_def split: option.split)

lemma set_initiator_simps [simp]:
  "connectionInitiationAttempts (set_initiator i x s) = connectionInitiationAttempts s" "next_initiator (set_initiator i x s) = next_initiator s"
  "svc_connectionRetries (set_initiator i x s) = svc_connectionRetries s" "map fst (initiators (set_initiator i x s)) = map fst (initiators s)"
  by (simp_all add: set_initiator_def) (induction "initiators s"; force)

lemma set_initiator_members:
  "(j, z) \<in> set (initiators (set_initiator i x s)) \<longleftrightarrow> (if j = i then z = x \<and> (\<exists>y. (i, y) \<in> set (initiators s)) else (j, z) \<in> set (initiators s))"
proof -
  have "(j, z) \<in> set (map (\<lambda>(k, y). if k = i then (k, x) else (k, y)) ps) \<longleftrightarrow> (if j = i then z = x \<and> (\<exists>y. (i, y) \<in> set ps) else (j, z) \<in> set ps)" for ps
  proof (induction ps)
    case (Cons p ps)
    then show ?case by (cases p) auto
  qed simp
  then show ?thesis by (simp add: set_initiator_def)
qed

lemma set_running:
  assumes "svc_running i x s" "ini_try x' = ini_try x" "ini_connectionCB x' = ini_connectionCB x"
    "ini_coro x' = IniRetry \<longrightarrow> ini_try x < svc_connectionRetries s"
  shows "svc_inv (set_initiator i x' s)"
proof -
  have "holds_attempt r (set_initiator i x' s)" if "r \<in> set (connectionInitiationAttempts s)" for r
  proof -
    from assms(1) that consider "ini_connectionCB x = Some r" | j y where "(j, y) \<in> set (initiators s)" "j \<noteq> i" "ini_connectionCB y = Some r"
      by (auto simp: svc_running_def)
    then show ?thesis
    proof cases
      case 1
      have "(i, x') \<in> set (initiators (set_initiator i x' s))" using assms(1) by (simp add: set_initiator_members svc_running_def)
      with 1 assms(3) show ?thesis by (auto simp: holds_attempt_def)
    next
      case (2 j y)
      then have "(j, y) \<in> set (initiators (set_initiator i x' s))" by (simp add: set_initiator_members)
      with 2(3) show ?thesis by (auto simp: holds_attempt_def)
    qed
  qed
  moreover have "fst p < next_initiator s \<and> tries_ok (svc_connectionRetries s) p" if "p \<in> set (initiators (set_initiator i x' s))" for p
  proof -
    obtain j z where p: "p = (j, z)" by fastforce
    show ?thesis
    proof (cases "j = i")
      case True
      with that p have "z = x'" "\<exists>y. (i, y) \<in> set (initiators s)" by (simp_all add: set_initiator_members)
      with assms True p show ?thesis by (auto simp: svc_running_def tries_ok_def)
    next
      case False
      with that p have "(j, z) \<in> set (initiators s)" by (simp add: set_initiator_members)
      with assms(1) False p show ?thesis by (auto simp: svc_running_def)
    qed
  qed
  ultimately show ?thesis using assms(1) by (simp add: svc_inv_def svc_running_def)
qed

lemma destroy_simps [simp]:
  "initiators (destroy_initiator i x s) = filter (\<lambda>(j, y). j \<noteq> i) (initiators s)"
  "next_initiator (destroy_initiator i x s) = next_initiator s" "svc_connectionRetries (destroy_initiator i x s) = svc_connectionRetries s"
  by (simp_all add: destroy_initiator_def)

lemma destroy_running:
  assumes "svc_running i x s"
  shows "svc_inv (destroy_initiator i x s)"
proof -
  let ?s = "destroy_initiator i x s"
  have "holds_attempt r ?s" if "r \<in> set (connectionInitiationAttempts ?s)" for r
    using assms that unfolding holds_attempt_def svc_running_def by (fastforce simp: destroy_initiator_def call_cb_attempts)
  moreover have "distinct (map fst (initiators ?s))" using assms by (simp add: svc_running_def distinct_map_filter)
  moreover have "fst p < next_initiator ?s \<and> tries_ok (svc_connectionRetries ?s) p" if "p \<in> set (initiators ?s)" for p
    using assms that by (auto simp: svc_running_def)
  ultimately show ?thesis using assms unfolding svc_inv_def svc_running_def by simp
qed

lemma release_running:
  "svc_running i x s \<Longrightarrow> svc_inv (release_initiator i x s)"
  unfolding release_initiator_def
  using destroy_running [of i x s] set_running [of i x s "x\<lparr>ini_retry := False, ini_coro := IniRetry\<rparr>"]
  by (auto simp: svc_inv_def holds_attempt_def)

lemma svc_running_upd: "svc_running i x s \<Longrightarrow> ini_try x' = ini_try x \<Longrightarrow> ini_connectionCB x' = ini_connectionCB x \<Longrightarrow> svc_running i x' s"
  by (simp add: svc_running_def)

lemma svc_running_emit [simp]: "svc_running i x (svc_emit e s) = svc_running i x s"
  by (simp add: svc_running_def)

lemma connected_running: "svc_running i x s \<Longrightarrow> svc_inv (connected i x s)"
  unfolding connected_def Let_def
  by (rule release_running) (auto simp: svc_running_def call_cb_attempts)

lemma next_endpoint_running: "svc_running i x s \<Longrightarrow> svc_inv (next_endpoint i x eps s)"
  unfolding next_endpoint_def
  by (auto split: list.split intro!: release_running set_running [of i x] intro: svc_running_upd [of i x])

lemma running_inv:
  assumes "svc_running i x s" "map_of (initiators s) i = Some x" "ini_coro x \<noteq> IniRetry"
  shows "svc_inv s"
proof -
  have m: "(i, x) \<in> set (initiators s)" using assms(2) by (rule map_of_SomeD)
  have u: "snd p = x" if "p \<in> set (initiators s)" "fst p = i" for p
    using that assms(1,2) map_of_is_SomeI [of "initiators s" i "snd p"] by (cases p) (auto simp: svc_running_def)
  have "tries_ok (svc_connectionRetries s) p" if "p \<in> set (initiators s)" for p
    using assms(1,3) that u [OF that] by (cases "fst p = i") (simp_all add: svc_running_def tries_ok_def)
  moreover have "holds_attempt r s" if "r \<in> set (connectionInitiationAttempts s)" for r
    using assms(1) that m unfolding svc_running_def holds_attempt_def by fastforce
  ultimately show ?thesis using assms(1) by (simp add: svc_inv_def svc_running_def)
qed

lemma step_inv:
  assumes "initiator_step i ec eps s = Some s'" "svc_running i x s" "map_of (initiators s) i = Some x"
  shows "svc_inv s'"
  using assms
  by (auto simp: initiator_step_def try_connecting_to_host_def try_connecting_to_endpoint_def
      split: if_splits ini_conn.splits ini_pos.splits intro: running_inv
      intro!: release_running set_running [of i x] connected_running next_endpoint_running intro: svc_running_upd [of i x])

lemma inv_running:
  assumes "svc_inv s" "map_of (initiators s) i = Some x"
  shows "svc_running i x s"
proof -
  have m: "(i, x) \<in> set (initiators s)" using assms(2) by (rule map_of_SomeD)
  have u: "y = x" if "(i, y) \<in> set (initiators s)" for y
    using that assms by (simp add: svc_inv_def)
  have "ini_connectionCB x = Some r \<or> (\<exists>(j, y) \<in> set (initiators s). j \<noteq> i \<and> ini_connectionCB y = Some r)"
    if "holds_attempt r s" for r
    using that u by (auto simp: holds_attempt_def) (metis (mono_tags, lifting) case_prodI)
  with assms m show ?thesis by (force simp: svc_running_def svc_inv_def tries_ok_def)
qed

lemma svc_running_new:
  assumes "\<forall>p \<in> set (initiators s). fst p < next_initiator s \<and> tries_ok (svc_connectionRetries s) p" "distinct (map fst (initiators s))"
    and "\<forall>r \<in> set (connectionInitiationAttempts s). holds_attempt r s \<or> ini_connectionCB x = Some r"
    and "ini_try x \<le> svc_connectionRetries s" "0 \<le> svc_connectionRetries s"
  shows "svc_running (next_initiator s) x (s\<lparr>initiators := (next_initiator s, x) # initiators s, next_initiator := Suc (next_initiator s)\<rparr>)"
proof -
  have "fst p \<noteq> next_initiator s" if "p \<in> set (initiators s)" for p using assms(1) that by auto
  then show ?thesis using assms unfolding svc_running_def holds_attempt_def by (fastforce simp: less_Suc_eq)
qed

lemma start_inv:
  assumes "start_initiator c cb try s = Some s'"
    and "\<forall>p \<in> set (initiators s). fst p < next_initiator s \<and> tries_ok (svc_connectionRetries s) p" "distinct (map fst (initiators s))"
    and "\<forall>r \<in> set (connectionInitiationAttempts s). holds_attempt r s \<or> cb = Some r"
    and "try \<le> svc_connectionRetries s" "0 \<le> svc_connectionRetries s"
  shows "svc_inv s'"
  using assms(1) unfolding start_initiator_def Let_def
  by (rule step_inv) (use assms(2-) svc_running_new [of s] in auto)

lemma host_inv:
  assumes "TCPConnectionInitiator_host mk host cb try s = Some s'"
    and "\<forall>p \<in> set (initiators s). fst p < next_initiator s \<and> tries_ok (svc_connectionRetries s) p" "distinct (map fst (initiators s))"
    and "\<forall>r \<in> set (connectionInitiationAttempts s). holds_attempt r s \<or> cb = Some r"
    and "try \<le> svc_connectionRetries s" "0 \<le> svc_connectionRetries s"
  shows "svc_inv s'"
  using assms(1) start_inv [OF _ assms(2-)] by (auto simp: TCPConnectionInitiator_host_def split: bind_splits option.splits)

text \<open>What is there when a retry starts stays until the old initiator goes away.\<close>

lemma step_keeps_others:
  assumes "initiator_step i ec eps s = Some s'" "j \<noteq> i"
  shows "(j, y) \<in> set (initiators s') \<longleftrightarrow> (j, y) \<in> set (initiators s)"
  using assms
  by (auto simp: initiator_step_def try_connecting_to_host_def try_connecting_to_endpoint_def next_endpoint_def connected_def
      release_initiator_def Let_def set_initiator_members split: option.splits if_splits ini_conn.splits ini_pos.splits list.splits)

lemma step_retries: "initiator_step i ec eps s = Some s' \<Longrightarrow> svc_connectionRetries s' = svc_connectionRetries s"
  by (auto simp: initiator_step_def try_connecting_to_host_def try_connecting_to_endpoint_def next_endpoint_def connected_def
      release_initiator_def Let_def split: option.splits if_splits ini_conn.splits ini_pos.splits list.splits)

lemma start_keeps:
  assumes "start_initiator c cb try s = Some s'" "\<forall>p \<in> set (initiators s). fst p < next_initiator s"
  shows "svc_connectionRetries s' = svc_connectionRetries s" "(j, y) \<in> set (initiators s) \<Longrightarrow> (j, y) \<in> set (initiators s')"
proof -
  note st = assms(1) [unfolded start_initiator_def Let_def]
  show "svc_connectionRetries s' = svc_connectionRetries s" using step_retries [OF st] by simp
  assume j: "(j, y) \<in> set (initiators s)"
  with assms(2) have "j \<noteq> next_initiator s" by auto
  with step_keeps_others [OF st this, of y] j show "(j, y) \<in> set (initiators s')" by simp
qed

lemma host_keeps:
  assumes "TCPConnectionInitiator_host mk host cb try s = Some s'" "\<forall>p \<in> set (initiators s). fst p < next_initiator s"
  shows "svc_connectionRetries s' = svc_connectionRetries s" "(j, y) \<in> set (initiators s) \<Longrightarrow> (j, y) \<in> set (initiators s')"
proof -
  obtain c where "start_initiator c cb try s = Some s'"
    using assms(1) by (auto simp: TCPConnectionInitiator_host_def split: bind_splits option.splits)
  from start_keeps [OF this assms(2)] show "svc_connectionRetries s' = svc_connectionRetries s"
    "(j, y) \<in> set (initiators s) \<Longrightarrow> (j, y) \<in> set (initiators s')" by simp_all
qed

lemma retry_inv:
  assumes "svc_inv s" "retryConnection mk i s = Some s'"
  shows "svc_inv s'"
proof -
  obtain x where x: "map_of (initiators s) i = Some x" "ini_coro x = IniRetry"
    using assms(2) by (auto simp: retryConnection_def split: option.splits if_splits)
  let ?x = "x\<lparr>ini_try := ini_try x + 1\<rparr>"
  have inv: "\<forall>p \<in> set (initiators s). fst p < next_initiator s \<and> tries_ok (svc_connectionRetries s) p" "distinct (map fst (initiators s))"
    "\<forall>r \<in> set (connectionInitiationAttempts s). holds_attempt r s \<or> cb = Some r" "0 \<le> svc_connectionRetries s" for cb
    using assms(1) by (simp_all add: svc_inv_def)
  have m: "(i, x) \<in> set (initiators s)" using x(1) by (rule map_of_SomeD)
  have tr: "ini_try ?x \<le> svc_connectionRetries s" using inv(1) m x(2) by (auto simp: tries_ok_def)
  obtain s1 where s1: "s' = destroy_initiator i ?x s1" "svc_inv s1" "svc_connectionRetries s1 = svc_connectionRetries s" "(i, x) \<in> set (initiators s1)"
  proof (cases "ini_conn x")
    case (HostConnection host port)
    with assms(2) x obtain s1 where "TCPConnectionInitiator_host mk (host @ '':'' @ nat_to_str (unat port)) (ini_connectionCB ?x) (ini_try ?x) s = Some s1"
      "s' = destroy_initiator i ?x s1"
      by (auto simp: retryConnection_def Let_def split: bind_splits)
    with host_inv [OF this(1) inv(1-3) tr inv(4)] host_keeps [OF this(1)] inv(1) m show thesis by (auto intro: that)
  next
    case (EndpointConnection e)
    with assms(2) x obtain s1 where "start_initiator (EndpointConnection e) (ini_connectionCB ?x) (ini_try ?x) s = Some s1"
      "s' = destroy_initiator i ?x s1"
      by (auto simp: retryConnection_def TCPConnectionInitiator_endpoint_def Let_def split: bind_splits)
    with start_inv [OF this(1) inv(1-3) tr inv(4)] start_keeps [OF this(1)] inv(1) m show thesis by (auto intro: that)
  qed
  have "map_of (initiators s1) i = Some x" using s1(2,4) by (simp add: svc_inv_def)
  with inv_running [OF s1(2)] have "svc_running i x s1" by simp
  with tr s1(3) have "svc_running i ?x s1" by (simp add: svc_running_def)
  with s1(1) show ?thesis by (simp add: destroy_running)
qed

lemma connect_inv:
  assumes "svc_inv s" "connectToRemote mk r s = Some s'"
  shows "svc_inv s'"
proof (cases "r \<in> set (connectionInitiationAttempts s)")
  case False
  let ?s = "s\<lparr>connectionInitiationAttempts := r # connectionInitiationAttempts s\<rparr>"
  have "TCPConnectionInitiator_host mk r (Some r) 0 ?s = Some s'" using assms(2) False by (simp add: connectToRemote_def)
  then show ?thesis by (rule host_inv) (use assms(1) in \<open>auto simp: svc_inv_def holds_attempt_def\<close>)
qed (use assms in \<open>simp add: connectToRemote_def\<close>)

lemma svc_reach_inv: "svc_reach mk s \<Longrightarrow> svc_inv s"
proof (induction rule: svc_reach.induct)
  case (start s)
  then show ?case by (simp add: svc_inv_def)
next
  case (connect s r s')
  then show ?case by (blast intro: connect_inv)
next
  case (reconnect s tr c s')
  then show ?case by (intro start_inv [OF reconnect.hyps(3)]) (auto simp: svc_inv_def)
next
  case (completed s i ec eps s')
  obtain x where x: "map_of (initiators s) i = Some x" using completed.hyps(2) by (auto simp: initiator_step_def split: option.splits)
  show ?case by (rule step_inv [OF completed.hyps(2) inv_running [OF completed.IH x] x])
next
  case (retried s i s')
  then show ?case by (blast intro: retry_inv)
next
  case (stop s)
  then show ?case by (auto simp: requestStop_def service_stop_def Let_def svc_inv_def holds_attempt_def)
qed

text \<open>
  What a node announces is where its peers connect.  The address and port under which a connection makes a
  remote known, in brackets for an IPv6 address, is taken apart again into this address and port when a
  connection to the remote is initiated, and so is the string of a retry.
\<close>

lemma connection_string_roundtrip:
  assumes "tcp_port m \<noteq> 0" "CHR ''['' \<notin> set (env_address env)" "CHR '']'' \<notin> set (env_address env)"
    and "env_is_v6 env \<or> CHR '':'' \<notin> set (env_address env)"
  shows "ExtractPortFromConnectionString (connStr env m) d = Some (tcp_port m, env_address env)"
proof (cases "env_is_v6 env")
  case True
  with extract_port_v6 [OF assms(2,3,1)] show ?thesis by (simp add: connStr_def)
next
  case False
  with assms extract_port_plain [of "env_address env" "tcp_port m"] show ?thesis by (simp add: connStr_def)
qed

text \<open>
  C20 (attempts end and retries are bounded).  Whatever the network answers, every remote in the set of connection
  attempts has an initiator whose end erases it from the set, so that the set never blocks a remote for good;
  and no initiator is at a try beyond the configured number of retries, so that a chain of retries ends.
\<close>

theorem attempts_end:
  assumes "svc_reach mk s"
  shows "(\<forall>r \<in> set (connectionInitiationAttempts s). \<exists>(i, x) \<in> set (initiators s). ini_connectionCB x = Some r)
    \<and> (\<forall>(i, x) \<in> set (initiators s). ini_try x \<le> svc_connectionRetries s \<and> (ini_coro x = IniRetry \<longrightarrow> ini_try x < svc_connectionRetries s))"
  using svc_reach_inv [OF assms] by (auto simp: svc_inv_def holds_attempt_def tries_ok_def)

text \<open>
  A retry forgets the attempt.  When an initiator retries a host, the state of the old initiator calls the
  callback that the new one still holds: the attempt goes on but is erased from the set, and the next
  request to connect to the same remote starts a second attempt beside it.
\<close>

lemma retry_forgets_attempt:
  assumes "svc_reach mk s" "map_of (initiators s) i = Some x" "ini_coro x = IniRetry" "ini_conn x = HostConnection host port"
    and "ini_connectionCB x = Some r" "retryConnection mk i s = Some s'" "mk host = None" "port \<noteq> 0"
    and "CHR '':'' \<notin> set host" "CHR ''['' \<notin> set host" "CHR '']'' \<notin> set host"
  shows "r \<notin> set (connectionInitiationAttempts s') \<and> (\<exists>j y. map_of (initiators s') j = Some y \<and> ini_connectionCB y = Some r \<and> ini_coro y = IniResolving)"
proof -
  let ?x = "x\<lparr>ini_try := ini_try x + 1\<rparr>" and ?k = "next_initiator s"
  let ?y = "\<lparr>ini_conn = HostConnection host port, ini_try = ini_try x + 1, ini_retry = False, ini_connectionCB = Some r, ini_coro = IniResolving\<rparr>"
  have inv: "svc_inv s'" "svc_inv s" using svc_reach_inv assms(1) svc_reach.retried [OF assms(1,6)] by blast+
  have "i < ?k" using inv(2) map_of_SomeD [OF assms(2)] by (auto simp: svc_inv_def)
  obtain s1 where s1: "start_initiator (HostConnection host port) (Some r) (ini_try x + 1) s = Some s1" "s' = destroy_initiator i ?x s1"
    using assms(2-7) extract_port_plain [OF assms(9,10,11,8)]
    by (auto simp: retryConnection_def TCPConnectionInitiator_host_def Let_def split: bind_splits)
  have "(?k, ?y) \<in> set (initiators s1)"
    using s1(1) by (auto simp: start_initiator_def Let_def initiator_step_def try_connecting_to_host_def set_initiator_members)
  then have "(?k, ?y) \<in> set (initiators s')" using s1(2) \<open>i < ?k\<close> by simp
  then have "map_of (initiators s') ?k = Some ?y" using inv(1) by (simp add: svc_inv_def)
  moreover have "r \<notin> set (connectionInitiationAttempts s')"
    using s1(2) assms(5) by (simp add: destroy_initiator_def call_cb_attempts)
  ultimately show ?thesis by (intro conjI exI [of _ ?k] exI [of _ ?y]) simp_all
qed

section \<open>Timeouts\<close>

text \<open>
  \<^verbatim>\<open>timeout_controller.cpp\<close>.  A timeout is an element of the list with its callback; pointers to timeouts are their
  numbers.  \<open>ready\<close> are the timers that have run out and whose handlers wait to be called, \<open>posted\<close> the cancellations that
  other threads have posted to the thread of the service.  Reading a timeout that was erased is \<open>None\<close>.
\<close>

record parac_timeout =
  to_id :: nat
  expired_userdata :: nat
  to_expired :: bool

record timeout_controller =
  timeoutList :: "parac_timeout list"
  next_timeout :: nat
  ready :: "nat list"
  posted :: "nat list"
  to_called :: "(nat \<times> nat) list"

definition TimeoutController_init :: timeout_controller where
  "TimeoutController_init = \<lparr>timeoutList = [], next_timeout = 0, ready = [], posted = [], to_called = []\<rparr>"

definition find_timeout :: "nat \<Rightarrow> timeout_controller \<Rightarrow> parac_timeout option" where
  "find_timeout i c = find (\<lambda>t. to_id t = i) (timeoutList c)"

definition call_expired :: "parac_timeout \<Rightarrow> timeout_controller \<Rightarrow> timeout_controller" where
  "call_expired t c = (if to_expired t then c\<lparr>to_called := to_called c @ [(to_id t, expired_userdata t)]\<rparr> else c)"

definition setTimeout :: "nat \<Rightarrow> timeout_controller \<Rightarrow> nat \<times> timeout_controller" where
  "setTimeout userdata c = (next_timeout c,
     c\<lparr>timeoutList := \<lparr>to_id = next_timeout c, expired_userdata = userdata, to_expired = True\<rparr> # timeoutList c,
       next_timeout := next_timeout c + 1\<rparr>)"

text \<open>The callback is cleared before the element is erased, so its destructor does not call it.\<close>

definition cancelIOThread :: "nat \<Rightarrow> timeout_controller \<Rightarrow> timeout_controller option" where
  "cancelIOThread i c = (case find_timeout i c of
       None \<Rightarrow> None
     | Some t \<Rightarrow> Some ((call_expired (t\<lparr>to_expired := False\<rparr>) c)\<lparr>timeoutList := filter (\<lambda>u. to_id u \<noteq> i) (timeoutList c)\<rparr>))"

definition to_cancel :: "bool \<Rightarrow> nat \<Rightarrow> timeout_controller \<Rightarrow> timeout_controller option" where
  "to_cancel ioThread i c = (if ioThread then cancelIOThread i c else Some (c\<lparr>posted := posted c @ [i]\<rparr>))"

text \<open>A timer runs out, and later its handler is called; erasing the timeout in between does not recall the handler.\<close>

definition timer_runs_out :: "nat \<Rightarrow> timeout_controller \<Rightarrow> timeout_controller option" where
  "timer_runs_out i c = (if find_timeout i c \<noteq> None \<and> i \<notin> set (ready c) then Some (c\<lparr>ready := ready c @ [i]\<rparr>) else None)"

definition timer_handler :: "nat \<Rightarrow> timeout_controller \<Rightarrow> timeout_controller option" where
  "timer_handler i c = do {
     c_assert (i \<in> set (ready c));
     let c = c\<lparr>ready := remove1 i (ready c)\<rparr>;
     t \<leftarrow> find_timeout i c;
     if to_expired t then to_cancel True i (call_expired t c) else Some c }"

definition run_posted :: "nat \<Rightarrow> timeout_controller \<Rightarrow> timeout_controller option" where
  "run_posted i c = do {
     c_assert (i \<in> set (posted c));
     cancelIOThread i (c\<lparr>posted := remove1 i (posted c)\<rparr>) }"

text \<open>The destructor clears the list, and the destructor of every timeout calls its callback.\<close>

definition TimeoutController_destroy :: "timeout_controller \<Rightarrow> timeout_controller" where
  "TimeoutController_destroy c = (foldl (\<lambda>c t. call_expired t c) c (timeoutList c))\<lparr>timeoutList := []\<rparr>"

text \<open>\<open>to_reach cs c\<close>: the controller reaches \<open>c\<close> while the timeouts \<open>cs\<close> were cancelled.\<close>

inductive to_reach :: "nat list \<Rightarrow> timeout_controller \<Rightarrow> bool" where
  start: "to_reach [] TimeoutController_init"
| set: "to_reach cs c \<Longrightarrow> to_reach cs (snd (setTimeout u c))"
| cancel: "to_reach cs c \<Longrightarrow> cancelIOThread i c = Some c' \<Longrightarrow> to_reach (i # cs) c'"
| post: "to_reach cs c \<Longrightarrow> to_cancel False i c = Some c' \<Longrightarrow> to_reach cs c'"
| run_posted: "to_reach cs c \<Longrightarrow> run_posted i c = Some c' \<Longrightarrow> to_reach (i # cs) c'"
| run_out: "to_reach cs c \<Longrightarrow> timer_runs_out i c = Some c' \<Longrightarrow> to_reach cs c'"
| handler: "to_reach cs c \<Longrightarrow> timer_handler i c = Some c' \<Longrightarrow> to_reach cs c'"

definition to_inv :: "nat list \<Rightarrow> timeout_controller \<Rightarrow> bool" where
  "to_inv cs c \<longleftrightarrow> distinct (map to_id (timeoutList c) @ map fst (to_called c) @ cs)
     \<and> set (map to_id (timeoutList c) @ map fst (to_called c) @ cs) = {..< next_timeout c}
     \<and> (\<forall>t \<in> set (timeoutList c). to_expired t)"

lemma find_timeout_SomeD: "find_timeout i c = Some t \<Longrightarrow> t \<in> set (timeoutList c) \<and> to_id t = i"
  by (auto simp: find_timeout_def find_Some_iff)

lemma find_erased [simp]: "find (\<lambda>t. to_id t = i) (filter (\<lambda>u. to_id u \<noteq> i) ts) = None"
  by (auto simp: find_None_iff)

lemma erase_inv:
  assumes "to_inv cs c" "find_timeout i c = Some t"
  shows "distinct (map to_id (filter (\<lambda>u. to_id u \<noteq> i) (timeoutList c)) @ i # map fst (to_called c) @ cs)
    \<and> set (map to_id (filter (\<lambda>u. to_id u \<noteq> i) (timeoutList c)) @ i # map fst (to_called c) @ cs) = {..< next_timeout c}"
proof -
  have t: "t \<in> set (timeoutList c)" "to_id t = i" using find_timeout_SomeD [OF assms(2)] by simp_all
  then have i: "i \<in> to_id ` set (timeoutList c)" by blast
  with assms(1) have "i \<notin> fst ` set (to_called c)" "i \<notin> set cs" by (auto simp: to_inv_def)
  moreover have "to_id ` {u \<in> set (timeoutList c). to_id u \<noteq> i} = to_id ` set (timeoutList c) - {i}" by auto
  moreover have "i < next_timeout c" using assms(1) i unfolding to_inv_def by auto
  ultimately show ?thesis using assms(1) i
    by (auto simp add: to_inv_def distinct_map_filter image_iff)
qed

lemma cancel_inv:
  assumes "to_inv cs c" "cancelIOThread i c = Some c'"
  shows "to_inv (i # cs) c'"
proof -
  obtain t where t: "find_timeout i c = Some t" using assms(2) by (auto simp: cancelIOThread_def split: option.splits)
  with assms(2) have "c' = c\<lparr>timeoutList := filter (\<lambda>u. to_id u \<noteq> i) (timeoutList c)\<rparr>"
    by (simp add: cancelIOThread_def call_expired_def)
  with erase_inv [OF assms(1) t] assms(1) show ?thesis by (auto simp: to_inv_def)
qed

lemma handler_inv:
  assumes "to_inv cs c" "timer_handler i c = Some c'"
  shows "to_inv cs c'"
proof -
  let ?c = "c\<lparr>ready := remove1 i (ready c)\<rparr>"
  obtain t where t: "find_timeout i ?c = Some t" using assms(2) by (auto simp: timer_handler_def Let_def split: bind_splits)
  then have f: "find_timeout i c = Some t" by (simp add: find_timeout_def)
  have e: "to_expired t" "to_id t = i" using find_timeout_SomeD [OF f] assms(1) by (auto simp: to_inv_def)
  have "find_timeout i (call_expired t ?c) = Some t" using t e by (simp add: call_expired_def find_timeout_def)
  then have "c' = ?c\<lparr>to_called := to_called c @ [(i, expired_userdata t)], timeoutList := filter (\<lambda>u. to_id u \<noteq> i) (timeoutList c)\<rparr>"
    using assms(2) t e by (auto simp: timer_handler_def to_cancel_def cancelIOThread_def call_expired_def split: if_splits)
  with erase_inv [OF assms(1) f] assms(1) show ?thesis by (auto simp: to_inv_def)
qed

lemma to_reach_inv: "to_reach cs c \<Longrightarrow> to_inv cs c"
proof (induction rule: to_reach.induct)
  case start
  show ?case by (simp add: to_inv_def TimeoutController_init_def)
next
  case (set cs c u)
  then show ?case by (auto simp: to_inv_def setTimeout_def lessThan_Suc)
next
  case (run_posted cs c i c')
  have "to_inv cs (c\<lparr>posted := remove1 i (posted c)\<rparr>)" using run_posted.IH by (simp add: to_inv_def)
  with run_posted.hyps(2) show ?case by (auto simp: run_posted_def intro: cancel_inv)
next
  case (cancel cs c i c')
  then show ?case by (blast intro: cancel_inv)
next
  case (post cs c i c')
  have "c' = c\<lparr>posted := posted c @ [i]\<rparr>" using post.hyps(2) by (simp add: to_cancel_def)
  with post.IH show ?case by (simp add: to_inv_def)
next
  case (run_out cs c i c')
  have "c' = c\<lparr>ready := ready c @ [i]\<rparr>" using run_out.hyps(2) by (simp add: timer_runs_out_def split: if_splits)
  with run_out.IH show ?case by (simp add: to_inv_def)
next
  case (handler cs c i c')
  then show ?case by (blast intro: handler_inv)
qed

lemma foldl_call_expired:
  "\<forall>t \<in> set ts. to_expired t \<Longrightarrow> to_called (foldl (\<lambda>c t. call_expired t c) c ts) = to_called c @ map (\<lambda>t. (to_id t, expired_userdata t)) ts
    \<and> next_timeout (foldl (\<lambda>c t. call_expired t c) c ts) = next_timeout c"
  by (induction ts arbitrary: c) (auto simp: call_expired_def)

text \<open>
  C21 (every timeout is called once or cancelled).  When the controller is destroyed, every timeout that was ever set
  has either been cancelled and its callback was not called, or its callback was called exactly once, when
  its timer ran out or by the destructor.
\<close>

theorem timeouts_called_once:
  assumes "to_reach cs c"
  shows "timeoutList (TimeoutController_destroy c) = []
    \<and> distinct (map fst (to_called (TimeoutController_destroy c)))
    \<and> set (map fst (to_called (TimeoutController_destroy c))) = {..< next_timeout c} - set cs"
proof -
  have inv: "to_inv cs c" using to_reach_inv [OF assms] .
  then have "to_called (TimeoutController_destroy c) = to_called c @ map (\<lambda>t. (to_id t, expired_userdata t)) (timeoutList c)"
    using foldl_call_expired [of "timeoutList c" c] by (simp add: TimeoutController_destroy_def to_inv_def)
  then have m: "map fst (to_called (TimeoutController_destroy c)) = map fst (to_called c) @ map to_id (timeoutList c)"
    by (simp add: comp_def)
  have "timeoutList (TimeoutController_destroy c) = []" by (simp add: TimeoutController_destroy_def)
  moreover have "distinct (map fst (to_called c) @ map to_id (timeoutList c))" using inv by (auto simp: to_inv_def)
  moreover have "set (map fst (to_called c) @ map to_id (timeoutList c)) = {..< next_timeout c} - set cs"
    using inv unfolding to_inv_def by auto
  ultimately show ?thesis unfolding m by blast
qed

text \<open>
  A late cancellation reads freed memory.  A cancellation that another thread has posted and that runs after
  the timer's handler, and a handler that was already due when its timeout was cancelled, both use a
  timeout that was erased.
\<close>

lemma late_cancel_undefined:
  assumes "to_reach cs c" "timer_handler i c = Some c'"
  shows "(i \<in> set (posted c') \<longrightarrow> run_posted i c' = None) \<and> (\<forall>c''. cancelIOThread i c = Some c'' \<longrightarrow> timer_handler i c'' = None)"
proof -
  have inv: "to_inv cs c" using to_reach_inv [OF assms(1)] .
  obtain t where t: "find_timeout i (c\<lparr>ready := remove1 i (ready c)\<rparr>) = Some t"
    using assms(2) by (auto simp: timer_handler_def Let_def split: bind_splits)
  have "to_expired t" using t inv find_timeout_SomeD [of i c t] by (auto simp: to_inv_def find_timeout_def)
  then have "find_timeout i (c'\<lparr>posted := p\<rparr>) = None" for p
    using assms(2) t by (auto simp: timer_handler_def to_cancel_def cancelIOThread_def call_expired_def find_timeout_def split: option.splits)
  moreover have "timer_handler i c'' = None" if "cancelIOThread i c = Some c''" for c''
    using that by (auto simp: cancelIOThread_def timer_handler_def call_expired_def find_timeout_def Let_def split: option.splits bind_splits)
  ultimately show ?thesis by (simp add: run_posted_def cancelIOThread_def)
qed

text \<open>The search for a port takes the first one that is free and gives up at the first error of another kind.\<close>

lemma find_port_first:
  assumes "find_port try_bind p = (PARAC_OK, q)"
  shows "p \<le> q \<and> q < 65535 \<and> try_bind q = Bound \<and> (\<forall>k. p \<le> k \<and> k < q \<longrightarrow> try_bind k = AddressInUse)"
  using assms
proof (induction try_bind p rule: find_port.induct)
  case (1 try_bind p)
  have step: "p \<le> q \<and> (\<forall>k. p \<le> k \<and> k < q \<longrightarrow> try_bind k = AddressInUse)"
    if h: "p < 65535" "try_bind p = AddressInUse" "p + 1 \<le> q" "\<forall>k. p + 1 \<le> k \<and> k < q \<longrightarrow> try_bind k = AddressInUse"
  proof -
    have u: "unat (p + 1) = unat p + 1" using h(1) by (simp add: unat_word_ariths word_less_nat_alt)
    have "p + 1 \<le> k" if "p \<le> k" "k \<noteq> p" for k using that u by (simp add: word_le_nat_alt word_unat_eq_iff)
    moreover have "p \<le> q" using h(3) u by (simp add: word_le_nat_alt)
    ultimately show ?thesis using h by blast
  qed
  show ?case
  proof (cases "p < 65535 \<and> try_bind p = AddressInUse")
    case True
    then have "find_port try_bind (p + 1) = (PARAC_OK, q)" using 1(2) by (simp add: find_port.simps [of _ p])
    then show ?thesis using 1(1) True step by blast
  next
    case False
    then have "p < 65535" "try_bind p = Bound" "q = p"
      using 1(2) by (auto simp: find_port.simps [of _ p] split: if_splits bind_result.splits)
    then show ?thesis by auto
  qed
qed

definition example_service :: service where
  "example_service = \<lparr>connectionInitiationAttempts = [], initiators = [], next_initiator = 0, svc_events = [], stopRequested = False,
     outgoingMessageCounter = 0, context_stopped = False, svc_connectionRetries = 3, svc_defaultTCPTargetPort = 18001,
     svc_acceptor = \<lparr>ep_address = ''::'', ep_port = 18001\<rparr>, svc_knownRemotes = []\<rparr>"

definition example_remote :: string where
  "example_remote = ''a:'' @ nat_to_str 18002"

lemma example_extract: "ExtractPortFromConnectionString example_remote d = Some (18002, ''a'')"
  using extract_port_plain [of "''a''" 18002 d] by (simp add: example_remote_def)

text \<open>One remote whose name resolves to no endpoint: the service waits to retry.\<close>

definition example_attempt :: service where
  "example_attempt = the (connectToRemote (\<lambda>_. None) example_remote example_service)"

definition example_retry :: service where
  "example_retry = the (initiator_step 0 False [] example_attempt)"

lemmas service_defs = example_service_def connectToRemote_def TCPConnectionInitiator_host_def start_initiator_def initiator_step_def
  try_connecting_to_host_def next_endpoint_def release_initiator_def set_initiator_def svc_emit_def Let_def

lemma example_attempt: "connectToRemote (\<lambda>_. None) example_remote example_service = Some example_attempt"
  by (simp add: example_attempt_def service_defs example_extract)

lemma example_retry: "initiator_step 0 False [] example_attempt = Some example_retry"
  by (simp add: example_retry_def example_attempt_def service_defs example_extract)

lemma example_reach: "svc_reach (\<lambda>_. None) example_retry"
  by (rule svc_reach.completed [OF svc_reach.connect [OF svc_reach.start example_attempt] example_retry])
    (simp_all add: example_service_def)

lemma example_retry_initiator:
  "initiators example_retry = [(0, \<lparr>ini_conn = HostConnection ''a'' 18002, ini_try = 0, ini_retry = False, ini_connectionCB = Some example_remote, ini_coro = IniRetry\<rparr>)]"
  "connectionInitiationAttempts example_retry = [example_remote]"
  by (simp_all add: example_retry_def example_attempt_def service_defs example_extract)

lemma example_retried: "\<exists>s'. retryConnection (\<lambda>_. None) 0 example_retry = Some s'"
  using example_extract
  by (simp add: retryConnection_def example_retry_initiator example_remote_def service_defs)

theorem attempts_end_witness:
  "svc_reach (\<lambda>_. None) example_retry \<and> connectionInitiationAttempts example_retry = [example_remote]
    \<and> (\<exists>(i, x) \<in> set (initiators example_retry). ini_connectionCB x = Some example_remote)"
  using attempts_end [OF example_reach] example_reach example_retry_initiator by simp

lemma retry_forgets_attempt_example:
  "\<exists>s'. retryConnection (\<lambda>_. None) 0 example_retry = Some s' \<and> example_remote \<in> set (connectionInitiationAttempts example_retry)
    \<and> example_remote \<notin> set (connectionInitiationAttempts s')"
  using example_retried retry_forgets_attempt [OF example_reach, of 0 _ "''a''" 18002 example_remote] example_retry_initiator by auto

definition service_example_env :: net_env where
  "service_example_env = \<lparr>env_now = 0, env_alive = True, env_new_queue = \<lambda>_. sq_example, env_has_node = False, env_address = ''fe80::1'', env_is_v6 = True,
     env_padding = [], env_payload = \<lambda>_. [], env_file = \<lambda>_. ([], []), env_receive_message = \<lambda>_ _ _. None,
     env_receive_file = \<lambda>_ _. None, env_append_path = (@), env_temporaryDirectory = [], env_open = \<lambda>_. True, env_connectionRetries = 3\<rparr>"

lemma connection_string_roundtrip_example:
  "ExtractPortFromConnectionString (connStr service_example_env \<lparr>sender_id = 7, tcp_port = 18001\<rparr>) 1 = Some (18001, ''fe80::1'')"
  using connection_string_roundtrip [of "\<lparr>sender_id = 7, tcp_port = 18001\<rparr>" service_example_env 1] by (simp add: service_example_env_def)

text \<open>Two timeouts, the first of which runs out after another thread has posted its cancellation.\<close>

definition example_timeouts :: timeout_controller where
  "example_timeouts = the (Option.bind (to_cancel False 0 (snd (setTimeout 5 (snd (setTimeout 4 TimeoutController_init))))) (timer_runs_out 0))"

lemmas timeout_defs = setTimeout_def TimeoutController_init_def to_cancel_def timer_runs_out_def find_timeout_def cancelIOThread_def
  timer_handler_def call_expired_def

lemma example_timeouts:
  "Option.bind (to_cancel False 0 (snd (setTimeout 5 (snd (setTimeout 4 TimeoutController_init))))) (timer_runs_out 0) = Some example_timeouts"
  by (simp add: example_timeouts_def timeout_defs)

lemma example_timeouts_reach: "to_reach [] example_timeouts"
proof -
  from example_timeouts obtain c where c: "to_cancel False 0 (snd (setTimeout 5 (snd (setTimeout 4 TimeoutController_init)))) = Some c"
    "timer_runs_out 0 c = Some example_timeouts" by (auto split: bind_splits)
  show ?thesis by (rule to_reach.run_out [OF to_reach.post [OF to_reach.set [OF to_reach.set [OF to_reach.start]] c(1)] c(2)])
qed

theorem timeouts_called_once_witness:
  "to_reach [] example_timeouts \<and> set (map fst (to_called (TimeoutController_destroy example_timeouts))) = {0, 1}"
proof -
  have "next_timeout example_timeouts = 2" by (simp add: example_timeouts_def timeout_defs)
  then show ?thesis using timeouts_called_once [OF example_timeouts_reach] example_timeouts_reach by (auto simp: lessThan_Suc numeral_2_eq_2)
qed

lemma late_cancel_undefined_example:
  "\<exists>c'. to_reach [] c' \<and> to_called c' = [(0, 4)] \<and> run_posted 0 c' = None"
proof -
  obtain c' where c': "timer_handler 0 example_timeouts = Some c'" "to_called c' = [(0, 4)]" "0 \<in> set (posted c')"
    by (simp add: example_timeouts_def timeout_defs)
  with late_cancel_undefined [OF example_timeouts_reach c'(1)] to_reach.handler [OF example_timeouts_reach c'(1)] show ?thesis by blast
qed

end
