(* ===== verification/Runner.thy ===== *)
theory Runner
  imports TaskTree
begin

unbundle bit_operations_syntax

text \<open>
  The thread pool of \<^verbatim>\<open>modules/runner/\<close>: the workers of \<^verbatim>\<open>runner_worker.cpp\<close> at the places of \<^verbatim>\<open>run\<close> and
  \<^verbatim>\<open>getNextTask\<close>, and the executor of \<^verbatim>\<open>runner_worker_executor.cpp\<close> with its mutex, its condition variable, the flag
  \<^verbatim>\<open>notifierCheck\<close> and the callback \<^verbatim>\<open>ping_on_work\<close> of the task store.  A step is what one thread does between two
  places where another can come in between; the store below is the task store itself, so a waiting task appears
  only by an operation of the store.  The condition variable may wake a worker for no reason.  The callback is set before
  the first step here; the source sets it after the threads have started.  What a worker does with a task is the round of
  the solver theories.

  Shown here: every operation of the store that adds a waiting task pings the runner; a wake-up is not lost as long as no
  notification falls between the test of the flag and the wait; it can be lost otherwise, since \<^verbatim>\<open>workping\<close> does not take the
  mutex; and after \<^verbatim>\<open>exit\<close> the workers end.
\<close>

section \<open>Workers and their executor\<close>

text \<open>
  Where the thread of a worker is.  \<open>RunHead\<close> is the test of \<^verbatim>\<open>m_stop\<close> in \<^verbatim>\<open>Worker::run\<close>, \<open>Working\<close> the rest of
  that loop with a task.  The others are the places of \<^verbatim>\<open>Worker::getNextTask\<close>: the first \<^verbatim>\<open>pop_work\<close>, taking the mutex,
  the head of the loop, the exchange of \<^verbatim>\<open>m_notifierCheck\<close>, the test of \<^verbatim>\<open>m_stop\<close> after it, the call of
  \<^verbatim>\<open>wait\<close>, waiting, notified but without the mutex, and the last \<^verbatim>\<open>pop_work\<close>.
\<close>

datatype worker_pos =
    RunHead | GetFirst | LockMutex | LoopHead | TestCheck | TestStop | BeforeWait | Waiting | Notified | AfterWait
  | Working task_ref | Exited

text \<open>
  The state that the workers share.  \<open>rn_pings\<close> counts the calls of \<^verbatim>\<open>workping\<close> that have begun, \<open>rn_notifies\<close> those that
  have stored the flag and are about to notify; \<open>rn_dropped\<close> are the tasks that were taken and not run.
\<close>

record runner =
  rn_store :: task_store
  notifierCheck :: bool
  rn_stop :: bool
  notifierOwner :: "nat option"
  rn_workers :: "worker_pos list"
  rn_pings :: nat
  rn_notifies :: nat
  rn_dropped :: "task_ref list"

definition WorkerExecutor_init :: "nat \<Rightarrow> task_store \<Rightarrow> runner" where
  "WorkerExecutor_init workerCount s = \<lparr>rn_store = s\<lparr>has_ping_on_work := True\<rparr>, notifierCheck = False, rn_stop = False,
     notifierOwner = None, rn_workers = replicate workerCount RunHead, rn_pings = 0, rn_notifies = 0, rn_dropped = []\<rparr>"

definition goto :: "nat \<Rightarrow> worker_pos \<Rightarrow> runner \<Rightarrow> runner" where
  "goto k p rn = rn\<lparr>rn_workers := (rn_workers rn)[k := p]\<rparr>"

definition unlock :: "runner \<Rightarrow> runner" where
  "unlock rn = rn\<lparr>notifierOwner := None\<rparr>"

text \<open>
  One step of worker \<open>k\<close>; \<open>None\<close> when it cannot move: it waits, it needs the mutex, or it has ended.  The tasks
  themselves are run by the rounds of the solver; here the work ends at some time.
\<close>

definition worker_step :: "nat \<Rightarrow> flag_ref \<Rightarrow> runner \<Rightarrow> runner option" where
  "worker_step k flag rn = (if k \<ge> length (rn_workers rn) then None else
     case rn_workers rn ! k of
       RunHead \<Rightarrow> Some (goto k (if rn_stop rn then Exited else GetFirst) rn)
     | GetFirst \<Rightarrow> do {
         (work, s) \<leftarrow> pop_work (Some flag) (rn_store rn);
         Some (goto k (case work of None \<Rightarrow> LockMutex | Some r \<Rightarrow> Working r) (rn\<lparr>rn_store := s\<rparr>)) }
     | LockMutex \<Rightarrow> if notifierOwner rn = None then Some (goto k LoopHead (rn\<lparr>notifierOwner := Some k\<rparr>)) else None
     | LoopHead \<Rightarrow>
         if rn_stop rn then Some (goto k RunHead (unlock rn))
         else do {
           (work, s) \<leftarrow> pop_work (Some flag) (rn_store rn);
           Some (case work of
               None \<Rightarrow> goto k TestCheck (rn\<lparr>rn_store := s\<rparr>)
             | Some r \<Rightarrow> goto k (Working r) (unlock (rn\<lparr>rn_store := s\<rparr>))) }
     | TestCheck \<Rightarrow> Some (goto k (if notifierCheck rn then AfterWait else TestStop) (rn\<lparr>notifierCheck := False\<rparr>))
     | TestStop \<Rightarrow> Some (if rn_stop rn then goto k RunHead (unlock rn) else goto k BeforeWait rn)
     | BeforeWait \<Rightarrow> Some (goto k Waiting (unlock rn))
     | Waiting \<Rightarrow> None
     | Notified \<Rightarrow> if notifierOwner rn = None then Some (goto k AfterWait (rn\<lparr>notifierOwner := Some k\<rparr>)) else None
     | AfterWait \<Rightarrow> do {
         (work, s) \<leftarrow> pop_work (Some flag) (rn_store rn);
         (case work of
            None \<Rightarrow> Some (goto k LoopHead (rn\<lparr>rn_store := s\<rparr>))
          | Some r \<Rightarrow> do {
              t \<leftarrow> get_task r s;
              Some (if \<not> rn_stop rn \<and> \<not> stop t then goto k (Working r) (unlock (rn\<lparr>rn_store := s\<rparr>))
                    else goto k LoopHead (rn\<lparr>rn_store := s, rn_dropped := rn_dropped rn @ [r]\<rparr>)) }) }
     | Working r \<Rightarrow> Some (goto k RunHead rn)
     | Exited \<Rightarrow> None)"

text \<open>The callback \<^verbatim>\<open>ping_on_work\<close>: the flag, then the notification of one waiting worker, if there is one.\<close>

definition workping_store :: "runner \<Rightarrow> runner option" where
  "workping_store rn = (if rn_pings rn = 0 then None
     else Some (rn\<lparr>notifierCheck := True, rn_pings := rn_pings rn - 1, rn_notifies := rn_notifies rn + 1\<rparr>))"

definition workping_notify :: "nat option \<Rightarrow> runner \<Rightarrow> runner option" where
  "workping_notify woken rn =
     (if rn_notifies rn = 0 then None
      else let rn' = rn\<lparr>rn_notifies := rn_notifies rn - 1\<rparr> in case woken of
        None \<Rightarrow> if Waiting \<in> set (rn_workers rn) then None else Some rn'
      | Some k \<Rightarrow> if k < length (rn_workers rn) \<and> rn_workers rn ! k = Waiting then Some (goto k Notified rn') else None)"

definition WorkerExecutor_exit_store :: "runner \<Rightarrow> runner" where
  "WorkerExecutor_exit_store rn = rn\<lparr>rn_stop := True\<rparr>"

definition WorkerExecutor_exit_notify :: "runner \<Rightarrow> runner" where
  "WorkerExecutor_exit_notify rn = rn\<lparr>rn_workers := map (\<lambda>p. if p = Waiting then Notified else p) (rn_workers rn)\<rparr>"

text \<open>An operation on the task store by any thread; the new calls of the ping callback begin.\<close>

definition pings :: "'a task_world_scheme \<Rightarrow> nat" where
  "pings s = count_list (outcalls s) PingOnWork"

definition with_store :: "task_store \<Rightarrow> runner \<Rightarrow> runner" where
  "with_store s rn = rn\<lparr>rn_store := s, rn_pings := rn_pings rn + (pings s - pings (rn_store rn))\<rparr>"

text \<open>
  The runs of the executor.  With \<open>timely\<close> no notification falls between the test of the flag and the wait of a worker;
  the mutex, which \<^verbatim>\<open>workping\<close> does not take, would ensure it.
\<close>

definition window :: "runner \<Rightarrow> bool" where
  "window rn \<longleftrightarrow> TestStop \<in> set (rn_workers rn) \<or> BeforeWait \<in> set (rn_workers rn)"

inductive runner_reach :: "bool \<Rightarrow> runner \<Rightarrow> bool" for timely where
  init: "store_inv s \<Longrightarrow> tasksWaitingForWorkerQueue s = [] \<Longrightarrow> 0 < n \<Longrightarrow> runner_reach timely (WorkerExecutor_init n s)"
| worker: "runner_reach timely rn \<Longrightarrow> worker_step k flag rn = Some rn' \<Longrightarrow> runner_reach timely rn'"
| store: "runner_reach timely rn \<Longrightarrow> store_step (rn_store rn) s' \<Longrightarrow> runner_reach timely (with_store s' rn)"
| ping_store: "runner_reach timely rn \<Longrightarrow> workping_store rn = Some rn' \<Longrightarrow> runner_reach timely rn'"
| ping_notify: "runner_reach timely rn \<Longrightarrow> (timely \<longrightarrow> \<not> window rn) \<Longrightarrow> workping_notify woken rn = Some rn' \<Longrightarrow> runner_reach timely rn'"
| spurious: "runner_reach timely rn \<Longrightarrow> k < length (rn_workers rn) \<Longrightarrow> rn_workers rn ! k = Waiting \<Longrightarrow>
    runner_reach timely (goto k Notified rn)"
| exit_store: "runner_reach timely rn \<Longrightarrow> runner_reach timely (WorkerExecutor_exit_store rn)"
| exit_notify: "runner_reach timely rn \<Longrightarrow> runner_reach timely (WorkerExecutor_exit_notify rn)"

text \<open>Tasks wait, all workers sleep, and nobody is about to wake one.\<close>

definition stuck :: "runner \<Rightarrow> bool" where
  "stuck rn \<longleftrightarrow> tasksWaitingForWorkerQueue (rn_store rn) \<noteq> [] \<and> \<not> rn_stop rn \<and> rn_pings rn = 0 \<and> rn_notifies rn = 0
     \<and> (\<forall>p \<in> set (rn_workers rn). p = Waiting)"

section \<open>Every new waiting task is announced\<close>

text \<open>The queue only shrinks between the two stores, or the workers are pinged.\<close>

definition pinged :: "task_store \<Rightarrow> task_store \<Rightarrow> bool" where
  "pinged s0 s \<longleftrightarrow> has_ping_on_work s = has_ping_on_work s0 \<and> pings s0 \<le> pings s
     \<and> (has_ping_on_work s0 \<longrightarrow> set (tasksWaitingForWorkerQueue s) \<subseteq> set (tasksWaitingForWorkerQueue s0) \<or> pings s0 < pings s)"

named_theorems announce \<open>every operation of the store keeps \<open>pinged\<close>\<close>

lemma pinged_refl [simp]: "pinged s s"
  by (simp add: pinged_def)

lemma pinged_trans: "pinged a b \<Longrightarrow> pinged b c \<Longrightarrow> pinged a c"
  by (auto simp: pinged_def)

lemma pings_emit [simp]: "pings (emit e s) = pings s + of_bool (e = PingOnWork)"
  by (simp add: pings_def emit_def)

lemma pinged_fields [simp]:
  "pinged s0 (s\<lparr>heap := h\<rparr>) = pinged s0 s" "pinged s0 (s\<lparr>exit_status := e\<rparr>) = pinged s0 s"
  "pinged s0 (s\<lparr>tasks := ts\<rparr>) = pinged s0 s" "pinged s0 (s\<lparr>tasksBeingWorkedOn := ts\<rparr>) = pinged s0 s"
  "pinged s0 (s\<lparr>tasksWaitingForChildren := ts\<rparr>) = pinged s0 s" "pinged s0 (s\<lparr>offloadedTasks := off\<rparr>) = pinged s0 s"
  "pinged s0 (s\<lparr>tasksSize := n\<rparr>) = pinged s0 s" "pinged s0 (s\<lparr>tasksWaitingForWorkerQueueSize := n\<rparr>) = pinged s0 s"
  "pinged s0 (s\<lparr>autoShutdownTimeoutSet := b\<rparr>) = pinged s0 s" "oc \<noteq> PingOnWork \<Longrightarrow> pinged s0 (emit oc s) = pinged s0 s"
  by (auto simp: pinged_def pings_def emit_def)

lemma pinged_fields' [simp]:
  "pinged (s\<lparr>heap := h\<rparr>) s1 = pinged s s1" "pinged (s\<lparr>exit_status := e\<rparr>) s1 = pinged s s1"
  "pinged (s\<lparr>tasks := ts\<rparr>) s1 = pinged s s1" "pinged (s\<lparr>tasksBeingWorkedOn := ts\<rparr>) s1 = pinged s s1"
  "pinged (s\<lparr>tasksWaitingForChildren := ts\<rparr>) s1 = pinged s s1" "pinged (s\<lparr>offloadedTasks := off\<rparr>) s1 = pinged s s1"
  "pinged (s\<lparr>tasksSize := n\<rparr>) s1 = pinged s s1" "pinged (s\<lparr>tasksWaitingForWorkerQueueSize := n\<rparr>) s1 = pinged s s1"
  "pinged (s\<lparr>autoShutdownTimeoutSet := b\<rparr>) s1 = pinged s s1" "oc \<noteq> PingOnWork \<Longrightarrow> pinged (emit oc s) s1 = pinged s s1"
  by (auto simp: pinged_def pings_def emit_def)

lemma pinged_queue:
  "set q \<subseteq> set (tasksWaitingForWorkerQueue s) \<Longrightarrow> pinged s (s\<lparr>tasksWaitingForWorkerQueue := q\<rparr>)"
  by (auto simp: pinged_def pings_def)

lemma pinged_upd [announce]:
  "upd_wrapper r f s = Some s' \<Longrightarrow> pinged s s'" "upd_task r g s = Some s' \<Longrightarrow> pinged s s'"
  by (auto simp: upd_task_iff upd_wrapper_iff)

lemma pinged_orphan [announce]: "orphan c s = Some s' \<Longrightarrow> pinged s s'"
  by (auto simp: orphan_def split: option.splits dest: announce)

lemma pinged_orphan_all [announce]: "orphan_all cs s = Some s' \<Longrightarrow> pinged s s'"
  by (induction cs arbitrary: s) (auto simp: bind_eq_Some_conv dest!: announce intro: pinged_trans)

lemma pinged_sets [simp]:
  "pinged s0 (insert_into_tasksWaitingForChildren r s) = pinged s0 s"
  "pinged s0 (remove_from_tasksWaitingForChildren r s) = pinged s0 s"
  "pinged s0 (insert_into_tasksBeingWorkedOn r s) = pinged s0 s"
  "pinged s0 (remove_from_tasksBeingWorkedOn r s) = pinged s0 s"
  "pinged s0 (manageAutoShutdownTimer s) = pinged s0 s"
  "pinged s0 (finish_root t s) = pinged s0 s"
  "pinged s0 (destroy_task r tw s) = pinged s0 s"
  by (simp_all add: insert_into_tasksWaitingForChildren_def remove_from_tasksWaitingForChildren_def finish_root_def
      insert_into_tasksBeingWorkedOn_def remove_from_tasksBeingWorkedOn_def manageAutoShutdownTimer_def destroy_task_def Let_def
      split: option.split)

lemma pinged_sets' [simp]:
  "pinged (insert_into_tasksWaitingForChildren r s) s1 = pinged s s1"
  "pinged (remove_from_tasksWaitingForChildren r s) s1 = pinged s s1"
  "pinged (insert_into_tasksBeingWorkedOn r s) s1 = pinged s s1"
  "pinged (remove_from_tasksBeingWorkedOn r s) s1 = pinged s s1"
  "pinged (manageAutoShutdownTimer s) s1 = pinged s s1"
  "pinged (finish_root t s) s1 = pinged s s1"
  by (simp_all add: insert_into_tasksWaitingForChildren_def remove_from_tasksWaitingForChildren_def finish_root_def
      insert_into_tasksBeingWorkedOn_def remove_from_tasksBeingWorkedOn_def manageAutoShutdownTimer_def)

lemma insert_pings:
  assumes "insert_into_tasksWaitingForWorkerQueue r s = Some s'"
  shows "has_ping_on_work s' = has_ping_on_work s \<and> pings s' = pings s + of_bool (has_ping_on_work s)"
  using assms unfolding insert_into_tasksWaitingForWorkerQueue_def
  by (cases "has_ping_on_work s") (auto simp: bind_eq_Some_conv Let_def upd_task_iff upd_wrapper_iff emit_def pings_def)

lemma pinged_insert [announce]: "insert_into_tasksWaitingForWorkerQueue r s = Some s' \<Longrightarrow> pinged s s'"
  by (auto simp: pinged_def dest!: insert_pings)

lemma pinged_unlink [announce]: "unlink_from_parent r t s = Some s' \<Longrightarrow> pinged s s'"
  by (auto simp: unlink_from_parent_def bind_eq_Some_conv split: option.splits if_splits dest!: announce intro: pinged_trans)

lemma pinged_remove [announce]: "remove_task r s = Some s' \<Longrightarrow> pinged s s'"
  by (auto simp: remove_task_def bind_eq_Some_conv Let_def split: if_splits dest!: announce)
    (meson pinged_trans)+

lemma pinged_new [announce]:
  assumes "newTask a p np orig s = Some (res, s')"
  shows "pinged s s'"
proof -
  let ?t = "parac_task_init\<lparr>parent_task := p, has_task_store := True, path := np, originator := orig, has_handle := True\<rparr>"
  define s1 where "s1 = s\<lparr>tasks := a # tasks s, heap := (heap s)(a \<mapsto> \<lparr>wt = ?t, refcount = 0, in_work_queue = False\<rparr>)\<rparr>"
  define m where "m = (case p of None \<Rightarrow> Some (False, s1) | Some p \<Rightarrow> do {
     s \<leftarrow> upd_wrapper p (\<lambda>tw. tw\<lparr>refcount := refcount tw + 1\<rparr>) s1;
     pt \<leftarrow> get_task p s;
     s \<leftarrow> (if \<not> parac_path_is_extended np then do {
         l \<leftarrow> parac_path_get_next_left (path pt);
         s \<leftarrow> (if l = np then upd_task p (\<lambda>t. t\<lparr>slot0 := SlotTask a\<rparr>) s
               else do {
                 rp \<leftarrow> parac_path_get_next_right (path pt);
                 if rp = np then upd_task p (\<lambda>t. t\<lparr>slot1 := SlotTask a\<rparr>) s else Some s });
         pt \<leftarrow> get_task p s;
         c_assert (slot0 pt \<noteq> SlotNull \<or> slot1 pt \<noteq> SlotNull);
         Some s }
       else Some s);
     Some (stop pt, s) })"
  from assms obtain stopped s2 where m: "m = Some (stopped, s2)"
    and s': "(if stopped then Some (None, s2) else do {
       let s = manageAutoShutdownTimer (s2\<lparr>tasksSize := tasksSize s2 + 1\<rparr>);
       s \<leftarrow> upd_task a (\<lambda>t. t\<lparr>terminate := Some DefaultTerminate\<rparr>) s;
       Some (Some a, s) }) = Some (res, s')"
    unfolding newTask_def Let_def s1_def [symmetric] m_def [symmetric] by (auto simp: bind_eq_Some_conv)
  have "pinged s1 s2" using m unfolding m_def
    by (auto simp: bind_eq_Some_conv split: option.splits if_splits dest!: announce) (meson pinged_trans)+
  moreover have "pinged s2 s'" using s' by (auto simp: bind_eq_Some_conv Let_def split: if_splits dest!: announce)
  ultimately have "pinged s1 s'" by (rule pinged_trans)
  then show ?thesis by (simp add: s1_def)
qed

lemma pinged_pop_work [announce]:
  assumes "pop_work f s = Some (res, s')"
  shows "pinged s s'"
proof (cases "tasksWaitingForWorkerQueue s")
  case Nil
  with assms show ?thesis by (simp add: pop_work_def)
next
  case (Cons r q)
  have "pinged s (s\<lparr>tasksWaitingForWorkerQueue := q\<rparr>)" by (rule pinged_queue) (auto simp: Cons)
  with assms Cons show ?thesis
    by (auto simp: pop_work_def bind_eq_Some_conv Let_def insert_into_tasksBeingWorkedOn_def dest!: announce) (meson pinged_trans)
qed

lemma pinged_pop_offload [announce]:
  assumes "pop_offload node check s = Some (res, s')"
  shows "pinged s s'"
proof -
  have "pinged s (s\<lparr>tasksWaitingForWorkerQueue := take i (tasksWaitingForWorkerQueue s) @ drop (Suc i) (tasksWaitingForWorkerQueue s)\<rparr>)" for i
    by (rule pinged_queue) (auto dest: in_set_takeD in_set_dropD)
  with assms show ?thesis
    by (auto simp: pop_offload_def bind_eq_Some_conv Let_def split: option.splits dest!: announce) (meson pinged_trans)+
qed

lemma pinged_undo_offload [announce]: "undo_offload r s = Some s' \<Longrightarrow> pinged s s'"
  by (auto simp: undo_offload_def bind_eq_Some_conv Let_def split: if_splits dest!: announce) (meson pinged_trans)

lemma pinged_record [announce]: "record_in_parent p pth res idx s = Some s' \<Longrightarrow> pinged s s'"
  by (auto simp: record_in_parent_def bind_eq_Some_conv split: if_splits dest!: announce)

lemma pinged_not_done [announce]: "assess_not_done r st s = Some s' \<Longrightarrow> pinged s s'"
  by (auto simp: assess_not_done_def bind_eq_Some_conv Let_def split: if_splits dest!: announce) (meson pinged_trans)+

text \<open>What holds of the store a computation returns, if it returns one.\<close>

definition after :: "('a \<Rightarrow> bool) \<Rightarrow> 'a option \<Rightarrow> bool" where
  "after P m \<longleftrightarrow> (\<forall>x. m = Some x \<longrightarrow> P x)"

lemma after_bind [simp]: "after P (m \<bind> f) = after (\<lambda>x. after P (f x)) m"
  by (auto simp: after_def bind_eq_Some_conv)

lemma after_simps [simp]:
  "after P (Some x) = P x" "after P None"
  "after P (if c then a else b) = ((c \<longrightarrow> after P a) \<and> (\<not> c \<longrightarrow> after P b))"
  by (auto simp: after_def)

lemma after_case [simp]:
  "after P (case c of None \<Rightarrow> a | Some y \<Rightarrow> k y) = ((c = None \<longrightarrow> after P a) \<and> (\<forall>y. c = Some y \<longrightarrow> after P (k y)))"
  by (simp split: option.split)

lemma after_any: "(\<And>x. P x) \<Longrightarrow> after P m"
  by (simp add: after_def)

lemma pinged_unqueue [announce]: "remove_from_workQueue r s = Some s' \<Longrightarrow> pinged s s'"
  by (auto simp: remove_from_workQueue_def bind_eq_Some_conv Let_def emit_def upd_wrapper_iff pinged_def pings_def
      split: if_splits dest: set_mp [OF set_remove1_subset])

lemma pinged_notify [announce]: "notify_result r s = Some s' \<Longrightarrow> pinged s s'"
  by (auto simp: notify_result_def bind_eq_Some_conv Let_def split: if_splits option.splits dest!: announce)

definition pinging :: "(task_store \<Rightarrow> task_store option) \<Rightarrow> bool" where
  "pinging f \<longleftrightarrow> (\<forall>s s'. f s = Some s' \<longrightarrow> pinged s s')"

definition pinging2 :: "(task_store \<Rightarrow> ('a \<times> task_store) option) \<Rightarrow> bool" where
  "pinging2 f \<longleftrightarrow> (\<forall>s x s'. f s = Some (x, s') \<longrightarrow> pinged s s')"

lemma pinging_op: "pinging f \<Longrightarrow> pinged s0 s \<Longrightarrow> (\<And>s'. pinged s0 s' \<Longrightarrow> P s') \<Longrightarrow> after P (f s)"
  by (auto simp: after_def pinging_def intro: pinged_trans)

lemma pinging2_op: "pinging2 f \<Longrightarrow> pinged s0 s \<Longrightarrow> (\<And>x s'. pinged s0 s' \<Longrightarrow> P (x, s')) \<Longrightarrow> after P (f s)"
  by (auto simp: after_def pinging2_def) (metis pinged_trans)

lemma pingingI: "(\<And>s. after (pinged s) (f s)) \<Longrightarrow> pinging f"
  by (simp add: pinging_def after_def)

lemma pinging2I: "(\<And>s. after (\<lambda>(x, s'). pinged s s') (f s)) \<Longrightarrow> pinging2 f"
  by (auto simp: pinging2_def after_def)

lemma pinging_ops:
  "pinging (upd_task r g)" "pinging (upd_wrapper r h)" "pinging (orphan c)" "pinging (orphan_all cs)"
  "pinging (remove_from_workQueue r)" "pinging (notify_result r)" "pinging (remove_task r)" "pinging (assess_not_done r st)"
  "pinging (record_in_parent p pth res idx)"
  by (auto simp: pinging_def dest: announce)

lemmas after_pure = after_any [where 'a = parac_task] after_any [where 'a = task_wrapper] after_any [where 'a = "task_ref option"]
  after_any [where 'a = "task_ref option list option"] after_any [where 'a = "task_ref option list"]
  after_any [where 'a = "parac_status list option"] after_any [where 'a = "parac_status list"]
  after_any [where 'a = unit] after_any [where 'a = task_ref] after_any [where 'a = bool] after_any [where 'a = nat]

lemmas ping_intros = pinging_op [OF pinging_ops(1)] pinging_op [OF pinging_ops(2)] pinging_op [OF pinging_ops(3)]
  pinging_op [OF pinging_ops(4)] pinging_op [OF pinging_ops(5)] pinging_op [OF pinging_ops(6)] pinging_op [OF pinging_ops(7)]
  pinging_op [OF pinging_ops(8)] pinging_op [OF pinging_ops(9)] after_pure

lemma pinging_early_abort:
  assumes "\<And>r. pinging (tc r)"
  shows "pinging (early_abort_task tc r)"
  by (rule pingingI) (auto simp: early_abort_task_def intro!: pinging_op [OF assms] after_pure)

lemma pinging_abort_extended:
  assumes "\<And>r. pinging (tc r)"
  shows "pinging (abort_extended_from tc r n i)"
proof (induction n arbitrary: i)
  case (Suc n)
  show ?case
    by (rule pingingI) (auto intro!: pinging_op [OF pinging_early_abort [OF assms]] pinging_op [OF Suc.IH] ping_intros)
qed (simp add: pinging_def)

lemma pinging_binary:
  assumes "\<And>r. pinging (tc r)"
  shows "pinging2 (assess_binary d ot tc r b)"
  by (rule pinging2I) (auto simp: assess_binary_def intro!: pinging_op [OF pinging_early_abort [OF assms]] ping_intros)

lemma pinging_extended:
  assumes "\<And>r. pinging (tc r)"
  shows "pinging2 (assess_extended d ot tc r b)"
  by (rule pinging2I) (auto simp: assess_extended_def Let_def split: prod.split intro!: pinging_op [OF pinging_abort_extended [OF assms]] ping_intros)

lemma pinging_shared:
  assumes "pinging2 (a tc r b)"
  shows "pinging2 (shared_assess a tc r b)"
  by (rule pinging2I) (auto simp: shared_assess_def intro!: pinging2_op [OF assms] ping_intros)

lemma pinging2D: "pinging2 f \<Longrightarrow> after (\<lambda>(x, s'). pinged s s') (f s)"
  by (auto simp: pinging2_def after_def)

lemma pinging_run_assess:
  assumes "\<And>r. pinging (tc r)"
  shows "pinging2 (run_assess f tc r)"
proof (cases f)
  case DefaultAssess
  show ?thesis unfolding DefaultAssess run_assess.simps parac_task_default_assess_def existential_assess_def
    by (intro pinging_shared pinging_binary assms)
next
  case QbfExistentialAssess
  have "pinging2 (shared_assess existential_assess tc r True)" "pinging2 (shared_assess existential_assess_extended tc r True)"
    unfolding existential_assess_def existential_assess_extended_def
    by (intro pinging_shared pinging_binary pinging_extended assms)+
  then show ?thesis unfolding QbfExistentialAssess run_assess.simps parac_task_qbf_existential_assess_def
    by (intro pinging2I) (auto intro!: after_pure pinging2D)
next
  case QbfUniversalAssess
  have "pinging2 (universal_assess tc r True)"
    by (intro pinging2I) (auto simp: universal_assess_def intro!: after_pure pinging2D [OF pinging_binary] assms)
  then have "pinging2 (shared_assess universal_assess tc r True)" "pinging2 (shared_assess universal_assess_extended tc r True)"
    unfolding universal_assess_extended_def
    by (intro pinging_shared pinging_extended assms; assumption)+
  then show ?thesis unfolding QbfUniversalAssess run_assess.simps parac_task_qbf_universal_assess_def
    by (intro pinging2I) (auto intro!: after_pure pinging2D)
next
  case SolverTaskAssess
  have *: "pinging2 (parac_task_default_assess tc r)"
    unfolding parac_task_default_assess_def existential_assess_def by (intro pinging_shared pinging_binary assms)
  show ?thesis unfolding SolverTaskAssess
    by (intro pinging2I) (auto simp: SolverTask_static_assess_def intro!: pinging2_op [OF *] after_pure)
qed

lemma pinging_assess_done:
  assumes "\<And>b p. pinging (ac b p)"
  shows "pinging (assess_done ac rm rp r st)"
  by (rule pingingI) (auto simp: assess_done_def Let_def intro!: pinging_op [OF assms] ping_intros)

lemma pinging_assess_body:
  assumes "\<And>b p. pinging (ac b p)" "\<And>r. pinging (tc r)"
  shows "pinging (assess_task_body ac tc rm rp r)"
  by (rule pingingI) (auto simp: assess_task_body_def
     intro!: pinging2_op [OF pinging_run_assess [OF assms(2)]] pinging_op [OF pinging_assess_done [OF assms(1)]] ping_intros after_any [where 'a = assess_fn])

lemma pinging_copy: "pinging (copy_child_results n i r)"
proof (induction n arbitrary: i)
  case (Suc n)
  show ?case by (rule pingingI) (auto intro!: pinging_op [OF Suc.IH] ping_intros)
qed (simp add: pinging_def)

lemma pinging_terminate_extended:
  assumes "\<And>r. pinging (tc r)"
  shows "pinging (terminate_extended tc n i r)"
proof (induction n arbitrary: i)
  case (Suc n)
  show ?case by (rule pingingI) (auto intro!: pinging_op [OF assms] pinging_op [OF Suc.IH] ping_intros)
qed (simp add: pinging_def)

lemma pinging_terminate_child:
  assumes "\<And>r. pinging (tc r)"
  shows "pinging (terminate_child tc res c)"
  by (rule pingingI) (auto simp: terminate_child_def intro!: pinging_op [OF assms] ping_intros)

lemma pinging_default_terminate:
  assumes "\<And>a b r. pinging (ac a b r)" "\<And>r. pinging (tc r)"
  shows "pinging (default_terminate_body ac tc r)"
  by (rule pingingI) (auto simp: default_terminate_body_def Let_def
     intro!: pinging_op [OF assms(1)] pinging_op [OF pinging_terminate_child [OF assms(2)]]
       pinging_op [OF pinging_terminate_extended [OF assms(2)]] pinging_op [OF pinging_copy] ping_intros after_any [where 'a = node_ref])

lemma pinging_run_terminate:
  assumes "\<And>a b r. pinging (ac a b r)" "\<And>r. pinging (tc r)"
  shows "pinging (run_terminate f ac tc r)"
proof (cases f)
  case DefaultTerminate
  then show ?thesis using pinging_default_terminate [OF assms] by (simp add: pinging_def)
qed (rule pingingI; auto simp: SolverTask_static_terminate_def QBFSolverTask_static_terminate_def KissatTask_static_terminate_def intro!: ping_intros)+

lemma pinging_call: "pinging (call n c)"
proof (induction n arbitrary: c)
  case (Suc n)
  have "pinging (assess_task_body (\<lambda>b p. call n (Assess b b p)) (\<lambda>r. call n (Terminate r)) x y r)" for x y r
    by (intro pinging_assess_body Suc.IH)
  moreover have "pinging (run_terminate f (\<lambda>a b p. call n (Assess a b p)) (\<lambda>r. call n (Terminate r)) r)" for f r
    by (intro pinging_run_terminate Suc.IH)
  ultimately show ?case by (cases c) (simp_all add: pinging_def bind_eq_Some_conv, blast+)
qed (simp add: pinging_def)

lemma store_step_pinged: "store_step s s' \<Longrightarrow> pinged s s'"
proof (induction rule: store_step.induct)
  case (assess s r tw n s')
  then show ?case using pinging_call [of n "Assess True True r"] by (simp add: pinging_def assess_task_def)
qed (auto simp: autoShutdownTimerExpired_def dest: announce)

section \<open>The invariant of the executor\<close>

fun holder :: "worker_pos \<Rightarrow> bool" where
  "holder LoopHead = True" | "holder TestCheck = True" | "holder TestStop = True" | "holder BeforeWait = True"
| "holder AfterWait = True" | "holder _ = False"

text \<open>A worker that will look at the queue again before it waits.\<close>

definition awake :: "bool \<Rightarrow> worker_pos \<Rightarrow> bool" where
  "awake check p \<longleftrightarrow> (case p of TestCheck \<Rightarrow> check | TestStop \<Rightarrow> False | BeforeWait \<Rightarrow> False | Waiting \<Rightarrow> False | Exited \<Rightarrow> False
     | _ \<Rightarrow> True)"

definition runner_inv :: "runner \<Rightarrow> bool" where
  "runner_inv rn \<longleftrightarrow> store_inv (rn_store rn) \<and> has_ping_on_work (rn_store rn) \<and> rn_workers rn \<noteq> []
     \<and> (\<forall>k < length (rn_workers rn). holder (rn_workers rn ! k) \<longleftrightarrow> notifierOwner rn = Some k)
     \<and> (\<forall>k. notifierOwner rn = Some k \<longrightarrow> k < length (rn_workers rn))
     \<and> (Exited \<in> set (rn_workers rn) \<longrightarrow> rn_stop rn)"

definition wake_inv :: "runner \<Rightarrow> bool" where
  "wake_inv rn \<longleftrightarrow> (tasksWaitingForWorkerQueue (rn_store rn) \<noteq> [] \<and> \<not> rn_stop rn \<longrightarrow>
     (0 < rn_pings rn \<or> 0 < rn_notifies rn \<or> (\<exists>p \<in> set (rn_workers rn). awake (notifierCheck rn) p))
     \<and> (TestCheck \<in> set (rn_workers rn) \<longrightarrow> 0 < rn_pings rn \<or> notifierCheck rn)
     \<and> (window rn \<longrightarrow> 0 < rn_pings rn \<or> 0 < rn_notifies rn))"

lemma awake_simps [simp]:
  "awake c RunHead" "awake c GetFirst" "awake c LockMutex" "awake c LoopHead" "awake c TestCheck = c" "\<not> awake c TestStop"
  "\<not> awake c BeforeWait" "\<not> awake c Waiting" "awake c Notified" "awake c AfterWait" "awake c (Working r)" "\<not> awake c Exited"
  by (simp_all add: awake_def)

lemma goto_simps [simp]:
  "rn_store (goto k p rn) = rn_store rn" "notifierCheck (goto k p rn) = notifierCheck rn" "rn_stop (goto k p rn) = rn_stop rn"
  "notifierOwner (goto k p rn) = notifierOwner rn" "rn_pings (goto k p rn) = rn_pings rn" "rn_notifies (goto k p rn) = rn_notifies rn"
  "rn_workers (goto k p rn) = (rn_workers rn)[k := p]" "rn_dropped (goto k p rn) = rn_dropped rn"
  by (simp_all add: goto_def)

lemma unlock_simps [simp]:
  "rn_store (unlock rn) = rn_store rn" "notifierCheck (unlock rn) = notifierCheck rn" "rn_stop (unlock rn) = rn_stop rn"
  "notifierOwner (unlock rn) = None" "rn_pings (unlock rn) = rn_pings rn" "rn_notifies (unlock rn) = rn_notifies rn"
  "rn_workers (unlock rn) = rn_workers rn" "rn_dropped (unlock rn) = rn_dropped rn"
  by (simp_all add: unlock_def)

lemma pop_work_frame:
  assumes "pop_work f s = Some (res, s')" "store_inv s"
  shows "store_inv s'" "has_ping_on_work s' = has_ping_on_work s" "pings s' = pings s"
    "set (tasksWaitingForWorkerQueue s') \<subseteq> set (tasksWaitingForWorkerQueue s)"
    "res = None \<Longrightarrow> tasksWaitingForWorkerQueue s' = []"
proof -
  show "store_inv s'" using store_step_inv [OF store_step.pop_work [OF assms(1)] assms(2)] .
  show "has_ping_on_work s' = has_ping_on_work s" "pings s' = pings s"
    "set (tasksWaitingForWorkerQueue s') \<subseteq> set (tasksWaitingForWorkerQueue s)"
    using assms(1) by (auto simp: pop_work_def bind_eq_Some_conv Let_def upd_task_iff upd_wrapper_iff pings_def
        insert_into_tasksBeingWorkedOn_def split: list.splits)
  show "res = None \<Longrightarrow> tasksWaitingForWorkerQueue s' = []" using pop_work_empty [of f s s'] assms(1) by auto
qed

text \<open>The moves of one worker, as a relation between places.\<close>

definition moved :: "nat \<Rightarrow> worker_pos \<Rightarrow> worker_pos \<Rightarrow> runner \<Rightarrow> runner \<Rightarrow> bool" where
  "moved k p p' rn rn' \<longleftrightarrow> k < length (rn_workers rn) \<and> rn_workers rn ! k = p \<and> rn_workers rn' = (rn_workers rn)[k := p']
     \<and> store_inv (rn_store rn') \<and> has_ping_on_work (rn_store rn') = has_ping_on_work (rn_store rn)
     \<and> set (tasksWaitingForWorkerQueue (rn_store rn')) \<subseteq> set (tasksWaitingForWorkerQueue (rn_store rn))
     \<and> rn_stop rn' = rn_stop rn \<and> rn_pings rn' = rn_pings rn \<and> rn_notifies rn' = rn_notifies rn
     \<and> notifierCheck rn' = (notifierCheck rn \<and> p \<noteq> TestCheck)
     \<and> notifierOwner rn' = (if holder p' then Some k else if holder p then None else notifierOwner rn)
     \<and> (holder p' \<and> \<not> holder p \<longrightarrow> notifierOwner rn = None)
     \<and> (\<not> awake (notifierCheck rn') p' \<longrightarrow>
          p' = Exited \<and> p = RunHead \<and> rn_stop rn
        \<or> p' = TestCheck \<and> p = LoopHead \<and> tasksWaitingForWorkerQueue (rn_store rn') = []
        \<or> p' = TestStop \<and> p = TestCheck \<and> \<not> notifierCheck rn
        \<or> p' = BeforeWait \<and> p = TestStop \<and> \<not> rn_stop rn
        \<or> p' = Waiting \<and> p = BeforeWait)"

lemma moved_pop:
  assumes "pop_work (Some flag) (rn_store rn) = Some (res, s)" "store_inv (rn_store rn)" "k < length (rn_workers rn)"
    "rn_workers rn ! k = p" "rn_store rn' = s" "rn_workers rn' = (rn_workers rn)[k := p']" "rn_stop rn' = rn_stop rn"
    "rn_pings rn' = rn_pings rn" "rn_notifies rn' = rn_notifies rn" "notifierCheck rn' = notifierCheck rn" "p \<noteq> TestCheck"
    "notifierOwner rn' = (if holder p' then Some k else if holder p then None else notifierOwner rn)" "holder p' \<Longrightarrow> holder p"
    "\<not> awake (notifierCheck rn) p' \<Longrightarrow> p' = TestCheck \<and> p = LoopHead \<and> res = None"
  shows "moved k p p' rn rn'"
  unfolding moved_def using assms pop_work_frame [OF assms(1,2)] by (simp (no_asm_simp)) blast

lemma worker_step_moved:
  assumes "worker_step k flag rn = Some rn'" "store_inv (rn_store rn)"
    and owner: "holder (rn_workers rn ! k) \<Longrightarrow> notifierOwner rn = Some k"
  shows "\<exists>p'. moved k (rn_workers rn ! k) p' rn rn'"
proof -
  have k: "k < length (rn_workers rn)" using assms(1) by (simp add: worker_step_def split: if_splits)
  show ?thesis
  proof (cases "rn_workers rn ! k")
    case GetFirst
    with assms k obtain res s where p: "pop_work (Some flag) (rn_store rn) = Some (res, s)"
      "rn' = goto k (case res of None \<Rightarrow> LockMutex | Some r \<Rightarrow> Working r) (rn\<lparr>rn_store := s\<rparr>)"
      by (auto simp: worker_step_def bind_eq_Some_conv)
    show ?thesis
      by (rule exI, rule moved_pop [OF p(1) assms(2) k refl]) (auto simp: p(2) GetFirst split: option.splits)
  next
    case LoopHead
    show ?thesis
    proof (cases "rn_stop rn")
      case True
      with LoopHead assms k show ?thesis by (auto simp: worker_step_def moved_def)
    next
      case False
      with LoopHead assms k obtain res s where p: "pop_work (Some flag) (rn_store rn) = Some (res, s)"
        "rn' = (case res of None \<Rightarrow> goto k TestCheck (rn\<lparr>rn_store := s\<rparr>)
          | Some r \<Rightarrow> goto k (Working r) (unlock (rn\<lparr>rn_store := s\<rparr>)))"
        by (auto simp: worker_step_def bind_eq_Some_conv)
      show ?thesis
        by (rule exI [of _ "case res of None \<Rightarrow> TestCheck | Some r \<Rightarrow> Working r"], rule moved_pop [OF p(1) assms(2) k refl])
          (auto simp: p(2) LoopHead owner [unfolded LoopHead] split: option.splits)
    qed
  next
    case AfterWait
    with assms k obtain res s where p: "pop_work (Some flag) (rn_store rn) = Some (res, s)"
      and rest: "(case res of None \<Rightarrow> Some (goto k LoopHead (rn\<lparr>rn_store := s\<rparr>))
          | Some r \<Rightarrow> do { t \<leftarrow> get_task r s;
              Some (if \<not> rn_stop rn \<and> \<not> stop t then goto k (Working r) (unlock (rn\<lparr>rn_store := s\<rparr>))
                    else goto k LoopHead (rn\<lparr>rn_store := s, rn_dropped := rn_dropped rn @ [r]\<rparr>)) }) = Some rn'"
      by (auto simp: worker_step_def bind_eq_Some_conv)
    from rest have f: "rn_store rn' = s" "rn_stop rn' = rn_stop rn" "rn_pings rn' = rn_pings rn"
      "rn_notifies rn' = rn_notifies rn" "notifierCheck rn' = notifierCheck rn"
      and "rn_workers rn' = (rn_workers rn)[k := LoopHead] \<and> notifierOwner rn' = notifierOwner rn
        \<or> (\<exists>r. rn_workers rn' = (rn_workers rn)[k := Working r] \<and> notifierOwner rn' = None)"
      by (auto simp: bind_eq_Some_conv split: option.splits if_splits)
    then obtain p' where p': "rn_workers rn' = (rn_workers rn)[k := p']" "holder p' \<Longrightarrow> p' = LoopHead"
      "notifierOwner rn' = (if holder p' then notifierOwner rn else None)" "awake (notifierCheck rn) p'"
      by fastforce
    show ?thesis
      by (rule exI, rule moved_pop [OF p assms(2) k refl f(1) p'(1) f(2-5)])
        (use p' owner in \<open>simp_all add: AfterWait\<close>)
  qed (use assms k in \<open>auto simp: worker_step_def moved_def split: if_splits\<close>)
qed

lemma set_update_iff: "k < length xs \<Longrightarrow> x \<in> set (xs[k := y]) \<longleftrightarrow> x = y \<or> (\<exists>j < length xs. j \<noteq> k \<and> xs ! j = x)"
  by (auto simp: in_set_conv_nth nth_list_update)

lemma set_update_other: "x \<in> set (xs[k := y]) \<Longrightarrow> x \<noteq> y \<Longrightarrow> x \<in> set xs"
  using set_update_subset_insert [of xs k y] by blast

lemma moved_inv:
  assumes m: "moved k p p' rn rn'" and inv: "runner_inv rn"
  shows "runner_inv rn'"
proof -
  have k: "k < length (rn_workers rn)" "rn_workers rn ! k = p" "rn_workers rn' = (rn_workers rn)[k := p']"
    using m by (simp_all add: moved_def)
  have own: "holder (rn_workers rn ! j) \<longleftrightarrow> notifierOwner rn = Some j" if "j < length (rn_workers rn)" for j
    using inv that by (simp add: runner_inv_def)
  have o': "notifierOwner rn' = (if holder p' then Some k else if holder p then None else notifierOwner rn)"
    "holder p' \<Longrightarrow> \<not> holder p \<Longrightarrow> notifierOwner rn = None"
    using m by (simp_all add: moved_def)
  have "holder (rn_workers rn' ! j) \<longleftrightarrow> notifierOwner rn' = Some j" if "j < length (rn_workers rn)" for j
    using that own [OF that] own [OF k(1)] o' k by (auto simp: nth_list_update)
  moreover have "j < length (rn_workers rn)" if "notifierOwner rn' = Some j" for j
    using that o'(1) k(1) inv by (auto simp: runner_inv_def split: if_splits)
  moreover have "Exited \<in> set (rn_workers rn') \<longrightarrow> rn_stop rn'"
  proof
    assume e: "Exited \<in> set (rn_workers rn')"
    have st: "rn_stop rn' = rn_stop rn" using m by (simp add: moved_def)
    show "rn_stop rn'"
    proof (cases "p' = Exited")
      case True
      with m show ?thesis by (auto simp: moved_def)
    next
      case False
      with e k(3) have "Exited \<in> set (rn_workers rn)" by (auto dest: set_update_other)
      with inv st show ?thesis by (simp add: runner_inv_def)
    qed
  qed
  ultimately show ?thesis using inv m k(3) by (auto simp: runner_inv_def moved_def)
qed

lemma moved_wake:
  assumes m: "moved k p p' rn rn'" and inv: "runner_inv rn" and w: "wake_inv rn"
  shows "wake_inv rn'"
  unfolding wake_inv_def
proof (intro impI)
  let ?ws = "rn_workers rn"
  have k: "k < length ?ws" "?ws ! k = p" "rn_workers rn' = ?ws[k := p']" using m by (simp_all add: moved_def)
  have same: "rn_stop rn' = rn_stop rn" "rn_pings rn' = rn_pings rn" "rn_notifies rn' = rn_notifies rn"
    "notifierCheck rn' = (notifierCheck rn \<and> p \<noteq> TestCheck)" using m by (simp_all add: moved_def)
  assume q': "tasksWaitingForWorkerQueue (rn_store rn') \<noteq> [] \<and> \<not> rn_stop rn'"
  with m have q: "tasksWaitingForWorkerQueue (rn_store rn) \<noteq> []" "\<not> rn_stop rn" by (auto simp: moved_def)
  with w have old: "TestCheck \<in> set ?ws \<Longrightarrow> 0 < rn_pings rn \<or> notifierCheck rn"
    "window rn \<Longrightarrow> 0 < rn_pings rn \<or> 0 < rn_notifies rn" by (simp_all add: wake_inv_def)
  have pin: "p \<in> set ?ws" using k by (metis nth_mem)
  have asleep: "0 < rn_pings rn \<or> 0 < rn_notifies rn" if "\<not> awake (notifierCheck rn') p'"
    using that m q' old pin by (auto simp: moved_def window_def)
  have only: "p \<noteq> TestCheck" if "j < length ?ws" "j \<noteq> k" "?ws ! j = TestCheck" for j
    proof
    assume "p = TestCheck"
    with that k have "holder (?ws ! j)" "holder (?ws ! k)" by simp_all
    with inv that(1,2) k(1) show False unfolding runner_inv_def by (metis option.inject)
  qed
  have "\<exists>x\<in>set (rn_workers rn'). awake (notifierCheck rn') x" if "awake (notifierCheck rn') p'"
    using that k by (auto simp: set_update_iff)
  moreover have "0 < rn_pings rn \<or> notifierCheck rn'" if "TestCheck \<in> set (rn_workers rn')"
    using that k only old(1) m q' same(4) by (auto simp: set_update_iff moved_def dest: nth_mem)
  moreover have "0 < rn_pings rn \<or> 0 < rn_notifies rn" if "window rn'"
    using that k old asleep by (auto simp: set_update_iff window_def dest: nth_mem)
  ultimately show "(0 < rn_pings rn' \<or> 0 < rn_notifies rn' \<or> (\<exists>p\<in>set (rn_workers rn'). awake (notifierCheck rn') p))
     \<and> (TestCheck \<in> set (rn_workers rn') \<longrightarrow> 0 < rn_pings rn' \<or> notifierCheck rn')
     \<and> (window rn' \<longrightarrow> 0 < rn_pings rn' \<or> 0 < rn_notifies rn')"
    unfolding same(2,3) using asleep by blast
qed

lemma ping_store_inv:
  "workping_store rn = Some rn' \<Longrightarrow> runner_inv rn \<Longrightarrow> runner_inv rn'"
  "workping_store rn = Some rn' \<Longrightarrow> wake_inv rn'"
  by (auto simp: workping_store_def runner_inv_def wake_inv_def split: if_splits)

lemma wake_worker_inv:
  assumes "runner_inv rn" "k < length (rn_workers rn)" "rn_workers rn ! k = Waiting"
  shows "runner_inv (goto k Notified rn)"
  using assms by (auto simp: runner_inv_def nth_list_update dest: set_update_other)

lemma wake_worker_wake:
  assumes "k < length (rn_workers rn)" "window rn \<Longrightarrow> tasksWaitingForWorkerQueue (rn_store rn) \<noteq> [] \<Longrightarrow> \<not> rn_stop rn \<Longrightarrow>
      0 < rn_pings rn \<or> 0 < rn_notifies rn"
    "TestCheck \<in> set (rn_workers rn) \<Longrightarrow> tasksWaitingForWorkerQueue (rn_store rn) \<noteq> [] \<Longrightarrow> \<not> rn_stop rn \<Longrightarrow>
      0 < rn_pings rn \<or> notifierCheck rn"
  shows "wake_inv (goto k Notified rn)"
proof -
  have "Notified \<in> set ((rn_workers rn)[k := Notified])" using assms(1) by (simp add: set_update_memI)
  then have "\<exists>p\<in>set ((rn_workers rn)[k := Notified]). awake (notifierCheck rn) p" by (rule bexI [rotated]) simp
  moreover have "TestCheck \<in> set ((rn_workers rn)[k := Notified]) \<Longrightarrow> TestCheck \<in> set (rn_workers rn)"
    "window (goto k Notified rn) \<Longrightarrow> window rn"
    by (auto simp: window_def dest: set_update_other)
  ultimately show ?thesis using assms(2,3) unfolding wake_inv_def by simp
qed

text \<open>A notification that nobody waits for leaves some worker awake.\<close>

lemma nobody_waits:
  assumes "runner_inv rn" "wake_inv rn" "Waiting \<notin> set (rn_workers rn)" "\<not> window rn" "\<not> rn_stop rn"
    "tasksWaitingForWorkerQueue (rn_store rn) \<noteq> []"
  shows "0 < rn_pings rn \<or> (\<exists>p \<in> set (rn_workers rn). awake (notifierCheck rn) p)"
proof -
  obtain p where p: "p \<in> set (rn_workers rn)" using assms(1) unfolding runner_inv_def by (meson last_in_set)
  have "p \<noteq> Waiting" "p \<noteq> TestStop" "p \<noteq> BeforeWait" "p \<noteq> Exited"
    using p assms(1,3,4,5) by (auto simp: window_def runner_inv_def)
  moreover have "p = TestCheck \<Longrightarrow> 0 < rn_pings rn \<or> notifierCheck rn" using assms(2,5,6) p by (simp add: wake_inv_def)
  ultimately show ?thesis using p by (cases p) (auto intro: bexI [of _ p])
qed

lemma ping_notify_inv:
  assumes "workping_notify woken rn = Some rn'" "runner_inv rn" "wake_inv rn" "\<not> window rn"
  shows "runner_inv rn'" "wake_inv rn'"
proof -
  let ?r = "rn\<lparr>rn_notifies := rn_notifies rn - 1\<rparr>"
  have r: "runner_inv ?r" using assms(2) by (simp add: runner_inv_def)
  have nw: "\<not> window ?r" using assms(4) by (simp add: window_def)
  have tc: "0 < rn_pings rn \<or> notifierCheck rn"
    if "TestCheck \<in> set (rn_workers rn)" "tasksWaitingForWorkerQueue (rn_store rn) \<noteq> []" "\<not> rn_stop rn"
    using assms(3) that by (simp add: wake_inv_def)
  show "runner_inv rn'" using assms(1) r wake_worker_inv [OF r]
    by (auto simp: workping_notify_def Let_def split: option.splits if_splits)
  show "wake_inv rn'"
  proof (cases woken)
    case None
    with assms(1) have "Waiting \<notin> set (rn_workers rn)" "rn' = ?r"
      by (auto simp: workping_notify_def Let_def split: if_splits)
    with nobody_waits [OF assms(2,3) _ assms(4)] tc nw show ?thesis by (auto simp: wake_inv_def)
  next
    case (Some k)
    with assms(1) have k: "k < length (rn_workers ?r)" "rn' = goto k Notified ?r"
      by (auto simp: workping_notify_def Let_def split: if_splits)
    show ?thesis unfolding k(2) by (rule wake_worker_wake [OF k(1)]) (use nw tc in auto)
  qed
qed

lemma with_store_inv:
  assumes "store_step (rn_store rn) s'" "runner_inv rn"
  shows "runner_inv (with_store s' rn)" "wake_inv rn \<Longrightarrow> wake_inv (with_store s' rn)"
proof -
  have p: "pinged (rn_store rn) s'" using assms(1) by (rule store_step_pinged)
  with assms(2) store_step_inv [OF assms(1)] show "runner_inv (with_store s' rn)"
    by (auto simp: runner_inv_def with_store_def pinged_def)
  assume "wake_inv rn"
  with p assms(2) show "wake_inv (with_store s' rn)"
    by (auto simp: runner_inv_def wake_inv_def with_store_def pinged_def window_def)
qed

lemma exit_inv:
  assumes "runner_inv rn"
  shows "runner_inv (WorkerExecutor_exit_store rn)" "wake_inv (WorkerExecutor_exit_store rn)"
    "runner_inv (WorkerExecutor_exit_notify rn)" "wake_inv rn \<Longrightarrow> wake_inv (WorkerExecutor_exit_notify rn)"
proof -
  show "runner_inv (WorkerExecutor_exit_store rn)" "wake_inv (WorkerExecutor_exit_store rn)"
    using assms by (auto simp: runner_inv_def wake_inv_def WorkerExecutor_exit_store_def)
  show "runner_inv (WorkerExecutor_exit_notify rn)"
    using assms by (auto simp: runner_inv_def WorkerExecutor_exit_notify_def split: if_splits)
  have "(\<exists>x. x \<in> set (rn_workers rn) \<and> awake c x) \<Longrightarrow>
      \<exists>x. x \<in> set (rn_workers rn) \<and> awake c (if x = Waiting then Notified else x)" for c by fastforce
  then show "wake_inv rn \<Longrightarrow> wake_inv (WorkerExecutor_exit_notify rn)"
    by (auto simp: wake_inv_def WorkerExecutor_exit_notify_def window_def split: if_splits)
qed

lemma executor_init_inv:
  assumes "store_inv s" "tasksWaitingForWorkerQueue s = []" "0 < n"
  shows "runner_inv (WorkerExecutor_init n s)" "wake_inv (WorkerExecutor_init n s)"
proof -
  have "store_inv (s\<lparr>has_ping_on_work := True\<rparr>)" using assms(1) by (rule store_inv_frame) simp_all
  with assms show "runner_inv (WorkerExecutor_init n s)" "wake_inv (WorkerExecutor_init n s)"
    by (auto simp: runner_inv_def wake_inv_def WorkerExecutor_init_def)
qed

lemma worker_step_inv:
  assumes "worker_step k flag rn = Some rn'" "runner_inv rn"
  shows "runner_inv rn'" "wake_inv rn \<Longrightarrow> wake_inv rn'"
proof -
  have k: "k < length (rn_workers rn)" using assms(1) by (simp add: worker_step_def split: if_splits)
  with assms(2) have "store_inv (rn_store rn)" "holder (rn_workers rn ! k) \<Longrightarrow> notifierOwner rn = Some k"
    by (simp_all add: runner_inv_def)
  from worker_step_moved [OF assms(1) this] obtain p' where "moved k (rn_workers rn ! k) p' rn rn'" by blast
  with assms(2) moved_inv moved_wake show "runner_inv rn'" "wake_inv rn \<Longrightarrow> wake_inv rn'" by blast+
qed

lemma runner_reach_inv: "runner_reach timely rn \<Longrightarrow> runner_inv rn"
proof (induction rule: runner_reach.induct)
  case (ping_notify rn woken rn')
  then show ?case using wake_worker_inv [of "rn\<lparr>rn_notifies := rn_notifies rn - 1\<rparr>"]
    by (auto simp: workping_notify_def Let_def runner_inv_def split: option.splits if_splits)
qed (auto intro: worker_step_inv with_store_inv ping_store_inv exit_inv executor_init_inv wake_worker_inv)

lemma timely_wake: "runner_reach timely rn \<Longrightarrow> timely \<Longrightarrow> wake_inv rn"
proof (induction rule: runner_reach.induct)
  case (ping_notify rn woken rn')
  then show ?case using ping_notify_inv [OF _ runner_reach_inv] by blast
next
  case (spurious rn k)
  then show ?case by (intro wake_worker_wake) (auto simp: wake_inv_def)
qed (auto intro: worker_step_inv with_store_inv ping_store_inv exit_inv executor_init_inv runner_reach_inv)

section \<open>Wake-ups\<close>

text \<open>
  C8 (no lost wake-up, when notifications are timely).  If no notification of \<^verbatim>\<open>workping\<close> falls between the test of
  the flag and the wait of a worker, a waiting task is never left lying: whenever tasks wait and the executor runs, a
  worker is awake, or a ping or its notification is still to come.  The callbacks of the task store are part of the
  run: every operation of the store that adds a waiting task pings.
\<close>

theorem no_lost_wakeup:
  assumes "runner_reach True rn"
  shows "\<not> stuck rn"
proof -
  have "wake_inv rn" using timely_wake [OF assms] by simp
  then show ?thesis by (fastforce simp: wake_inv_def stuck_def)
qed

lemma example_runner: "runner_reach timely (WorkerExecutor_init 1 (TaskStore_init 0 True True 0))"
  by (rule runner_reach.init [OF store_init_inv]) (simp_all add: TaskStore_init_def)

theorem no_lost_wakeup_witness:
  "\<not> stuck (WorkerExecutor_init 1 (TaskStore_init 0 True True 0))"
  by (rule no_lost_wakeup [OF example_runner])

text \<open>The one worker of the example goes to the door of the wait.\<close>

definition at_door :: runner where
  "at_door = (WorkerExecutor_init 1 (TaskStore_init 0 True True 0))\<lparr>rn_workers := [BeforeWait], notifierOwner := Some 0\<rparr>"

lemma door_reach: "runner_reach timely at_door"
proof -
  define rn where "rn p own = (WorkerExecutor_init 1 (TaskStore_init 0 True True 0))\<lparr>rn_workers := [p], notifierOwner := own\<rparr>" for p own
  have step: "worker_step 0 f (rn p own) = (case p of RunHead \<Rightarrow> Some (rn GetFirst own) | GetFirst \<Rightarrow> Some (rn LockMutex own)
    | LockMutex \<Rightarrow> (if own = None then Some (rn LoopHead (Some 0)) else None) | LoopHead \<Rightarrow> Some (rn TestCheck own)
    | TestCheck \<Rightarrow> Some (rn TestStop own) | TestStop \<Rightarrow> Some (rn BeforeWait own) | _ \<Rightarrow> worker_step 0 f (rn p own))" for p f own
    by (simp add: rn_def worker_step_def WorkerExecutor_init_def goto_def pop_work_def TaskStore_init_def split: worker_pos.split)
  have 0: "runner_reach timely (rn RunHead None)" using example_runner [of timely]
    by (simp add: rn_def WorkerExecutor_init_def)
  note go = runner_reach.worker [where k = 0 and flag = 0, OF _ trans [OF step]]
  have 1: "runner_reach timely (rn GetFirst None)" by (rule go [OF 0]) simp
  have 2: "runner_reach timely (rn LockMutex None)" by (rule go [OF 1]) simp
  have 3: "runner_reach timely (rn LoopHead (Some 0))" by (rule go [OF 2]) simp
  have 4: "runner_reach timely (rn TestCheck (Some 0))" by (rule go [OF 3]) simp
  have 5: "runner_reach timely (rn TestStop (Some 0))" by (rule go [OF 4]) simp
  have 6: "runner_reach timely (rn BeforeWait (Some 0))" by (rule go [OF 5]) simp
  then show ?thesis by (simp add: rn_def at_door_def)
qed

lemma store_steps_reach:
  "store_step\<^sup>*\<^sup>* (rn_store rn) s \<Longrightarrow> runner_reach timely rn \<Longrightarrow>
    \<exists>rn'. runner_reach timely rn' \<and> rn_store rn' = s \<and> rn_workers rn' = rn_workers rn \<and> rn_stop rn' = rn_stop rn
      \<and> rn_notifies rn' = rn_notifies rn"
proof (induction rule: rtranclp_induct)
  case (step s s')
  then obtain rn' where "runner_reach timely rn'" "rn_store rn' = s" "rn_workers rn' = rn_workers rn" "rn_stop rn' = rn_stop rn"
    "rn_notifies rn' = rn_notifies rn" by blast
  with runner_reach.store [of timely rn' s'] step(2) show ?case by (intro exI [of _ "with_store s' rn'"]) (simp add: with_store_def)
qed blast

lemma drain_pings:
  assumes "runner_reach False rn" "Waiting \<notin> set (rn_workers rn)" "rn_notifies rn = 0"
  shows "\<exists>rn'. runner_reach False rn' \<and> rn_pings rn' = 0 \<and> rn_notifies rn' = 0 \<and> rn_store rn' = rn_store rn
     \<and> rn_workers rn' = rn_workers rn \<and> rn_stop rn' = rn_stop rn"
  using assms
proof (induction "rn_pings rn" arbitrary: rn)
  case (Suc n)
  let ?a = "rn\<lparr>notifierCheck := True, rn_pings := n, rn_notifies := 1\<rparr>" and ?b = "rn\<lparr>notifierCheck := True, rn_pings := n\<rparr>"
  have "workping_store rn = Some ?a" using Suc.hyps(2) Suc.prems(3) by (simp add: workping_store_def flip: Suc.hyps(2))
  with Suc.prems(1) have a: "runner_reach False ?a" by (rule runner_reach.ping_store)
  have "workping_notify None ?a = Some ?b" using Suc.prems(2,3) by (simp add: workping_notify_def)
  then have "runner_reach False ?b" using a runner_reach.ping_notify [of False ?a None ?b] by simp
  from Suc.hyps(1) [OF _ this] Suc.prems(2,3) show ?case by simp
qed auto

text \<open>
  C9 (lost wake-up).  \<^verbatim>\<open>workping\<close> does not take the mutex of the condition variable: a notification that falls between
  the test of the flag and the wait reaches nobody, and the executor can come to a state in which a task waits, the only worker
  sleeps and nothing is on its way to wake it.
\<close>

theorem lost_wakeup: "\<exists>rn. runner_reach False rn \<and> stuck rn"
proof -
  have st: "rn_store at_door = TaskStore_init 0 True True 0"
    by (simp add: at_door_def WorkerExecutor_init_def TaskStore_init_def)
  obtain s where s: "store_step\<^sup>*\<^sup>* (rn_store at_door) s" "tasksWaitingForWorkerQueue s = [1]"
    unfolding st using example_enqueue_steps by blast
  have door: "rn_workers at_door = [BeforeWait]" "\<not> rn_stop at_door" "rn_notifies at_door = 0"
    by (simp_all add: at_door_def WorkerExecutor_init_def)
  from store_steps_reach [OF s(1) door_reach] door obtain r0 where r0: "runner_reach False r0" "rn_store r0 = s"
    "rn_workers r0 = [BeforeWait]" "\<not> rn_stop r0" "rn_notifies r0 = 0" by auto
  from drain_pings [OF r0(1) _ r0(5)] r0 obtain rn where
    rn: "runner_reach False rn" "rn_pings rn = 0" "rn_notifies rn = 0" "rn_store rn = s" "rn_workers rn = [BeforeWait]" "\<not> rn_stop rn"
    by auto
  let ?r = "goto 0 Waiting (unlock rn)"
  have "worker_step 0 0 rn = Some ?r" using rn(5) by (simp add: worker_step_def)
  with rn(1) have "runner_reach False ?r" by (rule runner_reach.worker)
  moreover have "stuck ?r" using rn s(2) by (simp add: stuck_def)
  ultimately show ?thesis by blast
qed

section \<open>Exit\<close>

text \<open>How many steps a worker still has at most, once the flag \<^verbatim>\<open>m_stop\<close> is set and nobody is notified any more.\<close>

fun stop_rank :: "worker_pos \<Rightarrow> nat" where
  "stop_rank Exited = 0" | "stop_rank RunHead = 1" | "stop_rank (Working r) = 2" | "stop_rank LoopHead = 2"
| "stop_rank TestStop = 2" | "stop_rank LockMutex = 3" | "stop_rank AfterWait = 3" | "stop_rank GetFirst = 4"
| "stop_rank TestCheck = 4" | "stop_rank Notified = 4" | "stop_rank Waiting = 5" | "stop_rank BeforeWait = 6"

lemma sum_list_update_less:
  fixes f :: "'a \<Rightarrow> nat"
  assumes "k < length xs" "f y < f (xs ! k)"
  shows "(\<Sum>x\<leftarrow>xs[k := y]. f x) < (\<Sum>x\<leftarrow>xs. f x)"
proof -
  have "xs = take k xs @ xs ! k # drop (Suc k) xs" using assms(1) by (rule id_take_nth_drop)
  then have "(\<Sum>x\<leftarrow>xs. f x) = (\<Sum>x\<leftarrow>take k xs. f x) + f (xs ! k) + (\<Sum>x\<leftarrow>drop (Suc k) xs. f x)"
    by (metis add.assoc list.simps(9) map_append sum_list.Cons sum_list_append)
  then show ?thesis using assms by (simp add: upd_conv_take_nth_drop)
qed

lemma stop_step_less:
  assumes "worker_step k flag rn = Some rn'" "rn_stop rn"
  shows "(\<Sum>p\<leftarrow>rn_workers rn'. stop_rank p) < (\<Sum>p\<leftarrow>rn_workers rn. stop_rank p)" "rn_stop rn'"
proof -
  have k: "k < length (rn_workers rn)" using assms(1) by (simp add: worker_step_def split: if_splits)
  have "rn_workers rn' = (rn_workers rn)[k := rn_workers rn' ! k] \<and> stop_rank (rn_workers rn' ! k) < stop_rank (rn_workers rn ! k)" and s: "rn_stop rn'"
    using assms k by (auto simp: worker_step_def bind_eq_Some_conv
        split: worker_pos.splits option.splits if_splits)
  with sum_list_update_less [OF k, of stop_rank] show "(\<Sum>p\<leftarrow>rn_workers rn'. stop_rank p) < (\<Sum>p\<leftarrow>rn_workers rn. stop_rank p)"
    by metis
  show "rn_stop rn'" by (rule s)
qed

lemma pop_work_total:
  assumes "store_inv s"
  shows "\<exists>res s'. pop_work f s = Some (res, s') \<and> (\<forall>r. res = Some r \<longrightarrow> (\<exists>t. get_task r s' = Some t))"
proof (cases "tasksWaitingForWorkerQueue s")
  case (Cons r q)
  with assms have "queue_ok (heap s) (r # q) (tasksWaitingForWorkerQueueSize s)" by (simp add: store_inv_def)
  from queue_live [OF this, of r] obtain tw where "heap s r = Some tw" by auto
  with Cons show ?thesis by (simp add: pop_work_def insert_into_tasksBeingWorkedOn_def get_task_def Let_def)
qed (simp add: pop_work_def)

lemma holder_moves:
  assumes "store_inv (rn_store rn)" "k < length (rn_workers rn)" "holder (rn_workers rn ! k)"
  shows "worker_step k flag rn \<noteq> None"
  using assms pop_work_total [OF assms(1), of "Some flag"]
  by (cases "rn_workers rn ! k") (auto simp: worker_step_def split: option.splits)

lemma worker_moves:
  assumes inv: "runner_inv rn" and k: "k < length (rn_workers rn)" and p: "rn_workers rn ! k \<notin> {Waiting, Exited}"
  shows "\<exists>j. worker_step j flag rn \<noteq> None"
proof (cases "notifierOwner rn")
  case (Some j)
  with inv have "j < length (rn_workers rn)" "holder (rn_workers rn ! j)" "store_inv (rn_store rn)"
    by (simp_all add: runner_inv_def)
  with holder_moves show ?thesis by blast
next
  case None
  with inv have s: "store_inv (rn_store rn)" by (simp add: runner_inv_def)
  have "worker_step k flag rn \<noteq> None"
    using p k None pop_work_total [OF s, of "Some flag"] holder_moves [OF s k]
    by (cases "rn_workers rn ! k") (auto simp: worker_step_def)
  then show ?thesis by blast
qed

definition worker_moves_rel :: "(runner \<times> runner) set" where
  "worker_moves_rel = {(rn', rn). rn_stop rn \<and> (\<exists>k flag. worker_step k flag rn = Some rn')}"

definition about_to_wait :: "runner \<Rightarrow> bool" where
  "about_to_wait rn \<longleftrightarrow> Waiting \<in> set (rn_workers rn) \<or> BeforeWait \<in> set (rn_workers rn)"

lemma stop_step_waits:
  assumes "worker_step k flag rn = Some rn'" "rn_stop rn" "\<not> about_to_wait rn"
  shows "\<not> about_to_wait rn'"
proof -
  have k: "k < length (rn_workers rn)" using assms(1) by (simp add: worker_step_def split: if_splits)
  then have "rn_workers rn ! k \<in> set (rn_workers rn)" by simp
  then have "rn_workers rn ! k \<noteq> BeforeWait" using assms(3) by (metis about_to_wait_def)
  then have "rn_workers rn' = (rn_workers rn)[k := rn_workers rn' ! k]" "rn_workers rn' ! k \<noteq> Waiting" "rn_workers rn' ! k \<noteq> BeforeWait"
    using assms(1,2) k by (auto simp: worker_step_def bind_eq_Some_conv
        split: worker_pos.splits option.splits if_splits)
  with assms(3) show ?thesis unfolding about_to_wait_def by (metis set_update_other)
qed

lemma stopped_moves:
  assumes "(rn', rn) \<in> worker_moves_rel\<^sup>*" "runner_reach timely rn" "rn_stop rn" "\<not> about_to_wait rn"
  shows "runner_reach timely rn' \<and> rn_stop rn' \<and> \<not> about_to_wait rn'"
  using assms
proof (induction rule: converse_rtrancl_induct)
  case (step a b)
  then obtain k flag where "worker_step k flag b = Some a" "rn_stop b" "runner_reach timely b" "\<not> about_to_wait b"
    by (auto simp: worker_moves_rel_def)
  then show ?case using runner_reach.worker stop_step_less(2) stop_step_waits by blast
qed simp

lemma worker_moves_wf: "wf worker_moves_rel"
  by (rule wf_subset [OF wf_measure [of "\<lambda>rn. \<Sum>p\<leftarrow>rn_workers rn. stop_rank p"]])
    (auto simp: worker_moves_rel_def dest: stop_step_less(1))

text \<open>
  The workers end.  Once the flag \<^verbatim>\<open>stop\<close> is set, the workers can only make finitely many steps, in whatever
  order; and if then no worker waits or is about to wait, the steps end exactly when all workers have left \<^verbatim>\<open>run\<close>.
\<close>

lemma workers_end:
  assumes "runner_reach timely rn" "rn_stop rn" "\<not> about_to_wait rn" "(rn', rn) \<in> worker_moves_rel\<^sup>*"
  shows "wf worker_moves_rel \<and> ((\<forall>k. worker_step k flag rn' = None) \<longleftrightarrow> (\<forall>p \<in> set (rn_workers rn'). p = Exited))"
proof -
  have r: "runner_reach timely rn'" "rn_stop rn'" "\<not> about_to_wait rn'" using stopped_moves [OF assms(4,1,2,3)] by auto
  note inv = runner_reach_inv [OF r(1)]
  have "p = Exited" if "\<forall>k. worker_step k flag rn' = None" "p \<in> set (rn_workers rn')" for p
  proof -
    from that(2) obtain k where k: "k < length (rn_workers rn')" "rn_workers rn' ! k = p" by (auto simp: in_set_conv_nth)
    from worker_moves [OF inv k(1), of flag] that k(2) have "p = Waiting \<or> p = Exited" by auto
    with r(3) that(2) show ?thesis by (auto simp: about_to_wait_def)
  qed
  moreover have "worker_step k flag rn' = None" if "\<forall>p \<in> set (rn_workers rn'). p = Exited" for k
  proof (cases "k < length (rn_workers rn')")
    case True
    with that have "rn_workers rn' ! k = Exited" by simp
    with True show ?thesis by (simp add: worker_step_def)
  qed (simp add: worker_step_def)
  ultimately show ?thesis using worker_moves_wf by blast
qed

lemma workers_end_example:
  "\<exists>rn. rn_stop rn \<and> (\<forall>k. worker_step k 0 rn = None) \<and> rn_workers rn = [Exited]"
proof -
  let ?r = "WorkerExecutor_exit_store (WorkerExecutor_init 1 (TaskStore_init 0 True True 0))"
  have reach: "runner_reach False ?r" by (rule runner_reach.exit_store [OF example_runner])
  have st: "rn_stop ?r" "rn_workers ?r = [RunHead]" by (simp_all add: WorkerExecutor_exit_store_def WorkerExecutor_init_def)
  let ?e = "goto 0 Exited ?r"
  have "worker_step 0 0 ?r = Some ?e" using st by (simp add: worker_step_def)
  then have "(?e, ?r) \<in> worker_moves_rel\<^sup>*" using st unfolding worker_moves_rel_def by blast
  from workers_end [OF reach st(1) _ this, of 0] st show ?thesis
    by (intro exI [of _ ?e]) (simp add: about_to_wait_def)
qed

end
