(* ===== verification/QbfTask.thy ===== *)
theory QbfTask
  imports TaskTree QbfCubes
begin

unbundle bit_operations_syntax

text \<open>
  The objects the QBF solver lends to the workers (\<^verbatim>\<open>util::ObjectManager\<close>), the manager that creates the solver
  handles, and the QBF solver task: its construction, its work on a cube with the binary and the extended split, and the
  round a worker makes with it.
\<close>

section \<open>Objects that are lent to the workers\<close>

text \<open>\<^verbatim>\<open>util::ObjectManager\<close>: an owning pointer, the address that \<^verbatim>\<open>terminateAll\<close> uses, and whether it was created.\<close>

record 'a om_internal =
  om_ptr :: "'a option"
  om_nonOwningPtr :: "'a option"
  om_created :: bool

definition om_init :: "nat \<Rightarrow> 'a om_internal list \<Rightarrow> 'a om_internal list option" where
  "om_init n objs = do {
     c_assert (length objs = 0);
     Some (replicate n \<lparr>om_ptr = None, om_nonOwningPtr = None, om_created = False\<rparr>) }"

definition om_take :: "(nat \<Rightarrow> 'a option) \<Rightarrow> nat \<Rightarrow> 'a om_internal list \<Rightarrow> ('a \<times> 'a om_internal list) option" where
  "om_take create idx objs = do {
     c_assert (idx < length objs);
     let obj = objs ! idx;
     c_assert (om_ptr obj \<noteq> None \<or> \<not> om_created obj);
     obj \<leftarrow> (if \<not> om_created obj then do {
               x \<leftarrow> create idx;
               Some (obj\<lparr>om_nonOwningPtr := Some x, om_ptr := Some x, om_created := True\<rparr>) }
             else Some obj);
     x \<leftarrow> om_ptr obj;
     Some (x, objs[idx := obj\<lparr>om_ptr := None\<rparr>]) }"

definition om_give :: "nat \<Rightarrow> 'a \<Rightarrow> 'a om_internal list \<Rightarrow> 'a om_internal list option" where
  "om_give idx x objs = do {
     c_assert (idx < length objs);
     c_assert (om_created (objs ! idx));
     c_assert (om_ptr (objs ! idx) = None);
     Some (objs[idx := (objs ! idx)\<lparr>om_ptr := Some x\<rparr>]) }"

text \<open>\<^verbatim>\<open>terminateAll\<close>: the objects whose \<^verbatim>\<open>terminate\<close> is called, lent or not.\<close>

fun om_terminateAll :: "'a om_internal list \<Rightarrow> 'a list option" where
  "om_terminateAll [] = Some []"
| "om_terminateAll (obj # objs) = do {
     rest \<leftarrow> om_terminateAll objs;
     if om_created obj then do { x \<leftarrow> om_nonOwningPtr obj; Some (x # rest) } else Some rest }"

definition om_lent :: "'a om_internal list \<Rightarrow> bool" where
  "om_lent objs \<longleftrightarrow> list_ex (\<lambda>obj. om_created obj \<and> om_ptr obj = None) objs"

text \<open>
  \<^verbatim>\<open>clearAll\<close>: a busy wait; \<open>returned\<close> are the objects that the workers give back in each round of it.  \<open>None\<close> also
  stands for a wait that has not ended yet.
\<close>

fun om_gives :: "(nat \<times> 'a) list \<Rightarrow> 'a om_internal list \<Rightarrow> 'a om_internal list option" where
  "om_gives [] objs = Some objs"
| "om_gives ((i, x) # xs) objs = do { objs \<leftarrow> om_give i x objs; om_gives xs objs }"

fun om_clearAll :: "(nat \<times> 'a) list list \<Rightarrow> 'a om_internal list \<Rightarrow> ('a list \<times> 'a om_internal list) option" where
  "om_clearAll returned objs =
     (if om_lent objs then
        (case returned of
           [] \<Rightarrow> None
         | now # later \<Rightarrow> do {
             ts \<leftarrow> om_terminateAll objs;
             objs \<leftarrow> om_gives now objs;
             (ts', objs) \<leftarrow> om_clearAll later objs;
             Some (ts @ ts', objs) })
      else Some ([], map (\<lambda>obj. obj\<lparr>om_nonOwningPtr := None, om_created := False, om_ptr := None\<rparr>) objs))"

section \<open>Solver handles\<close>

datatype qbf_handle = DepQBFHandle | QuapiSolverHandle quapi_solver | PortfolioQBFHandle "qbf_handle list"

definition createGenericSolverHandle :: "qbf_config \<Rightarrow> nat \<Rightarrow> qbf_handle option" where
  "createGenericSolverHandle cfg idx =
     (let vec = (if m_useDepQBF cfg then [DepQBFHandle] else []) @ map QuapiSolverHandle (m_quapiSolvers cfg)
      in if length vec = 1 then Some (vec ! 0)
         else if length vec > 1 then Some (PortfolioQBFHandle vec)
         else None)"

section \<open>Tasks and their manager\<close>

text \<open>
  The \<^verbatim>\<open>QBFSolverTask\<close> object of a task is kept under the address of the task; \<open>qt_terminationFunc\<close> is the worker whose
  handle the termination function stops, \<open>qt_serialized\<close> the stream of an earlier serialization.  \<open>qw_terminated\<close> lists the workers whose handle was stopped.
\<close>

record qbf_task =
  qt_cubeSource :: qtc
  qt_terminationFunc :: "nat option"
  qt_serialized :: "(parac_path \<times> task_ref \<times> qtc) option"

record qbf_world =
  qw_store :: task_store
  qbfTasks :: "task_ref \<Rightarrow> qbf_task option"
  qw_parser :: parser
  qw_config :: qbf_config
  qw_objs :: "qbf_handle om_internal list"
  qw_terminated :: "nat list"

text \<open>The constructor of the manager for the workers of the runner; without workers there are no objects.\<close>

definition QBFSolverManager_init :: "nat \<Rightarrow> parser \<Rightarrow> qbf_config \<Rightarrow> task_store \<Rightarrow> qbf_world option" where
  "QBFSolverManager_init workers p cfg s = do {
     objs \<leftarrow> (if workers > 0 then om_init workers [] else Some []);
     Some \<lparr>qw_store = s, qbfTasks = (\<lambda>_. None), qw_parser = p, qw_config = cfg, qw_objs = objs, qw_terminated = []\<rparr> }"

definition QBFSolverManager_get :: "nat \<Rightarrow> qbf_world \<Rightarrow> (qbf_handle \<times> qbf_world) option" where
  "QBFSolverManager_get k w = do {
     (h, objs) \<leftarrow> om_take (createGenericSolverHandle (qw_config w)) k (qw_objs w);
     Some (h, w\<lparr>qw_objs := objs\<rparr>) }"

definition QBFSolverManager_return :: "nat \<Rightarrow> qbf_handle \<Rightarrow> qbf_world \<Rightarrow> qbf_world option" where
  "QBFSolverManager_return k h w = do {
     objs \<leftarrow> om_give k h (qw_objs w);
     Some (w\<lparr>qw_objs := objs\<rparr>) }"

definition GetAssessFunc :: "int \<Rightarrow> assess_fn" where
  "GetAssessFunc qu = (case quantifier_type qu of EXISTENTIAL \<Rightarrow> QbfExistentialAssess | UNIVERSAL \<Rightarrow> QbfUniversalAssess)"

text \<open>The constructor of the task: beyond the prefix the quantifier is the literal 0.\<close>

definition task_quantifier :: "parser \<Rightarrow> qtc \<Rightarrow> int" where
  "task_quantifier p src = (if length (m_quantifiers p) > qtc_cubeSize src then m_quantifiers p ! qtc_cubeSize src else 0)"

definition QBFSolverTask_init :: "task_ref \<Rightarrow> qtc \<Rightarrow> qbf_world \<Rightarrow> qbf_world option" where
  "QBFSolverTask_init r src w = do {
     s \<leftarrow> upd_task r (\<lambda>t. t\<lparr>assess := Some (GetAssessFunc (task_quantifier (qw_parser w) src)), has_work := True,
            has_free_userdata := True, has_serialize := True, userdata := Some r, state := PARAC_TASK_WORK_AVAILABLE\<rparr>)
          (qw_store w);
     Some (w\<lparr>qw_store := s, qbfTasks := (qbfTasks w)(r \<mapsto>
       \<lparr>qt_cubeSource = src, qt_terminationFunc = None, qt_serialized = None\<rparr>)\<rparr>) }"

text \<open>\<^verbatim>\<open>terminate\<close>: the termination function is called if there is one.\<close>

definition QBFSolverTask_terminate :: "task_ref \<Rightarrow> qbf_world \<Rightarrow> qbf_world option" where
  "QBFSolverTask_terminate r w = do {
     q \<leftarrow> qbfTasks w r;
     Some (case qt_terminationFunc q of None \<Rightarrow> w | Some k \<Rightarrow> w\<lparr>qw_terminated := qw_terminated w @ [k]\<rparr>) }"

definition QBFSolverTask_free :: "task_ref \<Rightarrow> qbf_world \<Rightarrow> qbf_world" where
  "QBFSolverTask_free r w = w\<lparr>qbfTasks := (qbfTasks w)(r := None)\<rparr>"

record qbf_solver_message =
  sm_path :: parac_path
  sm_task :: task_ref
  sm_source :: qtc
  sm_originator :: parac_id

text \<open>The stream of a task is written once; later messages carry it again.\<close>

definition QBFSolverTask_serialize :: "task_ref \<Rightarrow> qbf_world \<Rightarrow> (qbf_solver_message \<times> qbf_world) option" where
  "QBFSolverTask_serialize r w = do {
     t \<leftarrow> get_task r (qw_store w);
     q \<leftarrow> qbfTasks w r;
     let stream = (case qt_serialized q of Some str \<Rightarrow> str | None \<Rightarrow> (path t, r, qt_cubeSource q));
     let (p, task, src) = stream;
     Some (\<lparr>sm_path = p, sm_task = task, sm_source = src, sm_originator = originator t\<rparr>,
       w\<lparr>qbfTasks := (qbfTasks w)(r \<mapsto> q\<lparr>qt_serialized := Some stream\<rparr>)\<rparr>) }"

text \<open>The calls of the task store that reach the solver, in their order.\<close>

definition qbf_call :: "outcall \<Rightarrow> qbf_world \<Rightarrow> qbf_world option" where
  "qbf_call c w = (case c of
       FreeUserdata r \<Rightarrow> Some (QBFSolverTask_free r w)
     | TerminateHandle r \<Rightarrow> QBFSolverTask_terminate r w
     | _ \<Rightarrow> Some w)"

fun qbf_calls :: "outcall list \<Rightarrow> qbf_world \<Rightarrow> qbf_world option" where
  "qbf_calls [] w = Some w"
| "qbf_calls (c # cs) w = do { w \<leftarrow> qbf_call c w; qbf_calls cs w }"

definition qbf_store_op :: "(task_store \<Rightarrow> task_store option) \<Rightarrow> qbf_world \<Rightarrow> qbf_world option" where
  "qbf_store_op f w = do {
     s \<leftarrow> f (qw_store w);
     qbf_calls (drop (length (outcalls (qw_store w))) (outcalls s)) (w\<lparr>qw_store := s\<rparr>) }"

definition qbf_task_op :: "task_ref \<Rightarrow> (parac_task \<Rightarrow> parac_task) \<Rightarrow> qbf_world \<Rightarrow> qbf_world option" where
  "qbf_task_op r f w = do { s \<leftarrow> upd_task r f (qw_store w); Some (w\<lparr>qw_store := s\<rparr>) }"

section \<open>Work\<close>

text \<open>
  What the outside answers during one call of \<^verbatim>\<open>work\<close>: the allocator, which may have no memory left, whether the task is stopped before the solver starts,
  and the answer of the solver to the cube.
\<close>

record qbf_env =
  qe_alloc :: "task_store \<Rightarrow> task_ref option"
  qe_stopped :: bool
  qe_solve :: "qbf_handle \<Rightarrow> int list \<Rightarrow> parac_status"

text \<open>\<^verbatim>\<open>Cleanup\<close>: the handle of the worker, and the termination function of the task while it works.\<close>

definition Cleanup_init :: "nat \<Rightarrow> task_ref \<Rightarrow> qbf_world \<Rightarrow> (terminate_fn option \<times> qbf_handle \<times> qbf_world) option" where
  "Cleanup_init k r w = do {
     (h, w) \<leftarrow> QBFSolverManager_get k w;
     t \<leftarrow> get_task r (qw_store w);
     w \<leftarrow> qbf_task_op r (\<lambda>t. t\<lparr>terminate := Some QbfSolverTaskTerminate\<rparr>) w;
     q \<leftarrow> qbfTasks w r;
     Some (terminate t, h, w\<lparr>qbfTasks := (qbfTasks w)(r \<mapsto> q\<lparr>qt_terminationFunc := Some k\<rparr>)\<rparr>) }"

text \<open>
  Its destructor: the task may be gone by then, and a task whose solver was aborted has been let go; then nothing of it is
  restored.  The handle is given back in any case.
\<close>

definition Cleanup_destroy ::
  "nat \<Rightarrow> task_ref \<Rightarrow> terminate_fn option \<Rightarrow> qbf_handle \<Rightarrow> bool \<Rightarrow> qbf_world \<Rightarrow> qbf_world option" where
  "Cleanup_destroy k r termfunc h let_go w = do {
     w \<leftarrow> (case qbfTasks w r of
         None \<Rightarrow> Some w
       | Some q \<Rightarrow>
           let w' = w\<lparr>qbfTasks := (qbfTasks w)(r \<mapsto> q\<lparr>qt_terminationFunc := None\<rparr>)\<rparr>
           in if let_go then Some w' else qbf_task_op r (\<lambda>t. t\<lparr>terminate := termfunc\<rparr>) w');
     QBFSolverManager_return k h w }"

text \<open>One side of a binary split.\<close>

definition qbf_split_side :: "qbf_env \<Rightarrow> nat \<Rightarrow> task_ref \<Rightarrow> bool \<Rightarrow> bool \<Rightarrow> bool \<Rightarrow> qbf_world \<Rightarrow> qbf_world option" where
  "qbf_split_side env fuel r side split split_extended w =
     (if split then do {
        t \<leftarrow> get_task r (qw_store w);
        c_assert (has_task_store t);
        p \<leftarrow> parac_path_get_next (path t) side;
        a \<leftarrow> qe_alloc env (qw_store w);
        (child, s) \<leftarrow> newTask a (Some r) p (originator t) (qw_store w);
        w \<leftarrow> qbf_task_op r (\<lambda>t. if side then t\<lparr>right_result := PARAC_PENDING\<rparr> else t\<lparr>left_result := PARAC_PENDING\<rparr>)
               (w\<lparr>qw_store := s\<rparr>);
        (case child of
           None \<Rightarrow> Some w
         | Some c \<Rightarrow> do {
             q \<leftarrow> qbfTasks w r;
             src \<leftarrow> (if side then qtc_rightChild (qt_cubeSource q) else qtc_leftChild (qt_cubeSource q));
             w \<leftarrow> QBFSolverTask_init c src w;
             ct \<leftarrow> get_task c (qw_store w);
             t \<leftarrow> get_task r (qw_store w);
             if result ct \<noteq> PARAC_ABORTED \<and> result t \<noteq> PARAC_ABORTED
             then qbf_store_op (assess_task fuel c) w else Some w }) }
      else if \<not> split_extended
      then qbf_task_op r (\<lambda>t. if side then t\<lparr>right_result := PARAC_UNSAT\<rparr> else t\<lparr>left_result := PARAC_UNSAT\<rparr>) w
      else Some w)"

text \<open>
  An extended split: the children are made and put into the array, then all are started.  A store that gives no task is a
  null pointer the loop writes through.
\<close>

fun extended_create :: "qbf_env \<Rightarrow> task_ref \<Rightarrow> nat \<Rightarrow> qtc list \<Rightarrow> qbf_world \<Rightarrow> qbf_world option" where
  "extended_create env r i [] w = Some w"
| "extended_create env r i (src # srcs) w = do {
     t \<leftarrow> get_task r (qw_store w);
     c_assert (has_task_store t);
     let p = parac_path_get_next_extended (path t);
     a \<leftarrow> qe_alloc env (qw_store w);
     (child, s) \<leftarrow> newTask a (Some r) p (originator t) (qw_store w);
     c \<leftarrow> child;
     w \<leftarrow> qbf_task_op c (\<lambda>t. t\<lparr>extended_children_parent_index := int i\<rparr>) (w\<lparr>qw_store := s\<rparr>);
     t \<leftarrow> get_task r (qw_store w);
     ecs \<leftarrow> extended_children t; cs \<leftarrow> ecs;
     ers \<leftarrow> extended_children_results t; rs \<leftarrow> ers;
     c_assert (i < length cs \<and> i < length rs);
     w \<leftarrow> qbf_task_op r (\<lambda>t. t\<lparr>slot0 := SlotChildren (cs[i := Some c]), slot1 := SlotResults (rs[i := PARAC_PENDING])\<rparr>) w;
     w \<leftarrow> QBFSolverTask_init c src w;
     extended_create env r (i + 1) srcs w }"

fun extended_start :: "nat \<Rightarrow> task_ref \<Rightarrow> nat \<Rightarrow> nat \<Rightarrow> qbf_world \<Rightarrow> qbf_world option" where
  "extended_start fuel r i 0 w = Some w"
| "extended_start fuel r i (Suc n) w = do {
     t \<leftarrow> get_task r (qw_store w);
     ecs \<leftarrow> extended_children t; cs \<leftarrow> ecs;
     c_assert (i < length cs);
     c \<leftarrow> cs ! i;
     ct \<leftarrow> get_task c (qw_store w);
     if result ct \<noteq> PARAC_ABORTED \<and> result t \<noteq> PARAC_ABORTED then do {
       w \<leftarrow> qbf_store_op (assess_task fuel c) w;
       extended_start fuel r (i + 1) n w }
     else do {
       ers \<leftarrow> extended_children_results t; rs \<leftarrow> ers;
       c_assert (i < length rs);
       qbf_task_op r (\<lambda>t. t\<lparr>slot1 := SlotResults (rs[i := PARAC_ABORTED])\<rparr>) w } }"

definition qbf_split_extended :: "qbf_env \<Rightarrow> nat \<Rightarrow> task_ref \<Rightarrow> qbf_world \<Rightarrow> qbf_world option" where
  "qbf_split_extended env fuel r w = do {
     q \<leftarrow> qbfTasks w r;
     let (sources, src) = qtc_children (qt_cubeSource q);
     let n = length sources;
     let w = w\<lparr>qbfTasks := (qbfTasks w)(r \<mapsto> q\<lparr>qt_cubeSource := src\<rparr>)\<rparr>;
     w \<leftarrow> qbf_task_op r (\<lambda>t. t\<lparr>slot0 := SlotChildren (replicate n None), slot1 := SlotResults (replicate n PARAC_OK),
            extended_children_count := int n\<rparr>) w;
     w \<leftarrow> extended_create env r 0 sources w;
     extended_start fuel r 0 n w }"

definition qbf_work_split :: "qbf_env \<Rightarrow> nat \<Rightarrow> task_ref \<Rightarrow> bool \<Rightarrow> bool \<Rightarrow> bool \<Rightarrow> qbf_world \<Rightarrow> qbf_world option" where
  "qbf_work_split env fuel r split_left split_right split_extended w = do {
     w \<leftarrow> qbf_task_op r (\<lambda>t. t\<lparr>state := state t OR PARAC_TASK_SPLITTED OR PARAC_TASK_WAITING_FOR_SPLITS\<rparr>) w;
     w \<leftarrow> qbf_split_side env fuel r False split_left split_extended w;
     w \<leftarrow> qbf_split_side env fuel r True split_right split_extended w;
     if split_extended then do {
       c_assert (\<not> split_left);
       c_assert (\<not> split_right);
       qbf_split_extended env fuel r w }
     else Some w }"

definition depth_allows :: "qbf_config \<Rightarrow> parac_path \<Rightarrow> bool" where
  "depth_allows cfg p \<longleftrightarrow> m_treeDepth cfg = -1 \<or> (word_of_int (m_treeDepth cfg) :: u64) > parac_path_length p"

text \<open>
  \<^verbatim>\<open>work\<close>: a stopped task and a formula without variables need no solver; otherwise the task is split when the source and the
  depth allow it, and solved under its cube when not.
\<close>

definition QBFSolverTask_work :: "qbf_env \<Rightarrow> nat \<Rightarrow> nat \<Rightarrow> task_ref \<Rightarrow> qbf_world \<Rightarrow> (parac_status \<times> qbf_world) option" where
  "QBFSolverTask_work env fuel k r w = do {
     t \<leftarrow> get_task r (qw_store w);
     let p = qw_parser w;
     if stop t then Some (PARAC_ABORTED, w)
     else if length (m_quantifiers p) = 0 \<and> isTrivial p \<and> isTrivialSAT p then Some (PARAC_SAT, w)
     else if length (m_quantifiers p) = 0 \<and> isTrivial p \<and> isTrivialUNSAT p then Some (PARAC_UNSAT, w)
     else do {
       (termfunc, h, w) \<leftarrow> Cleanup_init k r w;
       q \<leftarrow> qbfTasks w r;
       (split, split_left, split_right, split_extended, src) \<leftarrow> qtc_split (m_quantifiers p) (qw_config w) (qt_cubeSource q);
       let w = w\<lparr>qbfTasks := (qbfTasks w)(r \<mapsto> q\<lparr>qt_cubeSource := src\<rparr>)\<rparr>;
       if split \<and> depth_allows (qw_config w) (path t) then do {
         w \<leftarrow> qbf_work_split env fuel r split_left split_right split_extended w;
         w \<leftarrow> Cleanup_destroy k r termfunc h False w;
         Some (PARAC_SPLITTED, w) }
       else if qe_stopped env then do {
         w \<leftarrow> Cleanup_destroy k r termfunc h False w;
         Some (PARAC_ABORTED, w) }
       else do {
         let res = qe_solve env h (qtc_cube src);
         w \<leftarrow> Cleanup_destroy k r termfunc h (res = PARAC_ABORTED) w;
         Some (res, w) } } }"

section \<open>Rounds of the workers and the start of a formula\<close>

text \<open>The round of \<^verbatim>\<open>Worker::run\<close> with the tasks of this solver.\<close>

definition QbfWorker_before :: "nat \<Rightarrow> flag_ref \<Rightarrow> qbf_world \<Rightarrow> (task_ref option \<times> qbf_world) option" where
  "QbfWorker_before k flag w = do {
     (r, s) \<leftarrow> pop_work (Some flag) (qw_store w);
     (case r of
        None \<Rightarrow> Some (None, w\<lparr>qw_store := s\<rparr>)
      | Some r \<Rightarrow> do {
          s \<leftarrow> upd_task r (\<lambda>t. t\<lparr>worker := of_nat k\<rparr>) s;
          t \<leftarrow> get_task r s;
          c_assert (\<not> st_has (state t) PARAC_TASK_WORK_AVAILABLE);
          Some (Some r, w\<lparr>qw_store := s\<rparr>) }) }"

definition QbfWorker_after :: "nat \<Rightarrow> task_ref \<Rightarrow> bool \<Rightarrow> parac_status \<Rightarrow> qbf_world \<Rightarrow> qbf_world option" where
  "QbfWorker_after fuel r deleted res w =
     (if deleted then Some w
      else do {
        t \<leftarrow> get_task r (qw_store w);
        w \<leftarrow> (if has_work t \<and> res \<noteq> PARAC_ABORTED \<and> res \<noteq> PARAC_PENDING \<and> result t = PARAC_PENDING
              then qbf_task_op r (\<lambda>t. t\<lparr>result := res\<rparr>) w else Some w);
        w \<leftarrow> (if res \<noteq> PARAC_ABORTED
              then qbf_task_op r (\<lambda>t. t\<lparr>state := st_without (state t) PARAC_TASK_WORKING OR PARAC_TASK_DONE\<rparr>) w
              else Some w);
        w \<leftarrow> qbf_task_op r (\<lambda>t. t\<lparr>delete_notification := None\<rparr>) w;
        t \<leftarrow> get_task r (qw_store w);
        if res \<noteq> PARAC_ABORTED \<and> \<not> st_has (state t) PARAC_TASK_SPLITTED
        then qbf_store_op (assess_task fuel r) w else Some w })"

definition QbfWorker_round :: "qbf_env \<Rightarrow> nat \<Rightarrow> nat \<Rightarrow> flag_ref \<Rightarrow> qbf_world \<Rightarrow> qbf_world option" where
  "QbfWorker_round env fuel k flag w = do {
     (task, w) \<leftarrow> QbfWorker_before k flag w;
     (case task of
        None \<Rightarrow> Some w
      | Some r \<Rightarrow> do {
          t \<leftarrow> get_task r (qw_store w);
          (res, w) \<leftarrow> (if has_work t then QBFSolverTask_work env fuel k r w else Some (PARAC_ABORTED, w));
          QbfWorker_after fuel r (heap (qw_store w) r = None) res w }) }"

text \<open>The root task of a parsed formula: it starts with the empty cube.\<close>

definition qbf_root_task :: "qbf_env \<Rightarrow> nat \<Rightarrow> parac_id \<Rightarrow> qbf_world \<Rightarrow> qbf_world option" where
  "qbf_root_task env fuel orig w = do {
     a \<leftarrow> qe_alloc env (qw_store w);
     (root, s) \<leftarrow> newTask a None parac_path_unknown orig (qw_store w);
     r \<leftarrow> root;
     w \<leftarrow> qbf_task_op r (\<lambda>t. t\<lparr>path := parac_path_root\<rparr>) (w\<lparr>qw_store := s\<rparr>);
     w \<leftarrow> QBFSolverTask_init r (QuantifierTreeCubes_init []) w;
     qbf_store_op (assess_task fuel r) w }"

section \<open>The objects that are lent\<close>

text \<open>What can happen to the objects after they were set up: an object is taken, and the one that was taken comes back.\<close>

inductive om_reach :: "(nat \<Rightarrow> 'a option) \<Rightarrow> nat \<Rightarrow> 'a om_internal list \<Rightarrow> bool" for create n where
  init: "om_init n [] = Some objs \<Longrightarrow> om_reach create n objs"
| take: "om_reach create n objs \<Longrightarrow> om_take create i objs = Some (x, objs') \<Longrightarrow> om_reach create n objs'"
| give: "om_reach create n objs \<Longrightarrow> om_nonOwningPtr (objs ! i) = Some x \<Longrightarrow> om_give i x objs = Some objs' \<Longrightarrow> om_reach create n objs'"

definition om_ok :: "'a om_internal \<Rightarrow> bool" where
  "om_ok obj \<longleftrightarrow> (if om_created obj then om_nonOwningPtr obj \<noteq> None \<and> om_ptr obj \<in> {None, om_nonOwningPtr obj}
     else om_ptr obj = None \<and> om_nonOwningPtr obj = None)"

lemma om_ok_simps:
  "om_ok \<lparr>om_ptr = p, om_nonOwningPtr = np, om_created = True\<rparr> \<longleftrightarrow> np \<noteq> None \<and> p \<in> {None, np}"
  by (simp add: om_ok_def)

lemma om_take_ok:
  assumes "om_take create i objs = Some (x, objs')" "list_all om_ok objs"
  shows "i < length objs \<and> objs' = objs[i := \<lparr>om_ptr = None, om_nonOwningPtr = Some x, om_created = True\<rparr>]
    \<and> (om_created (objs ! i) \<longrightarrow> om_nonOwningPtr (objs ! i) = Some x)"
  using assms by (cases "objs ! i") (auto simp: om_take_def bind_eq_Some_conv Let_def list_all_length om_ok_def split: if_splits)

lemma om_give_ok:
  "om_give i x objs = Some objs' \<Longrightarrow> om_nonOwningPtr (objs ! i) = Some x \<Longrightarrow>
   i < length objs \<and> om_created (objs ! i) \<and> om_ptr (objs ! i) = None
   \<and> objs' = objs[i := \<lparr>om_ptr = Some x, om_nonOwningPtr = Some x, om_created = True\<rparr>]"
  by (cases "objs ! i") (auto simp: om_give_def bind_eq_Some_conv)

lemma list_all_update: "list_all P xs \<Longrightarrow> P x \<Longrightarrow> list_all P (xs[i := x])"
  using set_update_subset_insert [of xs i x] by (auto simp: list_all_iff)

lemma om_reach_ok: "om_reach create n objs \<Longrightarrow> list_all om_ok objs \<and> length objs = n"
proof (induction rule: om_reach.induct)
  case (init objs)
  then show ?case by (auto simp: om_init_def om_ok_def list_all_length bind_eq_Some_conv)
next
  case (take objs i x objs')
  with om_take_ok [OF take(2)] show ?case by (auto simp: om_ok_simps intro!: list_all_update)
next
  case (give objs i x objs')
  with om_give_ok [OF give(3,2)] show ?case by (auto simp: om_ok_simps intro!: list_all_update)
qed

text \<open>
  C11 (lent objects).  At every point of a history of takes and gives, an object is either with its worker, and then a second
  take is refused, or it can be taken; what was taken is refused to a second taker, can be given back, and is the very same
  object the next time, while the objects of the other workers stay as they are.
\<close>

theorem om_lending:
  assumes "om_reach create n objs" "i < n" "create i \<noteq> None"
  shows "(om_created (objs ! i) \<and> om_ptr (objs ! i) = None \<and> om_take create i objs = None)
    \<or> (\<exists>x taken back. om_take create i objs = Some (x, taken) \<and> om_take create i taken = None
        \<and> om_give i x taken = Some back \<and> om_take create i back = Some (x, taken)
        \<and> (\<forall>j < n. j \<noteq> i \<longrightarrow> taken ! j = objs ! j \<and> back ! j = objs ! j))"
proof -
  from om_reach_ok [OF assms(1)] have ok: "om_ok (objs ! i)" "length objs = n" using assms(2) by (auto simp: list_all_length)
  from assms(3) obtain y where y: "create i = Some y" by auto
  obtain p np c where o: "objs ! i = \<lparr>om_ptr = p, om_nonOwningPtr = np, om_created = c\<rparr>" by (cases "objs ! i")
  show ?thesis
  proof (cases "c \<and> p = None")
    case True
    then show ?thesis using o by (simp add: om_take_def bind_eq_None_conv)
  next
    case False
    define x where "x = (if c then the np else y)"
    have t: "om_take create i objs = Some (x, objs[i := \<lparr>om_ptr = None, om_nonOwningPtr = Some x, om_created = True\<rparr>])"
      using False ok assms(2) y o by (auto simp: om_take_def om_ok_def x_def)
    show ?thesis
      by (intro disjI2 exI conjI) (rule t, use assms(2) ok(2) in \<open>auto simp: om_take_def om_give_def\<close>)
  qed
qed

lemma om_terminateAll_ok:
  "list_all om_ok objs \<Longrightarrow> om_terminateAll objs = Some (map (the \<circ> om_nonOwningPtr) (filter om_created objs))"
  by (induction objs) (auto simp: om_ok_def)

text \<open>The destructor: once every lent object has come back the wait ends, and nothing is left.\<close>

lemma om_gives_all:
  assumes "list_all om_ok objs" "distinct is" "set is = {i. i < length objs \<and> om_created (objs ! i) \<and> om_ptr (objs ! i) = None}"
  shows "\<exists>objs'. om_gives (map (\<lambda>i. (i, the (om_nonOwningPtr (objs ! i)))) is) objs = Some objs' \<and> \<not> om_lent objs' \<and> length objs' = length objs"
proof -
  have "\<exists>objs'. om_gives (map (\<lambda>i. (i, the (om_nonOwningPtr (objs ! i)))) is) ob = Some objs' \<and> length objs' = length ob
      \<and> (\<forall>j < length ob. om_created (objs' ! j) = om_created (ob ! j) \<and> (om_ptr (objs' ! j) = None \<longrightarrow> om_ptr (ob ! j) = None \<and> j \<notin> set is))"
    if "distinct is" "\<forall>i \<in> set is. i < length ob \<and> om_created (ob ! i) \<and> om_ptr (ob ! i) = None" for "is" ob
    using that
  proof (induction "is" arbitrary: ob)
    case (Cons i js)
    let ?ob = "ob[i := (ob ! i)\<lparr>om_ptr := Some (the (om_nonOwningPtr (objs ! i)))\<rparr>]"
    have "\<forall>j \<in> set js. j < length ?ob \<and> om_created (?ob ! j) \<and> om_ptr (?ob ! j) = None" using Cons.prems by (auto simp: nth_list_update)
    with Cons.IH [of ?ob] Cons.prems show ?case by (auto simp: om_give_def nth_list_update split: if_splits)
  qed simp
  from this [OF assms(2), of objs] assms(3) show ?thesis by (fastforce simp: om_lent_def list_ex_length)
qed

text \<open>The objects that are lent at the moment, with the worker that holds each.\<close>

definition om_outside :: "'a om_internal list \<Rightarrow> (nat \<times> 'a) list" where
  "om_outside objs = map (\<lambda>i. (i, the (om_nonOwningPtr (objs ! i)))) (filter (\<lambda>i. om_created (objs ! i) \<and> om_ptr (objs ! i) = None) [0..<length objs])"

lemma om_clearAll_ends:
  assumes "om_reach create n objs"
  shows "\<exists>ts. om_clearAll [om_outside objs] objs = Some (ts, replicate n \<lparr>om_ptr = None, om_nonOwningPtr = None, om_created = False\<rparr>)
    \<and> (om_lent objs \<longrightarrow> set (map snd (om_outside objs)) \<subseteq> set ts)"
proof -
  let ?is = "filter (\<lambda>i. om_created (objs ! i) \<and> om_ptr (objs ! i) = None) [0..<length objs]"
  have ok: "list_all om_ok objs" "length objs = n" using om_reach_ok [OF assms] by simp_all
  have clear: "map (\<lambda>obj. obj\<lparr>om_nonOwningPtr := None, om_created := False, om_ptr := None\<rparr>) ob
      = replicate (length ob) \<lparr>om_ptr = None, om_nonOwningPtr = None, om_created = False\<rparr>" for ob :: "'a om_internal list"
    by (induction ob) auto
  show ?thesis
  proof (cases "om_lent objs")
    case True
    obtain objs' where o: "om_gives (om_outside objs) objs = Some objs'" "\<not> om_lent objs'" "length objs' = length objs"
      using om_gives_all [OF ok(1), of ?is] by (auto simp: om_outside_def)
    have "set (map snd (om_outside objs)) \<subseteq> set (map (the \<circ> om_nonOwningPtr) (filter om_created objs))"
      by (auto simp: om_outside_def)
    then show ?thesis using True o ok om_terminateAll_ok [OF ok(1)] clear [of objs'] by simp
  next
    case False
    then show ?thesis using ok(2) clear [of objs] by simp
  qed
qed

theorem om_lending_witness:
  "om_take (\<lambda>i. Some (Suc i)) 1 (replicate 2 \<lparr>om_ptr = None, om_nonOwningPtr = None, om_created = False\<rparr>)
     = Some (2, [\<lparr>om_ptr = None, om_nonOwningPtr = None, om_created = False\<rparr>, \<lparr>om_ptr = None, om_nonOwningPtr = Some 2, om_created = True\<rparr>])"
proof -
  have "om_reach (\<lambda>i. Some (Suc i)) 2 (replicate 2 \<lparr>om_ptr = None, om_nonOwningPtr = None, om_created = False\<rparr>)"
    by (rule om_reach.init) (simp add: om_init_def)
  from om_lending [OF this, of 1] show ?thesis by (auto simp: om_take_def numeral_2_eq_2)
qed

end
