(* ===== verification/QbfRun.thy ===== *)
theory QbfRun
  imports QbfTask
begin

unbundle bit_operations_syntax

text \<open>
  What the tasks of the QBF solver decide.  The invariant of a run without integer based splits says that every task has the
  cube of its place in the tree and that every result it records is the value of the formula under the cube it belongs to;
  the work of a task, the assessment of its ancestors and the rounds of the workers keep it.
\<close>

section \<open>The invariant of a run without integer based splits\<close>

definition side_slot :: "bool \<Rightarrow> parac_task \<Rightarrow> child_slot" where
  "side_slot side t = (if side then slot1 t else slot0 t)"

definition side_result :: "bool \<Rightarrow> parac_task \<Rightarrow> parac_status" where
  "side_result side t = (if side then right_result t else left_result t)"

definition side_cube :: "int list \<Rightarrow> bool \<Rightarrow> int list \<Rightarrow> int list" where
  "side_cube qs side c = c @ [if side then alit (qs ! length c) else - alit (qs ! length c)]"

definition truth_status :: "bool \<Rightarrow> parac_status" where
  "truth_status b = (if b then PARAC_SAT else PARAC_UNSAT)"

definition qcube :: "qbf_task \<Rightarrow> int list" where
  "qcube q = m_currentCube (qt_cubeSource q)"

definition qbf_assess :: "assess_fn option set" where
  "qbf_assess = {Some QbfExistentialAssess, Some QbfUniversalAssess}"

text \<open>A task whose state says it is done has a result.\<close>

definition done_ok :: "parac_task \<Rightarrow> bool" where
  "done_ok t \<longleftrightarrow> (if st_has (state t) PARAC_TASK_SPLITTED
     then st_has (state t) PARAC_TASK_SPLITS_DONE \<longrightarrow> result t \<noteq> PARAC_PENDING \<and> result t \<noteq> PARAC_SPLITTED
     else \<not> st_has (state t) PARAC_TASK_SPLITS_DONE \<and> (st_has (state t) PARAC_TASK_DONE \<longrightarrow> result t \<noteq> PARAC_PENDING))"

text \<open>
  The record of a task: its cube, the results of its children and its own are those of the formula, and its parent is
  split on the variable the cube assigns last.
\<close>

definition qtask_at :: "int list \<Rightarrow> (int list \<Rightarrow> parac_status) \<Rightarrow> (task_ref \<Rightarrow> qbf_task option) \<Rightarrow>
    (task_ref \<Rightarrow> task_wrapper option) \<Rightarrow> task_ref \<Rightarrow> parac_task \<Rightarrow> qbf_task \<Rightarrow> bool" where
  "qtask_at qs V Ob h r t q \<longleftrightarrow>
     length (qcube q) \<le> length qs
   \<and> assess t = Some (GetAssessFunc (if length qs > length (qcube q) then qs ! length (qcube q) else 0))
   \<and> received_from t = None
   \<and> (parac_path_is_root (path t) \<longrightarrow> qcube q = [])
   \<and> result t \<in> {PARAC_PENDING, PARAC_SPLITTED, V (qcube q)}
   \<and> (if st_has (state t) PARAC_TASK_SPLITTED then length (qcube q) < length qs
        \<and> (\<forall>side. side_result side t \<in> {PARAC_PENDING, V (side_cube qs side (qcube q))})
      else slot0 t = SlotNull \<and> slot1 t = SlotNull \<and> left_result t = PARAC_PENDING \<and> right_result t = PARAC_PENDING
        \<and> result t \<noteq> PARAC_SPLITTED)
   \<and> done_ok t
   \<and> (\<forall>side c. side_slot side t = SlotTask c \<longrightarrow> side_result side t = PARAC_PENDING)
   \<and> (\<forall>p. parent_task t = Some p \<longrightarrow> (\<exists>pw pq side. h p = Some pw \<and> Ob p = Some pq
        \<and> st_has (state (wt pw)) PARAC_TASK_SPLITTED \<and> side_slot side (wt pw) = SlotTask r
        \<and> parac_path_get_next (path (wt pw)) side = Some (path t) \<and> qcube q = side_cube qs side (qcube pq)))"

lemma qtask_atD:
  assumes "qtask_at qs V Ob h r t q"
  shows "length (qcube q) \<le> length qs"
    "assess t = Some (GetAssessFunc (if length qs > length (qcube q) then qs ! length (qcube q) else 0))"
    "received_from t = None" "parac_path_is_root (path t) \<Longrightarrow> qcube q = []"
    "result t \<in> {PARAC_PENDING, PARAC_SPLITTED, V (qcube q)}"
    "side_slot side t = SlotTask c \<Longrightarrow> side_result side t = PARAC_PENDING" "done_ok t"
  using assms unfolding qtask_at_def by blast+

lemma qtask_splitD:
  assumes "qtask_at qs V Ob h r t q" "st_has (state t) PARAC_TASK_SPLITTED"
  shows "length (qcube q) < length qs" "side_result side t \<in> {PARAC_PENDING, V (side_cube qs side (qcube q))}"
    "assess t = Some (GetAssessFunc (qs ! length (qcube q)))"
  using assms unfolding qtask_at_def by auto

lemma qtask_leafD:
  assumes "qtask_at qs V Ob h r t q" "\<not> st_has (state t) PARAC_TASK_SPLITTED"
  shows "slot0 t = SlotNull" "slot1 t = SlotNull" "left_result t = PARAC_PENDING" "right_result t = PARAC_PENDING"
    "result t \<in> {PARAC_PENDING, V (qcube q)}"
  using assms unfolding qtask_at_def by auto

lemma qtask_parentD:
  assumes "qtask_at qs V Ob h r t q" "parent_task t = Some p"
  obtains pw pq side where "h p = Some pw" "Ob p = Some pq" "st_has (state (wt pw)) PARAC_TASK_SPLITTED"
    "side_slot side (wt pw) = SlotTask r" "parac_path_get_next (path (wt pw)) side = Some (path t)"
    "qcube q = side_cube qs side (qcube pq)"
  using assms unfolding qtask_at_def by blast

definition qheap :: "int list \<Rightarrow> (int list \<Rightarrow> parac_status) \<Rightarrow> (task_ref \<Rightarrow> qbf_task option) \<Rightarrow>
    (task_ref \<Rightarrow> task_wrapper option) \<Rightarrow> bool" where
  "qheap qs V Ob h \<longleftrightarrow> (\<forall>r tw. h r = Some tw \<longrightarrow> (\<exists>q. Ob r = Some q \<and> qtask_at qs V Ob h r (wt tw) q))"

lemma next_left_right:
  "parac_path_get_next_left p = parac_path_get_next p False" "parac_path_get_next_right p = parac_path_get_next p True"
  by (simp_all add: parac_path_get_next_left_def parac_path_get_next_right_def)

section \<open>Assessment\<close>

fun verdict_of :: "assess_fn \<Rightarrow> parac_status list \<Rightarrow> parac_status option" where
  "verdict_of QbfUniversalAssess rs = verdict PARAC_UNSAT PARAC_SAT rs"
| "verdict_of _ rs = verdict PARAC_SAT PARAC_UNSAT rs"

definition qassessed :: "assess_fn \<Rightarrow> parac_task \<Rightarrow> parac_task" where
  "qassessed f t =
     (if st_has (state t) PARAC_TASK_SPLITTED then
        let t' = (case verdict_of f [left_result t, right_result t] of None \<Rightarrow> t | Some v \<Rightarrow> t\<lparr>result := v\<rparr>)
        in if result t' \<noteq> PARAC_PENDING \<and> result t' \<noteq> PARAC_SPLITTED
           then t'\<lparr>state := st_without (state t' OR PARAC_TASK_SPLITS_DONE) PARAC_TASK_WAITING_FOR_SPLITS\<rparr>
           else t'
      else if result t \<noteq> PARAC_PENDING
      then t\<lparr>state := st_without (state t OR PARAC_TASK_DONE) PARAC_TASK_WORK_AVAILABLE\<rparr>
      else t)"

text \<open>No child is aborted: a child pointer that is left belongs to a result that is still pending.\<close>

lemma binary_with_termination:
  assumes tw: "heap w r = Some tw" and d: "d \<noteq> ot" "d \<noteq> PARAC_PENDING"
    and slots: "\<And>side c. side_slot side (wt tw) = SlotTask c \<Longrightarrow> side_result side (wt tw) = PARAC_PENDING"
    and wf: "left_child (wt tw) \<noteq> None" "right_child (wt tw) \<noteq> None"
  shows "assess_binary d ot term_call r True w =
    (case verdict d ot [left_result (wt tw), right_result (wt tw)] of
       None \<Rightarrow> Some (False, w)
     | Some v \<Rightarrow> Some (True, w\<lparr>heap := (heap w)(r \<mapsto> tw\<lparr>wt := (wt tw)\<lparr>result := v\<rparr>\<rparr>)\<rparr>))"
proof -
  let ?t = "wt tw"
  from wf obtain l rc where lr: "left_child ?t = Some l" "right_child ?t = Some rc" by blast
  have l: "left_result ?t = PARAC_PENDING" if "l = Some c" for c
    using slots [of False c] lr(1) that by (simp add: side_slot_def side_result_def left_child_def task_of_slot_iff)
  have rr: "right_result ?t = PARAC_PENDING" if "rc = Some c" for c
    using slots [of True c] lr(2) that by (simp add: side_slot_def side_result_def right_child_def task_of_slot_iff)
  have ab: "abort_child_if (right_result ?t) rc x = Some False" for x :: "'a task_world_scheme"
    using rr by (cases rc) (auto simp: abort_child_if_def)
  have ab2: "abort_child_if (left_result ?t) l x = Some False" for x :: "'a task_world_scheme"
    using l by (cases l) (auto simp: abort_child_if_def)
  have ab3: "abort_child_if res None x = Some False" for res and x :: "'a task_world_scheme" by (simp add: abort_child_if_def)
  show ?thesis using tw d lr ab ab2 ab3 by (auto simp: assess_binary_def verdict_def)
qed

lemma qbf_assess_heap:
  assumes tw: "heap s r = Some tw" and wf: "wf_task_in As (wt tw)" and f: "f \<in> {QbfExistentialAssess, QbfUniversalAssess}"
    and rf: "received_from (wt tw) = None"
    and slots: "\<And>side c. side_slot side (wt tw) = SlotTask c \<Longrightarrow> side_result side (wt tw) = PARAC_PENDING"
    and a: "run_assess f tc r s = Some (st, s')"
  shows "st = state (qassessed f (wt tw)) \<and> s' = s\<lparr>heap := (heap s)(r \<mapsto> tw\<lparr>wt := qassessed f (wt tw)\<rparr>)\<rparr>"
proof -
  have ec: "extended_children_count (wt tw) = -1" and lr: "left_child (wt tw) \<noteq> None" "right_child (wt tw) \<noteq> None"
    using wf by (simp_all add: wf_task_in_def)
  obtain as where a': "shared_assess as tc r True s = Some (st, s')"
    and as: "as tc r True s = (case verdict_of f [left_result (wt tw), right_result (wt tw)] of
       None \<Rightarrow> Some (False, s)
     | Some v \<Rightarrow> Some (True, s\<lparr>heap := (heap s)(r \<mapsto> tw\<lparr>wt := (wt tw)\<lparr>result := v\<rparr>\<rparr>)\<rparr>))"
  proof (cases "f = QbfExistentialAssess")
    case True
    show thesis
      by (rule that [of existential_assess])
        (use True a tw ec binary_with_termination [where d = PARAC_SAT and ot = PARAC_UNSAT and term_call = tc, OF tw _ _ slots lr] in
          \<open>simp_all add: parac_task_qbf_existential_assess_def existential_assess_def\<close>)
  next
    case False
    then have f: "f = QbfUniversalAssess" using f by simp
    show thesis
      by (rule that [of universal_assess])
        (use f a tw ec binary_with_termination [where d = PARAC_UNSAT and ot = PARAC_SAT and term_call = tc, OF tw _ _ slots lr] in
          \<open>simp_all add: parac_task_qbf_universal_assess_def universal_assess_def\<close>)
  qed
  define t' where "t' = (case verdict_of f [left_result (wt tw), right_result (wt tw)] of
      None \<Rightarrow> wt tw | Some v \<Rightarrow> (wt tw)\<lparr>result := v\<rparr>)"
  have n: "\<exists>n. as tc r True s = Some (n, s\<lparr>heap := (heap s)(r \<mapsto> tw\<lparr>wt := t'\<rparr>)\<rparr>)"
    unfolding as t'_def using tw by (auto split: option.splits simp: fun_upd_idem)
  have t': "received_from t' = None" "state t' = state (wt tw)" using rf by (simp_all add: t'_def split: option.split)
  show ?thesis
  proof (cases "st_has (state (wt tw)) PARAC_TASK_SPLITTED")
    case True
    have q: "qassessed f (wt tw) = (if result t' \<noteq> PARAC_PENDING \<and> result t' \<noteq> PARAC_SPLITTED
      then t'\<lparr>state := st_without (state t' OR PARAC_TASK_SPLITS_DONE) PARAC_TASK_WAITING_FOR_SPLITS\<rparr> else t')"
      using True by (simp add: qassessed_def t'_def Let_def)
    from n obtain b where "as tc r True s = Some (b, s\<lparr>heap := (heap s)(r \<mapsto> tw\<lparr>wt := t'\<rparr>)\<rparr>)" by blast
    with a' tw True t' show ?thesis unfolding q shared_assess_def
      by (auto simp: bind_eq_Some_conv split: if_splits)
  next
    case False
    with a' tw rf show ?thesis unfolding shared_assess_def
      by (auto simp: bind_eq_Some_conv qassessed_def fun_upd_idem split: if_splits)
  qed
qed

lemma overlength_mask: "PARAC_PATH_OVERLENGTH AND mask 6 = PARAC_PATH_OVERLENGTH"
  by (simp add: path_consts mask_eq_exp_minus_1)

lemma next_shape:
  assumes "parac_path_get_next p b = Some c"
  shows "\<not> parac_path_is_root c \<and> \<not> parac_path_is_extended c \<and> (\<forall>d. parac_path_get_next p (\<not> b) = Some d \<longrightarrow> d \<noteq> c)"
proof (cases "unat (length_fld p) < 58")
  case True
  have "unat (length_fld c) = unat (length_fld p) + 1"
    using get_next_bits(4) [OF True assms] True by (simp add: unat_word_ariths)
  then have "length_fld c \<noteq> 0" by auto
  moreover have "d \<noteq> c" if d: "parac_path_get_next p (\<not> b) = Some d" for d
    using get_next_bits(1) [OF True assms] get_next_bits(1) [OF True d] by auto
  ultimately show ?thesis using next_not_extended [OF assms] by (auto simp: parac_path_is_root_def)
next
  case False
  have shape: "length_fld x = PARAC_PATH_OVERLENGTH \<and> overlength_left_right x = e" if "parac_path_get_next p e = Some x" for e x
    using that False by (auto simp: parac_path_get_next_def Let_def parac_path_is_overlength_def bind_eq_Some_conv
        PARAC_PATH_MAX_LENGTH_def overlength_mask unat_word_ariths split: if_splits)
  from shape [OF assms] shape have "d \<noteq> c" if "parac_path_get_next p (\<not> b) = Some d" for d using that by blast
  with shape [OF assms] next_not_extended [OF assms] show ?thesis
    by (auto simp: parac_path_is_root_def path_consts)
qed

text \<open>
  The interface between the meaning of the formula and the tasks that decide it: every cube has a value, and the value of a
  cube is the verdict of the values of its two extensions under the quantifier of the next variable.
\<close>

locale qbf_values =
  fixes qs :: "int list" and V :: "int list \<Rightarrow> parac_status"
  assumes final: "V c \<in> {PARAC_SAT, PARAC_UNSAT}"
    and split: "length c < length qs \<Longrightarrow>
      verdict_of (GetAssessFunc (qs ! length c)) [V (side_cube qs False c), V (side_cube qs True c)] = Some (V c)"
begin

lemma final': "V c \<noteq> PARAC_PENDING" "V c \<noteq> PARAC_SPLITTED" "V c \<noteq> PARAC_UNKNOWN" "V c \<noteq> PARAC_ABORTED"
  using final [of c] by auto

lemma verdict_sound:
  assumes "length c < length qs" "l \<in> {PARAC_PENDING, V (side_cube qs False c)}" "r \<in> {PARAC_PENDING, V (side_cube qs True c)}"
    "verdict_of (GetAssessFunc (qs ! length c)) [l, r] = Some v"
  shows "v = V c"
  using split [OF assms(1)] assms(2-4) final [of "side_cube qs False c"] final [of "side_cube qs True c"]
  by (cases "quantifier_type (qs ! length c)") (auto simp: GetAssessFunc_def verdict_def split: if_splits)

lemma qassessed_keeps:
  "path (qassessed f t) = path t" "slot0 (qassessed f t) = slot0 t" "slot1 (qassessed f t) = slot1 t"
  "left_result (qassessed f t) = left_result t" "right_result (qassessed f t) = right_result t"
  "parent_task (qassessed f t) = parent_task t" "received_from (qassessed f t) = received_from t"
  "assess (qassessed f t) = assess t" "st_has (state (qassessed f t)) PARAC_TASK_SPLITTED = st_has (state t) PARAC_TASK_SPLITTED"
  "extended_children_count (qassessed f t) = extended_children_count t" "has_free_userdata (qassessed f t) = has_free_userdata t"
  "pre_path_sorting_critereon (qassessed f t) = pre_path_sorting_critereon t"
  "post_path_sorting_critereon (qassessed f t) = post_path_sorting_critereon t"
  by (auto simp: qassessed_def Let_def state_bits split: option.splits)

lemma qassessed_result:
  assumes "qtask_at qs V Ob h r t q" "assess t = Some f"
  shows "result (qassessed f t) \<in> {PARAC_PENDING, PARAC_SPLITTED, V (qcube q)}"
    "\<not> st_has (state t) PARAC_TASK_SPLITTED \<Longrightarrow> result (qassessed f t) = result t"
proof -
  show "\<not> st_has (state t) PARAC_TASK_SPLITTED \<Longrightarrow> result (qassessed f t) = result t"
    by (auto simp: qassessed_def)
  show "result (qassessed f t) \<in> {PARAC_PENDING, PARAC_SPLITTED, V (qcube q)}"
  proof (cases "st_has (state t) PARAC_TASK_SPLITTED")
    case True
    note d = qtask_splitD [OF assms(1) True]
    have f: "f = GetAssessFunc (qs ! length (qcube q))" using d(3) assms(2) by simp
    have lr: "left_result t \<in> {PARAC_PENDING, V (side_cube qs False (qcube q))}"
      "right_result t \<in> {PARAC_PENDING, V (side_cube qs True (qcube q))}"
      using d(2) [of False] d(2) [of True] by (simp_all add: side_result_def)
    note v = verdict_sound [OF d(1) lr]
    show ?thesis
    proof (cases "verdict_of f [left_result t, right_result t]")
      case None
      then show ?thesis using True qtask_atD(5) [OF assms(1)] by (auto simp: qassessed_def)
    next
      case (Some x)
      then have "x = V (qcube q)" using v f by simp
      then show ?thesis using True Some by (simp add: qassessed_def Let_def)
    qed
  qed (use qtask_atD(5) [OF assms(1)] in \<open>auto simp: qassessed_def\<close>)
qed

lemma qtask_assessed:
  assumes "qtask_at qs V Ob h r t q" "assess t = Some f"
  shows "qtask_at qs V Ob h r (qassessed f t) q"
proof -
  have "side_slot side (qassessed f t) = side_slot side t" "side_result side (qassessed f t) = side_result side t" for side
    by (simp_all add: side_slot_def side_result_def qassessed_keeps)
  moreover have "done_ok (qassessed f t)"
    using qtask_atD(7) [OF assms(1)] verdict_cases
    by (cases "verdict_of f [left_result t, right_result t]"; cases f)
      (auto simp: done_ok_def qassessed_def Let_def state_bits verdict_def split: if_splits)
  ultimately show ?thesis using assms(1) qassessed_result [OF assms] unfolding qtask_at_def qassessed_keeps by (cases "st_has (state t) PARAC_TASK_SPLITTED") auto
qed

lemma qtask_done:
  assumes "qtask_at qs V Ob h r t q" "parac_task_state_is_done (state t)"
  shows "result t = V (qcube q)"
  using qtask_atD(5,7) [OF assms(1)] qtask_leafD(5) [OF assms(1)] assms(2)
  by (auto simp: done_ok_def is_done_bits state_bits split: if_splits)

text \<open>What the children read of their parent.\<close>

lemma qtask_cong:
  assumes "qtask_at qs V Ob h r t q"
    and "\<And>p pw side. parent_task t = Some p \<Longrightarrow> h p = Some pw \<Longrightarrow> side_slot side (wt pw) = SlotTask r \<Longrightarrow>
      \<exists>pw'. h' p = Some pw' \<and> side_slot side (wt pw') = SlotTask r \<and> path (wt pw') = path (wt pw)
        \<and> (st_has (state (wt pw)) PARAC_TASK_SPLITTED \<longrightarrow> st_has (state (wt pw')) PARAC_TASK_SPLITTED)"
  shows "qtask_at qs V Ob h' r t q"
proof -
  have "\<exists>pw pq side. h' p = Some pw \<and> Ob p = Some pq \<and> st_has (state (wt pw)) PARAC_TASK_SPLITTED
      \<and> side_slot side (wt pw) = SlotTask r \<and> parac_path_get_next (path (wt pw)) side = Some (path t)
      \<and> qcube q = side_cube qs side (qcube pq)" if "parent_task t = Some p" for p
    by (rule qtask_parentD [OF assms(1) that]) (use assms(2) [OF that] in metis)
  with assms(1) show ?thesis unfolding qtask_at_def by blast
qed

lemma qheap_upd:
  assumes "qheap qs V Ob h" "h r = Some tw" "Ob r = Some q" "qtask_at qs V Ob h r (wt tw') q"
    and "slot0 (wt tw') = slot0 (wt tw)" "slot1 (wt tw') = slot1 (wt tw)" "path (wt tw') = path (wt tw)"
    and "st_has (state (wt tw)) PARAC_TASK_SPLITTED \<Longrightarrow> st_has (state (wt tw')) PARAC_TASK_SPLITTED"
  shows "qheap qs V Ob (h(r \<mapsto> tw'))"
  unfolding qheap_def
proof (intro allI impI)
  fix x xw
  assume x: "(h(r \<mapsto> tw')) x = Some xw"
  obtain xq where "Ob x = Some xq" "qtask_at qs V Ob h x (wt xw) xq"
    using x assms(1,3,4) by (auto simp: qheap_def split: if_splits)
  moreover have "qtask_at qs V Ob (h(r \<mapsto> tw')) x (wt xw) xq"
    by (rule qtask_cong [OF calculation(2)]) (use assms(2,5-8) in \<open>auto simp: side_slot_def\<close>)
  ultimately show "\<exists>q. Ob x = Some q \<and> qtask_at qs V Ob (h(r \<mapsto> tw')) x (wt xw) q" by blast
qed

lemma qtask_fewer:
  assumes "qtask_at qs V Ob h r t q"
    and "path t' = path t" "state t' = state t" "left_result t' = left_result t" "right_result t' = right_result t"
      "result t' = result t" "received_from t' = received_from t" "assess t' = assess t"
      "slot0 t' = slot0 t \<or> slot0 t' = SlotNull" "slot1 t' = slot1 t \<or> slot1 t' = SlotNull"
      "parent_task t' = parent_task t \<or> parent_task t' = None"
  shows "qtask_at qs V Ob h r t' q"
proof -
  have s: "side_slot side t' = side_slot side t \<or> side_slot side t' = SlotNull" "side_result side t' = side_result side t" for side
    using assms by (auto simp: side_slot_def side_result_def)
  have "\<forall>side c. side_slot side t' = SlotTask c \<longrightarrow> side_result side t' = PARAC_PENDING"
    using s qtask_atD(6) [OF assms(1)] by (metis child_slot.distinct(1))
  moreover have "done_ok t'" using qtask_atD(7) [OF assms(1)] assms(3,6) by (simp add: done_ok_def)
  ultimately show ?thesis
    using assms qtask_leafD [OF assms(1)] qtask_splitD [OF assms(1)] s(2) unfolding qtask_at_def
    by (cases "st_has (state t) PARAC_TASK_SPLITTED") auto
qed

lemma qheap_removed:
  assumes "qheap qs V Ob h" "h r = Some tw" "local_parent (wt tw) = parent_task (wt tw)"
  shows "qheap qs V Ob (removed_heap r (wt tw) h)"
  unfolding qheap_def
proof (intro allI impI)
  let ?t = "wt tw" and ?h = "removed_heap r (wt tw) h"
  fix x xw'
  assume x: "?h x = Some xw'"
  then obtain xw where xr: "x \<noteq> r" "h x = Some xw" and xw': "xw' = cut_child r ?t x (cut_parent ?t x xw)"
    by (auto simp: removed_heap_def split: if_splits)
  from assms(1) xr obtain q where q: "Ob x = Some q" "qtask_at qs V Ob h x (wt xw) q" by (auto simp: qheap_def)
  have q': "qtask_at qs V Ob h x (wt xw') q"
    by (rule qtask_fewer [OF q(2)]) (auto simp: xw' cut_child_def cut_parent_def clear_slot_def)
  have "qtask_at qs V Ob ?h x (wt xw') q"
  proof (rule qtask_cong [OF q'])
    fix p pw side
    assume p: "parent_task (wt xw') = Some p" "h p = Some pw" "side_slot side (wt pw) = SlotTask x"
    have "p \<noteq> r"
    proof
      assume "p = r"
      with p assms(2) have "kid ?t x" by (auto simp: kid_def side_slot_def split: if_splits)
      with p(1) show False by (simp add: xw' cut_child_def cut_parent_def split: if_splits)
    qed
    then have "?h p = Some (cut_child r ?t p (cut_parent ?t p pw))" using p(2) by (simp add: removed_heap_def)
    moreover have "side_slot side (wt (cut_child r ?t p (cut_parent ?t p pw))) = SlotTask x"
      using p(3) xr(1) by (cases side) (auto simp: side_slot_def cut_child_def cut_parent_def clear_slot_def)
    ultimately show "\<exists>pw'. ?h p = Some pw' \<and> side_slot side (wt pw') = SlotTask x \<and> path (wt pw') = path (wt pw)
        \<and> (st_has (state (wt pw)) PARAC_TASK_SPLITTED \<longrightarrow> st_has (state (wt pw')) PARAC_TASK_SPLITTED)"
      by (simp add: cut_child_def cut_parent_def)
  qed
  with q(1) show "\<exists>q. Ob x = Some q \<and> qtask_at qs V Ob ?h x (wt xw') q" by blast
qed

end

text \<open>The result of a removed task in its parent.\<close>

definition side_recorded :: "bool \<Rightarrow> parac_status \<Rightarrow> parac_task \<Rightarrow> parac_task" where
  "side_recorded side v t = (if side then t\<lparr>right_result := v\<rparr> else t\<lparr>left_result := v\<rparr>)"

lemma record_side:
  assumes "record_in_parent p pth v idx s = Some s'" "heap s p = Some pw" "parac_path_get_next (path (wt pw)) side = Some pth"
  shows "s' = s\<lparr>heap := (heap s)(p \<mapsto> pw\<lparr>wt := side_recorded side v (wt pw)\<rparr>)\<rparr>"
  using assms next_shape [OF assms(3)]
  by (cases side) (auto simp: record_in_parent_def bind_eq_Some_conv next_left_right side_recorded_def split: if_splits)

context qbf_values
begin

lemma qtask_recorded:
  assumes "qtask_at qs V Ob h p t q" "st_has (state t) PARAC_TASK_SPLITTED" "v = V (side_cube qs side (qcube q))"
    "\<And>c. side_slot side t \<noteq> SlotTask c"
  shows "qtask_at qs V Ob h p (side_recorded side v t) q"
proof -
  let ?t = "side_recorded side v t"
  have f: "path ?t = path t" "state ?t = state t" "result ?t = result t" "received_from ?t = received_from t" "assess ?t = assess t"
    "parent_task ?t = parent_task t" "\<And>b. side_slot b ?t = side_slot b t"
    "\<And>b. side_result b ?t = (if b = side then v else side_result b t)" "done_ok ?t = done_ok t"
    by (simp_all add: side_recorded_def side_slot_def side_result_def done_ok_def)
  have "side_result b ?t \<in> {PARAC_PENDING, V (side_cube qs b (qcube q))}" for b
    unfolding f using qtask_splitD(2) [OF assms(1,2), of b] assms(3) by auto
  moreover have "side_result b ?t = PARAC_PENDING" if "side_slot b ?t = SlotTask c" for b c
    using that assms(4) [of c] qtask_atD(6) [OF assms(1), of b c] by (cases "b = side") (simp_all add: f)
  ultimately show ?thesis using assms(1,2) qtask_splitD(1) [OF assms(1,2)] unfolding qtask_at_def f(1-6,9) by simp
qed

text \<open>What the assessment of a task and of its ancestors keeps of the store.\<close>

definition qstore :: "(task_ref \<Rightarrow> qbf_task option) \<Rightarrow> task_store \<Rightarrow> bool" where
  "qstore Ob s \<longleftrightarrow> store_inv_in qbf_assess s \<and> qheap qs V Ob (heap s) \<and> exit_status s \<in> {PARAC_UNDEFINED, V []}"

text \<open>The calls that free an object belong to tasks that are gone.\<close>

definition frees :: "task_store \<Rightarrow> task_store \<Rightarrow> bool" where
  "frees s s' \<longleftrightarrow> (\<exists>out. outcalls s' = outcalls s @ out \<and> (\<forall>r. FreeUserdata r \<in> set out \<longrightarrow> heap s' r = None))
     \<and> dom (heap s') \<subseteq> dom (heap s)"

lemma frees_refl: "frees s s"
  by (simp add: frees_def)

lemma frees_trans:
  assumes "frees a b" "frees b c"
  shows "frees a c"
proof -
  from assms obtain o1 o2 where o: "outcalls b = outcalls a @ o1" "outcalls c = outcalls b @ o2"
    "\<And>r. FreeUserdata r \<in> set o1 \<Longrightarrow> heap b r = None" "\<And>r. FreeUserdata r \<in> set o2 \<Longrightarrow> heap c r = None"
    "dom (heap b) \<subseteq> dom (heap a)" "dom (heap c) \<subseteq> dom (heap b)" by (auto simp: frees_def)
  have "heap c r = None" if "heap b r = None" for r using that o(6) by (auto simp: dom_def)
  with o show ?thesis unfolding frees_def by (intro conjI exI [of _ "o1 @ o2"]) auto
qed

lemma frees_called:
  assumes "called out s s'" "set out \<subseteq> {FreeUserdata r}" "out \<noteq> [] \<Longrightarrow> heap s' r = None" "dom (heap s') \<subseteq> dom (heap s)"
  shows "frees s s'"
proof -
  from assms(1) obtain cs where cs: "outcalls s' = outcalls s @ cs" "filter to_solver cs = out" by (auto simp: called_def)
  have "heap s' x = None" if "FreeUserdata x \<in> set cs" for x
  proof -
    from that cs(2) have "FreeUserdata x \<in> set out" by auto
    then have "x = r" "out \<noteq> []" using assms(2) by auto
    with assms(3) show ?thesis by simp
  qed
  with cs(1) assms(4) show ?thesis by (auto simp: frees_def)
qed

lemma qheapD: "qheap qs V Ob h \<Longrightarrow> h r = Some tw \<Longrightarrow> Ob r = Some q \<Longrightarrow> qtask_at qs V Ob h r (wt tw) q"
  by (fastforce simp: qheap_def)

lemma qstore_record:
  assumes s: "qstore Ob s" and tw: "heap s r = Some tw" and q: "qtask_at qs V Ob (heap s) r (wt tw) q"
    and lp: "local_parent (wt tw) = Some p"
    and pw: "heap s p = Some pw" "Ob p = Some pq" "st_has (state (wt pw)) PARAC_TASK_SPLITTED" "side_slot side (wt pw) = SlotTask r"
      "parac_path_get_next (path (wt pw)) side = Some (path (wt tw))" "qcube q = side_cube qs side (qcube pq)"
    and sc: "qstore Ob sc" "heap sc = removed_heap r (wt tw) (heap s)"
    and sd: "record_in_parent p (path (wt tw)) (V (qcube q)) idx sc = Some sd"
  shows "\<exists>pc. qstore Ob sd \<and> heap sd p = Some pc \<and> parent_state (wt pc) \<and> frees sc sd"
proof -
  let ?c = "cut_child r (wt tw) p (cut_parent (wt tw) p pw)"
  obtain pc where pc: "heap sc p = Some pc"
    using sd by (auto simp: record_in_parent_def bind_eq_Some_conv get_task_iff)
  then have "p \<noteq> r" and pcd: "pc = ?c" using pw(1) by (auto simp: sc(2) removed_heap_def split: if_splits)
  have pf: "path (wt pc) = path (wt pw)" "state (wt pc) = state (wt pw)" "\<And>c. side_slot side (wt pc) \<noteq> SlotTask c"
    using pw(4) lp by (auto simp: pcd cut_child_def cut_parent_def side_slot_def clear_slot_def)
  have sd': "sd = sc\<lparr>heap := (heap sc)(p \<mapsto> pc\<lparr>wt := side_recorded side (V (qcube q)) (wt pc)\<rparr>)\<rparr>"
    using record_side [OF sd pc] pw(5) pf(1) by simp
  have qp: "qtask_at qs V Ob (heap sc) p (wt pc) pq" using sc(1) pc pw(2) by (intro qheapD) (simp_all add: qstore_def)
  have "qheap qs V Ob (heap sd)" unfolding sd'
    using sc(1) pc pw(2) qtask_recorded [OF qp _ _ pf(3)] pw(3,6) pf(2)
    by (auto simp: qstore_def side_recorded_def intro!: qheap_upd)
  moreover have "parent_state (wt pw0)" if "heap s p = Some pw0" for pw0
    using s tw lp that unfolding qstore_def store_inv_in_def links_in_def by fastforce
  then have "parent_state (wt pw')" if "heap sc p = Some pw'" for pw'
    using removed_parent_state [of r "wt tw" "heap s" p pw'] that by (simp add: sc(2))
  from record_in_parent_inv [OF _ sd this] sc(1)
  have "\<exists>pc. heap sd p = Some pc \<and> parent_state (wt pc)" "store_inv_in qbf_assess sd" by (auto simp: qstore_def)
  moreover have "exit_status sd \<in> {PARAC_UNDEFINED, V []}" using sc(1) by (simp add: sd' qstore_def)
  moreover have "frees sc sd" using pc by (auto simp: frees_def sd')
  ultimately show ?thesis by (auto simp: qstore_def)
qed

lemma qstore_done:
  assumes s: "qstore Ob s" and tw: "heap s r = Some tw" and nq: "\<not> in_work_queue tw"
    and don: "parac_task_state_is_done (state (wt tw))"
    and d: "assess_done ac True True r (state (wt tw)) s = Some s'"
    and IH: "\<And>p s0 s1 pw. qstore Ob s0 \<Longrightarrow> heap s0 p = Some pw \<Longrightarrow> assessable pw \<Longrightarrow>
      ac True p s0 = Some s1 \<Longrightarrow> qstore Ob s1 \<and> frees s0 s1"
  shows "qstore Ob s' \<and> frees s s'"
proof -
  have inv: "store_inv_in qbf_assess s" and qh: "qheap qs V Ob (heap s)" using s by (simp_all add: qstore_def)
  from qh tw obtain q where q: "Ob r = Some q" "qtask_at qs V Ob (heap s) r (wt tw) q" by (auto simp: qheap_def)
  have res: "result (wt tw) = V (qcube q)" using qtask_done [OF q(2) don] .
  have lp: "local_parent (wt tw) = parent_task (wt tw)" using qtask_atD(3) [OF q(2)] by (simp add: local_parent_def)
  have nwa: "\<not> st_has (state (wt tw)) PARAC_TASK_WORK_AVAILABLE" using don by (simp add: is_done_bits state_bits)
  obtain s4 idx where s4: "core s4 = core s" "exit_status s4 = exit_status (finish_root (wt tw) s)" "called [] s s4"
    "assess_done ac True True r (state (wt tw)) s = do { sc \<leftarrow> remove_task r s4;
       (case local_parent (wt tw) of None \<Rightarrow> Some sc | Some p \<Rightarrow> do {
          s \<leftarrow> record_in_parent p (path (wt tw)) (result (wt tw)) idx sc; ac True p s }) }"
    by (rule assess_done_eq [OF tw nwa, where ac = ac and rp = True]) (use res final' in auto)
  from d s4(4) obtain sc where sc: "remove_task r s4 = Some sc"
    and s': "(case local_parent (wt tw) of None \<Rightarrow> Some sc | Some p \<Rightarrow> do {
          s \<leftarrow> record_in_parent p (path (wt tw)) (result (wt tw)) idx sc; ac True p s }) = Some s'"
    by (auto simp: bind_eq_Some_conv)
  have h4: "heap s4 = heap s" and inv4: "store_inv_in qbf_assess s4"
    using s4(1) inv store_inv_core [OF s4(1)] by (simp_all add: core_def)
  have tw4: "heap s4 r = Some tw" using tw h4 by simp
  note rc = remove_task_core [OF inv4 tw4 sc]
  have ex: "exit_status sc \<in> {PARAC_UNDEFINED, V []}"
    using s qtask_atD(4) [OF q(2)] res unfolding rc(5) s4(2) by (auto simp: qstore_def finish_root_def emit_def)
  have qsc: "qstore Ob sc"
    using remove_task_inv [OF inv4 tw4 nq sc] qheap_removed [OF qh tw lp] ex by (simp add: qstore_def rc(1) h4)
  have fr: "frees s sc"
  proof (rule frees_trans [of s s4])
    show "frees s s4" by (rule frees_called [OF s4(3)]) (simp_all add: h4)
    show "frees s4 sc"
      by (rule frees_called [OF rc(9)]) (auto simp: rc(1) h4 removed_heap_def split: if_splits)
  qed
  show ?thesis
  proof (cases "local_parent (wt tw)")
    case None
    with s' qsc fr show ?thesis by simp
  next
    case (Some p)
    with s' obtain sd where sd: "record_in_parent p (path (wt tw)) (result (wt tw)) idx sc = Some sd" and ac: "ac True p sd = Some s'"
      by (auto simp: bind_eq_Some_conv)
    from Some lp have "parent_task (wt tw) = Some p" by simp
    from qtask_parentD [OF q(2) this] obtain pw pq side where pw: "heap s p = Some pw" "Ob p = Some pq"
      "st_has (state (wt pw)) PARAC_TASK_SPLITTED" "side_slot side (wt pw) = SlotTask r"
      "parac_path_get_next (path (wt pw)) side = Some (path (wt tw))" "qcube q = side_cube qs side (qcube pq)" by blast
    have "heap sc = removed_heap r (wt tw) (heap s)" by (simp add: rc(1) h4)
    from qstore_record [OF s tw q(2) Some pw qsc this sd [unfolded res]] obtain pc where
      qsd: "qstore Ob sd" "heap sd p = Some pc" "parent_state (wt pc)" "frees sc sd" by blast
    then have "assessable pc" using parent_assessable by (auto simp: qstore_def)
    from IH [OF qsd(1,2) this ac] qsd(4) fr show ?thesis using frees_trans by blast
  qed
qed

end

lemma insert_heap:
  assumes "insert_into_tasksWaitingForWorkerQueue r s = Some s'" "heap s r = Some tw"
  shows "heap s' = (heap s)(r \<mapsto> tw\<lparr>wt := (wt tw)\<lparr>state := state (wt tw) OR PARAC_TASK_WORK_AVAILABLE\<rparr>, in_work_queue := True\<rparr>)
    \<and> exit_status s' = exit_status s \<and> called [] s s'"
  using assms unfolding insert_into_tasksWaitingForWorkerQueue_def
  by (cases "has_ping_on_work s") (auto simp: bind_eq_Some_conv Let_def emit_def called_def)

lemma not_done_heap:
  assumes "assess_not_done r (state (wt tw)) s = Some s'" "heap s r = Some tw"
  shows "\<exists>b. heap s' = (heap s)(r \<mapsto> tw\<lparr>in_work_queue := b, wt := (wt tw)\<lparr>last_state := state (wt tw)\<rparr>\<rparr>)
    \<and> exit_status s' = exit_status s \<and> called [] s s'"
proof -
  let ?ins = "st_has (state (wt tw)) PARAC_TASK_WORK_AVAILABLE \<and> \<not> st_has (state (wt tw)) PARAC_TASK_DONE"
  from assms obtain sb where sb: "(if ?ins then insert_into_tasksWaitingForWorkerQueue r s else Some s) = Some sb"
    and u: "\<exists>c. upd_task r (\<lambda>t. t\<lparr>last_state := state (wt tw)\<rparr>) (if c then insert_into_tasksWaitingForChildren r sb else sb) = Some s'"
    by (auto simp: assess_not_done_def bind_eq_Some_conv Let_def)
  have idem: "state (wt tw) OR PARAC_TASK_WORK_AVAILABLE = state (wt tw)" if ?ins
    by (rule bit_eqI) (use that in \<open>auto simp: state_bits bit_simps\<close>)
  have "\<exists>b. heap sb = (heap s)(r \<mapsto> tw\<lparr>in_work_queue := b\<rparr>) \<and> exit_status sb = exit_status s \<and> called [] s sb"
  proof (cases ?ins)
    case True
    then have "insert_into_tasksWaitingForWorkerQueue r s = Some sb" using sb by simp
    from insert_heap [OF this assms(2)] idem [OF True] show ?thesis by auto
  next
    case False
    with sb assms(2) show ?thesis by (intro exI [of _ "in_work_queue tw"]) (auto simp: called_refl fun_upd_idem)
  qed
  with u show ?thesis
    by (auto simp: insert_into_tasksWaitingForChildren_def upd_task_iff called_def split: if_splits)
qed

context qbf_values
begin

lemma qtask_last_state: "qtask_at qs V Ob h r (t\<lparr>last_state := x\<rparr>) q = qtask_at qs V Ob h r t q"
  by (simp add: qtask_at_def side_slot_def side_result_def done_ok_def)

lemma qstore_not_done:
  assumes s: "qstore Ob s" and tw: "heap s r = Some tw" and as: "assessable tw"
    and nd: "assess_not_done r (state (wt tw)) s = Some s'"
  shows "qstore Ob s' \<and> frees s s'"
proof -
  from not_done_heap [OF nd tw] obtain b where
    h: "heap s' = (heap s)(r \<mapsto> tw\<lparr>in_work_queue := b, wt := (wt tw)\<lparr>last_state := state (wt tw)\<rparr>\<rparr>)"
    and e: "exit_status s' = exit_status s" and c: "called [] s s'" by blast
  have "store_inv_in qbf_assess s'" using assess_not_done_inv [OF _ tw as refl nd] s by (simp add: qstore_def)
  moreover from s tw obtain q where q: "Ob r = Some q" "qtask_at qs V Ob (heap s) r (wt tw) q" by (auto simp: qstore_def qheap_def)
  have "qheap qs V Ob (heap s')" unfolding h
    by (rule qheap_upd [where h = "heap s" and Ob = Ob, OF _ tw q(1)]) (use s q(2) in \<open>simp_all add: qstore_def qtask_last_state\<close>)
  moreover have "frees s s'" using frees_called [OF c] tw by (auto simp: h)
  ultimately show ?thesis using s e by (simp add: qstore_def)
qed

lemma qstore_body:
  assumes s: "qstore Ob s" and tw: "heap s r = Some tw" and as: "assessable tw"
    and body: "assess_task_body ac tc True True r s = Some s'"
    and IH: "\<And>p s0 s1 pw. qstore Ob s0 \<Longrightarrow> heap s0 p = Some pw \<Longrightarrow> assessable pw \<Longrightarrow>
      ac True p s0 = Some s1 \<Longrightarrow> qstore Ob s1 \<and> frees s0 s1"
  shows "qstore Ob s' \<and> frees s s'"
proof -
  have inv: "store_inv_in qbf_assess s" using s by (simp add: qstore_def)
  have wf: "wf_task_in qbf_assess (wt tw)" using store_inv_links [OF inv tw] .
  from s tw obtain q where q: "Ob r = Some q" "qtask_at qs V Ob (heap s) r (wt tw) q" by (auto simp: qstore_def qheap_def)
  from body tw obtain f st s1 sa where f: "assess (wt tw) = Some f" "run_assess f tc r s = Some (st, s1)"
    and u: "upd_task r (\<lambda>t. t\<lparr>state := st\<rparr>) s1 = Some sa"
    and b: "(if parac_task_state_is_done st then assess_done ac True True r st sa else assess_not_done r st sa) = Some s'"
    by (auto simp: assess_task_body_def bind_eq_Some_conv)
  let ?t = "qassessed f (wt tw)" and ?tw = "tw\<lparr>wt := qassessed f (wt tw)\<rparr>"
  have fq: "f \<in> {QbfExistentialAssess, QbfUniversalAssess}"
    using qtask_atD(2) [OF q(2)] f(1) by (auto simp: GetAssessFunc_def split: QuantifierType.splits)
  from qbf_assess_heap [OF tw wf fq qtask_atD(3) [OF q(2)] qtask_atD(6) [OF q(2)] f(2)]
  have st: "st = state ?t" and sa: "sa = s\<lparr>heap := (heap s)(r \<mapsto> ?tw)\<rparr>" using u by auto
  have ha: "heap sa = (heap s)(r \<mapsto> ?tw)" and ta: "heap sa r = Some ?tw" by (simp_all add: sa)
  have asa: "assessable ?tw"
    using as by (auto simp: assessable_def qassessed_def Let_def state_bits split: option.splits if_splits)
  have "same_links_in qbf_assess (wt tw) ?t"
    using qassessed_keeps(9) [of f "wt tw"] by (auto simp: same_links_in_def qassessed_keeps local_parent_def parent_state_def)
      (auto simp: qassessed_def Let_def state_bits split: option.splits if_splits)
  then have "store_inv_in qbf_assess sa" unfolding sa
    by (intro same_shape_inv [OF inv tw]) (use as in \<open>auto simp: same_keys_def qassessed_keeps assessable_def\<close>)
  moreover have "qheap qs V Ob (heap sa)" unfolding ha
    by (rule qheap_upd [where h = "heap s" and Ob = Ob, OF _ tw q(1)]) (use s qtask_assessed [OF q(2) f(1)] in \<open>simp_all add: qstore_def qassessed_keeps\<close>)
  ultimately have qsa: "qstore Ob sa" using s by (simp add: qstore_def sa)
  have fr: "frees s sa" using tw by (auto simp: frees_def sa)
  show ?thesis
  proof (cases "parac_task_state_is_done st")
    case True
    with b st have "assess_done ac True True r (state (wt ?tw)) sa = Some s'" by simp
    from qstore_done [OF qsa ta _ _ this IH] True st asa fr frees_trans show ?thesis by (auto simp: assessable_def)
  next
    case False
    with b st have "assess_not_done r (state (wt ?tw)) sa = Some s'" by simp
    from qstore_not_done [OF qsa ta asa this] fr frees_trans show ?thesis by blast
  qed
qed

lemma qstore_assess:
  "qstore Ob s \<Longrightarrow> heap s r = Some tw \<Longrightarrow> assessable tw \<Longrightarrow> call n (Assess True True r) s = Some s' \<Longrightarrow>
   qstore Ob s' \<and> frees s s'"
proof (induction n arbitrary: s r tw s')
  case (Suc n)
  from Suc.prems(4) have body: "assess_task_body (\<lambda>b p. call n (Assess b b p)) (\<lambda>r. call n (Terminate r)) True True r s
     = Some s'" by simp
  show ?case by (rule qstore_body [OF Suc.prems(1-3) body]) (rule Suc.IH)
qed simp

end

context qbf_values
begin

lemma qheap_objs:
  assumes "qheap qs V Ob h" "\<And>r tw. h r = Some tw \<Longrightarrow> map_option qcube (Ob' r) = map_option qcube (Ob r)"
  shows "qheap qs V Ob' h"
  unfolding qheap_def
proof (intro allI impI)
  fix r tw
  assume r: "h r = Some tw"
  with assms(1) obtain q where q: "Ob r = Some q" "qtask_at qs V Ob h r (wt tw) q" by (auto simp: qheap_def)
  with assms(2) [OF r] obtain q' where q': "Ob' r = Some q'" "qcube q' = qcube q" by auto
  have "\<exists>pw pq side. h p = Some pw \<and> Ob' p = Some pq \<and> st_has (state (wt pw)) PARAC_TASK_SPLITTED
      \<and> side_slot side (wt pw) = SlotTask r \<and> parac_path_get_next (path (wt pw)) side = Some (path (wt tw))
      \<and> qcube q' = side_cube qs side (qcube pq)" if "parent_task (wt tw) = Some p" for p
  proof (rule qtask_parentD [OF q(2) that])
    fix pw pq side
    assume p: "h p = Some pw" "Ob p = Some pq" "st_has (state (wt pw)) PARAC_TASK_SPLITTED" "side_slot side (wt pw) = SlotTask r"
      "parac_path_get_next (path (wt pw)) side = Some (path (wt tw))" "qcube q = side_cube qs side (qcube pq)"
    from assms(2) [OF p(1)] p(2) obtain pq' where "Ob' p = Some pq'" "qcube pq' = qcube pq" by auto
    with p q'(2) show ?thesis by metis
  qed
  with q(2) have "qtask_at qs V Ob' h r (wt tw) q'" unfolding qtask_at_def q'(2) by blast
  with q'(1) show "\<exists>q. Ob' r = Some q \<and> qtask_at qs V Ob' h r (wt tw) q" by blast
qed

definition qworld :: "qbf_world \<Rightarrow> bool" where
  "qworld w \<longleftrightarrow> qstore (qbfTasks w) (qw_store w) \<and> m_quantifiers (qw_parser w) = qs \<and> m_integerBasedSplits (qw_config w) = []
     \<and> (qs = [] \<longrightarrow> (isTrivialSAT (qw_parser w) \<longrightarrow> V [] = PARAC_SAT) \<and> (isTrivialUNSAT (qw_parser w) \<longrightarrow> V [] = PARAC_UNSAT))"

text \<open>Writing fields of a task that does not wait for a worker.\<close>

definition harmless :: "parac_task \<Rightarrow> parac_task \<Rightarrow> bool" where
  "harmless t t' \<longleftrightarrow> same_links_in qbf_assess t t' \<and> pre_path_sorting_critereon t' = pre_path_sorting_critereon t
     \<and> post_path_sorting_critereon t' = post_path_sorting_critereon t
     \<and> (st_has (state t) PARAC_TASK_SPLITTED \<longrightarrow> st_has (state t') PARAC_TASK_SPLITTED)"

lemma qworld_op:
  assumes w: "qworld w" and tw: "heap (qw_store w) r = Some tw" "\<not> in_work_queue tw" and h: "harmless (wt tw) (f (wt tw))"
    and q: "\<And>q. qbfTasks w r = Some q \<Longrightarrow> qtask_at qs V (qbfTasks w) (heap (qw_store w)) r (wt tw) q \<Longrightarrow>
      qtask_at qs V (qbfTasks w) (heap (qw_store w)) r (f (wt tw)) q"
  shows "qbf_task_op r f w = Some (w\<lparr>qw_store := (qw_store w)\<lparr>heap := (heap (qw_store w))(r \<mapsto> tw\<lparr>wt := f (wt tw)\<rparr>)\<rparr>\<rparr>)"
    "qworld (w\<lparr>qw_store := (qw_store w)\<lparr>heap := (heap (qw_store w))(r \<mapsto> tw\<lparr>wt := f (wt tw)\<rparr>)\<rparr>\<rparr>)"
proof -
  let ?s = "qw_store w" and ?tw = "tw\<lparr>wt := f (wt tw)\<rparr>"
  show "qbf_task_op r f w = Some (w\<lparr>qw_store := ?s\<lparr>heap := (heap ?s)(r \<mapsto> ?tw)\<rparr>\<rparr>)"
    using tw by (simp add: qbf_task_op_def)
  have s: "store_inv_in qbf_assess ?s" "qheap qs V (qbfTasks w) (heap ?s)" using w by (simp_all add: qworld_def qstore_def)
  have "store_inv_in qbf_assess (?s\<lparr>heap := (heap ?s)(r \<mapsto> ?tw)\<rparr>)"
    by (rule same_shape_inv [OF s(1) tw(1)]) (use h tw(2) in \<open>auto simp: harmless_def same_keys_def same_links_in_def\<close>)
  moreover from s(2) tw(1) obtain q where q': "qbfTasks w r = Some q" "qtask_at qs V (qbfTasks w) (heap ?s) r (wt tw) q"
    by (auto simp: qheap_def)
  have "qheap qs V (qbfTasks w) ((heap ?s)(r \<mapsto> ?tw))"
    by (rule qheap_upd [where h = "heap ?s" and Ob = "qbfTasks w", OF s(2) tw(1) q'(1)])
      (use q [OF q'] h in \<open>simp_all add: harmless_def same_links_in_def\<close>)
  ultimately show "qworld (w\<lparr>qw_store := ?s\<lparr>heap := (heap ?s)(r \<mapsto> ?tw)\<rparr>\<rparr>)"
    using w by (simp add: qworld_def qstore_def)
qed

lemma qworld_objs:
  assumes "qworld w" "\<And>r tw. heap (qw_store w) r = Some tw \<Longrightarrow> map_option qcube (Ob' r) = map_option qcube (qbfTasks w r)"
  shows "qworld (w\<lparr>qbfTasks := Ob'\<rparr>)"
  using assms qheap_objs [of "qbfTasks w" "heap (qw_store w)" Ob'] by (simp add: qworld_def qstore_def)

lemma qworld_other [simp]:
  "qworld (w\<lparr>qw_objs := ob\<rparr>) = qworld w" "qworld (w\<lparr>qw_terminated := ts\<rparr>) = qworld w"
  by (simp_all add: qworld_def)

lemma qbf_calls_objs:
  "qbf_calls cs w = Some w' \<Longrightarrow> qw_store w' = qw_store w \<and> qw_parser w' = qw_parser w \<and> qw_config w' = qw_config w \<and> qw_objs w' = qw_objs w
     \<and> (\<forall>r. qbfTasks w' r = (if FreeUserdata r \<in> set cs then None else qbfTasks w r))"
proof (induction cs arbitrary: w)
  case (Cons c cs)
  then obtain w1 where w1: "qbf_call c w = Some w1" "qbf_calls cs w1 = Some w'" by (auto simp: bind_eq_Some_conv)
  have "qw_store w1 = qw_store w \<and> qw_parser w1 = qw_parser w \<and> qw_config w1 = qw_config w \<and> qw_objs w1 = qw_objs w
     \<and> (\<forall>r. qbfTasks w1 r = (if c = FreeUserdata r then None else qbfTasks w r))"
    using w1(1) by (auto simp: qbf_call_def QBFSolverTask_free_def QBFSolverTask_terminate_def bind_eq_Some_conv
        split: outcall.splits option.splits)
  with Cons.IH [OF w1(2)] show ?case by auto
qed simp

text \<open>The assessment of a task from the solver.\<close>

lemma qworld_assess:
  assumes "qworld w" "heap (qw_store w) r = Some tw" "assessable tw" "qbf_store_op (assess_task n r) w = Some w'"
  shows "qworld w'"
proof -
  from assms(4) obtain s where s: "call n (Assess True True r) (qw_store w) = Some s"
    and c: "qbf_calls (drop (length (outcalls (qw_store w))) (outcalls s)) (w\<lparr>qw_store := s\<rparr>) = Some w'"
    by (auto simp: qbf_store_op_def assess_task_def bind_eq_Some_conv)
  have q: "qstore (qbfTasks w) s" "frees (qw_store w) s"
    using qstore_assess [OF _ assms(2,3) s] assms(1) by (auto simp: qworld_def)
  from q(2) obtain out where out: "outcalls s = outcalls (qw_store w) @ out" "\<And>r. FreeUserdata r \<in> set out \<Longrightarrow> heap s r = None"
    by (auto simp: frees_def)
  have w': "qw_store w' = s" "qw_parser w' = qw_parser w" "qw_config w' = qw_config w"
    "\<And>r. qbfTasks w' r = (if FreeUserdata r \<in> set out then None else qbfTasks w r)"
    using qbf_calls_objs [OF c] by (simp_all add: out(1))
  have "qheap qs V (qbfTasks w') (heap s)"
    by (rule qheap_objs [of "qbfTasks w"]) (use q(1) out(2) w'(4) in \<open>fastforce simp: qstore_def\<close>)+
  with q(1) assms(1) w' show ?thesis by (simp add: qworld_def qstore_def)
qed

end

definition side_linked :: "bool \<Rightarrow> task_ref \<Rightarrow> parac_task \<Rightarrow> parac_task" where
  "side_linked side a t = (if side then t\<lparr>slot1 := SlotTask a\<rparr> else t\<lparr>slot0 := SlotTask a\<rparr>)"

lemma with_child_side:
  assumes "parac_path_get_next (path (wt pw)) side = Some np"
  shows "with_child a np pw = pw\<lparr>refcount := refcount pw + 1, wt := side_linked side a (wt pw)\<rparr>"
  using next_shape [OF assms] assms by (cases side) (auto simp: with_child_def side_linked_def next_left_right)

context qbf_values
begin

text \<open>The task of a child when it has been made.\<close>

definition child_task :: "task_ref \<Rightarrow> parac_path \<Rightarrow> parac_id \<Rightarrow> assess_fn \<Rightarrow> task_ref \<Rightarrow> parac_task" where
  "child_task r np orig f a = (fresh_task (Some r) np orig)\<lparr>assess := Some f, has_work := True,
     has_free_userdata := True, has_serialize := True, userdata := Some a, state := PARAC_TASK_WORK_AVAILABLE\<rparr>"

lemma qtask_childI:
  assumes "length (qcube qa) \<le> length qs" "\<not> parac_path_is_root np" "h r = Some pw" "Ob r = Some q"
    "st_has (state (wt pw)) PARAC_TASK_SPLITTED" "side_slot side (wt pw) = SlotTask a"
    "parac_path_get_next (path (wt pw)) side = Some np" "qcube qa = side_cube qs side (qcube q)"
  shows "qtask_at qs V Ob h a (child_task r np orig
    (GetAssessFunc (if length qs > length (qcube qa) then qs ! length (qcube qa) else 0)) a) qa"
proof -
  let ?t = "child_task r np orig (GetAssessFunc (if length qs > length (qcube qa) then qs ! length (qcube qa) else 0)) a"
  have f: "path ?t = np" "received_from ?t = None" "result ?t = PARAC_PENDING" "state ?t = PARAC_TASK_WORK_AVAILABLE" "slot0 ?t = SlotNull"
    "slot1 ?t = SlotNull" "left_result ?t = PARAC_PENDING" "right_result ?t = PARAC_PENDING" "parent_task ?t = Some r"
    "assess ?t = Some (GetAssessFunc (if length qs > length (qcube qa) then qs ! length (qcube qa) else 0))"
    by (simp_all add: child_task_def fresh_task_def parac_task_init_def)
  have "\<exists>pw pq side. h p = Some pw \<and> Ob p = Some pq
        \<and> st_has (state (wt pw)) PARAC_TASK_SPLITTED \<and> side_slot side (wt pw) = SlotTask a
        \<and> parac_path_get_next (path (wt pw)) side = Some (path ?t) \<and> qcube qa = side_cube qs side (qcube pq)"
    if "parent_task ?t = Some p" for p
    using that assms(3-8) unfolding f by blast
  moreover have "done_ok ?t" "\<not> st_has (state ?t) PARAC_TASK_SPLITTED" by (simp_all add: done_ok_def f state_bits)
  moreover have "side_slot b ?t = SlotNull" for b by (simp add: side_slot_def f)
  ultimately show ?thesis unfolding qtask_at_def using assms(1,2) f(1-8,10) by simp
qed

lemma qheap_child:
  assumes qh: "qheap qs V Ob h" and tw: "h r = Some tw" "Ob r = Some q" and a: "h a = None"
    and t: "st_has (state (wt tw)) PARAC_TASK_SPLITTED" "side_slot side (wt tw) = SlotNull"
    and np: "parac_path_get_next (path (wt tw)) side = Some np" and qa: "qcube qa = side_cube qs side (qcube q)"
    and t': "wt tw' = side_recorded side PARAC_PENDING (side_linked side a (wt tw))"
    and aw: "wt aw = child_task r np orig (GetAssessFunc (if length qs > length (qcube qa) then qs ! length (qcube qa) else 0)) a"
  shows "qheap qs V (Ob(a \<mapsto> qa)) (h(r \<mapsto> tw', a \<mapsto> aw))"
  unfolding qheap_def
proof (intro allI impI)
  let ?h = "h(r \<mapsto> tw', a \<mapsto> aw)" and ?O = "Ob(a \<mapsto> qa)"
  fix x xw
  assume x: "?h x = Some xw"
  have ra: "r \<noteq> a" using tw a by auto
  have qO: "qheap qs V ?O h" by (rule qheap_objs [OF qh]) (use a in auto)
  note qr = qheapD [OF qO tw(1), of q]
  have l: "length (qcube q) < length qs" using qtask_splitD(1) [OF qr] t(1) tw(2) ra by simp
  show "\<exists>q. ?O x = Some q \<and> qtask_at qs V ?O ?h x (wt xw) q"
  proof (cases "x = a")
    case True
    have "qtask_at qs V ?O ?h a (wt aw) qa" unfolding aw
    proof (rule qtask_childI)
      show "length (qcube qa) \<le> length qs" using l qa by (simp add: side_cube_def)
      show "\<not> parac_path_is_root np" using next_shape [OF np] by simp
      show "?h r = Some tw'" "?O r = Some q" using ra tw(2) by simp_all
      show "st_has (state (wt tw')) PARAC_TASK_SPLITTED" "side_slot side (wt tw') = SlotTask a"
        "parac_path_get_next (path (wt tw')) side = Some np"
        using t(1) np by (cases side; simp add: t' side_slot_def side_recorded_def side_linked_def)+
      show "qcube qa = side_cube qs side (qcube q)" by (rule qa)
    qed
    with True x show ?thesis by simp
  next
    case False
    have "\<exists>q. ?O x = Some q \<and> qtask_at qs V ?O h x (wt xw) q"
    proof (cases "x = r")
      case True
      have "side_slot b (wt tw') = (if b = side then SlotTask a else side_slot b (wt tw))"
        "side_result b (wt tw') = (if b = side then PARAC_PENDING else side_result b (wt tw))" for b
        by (auto simp: t' side_slot_def side_result_def side_recorded_def side_linked_def)
      moreover have "path (wt tw') = path (wt tw)" "assess (wt tw') = assess (wt tw)" "received_from (wt tw') = received_from (wt tw)"
        "result (wt tw') = result (wt tw)" "state (wt tw') = state (wt tw)" "parent_task (wt tw') = parent_task (wt tw)"
        "done_ok (wt tw') = done_ok (wt tw)"
        by (simp_all add: t' side_recorded_def side_linked_def done_ok_def)
      ultimately have "qtask_at qs V ?O h r (wt tw') q"
        using qr t(1) tw(2) ra unfolding qtask_at_def by simp
      with True x tw(2) ra show ?thesis by simp
    next
      case nr: False
      with x False have "h x = Some xw" by simp
      with qO show ?thesis unfolding qheap_def by blast
    qed
    then obtain xq where xq: "?O x = Some xq" "qtask_at qs V ?O h x (wt xw) xq" by blast
    have "qtask_at qs V ?O ?h x (wt xw) xq"
    proof (rule qtask_cong [OF xq(2)])
      fix p pw b
      assume p: "h p = Some pw" "side_slot b (wt pw) = SlotTask x"
      then have pa: "p \<noteq> a" using a by auto
      show "\<exists>pw'. ?h p = Some pw' \<and> side_slot b (wt pw') = SlotTask x \<and> path (wt pw') = path (wt pw)
        \<and> (st_has (state (wt pw)) PARAC_TASK_SPLITTED \<longrightarrow> st_has (state (wt pw')) PARAC_TASK_SPLITTED)"
        using p pa tw(1) t(2) by (cases "p = r"; cases "b = side")
          (auto simp: t' side_recorded_def side_linked_def side_slot_def split: if_splits)
    qed
    with xq(1) show ?thesis by blast
  qed
qed

end

lemma next_both: "parac_path_get_next p b = Some c \<Longrightarrow> parac_path_get_next p d \<noteq> None"
proof (cases "unat (length_fld p) < 58")
  case True
  then show ?thesis by (rule get_next_ordinary [of p d]) auto
qed (auto simp: parac_path_get_next_def Let_def parac_path_is_overlength_def bind_eq_Some_conv
        PARAC_PATH_MAX_LENGTH_def overlength_mask unat_word_ariths split: if_splits)

context qbf_values
begin

text \<open>Assessing a new child only puts it into the queue.\<close>

lemma fresh_assess:
  assumes w: "qworld w" and aw: "heap (qw_store w) a = Some aw" "wt aw = child_task r np orig f a"
    and f: "f \<in> {QbfExistentialAssess, QbfUniversalAssess}"
    and op: "qbf_store_op (assess_task n a) w = Some w'"
  shows "\<exists>b. qbfTasks w' = qbfTasks w \<and> qw_objs w' = qw_objs w
     \<and> heap (qw_store w') = (heap (qw_store w))(a \<mapsto> aw\<lparr>in_work_queue := b, wt := (wt aw)\<lparr>last_state := state (wt aw)\<rparr>\<rparr>)"
proof -
  let ?s = "qw_store w" and ?t = "wt aw"
  have t: "state ?t = PARAC_TASK_WORK_AVAILABLE" "result ?t = PARAC_PENDING" "assess ?t = Some f" "received_from ?t = None"
    "slot0 ?t = SlotNull" "slot1 ?t = SlotNull" using aw(2) by (simp_all add: child_task_def fresh_task_def parac_task_init_def)
  from op obtain s where s: "call n (Assess True True a) ?s = Some s"
    and c: "qbf_calls (drop (length (outcalls ?s)) (outcalls s)) (w\<lparr>qw_store := s\<rparr>) = Some w'"
    by (auto simp: qbf_store_op_def assess_task_def bind_eq_Some_conv)
  then obtain m where n: "n = Suc m" by (cases n) auto
  have wf: "wf_task_in qbf_assess ?t" using store_inv_links aw(1) w by (auto simp: qworld_def qstore_def)
  have qa: "qassessed f ?t = ?t" by (simp add: qassessed_def t state_bits)
  have ns: "side_result side ?t = PARAC_PENDING" if "side_slot side ?t = SlotTask c" for side c
    using that t(5,6) by (simp add: side_slot_def split: if_splits)
  have "st = state ?t \<and> s1 = ?s" if "run_assess f tc a ?s = Some (st, s1)" for tc st s1
    using qbf_assess_heap [OF aw(1) wf f t(4) ns that] qa aw(1) by (simp add: fun_upd_idem)
  note run = this
  from s aw(1) t(3) obtain st s1 sa where r1: "run_assess f (\<lambda>r. call m (Terminate r)) a ?s = Some (st, s1)"
    "upd_task a (\<lambda>t. t\<lparr>state := st\<rparr>) s1 = Some sa"
    "(if parac_task_state_is_done st then assess_done (\<lambda>b p. call m (Assess b b p)) True True a st sa
      else assess_not_done a st sa) = Some s"
    by (auto simp: n assess_task_body_def bind_eq_Some_conv)
  have "st = state ?t" "s1 = ?s" using run [OF r1(1)] by simp_all
  moreover from this have "sa = ?s" using r1(2) aw(1) by (simp add: fun_upd_idem)
  moreover have "\<not> parac_task_state_is_done (state ?t)" by (simp add: is_done_bits t(1) state_bits)
  ultimately have nd: "assess_not_done a (state ?t) ?s = Some s" using r1(3) by simp
  from not_done_heap [OF nd aw(1)] obtain b where
    h: "heap s = (heap ?s)(a \<mapsto> aw\<lparr>in_work_queue := b, wt := ?t\<lparr>last_state := state ?t\<rparr>\<rparr>)" and cl: "called [] ?s s" by blast
  from cl have "FreeUserdata x \<notin> set (drop (length (outcalls ?s)) (outcalls s))" for x
    by (auto simp: called_def filter_empty_conv) (metis to_solver_simps(1))
  with qbf_calls_objs [OF c] have "qbfTasks w' = qbfTasks w" "qw_store w' = s" "qw_objs w' = qw_objs w" by (auto simp: fun_eq_iff)
  with h show ?thesis by blast
qed

text \<open>One side of a split.\<close>

lemma qworld_side:
  assumes w: "qworld w" and tw: "heap (qw_store w) r = Some tw" "parent_state (wt tw)" "\<not> stop (wt tw)"
      "side_slot side (wt tw) = SlotNull" "result (wt tw) = PARAC_PENDING" "\<not> in_work_queue tw"
    and q: "qbfTasks w r = Some q" "m_splittingLiterals (qt_cubeSource q) = [alit (qs ! length (qcube q))]"
    and al: "\<And>a. qe_alloc env (qw_store w) = Some a \<Longrightarrow> heap (qw_store w) a = None"
    and op: "qbf_split_side env fuel r side True False w = Some w'"
  shows "qworld w' \<and> (\<exists>n a. heap (qw_store w') r = Some (tw\<lparr>refcount := n,
      wt := side_recorded side PARAC_PENDING (side_linked side a (wt tw))\<rparr>)) \<and> qbfTasks w' r = Some q"
proof -
  from op tw(1) obtain a where ea: "qe_alloc env (qw_store w) = Some a" by (auto simp: qbf_split_side_def bind_eq_Some_conv)
  then have a: "heap (qw_store w) a = None" by (rule al)
  let ?s = "qw_store w" and ?a = a and ?t = "wt tw"
  have inv: "store_inv_in qbf_assess ?s" using w by (simp add: qworld_def qstore_def)
  have ra: "r \<noteq> ?a" using tw(1) a by auto
  from op tw(1) obtain np where np: "parac_path_get_next (path ?t) side = Some np"
    by (auto simp: qbf_split_side_def bind_eq_Some_conv)
  have "parac_path_get_next (path ?t) b \<noteq> None" for b using next_both [OF np] by simp
  then have fc: "fresh_child ?s ?a r np"
    using a tw np next_shape [OF np] by (cases side) (auto simp: fresh_child_def side_slot_def next_left_right)
  from new_child_core [OF fc tw(1), of "originator ?t"] obtain s1 where
    s1: "newTask ?a (Some r) np (originator ?t) ?s = Some (Some ?a, s1)"
    and c1: "core s1 = ((heap ?s)(r \<mapsto> with_child ?a np tw,
         ?a \<mapsto> \<lparr>wt = fresh_task (Some r) np (originator ?t), refcount = 0, in_work_queue = False\<rparr>),
       ?a # tasks ?s, tasksWaitingForWorkerQueue ?s, tasksWaitingForWorkerQueueSize ?s)"
    and e1: "exit_status s1 = exit_status ?s" by blast
  have inv1: "store_inv_in qbf_assess s1" using new_child_inv(1) [OF inv fc s1] .
  define src where "src = (qt_cubeSource q)\<lparr>m_currentCube := side_cube qs side (qcube q), m_splittingLiterals := [0]\<rparr>"
  have src: "(if side then qtc_rightChild (qt_cubeSource q) else qtc_leftChild (qt_cubeSource q)) = Some src"
    using q(2) by (simp add: src_def qtc_rightChild_def qtc_leftChild_def side_cube_def qcube_def)
  let ?f = "GetAssessFunc (task_quantifier (qw_parser w) src)"
  define tw' where "tw' = tw\<lparr>refcount := refcount tw + 1, wt := side_recorded side PARAC_PENDING (side_linked side ?a ?t)\<rparr>"
  define aw where "aw = \<lparr>wt = child_task r np (originator ?t) ?f ?a, refcount = 0, in_work_queue = False\<rparr>"
  define s2 where "s2 = s1\<lparr>heap := (heap ?s)(r \<mapsto> tw', ?a \<mapsto> aw)\<rparr>"
  define qa where "qa = \<lparr>qt_cubeSource = src, qt_terminationFunc = None, qt_serialized = None\<rparr>"
  define w2 where "w2 = w\<lparr>qw_store := s2, qbfTasks := (qbfTasks w)(?a \<mapsto> qa)\<rparr>"
  have h1: "heap s1 = (heap ?s)(r \<mapsto> with_child ?a np tw,
      ?a \<mapsto> \<lparr>wt = fresh_task (Some r) np (originator ?t), refcount = 0, in_work_queue = False\<rparr>)"
    using c1 by (simp add: core_def)
  have h2: "heap s2 = (heap s1)(r \<mapsto> tw', ?a \<mapsto> aw)" using ra by (simp add: s2_def h1 fun_upd_twist)
  note wc = with_child_side [OF np, of ?a]
  have ps: "parent_state (wt tw')" "path (wt tw') = path ?t" using tw(2) by (simp_all add: tw'_def parent_state_def side_recorded_def side_linked_def)
  have qsp: "result (child_task r np (originator ?t) ?f ?a) = PARAC_PENDING" "result (wt tw') = PARAC_PENDING"
    using tw(5) by (simp_all add: tw'_def child_task_def fresh_task_def parac_task_init_def side_recorded_def side_linked_def)
  have "qbf_task_op r (\<lambda>t. if side then t\<lparr>right_result := PARAC_PENDING\<rparr> else t\<lparr>left_result := PARAC_PENDING\<rparr>) (w\<lparr>qw_store := s1\<rparr>)
      = Some (w\<lparr>qw_store := s1\<lparr>heap := (heap s1)(r \<mapsto> tw')\<rparr>\<rparr>)"
    using ra by (simp add: qbf_task_op_def upd_task_iff h1 wc tw'_def side_recorded_def)
  moreover have "QBFSolverTask_init ?a src (w\<lparr>qw_store := s1\<lparr>heap := (heap s1)(r \<mapsto> tw')\<rparr>\<rparr>) = Some w2"
    using ra by (simp add: QBFSolverTask_init_def upd_task_def upd_wrapper_def h1 w2_def s2_def aw_def child_task_def qa_def fun_upd_twist)
  ultimately have op2: "qbf_store_op (assess_task fuel ?a) w2 = Some w'"
    using op tw(1,5) np s1 q(1) src ra qsp
    by (simp add: qbf_split_side_def w2_def s2_def aw_def get_task_def bind_eq_Some_conv ea)
  have qsw: "m_quantifiers (qw_parser w) = qs" using w by (simp add: qworld_def)
  have fq: "?f = GetAssessFunc (if length qs > length (qcube qa) then qs ! length (qcube qa) else 0)"
    by (simp add: task_quantifier_def qsw qtc_cubeSize_def qcube_def qa_def)
  have fqbf: "?f \<in> {QbfExistentialAssess, QbfUniversalAssess}" by (auto simp: GetAssessFunc_def split: QuantifierType.splits)
  have h1': "heap s1 r = Some (with_child ?a np tw)" using ra by (simp add: h1)
  have invr: "store_inv_in qbf_assess (s1\<lparr>heap := (heap s1)(r \<mapsto> tw')\<rparr>)"
    by (rule same_shape_inv [OF inv1 h1']) (use tw(6) in \<open>auto simp: wc tw'_def side_recorded_def side_linked_def
        same_links_in_def same_keys_def local_parent_def parent_state_def\<close>)
  have "store_inv_in qbf_assess (s1\<lparr>heap := (heap s1)(r \<mapsto> tw')\<rparr>\<lparr>heap := (heap (s1\<lparr>heap := (heap s1)(r \<mapsto> tw')\<rparr>))(?a \<mapsto> aw)\<rparr>)"
    by (rule same_shape_inv [OF invr, of ?a "\<lparr>wt = fresh_task (Some r) np (originator ?t), refcount = 0, in_work_queue = False\<rparr>"])
      (use ra fqbf in \<open>auto simp: h1 aw_def child_task_def fresh_task_def parac_task_init_def same_links_in_def same_keys_def
        local_parent_def parent_state_def qbf_assess_def state_bits\<close>)
  then have inv2: "store_inv_in qbf_assess s2" by (simp add: s2_def h1 fun_upd_twist [OF ra])
  have qh2: "qheap qs V (qbfTasks w2) (heap s2)"
  proof -
    have "qheap qs V (qbfTasks w) (heap ?s)" using w by (simp add: qworld_def qstore_def)
    moreover have "wt aw = child_task r np (originator ?t) (GetAssessFunc (if length qs > length (qcube qa) then qs ! length (qcube qa) else 0)) ?a"
      by (simp add: aw_def fq)
    moreover have "qcube qa = side_cube qs side (qcube q)" by (simp add: qa_def qcube_def src_def)
    moreover have "wt tw' = side_recorded side PARAC_PENDING (side_linked side ?a ?t)" by (simp add: tw'_def)
    ultimately have "qheap qs V ((qbfTasks w)(?a \<mapsto> qa)) ((heap ?s)(r \<mapsto> tw', ?a \<mapsto> aw))"
      using tw(1,2,4) q(1) a np by (intro qheap_child) (auto simp: parent_state_def)
    then show ?thesis by (simp add: w2_def s2_def)
  qed
  have w2q: "qworld w2" using w inv2 qh2 e1 by (simp add: qworld_def qstore_def w2_def s2_def)
  have a2: "heap (qw_store w2) ?a = Some aw" by (simp add: w2_def s2_def)
  have awt: "wt aw = child_task r np (originator ?t) ?f ?a" by (simp add: aw_def)
  have "assessable aw" using qsp(1) by (simp add: assessable_def aw_def child_task_def state_bits)
  then have "qworld w'" using qworld_assess [OF w2q a2 _ op2] by simp
  moreover obtain b where "qbfTasks w' = qbfTasks w2" "heap (qw_store w') = (heap (qw_store w2))(?a \<mapsto> aw\<lparr>in_work_queue := b,
      wt := (wt aw)\<lparr>last_state := state (wt aw)\<rparr>\<rparr>)"
    using fresh_assess [OF w2q a2 awt fqbf op2] by blast
  ultimately show ?thesis using ra q(1) by (auto simp: w2_def s2_def tw'_def)
qed

end

context qbf_values
begin

lemma qtask_restate:
  assumes "qtask_at qs V Ob h r t q"
    and same: "path t' = path t" "left_result t' = left_result t" "right_result t' = right_result t"
      "received_from t' = received_from t" "assess t' = assess t" "slot0 t' = slot0 t" "slot1 t' = slot1 t" "parent_task t' = parent_task t"
    and st: "st_has (state t') PARAC_TASK_SPLITTED = st_has (state t) PARAC_TASK_SPLITTED" "done_ok t'"
      "result t' \<in> {PARAC_PENDING, V (qcube q)} \<or> result t' = PARAC_SPLITTED \<and> st_has (state t) PARAC_TASK_SPLITTED"
  shows "qtask_at qs V Ob h r t' q"
proof -
  have "side_slot b t' = side_slot b t" "side_result b t' = side_result b t" for b
    by (simp_all add: side_slot_def side_result_def same)
  moreover have "st_has (state t) PARAC_TASK_SPLITTED \<or> result t' \<noteq> PARAC_SPLITTED"
    using st(3) final' [of "qcube q"] by auto
  ultimately show ?thesis using assms(1) st unfolding qtask_at_def same by (cases "st_has (state t) PARAC_TASK_SPLITTED") auto
qed

text \<open>A task a worker holds and has not split yet.\<close>

definition ready :: "task_wrapper \<Rightarrow> bool" where
  "ready tw \<longleftrightarrow> \<not> in_work_queue tw \<and> \<not> st_has (state (wt tw)) PARAC_TASK_WORK_AVAILABLE
     \<and> \<not> st_has (state (wt tw)) PARAC_TASK_SPLITTED \<and> result (wt tw) = PARAC_PENDING"

lemma qworld_before:
  assumes w: "qworld w" and b: "QbfWorker_before k flag w = Some (res, w')"
  shows "qworld w'" "res = Some r \<Longrightarrow> \<exists>tw q. heap (qw_store w') r = Some tw \<and> qbfTasks w' r = Some q \<and> ready tw"
proof -
  let ?s = "qw_store w"
  have inv: "store_inv_in qbf_assess ?s" using w by (simp add: qworld_def qstore_def)
  have "qworld w' \<and> (\<forall>r. res = Some r \<longrightarrow> (\<exists>tw q. heap (qw_store w') r = Some tw \<and> qbfTasks w' r = Some q \<and> ready tw))"
  proof (cases res)
    case None
    with b obtain s where "pop_work (Some flag) ?s = Some (None, s)" "w' = w\<lparr>qw_store := s\<rparr>"
      by (auto simp: QbfWorker_before_def bind_eq_Some_conv split: option.splits)
    with pop_work_empty [of "Some flag" ?s s] w None show ?thesis by simp
  next
    case (Some r)
    with b obtain s where pop: "pop_work (Some flag) ?s = Some (Some r, s)"
      and u: "(do { s \<leftarrow> upd_task r (\<lambda>t. t\<lparr>worker := of_nat k\<rparr>) s; t \<leftarrow> get_task r s;
          c_assert (\<not> st_has (state t) PARAC_TASK_WORK_AVAILABLE); Some (w\<lparr>qw_store := s\<rparr>) }) = Some w'"
      by (auto simp: QbfWorker_before_def bind_eq_Some_conv split: option.splits)
    obtain tw qq where tw: "heap ?s r = Some tw" "store_inv_in qbf_assess s" "tasksWaitingForWorkerQueue ?s = r # qq"
      by (rule pop_work_inv [OF inv pop]) blast
    have iq: "in_work_queue tw"
      using inv tw(1,3) queue_not_in [of "heap ?s" "r # qq" _ r tw] by (auto simp: store_inv_in_def)
    then have qst: "queued_state (wt tw)" using inv tw(1) unfolding store_inv_in_def queue_ok_def by blast
    obtain q where q: "qbfTasks w r = Some q" "qtask_at qs V (qbfTasks w) (heap ?s) r (wt tw) q"
      using w tw(1) by (auto simp: qworld_def qstore_def qheap_def)
    define t1 where "t1 = (wt tw)\<lparr>state := st_without (state (wt tw)) PARAC_TASK_WORK_AVAILABLE OR PARAC_TASK_WORKING,
        delete_notification := Some flag\<rparr>"
    define tw1 where "tw1 = tw\<lparr>refcount := refcount tw + 1, in_work_queue := False, wt := t1\<rparr>"
    define tw2 where "tw2 = tw1\<lparr>wt := t1\<lparr>worker := of_nat k\<rparr>\<rparr>"
    have h: "heap s = (heap ?s)(r \<mapsto> tw1)" and e: "exit_status s = exit_status ?s"
      using pop tw(1,3) by (auto simp: pop_work_def Let_def tw1_def t1_def insert_into_tasksBeingWorkedOn_def upd_task_def upd_wrapper_def)
    have w'd: "w' = w\<lparr>qw_store := s\<lparr>heap := (heap ?s)(r \<mapsto> tw2)\<rparr>\<rparr>" using u by (simp add: upd_task_iff h tw2_def bind_eq_Some_conv) (auto simp: tw1_def)
    have "store_inv_in qbf_assess (s\<lparr>heap := (heap s)(r \<mapsto> tw2)\<rparr>)"
      by (rule same_shape_inv [OF tw(2), of r tw1]) (auto simp: h tw2_def tw1_def shape_defs local_parent_def parent_state_def)
    then have inv2: "store_inv_in qbf_assess (s\<lparr>heap := (heap ?s)(r \<mapsto> tw2)\<rparr>)" by (simp add: h)
    have "qtask_at qs V (qbfTasks w) (heap ?s) r (wt tw2) q"
      by (rule qtask_restate [OF q(2)]) (use qst qtask_atD(7) [OF q(2)] in
        \<open>auto simp: tw2_def tw1_def t1_def queued_state_def done_ok_def state_bits split: if_splits\<close>)
    then have "qheap qs V (qbfTasks w) ((heap ?s)(r \<mapsto> tw2))"
      by (intro qheap_upd [where h = "heap ?s" and Ob = "qbfTasks w", OF _ tw(1) q(1)])
        (use w in \<open>auto simp: qworld_def qstore_def tw2_def tw1_def t1_def state_bits\<close>)
    with inv2 w e have "qworld w'" by (simp add: qworld_def qstore_def w'd)
    moreover have "ready tw2" using qst by (auto simp: ready_def tw2_def tw1_def t1_def queued_state_def state_bits)
    ultimately show ?thesis using q(1) Some by (simp add: w'd)
  qed
  then show "qworld w'" "res = Some r \<Longrightarrow> \<exists>tw q. heap (qw_store w') r = Some tw \<and> qbfTasks w' r = Some q \<and> ready tw" by blast+
qed

end

context qbf_values
begin

lemma qworld_obj:
  "qworld w \<Longrightarrow> qbfTasks w r = Some q \<Longrightarrow> qcube q' = qcube q \<Longrightarrow> qworld (w\<lparr>qbfTasks := (qbfTasks w)(r \<mapsto> q')\<rparr>)"
  by (rule qworld_objs) auto

lemma qworld_terminate:
  assumes "qworld w" "heap (qw_store w) r = Some tw" "\<not> in_work_queue tw"
  shows "qbf_task_op r (\<lambda>t. t\<lparr>terminate := x\<rparr>) w
      = Some (w\<lparr>qw_store := (qw_store w)\<lparr>heap := (heap (qw_store w))(r \<mapsto> tw\<lparr>wt := (wt tw)\<lparr>terminate := x\<rparr>\<rparr>)\<rparr>\<rparr>)"
    "qworld (w\<lparr>qw_store := (qw_store w)\<lparr>heap := (heap (qw_store w))(r \<mapsto> tw\<lparr>wt := (wt tw)\<lparr>terminate := x\<rparr>\<rparr>)\<rparr>\<rparr>)"
proof -
  have "harmless (wt tw) ((wt tw)\<lparr>terminate := x\<rparr>)" by (simp add: harmless_def same_links_in_def local_parent_def parent_state_def)
  moreover have "qtask_at qs V (qbfTasks w) (heap (qw_store w)) r ((wt tw)\<lparr>terminate := x\<rparr>) q"
    if "qtask_at qs V (qbfTasks w) (heap (qw_store w)) r (wt tw) q" for q
    by (rule qtask_fewer [OF that]) simp_all
  ultimately show "qbf_task_op r (\<lambda>t. t\<lparr>terminate := x\<rparr>) w
      = Some (w\<lparr>qw_store := (qw_store w)\<lparr>heap := (heap (qw_store w))(r \<mapsto> tw\<lparr>wt := (wt tw)\<lparr>terminate := x\<rparr>\<rparr>)\<rparr>\<rparr>)"
    "qworld (w\<lparr>qw_store := (qw_store w)\<lparr>heap := (heap (qw_store w))(r \<mapsto> tw\<lparr>wt := (wt tw)\<lparr>terminate := x\<rparr>\<rparr>)\<rparr>\<rparr>)"
    using qworld_op [where f = "\<lambda>t. t\<lparr>terminate := x\<rparr>", OF assms] by simp_all
qed

text \<open>A task that a worker holds, whose record differs from \<open>t\<close> in the termination function only.\<close>

definition held :: "task_ref \<Rightarrow> parac_task \<Rightarrow> int list \<Rightarrow> qbf_world \<Rightarrow> bool" where
  "held r t c w \<longleftrightarrow> qworld w \<and> (\<exists>tw q x. heap (qw_store w) r = Some tw \<and> \<not> in_work_queue tw \<and> wt tw = t\<lparr>terminate := x\<rparr>
     \<and> qbfTasks w r = Some q \<and> qcube q = c)"

lemma Cleanup_init_held:
  assumes "held r t c w" "Cleanup_init k r w = Some (tf, h, w')"
  shows "held r t c w' \<and> qw_parser w' = qw_parser w \<and> qw_config w' = qw_config w"
proof -
  from assms(1) obtain tw q x where w: "qworld w" "heap (qw_store w) r = Some tw" "\<not> in_work_queue tw" "wt tw = t\<lparr>terminate := x\<rparr>"
    "qbfTasks w r = Some q" "qcube q = c" by (auto simp: held_def)
  from assms(2) w(2) obtain ob w1 where ob: "QBFSolverManager_get k w = Some (h, w\<lparr>qw_objs := ob\<rparr>)"
    and w1: "qbf_task_op r (\<lambda>t. t\<lparr>terminate := Some QbfSolverTaskTerminate\<rparr>) (w\<lparr>qw_objs := ob\<rparr>) = Some w1"
    and q1: "\<exists>q. qbfTasks w1 r = Some q \<and> w' = w1\<lparr>qbfTasks := (qbfTasks w1)(r \<mapsto> q\<lparr>qt_terminationFunc := Some k\<rparr>)\<rparr>"
    by (auto simp: Cleanup_init_def QBFSolverManager_get_def bind_eq_Some_conv)
  let ?tw = "tw\<lparr>wt := (wt tw)\<lparr>terminate := Some QbfSolverTaskTerminate\<rparr>\<rparr>"
  have "qworld (w\<lparr>qw_objs := ob\<rparr>)" using w(1) by simp
  note t = qworld_terminate [OF this, of r tw "Some QbfSolverTaskTerminate"]
  have w1d: "w1 = w\<lparr>qw_objs := ob, qw_store := (qw_store w)\<lparr>heap := (heap (qw_store w))(r \<mapsto> ?tw)\<rparr>\<rparr>" and "qworld w1"
    using t w1 w(2,3) by simp_all
  moreover from q1 w(5) have w'd: "w' = w1\<lparr>qbfTasks := (qbfTasks w1)(r \<mapsto> q\<lparr>qt_terminationFunc := Some k\<rparr>)\<rparr>"
    by (simp add: w1d)
  ultimately have "qworld w'" using qworld_obj [of w1 r q "q\<lparr>qt_terminationFunc := Some k\<rparr>"] w(5) by (simp add: qcube_def)
  then show ?thesis using w(3,4,6) by (auto simp: held_def w'd w1d qcube_def)
qed

lemma Cleanup_destroy_held:
  assumes "held r t c w" "Cleanup_destroy k r tf h lg w = Some w'"
  shows "held r t c w'"
proof -
  from assms(1) obtain tw q x where w: "qworld w" "heap (qw_store w) r = Some tw" "\<not> in_work_queue tw" "wt tw = t\<lparr>terminate := x\<rparr>"
    "qbfTasks w r = Some q" "qcube q = c" by (auto simp: held_def)
  let ?w = "w\<lparr>qbfTasks := (qbfTasks w)(r \<mapsto> q\<lparr>qt_terminationFunc := None\<rparr>)\<rparr>"
  have qw: "qworld ?w" using qworld_obj [OF w(1,5)] by (simp add: qcube_def)
  from assms(2) w(5) obtain w1 where w1: "(if lg then Some ?w else qbf_task_op r (\<lambda>t. t\<lparr>terminate := tf\<rparr>) ?w) = Some w1"
    and r: "QBFSolverManager_return k h w1 = Some w'" by (auto simp: Cleanup_destroy_def bind_eq_Some_conv Let_def)
  from r obtain ob where w': "w' = w1\<lparr>qw_objs := ob\<rparr>" by (auto simp: QBFSolverManager_return_def bind_eq_Some_conv)
  show ?thesis
  proof (cases lg)
    case True
    with w1 have "w1 = ?w" by simp
    with qw w show ?thesis by (auto simp: held_def w' qcube_def)
  next
    case False
    note t = qworld_terminate [OF qw, of r tw tf]
    let ?tw = "tw\<lparr>wt := (wt tw)\<lparr>terminate := tf\<rparr>\<rparr>"
    have "w1 = ?w\<lparr>qw_store := (qw_store w)\<lparr>heap := (heap (qw_store w))(r \<mapsto> ?tw)\<rparr>\<rparr>" "qworld w1"
      using t w1 w(2,3) False by simp_all
    with w show ?thesis by (auto simp: held_def w' qcube_def)
  qed
qed

text \<open>The split of a task on the next variable.\<close>

lemma qworld_split:
  assumes w: "qworld w" and tw: "heap (qw_store w) r = Some tw" "ready tw" "\<not> stop (wt tw)"
    and q: "qbfTasks w r = Some q" "m_splittingLiterals (qt_cubeSource q) = [alit (qs ! length (qcube q))]" "length (qcube q) < length qs"
    and a: "\<And>s x. qe_alloc env s = Some x \<Longrightarrow> heap s x = None"
    and op: "qbf_work_split env fuel r True True False w = Some w'"
  shows "\<exists>t. held r t (qcube q) w' \<and> st_has (state t) PARAC_TASK_SPLITTED \<and> \<not> st_has (state t) PARAC_TASK_SPLITS_DONE
    \<and> \<not> st_has (state t) PARAC_TASK_WORK_AVAILABLE \<and> result t = PARAC_PENDING \<and> has_work t = has_work (wt tw)"
proof -
  let ?f = "\<lambda>t::parac_task. t\<lparr>state := state t OR PARAC_TASK_SPLITTED OR PARAC_TASK_WAITING_FOR_SPLITS\<rparr>" and ?t = "wt tw"
  let ?w1 = "w\<lparr>qw_store := (qw_store w)\<lparr>heap := (heap (qw_store w))(r \<mapsto> tw\<lparr>wt := ?f ?t\<rparr>)\<rparr>\<rparr>"
  have rd: "\<not> in_work_queue tw" "\<not> st_has (state ?t) PARAC_TASK_WORK_AVAILABLE" "\<not> st_has (state ?t) PARAC_TASK_SPLITTED" "result ?t = PARAC_PENDING"
    using tw(2) by (auto simp: ready_def)
  obtain q0 where q0: "qbfTasks w r = Some q0" "qtask_at qs V (qbfTasks w) (heap (qw_store w)) r ?t q0"
    using w tw(1) by (auto simp: qworld_def qstore_def qheap_def)
  then have q1: "qtask_at qs V (qbfTasks w) (heap (qw_store w)) r ?t q" using q(1) by simp
  note leaf = qtask_leafD [OF q1 rd(3)]
  have nsd: "\<not> st_has (state ?t) PARAC_TASK_SPLITS_DONE" using qtask_atD(7) [OF q1] rd(3) by (simp add: done_ok_def)
  have st: "state (?f ?t) = state ?t OR PARAC_TASK_SPLITTED OR PARAC_TASK_WAITING_FOR_SPLITS" by simp
  have bits: "st_has (state (?f ?t)) PARAC_TASK_SPLITTED" "\<not> st_has (state (?f ?t)) PARAC_TASK_SPLITS_DONE"
    "\<not> st_has (state (?f ?t)) PARAC_TASK_WORK_AVAILABLE"
    using nsd rd(2) unfolding st by (simp_all add: state_bits)
  have hm: "harmless ?t (?f ?t)" using bits(1,3) by (simp add: harmless_def same_links_in_def local_parent_def parent_state_def)
  have "qtask_at qs V (qbfTasks w) (heap (qw_store w)) r (?f ?t) q"
  proof -
    have "side_slot b (?f ?t) = SlotNull" "side_result b (?f ?t) = PARAC_PENDING" "done_ok (?f ?t)" for b
      using leaf bits by (simp_all add: side_slot_def side_result_def done_ok_def)
    then show ?thesis using q1 bits(1) q(3) rd(4) unfolding qtask_at_def by simp
  qed
  then have w1: "qbf_task_op r ?f w = Some ?w1" "qworld ?w1"
    using qworld_op [where f = ?f, OF w tw(1) rd(1) hm] q(1) by auto
  from op w1(1) obtain w2 where s1: "qbf_split_side env fuel r False True False ?w1 = Some w2"
    and s2: "qbf_split_side env fuel r True True False w2 = Some w'"
    by (auto simp: qbf_work_split_def bind_eq_Some_conv)
  have ps: "parent_state (?f ?t)" using bits by (simp add: parent_state_def)
  from qworld_side [OF w1(2) _ _ _ _ _ _ _ q(2) a s1, of "tw\<lparr>wt := ?f ?t\<rparr>"] obtain n2 a2 where w2: "qworld w2" "qbfTasks w2 r = Some q"
    "heap (qw_store w2) r = Some (tw\<lparr>wt := ?f ?t, refcount := n2, wt := side_recorded False PARAC_PENDING (side_linked False a2 (?f ?t))\<rparr>)"
    using ps rd leaf(1) tw(3) q(1) by (auto simp: side_slot_def)
  let ?t2 = "side_recorded False PARAC_PENDING (side_linked False a2 (?f ?t))"
  have "parent_state ?t2" using ps by (simp add: parent_state_def side_recorded_def side_linked_def)
  from qworld_side [OF w2(1,3) _ _ _ _ _ w2(2) q(2) a s2] this obtain n3 a3 where w3: "qworld w'" "qbfTasks w' r = Some q"
    "heap (qw_store w') r = Some (tw\<lparr>refcount := n3, wt := side_recorded True PARAC_PENDING (side_linked True a3 ?t2)\<rparr>)"
    using rd leaf(2) tw(3) by (auto simp: side_slot_def side_recorded_def side_linked_def)
  let ?t3 = "side_recorded True PARAC_PENDING (side_linked True a3 ?t2)"
  have t3: "state ?t3 = state (?f ?t)" "result ?t3 = result ?t" "has_work ?t3 = has_work ?t" by (simp_all add: side_recorded_def side_linked_def)
  have "held r ?t3 (qcube q) w'" using w3 rd(1) by (auto simp: held_def intro!: exI [of _ "terminate ?t3"])
  then show ?thesis using t3 bits rd(4) by (intro exI [of _ ?t3]) (simp del: parac_task.simps)
qed

end

context qbf_values
begin

text \<open>What the outside does for a task: the allocator gives fresh addresses, and an answer of the solver is the value of the cube.\<close>

definition good_env :: "qbf_env \<Rightarrow> bool" where
  "good_env env \<longleftrightarrow> (\<forall>s a. qe_alloc env s = Some a \<longrightarrow> heap s a = None) \<and> (\<forall>h c. qe_solve env h c \<in> {V c, PARAC_ABORTED})"

text \<open>The state of a task when its work returns \<open>res\<close>.\<close>

definition outcome :: "parac_task \<Rightarrow> int list \<Rightarrow> parac_status \<Rightarrow> bool" where
  "outcome t c res \<longleftrightarrow> \<not> st_has (state t) PARAC_TASK_WORK_AVAILABLE \<and> result t = PARAC_PENDING
     \<and> (if st_has (state t) PARAC_TASK_SPLITTED then res = PARAC_SPLITTED \<and> \<not> st_has (state t) PARAC_TASK_SPLITS_DONE
        else res \<in> {V c, PARAC_ABORTED})"

lemma work_outcome:
  assumes env: "good_env env" and w: "qworld w" and tw: "heap (qw_store w) r = Some tw" "ready tw" and q: "qbfTasks w r = Some q"
    and work: "QBFSolverTask_work env fuel k r w = Some (res, w')"
  shows "\<exists>t. held r t (qcube q) w' \<and> outcome t (qcube q) res \<and> has_work t = has_work (wt tw)"
proof -
  let ?p = "qw_parser w" and ?t = "wt tw"
  have rd: "\<not> in_work_queue tw" "\<not> st_has (state ?t) PARAC_TASK_WORK_AVAILABLE" "\<not> st_has (state ?t) PARAC_TASK_SPLITTED" "result ?t = PARAC_PENDING"
    using tw(2) by (auto simp: ready_def)
  have qsw: "m_quantifiers ?p = qs" "m_integerBasedSplits (qw_config w) = []"
    and triv: "qs = [] \<Longrightarrow> (isTrivialSAT ?p \<longrightarrow> V [] = PARAC_SAT) \<and> (isTrivialUNSAT ?p \<longrightarrow> V [] = PARAC_UNSAT)"
    using w unfolding qworld_def by blast+
  have len: "length (qcube q) \<le> length qs"
    using w tw(1) q qtask_atD(1) by (fastforce simp: qworld_def qstore_def qheap_def)
  have held: "held r ?t (qcube q) w" using w tw(1) rd(1) q by (auto simp: held_def intro!: exI [of _ "terminate ?t"])
  have leaf: "outcome ?t (qcube q) res" if "res \<in> {V (qcube q), PARAC_ABORTED}" for res
    using rd that by (simp add: outcome_def)
  consider (easy) "w' = w" "res \<in> {V (qcube q), PARAC_ABORTED}"
    | (solver) "\<not> stop ?t" "(do { (termfunc, h, w) \<leftarrow> Cleanup_init k r w;
       q \<leftarrow> qbfTasks w r;
       (split, split_left, split_right, split_extended, src) \<leftarrow> qtc_split (m_quantifiers ?p) (qw_config w) (qt_cubeSource q);
       let w = w\<lparr>qbfTasks := (qbfTasks w)(r \<mapsto> q\<lparr>qt_cubeSource := src\<rparr>)\<rparr>;
       if split \<and> depth_allows (qw_config w) (path ?t) then do {
         w \<leftarrow> qbf_work_split env fuel r split_left split_right split_extended w;
         w \<leftarrow> Cleanup_destroy k r termfunc h False w;
         Some (PARAC_SPLITTED, w) }
       else if qe_stopped env then do {
         w \<leftarrow> Cleanup_destroy k r termfunc h False w;
         Some (PARAC_ABORTED, w) }
       else do {
         let res = qe_solve env h (qtc_cube src);
         w \<leftarrow> Cleanup_destroy k r termfunc h (res = PARAC_ABORTED) w;
         Some (res, w) } }) = Some (res, w')"
    using work tw(1) triv len unfolding qsw(1) by (auto simp: QBFSolverTask_work_def qsw(1) Let_def split: if_splits)
  then show ?thesis
  proof cases
    case easy
    with held leaf show ?thesis by auto
  next
    case solver
    then obtain tf h w1 q1 s sl sr se src where c: "Cleanup_init k r w = Some (tf, h, w1)" and q1: "qbfTasks w1 r = Some q1"
      and sp: "qtc_split qs (qw_config w1) (qt_cubeSource q1) = Some (s, sl, sr, se, src)"
      and rest: "(let w = w1\<lparr>qbfTasks := (qbfTasks w1)(r \<mapsto> q1\<lparr>qt_cubeSource := src\<rparr>)\<rparr> in
       if s \<and> depth_allows (qw_config w) (path ?t) then do {
         w \<leftarrow> qbf_work_split env fuel r sl sr se w;
         w \<leftarrow> Cleanup_destroy k r tf h False w;
         Some (PARAC_SPLITTED, w) }
       else if qe_stopped env then do {
         w \<leftarrow> Cleanup_destroy k r tf h False w;
         Some (PARAC_ABORTED, w) }
       else do {
         let res = qe_solve env h (qtc_cube src);
         w \<leftarrow> Cleanup_destroy k r tf h (res = PARAC_ABORTED) w;
         Some (res, w) }) = Some (res, w')"
      unfolding qsw(1) by (auto simp: bind_eq_Some_conv)
    define q2 where "q2 = q1\<lparr>qt_cubeSource := src\<rparr>"
    define w2 where "w2 = w1\<lparr>qbfTasks := (qbfTasks w1)(r \<mapsto> q2)\<rparr>"
    note ci = Cleanup_init_held [OF held c]
    have cfg: "m_integerBasedSplits (qw_config w1) = []" using ci qsw(2) by simp
    from ci q1 obtain tw1 x where tw1: "qworld w1" "heap (qw_store w1) r = Some tw1" "\<not> in_work_queue tw1" "wt tw1 = ?t\<lparr>terminate := x\<rparr>" "qcube q1 = qcube q"
      by (auto simp: held_def)
    have src: "m_currentCube src = qcube q"
      "s \<Longrightarrow> sl \<and> sr \<and> \<not> se \<and> length (qcube q) < length qs \<and> m_splittingLiterals src = [alit (qs ! length (qcube q))]"
      using sp tw1(5) cfg by (auto simp: qtc_split_def integerBasedSplitsEnabled_def qcube_def split: if_splits)
    have q2: "qcube q2 = qcube q" "qbfTasks w2 r = Some q2" using src(1) by (simp_all add: q2_def w2_def qcube_def)
    have w2: "qworld w2" unfolding w2_def using qworld_obj [OF tw1(1) q1] q2(1) tw1(5) by simp
    have tw2: "heap (qw_store w2) r = Some tw1" using tw1(2) by (simp add: w2_def)
    have h2: "held r ?t (qcube q) w2" using w2 tw1 tw2 q2 by (auto simp: held_def)
    show ?thesis
    proof (cases "s \<and> depth_allows (qw_config w2) (path ?t)")
      case True
      with rest src(2) obtain w3 where w3: "qbf_work_split env fuel r True True False w2 = Some w3"
        "Cleanup_destroy k r tf h False w3 = Some w'" and res: "res = PARAC_SPLITTED"
        by (auto simp: Let_def w2_def q2_def bind_eq_Some_conv)
      have "ready tw1" "\<not> stop (wt tw1)" using tw1(3,4) rd solver(1) by (simp_all add: ready_def)
      moreover have "m_splittingLiterals (qt_cubeSource q2) = [alit (qs ! length (qcube q2))]" "length (qcube q2) < length qs"
        using src(2) True q2(1) by (auto simp: q2_def)
      moreover have "heap s x = None" if "qe_alloc env s = Some x" for s x using env that by (simp add: good_env_def)
      ultimately obtain t where t: "held r t (qcube q2) w3" "st_has (state t) PARAC_TASK_SPLITTED" "\<not> st_has (state t) PARAC_TASK_SPLITS_DONE"
        "\<not> st_has (state t) PARAC_TASK_WORK_AVAILABLE" "result t = PARAC_PENDING" "has_work t = has_work (wt tw1)"
        using qworld_split [OF w2 tw2 _ _ q2(2) _ _ _ w3(1)] by blast
      have "held r t (qcube q) w'" using Cleanup_destroy_held [OF t(1) w3(2)] q2(1) by simp
      with t(2-6) tw1(4) res show ?thesis by (auto simp: outcome_def)
    next
      case False
      then have "\<exists>lg. Cleanup_destroy k r tf h lg w2 = Some w'" "res \<in> {V (qcube q), PARAC_ABORTED}"
        using rest env src(1) unfolding Let_def w2_def [symmetric] q2_def [symmetric]
        by (auto simp: bind_eq_Some_conv qtc_cube_def good_env_def split: if_splits)
      with Cleanup_destroy_held [OF h2] leaf show ?thesis by blast
    qed
  qed
qed

end

context qbf_values
begin

lemma done_ok_terminate [simp]: "done_ok (t\<lparr>terminate := x\<rparr>) = done_ok t"
  by (simp add: done_ok_def)

lemma held_done_ok: "held r t c w \<Longrightarrow> done_ok t"
  using qtask_atD(7) by (fastforce simp: held_def qworld_def qstore_def qheap_def)

lemma held_op:
  assumes h: "held r t c w" and op: "qbf_task_op r f w = Some w'"
    and f: "\<And>x. f (t\<lparr>terminate := x\<rparr>) = t\<lparr>terminate := x, result := a, state := b, delete_notification := d\<rparr>"
    and st: "st_has b PARAC_TASK_SPLITTED = st_has (state t) PARAC_TASK_SPLITTED"
      "st_has b PARAC_TASK_WORK_AVAILABLE \<Longrightarrow> st_has (state t) PARAC_TASK_WORK_AVAILABLE"
      "done_ok (t\<lparr>result := a, state := b\<rparr>)"
      "a \<in> {result t, V c} \<or> a = PARAC_SPLITTED \<and> st_has (state t) PARAC_TASK_SPLITTED"
  shows "held r (t\<lparr>result := a, state := b, delete_notification := d\<rparr>) c w'"
proof -
  from h obtain tw q x where w: "qworld w" "heap (qw_store w) r = Some tw" "\<not> in_work_queue tw" "wt tw = t\<lparr>terminate := x\<rparr>"
    "qbfTasks w r = Some q" "qcube q = c" by (auto simp: held_def)
  let ?t = "t\<lparr>terminate := x, result := a, state := b, delete_notification := d\<rparr>"
  have ft: "f (wt tw) = ?t" using f w(4) by simp
  have "harmless (wt tw) (f (wt tw))" unfolding w(4) f using st(1,2)
    by (auto simp: harmless_def same_links_in_def local_parent_def parent_state_def)
  moreover have "qtask_at qs V (qbfTasks w) (heap (qw_store w)) r (f (wt tw)) q"
    if "qtask_at qs V (qbfTasks w) (heap (qw_store w)) r (wt tw) q"
  proof (rule qtask_restate [OF that])
    show "done_ok (f (wt tw))" unfolding ft using st(3) by (auto simp: done_ok_def split: if_splits)
    show "st_has (state (f (wt tw))) PARAC_TASK_SPLITTED = st_has (state (wt tw)) PARAC_TASK_SPLITTED"
      unfolding w(4) f using st(1) by simp
    show "result (f (wt tw)) \<in> {PARAC_PENDING, V (qcube q)} \<or> result (f (wt tw)) = PARAC_SPLITTED \<and> st_has (state (wt tw)) PARAC_TASK_SPLITTED"
      using st(4) w(6) qtask_atD(5) [OF that] qtask_leafD(5) [OF that] unfolding w(4) f by auto
  qed (simp_all add: w(4) f)
  ultimately have "w' = w\<lparr>qw_store := (qw_store w)\<lparr>heap := (heap (qw_store w))(r \<mapsto> tw\<lparr>wt := f (wt tw)\<rparr>)\<rparr>\<rparr>" "qworld w'"
    using qworld_op [where f = f, OF w(1-3)] w(5) op by auto
  then show ?thesis using w(3,5,6) ft by (auto simp: held_def intro!: exI [of _ x])
qed

lemma qworld_after:
  assumes h: "held r t c w" and out: "outcome t c res" and hw: "has_work t \<or> res = PARAC_ABORTED"
    and op: "QbfWorker_after fuel r (heap (qw_store w) r = None) res w = Some w'"
  shows "qworld w'"
proof -
  obtain tw x where tw: "heap (qw_store w) r = Some tw" "wt tw = t\<lparr>terminate := x\<rparr>" using h by (auto simp: held_def)
  have o: "\<not> st_has (state t) PARAC_TASK_WORK_AVAILABLE" "result t = PARAC_PENDING"
    "if st_has (state t) PARAC_TASK_SPLITTED then res = PARAC_SPLITTED \<and> \<not> st_has (state t) PARAC_TASK_SPLITS_DONE
     else res \<in> {V c, PARAC_ABORTED}" using out unfolding outcome_def by blast+
  have dok: "done_ok t" using held_done_ok [OF h] .
  have res: "res \<noteq> PARAC_PENDING" using o(3) final' [of c] by (auto split: if_splits)
  obtain w1 w2 w3 where w1: "(if res \<noteq> PARAC_ABORTED then qbf_task_op r (\<lambda>t. t\<lparr>result := res\<rparr>) w else Some w) = Some w1"
    and w2: "(if res \<noteq> PARAC_ABORTED then qbf_task_op r (\<lambda>t. t\<lparr>state := st_without (state t) PARAC_TASK_WORKING OR PARAC_TASK_DONE\<rparr>) w1
              else Some w1) = Some w2"
    and w3: "qbf_task_op r (\<lambda>t. t\<lparr>delete_notification := None\<rparr>) w2 = Some w3"
    and w': "\<exists>t. get_task r (qw_store w3) = Some t \<and> (if res \<noteq> PARAC_ABORTED \<and> \<not> st_has (state t) PARAC_TASK_SPLITTED
        then qbf_store_op (assess_task fuel r) w3 else Some w3) = Some w'"
  proof -
    have c: "(has_work (wt tw) \<and> res \<noteq> PARAC_ABORTED \<and> res \<noteq> PARAC_PENDING \<and> result (wt tw) = PARAC_PENDING) \<longleftrightarrow> res \<noteq> PARAC_ABORTED"
      using hw res o(2) tw(2) by auto
    have g: "get_task r (qw_store w) = Some (wt tw)" using tw(1) by (simp add: get_task_def)
    from op tw(1) show thesis
      by (simp add: QbfWorker_after_def g c bind_eq_Some_conv) (elim exE conjE, rule that, auto)
  qed
  show ?thesis
  proof (cases "res = PARAC_ABORTED")
    case True
    with w1 w2 have "w2 = w" by simp
    with w3 have "held r (t\<lparr>result := result t, state := state t, delete_notification := None\<rparr>) c w3"
      by (intro held_op [OF h]) (use dok in auto)
    with w' True show ?thesis by (auto simp: held_def)
  next
    case False
    let ?st = "st_without (state t) PARAC_TASK_WORKING OR PARAC_TASK_DONE"
    have d1: "done_ok (t\<lparr>result := res, state := state t\<rparr>)" "done_ok (t\<lparr>result := res, state := ?st\<rparr>)"
      using dok o(3) res by (auto simp: done_ok_def state_bits split: if_splits)
    have a: "res \<in> {PARAC_PENDING, V c} \<or> res = PARAC_SPLITTED \<and> st_has (state t) PARAC_TASK_SPLITTED"
      using o(3) False by (auto split: if_splits)
    have s: "st_has ?st PARAC_TASK_SPLITTED = st_has (state t) PARAC_TASK_SPLITTED" "\<not> st_has ?st PARAC_TASK_WORK_AVAILABLE"
      using o(1) by (simp_all add: state_bits)
    have "qbf_task_op r (\<lambda>t. t\<lparr>result := res\<rparr>) w = Some w1" using w1 False by simp
    then have h1: "held r (t\<lparr>result := res, state := state t, delete_notification := delete_notification t\<rparr>) c w1"
      by (intro held_op [OF h]) (use d1(1) a o(2) in auto)
    have "qbf_task_op r (\<lambda>t. t\<lparr>state := st_without (state t) PARAC_TASK_WORKING OR PARAC_TASK_DONE\<rparr>) w1 = Some w2" using w2 False by simp
    then have h2: "held r (t\<lparr>result := res, state := state t, delete_notification := delete_notification t\<rparr>
        \<lparr>result := res, state := ?st, delete_notification := delete_notification t\<rparr>) c w2"
      by (intro held_op [OF h1]) (use d1(2) s in auto)
    have h3: "held r (t\<lparr>result := res, state := state t, delete_notification := delete_notification t\<rparr>
        \<lparr>result := res, state := ?st, delete_notification := delete_notification t\<rparr>
        \<lparr>result := res, state := ?st, delete_notification := None\<rparr>) c w3"
      by (rule held_op [OF h2 w3]) (use d1(2) s in auto)
    then obtain tw3 where tw3: "qworld w3" "heap (qw_store w3) r = Some tw3" "\<not> in_work_queue tw3" "state (wt tw3) = ?st" by (auto simp: held_def)
    then have "assessable tw3" using s(2) by (simp add: assessable_def)
    with w' tw3(1,2) qworld_assess [OF tw3(1,2)] show ?thesis by (auto split: if_splits)
  qed
qed

lemma qworld_round:
  assumes env: "good_env env" and w: "qworld w" and op: "QbfWorker_round env fuel k flag w = Some w'"
  shows "qworld w'"
proof -
  from op obtain task w1 where b: "QbfWorker_before k flag w = Some (task, w1)"
    and rest: "(case task of None \<Rightarrow> Some w1 | Some r \<Rightarrow> do {
          t \<leftarrow> get_task r (qw_store w1);
          (res, w) \<leftarrow> (if has_work t then QBFSolverTask_work env fuel k r w1 else Some (PARAC_ABORTED, w1));
          QbfWorker_after fuel r (heap (qw_store w) r = None) res w }) = Some w'"
    by (auto simp: QbfWorker_round_def bind_eq_Some_conv)
  show ?thesis
  proof (cases task)
    case None
    with rest qworld_before(1) [OF w b] show ?thesis by simp
  next
    case (Some r)
    from qworld_before [OF w b] Some obtain tw q where w1: "qworld w1" "heap (qw_store w1) r = Some tw" "ready tw" "qbfTasks w1 r = Some q"
      by blast
    from rest Some w1(2) obtain res w2 where
      wk: "(if has_work (wt tw) then QBFSolverTask_work env fuel k r w1 else Some (PARAC_ABORTED, w1)) = Some (res, w2)"
      and af: "QbfWorker_after fuel r (heap (qw_store w2) r = None) res w2 = Some w'"
      by (auto simp: bind_eq_Some_conv get_task_def)
    have "\<exists>t. held r t (qcube q) w2 \<and> outcome t (qcube q) res \<and> (has_work t \<or> res = PARAC_ABORTED)"
    proof (cases "has_work (wt tw)")
      case True
      with wk work_outcome [OF env w1, of fuel k res w2] show ?thesis by auto
    next
      case False
      with wk have "res = PARAC_ABORTED" "w2 = w1" by auto
      then show ?thesis using w1 by (intro exI [of _ "wt tw"]) (auto simp: held_def ready_def outcome_def intro!: exI [of _ "terminate (wt tw)"])
    qed
    with qworld_after af show ?thesis by blast
  qed
qed

end

section \<open>The run of a formula\<close>

text \<open>The manager is made for the parsed formula, and the root task is started.\<close>

definition qbf_start_root :: "qbf_env \<Rightarrow> nat \<Rightarrow> parac_id \<Rightarrow> nat \<Rightarrow> parser \<Rightarrow> qbf_config \<Rightarrow> task_store \<Rightarrow> qbf_world option" where
  "qbf_start_root env fuel orig workers p cfg s = do {
     w \<leftarrow> QBFSolverManager_init workers p cfg s;
     qbf_root_task env fuel orig w }"

text \<open>The clauses of the matrix, which the parser keeps with a zero at the end of each, and the value of the formula.\<close>

fun clauses_of :: "int list \<Rightarrow> int list \<Rightarrow> int list list" where
  "clauses_of cl [] = []"
| "clauses_of cl (l # ls) = (if l = 0 then cl # clauses_of [] ls else clauses_of (cl @ [l]) ls)"

definition matrix :: "parser \<Rightarrow> int list \<Rightarrow> bool" where
  "matrix p c \<longleftrightarrow> list_all (list_ex (\<lambda>l. l \<in> set c)) (clauses_of [] (m_literals p))"

definition cube_status :: "parser \<Rightarrow> int list \<Rightarrow> parac_status" where
  "cube_status p c = truth_status (cube_value (matrix p) (m_quantifiers p) c)"

text \<open>What the outside does: fresh addresses from the allocator; a solver that answers says the value of the formula under the cube.\<close>

definition sound_env :: "parser \<Rightarrow> qbf_env \<Rightarrow> bool" where
  "sound_env p env \<longleftrightarrow> (\<forall>s a. qe_alloc env s = Some a \<longrightarrow> heap s a = None)
     \<and> (\<forall>h c. qe_solve env h c \<in> {cube_status p c, PARAC_ABORTED})"

text \<open>A run: the start and rounds of the workers in any order, each with its own answers from the outside.\<close>

inductive qbf_reach :: "parser \<Rightarrow> qbf_config \<Rightarrow> qbf_world \<Rightarrow> bool" for p cfg where
  start: "sound_env p env \<Longrightarrow> qbf_start_root env fuel orig workers p cfg (TaskStore_init timeout input ping level) = Some w \<Longrightarrow> qbf_reach p cfg w"
| round: "qbf_reach p cfg w \<Longrightarrow> sound_env p env \<Longrightarrow> QbfWorker_round env fuel k flag w = Some w' \<Longrightarrow> qbf_reach p cfg w'"

lemma truth_verdict:
  "verdict_of (GetAssessFunc q) [truth_status a, truth_status b] =
     Some (truth_status (if quantifier_type q = EXISTENTIAL then a \<or> b else a \<and> b))"
  by (cases "quantifier_type q") (auto simp: GetAssessFunc_def truth_status_def verdict_def)

lemma cube_status_values: "qbf_values (m_quantifiers p) (cube_status p)"
proof
  fix c :: "int list"
  assume l: "length c < length (m_quantifiers p)"
  let ?qs = "m_quantifiers p" and ?q = "m_quantifiers p ! length c"
  have "drop (length c) ?qs = ?q # drop (Suc (length c)) ?qs" using l by (simp add: Cons_nth_drop_Suc)
  then have "cube_value (matrix p) ?qs c = (if quantifier_type ?q = EXISTENTIAL
      then cube_value (matrix p) ?qs (side_cube ?qs False c) \<or> cube_value (matrix p) ?qs (side_cube ?qs True c)
      else cube_value (matrix p) ?qs (side_cube ?qs False c) \<and> cube_value (matrix p) ?qs (side_cube ?qs True c))"
    by (simp add: cube_value_def side_cube_def)
  then show "verdict_of (GetAssessFunc ?q) [cube_status p (side_cube ?qs False c), cube_status p (side_cube ?qs True c)] = Some (cube_status p c)"
    unfolding cube_status_def truth_verdict by simp
qed (simp add: cube_status_def truth_status_def)

interpretation qv: qbf_values "m_quantifiers p" "cube_status p" for p
  by (rule cube_status_values)

lemma trivial_status:
  assumes "m_quantifiers p = []"
  shows "isTrivialSAT p \<Longrightarrow> cube_status p [] = PARAC_SAT" "isTrivialUNSAT p \<Longrightarrow> cube_status p [] = PARAC_UNSAT"
  using assms by (auto simp: cube_status_def cube_value_def matrix_def isTrivialSAT_def isTrivialUNSAT_def truth_status_def length_Suc_conv)

lemma sound_good: "sound_env p env \<Longrightarrow> qv.good_env p env"
  by (simp add: sound_env_def qv.good_env_def)

lemma qbf_started:
  assumes env: "sound_env p env" and cfg: "m_integerBasedSplits cfg = []"
    and st: "qbf_start_root env fuel orig workers p cfg (TaskStore_init timeout input ping level) = Some w'"
  shows "qv.qworld p w'"
proof -
  let ?s0 = "TaskStore_init timeout input ping level"
  let ?src = "QuantifierTreeCubes_init []"
  from st obtain w a where w: "QBFSolverManager_init workers p cfg ?s0 = Some w" and al: "qe_alloc env (qw_store w) = Some a"
    by (auto simp: qbf_start_root_def qbf_root_task_def bind_eq_Some_conv)
  let ?a = a
  have wf: "qw_store w = ?s0" "qbfTasks w = (\<lambda>_. None)" "qw_parser w = p" "qw_config w = cfg"
    using w by (auto simp: QBFSolverManager_init_def bind_eq_Some_conv)
  let ?f = "\<lparr>wt = fresh_task None parac_path_unknown orig, refcount = 0, in_work_queue = False\<rparr> :: task_wrapper"
  obtain s1 where s1: "newTask ?a None parac_path_unknown orig ?s0 = Some (Some ?a, s1)" "heap s1 = [?a \<mapsto> ?f]"
    "tasks s1 = [?a]" "tasksWaitingForWorkerQueue s1 = []" "tasksWaitingForWorkerQueueSize s1 = 0" "exit_status s1 = PARAC_UNDEFINED"
    by (simp add: newTask_def TaskStore_init_def shutdown_timer_keeps upd_task_iff fresh_task_def Let_def)
  let ?fn = "GetAssessFunc (task_quantifier p ?src)"
  define aw where "aw = ?f\<lparr>wt := (fresh_task None parac_path_root orig)\<lparr>assess := Some ?fn, has_work := True,
     has_free_userdata := True, has_serialize := True, userdata := Some ?a, state := PARAC_TASK_WORK_AVAILABLE\<rparr>\<rparr>"
  define w2 where "w2 = w\<lparr>qw_store := s1\<lparr>heap := [?a \<mapsto> aw]\<rparr>, qbfTasks := [?a \<mapsto> \<lparr>qt_cubeSource = ?src, qt_terminationFunc = None, qt_serialized = None\<rparr>]\<rparr>"
  have op: "qbf_store_op (assess_task fuel ?a) w2 = Some w'"
    using st w al s1(1,2) by (simp add: qbf_start_root_def qbf_root_task_def wf qbf_task_op_def QBFSolverTask_init_def upd_task_iff w2_def aw_def
        fresh_task_def parac_task_init_def)
  have aw: "path (wt aw) = parac_path_root" "received_from (wt aw) = None" "result (wt aw) = PARAC_PENDING" "state (wt aw) = PARAC_TASK_WORK_AVAILABLE"
    "slot0 (wt aw) = SlotNull" "slot1 (wt aw) = SlotNull" "left_result (wt aw) = PARAC_PENDING" "right_result (wt aw) = PARAC_PENDING"
    "parent_task (wt aw) = None" "assess (wt aw) = Some ?fn" "extended_children_count (wt aw) = -1" "\<not> in_work_queue aw"
    by (simp_all add: aw_def fresh_task_def parac_task_init_def)
  have fn: "?fn = GetAssessFunc (if 0 < length (m_quantifiers p) then m_quantifiers p ! 0 else 0)" "Some ?fn \<in> qbf_assess"
    by (simp_all add: task_quantifier_def qtc_cubeSize_def QuantifierTreeCubes_init_def)
      (auto simp: GetAssessFunc_def qbf_assess_def split: QuantifierType.splits)
  have inv: "store_inv_in qbf_assess (qw_store w2)"
    using aw fn(2) s1(3-5) by (auto simp: w2_def store_inv_in_def links_in_def wf_task_in_def tasks_ok_def queue_ok_def kid_def
        local_parent_def left_child_def right_child_def split: if_splits)
  have "qtask_at (m_quantifiers p) (cube_status p) (qbfTasks w2) (heap (qw_store w2)) ?a (wt aw) \<lparr>qt_cubeSource = ?src, qt_terminationFunc = None, qt_serialized = None\<rparr>"
    unfolding qtask_at_def using fn(1) by (simp add: aw qcube_def QuantifierTreeCubes_init_def state_bits done_ok_def side_slot_def)
  then have "qheap (m_quantifiers p) (cube_status p) (qbfTasks w2) (heap (qw_store w2))" by (simp add: qheap_def w2_def)
  then have qw: "qv.qworld p w2" using inv s1(6) cfg trivial_status by (simp add: qv.qworld_def qv.qstore_def w2_def wf)
  show ?thesis
    by (rule qv.qworld_assess [OF qw _ _ op, of aw]) (use aw in \<open>auto simp: w2_def assessable_def state_bits\<close>)
qed

lemma qbf_reach_inv: "qbf_reach p cfg w \<Longrightarrow> m_integerBasedSplits cfg = [] \<Longrightarrow> qv.qworld p w"
proof (induction rule: qbf_reach.induct)
  case (start env fuel orig workers timeout input ping level w)
  then show ?case using qbf_started by blast
next
  case (round w env fuel k flag w')
  then show ?case using qv.qworld_round [OF sound_good [of p env], of w] by blast
qed

text \<open>
  C3 (verdict of a QBF run).  Whatever the workers do and in whatever order, without integer based splits the program ends with
  no verdict other than the value of the quantified formula: the cubes of the tasks, the split on the next variable, the
  choice of the assessment function by its quantifier and the results that climb to the root agree with the semantics of the prefix.
\<close>

theorem qbf_run_sound:
  assumes "qbf_reach p cfg w" "m_integerBasedSplits cfg = []"
  shows "exit_status (qw_store w) \<in> {PARAC_UNDEFINED, truth_status (qbf_value (matrix p) (m_quantifiers p) [])}"
  using qbf_reach_inv [OF assms] by (simp add: qv.qworld_def qv.qstore_def cube_status_def cube_value_def)

section \<open>An example\<close>

definition qbf_example :: parser where
  "qbf_example = parser_init\<lparr>m_literals := [1, 0], m_quantifiers := [1]\<rparr>"

definition qbf_example_config :: qbf_config where
  "qbf_example_config = \<lparr>m_originatorId = 0, m_useDepQBF = True, m_treeDepth = 1, m_integerBasedSplits = [], m_quapiSolvers = [], m_quapiDebug = False\<rparr>"

definition qbf_example_env :: qbf_env where
  "qbf_example_env = \<lparr>qe_alloc = (\<lambda>s. List.find (\<lambda>x. heap s x = None) [1, 2, 3]), qe_stopped = False, qe_solve = (\<lambda>h c. cube_status qbf_example c)\<rparr>"

lemma qbf_example_eval: "(do {
     w \<leftarrow> qbf_start_root qbf_example_env 10 0 1 qbf_example qbf_example_config (TaskStore_init 0 True True 0);
     w \<leftarrow> QbfWorker_round qbf_example_env 10 0 0 w;
     w \<leftarrow> QbfWorker_round qbf_example_env 10 0 0 w;
     Some (exit_status (qw_store w)) }) = Some PARAC_SAT"
  by code_simp

lemma qbf_example_sound: "sound_env qbf_example qbf_example_env"
  by (auto simp: sound_env_def qbf_example_env_def find_Some_iff)

theorem qbf_run_sound_witness:
  "\<exists>w. qbf_reach qbf_example qbf_example_config w \<and> exit_status (qw_store w) = PARAC_SAT
    \<and> exit_status (qw_store w) \<in> {PARAC_UNDEFINED, truth_status (qbf_value (matrix qbf_example) (m_quantifiers qbf_example) [])}"
proof -
  from qbf_example_eval obtain w0 w1 w2 where
    w: "qbf_start_root qbf_example_env 10 0 1 qbf_example qbf_example_config (TaskStore_init 0 True True 0) = Some w0"
    "QbfWorker_round qbf_example_env 10 0 0 w0 = Some w1" "QbfWorker_round qbf_example_env 10 0 0 w1 = Some w2" "exit_status (qw_store w2) = PARAC_SAT"
    by (auto simp: bind_eq_Some_conv)
  note e = qbf_example_sound
  have r: "qbf_reach qbf_example qbf_example_config w2"
    by (rule qbf_reach.round [OF qbf_reach.round [OF qbf_reach.start [OF e w(1)] e w(2)] e w(3)])
  from qbf_run_sound [OF r] w(4) r show ?thesis by (auto simp: qbf_example_config_def)
qed

end
