(* ===== verification/QbfModule.thy ===== *)
theory QbfModule
  imports QbfTask
begin

unbundle bit_operations_syntax

text \<open>
  The QBF solver module of \<^verbatim>\<open>modules/solver_qbf/solver_qbf.cpp\<close>: its instances, the parser task of a formula with what follows
  it on the root and on a peer, the messages to an instance, the start and the exit of the module.

  Shown here: the configuration an instance sends is the one the instance of a peer ends up with, once; a received task is
  never accepted; without workers no formula gets through; an exit before the end of the parsing fails.
\<close>

section \<open>State\<close>

text \<open>
  \<^verbatim>\<open>SolverInstance\<close>.  The manager is the list of objects it lends; it refers to the parser and the configuration of the
  instance.  \<open>si_configStream\<close> is the configuration that was serialized first.
\<close>

record qbf_instance =
  si_originator :: parac_id
  si_config :: qbf_config
  si_task_store :: bool
  si_parser :: "parser option"
  si_manager :: "qbf_handle om_internal list option"
  si_configured :: bool
  si_configStream :: "qbf_config option"

text \<open>The callback of a parser task: of the root solver, or of the solver of a peer with the data of its own callback.\<close>

datatype parser_cb = RootDone nat | PeerDone nat nat

text \<open>What the module calls outside: the callbacks of messages and of files, the one of a parsed formula, and the exit of the program.\<close>

datatype module_event = MsgCb parac_status | FormulaCb parac_status | FormulaParsedCb nat nat parac_status | ModRequestExit | HandleStopped nat

text \<open>
  \<^verbatim>\<open>SolverUserdata\<close> with what the module reaches through its handle: the task store of the broker, the number of workers when
  a runner is loaded, the input file and the identifier of the node.  The instances are kept with their addresses.
\<close>

record qbf_module =
  um_instances :: "(nat \<times> qbf_instance) list"
  um_config :: qbf_config
  um_store :: task_store
  um_tasks :: "task_ref \<Rightarrow> qbf_task option"
  um_parserTasks :: "task_ref \<Rightarrow> (parser \<times> parser_cb) option"
  um_workers :: "nat option"
  um_input_file :: "string option"
  um_id :: parac_id
  um_this_node :: "nat option"
  um_events :: "module_event list"

definition event :: "module_event \<Rightarrow> qbf_module \<Rightarrow> qbf_module" where
  "event e m = m\<lparr>um_events := um_events m @ [e]\<rparr>"

definition get_instance :: "nat \<Rightarrow> qbf_module \<Rightarrow> qbf_instance option" where
  "get_instance a m = map_of (um_instances m) a"

definition set_instance :: "nat \<Rightarrow> qbf_instance \<Rightarrow> qbf_module \<Rightarrow> qbf_module" where
  "set_instance a i m = m\<lparr>um_instances := map (\<lambda>(b, j). (b, if b = a then i else j)) (um_instances m)\<rparr>"

section \<open>Instances\<close>

text \<open>The configuration an instance starts with; the depth of the tree is not set and holds any number \<open>d\<close>.\<close>

definition SolverConfig_default :: "int \<Rightarrow> qbf_config" where
  "SolverConfig_default d = \<lparr>m_originatorId = 0, m_useDepQBF = False, m_treeDepth = d, m_integerBasedSplits = [],
     m_quapiSolvers = [], m_quapiDebug = False\<rparr>"

text \<open>\<^verbatim>\<open>add_instance\<close>: \<open>a\<close> is the address of the new node of the list.\<close>

definition add_instance :: "nat \<Rightarrow> int \<Rightarrow> parac_id \<Rightarrow> bool \<Rightarrow> qbf_module \<Rightarrow> nat \<times> qbf_module" where
  "add_instance a d originatorId has_store m =
     (a, m\<lparr>um_instances := (a, \<lparr>si_originator = originatorId, si_config = SolverConfig_default d, si_task_store = has_store, si_parser = None,
        si_manager = None, si_configured = False, si_configStream = None\<rparr>) # um_instances m\<rparr>)"

text \<open>\<^verbatim>\<open>remove_instance\<close>: erasing a node that is not in the list is undefined.\<close>

definition remove_instance :: "nat \<Rightarrow> qbf_module \<Rightarrow> (parac_status \<times> qbf_module) option" where
  "remove_instance a m = do {
     c_assert (a \<in> fst ` set (um_instances m));
     Some (PARAC_OK, m\<lparr>um_instances := filter (\<lambda>(b, i). b \<noteq> a) (um_instances m)\<rparr>) }"

record config_message =
  cm_kind :: parac_message_kind
  cm_config :: qbf_config
  cm_originator :: parac_id

definition serialize_solver_config_into_msg :: "nat \<Rightarrow> qbf_module \<Rightarrow> (config_message \<times> qbf_module) option" where
  "serialize_solver_config_into_msg a m = do {
     i \<leftarrow> get_instance a m;
     let cfg = (case si_configStream i of None \<Rightarrow> si_config i | Some c \<Rightarrow> c);
     Some (\<lparr>cm_kind = PARAC_MESSAGE_SOLVER_DESCRIPTION, cm_config = cfg, cm_originator = si_originator i\<rparr>,
       set_instance a (i\<lparr>si_configStream := Some cfg\<rparr>) m) }"

section \<open>Tasks of the module\<close>

text \<open>The calls of the task store that reach the module: an object is freed, or the handle of a task is stopped.\<close>

definition module_call :: "outcall \<Rightarrow> qbf_module \<Rightarrow> qbf_module option" where
  "module_call c m = (case c of
       FreeUserdata r \<Rightarrow> Some (m\<lparr>um_tasks := (um_tasks m)(r := None), um_parserTasks := (um_parserTasks m)(r := None)\<rparr>)
     | TerminateHandle r \<Rightarrow> do {
         q \<leftarrow> um_tasks m r;
         Some (case qt_terminationFunc q of None \<Rightarrow> m | Some k \<Rightarrow> event (HandleStopped k) m) }
     | _ \<Rightarrow> Some m)"

fun module_calls :: "outcall list \<Rightarrow> qbf_module \<Rightarrow> qbf_module option" where
  "module_calls [] m = Some m"
| "module_calls (c # cs) m = do { m \<leftarrow> module_call c m; module_calls cs m }"

definition module_store_op :: "(task_store \<Rightarrow> task_store option) \<Rightarrow> qbf_module \<Rightarrow> qbf_module option" where
  "module_store_op f m = do {
     s \<leftarrow> f (um_store m);
     module_calls (drop (length (outcalls (um_store m))) (outcalls s)) (m\<lparr>um_store := s\<rparr>) }"

text \<open>The constructor of a task for a manager: it asks its cube source for the size of the cube, so a null source is read.\<close>

definition new_QBFSolverTask :: "task_ref \<Rightarrow> parser \<Rightarrow> qtc option \<Rightarrow> qbf_module \<Rightarrow> qbf_module option" where
  "new_QBFSolverTask r p src m = do {
     src \<leftarrow> src;
     s \<leftarrow> upd_task r (\<lambda>t. t\<lparr>assess := Some (GetAssessFunc (task_quantifier p src)), has_work := True,
            has_free_userdata := True, has_serialize := True, userdata := Some r, state := PARAC_TASK_WORK_AVAILABLE\<rparr>) (um_store m);
     Some (m\<lparr>um_store := s, um_tasks := (um_tasks m)(r \<mapsto>
       \<lparr>qt_cubeSource = src, qt_terminationFunc = None, qt_serialized = None\<rparr>)\<rparr>) }"

text \<open>The outside of the module: the allocator, the file system and \<^verbatim>\<open>StringToFile\<close>, and the fuel of an assessment.\<close>

record module_env =
  me_alloc :: "task_store \<Rightarrow> task_ref option"
  me_files :: "string \<rightharpoonup> string"
  me_to_file :: "string \<Rightarrow> parac_status \<times> string"
  me_fuel :: nat

text \<open>The constructor of the parser task; the status of \<^verbatim>\<open>prepare\<close> is not looked at.\<close>

definition QBFParserTask_init :: "module_env \<Rightarrow> task_ref \<Rightarrow> string \<Rightarrow> parser_cb \<Rightarrow> qbf_module \<Rightarrow> qbf_module option" where
  "QBFParserTask_init env r input cb m = do {
     (status, p) \<leftarrow> prepare (me_to_file env) input parser_init;
     s \<leftarrow> upd_task r (\<lambda>t. t\<lparr>has_work := True, userdata := Some r, has_serialize := False, has_free_userdata := True,
            terminate := None, path := PARAC_PATH_PARSER, state := PARAC_TASK_WORK_AVAILABLE, received_from := None,
            offloaded_to := None\<rparr>) (um_store m);
     Some (m\<lparr>um_store := s, um_parserTasks := (um_parserTasks m)(r \<mapsto> (p, cb))\<rparr>) }"

section \<open>Formulas\<close>

text \<open>
  \<^verbatim>\<open>parser_cb\<close> of the root solver and of the solver of a peer; \<open>parsed\<close> is the parser, or the null pointer.  Both make the
  manager from the parser, the peer prints its path before.
\<close>

definition parserDone_root :: "module_env \<Rightarrow> nat \<Rightarrow> parac_status \<Rightarrow> parser option \<Rightarrow> qbf_module \<Rightarrow> qbf_module option" where
  "parserDone_root env a status parsed m =
     (if status \<noteq> PARAC_OK then Some (event ModRequestExit m)
      else do {
        i \<leftarrow> get_instance a m;
        p \<leftarrow> parsed;
        w \<leftarrow> QBFSolverManager_init (case um_workers m of None \<Rightarrow> 0 | Some n \<Rightarrow> n) p (um_config m) (um_store m);
        let m = set_instance a (i\<lparr>si_task_store := True, si_config := um_config m, si_configured := True,
                  si_parser := Some p, si_manager := Some (qw_objs w)\<rparr>) m;
        r \<leftarrow> me_alloc env (um_store m);
        (root, s) \<leftarrow> newTask r None parac_path_unknown (um_id m) (um_store m);
        r \<leftarrow> root;
        s \<leftarrow> upd_task r (\<lambda>t. t\<lparr>path := parac_path_root\<rparr>) s;
        m \<leftarrow> new_QBFSolverTask r p (Some (QuantifierTreeCubes_init [])) (m\<lparr>um_store := s\<rparr>);
        module_store_op (assess_task (me_fuel env) r) m })"

definition parserDone_peer :: "nat \<Rightarrow> nat \<Rightarrow> parac_status \<Rightarrow> parser option \<Rightarrow> qbf_module \<Rightarrow> qbf_module option" where
  "parserDone_peer a ud status parsed m =
     (if status \<noteq> PARAC_OK then Some (event ModRequestExit m)
      else do {
        p \<leftarrow> parsed;
        i \<leftarrow> get_instance a m;
        w \<leftarrow> QBFSolverManager_init (case um_workers m of None \<Rightarrow> 0 | Some n \<Rightarrow> n) p (si_config i) (um_store m);
        let m = set_instance a (i\<lparr>si_task_store := True, si_parser := Some p, si_manager := Some (qw_objs w)\<rparr>) m;
        Some (event (FormulaParsedCb a ud status) m) })"

definition finishedCB :: "module_env \<Rightarrow> parser_cb \<Rightarrow> parac_status \<Rightarrow> parser option \<Rightarrow> qbf_module \<Rightarrow> qbf_module option" where
  "finishedCB env cb status parsed m = (case cb of
       RootDone a \<Rightarrow> parserDone_root env a status parsed m
     | PeerDone a ud \<Rightarrow> parserDone_peer a ud status parsed m)"

definition parse_formula_file ::
  "module_env \<Rightarrow> string \<Rightarrow> parac_id \<Rightarrow> parser_cb \<Rightarrow> qbf_module \<Rightarrow> (parac_status \<times> qbf_module) option" where
  "parse_formula_file env file orig cb m =
     (if (case um_workers m of None \<Rightarrow> True | Some n \<Rightarrow> n > 0) then do {
        r \<leftarrow> me_alloc env (um_store m);
        (task, s) \<leftarrow> newTask r None PARAC_PATH_PARSER orig (um_store m);
        (case task of
           None \<Rightarrow> Some (PARAC_GENERIC_ERROR, m\<lparr>um_store := s\<rparr>)
         | Some r \<Rightarrow> do {
             m \<leftarrow> QBFParserTask_init env r file cb (m\<lparr>um_store := s\<rparr>);
             m \<leftarrow> module_store_op (assess_task (me_fuel env) r) m;
             Some (PARAC_OK, m) }) }
      else do {
        (status, p) \<leftarrow> prepare (me_to_file env) file parser_init;
        if status \<noteq> PARAC_OK then do {
          m \<leftarrow> finishedCB env cb status None m;
          Some (status, m) }
        else do {
          (status, p) \<leftarrow> parse (me_files env) p;
          m \<leftarrow> finishedCB env cb status None m;
          Some (status, m) } })"

text \<open>The work of a parser task on a worker.\<close>

definition QBFParserTask_work :: "module_env \<Rightarrow> task_ref \<Rightarrow> qbf_module \<Rightarrow> (parac_status \<times> qbf_module) option" where
  "QBFParserTask_work env r m = do {
     (p, cb) \<leftarrow> um_parserTasks m r;
     (status, (status', p)) \<leftarrow> parser_task_work (me_files env) p;
     m \<leftarrow> finishedCB env cb status' (Some p) m;
     Some (status, m) }"

definition initiate_root_solver_on_file :: "module_env \<Rightarrow> nat \<Rightarrow> string \<Rightarrow> qbf_module \<Rightarrow> (parac_status \<times> qbf_module) option" where
  "initiate_root_solver_on_file env a file m = do {
     c_assert (um_input_file m \<noteq> None);
     c_assert (um_workers m \<noteq> None);
     parse_formula_file env file (um_id m) (RootDone a) m }"

definition initiate_peer_solver_on_file ::
  "module_env \<Rightarrow> nat \<Rightarrow> string \<Rightarrow> parac_id \<Rightarrow> nat \<Rightarrow> qbf_module \<Rightarrow> (parac_status \<times> qbf_module) option" where
  "initiate_peer_solver_on_file env a file orig ud m = parse_formula_file env file orig (PeerDone a ud) m"

definition instance_handle_formula :: "module_env \<Rightarrow> nat \<Rightarrow> string \<Rightarrow> nat \<Rightarrow> qbf_module \<Rightarrow> (parac_status \<times> qbf_module) option" where
  "instance_handle_formula env a file ud m = do {
     i \<leftarrow> get_instance a m;
     (status, m) \<leftarrow> initiate_peer_solver_on_file env a file (si_originator i) ud m;
     Some (status, event (FormulaCb status) m) }"

section \<open>Messages\<close>

text \<open>A message to an instance, with its content read: a task comes with its path, its address at the sender and its source.\<close>

datatype instance_message =
    SolverTaskMsg parac_path task_ref qtc node_ref
  | SolverDescriptionMsg qbf_config
  | SolverSatAssignmentMsg
  | NewRemoteAvailableMsg node_ref
  | OtherMsg

definition instance_handle_message :: "module_env \<Rightarrow> nat \<Rightarrow> instance_message \<Rightarrow> qbf_module \<Rightarrow> (parac_status \<times> qbf_module) option" where
  "instance_handle_message env a msg m = do {
     i \<leftarrow> get_instance a m;
     c_assert (si_task_store i);
     m \<leftarrow> (case msg of
         SolverTaskMsg p remoteTask src origin \<Rightarrow> do {
           c_assert (si_configured i);
           c_assert (si_manager i \<noteq> None);
           pars \<leftarrow> si_parser i;
           r \<leftarrow> me_alloc env (um_store m);
           (task, s) \<leftarrow> newTask r None p (si_originator i) (um_store m);
           r \<leftarrow> task;
           s \<leftarrow> upd_task r (\<lambda>t. t\<lparr>received_from := Some origin, parent_task := Some remoteTask\<rparr>) s;
           m \<leftarrow> new_QBFSolverTask r pars None (m\<lparr>um_store := s\<rparr>);
           q \<leftarrow> um_tasks m r;
           m \<leftarrow> module_store_op (assess_task (me_fuel env) r) (m\<lparr>um_tasks := (um_tasks m)(r \<mapsto> q\<lparr>qt_cubeSource := src\<rparr>)\<rparr>);
           Some (event (MsgCb PARAC_OK) m) }
       | SolverDescriptionMsg cfg \<Rightarrow>
           if si_configured i then Some (event (MsgCb PARAC_SOLVER_ALREADY_CONFIGURED_ERROR) m)
           else Some (event (MsgCb PARAC_OK) (set_instance a (i\<lparr>si_config := cfg, si_configured := True\<rparr>) m))
       | SolverSatAssignmentMsg \<Rightarrow> Some (event (MsgCb PARAC_OK) m)
       | NewRemoteAvailableMsg origin \<Rightarrow> Some m
       | OtherMsg \<Rightarrow> None);
     Some (PARAC_OK, m) }"

section \<open>The module\<close>

definition mod_init :: "module_env \<Rightarrow> nat \<Rightarrow> int \<Rightarrow> qbf_module \<Rightarrow> (parac_status \<times> qbf_module) option" where
  "mod_init env a d m = (case um_input_file m of
       None \<Rightarrow> Some (PARAC_OK, m)
     | Some file \<Rightarrow> do {
         let (a, m) = add_instance a d (um_id m) True m;
         i \<leftarrow> get_instance a m;
         let m = set_instance a (i\<lparr>si_config := um_config m\<rparr>) m;
         let m = m\<lparr>um_this_node := Some a\<rparr>;
         initiate_root_solver_on_file env a file m })"

text \<open>
  \<^verbatim>\<open>mod_request_exit\<close>: the manager of every instance waits for its handles and clears them; a manager that is not there is a
  null pointer.  \<open>returned\<close> are the handles the workers give back while it waits.
\<close>

fun request_exit_instances ::
  "(nat \<Rightarrow> (nat \<times> qbf_handle) list list) \<Rightarrow> (nat \<times> qbf_instance) list \<Rightarrow> (qbf_handle list \<times> (nat \<times> qbf_instance) list) option" where
  "request_exit_instances returned [] = Some ([], [])"
| "request_exit_instances returned ((a, i) # is) = do {
     objs \<leftarrow> si_manager i;
     (hs, objs) \<leftarrow> om_clearAll (returned a) objs;
     (rest, is) \<leftarrow> request_exit_instances returned is;
     Some (hs @ rest, (a, i\<lparr>si_manager := Some objs\<rparr>) # is) }"

definition mod_request_exit ::
  "(nat \<Rightarrow> (nat \<times> qbf_handle) list list) \<Rightarrow> qbf_module \<Rightarrow> (parac_status \<times> qbf_handle list \<times> qbf_module) option" where
  "mod_request_exit returned m = do {
     (hs, is) \<leftarrow> request_exit_instances returned (um_instances m);
     Some (PARAC_OK, hs, m\<lparr>um_instances := is\<rparr>) }"

section \<open>The list of instances\<close>

lemma get_set_instance [simp]:
  "get_instance a (set_instance b i m) = (if a = b then map_option (\<lambda>_. i) (get_instance a m) else get_instance a m)"
proof -
  have "map_of (map (\<lambda>(c, j). (c, if c = b then i else j)) xs) a
      = (if a = b then map_option (\<lambda>_. i) (map_of xs a) else map_of xs a)" for xs :: "(nat \<times> qbf_instance) list"
    by (induction xs) auto
  then show ?thesis by (simp add: get_instance_def set_instance_def)
qed

lemma get_instance_upd [simp]:
  "get_instance a (event e m) = get_instance a m" "get_instance a (m\<lparr>um_store := s\<rparr>) = get_instance a m"
  "get_instance a (m\<lparr>um_tasks := ts\<rparr>) = get_instance a m" "get_instance a (m\<lparr>um_parserTasks := ps\<rparr>) = get_instance a m"
  by (simp_all add: get_instance_def event_def)

lemma set_instance_fields [simp]:
  "um_store (set_instance a i m) = um_store m" "um_tasks (set_instance a i m) = um_tasks m" "um_events (set_instance a i m) = um_events m"
  "um_parserTasks (set_instance a i m) = um_parserTasks m" "um_config (set_instance a i m) = um_config m"
  "um_workers (set_instance a i m) = um_workers m" "map fst (um_instances (set_instance a i m)) = map fst (um_instances m)"
  by (auto simp: set_instance_def)

lemma event_fields [simp]:
  "um_events (event e m) = um_events m @ [e]" "um_instances (event e m) = um_instances m" "um_workers (event e m) = um_workers m"
  "um_store (event e m) = um_store m" "um_tasks (event e m) = um_tasks m" "um_parserTasks (event e m) = um_parserTasks m"
  by (simp_all add: event_def)

text \<open>A new instance leaves the others as they are, and removing it gives the list back.\<close>

lemma add_remove_instance:
  assumes "a \<notin> fst ` set (um_instances m)"
  shows "remove_instance a (snd (add_instance a d orig st m)) = Some (PARAC_OK, m)"
    "b \<noteq> a \<Longrightarrow> get_instance b (snd (add_instance a d orig st m)) = get_instance b m"
proof -
  have "filter (\<lambda>(b, i). b \<noteq> a) xs = xs" if "a \<notin> fst ` set xs" for xs :: "(nat \<times> qbf_instance) list"
    using that by (induction xs) auto
  then show "remove_instance a (snd (add_instance a d orig st m)) = Some (PARAC_OK, m)"
    using assms by (simp add: remove_instance_def add_instance_def)
  show "b \<noteq> a \<Longrightarrow> get_instance b (snd (add_instance a d orig st m)) = get_instance b m"
    by (simp add: add_instance_def get_instance_def)
qed

section \<open>Setting up the solver of a peer\<close>

text \<open>The manager a parsed formula gets: as many objects as there are workers, none made yet.\<close>

lemma QBFSolverManager_init_objs:
  "\<exists>w. QBFSolverManager_init n p cfg s = Some w \<and> qw_store w = s
     \<and> qw_objs w = replicate n \<lparr>om_ptr = None, om_nonOwningPtr = None, om_created = False\<rparr>"
  by (simp add: QBFSolverManager_init_def om_init_def)

text \<open>
  C10 (configuration of a peer).  The configuration message of an instance, received by a new instance of another node, gives that
  instance the configuration and the originator of the sender; a further description is refused and changes nothing; and
  when the formula has been parsed there, the manager has one object per worker, and the callback of the formula is called
  with success.  The other instances of the node stay as they are.
\<close>

theorem peer_is_configured:
  assumes i: "get_instance a m = Some i" "si_configStream i = None" and b: "b \<notin> fst ` set (um_instances m')"
    and n: "um_workers m' = Some n"
  shows "\<exists>msg ma m1 m2. serialize_solver_config_into_msg a m = Some (msg, ma)
    \<and> instance_handle_message env b (SolverDescriptionMsg (cm_config msg)) (snd (add_instance b d (cm_originator msg) True m')) = Some (PARAC_OK, m1)
    \<and> um_events m1 = um_events m' @ [MsgCb PARAC_OK]
    \<and> (\<forall>cfg. instance_handle_message env b (SolverDescriptionMsg cfg) m1
          = Some (PARAC_OK, event (MsgCb PARAC_SOLVER_ALREADY_CONFIGURED_ERROR) m1))
    \<and> parserDone_peer b ud PARAC_OK (Some p) m1 = Some m2
    \<and> um_events m2 = um_events m1 @ [FormulaParsedCb b ud PARAC_OK]
    \<and> get_instance b m2 = Some \<lparr>si_originator = si_originator i, si_config = si_config i, si_task_store = True, si_parser = Some p,
        si_manager = Some (replicate n \<lparr>om_ptr = None, om_nonOwningPtr = None, om_created = False\<rparr>), si_configured = True,
        si_configStream = None\<rparr>
    \<and> (\<forall>c. c \<noteq> b \<longrightarrow> get_instance c m2 = get_instance c m')"
proof -
  let ?m0 = "snd (add_instance b d (si_originator i) True m')"
  let ?i0 = "\<lparr>si_originator = si_originator i, si_config = SolverConfig_default d, si_task_store = True, si_parser = None,
        si_manager = None, si_configured = False, si_configStream = None\<rparr>"
  let ?i1 = "?i0\<lparr>si_config := si_config i, si_configured := True\<rparr>"
  let ?m1 = "event (MsgCb PARAC_OK) (set_instance b ?i1 ?m0)"
  obtain w where w: "QBFSolverManager_init n p (si_config i) (um_store m') = Some w"
    "qw_objs w = replicate n \<lparr>om_ptr = None, om_nonOwningPtr = None, om_created = False\<rparr>"
    using QBFSolverManager_init_objs by blast
  have g0: "get_instance b ?m0 = Some ?i0" by (simp add: add_instance_def get_instance_def)
  have f0: "um_events ?m0 = um_events m'" "um_workers ?m0 = um_workers m'" "um_store ?m0 = um_store m'" by (simp_all add: add_instance_def)
  have o: "c \<noteq> b \<Longrightarrow> get_instance c ?m0 = get_instance c m'" for c using add_remove_instance(2) [OF b] by blast
  have s: "serialize_solver_config_into_msg a m = Some (\<lparr>cm_kind = PARAC_MESSAGE_SOLVER_DESCRIPTION, cm_config = si_config i,
      cm_originator = si_originator i\<rparr>, set_instance a (i\<lparr>si_configStream := Some (si_config i)\<rparr>) m)"
    using i by (simp add: serialize_solver_config_into_msg_def Let_def)
  have m1: "instance_handle_message env b (SolverDescriptionMsg (si_config i)) ?m0 = Some (PARAC_OK, ?m1)"
    using g0 by (simp add: instance_handle_message_def)
  have again: "instance_handle_message env b (SolverDescriptionMsg cfg) ?m1
      = Some (PARAC_OK, event (MsgCb PARAC_SOLVER_ALREADY_CONFIGURED_ERROR) ?m1)" for cfg
    using g0 by (simp add: instance_handle_message_def)
  let ?m2 = "event (FormulaParsedCb b ud PARAC_OK) (set_instance b (?i1\<lparr>si_parser := Some p, si_manager := Some (qw_objs w)\<rparr>) ?m1)"
  have m2: "parserDone_peer b ud PARAC_OK (Some p) ?m1 = Some ?m2"
    using g0 w(1) n f0 by (simp add: parserDone_peer_def Let_def)
  show ?thesis
    by (rule exI [of _ "\<lparr>cm_kind = PARAC_MESSAGE_SOLVER_DESCRIPTION, cm_config = si_config i, cm_originator = si_originator i\<rparr>"],
        rule exI [of _ "set_instance a (i\<lparr>si_configStream := Some (si_config i)\<rparr>) m"], rule exI [of _ ?m1], rule exI [of _ ?m2])
      (use s m1 again m2 g0 f0 o w(2) in simp)
qed

definition example_module :: "nat \<Rightarrow> qbf_module" where
  "example_module n = \<lparr>um_instances = [], um_config = (SolverConfig_default 2)\<lparr>m_useDepQBF := True\<rparr>, um_store = TaskStore_init 0 True True 0,
     um_tasks = (\<lambda>_. None), um_parserTasks = (\<lambda>_. None), um_workers = Some n, um_input_file = None, um_id = 7, um_this_node = None,
     um_events = []\<rparr>"

definition example_module_env :: module_env where
  "example_module_env = \<lparr>me_alloc = (\<lambda>s. Some 1), me_files = (\<lambda>_. None), me_to_file = (\<lambda>_. (PARAC_GENERIC_ERROR, [])), me_fuel = 1\<rparr>"

theorem peer_is_configured_witness:
  "\<exists>msg ma m1 m2. serialize_solver_config_into_msg 5 (snd (add_instance 5 3 7 True (example_module 1))) = Some (msg, ma)
    \<and> instance_handle_message example_module_env 4 (SolverDescriptionMsg (cm_config msg)) (snd (add_instance 4 0 (cm_originator msg) True (example_module 2))) = Some (PARAC_OK, m1)
    \<and> parserDone_peer 4 9 PARAC_OK (Some parser_init) m1 = Some m2
    \<and> map_option si_config (get_instance 4 m2) = Some (SolverConfig_default 3)"
proof -
  let ?i = "\<lparr>si_originator = 7, si_config = SolverConfig_default 3, si_task_store = True, si_parser = None,
        si_manager = None, si_configured = False, si_configStream = None\<rparr>"
  have "get_instance 5 (snd (add_instance 5 3 7 True (example_module 1))) = Some ?i" by (simp add: get_instance_def add_instance_def)
  from peer_is_configured [OF this, of 4 "example_module 2" 2 example_module_env 0 9 parser_init] show ?thesis
    by (force simp: example_module_def)
qed

section \<open>Where the module fails\<close>


text \<open>Without workers a formula that is read successfully is passed on as a null pointer, which the callback reads.\<close>

lemma no_workers_no_formula:
  assumes "um_workers m = Some 0" "parse_formula_file env file orig cb m = Some (status, m')"
  shows "status \<noteq> PARAC_OK \<and> m' = event ModRequestExit m"
  using assms by (auto simp: parse_formula_file_def finishedCB_def parserDone_root_def parserDone_peer_def bind_eq_Some_conv Let_def
      split: parser_cb.splits if_splits option.splits)

text \<open>An exit that comes before the formula of an instance is parsed reads the manager that is not there.\<close>

lemma request_exit_early:
  assumes "(a, i) \<in> set (um_instances m)" "si_manager i = None"
  shows "mod_request_exit returned m = None"
proof -
  have "request_exit_instances returned xs = None" if "(a, i) \<in> set xs" for xs
    using that assms(2) by (induction xs) (auto simp: bind_eq_None_conv split: option.splits)
  then show ?thesis using assms(1) by (simp add: mod_request_exit_def)
qed

end
