(* ===== verification/SatModule.thy ===== *)
theory SatModule
  imports SolverVerdict Assignment QbfCubes
begin

unbundle bit_operations_syntax

text \<open>
  The SAT solver module of \<^verbatim>\<open>modules/solver/\<close>: the configuration, the handler of satisfying assignments, the Kissat and the parser
  task, what follows the parsing of a formula on the root and on a peer, the messages to an instance and the start of the module.

  Shown here: a satisfying assignment found anywhere reaches the originator, and only the first one counts; a task that
  another node sends waits for a worker here with all that is needed to answer.
\<close>

section \<open>Configuration\<close>

text \<open>\<^verbatim>\<open>SolverConfig\<close> with its defaults; the two factors are kept as the bits of their floats.\<close>

record solver_config =
  sc_predefinedCubes :: bool
  sc_CaDiCaLCubes :: bool
  sc_resplit :: bool
  sc_disableLocalKissat :: bool
  sc_initialCubeDepth :: u16
  sc_initialMinimalCubeDepth :: u16
  sc_concurrentCubeTreeCount :: u16
  sc_distributeMaxLevel :: u16
  sc_fastSplitFactor :: u32
  sc_splitFactor :: u32
  sc_originatorId :: parac_id
  sc_initialSplitTimeoutMS :: u32
  sc_quapiSolvers :: "quapi_solver list"

definition solver_config_init :: solver_config where
  "solver_config_init = \<lparr>sc_predefinedCubes = False, sc_CaDiCaLCubes = False, sc_resplit = False, sc_disableLocalKissat = False,
     sc_initialCubeDepth = 0, sc_initialMinimalCubeDepth = 0, sc_concurrentCubeTreeCount = 1, sc_distributeMaxLevel = 1,
     sc_fastSplitFactor = 0x3F000000, sc_splitFactor = 0x40000000, sc_originatorId = 0, sc_initialSplitTimeoutMS = 30000,
     sc_quapiSolvers = []\<rparr>"

text \<open>The entries of the command line the configuration is read from.\<close>

record solver_entries =
  en_deactivatePredefinedCubes :: bool
  en_cadicalCubes :: bool
  en_resplit :: bool
  en_quapiSolvers :: "string list"
  en_initialCubeDepth :: u16
  en_initialMinimalCubeDepth :: u16
  en_initialSplitTimeoutMS :: u32
  en_fastSplitFactor :: u32
  en_splitFactor :: u32
  en_disableLocalKissat :: bool
  en_concurrentCubeTreeCount :: u16
  en_distributeMaxLevel :: u16

definition SolverConfig_extract :: "solver_entries \<Rightarrow> solver_config \<Rightarrow> solver_config option" where
  "SolverConfig_extract e cfg = do {
     solvers \<leftarrow> parseQuapiSolversCLI (en_quapiSolvers e) (sc_quapiSolvers cfg);
     Some (cfg\<lparr>sc_predefinedCubes := \<not> en_deactivatePredefinedCubes e, sc_CaDiCaLCubes := en_cadicalCubes e,
       sc_resplit := en_resplit e, sc_disableLocalKissat := en_disableLocalKissat e,
       sc_initialCubeDepth := en_initialCubeDepth e, sc_initialMinimalCubeDepth := en_initialMinimalCubeDepth e,
       sc_initialSplitTimeoutMS := en_initialSplitTimeoutMS e, sc_fastSplitFactor := en_fastSplitFactor e,
       sc_splitFactor := en_splitFactor e, sc_concurrentCubeTreeCount := en_concurrentCubeTreeCount e,
       sc_distributeMaxLevel := en_distributeMaxLevel e, sc_quapiSolvers := solvers\<rparr>) }"

section \<open>State\<close>

text \<open>\<^verbatim>\<open>SatHandler\<close>: the first assignment that was found, and whether it was encoded for the originator.\<close>

record sat_handler =
  sh_originatorId :: parac_id
  sh_assignment :: "SolverAssignment option"
  sh_encoded :: bool

record sat_instance =
  sa_originator :: parac_id
  sa_manager :: "solver_world option"
  sa_satHandler :: sat_handler
  sa_config :: solver_config
  sa_task_store :: bool
  sa_configured :: bool
  sa_configStream :: "solver_config option"

datatype sat_parser_cb = SatRootDone nat | SatPeerDone nat nat

record sat_parser_task =
  pt_input :: string
  pt_path :: string
  pt_cb :: sat_parser_cb

text \<open>The Kissat task of an instance, with the file, and whether the solver was told to stop.\<close>

record kissat_task =
  kt_instance :: nat
  kt_file :: string
  kt_terminated :: bool

datatype sat_event = SatMsgCb parac_status | SatFormulaCb parac_status | SatParsedCb nat nat parac_status | SatSendAssignment parac_id SolverAssignment

text \<open>
  The module with what it reaches through its handle.  The exit status and the calls of \<^verbatim>\<open>request_exit\<close> are those of the task
  store; \<open>sm_assignment\<close> is \<^verbatim>\<open>assignment_data\<close> of the handle.
\<close>

record sat_module =
  sm_instances :: "(nat \<times> sat_instance) list"
  sm_config :: solver_config
  sm_store :: task_store
  sm_parserTasks :: "task_ref \<Rightarrow> sat_parser_task option"
  sm_kissatTasks :: "task_ref \<Rightarrow> kissat_task option"
  sm_workers :: "nat option"
  sm_input_file :: "string option"
  sm_id :: parac_id
  sm_this_node :: "nat option"
  sm_assignment :: "SolverAssignment option"
  sm_events :: "sat_event list"

definition sat_event_add :: "sat_event \<Rightarrow> sat_module \<Rightarrow> sat_module" where
  "sat_event_add e m = m\<lparr>sm_events := sm_events m @ [e]\<rparr>"

definition sat_instance_at :: "nat \<Rightarrow> sat_module \<Rightarrow> sat_instance option" where
  "sat_instance_at a m = map_of (sm_instances m) a"

definition sat_instance_set :: "nat \<Rightarrow> sat_instance \<Rightarrow> sat_module \<Rightarrow> sat_module" where
  "sat_instance_set a i m = m\<lparr>sm_instances := map (\<lambda>(b, j). (b, if b = a then i else j)) (sm_instances m)\<rparr>"

text \<open>
  The outside: the allocator and the peers that can be reached (from \<open>work_env\<close>), the nodes the compute node store knows with
  whether they can be sent to, the files, \<^verbatim>\<open>StringToFile\<close>, what CaDiCaL reads from a file, its fast lookahead, the rounded
  logarithm, Kissat, and the fuel of an assessment.
\<close>

record sat_env =
  se_work :: work_env
  se_nodes :: "parac_id \<Rightarrow> bool option"
  se_exists :: "string \<Rightarrow> bool"
  se_to_file :: "string \<Rightarrow> parac_status \<times> string"
  se_read_dimacs :: "string \<Rightarrow> int list option"
  se_fastLookahead :: "nat \<Rightarrow> parac_status \<times> int list list"
  se_clog :: "nat \<Rightarrow> nat"
  se_kissat :: "string \<Rightarrow> int"
  se_kissat_vars :: int
  se_kissat_value :: "int \<Rightarrow> int"
  se_fuel :: nat

section \<open>The first satisfying assignment\<close>

text \<open>
  \<^verbatim>\<open>handleSatisfyingAssignmentFound\<close>: a second assignment is dropped, and so is one that comes while another thread holds the
  mutex (\<open>contended\<close>).
\<close>

definition handleSatisfyingAssignmentFound ::
  "sat_env \<Rightarrow> bool \<Rightarrow> nat \<Rightarrow> SolverAssignment \<Rightarrow> sat_module \<Rightarrow> sat_module option" where
  "handleSatisfyingAssignmentFound env contended a asg m = do {
     i \<leftarrow> sat_instance_at a m;
     let h = sa_satHandler i;
     if contended \<or> sh_assignment h \<noteq> None then Some m
     else do {
       let h = h\<lparr>sh_assignment := Some asg\<rparr>;
       if sh_originatorId h = sm_id m
       then Some ((sat_instance_set a (i\<lparr>sa_satHandler := h\<rparr>) m)\<lparr>sm_assignment := Some asg,
              sm_store := emit RequestExit ((sm_store m)\<lparr>exit_status := PARAC_SAT\<rparr>)\<rparr>)
       else do {
         c_assert (\<not> sh_encoded h);
         available \<leftarrow> se_nodes env (sh_originatorId h);
         c_assert available;
         Some (sat_event_add (SatSendAssignment (sh_originatorId h) asg)
           (sat_instance_set a (i\<lparr>sa_satHandler := h\<lparr>sh_encoded := True\<rparr>\<rparr>) m)) } } }"

section \<open>Calls of the task store\<close>

text \<open>A call goes to the instance that has the task; the objects of other tasks are those of parser and Kissat tasks.\<close>

fun owner_in :: "task_ref \<Rightarrow> (nat \<times> sat_instance) list \<Rightarrow> (nat \<times> sat_instance \<times> solver_world) option" where
  "owner_in r [] = None"
| "owner_in r ((a, i) # is) = (case sa_manager i of
       None \<Rightarrow> owner_in r is
     | Some w \<Rightarrow> if solverTasks w r = None then owner_in r is else Some (a, i, w))"

definition sat_call :: "(node_ref \<Rightarrow> bool) \<Rightarrow> (task_ref \<Rightarrow> parac_path) \<Rightarrow> outcall \<Rightarrow> sat_module \<Rightarrow> sat_module option" where
  "sat_call available pathof c m =
     (let own = (\<lambda>r. (case owner_in r (sm_instances m) of
           None \<Rightarrow> Some (m\<lparr>sm_parserTasks := (sm_parserTasks m)(r := None), sm_kissatTasks := (sm_kissatTasks m)(r := None)\<rparr>)
         | Some (a, i, w) \<Rightarrow> do {
             w \<leftarrow> solver_call available pathof c (w\<lparr>sw_store := sm_store m\<rparr>);
             Some (sat_instance_set a (i\<lparr>sa_manager := Some w\<rparr>) m) }))
      in case c of
           FreeUserdata r \<Rightarrow> own r
         | LearnedClause r \<Rightarrow> own r
         | TerminateHandle r \<Rightarrow> (case sm_kissatTasks m r of
               None \<Rightarrow> Some m
             | Some k \<Rightarrow> Some (m\<lparr>sm_kissatTasks := (sm_kissatTasks m)(r \<mapsto> k\<lparr>kt_terminated := True\<rparr>)\<rparr>))
         | _ \<Rightarrow> Some m)"

fun sat_calls :: "(node_ref \<Rightarrow> bool) \<Rightarrow> (task_ref \<Rightarrow> parac_path) \<Rightarrow> outcall list \<Rightarrow> sat_module \<Rightarrow> sat_module option" where
  "sat_calls available pathof [] m = Some m"
| "sat_calls available pathof (c # cs) m = do { m \<leftarrow> sat_call available pathof c m; sat_calls available pathof cs m }"

definition sat_store_op :: "sat_env \<Rightarrow> (task_store \<Rightarrow> task_store option) \<Rightarrow> sat_module \<Rightarrow> sat_module option" where
  "sat_store_op env f m = do {
     s \<leftarrow> f (sm_store m);
     sat_calls (env_available (se_work env)) (path_of (sm_store m)) (drop (length (outcalls (sm_store m))) (outcalls s)) (m\<lparr>sm_store := s\<rparr>) }"

text \<open>Running an operation of the manager of an instance on the task store of the node.\<close>

definition with_manager :: "nat \<Rightarrow> (solver_world \<Rightarrow> solver_world option) \<Rightarrow> sat_module \<Rightarrow> sat_module option" where
  "with_manager a f m = do {
     i \<leftarrow> sat_instance_at a m;
     w \<leftarrow> sa_manager i;
     w \<leftarrow> f (w\<lparr>sw_store := sm_store m\<rparr>);
     Some ((sat_instance_set a (i\<lparr>sa_manager := Some w\<rparr>) m)\<lparr>sm_store := sw_store w\<rparr>) }"

section \<open>The Kissat task\<close>

definition KissatTask_init :: "nat \<Rightarrow> string \<Rightarrow> task_ref \<Rightarrow> sat_module \<Rightarrow> sat_module option" where
  "KissatTask_init a file r m = do {
     s \<leftarrow> upd_task r (\<lambda>t. t\<lparr>state := PARAC_TASK_WORK_AVAILABLE, result := PARAC_PENDING, userdata := Some r,
            terminate := Some KissatTaskTerminate, has_work := True, has_free_userdata := True\<rparr>) (sm_store m);
     Some (m\<lparr>sm_store := s, sm_kissatTasks := (sm_kissatTasks m)(r \<mapsto> \<lparr>kt_instance = a, kt_file = file, kt_terminated = False\<rparr>)\<rparr>) }"

definition kissat_status :: "int \<Rightarrow> parac_status" where
  "kissat_status res = (if res = 0 then PARAC_ABORTED else if res = 10 then PARAC_SAT else if res = 20 then PARAC_UNSAT
     else PARAC_UNDEFINED)"

definition KissatTask_work :: "sat_env \<Rightarrow> bool \<Rightarrow> task_ref \<Rightarrow> sat_module \<Rightarrow> (parac_status \<times> sat_module) option" where
  "KissatTask_work env contended r m = do {
     k \<leftarrow> sm_kissatTasks m r;
     let res = se_kissat env (kt_file k);
     m \<leftarrow> (if res = 10 then do {
             asg \<leftarrow> SerializeAssignmentFromSolver (se_kissat_vars env) (se_kissat_value env) (SolverAssignment_init 0);
             handleSatisfyingAssignmentFound env contended (kt_instance k) asg m }
           else Some m);
     Some (kissat_status res, m) }"

section \<open>The parser task\<close>

text \<open>The constructor; a formula that is given on the command line is written to a file first, whatever comes of it.\<close>

definition ParserTask_init :: "sat_env \<Rightarrow> task_ref \<Rightarrow> string \<Rightarrow> sat_parser_cb \<Rightarrow> sat_module \<Rightarrow> sat_module option" where
  "ParserTask_init env r input cb m = do {
     s \<leftarrow> upd_task r (\<lambda>t. t\<lparr>path := PARAC_PATH_PARSER, state := state t OR PARAC_TASK_WORK_AVAILABLE, received_from := None,
            offloaded_to := None, userdata := Some r, has_work := True, has_free_userdata := True\<rparr>) (sm_store m);
     let inline = (case input of [] \<Rightarrow> False | c # _ \<Rightarrow> c = CHR '':'');
     let tmp = snd (se_to_file env (tl input));
     let m = (if inline \<and> sm_input_file m \<noteq> None then m\<lparr>sm_input_file := Some tmp\<rparr> else m);
     Some (m\<lparr>sm_store := s, sm_parserTasks := (sm_parserTasks m)(r \<mapsto>
       \<lparr>pt_input = input, pt_path = (if inline then tmp else input), pt_cb = cb\<rparr>)\<rparr>) }"

text \<open>The manager of an instance, and the cube sources of its roots, which only a node with an input file has.\<close>

definition make_manager :: "sat_env \<Rightarrow> solver_config \<Rightarrow> cadical_handle \<Rightarrow> sat_module \<Rightarrow> (solver_world \<times> source list) option" where
  "make_manager env cfg formula m = do {
     let w = CaDiCaLManager_init (case sm_workers m of None \<Rightarrow> 0 | Some n \<Rightarrow> n) formula (sc_resplit cfg)
               (unat (sc_initialMinimalCubeDepth cfg)) (sm_store m);
     lits \<leftarrow> (if sm_input_file m \<noteq> None \<and> sc_CaDiCaLCubes cfg
              then MakeStartLiteralVector (se_fastLookahead env) (unat (sc_concurrentCubeTreeCount cfg)) else Some [0]);
     Some (w, if sm_input_file m \<noteq> None then rootCubeSources (sc_CaDiCaLCubes cfg) lits else []) }"

text \<open>\<^verbatim>\<open>parserDone\<close> of the root solver: every root of the cube sources becomes a task.\<close>

definition sat_parserDone_root :: "sat_env \<Rightarrow> nat \<Rightarrow> parac_status \<Rightarrow> cadical_handle \<Rightarrow> sat_module \<Rightarrow> sat_module option" where
  "sat_parserDone_root env a status formula m =
     (if status \<noteq> PARAC_OK then Some (m\<lparr>sm_store := emit RequestExit (sm_store m)\<rparr>)
      else do {
        i \<leftarrow> sat_instance_at a m;
        (w, sources) \<leftarrow> make_manager env (sa_config i) formula m;
        let m = sat_instance_set a (i\<lparr>sa_task_store := True, sa_manager := Some w, sa_config := sm_config m, sa_configured := True\<rparr>) m;
        with_manager a (parserDone (se_work env) (se_fuel env) (sm_id m) sources) m })"

definition sat_parserDone_peer :: "sat_env \<Rightarrow> nat \<Rightarrow> nat \<Rightarrow> parac_status \<Rightarrow> cadical_handle \<Rightarrow> sat_module \<Rightarrow> sat_module option" where
  "sat_parserDone_peer env a ud status formula m =
     (if status \<noteq> PARAC_OK then Some (sat_event_add (SatParsedCb a ud status) m)
      else do {
        i \<leftarrow> sat_instance_at a m;
        (w, sources) \<leftarrow> make_manager env (sa_config i) formula m;
        let m = sat_instance_set a (i\<lparr>sa_task_store := True, sa_manager := Some w\<rparr>) m;
        Some (sat_event_add (SatParsedCb a ud status) m) })"

text \<open>\<^verbatim>\<open>ParserTask::work\<close>: nobody is told about a file that does not exist.\<close>

definition ParserTask_work :: "sat_env \<Rightarrow> sat_parser_task \<Rightarrow> sat_module \<Rightarrow> (parac_status \<times> sat_module) option" where
  "ParserTask_work env t m =
     (if \<not> se_exists env (pt_path t) then Some (PARAC_FILE_NOT_FOUND_ERROR, m)
      else do {
        let file = (if pt_path t = ''-'' then ''/dev/stdin'' else pt_path t);
        let (status, formula) = parseFile_finish (se_clog env) (se_read_dimacs env file) cadical_handle_init;
        m \<leftarrow> (case pt_cb t of
                SatRootDone a \<Rightarrow> sat_parserDone_root env a status formula m
              | SatPeerDone a ud \<Rightarrow> sat_parserDone_peer env a ud status formula m);
        Some (status, m) })"

text \<open>\<^verbatim>\<open>parse_formula_file\<close>: without workers the task is worked on at once, on the stack, and never reaches the store.\<close>

definition sat_parse_formula_file :: "sat_env \<Rightarrow> string \<Rightarrow> parac_id \<Rightarrow> sat_parser_cb \<Rightarrow> sat_module \<Rightarrow> (parac_status \<times> sat_module) option" where
  "sat_parse_formula_file env file orig cb m =
     (if (case sm_workers m of None \<Rightarrow> True | Some n \<Rightarrow> n > 0) then do {
        (task, s) \<leftarrow> newTask (env_alloc (se_work env) (sm_store m)) None parac_path_unknown orig (sm_store m);
        r \<leftarrow> task;
        m \<leftarrow> ParserTask_init env r file cb (m\<lparr>sm_store := s\<rparr>);
        m \<leftarrow> sat_store_op env (assess_task (se_fuel env) r) m;
        Some (PARAC_OK, m) }
      else do {
        let inline = (case file of [] \<Rightarrow> False | c # _ \<Rightarrow> c = CHR '':'');
        let tmp = snd (se_to_file env (tl file));
        let m = (if inline \<and> sm_input_file m \<noteq> None then m\<lparr>sm_input_file := Some tmp\<rparr> else m);
        (status, m) \<leftarrow> ParserTask_work env \<lparr>pt_input = file, pt_path = (if inline then tmp else file), pt_cb = cb\<rparr> m;
        Some (PARAC_OK, m) })"

section \<open>Formulas and messages\<close>

text \<open>\<^verbatim>\<open>initiate_root_solver_on_file\<close>: with more than one worker Kissat works on the whole formula beside the cube tree.\<close>

definition sat_initiate_root :: "sat_env \<Rightarrow> nat \<Rightarrow> string \<Rightarrow> sat_module \<Rightarrow> (parac_status \<times> sat_module) option" where
  "sat_initiate_root env a file m = do {
     c_assert (sm_input_file m \<noteq> None);
     workers \<leftarrow> sm_workers m;
     (status, m) \<leftarrow> sat_parse_formula_file env file (sm_id m) (SatRootDone a) m;
     i \<leftarrow> sat_instance_at a m;
     m \<leftarrow> (if workers > 1 \<and> \<not> sc_disableLocalKissat (sa_config i) then do {
             (task, s) \<leftarrow> newTask (env_alloc (se_work env) (sm_store m)) None parac_path_root (sm_id m) (sm_store m);
             r \<leftarrow> task;
             m \<leftarrow> KissatTask_init a file r (m\<lparr>sm_store := s\<rparr>);
             sat_store_op env (assess_task (se_fuel env) r) m }
           else Some m);
     Some (status, m) }"

definition sat_handle_formula :: "sat_env \<Rightarrow> nat \<Rightarrow> string \<Rightarrow> nat \<Rightarrow> sat_module \<Rightarrow> (parac_status \<times> sat_module) option" where
  "sat_handle_formula env a file ud m = do {
     i \<leftarrow> sat_instance_at a m;
     c_assert (sa_manager i = None);
     (status, m) \<leftarrow> sat_parse_formula_file env file (sa_originator i) (SatPeerDone a ud) m;
     Some (status, sat_event_add (SatFormulaCb status) m) }"

datatype sat_message =
    SatTaskMsg parac_path task_ref source node_ref
  | SatDescriptionMsg solver_config
  | SatAssignmentMsg SolverAssignment
  | SatLearnedClausesMsg "int list list" parac_id
  | SatNewRemoteMsg node_ref parac_id
  | SatOtherMsg

fun learn_all :: "(node_ref \<Rightarrow> bool) \<Rightarrow> int list list \<Rightarrow> parac_id \<Rightarrow> solver_world \<Rightarrow> solver_world option" where
  "learn_all available [] src w = Some w"
| "learn_all available (c # cs) src w = do {
     w \<leftarrow> applyAndDistributeNewLearnedClause available c src w;
     learn_all available cs src w }"

text \<open>\<^verbatim>\<open>instance_handle_message\<close>.  A new peer is noted, but its message is not answered.\<close>

definition sat_handle_message :: "sat_env \<Rightarrow> bool \<Rightarrow> nat \<Rightarrow> sat_message \<Rightarrow> sat_module \<Rightarrow> (parac_status \<times> sat_module) option" where
  "sat_handle_message env contended a msg m = do {
     i \<leftarrow> sat_instance_at a m;
     c_assert (sa_task_store i);
     m \<leftarrow> (case msg of
         SatTaskMsg p remoteTask src origin \<Rightarrow> do {
           c_assert (sa_manager i \<noteq> None);
           c_assert (sa_configured i);
           (task, s) \<leftarrow> newTask (env_alloc (se_work env) (sm_store m)) None p (sa_originator i) (sm_store m);
           r \<leftarrow> task;
           s \<leftarrow> upd_task r (\<lambda>t. t\<lparr>received_from := Some origin, parent_task := Some remoteTask\<rparr>) s;
           m \<leftarrow> with_manager a (SolverTask_init r src) (m\<lparr>sm_store := s\<rparr>);
           m \<leftarrow> sat_store_op env (assess_task (se_fuel env) r) m;
           Some (sat_event_add (SatMsgCb PARAC_OK) m) }
       | SatDescriptionMsg cfg \<Rightarrow>
           if sa_configured i then Some (sat_event_add (SatMsgCb PARAC_SOLVER_ALREADY_CONFIGURED_ERROR) m)
           else Some (sat_event_add (SatMsgCb PARAC_OK) (sat_instance_set a (i\<lparr>sa_config := cfg, sa_configured := True\<rparr>) m))
       | SatAssignmentMsg asg \<Rightarrow> do {
           c_assert (sa_manager i \<noteq> None);
           m \<leftarrow> handleSatisfyingAssignmentFound env contended a asg m;
           Some (sat_event_add (SatMsgCb PARAC_OK) m) }
       | SatLearnedClausesMsg cs origin \<Rightarrow> do {
           m \<leftarrow> with_manager a (learn_all (env_available (se_work env)) cs origin) m;
           Some (sat_event_add (SatMsgCb PARAC_OK) m) }
       | SatNewRemoteMsg node nid \<Rightarrow>
           with_manager a (\<lambda>w. addPossiblyNewNodePeer (env_available (se_work env)) node nid w) m
       | SatOtherMsg \<Rightarrow> None);
     Some (PARAC_OK, m) }"

section \<open>The module\<close>

definition sat_add_instance :: "nat \<Rightarrow> parac_id \<Rightarrow> bool \<Rightarrow> sat_module \<Rightarrow> nat \<times> sat_module" where
  "sat_add_instance a originatorId has_store m =
     (a, m\<lparr>sm_instances := (a, \<lparr>sa_originator = originatorId, sa_manager = None,
        sa_satHandler = \<lparr>sh_originatorId = originatorId, sh_assignment = None, sh_encoded = False\<rparr>,
        sa_config = solver_config_init, sa_task_store = has_store, sa_configured = False, sa_configStream = None\<rparr>) # sm_instances m\<rparr>)"

definition sat_remove_instance :: "nat \<Rightarrow> sat_module \<Rightarrow> (parac_status \<times> sat_module) option" where
  "sat_remove_instance a m = do {
     c_assert (a \<in> fst ` set (sm_instances m));
     Some (PARAC_OK, m\<lparr>sm_instances := filter (\<lambda>(b, i). b \<noteq> a) (sm_instances m)\<rparr>) }"

definition sat_serialize_config :: "nat \<Rightarrow> sat_module \<Rightarrow> ((parac_message_kind \<times> solver_config \<times> parac_id) \<times> sat_module) option" where
  "sat_serialize_config a m = do {
     i \<leftarrow> sat_instance_at a m;
     let cfg = (case sa_configStream i of None \<Rightarrow> sa_config i | Some c \<Rightarrow> c);
     Some ((PARAC_MESSAGE_SOLVER_DESCRIPTION, cfg, sa_originator i), sat_instance_set a (i\<lparr>sa_configStream := Some cfg\<rparr>) m) }"

definition sat_mod_init :: "sat_env \<Rightarrow> nat \<Rightarrow> sat_module \<Rightarrow> (parac_status \<times> sat_module) option" where
  "sat_mod_init env a m = (case sm_input_file m of
       None \<Rightarrow> Some (PARAC_OK, m)
     | Some file \<Rightarrow> do {
         let (a, m) = sat_add_instance a (sm_id m) True m;
         i \<leftarrow> sat_instance_at a m;
         let m = sat_instance_set a (i\<lparr>sa_config := sm_config m\<rparr>) m;
         let m = m\<lparr>sm_this_node := Some a\<rparr>;
         sat_initiate_root env a file m })"

section \<open>The first satisfying assignment\<close>

lemma sat_instance_at_set [simp]:
  "sat_instance_at a (sat_instance_set b i m) = (if a = b then map_option (\<lambda>_. i) (sat_instance_at a m) else sat_instance_at a m)"
proof -
  have "map_of (map (\<lambda>(c, j). (c, if c = b then i else j)) xs) a
      = (if a = b then map_option (\<lambda>_. i) (map_of xs a) else map_of xs a)" for xs :: "(nat \<times> sat_instance) list"
    by (induction xs) auto
  then show ?thesis by (simp add: sat_instance_at_def sat_instance_set_def)
qed

lemma sat_instance_at_upd [simp]:
  "sat_instance_at a (sat_event_add e m) = sat_instance_at a m" "sat_instance_at a (m\<lparr>sm_store := s\<rparr>) = sat_instance_at a m"
  "sat_instance_at a (m\<lparr>sm_assignment := x\<rparr>) = sat_instance_at a m" "sat_instance_at a (m\<lparr>sm_kissatTasks := ks\<rparr>) = sat_instance_at a m"
  by (simp_all add: sat_instance_at_def sat_event_add_def)

lemma sat_module_fields [simp]:
  "sm_store (sat_instance_set a i m) = sm_store m" "sm_id (sat_instance_set a i m) = sm_id m" "sm_events (sat_instance_set a i m) = sm_events m"
  "sm_assignment (sat_instance_set a i m) = sm_assignment m" "sm_store (sat_event_add e m) = sm_store m"
  "sm_events (sat_event_add e m) = sm_events m @ [e]" "sm_assignment (sat_event_add e m) = sm_assignment m" "sm_id (sat_event_add e m) = sm_id m"
  by (simp_all add: sat_instance_set_def sat_event_add_def)

text \<open>
  C6 (the assignment reaches the originator).  An assignment that is found on a helping node is sent to the originator, once, and
  every later one on that node is dropped.  The message makes the originator keep exactly this assignment, set the exit
  status to satisfiable and ask for the exit of the program once; any assignment that comes later is answered and dropped.
\<close>

theorem assignment_reaches_originator:
  assumes i: "sat_instance_at a m = Some i" "sh_assignment (sa_satHandler i) = None" "\<not> sh_encoded (sa_satHandler i)"
      "sh_originatorId (sa_satHandler i) = orig" "orig \<noteq> sm_id m" "se_nodes env orig = Some True"
    and j: "sat_instance_at b m' = Some j" "sh_assignment (sa_satHandler j) = None" "sh_originatorId (sa_satHandler j) = orig"
      "sm_id m' = orig" "sa_task_store j" "sa_manager j \<noteq> None"
  shows "\<exists>m1 m2. handleSatisfyingAssignmentFound env False a asg m = Some m1
    \<and> sm_events m1 = sm_events m @ [SatSendAssignment orig asg]
    \<and> (\<forall>c asg'. handleSatisfyingAssignmentFound env c a asg' m1 = Some m1)
    \<and> sat_handle_message env' False b (SatAssignmentMsg asg) m' = Some (PARAC_OK, m2)
    \<and> sm_assignment m2 = Some asg \<and> exit_status (sm_store m2) = PARAC_SAT
    \<and> outcalls (sm_store m2) = outcalls (sm_store m') @ [RequestExit] \<and> sm_events m2 = sm_events m' @ [SatMsgCb PARAC_OK]
    \<and> (\<forall>c asg'. sat_handle_message env' c b (SatAssignmentMsg asg') m2 = Some (PARAC_OK, sat_event_add (SatMsgCb PARAC_OK) m2))"
proof -
  let ?h = "(sa_satHandler i)\<lparr>sh_assignment := Some asg, sh_encoded := True\<rparr>"
  let ?m1 = "sat_event_add (SatSendAssignment orig asg) (sat_instance_set a (i\<lparr>sa_satHandler := ?h\<rparr>) m)"
  let ?m2 = "sat_event_add (SatMsgCb PARAC_OK) ((sat_instance_set b (j\<lparr>sa_satHandler := (sa_satHandler j)\<lparr>sh_assignment := Some asg\<rparr>\<rparr>) m')
      \<lparr>sm_assignment := Some asg, sm_store := emit RequestExit ((sm_store m')\<lparr>exit_status := PARAC_SAT\<rparr>)\<rparr>)"
  have m1: "handleSatisfyingAssignmentFound env False a asg m = Some ?m1"
    using i by (simp add: handleSatisfyingAssignmentFound_def Let_def)
  have again: "handleSatisfyingAssignmentFound env c a asg' ?m1 = Some ?m1" for c asg'
    using i by (simp add: handleSatisfyingAssignmentFound_def)
  have m2: "sat_handle_message env' False b (SatAssignmentMsg asg) m' = Some (PARAC_OK, ?m2)"
    using j by (simp add: sat_handle_message_def handleSatisfyingAssignmentFound_def Let_def)
  have later: "sat_handle_message env' c b (SatAssignmentMsg asg') ?m2 = Some (PARAC_OK, sat_event_add (SatMsgCb PARAC_OK) ?m2)" for c asg'
    using j by (simp add: sat_handle_message_def handleSatisfyingAssignmentFound_def)
  show ?thesis
    by (rule exI [of _ ?m1], rule exI [of _ ?m2]) (use m1 again m2 later in \<open>simp add: emit_def\<close>)
qed

section \<open>A task that was sent to this node\<close>

lemma sat_calls_other:
  "filter to_solver cs = [] \<Longrightarrow> \<exists>ks. sat_calls av pathof cs m = Some (m\<lparr>sm_kissatTasks := ks\<rparr>)"
proof (induction cs arbitrary: m)
  case (Cons c cs)
  then have c: "\<not> to_solver c" "filter to_solver cs = []" by (auto split: if_splits)
  have m: "m = m\<lparr>sm_kissatTasks := sm_kissatTasks m\<rparr>" by simp
  from c(1) have "sat_call av pathof c m = Some m \<or> (\<exists>ks. sat_call av pathof c m = Some (m\<lparr>sm_kissatTasks := ks\<rparr>))"
    by (cases c) (auto simp: sat_call_def to_solver_def split: option.splits)
  with m obtain ks where "sat_call av pathof c m = Some (m\<lparr>sm_kissatTasks := ks\<rparr>)" by metis
  with Cons.IH [OF c(2), of "m\<lparr>sm_kissatTasks := ks\<rparr>"] show ?case by auto
next
  case Nil
  show ?case by (rule exI [of _ "sm_kissatTasks m"]) simp
qed

text \<open>Assessing a new leaf puts it into the queue.\<close>

lemma assess_new_leaf:
  assumes inv: "store_inv s" and tw: "heap s r = Some tw" "\<not> in_work_queue tw" "assess (wt tw) = Some SolverTaskAssess" "userdata (wt tw) \<noteq> None" "has_task_store (wt tw)"
    "state (wt tw) = PARAC_TASK_WORK_AVAILABLE" "result (wt tw) = PARAC_PENDING" "last_state (wt tw) = PARAC_TASK_NEW"
    "path (wt tw) \<noteq> PARAC_PATH_EXPLICITLY_UNKNOWN"
  obtains s' q1 q2 where "assess_task (Suc n) r s = Some s'" "store_inv s'"
    "heap s' = (heap s)(r \<mapsto> tw\<lparr>in_work_queue := True, wt := (wt tw)\<lparr>last_state := PARAC_TASK_WORK_AVAILABLE\<rparr>\<rparr>)"
    "tasksWaitingForWorkerQueue s = q1 @ q2" "tasksWaitingForWorkerQueue s' = q1 @ r # q2" "called [] s s'"
proof -
  have st: "st_has PARAC_TASK_WORK_AVAILABLE PARAC_TASK_WORK_AVAILABLE" "\<not> st_has PARAC_TASK_WORK_AVAILABLE PARAC_TASK_DONE"
    "\<not> st_has PARAC_TASK_WORK_AVAILABLE PARAC_TASK_WAITING_FOR_SPLITS" "\<not> parac_task_state_is_done PARAC_TASK_WORK_AVAILABLE"
    "\<not> st_has PARAC_TASK_WORK_AVAILABLE PARAC_TASK_SPLITTED"
    by (simp_all add: state_bits is_done_bits)
  have run: "run_assess SolverTaskAssess tc r s = Some (PARAC_TASK_WORK_AVAILABLE, s)" for tc
    using tw st by (simp add: SolverTask_static_assess_def parac_task_default_assess_def shared_assess_def)
  obtain s1 q1 q2 where s1: "insert_into_tasksWaitingForWorkerQueue r s = Some s1"
    "heap s1 = (heap s)(r \<mapsto> tw\<lparr>wt := (wt tw)\<lparr>state := state (wt tw) OR PARAC_TASK_WORK_AVAILABLE\<rparr>, in_work_queue := True\<rparr>)"
    "tasksWaitingForWorkerQueue s = q1 @ q2" "tasksWaitingForWorkerQueue s1 = q1 @ r # q2"
    "tasks s1 = tasks s" "store_same s s1" "called [] s s1"
    by (rule insert_eq [OF inv tw(1)])
  let ?tw = "tw\<lparr>in_work_queue := True, wt := (wt tw)\<lparr>last_state := PARAC_TASK_WORK_AVAILABLE\<rparr>\<rparr>"
  have same: "(wt tw)\<lparr>state := PARAC_TASK_WORK_AVAILABLE\<rparr> = wt tw" using tw(6) by (cases "wt tw") simp
  have h1: "heap s1 r = Some (tw\<lparr>in_work_queue := True\<rparr>)" using s1(2) tw(6) same by simp
  let ?s = "s1\<lparr>heap := (heap s1)(r \<mapsto> ?tw)\<rparr>"
  have as: "assess_task (Suc n) r s = Some ?s"
    using run st s1(1) h1 tw same
    by (simp add: assess_task_def assess_task_body_def assess_not_done_def upd_task_iff fun_upd_idem)
  have "assessable tw" using tw(2,6,7) st by (simp add: assessable_def)
  then have "store_inv ?s" using store_step_inv [OF store_step.assess [OF tw(1) _ as] inv] by simp
  with as s1 that show thesis by (simp add: called_def)
qed

lemma new_root_total:
  obtains s' where "newTask a None p orig s = Some (Some a, s')" "tasksWaitingForWorkerQueue s' = tasksWaitingForWorkerQueue s"
proof -
  have m: "heap (manageAutoShutdownTimer x) = heap x" "tasksWaitingForWorkerQueue (manageAutoShutdownTimer x) = tasksWaitingForWorkerQueue x" for x
    using core_ops(1) [of x] by (simp_all add: core_def)
  show thesis
    by (rule that [of "the (map_option snd (newTask a None p orig s))"]) (simp_all add: newTask_def Let_def upd_task_iff m)
qed

text \<open>
  C7 (a task from another node).  A task message for an instance that is set up makes a new task with the path of the
  message, which remembers the sender and the address of the task there, gives it the cube source of the message, and
  puts it into the queue of waiting tasks; the tasks that were there stay as they are, and the message is answered.
\<close>

theorem received_task_waits:
  assumes i: "sat_instance_at a m = Some i" "sa_manager i = Some w" "sa_task_store i" "sa_configured i"
    and inv: "store_inv (sm_store m)" and r: "r = env_alloc (se_work env) (sm_store m)" "heap (sm_store m) r = None"
    and p: "p \<noteq> PARAC_PATH_EXPLICITLY_UNKNOWN" and fuel: "se_fuel env > 0"
  shows "\<exists>m' tw w' st. sat_handle_message env c a (SatTaskMsg p remote src origin) m = Some (PARAC_OK, m')
    \<and> heap (sm_store m') = (heap (sm_store m))(r \<mapsto> tw) \<and> path (wt tw) = p \<and> received_from (wt tw) = Some origin
    \<and> parent_task (wt tw) = Some remote \<and> originator (wt tw) = sa_originator i \<and> result (wt tw) = PARAC_PENDING
    \<and> set (tasksWaitingForWorkerQueue (sm_store m')) = insert r (set (tasksWaitingForWorkerQueue (sm_store m)))
    \<and> store_inv (sm_store m')
    \<and> sat_instance_at a m' = Some (i\<lparr>sa_manager := Some w'\<rparr>) \<and> solverTasks w' = (solverTasks w)(r \<mapsto> st) \<and> st_cubeSource st = src
    \<and> waitingSolverTasks w' = waitingSolverTasks w + 1
    \<and> sm_events m' = sm_events m @ [SatMsgCb PARAC_OK]"
proof -
  let ?s = "sm_store m" and ?o = "sa_originator i"
  let ?f = "\<lparr>wt = fresh_task None p ?o, refcount = 0, in_work_queue = False\<rparr> :: task_wrapper"
  obtain s1 where s1: "newTask r None p ?o ?s = Some (Some r, s1)" "tasksWaitingForWorkerQueue s1 = tasksWaitingForWorkerQueue ?s"
    by (rule new_root_total)
  from new_root_inv [OF inv r(2) s1(1)] have n: "store_inv s1" "heap s1 = (heap ?s)(r \<mapsto> ?f)" by simp_all
  define t2 where "t2 = (fresh_task None p ?o)\<lparr>received_from := Some origin, parent_task := Some remote\<rparr>"
  define t3 where "t3 = t2\<lparr>state := PARAC_TASK_WORK_AVAILABLE, has_work := True, has_serialize := True, userdata := Some r,
      assess := Some SolverTaskAssess, has_free_userdata := True\<rparr>"
  define s2 where "s2 = s1\<lparr>heap := (heap ?s)(r \<mapsto> ?f\<lparr>wt := t2\<rparr>)\<rparr>"
  define s3 where "s3 = s1\<lparr>heap := (heap ?s)(r \<mapsto> ?f\<lparr>wt := t3\<rparr>)\<rparr>"
  define w3 where "w3 = addWaitingSolverTask (w\<lparr>sw_store := s3, solverTasks := (solverTasks w)(r \<mapsto> \<lparr>st_cubeSource = src,
      st_fastSplit = FastSplit_init, st_working = False, st_serialized = False\<rparr>)\<rparr>)"
  define m3 where "m3 = (sat_instance_set a (i\<lparr>sa_manager := Some w3\<rparr>) (m\<lparr>sm_store := s2\<rparr>))\<lparr>sm_store := s3\<rparr>"
  have inv3: "store_inv s3"
    using same_shape_inv [OF n(1), of r ?f "?f\<lparr>wt := t3\<rparr>"]
    by (simp add: s3_def n(2) t3_def t2_def same_links_in_def same_keys_def local_parent_def parent_state_def fresh_task_def
        parac_task_init_def state_bits)
  have h3: "heap s3 r = Some (?f\<lparr>wt := t3\<rparr>)" by (simp add: s3_def)
  obtain k where k: "se_fuel env = Suc k" using fuel by (cases "se_fuel env") auto
  let ?tw3 = "?f\<lparr>wt := t3\<rparr>"
  have tf: "\<not> in_work_queue ?tw3" "assess (wt ?tw3) = Some SolverTaskAssess" "userdata (wt ?tw3) \<noteq> None" "has_task_store (wt ?tw3)"
    "state (wt ?tw3) = PARAC_TASK_WORK_AVAILABLE" "result (wt ?tw3) = PARAC_PENDING" "last_state (wt ?tw3) = PARAC_TASK_NEW"
    "path (wt ?tw3) \<noteq> PARAC_PATH_EXPLICITLY_UNKNOWN"
    using p by (simp_all add: t3_def t2_def fresh_task_def parac_task_init_def)
  obtain s4 q1 q2 where s4: "assess_task (Suc k) r s3 = Some s4" "store_inv s4"
    "heap s4 = (heap s3)(r \<mapsto> ?tw3\<lparr>in_work_queue := True, wt := (wt ?tw3)\<lparr>last_state := PARAC_TASK_WORK_AVAILABLE\<rparr>\<rparr>)"
    "tasksWaitingForWorkerQueue s3 = q1 @ q2" "tasksWaitingForWorkerQueue s4 = q1 @ r # q2" "called [] s3 s4"
    by (rule assess_new_leaf [OF inv3 h3 tf])
  from s4(6) obtain cs where cs: "outcalls s4 = outcalls s3 @ cs" "filter to_solver cs = []" by (auto simp: called_def)
  have m3: "with_manager a (SolverTask_init r src) (m\<lparr>sm_store := s2\<rparr>) = Some m3"
    using i by (simp add: with_manager_def SolverTask_init_def s2_def s3_def t3_def w3_def m3_def upd_task_iff addWaitingSolverTask_def)
  obtain ks where "sat_store_op env (assess_task (se_fuel env) r) m3 = Some (m3\<lparr>sm_store := s4, sm_kissatTasks := ks\<rparr>)"
    using sat_calls_other [OF cs(2), of "env_available (se_work env)" "path_of s3" "m3\<lparr>sm_store := s4\<rparr>"] s4(1) k cs(1)
    by (auto simp: sat_store_op_def m3_def)
  then have h: "sat_handle_message env c a (SatTaskMsg p remote src origin) m
      = Some (PARAC_OK, sat_event_add (SatMsgCb PARAC_OK) (m3\<lparr>sm_store := s4, sm_kissatTasks := ks\<rparr>))"
    using i s1(1) m3 n(2) by (simp add: sat_handle_message_def r(1) [symmetric] upd_task_iff s2_def t2_def)
  have "set (tasksWaitingForWorkerQueue s4) = insert r (set (tasksWaitingForWorkerQueue ?s))"
    using s4(4,5) s1(2) by (simp add: s3_def)
  then show ?thesis using h s4(2,3) i
    by (intro exI conjI) (rule h, auto simp: m3_def s3_def t3_def t2_def fresh_task_def parac_task_init_def w3_def addWaitingSolverTask_def)
qed

section \<open>Examples\<close>

definition example_sat_env :: sat_env where
  "example_sat_env = \<lparr>se_work = example_env (\<lambda>_. True), se_nodes = (\<lambda>n. if n = 7 then Some True else None), se_exists = (\<lambda>_. False),
     se_to_file = (\<lambda>_. (PARAC_GENERIC_ERROR, [])), se_read_dimacs = (\<lambda>_. None), se_fastLookahead = (\<lambda>_. (PARAC_SPLITTED, [])),
     se_clog = (\<lambda>n. n), se_kissat = (\<lambda>_. 0), se_kissat_vars = 1, se_kissat_value = (\<lambda>l. l), se_fuel = 3\<rparr>"

text \<open>A node with identifier \<open>n\<close>, and an instance at address 5 that solves the formula of node 7.\<close>

definition example_instance :: sat_instance where
  "example_instance = \<lparr>sa_originator = 7,
     sa_manager = Some (CaDiCaLManager_init 2 cadical_handle_init False 0 (TaskStore_init 0 True True 0)),
     sa_satHandler = \<lparr>sh_originatorId = 7, sh_assignment = None, sh_encoded = False\<rparr>, sa_config = solver_config_init,
     sa_task_store = True, sa_configured = True, sa_configStream = None\<rparr>"

definition example_sat_module :: "parac_id \<Rightarrow> sat_module" where
  "example_sat_module n = \<lparr>sm_instances = [(5, example_instance)], sm_config = solver_config_init, sm_store = TaskStore_init 0 True True 0,
     sm_parserTasks = (\<lambda>_. None), sm_kissatTasks = (\<lambda>_. None), sm_workers = Some 2, sm_input_file = None, sm_id = n,
     sm_this_node = None, sm_assignment = None, sm_events = []\<rparr>"

lemma example_sat_instance: "sat_instance_at 5 (example_sat_module n) = Some example_instance"
  by (simp add: sat_instance_at_def example_sat_module_def)

theorem assignment_reaches_originator_witness:
  "\<exists>m1 m2. handleSatisfyingAssignmentFound example_sat_env False 5 (SolverAssignment_init 1) (example_sat_module 3) = Some m1
    \<and> sm_events m1 = [SatSendAssignment 7 (SolverAssignment_init 1)]
    \<and> sat_handle_message example_sat_env False 5 (SatAssignmentMsg (SolverAssignment_init 1)) (example_sat_module 7) = Some (PARAC_OK, m2)
    \<and> sm_assignment m2 = Some (SolverAssignment_init 1) \<and> exit_status (sm_store m2) = PARAC_SAT"
proof -
  have i: "sh_assignment (sa_satHandler example_instance) = None" "\<not> sh_encoded (sa_satHandler example_instance)"
    "sh_originatorId (sa_satHandler example_instance) = 7" "sa_task_store example_instance" "sa_manager example_instance \<noteq> None"
    by (simp_all add: example_instance_def)
  have m: "(7::parac_id) \<noteq> sm_id (example_sat_module 3)" "sm_id (example_sat_module 7) = 7" "sm_events (example_sat_module 3) = []"
    by (simp_all add: example_sat_module_def)
  have n: "se_nodes example_sat_env 7 = Some True" by (simp add: example_sat_env_def)
  from assignment_reaches_originator [OF example_sat_instance i(1-3) m(1) n example_sat_instance i(1,3) m(2) i(4,5)] m(3)
  show ?thesis by (metis append_Nil)
qed

theorem received_task_waits_witness:
  "\<exists>m'. sat_handle_message example_sat_env False 5 (SatTaskMsg 2 9 PathDefined 4) (example_sat_module 3) = Some (PARAC_OK, m')
    \<and> set (tasksWaitingForWorkerQueue (sm_store m')) = {first_free (TaskStore_init 0 True True 0)}"
proof -
  let ?r = "first_free (TaskStore_init 0 True True 0)"
  have "?r = env_alloc (se_work example_sat_env) (sm_store (example_sat_module 3))"
    by (simp add: example_sat_env_def example_env_def example_sat_module_def)
  moreover have "store_inv (sm_store (example_sat_module 3))" by (simp add: example_sat_module_def store_init_inv)
  moreover have "heap (sm_store (example_sat_module 3)) ?r = None" by (simp add: example_sat_module_def TaskStore_init_def)
  moreover have "(2::parac_path) \<noteq> PARAC_PATH_EXPLICITLY_UNKNOWN" "se_fuel example_sat_env > 0"
    by (simp_all add: path_consts example_sat_env_def)
  moreover have "sa_manager example_instance \<noteq> None" "sa_task_store example_instance" "sa_configured example_instance"
    by (simp_all add: example_instance_def)
  ultimately obtain m' where "sat_handle_message example_sat_env False 5 (SatTaskMsg 2 9 PathDefined 4) (example_sat_module 3) = Some (PARAC_OK, m')"
    "set (tasksWaitingForWorkerQueue (sm_store m')) = insert ?r (set (tasksWaitingForWorkerQueue (sm_store (example_sat_module 3))))"
    using received_task_waits [OF example_sat_instance [of 3]] by blast
  then show ?thesis by (auto simp: example_sat_module_def TaskStore_init_def)
qed

section \<open>A file that is not there\<close>

text \<open>
  The parser task of a missing file returns an error, and neither the callback of the formula is called nor the exit of the
  program asked for.
\<close>

lemma missing_file_unnoticed:
  "\<not> se_exists env (pt_path t) \<Longrightarrow> ParserTask_work env t m = Some (PARAC_FILE_NOT_FOUND_ERROR, m)"
  by (simp add: ParserTask_work_def)

end
