(* ===== verification/Spec2Isabelle.thy ===== *)
theory Spec2Isabelle
  imports Offloading Assignment QbfCubes SolverVerdict TcpDelivery PortfolioRun Service Runner QbfRun QbfModule SatModule
begin

text \<open>
  Paracooba: distributed cube-and-conquer solving of SAT and QBF formulas.

  \<^bold>\<open>The program.\<close>  A formula is parsed by the solver module, which creates a root task.  Working on a task either
  splits it into the tasks of its two (or several) sub-problems or solves its cube.  Tasks live in the task
  store of the broker, ordered by a priority; the workers of the runner take them from there, and finished
  tasks report their result to their parent until the root has a verdict and the program ends.  The broker
  also keeps a compute node for every peer, exchanges status messages with it and offloads waiting tasks to
  peers that have less to do.  The communicator sends these messages: a queue per peer numbers them and
  waits for acknowledgements, and a TCP connection writes the queue to a socket and reads what the peer
  writes.

  \<^bold>\<open>Conventions.\<close>  A function whose source can fail an \<^verbatim>\<open>assert\<close> returns an option and \<open>None\<close> is the failure;
  everything the source reports as a value (a \<^verbatim>\<open>parac_status\<close>, a null pointer) stays a value.  Structs and classes
  are records with the names of the source's fields, enumerations are datatypes, and fixed-width integers
  are words where they can wrap.  Pointers between tasks are references into an explicit heap.  Callbacks
  and messages are output traces.  A mutex is the atomicity of the step that holds it, except where the
  source uses \<^verbatim>\<open>try_lock\<close> or where an interleaving is the point; there the steps are separate.

  \<^bold>\<open>Theories and sources.\<close>  Paths are relative to \<^verbatim>\<open>src/\<close>.

  \<^item> \<open>Prelude\<close>: words, assertions, decimal numerals, binary search, the locale \<open>weak_order\<close>.

  \<^item> \<open>Status\<close>: \<^verbatim>\<open>include/paracooba/common/status.h\<close>, \<^verbatim>\<open>message_kind.h\<close> and their \<^verbatim>\<open>.c\<close> files.

  \<^item> \<open>Path\<close>: \<^verbatim>\<open>modules/commonc/path.c\<close>, the bit-packed position of a task in the tree.  A path of at most 58
    decisions keeps them, a longer one only its length.  The locale \<open>decision_tree\<close> is the contract of descending.

  \<^item> \<open>Task\<close>: \<^verbatim>\<open>modules/commonc/task.c\<close>, the task, its order and its assessment.  The two quantifiers are
    interpretations of one locale.

  \<^item> \<open>TaskStore\<close>, \<open>TaskStoreInv\<close>, \<open>TaskTree\<close>: \<^verbatim>\<open>modules/broker/broker_task_store.cpp\<close>, its invariant, and its runs.
    The store calls itself and its tasks' functions; \<open>call\<close> gives the calls a depth, and a tree of depth \<open>D\<close> needs
    depth \<open>D + 1\<close>.

  \<^item> \<open>ComputeNode\<close>, \<open>ComputeNodeInv\<close>, \<open>Offloading\<close>: \<^verbatim>\<open>modules/broker/broker_compute_node.cpp\<close> and
    \<^verbatim>\<open>broker_compute_node_store.cpp\<close>.  \<open>SinglePrecision\<close> is the division of two integers in \<^verbatim>\<open>float\<close>.

  \<^item> \<open>SendQueue\<close>: \<^verbatim>\<open>modules/communicator/message_send_queue.cpp\<close>.  \<open>Wire\<close>, \<open>TcpConnection\<close>, \<open>TcpDelivery\<close>:
    \<^verbatim>\<open>packet.hpp\<close>, \<^verbatim>\<open>tcp_connection.cpp\<close>, \<^verbatim>\<open>file_sender.cpp\<close>.  The place where a coroutine waits is a field of the
    state; one call of a handler is the completion of one socket operation.  \<open>read_stream\<close> gives a reader a stream of
    bytes and is bounded by the number of handler calls, which the theorem states exactly.

  \<^item> \<open>Service\<close>: \<^verbatim>\<open>service.cpp\<close>, \<^verbatim>\<open>tcp_connection_initiator.cpp\<close>, \<^verbatim>\<open>tcp_acceptor.cpp\<close>, \<^verbatim>\<open>udp_acceptor.cpp\<close> and
    \<^verbatim>\<open>timeout_controller.cpp\<close> of the same directory: connection strings, attempts and retries, ports, timeouts.

  \<^item> \<open>QbfParser\<close>: \<^verbatim>\<open>modules/solver_qbf/parser_qbf.cpp\<close>.  \<open>QbfCubes\<close>: \<^verbatim>\<open>solver_qbf_config.cpp\<close> and
    \<^verbatim>\<open>qbf_cube_source.cpp\<close>.  \<open>Splitting\<close> is the contract between a cube source and a tree of tasks, which \<open>QbfCubes\<close>
    and \<open>CubeSource\<close> discharge.

  \<^item> \<open>CubeSource\<close>: \<^verbatim>\<open>modules/solver/cube_source.cpp\<close> and the cube file of \<^verbatim>\<open>cadical_handle.cpp\<close>.

  \<^item> \<open>SolverTask\<close>, \<open>SolverTree\<close>, \<open>SolverRun\<close>, \<open>SolverVerdict\<close>: \<^verbatim>\<open>modules/solver/solver_task.cpp\<close>,
    \<^verbatim>\<open>cadical_manager.cpp\<close>, the start of \<^verbatim>\<open>solver.cpp\<close> and one round of \<^verbatim>\<open>modules/runner/runner_worker.cpp\<close>.  The locale
    \<open>tree_source\<close> is the contract between cube sources and runs, interpreted for CaDiCaL's cubes and for given cubes.

  \<^item> \<open>Runner\<close>: \<^verbatim>\<open>modules/runner/runner_worker.cpp\<close> and \<^verbatim>\<open>runner_worker_executor.cpp\<close>, the workers with the places where
    they wait, the mutex, the condition variable and the pings of the task store.

  \<^item> \<open>QbfTask\<close>, \<open>QbfRun\<close>: \<^verbatim>\<open>include/paracooba/util/object_manager.hpp\<close>, \<^verbatim>\<open>modules/solver_qbf/qbf_solver_manager.cpp\<close> and
    \<^verbatim>\<open>qbf_solver_task.cpp\<close>, and the runs of the workers over QBF tasks.  The locale \<open>qbf_values\<close> says which value a cube has;
    it is interpreted by the semantics of the prefix.

  \<^item> \<open>QbfModule\<close>: \<^verbatim>\<open>modules/solver_qbf/solver_qbf.cpp\<close> and \<^verbatim>\<open>qbf_parser_task.cpp\<close>.  \<open>SatModule\<close>: \<^verbatim>\<open>modules/solver/solver.cpp\<close>,
    \<^verbatim>\<open>sat_handler.cpp\<close>, \<^verbatim>\<open>kissat_task.cpp\<close>, \<^verbatim>\<open>parser_task.cpp\<close> and \<^verbatim>\<open>solver_config.cpp\<close>: instances, parser tasks, messages.

  \<^item> \<open>Assignment\<close>: \<^verbatim>\<open>modules/solver/solver_assignment.hpp\<close>.  \<open>Portfolio\<close>, \<open>PortfolioRun\<close>:
    \<^verbatim>\<open>modules/solver_qbf/portfolio_qbf_handle.cpp\<close>, threads as steps.

  \<^bold>\<open>Parameters.\<close>  Code outside the repository and what the environment decides are arguments: the answers of the SAT
  and QBF solvers and CaDiCaL's lookahead, the rounded logarithm of the path length (\<open>clog\<close>), \<^verbatim>\<open>std::stoi\<close>, the clock, the
  order of \<^verbatim>\<open>std::sort\<close> among equals, the file system, sockets and \<^verbatim>\<open>sendfile\<close>, the peers.  What the theorems need of them are
  hypotheses of the theorems, and the witnesses instantiate them.

  \<^bold>\<open>What the theorems show.\<close>

  \<^item> Whole runs: a run of the SAT solver with CaDiCaL's or with given cubes ends after boundedly many rounds of the
    workers, in any order, with the right verdict.  A verdict climbs from a leaf to the root.  A run of the QBF solver
    without integer based splits ends with no verdict other than the value of the formula.

  \<^item> Workers: no waiting task is left lying as long as no notification falls between the test of the flag and the wait,
    and after the exit the workers end.  An object that is lent to a worker is with nobody else and comes back.

  \<^item> Solver modules: a peer ends up with the configuration that was sent to it; a received SAT task waits for a worker with
    what is needed to answer it; a satisfying assignment reaches the originator and only the first one counts.

  \<^item> Task store: the invariant of every reachable store, what taking and offloading return, undoing an offload.

  \<^item> Messages: every accepted message is called back exactly once; two nodes that connect to each other agree on one
    connection; what one connection queues the other delivers, in order; a connection stays well formed whatever arrives.
    No remote is blocked by an attempt that has ended, and retries are bounded.  Every timeout is called once or cancelled.

  \<^item> Broker: offloading leaves work for the local workers; at most one status message per peer is in flight and the
    last one is current.

  \<^item> Splitting: the trees of QBF and SAT cubes have the value of the formula; paths enumerate the cubes of a file.

  \<^item> Portfolio: events are received in order, every call returns, and the result is right once all threads are through.

  \<^item> Round trips of the parser, of paths, of assignments.

  \<^item> Defects that the model makes provable: acknowledgements that lose their status, a queue size that wraps, a task
    offloaded to a dropped peer, an assignment whose values are lost, an uneven split that loses assignments, a killed
    connection whose end tag is taken for a message, a portfolio call that returns the verdict of another cube, a
    wake-up that reaches nobody, and QBF tasks of other nodes that are never accepted.

  \<^bold>\<open>Not modelled.\<close>  Registration of modules and command line options, logging, the module loader, the trace
  visualisation, the start of the service's thread and the sending of announcements are glue around operating system calls.  The wrappers of external solvers
  only forward calls.  The typed values of the configuration, the thread registry and the glue that fills the tables of
  the modules are left out.  Weak references to a connection whose state is gone are not modelled: a connection exists as long as
  its steps are considered.  The runs of the QBF solver consist of whole rounds of the workers on a store that holds the
  tasks of the formula only; for integer based splits the work of a task is modelled and the value of the tree is shown, but
  not the verdict of a run.
\<close>

end
